(* ===== verification/Prelude.thy ===== *)
theory Prelude
  imports Main "HOL-Library.Word"
begin

text \<open>
  What every component of the development shares: the machine integers of a 32-bit x86 build
  (\<open>u8\<close>, \<open>u16\<close>, \<open>u32\<close>, \<open>u64\<close>), the ways kernel code can go wrong (\<open>kerr\<close>), the result type
  \<open>kerr + 'a\<close> with its sequencing \<open>bindE\<close>, and generic lemmas on sorted insertion, on removal
  from lists and on maps. A call that ends in \<open>panic()\<close>, in a page fault, or in an access that C
  leaves undefined is an \<open>Inl\<close> value; every other call is \<open>Inr\<close> of its result. The collection
  \<open>bind_rules\<close> opens a successful sequence of calls into its steps.
\<close>

unbundle bit_operations_syntax

section \<open>Machine integers and failures\<close>

type_synonym u8 = "8 word"
type_synonym u16 = "16 word"
type_synonym u32 = "32 word"
type_synonym u64 = "64 word"

text \<open>A string literal as bytes, without its null byte.\<close>

definition letters :: "string \<Rightarrow> u8 list" where "letters s = map (\<lambda>c. of_nat (of_char c)) s"

datatype kerr =
    Panic            \<comment> \<open>\<open>panic()\<close>, or an \<open>assert\<close> that fails\<close>
  | Null_Deref       \<comment> \<open>a dereference of the null pointer (page 0 is not mapped)\<close>
  | Use_After_Free   \<comment> \<open>a dereference of a block given back to the allocator\<close>
  | Out_Of_Bounds    \<comment> \<open>an access outside the array the source indexes\<close>
  | Divide_Error     \<comment> \<open>the processor's divide exception\<close>
  | No_Return        \<comment> \<open>a loop that never ends\<close>

type_synonym 'a res = "kerr + 'a"

section \<open>Sequencing\<close>

named_theorems bind_rules

definition bindE :: "'a res \<Rightarrow> ('a \<Rightarrow> 'b res) \<Rightarrow> 'b res" where
  "bindE m f = (case m of Inl e \<Rightarrow> Inl e | Inr x \<Rightarrow> f x)"

definition assertE :: "bool \<Rightarrow> 'a \<Rightarrow> 'a res" where
  "assertE b x = (if b then Inr x else Inl Panic)"

lemma bindE_simps [simp]:
  "bindE (Inl e) f = Inl e"
  "bindE (Inr x) f = f x"
  by (simp_all add: bindE_def)

lemma bindE_Inr_iff [bind_rules]: "bindE m f = Inr y \<longleftrightarrow> (\<exists>x. m = Inr x \<and> f x = Inr y)"
  by (auto simp: bindE_def split: sum.splits)

lemma bindE_Inl_iff: "bindE m f = Inl e \<longleftrightarrow> m = Inl e \<or> (\<exists>x. m = Inr x \<and> f x = Inl e)"
  by (auto simp: bindE_def split: sum.splits)

lemma bindE_InrE:
  assumes "bindE m f = Inr y"
  obtains x where "m = Inr x" and "f x = Inr y"
  using assms by (auto simp: bindE_Inr_iff)

lemma bindE_assoc: "bindE (bindE m f) g = bindE m (\<lambda>x. bindE (f x) g)"
  by (simp add: bindE_def split: sum.split)

lemma bindE_cong [fundef_cong]:
  "m = m' \<Longrightarrow> (\<And>x. m' = Inr x \<Longrightarrow> f x = f' x) \<Longrightarrow> bindE m f = bindE m' f'"
  by (simp add: bindE_def split: sum.split)

lemma assertE_simps [simp]:
  "b \<Longrightarrow> assertE b x = Inr x"
  "\<not> b \<Longrightarrow> assertE b x = Inl Panic"
  by (simp_all add: assertE_def)

lemma assertE_Inr_iff [bind_rules]: "assertE b x = Inr y \<longleftrightarrow> b \<and> y = x"
  by (auto simp: assertE_def)

lemma case_success: "(case r of Inl e \<Rightarrow> False | Inr x \<Rightarrow> P x) \<longleftrightarrow> (\<exists>x. r = Inr x \<and> P x)"
  by (cases r) auto

text \<open>Running a fallible step over a list, up to the first failure.\<close>

fun foldE :: "('a \<Rightarrow> 's \<Rightarrow> 's res) \<Rightarrow> 'a list \<Rightarrow> 's \<Rightarrow> 's res" where
  "foldE f [] s = Inr s"
| "foldE f (x # xs) s = bindE (f x s) (foldE f xs)"

lemma foldE_append: "foldE f (xs @ ys) s = bindE (foldE f xs s) (foldE f ys)"
  by (induction xs arbitrary: s) (simp_all add: bindE_def split: sum.split)

lemma foldE_invariant:
  assumes "foldE f xs s = Inr s'" and "I s"
    and "\<And>x s s'. x \<in> set xs \<Longrightarrow> I s \<Longrightarrow> f x s = Inr s' \<Longrightarrow> I s'"
  shows "I s'"
  using assms by (induction xs arbitrary: s) (auto simp: bindE_Inr_iff)

section \<open>Insertion before the first element that is not smaller\<close>

text \<open>
  \<open>queue_add\<close> walks from the head over every element whose key is strictly smaller and links the
  new element there.
\<close>

fun insert_asc :: "('a \<Rightarrow> int) \<Rightarrow> 'a \<Rightarrow> 'a list \<Rightarrow> 'a list" where
  "insert_asc f x [] = [x]"
| "insert_asc f x (y # ys) = (if f y < f x then y # insert_asc f x ys else x # y # ys)"

lemma insert_asc_nonempty [simp]: "insert_asc f x xs \<noteq> []"
  by (cases xs) simp_all

lemma set_insert_asc [simp]: "set (insert_asc f x xs) = insert x (set xs)"
  by (induction xs) auto

lemma length_insert_asc [simp]: "length (insert_asc f x xs) = Suc (length xs)"
  by (induction xs) auto

lemma distinct_insert_asc [simp]: "distinct (insert_asc f x xs) \<longleftrightarrow> distinct xs \<and> x \<notin> set xs"
  by (induction xs) auto

lemma sorted_insert_asc: "sorted (map f xs) \<Longrightarrow> sorted (map f (insert_asc f x xs))"
  by (induction xs) auto

lemma remove1_insert_asc [simp]: "x \<notin> set xs \<Longrightarrow> remove1 x (insert_asc f x xs) = xs"
  by (induction xs) auto

lemma insert_asc_split: "insert_asc f x xs = takeWhile (\<lambda>y. f y < f x) xs @ x # dropWhile (\<lambda>y. f y < f x) xs"
  by (induction xs) auto

lemma insert_asc_cong: "(\<And>y. y \<in> insert x (set xs) \<Longrightarrow> f y = g y) \<Longrightarrow> insert_asc f x xs = insert_asc g x xs"
  by (induction xs) auto

lemma last_insert_asc_max:
  "xs \<noteq> [] \<Longrightarrow> sorted (map f xs) \<Longrightarrow> f x \<le> f (last xs) \<Longrightarrow> last (insert_asc f x xs) = last xs"
  by (induction xs) (auto split: if_splits)

section \<open>Lists and maps\<close>

lemma sorted_map_remove1: "sorted (map f xs) \<Longrightarrow> sorted (map f (remove1 x xs))"
proof (induction xs)
  case (Cons y ys)
  moreover have "set (remove1 x ys) \<subseteq> set ys" by (rule set_remove1_subset)
  ultimately show ?case by auto
qed simp

lemma sorted_map_butlast: "sorted (map f xs) \<Longrightarrow> sorted (map f (butlast xs))"
  by (simp add: map_butlast sorted_butlast)

lemma sorted_map_last_max:
  fixes f :: "'a \<Rightarrow> 'b::linorder"
  shows "sorted (map f xs) \<Longrightarrow> x \<in> set xs \<Longrightarrow> f x \<le> f (last xs)"
  by (induction xs) (auto split: if_splits)

lemma butlast_remove1_last: "distinct xs \<Longrightarrow> xs \<noteq> [] \<Longrightarrow> butlast xs = remove1 (last xs) xs"
  by (induction xs) auto

lemma sorted_map_cong:
  "(\<And>x. x \<in> set xs \<Longrightarrow> f x = g x) \<Longrightarrow> sorted (map f xs) = sorted (map g xs)"
  by (metis list.map_cong0)

lemma not_Some_unit [simp]: "u \<noteq> Some () \<longleftrightarrow> u = None"
  by (cases u) simp_all

section \<open>Words\<close>

lemma unat_shr: "unat (drop_bit n w) = unat w div 2 ^ n" for w :: "'a::len word"
  unfolding unat_drop_bit_eq by (rule drop_bit_eq_div)

lemma unat_shr1: "unat (drop_bit (Suc 0) w) = unat w div 2" for w :: "'a::len word"
  using unat_shr [of "Suc 0" w] by simp

lemma uint_pow2: "n < LENGTH('a) \<Longrightarrow> uint (2 ^ n :: 'a::len word) = 2 ^ n"
  by (intro uint_2p) (simp add: word_gt_0 exp_eq_zero_iff)

lemma unat_pow2: "n < LENGTH('a) \<Longrightarrow> unat (2 ^ n :: 'a::len word) = 2 ^ n"
  by (simp add: unat_eq_nat_uint uint_pow2 nat_power_eq)

lemma unat_add_no_wrap: "\<not> w + c < w \<Longrightarrow> unat (w + c) = unat w + unat c" for w :: "'a::len word"
  by (meson not_less unat_plus_simple)

lemma unat_bound: "unat (w :: 'a::len word) < 2 ^ LENGTH('a)"
  by (rule unsigned_less)

lemma sorted_map_agree: "sorted (map f xs) \<Longrightarrow> (\<And>x. x \<in> set xs \<Longrightarrow> g x = f x) \<Longrightarrow> sorted (map g xs)"
  by (subst map_cong [OF refl]) auto


section \<open>Small numbers in machine words\<close>

lemma unat_of_nat32: "n < 2 ^ 32 \<Longrightarrow> unat (of_nat n :: u32) = n"
  by (simp add: unat_of_nat take_bit_eq_mod)

lemma of_nat32_inj: "i < 2 ^ 32 \<Longrightarrow> j < 2 ^ 32 \<Longrightarrow> (of_nat i :: u32) = of_nat j \<longleftrightarrow> i = j"
  by (metis unat_of_nat32)

lemma unat_plus_of_nat: "unat p + n < 2 ^ 32 \<Longrightarrow> unat (p + of_nat n) = unat p + n" for p :: u32
  by (simp add: unat_word_ariths unat_of_nat take_bit_eq_mod)

text \<open>A 32-bit word read as a signed number.\<close>

lemma sint_unat: "sint w = (if unat w < 2 ^ 31 then int (unat w) else int (unat w) - 2 ^ 32)" for w :: u32
proof -
  have b: "unat w < 2 ^ 32" using unat_bound [of w] by simp
  have "sint w = signed_take_bit 31 (uint w)" by (simp add: sint_uint)
  also have "\<dots> = (uint w + 2 ^ 31) mod 2 ^ 32 - 2 ^ 31" by (simp add: signed_take_bit_eq_take_bit_shift take_bit_eq_mod)
  also have "uint w = int (unat w)" by simp
  finally have s: "sint w = (int (unat w) + 2 ^ 31) mod 2 ^ 32 - 2 ^ 31" .
  have shift: "(int k + 2 ^ 31) mod 2 ^ 32 - 2 ^ 31 = (if k < 2 ^ 31 then int k else int k - 2 ^ 32)"
    if "k < 2 ^ 32" for k
  proof (cases "k < 2 ^ 31")
    case False
    have "(int k + 2 ^ 31) mod 2 ^ 32 = (int k - 2 ^ 31 + 2 ^ 32) mod 2 ^ 32" by (simp add: add.commute)
    also have "\<dots> = (int k - 2 ^ 31) mod 2 ^ 32" by (rule mod_add_self2)
    also have "\<dots> = int k - 2 ^ 31" using False that by (intro mod_pos_pos_trivial) simp_all
    finally show ?thesis using False by simp
  qed simp
  show ?thesis unfolding s by (rule shift [OF b])
qed

lemma sint_nonneg: "0 \<le> sint w \<longleftrightarrow> unat w < 2 ^ 31" "0 \<le> sint w \<Longrightarrow> sint w = int (unat w)" for w :: u32
proof -
  have sign: "0 \<le> (if k < 2 ^ 31 then int k else int k - 2 ^ 32) \<longleftrightarrow> k < 2 ^ 31" if "k < 2 ^ 32" for k
    using that by auto
  show n: "0 \<le> sint w \<longleftrightarrow> unat w < 2 ^ 31" unfolding sint_unat by (rule sign) (use unat_bound [of w] in simp)
  show "0 \<le> sint w \<Longrightarrow> sint w = int (unat w)" using n sint_unat [of w] by presburger
qed

end
