(* ===== verification/LinkHeap.thy ===== *)
theory LinkHeap
  imports Prelude
begin

text \<open>
  The intrusive circular doubly linked queues of \<open>shared/queue.h\<close>, at the level of the pointers.
  A \<open>lheap\<close> is the memory of the \<open>struct list_link\<close> fields, by the address of the link; a queue is
  named by the address of its head link. The macros become functions over the heap: an \<open>assert\<close>
  that fails is \<open>Inl Panic\<close>, a null pointer followed is \<open>Inl Null_Deref\<close>, and a walk that never
  comes back to its head is \<open>None\<close>. \<open>is_queue h head xs\<close> says that the links reachable from
  \<open>head\<close> are exactly \<open>xs\<close>, in both directions; every macro is proved to be the list operation
  it stands for, and to leave every other link of the memory alone.
\<close>

section \<open>Links and the macros of queue.h\<close>

record link =
  lprev :: u32
  lnext :: u32

type_synonym lheap = "u32 \<Rightarrow> link"

definition null_link :: link where
  "null_link = \<lparr>lprev = 0, lnext = 0\<rparr>"

definition set_lnext :: "u32 \<Rightarrow> u32 \<Rightarrow> lheap \<Rightarrow> lheap" where
  "set_lnext a v h = h(a := (h a)\<lparr>lnext := v\<rparr>)"

definition set_lprev :: "u32 \<Rightarrow> u32 \<Rightarrow> lheap \<Rightarrow> lheap" where
  "set_lprev a v h = h(a := (h a)\<lparr>lprev := v\<rparr>)"

text \<open>\<open>INIT_LIST_HEAD\<close>, \<open>INIT_LINK\<close>, \<open>IS_LINK_NULL\<close> and the pointer arithmetic of \<open>queue_entry\<close>.\<close>

definition init_list_head :: "u32 \<Rightarrow> lheap \<Rightarrow> lheap" where
  "init_list_head a h = set_lprev a a (set_lnext a a h)"

definition init_link :: "u32 \<Rightarrow> lheap \<Rightarrow> lheap" where
  "init_link a h = set_lprev a 0 (set_lnext a 0 h)"

definition is_link_null :: "u32 \<Rightarrow> lheap \<Rightarrow> bool" where
  "is_link_null a h \<longleftrightarrow> lnext (h a) = 0 \<and> lprev (h a) = 0"

definition queue_entry :: "u32 \<Rightarrow> u32 \<Rightarrow> u32" where
  "queue_entry l off = l - off"

definition queue_empty :: "u32 \<Rightarrow> lheap \<Rightarrow> bool" where
  "queue_empty head h \<longleftrightarrow> lnext (h head) = head"

text \<open>
  \<open>queue_add\<close>: the \<open>do ... while\<close> that looks for the place, then the four assignments. The
  argument \<open>prio\<close> reads the priority field of an element.
\<close>

partial_function (option) add_walk ::
  "(u32 \<Rightarrow> int) \<Rightarrow> u32 \<Rightarrow> u32 \<Rightarrow> int \<Rightarrow> lheap \<Rightarrow> u32 \<Rightarrow> u32 res option" where
  "add_walk prio off head p h cur =
     (if cur = 0 then Some (Inl Null_Deref)
      else let c = lnext (h cur) in
        if c \<noteq> head \<and> prio (queue_entry c off) < p then add_walk prio off head p h c
        else Some (Inr c))"

definition link_before :: "u32 \<Rightarrow> u32 \<Rightarrow> lheap \<Rightarrow> lheap res" where
  "link_before el cur h =
     (let h1 = set_lnext el cur h;
          h2 = set_lprev el (lprev (h1 cur)) h1
      in if cur = 0 \<or> lprev (h2 cur) = 0 then Inl Null_Deref
         else Inr (set_lprev cur el (set_lnext (lprev (h2 cur)) el h2)))"

definition queue_add :: "(u32 \<Rightarrow> int) \<Rightarrow> u32 \<Rightarrow> u32 \<Rightarrow> u32 \<Rightarrow> lheap \<Rightarrow> lheap res option" where
  "queue_add prio off elem head h =
     (let el = elem + off in
      if \<not> (lprev (h el) = 0 \<and> lnext (h el) = 0) then Some (Inl Panic)
      else Option.bind (add_walk prio off head (prio elem) h head)
             (\<lambda>r. Some (bindE r (\<lambda>cur. link_before el cur h))))"

text \<open>\<open>queue_del\<close>: its two links must not be null, and it is reset afterwards.\<close>

definition queue_del :: "u32 \<Rightarrow> u32 \<Rightarrow> lheap \<Rightarrow> lheap res" where
  "queue_del off elem h =
     (let el = elem + off in
      if \<not> (lprev (h el) \<noteq> 0 \<and> lnext (h el) \<noteq> 0) then Inl Panic
      else let h1 = set_lnext (lprev (h el)) (lnext (h el)) h;
               h2 = set_lprev (lnext (h1 el)) (lprev (h1 el)) h1;
               h3 = set_lnext el 0 h2
           in Inr (set_lprev el 0 h3))"

definition queue_update :: "(u32 \<Rightarrow> int) \<Rightarrow> u32 \<Rightarrow> u32 \<Rightarrow> u32 \<Rightarrow> lheap \<Rightarrow> lheap res option" where
  "queue_update prio off elem head h =
     (case queue_del off elem h of
        Inl e \<Rightarrow> Some (Inl e)
      | Inr h' \<Rightarrow> queue_add prio off elem head h')"

text \<open>\<open>queue_out\<close>, \<open>queue_top\<close> and \<open>queue_bottom\<close>: 0 is the null pointer of an empty queue.\<close>

definition queue_out :: "u32 \<Rightarrow> u32 \<Rightarrow> lheap \<Rightarrow> (u32 \<times> lheap) res" where
  "queue_out diff head h =
     (let ptr = lprev (h head) in
      if queue_empty head h then Inr (0, h)
      else if ptr = 0 then Inl Null_Deref
      else let h1 = set_lprev head (lprev (h ptr)) h in
        if lprev (h1 head) = 0 then Inl Null_Deref
        else let h2 = set_lnext (lprev (h1 head)) head h1;
                 h3 = set_lprev ptr 0 h2;
                 h4 = set_lnext ptr 0 h3
             in Inr (ptr - diff, h4))"

definition queue_top :: "u32 \<Rightarrow> u32 \<Rightarrow> lheap \<Rightarrow> u32" where
  "queue_top diff head h = (if queue_empty head h then 0 else lprev (h head) - diff)"

definition queue_bottom :: "u32 \<Rightarrow> u32 \<Rightarrow> lheap \<Rightarrow> u32" where
  "queue_bottom diff head h = (if queue_empty head h then 0 else lnext (h head) - diff)"

text \<open>
  The iterators \<open>queue_for_each\<close> and \<open>queue_for_each_prev\<close> over a body that only reads: the
  elements in the order they are visited. \<open>queue_for_each_safe\<close> runs a body that may unlink the
  element it is given; the successor is read before the body runs.
\<close>

partial_function (option) for_each_from :: "u32 \<Rightarrow> u32 \<Rightarrow> lheap \<Rightarrow> u32 \<Rightarrow> u32 list res option" where
  "for_each_from off head h p =
     (if p + off = head then Some (Inr [])
      else if p + off = 0 then Some (Inl Null_Deref)
      else Option.bind (for_each_from off head h (queue_entry (lnext (h (p + off))) off))
             (\<lambda>r. Some (bindE r (\<lambda>ps. Inr (p # ps)))))"

definition queue_for_each :: "u32 \<Rightarrow> u32 \<Rightarrow> lheap \<Rightarrow> u32 list res option" where
  "queue_for_each off head h = for_each_from off head h (queue_entry (lnext (h head)) off)"

partial_function (option) for_each_prev_from :: "u32 \<Rightarrow> u32 \<Rightarrow> lheap \<Rightarrow> u32 \<Rightarrow> u32 list res option" where
  "for_each_prev_from off head h p =
     (if p + off = head then Some (Inr [])
      else if p + off = 0 then Some (Inl Null_Deref)
      else Option.bind (for_each_prev_from off head h (queue_entry (lprev (h (p + off))) off))
             (\<lambda>r. Some (bindE r (\<lambda>ps. Inr (p # ps)))))"

definition queue_for_each_prev :: "u32 \<Rightarrow> u32 \<Rightarrow> lheap \<Rightarrow> u32 list res option" where
  "queue_for_each_prev off head h = for_each_prev_from off head h (queue_entry (lprev (h head)) off)"

partial_function (option) for_each_safe_from ::
  "(u32 \<Rightarrow> lheap \<Rightarrow> lheap res) \<Rightarrow> u32 \<Rightarrow> u32 \<Rightarrow> lheap \<Rightarrow> u32 \<Rightarrow> u32 \<Rightarrow> lheap res option" where
  "for_each_safe_from body off head h p tmp =
     (if p + off = head then Some (Inr h)
      else case body p h of
        Inl e \<Rightarrow> Some (Inl e)
      | Inr h' \<Rightarrow> for_each_safe_from body off head h' tmp (queue_entry (lnext (h' (tmp + off))) off))"

definition queue_for_each_safe ::
  "(u32 \<Rightarrow> lheap \<Rightarrow> lheap res) \<Rightarrow> u32 \<Rightarrow> u32 \<Rightarrow> lheap \<Rightarrow> lheap res option" where
  "queue_for_each_safe body off head h =
     (let p = queue_entry (lnext (h head)) off
      in for_each_safe_from body off head h p (queue_entry (lnext (h (p + off))) off))"

section \<open>Well-formed queues\<close>

fun chain :: "lheap \<Rightarrow> u32 list \<Rightarrow> bool" where
  "chain h (a # b # r) \<longleftrightarrow> lnext (h a) = b \<and> lprev (h b) = a \<and> chain h (b # r)"
| "chain h _ \<longleftrightarrow> True"

definition is_queue :: "lheap \<Rightarrow> u32 \<Rightarrow> u32 list \<Rightarrow> bool" where
  "is_queue h head xs \<longleftrightarrow>
     distinct (head # xs) \<and> 0 \<notin> set (head # xs) \<and> chain h (head # xs @ [head])"

lemma lheap_simps [simp]:
  "lnext (set_lnext a v h b) = (if b = a then v else lnext (h b))"
  "lprev (set_lnext a v h b) = lprev (h b)"
  "lprev (set_lprev a v h b) = (if b = a then v else lprev (h b))"
  "lnext (set_lprev a v h b) = lnext (h b)"
  by (simp_all add: set_lnext_def set_lprev_def)

lemma set_link_other: "b \<noteq> a \<Longrightarrow> set_lnext a v h b = h b" "b \<noteq> a \<Longrightarrow> set_lprev a v h b = h b"
  by (simp_all add: set_lnext_def set_lprev_def)

lemma queue_entry_add [simp]: "queue_entry l off + off = l" "queue_entry (p + off) off = p"
  by (simp_all add: queue_entry_def)

lemma chain_append [simp]: "chain h (xs @ a # b # ys) \<longleftrightarrow>
    chain h (xs @ [a]) \<and> lnext (h a) = b \<and> lprev (h b) = a \<and> chain h (b # ys)"
  by (induction h xs rule: chain.induct) auto

lemma chain_cong:
  assumes "\<And>a. a \<in> set (butlast xs) \<Longrightarrow> lnext (h' a) = lnext (h a)"
    and "\<And>a. a \<in> set (tl xs) \<Longrightarrow> lprev (h' a) = lprev (h a)"
    and "chain h xs"
  shows "chain h' xs"
  using assms by (induction h xs rule: chain.induct) auto

lemma ring_split:
  "p # xs @ ys @ [q] = butlast (p # xs) @ last (p # xs) # hd (ys @ [q]) # tl (ys @ [q])"
proof -
  have "p # xs = butlast (p # xs) @ [last (p # xs)]" by simp
  moreover have "ys @ [q] = hd (ys @ [q]) # tl (ys @ [q])" by (cases ys) simp_all
  ultimately show ?thesis by (metis append.assoc append_Cons append_Nil)
qed

lemma is_queue_nil [simp]: "is_queue h head [] \<longleftrightarrow> head \<noteq> 0 \<and> lnext (h head) = head \<and> lprev (h head) = head"
  by (auto simp: is_queue_def)

lemma is_queue_frame:
  assumes "is_queue h head xs" and "\<And>a. a \<in> set (head # xs) \<Longrightarrow> h' a = h a"
  shows "is_queue h' head xs"
  using assms unfolding is_queue_def
  by (auto intro!: chain_cong [where h = h] dest!: in_set_butlastD)

lemma is_queue_empty: "is_queue h head xs \<Longrightarrow> queue_empty head h \<longleftrightarrow> xs = []"
  by (cases xs) (auto simp: is_queue_def queue_empty_def)

lemma is_queue_last:
  assumes "is_queue h head xs" shows "lprev (h head) = last (head # xs)"
proof -
  have "head # xs @ [head] = butlast (head # xs) @ last (head # xs) # head # []"
    using ring_split [of head xs "[]" head] by simp
  with assms show ?thesis unfolding is_queue_def by (metis chain_append)
qed

lemma is_queue_first: "is_queue h head xs \<Longrightarrow> lnext (h head) = hd (xs @ [head])"
  by (cases xs) (auto simp: is_queue_def)

lemma is_queue_nonnull:
  assumes "is_queue h head xs" and "a \<in> set (head # xs)"
  shows "lnext (h a) \<noteq> 0" and "lprev (h a) \<noteq> 0"
proof -
  obtain ys zs where sp: "head # xs = ys @ a # zs" using assms(2) by (metis split_list)
  have nz: "0 \<notin> set (head # xs)" using assms(1) by (simp add: is_queue_def)
  have "chain h (ys @ a # hd (zs @ [head]) # tl (zs @ [head]))"
    using assms(1) sp unfolding is_queue_def by (metis append.assoc append_Cons list.collapse snoc_eq_iff_butlast)
  then have "lnext (h a) = hd (zs @ [head])" by (cases zs) simp_all
  moreover have "set (zs @ [head]) \<subseteq> set (head # xs)" using arg_cong [OF sp, of set] by auto
  moreover have "hd (zs @ [head]) \<in> set (zs @ [head])" by (rule hd_in_set) simp
  ultimately show "lnext (h a) \<noteq> 0" using nz by (metis subsetD)
  show "lprev (h a) \<noteq> 0"
  proof (cases ys)
    case Nil
    with sp have "a = head" by simp
    with is_queue_last [OF assms(1)] nz show ?thesis by (metis last_in_set list.distinct(1))
  next
    case (Cons y ys')
    then have "ys = butlast ys @ [last ys]" by simp
    with assms(1) sp have "chain h (butlast ys @ last ys # a # zs @ [head])"
      unfolding is_queue_def by (metis append.assoc append_Cons append_Nil)
    then have "lprev (h a) = last ys" by simp
    moreover have "last ys \<in> set (head # xs)" using sp Cons by auto
    ultimately show ?thesis using nz by metis
  qed
qed

section \<open>Every macro is its list operation\<close>

lemma add_walk_ok:
  "chain h (cur # ys @ [head]) \<Longrightarrow> head \<notin> set ys \<Longrightarrow> 0 \<notin> set (cur # ys) \<Longrightarrow>
   add_walk prio off head p h cur =
     Some (Inr (hd (dropWhile (\<lambda>l. prio (queue_entry l off) < p) ys @ [head])))"
proof (induction ys arbitrary: cur)
  case Nil
  then show ?case by (subst add_walk.simps) simp
next
  case (Cons y ys)
  then have "lnext (h cur) = y" "cur \<noteq> 0" "y \<noteq> head" by auto
  with Cons show ?case by (subst add_walk.simps) (simp add: Let_def)
qed

text \<open>The two sides of the place where an element is linked in or out: its neighbours in the ring.\<close>

lemma ring_sides:
  assumes "distinct (head # as @ bs)"
  obtains pre post where "head # as = pre @ [last (head # as)]" and "bs @ [head] = hd (bs @ [head]) # post"
    and "distinct (pre @ [last (head # as)])" and "distinct (hd (bs @ [head]) # post)"
    and "last (head # as) \<notin> set bs" and "hd (bs @ [head]) \<notin> set as"
    and "insert (last (head # as)) (set pre) \<subseteq> insert head (set as)"
    and "insert (hd (bs @ [head])) (set post) \<subseteq> insert head (set bs)"
    and "tl (pre @ [last (head # as)]) = as" and "butlast (hd (bs @ [head]) # post) = bs"
proof -
  define pa where "pa = last (head # as)"
  define c where "c = hd (bs @ [head])"
  obtain pre where pre: "head # as = pre @ [pa]"
    unfolding pa_def by (metis append_butlast_last_id list.distinct(1))
  obtain post where post: "bs @ [head] = c # post"
    unfolding c_def by (cases bs) auto
  have dd: "distinct (head # as)" "distinct (bs @ [head])" "set (head # as) \<inter> set bs = {}"
      "set as \<inter> set (bs @ [head]) = {}"
    using assms by auto
  have "pa \<in> set (head # as)" by (simp only: pre) simp
  moreover have "c \<in> set (bs @ [head])" by (simp only: post) simp
  moreover have "distinct (pre @ [pa])" using dd(1) by (simp only: pre)
  moreover have "distinct (c # post)" using dd(2) by (simp only: post)
  moreover have "insert pa (set pre) \<subseteq> insert head (set as)" using arg_cong [OF pre, of set] by simp
  moreover have "insert c (set post) \<subseteq> insert head (set bs)" using arg_cong [OF post, of set] by simp
  moreover have "tl (pre @ [pa]) = as" by (simp only: pre [symmetric] list.sel)
  moreover have "butlast (c # post) = bs" by (simp only: post [symmetric] butlast_snoc)
  ultimately show ?thesis
    using that [of pre post, folded pa_def c_def] pre post dd by blast
qed

lemma link_before_ok:
  assumes q: "is_queue h head (as @ bs)" and el: "el \<notin> set (head # as @ bs)" "el \<noteq> 0"
  shows "\<exists>h'. link_before el (hd (bs @ [head])) h = Inr h' \<and> is_queue h' head (as @ el # bs) \<and>
           (\<forall>a. a \<noteq> el \<and> a \<notin> set (head # as @ bs) \<longrightarrow> h' a = h a)"
proof -
  define pa where "pa = last (head # as)"
  define c where "c = hd (bs @ [head])"
  have d: "distinct (head # as @ bs)" and nz: "0 \<notin> set (head # as @ bs)" and
    ring: "chain h ((head # as) @ bs @ [head])"
    using q by (auto simp: is_queue_def)
  obtain pre post where s: "head # as = pre @ [pa]" "bs @ [head] = c # post"
    and s': "distinct (pre @ [pa])" "distinct (c # post)" "pa \<notin> set bs" "c \<notin> set as"
    and sets: "insert pa (set pre) \<subseteq> insert head (set as)" "insert c (set post) \<subseteq> insert head (set bs)"
    and ends: "tl (pre @ [pa]) = as" "butlast (c # post) = bs"
    by (rule ring_sides [OF d, folded pa_def c_def])
  have ne: "c \<noteq> el" "pa \<noteq> el" "c \<noteq> 0" "pa \<noteq> 0" using sets el nz by auto
  have ch: "chain h (pre @ [pa])" "lnext (h pa) = c" "lprev (h c) = pa" "chain h (c # post)"
    using ring unfolding s by simp_all
  let ?h = "set_lprev c el (set_lnext pa el (set_lprev el pa (set_lnext el c h)))"
  have lb: "link_before el c h = Inr ?h"
    using ne ch(3) by (simp add: link_before_def Let_def)
  have elin: "el \<notin> set (pre @ [pa])" "el \<notin> set (c # post)" using sets el by auto
  have "chain ?h (pre @ [pa])"
    using elin(1) s'(1,4) ch(1) el by (intro chain_cong [where h = h and h' = ?h]; (unfold ends)?) auto
  moreover have "chain ?h (c # post)"
    using elin(2) s'(2,3) ch(4) el by (intro chain_cong [where h = h and h' = ?h]; (unfold ends)?) auto
  ultimately have "chain ?h (pre @ pa # el # c # post)"
    using ne by simp
  moreover have "pre @ pa # el # c # post = head # (as @ el # bs) @ [head]"
    using s by (metis append.assoc append_Cons append_Nil)
  ultimately have "is_queue ?h head (as @ el # bs)"
    using d nz el unfolding is_queue_def by auto
  moreover have "\<forall>a. a \<noteq> el \<and> a \<notin> set (head # as @ bs) \<longrightarrow> ?h a = h a"
  proof (intro allI impI)
    fix a assume "a \<noteq> el \<and> a \<notin> set (head # as @ bs)"
    then have "a \<noteq> el" "a \<noteq> pa" "a \<noteq> c" using sets by auto
    then show "?h a = h a" by (simp add: set_link_other)
  qed
  ultimately show ?thesis using lb unfolding c_def by blast
qed

lemma queue_del_ok:
  assumes q: "is_queue h head (as @ (elem + off) # bs)"
  shows "\<exists>h'. queue_del off elem h = Inr h' \<and> is_queue h' head (as @ bs) \<and>
           h' (elem + off) = null_link \<and>
           (\<forall>a. a \<noteq> elem + off \<and> a \<notin> set (head # as @ bs) \<longrightarrow> h' a = h a)"
proof -
  define pa where "pa = last (head # as)"
  define c where "c = hd (bs @ [head])"
  define el where "el = elem + off"
  have d: "distinct (head # as @ bs)" and nz: "0 \<notin> set (head # as @ bs)" and
    ring: "chain h ((head # as) @ el # bs @ [head])" and el: "el \<notin> set (head # as @ bs)" "el \<noteq> 0"
    using q by (auto simp: is_queue_def el_def)
  obtain pre post where s: "head # as = pre @ [pa]" "bs @ [head] = c # post"
    and s': "distinct (pre @ [pa])" "distinct (c # post)" "pa \<notin> set bs" "c \<notin> set as"
    and sets: "insert pa (set pre) \<subseteq> insert head (set as)" "insert c (set post) \<subseteq> insert head (set bs)"
    and ends: "tl (pre @ [pa]) = as" "butlast (c # post) = bs"
    by (rule ring_sides [OF d, folded pa_def c_def])
  have ne: "c \<noteq> el" "pa \<noteq> el" "c \<noteq> 0" "pa \<noteq> 0" using sets el nz by auto
  have ch: "chain h (pre @ [pa])" "lnext (h pa) = el" "lprev (h el) = pa" "lnext (h el) = c"
      "lprev (h c) = el" "chain h (c # post)"
    using ring unfolding s by simp_all
  let ?h = "set_lprev el 0 (set_lnext el 0 (set_lprev c pa (set_lnext pa c h)))"
  have qd: "queue_del off elem h = Inr ?h"
    using ne ch(3,4) by (simp add: queue_del_def Let_def flip: el_def)
  have elin: "el \<notin> set (pre @ [pa])" "el \<notin> set (c # post)" using sets el by auto
  have "chain ?h (pre @ [pa])"
    using elin(1) s'(1,4) ch(1) el by (intro chain_cong [where h = h and h' = ?h]; (unfold ends)?) auto
  moreover have "chain ?h (c # post)"
    using elin(2) s'(2,3) ch(6) el by (intro chain_cong [where h = h and h' = ?h]; (unfold ends)?) auto
  ultimately have "chain ?h (pre @ pa # c # post)"
    using ne by simp
  moreover have "pre @ pa # c # post = head # (as @ bs) @ [head]"
    using s by (metis append.assoc append_Cons append_Nil)
  ultimately have "is_queue ?h head (as @ bs)"
    using d nz unfolding is_queue_def by auto
  moreover have "\<forall>a. a \<noteq> el \<and> a \<notin> set (head # as @ bs) \<longrightarrow> ?h a = h a"
  proof (intro allI impI)
    fix a assume "a \<noteq> el \<and> a \<notin> set (head # as @ bs)"
    then have "a \<noteq> el" "a \<noteq> pa" "a \<noteq> c" using sets by auto
    then show "?h a = h a" by (simp add: set_link_other)
  qed
  moreover have "?h el = null_link" by (simp add: null_link_def set_lprev_def set_lnext_def)
  ultimately show ?thesis using qd unfolding el_def by blast
qed

lemma dropWhile_split: "xs = takeWhile P xs @ dropWhile P xs"
  by simp

lemma queue_add_ok:
  assumes q: "is_queue h head xs" and "elem + off \<noteq> 0" and null: "h (elem + off) = null_link"
  shows "\<exists>h'. queue_add prio off elem head h = Some (Inr h') \<and>
           is_queue h' head (insert_asc (\<lambda>l. prio (queue_entry l off)) (elem + off) xs) \<and>
           (\<forall>a. a \<noteq> elem + off \<and> a \<notin> set (head # xs) \<longrightarrow> h' a = h a)"
proof -
  let ?P = "\<lambda>l. prio (queue_entry l off) < prio elem"
  let ?as = "takeWhile ?P xs" and ?bs = "dropWhile ?P xs"
  have out: "elem + off \<notin> set (head # xs)"
    using is_queue_nonnull(1) [OF q] null by (metis link.select_convs(2) null_link_def)
  have "add_walk prio off head (prio elem) h head = Some (Inr (hd (?bs @ [head])))"
    using q by (intro add_walk_ok) (auto simp: is_queue_def)
  moreover obtain h' where "link_before (elem + off) (hd (?bs @ [head])) h = Inr h'"
      "is_queue h' head (?as @ (elem + off) # ?bs)"
      "\<forall>a. a \<noteq> elem + off \<and> a \<notin> set (head # xs) \<longrightarrow> h' a = h a"
    using link_before_ok [of h head ?as ?bs "elem + off"] q out assms(2)
    by (auto simp only: takeWhile_dropWhile_id)
  ultimately show ?thesis
    using null by (auto simp: queue_add_def null_link_def insert_asc_split)
qed

lemma queue_del_remove1:
  assumes q: "is_queue h head xs" and "elem + off \<in> set xs"
  shows "\<exists>h'. queue_del off elem h = Inr h' \<and> is_queue h' head (remove1 (elem + off) xs) \<and>
           h' (elem + off) = null_link \<and>
           (\<forall>a. a \<notin> set (head # xs) \<longrightarrow> h' a = h a)"
proof -
  obtain as bs where xs: "xs = as @ (elem + off) # bs" "elem + off \<notin> set as"
    using assms(2) by (metis split_list_first)
  moreover have "remove1 (elem + off) xs = as @ bs"
    using xs by (simp add: remove1_append)
  ultimately show ?thesis using queue_del_ok [of h head as elem off bs] q by auto
qed

lemma queue_out_empty: "is_queue h head [] \<Longrightarrow> queue_out off head h = Inr (0, h)"
  by (simp add: queue_out_def queue_empty_def)

lemma queue_out_del:
  assumes q: "is_queue h head xs" and "xs \<noteq> []"
  shows "queue_out off head h =
           bindE (queue_del off (queue_entry (last xs) off) h) (\<lambda>h'. Inr (queue_entry (last xs) off, h'))"
proof -
  let ?l = "last xs"
  have mem: "?l \<in> set (head # xs)" using assms(2) by simp
  have dist: "distinct (head # xs)" and hz: "head \<noteq> 0" using q by (auto simp: is_queue_def)
  have hl: "lprev (h head) = ?l" using is_queue_last [OF q] assms(2) by simp
  have ring: "head # xs @ [head] = butlast (head # xs) @ last (head # xs) # head # []"
    using ring_split [of head xs "[]" head] by simp
  have "chain h (head # xs @ [head])" using q by (simp add: is_queue_def)
  then have "chain h (butlast (head # xs) @ last (head # xs) # head # [])" by (simp only: ring)
  then have "lnext (h (last (head # xs))) = head" by (simp only: chain_append)
  then have ln: "lnext (h ?l) = head" using assms(2) by simp
  have nz: "lprev (h ?l) \<noteq> 0" by (rule is_queue_nonnull(2) [OF q mem])
  have l0: "?l \<noteq> 0" using q mem unfolding is_queue_def by metis
  have lh: "?l \<noteq> head" using dist last_in_set [OF assms(2)] by auto
  have "\<And>y. set_lprev ?l 0 (set_lnext ?l 0 (set_lprev head y (set_lnext y head h))) =
        set_lnext ?l 0 (set_lprev ?l 0 (set_lnext y head (set_lprev head y h)))"
    by (rule ext) (auto simp: set_lnext_def set_lprev_def)
  then show ?thesis
    using assms(2) nz l0 lh ln hz is_queue_empty [OF q]
    by (auto simp: queue_out_def queue_del_def Let_def hl queue_entry_def)
qed

lemma queue_top_ok: "is_queue h head xs \<Longrightarrow>
    queue_top off head h = (if xs = [] then 0 else queue_entry (last xs) off)"
  by (auto simp: queue_top_def is_queue_empty is_queue_last queue_entry_def)

lemma queue_bottom_ok: "is_queue h head xs \<Longrightarrow>
    queue_bottom off head h = (if xs = [] then 0 else queue_entry (hd xs) off)"
  by (auto simp: queue_bottom_def is_queue_empty is_queue_first queue_entry_def)

lemma for_each_from_ok:
  "chain h (l # xs @ [head]) \<Longrightarrow> head \<notin> set (l # xs) \<Longrightarrow> 0 \<notin> set (l # xs) \<Longrightarrow>
   for_each_from off head h (queue_entry l off) =
     Some (Inr (map (\<lambda>l. queue_entry l off) (l # xs)))"
proof (induction xs arbitrary: l)
  case Nil
  then show ?case by (subst for_each_from.simps, simp, subst for_each_from.simps) simp
next
  case (Cons a xs)
  then show ?case by (subst for_each_from.simps) auto
qed

lemma queue_for_each_ok:
  assumes "is_queue h head xs"
  shows "queue_for_each off head h = Some (Inr (map (\<lambda>l. queue_entry l off) xs))"
proof (cases xs)
  case Nil
  with assms show ?thesis by (simp add: queue_for_each_def for_each_from.simps)
next
  case (Cons y ys)
  with assms for_each_from_ok [of h y ys head off] show ?thesis
    by (simp add: queue_for_each_def is_queue_def)
qed

lemma for_each_prev_from_ok:
  "chain h (head # xs @ [l]) \<Longrightarrow> head \<notin> set (l # xs) \<Longrightarrow> 0 \<notin> set (l # xs) \<Longrightarrow>
   for_each_prev_from off head h (queue_entry l off) =
     Some (Inr (map (\<lambda>l. queue_entry l off) (rev (xs @ [l]))))"
proof (induction xs arbitrary: l rule: rev_induct)
  case Nil
  then show ?case by (subst for_each_prev_from.simps, simp, subst for_each_prev_from.simps) simp
next
  case (snoc x xs)
  from snoc.prems(1) have "chain h ((head # xs) @ x # l # [])" by simp
  then have "chain h (head # xs @ [x])" "lprev (h l) = x"
    unfolding chain_append [of h "head # xs" x l "[]"] by simp_all
  with snoc show ?case by (subst for_each_prev_from.simps) auto
qed

lemma queue_for_each_prev_ok:
  assumes q: "is_queue h head xs"
  shows "queue_for_each_prev off head h = Some (Inr (map (\<lambda>l. queue_entry l off) (rev xs)))"
proof (cases xs rule: rev_cases)
  case Nil
  with assms show ?thesis by (simp add: queue_for_each_prev_def for_each_prev_from.simps)
next
  case (snoc ys y)
  then have "chain h ((head # ys) @ y # head # [])" using q by (simp add: is_queue_def)
  then have "chain h (head # ys @ [y])" "lprev (h head) = y"
    unfolding chain_append [of h "head # ys" y head "[]"] by simp_all
  with for_each_prev_from_ok [of h head ys y off] q snoc show ?thesis
    by (simp add: queue_for_each_prev_def is_queue_def)
qed

text \<open>
  \<open>queue_for_each_safe\<close> visits the elements the queue had at the start, whatever the body unlinks
  behind the cursor: the loop is a fold over that list, as long as after each body the elements not
  yet visited still end the queue.
\<close>

lemma queue_for_each_safe_ok:
  assumes start: "I h xs" "is_queue h head xs"
    and step: "\<And>p zs h h'. I h ((p + off) # zs) \<Longrightarrow> body p h = Inr h' \<Longrightarrow> I h' zs"
    and queue: "\<And>h zs. I h zs \<Longrightarrow> \<exists>pre. is_queue h head (pre @ zs)"
  shows "queue_for_each_safe body off head h =
           Some (foldE body (map (\<lambda>l. queue_entry l off) xs) h)"
proof -
  have next_of: "lnext (h z) = hd (zs @ [head])" if "I h (z # zs)" for h z zs
  proof -
    from queue [OF that] obtain pre where "is_queue h head (pre @ z # zs)" by blast
    then have "chain h ((head # pre) @ z # hd (zs @ [head]) # tl (zs @ [head]))"
      unfolding is_queue_def by (cases zs) auto
    then show ?thesis unfolding chain_append by simp
  qed
  have loop: "for_each_safe_from body off head h (queue_entry (hd (zs @ [head])) off) tmp =
      Some (foldE body (map (\<lambda>l. queue_entry l off) zs) h)"
    if "I h zs" "zs \<noteq> [] \<Longrightarrow> tmp = queue_entry (hd (tl zs @ [head])) off" for h zs tmp
    using that
  proof (induction zs arbitrary: h tmp)
    case Nil
    then show ?case by (subst for_each_safe_from.simps) simp
  next
    case (Cons z zs)
    let ?p = "queue_entry z off"
    have zh: "z \<noteq> head" using queue [OF Cons.prems(1)] by (auto simp: is_queue_def)
    have tmp: "tmp = queue_entry (hd (zs @ [head])) off" using Cons.prems(2) by simp
    show ?case
    proof (cases "body ?p h")
      case (Inl e)
      then show ?thesis using zh by (subst for_each_safe_from.simps) simp
    next
      case (Inr h')
      have I': "I h' zs" using step [of h ?p zs h'] Cons.prems(1) Inr by simp
      have nx: "lnext (h' (hd (zs @ [head]))) = hd (tl zs @ [head])" if "zs \<noteq> []"
        using next_of [of h' "hd zs" "tl zs"] I' that by simp
      have "for_each_safe_from body off head h' tmp (queue_entry (lnext (h' (tmp + off))) off) =
          Some (foldE body (map (\<lambda>l. queue_entry l off) zs) h')"
        unfolding tmp using Cons.IH [OF I'] nx by simp
      then show ?thesis using zh Inr by (subst for_each_safe_from.simps) simp
    qed
  qed
  have "lnext (h head) = hd (xs @ [head])" by (rule is_queue_first [OF start(2)])
  then show ?thesis
    using loop [OF start(1)] next_of [of h "hd xs" "tl xs"] start(1)
    by (cases "xs = []") (simp_all add: queue_for_each_safe_def Let_def)
qed

end
