(* ===== verification/LinkQueue.thy ===== *)
theory LinkQueue
  imports LinkHeap
begin

text \<open>
  The queues of \<open>shared/queue.h\<close> as the kernel uses them: many heads, and elements whose one
  \<open>struct list_link\<close> is on at most one of them. A \<open>qsys\<close> keeps the list of each head and, for each
  element, the head its link is on (\<open>None\<close> for a null link); \<open>q_add\<close>, \<open>q_del\<close>, \<open>q_out\<close>, \<open>q_top\<close>
  and \<open>q_update\<close> are the macros on this view, asserts included. The locale \<open>intrusive_queues\<close> is the
  contract the kernel relies on, interpreted here on these operations. The last section proves
  that the pointer level of theory LinkHeap implements this view (\<open>qsys_sim\<close>).
\<close>

section \<open>Queues by head\<close>

record ('h, 'e) qsys =
  qlist :: "'h \<Rightarrow> 'e list"
  qlink :: "'e \<Rightarrow> 'h option"

definition q_init :: "('h, 'e) qsys" where
  "q_init = \<lparr>qlist = (\<lambda>_. []), qlink = (\<lambda>_. None)\<rparr>"

definition q_add :: "('e \<Rightarrow> int) \<Rightarrow> 'e \<Rightarrow> 'h \<Rightarrow> ('h, 'e) qsys \<Rightarrow> ('h, 'e) qsys res" where
  "q_add prio e h q =
     (if qlink q e \<noteq> None then Inl Panic
      else Inr (q\<lparr>qlist := (qlist q)(h := insert_asc prio e (qlist q h)),
                  qlink := (qlink q)(e := Some h)\<rparr>))"

definition q_del :: "'e \<Rightarrow> ('h, 'e) qsys \<Rightarrow> ('h, 'e) qsys res" where
  "q_del e q =
     (case qlink q e of
        None \<Rightarrow> Inl Panic
      | Some h \<Rightarrow> Inr (q\<lparr>qlist := (qlist q)(h := remove1 e (qlist q h)),
                         qlink := (qlink q)(e := None)\<rparr>))"

definition q_update :: "('e \<Rightarrow> int) \<Rightarrow> 'e \<Rightarrow> 'h \<Rightarrow> ('h, 'e) qsys \<Rightarrow> ('h, 'e) qsys res" where
  "q_update prio e h q = bindE (q_del e q) (q_add prio e h)"

definition q_top :: "'h \<Rightarrow> ('h, 'e) qsys \<Rightarrow> 'e option" where
  "q_top h q = (if qlist q h = [] then None else Some (last (qlist q h)))"

definition q_bottom :: "'h \<Rightarrow> ('h, 'e) qsys \<Rightarrow> 'e option" where
  "q_bottom h q = (if qlist q h = [] then None else Some (hd (qlist q h)))"

definition q_out :: "'h \<Rightarrow> ('h, 'e) qsys \<Rightarrow> 'e option \<times> ('h, 'e) qsys" where
  "q_out h q =
     (case q_top h q of
        None \<Rightarrow> (None, q)
      | Some e \<Rightarrow> (Some e, q\<lparr>qlist := (qlist q)(h := butlast (qlist q h)),
                              qlink := (qlink q)(e := None)\<rparr>))"

definition q_ok :: "('h, 'e) qsys \<Rightarrow> bool" where
  "q_ok q \<longleftrightarrow> (\<forall>e h. e \<in> set (qlist q h) \<longleftrightarrow> qlink q e = Some h) \<and> (\<forall>h. distinct (qlist q h))"

section \<open>The contract of the queues\<close>

locale intrusive_queues =
  fixes invar :: "'q \<Rightarrow> bool"
    and elems :: "'q \<Rightarrow> 'h \<Rightarrow> 'e list"
    and home :: "'q \<Rightarrow> 'e \<Rightarrow> 'h option"
    and add :: "('e \<Rightarrow> int) \<Rightarrow> 'e \<Rightarrow> 'h \<Rightarrow> 'q \<Rightarrow> 'q res"
    and del :: "'e \<Rightarrow> 'q \<Rightarrow> 'q res"
    and out :: "'h \<Rightarrow> 'q \<Rightarrow> 'e option \<times> 'q"
  assumes home_iff: "invar q \<Longrightarrow> home q e = Some h \<longleftrightarrow> e \<in> set (elems q h)"
    and elems_distinct: "invar q \<Longrightarrow> distinct (elems q h)"
    and add_linked: "home q e \<noteq> None \<Longrightarrow> add f e h q = Inl Panic"
    and add_free: "invar q \<Longrightarrow> home q e = None \<Longrightarrow>
      \<exists>q'. add f e h q = Inr q' \<and> invar q' \<and> elems q' = (elems q)(h := insert_asc f e (elems q h))"
    and del_free: "home q e = None \<Longrightarrow> del e q = Inl Panic"
    and del_linked: "invar q \<Longrightarrow> home q e = Some h \<Longrightarrow>
      \<exists>q'. del e q = Inr q' \<and> invar q' \<and> elems q' = (elems q)(h := remove1 e (elems q h))"
    and out_empty: "elems q h = [] \<Longrightarrow> out h q = (None, q)"
    and out_last: "invar q \<Longrightarrow> elems q h \<noteq> [] \<Longrightarrow>
      \<exists>q'. out h q = (Some (last (elems q h)), q') \<and> invar q' \<and>
           elems q' = (elems q)(h := butlast (elems q h))"
begin

lemma home_None: "invar q \<Longrightarrow> home q e = None \<longleftrightarrow> (\<forall>h. e \<notin> set (elems q h))"
  by (metis home_iff option.distinct(1) option.exhaust)

lemma add_then_home:
  assumes "invar q" and "add f e h q = Inr q'"
  shows "invar q'" and "home q' e = Some h"
proof -
  have "home q e = None" using assms(2) add_linked by (cases "home q e") auto
  then obtain q1 where "add f e h q = Inr q1" "invar q1"
      "elems q1 = (elems q)(h := insert_asc f e (elems q h))"
    using add_free [OF assms(1)] by blast
  with assms show "invar q'" and "home q' e = Some h" by (auto simp: home_iff)
qed

lemma del_then_home:
  assumes "invar q" and "del e q = Inr q'"
  shows "invar q'" and "home q' e = None"
proof -
  obtain h where h: "home q e = Some h" using assms(2) del_free by (cases "home q e") auto
  then obtain q1 where "del e q = Inr q1" "invar q1"
      "elems q1 = (elems q)(h := remove1 e (elems q h))"
    using del_linked [OF assms(1)] by blast
  moreover have "e \<notin> set (elems q h')" if "h' \<noteq> h" for h'
    using that h home_iff [OF assms(1)] by (metis option.inject)
  ultimately show "invar q'" and "home q' e = None"
    using assms elems_distinct [OF assms(1), of h] by (auto simp: home_None)
qed

text \<open>The element taken out has the largest key; among equal keys it is the oldest.\<close>

lemma out_is_max:
  assumes "invar q" and "sorted (map f (elems q h))" and "out h q = (Some e, q')"
  shows "e \<in> set (elems q h)" and "\<forall>x\<in>set (elems q h). f x \<le> f e"
proof -
  have "elems q h \<noteq> []" using assms(3) out_empty by fastforce
  then show "e \<in> set (elems q h)" and "\<forall>x\<in>set (elems q h). f x \<le> f e"
    using out_last [OF assms(1), of h] assms(2,3) by (auto intro: sorted_map_last_max)
qed

lemma out_is_oldest:
  assumes "invar q" and "sorted (map f (elems q h))" and "elems q h \<noteq> []"
    and "add f e h q = Inr q'" and "f e \<le> f (last (elems q h))"
  shows "fst (out h q') = Some (last (elems q h))"
proof -
  have "home q e = None" using assms(4) add_linked by (cases "home q e") auto
  then have "invar q'" and el: "elems q' h = insert_asc f e (elems q h)"
    using add_free [OF assms(1), of e f h] assms(4) by auto
  then show ?thesis
    using out_last [of q' h] last_insert_asc_max [OF assms(3,2,5)] by auto
qed

end

lemma q_ok_init: "q_ok q_init"
  by (simp add: q_ok_def q_init_def)

lemma q_ok_home: "q_ok q \<Longrightarrow> qlink q e = Some h \<longleftrightarrow> e \<in> set (qlist q h)"
  by (simp add: q_ok_def)

lemma q_ok_distinct: "q_ok q \<Longrightarrow> distinct (qlist q h)"
  by (simp add: q_ok_def)

lemma q_add_Inr [bind_rules]: "q_add prio e h q = Inr q' \<longleftrightarrow> qlink q e = None \<and>
    q' = q\<lparr>qlist := (qlist q)(h := insert_asc prio e (qlist q h)), qlink := (qlink q)(e := Some h)\<rparr>"
  by (auto simp: q_add_def)

lemma q_del_Inr [bind_rules]: "q_del e q = Inr q' \<longleftrightarrow> (\<exists>h. qlink q e = Some h \<and>
    q' = q\<lparr>qlist := (qlist q)(h := remove1 e (qlist q h)), qlink := (qlink q)(e := None)\<rparr>)"
  by (auto simp: q_del_def split: option.splits)

lemma q_ok_add: "q_ok q \<Longrightarrow> q_add prio e h q = Inr q' \<Longrightarrow> q_ok q'"
  by (auto simp: q_ok_def q_add_Inr)

lemma q_ok_unlink:
  assumes "q_ok q" and "qlink q e = Some h"
  shows "q_ok (q\<lparr>qlist := (qlist q)(h := remove1 e (qlist q h)), qlink := (qlink q)(e := None)\<rparr>)"
  using assms unfolding q_ok_def
  by (auto simp: set_remove1_eq split: if_split_asm)

lemma q_ok_del: "q_ok q \<Longrightarrow> q_del e q = Inr q' \<Longrightarrow> q_ok q'"
  by (auto simp: q_del_Inr q_ok_unlink)

lemma q_out_butlast: "q_ok q \<Longrightarrow> qlist q h \<noteq> [] \<Longrightarrow> q_out h q =
    (Some (last (qlist q h)), q\<lparr>qlist := (qlist q)(h := remove1 (last (qlist q h)) (qlist q h)),
       qlink := (qlink q)(last (qlist q h) := None)\<rparr>)"
  by (simp add: q_out_def q_top_def q_ok_distinct butlast_remove1_last)

lemma q_out_empty: "qlist q h = [] \<Longrightarrow> q_out h q = (None, q)"
  by (simp add: q_out_def q_top_def)

lemma q_ok_out:
  assumes "q_ok q" and "q_out h q = (r, q')" shows "q_ok q'"
proof (cases "qlist q h = []")
  case True
  with assms show ?thesis by (simp add: q_out_empty)
next
  case False
  with assms have "q' = q\<lparr>qlist := (qlist q)(h := remove1 (last (qlist q h)) (qlist q h)),
       qlink := (qlink q)(last (qlist q h) := None)\<rparr>"
    by (simp add: q_out_butlast)
  then show ?thesis using q_ok_unlink [OF assms(1), of "last (qlist q h)" h] False
    by (simp add: q_ok_home [OF assms(1)])
qed

interpretation lq: intrusive_queues q_ok qlist qlink q_add q_del q_out
proof (unfold_locales, goal_cases)
  case 4 then show ?case by (auto simp: q_ok_def q_add_def)
next
  case 6 then show ?case by (auto simp: q_ok_def q_del_def)
next
  case (8 q h)
  then have "snd (q_out h q) = q\<lparr>qlist := (qlist q)(h := butlast (qlist q h)),
      qlink := (qlink q)(last (qlist q h) := None)\<rparr>" by (simp add: q_out_def q_top_def)
  moreover have "q_ok (snd (q_out h q))" using q_ok_out [OF 8(1)] by (metis surjective_pairing)
  ultimately show ?case using 8(2) by (simp add: q_out_def q_top_def)
qed (auto simp: q_ok_def q_add_def q_del_def q_out_def q_top_def)

section \<open>Canonical results\<close>

text \<open>
  On well-formed queues every operation takes an element off the one list it is on (\<open>q_unlink\<close>) or
  moves it to a list (\<open>q_move\<close>).
\<close>

definition q_unlink :: "'e \<Rightarrow> ('h, 'e) qsys \<Rightarrow> ('h, 'e) qsys" where
  "q_unlink e q = \<lparr>qlist = (\<lambda>h. remove1 e (qlist q h)), qlink = (qlink q)(e := None)\<rparr>"

definition q_move :: "('e \<Rightarrow> int) \<Rightarrow> 'e \<Rightarrow> 'h \<Rightarrow> ('h, 'e) qsys \<Rightarrow> ('h, 'e) qsys" where
  "q_move f e h q =
     \<lparr>qlist = (\<lambda>g. if g = h then insert_asc f e (remove1 e (qlist q g)) else remove1 e (qlist q g)),
      qlink = (qlink q)(e := Some h)\<rparr>"

lemma q_unlinked_notin: "q_ok q \<Longrightarrow> qlink q e = None \<Longrightarrow> e \<notin> set (qlist q h)"
  by (simp add: q_ok_def)

lemma q_linked_notin: "q_ok q \<Longrightarrow> qlink q e = Some h \<Longrightarrow> g \<noteq> h \<Longrightarrow> e \<notin> set (qlist q g)"
  by (simp add: q_ok_def)

lemma q_add_move: "q_ok q \<Longrightarrow> qlink q e = None \<Longrightarrow> q_add f e h q = Inr (q_move f e h q)"
  by (auto simp: q_add_def q_move_def remove1_idem q_unlinked_notin fun_eq_iff)

lemma q_del_unlink: "q_ok q \<Longrightarrow> qlink q e = Some h \<Longrightarrow> q_del e q = Inr (q_unlink e q)"
  by (auto simp: q_del_def q_unlink_def remove1_idem q_linked_notin fun_eq_iff)

lemma q_out_unlink:
  assumes "q_ok q" and "qlist q h \<noteq> []"
  shows "q_out h q = (Some (last (qlist q h)), q_unlink (last (qlist q h)) q)"
proof -
  have "qlink q (last (qlist q h)) = Some h" using assms by (simp add: q_ok_home)
  then show ?thesis
    using assms by (auto simp: q_out_butlast q_unlink_def remove1_idem q_linked_notin fun_eq_iff)
qed

lemma q_move_unlink [simp]: "q_ok q \<Longrightarrow> q_move f e h (q_unlink e q) = q_move f e h q"
  by (auto simp: q_move_def q_unlink_def fun_eq_iff remove1_idem q_ok_distinct)

lemma qlink_q_unlink [simp]: "qlink (q_unlink e q) = (qlink q)(e := None)"
  by (simp add: q_unlink_def)

lemma qlink_q_move [simp]: "qlink (q_move f e h q) = (qlink q)(e := Some h)"
  by (simp add: q_move_def)

lemma q_ok_q_unlink [simp]: "q_ok q \<Longrightarrow> q_ok (q_unlink e q)"
  by (auto simp: q_ok_def q_unlink_def set_remove1_eq distinct_remove1)

lemma q_ok_q_move [simp]: "q_ok q \<Longrightarrow> q_ok (q_move f e h q)"
  by (auto simp: q_ok_def q_move_def set_remove1_eq distinct_remove1)

lemma set_qlist_q_unlink: "q_ok q \<Longrightarrow> set (qlist (q_unlink e q) h) = set (qlist q h) - {e}"
  by (simp add: q_unlink_def q_ok_distinct set_remove1_eq)

lemma set_qlist_q_move: "q_ok q \<Longrightarrow>
    set (qlist (q_move f e h q) g) = (if g = h then insert e (set (qlist q g)) else set (qlist q g) - {e})"
  by (auto simp: q_move_def q_ok_distinct set_remove1_eq)

lemma sorted_q_unlink: "sorted (map f (qlist q h)) \<Longrightarrow> sorted (map f (qlist (q_unlink e q) h))"
  by (simp add: q_unlink_def sorted_map_remove1)

lemma sorted_q_move: "sorted (map f (qlist q g)) \<Longrightarrow> sorted (map f (qlist (q_move f e h q) g))"
  by (auto simp: q_move_def intro: sorted_map_remove1 sorted_insert_asc)

lemma q_move_cong: "q_ok q \<Longrightarrow> (\<And>x. x = e \<or> x \<in> set (qlist q h) \<Longrightarrow> f x = g x) \<Longrightarrow> q_move f e h q = q_move g e h q"
  by (auto simp: q_move_def fun_eq_iff q_ok_distinct set_remove1_eq intro!: insert_asc_cong)

lemma q_top_Some: "q_top h q = Some e \<longleftrightarrow> qlist q h \<noteq> [] \<and> e = last (qlist q h)"
  by (auto simp: q_top_def)

lemma q_top_None: "q_top h q = None \<longleftrightarrow> qlist q h = []"
  by (simp add: q_top_def)

section \<open>The pointer level implements it\<close>

text \<open>
  Heads are addresses, elements are addresses whose link is \<open>off\<close> bytes in; \<open>heads\<close> are the
  list heads that were initialised. The memory represents \<open>q\<close> when each head's ring holds
  exactly its elements and the link of every other element is null.
\<close>

definition qsys_sim :: "u32 \<Rightarrow> u32 set \<Rightarrow> (u32, u32) qsys \<Rightarrow> lheap \<Rightarrow> bool" where
  "qsys_sim off heads q h \<longleftrightarrow> q_ok q \<and>
     (\<forall>hl\<in>heads. is_queue h hl (map (\<lambda>p. p + off) (qlist q hl))) \<and>
     (\<forall>hl. hl \<notin> heads \<longrightarrow> qlist q hl = []) \<and>
     (\<forall>hl p. p \<in> set (qlist q hl) \<longrightarrow> p + off \<notin> heads) \<and>
     (\<forall>p. qlink q p = None \<longrightarrow> p + off \<notin> heads \<longrightarrow> h (p + off) = null_link)"

lemma map_insert_asc:
  "map (\<lambda>p. p + off) (insert_asc prio e xs) =
     insert_asc (\<lambda>l. prio (queue_entry l off)) (e + off) (map (\<lambda>p. p + off) xs)" for off :: u32
  by (induction xs) simp_all

lemma map_remove1_off: "map (\<lambda>p. p + off) (remove1 e xs) = remove1 (e + off) (map (\<lambda>p. p + off) xs)"
  for off :: u32
  by (induction xs) simp_all

lemma qsys_sim_frame:
  assumes sim: "qsys_sim off heads q h" and hl: "hl \<in> heads" "hl' \<in> heads" "hl' \<noteq> hl"
    and e: "e + off \<notin> heads" "e \<notin> set (qlist q hl')"
    and frame: "\<And>a. a \<noteq> e + off \<Longrightarrow> a \<notin> set (hl # map (\<lambda>p. p + off) (qlist q hl)) \<Longrightarrow> h' a = h a"
  shows "is_queue h' hl' (map (\<lambda>p. p + off) (qlist q hl'))"
proof (rule is_queue_frame)
  show "is_queue h hl' (map (\<lambda>p. p + off) (qlist q hl'))"
    using sim hl by (simp add: qsys_sim_def)
  fix a assume a: "a \<in> set (hl' # map (\<lambda>p. p + off) (qlist q hl'))"
  have "q_ok q" using sim by (simp add: qsys_sim_def)
  then have "set (qlist q hl) \<inter> set (qlist q hl') = {}"
    using hl(3) by (auto simp flip: q_ok_home)
  moreover have "p + off \<notin> heads" if "p \<in> set (qlist q x)" for p x
    using sim that by (auto simp: qsys_sim_def)
  ultimately show "h' a = h a"
    using a hl e by (intro frame) auto
qed

lemma queue_add_sim:
  assumes sim: "qsys_sim off heads q h" and hl: "hl \<in> heads" and e: "e + off \<notin> heads" "e + off \<noteq> 0"
  shows "case q_add prio e hl q of
      Inl err \<Rightarrow> queue_add prio off e hl h = Some (Inl err)
    | Inr q' \<Rightarrow> \<exists>h'. queue_add prio off e hl h = Some (Inr h') \<and> qsys_sim off heads q' h'"
proof (cases "qlink q e")
  case (Some hl')
  have "q_ok q" using sim by (simp add: qsys_sim_def)
  then have mem: "e \<in> set (qlist q hl')" using Some by (simp add: q_ok_home)
  then have "hl' \<in> heads" using sim by (auto simp: qsys_sim_def)
  then have "is_queue h hl' (map (\<lambda>p. p + off) (qlist q hl'))" using sim by (simp add: qsys_sim_def)
  then have "lnext (h (e + off)) \<noteq> 0"
    by (rule is_queue_nonnull(1)) (use mem in simp)
  then show ?thesis using Some by (simp add: q_add_def queue_add_def)
next
  case None
  have ok: "q_ok q" and qh: "is_queue h hl (map (\<lambda>p. p + off) (qlist q hl))"
    and nl: "h (e + off) = null_link"
    using sim hl e None by (simp_all add: qsys_sim_def)
  define q' where "q' = q\<lparr>qlist := (qlist q)(hl := insert_asc prio e (qlist q hl)), qlink := (qlink q)(e := Some hl)\<rparr>"
  have q': "q_add prio e hl q = Inr q'" using None by (simp add: q_add_def q'_def)
  obtain h' where h': "queue_add prio off e hl h = Some (Inr h')"
      "is_queue h' hl (map (\<lambda>p. p + off) (qlist q' hl))"
      "\<forall>a. a \<noteq> e + off \<and> a \<notin> set (hl # map (\<lambda>p. p + off) (qlist q hl)) \<longrightarrow> h' a = h a"
    using queue_add_ok [OF qh e(2) nl, of prio] by (auto simp: map_insert_asc q'_def)
  have nin: "e \<notin> set (qlist q x)" for x using None ok by (simp flip: q_ok_home)
  have "is_queue h' x (map (\<lambda>p. p + off) (qlist q' x))" if "x \<in> heads" for x
    using h'(2,3) qsys_sim_frame [OF sim hl that _ e(1) nin] by (cases "x = hl") (auto simp: q'_def)
  moreover have "h' (p + off) = null_link" if "qlink q' p = None" "p + off \<notin> heads" for p
  proof -
    have "p \<noteq> e" "qlink q p = None" using that by (auto simp: q'_def split: if_splits)
    moreover from this have "p \<notin> set (qlist q hl)" by (simp flip: q_ok_home [OF ok])
    ultimately have "h' (p + off) = h (p + off)"
      using h'(3) [THEN spec, of "p + off"] that(2) hl by auto
    then show ?thesis using sim \<open>qlink q p = None\<close> that(2) by (simp add: qsys_sim_def)
  qed
  ultimately have "qsys_sim off heads q' h'"
    using sim hl e q_ok_add [OF ok q'] by (auto simp: qsys_sim_def q'_def)
  then show ?thesis using q' h'(1) by simp
qed

lemma queue_del_sim:
  assumes sim: "qsys_sim off heads q h" and e: "e + off \<notin> heads"
  shows "case q_del e q of
      Inl err \<Rightarrow> queue_del off e h = Inl err
    | Inr q' \<Rightarrow> \<exists>h'. queue_del off e h = Inr h' \<and> qsys_sim off heads q' h'"
proof (cases "qlink q e")
  case None
  then have "h (e + off) = null_link" using sim e by (simp add: qsys_sim_def)
  then show ?thesis using None by (simp add: q_del_def queue_del_def null_link_def)
next
  case (Some hl)
  have ok: "q_ok q" using sim by (simp add: qsys_sim_def)
  have mem: "e \<in> set (qlist q hl)" using Some ok by (simp add: q_ok_home)
  have hl: "hl \<in> heads" using sim mem by (auto simp: qsys_sim_def)
  then have qh: "is_queue h hl (map (\<lambda>p. p + off) (qlist q hl))" using sim by (simp add: qsys_sim_def)
  define q' where "q' = q\<lparr>qlist := (qlist q)(hl := remove1 e (qlist q hl)), qlink := (qlink q)(e := None)\<rparr>"
  have q': "q_del e q = Inr q'" using Some by (simp add: q_del_def q'_def)
  obtain h' where h': "queue_del off e h = Inr h'" "is_queue h' hl (map (\<lambda>p. p + off) (qlist q' hl))"
      "h' (e + off) = null_link"
      "\<forall>a. a \<notin> set (hl # map (\<lambda>p. p + off) (qlist q hl)) \<longrightarrow> h' a = h a"
    using queue_del_remove1 [OF qh, of e] mem by (auto simp: map_remove1_off q'_def)
  have nin: "e \<notin> set (qlist q x)" if "x \<noteq> hl" for x using Some ok that by (simp flip: q_ok_home)
  have "is_queue h' x (map (\<lambda>p. p + off) (qlist q' x))" if "x \<in> heads" for x
    using h'(2,4) qsys_sim_frame [OF sim hl that _ e nin] by (cases "x = hl") (auto simp: q'_def)
  moreover have "h' (p + off) = null_link" if "qlink q' p = None" "p + off \<notin> heads" for p
  proof (cases "p = e")
    case False
    then have "qlink q p = None" using that by (simp add: q'_def)
    moreover from this have "h' (p + off) = h (p + off)"
      using h'(4) that(2) hl ok by (auto simp flip: q_ok_home)
    ultimately show ?thesis using sim that(2) by (simp add: qsys_sim_def)
  qed (use h'(3) in simp)
  ultimately have "qsys_sim off heads q' h'"
    using sim hl e q_ok_del [OF ok q'] by (auto simp: qsys_sim_def q'_def dest: set_remove1_subset [THEN subsetD])
  then show ?thesis using q' h'(1) by simp
qed

lemma queue_top_sim:
  assumes "qsys_sim off heads q h" and "hl \<in> heads"
  shows "queue_top off hl h = (case q_top hl q of None \<Rightarrow> 0 | Some e \<Rightarrow> e)"
  using assms queue_top_ok [of h hl "map (\<lambda>p. p + off) (qlist q hl)" off]
  by (auto simp: qsys_sim_def q_top_def last_map)

lemma queue_out_sim:
  assumes sim: "qsys_sim off heads q h" and hl: "hl \<in> heads"
  shows "\<exists>h'. queue_out off hl h = Inr (case fst (q_out hl q) of None \<Rightarrow> 0 | Some e \<Rightarrow> e, h') \<and>
           qsys_sim off heads (snd (q_out hl q)) h'"
proof (cases "qlist q hl = []")
  case True
  then have "is_queue h hl []" using sim hl by (auto simp: qsys_sim_def)
  then show ?thesis using queue_out_empty True sim by (auto simp: q_out_empty)
next
  case False
  let ?e = "last (qlist q hl)"
  have ok: "q_ok q" and qh: "is_queue h hl (map (\<lambda>p. p + off) (qlist q hl))"
    using sim hl by (simp_all add: qsys_sim_def)
  have mem: "?e \<in> set (qlist q hl)" using False by simp
  then have "?e + off \<notin> heads" using sim by (auto simp: qsys_sim_def)
  moreover have "q_del ?e q = Inr (snd (q_out hl q))"
    using mem ok by (simp add: q_out_butlast False q_del_def flip: q_ok_home)
  ultimately obtain h' where "queue_del off ?e h = Inr h'" "qsys_sim off heads (snd (q_out hl q)) h'"
    using queue_del_sim [OF sim, of ?e] by auto
  then show ?thesis
    using queue_out_del [OF qh, of off] False by (auto simp: last_map q_out_butlast ok)
qed

section \<open>The macros implement the list operations\<close>

text \<open>
  C11. The pointer code of \<open>queue.h\<close> implements queues as lists: on a memory that represents the lists,
  \<open>queue_add\<close> returns, in a memory that represents the list with the element inserted by priority, and
  panics exactly where the list operation does; \<open>queue_del\<close> likewise; \<open>queue_out\<close> hands out the
  element the list operation does and represents the list without it.
\<close>

theorem queues_refine_lists:
  assumes sim: "qsys_sim off heads q h" and hl: "hl \<in> heads" and e: "e + off \<notin> heads" "e + off \<noteq> 0"
  shows "(case q_add prio e hl q of
        Inl err \<Rightarrow> queue_add prio off e hl h = Some (Inl err)
      | Inr q' \<Rightarrow> \<exists>h'. queue_add prio off e hl h = Some (Inr h') \<and> qsys_sim off heads q' h') \<and>
    (case q_del e q of
        Inl err \<Rightarrow> queue_del off e h = Inl err
      | Inr q' \<Rightarrow> \<exists>h'. queue_del off e h = Inr h' \<and> qsys_sim off heads q' h') \<and>
    (\<exists>h'. queue_out off hl h = Inr (case fst (q_out hl q) of None \<Rightarrow> 0 | Some e \<Rightarrow> e, h') \<and>
      qsys_sim off heads (snd (q_out hl q)) h')"
  using queue_add_sim [OF sim hl e] queue_del_sim [OF sim e(1)] queue_out_sim [OF sim hl] by blast

text \<open>One empty queue at the address 0x100, in a memory of null links.\<close>

lemma one_empty_queue: "qsys_sim 8 {0x100} q_init (init_list_head 0x100 (\<lambda>_. null_link))"
  using q_ok_init
  by (auto simp: qsys_sim_def is_queue_def init_list_head_def set_lnext_def set_lprev_def null_link_def q_init_def)

theorem queues_refine_lists_witness:
  "\<exists>h'. queue_add (\<lambda>_. 5) 8 0x200 0x100 (init_list_head 0x100 (\<lambda>_. null_link)) = Some (Inr h') \<and>
    is_queue h' 0x100 [0x208]"
  using queues_refine_lists [OF one_empty_queue, of "0x100" "0x200" "\<lambda>_. 5"]
  by (auto simp: q_add_def q_init_def qsys_sim_def)

end
