(* ===== verification/PidAllocator.thy ===== *)
theory PidAllocator
  imports Prelude
begin

text \<open>
  \<open>kernel/pid_allocator.c\<close>: process identifiers from a bitmap of 32-bit words. The bitmap is a list
  of \<open>u32\<close>; an index outside the array is \<open>Inl Out_Of_Bounds\<close>. \<open>PID_MAX\<close> is the macro
  \<open>NBPROC - 1\<close>, without parentheses, so the array has \<open>32 - 1 / 8 + 1 = 33\<close> words
  and the loop of \<open>alloc_pid\<close> gives up only after it has looked at the identifier 32. The lemmas
  give the set view \<open>pids_used\<close> of the bitmap, in which allocation takes the least free identifier.
\<close>

type_synonym pidmap = "u32 list"

definition pid_max :: int where "pid_max = 32 - 1"

definition pidmap_init :: pidmap where
  "pidmap_init = replicate 33 0"

definition pid_word :: "int \<Rightarrow> nat" where "pid_word pid = nat (pid div 32)"

definition pid_bit :: "int \<Rightarrow> nat" where "pid_bit pid = nat (pid mod 32)"

text \<open>An identifier the three functions may be given: its word lies in the array.\<close>

definition pid_ok :: "pidmap \<Rightarrow> int \<Rightarrow> bool" where
  "pid_ok m pid \<longleftrightarrow> 0 \<le> pid \<and> pid_word pid < length m"

definition set_pid :: "int \<Rightarrow> pidmap \<Rightarrow> pidmap res" where
  "set_pid pid m =
     (if \<not> pid_ok m pid then Inl Out_Of_Bounds
      else Inr (m[pid_word pid := m ! pid_word pid OR push_bit (pid_bit pid) 1]))"

definition free_pid :: "int \<Rightarrow> pidmap \<Rightarrow> pidmap res" where
  "free_pid pid m =
     (if \<not> pid_ok m pid then Inl Out_Of_Bounds
      else Inr (m[pid_word pid := m ! pid_word pid AND NOT (push_bit (pid_bit pid) 1)]))"

definition pid_used :: "int \<Rightarrow> pidmap \<Rightarrow> bool res" where
  "pid_used pid m =
     (if \<not> pid_ok m pid then Inl Out_Of_Bounds
      else Inr (m ! pid_word pid AND push_bit (pid_bit pid) 1 \<noteq> 0))"

text \<open>The loop of \<open>alloc_pid\<close>, from the identifier it looks at; -1 when it gives up.\<close>

function alloc_pid_from :: "int \<Rightarrow> pidmap \<Rightarrow> int res" where
  "alloc_pid_from pid m =
     bindE (pid_used pid m) (\<lambda>used.
       if \<not> used then Inr pid
       else if pid > pid_max then Inr (- 1)
       else alloc_pid_from (pid + 1) m)"
  by pat_completeness auto

termination
  by (relation "measure (\<lambda>(pid, m). nat (33 - pid))") (auto simp: pid_max_def)

declare alloc_pid_from.simps [simp del]

definition alloc_pid :: "pidmap \<Rightarrow> (int \<times> pidmap) res" where
  "alloc_pid m =
     bindE (alloc_pid_from 0 m) (\<lambda>pid.
       if pid = - 1 then Inr (- 1, m)
       else bindE (set_pid pid m) (\<lambda>m'. Inr (pid, m')))"

section \<open>The set of identifiers in use\<close>

definition pids_used :: "pidmap \<Rightarrow> int set" where
  "pids_used m = {pid. pid_ok m pid \<and> bit (m ! pid_word pid) (pid_bit pid)}"

definition pidmap_wf :: "pidmap \<Rightarrow> bool" where
  "pidmap_wf m \<longleftrightarrow> length m = 33"

lemma pidmap_wf_init [simp]: "pidmap_wf pidmap_init"
  by (simp add: pidmap_wf_def pidmap_init_def)

lemma pids_used_init [simp]: "pids_used pidmap_init = {}"
  by (auto simp: pids_used_def pidmap_init_def pid_ok_def)

lemma pid_bit_less: "pid_bit pid < 32"
  by (simp add: pid_bit_def nat_less_iff)

lemma pid_eq_iff: "0 \<le> p \<Longrightarrow> 0 \<le> q \<Longrightarrow> pid_word p = pid_word q \<Longrightarrow> pid_bit p = pid_bit q \<Longrightarrow> p = q"
  unfolding pid_word_def pid_bit_def
  by (metis div_mult_mod_eq eq_nat_nat_iff pos_imp_zdiv_nonneg_iff pos_mod_sign zero_less_numeral)

lemma pid_ok_small: "pidmap_wf m \<Longrightarrow> 0 \<le> pid \<Longrightarrow> pid < 1056 \<Longrightarrow> pid_ok m pid"
  by (simp add: pid_ok_def pidmap_wf_def pid_word_def nat_less_iff)

lemma and_bit_iff: "w AND 2 ^ n \<noteq> 0 \<longleftrightarrow> bit w n" if "n < 32" for w :: u32
proof -
  have "bit (w AND 2 ^ n) k \<longleftrightarrow> bit w n \<and> k = n" for k
    using that by (auto simp: bit_simps)
  then show ?thesis by (metis bit_0_eq bit_eq_iff bot_apply bot_bool_def)
qed

lemma pid_used_iff: "pid_used pid m = (if pid_ok m pid then Inr (pid \<in> pids_used m) else Inl Out_Of_Bounds)"
  by (simp add: pid_used_def pids_used_def and_bit_iff pid_bit_less)

lemma bit_set_pid: "bit (w OR 2 ^ n) k \<longleftrightarrow> bit w k \<or> k = n" if "n < 32" for w :: u32
  using that by (auto simp: bit_simps)

lemma bit_clear_pid: "bit (w AND NOT (2 ^ n)) k \<longleftrightarrow> bit w k \<and> k \<noteq> n" if "n < 32" for w :: u32
  using that by (auto simp: bit_simps dest: bit_imp_le_length)

lemma set_pid_used: "set_pid pid m = Inr m' \<Longrightarrow> pids_used m' = insert pid (pids_used m) \<and> length m' = length m"
  by (auto simp: set_pid_def pids_used_def pid_ok_def nth_list_update bit_set_pid pid_bit_less
      intro: pid_eq_iff split: if_splits)

lemma free_pid_used: "free_pid pid m = Inr m' \<Longrightarrow> pids_used m' = pids_used m - {pid} \<and> length m' = length m"
  by (auto simp: free_pid_def pids_used_def pid_ok_def nth_list_update bit_clear_pid pid_bit_less
      dest: pid_eq_iff split: if_splits)

lemma free_pid_ok: "pidmap_wf m \<Longrightarrow> 0 \<le> pid \<Longrightarrow> pid < 1056 \<Longrightarrow> \<exists>m'. free_pid pid m = Inr m'"
  by (simp add: free_pid_def pid_ok_small)

lemma alloc_pid_from_ok:
  assumes "pidmap_wf m" and "0 \<le> pid" and "pid \<le> 32" and "{0..<pid} \<subseteq> pids_used m"
  shows "alloc_pid_from pid m =
    Inr (if {0..32} \<subseteq> pids_used m then - 1 else LEAST p. 0 \<le> p \<and> p \<notin> pids_used m)"
  using assms
proof (induction pid m rule: alloc_pid_from.induct)
  case (1 pid m)
  have u: "pid_used pid m = Inr (pid \<in> pids_used m)"
    using 1 by (simp add: pid_used_iff pid_ok_small)
  show ?case
  proof (cases "pid \<in> pids_used m")
    case False
    then have "(LEAST p. 0 \<le> p \<and> p \<notin> pids_used m) = pid"
      using 1(3,5) by (intro Least_equality) (auto simp: not_less [symmetric] subset_iff)
    moreover have "\<not> {0..32} \<subseteq> pids_used m" using False 1(3,4) by auto
    ultimately show ?thesis using u False by (simp add: alloc_pid_from.simps [of pid])
  next
    case True
    then have used: "{0..<pid + 1} \<subseteq> pids_used m" using 1(5) by force
    show ?thesis
    proof (cases "pid > pid_max")
      case True
      then have "pid = 32" using 1(4) by (simp add: pid_max_def)
      moreover from this have "{0..32} \<subseteq> pids_used m" using used by force
      ultimately show ?thesis using u \<open>pid \<in> pids_used m\<close> True
        by (simp add: alloc_pid_from.simps [of 32])
    next
      case False
      then have "pid + 1 \<le> 32" by (simp add: pid_max_def)
      then show ?thesis
        using 1(1) [OF u] \<open>pid \<in> pids_used m\<close> False 1(2,3) used u
        by (simp add: alloc_pid_from.simps [of pid])
    qed
  qed
qed

lemma least_free_pid:
  assumes "\<not> {0..32} \<subseteq> pids_used m"
  defines "p \<equiv> LEAST p. 0 \<le> p \<and> p \<notin> pids_used m"
  shows "0 \<le> p" and "p \<le> 32" and "p \<notin> pids_used m"
proof -
  obtain q where q: "0 \<le> q" "q \<le> 32" "q \<notin> pids_used m" using assms(1) by (auto simp: subset_iff)
  let ?P = "\<lambda>n. int n \<notin> pids_used m"
  define n where "n = (LEAST n. ?P n)"
  have "?P (nat q)" using q by simp
  then have n: "?P n" "n \<le> nat q" and least: "\<And>k. k < n \<Longrightarrow> \<not> ?P k"
    unfolding n_def by (rule LeastI, rule Least_le) (rule not_less_Least)
  have "p = int n" unfolding p_def
  proof (rule Least_equality)
    fix y assume "0 \<le> y \<and> y \<notin> pids_used m"
    moreover from this have "\<not> nat y < n" using least [of "nat y"] by auto
    ultimately show "int n \<le> y" by linarith
  qed (use n in simp)
  then show "0 \<le> p" "p \<le> 32" "p \<notin> pids_used m" using n q by auto
qed

lemma alloc_pid_full: "pidmap_wf m \<Longrightarrow> {0..32} \<subseteq> pids_used m \<Longrightarrow> alloc_pid m = Inr (- 1, m)"
  by (simp add: alloc_pid_def alloc_pid_from_ok)

lemma set_pid_ok: "pidmap_wf m \<Longrightarrow> 0 \<le> pid \<Longrightarrow> pid < 1056 \<Longrightarrow> \<exists>m'. set_pid pid m = Inr m'"
  by (simp add: set_pid_def pid_ok_small)

lemma alloc_pid_least:
  assumes "pidmap_wf m" and free: "\<not> {0..32} \<subseteq> pids_used m"
    and p_def: "p = (LEAST p. 0 \<le> p \<and> p \<notin> pids_used m)"
  shows "\<exists>m'. alloc_pid m = Inr (p, m') \<and> 0 \<le> p \<and> p \<le> 32 \<and> p \<notin> pids_used m \<and>
           pids_used m' = insert p (pids_used m) \<and> pidmap_wf m'"
proof -
  have p: "0 \<le> p" "p \<le> 32" "p \<notin> pids_used m"
    unfolding p_def by (rule least_free_pid [OF free])+
  obtain m' where m': "set_pid p m = Inr m'" using set_pid_ok [OF assms(1) p(1)] p(2) by auto
  have "alloc_pid_from 0 m = Inr p"
    using alloc_pid_from_ok [OF assms(1), of 0] free by (simp only: p_def if_False) simp
  then have "alloc_pid m = Inr (p, m')" using p(1) m' by (simp add: alloc_pid_def)
  then show ?thesis using p set_pid_used [OF m'] assms(1) by (simp add: pidmap_wf_def)
qed

lemma alloc_pid_cases:
  assumes "pidmap_wf m"
  obtains "alloc_pid m = Inr (- 1, m)" "{0..32} \<subseteq> pids_used m"
  | p m' where "alloc_pid m = Inr (p, m')" "0 \<le> p" "p \<le> 32" "p \<notin> pids_used m"
      "pids_used m' = insert p (pids_used m)" "pidmap_wf m'"
  using alloc_pid_full [OF assms] alloc_pid_least [OF assms _ refl]
  by (cases "{0..32} \<subseteq> pids_used m") blast+

lemma alloc_pid_from_skips:
  "alloc_pid_from pid m = Inr p \<Longrightarrow> pid \<le> i \<Longrightarrow> i < p \<Longrightarrow> i \<in> pids_used m"
proof (induction pid m rule: alloc_pid_from.induct)
  case (1 pid m)
  have u: "pid_used pid m = Inr True" and r: "pid > pid_max \<and> p = - 1 \<or> pid \<le> pid_max \<and> alloc_pid_from (pid + 1) m = Inr p"
    using 1(2-4) unfolding alloc_pid_from.simps [of pid m] by (auto simp: bind_rules split: if_splits)
  show ?case
  proof (cases "i = pid")
    case True
    then show ?thesis using u by (auto simp: pid_used_iff split: if_splits)
  next
    case False
    then have "i \<ge> pid + 1" using 1(3) by simp
    moreover have "0 \<le> pid" using u by (auto simp: pid_used_iff pid_ok_def split: if_splits)
    ultimately show ?thesis using r 1(1) [OF u] 1(4) by auto
  qed
qed

section \<open>What alloc_pid promises\<close>

text \<open>
  \<open>alloc_pid\<close> gives the least identifier that is not in use and marks it alone, or, when the
  identifiers 0 to 32 are all in use, returns -1 and changes nothing; an identifier given back by
  \<open>free_pid\<close> is free again.
\<close>

theorem alloc_pid_gives_the_least:
  assumes "pidmap_wf m"
  shows "\<exists>p m'. alloc_pid m = Inr (p, m') \<and> pidmap_wf m' \<and>
    (if {0..32} \<subseteq> pids_used m then p = - 1 \<and> m' = m
     else 0 \<le> p \<and> p \<le> 32 \<and> p \<notin> pids_used m \<and> (\<forall>i. 0 \<le> i \<longrightarrow> i < p \<longrightarrow> i \<in> pids_used m) \<and>
       pids_used m' = insert p (pids_used m) \<and>
       (\<exists>m''. free_pid p m' = Inr m'' \<and> pids_used m'' = pids_used m))"
proof (cases "{0..32} \<subseteq> pids_used m")
  case True
  then show ?thesis using alloc_pid_full [OF assms] assms by simp
next
  case False
  define p where "p = (LEAST p. 0 \<le> p \<and> p \<notin> pids_used m)"
  obtain m' where m': "alloc_pid m = Inr (p, m')" "0 \<le> p" "p \<le> 32" "p \<notin> pids_used m"
      "pids_used m' = insert p (pids_used m)" "pidmap_wf m'"
    using alloc_pid_least [OF assms False p_def] by blast
  moreover have "i \<in> pids_used m" if "0 \<le> i" "i < p" for i
  proof (rule ccontr)
    assume "i \<notin> pids_used m"
    show False
    proof (cases rule: alloc_pid_cases [OF assms])
      case 1
      then show ?thesis using False by blast
    next
      case (2 q m2)
      have "alloc_pid_from 0 m = Inr p"
        using alloc_pid_from_ok [OF assms, of 0] False by (simp add: p_def)
      then show ?thesis using alloc_pid_from_skips [of 0 m p i] that m'(2) \<open>i \<notin> pids_used m\<close> by auto
    qed
  qed
  moreover obtain m'' where m'': "free_pid p m' = Inr m''" using free_pid_ok [OF m'(6,2)] m'(3) by auto
  then have "pids_used m'' = pids_used m" using free_pid_used [OF m''] m'(4,5) by auto
  ultimately show ?thesis using False m'' by auto
qed

theorem alloc_pid_gives_the_least_witness:
  "\<exists>p m'. alloc_pid pidmap_init = Inr (p, m') \<and> 0 \<le> p \<and> p \<le> 32 \<and> pids_used m' = {p}"
  using alloc_pid_gives_the_least [OF pidmap_wf_init] by auto

text \<open>
  \<open>PID_MAX\<close> is 31, but the test comes after the increment: the identifier 32 is handed out too.
\<close>

theorem identifier_above_pid_max:
  assumes "pidmap_wf m" and "{0..31} \<subseteq> pids_used m" and "32 \<notin> pids_used m"
  shows "\<exists>m'. alloc_pid m = Inr (pid_max + 1, m')"
proof -
  have "(32::int) \<in> {0..32}" by simp
  then have "\<not> {0..32} \<subseteq> pids_used m" using assms(3) by blast
  then obtain p m' where p: "alloc_pid m = Inr (p, m')" "0 \<le> p" "p \<le> 32" "p \<notin> pids_used m"
    using alloc_pid_cases [OF assms(1)] by metis
  then have "p = 32" using assms(2) by (cases "p \<le> 31") auto
  then show ?thesis using p by (simp add: pid_max_def)
qed

lemma pids_used_full_word: "pids_used (pidmap_init[0 := - 1]) = {0..31}"
proof (intro set_eqI iffI)
  fix p assume "p \<in> pids_used (pidmap_init[0 := - 1])"
  then have p: "0 \<le> p" "pid_word p < 33" "bit ((pidmap_init[0 := - 1]) ! pid_word p) (pid_bit p)"
    by (auto simp: pids_used_def pid_ok_def pidmap_init_def)
  then have "pid_word p = 0" by (cases "pid_word p") (auto simp: pidmap_init_def nth_list_update)
  then show "p \<in> {0..31}" using p(1) by (simp add: pid_word_def)
next
  fix p :: int assume "p \<in> {0..31}"
  then show "p \<in> pids_used (pidmap_init[0 := - 1])"
    by (auto simp: pids_used_def pid_ok_def pidmap_init_def pid_word_def pid_bit_def nat_less_iff)
qed

theorem identifier_above_pid_max_witness: "\<exists>m'. alloc_pid (pidmap_init[0 := - 1]) = Inr (32, m')"
proof -
  have "pidmap_wf (pidmap_init[0 := - 1])" by (simp add: pidmap_wf_def pidmap_init_def)
  then show ?thesis using identifier_above_pid_max [of "pidmap_init[0 := - 1]"]
    by (simp add: pids_used_full_word pid_max_def)
qed

end
