(* ===== verification/PageAllocator.thy ===== *)
theory PageAllocator
  imports Prelude
begin

text \<open>
  \<open>kernel/page_allocator.c\<close>: the buddy allocator of the physical pages from 0x4000000 to 0x10000000.
  \<open>blocks b i\<close> is the free list \<open>area.map[i]\<close> (blocks of \<open>2 ^ i\<close> pages, \<open>i < MAP_SIZE = 15\<close>), in the
  order of its links, and \<open>arenas\<close> the counter \<open>area.nb_alloc\<close> of the 64 MB arenas in use. An index
  past the array is \<open>Inl Out_Of_Bounds\<close>, a null block dereferenced is \<open>Inl Null_Deref\<close> and a failed
  \<open>assert\<close> or \<open>panic\<close> is \<open>Inl Panic\<close>. The lemmas show that free blocks never overlap (\<open>buddy_inv\<close>),
  that an allocation takes a whole aligned block out of the free pages, and that a release gives
  back exactly the pages of the block, whatever the merges.
\<close>

section \<open>The allocator\<close>

record buddy =
  blocks :: "nat \<Rightarrow> u32 list"
  arenas :: int

definition buddy_init :: buddy where
  "buddy_init = \<lparr>blocks = (\<lambda>_. []), arenas = 0\<rparr>"

definition first_address :: u32 where "first_address = 0x4000000"
definition second_address :: u32 where "second_address = 0x8000000"
definition third_address :: u32 where "third_address = 0xc000000"

definition set_blocks :: "nat \<Rightarrow> u32 list \<Rightarrow> buddy \<Rightarrow> buddy" where
  "set_blocks i l b = b\<lparr>blocks := (blocks b)(i := l)\<rparr>"

definition get_blocks :: "nat \<Rightarrow> buddy \<Rightarrow> u32 list res" where
  "get_blocks i b = (if i < 15 then Inr (blocks b i) else Inl Out_Of_Bounds)"

definition init_alloc :: "buddy \<Rightarrow> buddy" where
  "init_alloc b =
     (if arenas b = 0 then (set_blocks 14 [first_address] b)\<lparr>arenas := 1\<rparr> else b)"

definition alloc_block :: "buddy \<Rightarrow> buddy res" where
  "alloc_block b =
     (if arenas b = 1 then Inr ((set_blocks 14 [second_address] b)\<lparr>arenas := 2\<rparr>)
      else if arenas b = 2 then Inr ((set_blocks 14 [third_address] b)\<lparr>arenas := 3\<rparr>)
      else Inl Panic)"

text \<open>
  \<open>puiss2\<close>. After its loop \<open>size\<close> is 0, so the test \<open>(int)size > (1 << p)\<close> only holds when \<open>1 << p\<close>
  is negative, that is for \<open>p = 31\<close>.
\<close>

function puiss2_loop :: "u32 \<Rightarrow> nat \<Rightarrow> nat" where
  "puiss2_loop sz p = (if sz = 0 then p else puiss2_loop (drop_bit 1 sz) (Suc p))"
  by pat_completeness auto

termination
proof (relation "measure (\<lambda>(sz, p). unat sz)", goal_cases)
  case (2 sz p)
  then have "unat sz \<noteq> 0" by (simp add: unat_eq_zero)
  then have "unat sz div 2 < unat sz" by (simp add: div_less_dividend)
  then show ?case by (simp add: unat_shr1)
qed simp

declare puiss2_loop.simps [simp del]

definition puiss2 :: "u32 \<Rightarrow> nat" where
  "puiss2 sz =
     (let p = puiss2_loop (sz - 1) 0
      in if 0 > sint (push_bit p 1 :: u32) then p + 1 else p)"

text \<open>The index of the list a request of \<open>nb_pages\<close> pages is served from (\<open>SHIFT\<close> is 12).\<close>

definition page_index :: "int \<Rightarrow> nat" where
  "page_index nb_pages = puiss2 (push_bit 12 (word_of_int nb_pages)) - 12"

definition buddy_of :: "nat \<Rightarrow> u32 \<Rightarrow> u32" where
  "buddy_of i a = a XOR push_bit (i + 12) 1"

function scan_free :: "nat \<Rightarrow> buddy \<Rightarrow> (nat \<times> buddy) res" where
  "scan_free i b =
     bindE (get_blocks i b) (\<lambda>l.
       if l \<noteq> [] then Inr (i, b)
       else bindE (get_blocks 14 b) (\<lambda>l14.
         if i + 1 = 14 \<and> l14 = [] then bindE (alloc_block b) (scan_free (i + 1))
         else scan_free (i + 1) b))"
  by pat_completeness auto

termination
  by (relation "measure (\<lambda>(i, b). 15 - i)") (auto simp: get_blocks_def split: if_splits)

declare scan_free.simps [simp del]

fun split_blocks :: "nat \<Rightarrow> nat \<Rightarrow> buddy \<Rightarrow> buddy res" where
  "split_blocks i index b =
     (if i = index then Inr b
      else case i of
        0 \<Rightarrow> Inl Out_Of_Bounds
      | Suc j \<Rightarrow>
          (case blocks b i of
             [] \<Rightarrow> Inl Null_Deref
           | c # r \<Rightarrow> split_blocks j index
               (set_blocks j [c, buddy_of j c] (set_blocks i r b))))"

declare split_blocks.simps [simp del]

definition alloc_physical_page :: "int \<Rightarrow> buddy \<Rightarrow> (u32 \<times> buddy) res" where
  "alloc_physical_page nb_pages b =
     (let b0 = init_alloc b in
      if \<not> (nb_pages > 0) then Inl Panic
      else if \<not> (nb_pages < 0x4000) then Inl Panic
      else let index = page_index nb_pages in
        bindE (scan_free index b0) (\<lambda>(i, b1).
        bindE (split_blocks i index b1) (\<lambda>b2.
          case blocks b2 index of
            [] \<Rightarrow> Inl Null_Deref
          | p # r \<Rightarrow> Inr (p, set_blocks index r b2))))"

text \<open>
  The loop of \<open>free_physical_page\<close>: it looks for the buddy in the list of the index; when the
  buddy is there, it is unlinked and the loop starts over one index up with the merged block, or
  leaves with the index 15, after which \<open>area.map[15]\<close> is written.
\<close>

function free_block :: "nat \<Rightarrow> u32 \<Rightarrow> buddy \<Rightarrow> buddy res" where
  "free_block index page b =
     bindE (get_blocks index b) (\<lambda>l.
       let buddy_address = buddy_of index page in
       if buddy_address \<in> set l then
         (let b1 = set_blocks index (remove1 buddy_address l) b in
          if index + 1 = 15 then Inl Out_Of_Bounds
          else free_block (index + 1) (if page < buddy_address then page else buddy_address) b1)
       else Inr (set_blocks index (page # l) b))"
  by pat_completeness auto

termination
  by (relation "measure (\<lambda>(i, p, b). 15 - i)") (auto simp: get_blocks_def split: if_splits)

declare free_block.simps [simp del]

definition free_physical_page :: "u32 \<Rightarrow> int \<Rightarrow> buddy \<Rightarrow> buddy res" where
  "free_physical_page page nb_pages b = free_block (page_index nb_pages) page b"

section \<open>The index of a request\<close>

lemma puiss2_loop_bounds:
  "p \<le> puiss2_loop s p \<and> unat s < 2 ^ (puiss2_loop s p - p) \<and>
   (s \<noteq> 0 \<longrightarrow> 2 ^ (puiss2_loop s p - p) \<le> 2 * unat s)"
proof (induction s p rule: puiss2_loop.induct)
  case (1 s p)
  show ?case
  proof (cases "s = 0")
    case True
    then show ?thesis by (simp add: puiss2_loop.simps)
  next
    case False
    let ?h = "drop_bit 1 s" and ?k = "puiss2_loop (drop_bit 1 s) (Suc p)"
    have e: "puiss2_loop s p = ?k" using False by (subst puiss2_loop.simps) simp
    have h: "unat ?h = unat s div 2" by (simp add: unat_shr1)
    note IH = 1 [OF False]
    then have k: "?k - p = Suc (?k - Suc p)" by auto
    have "2 ^ (?k - p) \<le> 2 * unat s"
    proof (cases "?h = 0")
      case True
      then have "?k = Suc p" by (simp add: puiss2_loop.simps)
      moreover have "unat s \<noteq> 0" using False by (simp add: unat_eq_zero)
      ultimately show ?thesis by simp
    next
      case False
      then have "2 ^ (?k - Suc p) \<le> 2 * (unat s div 2)" using IH h by auto
      then have "2 ^ (?k - Suc p) \<le> unat s" by linarith
      then show ?thesis using k by simp
    qed
    moreover have "unat s div 2 < 2 ^ (?k - Suc p)" using IH h by simp
    then have "unat s < 2 * 2 ^ (?k - Suc p)" by linarith
    ultimately show ?thesis using IH k e by simp
  qed
qed

lemma puiss2_least:
  assumes "2 \<le> n" and "n \<le> 2 ^ 30"
  shows "n \<le> 2 ^ puiss2 (of_nat n)" and "2 ^ puiss2 (of_nat n) < 2 * n"
proof -
  have un: "unat (of_nat n - 1 :: u32) = n - 1"
    using assms by (simp add: unat_sub_if' unat_of_nat take_bit_eq_mod)
  let ?p = "puiss2_loop (of_nat n - 1) 0"
  have nz: "of_nat n - 1 \<noteq> (0 :: u32)" using un assms by (auto simp: unat_eq_zero [symmetric] simp del: unat_eq_zero)
  then have b: "n - 1 < 2 ^ ?p" "2 ^ ?p \<le> 2 * (n - 1)"
    using puiss2_loop_bounds [of 0 "of_nat n - 1"] un by simp_all
  have "(2::nat) ^ ?p < 2 ^ 31" using b(2) assms by simp
  then have p: "?p < 31" by (simp only: power_strict_increasing_iff)
  have "(2::int) ^ ?p \<le> 2 ^ 30" using p by (intro power_increasing) simp_all
  then have "signed_take_bit 31 (2 ^ ?p :: int) = 2 ^ ?p"
    by (intro signed_take_bit_int_eq_self) (auto intro: order_trans [OF _ zero_le_power])
  moreover have "uint (2 ^ ?p :: u32) = 2 ^ ?p" using p by (intro uint_pow2) simp
  ultimately have "sint (push_bit ?p 1 :: u32) = 2 ^ ?p"
    by (simp add: sint_uint)
  then have "puiss2 (of_nat n) = ?p" by (simp add: puiss2_def)
  then show "n \<le> 2 ^ puiss2 (of_nat n)" and "2 ^ puiss2 (of_nat n) < 2 * n"
    using b assms by auto
qed

lemma numeral_pow2_12: "(2::nat) ^ 12 = 4096"
  by simp

lemma page_index_least:
  assumes "1 \<le> n" and "n < 0x4000"
  shows "n \<le> 2 ^ page_index (int n)" and "2 ^ page_index (int n) < 2 * n" and "page_index (int n) < 15"
proof -
  have e: "push_bit 12 (word_of_int (int n)) = (of_nat (n * 4096) :: u32)"
    by (simp add: push_bit_eq_mult mult.commute)
  have b: "n * 4096 \<le> 2 ^ puiss2 (of_nat (n * 4096))" "2 ^ puiss2 (of_nat (n * 4096)) < 2 * (n * 4096)"
    using assms by (intro puiss2_least; simp)+
  let ?p = "puiss2 (of_nat (n * 4096) :: u32)"
  have "(2::nat) ^ 12 \<le> 2 ^ ?p" using b(1) assms by (intro order_trans [OF _ b(1)]) simp
  then have "12 \<le> ?p" by (simp only: power_increasing_iff)
  then have s: "(2::nat) ^ ?p = 4096 * 2 ^ page_index (int n)"
    unfolding page_index_def e by (metis le_add_diff_inverse power_add numeral_pow2_12)
  show "n \<le> 2 ^ page_index (int n)" and lt: "2 ^ page_index (int n) < 2 * n"
    using b unfolding s by simp_all
  then have "(2::nat) ^ page_index (int n) < 2 ^ 15" using assms by simp
  then show "page_index (int n) < 15" by (simp only: power_strict_increasing_iff)
qed

section \<open>Blocks of pages\<close>

text \<open>The pages of the block of order \<open>i\<close> at \<open>a\<close>, and the blocks the allocator may hold.\<close>

definition block_pages :: "nat \<Rightarrow> u32 \<Rightarrow> nat set" where
  "block_pages i a = {unat a div 4096 ..< unat a div 4096 + 2 ^ i}"

definition block_ok :: "int \<Rightarrow> nat \<Rightarrow> u32 \<Rightarrow> bool" where
  "block_ok n i a \<longleftrightarrow> 2 ^ (i + 12) dvd unat a \<and>
     block_pages i a \<subseteq> {16384 ..< 16384 + 16384 * nat n}"

lemma unat_or_pow2:
  assumes "\<not> bit a k" and "k < 32" shows "unat (a OR 2 ^ k :: u32) = unat a + 2 ^ k"
proof -
  have "unat a AND 2 ^ k = 0"
    using assms by (intro bit_eqI) (auto simp: bit_simps)
  then have "unat a + 2 ^ k = unat a OR 2 ^ k" by (simp add: disjunctive_add_eq_or)
  then show ?thesis using assms(2) by (simp add: unsigned_or_eq unat_pow2)
qed

lemma xor_pow2_unset: "\<not> bit a k \<Longrightarrow> a XOR 2 ^ k = a OR 2 ^ k" for a :: u32
  by (rule bit_word_eqI) (auto simp: bit_simps)

lemma unat_xor_unset: "\<not> bit a k \<Longrightarrow> k < 32 \<Longrightarrow> unat (a XOR 2 ^ k :: u32) = unat a + 2 ^ k"
  by (simp add: xor_pow2_unset unat_or_pow2)

lemma unat_xor_set: 
  assumes "bit a k" and "k < 32" shows "unat a = unat (a XOR 2 ^ k :: u32) + 2 ^ k"
proof -
  have "\<not> bit (a XOR 2 ^ k) k" using assms by (simp add: bit_simps)
  then show ?thesis using unat_xor_unset [of "a XOR 2 ^ k" k] assms(2) by (simp add: xor.assoc)
qed

lemma bit_word_odd: "bit a k \<longleftrightarrow> odd (unat a div 2 ^ k)" for a :: u32
  by (simp add: bit_unsigned_iff flip: bit_iff_odd)

lemma aligned_next: "2 ^ k dvd unat a \<Longrightarrow> \<not> bit a k \<Longrightarrow> 2 ^ Suc k dvd unat a" for a :: u32
  by (auto simp: bit_word_odd elim!: dvdE evenE)

lemma aligned_unset: "2 ^ Suc k dvd unat a \<Longrightarrow> \<not> bit a k" for a :: u32
  by (auto simp: bit_word_odd elim!: dvdE)

lemma pages_of_aligned:
  assumes "2 ^ (i + 12) dvd unat a"
  obtains m where "unat a = m * 2 ^ i * 4096" "unat a div 4096 = m * 2 ^ i"
proof -
  from assms obtain m where "unat a = 2 ^ (i + 12) * m" by (elim dvdE)
  then have "unat a = m * 2 ^ i * 4096" by (simp add: power_add)
  then show ?thesis using that [of m] by simp
qed

lemma buddy_of_pow: "buddy_of i a = a XOR 2 ^ (i + 12)"
  by (simp add: buddy_of_def)

lemma buddy_of_involution [simp]: "buddy_of i (buddy_of i a) = a"
  by (simp add: buddy_of_def xor.assoc)

text \<open>A block of order \<open>i + 1\<close> is the disjoint union of its two halves, which are buddies.\<close>

lemma block_halves:
  assumes "block_ok n (Suc i) a" and "i + 12 < 32"
  shows "block_ok n i a" and "block_ok n i (buddy_of i a)"
    and "block_pages (Suc i) a = block_pages i a \<union> block_pages i (buddy_of i a)"
    and "block_pages i a \<inter> block_pages i (buddy_of i a) = {}"
proof -
  have al: "2 ^ Suc (i + 12) dvd unat a" and sub: "block_pages (Suc i) a \<subseteq> {16384 ..< 16384 + 16384 * nat n}"
    using assms(1) by (simp_all add: block_ok_def)
  have u: "unat (buddy_of i a) = unat a + 2 ^ (i + 12)"
    using aligned_unset [OF al] assms(2) unfolding buddy_of_pow by (rule unat_xor_unset)
  have d: "2 ^ (i + 12) dvd unat a" using al by (rule power_le_dvd) simp
  have pg: "unat (buddy_of i a) div 4096 = unat a div 4096 + 2 ^ i"
    using u by (simp add: power_add)
  show un: "block_pages (Suc i) a = block_pages i a \<union> block_pages i (buddy_of i a)"
    and "block_pages i a \<inter> block_pages i (buddy_of i a) = {}"
    by (auto simp: block_pages_def pg)
  show "block_ok n i a" and "block_ok n i (buddy_of i a)"
    using sub un d by (auto simp: block_ok_def u)
qed

lemma block_merge:
  assumes "block_ok n i a" and "block_ok n i (buddy_of i a)" and "i + 12 < 32"
  defines "m \<equiv> if a < buddy_of i a then a else buddy_of i a"
  shows "block_ok n (Suc i) m"
    and "block_pages (Suc i) m = block_pages i a \<union> block_pages i (buddy_of i a)"
proof -
  let ?b = "buddy_of i a"
  have d: "2 ^ (i + 12) dvd unat a" "2 ^ (i + 12) dvd unat ?b"
    using assms(1,2) by (simp_all add: block_ok_def)
  have low: "\<not> bit m (i + 12) \<and> 2 ^ (i + 12) dvd unat m \<and> {m, buddy_of i m} = {a, ?b}"
  proof (cases "bit a (i + 12)")
    case True
    then have "unat a = unat ?b + 2 ^ (i + 12)" using assms(3) unfolding buddy_of_pow by (rule unat_xor_set)
    then have "\<not> a < ?b" by (simp add: word_less_nat_alt)
    then show ?thesis using True d assms(3) by (auto simp: m_def buddy_of_pow bit_simps xor.assoc)
  next
    case False
    then have "unat ?b = unat a + 2 ^ (i + 12)" using assms(3) unfolding buddy_of_pow by (rule unat_xor_unset)
    then have "a < ?b" by (simp add: word_less_nat_alt)
    then show ?thesis using False d by (auto simp: m_def)
  qed
  then have al: "2 ^ Suc (i + 12) dvd unat m" by (blast intro: aligned_next)
  have u: "unat (buddy_of i m) = unat m + 2 ^ (i + 12)"
    using low assms(3) unfolding buddy_of_pow by (intro unat_xor_unset) simp_all
  have pg: "unat (buddy_of i m) div 4096 = unat m div 4096 + 2 ^ i"
    using u by (simp add: power_add)
  have "block_pages (Suc i) m = block_pages i m \<union> block_pages i (buddy_of i m)"
    by (auto simp: block_pages_def pg)
  also have "\<dots> = block_pages i a \<union> block_pages i ?b"
    using low by (auto simp: doubleton_eq_iff)
  finally show un: "block_pages (Suc i) m = block_pages i a \<union> block_pages i ?b" .
  show "block_ok n (Suc i) m"
    using al un assms(1,2) by (simp add: block_ok_def)
qed

section \<open>The invariant\<close>

definition held :: "buddy \<Rightarrow> (nat \<times> u32) set" where
  "held b = {(i, a). i < 15 \<and> a \<in> set (blocks b i)}"

definition pages_at :: "nat \<times> u32 \<Rightarrow> nat set" where
  "pages_at x = block_pages (fst x) (snd x)"

definition free_pages :: "buddy \<Rightarrow> nat set" where
  "free_pages b = (\<Union>x\<in>held b. pages_at x)"

definition buddy_inv :: "buddy \<Rightarrow> bool" where
  "buddy_inv b \<longleftrightarrow> 0 \<le> arenas b \<and> arenas b \<le> 3 \<and> (\<forall>i. distinct (blocks b i)) \<and>
     (\<forall>x\<in>held b. block_ok (arenas b) (fst x) (snd x)) \<and>
     pairwise (\<lambda>x y. pages_at x \<inter> pages_at y = {}) (held b)"

lemma block_pages_nonempty [simp]: "block_pages i a \<noteq> {}"
  by (simp add: block_pages_def)

lemma buddy_inv_init [simp]: "buddy_inv buddy_init"
  by (simp add: buddy_inv_def buddy_init_def held_def)

lemma free_pages_init [simp]: "free_pages buddy_init = {}"
  by (simp add: free_pages_def buddy_init_def held_def)

lemma arenas_set_blocks [simp]: "arenas (set_blocks i l b) = arenas b"
  by (simp add: set_blocks_def)

lemma blocks_set_blocks [simp]: "blocks (set_blocks i l b) = (blocks b)(i := l)"
  by (simp add: set_blocks_def)

lemma set_blocks_twice [simp]: "set_blocks i l (set_blocks i l' b) = set_blocks i l b"
  by (simp add: set_blocks_def)

lemma inv_unlink:
  assumes inv: "buddy_inv b" and i: "i < 15" and a: "a \<in> set (blocks b i)"
    and l: "distinct l" "set l = set (blocks b i) - {a}"
  shows "buddy_inv (set_blocks i l b)" and "block_ok (arenas b) i a"
    and "free_pages b = free_pages (set_blocks i l b) \<union> block_pages i a"
    and "free_pages (set_blocks i l b) \<inter> block_pages i a = {}"
proof -
  have al: "a \<notin> set l" "\<And>x. x \<in> set (blocks b i) \<longleftrightarrow> x = a \<or> x \<in> set l" using a l(2) by auto
  have h: "held b = insert (i, a) (held (set_blocks i l b))" and new: "(i, a) \<notin> held (set_blocks i l b)"
    unfolding held_def using i al by (auto split: if_split_asm)
  show "buddy_inv (set_blocks i l b)"
    using inv l unfolding buddy_inv_def h by (simp add: pairwise_insert)
  show "block_ok (arenas b) i a"
    using inv unfolding buddy_inv_def h by simp
  show "free_pages b = free_pages (set_blocks i l b) \<union> block_pages i a"
    unfolding free_pages_def h by (simp add: pages_at_def Un_commute)
  have "pages_at y \<inter> pages_at (i, a) = {}" if "y \<in> held (set_blocks i l b)" for y
    using pairwiseD [of "\<lambda>x y. pages_at x \<inter> pages_at y = {}" "held b" y "(i, a)"] inv new that h
    by (auto simp: buddy_inv_def)
  then show "free_pages (set_blocks i l b) \<inter> block_pages i a = {}"
    by (auto simp: free_pages_def pages_at_def [of "(i, a)"])
qed

lemma inv_link:
  assumes inv: "buddy_inv b" and i: "i < 15" and ok: "block_ok (arenas b) i a"
    and dis: "free_pages b \<inter> block_pages i a = {}"
  shows "buddy_inv (set_blocks i (a # blocks b i) b)"
    and "free_pages (set_blocks i (a # blocks b i) b) = free_pages b \<union> block_pages i a"
proof -
  have h: "held (set_blocks i (a # blocks b i) b) = insert (i, a) (held b)"
    using i by (auto simp: held_def split: if_splits)
  have d: "pages_at x \<inter> block_pages i a = {}" if "x \<in> held b" for x
    using dis that by (auto simp: free_pages_def)
  have new: "(i, a) \<notin> held b" using d [of "(i, a)"] by (auto simp: pages_at_def)
  then have "a \<notin> set (blocks b i)" using i by (simp add: held_def)
  moreover have "pairwise (\<lambda>x y. pages_at x \<inter> pages_at y = {}) (insert (i, a) (held b))"
    using inv d by (simp add: pairwise_insert buddy_inv_def pages_at_def [of "(i, a)"] Int_commute [of "block_pages i a"])
  ultimately show "buddy_inv (set_blocks i (a # blocks b i) b)"
    using inv ok unfolding buddy_inv_def h by simp
  show "free_pages (set_blocks i (a # blocks b i) b) = free_pages b \<union> block_pages i a"
    by (auto simp: free_pages_def h pages_at_def)
qed

lemma inv_pop:
  assumes "buddy_inv b" and "i < 15" and "blocks b i = a # r"
  shows "buddy_inv (set_blocks i r b)" and "block_ok (arenas b) i a"
    and "free_pages b = free_pages (set_blocks i r b) \<union> block_pages i a"
    and "free_pages (set_blocks i r b) \<inter> block_pages i a = {}"
proof -
  have "distinct (a # r)" using assms by (metis buddy_inv_def)
  then have "distinct r" "set r = set (blocks b i) - {a}" "a \<in> set (blocks b i)"
    using assms(3) by auto
  note u = inv_unlink [OF assms(1,2) this(3) this(1,2)]
  show "buddy_inv (set_blocks i r b)" by (rule u)
  show "block_ok (arenas b) i a" by (rule u)
  show "free_pages b = free_pages (set_blocks i r b) \<union> block_pages i a" by (rule u)
  show "free_pages (set_blocks i r b) \<inter> block_pages i a = {}" by (rule u)
qed

section \<open>Release\<close>

theorem free_block_inv:
  assumes "free_block i a b = Inr b'" and "buddy_inv b" and "block_ok (arenas b) i a"
    and "free_pages b \<inter> block_pages i a = {}"
  shows "buddy_inv b' \<and> arenas b' = arenas b \<and> free_pages b' = free_pages b \<union> block_pages i a"
  using assms
proof (induction i a b rule: free_block.induct)
  case (1 i a b)
  have i: "i < 15" using 1(2) by (auto simp: free_block.simps [of i] get_blocks_def split: if_splits)
  then have g: "get_blocks i b = Inr (blocks b i)" by (simp add: get_blocks_def)
  let ?c = "buddy_of i a"
  show ?case
  proof (cases "?c \<in> set (blocks b i)")
    case False
    then have "b' = set_blocks i (a # blocks b i) b"
      using 1(2) g by (simp add: free_block.simps [of i])
    then show ?thesis using inv_link [OF 1(3) i 1(4,5)] by simp
  next
    case True
    let ?b = "set_blocks i (remove1 ?c (blocks b i)) b"
    have dist: "distinct (blocks b i)" using 1(3) by (simp add: buddy_inv_def)
    note u = inv_unlink [OF 1(3) i True, of "remove1 ?c (blocks b i)"]
    have u: "buddy_inv ?b" "block_ok (arenas b) i ?c" "free_pages b = free_pages ?b \<union> block_pages i ?c"
        "free_pages ?b \<inter> block_pages i ?c = {}"
      using u dist by (simp_all add: set_remove1_eq)
    define m where "m = (if a < ?c then a else ?c)"
    have i14: "i + 1 \<noteq> 15" and step: "free_block (i + 1) m ?b = Inr b'"
      using 1(2) g True by (auto simp: free_block.simps [of i] Let_def m_def split: if_splits)
    have mg: "block_ok (arenas b) (Suc i) m" "block_pages (Suc i) m = block_pages i a \<union> block_pages i ?c"
      using block_merge [OF 1(4) u(2)] i by (simp_all add: m_def)
    have "free_pages ?b \<inter> block_pages (Suc i) m = {}"
      using u(3,4) mg(2) 1(5) by blast
    then have "buddy_inv b' \<and> arenas b' = arenas ?b \<and> free_pages b' = free_pages ?b \<union> block_pages (Suc i) m"
      using 1(1) [OF g refl True refl i14] step u(1) mg(1) unfolding m_def by simp
    then show ?thesis using u(3) mg(2) by auto
  qed
qed

section \<open>Allocation\<close>

text \<open>The pages of the arenas \<open>m + 1, ..., n\<close>.\<close>

definition arena_pages :: "int \<Rightarrow> int \<Rightarrow> nat set" where
  "arena_pages m n = {16384 * nat (m + 1) ..< 16384 * nat (n + 1)}"

lemma arena_pages_empty [simp]: "arena_pages m m = {}"
  by (simp add: arena_pages_def)

lemma arena_pages_Un: "m \<le> k \<Longrightarrow> k \<le> n \<Longrightarrow> - 1 \<le> m \<Longrightarrow> arena_pages m k \<union> arena_pages k n = arena_pages m n"
  by (auto simp: arena_pages_def)

lemma block_ok_mono: "block_ok m i a \<Longrightarrow> m \<le> n \<Longrightarrow> block_ok n i a"
  by (force simp: block_ok_def subset_iff)

lemma free_pages_bound: "buddy_inv b \<Longrightarrow> free_pages b \<subseteq> {16384 ..< 16384 + 16384 * nat (arenas b)}"
  by (fastforce simp: buddy_inv_def free_pages_def block_ok_def pages_at_def)

lemma add_arena:
  assumes inv: "buddy_inv b" and e: "blocks b 14 = []" and n: "arenas b < 3" and a: "unat a = 67108864 * nat (arenas b + 1)"
  defines "b' \<equiv> (set_blocks 14 [a] b)\<lparr>arenas := arenas b + 1\<rparr>"
  shows "buddy_inv b'" and "free_pages b' = free_pages b \<union> arena_pages (arenas b) (arenas b + 1)"
proof -
  have nn: "0 \<le> arenas b" using inv by (simp add: buddy_inv_def)
  let ?b = "b\<lparr>arenas := arenas b + 1\<rparr>"
  have pg: "block_pages 14 a = arena_pages (arenas b) (arenas b + 1)"
    using nn by (auto simp: block_pages_def arena_pages_def a nat_add_distrib)
  have h: "held ?b = held b" by (simp add: held_def)
  then have fp: "free_pages ?b = free_pages b" by (simp add: free_pages_def)
  have i1: "buddy_inv ?b"
    using inv n unfolding buddy_inv_def h by (auto intro: block_ok_mono)
  have ok: "block_ok (arenas ?b) 14 a"
    unfolding block_ok_def pg using nn by (auto simp: a arena_pages_def nat_add_distrib)
  have "free_pages ?b \<inter> block_pages 14 a = {}"
    using free_pages_bound [OF inv] nn unfolding fp pg by (fastforce simp: arena_pages_def nat_add_distrib)
  note l = inv_link [OF i1 _ ok this]
  moreover have "b' = set_blocks 14 (a # blocks ?b 14) ?b" by (simp add: b'_def e set_blocks_def)
  ultimately show "buddy_inv b'" and "free_pages b' = free_pages b \<union> arena_pages (arenas b) (arenas b + 1)"
    using fp pg by simp_all
qed

lemma init_alloc_inv:
  assumes "buddy_inv b"
  shows "buddy_inv (init_alloc b)" and "1 \<le> arenas (init_alloc b)" and "arenas b \<le> arenas (init_alloc b)"
    and "free_pages (init_alloc b) = free_pages b \<union> arena_pages (arenas b) (arenas (init_alloc b))"
proof -
  have "buddy_inv (init_alloc b) \<and> 1 \<le> arenas (init_alloc b) \<and> arenas b \<le> arenas (init_alloc b) \<and>
    free_pages (init_alloc b) = free_pages b \<union> arena_pages (arenas b) (arenas (init_alloc b))"
  proof (cases "arenas b = 0")
    case True
    have "held b = {}"
      using assms True by (fastforce simp: buddy_inv_def block_ok_def)
    then have "blocks b 14 = []" by (auto simp: held_def neq_Nil_conv intro: ccontr)
    then show ?thesis
      using add_arena [OF assms, of first_address] True
      by (simp add: init_alloc_def first_address_def)
  next
    case False
    then show ?thesis using assms by (auto simp: init_alloc_def buddy_inv_def)
  qed
  then show "buddy_inv (init_alloc b)" and "1 \<le> arenas (init_alloc b)" and "arenas b \<le> arenas (init_alloc b)"
    and "free_pages (init_alloc b) = free_pages b \<union> arena_pages (arenas b) (arenas (init_alloc b))"
    by blast+
qed

lemma alloc_block_inv:
  assumes "alloc_block b = Inr b'" and "buddy_inv b" and "blocks b 14 = []"
  shows "buddy_inv b' \<and> arenas b' = arenas b + 1 \<and> 
    free_pages b' = free_pages b \<union> arena_pages (arenas b) (arenas b') \<and> (\<forall>k. k \<noteq> 14 \<longrightarrow> blocks b' k = blocks b k)"
proof -
  obtain a where "b' = (set_blocks 14 [a] b)\<lparr>arenas := arenas b + 1\<rparr>" "arenas b < 3"
      "unat a = 67108864 * nat (arenas b + 1)"
    using assms(1) by (auto simp: alloc_block_def second_address_def third_address_def split: if_splits)
  then show ?thesis using add_arena [OF assms(2,3)] by simp
qed

lemma between_Suc: "i \<le> k \<and> k < j \<longleftrightarrow> (k = i \<and> i < j) \<or> (Suc i \<le> k \<and> k < j)"
  by auto

lemma scan_free_inv:
  assumes "scan_free i b = Inr (j, b')" and "buddy_inv b"
  shows "buddy_inv b' \<and> arenas b \<le> arenas b' \<and> i \<le> j \<and> j < 15 \<and> blocks b' j \<noteq> [] \<and>
    (\<forall>k. i \<le> k \<and> k < j \<longrightarrow> blocks b' k = []) \<and> (\<forall>k. k < 14 \<longrightarrow> blocks b' k = blocks b k) \<and>
    free_pages b' = free_pages b \<union> arena_pages (arenas b) (arenas b')"
  using assms
proof (induction i b rule: scan_free.induct)
  case (1 i b)
  have i: "i < 15" using 1(3) by (auto simp: scan_free.simps [of i] get_blocks_def split: if_splits)
  then have g: "get_blocks i b = Inr (blocks b i)" "get_blocks 14 b = Inr (blocks b 14)"
    by (simp_all add: get_blocks_def)
  consider "blocks b i \<noteq> []" | "blocks b i = []" "i = 13" "blocks b 14 = []"
    | "blocks b i = []" "\<not> (i + 1 = 14 \<and> blocks b 14 = [])" by fastforce
  then show ?case
  proof cases
    case 1
    then have "i = j" "b = b'" using "1.prems"(1) g by (simp_all add: scan_free.simps [of i])
    then show ?thesis using "1.prems"(2) 1 i by auto
  next
    case 2
    obtain b1 where b1: "alloc_block b = Inr b1" "scan_free 14 b1 = Inr (j, b')"
      using "1.prems"(1) g 2 by (auto simp: scan_free.simps [of 13] bind_rules)
    have a: "buddy_inv b1" "arenas b1 = arenas b + 1" "\<And>k. k \<noteq> 14 \<Longrightarrow> blocks b1 k = blocks b k"
        "free_pages b1 = free_pages b \<union> arena_pages (arenas b) (arenas b1)"
      using alloc_block_inv [OF b1(1) "1.prems"(2) 2(3)] by simp_all
    have IH: "buddy_inv b' \<and> arenas b1 \<le> arenas b' \<and> 14 \<le> j \<and> j < 15 \<and> blocks b' j \<noteq> [] \<and>
      (\<forall>k. 14 \<le> k \<and> k < j \<longrightarrow> blocks b' k = []) \<and> (\<forall>k. k < 14 \<longrightarrow> blocks b' k = blocks b1 k) \<and>
      free_pages b' = free_pages b1 \<union> arena_pages (arenas b1) (arenas b')"
      using 1(1) [OF g(1) _ g(2)] 2 b1 a(1) by simp
    have "arenas b \<ge> 0" using "1.prems"(2) by (simp add: buddy_inv_def)
    then have "free_pages b' = free_pages b \<union> arena_pages (arenas b) (arenas b')"
      using IH a(2,4) arena_pages_Un [of "arenas b" "arenas b1" "arenas b'"] by auto
    then show ?thesis using IH a(2,3) 2 by (auto simp: between_Suc [of 13])
  next
    case 3
    then have "scan_free (i + 1) b = Inr (j, b')"
      using "1.prems"(1) g by (auto simp: scan_free.simps [of i])
    then have IH: "buddy_inv b' \<and> arenas b \<le> arenas b' \<and> i + 1 \<le> j \<and> j < 15 \<and> blocks b' j \<noteq> [] \<and>
      (\<forall>k. i + 1 \<le> k \<and> k < j \<longrightarrow> blocks b' k = []) \<and> (\<forall>k. k < 14 \<longrightarrow> blocks b' k = blocks b k) \<and>
      free_pages b' = free_pages b \<union> arena_pages (arenas b) (arenas b')"
      using 1(2) [OF g(1) _ g(2)] 3 "1.prems"(2) by simp
    then show ?thesis using 3(1) by (auto simp: between_Suc [of i])
  qed
qed

lemma split_blocks_inv:
  assumes "split_blocks i index b = Inr b'" and "buddy_inv b" and "index \<le> i" and "i < 15"
    and "blocks b i \<noteq> []" and "\<forall>k. index \<le> k \<and> k < i \<longrightarrow> blocks b k = []"
  shows "buddy_inv b' \<and> arenas b' = arenas b \<and> blocks b' index \<noteq> [] \<and> free_pages b' = free_pages b"
  using assms
proof (induction i index b rule: split_blocks.induct)
  case (1 i index b)
  show ?case
  proof (cases "i = index")
    case True
    then show ?thesis using "1.prems" by (simp add: split_blocks.simps [of index])
  next
    case False
    then obtain j where j: "i = Suc j" "index \<le> j" using "1.prems"(3) by (cases i) auto
    obtain c r where c: "blocks b i = c # r" using "1.prems"(5) by (cases "blocks b i") auto
    let ?b = "set_blocks i r b"
    let ?b1 = "set_blocks j (buddy_of j c # blocks ?b j) ?b"
    let ?b2 = "set_blocks j (c # blocks ?b1 j) ?b1"
    have e: "blocks ?b j = []" using "1.prems"(6) j by simp
    have step: "split_blocks j index ?b2 = Inr b'"
      using "1.prems"(1) False j c e by (simp add: split_blocks.simps [of "Suc j"])
    note p = inv_pop [OF "1.prems"(2,4) c]
    have ok: "block_ok (arenas b) (Suc j) c" using p(2) j by simp
    note h = block_halves [OF ok]
    have j15: "j < 15" "j + 12 < 32" using j "1.prems"(4) by simp_all
    have p4: "free_pages ?b \<inter> block_pages (Suc j) c = {}" using p(4) j by simp
    have d1: "free_pages ?b \<inter> block_pages j (buddy_of j c) = {}" using p4 h(3) [OF j15(2)] by blast
    have l1: "buddy_inv ?b1" "free_pages ?b1 = free_pages ?b \<union> block_pages j (buddy_of j c)"
      using inv_link [OF p(1) j15(1) _ d1] h(2) [OF j15(2)] by simp_all
    have d2: "free_pages ?b1 \<inter> block_pages j c = {}"
      unfolding l1(2) using p4 h(3,4) [OF j15(2)] by blast
    have l2: "buddy_inv ?b2" "free_pages ?b2 = free_pages ?b1 \<union> block_pages j c"
      using inv_link [OF l1(1) j15(1) _ d2] h(1) [OF j15(2)] by simp_all
    have "free_pages ?b2 = free_pages b"
      unfolding l2(2) l1(2) p(3) using h(3) [OF j15(2)] j(1) by blast
    moreover have "buddy_inv b' \<and> arenas b' = arenas ?b2 \<and> blocks b' index \<noteq> [] \<and> free_pages b' = free_pages ?b2"
      using 1(1) [OF False j(1) c] step l2(1) j j15 e "1.prems"(6) by simp
    ultimately show ?thesis by simp
  qed
qed

text \<open>
  A successful allocation: its block is whole and aligned, it was free or in an arena opened by
  the call, and nothing else changed hands.
\<close>

lemma alloc_physical_page_inv:
  assumes "alloc_physical_page n b = Inr (p, b')" and "buddy_inv b"
  shows "buddy_inv b'" and "block_ok (arenas b') (page_index n) p" and "arenas b \<le> arenas b'"
    and "free_pages b' \<inter> block_pages (page_index n) p = {}"
    and "free_pages b' \<union> block_pages (page_index n) p = free_pages b \<union> arena_pages (arenas b) (arenas b')"
proof -
  let ?i = "page_index n"
  obtain j b1 b2 where s1: "scan_free ?i (init_alloc b) = Inr (j, b1)" "split_blocks j ?i b1 = Inr b2"
      and c: "(case blocks b2 ?i of [] \<Rightarrow> Inl Null_Deref | p # r \<Rightarrow> Inr (p, set_blocks ?i r b2)) = Inr (p, b')"
    using assms(1) by (auto simp: alloc_physical_page_def Let_def bindE_Inr_iff split: if_split_asm)
  obtain r where s: "scan_free ?i (init_alloc b) = Inr (j, b1)" "split_blocks j ?i b1 = Inr b2"
      "blocks b2 ?i = p # r" "b' = set_blocks ?i r b2"
    using s1 c by (cases "blocks b2 ?i") auto
  note i0 = init_alloc_inv [OF assms(2)]
  note i1 = scan_free_inv [OF s(1) i0(1)]
  then have i2: "buddy_inv b2 \<and> arenas b2 = arenas b1 \<and> blocks b2 ?i \<noteq> [] \<and> free_pages b2 = free_pages b1"
    using split_blocks_inv [OF s(2)] by blast
  have "?i < 15" using i1 by simp
  with i2 inv_pop [of b2 ?i p r] s(3,4)
  have p: "buddy_inv b'" "block_ok (arenas b2) ?i p" "free_pages b2 = free_pages b' \<union> block_pages ?i p"
      "free_pages b' \<inter> block_pages ?i p = {}" by simp_all
  have ar: "arenas b' = arenas b1" using i2 s(4) by simp
  have "0 \<le> arenas b" using assms(2) by (simp add: buddy_inv_def)
  then have "free_pages b1 = free_pages b \<union> arena_pages (arenas b) (arenas b1)"
    using i0 i1 arena_pages_Un [of "arenas b" "arenas (init_alloc b)" "arenas b1"] by auto
  then show "buddy_inv b'" and "block_ok (arenas b') ?i p" and "arenas b \<le> arenas b'"
    and "free_pages b' \<inter> block_pages ?i p = {}"
    and "free_pages b' \<union> block_pages ?i p = free_pages b \<union> arena_pages (arenas b) (arenas b')"
    using p ar i0(3) i1 i2 by auto
qed

text \<open>
  A page in use: below the top of the last arena opened (or in the kernel's own memory, below
  64 MB), and not free. An allocation hands out pages that were not in use, and keeps the others.
\<close>

definition owned :: "buddy \<Rightarrow> nat \<Rightarrow> bool" where
  "owned b x \<longleftrightarrow> x < 16384 * nat (arenas b + 1) \<and> x \<notin> free_pages b"

lemma alloc_owned:
  assumes "alloc_physical_page n b = Inr (p, b')" and "buddy_inv b"
  shows "x \<in> block_pages (page_index n) p \<Longrightarrow> owned b' x \<and> \<not> owned b x"
    and "owned b x \<Longrightarrow> owned b' x"
proof -
  note i = alloc_physical_page_inv [OF assms]
  have nn: "0 \<le> arenas b" using assms(2) by (simp add: buddy_inv_def)
  show "owned b' x \<and> \<not> owned b x" if x: "x \<in> block_pages (page_index n) p"
  proof
    have "x \<in> {16384 ..< 16384 + 16384 * nat (arenas b')}"
      using i(2) x unfolding block_ok_def by blast
    then show "owned b' x"
      using i(3,4) x nn by (auto simp: owned_def nat_add_distrib)
    have "x \<in> free_pages b \<or> x \<in> arena_pages (arenas b) (arenas b')" using i(5) x by blast
    then show "\<not> owned b x" by (auto simp: owned_def arena_pages_def)
  qed
  show "owned b' x" if x: "owned b x"
  proof -
    have "x \<notin> free_pages b \<union> arena_pages (arenas b) (arenas b')"
      using x by (auto simp: owned_def arena_pages_def)
    then have "x \<notin> free_pages b'" using i(5) by blast
    moreover have "nat (arenas b + 1) \<le> nat (arenas b' + 1)" using i(3) nn by simp
    ultimately show ?thesis using x unfolding owned_def by (meson le_trans less_le_trans mult_le_mono2)
  qed
qed

lemma page_index_1: "page_index 1 = 0"
proof -
  have "(2::nat) ^ page_index (int 1) < 2" using page_index_least(2) [of 1] by simp
  then have "page_index (int 1) = 0" by (cases "page_index (int 1)") simp_all
  then show ?thesis by simp
qed

section \<open>Failures\<close>

lemma alloc_block_error: "alloc_block b = Inl e \<Longrightarrow> e = Panic"
  by (auto simp: alloc_block_def split: if_splits)

lemma scan_free_error: "scan_free i b = Inl e \<Longrightarrow> i < 14 \<Longrightarrow> e = Panic \<or> e = Out_Of_Bounds"
proof (induction i b rule: scan_free.induct)
  case (1 i b)
  have g: "get_blocks i b = Inr (blocks b i)" "get_blocks 14 b = Inr (blocks b 14)"
    using 1(4) by (simp_all add: get_blocks_def)
  show ?case
  proof (cases "i = 13")
    case True
    have "scan_free 14 b' \<noteq> Inl e \<or> e = Out_Of_Bounds" for b'
      by (auto simp: scan_free.simps [of 14] get_blocks_def scan_free.simps [of 15])
    then show ?thesis using 1(3) True g
      by (auto simp: scan_free.simps [of 13] bindE_Inl_iff split: if_splits dest: alloc_block_error)
  next
    case False
    then show ?thesis using 1(2) [OF g(1) _ g(2)] 1(3,4) g
      by (auto simp: scan_free.simps [of i] split: if_splits)
  qed
qed

text \<open>
  The last list: with all of it in use, a request for more than half an arena looks past the
  array instead of opening an arena.
\<close>

lemma alloc_large_out_of_bounds:
  assumes "0 < arenas b" and "blocks b 14 = []"
  shows "alloc_physical_page 8193 b = Inl Out_Of_Bounds"
proof -
  have "page_index (int 8193) < 15" "8193 \<le> (2::nat) ^ page_index (int 8193)"
    using page_index_least [of 8193] by simp_all
  then have "(2::nat) ^ 13 < 2 ^ page_index (int 8193)" by simp
  then have "13 < page_index (int 8193)" by (simp only: power_strict_increasing_iff)
  then have "page_index 8193 = 14" using \<open>page_index (int 8193) < 15\<close> by simp
  moreover have "init_alloc b = b" using assms(1) by (simp add: init_alloc_def)
  moreover have "scan_free 14 b = Inl Out_Of_Bounds"
    by (simp add: scan_free.simps [of 14] scan_free.simps [of 15] get_blocks_def assms)
  ultimately show ?thesis by (simp add: alloc_physical_page_def)
qed

lemma free_block_error: "free_block i p b = Inl e \<Longrightarrow> e = Out_Of_Bounds"
  by (induction i p b rule: free_block.induct)
    (auto simp: free_block.simps get_blocks_def Let_def split: if_splits)

lemma free_physical_page_error: "free_physical_page p n b = Inl e \<Longrightarrow> e = Out_Of_Bounds"
  unfolding free_physical_page_def by (rule free_block_error)

lemma free_block_below: "free_block i p b = Inr b' \<Longrightarrow> i < 15"
  by (auto simp: free_block.simps [of i] get_blocks_def split: if_splits)

text \<open>
  Once the arenas at 0x8000000 and 0xc000000 are both free they are merged as if they were the
  halves of a block of order 15, for which there is no list.
\<close>

lemma free_second_arena_overflow:
  assumes "third_address \<in> set (blocks b 14)"
  shows "free_block 14 second_address b = Inl Out_Of_Bounds"
proof -
  have "buddy_of 14 second_address = third_address"
    by (simp add: buddy_of_def second_address_def third_address_def)
  then show ?thesis using assms by (simp add: free_block.simps [of 14] get_blocks_def Let_def)
qed

section \<open>Allocating and freeing\<close>

text \<open>
  C12. The pages \<open>alloc_physical_page\<close> hands out were free (or of an arena it has just opened), at least
  as many as asked and less than twice as many, and no longer free afterwards; \<open>free_physical_page\<close>
  with the same count gives exactly these pages back, and the free blocks never overlap.
\<close>

theorem pages_round_trip:
  assumes inv: "buddy_inv b" and n: "1 \<le> n" "n < 0x4000"
    and a: "alloc_physical_page (int n) b = Inr (p, b1)" and f: "free_physical_page p (int n) b1 = Inr b2"
  shows "n \<le> card (block_pages (page_index (int n)) p) \<and> card (block_pages (page_index (int n)) p) < 2 * n \<and>
    buddy_inv b1 \<and> buddy_inv b2 \<and> free_pages b1 \<inter> block_pages (page_index (int n)) p = {} \<and>
    free_pages b1 \<union> block_pages (page_index (int n)) p = free_pages b \<union> arena_pages (arenas b) (arenas b1) \<and>
    free_pages b2 = free_pages b \<union> arena_pages (arenas b) (arenas b1)"
proof -
  note i = alloc_physical_page_inv [OF a inv]
  have "buddy_inv b2 \<and> free_pages b2 = free_pages b1 \<union> block_pages (page_index (int n)) p"
    using free_block_inv [OF f [unfolded free_physical_page_def] i(1,2,4)] by blast
  moreover have "card (block_pages (page_index (int n)) p) = 2 ^ page_index (int n)" by (simp add: block_pages_def)
  ultimately show ?thesis using i page_index_least [OF n] by simp
qed

lemma pages_once:
  "case alloc_physical_page 3 buddy_init of Inl e \<Rightarrow> False | Inr (p, b1) \<Rightarrow>
     p = 0x4000000 \<and> (case free_physical_page p 3 b1 of Inl e \<Rightarrow> False | Inr b2 \<Rightarrow> arenas b2 = 1)"
  by code_simp

theorem pages_round_trip_witness:
  "\<exists>p b1 b2. alloc_physical_page 3 buddy_init = Inr (p, b1) \<and> free_physical_page p 3 b1 = Inr b2 \<and>
    buddy_inv b2 \<and> free_pages b2 = arena_pages 0 (arenas b1)"
proof -
  obtain p b1 where r: "alloc_physical_page 3 buddy_init = Inr (p, b1)"
    using pages_once by (auto split: sum.splits)
  moreover obtain b2 where "free_physical_page p 3 b1 = Inr b2"
    using pages_once r by (cases "free_physical_page p 3 b1") simp_all
  ultimately have r: "alloc_physical_page 3 buddy_init = Inr (p, b1)" "free_physical_page p 3 b1 = Inr b2" .
  moreover have "arenas buddy_init = 0" by (simp add: buddy_init_def)
  ultimately show ?thesis using pages_round_trip [OF buddy_inv_init, of 3 p b1 b2] by simp
qed

text \<open>
  A request for more than 8192 pages reads the list after the last one (\<open>area.map[15]\<close>) once the
  list of the largest blocks is empty, instead of opening another arena.
\<close>

theorem large_request_out_of_bounds:
  assumes "0 < arenas b" and "blocks b 14 = []"
  shows "alloc_physical_page 8193 b = Inl Out_Of_Bounds"
  by (rule alloc_large_out_of_bounds [OF assms])

theorem large_request_out_of_bounds_witness:
  "alloc_physical_page 8193 \<lparr>blocks = (\<lambda>_. []), arenas = 1\<rparr> = Inl Out_Of_Bounds"
  by (rule large_request_out_of_bounds) simp_all

text \<open>
  Freeing the second arena while the third is free merges the two as if they were the halves of a
  block twice as large, for which there is no list: \<open>area.map[15]\<close> is written.
\<close>

theorem free_arenas_overflow:
  assumes "third_address \<in> set (blocks b 14)" and "8193 \<le> n" and "n < 0x4000"
  shows "free_physical_page second_address (int n) b = Inl Out_Of_Bounds"
proof -
  have l: "int n = of_nat n" "1 \<le> n" using assms by simp_all
  have p: "page_index (int n) < 15" "n \<le> 2 ^ page_index (int n)" using page_index_least [of n] assms by simp_all
  then have "(2::nat) ^ 13 < 2 ^ page_index (int n)" using assms(2) by simp
  then have "13 < page_index (int n)" by (simp only: power_strict_increasing_iff)
  then have "page_index (int n) = 14" using p by simp
  then show ?thesis using free_second_arena_overflow [OF assms(1)] by (simp add: free_physical_page_def)
qed

theorem free_arenas_overflow_witness:
  "free_physical_page second_address 0x3FFF \<lparr>blocks = (\<lambda>_. [third_address]), arenas = 3\<rparr> = Inl Out_Of_Bounds"
  using free_arenas_overflow [of "\<lparr>blocks = (\<lambda>_. [third_address]), arenas = 3\<rparr>" "0x3FFF"] by simp

end
