(* ===== verification/Paging.thy ===== *)
theory Paging
  imports PageAllocator
begin

text \<open>
  \<open>kernel/paging.c\<close>: page directories and page tables in physical memory. \<open>pmem\<close> joins the page
  allocator with the memory, a map from the address of each aligned 32-bit word to its value.
  The specification is what the processor does with the tables, \<open>mmu\<close>: the page table entry
  that translates an address, if there is one. \<open>map_page\<close> is proved to install exactly one
  translation and to keep all the others, provided the directory is well formed (\<open>pd_wf\<close>: its
  tables are distinct, allocated pages), which it preserves.
\<close>

record pmem =
  pages :: buddy
  ram :: "u32 \<Rightarrow> u32"

definition page_size :: u32 where "page_size = 0x1000"
definition pg_present :: u32 where "pg_present = 1"
definition pg_rw :: u32 where "pg_rw = 2"
definition pg_us :: u32 where "pg_us = 4"

definition is_present :: "u32 \<Rightarrow> bool" where
  "is_present e \<longleftrightarrow> e AND pg_present \<noteq> 0"

text \<open>\<open>ALIGN\<close> and \<open>ALIGN_UP\<close>, on the 64-bit addresses \<open>map_zone\<close> takes. The constant of \<open>ALIGN\<close> is
  a 32-bit one, so the upper half of the address is cleared as well.\<close>

definition align :: "u64 \<Rightarrow> u64" where "align addr = addr AND 0xFFFFF000"

definition align_up :: "u64 \<Rightarrow> u64" where
  "align_up addr = (if addr AND 0xFFF = 0 then addr else align addr)"

definition pd_index :: "u32 \<Rightarrow> u32" where "pd_index a = drop_bit 22 a"
definition pt_index :: "u32 \<Rightarrow> u32" where "pt_index a = drop_bit 12 a AND 0x3FF"

definition table_addr :: "u32 \<Rightarrow> u32" where "table_addr e = e AND 0xFFFFF000"

text \<open>\<open>memset(p, 0, n)\<close> on whole words, and \<open>t[i] = v\<close> for a table of words.\<close>

definition zero_mem :: "u32 \<Rightarrow> u32 \<Rightarrow> pmem \<Rightarrow> pmem" where
  "zero_mem p n m = m\<lparr>ram := (\<lambda>a. if a - p < n then 0 else ram m a)\<rparr>"

definition entry :: "u32 \<Rightarrow> u32 \<Rightarrow> pmem \<Rightarrow> u32" where
  "entry t i m = ram m (t + 4 * i)"

definition set_entry :: "u32 \<Rightarrow> u32 \<Rightarrow> u32 \<Rightarrow> pmem \<Rightarrow> pmem" where
  "set_entry t i v m = m\<lparr>ram := (ram m)(t + 4 * i := v)\<rparr>"

definition alloc_pages :: "int \<Rightarrow> pmem \<Rightarrow> (u32 \<times> pmem) res" where
  "alloc_pages n m =
     bindE (alloc_physical_page n (pages m)) (\<lambda>(p, b). Inr (p, m\<lparr>pages := b\<rparr>))"

definition free_pages_at :: "u32 \<Rightarrow> int \<Rightarrow> pmem \<Rightarrow> pmem res" where
  "free_pages_at p n m =
     bindE (free_physical_page p n (pages m)) (\<lambda>b. Inr (m\<lparr>pages := b\<rparr>))"

definition ensure_table :: "u32 \<Rightarrow> u32 \<Rightarrow> u32 \<Rightarrow> pmem \<Rightarrow> pmem res" where
  "ensure_table dir i flags m =
     (if entry dir i m AND pg_present = 0
      then bindE (alloc_pages 1 m) (\<lambda>(pt, m1).
             Inr (set_entry dir i (pt OR flags OR pg_present) (zero_mem pt page_size m1)))
      else Inr m)"

definition map_page :: "u32 \<Rightarrow> u32 \<Rightarrow> u32 \<Rightarrow> u32 \<Rightarrow> pmem \<Rightarrow> pmem res" where
  "map_page dir virt_addr phy_addr flags m =
     bindE (ensure_table dir (pd_index virt_addr) flags m) (\<lambda>m1.
       let page_table = entry dir (pd_index virt_addr) m1 AND 0xFFFFF000
       in Inr (set_entry page_table (pt_index virt_addr) (phy_addr OR flags OR pg_present) m1))"

text \<open>
  The loop of \<open>map_zone\<close>. Its counter is 64 bits wide; past \<open>2 ^ 64 - 0x1000\<close> it would wrap and
  never leave the loop.
\<close>

function map_from :: "u32 \<Rightarrow> u64 \<Rightarrow> u64 \<Rightarrow> u64 \<Rightarrow> u32 \<Rightarrow> pmem \<Rightarrow> pmem res" where
  "map_from pdir virt phy virt_end flags m =
     (if \<not> virt \<le> virt_end then Inr m
      else bindE (map_page pdir (ucast virt) (ucast phy) flags m) (\<lambda>m1.
        if virt + 0x1000 < virt then Inl No_Return
        else map_from pdir (virt + 0x1000) (phy + 0x1000) virt_end flags m1))"
  by pat_completeness auto

termination
proof (relation "measure (\<lambda>(pdir, virt, phy, virt_end, flags, m). 2 ^ 64 - unat virt)", goal_cases)
  case (2 pdir virt phy virt_end flags m m1)
  then have "unat (virt + 0x1000) = unat virt + 0x1000"
    by (subst unat_add_no_wrap) simp_all
  moreover have "unat virt < 2 ^ 64" using unat_bound [of virt] by simp
  ultimately show ?case by simp
qed simp

declare map_from.simps [simp del]

definition map_zone :: "u32 \<Rightarrow> u64 \<Rightarrow> u64 \<Rightarrow> u64 \<Rightarrow> u64 \<Rightarrow> u32 \<Rightarrow> pmem \<Rightarrow> pmem res" where
  "map_zone pdir virt_start virt_end phy_start phy_end flags m =
     (if virt_end - virt_start \<noteq> phy_end - phy_start then Inl Panic
      else map_from pdir (align virt_start) (align phy_start) (align_up virt_end) flags m)"

function unmap_from :: "u32 \<Rightarrow> u64 \<Rightarrow> u64 \<Rightarrow> pmem \<Rightarrow> pmem res" where
  "unmap_from pdir virt virt_end m =
     (if \<not> virt \<le> virt_end then Inr m
      else let i = pd_index (ucast virt); j = pt_index (ucast virt);
               m1 = (if entry pdir i m AND pg_present = 0 then m
                     else set_entry (entry pdir i m AND 0xFFFFF000) j 0 m)
        in if virt + 0x1000 < virt then Inl No_Return
           else unmap_from pdir (virt + 0x1000) virt_end m1)"
  by pat_completeness auto

termination
proof (relation "measure (\<lambda>(pdir, virt, virt_end, m). 2 ^ 64 - unat virt)", goal_cases)
  case (2 pdir virt virt_end m)
  then have "unat (virt + 0x1000) = unat virt + 0x1000"
    by (subst unat_add_no_wrap) simp_all
  moreover have "unat virt < 2 ^ 64" using unat_bound [of virt] by simp
  ultimately show ?case by simp
qed simp

declare unmap_from.simps [simp del]

definition unmap_zone :: "u32 \<Rightarrow> u64 \<Rightarrow> u64 \<Rightarrow> pmem \<Rightarrow> pmem res" where
  "unmap_zone pdir virt_start virt_end m =
     unmap_from pdir (align virt_start) (align_up virt_end) m"

text \<open>\<open>pgdir\<close> is the address of the early page directory of \<open>boot/early_mm.c\<close>.\<close>

definition page_directory_create :: "u32 \<Rightarrow> pmem \<Rightarrow> (u32 \<times> pmem) res" where
  "page_directory_create pgdir m =
     bindE (alloc_pages 1 m) (\<lambda>(dir, m1).
       Inr (dir, fold (\<lambda>i m. set_entry dir (of_nat i) (entry pgdir (of_nat i) m) m) [0..<64]
                   (zero_mem dir page_size m1)))"

definition page_directory_destroy :: "u32 \<Rightarrow> pmem \<Rightarrow> pmem res" where
  "page_directory_destroy dir m =
     bindE (foldE (\<lambda>i m.
         let e = entry dir (of_nat i) m
         in if e AND pg_present = 1 then free_pages_at (e AND 0xFFFFF000) 1 m else Inr m) [64..<1024] m)
       (free_pages_at dir 1)"

definition is_user_addr :: "u32 \<Rightarrow> u32 \<Rightarrow> pmem \<Rightarrow> bool" where
  "is_user_addr dir virt_addr m =
     (if entry dir (pd_index virt_addr) m AND pg_present = 0 then False
      else entry (entry dir (pd_index virt_addr) m AND 0xFFFFF000) (pt_index virt_addr) m AND pg_us \<noteq> 0)"

section \<open>What the processor makes of the tables\<close>

definition mmu :: "pmem \<Rightarrow> u32 \<Rightarrow> u32 \<Rightarrow> u32 option" where
  "mmu m dir a =
     (let e = entry dir (pd_index a) m in
      if \<not> is_present e then None
      else let t = entry (table_addr e) (pt_index a) m
           in if is_present t then Some t else None)"

definition page_of :: "u32 \<Rightarrow> nat" where "page_of a = unat a div 4096"

definition page_aligned :: "u32 \<Rightarrow> bool" where "page_aligned a \<longleftrightarrow> 4096 dvd unat a"

definition pd_wf :: "u32 \<Rightarrow> pmem \<Rightarrow> bool" where
  "pd_wf dir m \<longleftrightarrow> buddy_inv (pages m) \<and> page_aligned dir \<and> owned (pages m) (page_of dir) \<and>
     (\<forall>i<1024. is_present (entry dir i m) \<longrightarrow>
        table_addr (entry dir i m) \<noteq> dir \<and> owned (pages m) (page_of (table_addr (entry dir i m))) \<and>
        (\<forall>j<1024. is_present (entry dir j m) \<longrightarrow> i \<noteq> j \<longrightarrow>
           table_addr (entry dir i m) \<noteq> table_addr (entry dir j m)))"

lemma unat_table_addr: "unat (table_addr e) = unat e div 4096 * 4096"
proof -
  have "e AND NOT (mask 12) = push_bit 12 (drop_bit 12 e)"
    by (rule bit_word_eqI) (auto simp: bit_simps)
  moreover have "(0xFFFFF000 :: u32) = NOT (mask 12)" by (simp add: mask_eq_exp_minus_1)
  ultimately have "table_addr e = push_bit 12 (drop_bit 12 e)"
    unfolding table_addr_def by metis
  then have "unat (table_addr e) = take_bit 32 (push_bit 12 (unat e div 4096))"
    by (simp add: unsigned_push_bit_eq unat_shr)
  also have "\<dots> = unat e div 4096 * 4096"
    using unat_bound [of e] by (simp add: take_bit_nat_eq_self push_bit_eq_mult)
  finally show ?thesis .
qed

lemma table_addr_aligned: "page_aligned (table_addr e)"
  by (simp add: page_aligned_def unat_table_addr)

lemma table_addr_of_aligned: "page_aligned a \<Longrightarrow> table_addr a = a"
  by (rule word_unat_eq_iff [THEN iffD2]) (simp add: unat_table_addr page_aligned_def dvd_div_mult_self)

lemma table_addr_entry:
  assumes "page_aligned pt" and "table_addr flags = 0"
  shows "table_addr (pt OR flags OR pg_present) = pt"
proof -
  have "table_addr (pt OR flags OR pg_present) = table_addr pt OR table_addr flags OR table_addr pg_present"
    by (simp add: table_addr_def word_ao_dist)
  then show ?thesis using assms by (simp add: table_addr_of_aligned) (simp add: table_addr_def pg_present_def)
qed

lemma is_present_bit: "is_present e \<longleftrightarrow> bit e 0"
  by (simp add: is_present_def pg_present_def and_one_eq odd_iff_mod_2_eq_one bit_0)

lemma is_present_or [simp]: "is_present (x OR y OR pg_present)" "is_present (x OR pg_present)"
  by (simp_all add: is_present_bit pg_present_def bit_simps)

lemma not_present: "e AND pg_present = 0 \<longleftrightarrow> \<not> is_present e"
  by (simp add: is_present_def)

lemma zero_not_present [simp]: "\<not> is_present 0"
  by (simp add: is_present_def)

lemma present_cases: "e AND pg_present = 0 \<or> e AND pg_present = 1"
  by (simp add: pg_present_def and_one_eq mod_2_eq_odd)

text \<open>The words of different pages are different.\<close>

lemma unat_in_page:
  assumes "page_aligned t" and "i < 1024" shows "unat (t + 4 * i) = unat t + 4 * unat i"
proof -
  obtain k where k: "unat t = 4096 * k" using assms(1) by (auto simp: page_aligned_def dvd_def)
  have i: "unat i < 1024" using assms(2) by (simp add: word_less_nat_alt)
  have u4: "unat (4 * i) = 4 * unat i" using i by (simp add: unat_mult_lem [THEN iffD1])
  have "unat t < 2 ^ 32" using unat_bound [of t] by simp
  then have "k < 1048576" using k by simp
  then have "unat t + unat (4 * i) < 2 ^ LENGTH(32)" using k i u4 by simp
  then show ?thesis using u4 by (simp add: unat_add_lem [THEN iffD1])
qed

lemma entry_addr_eq:
  assumes "page_aligned t" and "page_aligned u" and "i < 1024" and "j < 1024"
  shows "t + 4 * i = u + 4 * j \<longleftrightarrow> t = u \<and> i = j"
proof
  assume "t + 4 * i = u + 4 * j"
  then have e: "unat t + 4 * unat i = unat u + 4 * unat j"
    using unat_in_page assms by metis
  obtain k l where k: "unat t = 4096 * k" "unat u = 4096 * l"
    using assms(1,2) by (auto simp: page_aligned_def dvd_def)
  have "unat i < 1024" "unat j < 1024" using assms(3,4) by (simp_all add: word_less_nat_alt)
  then have "(4096 * k + 4 * unat i) div 4096 = k" "(4096 * l + 4 * unat j) div 4096 = l" by simp_all
  then have "k = l" using e k by simp
  then have "unat i = unat j" using e k by simp
  then show "t = u \<and> i = j" using k \<open>k = l\<close> by (simp add: word_unat_eq_iff)
qed simp

lemma page_of_eq: "page_aligned a \<Longrightarrow> page_aligned b \<Longrightarrow> page_of a = page_of b \<Longrightarrow> a = b"
  by (auto simp: page_aligned_def page_of_def word_unat_eq_iff dvd_def)

lemma in_zeroed:
  assumes "page_aligned t" and "page_aligned p" and "i < 1024"
  shows "t + 4 * i - p < page_size \<longleftrightarrow> t = p"
proof
  assume lt: "t + 4 * i - p < page_size"
  define d where "d = t + 4 * i - p"
  have d: "unat d < 4096" using lt by (simp add: d_def word_less_nat_alt page_size_def)
  have "t + 4 * i = p + d" by (simp add: d_def)
  moreover have "unat (p + d) = unat p + unat d"
  proof -
    obtain k where k: "unat p = 4096 * k" using assms(2) by (auto simp: page_aligned_def dvd_def)
    have "unat p < 2 ^ 32" using unat_bound [of p] by simp
    then have "unat p + unat d < 2 ^ LENGTH(32)" using k d by simp
    then show ?thesis by (simp add: unat_add_lem [THEN iffD1])
  qed
  ultimately have e: "unat t + 4 * unat i = unat p + unat d" using unat_in_page [OF assms(1,3)] by simp
  obtain k l where k: "unat t = 4096 * k" "unat p = 4096 * l"
    using assms(1,2) by (auto simp: page_aligned_def dvd_def)
  have "unat i < 1024" using assms(3) by (simp add: word_less_nat_alt)
  then have "(4096 * k + 4 * unat i) div 4096 = k" "(4096 * l + unat d) div 4096 = l" using d by simp_all
  then have "k = l" using e k by simp
  then show "t = p" using k by (simp add: word_unat_eq_iff)
next
  assume "t = p"
  then have "unat (t + 4 * i - p) = 4 * unat i"
    using assms(3) by (simp add: unat_mult_lem [THEN iffD1] word_less_nat_alt)
  then show "t + 4 * i - p < page_size"
    using assms(3) by (simp add: word_less_nat_alt page_size_def)
qed

lemma entry_set_entry:
  "page_aligned t \<Longrightarrow> page_aligned u \<Longrightarrow> i < 1024 \<Longrightarrow> j < 1024 \<Longrightarrow>
   entry t i (set_entry u j v m) = (if t = u \<and> i = j then v else entry t i m)"
  by (simp add: entry_def set_entry_def entry_addr_eq)

lemma entry_zero_mem:
  "page_aligned t \<Longrightarrow> page_aligned p \<Longrightarrow> i < 1024 \<Longrightarrow>
   entry t i (zero_mem p page_size m) = (if t = p then 0 else entry t i m)"
  by (simp add: entry_def zero_mem_def in_zeroed)

lemma pages_writes [simp]:
  "pages (set_entry t i v m) = pages m" "pages (zero_mem p n m) = pages m"
  by (simp_all add: set_entry_def zero_mem_def)

lemma entry_pages [simp]: "entry t i (m\<lparr>pages := b\<rparr>) = entry t i m"
  by (simp add: entry_def)

lemma pd_index_bound [simp]: "pd_index a < 1024"
proof -
  have "unat a div 2 ^ 22 < 1024" using unat_bound [of a] by simp
  then show ?thesis by (simp add: pd_index_def word_less_nat_alt unat_shr)
qed

lemma pt_index_bound [simp]: "pt_index a < 1024"
proof -
  have "drop_bit 12 a AND mask 10 < (2 ^ 10 :: u32)" by (rule and_mask_less_size) (simp add: word_size)
  then show ?thesis by (simp add: pt_index_def mask_eq_exp_minus_1)
qed

lemma alloc_pages_page:
  assumes "alloc_pages 1 m = Inr (p, m')" and "buddy_inv (pages m)"
  shows "ram m' = ram m" and "buddy_inv (pages m')" and "page_aligned p"
    and "owned (pages m') (page_of p)" and "\<not> owned (pages m) (page_of p)"
    and "owned (pages m) x \<Longrightarrow> owned (pages m') x"
proof -
  obtain b where b: "alloc_physical_page 1 (pages m) = Inr (p, b)" "m' = m\<lparr>pages := b\<rparr>"
    using assms(1) by (auto simp: alloc_pages_def bind_rules)
  note i = alloc_physical_page_inv [OF b(1) assms(2)] and o = alloc_owned [OF b(1) assms(2)]
  have "page_of p \<in> block_pages (page_index 1) p" by (simp add: block_pages_def page_of_def)
  then show "owned (pages m') (page_of p)" and "\<not> owned (pages m) (page_of p)"
    using o(1) b(2) by simp_all
  show "owned (pages m) x \<Longrightarrow> owned (pages m') x" using o(2) b(2) by simp
  show "ram m' = ram m" and "buddy_inv (pages m')" using i(1) b(2) by simp_all
  show "page_aligned p"
    using i(2) by (simp add: block_ok_def page_aligned_def page_index_1)
qed

lemma pd_wf_table:
  "pd_wf dir m \<Longrightarrow> i < 1024 \<Longrightarrow> is_present (entry dir i m) \<Longrightarrow>
   table_addr (entry dir i m) \<noteq> dir \<and> owned (pages m) (page_of (table_addr (entry dir i m)))"
  by (simp add: pd_wf_def)

lemma pd_wf_tables_differ:
  "pd_wf dir m \<Longrightarrow> i < 1024 \<Longrightarrow> j < 1024 \<Longrightarrow> is_present (entry dir i m) \<Longrightarrow>
   is_present (entry dir j m) \<Longrightarrow> i \<noteq> j \<Longrightarrow> table_addr (entry dir i m) \<noteq> table_addr (entry dir j m)"
  by (auto simp: pd_wf_def)

text \<open>Making sure that a directory entry has its table adds an empty table or nothing.\<close>

lemma ensure_table_ok:
  assumes wf: "pd_wf dir m" and i: "i < 1024" and fl: "table_addr flags = 0"
    and run: "ensure_table dir i flags m = Inr m'"
  shows "pd_wf dir m'" and "is_present (entry dir i m')" and "mmu m' dir a = mmu m dir a"
    and "owned (pages m) x \<Longrightarrow> owned (pages m') x"
proof -
  have "pd_wf dir m' \<and> is_present (entry dir i m') \<and> mmu m' dir a = mmu m dir a \<and>
    (owned (pages m) x \<longrightarrow> owned (pages m') x)"
  proof (cases "is_present (entry dir i m)")
    case True
    then have "m' = m" using run by (simp add: ensure_table_def not_present)
    then show ?thesis using wf True by simp
  next
    case False
    obtain pt m1 where al: "alloc_pages 1 m = Inr (pt, m1)"
      and m': "m' = set_entry dir i (pt OR flags OR pg_present) (zero_mem pt page_size m1)"
      using run False by (auto simp: ensure_table_def not_present bind_rules)
    have inv: "buddy_inv (pages m)" and da: "page_aligned dir" and down: "owned (pages m) (page_of dir)"
      using wf by (simp_all add: pd_wf_def)
    note p = alloc_pages_page [OF al inv]
    have dp: "dir \<noteq> pt" using p(5) down by auto
    have tp: "table_addr (entry dir j m) \<noteq> pt" if "j < 1024" "is_present (entry dir j m)" for j
      using pd_wf_table [OF wf that] p(5) by auto
    have eq: "entry t j m1 = entry t j m" for t j using p(1) by (simp add: entry_def)
    have dir': "entry dir j m' = (if j = i then pt OR flags OR pg_present else entry dir j m)"
      if "j < 1024" for j
      using that i da dp p(3) by (simp add: m' entry_set_entry entry_zero_mem eq)
    have tab: "table_addr (entry dir i m') = pt"
      using i by (simp add: dir' table_addr_entry [OF p(3) fl])
    have wf': "pd_wf dir m'"
      unfolding pd_wf_def
    proof (intro conjI allI impI)
      show "buddy_inv (pages m')" "page_aligned dir" "owned (pages m') (page_of dir)"
        using p(2) da p(6) [OF down] by (simp_all add: m')
    next
      fix j :: u32 assume j: "j < 1024" "is_present (entry dir j m')"
      show "table_addr (entry dir j m') \<noteq> dir"
        using j tab dp dir' pd_wf_table [OF wf, of j] by (cases "j = i") auto
      show "owned (pages m') (page_of (table_addr (entry dir j m')))"
        using j tab p(4) p(6) dir' pd_wf_table [OF wf, of j] by (cases "j = i") (auto simp: m')
      fix k :: u32 assume k: "k < 1024" "is_present (entry dir k m')" "j \<noteq> k"
      show "table_addr (entry dir j m') \<noteq> table_addr (entry dir k m')"
        using j k tab tp [of j] tp [of k] dir' pd_wf_tables_differ [OF wf, of j k]
        by (cases "j = i"; cases "k = i") auto
    qed
    have "mmu m' dir a = mmu m dir a"
    proof (cases "pd_index a = i")
      case True
      then have "entry (table_addr (entry dir (pd_index a) m')) (pt_index a) m' = 0"
        using p(3) da dp i unfolding True tab by (simp add: m' entry_set_entry entry_zero_mem)
      then show ?thesis using True False by (simp add: mmu_def Let_def)
    next
      case False
      then have "entry dir (pd_index a) m' = entry dir (pd_index a) m" by (simp add: dir')
      moreover have "entry t (pt_index a) m' = entry t (pt_index a) m"
        if "t \<noteq> dir" "t \<noteq> pt" "page_aligned t" for t
        using that da p(3) i by (simp add: m' entry_set_entry entry_zero_mem eq)
      ultimately show ?thesis
        using pd_wf_table [OF wf, of "pd_index a"] tp [of "pd_index a"]
        by (simp add: mmu_def Let_def table_addr_aligned)
    qed
    then show ?thesis using wf' p(6) i by (simp add: dir') (simp add: m')
  qed
  then show "pd_wf dir m'" and "is_present (entry dir i m')" and "mmu m' dir a = mmu m dir a"
    and "owned (pages m) x \<Longrightarrow> owned (pages m') x" by blast+
qed

text \<open>Two addresses that use the same entries of the directory and of the table are of one page.\<close>

lemma index_page_eq:
  assumes "pd_index a = pd_index b" and "pt_index a = pt_index b" shows "page_of a = page_of b"
proof -
  have d: "drop_bit 22 a = drop_bit 22 b" using assms(1) by (simp add: pd_index_def)
  have t: "drop_bit 12 a AND mask 10 = drop_bit 12 b AND mask 10"
    using assms(2) by (simp add: pt_index_def mask_eq_exp_minus_1)
  have "bit (drop_bit 12 a) n = bit (drop_bit 12 b) n" for n
  proof (cases "n < 10")
    case True
    then show ?thesis using arg_cong [OF t, of "\<lambda>w. bit w n"] by (simp add: bit_simps)
  next
    case False
    then obtain k where "n = 10 + k" using le_Suc_ex not_less by metis
    then show ?thesis using arg_cong [OF d, of "\<lambda>w. bit w k"] by (simp add: bit_simps add.commute add.left_commute)
  qed
  then have "drop_bit 12 a = drop_bit 12 b" by (intro bit_word_eqI) simp
  then have "unat (drop_bit 12 a) = unat (drop_bit 12 b)" by simp
  then show ?thesis by (simp add: unat_shr page_of_def)
qed

lemma page_of_index:
  assumes "page_of a = page_of b" shows "pd_index a = pd_index b" and "pt_index a = pt_index b"
proof -
  have "drop_bit 12 a = drop_bit 12 b"
    using assms by (intro word_unat_eq_iff [THEN iffD2]) (simp add: unat_shr page_of_def)
  moreover have "drop_bit 22 x = drop_bit 10 (drop_bit 12 x)" for x :: u32 by simp
  ultimately show "pd_index a = pd_index b" and "pt_index a = pt_index b"
    unfolding pd_index_def pt_index_def by metis+
qed

lemma mmu_page_cong: "page_of a = page_of b \<Longrightarrow> mmu m dir a = mmu m dir b"
  using page_of_index [of a b] by (simp add: mmu_def Let_def)

lemma map_page_ok:
  assumes wf: "pd_wf dir m" and fl: "table_addr flags = 0" and run: "map_page dir v p flags m = Inr m'"
  shows "pd_wf dir m'" and "mmu m' dir v = Some (p OR flags OR pg_present)"
    and "page_of a \<noteq> page_of v \<Longrightarrow> mmu m' dir a = mmu m dir a"
    and "owned (pages m) x \<Longrightarrow> owned (pages m') x"
proof -
  obtain m1 where e: "ensure_table dir (pd_index v) flags m = Inr m1"
    and m': "m' = set_entry (table_addr (entry dir (pd_index v) m1)) (pt_index v) (p OR flags OR pg_present) m1"
    using run by (auto simp: map_page_def Let_def bind_rules table_addr_def)
  note t = ensure_table_ok [OF wf pd_index_bound fl e]
  let ?t = "table_addr (entry dir (pd_index v) m1)"
  have td: "?t \<noteq> dir" using pd_wf_table [OF t(1) pd_index_bound t(2)] by simp
  have da: "page_aligned dir" using wf by (simp add: pd_wf_def)
  have dir': "entry dir j m' = entry dir j m1" if "j < 1024" for j
    using that da td by (simp add: m' entry_set_entry table_addr_aligned)
  show "pd_wf dir m'"
    using t(1) unfolding pd_wf_def by (simp add: dir' m') (simp add: dir' flip: m')
  show "mmu m' dir v = Some (p OR flags OR pg_present)"
    using t(2) by (simp add: mmu_def Let_def dir') (simp add: m' entry_set_entry table_addr_aligned flip: or.assoc)
  show "mmu m' dir a = mmu m dir a" if a: "page_of a \<noteq> page_of v"
  proof -
    have "entry (table_addr (entry dir (pd_index a) m1)) (pt_index a) m' =
        entry (table_addr (entry dir (pd_index a) m1)) (pt_index a) m1"
      if "is_present (entry dir (pd_index a) m1)"
    proof (cases "pd_index a = pd_index v")
      case True
      then have "pt_index a \<noteq> pt_index v" using a index_page_eq by metis
      then show ?thesis by (simp add: m' entry_set_entry table_addr_aligned)
    next
      case False
      then show ?thesis
        using pd_wf_tables_differ [OF t(1) pd_index_bound pd_index_bound that t(2)]
        by (simp add: m' entry_set_entry table_addr_aligned)
    qed
    then have "mmu m' dir a = mmu m1 dir a" by (simp add: mmu_def Let_def dir')
    then show ?thesis by (simp add: t(3))
  qed
  show "owned (pages m) x \<Longrightarrow> owned (pages m') x" using t(4) by (simp add: m')
qed

section \<open>Zones\<close>

definition page64 :: "u64 \<Rightarrow> nat" where "page64 a = unat a div 4096"

lemma page64_next: "unat (v + 0x1000) = unat v + 0x1000 \<Longrightarrow> page64 (v + 0x1000) = Suc (page64 v)"
  by (simp add: page64_def)

lemma unat_ucast32: "unat a < 2 ^ 32 \<Longrightarrow> unat (ucast a :: u32) = unat a" for a :: u64
  by (simp add: unsigned_ucast_eq take_bit_nat_eq_self)

lemma map_from_ok:
  assumes "map_from dir virt phy virt_end flags m = Inr m'" and "pd_wf dir m" and "table_addr flags = 0"
    and "unat virt_end < 2 ^ 32" and "4096 dvd unat virt"
  shows "pd_wf dir m' \<and> (\<forall>a. mmu m' dir a =
     (if page64 virt \<le> page_of a \<and> page_of a \<le> page64 virt_end \<and> virt \<le> virt_end
      then Some (ucast (phy + 0x1000 * of_nat (page_of a - page64 virt)) OR flags OR pg_present)
      else mmu m dir a)) \<and> (\<forall>x. owned (pages m) x \<longrightarrow> owned (pages m') x)"
  using assms
proof (induction dir virt phy virt_end flags m arbitrary: m' rule: map_from.induct)
  case (1 dir virt phy virt_end flags m)
  show ?case
  proof (cases "virt \<le> virt_end")
    case False
    then show ?thesis using "1.prems" by (simp add: map_from.simps [of dir virt])
  next
    case True
    then have lt: "unat virt \<le> unat virt_end" by (simp add: word_le_nat_alt)
    obtain m1 where m1: "map_page dir (ucast virt) (ucast phy) flags m = Inr m1"
      and nw: "\<not> virt + 0x1000 < virt"
      and rest: "map_from dir (virt + 0x1000) (phy + 0x1000) virt_end flags m1 = Inr m'"
      using "1.prems"(1) True by (auto simp: map_from.simps [of dir virt] bind_rules split: if_splits)
    note p = map_page_ok [OF "1.prems"(2,3) m1]
    have u: "unat (virt + 0x1000) = unat virt + 0x1000" using unat_add_no_wrap [OF nw] by simp
    have pv: "page_of (ucast virt) = page64 virt"
      using lt "1.prems"(4) by (simp add: page_of_def page64_def unat_ucast32)
    have nx: "page64 (virt + 0x1000) = Suc (page64 virt)" by (rule page64_next [OF u])
    have IH: "pd_wf dir m' \<and> (\<forall>a. mmu m' dir a =
     (if Suc (page64 virt) \<le> page_of a \<and> page_of a \<le> page64 virt_end \<and> virt + 0x1000 \<le> virt_end
      then Some (ucast (phy + 0x1000 + 0x1000 * of_nat (page_of a - Suc (page64 virt))) OR flags OR pg_present)
      else mmu m1 dir a)) \<and> (\<forall>x. owned (pages m1) x \<longrightarrow> owned (pages m') x)"
      using "1.IH" [OF _ m1 nw rest p(1) "1.prems"(3,4)] True u "1.prems"(5) unfolding nx by simp
    have le: "virt + 0x1000 \<le> virt_end \<longleftrightarrow> Suc (page64 virt) \<le> page64 virt_end"
      using "1.prems"(5) u by (auto simp: word_le_nat_alt page64_def dvd_def)
    have "mmu m' dir a = (if page64 virt \<le> page_of a \<and> page_of a \<le> page64 virt_end
        then Some (ucast (phy + 0x1000 * of_nat (page_of a - page64 virt)) OR flags OR pg_present)
        else mmu m dir a)" for a
    proof (cases "page_of a = page64 virt")
      case eq: True
      have le2: "page64 virt \<le> page64 virt_end" using lt by (simp add: page64_def div_le_mono)
      have "mmu m' dir a = mmu m1 dir a" using IH eq by simp
      also have "\<dots> = mmu m1 dir (ucast virt)" using eq pv by (intro mmu_page_cong) simp
      finally have "mmu m' dir a = mmu m1 dir (ucast virt)" .
      then show ?thesis using eq le2 p(2) by simp
    next
      case False
      then have k: "page64 virt \<le> page_of a \<longleftrightarrow> Suc (page64 virt) \<le> page_of a" by auto
      have "phy + 0x1000 + 0x1000 * of_nat (page_of a - Suc (page64 virt)) =
          phy + 0x1000 * of_nat (page_of a - page64 virt)" if "Suc (page64 virt) \<le> page_of a"
      proof -
        have "page_of a - page64 virt = Suc (page_of a - Suc (page64 virt))" using that by simp
        then show ?thesis by (simp add: algebra_simps)
      qed
      then show ?thesis using IH False k le p(3) [of a] pv by auto
    qed
    then show ?thesis using IH p(4) True by simp
  qed
qed

lemma align_low:
  assumes "unat a < 2 ^ 32" shows "unat (align a) = unat a div 4096 * 4096"
proof -
  have "a = ucast (ucast a :: u32)"
    using assms by (intro word_unat_eq_iff [THEN iffD2]) (simp add: unsigned_ucast_eq unsigned_take_bit_eq take_bit_nat_eq_self)
  moreover have "ucast (w AND 0xFFFFF000 :: u32) = (ucast w AND 0xFFFFF000 :: u64)" for w
    by (simp add: unsigned_and_eq)
  ultimately have "align a = ucast (table_addr (ucast a))"
    unfolding align_def table_addr_def by metis
  then show ?thesis
    using assms unat_bound [of "table_addr (ucast a)"]
    by (simp add: unsigned_ucast_eq take_bit_nat_eq_self unat_table_addr)
qed

lemma page64_align: "unat a < 2 ^ 32 \<Longrightarrow> page64 (align a) = page64 a"
  by (simp add: page64_def align_low)

lemma page64_align_up: "unat a < 2 ^ 32 \<Longrightarrow> page64 (align_up a) = page64 a"
  by (simp add: align_up_def page64_align)

lemma align_up_le: "unat a < 2 ^ 32 \<Longrightarrow> unat (align_up a) \<le> unat a"
  by (simp add: align_up_def align_low)

text \<open>
  \<open>map_zone\<close> installs one translation for each page that the interval touches, its last page
  included, to consecutive physical pages, and leaves the other pages as they were.
\<close>

lemma map_zone_ok:
  assumes run: "map_zone dir vs ve ps pe flags m = Inr m'" and wf: "pd_wf dir m" and fl: "table_addr flags = 0"
    and ve: "unat ve < 2 ^ 32" and le: "vs \<le> ve"
  shows "pd_wf dir m'" and "mmu m' dir a =
     (if page64 vs \<le> page_of a \<and> page_of a \<le> page64 ve
      then Some (ucast (align ps + 0x1000 * of_nat (page_of a - page64 vs)) OR flags OR pg_present)
      else mmu m dir a)"
    and "owned (pages m) x \<Longrightarrow> owned (pages m') x"
proof -
  have vs: "unat vs < 2 ^ 32" using ve le by (simp add: word_le_nat_alt)
  have run': "map_from dir (align vs) (align ps) (align_up ve) flags m = Inr m'"
    using run by (simp add: map_zone_def split: if_splits)
  have "unat vs div 4096 \<le> unat ve div 4096" using le by (simp add: word_le_nat_alt div_le_mono)
  then have le': "align vs \<le> align_up ve"
    using vs ve le by (auto simp: word_le_nat_alt align_low align_up_def)
  have "unat (align_up ve) < 2 ^ 32" using align_up_le [OF ve] ve by simp
  note z = map_from_ok [OF run' wf fl this] 
  then show "pd_wf dir m'" and "mmu m' dir a =
     (if page64 vs \<le> page_of a \<and> page_of a \<le> page64 ve
      then Some (ucast (align ps + 0x1000 * of_nat (page_of a - page64 vs)) OR flags OR pg_present)
      else mmu m dir a)"
    and "owned (pages m) x \<Longrightarrow> owned (pages m') x"
    using le' vs ve by (simp_all add: page64_align page64_align_up align_low)
qed

section \<open>What map_zone promises\<close>

text \<open>
  C13. \<open>map_zone\<close> on a well-formed page directory gives every page from that of the first to that of the
  last address of the virtual zone the translation to the corresponding physical page, with the flags,
  leaves every other translation as it was, and keeps the directory well formed. The last page is the
  one the end address is in: \<open>ALIGN_UP\<close> rounds down.
\<close>

theorem map_zone_maps_the_zone:
  assumes "map_zone dir vs ve ps pe flags m = Inr m'" and "pd_wf dir m" and "table_addr flags = 0"
    and "unat ve < 2 ^ 32" and "vs \<le> ve"
  shows "pd_wf dir m' \<and> (\<forall>a. mmu m' dir a =
     (if page64 vs \<le> page_of a \<and> page_of a \<le> page64 ve
      then Some (ucast (align ps + 0x1000 * of_nat (page_of a - page64 vs)) OR flags OR pg_present)
      else mmu m dir a))"
  using map_zone_ok [OF assms] by blast

text \<open>A directory of its own, before anything is mapped.\<close>

definition empty_dir :: pmem where
  "empty_dir = \<lparr>pages = (case alloc_physical_page 1 buddy_init of Inl e \<Rightarrow> buddy_init | Inr (p, b) \<Rightarrow> b), ram = (\<lambda>_. 0)\<rparr>"

lemma empty_dir_wf: "pd_wf 0x4000000 empty_dir"
proof -
  have "case alloc_physical_page 1 buddy_init of Inl e \<Rightarrow> False | Inr (p, b) \<Rightarrow> p = 0x4000000" by code_simp
  then obtain b where b: "alloc_physical_page 1 buddy_init = Inr (0x4000000, b)" by (auto split: sum.splits)
  have "unat (0x4000000 :: u32) div 4096 \<in> block_pages (page_index 1) 0x4000000"
    unfolding block_pages_def by simp
  then have "owned b (page_of 0x4000000)" unfolding page_of_def using alloc_owned(1) [OF b buddy_inv_init] by blast
  moreover have "page_aligned 0x4000000" by (simp add: page_aligned_def)
  moreover have "pages empty_dir = b" "ram empty_dir = (\<lambda>_. 0)" using b by (simp_all add: empty_dir_def)
  ultimately show ?thesis using alloc_physical_page_inv(1) [OF b buddy_inv_init]
    by (simp add: pd_wf_def entry_def is_present_def)
qed

theorem map_zone_maps_the_zone_witness:
  "\<exists>m'. map_zone 0x4000000 0x40000000 0x40000FFF 0x5000000 0x5000FFF 6 empty_dir = Inr m' \<and>
    mmu m' 0x4000000 0x40000123 = Some (0x5000007)"
proof -
  have "case map_zone 0x4000000 0x40000000 0x40000FFF 0x5000000 0x5000FFF 6 empty_dir of Inl e \<Rightarrow> False | Inr m' \<Rightarrow> True"
    by code_simp
  then obtain m' where m': "map_zone 0x4000000 0x40000000 0x40000FFF 0x5000000 0x5000FFF 6 empty_dir = Inr m'"
    by (auto split: sum.splits)
  have "pd_wf 0x4000000 m' \<and> (\<forall>a. mmu m' 0x4000000 a =
     (if page64 0x40000000 \<le> page_of a \<and> page_of a \<le> page64 0x40000FFF
      then Some (ucast (align 0x5000000 + 0x1000 * of_nat (page_of a - page64 0x40000000)) OR 6 OR pg_present)
      else mmu empty_dir 0x4000000 a))"
    by (rule map_zone_maps_the_zone [OF m' empty_dir_wf]) (simp_all add: table_addr_def)
  then show ?thesis using m' by (simp add: page64_def page_of_def align_def pg_present_def)
qed

end
