(* ===== verification/Task.thy ===== *)
theory Task
  imports LinkQueue PidAllocator Paging
begin

text \<open>
  \<open>kernel/task.c\<close> and \<open>kernel/clock.c\<close>: the tasks, their queues and the scheduler. A task is named by
  its address (\<open>tid\<close>); a task given back to the allocator is \<open>None\<close> in \<open>tasks\<close>, and following a
  pointer to it is \<open>Inl Use_After_Free\<close>. The three kinds of links of a task are the three queue
  systems \<open>sq\<close> (field \<open>tasks\<close>), \<open>kids\<close> (fields \<open>children\<close> and \<open>siblings\<close>) and \<open>glob\<close> (field
  \<open>global_tasks\<close>). The kernel stack of a task that called \<open>schedule\<close> in the middle of a function is
  its \<open>t_kont\<close>: the rest of that function, with the local variables it needs. \<open>t_ret\<close> and \<open>t_out\<close>
  are what the last system call of the task returned and stored through its pointer argument.
\<close>

section \<open>Data\<close>

type_synonym tid = u32

datatype tstate = Startup | Running | Ready | Sleeping | Zombie | Int_Sem | Int_Msg | Int_IO | Int_Child

text \<open>The heads a \<open>tasks\<close> link can be on: the static queues of task.c, and the two of each message queue.\<close>

datatype qid = Q_ready | Q_sleeping | Q_zombie | Q_child | Q_senders nat | Q_receivers nat

datatype kont =
    K_user                             \<comment> \<open>nothing left to run in the kernel\<close>
  | K_ret int                          \<comment> \<open>\<open>return v;\<close>\<close>
  | K_start tid                        \<comment> \<open>\<open>return task->pid;\<close> of \<open>start\<close>\<close>
  | K_exit                             \<comment> \<open>the \<open>panic\<close> at the end of \<open>exit\<close>\<close>
  | K_chprio tid int int               \<comment> \<open>the second test of \<open>chprio\<close>\<close>
  | K_wait_any bool                    \<comment> \<open>the loop of \<open>__wait_any_child\<close>\<close>
  | K_wait_child tid bool              \<comment> \<open>the inner loop of \<open>__wait_specific_child\<close>\<close>
  | K_psend int int int                \<comment> \<open>the loop of \<open>psend\<close>\<close>
  | K_psend_add int int                \<comment> \<open>\<open>psend\<close> after it woke a receiver\<close>
  | K_preceive int int bool            \<comment> \<open>the loop of \<open>preceive\<close>\<close>
  | K_preceive_out int bool            \<comment> \<open>\<open>preceive\<close> after it woke a sender\<close>

record task =
  t_pid :: int
  t_comm :: "u8 list"
  t_state :: tstate
  t_esp :: u32
  t_cr3 :: u32
  t_esp0 :: u32
  t_parent :: "tid option"
  t_priority :: int
  t_wake_time :: u32
  t_retval :: int
  t_msg_val :: int
  t_code_pages :: u32
  t_nb_code_pages :: int
  t_stack_pages :: u32
  t_nb_stack_pages :: int
  t_first_start :: bool
  t_kont :: kont
  t_ret :: int
  t_out :: "int option"

record mqueue =
  mq_msgs :: "int list"
  mq_size :: u32
  mq_count :: u32

record kst =
  tasks :: "tid \<Rightarrow> task option"
  running_task :: "tid option"
  idle_task :: "tid option"
  preempt_enabled :: bool
  sq :: "(qid, tid) qsys"
  kids :: "(tid, tid) qsys"
  glob :: "(unit, tid) qsys"
  total_ticks :: u32
  kpids :: pidmap
  mqueues :: "nat \<Rightarrow> mqueue option"
  cpt_rst :: int
  pm :: pmem
  heap_full :: bool

text \<open>Errors of \<open>errno.h\<close> and the bounds of \<open>parameters.h\<close>.\<close>

definition esrch :: int where "esrch = 3"
definition echild :: int where "echild = 10"
definition eagain :: int where "eagain = 11"
definition einval :: int where "einval = 22"
definition min_prio :: int where "min_prio = 1"
definition max_prio :: int where "max_prio = 256"

definition get_task :: "tid \<Rightarrow> kst \<Rightarrow> task res" where
  "get_task t k = (case tasks k t of None \<Rightarrow> Inl Use_After_Free | Some x \<Rightarrow> Inr x)"

definition put_task :: "tid \<Rightarrow> task \<Rightarrow> kst \<Rightarrow> kst" where
  "put_task t x k = k\<lparr>tasks := (tasks k)(t := Some x)\<rparr>"

definition upd_task :: "tid \<Rightarrow> (task \<Rightarrow> task) \<Rightarrow> kst \<Rightarrow> kst res" where
  "upd_task t f k = bindE (get_task t k) (\<lambda>x. Inr (put_task t (f x) k))"

text \<open>A pointer that may be null.\<close>

definition deref :: "tid option \<Rightarrow> tid res" where
  "deref p = (case p of None \<Rightarrow> Inl Null_Deref | Some t \<Rightarrow> Inr t)"

text \<open>The keys the queues are sorted by; the elements of a queue are never freed while on it.\<close>

definition prio_of :: "kst \<Rightarrow> tid \<Rightarrow> int" where
  "prio_of k t = (case tasks k t of None \<Rightarrow> 0 | Some x \<Rightarrow> t_priority x)"

definition pid_of :: "kst \<Rightarrow> tid \<Rightarrow> int" where
  "pid_of k t = (case tasks k t of None \<Rightarrow> 0 | Some x \<Rightarrow> t_pid x)"

definition enqueue :: "tid \<Rightarrow> qid \<Rightarrow> kst \<Rightarrow> kst res" where
  "enqueue t q k = bindE (q_add (prio_of k) t q (sq k)) (\<lambda>s. Inr (k\<lparr>sq := s\<rparr>))"

definition dequeue :: "tid \<Rightarrow> kst \<Rightarrow> kst res" where
  "dequeue t k = bindE (q_del t (sq k)) (\<lambda>s. Inr (k\<lparr>sq := s\<rparr>))"

section \<open>States\<close>

definition current :: "kst \<Rightarrow> tid res" where
  "current k = deref (running_task k)"

definition is_current :: "tid \<Rightarrow> kst \<Rightarrow> bool" where
  "is_current t k \<longleftrightarrow> running_task k = Some t"

definition is_idle :: "tid option \<Rightarrow> kst \<Rightarrow> bool" where
  "is_idle p k \<longleftrightarrow> p = idle_task k"

definition set_state :: "tid \<Rightarrow> tstate \<Rightarrow> kst \<Rightarrow> kst res" where
  "set_state t s k = upd_task t (\<lambda>x. x\<lparr>t_state := s\<rparr>) k"

definition set_task_state :: "tid \<Rightarrow> tstate \<Rightarrow> qid \<Rightarrow> kst \<Rightarrow> kst res" where
  "set_task_state t s q k =
     bindE (get_task t k) (\<lambda>x.
       if t_state x = s then Inr k
       else bindE (if \<not> is_current t k \<and> t_state x \<noteq> Startup \<and> t_state x \<noteq> Int_Msg
                   then dequeue t k else Inr k) (\<lambda>k1.
            bindE (set_state t s k1) (enqueue t q)))"

definition set_task_ready :: "tid \<Rightarrow> kst \<Rightarrow> kst res" where
  "set_task_ready t = set_task_state t Ready Q_ready"

definition set_task_sleeping :: "tid \<Rightarrow> kst \<Rightarrow> kst res" where
  "set_task_sleeping t = set_task_state t Sleeping Q_sleeping"

definition set_task_zombie :: "tid \<Rightarrow> kst \<Rightarrow> kst res" where
  "set_task_zombie t = set_task_state t Zombie Q_zombie"

definition set_task_interrupted_child :: "tid \<Rightarrow> kst \<Rightarrow> kst res" where
  "set_task_interrupted_child t = set_task_state t Int_Child Q_child"

definition set_task_running :: "tid \<Rightarrow> kst \<Rightarrow> kst res" where
  "set_task_running t k =
     bindE (get_task t k) (\<lambda>x.
     bindE (if t_state x \<noteq> Startup \<and> t_state x \<noteq> Running then dequeue t k else Inr k) (\<lambda>k1.
     bindE (set_state t Running k1) (\<lambda>k2.
       Inr (k2\<lparr>running_task := Some t\<rparr>))))"

section \<open>The queues a task is searched in\<close>

definition queue_from_msg :: "int \<Rightarrow> kst \<Rightarrow> qid option" where
  "queue_from_msg pid k =
     find (\<lambda>q. \<exists>t\<in>set (qlist (sq k) q). pid_of k t = pid)
       (concat (map (\<lambda>i. if mqueues k i = None then [] else [Q_senders i, Q_receivers i]) [0..<20]))"

definition queue_from_state :: "tstate \<Rightarrow> int \<Rightarrow> kst \<Rightarrow> qid option" where
  "queue_from_state s pid k =
     (case s of
        Ready \<Rightarrow> Some Q_ready
      | Zombie \<Rightarrow> Some Q_zombie
      | Sleeping \<Rightarrow> Some Q_sleeping
      | Int_Child \<Rightarrow> Some Q_child
      | Int_Msg \<Rightarrow> queue_from_msg pid k
      | _ \<Rightarrow> None)"

definition add_to_global_list :: "tid \<Rightarrow> kst \<Rightarrow> kst res" where
  "add_to_global_list t k = bindE (q_add (pid_of k) t () (glob k)) (\<lambda>g. Inr (k\<lparr>glob := g\<rparr>))"

definition remove_from_global_list :: "tid \<Rightarrow> kst \<Rightarrow> kst res" where
  "remove_from_global_list t k = bindE (q_del t (glob k)) (\<lambda>g. Inr (k\<lparr>glob := g\<rparr>))"

definition pid_to_task :: "int \<Rightarrow> kst \<Rightarrow> tid option res" where
  "pid_to_task pid k =
     bindE (current k) (\<lambda>c. bindE (get_task c k) (\<lambda>x.
       if t_pid x = pid then Inr (Some c)
       else Inr (find (\<lambda>t. pid_of k t = pid) (qlist (glob k) ()))))"

section \<open>Parents and memory\<close>

definition set_parent_process :: "tid \<Rightarrow> tid option \<Rightarrow> kst \<Rightarrow> kst res" where
  "set_parent_process t p k =
     bindE (upd_task t (\<lambda>x. x\<lparr>t_parent := p\<rparr>) k) (\<lambda>k1.
       case p of
         None \<Rightarrow> Inr k1
       | Some pt \<Rightarrow> bindE (get_task pt k1) (\<lambda>_.
           bindE (q_add (prio_of k1) t pt (kids k1)) (\<lambda>s. Inr (k1\<lparr>kids := s\<rparr>))))"

text \<open>
  \<open>queue_del(task_ptr, siblings)\<close> writes the links of both neighbours; when one of them is the head
  in the parent, the parent must not have been freed.
\<close>

definition unlink_sibling :: "tid \<Rightarrow> kst \<Rightarrow> kst res" where
  "unlink_sibling t k =
     (case qlink (kids k) t of
        None \<Rightarrow> Inr k
      | Some p \<Rightarrow>
          if tasks k p = None \<and> (t = hd (qlist (kids k) p) \<or> t = last (qlist (kids k) p))
          then Inl Use_After_Free
          else bindE (q_del t (kids k)) (\<lambda>s. Inr (k\<lparr>kids := s\<rparr>)))"

definition free_task_memory :: "task \<Rightarrow> pmem \<Rightarrow> pmem res" where
  "free_task_memory x m =
     bindE (page_directory_destroy (t_cr3 x) m) (\<lambda>m1.
     bindE (free_pages_at (t_stack_pages x) (t_nb_stack_pages x) m1)
       (free_pages_at (t_code_pages x) (t_nb_code_pages x)))"

definition free_task :: "tid \<Rightarrow> kst \<Rightarrow> kst res" where
  "free_task t k =
     bindE (get_task t k) (\<lambda>x.
     bindE (if qlink (sq k) t \<noteq> None then dequeue t k else Inr k) (\<lambda>k1.
     bindE (unlink_sibling t k1) (\<lambda>k2.
     bindE (free_task_memory x (pm k2)) (\<lambda>m.
       Inr (k2\<lparr>pm := m, tasks := (tasks k2)(t := None)\<rparr>)))))"

section \<open>Scheduling\<close>

definition wakeup_task :: "tid \<Rightarrow> kst \<Rightarrow> kst res" where
  "wakeup_task t k =
     bindE (get_task t k) (\<lambda>x.
       if total_ticks k \<ge> t_wake_time x
       then bindE (upd_task t (\<lambda>x. x\<lparr>t_wake_time := 0\<rparr>) k) (set_task_ready t)
       else Inr k)"

definition try_wakeup_tasks :: "kst \<Rightarrow> kst res" where
  "try_wakeup_tasks k = foldE wakeup_task (qlist (sq k) Q_sleeping) k"

definition is_task_zombie :: "tid \<Rightarrow> kst \<Rightarrow> bool res" where
  "is_task_zombie t k = bindE (get_task t k) (\<lambda>x. Inr (t_state x = Zombie))"

definition reap_task :: "tid \<Rightarrow> kst \<Rightarrow> kst res" where
  "reap_task t k =
     (if is_current t k then Inr k
      else bindE (get_task t k) (\<lambda>x.
        if is_idle (t_parent x) k then free_task t k
        else bindE (deref (t_parent x)) (\<lambda>p.
             bindE (is_task_zombie p k) (\<lambda>z. if z then free_task t k else Inr k))))"

definition reap_zombies :: "kst \<Rightarrow> kst res" where
  "reap_zombies k = foldE reap_task (qlist (sq k) Q_zombie) k"

text \<open>
  \<open>schedule\<close> up to the context switch. \<open>goto_user_mode\<close> and \<open>swtch\<close> save the registers of the old
  task and load those of the new one: from then on the task that runs is \<open>running_task\<close>.
\<close>

definition switch_to :: "tid \<Rightarrow> kst \<Rightarrow> kst res" where
  "switch_to t k =
     bindE (set_task_running t k) (\<lambda>k1.
     bindE (get_task t k1) (\<lambda>x.
       if t_first_start x then Inr (put_task t (x\<lparr>t_first_start := False\<rparr>) k1) else Inr k1))"

definition elect :: "kst \<Rightarrow> kst res" where
  "elect k =
     (case q_top Q_ready (sq k) of
        None \<Rightarrow> Inr k
      | Some new_task \<Rightarrow>
          if running_task k = Some new_task then Inr k
          else bindE (current k) (\<lambda>old_task.
               bindE (get_task old_task k) (\<lambda>xo.
               bindE (get_task new_task k) (\<lambda>xn.
                 if t_state xo = Running \<and> t_priority xo > t_priority xn then Inr k
                 else bindE (if t_state xo = Running then set_task_ready old_task k else Inr k)
                        (switch_to new_task)))))"

definition schedule :: "kst \<Rightarrow> kst res" where
  "schedule k = bindE (try_wakeup_tasks k) (\<lambda>k1. bindE (reap_zombies k1) elect)"

section \<open>Calls of the running task\<close>

text \<open>The rest of the call that the running task is in, and the return to user mode.\<close>

definition set_kont :: "kont \<Rightarrow> kst \<Rightarrow> kst res" where
  "set_kont r k = bindE (current k) (\<lambda>c. upd_task c (\<lambda>x. x\<lparr>t_kont := r\<rparr>) k)"

definition return_user :: "int \<Rightarrow> int option \<Rightarrow> kst \<Rightarrow> kst res" where
  "return_user v out k =
     bindE (current k) (\<lambda>c. upd_task c (\<lambda>x. x\<lparr>t_kont := K_user, t_ret := v, t_out := out\<rparr>) k)"

definition schedule_then :: "kont \<Rightarrow> kst \<Rightarrow> kst res" where
  "schedule_then r k = bindE (set_kont r k) schedule"

definition set_task_ready_or_running :: "tid \<Rightarrow> kont \<Rightarrow> kst \<Rightarrow> kst res" where
  "set_task_ready_or_running t r k =
     bindE (set_kont r k) (\<lambda>k0.
     bindE (set_state t Ready k0) (\<lambda>k1.
     bindE (enqueue t Q_ready k1) (\<lambda>k2.
     bindE (current k2) (\<lambda>c.
     bindE (get_task t k2) (\<lambda>x. bindE (get_task c k2) (\<lambda>xc.
       if t_priority x > t_priority xc then schedule k2 else Inr k2))))))"

definition set_task_interrupted_msg :: "tid \<Rightarrow> kont \<Rightarrow> kst \<Rightarrow> kst res" where
  "set_task_interrupted_msg t r k =
     bindE (set_kont r k) (\<lambda>k0. bindE (set_state t Int_Msg k0) schedule)"

definition wait_clock :: "u32 \<Rightarrow> kst \<Rightarrow> kst res" where
  "wait_clock clock k =
     bindE (current k) (\<lambda>c.
     bindE (upd_task c (\<lambda>x. x\<lparr>t_wake_time := clock\<rparr>) k) (\<lambda>k1.
     bindE (set_task_sleeping c k1) (schedule_then (K_ret 0))))"

definition clock_handler :: "kst \<Rightarrow> kst res" where
  "clock_handler k = schedule (k\<lparr>total_ticks := total_ticks k + 1\<rparr>)"

definition current_clock :: "kst \<Rightarrow> u32" where
  "current_clock k = total_ticks k"

definition preempt_enable :: "kst \<Rightarrow> kst" where "preempt_enable k = k\<lparr>preempt_enabled := True\<rparr>"
definition preempt_disable :: "kst \<Rightarrow> kst" where "preempt_disable k = k\<lparr>preempt_enabled := False\<rparr>"
definition is_preempt_enabled :: "kst \<Rightarrow> bool" where "is_preempt_enabled k = preempt_enabled k"
definition set_idle :: "tid \<Rightarrow> kst \<Rightarrow> kst" where "set_idle t k = k\<lparr>idle_task := Some t\<rparr>"

definition getpid :: "kst \<Rightarrow> int res" where
  "getpid k = bindE (current k) (\<lambda>c. bindE (get_task c k) (\<lambda>x. Inr (t_pid x)))"

end
