(* ===== verification/KernelInv.thy ===== *)
theory KernelInv
  imports Task
begin

text \<open>
  The invariant of the kernel's task structures and the correctness of the scheduler.
  \<open>links_ok\<close>: every task is on exactly the queue of its state, and only the running task is in
  state \<open>Running\<close>. \<open>kinv0\<close> adds what holds at each call of \<open>schedule\<close>, \<open>kinv\<close> what holds whenever a
  task executes. The lemmas give each operation its total effect (\<open>move_task\<close>), and then: waking
  the sleepers and electing a task never fail, reaping can only fail through a freed parent or the
  page allocator, and the elected task has the highest priority of all.
\<close>

section \<open>Invariants\<close>

fun home_ok :: "tstate \<Rightarrow> qid option \<Rightarrow> bool" where
  "home_ok Startup h \<longleftrightarrow> h = None"
| "home_ok Running h \<longleftrightarrow> h = None"
| "home_ok Ready h \<longleftrightarrow> h = Some Q_ready"
| "home_ok Sleeping h \<longleftrightarrow> h = Some Q_sleeping"
| "home_ok Zombie h \<longleftrightarrow> h = Some Q_zombie"
| "home_ok Int_Child h \<longleftrightarrow> h = Some Q_child"
| "home_ok Int_Msg h \<longleftrightarrow> (\<exists>i. h = Some (Q_senders i) \<or> h = Some (Q_receivers i))"
| "home_ok Int_Sem h \<longleftrightarrow> False"
| "home_ok Int_IO h \<longleftrightarrow> False"

text \<open>A message queue somebody waits on exists.\<close>

fun head_ok :: "(nat \<Rightarrow> mqueue option) \<Rightarrow> qid \<Rightarrow> bool" where
  "head_ok m (Q_senders i) \<longleftrightarrow> m i \<noteq> None"
| "head_ok m (Q_receivers i) \<longleftrightarrow> m i \<noteq> None"
| "head_ok m _ \<longleftrightarrow> True"

text \<open>Alive: on the global list.\<close>

definition alive :: "tstate \<Rightarrow> bool" where
  "alive s \<longleftrightarrow> s \<noteq> Zombie \<and> s \<noteq> Startup"

definition link_ok :: "kst \<Rightarrow> tid \<Rightarrow> bool" where
  "link_ok k t \<longleftrightarrow>
     (case tasks k t of
        None \<Rightarrow> qlink (sq k) t = None \<and> qlink (glob k) t = None
      | Some x \<Rightarrow> home_ok (t_state x) (qlink (sq k) t) \<and> (t_state x = Running \<longrightarrow> running_task k = Some t) \<and>
          (\<forall>q. qlink (sq k) t = Some q \<longrightarrow> head_ok (mqueues k) q) \<and> (qlink (glob k) t \<noteq> None \<longleftrightarrow> alive (t_state x)))"

definition links_ok :: "kst \<Rightarrow> bool" where
  "links_ok k \<longleftrightarrow> q_ok (sq k) \<and> q_ok (kids k) \<and> q_ok (glob k) \<and> (\<forall>t. link_ok k t)"

definition queues_sorted :: "kst \<Rightarrow> bool" where
  "queues_sorted k \<longleftrightarrow> (\<forall>q. sorted (map (prio_of k) (qlist (sq k) q)))"

definition parents_ok :: "kst \<Rightarrow> bool" where
  "parents_ok k \<longleftrightarrow> (\<forall>t x. tasks k t = Some x \<longrightarrow> idle_task k \<noteq> Some t \<longrightarrow> t_parent x \<noteq> None)"

definition running_ok :: "kst \<Rightarrow> bool" where
  "running_ok k \<longleftrightarrow> (\<exists>c x. running_task k = Some c \<and> tasks k c = Some x \<and> t_state x \<noteq> Ready)"

text \<open>The running task, when it has just gone to sleep, is to be woken later than now.\<close>

definition not_late :: "kst \<Rightarrow> bool" where
  "not_late k \<longleftrightarrow> (\<forall>c x. running_task k = Some c \<longrightarrow> tasks k c = Some x \<longrightarrow> t_state x = Sleeping \<longrightarrow>
     total_ticks k < t_wake_time x)"

definition idle_ok :: "kst \<Rightarrow> bool" where
  "idle_ok k \<longleftrightarrow> (\<exists>i x. idle_task k = Some i \<and> tasks k i = Some x \<and> (t_state x = Ready \<or> t_state x = Running))"

text \<open>The living tasks have distinct identifiers, marked in the bitmap.\<close>

definition pids_ok :: "kst \<Rightarrow> bool" where
  "pids_ok k \<longleftrightarrow> pidmap_wf (kpids k) \<and>
     (\<forall>t x. tasks k t = Some x \<longrightarrow> alive (t_state x) \<longrightarrow>
        t_pid x \<in> pids_used (kpids k) \<and> 0 \<le> t_pid x \<and> t_pid x \<le> 32) \<and>
     (\<forall>t u x y. tasks k t = Some x \<longrightarrow> tasks k u = Some y \<longrightarrow> alive (t_state x) \<longrightarrow> alive (t_state y) \<longrightarrow>
        t_pid x = t_pid y \<longrightarrow> t = u)"

definition mqueue_ok :: "mqueue \<Rightarrow> bool" where
  "mqueue_ok q \<longleftrightarrow> mq_count q = of_nat (length (mq_msgs q)) \<and> length (mq_msgs q) \<le> unat (mq_size q) \<and>
     unat (mq_size q) \<le> 32767"

definition mqs_ok :: "kst \<Rightarrow> bool" where
  "mqs_ok k \<longleftrightarrow> (\<forall>i q. mqueues k i = Some q \<longrightarrow> i < 20 \<and> mqueue_ok q)"

definition kinv1 :: "kst \<Rightarrow> bool" where
  "kinv1 k \<longleftrightarrow> links_ok k \<and> queues_sorted k \<and> parents_ok k \<and> running_ok k \<and> idle_ok k \<and> pids_ok k \<and> mqs_ok k"

definition kinv0 :: "kst \<Rightarrow> bool" where
  "kinv0 k \<longleftrightarrow> kinv1 k \<and> not_late k"

definition kinv :: "kst \<Rightarrow> bool" where
  "kinv k \<longleftrightarrow> kinv0 k \<and> (\<exists>c x. running_task k = Some c \<and> tasks k c = Some x \<and> t_state x = Running)"

lemma kinv_kinv0: "kinv k \<Longrightarrow> kinv0 k"
  by (simp add: kinv_def)

section \<open>Total effects\<close>

definition move_task :: "tid \<Rightarrow> tstate \<Rightarrow> qid \<Rightarrow> kst \<Rightarrow> kst" where
  "move_task t s q k =
     k\<lparr>tasks := (tasks k)(t := map_option (\<lambda>x. x\<lparr>t_state := s\<rparr>) (tasks k t)),
       sq := q_move (prio_of k) t q (sq k)\<rparr>"

definition run_task :: "tid \<Rightarrow> kst \<Rightarrow> kst" where
  "run_task t k =
     k\<lparr>tasks := (tasks k)(t := map_option (\<lambda>x. x\<lparr>t_state := Running, t_first_start := False\<rparr>) (tasks k t)),
       sq := q_unlink t (sq k), running_task := Some t\<rparr>"

lemma get_task_Some [simp]: "tasks k t = Some x \<Longrightarrow> get_task t k = Inr x"
  by (simp add: get_task_def)

lemma get_task_Inr [bind_rules]: "get_task t k = Inr x \<longleftrightarrow> tasks k t = Some x"
  by (auto simp: get_task_def split: option.splits)

lemma get_task_Inl: "get_task t k = Inl e \<longleftrightarrow> tasks k t = None \<and> e = Use_After_Free"
  by (auto simp: get_task_def split: option.splits)

lemma deref_Inr [bind_rules]: "deref p = Inr t \<longleftrightarrow> p = Some t"
  by (auto simp: deref_def split: option.splits)

lemma current_Some [simp]: "running_task k = Some c \<Longrightarrow> current k = Inr c"
  by (simp add: current_def deref_def)

lemma current_Inr [bind_rules]: "current k = Inr c \<longleftrightarrow> running_task k = Some c"
  by (simp add: current_def deref_Inr)

lemma upd_task_Some [simp]: "tasks k t = Some x \<Longrightarrow> upd_task t f k = Inr (put_task t (f x) k)"
  by (simp add: upd_task_def)

lemma upd_task_Inr [bind_rules]: "upd_task t f k = Inr k' \<longleftrightarrow> (\<exists>x. tasks k t = Some x \<and> k' = put_task t (f x) k)"
  by (auto simp: upd_task_def bind_rules)

lemma put_task_simps [simp]:
  "tasks (put_task t x k) = (tasks k)(t := Some x)" "sq (put_task t x k) = sq k"
  "kids (put_task t x k) = kids k" "glob (put_task t x k) = glob k"
  "running_task (put_task t x k) = running_task k" "idle_task (put_task t x k) = idle_task k"
  "total_ticks (put_task t x k) = total_ticks k" "mqueues (put_task t x k) = mqueues k"
  "pm (put_task t x k) = pm k" "cpt_rst (put_task t x k) = cpt_rst k" "kpids (put_task t x k) = kpids k"
  "heap_full (put_task t x k) = heap_full k" "preempt_enabled (put_task t x k) = preempt_enabled k"
  by (simp_all add: put_task_def)

lemma move_task_simps [simp]:
  "kids (move_task t s q k) = kids k" "glob (move_task t s q k) = glob k"
  "running_task (move_task t s q k) = running_task k" "idle_task (move_task t s q k) = idle_task k"
  "total_ticks (move_task t s q k) = total_ticks k" "mqueues (move_task t s q k) = mqueues k"
  "pm (move_task t s q k) = pm k" "cpt_rst (move_task t s q k) = cpt_rst k" "kpids (move_task t s q k) = kpids k"
  "heap_full (move_task t s q k) = heap_full k"
  "tasks (move_task t s q k) = (tasks k)(t := map_option (\<lambda>x. x\<lparr>t_state := s\<rparr>) (tasks k t))"
  "sq (move_task t s q k) = q_move (prio_of k) t q (sq k)"
  by (simp_all add: move_task_def)

lemma run_task_simps [simp]:
  "kids (run_task t k) = kids k" "glob (run_task t k) = glob k"
  "running_task (run_task t k) = Some t" "idle_task (run_task t k) = idle_task k"
  "total_ticks (run_task t k) = total_ticks k" "mqueues (run_task t k) = mqueues k"
  "pm (run_task t k) = pm k" "cpt_rst (run_task t k) = cpt_rst k" "kpids (run_task t k) = kpids k"
  "heap_full (run_task t k) = heap_full k"
  "tasks (run_task t k) = (tasks k)(t := map_option (\<lambda>x. x\<lparr>t_state := Running, t_first_start := False\<rparr>) (tasks k t))"
  "sq (run_task t k) = q_unlink t (sq k)"
  by (simp_all add: run_task_def)

lemma prio_of_put [simp]: "prio_of (put_task t x k) u = (if u = t then t_priority x else prio_of k u)"
  by (simp add: prio_of_def)

lemma prio_of_move [simp]: "prio_of (move_task t s q k) = prio_of k"
  by (auto simp: prio_of_def fun_eq_iff split: option.splits)

lemma prio_of_run [simp]: "prio_of (run_task t k) = prio_of k"
  by (auto simp: prio_of_def fun_eq_iff split: option.splits)

lemma prio_of_sq [simp]: "prio_of (k\<lparr>sq := s\<rparr>) = prio_of k"
  by (simp add: prio_of_def fun_eq_iff)

lemma prio_of_running [simp]: "prio_of (k\<lparr>running_task := c\<rparr>) = prio_of k"
  by (simp add: prio_of_def fun_eq_iff)

lemma enqueue_ok: "q_ok (sq k) \<Longrightarrow> qlink (sq k) t = None \<Longrightarrow>
    enqueue t q k = Inr (k\<lparr>sq := q_move (prio_of k) t q (sq k)\<rparr>)"
  by (simp add: enqueue_def q_add_move)

lemma dequeue_ok: "q_ok (sq k) \<Longrightarrow> qlink (sq k) t \<noteq> None \<Longrightarrow>
    dequeue t k = Inr (k\<lparr>sq := q_unlink t (sq k)\<rparr>)"
  by (auto simp: dequeue_def q_del_unlink)

text \<open>
  \<open>set_task_state\<close> moves the task, whenever its link is as the function expects it: null for the
  running task and for one taken out of a message queue, set otherwise.
\<close>

lemma set_task_state_move:
  assumes q: "q_ok (sq k)" and t: "tasks k t = Some x" "t_state x \<noteq> s"
    and link: "is_current t k \<or> t_state x = Startup \<or> t_state x = Int_Msg \<longleftrightarrow> qlink (sq k) t = None"
  shows "set_task_state t s q k = Inr (move_task t s q k)"
proof (cases "qlink (sq k) t = None")
  case True
  then show ?thesis using q t link
    by (auto simp: set_task_state_def set_state_def enqueue_ok move_task_def put_task_def
        intro!: kst.equality q_move_cong simp: prio_of_def)
next
  case False
  then show ?thesis using q t link
    by (auto simp: set_task_state_def set_state_def dequeue_ok enqueue_ok move_task_def put_task_def
        intro!: kst.equality q_move_cong simp: prio_of_def)
qed

section \<open>Moving a task keeps the invariant\<close>

lemma links_okD: "links_ok k \<Longrightarrow> link_ok k t"
  by (simp add: links_ok_def)

lemma link_okD: "links_ok k \<Longrightarrow> tasks k t = Some x \<Longrightarrow> home_ok (t_state x) (qlink (sq k) t)"
  using links_okD [of k t] by (simp add: link_ok_def)

lemma link_ok_running: "links_ok k \<Longrightarrow> tasks k t = Some x \<Longrightarrow> t_state x = Running \<Longrightarrow> running_task k = Some t"
  using links_okD [of k t] by (simp add: link_ok_def)

lemma link_ok_live:
  assumes "links_ok k" and "qlink (sq k) t = Some h" shows "\<exists>x. tasks k t = Some x"
proof -
  have "link_ok k t" using assms(1) by (simp add: links_ok_def)
  then show ?thesis using assms(2) by (cases "tasks k t") (simp_all add: link_ok_def)
qed

lemma links_ok_q [simp]: "links_ok k \<Longrightarrow> q_ok (sq k)" "links_ok k \<Longrightarrow> q_ok (kids k)" "links_ok k \<Longrightarrow> q_ok (glob k)"
  by (simp_all add: links_ok_def)

lemma on_queue_live: "links_ok k \<Longrightarrow> t \<in> set (qlist (sq k) h) \<Longrightarrow> \<exists>x. tasks k t = Some x \<and> qlink (sq k) t = Some h"
  using link_ok_live q_ok_home links_ok_q(1) by metis

lemma state_of_queue:
  assumes "links_ok k" and "t \<in> set (qlist (sq k) h)"
  obtains x where "tasks k t = Some x" "home_ok (t_state x) (Some h)" "qlink (sq k) t = Some h"
  using on_queue_live [OF assms] link_okD [OF assms(1)] by (metis)

lemma home_ok_inj:
  "home_ok s (Some Q_ready) \<longleftrightarrow> s = Ready" "home_ok s (Some Q_sleeping) \<longleftrightarrow> s = Sleeping"
  "home_ok s (Some Q_zombie) \<longleftrightarrow> s = Zombie" "home_ok s (Some Q_child) \<longleftrightarrow> s = Int_Child"
  "home_ok s (Some (Q_senders i)) \<longleftrightarrow> s = Int_Msg" "home_ok s (Some (Q_receivers i)) \<longleftrightarrow> s = Int_Msg"
  "home_ok s None \<longleftrightarrow> s = Startup \<or> s = Running"
  by (cases s; simp)+

lemma home_ok_not_None: "home_ok s (Some q) \<Longrightarrow> s \<noteq> Running \<and> s \<noteq> Startup"
  by (cases s) auto

lemma links_ok_move:
  assumes "q_ok (sq k)" "q_ok (kids k)" "q_ok (glob k)" and "\<And>u. u \<noteq> t \<Longrightarrow> link_ok k u"
    and "tasks k t = Some x" and "home_ok s (Some q)" and "head_ok (mqueues k) q" and "qlink (glob k) t \<noteq> None \<longleftrightarrow> alive s"
  shows "links_ok (move_task t s q k)"
  unfolding links_ok_def
proof (intro conjI allI)
  show "link_ok (move_task t s q k) u" for u
    using assms(4) [of u] assms(5-) home_ok_not_None [OF assms(6)]
    by (cases "u = t") (auto simp: link_ok_def split: option.splits)
qed (use assms in simp_all)

lemma links_ok_alive: "links_ok k \<Longrightarrow> tasks k t = Some x \<Longrightarrow> qlink (glob k) t \<noteq> None \<longleftrightarrow> alive (t_state x)"
  using links_okD [of k t] by (simp add: link_ok_def)

lemma links_ok_head: "links_ok k \<Longrightarrow> tasks k t = Some x \<Longrightarrow> qlink (sq k) t = Some q \<Longrightarrow> head_ok (mqueues k) q"
  using links_okD [of k t] by (simp add: link_ok_def)

lemma links_ok_move':
  assumes "links_ok k" and "tasks k t = Some x" and "home_ok s (Some q)" and "head_ok (mqueues k) q"
    and "alive s \<longleftrightarrow> alive (t_state x)"
  shows "links_ok (move_task t s q k)"
  by (rule links_ok_move [where x = x]) (use assms links_ok_alive [OF assms(1,2)] in \<open>simp_all add: links_okD\<close>)

lemma alive_simps [simp]:
  "alive Running" "alive Ready" "alive Sleeping" "alive Int_Child" "alive Int_Msg" "\<not> alive Zombie" "\<not> alive Startup"
  by (simp_all add: alive_def)

lemma pids_ok_cong:
  assumes ok: "pids_ok k" and m: "kpids k' = kpids k"
    and sub: "\<And>t y. tasks k' t = Some y \<Longrightarrow> alive (t_state y) \<Longrightarrow>
      \<exists>x. tasks k t = Some x \<and> alive (t_state x) \<and> t_pid x = t_pid y"
  shows "pids_ok k'"
  unfolding pids_ok_def
proof (intro conjI allI impI)
  show "pidmap_wf (kpids k')" using ok m by (simp add: pids_ok_def)
next
  fix t y assume "tasks k' t = Some y" "alive (t_state y)"
  then obtain x where "tasks k t = Some x" "alive (t_state x)" "t_pid x = t_pid y" using sub by blast
  then show "t_pid y \<in> pids_used (kpids k')" "0 \<le> t_pid y" "t_pid y \<le> 32"
    using ok m unfolding pids_ok_def by metis+
next
  fix t u y z
  assume 1: "tasks k' t = Some y" "tasks k' u = Some z" "alive (t_state y)" "alive (t_state z)" "t_pid y = t_pid z"
  then obtain x where "tasks k t = Some x" "alive (t_state x)" "t_pid x = t_pid y" using sub by blast
  moreover obtain w where "tasks k u = Some w" "alive (t_state w)" "t_pid w = t_pid z" using 1 sub by blast
  ultimately show "t = u" using ok 1(5) unfolding pids_ok_def by metis
qed

lemma pids_ok_move:
  assumes "pids_ok k" and "tasks k t = Some x" and "alive s \<longrightarrow> alive (t_state x)"
  shows "pids_ok (move_task t s q k)"
  by (rule pids_ok_cong [OF assms(1)]) (use assms in \<open>auto split: if_splits\<close>)

lemma pids_ok_put: "pids_ok k \<Longrightarrow> tasks k t = Some x \<Longrightarrow> t_state y = t_state x \<Longrightarrow> t_pid y = t_pid x \<Longrightarrow> pids_ok (put_task t y k)"
  by (erule pids_ok_cong) (auto split: if_splits)

lemma pids_ok_run: "pids_ok k \<Longrightarrow> tasks k t = Some x \<Longrightarrow> alive (t_state x) \<Longrightarrow> pids_ok (run_task t k)"
  by (erule pids_ok_cong) (auto split: if_splits)

lemma mqs_ok_cong: "mqueues k' = mqueues k \<Longrightarrow> mqs_ok k' = mqs_ok k"
  by (simp add: mqs_ok_def)

lemma queues_sorted_move: "queues_sorted k \<Longrightarrow> queues_sorted (move_task t s q k)"
  by (simp add: queues_sorted_def sorted_q_move)

lemma parents_ok_move: "parents_ok k \<Longrightarrow> parents_ok (move_task t s q k)"
  unfolding parents_ok_def by (simp add: split_paired_all) auto

lemma parents_ok_run: "parents_ok k \<Longrightarrow> parents_ok (run_task t k)"
  unfolding parents_ok_def by (simp add: split_paired_all) auto

lemma parents_ok_put: "parents_ok k \<Longrightarrow> tasks k t = Some x \<Longrightarrow> t_parent y = t_parent x \<Longrightarrow> parents_ok (put_task t y k)"
  by (auto simp: parents_ok_def split: if_splits)

lemma link_ok_put:
  assumes "links_ok k" and "tasks k t = Some x" and "t_state y = t_state x"
  shows "links_ok (put_task t y k)"
  unfolding links_ok_def
proof (intro conjI allI)
  show "link_ok (put_task t y k) u" for u
    using links_okD [OF assms(1), of u] assms(2,3)
    by (cases "u = t") (auto simp: link_ok_def split: option.splits)
qed (use assms(1) in simp_all)

lemma queues_sorted_put: "queues_sorted k \<Longrightarrow> tasks k t = Some x \<Longrightarrow> t_priority y = t_priority x \<Longrightarrow>
    queues_sorted (put_task t y k)"
  unfolding queues_sorted_def
  by (subst sorted_map_cong [of _ _ "prio_of k"]) (auto simp: prio_of_def)

section \<open>Waking the sleepers\<close>

lemma running_ok_move:
  assumes "running_ok k" and "running_task k \<noteq> Some t" shows "running_ok (move_task t s q k)"
  using assms by (auto simp: running_ok_def)

lemma idle_ok_move:
  assumes "idle_ok k" and "idle_task k \<noteq> Some t \<or> s = Ready \<or> s = Running" shows "idle_ok (move_task t s q k)"
  using assms by (auto simp: idle_ok_def)

lemma kinv1_put:
  assumes "kinv1 k" and "tasks k t = Some x" and "t_state y = t_state x" and "t_priority y = t_priority x"
    and "t_parent y = t_parent x" and "t_pid y = t_pid x"
  shows "kinv1 (put_task t y k)"
  unfolding kinv1_def
proof (intro conjI)
  show "links_ok (put_task t y k)" "queues_sorted (put_task t y k)" "parents_ok (put_task t y k)"
      "pids_ok (put_task t y k)" "mqs_ok (put_task t y k)"
    using assms by (auto simp: kinv1_def mqs_ok_def intro: link_ok_put queues_sorted_put parents_ok_put pids_ok_put)
  show "running_ok (put_task t y k)" "idle_ok (put_task t y k)"
    using assms by (auto simp: kinv1_def running_ok_def idle_ok_def)
qed

lemma kinv_put:
  assumes "kinv k" and "tasks k t = Some x" and "t_state y = t_state x" and "t_priority y = t_priority x"
    and "t_parent y = t_parent x" and "t_pid y = t_pid x"
  shows "kinv (put_task t y k)"
  using kinv1_put [of k t x y] assms by (auto simp: kinv_def kinv0_def not_late_def)

lemma idle_ok_run: "idle_ok k \<Longrightarrow> idle_ok (run_task t k)"
  by (auto simp: idle_ok_def)

lemma wakeup_task_ok:
  assumes inv: "kinv1 k" and t: "t \<in> set (qlist (sq k) Q_sleeping)" and nc: "running_task k \<noteq> Some t"
  shows "\<exists>k'. wakeup_task t k = Inr k' \<and> kinv1 k' \<and> (\<forall>u. u \<noteq> t \<longrightarrow> tasks k' u = tasks k u) \<and>
    set (qlist (sq k) Q_sleeping) - {t} \<subseteq> set (qlist (sq k') Q_sleeping) \<and>
    running_task k' = running_task k \<and> total_ticks k' = total_ticks k"
proof -
  have l: "links_ok k" using inv by (simp add: kinv1_def)
  obtain x where x: "tasks k t = Some x" "t_state x = Sleeping" "qlink (sq k) t = Some Q_sleeping"
    using state_of_queue [OF l t] by (auto simp: home_ok_inj)
  show ?thesis
  proof (cases "t_wake_time x \<le> total_ticks k")
    case False
    then show ?thesis using inv x by (auto simp: wakeup_task_def)
  next
    case True
    let ?k = "put_task t (x\<lparr>t_wake_time := 0\<rparr>) k"
    have i: "kinv1 ?k" by (intro kinv1_put [OF inv x(1)]) simp_all
    have "set_task_ready t ?k = Inr (move_task t Ready Q_ready ?k)"
      unfolding set_task_ready_def using l x nc by (intro set_task_state_move) (auto simp: is_current_def)
    then have w: "wakeup_task t k = Inr (move_task t Ready Q_ready ?k)"
      using True x by (simp add: wakeup_task_def)
    have "kinv1 (move_task t Ready Q_ready ?k)"
      using i nc x unfolding kinv1_def
      by (auto intro!: links_ok_move' queues_sorted_move parents_ok_move running_ok_move idle_ok_move pids_ok_move
          simp: mqs_ok_def)
    then show ?thesis using w l by (auto simp: set_qlist_q_move)
  qed
qed

lemma fold_wakeup_ok:
  assumes "kinv1 k" and "distinct ts" and "set ts \<subseteq> set (qlist (sq k) Q_sleeping)" and "running_task k \<notin> Some ` set ts"
  shows "\<exists>k'. foldE wakeup_task ts k = Inr k' \<and> kinv1 k' \<and> (\<forall>u. u \<notin> set ts \<longrightarrow> tasks k' u = tasks k u) \<and>
    set (qlist (sq k) Q_sleeping) - set ts \<subseteq> set (qlist (sq k') Q_sleeping) \<and>
    running_task k' = running_task k \<and> total_ticks k' = total_ticks k"
  using assms
proof (induction ts arbitrary: k)
  case (Cons t ts)
  obtain k1 where k1: "wakeup_task t k = Inr k1" "kinv1 k1" "\<forall>u. u \<noteq> t \<longrightarrow> tasks k1 u = tasks k u"
      "set (qlist (sq k) Q_sleeping) - {t} \<subseteq> set (qlist (sq k1) Q_sleeping)"
      "running_task k1 = running_task k" "total_ticks k1 = total_ticks k"
    using wakeup_task_ok [OF Cons.prems(1), of t] Cons.prems(3,4) by auto
  have "set ts \<subseteq> set (qlist (sq k1) Q_sleeping)" "running_task k1 \<notin> Some ` set ts"
    using Cons.prems(2,3,4) k1(4,5) by auto
  then obtain k2 where "foldE wakeup_task ts k1 = Inr k2" "kinv1 k2" "\<forall>u. u \<notin> set ts \<longrightarrow> tasks k2 u = tasks k1 u"
      "set (qlist (sq k1) Q_sleeping) - set ts \<subseteq> set (qlist (sq k2) Q_sleeping)"
      "running_task k2 = running_task k1" "total_ticks k2 = total_ticks k1"
    using Cons.IH [of k1] Cons.prems(2) k1(2) by auto
  then show ?case using k1 by auto
qed simp

text \<open>
  When the running task is on the sleeping queue and its time has come, \<open>set_task_ready\<close> takes it
  for an unlinked task and the \<open>assert\<close> of \<open>queue_add\<close> fails.
\<close>

lemma wakeup_current_panic:
  assumes "links_ok k" and c: "running_task k = Some c" "tasks k c = Some x" "t_state x = Sleeping"
    and "t_wake_time x \<le> total_ticks k"
  shows "wakeup_task c k = Inl Panic"
proof -
  have "qlink (sq k) c = Some Q_sleeping" using link_okD [OF assms(1) c(2)] c(3) by simp
  then show ?thesis
    using c assms(5) by (simp add: wakeup_task_def set_task_ready_def set_task_state_def is_current_def
        set_state_def enqueue_def q_add_def)
qed

lemma try_wakeup_late:
  assumes inv: "kinv1 k" and c: "running_task k = Some c" "tasks k c = Some x" "t_state x = Sleeping"
    and late: "t_wake_time x \<le> total_ticks k"
  shows "try_wakeup_tasks k = Inl Panic"
proof -
  have l: "links_ok k" using inv by (simp add: kinv1_def)
  have "qlink (sq k) c = Some Q_sleeping" using link_okD [OF l c(2)] c(3) by simp
  then have "c \<in> set (qlist (sq k) Q_sleeping)" using l by (simp add: q_ok_home [symmetric])
  then obtain as bs where s: "qlist (sq k) Q_sleeping = as @ c # bs" "c \<notin> set as"
    by (metis split_list_first)
  have "distinct (qlist (sq k) Q_sleeping)" using l by (simp add: q_ok_distinct)
  then have "distinct as" by (simp add: s)
  then obtain k1 where k1: "foldE wakeup_task as k = Inr k1" "kinv1 k1" "tasks k1 c = tasks k c"
      "running_task k1 = running_task k" "total_ticks k1 = total_ticks k"
    using fold_wakeup_ok [OF inv, of as] s c(1) by auto
  have "wakeup_task c k1 = Inl Panic"
    using k1 c late by (intro wakeup_current_panic) (auto simp: kinv1_def)
  then show ?thesis using k1(1) by (simp add: try_wakeup_tasks_def s foldE_append)
qed

lemma try_wakeup_ok:
  assumes inv: "kinv0 k"
  shows "\<exists>k'. try_wakeup_tasks k = Inr k' \<and> kinv0 k'"
proof -
  define ts where "ts = filter (\<lambda>t. running_task k \<noteq> Some t) (qlist (sq k) Q_sleeping)"
  have l: "links_ok k" using inv by (simp add: kinv0_def kinv1_def)
  have skip: "foldE wakeup_task us k' = foldE wakeup_task (filter (\<lambda>t. running_task k \<noteq> Some t) us) k'"
    if "running_task k' = running_task k" "total_ticks k' = total_ticks k" "kinv1 k'" "not_late k'"
      "set us \<subseteq> set (qlist (sq k') Q_sleeping)" "distinct us" for us k'
    using that
  proof (induction us arbitrary: k')
    case (Cons u us)
    have l': "links_ok k'" using Cons.prems by (simp add: kinv1_def)
    obtain x where x: "tasks k' u = Some x" "t_state x = Sleeping"
      using state_of_queue [OF l', of u Q_sleeping] Cons.prems(5) by (auto simp: home_ok_inj)
    show ?case
    proof (cases "running_task k = Some u")
      case True
      then have "wakeup_task u k' = Inr k'"
        using Cons.prems(1,4) x by (auto simp: wakeup_task_def not_late_def)
      then show ?thesis using True Cons by simp
    next
      case False
      then obtain k1 where k1: "wakeup_task u k' = Inr k1" "kinv1 k1" "\<forall>v. v \<noteq> u \<longrightarrow> tasks k1 v = tasks k' v"
          "set (qlist (sq k') Q_sleeping) - {u} \<subseteq> set (qlist (sq k1) Q_sleeping)"
          "running_task k1 = running_task k'" "total_ticks k1 = total_ticks k'"
        using wakeup_task_ok [OF Cons.prems(3), of u] Cons.prems(1,5) by auto
      then have "not_late k1" using Cons.prems(1,4) False by (auto simp: not_late_def)
      moreover have "set us \<subseteq> set (qlist (sq k1) Q_sleeping)" using Cons.prems(5,6) k1(4) by auto
      ultimately show ?thesis using False k1 Cons.IH [of k1] Cons.prems by simp
    qed
  qed simp
  have "\<exists>k'. foldE wakeup_task ts k = Inr k' \<and> kinv1 k' \<and> (\<forall>u. u \<notin> set ts \<longrightarrow> tasks k' u = tasks k u) \<and>
    set (qlist (sq k) Q_sleeping) - set ts \<subseteq> set (qlist (sq k') Q_sleeping) \<and>
    running_task k' = running_task k \<and> total_ticks k' = total_ticks k"
    using inv l by (intro fold_wakeup_ok) (auto simp: kinv0_def ts_def q_ok_distinct)
  then obtain k' where k': "foldE wakeup_task ts k = Inr k'" "kinv1 k'" "\<forall>u. u \<notin> set ts \<longrightarrow> tasks k' u = tasks k u"
      "running_task k' = running_task k" "total_ticks k' = total_ticks k" by blast
  moreover have "try_wakeup_tasks k = foldE wakeup_task ts k"
    unfolding try_wakeup_tasks_def ts_def using inv l
    by (intro skip) (auto simp: kinv0_def q_ok_distinct)
  moreover have "not_late k'"
    using inv k'(3-5) unfolding not_late_def kinv0_def by (auto simp: ts_def)
  ultimately show ?thesis by (auto simp: kinv0_def)
qed

section \<open>Electing a task\<close>

lemma not_late_run: "not_late (run_task t k)"
  by (auto simp: not_late_def)

lemma links_ok_run:
  assumes l: "links_ok k" and t: "tasks k t = Some x" and c: "running_task k = Some c" "tasks k c = Some y"
    and "t_state y \<noteq> Running \<or> c = t" and "alive (t_state x)"
  shows "links_ok (run_task t k)"
  unfolding links_ok_def
proof (intro conjI allI)
  show "link_ok (run_task t k) u" for u
    using links_okD [OF l, of u] link_ok_running [OF l, of u] assms(2-)
    by (cases "u = t") (auto simp: link_ok_def split: option.splits)
qed (use l in simp_all)

lemma kinv_run:
  assumes inv: "kinv0 k" and t: "tasks k t = Some x" "t_state x = Ready"
    and c: "running_task k = Some c" "tasks k c = Some y" "t_state y \<noteq> Running"
  shows "kinv (run_task t k)"
proof -
  have l: "links_ok k" using inv by (simp add: kinv0_def kinv1_def)
  have "links_ok (run_task t k)" by (rule links_ok_run [OF l t(1) c(1,2)]) (use c t in simp_all)
  moreover have "queues_sorted (run_task t k)"
    using inv by (simp add: kinv0_def kinv1_def queues_sorted_def sorted_q_unlink)
  moreover have "parents_ok (run_task t k)"
    using inv by (simp add: kinv0_def kinv1_def parents_ok_run)
  moreover have "running_ok (run_task t k)" "idle_ok (run_task t k)"
    using inv t by (auto simp: kinv0_def kinv1_def not_late_def running_ok_def idle_ok_def)
  moreover have "pids_ok (run_task t k)" "mqs_ok (run_task t k)"
    using inv t by (auto simp: kinv0_def kinv1_def mqs_ok_def intro: pids_ok_run)
  ultimately show ?thesis using t by (simp add: kinv_def kinv0_def kinv1_def not_late_run)
qed

lemma switch_to_run:
  assumes "links_ok k" and "tasks k t = Some x" and "t_state x = Ready"
  shows "switch_to t k = Inr (run_task t k)"
proof -
  have ne: "qlink (sq k) t \<noteq> None" using link_okD [OF assms(1,2)] assms(3) by simp
  have d: "dequeue t k = Inr (k\<lparr>sq := q_unlink t (sq k)\<rparr>)"
    using ne assms(1) by (intro dequeue_ok) simp_all
  then show ?thesis
    using assms(2,3) by (cases x) (auto simp: switch_to_def set_task_running_def set_state_def run_task_def put_task_def)
qed

lemma last_ready:
  assumes "kinv0 k" and "q_top Q_ready (sq k) = Some t"
  obtains x where "tasks k t = Some x" "t_state x = Ready" "t \<in> set (qlist (sq k) Q_ready)"
    and "\<forall>u\<in>set (qlist (sq k) Q_ready). prio_of k u \<le> prio_of k t"
proof -
  have l: "links_ok k" and so: "sorted (map (prio_of k) (qlist (sq k) Q_ready))"
    using assms(1) by (simp_all add: kinv0_def kinv1_def queues_sorted_def)
  have t: "t \<in> set (qlist (sq k) Q_ready)" "t = last (qlist (sq k) Q_ready)"
    using assms(2) by (auto simp: q_top_Some)
  obtain x where "tasks k t = Some x" "t_state x = Ready"
    using state_of_queue [OF l t(1)] by (auto simp: home_ok_inj)
  then show ?thesis using that t sorted_map_last_max [OF so] by blast
qed

text \<open>
  The scheduler's specification: it always elects a task, and no ready task has a higher priority
  than the elected one.
\<close>

definition highest_runs :: "kst \<Rightarrow> bool" where
  "highest_runs k \<longleftrightarrow> (\<exists>c. running_task k = Some c \<and>
     (\<forall>t\<in>set (qlist (sq k) Q_ready). prio_of k t \<le> prio_of k c))"

lemma elect_ok:
  assumes inv: "kinv0 k"
  shows "\<exists>k'. elect k = Inr k' \<and> kinv k' \<and> highest_runs k'"
proof -
  have l: "links_ok k" using inv by (simp add: kinv0_def kinv1_def)
  obtain c y where c: "running_task k = Some c" "tasks k c = Some y" "t_state y \<noteq> Ready"
    using inv by (auto simp: kinv0_def kinv1_def not_late_def running_ok_def)
  obtain i z where i: "idle_task k = Some i" "tasks k i = Some z" "t_state z = Ready \<or> t_state z = Running"
    using inv by (auto simp: kinv0_def kinv1_def idle_ok_def)
  show ?thesis
  proof (cases "q_top Q_ready (sq k)")
    case None
    then have e: "qlist (sq k) Q_ready = []" by (simp add: q_top_None)
    then have "qlink (sq k) i \<noteq> Some Q_ready" using l by (simp add: q_ok_home)
    then have "t_state z = Running" using link_okD [OF l i(2)] i(3) by auto
    then have "kinv k" using inv i link_ok_running [OF l i(2)] by (auto simp: kinv_def)
    then show ?thesis using None e c by (auto simp: elect_def highest_runs_def)
  next
    case (Some t)
    then obtain x where x: "tasks k t = Some x" "t_state x = Ready" "t \<in> set (qlist (sq k) Q_ready)"
      and hi: "\<forall>u\<in>set (qlist (sq k) Q_ready). prio_of k u \<le> prio_of k t"
      using last_ready [OF inv] by blast
    have tc: "t \<noteq> c" using x c by auto
    consider "t_state y = Running" "t_priority x < t_priority y" | "t_state y = Running" "t_priority y \<le> t_priority x"
      | "t_state y \<noteq> Running" by fastforce
    then show ?thesis
    proof cases
      case 1
      then have "elect k = Inr k" using Some x c tc by (simp add: elect_def)
      moreover have "highest_runs k"
        using hi c x 1 by (fastforce simp: highest_runs_def prio_of_def)
      ultimately show ?thesis using inv c 1 by (auto simp: kinv_def)
    next
      case 2
      let ?k = "move_task c Ready Q_ready k"
      have "set_task_ready c k = Inr ?k"
        unfolding set_task_ready_def using l c 2 link_okD [OF l c(2)]
        by (intro set_task_state_move) (auto simp: is_current_def)
      then have "elect k = switch_to t ?k" using Some x c tc 2 by (simp add: elect_def)
      moreover have l': "links_ok ?k" using l c 2 by (intro links_ok_move' [where x = y]) simp_all
      moreover have "tasks ?k t = Some x" using x tc by simp
      ultimately have e: "elect k = Inr (run_task t ?k)" using x by (simp add: switch_to_run)
      have "links_ok (run_task t ?k)"
        by (rule links_ok_run [OF l', of t x c "y\<lparr>t_state := Ready\<rparr>"]) (use x c tc in simp_all)
      moreover have "queues_sorted (run_task t ?k)"
        using inv by (simp add: kinv0_def kinv1_def queues_sorted_def sorted_q_unlink sorted_q_move)
      moreover have "parents_ok (run_task t ?k)" using inv by (simp only: kinv0_def kinv1_def parents_ok_move parents_ok_run)
      moreover have "running_ok (run_task t ?k)" using x tc by (simp add: running_ok_def)
      moreover have "idle_ok (run_task t ?k)" 
        using inv by (intro idle_ok_run idle_ok_move) (auto simp: kinv0_def kinv1_def)
      moreover have "pids_ok ?k" using inv c 2 by (intro pids_ok_move) (auto simp: kinv0_def kinv1_def)
      then have "pids_ok (run_task t ?k)" by (rule pids_ok_run [where x = x]) (use x tc in simp_all)
      moreover have "mqs_ok (run_task t ?k)" using inv by (simp add: kinv0_def kinv1_def mqs_ok_def)
      ultimately have "kinv (run_task t ?k)" using x tc by (simp add: kinv_def kinv0_def kinv1_def not_late_run)
      moreover have "highest_runs (run_task t ?k)"
        using hi 2 x c l by (auto simp: highest_runs_def set_qlist_q_unlink set_qlist_q_move prio_of_def)
      ultimately show ?thesis using e by blast
    next
      case 3
      then have "elect k = Inr (run_task t k)" using Some x c tc l by (simp add: elect_def switch_to_run)
      moreover have "kinv (run_task t k)" by (rule kinv_run [OF inv x(1,2) c(1,2) 3])
      moreover have "highest_runs (run_task t k)"
        using hi l by (auto simp: highest_runs_def set_qlist_q_unlink)
      ultimately show ?thesis by blast
    qed
  qed
qed

section \<open>Freeing and reaping\<close>

lemma free_pages_at_error: "free_pages_at p n m = Inl e \<Longrightarrow> e = Out_Of_Bounds"
  by (auto simp: free_pages_at_def bindE_Inl_iff dest: free_physical_page_error)

lemma foldE_error: "foldE f xs s = Inl e \<Longrightarrow> (\<And>x s. f x s = Inl e \<Longrightarrow> P) \<Longrightarrow> P"
  by (induction xs arbitrary: s) (auto simp: bindE_Inl_iff)

lemma page_directory_destroy_error: "page_directory_destroy d m = Inl e \<Longrightarrow> e = Out_Of_Bounds"
  unfolding page_directory_destroy_def bindE_Inl_iff Let_def
  by (elim disjE exE conjE)
    (erule foldE_error, simp split: if_split_asm add: free_pages_at_error, rule free_pages_at_error)

lemma free_task_memory_error: "free_task_memory x m = Inl e \<Longrightarrow> e = Out_Of_Bounds"
  by (auto simp: free_task_memory_def bindE_Inl_iff dest: free_pages_at_error page_directory_destroy_error)

lemma unlink_sibling_Inr:
  assumes "unlink_sibling t k = Inr k'" and "q_ok (kids k)"
  shows "\<exists>s. k' = k\<lparr>kids := s\<rparr> \<and> q_ok s"
  using assms
  by (auto simp: unlink_sibling_def bind_rules q_ok_unlink split: option.splits if_splits intro: exI [of _ "kids k"])

lemma unlink_sibling_Inl: "unlink_sibling t k = Inl e \<Longrightarrow> e = Use_After_Free"
  by (auto simp: unlink_sibling_def bindE_Inl_iff q_del_def split: option.splits if_splits)

lemma free_task_Inr:
  assumes "free_task t k = Inr k'" and "q_ok (sq k)" and "q_ok (kids k)"
  shows "\<exists>s m. k' = k\<lparr>sq := q_unlink t (sq k), kids := s, pm := m, tasks := (tasks k)(t := None)\<rparr> \<and> q_ok s"
proof -
  obtain x k1 k2 m where 1: "tasks k t = Some x"
      "(if qlink (sq k) t \<noteq> None then dequeue t k else Inr k) = Inr k1"
      "unlink_sibling t k1 = Inr k2" "k' = k2\<lparr>pm := m, tasks := (tasks k2)(t := None)\<rparr>"
    using assms(1) by (auto simp: free_task_def bind_rules)
  have "k1 = k\<lparr>sq := q_unlink t (sq k)\<rparr>"
  proof (cases "qlink (sq k) t")
    case None
    then have "q_unlink t (sq k) = sq k"
      using assms(2) by (intro qsys.equality) (auto simp: q_unlink_def fun_eq_iff remove1_idem q_unlinked_notin)
    then show ?thesis using None 1(2) by simp
  next
    case (Some h)
    then show ?thesis using 1(2) assms(2) by (simp add: dequeue_ok)
  qed
  moreover from this obtain s where "k2 = k\<lparr>sq := q_unlink t (sq k), kids := s\<rparr>" "q_ok s"
    using unlink_sibling_Inr [OF 1(3)] assms(3) by auto
  ultimately show ?thesis using 1(4) by auto
qed

lemma free_task_Inl:
  assumes "free_task t k = Inl e" and "q_ok (sq k)"
  shows "e = Use_After_Free \<or> e = Out_Of_Bounds"
  using assms
  by (auto simp: free_task_def bindE_Inl_iff get_task_Inl dequeue_ok bind_rules
      dest!: unlink_sibling_Inl free_task_memory_error split: if_splits)

lemma links_ok_free:
  assumes l: "links_ok k" and "q_ok s" and "running_task k \<noteq> Some t" and "tasks k t = Some x" "t_state x = Zombie"
  shows "links_ok (k\<lparr>sq := q_unlink t (sq k), kids := s, pm := m, tasks := (tasks k)(t := None)\<rparr>)"
  unfolding links_ok_def
proof (intro conjI allI)
  show "link_ok (k\<lparr>sq := q_unlink t (sq k), kids := s, pm := m, tasks := (tasks k)(t := None)\<rparr>) u" for u
    using links_okD [OF l, of u] assms(4,5) by (cases "u = t") (auto simp: link_ok_def split: option.splits)
qed (use assms in simp_all)

lemma kinv0_free:
  assumes inv: "kinv0 k" and "q_ok s" and c: "running_task k \<noteq> Some t" and i: "idle_task k \<noteq> Some t"
    and z: "tasks k t = Some x" "t_state x = Zombie"
  shows "kinv0 (k\<lparr>sq := q_unlink t (sq k), kids := s, pm := m, tasks := (tasks k)(t := None)\<rparr>)" (is "kinv0 ?k")
  unfolding kinv0_def kinv1_def
proof (intro conjI)
  have l: "links_ok k" using inv by (simp add: kinv0_def kinv1_def)
  show "links_ok ?k" using l assms(2) c z by (rule links_ok_free)
  have "sorted (map (prio_of ?k) (qlist (sq ?k) q))" for q
  proof (rule sorted_map_agree)
    show "sorted (map (prio_of k) (qlist (sq ?k) q))"
      using inv by (simp add: kinv0_def kinv1_def queues_sorted_def sorted_q_unlink)
    show "prio_of ?k u = prio_of k u" if "u \<in> set (qlist (sq ?k) q)" for u
      using that l by (auto simp: set_qlist_q_unlink prio_of_def)
  qed
  then show "queues_sorted ?k" unfolding queues_sorted_def by blast
  show "parents_ok ?k" using inv by (auto simp: kinv0_def kinv1_def parents_ok_def)
  show "running_ok ?k" "idle_ok ?k" using inv c i by (auto simp: kinv0_def kinv1_def not_late_def running_ok_def idle_ok_def)
  have "pids_ok k" using inv by (simp add: kinv0_def kinv1_def)
  then show "pids_ok ?k" by (rule pids_ok_cong) (auto split: if_splits)
  show "mqs_ok ?k" using inv by (simp add: kinv0_def kinv1_def mqs_ok_def)
  show "not_late ?k" using inv c by (auto simp: kinv0_def not_late_def)
qed

lemma reap_task_Inr:
  assumes run: "reap_task t k = Inr k'" and inv: "kinv0 k" and t: "t \<in> set (qlist (sq k) Q_zombie)"
  shows "kinv0 k' \<and> set (qlist (sq k) Q_zombie) - {t} \<subseteq> set (qlist (sq k') Q_zombie)"
proof -
  have l: "links_ok k" using inv by (simp add: kinv0_def kinv1_def)
  obtain x where x: "tasks k t = Some x" "t_state x = Zombie"
    using state_of_queue [OF l t] by (auto simp: home_ok_inj)
  then have i: "idle_task k \<noteq> Some t" using inv by (auto simp: kinv0_def kinv1_def idle_ok_def)
  consider "k' = k" | "running_task k \<noteq> Some t" "free_task t k = Inr k'"
    using run by (auto simp: reap_task_def is_current_def bind_rules split: if_splits)
  then show ?thesis
  proof cases
    case 2
    then obtain s m where "k' = k\<lparr>sq := q_unlink t (sq k), kids := s, pm := m, tasks := (tasks k)(t := None)\<rparr>" "q_ok s"
      using free_task_Inr [of t k k'] l by auto
    then show ?thesis using kinv0_free [OF inv _ 2(1) i x] l by (simp add: set_qlist_q_unlink)
  qed (use inv in auto)
qed

lemma reap_task_Inl:
  assumes run: "reap_task t k = Inl e" and inv: "kinv0 k" and t: "t \<in> set (qlist (sq k) Q_zombie)"
  shows "e = Use_After_Free \<or> e = Out_Of_Bounds"
proof -
  have l: "links_ok k" using inv by (simp add: kinv0_def kinv1_def)
  obtain x where x: "tasks k t = Some x" "t_state x = Zombie"
    using state_of_queue [OF l t] by (auto simp: home_ok_inj)
  then have "idle_task k \<noteq> Some t" using inv by (auto simp: kinv0_def kinv1_def idle_ok_def)
  then obtain p where "t_parent x = Some p" using inv x by (auto simp: kinv0_def kinv1_def parents_ok_def)
  then show ?thesis
    using run x l by (auto simp: reap_task_def deref_def is_task_zombie_def bindE_Inl_iff get_task_Inl
        bind_rules split: if_splits dest: free_task_Inl)
qed

lemma fold_reap:
  assumes "kinv0 k" and "distinct ts" and "set ts \<subseteq> set (qlist (sq k) Q_zombie)"
  shows "case foldE reap_task ts k of Inl e \<Rightarrow> e = Use_After_Free \<or> e = Out_Of_Bounds | Inr k' \<Rightarrow> kinv0 k'"
  using assms
proof (induction ts arbitrary: k)
  case (Cons t ts)
  then have t: "t \<in> set (qlist (sq k) Q_zombie)" by simp
  show ?case
  proof (cases "reap_task t k")
    case (Inl e)
    then show ?thesis using reap_task_Inl [OF _ Cons.prems(1) t] by simp
  next
    case (Inr k1)
    then have k1: "kinv0 k1 \<and> set (qlist (sq k) Q_zombie) - {t} \<subseteq> set (qlist (sq k1) Q_zombie)"
      using reap_task_Inr [OF _ Cons.prems(1) t] by simp
    then have "set ts \<subseteq> set (qlist (sq k1) Q_zombie)" using Cons.prems(2,3) by auto
    then show ?thesis using Cons.IH [of k1] Cons.prems(2) k1 Inr by simp
  qed
qed simp

lemma reap_zombies_ok:
  assumes "kinv0 k"
  shows "case reap_zombies k of Inl e \<Rightarrow> e = Use_After_Free \<or> e = Out_Of_Bounds | Inr k' \<Rightarrow> kinv0 k'"
  unfolding reap_zombies_def using assms by (intro fold_reap) (auto simp: kinv0_def kinv1_def q_ok_distinct)

section \<open>Schedule\<close>

text \<open>
  \<open>schedule\<close> from any state in which a task may call it: it neither panics nor follows a null
  pointer, and when it returns a task of the highest priority is running.
\<close>

lemma schedule_cases:
  assumes "kinv0 k"
  shows "case schedule k of
      Inl e \<Rightarrow> e = Use_After_Free \<or> e = Out_Of_Bounds
    | Inr k' \<Rightarrow> kinv k' \<and> highest_runs k'"
proof -
  obtain k1 where k1: "try_wakeup_tasks k = Inr k1" "kinv0 k1" using try_wakeup_ok [OF assms] by blast
  show ?thesis
  proof (cases "reap_zombies k1")
    case (Inl e)
    then show ?thesis using k1 reap_zombies_ok [OF k1(2)] by (simp add: schedule_def)
  next
    case (Inr k2)
    then have "kinv0 k2" using reap_zombies_ok [OF k1(2)] by simp
    then obtain k3 where "elect k2 = Inr k3" "kinv k3" "highest_runs k3" using elect_ok by blast
    then show ?thesis using k1 Inr by (simp add: schedule_def)
  qed
qed

lemma schedule_Inr: "schedule k = Inr k' \<Longrightarrow> kinv0 k \<Longrightarrow> kinv k' \<and> highest_runs k'"
  using schedule_cases [of k] by simp

lemma schedule_Inl: "schedule k = Inl e \<Longrightarrow> kinv0 k \<Longrightarrow> e = Use_After_Free \<or> e = Out_Of_Bounds"
  using schedule_cases [of k] by simp

end
