(* ===== verification/Msg.thy ===== *)
theory Msg
  imports Task
begin

text \<open>
  \<open>kernel/msg.c\<close>: the message queues. \<open>mqueues k i\<close> is the slot \<open>i\<close> of the array (\<open>None\<close> for
  \<open>__MQUEUE_UNUSED\<close>); the code indexes the array with the number the caller gave and does not check
  it, so an index out of range is \<open>Inl Out_Of_Bounds\<close>, and a field read through an unused slot is
  \<open>Inl Null_Deref\<close>. \<open>psend\<close> and \<open>preceive\<close> block by calling \<open>schedule\<close> inside their loops: what
  remains of them is kept in the task's \<open>t_kont\<close> and is run by the \<open>\<dots>_loop\<close> functions. \<open>mem_alloc\<close>
  returns null when \<open>heap_full\<close> holds; its result is not tested here.
\<close>

definition nbqueue :: int where "nbqueue = 20"

definition slot_ok :: "int \<Rightarrow> bool" where
  "slot_ok mqid \<longleftrightarrow> 0 \<le> mqid \<and> mqid < nbqueue"

definition get_slot :: "int \<Rightarrow> kst \<Rightarrow> mqueue option res" where
  "get_slot mqid k = (if slot_ok mqid then Inr (mqueues k (nat mqid)) else Inl Out_Of_Bounds)"

definition get_mqueue :: "int \<Rightarrow> kst \<Rightarrow> mqueue res" where
  "get_mqueue mqid k =
     bindE (get_slot mqid k) (\<lambda>s. case s of None \<Rightarrow> Inl Null_Deref | Some q \<Rightarrow> Inr q)"

definition put_mqueue :: "int \<Rightarrow> mqueue option \<Rightarrow> kst \<Rightarrow> kst" where
  "put_mqueue mqid q k = k\<lparr>mqueues := (mqueues k)(nat mqid := q)\<rparr>"

definition mqueue_unused :: "int \<Rightarrow> kst \<Rightarrow> bool res" where
  "mqueue_unused mqid k = bindE (get_slot mqid k) (\<lambda>s. Inr (s = None))"

definition mqueue_empty :: "int \<Rightarrow> kst \<Rightarrow> bool res" where
  "mqueue_empty mqid k = bindE (get_mqueue mqid k) (\<lambda>q. Inr (mq_count q = 0))"

definition mqueue_full :: "int \<Rightarrow> kst \<Rightarrow> bool res" where
  "mqueue_full mqid k = bindE (get_mqueue mqid k) (\<lambda>q. Inr (mq_count q = mq_size q))"

definition senders :: "int \<Rightarrow> qid" where "senders mqid = Q_senders (nat mqid)"
definition receivers :: "int \<Rightarrow> qid" where "receivers mqid = Q_receivers (nat mqid)"

text \<open>\<open>queue_out\<close> on one of the two waiting lists.\<close>

definition take_waiter :: "qid \<Rightarrow> kst \<Rightarrow> tid option \<times> kst" where
  "take_waiter q k = (case q_out q (sq k) of (t, s) \<Rightarrow> (t, k\<lparr>sq := s\<rparr>))"

definition first_available_queue :: "kst \<Rightarrow> int" where
  "first_available_queue k =
     (case find (\<lambda>i. mqueues k i = None) [0..<20] of None \<Rightarrow> - 1 | Some i \<Rightarrow> int i)"

text \<open>\<open>INIT_LIST_HEAD\<close> of the two lists of a new queue.\<close>

definition init_waiting :: "int \<Rightarrow> kst \<Rightarrow> kst" where
  "init_waiting mqid k =
     k\<lparr>sq := (sq k)\<lparr>qlist := (qlist (sq k))(senders mqid := [], receivers mqid := [])\<rparr>\<rparr>"

definition alloc_mqueue :: "int \<Rightarrow> u32 \<Rightarrow> kst \<Rightarrow> kst res" where
  "alloc_mqueue mqid count k =
     (if heap_full k then Inl Null_Deref
      else Inr (put_mqueue mqid (Some \<lparr>mq_msgs = [], mq_size = count, mq_count = 0\<rparr>) (init_waiting mqid k)))"

text \<open>
  \<open>free_mqueue\<close>. Its loop over the messages only gives memory back (and keeps the last message
  when it is alone); no field of the kernel state but the slot changes.
\<close>

definition free_mqueue :: "int \<Rightarrow> kst \<Rightarrow> kst res" where
  "free_mqueue mqid k = bindE (get_mqueue mqid k) (\<lambda>_. Inr (put_mqueue mqid None k))"

definition pcreate :: "int \<Rightarrow> kst \<Rightarrow> (int \<times> kst) res" where
  "pcreate count k =
     (if count > 32767 then Inr (- 3, k)
      else if count \<le> 0 then Inr (- 2, k)
      else let mqid = first_available_queue k in
        if mqid = - 1 then Inr (- 1, k)
        else bindE (alloc_mqueue mqid (word_of_int count) k) (\<lambda>k1. Inr (mqid, k1)))"

definition add_msg :: "int \<Rightarrow> int \<Rightarrow> kst \<Rightarrow> kst res" where
  "add_msg mqid msg k =
     bindE (get_mqueue mqid k) (\<lambda>q.
       if heap_full k then Inl Null_Deref
       else Inr (put_mqueue mqid (Some (q\<lparr>mq_msgs := (if mq_count q = 0 then [msg] else mq_msgs q @ [msg]),
                                        mq_count := mq_count q + 1\<rparr>)) k))"

definition pop_msg :: "int \<Rightarrow> kst \<Rightarrow> (int \<times> kst) res" where
  "pop_msg mqid k =
     bindE (get_mqueue mqid k) (\<lambda>q.
       case mq_msgs q of
         [] \<Rightarrow> Inl Null_Deref
       | m # ms \<Rightarrow> Inr (m, put_mqueue mqid (Some (q\<lparr>mq_count := mq_count q - 1, mq_msgs := ms\<rparr>)) k))"

definition current_task :: "kst \<Rightarrow> (tid \<times> task) res" where
  "current_task k = bindE (current k) (\<lambda>c. bindE (get_task c k) (\<lambda>x. Inr (c, x)))"

definition set_msg_val :: "tid \<Rightarrow> int \<Rightarrow> kst \<Rightarrow> kst res" where
  "set_msg_val t v = upd_task t (\<lambda>x. x\<lparr>t_msg_val := v\<rparr>)"

section \<open>psend\<close>

text \<open>The last two statements: \<open>__add_msg(id, msg); return 0;\<close>\<close>

definition psend_add :: "int \<Rightarrow> int \<Rightarrow> kst \<Rightarrow> kst res" where
  "psend_add mqid msg k = bindE (add_msg mqid msg k) (return_user 0 None)"

definition psend_rest :: "int \<Rightarrow> int \<Rightarrow> int \<Rightarrow> kst \<Rightarrow> kst res" where
  "psend_rest mqid msg rst k =
     bindE (mqueue_unused mqid k) (\<lambda>unused.
       if unused \<or> rst < cpt_rst k then return_user (- 1) None k
       else bindE (current_task k) (\<lambda>(c, x).
         if t_msg_val x = - 1 then return_user 0 None k
         else case take_waiter (receivers mqid) k of
             (None, k1) \<Rightarrow> psend_add mqid msg k1
           | (Some waiter, k1) \<Rightarrow> set_task_ready_or_running waiter (K_psend_add mqid msg) k1))"

definition psend_loop :: "int \<Rightarrow> int \<Rightarrow> int \<Rightarrow> kst \<Rightarrow> kst res" where
  "psend_loop mqid msg rst k =
     bindE (mqueue_full mqid k) (\<lambda>full.
     bindE (current_task k) (\<lambda>(c, x).
       if full \<and> t_msg_val x \<noteq> - 1
       then bindE (enqueue c (senders mqid) k) (set_task_interrupted_msg c (K_psend mqid msg rst))
       else psend_rest mqid msg rst k))"

definition psend :: "int \<Rightarrow> int \<Rightarrow> kst \<Rightarrow> kst res" where
  "psend mqid msg k =
     bindE (mqueue_unused mqid k) (\<lambda>unused.
       if unused then return_user (- 1) None k
       else case take_waiter (receivers mqid) k of
           (Some waiter, k1) \<Rightarrow>
             bindE (set_msg_val waiter msg k1) (set_task_ready_or_running waiter (K_ret 0))
         | (None, _) \<Rightarrow>
             bindE (current k) (\<lambda>c.
             bindE (set_msg_val c msg k) (psend_loop mqid msg (cpt_rst k))))"

section \<open>preceive\<close>

text \<open>\<open>want\<close> says that the pointer \<open>message\<close> is not null.\<close>

definition preceive_out :: "int \<Rightarrow> bool \<Rightarrow> kst \<Rightarrow> kst res" where
  "preceive_out msg want = return_user 0 (if want then Some msg else None)"

definition preceive_from :: "int \<Rightarrow> tid \<Rightarrow> kst \<Rightarrow> (int \<times> kst) res" where
  "preceive_from mqid waiter k =
     bindE (mqueue_full mqid k) (\<lambda>full.
     bindE (get_task waiter k) (\<lambda>x.
     bindE (mqueue_empty mqid k) (\<lambda>empty.
       if full \<and> t_msg_val x \<noteq> - 1 then
         bindE (pop_msg mqid k) (\<lambda>(msg, k1).
         bindE (add_msg mqid (t_msg_val x) k1) (\<lambda>k2.
         bindE (set_msg_val waiter (- 1) k2) (\<lambda>k3. Inr (msg, k3))))
       else if empty then
         bindE (set_msg_val waiter (- 1) k) (\<lambda>k1. Inr (t_msg_val x, k1))
       else pop_msg mqid k)))"

definition preceive_rest :: "int \<Rightarrow> int \<Rightarrow> bool \<Rightarrow> kst \<Rightarrow> kst res" where
  "preceive_rest mqid rst want k =
     bindE (mqueue_unused mqid k) (\<lambda>unused.
       if unused \<or> rst < cpt_rst k then return_user (- 1) None k
       else bindE (current_task k) (\<lambda>(c, x).
         if t_msg_val x \<noteq> - 1
         then bindE (set_msg_val c (- 1) k) (preceive_out (t_msg_val x) want)
         else case take_waiter (senders mqid) k of
             (None, k1) \<Rightarrow> bindE (pop_msg mqid k1) (\<lambda>(msg, k2). preceive_out msg want k2)
           | (Some waiter, k1) \<Rightarrow>
               bindE (preceive_from mqid waiter k1) (\<lambda>(msg, k2).
                 set_task_ready_or_running waiter (K_preceive_out msg want) k2)))"

definition preceive_loop :: "int \<Rightarrow> int \<Rightarrow> bool \<Rightarrow> kst \<Rightarrow> kst res" where
  "preceive_loop mqid rst want k =
     bindE (mqueue_empty mqid k) (\<lambda>empty.
     bindE (current_task k) (\<lambda>(c, x).
       if empty \<and> t_msg_val x = - 1
       then bindE (enqueue c (receivers mqid) k) (set_task_interrupted_msg c (K_preceive mqid rst want))
       else preceive_rest mqid rst want k))"

definition preceive :: "int \<Rightarrow> bool \<Rightarrow> kst \<Rightarrow> kst res" where
  "preceive mqid want k =
     bindE (mqueue_unused mqid k) (\<lambda>unused.
       if unused then return_user (- 1) None k
       else bindE (current k) (\<lambda>c.
            bindE (set_msg_val c (- 1) k) (preceive_loop mqid (cpt_rst k) want)))"

section \<open>pdelete, preset, pcount\<close>

text \<open>The two loops of \<open>pdelete\<close>: every waiter is taken out and made ready, the first in priority first.\<close>

definition wake_waiters :: "qid \<Rightarrow> kst \<Rightarrow> kst res" where
  "wake_waiters q k =
     foldE (\<lambda>_ k. case take_waiter q k of (None, k1) \<Rightarrow> Inr k1 | (Some t, k1) \<Rightarrow> set_task_ready t k1)
       (qlist (sq k) q) k"

definition pdelete_used :: "int \<Rightarrow> kst \<Rightarrow> kst res" where
  "pdelete_used mqid k =
     bindE (wake_waiters (senders mqid) (k\<lparr>cpt_rst := cpt_rst k + 1\<rparr>)) (\<lambda>k1.
     bindE (wake_waiters (receivers mqid) k1) (free_mqueue mqid))"

definition pdelete :: "int \<Rightarrow> kst \<Rightarrow> (int \<times> kst) res" where
  "pdelete mqid k =
     bindE (mqueue_unused mqid k) (\<lambda>unused.
       if unused then Inr (- 1, k) else bindE (pdelete_used mqid k) (\<lambda>k1. Inr (0, k1)))"

definition preset :: "int \<Rightarrow> kst \<Rightarrow> (int \<times> kst) res" where
  "preset mqid k =
     bindE (mqueue_unused mqid k) (\<lambda>unused.
       if unused then Inr (- 1, k)
       else bindE (get_mqueue mqid k) (\<lambda>q.
            bindE (pdelete mqid (k\<lparr>cpt_rst := cpt_rst k + 1\<rparr>)) (\<lambda>(_, k1).
            bindE (alloc_mqueue mqid (mq_count q) k1) (\<lambda>k2. Inr (0, k2)))))"

text \<open>The result and what is stored through \<open>count\<close>.\<close>

definition pcount :: "int \<Rightarrow> bool \<Rightarrow> kst \<Rightarrow> (int \<times> int option) res" where
  "pcount mqid want k =
     bindE (mqueue_unused mqid k) (\<lambda>unused.
       if unused then Inr (- 1, None)
       else if \<not> want then Inr (0, None)
       else bindE (get_mqueue mqid k) (\<lambda>q.
         if mq_count q = 0 then Inr (0, Some (- 1 * int (length (qlist (sq k) (receivers mqid)))))
         else Inr (0, Some (int (length (qlist (sq k) (senders mqid))) + uint (mq_count q)))))"

text \<open>\<open>queue_del\<close> and \<open>queue_add\<close> of \<open>msg_reinsert\<close>; the list the task is in is searched by its pid.\<close>

definition msg_reinsert :: "tid \<Rightarrow> kst \<Rightarrow> kst res" where
  "msg_reinsert t k =
     bindE (get_task t k) (\<lambda>x.
     bindE (dequeue t k) (\<lambda>k1.
       case queue_from_msg (t_pid x) k of
         None \<Rightarrow> Inl Null_Deref
       | Some q \<Rightarrow> enqueue t q k1))"

end
