(* ===== verification/Process.thy ===== *)
theory Process
  imports Msg
begin

text \<open>
  \<open>kernel/exit.c\<close>, \<open>kernel/kill.c\<close>, \<open>kernel/wait.c\<close>, \<open>kernel/prio.c\<close> and \<open>kernel/pid.c\<close>: the calls that
  end, await and reprioritise processes. A call that calls \<open>schedule\<close> before its end leaves the
  rest of itself in \<open>t_kont\<close>, and the \<open>wait\<close> loops are functions a machine step resumes.
\<close>

section \<open>exit and kill\<close>

definition unlock_interrupted_child_parent :: "tid option \<Rightarrow> kst \<Rightarrow> kst res" where
  "unlock_interrupted_child_parent parent k =
     bindE (deref parent) (\<lambda>p. bindE (get_task p k) (\<lambda>x.
       if t_state x = Int_Child then set_task_ready p k else Inr k))"

text \<open>\<open>UINT32_MAX - current_clock()\<close>, stored in an \<open>int\<close>.\<close>

definition death_priority :: "u32 \<Rightarrow> int" where
  "death_priority now = sint (0xFFFFFFFF - now)"

definition bury_task :: "tid \<Rightarrow> int \<Rightarrow> task \<Rightarrow> kst \<Rightarrow> kst res" where
  "bury_task t retval x k =
     bindE (upd_task t (\<lambda>x. x\<lparr>t_priority := death_priority (total_ticks k)\<rparr>) k) (\<lambda>k1.
     bindE (if queue_from_msg (t_pid x) k1 \<noteq> None then dequeue t k1 else Inr k1) (\<lambda>k2.
     bindE (remove_from_global_list t k2) (\<lambda>k3.
     bindE (free_pid (t_pid x) (kpids k3)) (\<lambda>m.
     bindE (upd_task t (\<lambda>x. x\<lparr>t_retval := retval\<rparr>) (k3\<lparr>kpids := m\<rparr>)) (\<lambda>k4.
     bindE (set_task_zombie t k4) (unlock_interrupted_child_parent (t_parent x)))))))"

definition exit_task :: "tid option \<Rightarrow> int \<Rightarrow> kst \<Rightarrow> (int \<times> kst) res" where
  "exit_task task_ptr retval k =
     (case task_ptr of
        None \<Rightarrow> Inr (- esrch, k)
      | Some t \<Rightarrow>
          if is_idle (Some t) k then Inr (- einval, k)
          else bindE (get_task t k) (\<lambda>x.
            if t_state x = Zombie then Inr (- esrch, k)
            else bindE (bury_task t retval x k) (\<lambda>k1. Inr (0, k1))))"

definition exit_current :: "int \<Rightarrow> kst \<Rightarrow> kst res" where
  "exit_current retval k =
     bindE (exit_task (running_task k) retval k) (\<lambda>(_, k1). schedule_then K_exit k1)"

definition kill :: "int \<Rightarrow> kst \<Rightarrow> kst res" where
  "kill pid k =
     bindE (pid_to_task pid k) (\<lambda>p. case p of
       None \<Rightarrow> return_user (- esrch) None k
     | Some t \<Rightarrow>
         if is_idle (Some t) k then return_user (- einval) None k
         else bindE (exit_task (Some t) 0 k) (\<lambda>(ret, k1).
           if is_current t k1 then schedule_then (K_ret ret) k1 else return_user ret None k1))"

text \<open>\<open>page_fault_handler\<close> reports the fault and ends the process.\<close>

definition page_fault_handler :: "kst \<Rightarrow> kst res" where
  "page_fault_handler k = exit_current 0 k"

section \<open>waitpid\<close>

text \<open>The end of both waits: the return value is read, then the child is freed.\<close>

definition collect_child :: "tid \<Rightarrow> bool \<Rightarrow> kst \<Rightarrow> kst res" where
  "collect_child child want k =
     bindE (get_task child k) (\<lambda>x.
     bindE (free_task child k) (return_user (t_pid x) (if want then Some (t_retval x) else None)))"

definition wait_any_child :: "bool \<Rightarrow> kst \<Rightarrow> kst res" where
  "wait_any_child want k =
     bindE (current k) (\<lambda>c.
       if qlist (kids k) c = [] then return_user (- echild) None k
       else case find (\<lambda>t. map_option t_state (tasks k t) = Some Zombie) (qlist (kids k) c) of
           Some child \<Rightarrow> collect_child child want k
         | None \<Rightarrow> bindE (set_task_interrupted_child c k) (schedule_then (K_wait_any want)))"

definition wait_for_child :: "tid \<Rightarrow> bool \<Rightarrow> kst \<Rightarrow> kst res" where
  "wait_for_child child want k =
     bindE (is_task_zombie child k) (\<lambda>z.
       if z then collect_child child want k
       else bindE (current k) (\<lambda>c.
            bindE (set_task_interrupted_child c k) (schedule_then (K_wait_child child want))))"

definition wait_specific_child :: "int \<Rightarrow> bool \<Rightarrow> kst \<Rightarrow> kst res" where
  "wait_specific_child pid want k =
     bindE (pid_to_task pid k) (\<lambda>p.
       if is_idle p k then return_user (- einval) None k
       else bindE (current k) (\<lambda>c.
         case find (\<lambda>t. pid_of k t = pid) (qlist (kids k) c) of
           None \<Rightarrow> return_user (- echild) None k
         | Some child \<Rightarrow> wait_for_child child want k))"

definition waitpid :: "int \<Rightarrow> u32 \<Rightarrow> kst \<Rightarrow> kst res" where
  "waitpid pid retvalp k =
     bindE (current_task k) (\<lambda>(c, x).
       if retvalp \<noteq> 0 \<and> \<not> is_user_addr (t_cr3 x) retvalp (pm k) then return_user (- 1) None k
       else if pid \<le> 0 then wait_any_child (retvalp \<noteq> 0) k
       else wait_specific_child pid (retvalp \<noteq> 0) k)"

section \<open>Priorities\<close>

definition getprio :: "int \<Rightarrow> kst \<Rightarrow> int res" where
  "getprio pid k =
     bindE (pid_to_task pid k) (\<lambda>p. case p of
       None \<Rightarrow> Inr (- esrch)
     | Some t \<Rightarrow> bindE (get_task t k) (\<lambda>x. Inr (t_priority x)))"

definition update_queue_priority :: "tid \<Rightarrow> kst \<Rightarrow> kst res" where
  "update_queue_priority t k =
     bindE (get_task t k) (\<lambda>x.
       case queue_from_state (t_state x) (t_pid x) k of
         None \<Rightarrow> Inr k
       | Some q \<Rightarrow> bindE (dequeue t k) (enqueue t q))"

text \<open>The second test of \<open>chprio\<close>, on the top of the ready queue.\<close>

definition chprio_rest :: "tid \<Rightarrow> int \<Rightarrow> int \<Rightarrow> kst \<Rightarrow> kst res" where
  "chprio_rest t prio old k =
     (if is_current t k
      then bindE (deref (q_top Q_ready (sq k))) (\<lambda>h. bindE (get_task h k) (\<lambda>xh.
             if t_priority xh > prio then schedule_then (K_ret old) k else return_user old None k))
      else return_user old None k)"

definition chprio_set :: "tid \<Rightarrow> int \<Rightarrow> task \<Rightarrow> kst \<Rightarrow> kst res" where
  "chprio_set t prio x k =
     bindE (upd_task t (\<lambda>x. x\<lparr>t_priority := prio\<rparr>) k) (\<lambda>k1.
     bindE (update_queue_priority t k1) (\<lambda>k2.
       if t_state x = Int_Msg then bindE (msg_reinsert t k2) (return_user (t_priority x) None)
       else bindE (current_task k2) (\<lambda>(c, xc).
         if \<not> is_current t k2 \<and> t_state x = Ready \<and> prio > t_priority xc
         then schedule_then (K_chprio t prio (t_priority x)) k2
         else chprio_rest t prio (t_priority x) k2)))"

definition chprio :: "int \<Rightarrow> int \<Rightarrow> kst \<Rightarrow> kst res" where
  "chprio pid prio k =
     bindE (pid_to_task pid k) (\<lambda>p. case p of
       None \<Rightarrow> return_user (- esrch) None k
     | Some t \<Rightarrow>
         if is_idle (Some t) k then return_user (- einval) None k
         else bindE (get_task t k) (\<lambda>x.
           if t_state x = Zombie then return_user (- esrch) None k
           else if prio > max_prio \<or> prio < min_prio then return_user (- einval) None k
           else chprio_set t prio x k))"

end
