(* ===== verification/StartTask.thy ===== *)
theory StartTask
  imports Process
begin

text \<open>
  \<open>kernel/start.c\<close>: the creation of a process. Parameters stand for what is outside: \<open>app_of\<close> is the
  table of applications (\<open>get_uapp_by_name\<close>), \<open>pgdir\<close> the address of the early page directory, and
  \<open>t\<close> and \<open>kstack\<close> the blocks \<open>mem_alloc\<close> returns for the task and its kernel stack (null for the
  task when \<open>heap_full\<close>). \<open>ERR_PTR\<close> results are \<open>Inl\<close> of the error code. Copies of bytes between
  words are \<open>copy_mem\<close>.
\<close>

record uapp =
  app_start :: u32
  app_end :: u32

definition user_start :: u32 where "user_start = 0x40000000"
definition user_stack_end :: u32 where "user_stack_end = 0xFFF00000"
definition ustack_sz_max :: u32 where "ustack_sz_max = 8192"
definition kstack_sz :: u32 where "kstack_sz = 1024"
definition extra_stack_space :: u32 where "extra_stack_space = 8"

section \<open>Bytes of memory\<close>

definition load8 :: "u32 \<Rightarrow> pmem \<Rightarrow> u8" where
  "load8 a m = ucast (drop_bit (8 * unat (a AND 3)) (ram m (a AND NOT 3)))"

text \<open>\<open>memcpy(dst, src, n)\<close>: every word is rebuilt from its four bytes.\<close>

definition copied_byte :: "u32 \<Rightarrow> u32 \<Rightarrow> u32 \<Rightarrow> pmem \<Rightarrow> u32 \<Rightarrow> u32" where
  "copied_byte dst src n m a = ucast (if a - dst < n then load8 (src + (a - dst)) m else load8 a m)"

definition copy_mem :: "u32 \<Rightarrow> u32 \<Rightarrow> u32 \<Rightarrow> pmem \<Rightarrow> pmem" where
  "copy_mem dst src n m =
     m\<lparr>ram := (\<lambda>w. copied_byte dst src n m w OR push_bit 8 (copied_byte dst src n m (w + 1)) OR
                   push_bit 16 (copied_byte dst src n m (w + 2)) OR push_bit 24 (copied_byte dst src n m (w + 3)))\<rparr>"

section \<open>start_task\<close>

definition empty_task :: task where
  "empty_task = \<lparr>t_pid = 0, t_comm = replicate 16 0, t_state = Startup, t_esp = 0, t_cr3 = 0, t_esp0 = 0,
     t_parent = None, t_priority = 0, t_wake_time = 0, t_retval = 0, t_msg_val = 0, t_code_pages = 0,
     t_nb_code_pages = 0, t_stack_pages = 0, t_nb_stack_pages = 0, t_first_start = False,
     t_kont = K_user, t_ret = 0, t_out = None\<rparr>"

text \<open>\<open>alloc_empty_task\<close>: zeroed memory, a null link and an empty list of children.\<close>

definition alloc_empty_task :: "tid \<Rightarrow> kst \<Rightarrow> kst option" where
  "alloc_empty_task t k =
     (if heap_full k then None
      else Some (k\<lparr>tasks := (tasks k)(t := Some empty_task),
                   kids := (kids k)\<lparr>qlist := (qlist (kids k))(t := []), qlink := (qlink (kids k))(t := None)\<rparr>\<rparr>))"

text \<open>\<open>strncpy(comm, name, COMM_LEN)\<close>: at most 16 characters, zeros after the end of the name.\<close>

definition set_task_name :: "u8 list \<Rightarrow> task \<Rightarrow> task" where
  "set_task_name name x = x\<lparr>t_comm := take 16 (name @ replicate 16 0)\<rparr>"

definition code_size :: "uapp \<Rightarrow> u32" where
  "code_size app = app_end app - app_start app + 1"

definition nb_code_pages :: "uapp \<Rightarrow> int" where
  "nb_code_pages app = sint (code_size app) div 4096 + 1"

definition real_size :: "u32 \<Rightarrow> u32" where
  "real_size ssize = ssize * 4 + extra_stack_space"

definition nb_stack_pages :: "u32 \<Rightarrow> int" where
  "nb_stack_pages ssize = sint (real_size ssize) div 4096 + 1"

definition load_code :: "uapp \<Rightarrow> u32 \<Rightarrow> pmem \<Rightarrow> (u32 \<times> pmem) res" where
  "load_code app cr3 m =
     bindE (alloc_pages (nb_code_pages app) m) (\<lambda>(code, m1).
     bindE (map_zone cr3 (ucast user_start) (ucast (user_start + code_size app))
              (ucast code) (ucast (code + code_size app)) (pg_rw OR pg_us)
              (copy_mem code (app_start app) (code_size app) m1)) (\<lambda>m2.
       Inr (code, m2)))"

text \<open>
  The stack: the zone is mapped, then the start of the stack in the block is moved up by what the
  last page does not use, and the three words the process starts with are written.
\<close>

definition stack_start :: "u32 \<Rightarrow> u32 \<Rightarrow> u32" where
  "stack_start stack ssize =
     (if stack AND 0xFFFFF000 \<noteq> 0 then stack + (page_size - real_size ssize mod page_size) else stack)"

definition build_stack :: "u32 \<Rightarrow> u32 \<Rightarrow> u32 \<Rightarrow> pmem \<Rightarrow> pmem" where
  "build_stack stack ssize arg m =
     (let n = real_size ssize div 4; s = stack_start stack ssize
      in set_entry s (n - 3) user_start (set_entry s (n - 2) 0 (set_entry s (n - 1) arg m)))"

definition load_stack :: "u32 \<Rightarrow> u32 \<Rightarrow> u32 \<Rightarrow> pmem \<Rightarrow> (u32 \<times> pmem) res" where
  "load_stack ssize arg cr3 m =
     bindE (alloc_pages (nb_stack_pages ssize) m) (\<lambda>(stack, m1).
     bindE (map_zone cr3 (ucast (user_stack_end - real_size ssize + 1)) (ucast user_stack_end)
              (ucast stack) (ucast (stack + real_size ssize - 1)) (pg_rw OR pg_us) m1) (\<lambda>m2.
       Inr (stack, build_stack stack ssize arg m2)))"

definition load_task :: "uapp \<Rightarrow> u32 \<Rightarrow> u32 \<Rightarrow> u32 \<Rightarrow> task \<Rightarrow> pmem \<Rightarrow> (task \<times> pmem) res" where
  "load_task app pgdir ssize arg x m =
     bindE (page_directory_create pgdir m) (\<lambda>(cr3, m1).
     bindE (load_code app cr3 m1) (\<lambda>(code, m2).
     bindE (load_stack ssize arg cr3 m2) (\<lambda>(stack, m3).
       Inr (x\<lparr>t_cr3 := cr3, t_code_pages := code, t_nb_code_pages := nb_code_pages app,
              t_stack_pages := stack, t_nb_stack_pages := nb_stack_pages ssize,
              t_esp := user_stack_end + 1 - 12\<rparr>, m3))))"

definition create_task ::
  "uapp \<Rightarrow> u32 \<Rightarrow> u8 list \<Rightarrow> u32 \<Rightarrow> int \<Rightarrow> u32 \<Rightarrow> int \<Rightarrow> tid \<Rightarrow> u32 \<Rightarrow> kst \<Rightarrow> kst res" where
  "create_task app pgdir name ssize prio arg pid t kstack k =
     bindE (upd_task t (\<lambda>x. (set_task_name name x)\<lparr>t_state := Startup, t_pid := pid, t_priority := prio\<rparr>) k) (\<lambda>k1.
     bindE (set_parent_process t (running_task k1) k1) (\<lambda>k2.
     bindE (get_task t k2) (\<lambda>x.
     bindE (load_task app pgdir ssize arg (x\<lparr>t_first_start := True, t_esp0 := kstack + (kstack_sz - 1)\<rparr>) (pm k2))
       (\<lambda>(x', m). Inr (put_task t x' (k2\<lparr>pm := m\<rparr>))))))"

definition start_task ::
  "(u8 list \<Rightarrow> uapp option) \<Rightarrow> u32 \<Rightarrow> u8 list \<Rightarrow> u32 \<Rightarrow> int \<Rightarrow> u32 \<Rightarrow> tid \<Rightarrow> u32 \<Rightarrow> kst \<Rightarrow> ((int + tid) \<times> kst) res" where
  "start_task app_of pgdir name ssize prio arg t kstack k =
     (if ssize > ustack_sz_max then Inr (Inl (- einval), k)
      else case app_of name of
        None \<Rightarrow> Inr (Inl (- einval), k)
      | Some app \<Rightarrow>
          if prio > max_prio \<or> prio < min_prio then Inr (Inl (- einval), k)
          else bindE (alloc_pid (kpids k)) (\<lambda>(pid, m).
            if pid < 0 then Inr (Inl (- eagain), k\<lparr>kpids := m\<rparr>)
            else case alloc_empty_task t (k\<lparr>kpids := m\<rparr>) of
              None \<Rightarrow> Inr (Inl (- eagain), k\<lparr>kpids := m\<rparr>)
            | Some k1 \<Rightarrow>
                bindE (create_task app pgdir name ssize prio arg pid t kstack k1) (\<lambda>k2. Inr (Inr t, k2))))"

section \<open>start and start_idle\<close>

definition start ::
  "(u8 list \<Rightarrow> uapp option) \<Rightarrow> u32 \<Rightarrow> u8 list \<Rightarrow> u32 \<Rightarrow> int \<Rightarrow> u32 \<Rightarrow> tid \<Rightarrow> u32 \<Rightarrow> kst \<Rightarrow> kst res" where
  "start app_of pgdir name ssize prio arg t kstack k =
     bindE (start_task app_of pgdir name ssize prio arg t kstack k) (\<lambda>(r, k1).
       case r of
         Inl err \<Rightarrow> return_user err None k1
       | Inr t \<Rightarrow>
           bindE (set_msg_val t (- 1) k1) (\<lambda>k2.
           bindE (set_task_ready t k2) (\<lambda>k3.
           bindE (add_to_global_list t k3) (\<lambda>k4.
           bindE (current_task k4) (\<lambda>(c, x).
             if prio \<ge> t_priority x then schedule_then (K_start t) k4
             else bindE (set_kont (K_start t) k4) Inr)))))"

text \<open>\<open>return task->pid;\<close>, which reads the new task again.\<close>

definition start_return :: "tid \<Rightarrow> kst \<Rightarrow> kst res" where
  "start_return t k = bindE (get_task t k) (\<lambda>x. return_user (t_pid x) None k)"

definition start_idle :: "(u8 list \<Rightarrow> uapp option) \<Rightarrow> u32 \<Rightarrow> tid \<Rightarrow> u32 \<Rightarrow> kst \<Rightarrow> kst res" where
  "start_idle app_of pgdir t kstack k =
     bindE (start_task app_of pgdir (map (\<lambda>c. of_nat c) [105, 100, 108, 101]) (0x1000 div 4) min_prio 0 t kstack k) (\<lambda>(r, k1).
       case r of
         Inl err \<Rightarrow> Inl Panic
       | Inr t \<Rightarrow>
           bindE (upd_task t (\<lambda>x. x\<lparr>t_first_start := False\<rparr>) k1) (\<lambda>k2.
           bindE (add_to_global_list t k2) (\<lambda>k3.
             set_task_running t (set_idle t k3))))"


end
