(* ===== verification/KernelOps.thy ===== *)
theory KernelOps
  imports KernelInv StartTask
begin

text \<open>
  Every kernel call keeps the invariant \<open>kinv\<close>: sleeping, sending, receiving, deleting and resetting
  message queues, ending, killing and awaiting processes, changing priorities and starting
  processes. The lemmas follow the calls: first the pieces they share (the saved continuation, the
  running task going to a queue, a waiter taken off a message queue and made ready), then each call,
  whatever it returns; \<open>soft_error\<close> are the failures that remain.
\<close>

section \<open>Shared steps\<close>

definition soft_error :: "kerr \<Rightarrow> bool" where
  "soft_error e \<longleftrightarrow> e = Use_After_Free \<or> e = Out_Of_Bounds"

lemma soft_errors [simp]: "soft_error Use_After_Free" "soft_error Out_Of_Bounds" "\<not> soft_error Panic" "\<not> soft_error Null_Deref"
  by (simp_all add: soft_error_def)

lemma kinv_links: "kinv k \<Longrightarrow> links_ok k" "kinv0 k \<Longrightarrow> links_ok k" "kinv1 k \<Longrightarrow> links_ok k"
  by (simp_all add: kinv_def kinv0_def kinv1_def)

lemma kinv_q [simp]: "kinv k \<Longrightarrow> q_ok (sq k)" "kinv k \<Longrightarrow> q_ok (kids k)" "kinv k \<Longrightarrow> q_ok (glob k)"
  by (simp_all add: kinv_links)

lemma kinv_current:
  assumes "kinv k"
  obtains c x where "running_task k = Some c" "tasks k c = Some x" "t_state x = Running" "qlink (sq k) c = None"
proof -
  obtain c x where c: "running_task k = Some c" "tasks k c = Some x" "t_state x = Running"
    using assms by (auto simp: kinv_def)
  then have "qlink (sq k) c = None" using link_okD [OF kinv_links(1) [OF assms]] by fastforce
  then show ?thesis using that c by blast
qed

lemma kinvI: "kinv1 k \<Longrightarrow> running_task k = Some c \<Longrightarrow> tasks k c = Some x \<Longrightarrow> t_state x = Running \<Longrightarrow> kinv k"
  by (auto simp: kinv_def kinv0_def not_late_def)

lemma kinv_kinv1: "kinv k \<Longrightarrow> kinv1 k"
  by (simp add: kinv_def kinv0_def)

lemma kinv0_kont:
  assumes "kinv0 k" and "set_kont r k = Inr k'" shows "kinv0 k'"
proof -
  obtain c x where c: "running_task k = Some c" "tasks k c = Some x" "k' = put_task c (x\<lparr>t_kont := r\<rparr>) k"
    using assms(2) by (auto simp: set_kont_def bind_rules)
  have "kinv1 k'" unfolding c(3) using assms(1) c(2) by (intro kinv1_put [where x = x]) (simp_all add: kinv0_def)
  moreover have "not_late k'" using assms(1) c by (auto simp: kinv0_def not_late_def)
  ultimately show ?thesis by (simp add: kinv0_def)
qed

lemma set_kont_Inl: "kinv0 k \<Longrightarrow> set_kont r k \<noteq> Inl e"
proof -
  assume "kinv0 k"
  then obtain c x where "running_task k = Some c" "tasks k c = Some x"
    by (auto simp: kinv0_def kinv1_def running_ok_def)
  then show ?thesis by (simp add: set_kont_def)
qed

lemma kinv_return:
  assumes "kinv k" shows "\<exists>k'. return_user v out k = Inr k' \<and> kinv k'"
proof -
  obtain c x where c: "running_task k = Some c" "tasks k c = Some x" "t_state x = Running"
    using kinv_current [OF assms] by blast
  then show ?thesis using kinv_put [OF assms c(2)] by (simp add: return_user_def)
qed

text \<open>What a call does: it may fail only softly, and otherwise keeps the invariant.\<close>

definition keeps :: "kst res \<Rightarrow> bool" where
  "keeps r \<longleftrightarrow> (case r of Inl e \<Rightarrow> soft_error e | Inr k' \<Rightarrow> kinv k')"

lemma keeps_simps [simp]: "keeps (Inl e) = soft_error e" "keeps (Inr k) = kinv k"
  by (simp_all add: keeps_def)

lemma keeps_return: "kinv k \<Longrightarrow> keeps (return_user v out k)"
  using kinv_return [of k v out] by auto

lemma keeps_schedule: "kinv0 k \<Longrightarrow> keeps (schedule k)"
  using schedule_cases [of k] by (auto simp: keeps_def soft_error_def split: sum.splits)

lemma keeps_schedule_then: "kinv0 k \<Longrightarrow> keeps (schedule_then r k)"
  using keeps_schedule kinv0_kont set_kont_Inl by (cases "set_kont r k") (fastforce simp: schedule_then_def)+

lemma keeps_bind:
  assumes "\<And>e. m = Inl e \<Longrightarrow> soft_error e" and "\<And>x. m = Inr x \<Longrightarrow> keeps (f x)" shows "keeps (bindE m f)"
  using assms by (cases m) simp_all

section \<open>The running task goes to a queue\<close>

lemma current_moves:
  assumes inv: "kinv k" and c: "running_task k = Some c" "idle_task k \<noteq> Some c"
    and s: "home_ok s (Some q)" "alive s" "s \<noteq> Ready" "head_ok (mqueues k) q"
  shows "kinv1 (move_task c s q k)"
proof -
  obtain x where x: "tasks k c = Some x" "t_state x = Running"
    using kinv_current [OF inv] c(1) by (metis option.inject)
  then show ?thesis
    using kinv_kinv1 [OF inv] c s unfolding kinv1_def
    by (auto intro!: links_ok_move' queues_sorted_move parents_ok_move idle_ok_move pids_ok_move
        simp: mqs_ok_def running_ok_def)
qed

lemma set_current_state:
  assumes inv: "kinv k" and c: "running_task k = Some c" and s: "s \<noteq> Running"
  shows "set_task_state c s q k = Inr (move_task c s q k)"
proof -
  obtain x where "tasks k c = Some x" "t_state x = Running" "qlink (sq k) c = None"
    using kinv_current [OF inv] c by (metis option.inject)
  then show ?thesis using c s inv by (auto simp: is_current_def intro!: set_task_state_move)
qed

text \<open>\<open>wait_clock\<close> up to its \<open>schedule\<close>.\<close>

definition asleep :: "tid \<Rightarrow> task \<Rightarrow> u32 \<Rightarrow> kst \<Rightarrow> kst" where
  "asleep c x clock k = move_task c Sleeping Q_sleeping (put_task c (x\<lparr>t_wake_time := clock\<rparr>) k)"

lemma wait_clock_asleep:
  assumes inv: "kinv k" and c: "running_task k = Some c" and x: "tasks k c = Some x"
  shows "wait_clock clock k = schedule_then (K_ret 0) (asleep c x clock k)"
proof -
  let ?k = "put_task c (x\<lparr>t_wake_time := clock\<rparr>) k"
  have i: "kinv ?k" by (rule kinv_put [OF inv x]) simp_all
  have "set_task_sleeping c ?k = Inr (asleep c x clock k)"
    unfolding set_task_sleeping_def asleep_def by (rule set_current_state [OF i]) (use c in simp_all)
  then show ?thesis using c x by (simp add: wait_clock_def)
qed

lemma asleep_kinv1:
  assumes inv: "kinv k" and c: "running_task k = Some c" "idle_task k \<noteq> Some c" and x: "tasks k c = Some x"
  shows "kinv1 (asleep c x clock k)"
proof -
  have i: "kinv (put_task c (x\<lparr>t_wake_time := clock\<rparr>) k)" by (rule kinv_put [OF inv x]) simp_all
  show ?thesis unfolding asleep_def by (rule current_moves [OF i]) (use c in simp_all)
qed

lemma asleep_kinv0:
  assumes inv: "kinv k" and c: "running_task k = Some c" "idle_task k \<noteq> Some c" and x: "tasks k c = Some x"
    and later: "total_ticks k < clock"
  shows "kinv0 (asleep c x clock k)"
  using asleep_kinv1 [OF inv c x] c x later by (auto simp: kinv0_def not_late_def asleep_def)

lemma wait_clock_late:
  assumes inv: "kinv k" and c: "running_task k = Some c" "idle_task k \<noteq> Some c" and late: "clock \<le> total_ticks k"
  shows "wait_clock clock k = Inl Panic"
proof -
  obtain x where x: "tasks k c = Some x" using kinv_current [OF inv] c(1) by (metis option.inject)
  let ?x = "x\<lparr>t_wake_time := clock, t_state := Sleeping, t_kont := K_ret 0\<rparr>"
  let ?k2 = "put_task c ?x (asleep c x clock k)"
  have "wait_clock clock k = schedule ?k2"
    unfolding wait_clock_asleep [OF inv c(1) x] using c x by (simp add: schedule_then_def set_kont_def asleep_def)
  moreover have "kinv1 ?k2"
    by (rule kinv1_put [OF asleep_kinv1 [OF inv c x], where x = "x\<lparr>t_wake_time := clock, t_state := Sleeping\<rparr>"])
      (use x in \<open>simp_all add: asleep_def\<close>)
  then have "try_wakeup_tasks ?k2 = Inl Panic"
    by (rule try_wakeup_late [where c = c and x = ?x]) (use c late in \<open>simp_all add: asleep_def\<close>)
  ultimately show ?thesis by (simp add: schedule_def)
qed

lemma wait_clock_keeps:
  assumes inv: "kinv k" and c: "running_task k = Some c" "idle_task k \<noteq> Some c" and later: "total_ticks k < clock"
  shows "keeps (wait_clock clock k)"
proof -
  obtain x where x: "tasks k c = Some x" using kinv_current [OF inv] c(1) by (metis option.inject)
  show ?thesis using asleep_kinv0 [OF inv c x later] by (simp add: wait_clock_asleep [OF inv c(1) x] keeps_schedule_then)
qed

text \<open>The total effect of a task that goes to wait on a message queue.\<close>

lemma wait_on_queue_eq:
  assumes inv: "kinv k" and c: "running_task k = Some c" and x: "tasks k c = Some x"
  shows "bindE (enqueue c q k) (set_task_interrupted_msg c r) =
    schedule (move_task c Int_Msg q (put_task c (x\<lparr>t_kont := r\<rparr>) k))"
proof -
  have xs: "qlink (sq k) c = None" using kinv_current [OF inv] c x by (metis option.inject)
  let ?k = "put_task c (x\<lparr>t_kont := r\<rparr>) k"
  have pr: "prio_of ?k = prio_of k" using x by (auto simp: prio_of_def fun_eq_iff)
  have "enqueue c q k = Inr (k\<lparr>sq := q_move (prio_of k) c q (sq k)\<rparr>)"
    using inv xs by (intro enqueue_ok) simp_all
  moreover have "put_task c (x\<lparr>t_kont := r, t_state := Int_Msg\<rparr>) (k\<lparr>sq := q_move (prio_of k) c q (sq k)\<rparr>) =
      move_task c Int_Msg q ?k"
    using pr x by (simp add: put_task_def move_task_def)
  ultimately show ?thesis
    using c x by (simp add: set_task_interrupted_msg_def set_kont_def set_state_def) (simp add: put_task_def)
qed

lemma wait_on_queue_kinv0:
  assumes inv: "kinv k" and c: "running_task k = Some c" "idle_task k \<noteq> Some c" and x: "tasks k c = Some x"
    and q: "home_ok Int_Msg (Some q)" "head_ok (mqueues k) q"
  shows "kinv0 (move_task c Int_Msg q (put_task c (x\<lparr>t_kont := r\<rparr>) k))"
proof -
  let ?k = "put_task c (x\<lparr>t_kont := r\<rparr>) k"
  have i: "kinv ?k" by (rule kinv_put [OF inv x]) simp_all
  have "kinv1 (move_task c Int_Msg q ?k)"
    by (rule current_moves [OF i]) (use c q in simp_all)
  moreover have "not_late (move_task c Int_Msg q ?k)" using c x by (auto simp: not_late_def)
  ultimately show ?thesis by (simp add: kinv0_def)
qed

lemma wait_on_queue:
  assumes inv: "kinv k" and c: "running_task k = Some c" "idle_task k \<noteq> Some c"
    and q: "home_ok Int_Msg (Some q)" "head_ok (mqueues k) q"
  shows "keeps (bindE (enqueue c q k) (set_task_interrupted_msg c r))"
proof -
  obtain x where "tasks k c = Some x" using kinv_current [OF inv] c(1) by (metis option.inject)
  then show ?thesis
    using wait_on_queue_eq [OF inv c(1)] wait_on_queue_kinv0 [OF inv c _ q] by (simp add: keeps_schedule)
qed

section \<open>Slots\<close>

lemma put_mqueue_simps [simp]:
  "tasks (put_mqueue i q k) = tasks k" "sq (put_mqueue i q k) = sq k" "kids (put_mqueue i q k) = kids k"
  "glob (put_mqueue i q k) = glob k" "running_task (put_mqueue i q k) = running_task k"
  "idle_task (put_mqueue i q k) = idle_task k" "total_ticks (put_mqueue i q k) = total_ticks k"
  "mqueues (put_mqueue i q k) = (mqueues k)(nat i := q)" "kpids (put_mqueue i q k) = kpids k"
  "cpt_rst (put_mqueue i q k) = cpt_rst k" "heap_full (put_mqueue i q k) = heap_full k" "pm (put_mqueue i q k) = pm k"
  by (simp_all add: put_mqueue_def)

lemma prio_of_put_mqueue [simp]: "prio_of (put_mqueue i q k) = prio_of k"
  by (simp add: prio_of_def fun_eq_iff)

lemma put_mqueue_same [simp]:
  "queues_sorted (put_mqueue i q k) = queues_sorted k"
  "parents_ok (put_mqueue i q k) = parents_ok k" "running_ok (put_mqueue i q k) = running_ok k"
  "idle_ok (put_mqueue i q k) = idle_ok k" "pids_ok (put_mqueue i q k) = pids_ok k"
  "not_late (put_mqueue i q k) = not_late k"
  by (simp_all add: queues_sorted_def parents_ok_def running_ok_def idle_ok_def pids_ok_def
      not_late_def)

lemma link_ok_put_mqueue:
  assumes "mqueues k (nat i) \<noteq> None" shows "link_ok (put_mqueue i (Some q) k) = link_ok k"
proof (rule ext)
  fix v
  have "head_ok (mqueues (put_mqueue i (Some q) k)) h \<longleftrightarrow> head_ok (mqueues k) h" for h
    using assms by (cases h) auto
  then show "link_ok (put_mqueue i (Some q) k) v = link_ok k v"
    by (simp only: link_ok_def put_mqueue_simps(1,2,4,5))
qed

lemma mqs_ok_put_mqueue: "mqs_ok k \<Longrightarrow> mqueue_ok q \<Longrightarrow> slot_ok i \<Longrightarrow> mqs_ok (put_mqueue i (Some q) k)"
  by (auto simp: mqs_ok_def slot_ok_def nbqueue_def)

section \<open>Waking a waiter\<close>

text \<open>The state between \<open>queue_out\<close> on a waiting list and the moment the waiter is made ready.\<close>

definition waking :: "tid \<Rightarrow> kst \<Rightarrow> bool" where
  "waking t k \<longleftrightarrow> q_ok (sq k) \<and> q_ok (kids k) \<and> q_ok (glob k) \<and> (\<forall>u. u \<noteq> t \<longrightarrow> link_ok k u) \<and>
     qlink (sq k) t = None \<and> qlink (glob k) t \<noteq> None \<and> running_task k \<noteq> Some t \<and>
     (\<exists>x. tasks k t = Some x \<and> t_state x = Int_Msg) \<and>
     queues_sorted k \<and> parents_ok k \<and> idle_ok k \<and> pids_ok k \<and> mqs_ok k \<and>
     (\<exists>c x. running_task k = Some c \<and> tasks k c = Some x \<and> t_state x = Running)"

lemma waking_put:
  assumes w: "waking t k" and y: "tasks k u = Some y" "t_state z = t_state y" "t_priority z = t_priority y"
    "t_parent z = t_parent y" "t_pid z = t_pid y"
  shows "waking t (put_task u z k)"
proof -
  have "link_ok (put_task u z k) v" if "v \<noteq> t" for v
  proof -
    have "link_ok k v" using w that by (simp add: waking_def)
    then show ?thesis using y by (cases "v = u") (auto simp: link_ok_def split: option.splits)
  qed
  moreover have "queues_sorted (put_task u z k)" "parents_ok (put_task u z k)" "pids_ok (put_task u z k)"
    using w y by (auto simp: waking_def intro: queues_sorted_put parents_ok_put pids_ok_put)
  ultimately show ?thesis
    using w y unfolding waking_def by (auto simp: idle_ok_def mqs_ok_def)
qed

lemma waking_mqueue:
  assumes "waking t k" and "mqueue_ok q" and "mqueues k (nat i) \<noteq> None" and "slot_ok i"
  shows "waking t (put_mqueue i (Some q) k)"
  using assms unfolding waking_def
  by (simp add: link_ok_put_mqueue mqs_ok_put_mqueue)

lemma waking_move:
  assumes w: "waking t k" shows "kinv (move_task t Ready Q_ready k)"
proof -
  obtain x where x: "tasks k t = Some x" "t_state x = Int_Msg" using w by (auto simp: waking_def)
  obtain c y where c: "running_task k = Some c" "tasks k c = Some y" "t_state y = Running"
    using w by (auto simp: waking_def)
  have tc: "t \<noteq> c" using w c by (auto simp: waking_def)
  have "links_ok (move_task t Ready Q_ready k)"
    using w x by (intro links_ok_move [where x = x]) (auto simp: waking_def)
  moreover have "pids_ok (move_task t Ready Q_ready k)"
    using w x by (intro pids_ok_move [where x = x]) (auto simp: waking_def)
  moreover have "queues_sorted (move_task t Ready Q_ready k)" "parents_ok (move_task t Ready Q_ready k)"
      "idle_ok (move_task t Ready Q_ready k)"
    using w by (auto simp: waking_def intro: queues_sorted_move parents_ok_move idle_ok_move)
  moreover have "mqs_ok (move_task t Ready Q_ready k)" using w by (simp add: waking_def mqs_ok_def)
  moreover have "running_ok (move_task t Ready Q_ready k)" using c tc by (simp add: running_ok_def)
  ultimately have "kinv1 (move_task t Ready Q_ready k)" by (simp add: kinv1_def)
  then show ?thesis by (rule kinvI [where c = c and x = y]) (use c tc in simp_all)
qed

lemma ready_or_running_eq:
  assumes w: "waking t k" and c: "running_task k = Some c" "tasks k c = Some y" and t: "tasks k t = Some x"
  shows "set_task_ready_or_running t r k =
      (if t_priority x > t_priority y then schedule (move_task t Ready Q_ready (put_task c (y\<lparr>t_kont := r\<rparr>) k))
       else Inr (move_task t Ready Q_ready (put_task c (y\<lparr>t_kont := r\<rparr>) k)))"
    and "kinv (move_task t Ready Q_ready (put_task c (y\<lparr>t_kont := r\<rparr>) k))"
proof -
  let ?k = "put_task c (y\<lparr>t_kont := r\<rparr>) k"
  have w': "waking t ?k" by (rule waking_put [OF w c(2)]) simp_all
  have tc: "t \<noteq> c" using w c(1) by (auto simp: waking_def)
  have x: "tasks ?k t = Some x" "qlink (sq ?k) t = None" "q_ok (sq ?k)" "running_task ?k \<noteq> Some t"
    using w' t tc by (auto simp: waking_def)
  have pr: "prio_of (put_task t (x\<lparr>t_state := Ready\<rparr>) ?k) = prio_of ?k"
    using x(1) by (auto simp: prio_of_def fun_eq_iff)
  let ?m = "move_task t Ready Q_ready ?k"
  have s1: "set_state t Ready ?k = Inr (put_task t (x\<lparr>t_state := Ready\<rparr>) ?k)"
    unfolding set_state_def using x(1) by (rule upd_task_Some)
  have "enqueue t Q_ready (put_task t (x\<lparr>t_state := Ready\<rparr>) ?k) =
      Inr ((put_task t (x\<lparr>t_state := Ready\<rparr>) ?k)\<lparr>sq := q_move (prio_of ?k) t Q_ready (sq ?k)\<rparr>)"
    using x pr by (subst enqueue_ok) simp_all
  moreover have "(put_task t (x\<lparr>t_state := Ready\<rparr>) ?k)\<lparr>sq := q_move (prio_of ?k) t Q_ready (sq ?k)\<rparr> = ?m"
    using x(1) by (simp add: move_task_def put_task_def)
  ultimately have s2: "enqueue t Q_ready (put_task t (x\<lparr>t_state := Ready\<rparr>) ?k) = Inr ?m" by simp
  have m: "current ?m = Inr c" "get_task t ?m = Inr (x\<lparr>t_state := Ready\<rparr>)" "get_task c ?m = Inr (y\<lparr>t_kont := r\<rparr>)"
    using c x(1) tc by simp_all
  have prs: "t_priority (y\<lparr>t_kont := r\<rparr>) = t_priority y" "t_priority (x\<lparr>t_state := Ready\<rparr>) = t_priority x"
    by simp_all
  have "set_kont r k = Inr ?k" using c by (simp add: set_kont_def)
  then show "set_task_ready_or_running t r k = (if t_priority x > t_priority y then schedule ?m else Inr ?m)"
    unfolding set_task_ready_or_running_def by (simp only: s1 s2 m bindE_simps prs)
  show "kinv ?m" by (rule waking_move [OF w'])
qed

lemma ready_or_running_keeps:
  assumes w: "waking t k" shows "keeps (set_task_ready_or_running t r k)"
proof -
  obtain c y x where e: "running_task k = Some c" "tasks k c = Some y" "tasks k t = Some x"
    using w by (auto simp: waking_def)
  note m = ready_or_running_eq [OF w e, of r]
  from m(2) have "keeps (schedule (move_task t Ready Q_ready (put_task c (y\<lparr>t_kont := r\<rparr>) k)))"
      "keeps (Inr (move_task t Ready Q_ready (put_task c (y\<lparr>t_kont := r\<rparr>) k)))"
    by (auto intro: keeps_schedule kinv_kinv0)
  then show ?thesis unfolding m(1) by (simp only: split: if_split) simp
qed

lemma take_waiter_waking:
  assumes inv: "kinv k" and q: "home_ok Int_Msg (Some q)" and r: "take_waiter q k = (Some t, k')"
  shows "waking t k'" and "k' = k\<lparr>sq := q_unlink t (sq k)\<rparr>" and "t \<in> set (qlist (sq k) q)"
proof -
  have ne: "qlist (sq k) q \<noteq> []" using r by (auto simp: take_waiter_def q_out_empty)
  then have t: "t = last (qlist (sq k) q)" and k': "k' = k\<lparr>sq := q_unlink t (sq k)\<rparr>"
    using r inv by (auto simp: take_waiter_def q_out_unlink)
  then show mem: "t \<in> set (qlist (sq k) q)" and "k' = k\<lparr>sq := q_unlink t (sq k)\<rparr>" using ne by simp_all
  have l: "links_ok k" using inv by (rule kinv_links)
  obtain x where x: "tasks k t = Some x" "t_state x = Int_Msg"
  proof -
    obtain x where "tasks k t = Some x" "home_ok (t_state x) (Some q)" using state_of_queue [OF l mem] by blast
    then show ?thesis using that q by (cases q) (auto simp: home_ok_inj)
  qed
  obtain c y where c: "running_task k = Some c" "tasks k c = Some y" "t_state y = Running"
    using kinv_current [OF inv] by blast
  then have tc: "t \<noteq> c" using x by auto
  have "link_ok k' u" if "u \<noteq> t" for u
    using links_okD [OF l, of u] that by (simp add: k' link_ok_def split: option.splits)
  moreover have "queues_sorted k'"
    using kinv_kinv1 [OF inv] by (simp add: k' kinv1_def queues_sorted_def sorted_q_unlink)
  moreover have "parents_ok k'" "idle_ok k'" "pids_ok k'" "mqs_ok k'"
    using kinv_kinv1 [OF inv] by (simp_all add: k' kinv1_def parents_ok_def idle_ok_def pids_ok_def mqs_ok_def)
  ultimately show "waking t k'"
    using inv x c tc links_ok_alive [OF l x(1)] unfolding waking_def by (auto simp: k')
qed

lemma take_waiter_none:
  assumes "take_waiter q k = (None, k')" and "q_ok (sq k)" shows "k' = k" and "qlist (sq k) q = []"
proof -
  show e: "qlist (sq k) q = []"
    using assms by (cases "qlist (sq k) q = []") (auto simp: take_waiter_def q_out_unlink)
  then show "k' = k" using assms by (simp add: take_waiter_def q_out_empty)
qed

section \<open>Message queues\<close>

lemma get_slot_cases: "get_slot i k = (if slot_ok i then Inr (mqueues k (nat i)) else Inl Out_Of_Bounds)"
  by (simp add: get_slot_def)

lemma mqueue_unused_Inr [bind_rules]: "mqueue_unused i k = Inr b \<longleftrightarrow> slot_ok i \<and> b = (mqueues k (nat i) = None)"
  by (auto simp: mqueue_unused_def get_slot_def)

lemma mqueue_unused_Inl: "mqueue_unused i k = Inl e \<longleftrightarrow> \<not> slot_ok i \<and> e = Out_Of_Bounds"
  by (auto simp: mqueue_unused_def get_slot_def)

lemma get_mqueue_Inr [bind_rules]: "get_mqueue i k = Inr q \<longleftrightarrow> slot_ok i \<and> mqueues k (nat i) = Some q"
  by (auto simp: get_mqueue_def get_slot_def split: option.splits)

lemma get_mqueue_used: "slot_ok i \<Longrightarrow> mqueues k (nat i) = Some q \<Longrightarrow> get_mqueue i k = Inr q"
  by (simp add: get_mqueue_Inr)

text \<open>A call blocked on a queue that was deleted meanwhile follows the null pointer of the slot.\<close>

lemma mqueue_full_deleted: "slot_ok i \<Longrightarrow> mqueues k (nat i) = None \<Longrightarrow> mqueue_full i k = Inl Null_Deref"
  by (simp add: mqueue_full_def get_mqueue_def get_slot_def)

lemma mqueue_empty_deleted: "slot_ok i \<Longrightarrow> mqueues k (nat i) = None \<Longrightarrow> mqueue_empty i k = Inl Null_Deref"
  by (simp add: mqueue_empty_def get_mqueue_def get_slot_def)

lemma psend_loop_deleted: "slot_ok i \<Longrightarrow> mqueues k (nat i) = None \<Longrightarrow> psend_loop i msg rst k = Inl Null_Deref"
  by (simp add: psend_loop_def mqueue_full_deleted)

lemma preceive_loop_deleted: "slot_ok i \<Longrightarrow> mqueues k (nat i) = None \<Longrightarrow> preceive_loop i rst want k = Inl Null_Deref"
  by (simp add: preceive_loop_def mqueue_empty_deleted)

lemma kinv_mqueue_ok: "kinv k \<Longrightarrow> mqueues k i = Some q \<Longrightarrow> mqueue_ok q \<and> i < 20"
  using kinv_kinv1 [of k] by (simp add: kinv1_def mqs_ok_def)

lemma mqueue_full_iff:
  assumes "mqueue_ok q" shows "mq_count q = mq_size q \<longleftrightarrow> length (mq_msgs q) = unat (mq_size q)"
proof -
  have "length (mq_msgs q) < 2 ^ 32" using assms unat_bound [of "mq_size q"] by (simp add: mqueue_ok_def)
  then have "unat (of_nat (length (mq_msgs q)) :: u32) = length (mq_msgs q)"
    by (simp add: unat_of_nat take_bit_nat_eq_self)
  then show ?thesis using assms by (auto simp: mqueue_ok_def word_unat_eq_iff)
qed

lemma mqueue_empty_iff:
  assumes "mqueue_ok q" shows "mq_count q = 0 \<longleftrightarrow> mq_msgs q = []"
proof -
  have "length (mq_msgs q) < 2 ^ 32" using assms unat_bound [of "mq_size q"] by (simp add: mqueue_ok_def)
  then have "unat (of_nat (length (mq_msgs q)) :: u32) = length (mq_msgs q)"
    by (simp add: unat_of_nat take_bit_nat_eq_self)
  then show ?thesis using assms by (auto simp: mqueue_ok_def word_unat_eq_iff)
qed

lemma mqueue_ok_add:
  assumes "mqueue_ok q" and "mq_count q \<noteq> mq_size q"
  shows "mqueue_ok (q\<lparr>mq_msgs := mq_msgs q @ [m], mq_count := mq_count q + 1\<rparr>)"
proof -
  have "length (mq_msgs q) < unat (mq_size q)"
    using assms mqueue_full_iff [OF assms(1)] by (simp add: mqueue_ok_def)
  then show ?thesis using assms(1) by (simp add: mqueue_ok_def)
qed

lemma mqueue_ok_pop: "mqueue_ok q \<Longrightarrow> mq_msgs q = m # ms \<Longrightarrow> mqueue_ok (q\<lparr>mq_count := mq_count q - 1, mq_msgs := ms\<rparr>)"
  by (simp add: mqueue_ok_def)

lemma kinv_put_mqueue:
  assumes inv: "kinv k" and "mqueue_ok q" and "mqueues k (nat i) \<noteq> None" and "slot_ok i"
  shows "kinv (put_mqueue i (Some q) k)"
proof -
  have "links_ok (put_mqueue i (Some q) k)"
    using kinv_links(1) [OF inv] link_ok_put_mqueue [OF assms(3), of q] unfolding links_ok_def put_mqueue_simps
    by (metis (no_types))
  moreover have "mqs_ok (put_mqueue i (Some q) k)"
    using kinv_kinv1 [OF inv] assms(2,4) by (intro mqs_ok_put_mqueue) (simp_all add: kinv1_def)
  ultimately show ?thesis using inv unfolding kinv_def kinv0_def kinv1_def by simp
qed

text \<open>\<open>__add_msg\<close> appends, \<open>__pop_msg\<close> takes the first message.\<close>

lemma add_msg_used:
  assumes "slot_ok i" and "mqueues k (nat i) = Some q" and "mqueue_ok q" and "\<not> heap_full k"
  shows "add_msg i m k = Inr (put_mqueue i (Some (q\<lparr>mq_msgs := mq_msgs q @ [m], mq_count := mq_count q + 1\<rparr>)) k)"
  using assms by (auto simp: add_msg_def get_mqueue_used mqueue_empty_iff)

lemma pop_msg_used:
  "slot_ok i \<Longrightarrow> mqueues k (nat i) = Some q \<Longrightarrow> mq_msgs q = m # ms \<Longrightarrow>
   pop_msg i k = Inr (m, put_mqueue i (Some (q\<lparr>mq_count := mq_count q - 1, mq_msgs := ms\<rparr>)) k)"
  by (simp add: pop_msg_def get_mqueue_used)

section \<open>psend and preceive keep the invariant\<close>

text \<open>
  What a call may do when a message queue is deleted under it (\<open>Null_Deref\<close>) is excluded here by the
  slot being in use when the call or its rest starts; nothing else of these calls can go wrong but
  an unchecked index or the scheduler's soft errors.
\<close>

lemma psend_add_keeps:
  assumes inv: "kinv k" and u: "slot_ok i" "mqueues k (nat i) = Some q" "mq_count q \<noteq> mq_size q" and h: "\<not> heap_full k"
  shows "keeps (psend_add i m k)"
proof -
  have q: "mqueue_ok q" using kinv_mqueue_ok [OF inv u(2)] by simp
  then have "kinv (put_mqueue i (Some (q\<lparr>mq_msgs := mq_msgs q @ [m], mq_count := mq_count q + 1\<rparr>)) k)"
    using inv u by (intro kinv_put_mqueue mqueue_ok_add) simp_all
  then show ?thesis using add_msg_used [OF u(1,2) q h] by (simp add: psend_add_def keeps_return)
qed

lemma psend_rest_keeps:
  assumes inv: "kinv k" and u: "slot_ok i" "mqueues k (nat i) = Some q" and h: "\<not> heap_full k"
    and c: "running_task k = Some c" "tasks k c = Some x" and nf: "mq_count q \<noteq> mq_size q \<or> t_msg_val x = - 1"
  shows "keeps (psend_rest i m rst k)"
proof (cases "rst < cpt_rst k \<or> t_msg_val x = - 1")
  case True
  then show ?thesis using u c inv
    by (auto simp: psend_rest_def mqueue_unused_def get_slot_def current_task_def keeps_return)
next
  case False
  then have e: "psend_rest i m rst k = (case take_waiter (receivers i) k of
             (None, k1) \<Rightarrow> psend_add i m k1
           | (Some waiter, k1) \<Rightarrow> set_task_ready_or_running waiter (K_psend_add i m) k1)"
    using u c by (simp add: psend_rest_def mqueue_unused_def get_slot_def current_task_def)
  have r: "home_ok Int_Msg (Some (receivers i))" by (simp add: receivers_def)
  obtain w k1 where w: "take_waiter (receivers i) k = (w, k1)" by (cases "take_waiter (receivers i) k")
  show ?thesis
  proof (cases w)
    case None
    then have "k1 = k" using take_waiter_none w inv by simp
    then show ?thesis using e w None psend_add_keeps [OF inv u _ h] nf False by simp
  next
    case (Some t)
    then show ?thesis using e w take_waiter_waking(1) [OF inv r] by (simp add: ready_or_running_keeps)
  qed
qed

lemma psend_loop_keeps:
  assumes inv: "kinv k" and u: "slot_ok i" "mqueues k (nat i) = Some q" and h: "\<not> heap_full k"
    and c: "running_task k \<noteq> idle_task k"
  shows "keeps (psend_loop i m rst k)"
proof -
  obtain t x where t: "running_task k = Some t" "tasks k t = Some x" using kinv_current [OF inv] by blast
  have e: "psend_loop i m rst k = (if mq_count q = mq_size q \<and> t_msg_val x \<noteq> - 1
       then bindE (enqueue t (senders i) k) (set_task_interrupted_msg t (K_psend i m rst))
       else psend_rest i m rst k)"
    using u t by (simp add: psend_loop_def mqueue_full_def get_mqueue_used current_task_def)
  show ?thesis
  proof (cases "mq_count q = mq_size q \<and> t_msg_val x \<noteq> - 1")
    case True
    have "keeps (bindE (enqueue t (senders i) k) (set_task_interrupted_msg t (K_psend i m rst)))"
      by (rule wait_on_queue [OF inv t(1)]) (use c t u in \<open>auto simp: senders_def\<close>)
    then show ?thesis unfolding e if_P [OF True] .
  next
    case False
    then have "keeps (psend_rest i m rst k)" by (intro psend_rest_keeps [OF inv u h t]) auto
    then show ?thesis unfolding e if_not_P [OF False] .
  qed
qed

lemma psend_keeps:
  assumes inv: "kinv k" and h: "\<not> heap_full k" and c: "running_task k \<noteq> idle_task k"
  shows "keeps (psend i m k)"
proof (cases "slot_ok i \<and> mqueues k (nat i) \<noteq> None")
  case False
  then show ?thesis using inv by (auto simp: psend_def mqueue_unused_def get_slot_def keeps_return)
next
  case True
  then obtain q where u: "slot_ok i" "mqueues k (nat i) = Some q" by auto
  obtain t x where t: "running_task k = Some t" "tasks k t = Some x" using kinv_current [OF inv] by blast
  have r: "home_ok Int_Msg (Some (receivers i))" by (simp add: receivers_def)
  obtain w k1 where w: "take_waiter (receivers i) k = (w, k1)" by (cases "take_waiter (receivers i) k")
  have e: "psend i m k = (case w of
      Some waiter \<Rightarrow> bindE (set_msg_val waiter m k1) (set_task_ready_or_running waiter (K_ret 0))
    | None \<Rightarrow> bindE (set_msg_val t m k) (psend_loop i m (cpt_rst k)))"
    using u w t by (cases w) (simp_all add: psend_def mqueue_unused_def get_slot_def)
  show ?thesis
  proof (cases w)
    case None
    have "kinv (put_task t (x\<lparr>t_msg_val := m\<rparr>) k)" by (rule kinv_put [OF inv t(2)]) simp_all
    then have "keeps (psend_loop i m (cpt_rst k) (put_task t (x\<lparr>t_msg_val := m\<rparr>) k))"
      using u h c by (intro psend_loop_keeps [where q = q]) simp_all
    then show ?thesis using e None t by (simp add: set_msg_val_def)
  next
    case (Some v)
    then have wk: "waking v k1" using take_waiter_waking(1) [OF inv r] w by simp
    then obtain y where y: "tasks k1 v = Some y" by (auto simp: waking_def)
    then have "waking v (put_task v (y\<lparr>t_msg_val := m\<rparr>) k1)" by (intro waking_put [OF wk]) simp_all
    then show ?thesis using e Some y by (simp add: set_msg_val_def ready_or_running_keeps)
  qed
qed

lemma pop_msg_keeps:
  assumes "kinv k" and "slot_ok i" and "mqueues k (nat i) = Some q" and "mq_msgs q \<noteq> []"
  shows "\<exists>k'. pop_msg i k = Inr (hd (mq_msgs q), k') \<and> kinv k'"
proof -
  obtain m ms where m: "mq_msgs q = m # ms" using assms(4) by (cases "mq_msgs q") auto
  have "mqueue_ok q" using kinv_mqueue_ok [OF assms(1,3)] by simp
  then have "kinv (put_mqueue i (Some (q\<lparr>mq_count := mq_count q - 1, mq_msgs := ms\<rparr>)) k)"
    using assms m by (intro kinv_put_mqueue mqueue_ok_pop) simp_all
  then show ?thesis using pop_msg_used [OF assms(2,3) m] m by simp
qed

lemma preceive_from_waking:
  assumes w: "waking t k" and u: "slot_ok i" "mqueues k (nat i) = Some q" and h: "\<not> heap_full k"
    and ne: "mq_count q \<noteq> 0"
  shows "\<exists>m k'. preceive_from i t k = Inr (m, k') \<and> waking t k'"
proof -
  obtain x where x: "tasks k t = Some x" using w by (auto simp: waking_def)
  have q: "mqueue_ok q" using w u by (auto simp: waking_def mqs_ok_def)
  have e: "preceive_from i t k =
      (if mq_count q = mq_size q \<and> t_msg_val x \<noteq> - 1 then
         bindE (pop_msg i k) (\<lambda>(msg, k1). bindE (add_msg i (t_msg_val x) k1) (\<lambda>k2.
         bindE (set_msg_val t (- 1) k2) (\<lambda>k3. Inr (msg, k3))))
       else if mq_count q = 0 then bindE (set_msg_val t (- 1) k) (\<lambda>k1. Inr (t_msg_val x, k1))
       else pop_msg i k)"
    using u x by (simp add: preceive_from_def mqueue_full_def mqueue_empty_def get_mqueue_used)
  obtain m ms where m: "mq_msgs q = m # ms" using mqueue_empty_iff [OF q] ne by (cases "mq_msgs q") auto
  let ?q1 = "q\<lparr>mq_count := mq_count q - 1, mq_msgs := ms\<rparr>"
  let ?k1 = "put_mqueue i (Some ?q1) k"
  have q1: "mqueue_ok ?q1" by (rule mqueue_ok_pop [OF q m])
  have p: "pop_msg i k = Inr (m, ?k1)" using pop_msg_used [OF u m] .
  have w1: "waking t ?k1" using u by (intro waking_mqueue [OF w q1]) simp_all
  show ?thesis
  proof (cases "mq_count q = mq_size q \<and> t_msg_val x \<noteq> - 1")
    case True
    let ?q2 = "?q1\<lparr>mq_msgs := mq_msgs ?q1 @ [t_msg_val x], mq_count := mq_count ?q1 + 1\<rparr>"
    have "mq_count ?q1 \<noteq> mq_size ?q1" using True by simp
    then have q2: "mqueue_ok ?q2" by (rule mqueue_ok_add [OF q1])
    have a: "add_msg i (t_msg_val x) ?k1 = Inr (put_mqueue i (Some ?q2) ?k1)"
      using u h by (intro add_msg_used q1) simp_all
    have "waking t (put_mqueue i (Some ?q2) ?k1)" using u by (intro waking_mqueue [OF w1 q2]) simp_all
    then have "waking t (put_task t (x\<lparr>t_msg_val := - 1\<rparr>) (put_mqueue i (Some ?q2) ?k1))"
      by (rule waking_put [where y = x]) (use x in simp_all)
    moreover have "preceive_from i t k = Inr (m, put_task t (x\<lparr>t_msg_val := - 1\<rparr>) (put_mqueue i (Some ?q2) ?k1))"
      unfolding e using True p a x by (simp add: set_msg_val_def)
    ultimately show ?thesis by blast
  next
    case False
    then have "preceive_from i t k = Inr (m, ?k1)" unfolding e using ne p by auto
    then show ?thesis using w1 by blast
  qed
qed

lemma preceive_rest_keeps:
  assumes inv: "kinv k" and u: "slot_ok i" "mqueues k (nat i) = Some q" and h: "\<not> heap_full k"
    and c: "running_task k = Some c" "tasks k c = Some x" and ne: "mq_count q \<noteq> 0 \<or> t_msg_val x \<noteq> - 1"
  shows "keeps (preceive_rest i rst want k)"
proof -
  consider "rst < cpt_rst k" | "\<not> rst < cpt_rst k" "t_msg_val x \<noteq> - 1" | "\<not> rst < cpt_rst k" "t_msg_val x = - 1"
    by blast
  then show ?thesis
  proof cases
    case 1
    then show ?thesis using u inv by (simp add: preceive_rest_def mqueue_unused_def get_slot_def keeps_return)
  next
    case 2
    have "kinv (put_task c (x\<lparr>t_msg_val := - 1\<rparr>) k)" by (rule kinv_put [OF inv c(2)]) simp_all
    then show ?thesis using 2 u c
      by (simp add: preceive_rest_def mqueue_unused_def get_slot_def current_task_def set_msg_val_def preceive_out_def
          keeps_return)
  next
    case 3
    obtain w k1 where w: "take_waiter (senders i) k = (w, k1)" by (cases "take_waiter (senders i) k")
    have r: "home_ok Int_Msg (Some (senders i))" by (simp add: senders_def)
    have e: "preceive_rest i rst want k = (case w of
        None \<Rightarrow> bindE (pop_msg i k1) (\<lambda>(msg, k2). preceive_out msg want k2)
      | Some waiter \<Rightarrow> bindE (preceive_from i waiter k1) (\<lambda>(msg, k2).
            set_task_ready_or_running waiter (K_preceive_out msg want) k2))"
      using 3 u c w by (cases w) (simp_all add: preceive_rest_def mqueue_unused_def get_slot_def current_task_def)
    show ?thesis
    proof (cases w)
      case None
      then have k1: "k1 = k" using take_waiter_none w inv by simp
      have "mq_msgs q \<noteq> []" using mqueue_empty_iff [of q] kinv_mqueue_ok [OF inv u(2)] ne 3 by simp
      then show ?thesis using pop_msg_keeps [OF inv u] e None k1 by (auto simp: preceive_out_def keeps_return)
    next
      case (Some t)
      note wk = take_waiter_waking [OF inv r, of t k1]
      have wk: "waking t k1" "k1 = k\<lparr>sq := q_unlink t (sq k)\<rparr>" using wk w Some by simp_all
      then have "slot_ok i" "mqueues k1 (nat i) = Some q" "\<not> heap_full k1" "mq_count q \<noteq> 0" using u h ne 3 by simp_all
      then obtain m k2 where "preceive_from i t k1 = Inr (m, k2)" "waking t k2"
        using preceive_from_waking [OF wk(1)] by blast
      then show ?thesis using e Some by (simp add: ready_or_running_keeps)
    qed
  qed
qed

lemma preceive_loop_keeps:
  assumes inv: "kinv k" and u: "slot_ok i" "mqueues k (nat i) = Some q" and h: "\<not> heap_full k"
    and c: "running_task k \<noteq> idle_task k"
  shows "keeps (preceive_loop i rst want k)"
proof -
  obtain t x where t: "running_task k = Some t" "tasks k t = Some x" using kinv_current [OF inv] by blast
  have e: "preceive_loop i rst want k = (if mq_count q = 0 \<and> t_msg_val x = - 1
       then bindE (enqueue t (receivers i) k) (set_task_interrupted_msg t (K_preceive i rst want))
       else preceive_rest i rst want k)"
    using u t by (simp add: preceive_loop_def mqueue_empty_def get_mqueue_used current_task_def)
  show ?thesis
  proof (cases "mq_count q = 0 \<and> t_msg_val x = - 1")
    case True
    have "keeps (bindE (enqueue t (receivers i) k) (set_task_interrupted_msg t (K_preceive i rst want)))"
      by (rule wait_on_queue [OF inv t(1)]) (use c t u in \<open>auto simp: receivers_def\<close>)
    then show ?thesis unfolding e if_P [OF True] .
  next
    case False
    then have "keeps (preceive_rest i rst want k)" by (intro preceive_rest_keeps [OF inv u h t]) auto
    then show ?thesis unfolding e if_not_P [OF False] .
  qed
qed

lemma preceive_keeps:
  assumes inv: "kinv k" and h: "\<not> heap_full k" and c: "running_task k \<noteq> idle_task k"
  shows "keeps (preceive i want k)"
proof (cases "slot_ok i \<and> mqueues k (nat i) \<noteq> None")
  case False
  then show ?thesis using inv by (auto simp: preceive_def mqueue_unused_def get_slot_def keeps_return)
next
  case True
  then obtain q where u: "slot_ok i" "mqueues k (nat i) = Some q" by auto
  obtain t x where t: "running_task k = Some t" "tasks k t = Some x" using kinv_current [OF inv] by blast
  have "kinv (put_task t (x\<lparr>t_msg_val := - 1\<rparr>) k)" by (rule kinv_put [OF inv t(2)]) simp_all
  then have "keeps (preceive_loop i (cpt_rst k) want (put_task t (x\<lparr>t_msg_val := - 1\<rparr>) k))"
    using u h c by (intro preceive_loop_keeps [where q = q]) simp_all
  then show ?thesis using u t by (simp add: preceive_def mqueue_unused_def get_slot_def set_msg_val_def)
qed

section \<open>Deleting and creating queues\<close>

lemma cpt_same [simp]:
  "prio_of (k\<lparr>cpt_rst := n\<rparr>) = prio_of k" "link_ok (k\<lparr>cpt_rst := n\<rparr>) = link_ok k"
  "parents_ok (k\<lparr>cpt_rst := n\<rparr>) = parents_ok k" "running_ok (k\<lparr>cpt_rst := n\<rparr>) = running_ok k"
  "idle_ok (k\<lparr>cpt_rst := n\<rparr>) = idle_ok k" "pids_ok (k\<lparr>cpt_rst := n\<rparr>) = pids_ok k"
  "mqs_ok (k\<lparr>cpt_rst := n\<rparr>) = mqs_ok k" "not_late (k\<lparr>cpt_rst := n\<rparr>) = not_late k"
  by (simp_all add: prio_of_def link_ok_def parents_ok_def running_ok_def idle_ok_def pids_ok_def mqs_ok_def
      not_late_def fun_eq_iff split: option.split)

lemma kinv_cpt [simp]: "kinv (k\<lparr>cpt_rst := n\<rparr>) = kinv k"
  by (simp add: kinv_def kinv0_def kinv1_def links_ok_def queues_sorted_def del: kinv_q links_ok_q)

lemma wake_waiters_ok:
  assumes inv: "kinv k" and q: "home_ok Int_Msg (Some q)"
  shows "\<exists>k'. wake_waiters q k = Inr k' \<and> kinv k' \<and> qlist (sq k') q = [] \<and> mqueues k' = mqueues k \<and>
    heap_full k' = heap_full k \<and> running_task k' = running_task k \<and> idle_task k' = idle_task k \<and>
    (\<forall>p. p \<noteq> Q_ready \<longrightarrow> qlist (sq k) p = [] \<longrightarrow> qlist (sq k') p = [])"
proof -
  have "\<exists>k'. foldE (\<lambda>_ k. case take_waiter q k of (None, k1) \<Rightarrow> Inr k1 | (Some t, k1) \<Rightarrow> set_task_ready t k1) ts k = Inr k' \<and>
      kinv k' \<and> qlist (sq k') q = [] \<and> mqueues k' = mqueues k \<and>
      heap_full k' = heap_full k \<and> running_task k' = running_task k \<and> idle_task k' = idle_task k \<and>
      (\<forall>p. p \<noteq> Q_ready \<longrightarrow> qlist (sq k) p = [] \<longrightarrow> qlist (sq k') p = [])"
    if "length ts = length (qlist (sq k) q)" "kinv k" for ts :: "tid list"
    using that
  proof (induction ts arbitrary: k)
    case (Cons y ts)
    obtain w k1 where w: "take_waiter q k = (w, k1)" by (cases "take_waiter q k")
    obtain t where t: "take_waiter q k = (Some t, k1)"
      using take_waiter_none(2) [of q k k1] w Cons.prems by (cases w) auto
    note wk = take_waiter_waking [OF Cons.prems(2) q t]
    obtain x where x: "tasks k1 t = Some x" "t_state x = Int_Msg" "qlink (sq k1) t = None" "running_task k1 \<noteq> Some t"
      using wk(1) by (auto simp: waking_def)
    have "set_task_ready t k1 = Inr (move_task t Ready Q_ready k1)"
      unfolding set_task_ready_def using x wk(1) by (intro set_task_state_move) (auto simp: waking_def)
    moreover have "kinv (move_task t Ready Q_ready k1)" by (rule waking_move [OF wk(1)])
    moreover have qr: "q \<noteq> Q_ready" using q by auto
    moreover have "length ts = length (qlist (sq (move_task t Ready Q_ready k1)) q)"
      using Cons.prems(1) wk(2,3) qr q_ok_distinct [of "sq k" q] Cons.prems(2)
      by (simp add: q_move_def q_unlink_def remove1_idem length_remove1)
    moreover have "p \<noteq> Q_ready \<Longrightarrow> qlist (sq k) p = [] \<Longrightarrow> qlist (sq (move_task t Ready Q_ready k1)) p = []" for p
      using wk(2) by (simp add: q_move_def q_unlink_def)
    ultimately show ?case using Cons.IH [of "move_task t Ready Q_ready k1"] t wk(2) by auto
  qed auto
  then show ?thesis using inv unfolding wake_waiters_def by blast
qed

lemma no_waiters:
  assumes "links_ok k" and "qlist (sq k) q = []" shows "qlink (sq k) t \<noteq> Some q"
  using assms q_ok_home [of "sq k" t q] by simp

text \<open>Emptying a slot nobody waits on, and filling an empty one.\<close>

lemma kinv_slot:
  assumes inv: "kinv k" and e: "qlist (sq k) (senders i) = []" "qlist (sq k) (receivers i) = []"
    and ok: "q = None \<or> (\<exists>m. q = Some m \<and> mqueue_ok m \<and> slot_ok i)"
  shows "kinv (put_mqueue i q k)"
proof -
  have l: "links_ok k" using inv by (rule kinv_links)
  have "link_ok (put_mqueue i q k) v" for v
  proof -
    have "qlink (sq k) v \<noteq> Some (Q_senders (nat i))" "qlink (sq k) v \<noteq> Some (Q_receivers (nat i))"
      using no_waiters [OF l] e by (simp_all add: senders_def receivers_def)
    then have "head_ok (mqueues (put_mqueue i q k)) h \<longleftrightarrow> head_ok (mqueues k) h" if "qlink (sq k) v = Some h" for h
      using that by (cases h) auto
    then show ?thesis using links_okD [OF l, of v] by (auto simp: link_ok_def split: option.splits)
  qed
  then have "links_ok (put_mqueue i q k)" using l unfolding links_ok_def by auto
  moreover have "mqs_ok (put_mqueue i q k)"
    using kinv_kinv1 [OF inv] ok by (auto simp: kinv1_def mqs_ok_def slot_ok_def nbqueue_def)
  ultimately show ?thesis using inv unfolding kinv_def kinv0_def kinv1_def by simp
qed

lemma init_waiting_same:
  assumes "qlist (sq k) (senders i) = []" and "qlist (sq k) (receivers i) = []" shows "init_waiting i k = k"
proof -
  have "(qlist (sq k))(senders i := [], receivers i := []) = qlist (sq k)" using assms by auto
  then show ?thesis by (simp add: init_waiting_def)
qed

lemma pdelete_used_ok:
  assumes inv: "kinv k" and u: "slot_ok i" "mqueues k (nat i) = Some q"
  shows "\<exists>k'. pdelete_used i k = Inr k' \<and> kinv k' \<and> mqueues k' (nat i) = None \<and> heap_full k' = heap_full k \<and>
    running_task k' = running_task k \<and> qlist (sq k') (senders i) = [] \<and> qlist (sq k') (receivers i) = []"
proof -
  have r: "home_ok Int_Msg (Some (senders i))" "home_ok Int_Msg (Some (receivers i))" by (simp_all add: senders_def receivers_def)
  obtain k1 where k1: "wake_waiters (senders i) (k\<lparr>cpt_rst := cpt_rst k + 1\<rparr>) = Inr k1" "kinv k1"
      "qlist (sq k1) (senders i) = []" "mqueues k1 = mqueues k" "heap_full k1 = heap_full k" "running_task k1 = running_task k"
    using wake_waiters_ok [of "k\<lparr>cpt_rst := cpt_rst k + 1\<rparr>", OF _ r(1)] inv by auto
  obtain k2 where k2: "wake_waiters (receivers i) k1 = Inr k2" "kinv k2"
      "qlist (sq k2) (receivers i) = []" "mqueues k2 = mqueues k1" "heap_full k2 = heap_full k1" "running_task k2 = running_task k1"
      "\<forall>p. p \<noteq> Q_ready \<longrightarrow> qlist (sq k1) p = [] \<longrightarrow> qlist (sq k2) p = []"
    using wake_waiters_ok [OF k1(2) r(2)] by auto
  have s: "qlist (sq k2) (senders i) = []" using k2(7) k1(3) by (simp add: senders_def)
  have "kinv (put_mqueue i None k2)" by (rule kinv_slot [OF k2(2) s k2(3)]) simp
  moreover have "free_mqueue i k2 = Inr (put_mqueue i None k2)"
    using u k1(4) k2(4) by (simp add: free_mqueue_def get_mqueue_used)
  ultimately show ?thesis using k1 k2 s by (simp add: pdelete_used_def)
qed

lemma pdelete_ok:
  assumes "kinv k" and "slot_ok i"
  shows "\<exists>v k'. pdelete i k = Inr (v, k') \<and> kinv k' \<and> mqueues k' (nat i) = None \<and> heap_full k' = heap_full k \<and>
    (mqueues k (nat i) = None \<longrightarrow> v = - 1 \<and> k' = k) \<and>
    (mqueues k (nat i) \<noteq> None \<longrightarrow> v = 0 \<and> qlist (sq k') (senders i) = [] \<and> qlist (sq k') (receivers i) = [])"
proof (cases "mqueues k (nat i)")
  case None
  then show ?thesis using assms by (simp add: pdelete_def mqueue_unused_def get_slot_def)
next
  case (Some q)
  then show ?thesis using pdelete_used_ok [OF assms Some] assms(2)
    by (auto simp: pdelete_def mqueue_unused_def get_slot_def)
qed

lemma alloc_mqueue_ok:
  assumes "kinv k" and "qlist (sq k) (senders i) = []" and "qlist (sq k) (receivers i) = []"
    and "slot_ok i" and "unat n \<le> 32767" and "\<not> heap_full k"
  shows "\<exists>k'. alloc_mqueue i n k = Inr k' \<and> kinv k' \<and>
    mqueues k' = (mqueues k)(nat i := Some \<lparr>mq_msgs = [], mq_size = n, mq_count = 0\<rparr>)"
  using kinv_slot [OF assms(1-3), of "Some \<lparr>mq_msgs = [], mq_size = n, mq_count = 0\<rparr>"] assms(4-)
  by (simp add: alloc_mqueue_def init_waiting_same assms(2,3) mqueue_ok_def)

lemma unused_no_waiters:
  assumes "kinv k" and "mqueues k (nat i) = None"
  shows "qlist (sq k) (senders i) = []" and "qlist (sq k) (receivers i) = []"
proof -
  have l: "links_ok k" using assms(1) by (rule kinv_links)
  have "t \<notin> set (qlist (sq k) q)" if "\<not> head_ok (mqueues k) q" for t q
    using state_of_queue [OF l] links_ok_head [OF l] that by metis
  then show "qlist (sq k) (senders i) = []" and "qlist (sq k) (receivers i) = []"
    using assms(2) by (metis senders_def receivers_def head_ok.simps(1,2) list.set_intros(1) neq_Nil_conv)+
qed

lemma first_available_ok:
  "first_available_queue k = - 1 \<or> slot_ok (first_available_queue k) \<and> mqueues k (nat (first_available_queue k)) = None"
  by (auto simp: first_available_queue_def slot_ok_def nbqueue_def find_Some_iff split: option.split)

lemma pcreate_ok:
  assumes inv: "kinv k" and h: "\<not> heap_full k" shows "\<exists>v k'. pcreate n k = Inr (v, k') \<and> kinv k'"
proof (cases "n > 32767 \<or> n \<le> 0 \<or> first_available_queue k = - 1")
  case True
  then show ?thesis using inv by (auto simp: pcreate_def Let_def)
next
  case False
  let ?i = "first_available_queue k"
  have s: "slot_ok ?i" "mqueues k (nat ?i) = None" using first_available_ok [of k] False by auto
  have "unat (word_of_int n :: u32) = nat n"
    using False by (simp add: unat_eq_nat_uint uint_word_of_int)
  then have "unat (word_of_int n :: u32) \<le> 32767" using False by linarith
  then obtain k' where "alloc_mqueue ?i (word_of_int n) k = Inr k'" "kinv k'"
    using alloc_mqueue_ok [OF inv unused_no_waiters [OF inv s(2)] s(1) _ h] by blast
  then show ?thesis using False by (simp add: pcreate_def Let_def)
qed

lemma preset_ok:
  assumes inv: "kinv k" and h: "\<not> heap_full k" and s: "slot_ok i"
  shows "\<exists>v k'. preset i k = Inr (v, k') \<and> kinv k' \<and>
    (\<forall>q. mqueues k (nat i) = Some q \<longrightarrow> v = 0 \<and>
       mqueues k' (nat i) = Some \<lparr>mq_msgs = [], mq_size = mq_count q, mq_count = 0\<rparr>)"
proof (cases "mqueues k (nat i)")
  case None
  then show ?thesis using inv s by (simp add: preset_def mqueue_unused_def get_slot_def)
next
  case (Some q)
  have q: "mqueue_ok q" using kinv_mqueue_ok [OF inv Some] by simp
  have inv': "kinv (k\<lparr>cpt_rst := cpt_rst k + 1\<rparr>)" using inv by simp
  obtain v k1 where k1: "pdelete i (k\<lparr>cpt_rst := cpt_rst k + 1\<rparr>) = Inr (v, k1)" "kinv k1" "heap_full k1 = heap_full k"
      "qlist (sq k1) (senders i) = []" "qlist (sq k1) (receivers i) = []"
    using pdelete_ok [OF inv' s] Some by auto
  have "length (mq_msgs q) < 2 ^ 32" using q by (simp add: mqueue_ok_def)
  then have "unat (mq_count q) \<le> 32767"
    using q by (simp add: mqueue_ok_def unat_of_nat take_bit_nat_eq_self)
  then obtain k2 where "alloc_mqueue i (mq_count q) k1 = Inr k2" "kinv k2"
      "mqueues k2 = (mqueues k1)(nat i := Some \<lparr>mq_msgs = [], mq_size = mq_count q, mq_count = 0\<rparr>)"
    using alloc_mqueue_ok [OF k1(2,4,5) s] k1(3) h by auto
  then show ?thesis using k1(1) Some s
    by (simp add: preset_def mqueue_unused_def get_slot_def get_mqueue_used)
qed

end
