(* ===== verification/ProcessOps.thy ===== *)
theory ProcessOps
  imports KernelOps
begin

text \<open>
  The calls of \<open>exit.c\<close>, \<open>kill.c\<close>, \<open>wait.c\<close>, \<open>prio.c\<close> and \<open>start.c\<close> keep the invariant of the task
  structures. The section on lookups says what \<open>pid_to_task\<close> and \<open>queue_from_msg\<close> find; the others
  follow the calls.
\<close>

section \<open>Lookups\<close>

lemma pid_of_Some [simp]: "tasks k t = Some x \<Longrightarrow> pid_of k t = t_pid x"
  by (simp add: pid_of_def)

lemma kinv_pids:
  assumes "kinv k" and "tasks k t = Some x" and "alive (t_state x)"
  shows "t_pid x \<in> pids_used (kpids k)" and "0 \<le> t_pid x" and "t_pid x \<le> 32"
    and "tasks k u = Some y \<Longrightarrow> alive (t_state y) \<Longrightarrow> t_pid y = t_pid x \<Longrightarrow> u = t"
proof -
  have p: "pids_ok k" using kinv_kinv1 [OF assms(1)] by (simp add: kinv1_def)
  show "t_pid x \<in> pids_used (kpids k)" "0 \<le> t_pid x" "t_pid x \<le> 32"
    using p assms(2,3) unfolding pids_ok_def by blast+
  show "tasks k u = Some y \<Longrightarrow> alive (t_state y) \<Longrightarrow> t_pid y = t_pid x \<Longrightarrow> u = t"
    using p assms(2,3) unfolding pids_ok_def by blast
qed

lemma glob_alive:
  assumes "links_ok k" and "t \<in> set (qlist (glob k) ())"
  shows "\<exists>x. tasks k t = Some x \<and> alive (t_state x)"
proof -
  have "qlink (glob k) t = Some ()" using assms by (simp add: q_ok_home)
  then show ?thesis using links_okD [OF assms(1), of t] by (auto simp: link_ok_def split: option.splits)
qed

lemma alive_glob:
  assumes "links_ok k" and "tasks k t = Some x" and "alive (t_state x)"
  shows "t \<in> set (qlist (glob k) ())"
proof -
  have "qlink (glob k) t = Some ()" using links_ok_alive [OF assms(1,2)] assms(3) by simp
  then show ?thesis using assms(1) by (simp add: q_ok_home [symmetric])
qed

text \<open>\<open>pid_to_task\<close> finds the living task that has the identifier, and only that one.\<close>

lemma pid_to_task_ok:
  assumes inv: "kinv k"
  obtains t x where "pid_to_task pid k = Inr (Some t)" "tasks k t = Some x" "alive (t_state x)" "t_pid x = pid"
  | "pid_to_task pid k = Inr None" "\<forall>t x. tasks k t = Some x \<longrightarrow> alive (t_state x) \<longrightarrow> t_pid x \<noteq> pid"
proof -
  have l: "links_ok k" using inv by (rule kinv_links)
  obtain c y where c: "running_task k = Some c" "tasks k c = Some y" "t_state y = Running"
    using kinv_current [OF inv] by blast
  show ?thesis
  proof (cases "t_pid y = pid")
    case True
    then show ?thesis using that(1) [of c y] c by (simp add: pid_to_task_def)
  next
    case False
    then have e: "pid_to_task pid k = Inr (find (\<lambda>t. pid_of k t = pid) (qlist (glob k) ()))"
      using c by (simp add: pid_to_task_def)
    show ?thesis
    proof (cases "find (\<lambda>t. pid_of k t = pid) (qlist (glob k) ())")
      case None
      then have "\<forall>t\<in>set (qlist (glob k) ()). pid_of k t \<noteq> pid" by (auto simp: find_None_iff)
      then show ?thesis using that(2) e None alive_glob [OF l] by fastforce
    next
      case (Some t)
      then have "t \<in> set (qlist (glob k) ())" "pid_of k t = pid" by (auto simp: find_Some_iff)
      then show ?thesis using that(1) [of t] e Some glob_alive [OF l] by fastforce
    qed
  qed
qed

lemma find_unique: "find (\<lambda>q. l = Some q) qs = (if \<exists>q\<in>set qs. l = Some q then l else None)"
  by (induction qs) auto

text \<open>The waiting list that holds a task of this identifier is the one the task is linked on.\<close>

lemma queue_from_msg_link:
  assumes inv: "kinv k" and t: "tasks k t = Some x" "alive (t_state x)"
  shows "queue_from_msg (t_pid x) k = (if t_state x = Int_Msg then qlink (sq k) t else None)"
proof -
  let ?qs = "concat (map (\<lambda>i. if mqueues k i = None then [] else [Q_senders i, Q_receivers i]) [0..<20])"
  have l: "links_ok k" using inv by (rule kinv_links)
  have P: "(\<exists>u\<in>set (qlist (sq k) q). pid_of k u = t_pid x) \<longleftrightarrow> qlink (sq k) t = Some q" if "q \<in> set ?qs" for q
  proof
    assume "\<exists>u\<in>set (qlist (sq k) q). pid_of k u = t_pid x"
    then obtain u where u: "u \<in> set (qlist (sq k) q)" "pid_of k u = t_pid x" by blast
    obtain y where y: "tasks k u = Some y" "home_ok (t_state y) (Some q)" "qlink (sq k) u = Some q"
      using state_of_queue [OF l u(1)] by blast
    have "t_state y = Int_Msg" using that y(2) by (auto simp: home_ok_inj split: if_splits)
    then have "u = t" using kinv_pids(4) [OF inv t y(1)] u(2) y(1) by simp
    then show "qlink (sq k) t = Some q" using y(3) by simp
  next
    assume "qlink (sq k) t = Some q"
    then show "\<exists>u\<in>set (qlist (sq k) q). pid_of k u = t_pid x"
      using l t(1) by (auto simp: q_ok_home intro!: bexI [of _ t])
  qed
  have "queue_from_msg (t_pid x) k = find (\<lambda>q. qlink (sq k) t = Some q) ?qs"
    unfolding queue_from_msg_def by (rule find_cong [OF refl]) (rule P)
  also have "\<dots> = (if t_state x = Int_Msg then qlink (sq k) t else None)"
  proof (cases "t_state x = Int_Msg")
    case True
    then obtain i where i: "qlink (sq k) t = Some (Q_senders i) \<or> qlink (sq k) t = Some (Q_receivers i)"
      using link_okD [OF l t(1)] by auto
    then have "mqueues k i \<noteq> None" using links_ok_head [OF l t(1)] by auto
    moreover from this have "i < 20" using kinv_mqueue_ok [OF inv] by auto
    ultimately show ?thesis using i True by (auto simp: find_unique)
  next
    case False
    then have "\<forall>q\<in>set ?qs. qlink (sq k) t \<noteq> Some q"
      using link_okD [OF l t(1)] by (auto simp: home_ok_inj split: if_splits)
    then show ?thesis using False by (simp add: find_unique)
  qed
  finally show ?thesis .
qed

lemma queue_from_msg_put:
  assumes "tasks k t = Some x" and "t_pid y = t_pid x"
  shows "queue_from_msg pid (put_task t y k) = queue_from_msg pid k"
proof -
  have "pid_of (put_task t y k) = pid_of k" using assms by (auto simp: pid_of_def fun_eq_iff)
  then show ?thesis by (simp add: queue_from_msg_def)
qed

section \<open>exit\<close>

text \<open>The state after \<open>exit_task\<close> has put the task among the zombies.\<close>

definition buried :: "tid \<Rightarrow> task \<Rightarrow> pidmap \<Rightarrow> kst \<Rightarrow> kst" where
  "buried t z m k =
     move_task t Zombie Q_zombie (put_task t z (k\<lparr>glob := q_unlink t (glob k), kpids := m\<rparr>))"

lemma glob_kpids_same [simp]:
  "tasks (k\<lparr>glob := g, kpids := m\<rparr>) = tasks k" "sq (k\<lparr>glob := g, kpids := m\<rparr>) = sq k"
  "prio_of (k\<lparr>glob := g, kpids := m\<rparr>) = prio_of k"
  by (simp_all add: prio_of_def fun_eq_iff)

lemma kinv1_buried:
  assumes inv: "kinv k" and t: "tasks k t = Some x" "alive (t_state x)" "idle_task k \<noteq> Some t"
    and z: "t_parent z = t_parent x"
    and m: "free_pid (t_pid x) (kpids k) = Inr m"
  shows "kinv1 (buried t z m k)"
proof -
  have l: "links_ok k" using inv by (rule kinv_links)
  note i1 = kinv_kinv1 [OF inv]
  have "links_ok (buried t z m k)"
    unfolding buried_def
  proof (rule links_ok_move [where x = z])
    show "link_ok (put_task t z (k\<lparr>glob := q_unlink t (glob k), kpids := m\<rparr>)) u" if "u \<noteq> t" for u
      using links_okD [OF l, of u] that by (simp add: link_ok_def split: option.splits)
  qed (use l in simp_all)
  moreover have "queues_sorted (buried t z m k)"
  proof -
    have p: "prio_of (buried t z m k) = prio_of (put_task t z k)"
      by (auto simp: buried_def prio_of_def fun_eq_iff)
    have rest: "sorted (map (prio_of (put_task t z k)) (remove1 t (qlist (sq k) q)))" for q
    proof (rule sorted_map_agree)
      show "sorted (map (prio_of k) (remove1 t (qlist (sq k) q)))"
        using i1 by (simp add: kinv1_def queues_sorted_def sorted_map_remove1)
      show "prio_of (put_task t z k) u = prio_of k u" if "u \<in> set (remove1 t (qlist (sq k) q))" for u
        using that l by (auto simp: set_remove1_eq q_ok_distinct)
    qed
    have pm: "prio_of (put_task t z (k\<lparr>glob := q_unlink t (glob k), kpids := m\<rparr>)) = prio_of (put_task t z k)"
      by (auto simp: prio_of_def fun_eq_iff)
    have "sorted (map (prio_of (put_task t z k)) (qlist (sq (buried t z m k)) q))" for q
      using rest by (simp add: buried_def q_move_def pm sorted_insert_asc del: prio_of_put)
    then show ?thesis unfolding queues_sorted_def p by blast
  qed
  moreover have "parents_ok (buried t z m k)"
    using i1 t z by (auto simp: kinv1_def parents_ok_def buried_def)
  moreover have "running_ok (buried t z m k)" "idle_ok (buried t z m k)" "mqs_ok (buried t z m k)"
    using i1 t(3) by (auto simp: kinv1_def running_ok_def idle_ok_def mqs_ok_def buried_def)
  moreover have "pids_ok (buried t z m k)"
  proof -
    have p: "pids_ok k" using i1 by (simp add: kinv1_def)
    have m': "pids_used m = pids_used (kpids k) - {t_pid x}" "pidmap_wf m"
      using free_pid_used [OF m] p by (auto simp: pids_ok_def pidmap_wf_def)
    have old: "tasks k u = Some y \<and> u \<noteq> t" if "tasks (buried t z m k) u = Some y" "alive (t_state y)" for u y
      using that by (auto simp: buried_def split: if_splits)
    have k: "kpids (buried t z m k) = m" by (simp add: buried_def)
    show ?thesis
      unfolding pids_ok_def k
    proof (intro conjI allI impI)
      fix u y assume y: "tasks (buried t z m k) u = Some y" "alive (t_state y)"
      then have u: "tasks k u = Some y" "u \<noteq> t" using old by auto
      have "t_pid y \<noteq> t_pid x" using kinv_pids(4) [OF inv t(1,2) u(1) y(2)] u(2) by auto
      then show "t_pid y \<in> pids_used m" "0 \<le> t_pid y" "t_pid y \<le> 32"
        using kinv_pids(1-3) [OF inv u(1) y(2)] m'(1) by auto
    next
      fix u v y w
      assume 1: "tasks (buried t z m k) u = Some y" "tasks (buried t z m k) v = Some w" "alive (t_state y)"
        "alive (t_state w)" "t_pid y = t_pid w"
      then have "tasks k u = Some y" "tasks k v = Some w" using old by auto
      then show "u = v" using kinv_pids(4) [OF inv, of v w u y] 1(3-) by simp
    qed (rule m')
  qed
  ultimately show ?thesis by (simp add: kinv1_def)
qed


lemma alive_glob_link: "links_ok k \<Longrightarrow> tasks k t = Some x \<Longrightarrow> alive (t_state x) \<Longrightarrow> qlink (glob k) t = Some ()"
  using links_ok_alive [of k t x] by auto

lemma free_pid_alive:
  assumes "kinv k" and "tasks k t = Some x" and "alive (t_state x)"
  shows "\<exists>m. free_pid (t_pid x) (kpids k) = Inr m"
proof -
  have "pidmap_wf (kpids k)" using kinv_kinv1 [OF assms(1)] by (simp add: kinv1_def pids_ok_def)
  then show ?thesis using kinv_pids(2,3) [OF assms] by (intro free_pid_ok) simp_all
qed

text \<open>\<open>exit_task\<close> up to the notification of the parent has a total effect.\<close>

lemma bury_task_buried:
  assumes inv: "kinv k" and t: "tasks k t = Some x" "alive (t_state x)"
    and m: "free_pid (t_pid x) (kpids k) = Inr m"
  shows "bury_task t r x k = unlock_interrupted_child_parent (t_parent x)
    (buried t (x\<lparr>t_priority := death_priority (total_ticks k), t_retval := r\<rparr>) m k)"
proof -
  let ?d = "death_priority (total_ticks k)"
  let ?z = "x\<lparr>t_priority := ?d, t_retval := r\<rparr>"
  let ?k1 = "put_task t (x\<lparr>t_priority := ?d\<rparr>) k"
  have l: "links_ok k" using inv by (rule kinv_links)
  have qf: "queue_from_msg (t_pid x) ?k1 = (if t_state x = Int_Msg then qlink (sq k) t else None)"
    using queue_from_msg_put [OF t(1), of "x\<lparr>t_priority := ?d\<rparr>"] queue_from_msg_link [OF inv t] by simp
  define s where "s = (if t_state x = Int_Msg then q_unlink t (sq k) else sq k)"
  have k2: "(if queue_from_msg (t_pid x) ?k1 \<noteq> None then dequeue t ?k1 else Inr ?k1) = Inr (?k1\<lparr>sq := s\<rparr>)"
  proof (cases "t_state x = Int_Msg")
    case True
    then have "qlink (sq k) t \<noteq> None" using link_okD [OF l t(1)] by auto
    then show ?thesis using True qf l by (simp add: s_def dequeue_ok)
  next
    case False
    then show ?thesis using qf by (simp add: s_def)
  qed
  let ?k4 = "put_task t ?z (k\<lparr>sq := s, glob := q_unlink t (glob k), kpids := m\<rparr>)"
  have g: "remove_from_global_list t (?k1\<lparr>sq := s\<rparr>) = Inr (?k1\<lparr>sq := s, glob := q_unlink t (glob k)\<rparr>)"
    using alive_glob_link [OF l t] l by (simp add: remove_from_global_list_def q_del_unlink)
  have link: "is_current t ?k4 \<or> t_state ?z = Startup \<or> t_state ?z = Int_Msg \<longleftrightarrow> qlink (sq ?k4) t = None"
  proof -
    obtain c y where c: "running_task k = Some c" "tasks k c = Some y" "t_state y = Running" "qlink (sq k) c = None"
      using kinv_current [OF inv] by blast
    have "running_task k = Some t" if "t_state x = Running" using link_ok_running [OF l t(1) that] .
    then show ?thesis
      using link_okD [OF l t(1)] t(2) c t(1) by (cases "t_state x") (auto simp: is_current_def s_def)
  qed
  have "set_task_zombie t ?k4 = Inr (move_task t Zombie Q_zombie ?k4)"
    unfolding set_task_zombie_def
  proof (rule set_task_state_move [where x = ?z])
    show "q_ok (sq ?k4)" using l by (simp add: s_def)
    show "t_state ?z \<noteq> Zombie" using t(2) by (auto simp: alive_def)
  qed (use link in simp_all)
  moreover have "move_task t Zombie Q_zombie ?k4 = buried t ?z m k"
  proof -
    have "prio_of ?k4 = prio_of (put_task t ?z (k\<lparr>glob := q_unlink t (glob k), kpids := m\<rparr>))"
      by (auto simp: prio_of_def fun_eq_iff)
    then show ?thesis using l by (auto simp: buried_def move_task_def put_task_def s_def)
  qed
  moreover have pk: "put_task t ?z (?k1\<lparr>sq := s, glob := q_unlink t (glob k), kpids := m\<rparr>) = ?k4"
    by (simp add: put_task_def)
  ultimately show ?thesis
    using t(1) k2 g m by (simp add: bury_task_def pk)
qed

lemma buried_simps [simp]:
  "running_task (buried t z m k) = running_task k" "idle_task (buried t z m k) = idle_task k"
  "tasks (buried t z m k) = (tasks k)(t := Some (z\<lparr>t_state := Zombie\<rparr>))" "kpids (buried t z m k) = m"
  "total_ticks (buried t z m k) = total_ticks k" "mqueues (buried t z m k) = mqueues k"
  "heap_full (buried t z m k) = heap_full k" "cpt_rst (buried t z m k) = cpt_rst k"
  "kids (buried t z m k) = kids k"
  by (simp_all add: buried_def)

lemma kinv0_ready:
  assumes inv: "kinv0 k" and t: "tasks k t = Some x" "alive (t_state x)" "t_state x \<noteq> Ready" "t_state x \<noteq> Running"
    "t_state x \<noteq> Int_Msg" "running_task k \<noteq> Some t"
  shows "set_task_ready t k = Inr (move_task t Ready Q_ready k) \<and> kinv0 (move_task t Ready Q_ready k)"
proof
  have l: "links_ok k" using inv by (rule kinv_links)
  show "set_task_ready t k = Inr (move_task t Ready Q_ready k)"
    unfolding set_task_ready_def using l t link_okD [OF l t(1)]
    by (intro set_task_state_move) (auto simp: is_current_def alive_def home_ok_inj)
  have "kinv1 (move_task t Ready Q_ready k)"
    using inv t unfolding kinv0_def kinv1_def
    by (auto intro!: links_ok_move' queues_sorted_move parents_ok_move running_ok_move idle_ok_move pids_ok_move
        simp: mqs_ok_def)
  then show "kinv0 (move_task t Ready Q_ready k)"
    using inv t(6) by (auto simp: kinv0_def not_late_def)
qed

lemma unlock_parent_ok:
  assumes inv: "kinv0 k" and p: "running_task k \<noteq> p \<or> (\<exists>x. tasks k (the p) = Some x \<and> t_state x \<noteq> Int_Child)"
    and ne: "p \<noteq> None"
  shows "case unlock_interrupted_child_parent p k of
      Inl e \<Rightarrow> e = Use_After_Free \<and> tasks k (the p) = None
    | Inr k' \<Rightarrow> kinv0 k' \<and> running_task k' = running_task k \<and> kpids k' = kpids k \<and>
        (k' = k \<and> (\<forall>x. tasks k (the p) = Some x \<longrightarrow> t_state x \<noteq> Int_Child) \<or> (\<exists>q x. p = Some q \<and> tasks k q = Some x \<and> t_state x = Int_Child \<and> k' = move_task q Ready Q_ready k))"
proof -
  obtain q where q: "p = Some q" using ne by auto
  show ?thesis
  proof (cases "tasks k q")
    case None
    then show ?thesis using q by (simp add: unlock_interrupted_child_parent_def deref_def get_task_def)
  next
    case (Some x)
    show ?thesis
    proof (cases "t_state x = Int_Child")
      case True
      then have "set_task_ready q k = Inr (move_task q Ready Q_ready k) \<and> kinv0 (move_task q Ready Q_ready k)"
        using Some p q by (intro kinv0_ready [OF inv Some]) auto
      then show ?thesis using Some q True
        by (auto simp: unlock_interrupted_child_parent_def deref_def)
    next
      case False
      then show ?thesis using Some q inv by (simp add: unlock_interrupted_child_parent_def deref_def)
    qed
  qed
qed

text \<open>
  \<open>exit_task\<close>: a freed parent is the only failure; otherwise the task is a zombie with its return
  value, its identifier is free again, and a parent that waited for it is ready.
\<close>

definition dead :: "tid \<Rightarrow> int \<Rightarrow> task \<Rightarrow> kst \<Rightarrow> bool" where
  "dead t r x k \<longleftrightarrow> (\<exists>y. tasks k t = Some y \<and> t_state y = Zombie \<and> t_retval y = r \<and> t_pid y = t_pid x) \<and>
     t_pid x \<notin> pids_used (kpids k)"

lemma bury_task_ok:
  assumes inv: "kinv k" and t: "tasks k t = Some x" "alive (t_state x)" "idle_task k \<noteq> Some t"
  shows "case bury_task t r x k of
      Inl e \<Rightarrow> e = Use_After_Free \<and> tasks k (the (t_parent x)) = None
    | Inr k' \<Rightarrow> kinv0 k' \<and> running_task k' = running_task k \<and> (running_task k \<noteq> Some t \<longrightarrow> kinv k') \<and> dead t r x k' \<and>
        (\<forall>p y. t_parent x = Some p \<longrightarrow> p \<noteq> t \<longrightarrow> tasks k p = Some y \<longrightarrow> t_state y = Int_Child \<longrightarrow>
           (\<exists>y'. tasks k' p = Some y' \<and> t_state y' = Ready))"
proof -
  obtain m where m: "free_pid (t_pid x) (kpids k) = Inr m" using free_pid_alive [OF inv t(1,2)] by blast
  define z where "z = x\<lparr>t_priority := death_priority (total_ticks k), t_retval := r\<rparr>"
  let ?b = "buried t z m k"
  have e: "bury_task t r x k = unlock_interrupted_child_parent (t_parent x) ?b"
    unfolding z_def by (rule bury_task_buried [OF inv t(1,2) m])
  obtain c y where c: "running_task k = Some c" "tasks k c = Some y" "t_state y = Running"
    using kinv_current [OF inv] by blast
  have k1: "kinv1 ?b" by (rule kinv1_buried [OF inv t _ m]) (simp add: z_def)
  moreover have "not_late ?b" using c by (auto simp: not_late_def)
  ultimately have k0: "kinv0 ?b" by (simp add: kinv0_def)
  obtain p where p: "t_parent x = Some p"
    using kinv_kinv1 [OF inv] t by (auto simp: kinv1_def parents_ok_def)
  have cs: "running_task ?b \<noteq> Some p \<or> (\<exists>x. tasks ?b (the (Some p)) = Some x \<and> t_state x \<noteq> Int_Child)"
    using c by auto
  have d: "dead t r x ?b" using free_pid_used [OF m] by (simp add: dead_def z_def)
  show ?thesis
  proof (cases "bury_task t r x k")
    case (Inl err)
    then show ?thesis using unlock_parent_ok [OF k0 cs] e p by (auto split: if_splits)
  next
    case (Inr k')
    have u: "kinv0 k'" "running_task k' = running_task k" "kpids k' = m"
        "k' = ?b \<and> (\<forall>x. tasks ?b p = Some x \<longrightarrow> t_state x \<noteq> Int_Child) \<or>
          (\<exists>x. tasks ?b p = Some x \<and> t_state x = Int_Child \<and> k' = move_task p Ready Q_ready ?b)"
    proof -
      have w: "unlock_interrupted_child_parent (Some p) ?b = Inr k'" using e p Inr by simp
      show "kinv0 k'" "running_task k' = running_task k" "kpids k' = m"
          "k' = ?b \<and> (\<forall>x. tasks ?b p = Some x \<longrightarrow> t_state x \<noteq> Int_Child) \<or>
          (\<exists>x. tasks ?b p = Some x \<and> t_state x = Int_Child \<and> k' = move_task p Ready Q_ready ?b)"
        using unlock_parent_ok [OF k0 cs] unfolding w by auto
    qed
    have "kinv k'" if "c \<noteq> t"
      using u(1,2,4) c that by (auto simp: kinv_def)
    moreover have "dead t r x k'" using u(4) d by (auto simp: dead_def)
    moreover have "\<exists>y'. tasks k' p = Some y' \<and> t_state y' = Ready"
      if "p \<noteq> t" "tasks k p = Some y" "t_state y = Int_Child" for y
      using u(4) that by auto
    ultimately show ?thesis using u(1,2) p Inr c by auto
  qed
qed


lemma exit_task_ok:
  assumes inv: "kinv k" and t: "tasks k t = Some x" "alive (t_state x)"
  shows "case exit_task (Some t) r k of
      Inl e \<Rightarrow> e = Use_After_Free \<and> tasks k (the (t_parent x)) = None
    | Inr (v, k') \<Rightarrow> (if idle_task k = Some t then v = - einval \<and> k' = k
        else v = 0 \<and> kinv0 k' \<and> running_task k' = running_task k \<and> (running_task k \<noteq> Some t \<longrightarrow> kinv k') \<and> dead t r x k')"
  using t bury_task_ok [OF inv t, of r]
  by (auto simp: exit_task_def is_idle_def alive_def split: sum.splits)

lemma exit_current_keeps:
  assumes inv: "kinv k" and c: "running_task k \<noteq> idle_task k"
  shows "keeps (exit_current r k)"
proof -
  obtain t x where t: "running_task k = Some t" "tasks k t = Some x" "t_state x = Running"
    using kinv_current [OF inv] by blast
  show ?thesis
  proof (cases "exit_task (Some t) r k")
    case (Inl e)
    then show ?thesis using exit_task_ok [OF inv t(2), of r] t by (simp add: exit_current_def)
  next
    case (Inr p)
    then have "kinv0 (snd p)" using exit_task_ok [OF inv t(2), of r] t c by (auto split: prod.splits)
    then show ?thesis using Inr t by (cases p) (simp add: exit_current_def keeps_schedule_then)
  qed
qed

lemma kill_keeps:
  assumes inv: "kinv k" and c: "running_task k \<noteq> idle_task k"
  shows "keeps (kill pid k)"
proof (cases rule: pid_to_task_ok [OF inv, of pid])
  case (1 t x)
  show ?thesis
  proof (cases "idle_task k = Some t")
    case True
    then show ?thesis using 1 inv by (simp add: kill_def is_idle_def keeps_return)
  next
    case False
    show ?thesis
    proof (cases "exit_task (Some t) 0 k")
      case (Inl e)
      then show ?thesis using exit_task_ok [OF inv 1(2,3), of 0] 1 False by (simp add: kill_def is_idle_def)
    next
      case (Inr p)
      then obtain v k' where p: "p = (v, k')" "kinv0 k'" "running_task k' = running_task k"
          "running_task k \<noteq> Some t \<longrightarrow> kinv k'"
        using exit_task_ok [OF inv 1(2,3), of 0] False by (auto split: prod.splits)
      have "kill pid k = (if is_current t k' then schedule_then (K_ret v) k' else return_user v None k')"
        using Inr p 1 False by (simp add: kill_def is_idle_def)
      then show ?thesis using p by (simp add: is_current_def keeps_schedule_then keeps_return)
    qed
  qed
next
  case 2
  then show ?thesis using inv by (simp add: kill_def keeps_return)
qed

section \<open>waitpid\<close>

lemma collect_child_keeps:
  assumes inv: "kinv k" and z: "tasks k t = Some x" "t_state x = Zombie"
  shows "keeps (collect_child t want k)"
proof (cases "free_task t k")
  case (Inl e)
  then show ?thesis using z free_task_Inl [OF Inl] inv by (auto simp: collect_child_def soft_error_def)
next
  case (Inr k')
  obtain c y where c: "running_task k = Some c" "tasks k c = Some y" "t_state y = Running"
    using kinv_current [OF inv] by blast
  then have n: "running_task k \<noteq> Some t" using z by auto
  have i: "idle_task k \<noteq> Some t" using kinv_kinv1 [OF inv] z by (auto simp: kinv1_def idle_ok_def)
  obtain s m where k': "k' = k\<lparr>sq := q_unlink t (sq k), kids := s, pm := m, tasks := (tasks k)(t := None)\<rparr>" "q_ok s"
    using free_task_Inr [OF Inr] inv by auto
  have "kinv0 k'" unfolding k'(1) by (rule kinv0_free [OF kinv_kinv0 [OF inv] k'(2) n i z])
  moreover have "running_task k' = Some c" "tasks k' c = Some y" using c n k' by auto
  ultimately have "kinv k'" using c(3) by (auto simp: kinv_def)
  then show ?thesis using Inr z by (simp add: collect_child_def keeps_return)
qed

lemma interrupted_child_keeps:
  assumes inv: "kinv k" and c: "running_task k = Some c" "idle_task k \<noteq> Some c"
  shows "keeps (bindE (set_task_interrupted_child c k) (schedule_then r))"
proof -
  have e: "set_task_interrupted_child c k = Inr (move_task c Int_Child Q_child k)"
    unfolding set_task_interrupted_child_def by (rule set_current_state [OF inv c(1)]) simp
  have "kinv1 (move_task c Int_Child Q_child k)" by (rule current_moves [OF inv c]) simp_all
  moreover have "not_late (move_task c Int_Child Q_child k)" using c by (auto simp: not_late_def)
  ultimately show ?thesis using e by (simp add: keeps_schedule_then kinv0_def)
qed

lemma wait_any_child_keeps:
  assumes inv: "kinv k" and c: "running_task k \<noteq> idle_task k"
  shows "keeps (wait_any_child want k)"
proof -
  obtain t where t: "running_task k = Some t" using kinv_current [OF inv] by blast
  show ?thesis
  proof (cases "qlist (kids k) t = []")
    case True
    then show ?thesis using t inv by (simp add: wait_any_child_def keeps_return)
  next
    case False
    then have e: "wait_any_child want k = (case find (\<lambda>t. map_option t_state (tasks k t) = Some Zombie) (qlist (kids k) t) of
           Some child \<Rightarrow> collect_child child want k
         | None \<Rightarrow> bindE (set_task_interrupted_child t k) (schedule_then (K_wait_any want)))"
      using t by (simp add: wait_any_child_def)
    show ?thesis
    proof (cases "find (\<lambda>t. map_option t_state (tasks k t) = Some Zombie) (qlist (kids k) t)")
      case None
      then show ?thesis using e interrupted_child_keeps [OF inv t] c t by simp
    next
      case (Some u)
      then obtain x where "tasks k u = Some x" "t_state x = Zombie" by (auto simp: find_Some_iff)
      then show ?thesis using e Some collect_child_keeps [OF inv] by simp
    qed
  qed
qed

lemma wait_for_child_keeps:
  assumes inv: "kinv k" and c: "running_task k \<noteq> idle_task k"
  shows "keeps (wait_for_child t want k)"
proof -
  obtain u where u: "running_task k = Some u" using kinv_current [OF inv] by blast
  show ?thesis
  proof (cases "tasks k t")
    case None
    then show ?thesis by (simp add: wait_for_child_def is_task_zombie_def get_task_def)
  next
    case (Some x)
    then show ?thesis using collect_child_keeps [OF inv Some] interrupted_child_keeps [OF inv u] c u
      by (simp add: wait_for_child_def is_task_zombie_def)
  qed
qed

lemma wait_specific_child_keeps:
  assumes inv: "kinv k" and c: "running_task k \<noteq> idle_task k"
  shows "keeps (wait_specific_child pid want k)"
proof -
  obtain p where "pid_to_task pid k = Inr p" using pid_to_task_ok [OF inv, of pid] by metis
  moreover obtain t where "running_task k = Some t" using kinv_current [OF inv] by blast
  ultimately show ?thesis using inv c
    by (simp add: wait_specific_child_def keeps_return wait_for_child_keeps split: option.split)
qed

lemma waitpid_keeps:
  assumes inv: "kinv k" and c: "running_task k \<noteq> idle_task k"
  shows "keeps (waitpid pid p k)"
proof -
  obtain t x where "running_task k = Some t" "tasks k t = Some x" using kinv_current [OF inv] by blast
  then show ?thesis using inv c
    by (simp add: waitpid_def current_task_def keeps_return wait_any_child_keeps wait_specific_child_keeps)
qed


section \<open>chprio\<close>

text \<open>The task is sorted again into the queue it is on.\<close>

definition requeued :: "tid \<Rightarrow> kst \<Rightarrow> kst" where
  "requeued t k = (case qlink (sq k) t of
     None \<Rightarrow> k | Some q \<Rightarrow> k\<lparr>sq := q_move (prio_of k) t q (sq k)\<rparr>)"

lemma requeued_simps [simp]:
  "tasks (requeued t k) = tasks k" "running_task (requeued t k) = running_task k"
  "idle_task (requeued t k) = idle_task k" "glob (requeued t k) = glob k" "kids (requeued t k) = kids k"
  "mqueues (requeued t k) = mqueues k" "kpids (requeued t k) = kpids k" "total_ticks (requeued t k) = total_ticks k"
  "qlink (sq (requeued t k)) = qlink (sq k)" "prio_of (requeued t k) = prio_of k"
  "q_ok (sq k) \<Longrightarrow> q_ok (sq (requeued t k))"
  by (auto simp: requeued_def split: option.split)

lemma requeued_fresh: "qlink (sq k) t = None \<Longrightarrow> requeued t k = k"
  by (simp add: requeued_def)

lemma requeued_sorted:
  assumes "q_ok (sq k)" and "\<And>q. sorted (map (prio_of k) (remove1 t (qlist (sq k) q)))"
  shows "queues_sorted (requeued t k)"
proof (cases "qlink (sq k) t")
  case None
  then have "remove1 t (qlist (sq k) q) = qlist (sq k) q" for q
    using assms(1) by (simp add: remove1_idem q_unlinked_notin)
  then have "sorted (map (prio_of k) (qlist (sq k) q))" for q using assms(2) [of q] by simp
  then show ?thesis using None by (simp add: requeued_def queues_sorted_def)
next
  case (Some h)
  then show ?thesis using assms(2) by (simp add: requeued_def queues_sorted_def q_move_def sorted_insert_asc)
qed

lemma kinv_requeued:
  assumes inv: "kinv k" and t: "tasks k t = Some x" and y: "t_state y = t_state x" "t_parent y = t_parent x" "t_pid y = t_pid x"
  shows "kinv (requeued t (put_task t y k))" (is "kinv ?r")
proof -
  let ?k = "put_task t y k"
  note i1 = kinv_kinv1 [OF inv]
  have l: "links_ok k" using inv by (rule kinv_links)
  have "link_ok ?r u" for u
    using links_okD [OF link_ok_put [OF l t y(1)], of u] by (simp only: link_ok_def requeued_simps)
  moreover have "q_ok (sq ?r)" "q_ok (kids ?r)" "q_ok (glob ?r)" using l by simp_all
  ultimately have "links_ok ?r" unfolding links_ok_def by blast
  moreover have "queues_sorted ?r"
  proof (rule requeued_sorted)
    show "sorted (map (prio_of ?k) (remove1 t (qlist (sq ?k) q)))" for q
    proof (rule sorted_map_agree)
      show "sorted (map (prio_of k) (remove1 t (qlist (sq ?k) q)))"
        using i1 by (simp add: kinv1_def queues_sorted_def sorted_map_remove1)
      show "prio_of ?k u = prio_of k u" if "u \<in> set (remove1 t (qlist (sq ?k) q))" for u
        using that l by (auto simp: set_remove1_eq q_ok_distinct)
    qed
  qed (use l in simp)
  moreover have "pids_ok ?k" using i1 t y by (auto simp: kinv1_def intro: pids_ok_put)
  then have "pids_ok ?r" unfolding pids_ok_def requeued_simps .
  moreover have "parents_ok ?r" "running_ok ?r" "idle_ok ?r" "mqs_ok ?r"
    using i1 t y by (auto simp: kinv1_def parents_ok_def running_ok_def idle_ok_def mqs_ok_def)
  ultimately have k1: "kinv1 ?r" by (simp add: kinv1_def)
  obtain c z where c: "running_task k = Some c" "tasks k c = Some z" "t_state z = Running"
    using kinv_current [OF inv] by blast
  then show "kinv ?r" using kinvI [OF k1, of c "if c = t then y else z"] t y by (cases "c = t") auto
qed

lemma requeue_steps:
  assumes "q_ok (sq k)" and "qlink (sq k) t = Some q"
  shows "bindE (dequeue t k) (enqueue t q) = Inr (requeued t k)"
  using assms by (simp add: dequeue_ok enqueue_ok requeued_def)

lemma update_queue_requeued:
  assumes inv: "kinv k" and t: "tasks k t = Some x" "alive (t_state x)" and y: "t_state y = t_state x" "t_pid y = t_pid x"
  shows "update_queue_priority t (put_task t y k) = Inr (requeued t (put_task t y k))"
proof -
  have l: "links_ok k" using inv by (rule kinv_links)
  have "queue_from_state (t_state x) (t_pid x) (put_task t y k) = qlink (sq k) t"
    using queue_from_msg_put [OF t(1) y(2)] queue_from_msg_link [OF inv t] link_okD [OF l t(1)] t(2)
    by (cases "t_state x") (auto simp: queue_from_state_def)
  then show ?thesis
    using l y requeue_steps [of "put_task t y k" t]
    by (auto simp: update_queue_priority_def requeued_fresh split: option.split)
qed

lemma msg_reinsert_requeued:
  assumes inv: "kinv k" and t: "tasks k t = Some x" "t_state x = Int_Msg"
  shows "msg_reinsert t k = Inr (requeued t k)"
proof -
  have l: "links_ok k" using inv by (rule kinv_links)
  obtain q where q: "qlink (sq k) t = Some q" using link_okD [OF l t(1)] t(2) by auto
  have "queue_from_msg (t_pid x) k = Some q" using queue_from_msg_link [OF inv t(1)] t(2) q by simp
  then show ?thesis using t(1) q l by (simp add: msg_reinsert_def dequeue_ok enqueue_ok requeued_def)
qed

lemma idle_ready:
  assumes "kinv k" and "running_task k \<noteq> idle_task k"
  shows "qlist (sq k) Q_ready \<noteq> []"
proof -
  have l: "links_ok k" using assms(1) by (rule kinv_links)
  obtain i x where i: "idle_task k = Some i" "tasks k i = Some x" "t_state x = Ready \<or> t_state x = Running"
    using kinv_kinv1 [OF assms(1)] by (auto simp: kinv1_def idle_ok_def)
  then have "t_state x = Ready" using link_ok_running [OF l i(2)] assms(2) by auto
  then have "qlink (sq k) i = Some Q_ready" using link_okD [OF l i(2)] by simp
  then have "i \<in> set (qlist (sq k) Q_ready)" using l by (simp add: q_ok_home [symmetric])
  then show ?thesis by auto
qed

lemma chprio_rest_keeps:
  assumes inv: "kinv k" and c: "running_task k \<noteq> idle_task k"
  shows "keeps (chprio_rest t prio old k)"
proof (cases "is_current t k")
  case True
  have ne: "qlist (sq k) Q_ready \<noteq> []" by (rule idle_ready [OF inv c])
  then obtain h where h: "q_top Q_ready (sq k) = Some h" "h \<in> set (qlist (sq k) Q_ready)"
    by (simp add: q_top_def)
  obtain x where "tasks k h = Some x" using on_queue_live [OF kinv_links(1) [OF inv] h(2)] by blast
  then show ?thesis using h(1) True inv
    by (simp add: chprio_rest_def deref_def keeps_return keeps_schedule_then kinv_kinv0)
next
  case False
  then show ?thesis using inv by (simp add: chprio_rest_def keeps_return)
qed

lemma chprio_set_keeps:
  assumes inv: "kinv k" and c: "running_task k \<noteq> idle_task k" and t: "tasks k t = Some x" "alive (t_state x)"
  shows "keeps (chprio_set t prio x k)"
proof -
  let ?k = "put_task t (x\<lparr>t_priority := prio\<rparr>) k"
  let ?r = "requeued t ?k"
  have u: "update_queue_priority t ?k = Inr ?r" by (rule update_queue_requeued [OF inv t]) simp_all
  have r: "kinv ?r" by (rule kinv_requeued [OF inv t(1)]) simp_all
  have e: "chprio_set t prio x k =
      (if t_state x = Int_Msg then bindE (msg_reinsert t ?r) (return_user (t_priority x) None)
       else bindE (current_task ?r) (\<lambda>(c, xc).
         if \<not> is_current t ?r \<and> t_state x = Ready \<and> prio > t_priority xc
         then schedule_then (K_chprio t prio (t_priority x)) ?r
         else chprio_rest t prio (t_priority x) ?r))"
    unfolding chprio_set_def upd_task_Some [OF t(1)] bindE_simps u ..
  show ?thesis
  proof (cases "t_state x = Int_Msg")
    case True
    have m: "msg_reinsert t ?r = Inr (requeued t ?r)"
      by (rule msg_reinsert_requeued [OF r, where x = "x\<lparr>t_priority := prio\<rparr>"]) (use True in simp_all)
    have same: "put_task t (x\<lparr>t_priority := prio\<rparr>) ?r = ?r"
      by (simp add: requeued_def put_task_def split: option.split)
    then have "kinv (requeued t ?r)"
      using kinv_requeued [OF r, of t "x\<lparr>t_priority := prio\<rparr>" "x\<lparr>t_priority := prio\<rparr>"]
      unfolding same by simp
    then show ?thesis unfolding e if_P [OF True] m by (simp add: keeps_return)
  next
    case False
    obtain d y where d: "running_task ?r = Some d" "tasks ?r d = Some y" using kinv_current [OF r] by blast
    have c': "running_task ?r \<noteq> idle_task ?r" using c by simp
    have "current_task ?r = Inr (d, y)" unfolding current_task_def current_Some [OF d(1)] bindE_simps
      by (simp only: get_task_Some [OF d(2)] bindE_simps)
    then show ?thesis unfolding e if_not_P [OF False]
      using chprio_rest_keeps [OF r c'] keeps_schedule_then [OF kinv_kinv0 [OF r]] by simp
  qed
qed

lemma chprio_keeps:
  assumes inv: "kinv k" and c: "running_task k \<noteq> idle_task k"
  shows "keeps (chprio pid prio k)"
proof (cases rule: pid_to_task_ok [OF inv, of pid])
  case (1 t x)
  then show ?thesis using inv chprio_set_keeps [OF inv c 1(2,3)] by (simp add: chprio_def keeps_return)
next
  case 2
  then show ?thesis using inv by (simp add: chprio_def keeps_return)
qed


section \<open>start\<close>

text \<open>
  A block the allocator returns is new: no task is there, and no task is still linked into the
  list of children that lies in it. (A task freed while it has children leaves them linked into
  its memory, so the second half is not a matter of course.)
\<close>

definition fresh_block :: "tid \<Rightarrow> kst \<Rightarrow> bool" where
  "fresh_block t k \<longleftrightarrow> tasks k t = None \<and> qlist (kids k) t = [] \<and> qlink (kids k) t = None"

lemma fresh_links:
  assumes "links_ok k" and "tasks k t = None" shows "qlink (sq k) t = None" and "qlink (glob k) t = None"
  using links_okD [OF assms(1), of t] assms(2) by (simp_all add: link_ok_def)

lemma kids_clear_fresh:
  assumes "fresh_block t k"
  shows "(kids k)\<lparr>qlist := (qlist (kids k))(t := []), qlink := (qlink (kids k))(t := None)\<rparr> = kids k"
proof -
  have "(qlist (kids k))(t := []) = qlist (kids k)" "(qlink (kids k))(t := None) = qlink (kids k)"
    using assms by (auto simp: fresh_block_def)
  then show ?thesis by simp
qed

text \<open>What \<open>start_task\<close> leaves when it succeeds: a new task with a new identifier, not yet linked.\<close>

lemma start_task_Inr:
  assumes inv: "kinv k" and f: "fresh_block t k" and c: "running_task k = Some c"
    and run: "start_task app_of pgdir name ssize prio arg t ks k = Inr (r, k')"
  shows "(\<exists>m. r = Inl m \<and> k' = k) \<or>
    r = Inl (- eagain) \<and> (\<exists>m. k' = k\<lparr>kpids := m\<rparr> \<and> pidmap_wf m \<and> pids_used (kpids k) \<subseteq> pids_used m) \<or>
    (\<exists>x m s mem. r = Inr t \<and> k' = put_task t x (k\<lparr>kpids := m, kids := s, pm := mem\<rparr>) \<and> q_ok s \<and> pidmap_wf m \<and>
       t_state x = Startup \<and> t_kont x = K_user \<and> t_parent x = Some c \<and> t_priority x = prio \<and>
       t_pid x \<notin> pids_used (kpids k) \<and> 0 \<le> t_pid x \<and> t_pid x \<le> 32 \<and> pids_used m = insert (t_pid x) (pids_used (kpids k)) \<and>
       min_prio \<le> prio \<and> prio \<le> max_prio \<and> t \<in> set (qlist s c))"
proof (cases "ssize > ustack_sz_max \<or> app_of name = None \<or> prio > max_prio \<or> prio < min_prio")
  case True
  then show ?thesis using run by (auto simp: start_task_def split: if_splits option.splits)
next
  case False
  then obtain app where a: "app_of name = Some app" by auto
  have wf: "pidmap_wf (kpids k)" using kinv_kinv1 [OF inv] by (simp add: kinv1_def pids_ok_def)
  show ?thesis
  proof (cases rule: alloc_pid_cases [OF wf])
    case 1
    then show ?thesis using run False a wf by (auto simp: start_task_def)
  next
    case (2 p m)
    show ?thesis
    proof (cases "heap_full k")
      case True
      then show ?thesis using run False a 2 by (auto simp: start_task_def alloc_empty_task_def)
    next
      case hf: False
      let ?k1 = "put_task t empty_task (k\<lparr>kpids := m\<rparr>)"
      have k1: "alloc_empty_task t (k\<lparr>kpids := m\<rparr>) = Some ?k1"
        using hf kids_clear_fresh [OF f] by (simp add: alloc_empty_task_def put_task_def)
      then have ct: "create_task app pgdir name ssize prio arg p t ks ?k1 = Inr k'" "r = Inr t"
        using run False a 2 by (auto simp: start_task_def bind_rules)
      let ?x = "(set_task_name name empty_task)\<lparr>t_state := Startup, t_pid := p, t_priority := prio, t_parent := Some c\<rparr>"
      let ?k2 = "put_task t ?x (k\<lparr>kpids := m\<rparr>)"
      have cp: "set_parent_process t (Some c) (put_task t ((set_task_name name empty_task)\<lparr>t_state := Startup, t_pid := p, t_priority := prio\<rparr>) ?k1)
          = Inr (?k2\<lparr>kids := q_move (prio_of ?k2) t c (kids k)\<rparr>)"
      proof -
        obtain y where y: "tasks k c = Some y" using kinv_current [OF inv] c by (metis option.inject)
        then have "c \<noteq> t" using f by (auto simp: fresh_block_def)
        then have "q_add (prio_of ?k2) t c (kids k) = Inr (q_move (prio_of ?k2) t c (kids k))"
          using f inv by (intro q_add_move) (simp_all add: fresh_block_def)
        then show ?thesis using y \<open>c \<noteq> t\<close> by (simp add: set_parent_process_def put_task_def)
      qed
      obtain x' mem where lt: "load_task app pgdir ssize arg (?x\<lparr>t_first_start := True, t_esp0 := ks + (kstack_sz - 1)\<rparr>) (pm k) = Inr (x', mem)"
          "k' = put_task t x' (?k2\<lparr>kids := q_move (prio_of ?k2) t c (kids k), pm := mem\<rparr>)"
        using ct(1) cp c by (auto simp: create_task_def bind_rules)
      have x': "t_state x' = Startup" "t_parent x' = Some c" "t_priority x' = prio" "t_pid x' = p" "t_kont x' = K_user"
        using lt(1) by (auto simp: load_task_def bind_rules set_task_name_def empty_task_def)
      have "k' = put_task t x' (k\<lparr>kpids := m, kids := q_move (prio_of ?k2) t c (kids k), pm := mem\<rparr>)"
        by (simp add: lt(2) put_task_def)
      moreover have "q_ok (q_move (prio_of ?k2) t c (kids k))" "t \<in> set (qlist (q_move (prio_of ?k2) t c (kids k)) c)"
        using inv by (simp_all add: set_qlist_q_move)
      moreover have "min_prio \<le> prio" "prio \<le> max_prio" using False by simp_all
      ultimately show ?thesis using x' 2(2-) ct(2)
        by (intro disjI2 exI [where x = x'] exI [where x = m]
            exI [where x = "q_move (prio_of ?k2) t c (kids k)"] exI [where x = mem]) simp
    qed
  qed
qed


text \<open>A new task on the ready queue and on the global list: the invariant holds with it.\<close>

definition born :: "tid \<Rightarrow> task \<Rightarrow> pidmap \<Rightarrow> (tid, tid) qsys \<Rightarrow> pmem \<Rightarrow> (unit, tid) qsys \<Rightarrow> kst \<Rightarrow> kst" where
  "born t z m s mem g k =
     move_task t Ready Q_ready (put_task t z (k\<lparr>kpids := m, kids := s, pm := mem, glob := g\<rparr>))"

lemma kinv_born:
  assumes inv: "kinv k" and f: "fresh_block t k" and s: "q_ok s" and g: "q_ok g" "qlink g = (qlink (glob k))(t := Some ())"
    and m: "pidmap_wf m" "pids_used m = insert (t_pid z) (pids_used (kpids k))" "t_pid z \<notin> pids_used (kpids k)"
    "0 \<le> t_pid z" "t_pid z \<le> 32" and z: "t_parent z \<noteq> None"
  shows "kinv (born t z m s mem g k)" (is "kinv ?b")
proof -
  note i1 = kinv_kinv1 [OF inv]
  have l: "links_ok k" using inv by (rule kinv_links)
  have n: "tasks k t = None" using f by (simp add: fresh_block_def)
  have "links_ok ?b"
    unfolding born_def
  proof (rule links_ok_move [where x = z])
    show "link_ok (put_task t z (k\<lparr>kpids := m, kids := s, pm := mem, glob := g\<rparr>)) u" if "u \<noteq> t" for u
      using links_okD [OF l, of u] that g(2) by (simp add: link_ok_def split: option.splits)
  qed (use l s g in simp_all)
  moreover have "queues_sorted (put_task t z (k\<lparr>kpids := m, kids := s, pm := mem, glob := g\<rparr>))" (is "queues_sorted ?p")
  proof -
    have "sorted (map (prio_of ?p) (qlist (sq ?p) q))" for q
    proof (rule sorted_map_agree)
      show "sorted (map (prio_of k) (qlist (sq ?p) q))" using i1 by (simp add: kinv1_def queues_sorted_def)
      have "t \<notin> set (qlist (sq k) q)" using fresh_links(1) [OF l n] l by (simp add: q_unlinked_notin)
      then show "prio_of ?p u = prio_of k u" if "u \<in> set (qlist (sq ?p) q)" for u
        using that by (auto simp: prio_of_def)
    qed
    then show ?thesis unfolding queues_sorted_def by blast
  qed
  then have "queues_sorted ?b" unfolding born_def by (rule queues_sorted_move)
  moreover have "parents_ok ?b" using i1 z by (auto simp: kinv1_def parents_ok_def born_def)
  moreover obtain d y where d: "running_task k = Some d" "tasks k d = Some y" "t_state y \<noteq> Ready"
    using i1 by (auto simp: kinv1_def running_ok_def)
  then have "d \<noteq> t" using n by auto
  then have "running_ok ?b" using d by (simp add: running_ok_def born_def)
  moreover have "idle_ok ?b" "mqs_ok ?b"
    using i1 n by (auto simp: kinv1_def idle_ok_def mqs_ok_def born_def)
  moreover have "pids_ok ?b"
  proof -
    have k: "kpids ?b = m" by (simp add: born_def)
    have old: "tasks ?b u = Some y \<Longrightarrow> if u = t then t_pid y = t_pid z else tasks k u = Some y" for u y
      by (auto simp: born_def split: if_splits)
    show ?thesis
      unfolding pids_ok_def k
    proof (intro conjI allI impI)
      fix u y assume y: "tasks ?b u = Some y" "alive (t_state y)"
      show "t_pid y \<in> pids_used m" "0 \<le> t_pid y" "t_pid y \<le> 32"
        using old [OF y(1)] kinv_pids(1-3) [OF inv, of u y] y(2) m by (auto split: if_splits)
    next
      fix u v y w
      assume 1: "tasks ?b u = Some y" "tasks ?b v = Some w" "alive (t_state y)" "alive (t_state w)" "t_pid y = t_pid w"
      then show "u = v"
        using old [OF 1(1)] old [OF 1(2)] kinv_pids(1) [OF inv, of u y] kinv_pids(1) [OF inv, of v w] m(3)
          kinv_pids(4) [OF inv, of v w u y]
        by (cases "u = t"; cases "v = t") auto
    qed (rule m)
  qed
  ultimately have k1: "kinv1 ?b" by (simp add: kinv1_def)
  obtain c y where c: "running_task k = Some c" "tasks k c = Some y" "t_state y = Running"
    using kinv_current [OF inv] by blast
  then show ?thesis using n by (intro kinvI [OF k1, of c y]) (auto simp: born_def)
qed

lemma kinv_pidmap:
  assumes inv: "kinv k" and m: "pidmap_wf m" "pids_used (kpids k) \<subseteq> pids_used m"
  shows "kinv (k\<lparr>kpids := m\<rparr>)"
proof -
  note i1 = kinv_kinv1 [OF inv]
  have l: "links_ok k" using inv by (rule kinv_links)
  have "link_ok (k\<lparr>kpids := m\<rparr>) u" for u using links_okD [OF l, of u] by (simp add: link_ok_def split: option.splits)
  moreover have "q_ok (sq k)" "q_ok (kids k)" "q_ok (glob k)" using l by simp_all
  ultimately have "links_ok (k\<lparr>kpids := m\<rparr>)" unfolding links_ok_def by auto
  moreover have "pids_ok k" using i1 by (simp add: kinv1_def)
  then have "pids_ok (k\<lparr>kpids := m\<rparr>)" using m unfolding pids_ok_def by auto
  moreover have "prio_of (k\<lparr>kpids := m\<rparr>) = prio_of k" by (simp add: prio_of_def fun_eq_iff)
  ultimately have "kinv1 (k\<lparr>kpids := m\<rparr>)"
    using i1 by (auto simp: kinv1_def queues_sorted_def parents_ok_def running_ok_def idle_ok_def mqs_ok_def)
  moreover obtain c y where "running_task k = Some c" "tasks k c = Some y" "t_state y = Running"
    using kinv_current [OF inv] by blast
  ultimately show ?thesis by (auto intro: kinvI)
qed

text \<open>What \<open>start\<close> has done when it comes to its \<open>schedule\<close>.\<close>

lemma start_cases:
  assumes inv: "kinv k" and f: "fresh_block t k" and run: "start app_of pgdir name ssize prio arg t ks k = Inr k'"
  obtains (failed) e k1 where "return_user e None k1 = Inr k'" "kinv k1"
      "k1 = k \<or> (\<exists>m. k1 = k\<lparr>kpids := m\<rparr>)"
  | (started) z m s mem g where "kinv (born t z m s mem g k)" "t_kont z = K_user" "t_msg_val z = - 1"
      "t_pid z \<notin> pids_used (kpids k)" "t_priority z = prio" "t_parent z = running_task k"
      "schedule_then (K_start t) (born t z m s mem g k) = Inr k' \<or> set_kont (K_start t) (born t z m s mem g k) = Inr k'"
proof -
  obtain c y where c: "running_task k = Some c" "tasks k c = Some y" "t_state y = Running"
    using kinv_current [OF inv] by blast
  have l: "links_ok k" using inv by (rule kinv_links)
  obtain r k1 where r: "start_task app_of pgdir name ssize prio arg t ks k = Inr (r, k1)"
      "(case r of Inl err \<Rightarrow> return_user err None k1
        | Inr t \<Rightarrow> bindE (set_msg_val t (- 1) k1) (\<lambda>k2. bindE (set_task_ready t k2) (\<lambda>k3.
           bindE (add_to_global_list t k3) (\<lambda>k4. bindE (current_task k4) (\<lambda>(c, x).
             if prio \<ge> t_priority x then schedule_then (K_start t) k4
             else bindE (set_kont (K_start t) k4) Inr))))) = Inr k'"
    using run by (auto simp: start_def bind_rules)
  consider (err) e where "r = Inl e" "k1 = k \<or> (\<exists>m. k1 = k\<lparr>kpids := m\<rparr> \<and> pidmap_wf m \<and> pids_used (kpids k) \<subseteq> pids_used m)"
    | (ok) x m s mem where "r = Inr t" "k1 = put_task t x (k\<lparr>kpids := m, kids := s, pm := mem\<rparr>)" "q_ok s" "pidmap_wf m"
       "t_state x = Startup" "t_kont x = K_user" "t_parent x = Some c" "t_priority x = prio" "t_pid x \<notin> pids_used (kpids k)"
       "0 \<le> t_pid x" "t_pid x \<le> 32" "pids_used m = insert (t_pid x) (pids_used (kpids k))"
    using start_task_Inr [OF inv f c(1) r(1)] by auto
  then show ?thesis
  proof cases
    case err
    then have "kinv k1" using inv by (auto intro: kinv_pidmap)
    then show ?thesis using failed [of e k1] r(2) err by auto
  next
    case ok
    have n: "tasks k t = None" using f by (simp add: fresh_block_def)
    have fl: "qlink (sq k) t = None" "qlink (glob k) t = None" using fresh_links [OF l n] by simp_all
    have tc: "t \<noteq> c" using n c by auto
    let ?z = "x\<lparr>t_msg_val := - 1\<rparr>"
    let ?k2 = "put_task t ?z (k\<lparr>kpids := m, kids := s, pm := mem\<rparr>)"
    let ?k3 = "move_task t Ready Q_ready ?k2"
    let ?g = "q_move (pid_of ?k3) t () (glob k)"
    let ?k4 = "born t ?z m s mem ?g k"
    have k2: "set_msg_val t (- 1) k1 = Inr ?k2" using ok(2) by (simp add: set_msg_val_def put_task_def)
    have k3: "set_task_ready t ?k2 = Inr ?k3"
      unfolding set_task_ready_def
      by (rule set_task_state_move [where x = ?z]) (use l fl ok in simp_all)
    have "add_to_global_list t ?k3 = Inr (?k3\<lparr>glob := ?g\<rparr>)"
      using l fl by (simp add: add_to_global_list_def q_add_move)
    moreover have "?k3\<lparr>glob := ?g\<rparr> = ?k4"
    proof -
      have "prio_of ?k2 = prio_of (put_task t ?z (k\<lparr>kpids := m, kids := s, pm := mem, glob := ?g\<rparr>))"
        by (auto simp: prio_of_def fun_eq_iff)
      then show ?thesis by (simp add: born_def move_task_def put_task_def)
    qed
    ultimately have k4: "add_to_global_list t ?k3 = Inr ?k4" by simp
    have i: "kinv ?k4" using f l ok by (intro kinv_born [OF inv]) simp_all
    have ct: "current_task ?k4 = Inr (c, y)" using c tc by (simp add: born_def current_task_def)
    have e: "(if prio \<ge> t_priority y then schedule_then (K_start t) ?k4 else bindE (set_kont (K_start t) ?k4) Inr) = Inr k'"
      using r(2) by (simp only: ok(1) sum.case k2 k3 k4 ct bindE_simps prod.case)
    show ?thesis
    proof (rule started [OF i])
      show "schedule_then (K_start t) ?k4 = Inr k' \<or> set_kont (K_start t) ?k4 = Inr k'"
        using e by (auto simp: bind_rules split: if_split_asm)
    qed (use ok c in simp_all)
  qed
qed

lemma start_keeps:
  assumes inv: "kinv k" and f: "fresh_block t k" and run: "start app_of pgdir name ssize prio arg t ks k = Inr k'"
  shows "kinv k'"
proof (cases rule: start_cases [OF inv f run])
  case (1 e k1)
  then show ?thesis using keeps_return [OF 1(2), of e None] by simp
next
  case (2 z m s mem g)
  let ?b = "born t z m s mem g k"
  have "keeps (schedule_then (K_start t) ?b)" using keeps_schedule_then kinv_kinv0 [OF 2(1)] by blast
  moreover have "kinv k'" if run: "set_kont (K_start t) ?b = Inr k'"
  proof -
    obtain c y where c: "running_task ?b = Some c" "tasks ?b c = Some y" using kinv_current [OF 2(1)] by blast
    then show ?thesis using run kinv_put [OF 2(1) c(2), of "y\<lparr>t_kont := K_start t\<rparr>"] by (simp add: set_kont_def)
  qed
  ultimately show ?thesis using 2(7) by auto
qed

end
