(* ===== verification/MsgInv.thy ===== *)
theory MsgInv
  imports ProcessOps
begin

text \<open>
  The invariant of blocked calls. \<open>minv\<close> says where the suspended calls of \<open>kernel/msg.c\<close> are: a
  receiver waits only on an empty queue and a sender only on a full one, a sender that is no longer
  on a waiting list was served or its queue was deleted, the branch of \<open>psend\<close> that wakes a receiver
  and then adds its message is never suspended, and only zombies are suspended in \<open>exit\<close>.
  \<open>frame\<close> is what every operation that is not about messages leaves unchanged.
\<close>

section \<open>The invariant\<close>

fun waiting_head :: "qid \<Rightarrow> bool" where
  "waiting_head (Q_senders i) \<longleftrightarrow> True"
| "waiting_head (Q_receivers i) \<longleftrightarrow> True"
| "waiting_head _ \<longleftrightarrow> False"

definition receiving :: "kst \<Rightarrow> tid \<Rightarrow> bool" where
  "receiving k t \<longleftrightarrow> (\<exists>i. t \<in> set (qlist (sq k) (Q_receivers i)))"

definition sending :: "kst \<Rightarrow> tid \<Rightarrow> bool" where
  "sending k t \<longleftrightarrow> (\<exists>i. t \<in> set (qlist (sq k) (Q_senders i)))"

definition suspended :: "tstate \<Rightarrow> bool" where
  "suspended s \<longleftrightarrow> s = Int_Msg \<or> s = Zombie"

definition kont_ok :: "kst \<Rightarrow> tid \<Rightarrow> task \<Rightarrow> bool" where
  "kont_ok k t x \<longleftrightarrow>
     (case t_kont x of
        K_psend i m r \<Rightarrow> r \<le> cpt_rst k \<and> \<not> receiving k t \<and>
          (\<not> suspended (t_state x) \<longrightarrow> t_msg_val x = - 1 \<or> r < cpt_rst k)
      | K_psend_add i m \<Rightarrow> False
      | K_exit \<Rightarrow> t_state x = Zombie
      | _ \<Rightarrow> True) \<and>
     (idle_task k = Some t \<longrightarrow> t_kont x = K_user \<or> (\<exists>u. t_kont x = K_start u)) \<and>
     (sending k t \<longrightarrow> t_msg_val x \<noteq> - 1)"

definition queues_ok :: "kst \<Rightarrow> bool" where
  "queues_ok k \<longleftrightarrow> (\<forall>i q. mqueues k i = Some q \<longrightarrow>
     (qlist (sq k) (Q_senders i) \<noteq> [] \<longrightarrow> mq_count q = mq_size q) \<and>
     (qlist (sq k) (Q_receivers i) \<noteq> [] \<longrightarrow> mq_count q = 0))"

definition minv :: "kst \<Rightarrow> bool" where
  "minv k \<longleftrightarrow> \<not> heap_full k \<and> (\<forall>t x. tasks k t = Some x \<longrightarrow> kont_ok k t x) \<and> queues_ok k"

lemma minvD: "minv k \<Longrightarrow> tasks k t = Some x \<Longrightarrow> kont_ok k t x" "minv k \<Longrightarrow> queues_ok k" "minv k \<Longrightarrow> \<not> heap_full k"
  by (simp_all add: minv_def)

section \<open>The frame\<close>

text \<open>Which changes of a task's state an operation that is not about messages makes.\<close>

definition still :: "tstate \<Rightarrow> tstate \<Rightarrow> bool" where
  "still s s' \<longleftrightarrow> (s = Zombie \<longrightarrow> s' = Zombie) \<and> (s = Int_Msg \<longrightarrow> s' = Int_Msg \<or> s' = Zombie)"

lemma still_simps [simp]: "still s s" "s = Running \<Longrightarrow> still s s'" "still s Zombie"
  by (auto simp: still_def)

definition frame :: "kst \<Rightarrow> kst \<Rightarrow> bool" where
  "frame k k' \<longleftrightarrow> mqueues k' = mqueues k \<and> cpt_rst k' = cpt_rst k \<and> heap_full k' = heap_full k \<and>
     idle_task k' = idle_task k \<and>
     (\<forall>q. waiting_head q \<longrightarrow> set (qlist (sq k') q) \<subseteq> set (qlist (sq k) q)) \<and>
     (\<forall>t y. tasks k' t = Some y \<longrightarrow> (\<exists>x. tasks k t = Some x \<and> t_kont y = t_kont x \<and> t_msg_val y = t_msg_val x \<and>
        still (t_state x) (t_state y)))"

lemma frame_refl [simp]: "frame k k"
  by (auto simp: frame_def still_def)

lemma still_trans: "still a b \<Longrightarrow> still b c \<Longrightarrow> still a c"
  by (auto simp: still_def)

lemma frameD:
  assumes "frame k k'"
  shows "mqueues k' = mqueues k" "cpt_rst k' = cpt_rst k" "heap_full k' = heap_full k" "idle_task k' = idle_task k"
    and "waiting_head q \<Longrightarrow> set (qlist (sq k') q) \<subseteq> set (qlist (sq k) q)"
  using assms by (simp_all add: frame_def)

lemma frame_task:
  assumes "frame k k'" and "tasks k' t = Some y"
  obtains x where "tasks k t = Some x" "t_kont y = t_kont x" "t_msg_val y = t_msg_val x" "still (t_state x) (t_state y)"
  using assms unfolding frame_def by blast

lemma frame_trans:
  assumes ab: "frame a b" and bc: "frame b c" shows "frame a c"
  unfolding frame_def
proof (intro conjI allI impI)
  show "\<exists>x. tasks a t = Some x \<and> t_kont z = t_kont x \<and> t_msg_val z = t_msg_val x \<and> still (t_state x) (t_state z)"
    if z: "tasks c t = Some z" for t z
  proof -
    obtain y where y: "tasks b t = Some y" "t_kont z = t_kont y" "t_msg_val z = t_msg_val y" "still (t_state y) (t_state z)"
      using frame_task [OF bc z] by blast
    obtain x where "tasks a t = Some x" "t_kont y = t_kont x" "t_msg_val y = t_msg_val x" "still (t_state x) (t_state y)"
      using frame_task [OF ab y(1)] by blast
    then show ?thesis using y still_trans by auto
  qed
  show "set (qlist (sq c) q) \<subseteq> set (qlist (sq a) q)" if "waiting_head q" for q
    using frameD(5) [OF ab that] frameD(5) [OF bc that] by blast
qed (simp_all add: frameD [OF ab] frameD [OF bc])

lemma still_suspended: "still a b \<Longrightarrow> suspended a \<Longrightarrow> suspended b"
  by (auto simp: still_def suspended_def)

lemma kont_ok_frame:
  assumes k: "kont_ok k t x" and f: "frame k k'" "t_kont y = t_kont x" "t_msg_val y = t_msg_val x" "still (t_state x) (t_state y)"
  shows "kont_ok k' t y"
proof -
  have r: "receiving k' t \<Longrightarrow> receiving k t" "sending k' t \<Longrightarrow> sending k t"
    using frameD(5) [OF f(1), of "Q_receivers i" for i] frameD(5) [OF f(1), of "Q_senders i" for i]
    unfolding receiving_def sending_def by (simp, blast)+
  have c: "cpt_rst k' = cpt_rst k" "idle_task k' = idle_task k" using frameD [OF f(1)] by simp_all
  show ?thesis
    using k f(2,3) r c still_suspended [OF f(4)] f(4)
    by (auto simp: kont_ok_def still_def split: kont.splits)
qed

lemma minv_frame:
  assumes m: "minv k" and f: "frame k k'" shows "minv k'"
  unfolding minv_def
proof (intro conjI allI impI)
  show "\<not> heap_full k'" using minvD(3) [OF m] frameD(3) [OF f] by simp
  show "kont_ok k' t y" if "tasks k' t = Some y" for t y
  proof -
    obtain x where "tasks k t = Some x" "t_kont y = t_kont x" "t_msg_val y = t_msg_val x" "still (t_state x) (t_state y)"
      using frame_task [OF f \<open>tasks k' t = Some y\<close>] by blast
    then show ?thesis using kont_ok_frame [OF minvD(1) [OF m] f] by blast
  qed
  have "qlist (sq k') q \<noteq> [] \<Longrightarrow> qlist (sq k) q \<noteq> []" if "waiting_head q" for q
  proof -
    have "set (qlist (sq k') q) \<subseteq> set (qlist (sq k) q)" using frameD(5) [OF f that] .
    then show "qlist (sq k') q \<noteq> [] \<Longrightarrow> qlist (sq k) q \<noteq> []" by auto
  qed
  then show "queues_ok k'"
    using minvD(2) [OF m] frameD(1) [OF f] unfolding queues_ok_def by (metis waiting_head.simps(1,2))
qed

section \<open>Operations that keep the frame\<close>

lemma frame_put:
  assumes "tasks k t = Some x" and "t_kont y = t_kont x" and "t_msg_val y = t_msg_val x" and "still (t_state x) (t_state y)"
  shows "frame k (put_task t y k)"
  using assms by (auto simp: frame_def still_def)

lemma frame_sq:
  assumes "\<And>q. waiting_head q \<Longrightarrow> set (qlist s q) \<subseteq> set (qlist (sq k) q)" shows "frame k (k\<lparr>sq := s\<rparr>)"
  using assms by (auto simp: frame_def still_def)

lemma frame_dequeue: "dequeue t k = Inr k' \<Longrightarrow> frame k k'"
  by (auto simp: dequeue_def bind_rules intro!: frame_sq dest: set_remove1_subset [THEN subsetD] split: if_splits)

lemma frame_enqueue: "enqueue t q k = Inr k' \<Longrightarrow> \<not> waiting_head q \<Longrightarrow> frame k k'"
  by (auto simp: enqueue_def bind_rules intro!: frame_sq split: if_splits)

lemma frame_set_state:
  "set_state t s k = Inr k' \<Longrightarrow> tasks k t = Some x \<Longrightarrow> still (t_state x) s \<Longrightarrow> frame k k'"
  by (auto simp: set_state_def bind_rules intro!: frame_put)

lemma dequeue_tasks: "dequeue t k = Inr k' \<Longrightarrow> tasks k' = tasks k"
  by (auto simp: dequeue_def bind_rules)

lemma frame_set_task_state:
  assumes run: "set_task_state t s q k = Inr k'" and x: "tasks k t = Some x" and s: "still (t_state x) s" and q: "\<not> waiting_head q"
  shows "frame k k'"
proof (cases "t_state x = s")
  case True
  then show ?thesis using run x by (simp add: set_task_state_def)
next
  case False
  then obtain k1 k2 where 1: "(if \<not> is_current t k \<and> t_state x \<noteq> Startup \<and> t_state x \<noteq> Int_Msg then dequeue t k else Inr k) = Inr k1"
      "set_state t s k1 = Inr k2" "enqueue t q k2 = Inr k'"
    using run x by (auto simp: set_task_state_def bind_rules)
  have "frame k k1" "tasks k1 t = Some x"
    using 1(1) x by (auto split: if_splits dest: frame_dequeue dequeue_tasks)
  then show ?thesis using frame_set_state [OF 1(2) _ s] frame_enqueue [OF 1(3) q] frame_trans by blast
qed

lemma frame_running: "frame k (k\<lparr>running_task := c\<rparr>)"
  by (auto simp: frame_def still_def)

lemma frame_switch_to:
  assumes run: "switch_to t k = Inr k'" and x: "tasks k t = Some x" "\<not> suspended (t_state x)"
  shows "frame k k'"
proof -
  obtain k1 k2 where 1: "(if t_state x \<noteq> Startup \<and> t_state x \<noteq> Running then dequeue t k else Inr k) = Inr k1"
      "set_state t Running k1 = Inr k2"
      "bindE (get_task t (k2\<lparr>running_task := Some t\<rparr>)) (\<lambda>x. if t_first_start x
         then Inr (put_task t (x\<lparr>t_first_start := False\<rparr>) (k2\<lparr>running_task := Some t\<rparr>)) else Inr (k2\<lparr>running_task := Some t\<rparr>)) = Inr k'"
    using run x by (auto simp: switch_to_def set_task_running_def bind_rules)
  have "frame k k1" "tasks k1 t = Some x"
    using 1(1) x by (auto split: if_splits dest: frame_dequeue dequeue_tasks)
  moreover have "still (t_state x) Running" using x(2) by (auto simp: still_def suspended_def)
  ultimately have "frame k k2" using frame_set_state [OF 1(2)] frame_trans by blast
  then have k2: "frame k (k2\<lparr>running_task := Some t\<rparr>)" using frame_running frame_trans by blast
  from 1(3) have "frame (k2\<lparr>running_task := Some t\<rparr>) k'"
    by (auto simp: bind_rules still_def split: if_splits intro!: frame_put)
  then show ?thesis using k2 frame_trans by blast
qed

lemma frame_free_task: "free_task t k = Inr k' \<Longrightarrow> frame k k'"
proof -
  assume run: "free_task t k = Inr k'"
  then obtain k1 k2 m where 1: "(if qlink (sq k) t \<noteq> None then dequeue t k else Inr k) = Inr k1"
      "unlink_sibling t k1 = Inr k2" "k' = k2\<lparr>pm := m, tasks := (tasks k2)(t := None)\<rparr>"
    by (auto simp: free_task_def bind_rules)
  have "frame k k1" using 1(1) by (auto split: if_splits dest: frame_dequeue)
  moreover have "frame k1 k2" using 1(2)
    by (auto simp: unlink_sibling_def bind_rules frame_def still_def split: option.splits if_splits)
  moreover have "frame k2 k'" unfolding 1(3) by (auto simp: frame_def still_def)
  ultimately show ?thesis using frame_trans by blast
qed

lemma frame_reap: "reap_zombies k = Inr k' \<Longrightarrow> frame k k'"
  unfolding reap_zombies_def
proof (erule foldE_invariant [where I = "frame k"])
  show "frame k s'" if "frame k s" "reap_task x s = Inr s'" for x s s'
  proof -
    have "frame s s'" using that(2) by (auto simp: reap_task_def bind_rules frame_free_task split: if_splits)
    then show ?thesis using that(1) frame_trans by blast
  qed
qed simp


lemma set_task_state_other:
  assumes "set_task_state t s q k = Inr k'" and "u \<noteq> t" shows "tasks k' u = tasks k u"
proof -
  obtain x where x: "tasks k t = Some x" using assms(1) by (auto simp: set_task_state_def bind_rules)
  show ?thesis
  proof (cases "t_state x = s")
    case True
    then show ?thesis using assms(1) x by (simp add: set_task_state_def)
  next
    case False
    then obtain k1 k2 where 1: "(if \<not> is_current t k \<and> t_state x \<noteq> Startup \<and> t_state x \<noteq> Int_Msg then dequeue t k else Inr k) = Inr k1"
        "set_state t s k1 = Inr k2" "enqueue t q k2 = Inr k'"
      using assms(1) x by (auto simp: set_task_state_def bind_rules)
    have "tasks k1 u = tasks k u" using 1(1) by (auto split: if_splits dest: dequeue_tasks)
    moreover have "tasks k2 u = tasks k1 u" using 1(2) assms(2) by (auto simp: set_state_def bind_rules)
    moreover have "tasks k' = tasks k2" using 1(3) by (auto simp: enqueue_def bind_rules)
    ultimately show ?thesis by simp
  qed
qed

lemma frame_wakeup_task:
  assumes run: "wakeup_task t k = Inr k'" and x: "tasks k t = Some x" "\<not> suspended (t_state x)"
  shows "frame k k'" and "u \<noteq> t \<Longrightarrow> tasks k' u = tasks k u"
proof -
  let ?k = "put_task t (x\<lparr>t_wake_time := 0\<rparr>) k"
  have f: "frame k ?k" using x by (intro frame_put) (auto simp: still_def)
  have "frame k k' \<and> (\<forall>u. u \<noteq> t \<longrightarrow> tasks k' u = tasks k u)"
  proof (cases "t_wake_time x \<le> total_ticks k")
    case False
    then have "k' = k" using run x(1) by (simp add: wakeup_task_def)
    then show ?thesis by simp
  next
    case True
    then have 2: "set_task_ready t ?k = Inr k'" using run x(1) by (simp add: wakeup_task_def)
    have "still (t_state x) Ready" using x(2) by (auto simp: still_def suspended_def)
    then have "frame ?k k'" using 2 unfolding set_task_ready_def
      by (intro frame_set_task_state [where x = "x\<lparr>t_wake_time := 0\<rparr>"]) auto
    moreover have "\<forall>u. u \<noteq> t \<longrightarrow> tasks k' u = tasks k u"
      using 2 set_task_state_other [of t Ready Q_ready ?k k'] by (auto simp: set_task_ready_def)
    ultimately show ?thesis using f frame_trans by blast
  qed
  then show "frame k k'" and "u \<noteq> t \<Longrightarrow> tasks k' u = tasks k u" by blast+
qed

lemma frame_fold_wakeup:
  assumes "foldE wakeup_task ts k = Inr k'" and "distinct ts" and "\<forall>t\<in>set ts. \<exists>x. tasks k t = Some x \<and> \<not> suspended (t_state x)"
  shows "frame k k'"
  using assms
proof (induction ts arbitrary: k)
  case (Cons t ts)
  obtain x where x: "tasks k t = Some x" "\<not> suspended (t_state x)" using Cons.prems(3) by auto
  obtain k1 where k1: "wakeup_task t k = Inr k1" "foldE wakeup_task ts k1 = Inr k'"
    using Cons.prems(1) by (auto simp: bind_rules)
  note w = frame_wakeup_task [OF k1(1) x]
  have "tasks k1 u = tasks k u" if "u \<in> set ts" for u using w(2) [of u] Cons.prems(2) that by auto
  then have "frame k1 k'" using Cons.prems(2,3) by (intro Cons.IH [OF k1(2)]) auto
  then show ?case using w(1) frame_trans by blast
qed simp

lemma frame_try_wakeup:
  assumes inv: "kinv0 k" and run: "try_wakeup_tasks k = Inr k'" shows "frame k k'"
proof -
  have l: "links_ok k" using inv by (rule kinv_links)
  have "\<exists>x. tasks k t = Some x \<and> \<not> suspended (t_state x)" if t: "t \<in> set (qlist (sq k) Q_sleeping)" for t
  proof -
    obtain x where "tasks k t = Some x" "home_ok (t_state x) (Some Q_sleeping)" using state_of_queue [OF l t] by blast
    then show ?thesis by (auto simp: home_ok_inj suspended_def)
  qed
  then show ?thesis using run l unfolding try_wakeup_tasks_def
    by (intro frame_fold_wakeup) (auto simp: q_ok_distinct)
qed

lemma frame_elect:
  assumes inv: "kinv0 k" and run: "elect k = Inr k'" shows "frame k k'"
proof (cases "k' = k")
  case False
  then obtain t where t: "q_top Q_ready (sq k) = Some t" using run by (auto simp: elect_def split: option.splits)
  obtain x where x: "tasks k t = Some x" "t_state x = Ready" using last_ready [OF inv t] by blast
  obtain c y where c: "running_task k = Some c" "tasks k c = Some y" "t_state y \<noteq> Ready"
    using inv by (auto simp: kinv0_def kinv1_def running_ok_def)
  have tc: "t \<noteq> c" using x c by auto
  obtain k1 where k1: "(if t_state y = Running then set_task_ready c k else Inr k) = Inr k1" "switch_to t k1 = Inr k'"
    using run t x c tc False by (auto simp: elect_def bind_rules split: if_splits)
  have "frame k k1"
  proof (cases "t_state y = Running")
    case True
    then show ?thesis using k1(1) c unfolding set_task_ready_def
      by (intro frame_set_task_state [where t = c and x = y and s = Ready and q = Q_ready]) (auto simp: still_def)
  qed (use k1 in simp)
  moreover have "tasks k1 t = tasks k t"
    using k1(1) tc set_task_state_other [of c Ready Q_ready k k1] by (auto simp: set_task_ready_def split: if_splits)
  then have "frame k1 k'" using x by (intro frame_switch_to [OF k1(2), where x = x]) (simp_all add: suspended_def)
  ultimately show ?thesis using frame_trans by blast
qed simp

lemma frame_schedule:
  assumes inv: "kinv0 k" and run: "schedule k = Inr k'" shows "frame k k'"
proof -
  obtain k1 k2 where k: "try_wakeup_tasks k = Inr k1" "reap_zombies k1 = Inr k2" "elect k2 = Inr k'"
    using run by (auto simp: schedule_def bind_rules)
  have i1: "kinv0 k1" using try_wakeup_ok [OF inv] k(1) by auto
  then have i2: "kinv0 k2" using reap_zombies_ok [OF i1] k(2) by simp
  show ?thesis using frame_try_wakeup [OF inv k(1)] frame_reap [OF k(2)] frame_elect [OF i2 k(3)] frame_trans by blast
qed

section \<open>What a call does to the invariant\<close>

definition mkeeps :: "kst res \<Rightarrow> bool" where
  "mkeeps r \<longleftrightarrow> (\<forall>k'. r = Inr k' \<longrightarrow> minv k')"

lemma mkeeps_simps [simp]: "mkeeps (Inl e)" "mkeeps (Inr k) = minv k"
  by (auto simp: mkeeps_def)

lemma mkeeps_bind: "(\<And>x. m = Inr x \<Longrightarrow> mkeeps (f x)) \<Longrightarrow> mkeeps (bindE m f)"
  by (auto simp: mkeeps_def bind_rules)

lemma mkeeps_schedule: "minv k \<Longrightarrow> kinv0 k \<Longrightarrow> mkeeps (schedule k)"
  using minv_frame frame_schedule by (auto simp: mkeeps_def)

fun benign :: "kont \<Rightarrow> bool" where
  "benign (K_psend i m r) \<longleftrightarrow> False"
| "benign (K_psend_add i m) \<longleftrightarrow> False"
| "benign K_exit \<longleftrightarrow> False"
| "benign _ \<longleftrightarrow> True"

fun idle_kont :: "kont \<Rightarrow> bool" where
  "idle_kont K_user \<longleftrightarrow> True"
| "idle_kont (K_start t) \<longleftrightarrow> True"
| "idle_kont _ \<longleftrightarrow> False"

lemma same_view:
  "receiving (put_task t x k) = receiving k" "sending (put_task t x k) = sending k"
  by (simp_all add: receiving_def sending_def fun_eq_iff)

lemma kont_ok_put: "kont_ok (put_task t x k) = kont_ok k"
  by (simp add: kont_ok_def same_view fun_eq_iff split: kont.split)

lemma minv_put: "minv k \<Longrightarrow> kont_ok k t y \<Longrightarrow> minv (put_task t y k)"
  by (auto simp: minv_def kont_ok_put queues_ok_def split: if_splits)

lemma kont_ok_kont:
  "kont_ok k t x \<Longrightarrow> benign r \<Longrightarrow> idle_task k \<noteq> Some t \<or> idle_kont r \<Longrightarrow> t_kont y = r \<Longrightarrow> t_msg_val y = t_msg_val x \<Longrightarrow> kont_ok k t y"
  by (cases r) (auto simp: kont_ok_def)

lemma minv_set_kont:
  assumes m: "minv k" and r: "benign r" "running_task k \<noteq> idle_task k \<or> idle_kont r" and run: "set_kont r k = Inr k'"
  shows "minv k'"
proof -
  obtain c x where c: "running_task k = Some c" "tasks k c = Some x" "k' = put_task c (x\<lparr>t_kont := r\<rparr>) k"
    using run by (auto simp: set_kont_def bind_rules)
  have "kont_ok k c (x\<lparr>t_kont := r\<rparr>)"
    using r c by (intro kont_ok_kont [OF minvD(1) [OF m c(2)] r(1)]) auto
  then show ?thesis unfolding c(3) by (rule minv_put [OF m])
qed

lemma mkeeps_return: "minv k \<Longrightarrow> mkeeps (return_user v out k)"
proof -
  assume m: "minv k"
  have "minv k'" if run: "return_user v out k = Inr k'" for k'
  proof -
    obtain c x where c: "tasks k c = Some x" "k' = put_task c (x\<lparr>t_kont := K_user, t_ret := v, t_out := out\<rparr>) k"
      using run by (auto simp: return_user_def bind_rules)
    have "kont_ok k c (x\<lparr>t_kont := K_user, t_ret := v, t_out := out\<rparr>)"
      by (intro kont_ok_kont [OF minvD(1) [OF m c(1)], where r = K_user]) simp_all
    then show ?thesis unfolding c(2) by (rule minv_put [OF m])
  qed
  then show ?thesis by (simp add: mkeeps_def)
qed

lemma mkeeps_schedule_then:
  assumes "minv k" and "kinv0 k" and "benign r" and "running_task k \<noteq> idle_task k \<or> idle_kont r"
  shows "mkeeps (schedule_then r k)"
  unfolding schedule_then_def
proof (rule mkeeps_bind)
  fix k1 assume "set_kont r k = Inr k1"
  then show "mkeeps (schedule k1)"
    using minv_set_kont [OF assms(1,3,4)] kinv0_kont [OF assms(2)] mkeeps_schedule by blast
qed


section \<open>Time, exit, kill, wait\<close>

lemma frame_move:
  assumes "q_ok (sq k)" and "tasks k t = Some x" and "still (t_state x) s" and "\<not> waiting_head q"
  shows "frame k (move_task t s q k)"
  using assms unfolding frame_def by (auto simp: set_qlist_q_move still_def)

lemma asleep_mkeeps:
  assumes inv: "kinv k" and m: "minv k" and c: "running_task k \<noteq> idle_task k"
  shows "mkeeps (wait_clock clock k)"
proof -
  obtain t x where t: "running_task k = Some t" "tasks k t = Some x" "t_state x = Running" using kinv_current [OF inv] by blast
  have ni: "idle_task k \<noteq> Some t" using c t by auto
  show ?thesis
  proof (cases "total_ticks k < clock")
    case True
    let ?k = "put_task t (x\<lparr>t_wake_time := clock\<rparr>) k"
    have "frame k ?k" using t by (intro frame_put) (auto simp: still_def)
    moreover have "frame ?k (asleep t x clock k)"
      unfolding asleep_def using t inv by (intro frame_move [where x = "x\<lparr>t_wake_time := clock\<rparr>"]) (simp_all add: still_def)
    ultimately have "minv (asleep t x clock k)" using minv_frame [OF m] frame_trans by blast
    then show ?thesis using asleep_kinv0 [OF inv t(1) ni t(2) True] c
      by (simp add: wait_clock_asleep [OF inv t(1,2)] mkeeps_schedule_then asleep_def)
  next
    case False
    then show ?thesis using wait_clock_late [OF inv t(1) ni] by simp
  qed
qed

lemma frame_buried:
  assumes q: "q_ok (sq k)" and x: "tasks k t = Some x" and z: "t_kont z = t_kont x" "t_msg_val z = t_msg_val x"
  shows "frame k (buried t z m k)"
  using assms unfolding frame_def buried_def
  by (auto simp: set_qlist_q_move still_def)

lemma frame_bury:
  assumes inv: "kinv k" and t: "tasks k t = Some x" "alive (t_state x)" "idle_task k \<noteq> Some t"
    and run: "bury_task t r x k = Inr k'"
  shows "frame k k'"
proof -
  obtain m where m: "free_pid (t_pid x) (kpids k) = Inr m" using free_pid_alive [OF inv t(1,2)] by blast
  define z where "z = x\<lparr>t_priority := death_priority (total_ticks k), t_retval := r\<rparr>"
  let ?b = "buried t z m k"
  have e: "unlock_interrupted_child_parent (t_parent x) ?b = Inr k'"
    using run bury_task_buried [OF inv t(1,2) m] by (simp add: z_def)
  have f: "frame k ?b" by (rule frame_buried [OF _ t(1)]) (use inv in \<open>simp_all add: z_def\<close>)
  obtain p y where p: "t_parent x = Some p" "tasks ?b p = Some y"
      "(if t_state y = Int_Child then set_task_ready p ?b else Inr ?b) = Inr k'"
    using e by (auto simp: unlock_interrupted_child_parent_def bind_rules)
  have "frame ?b k'"
  proof (cases "t_state y = Int_Child")
    case True
    then have "set_task_ready p ?b = Inr k'" using p(3) by simp
    then show ?thesis unfolding set_task_ready_def
      by (rule frame_set_task_state [OF _ p(2)]) (simp_all add: True still_def)
  next
    case False
    then show ?thesis using p(3) by simp
  qed
  then show ?thesis using f frame_trans by blast
qed

lemma exit_task_frame:
  assumes inv: "kinv k" and t: "tasks k t = Some x" "alive (t_state x)"
    and run: "exit_task (Some t) r k = Inr (v, k')"
  shows "frame k k'"
proof (cases "idle_task k = Some t")
  case True
  then show ?thesis using exit_task_ok [OF inv t, of r] run by simp
next
  case False
  then have "bury_task t r x k = Inr k'"
    using run t by (auto simp: exit_task_def is_idle_def bind_rules alive_def)
  then show ?thesis by (rule frame_bury [OF inv t False])
qed

lemma exit_current_mkeeps:
  assumes inv: "kinv k" and m: "minv k" and c: "running_task k \<noteq> idle_task k"
  shows "mkeeps (exit_current r k)"
proof -
  obtain t x where t: "running_task k = Some t" "tasks k t = Some x" "t_state x = Running"
    using kinv_current [OF inv] by blast
  have al: "alive (t_state x)" using t by simp
  show ?thesis
  proof (cases "exit_task (Some t) r k")
    case (Inr p)
    then obtain v k1 where p: "p = (v, k1)" by fastforce
    have f: "frame k k1" by (rule exit_task_frame [OF inv t(2) al]) (use Inr p in simp)
    have ok: "kinv0 k1" "running_task k1 = Some t" "dead t r x k1"
      using exit_task_ok [OF inv t(2) al, of r] Inr p t c by auto
    obtain y where y: "tasks k1 t = Some y" "t_state y = Zombie" using ok(3) by (auto simp: dead_def)
    let ?k = "put_task t (y\<lparr>t_kont := K_exit\<rparr>) k1"
    have m1: "minv k1" by (rule minv_frame [OF m f])
    have "idle_task k1 \<noteq> Some t" using frameD(4) [OF f] c t by auto
    then have "kont_ok k1 t (y\<lparr>t_kont := K_exit\<rparr>)"
      using minvD(1) [OF m1 y(1)] y(2) by (simp add: kont_ok_def)
    then have "minv ?k" by (rule minv_put [OF m1])
    moreover have kt: "set_kont K_exit k1 = Inr ?k" using ok(2) y(1) by (simp add: set_kont_def)
    moreover have "kinv0 ?k" using kinv0_kont [OF ok(1) kt] .
    ultimately have "mkeeps (schedule_then K_exit k1)" by (simp add: schedule_then_def mkeeps_schedule)
    then show ?thesis using Inr p t by (simp add: exit_current_def)
  qed (use t in \<open>simp add: exit_current_def\<close>)
qed

lemma kill_mkeeps:
  assumes inv: "kinv k" and m: "minv k" and c: "running_task k \<noteq> idle_task k"
  shows "mkeeps (kill pid k)"
proof (cases rule: pid_to_task_ok [OF inv, of pid])
  case (1 t x)
  show ?thesis
  proof (cases "idle_task k = Some t")
    case True
    then show ?thesis using 1 m by (simp add: kill_def is_idle_def mkeeps_return)
  next
    case False
    show ?thesis
    proof (cases "exit_task (Some t) 0 k")
      case (Inr p)
      then obtain v k1 where p: "p = (v, k1)" by fastforce
      have f: "frame k k1" by (rule exit_task_frame [OF inv 1(2,3)]) (use Inr p in simp)
      have ok: "kinv0 k1" "running_task k1 = running_task k"
        using exit_task_ok [OF inv 1(2,3), of 0] Inr p False by auto
      have "kill pid k = (if is_current t k1 then schedule_then (K_ret v) k1 else return_user v None k1)"
        using Inr p 1 False by (simp add: kill_def is_idle_def)
      moreover have "running_task k1 \<noteq> idle_task k1" using ok(2) frameD(4) [OF f] c by simp
      ultimately show ?thesis using minv_frame [OF m f] ok(1) by (simp add: mkeeps_schedule_then mkeeps_return)
    qed (use 1 False in \<open>simp add: kill_def is_idle_def\<close>)
  qed
next
  case 2
  then show ?thesis using m by (simp add: kill_def mkeeps_return)
qed

lemma collect_child_mkeeps: "minv k \<Longrightarrow> mkeeps (collect_child t want k)"
  unfolding collect_child_def
  by (intro mkeeps_bind mkeeps_return) (blast intro: minv_frame frame_free_task)

lemma interrupted_child_mkeeps:
  assumes inv: "kinv k" and m: "minv k" and c: "running_task k = Some c" "idle_task k \<noteq> Some c" and r: "benign r"
  shows "mkeeps (bindE (set_task_interrupted_child c k) (schedule_then r))"
proof -
  obtain x where x: "tasks k c = Some x" "t_state x = Running" using kinv_current [OF inv] c(1) by (metis option.inject)
  have e: "set_task_interrupted_child c k = Inr (move_task c Int_Child Q_child k)"
    unfolding set_task_interrupted_child_def by (rule set_current_state [OF inv c(1)]) simp
  have "kinv1 (move_task c Int_Child Q_child k)" by (rule current_moves [OF inv c]) simp_all
  moreover have "not_late (move_task c Int_Child Q_child k)" using c by (auto simp: not_late_def)
  moreover have "frame k (move_task c Int_Child Q_child k)"
    using x inv by (intro frame_move [where x = x]) simp_all
  ultimately show ?thesis using e c r minv_frame [OF m] by (simp add: mkeeps_schedule_then kinv0_def)
qed

lemma wait_any_child_mkeeps:
  assumes inv: "kinv k" and m: "minv k" and c: "running_task k \<noteq> idle_task k"
  shows "mkeeps (wait_any_child want k)"
proof -
  obtain t where t: "running_task k = Some t" using kinv_current [OF inv] by blast
  have w: "mkeeps (bindE (set_task_interrupted_child t k) (schedule_then (K_wait_any want)))"
    by (rule interrupted_child_mkeeps [OF inv m t]) (use c t in auto)
  show ?thesis using t w m
    by (simp add: wait_any_child_def mkeeps_return collect_child_mkeeps split: option.split)
qed

lemma wait_for_child_mkeeps:
  assumes inv: "kinv k" and m: "minv k" and c: "running_task k \<noteq> idle_task k"
  shows "mkeeps (wait_for_child u want k)"
proof -
  obtain t where t: "running_task k = Some t" using kinv_current [OF inv] by blast
  have w: "mkeeps (bindE (set_task_interrupted_child t k) (schedule_then (K_wait_child u want)))"
    by (rule interrupted_child_mkeeps [OF inv m t]) (use c t in auto)
  show ?thesis unfolding wait_for_child_def
    by (rule mkeeps_bind) (use t w m in \<open>simp add: collect_child_mkeeps\<close>)
qed

lemma waitpid_mkeeps:
  assumes inv: "kinv k" and m: "minv k" and c: "running_task k \<noteq> idle_task k"
  shows "mkeeps (waitpid pid p k)"
proof -
  have s: "mkeeps (wait_specific_child pid want k)" for want
  proof -
    obtain q where "pid_to_task pid k = Inr q" using pid_to_task_ok [OF inv, of pid] by metis
    moreover obtain t where "running_task k = Some t" using kinv_current [OF inv] by blast
    ultimately show ?thesis using wait_for_child_mkeeps [OF inv m c] m
      by (simp add: wait_specific_child_def mkeeps_return split: option.split)
  qed
  obtain t x where "running_task k = Some t" "tasks k t = Some x" using kinv_current [OF inv] by blast
  then show ?thesis using s wait_any_child_mkeeps [OF inv m c] m
    by (simp add: waitpid_def current_task_def mkeeps_return)
qed

section \<open>chprio\<close>

lemma frame_requeued:
  assumes "q_ok (sq k)" shows "frame k (requeued t k)"
proof (cases "qlink (sq k) t")
  case (Some h)
  then have "t \<in> set (qlist (sq k) h)" using assms by (simp add: q_ok_home [symmetric])
  then show ?thesis using Some assms by (auto simp: requeued_def set_qlist_q_move intro!: frame_sq split: if_splits)
qed (simp add: requeued_def)

lemma chprio_rest_mkeeps:
  assumes inv: "kinv k" and m: "minv k" and c: "running_task k \<noteq> idle_task k"
  shows "mkeeps (chprio_rest t prio old k)"
proof (cases "is_current t k")
  case True
  have "mkeeps (bindE (deref (q_top Q_ready (sq k))) (\<lambda>h. bindE (get_task h k) (\<lambda>xh.
             if t_priority xh > prio then schedule_then (K_ret old) k else return_user old None k)))"
    using inv m c by (intro mkeeps_bind) (simp add: mkeeps_return mkeeps_schedule_then kinv_kinv0)
  then show ?thesis using True by (simp add: chprio_rest_def)
next
  case False
  then show ?thesis using m by (simp add: chprio_rest_def mkeeps_return)
qed

lemma chprio_set_mkeeps:
  assumes inv: "kinv k" and m: "minv k" and c: "running_task k \<noteq> idle_task k" and t: "tasks k t = Some x" "alive (t_state x)"
  shows "mkeeps (chprio_set t prio x k)"
proof -
  let ?k = "put_task t (x\<lparr>t_priority := prio\<rparr>) k"
  let ?r = "requeued t ?k"
  have u: "update_queue_priority t ?k = Inr ?r" by (rule update_queue_requeued [OF inv t]) simp_all
  have r: "kinv ?r" by (rule kinv_requeued [OF inv t(1)]) simp_all
  have "frame k ?k" using t by (intro frame_put [where x = x]) simp_all
  moreover have "frame ?k ?r" using inv by (intro frame_requeued) simp
  ultimately have mr: "minv ?r" using minv_frame [OF m] frame_trans by blast
  have c': "running_task ?r \<noteq> idle_task ?r" using c by simp
  have e: "chprio_set t prio x k =
      (if t_state x = Int_Msg then bindE (msg_reinsert t ?r) (return_user (t_priority x) None)
       else bindE (current_task ?r) (\<lambda>(c, xc).
         if \<not> is_current t ?r \<and> t_state x = Ready \<and> prio > t_priority xc
         then schedule_then (K_chprio t prio (t_priority x)) ?r
         else chprio_rest t prio (t_priority x) ?r))"
    unfolding chprio_set_def upd_task_Some [OF t(1)] bindE_simps u ..
  show ?thesis
  proof (cases "t_state x = Int_Msg")
    case True
    have mi: "msg_reinsert t ?r = Inr (requeued t ?r)"
      by (rule msg_reinsert_requeued [OF r, where x = "x\<lparr>t_priority := prio\<rparr>"]) (use True in simp_all)
    have "minv (requeued t ?r)" using mr r by (blast intro: minv_frame frame_requeued kinv_q(1))
    then show ?thesis unfolding e if_P [OF True] mi by (simp add: mkeeps_return)
  next
    case False
    obtain d y where d: "running_task ?r = Some d" "tasks ?r d = Some y" using kinv_current [OF r] by blast
    have "current_task ?r = Inr (d, y)" unfolding current_task_def current_Some [OF d(1)] bindE_simps
      by (simp only: get_task_Some [OF d(2)] bindE_simps)
    moreover have "mkeeps (schedule_then (K_chprio t prio (t_priority x)) ?r)"
      by (rule mkeeps_schedule_then [OF mr kinv_kinv0 [OF r]]) (use c in simp_all)
    ultimately show ?thesis unfolding e if_not_P [OF False]
      using chprio_rest_mkeeps [OF r mr c'] by simp
  qed
qed

lemma chprio_mkeeps:
  assumes inv: "kinv k" and m: "minv k" and c: "running_task k \<noteq> idle_task k"
  shows "mkeeps (chprio pid prio k)"
proof (cases rule: pid_to_task_ok [OF inv, of pid])
  case (1 t x)
  then show ?thesis using m chprio_set_mkeeps [OF inv m c 1(2,3)] by (simp add: chprio_def mkeeps_return)
next
  case 2
  then show ?thesis using m by (simp add: chprio_def mkeeps_return)
qed


section \<open>Messages\<close>

lemma frame_unlink: "q_ok (sq k) \<Longrightarrow> frame k (k\<lparr>sq := q_unlink t (sq k)\<rparr>)"
  by (intro frame_sq) (auto simp: set_qlist_q_unlink)

text \<open>A change of a queue's contents that no blocked task minds.\<close>

lemma minv_put_mqueue:
  assumes m: "minv k" and s: "qlist (sq k) (Q_senders (nat i)) \<noteq> [] \<longrightarrow> mq_count q = mq_size q"
    and r: "qlist (sq k) (Q_receivers (nat i)) \<noteq> [] \<longrightarrow> mq_count q = 0"
  shows "minv (put_mqueue i (Some q) k)"
proof -
  have "kont_ok (put_mqueue i (Some q) k) = kont_ok k"
    by (simp add: kont_ok_def receiving_def sending_def fun_eq_iff split: kont.split)
  then show ?thesis using m s r by (auto simp: minv_def queues_ok_def)
qed

lemma psend_add_mkeeps:
  assumes inv: "kinv k" and m: "minv k" and u: "mqueues k (nat i) = Some q" "mq_count q \<noteq> mq_size q"
    and r: "qlist (sq k) (receivers i) = []"
  shows "mkeeps (psend_add i v k)"
proof (cases "slot_ok i")
  case True
  let ?q = "q\<lparr>mq_msgs := mq_msgs q @ [v], mq_count := mq_count q + 1\<rparr>"
  have q: "mqueue_ok q" using kinv_mqueue_ok [OF inv u(1)] by simp
  have e: "add_msg i v k = Inr (put_mqueue i (Some ?q) k)" by (rule add_msg_used [OF True u(1) q minvD(3) [OF m]])
  have "qlist (sq k) (Q_senders (nat i)) = []" using minvD(2) [OF m] u by (auto simp: queues_ok_def)
  then have "minv (put_mqueue i (Some ?q) k)" using r by (intro minv_put_mqueue [OF m]) (simp_all add: receivers_def)
  then show ?thesis using e by (simp add: psend_add_def mkeeps_return)
next
  case False
  then show ?thesis by (simp add: psend_add_def add_msg_def get_mqueue_def get_slot_def)
qed

text \<open>The last part of \<open>psend\<close>, when no receiver waits or the caller has been served.\<close>

lemma psend_rest_mkeeps:
  assumes inv: "kinv k" and m: "minv k" and u: "slot_ok i" "mqueues k (nat i) = Some q"
    and c: "running_task k = Some c" "tasks k c = Some x"
    and served: "t_msg_val x = - 1 \<or> rst < cpt_rst k \<or> mq_count q \<noteq> mq_size q \<and> qlist (sq k) (receivers i) = []"
  shows "mkeeps (psend_rest i v rst k)"
proof (cases "rst < cpt_rst k \<or> t_msg_val x = - 1")
  case True
  then show ?thesis using u c m
    by (auto simp: psend_rest_def mqueue_unused_def get_slot_def current_task_def mkeeps_return)
next
  case False
  then have s: "mq_count q \<noteq> mq_size q" "qlist (sq k) (receivers i) = []" using served by auto
  then have "take_waiter (receivers i) k = (None, k)" by (simp add: take_waiter_def q_out_empty)
  then have "psend_rest i v rst k = psend_add i v k"
    using False u c by (simp add: psend_rest_def mqueue_unused_def get_slot_def current_task_def)
  then show ?thesis using psend_add_mkeeps [OF inv m u(2) s] by simp
qed

lemma set_qlist_waiting_move:
  "q_ok s \<Longrightarrow> qlink s t = None \<Longrightarrow> set (qlist (q_move f t h s) g) = (if g = h then insert t (set (qlist s g)) else set (qlist s g))"
  by (auto simp: set_qlist_q_move q_unlinked_notin)

text \<open>The caller starts to wait: on a full queue as a sender, on an empty one as a receiver.\<close>

lemma minv_wait:
  assumes inv: "kinv k" and m: "minv k" and c: "running_task k = Some c" "idle_task k \<noteq> Some c" and x: "tasks k c = Some x"
    and h: "h = Q_senders i \<and> r = K_psend (int i) v rst \<and> rst \<le> cpt_rst k \<and> t_msg_val x \<noteq> - 1 \<and>
        (\<forall>q. mqueues k i = Some q \<longrightarrow> mq_count q = mq_size q) \<or>
      h = Q_receivers i \<and> r = K_preceive (int i) rst w \<and> (\<forall>q. mqueues k i = Some q \<longrightarrow> mq_count q = 0)"
  shows "minv (move_task c Int_Msg h (put_task c (x\<lparr>t_kont := r\<rparr>) k))" (is "minv ?k")
proof -
  have q: "q_ok (sq k)" using inv by simp
  have n: "qlink (sq k) c = None" using kinv_current [OF inv] c(1) by (metis option.inject)
  have l: "set (qlist (sq ?k) g) = (if g = h then insert c (set (qlist (sq k) g)) else set (qlist (sq k) g))" for g
    using q n by (simp add: set_qlist_waiting_move)
  have nc: "c \<notin> set (qlist (sq k) g)" for g using q n by (simp add: q_unlinked_notin)
  have rs: "receiving ?k t \<longleftrightarrow> receiving k t" "sending ?k t \<longleftrightarrow> sending k t" if "t \<noteq> c" for t
    unfolding receiving_def sending_def l using that by (auto split: if_splits)
  have "kont_ok ?k t y" if y: "tasks ?k t = Some y" for t y
  proof (cases "t = c")
    case False
    then have "tasks k t = Some y" using y by simp
    then have "kont_ok k t y" using minvD(1) [OF m] by blast
    then show ?thesis using rs [OF False] by (simp add: kont_ok_def split: kont.splits)
  next
    case True
    then have "y = x\<lparr>t_kont := r, t_state := Int_Msg\<rparr>" using y by simp
    moreover have "h = Q_senders i \<Longrightarrow> \<not> receiving ?k c" "h = Q_receivers i \<Longrightarrow> \<not> sending ?k c"
      unfolding receiving_def sending_def l using nc by (auto split: if_splits)
    ultimately show ?thesis using h True c(2) by (auto simp: kont_ok_def suspended_def)
  qed
  moreover have "queues_ok ?k"
    unfolding queues_ok_def
  proof (intro allI impI conjI)
    fix j q assume j: "mqueues ?k j = Some q"
    then have old: "mqueues k j = Some q" by simp
    show "mq_count q = mq_size q" if ne: "qlist (sq ?k) (Q_senders j) \<noteq> []"
    proof (cases "h = Q_senders j")
      case True
      then show ?thesis using h old by auto
    next
      case False
      then have "qlist (sq k) (Q_senders j) \<noteq> []" using l [of "Q_senders j"] ne by auto
      then show ?thesis using minvD(2) [OF m] old by (simp add: queues_ok_def)
    qed
    show "mq_count q = 0" if ne: "qlist (sq ?k) (Q_receivers j) \<noteq> []"
    proof (cases "h = Q_receivers j")
      case True
      then show ?thesis using h old by auto
    next
      case False
      then have "qlist (sq k) (Q_receivers j) \<noteq> []" using l [of "Q_receivers j"] ne by auto
      then show ?thesis using minvD(2) [OF m] old by (simp add: queues_ok_def)
    qed
  qed
  ultimately show ?thesis using minvD(3) [OF m] by (simp add: minv_def)
qed

lemma psend_loop_mkeeps:
  assumes inv: "kinv k" and m: "minv k" and c: "running_task k = Some c" "idle_task k \<noteq> Some c" and x: "tasks k c = Some x"
    and rst: "rst \<le> cpt_rst k"
    and served: "t_msg_val x = - 1 \<or> rst < cpt_rst k \<or> qlist (sq k) (receivers i) = []"
  shows "mkeeps (psend_loop i v rst k)"
proof (cases "slot_ok i \<and> mqueues k (nat i) \<noteq> None")
  case False
  then show ?thesis by (auto simp: psend_loop_def mqueue_full_def get_mqueue_def get_slot_def)
next
  case True
  then obtain q where u: "slot_ok i" "mqueues k (nat i) = Some q" by auto
  have e: "psend_loop i v rst k = (if mq_count q = mq_size q \<and> t_msg_val x \<noteq> - 1
       then bindE (enqueue c (senders i) k) (set_task_interrupted_msg c (K_psend i v rst))
       else psend_rest i v rst k)"
    using u c x by (simp add: psend_loop_def mqueue_full_def get_mqueue_used current_task_def)
  show ?thesis
  proof (cases "mq_count q = mq_size q \<and> t_msg_val x \<noteq> - 1")
    case True
    have i: "int (nat i) = i" using u(1) by (simp add: slot_ok_def)
    have "minv (move_task c Int_Msg (senders i) (put_task c (x\<lparr>t_kont := K_psend i v rst\<rparr>) k))"
      using True u rst i by (intro minv_wait [OF inv m c x, where i = "nat i" and v = v and rst = rst and w = False])
        (auto simp: senders_def)
    moreover have "kinv0 (move_task c Int_Msg (senders i) (put_task c (x\<lparr>t_kont := K_psend i v rst\<rparr>) k))"
      using u by (intro wait_on_queue_kinv0 [OF inv c x]) (auto simp: senders_def)
    ultimately show ?thesis unfolding e if_P [OF True] wait_on_queue_eq [OF inv c(1) x] by (rule mkeeps_schedule)
  next
    case False
    then have "mkeeps (psend_rest i v rst k)"
      using served by (intro psend_rest_mkeeps [OF inv m u c(1) x]) auto
    then show ?thesis unfolding e if_not_P [OF False] .
  qed
qed


text \<open>A waiter that was taken off its list is made ready.\<close>

lemma minv_ready:
  assumes m: "minv k" and q: "q_ok (sq k)" and x: "tasks k t = Some x" "t_state x = Int_Msg"
    and served: "\<And>i v r. t_kont x = K_psend i v r \<Longrightarrow> t_msg_val x = - 1 \<or> r < cpt_rst k"
  shows "minv (move_task t Ready Q_ready k)" (is "minv ?k")
proof -
  have l: "set (qlist (sq ?k) g) = (if g = Q_ready then insert t (set (qlist (sq k) g)) else set (qlist (sq k) g) - {t})" for g
    using q by (simp add: set_qlist_q_move)
  have rs: "receiving ?k u \<longleftrightarrow> receiving k u \<and> u \<noteq> t" "sending ?k u \<longleftrightarrow> sending k u \<and> u \<noteq> t" for u
    unfolding receiving_def sending_def l by auto
  have "kont_ok ?k u y" if y: "tasks ?k u = Some y" for u y
  proof (cases "u = t")
    case False
    then have "kont_ok k u y" using y minvD(1) [OF m, of u y] by simp
    then show ?thesis using rs False by (auto simp: kont_ok_def split: kont.splits)
  next
    case True
    then have e: "y = x\<lparr>t_state := Ready\<rparr>" using x y by simp
    have "kont_ok k t x" using minvD(1) [OF m x(1)] .
    then show ?thesis using rs True x(2) served by (auto simp: e kont_ok_def split: kont.splits)
  qed
  moreover have "qlist (sq ?k) g \<noteq> [] \<Longrightarrow> qlist (sq k) g \<noteq> []" if "g \<noteq> Q_ready" for g
    using l [of g] that by (cases "qlist (sq k) g") auto
  then have "queues_ok ?k" using minvD(2) [OF m] by (auto simp: queues_ok_def)
  ultimately show ?thesis using minvD(3) [OF m] by (simp add: minv_def)
qed

lemma ready_or_running_mkeeps:
  assumes w: "waking t k" and m: "minv k" and c: "running_task k \<noteq> idle_task k" and x: "tasks k t = Some x"
    and served: "\<And>i v r. t_kont x = K_psend i v r \<Longrightarrow> t_msg_val x = - 1 \<or> r < cpt_rst k" and r: "benign r"
  shows "mkeeps (set_task_ready_or_running t r k)"
proof -
  obtain d y where d: "running_task k = Some d" "tasks k d = Some y" using w by (auto simp: waking_def)
  have td: "t \<noteq> d" and s: "t_state x = Int_Msg" and q: "q_ok (sq k)" using w d x by (auto simp: waking_def)
  let ?k = "put_task d (y\<lparr>t_kont := r\<rparr>) k"
  have "kont_ok k d (y\<lparr>t_kont := r\<rparr>)"
    using c d by (intro kont_ok_kont [OF minvD(1) [OF m d(2)] r]) auto
  then have "minv ?k" by (rule minv_put [OF m])
  then have m': "minv (move_task t Ready Q_ready ?k)"
    by (rule minv_ready [where x = x]) (use td s q x served in simp_all)
  note e = ready_or_running_eq [OF w d x, of r]
  have "mkeeps (schedule (move_task t Ready Q_ready ?k))" by (rule mkeeps_schedule [OF m' kinv_kinv0 [OF e(2)]])
  then show ?thesis unfolding e(1) using m' by simp
qed

lemma not_waiting:
  assumes "kinv k" and "running_task k = Some c" shows "\<not> sending k c" and "\<not> receiving k c"
proof -
  have "qlink (sq k) c = None" using kinv_current [OF assms(1)] assms(2) by (metis option.inject)
  then show "\<not> sending k c" and "\<not> receiving k c"
    using assms(1) by (auto simp: sending_def receiving_def q_unlinked_notin)
qed

lemma kont_ok_msg_val:
  assumes "kont_ok k c x" and "\<not> sending k c" and "v = - 1 \<or> (\<forall>i u r. t_kont x \<noteq> K_psend i u r)"
  shows "kont_ok k c (x\<lparr>t_msg_val := v\<rparr>)"
  using assms by (auto simp: kont_ok_def split: kont.splits)

lemma psend_mkeeps:
  assumes inv: "kinv k" and m: "minv k" and c: "running_task k \<noteq> idle_task k"
    and um: "running_task k = Some t" "tasks k t = Some x" "t_kont x = K_user"
  shows "mkeeps (psend i v k)"
proof (cases "slot_ok i \<and> mqueues k (nat i) \<noteq> None")
  case False
  then show ?thesis using m by (auto simp: psend_def mqueue_unused_def get_slot_def mkeeps_return)
next
  case True
  then obtain q where u: "slot_ok i" "mqueues k (nat i) = Some q" by auto
  have ni: "idle_task k \<noteq> Some t" using c um by auto
  have r: "home_ok Int_Msg (Some (receivers i))" by (simp add: receivers_def)
  obtain w k1 where w: "take_waiter (receivers i) k = (w, k1)" by (cases "take_waiter (receivers i) k")
  have e: "psend i v k = (case w of
      Some waiter \<Rightarrow> bindE (set_msg_val waiter v k1) (set_task_ready_or_running waiter (K_ret 0))
    | None \<Rightarrow> bindE (set_msg_val t v k) (psend_loop i v (cpt_rst k)))"
    using u w um by (cases w) (simp_all add: psend_def mqueue_unused_def get_slot_def)
  show ?thesis
  proof (cases w)
    case None
    let ?x = "x\<lparr>t_msg_val := v\<rparr>"
    have n: "qlist (sq k) (receivers i) = []" using take_waiter_none(2) [of "receivers i" k k1] w None inv by simp
    have "kont_ok k t ?x" using not_waiting(1) [OF inv um(1)] um(3) by (intro kont_ok_msg_val minvD(1) [OF m um(2)]) simp_all
    then have mk: "minv (put_task t ?x k)" by (rule minv_put [OF m])
    have "kinv (put_task t ?x k)" by (rule kinv_put [OF inv um(2)]) simp_all
    then have "mkeeps (psend_loop i v (cpt_rst k) (put_task t ?x k))"
      using n um ni by (intro psend_loop_mkeeps [OF _ mk, where c = t and x = ?x]) simp_all
    then show ?thesis using e None um by (simp add: set_msg_val_def)
  next
    case (Some d)
    note wk = take_waiter_waking [OF inv r, of d k1]
    have wk: "waking d k1" "k1 = k\<lparr>sq := q_unlink d (sq k)\<rparr>" "d \<in> set (qlist (sq k) (receivers i))"
      using wk w Some by simp_all
    obtain y where y: "tasks k d = Some y" using wk(1) unfolding wk(2) by (auto simp: waking_def)
    have m1: "minv k1" unfolding wk(2) using inv by (intro minv_frame [OF m] frame_unlink) simp
    have "receiving k d" using wk(3) by (auto simp: receiving_def receivers_def)
    then have np: "t_kont y \<noteq> K_psend j u s" for j u s using minvD(1) [OF m y] by (auto simp: kont_ok_def)
    have "\<not> sending k1 d" using inv by (auto simp: wk(2) sending_def set_qlist_q_unlink)
    then have "kont_ok k1 d (y\<lparr>t_msg_val := v\<rparr>)"
      using np y by (intro kont_ok_msg_val minvD(1) [OF m1]) (simp_all add: wk(2))
    then have m2: "minv (put_task d (y\<lparr>t_msg_val := v\<rparr>) k1)" by (rule minv_put [OF m1])
    have "waking d (put_task d (y\<lparr>t_msg_val := v\<rparr>) k1)"
      by (rule waking_put [OF wk(1), where y = y]) (use y in \<open>simp_all add: wk(2)\<close>)
    then have "mkeeps (set_task_ready_or_running d (K_ret 0) (put_task d (y\<lparr>t_msg_val := v\<rparr>) k1))"
      using c np by (intro ready_or_running_mkeeps [OF _ m2, where x = "y\<lparr>t_msg_val := v\<rparr>"]) (simp_all add: wk(2))
    then show ?thesis using e Some y by (simp add: set_msg_val_def wk(2))
  qed
qed

text \<open>A full queue with a waiting sender: the first message goes out, the sender's comes in.\<close>

lemma preceive_from_full:
  assumes "tasks k t = Some x" and u: "slot_ok i" "mqueues k (nat i) = Some q" and q: "mqueue_ok q" "mq_msgs q = v # vs"
    and full: "mq_count q = mq_size q" "t_msg_val x \<noteq> - 1" and h: "\<not> heap_full k"
  shows "preceive_from i t k = Inr (v, put_task t (x\<lparr>t_msg_val := - 1\<rparr>)
      (put_mqueue i (Some (q\<lparr>mq_msgs := vs @ [t_msg_val x]\<rparr>)) k))"
proof -
  let ?q1 = "q\<lparr>mq_count := mq_count q - 1, mq_msgs := vs\<rparr>"
  let ?k1 = "put_mqueue i (Some ?q1) k"
  let ?q2 = "q\<lparr>mq_msgs := vs @ [t_msg_val x]\<rparr>"
  have p: "pop_msg i k = Inr (v, ?k1)" by (rule pop_msg_used [OF u q(2)])
  have "add_msg i (t_msg_val x) ?k1 = Inr (put_mqueue i (Some (?q1\<lparr>mq_msgs := mq_msgs ?q1 @ [t_msg_val x], mq_count := mq_count ?q1 + 1\<rparr>)) ?k1)"
    using u h by (intro add_msg_used mqueue_ok_pop [OF q]) simp_all
  moreover have "put_mqueue i (Some (?q1\<lparr>mq_msgs := mq_msgs ?q1 @ [t_msg_val x], mq_count := mq_count ?q1 + 1\<rparr>)) ?k1 = put_mqueue i (Some ?q2) k"
    by (simp add: put_mqueue_def)
  ultimately have a: "add_msg i (t_msg_val x) ?k1 = Inr (put_mqueue i (Some ?q2) k)" by simp
  show ?thesis using assms(1) u full p a
    by (simp add: preceive_from_def mqueue_full_def mqueue_empty_def get_mqueue_used set_msg_val_def)
qed

lemma preceive_rest_mkeeps:
  assumes inv: "kinv k" and m: "minv k" and u: "slot_ok i" "mqueues k (nat i) = Some q"
    and c: "running_task k = Some c" "idle_task k \<noteq> Some c" and x: "tasks k c = Some x"
    and ne: "mq_count q \<noteq> 0 \<or> t_msg_val x \<noteq> - 1"
  shows "mkeeps (preceive_rest i rst want k)"
proof -
  consider "rst < cpt_rst k" | "\<not> rst < cpt_rst k" "t_msg_val x \<noteq> - 1" | "\<not> rst < cpt_rst k" "t_msg_val x = - 1"
    by blast
  then show ?thesis
  proof cases
    case 1
    then show ?thesis using u m by (simp add: preceive_rest_def mqueue_unused_def get_slot_def mkeeps_return)
  next
    case 2
    have "kont_ok k c (x\<lparr>t_msg_val := - 1\<rparr>)"
      by (rule kont_ok_msg_val [OF minvD(1) [OF m x] not_waiting(1) [OF inv c(1)]]) simp
    then have "minv (put_task c (x\<lparr>t_msg_val := - 1\<rparr>) k)" by (rule minv_put [OF m])
    then show ?thesis using 2 u c x
      by (simp add: preceive_rest_def mqueue_unused_def get_slot_def current_task_def set_msg_val_def preceive_out_def
          mkeeps_return)
  next
    case 3
    have q: "mqueue_ok q" using kinv_mqueue_ok [OF inv u(2)] by simp
    obtain v vs where v: "mq_msgs q = v # vs" using mqueue_empty_iff [OF q] ne 3 by (cases "mq_msgs q") auto
    have nr: "qlist (sq k) (Q_receivers (nat i)) = []"
      using minvD(2) [OF m] u(2) ne 3 by (auto simp: queues_ok_def)
    obtain w k1 where w: "take_waiter (senders i) k = (w, k1)" by (cases "take_waiter (senders i) k")
    have r: "home_ok Int_Msg (Some (senders i))" by (simp add: senders_def)
    have e: "preceive_rest i rst want k = (case w of
        None \<Rightarrow> bindE (pop_msg i k1) (\<lambda>(msg, k2). preceive_out msg want k2)
      | Some waiter \<Rightarrow> bindE (preceive_from i waiter k1) (\<lambda>(msg, k2).
            set_task_ready_or_running waiter (K_preceive_out msg want) k2))"
      using 3 u c x w by (cases w) (simp_all add: preceive_rest_def mqueue_unused_def get_slot_def current_task_def)
    show ?thesis
    proof (cases w)
      case None
      then have k1: "k1 = k" "qlist (sq k) (senders i) = []" using take_waiter_none [OF w [unfolded None]] inv by simp_all
      have "minv (put_mqueue i (Some (q\<lparr>mq_count := mq_count q - 1, mq_msgs := vs\<rparr>)) k)"
        using nr k1(2) by (intro minv_put_mqueue [OF m]) (simp_all add: senders_def)
      then show ?thesis using e None k1(1) pop_msg_used [OF u v] by (simp add: preceive_out_def mkeeps_return)
    next
      case (Some d)
      note wk = take_waiter_waking [OF inv r, of d k1]
      have wk: "waking d k1" "k1 = k\<lparr>sq := q_unlink d (sq k)\<rparr>" "d \<in> set (qlist (sq k) (senders i))"
        using wk w Some by simp_all
      obtain y where y: "tasks k d = Some y" using wk(1) unfolding wk(2) by (auto simp: waking_def)
      have "qlist (sq k) (Q_senders (nat i)) \<noteq> []" using wk(3) by (auto simp: senders_def)
      then have full: "mq_count q = mq_size q" using minvD(2) [OF m] u(2) by (simp add: queues_ok_def)
      have "sending k d" using wk(3) by (auto simp: sending_def senders_def)
      then have mv: "t_msg_val y \<noteq> - 1" using minvD(1) [OF m y] by (simp add: kont_ok_def)
      have m1: "minv k1" unfolding wk(2) using inv by (intro minv_frame [OF m] frame_unlink) simp
      let ?q = "q\<lparr>mq_msgs := vs @ [t_msg_val y]\<rparr>"
      let ?k2 = "put_task d (y\<lparr>t_msg_val := - 1\<rparr>) (put_mqueue i (Some ?q) k1)"
      have pf: "preceive_from i d k1 = Inr (v, ?k2)"
        by (rule preceive_from_full) (use y u q v full mv minvD(3) [OF m] in \<open>simp_all add: wk(2)\<close>)
      have m2: "minv (put_mqueue i (Some ?q) k1)"
        using nr full by (intro minv_put_mqueue [OF m1]) (simp_all add: wk(2) q_unlink_def)
      have "\<not> sending (put_mqueue i (Some ?q) k1) d" using inv by (auto simp: wk(2) sending_def set_qlist_q_unlink)
      then have "kont_ok (put_mqueue i (Some ?q) k1) d (y\<lparr>t_msg_val := - 1\<rparr>)"
        using y by (intro kont_ok_msg_val minvD(1) [OF m2]) (simp_all add: wk(2))
      then have m3: "minv ?k2" by (rule minv_put [OF m2])
      have q': "mqueue_ok ?q" using q v by (simp add: mqueue_ok_def)
      have "waking d (put_mqueue i (Some ?q) k1)" using u by (intro waking_mqueue [OF wk(1) q']) (simp_all add: wk(2))
      then have w3: "waking d ?k2" by (rule waking_put [where y = y]) (use y in \<open>simp_all add: wk(2)\<close>)
      have "mkeeps (set_task_ready_or_running d (K_preceive_out v want) ?k2)"
        by (rule ready_or_running_mkeeps [OF w3 m3, where x = "y\<lparr>t_msg_val := - 1\<rparr>"]) (use c in \<open>simp_all add: wk(2)\<close>)
      then show ?thesis using e Some pf by simp
    qed
  qed
qed

lemma preceive_loop_mkeeps:
  assumes inv: "kinv k" and m: "minv k" and c: "running_task k = Some c" "idle_task k \<noteq> Some c" and x: "tasks k c = Some x"
  shows "mkeeps (preceive_loop i rst want k)"
proof (cases "slot_ok i \<and> mqueues k (nat i) \<noteq> None")
  case False
  then show ?thesis by (auto simp: preceive_loop_def mqueue_empty_def get_mqueue_def get_slot_def)
next
  case True
  then obtain q where u: "slot_ok i" "mqueues k (nat i) = Some q" by auto
  have e: "preceive_loop i rst want k = (if mq_count q = 0 \<and> t_msg_val x = - 1
       then bindE (enqueue c (receivers i) k) (set_task_interrupted_msg c (K_preceive i rst want))
       else preceive_rest i rst want k)"
    using u c x by (simp add: preceive_loop_def mqueue_empty_def get_mqueue_used current_task_def)
  show ?thesis
  proof (cases "mq_count q = 0 \<and> t_msg_val x = - 1")
    case True
    have i: "int (nat i) = i" using u(1) by (simp add: slot_ok_def)
    have "minv (move_task c Int_Msg (receivers i) (put_task c (x\<lparr>t_kont := K_preceive i rst want\<rparr>) k))"
      using True u i by (intro minv_wait [OF inv m c x, where i = "nat i" and rst = rst and w = want and v = 0])
        (auto simp: receivers_def)
    moreover have "kinv0 (move_task c Int_Msg (receivers i) (put_task c (x\<lparr>t_kont := K_preceive i rst want\<rparr>) k))"
      using u by (intro wait_on_queue_kinv0 [OF inv c x]) (auto simp: receivers_def)
    ultimately show ?thesis unfolding e if_P [OF True] wait_on_queue_eq [OF inv c(1) x] by (rule mkeeps_schedule)
  next
    case False
    then have "mkeeps (preceive_rest i rst want k)" by (intro preceive_rest_mkeeps [OF inv m u c x]) auto
    then show ?thesis unfolding e if_not_P [OF False] .
  qed
qed

lemma preceive_mkeeps:
  assumes inv: "kinv k" and m: "minv k" and c: "running_task k = Some t" "idle_task k \<noteq> Some t"
  shows "mkeeps (preceive i want k)"
proof (cases "slot_ok i \<and> mqueues k (nat i) \<noteq> None")
  case False
  then show ?thesis using m by (auto simp: preceive_def mqueue_unused_def get_slot_def mkeeps_return)
next
  case True
  obtain x where x: "tasks k t = Some x" using kinv_current [OF inv] c(1) by (metis option.inject)
  let ?x = "x\<lparr>t_msg_val := - 1\<rparr>"
  have "kont_ok k t ?x"
    by (rule kont_ok_msg_val [OF minvD(1) [OF m x] not_waiting(1) [OF inv c(1)]]) simp
  then have mk: "minv (put_task t ?x k)" by (rule minv_put [OF m])
  have "kinv (put_task t ?x k)" by (rule kinv_put [OF inv x]) simp_all
  then have "mkeeps (preceive_loop i (cpt_rst k) want (put_task t ?x k))"
    using c by (intro preceive_loop_mkeeps [OF _ mk, where c = t and x = ?x]) simp_all
  then show ?thesis using True c x by (auto simp: preceive_def mqueue_unused_def get_slot_def set_msg_val_def)
qed


section \<open>Deleting, creating and resetting queues\<close>

text \<open>After \<open>cpt_rst++\<close> every blocked sender will find that its queue has changed.\<close>

definition outdated :: "kst \<Rightarrow> bool" where
  "outdated k \<longleftrightarrow> (\<forall>t x i v r. tasks k t = Some x \<longrightarrow> t_kont x = K_psend i v r \<longrightarrow> r < cpt_rst k)"

lemma minv_cpt:
  assumes m: "minv k" shows "minv (k\<lparr>cpt_rst := cpt_rst k + 1\<rparr>)" and "outdated (k\<lparr>cpt_rst := cpt_rst k + 1\<rparr>)"
proof -
  have "kont_ok (k\<lparr>cpt_rst := cpt_rst k + 1\<rparr>) t x" if "tasks k t = Some x" for t x
    using minvD(1) [OF m that] by (auto simp: kont_ok_def receiving_def sending_def split: kont.splits)
  then show "minv (k\<lparr>cpt_rst := cpt_rst k + 1\<rparr>)" using m by (auto simp: minv_def queues_ok_def)
  show "outdated (k\<lparr>cpt_rst := cpt_rst k + 1\<rparr>)"
    using minvD(1) [OF m] by (fastforce simp: outdated_def kont_ok_def)
qed

lemma outdated_frame: "outdated k \<Longrightarrow> frame k k' \<Longrightarrow> outdated k'"
  by (fastforce simp: outdated_def frameD(2) elim: frame_task)

lemma wake_waiters_minv:
  assumes run: "wake_waiters q k = Inr k'" and "kinv k" and "minv k" and "outdated k" and q: "home_ok Int_Msg (Some q)"
  shows "minv k' \<and> outdated k'"
proof -
  have "kinv k' \<and> minv k' \<and> outdated k'"
    using run unfolding wake_waiters_def
  proof (rule foldE_invariant [where I = "\<lambda>k. kinv k \<and> minv k \<and> outdated k"])
    fix u s s'
    assume s: "kinv s \<and> minv s \<and> outdated s"
      and st: "(case take_waiter q s of (None, k1) \<Rightarrow> Inr k1 | (Some t, k1) \<Rightarrow> set_task_ready t k1) = Inr s'"
    obtain w k1 where w: "take_waiter q s = (w, k1)" by (cases "take_waiter q s")
    show "kinv s' \<and> minv s' \<and> outdated s'"
    proof (cases w)
      case None
      then show ?thesis using st w s take_waiter_none(1) [of q s k1] by simp
    next
      case (Some t)
      note wk = take_waiter_waking [OF conjunct1 [OF s] q, of t k1]
      have wk: "waking t k1" "k1 = s\<lparr>sq := q_unlink t (sq s)\<rparr>" using wk w Some by simp_all
      obtain x where x: "tasks k1 t = Some x" "t_state x = Int_Msg" "qlink (sq k1) t = None" "running_task k1 \<noteq> Some t" "q_ok (sq k1)"
        using wk(1) by (auto simp: waking_def)
      have f: "frame s k1" unfolding wk(2) using s by (intro frame_unlink) simp
      have m1: "minv k1" and o1: "outdated k1" using minv_frame [OF _ f] outdated_frame [OF _ f] s by simp_all
      have "set_task_ready t k1 = Inr (move_task t Ready Q_ready k1)"
        unfolding set_task_ready_def using x by (intro set_task_state_move [where x = x]) simp_all
      then have s': "s' = move_task t Ready Q_ready k1" using st w Some by simp
      have "minv s'" unfolding s'
        using o1 x by (intro minv_ready [OF m1 x(5) x(1,2)]) (auto simp: outdated_def)
      moreover have "outdated s'" using o1 by (auto simp: s' outdated_def split: if_splits)
      ultimately show ?thesis using waking_move [OF wk(1)] s' by simp
    qed
  qed (use assms in simp)
  then show ?thesis by simp
qed

lemma minv_slot:
  assumes m: "minv k" shows "minv (put_mqueue i None k)"
proof -
  have "kont_ok (put_mqueue i None k) = kont_ok k"
    by (simp add: kont_ok_def receiving_def sending_def fun_eq_iff split: kont.split)
  then show ?thesis using m by (auto simp: minv_def queues_ok_def)
qed

lemma pdelete_used_minv:
  assumes inv: "kinv k" and m: "minv k" and run: "pdelete_used i k = Inr k'"
  shows "minv k'"
proof -
  have r: "home_ok Int_Msg (Some (senders i))" "home_ok Int_Msg (Some (receivers i))" by (simp_all add: senders_def receivers_def)
  let ?k = "k\<lparr>cpt_rst := cpt_rst k + 1\<rparr>"
  obtain k1 k2 where 1: "wake_waiters (senders i) ?k = Inr k1" "wake_waiters (receivers i) k1 = Inr k2" "free_mqueue i k2 = Inr k'"
    using run by (auto simp: pdelete_used_def bind_rules)
  have "minv k1 \<and> outdated k1" by (rule wake_waiters_minv [OF 1(1) _ minv_cpt [OF m] r(1)]) (use inv in simp)
  moreover have "kinv k1" using wake_waiters_ok [of ?k, OF _ r(1)] inv 1(1) by auto
  ultimately have "minv k2" using wake_waiters_minv [OF 1(2) _ _ _ r(2)] by simp
  then show ?thesis using 1(3) minv_slot by (auto simp: free_mqueue_def bind_rules)
qed

lemma pdelete_minv: "kinv k \<Longrightarrow> minv k \<Longrightarrow> pdelete i k = Inr (v, k') \<Longrightarrow> minv k'"
  using pdelete_used_minv [of k i] by (auto simp: pdelete_def bind_rules split: if_splits)

lemma alloc_mqueue_minv:
  assumes m: "minv k" and run: "alloc_mqueue i n k = Inr k'" shows "minv k'"
proof -
  have k': "k' = put_mqueue i (Some \<lparr>mq_msgs = [], mq_size = n, mq_count = 0\<rparr>) (init_waiting i k)"
    using run by (simp add: alloc_mqueue_def split: if_splits)
  have "frame k (init_waiting i k)" unfolding init_waiting_def by (intro frame_sq) auto
  then have "minv (init_waiting i k)" by (rule minv_frame [OF m])
  then show ?thesis unfolding k'
    by (rule minv_put_mqueue) (simp_all add: init_waiting_def senders_def receivers_def)
qed

lemma pcreate_minv: "minv k \<Longrightarrow> pcreate n k = Inr (v, k') \<Longrightarrow> minv k'"
  by (auto simp: pcreate_def Let_def bind_rules split: if_splits intro: alloc_mqueue_minv)

lemma preset_minv:
  assumes inv: "kinv k" and m: "minv k" and run: "preset i k = Inr (v, k')" shows "minv k'"
proof (cases "k' = k")
  case False
  then obtain n w k1 where 1: "pdelete i (k\<lparr>cpt_rst := cpt_rst k + 1\<rparr>) = Inr (w, k1)" "alloc_mqueue i n k1 = Inr k'"
    using run by (auto simp: preset_def bind_rules split: if_splits)
  have "minv k1" by (rule pdelete_minv [OF _ minv_cpt(1) [OF m] 1(1)]) (use inv in simp)
  then show ?thesis using 1(2) by (rule alloc_mqueue_minv)
qed (use m in simp)

section \<open>start\<close>

lemma frame_kpids: "frame k (k\<lparr>kpids := m\<rparr>)"
  by (auto simp: frame_def)

lemma minv_born:
  assumes inv: "kinv k" and m: "minv k" and f: "fresh_block t k" and z: "t_kont z = K_user"
  shows "minv (born t z pm' s mem g k)" (is "minv ?b")
proof -
  have l: "links_ok k" using inv by (rule kinv_links)
  have n: "tasks k t = None" using f by (simp add: fresh_block_def)
  have q: "q_ok (sq k)" using inv by simp
  have nl: "t \<notin> set (qlist (sq k) h)" for h using fresh_links(1) [OF l n] q by (simp add: q_unlinked_notin)
  have sl: "set (qlist (sq ?b) h) = (if h = Q_ready then insert t (set (qlist (sq k) h)) else set (qlist (sq k) h))" for h
    using q nl by (simp add: born_def set_qlist_q_move)
  have "kont_ok ?b u y" if y: "tasks ?b u = Some y" for u y
  proof (cases "u = t")
    case True
    then have "t_kont y = K_user" using y z by (auto simp: born_def)
    moreover have "\<not> sending ?b t" unfolding sending_def sl using nl by auto
    ultimately show ?thesis using True by (simp add: kont_ok_def)
  next
    case False
    then have "kont_ok k u y" using y minvD(1) [OF m, of u y] by (simp add: born_def)
    moreover have "receiving ?b u = receiving k u" "sending ?b u = sending k u"
      unfolding receiving_def sending_def sl by simp_all
    ultimately show ?thesis by (simp add: kont_ok_def born_def split: kont.splits)
  qed
  moreover have "qlist (sq ?b) h \<noteq> [] \<Longrightarrow> qlist (sq k) h \<noteq> []" if "h \<noteq> Q_ready" for h
    using sl [of h] that by (cases "qlist (sq k) h") auto
  then have "queues_ok ?b" using minvD(2) [OF m] by (auto simp: queues_ok_def born_def)
  ultimately show ?thesis using minvD(3) [OF m] by (simp add: minv_def born_def)
qed

lemma start_mkeeps:
  assumes inv: "kinv k" and m: "minv k" and f: "fresh_block t k"
  shows "mkeeps (start app_of pgdir name ssize prio arg t ks k)"
proof -
  have "minv k'" if run: "start app_of pgdir name ssize prio arg t ks k = Inr k'" for k'
  proof (cases rule: start_cases [OF inv f run])
    case (1 e k1)
    then have "minv k1" using m minv_frame [OF m frame_kpids] by auto
    then show ?thesis using mkeeps_return [of k1 e None] 1(1) by simp
  next
    case (2 z pm' s mem g)
    have b: "minv (born t z pm' s mem g k)" by (rule minv_born [OF inv m f 2(2)])
    have "mkeeps (schedule_then (K_start t) (born t z pm' s mem g k))"
      by (rule mkeeps_schedule_then [OF b kinv_kinv0 [OF 2(1)]]) simp_all
    then show ?thesis using 2(7) minv_set_kont [OF b, of "K_start t" k'] by auto
  qed
  then show ?thesis by (simp add: mkeeps_def)
qed

end
