(* ===== verification/KernelMachine.thy ===== *)
theory KernelMachine
  imports MsgInv
begin

text \<open>
  The kernel as a machine: \<open>syscall\<close> is the table of \<open>kernel/syscall_handler.c\<close> for the calls on
  tasks, messages and time, \<open>resume\<close> runs what is left of the call that the running task had been
  suspended in, and \<open>step\<close> says what may happen next: the running process makes a call or faults,
  the clock ticks, or a suspended call goes on. \<open>start\<close> is given the block the allocator returns
  (a fresh one). The idle process makes no call but \<open>start\<close> (\<open>user/idle/main.c\<close>).
\<close>

section \<open>Calls\<close>

datatype call =
    C_start "u8 list" u32 int u32
  | C_getpid
  | C_getprio int
  | C_chprio int int
  | C_kill int
  | C_waitpid int u32
  | C_exit int
  | C_pcount int bool
  | C_pcreate int
  | C_pdelete int
  | C_preceive int bool
  | C_preset int
  | C_psend int int
  | C_current_clock
  | C_wait_clock u32

definition returning :: "(int \<times> kst) res \<Rightarrow> kst res" where
  "returning r = bindE r (\<lambda>(v, k). return_user v None k)"

fun syscall :: "(u8 list \<Rightarrow> uapp option) \<Rightarrow> u32 \<Rightarrow> tid \<Rightarrow> u32 \<Rightarrow> call \<Rightarrow> kst \<Rightarrow> kst res" where
  "syscall app_of pgdir t ks (C_start name ssize prio arg) k = start app_of pgdir name ssize prio arg t ks k"
| "syscall app_of pgdir t ks C_getpid k = bindE (getpid k) (\<lambda>v. return_user v None k)"
| "syscall app_of pgdir t ks (C_getprio pid) k = bindE (getprio pid k) (\<lambda>v. return_user v None k)"
| "syscall app_of pgdir t ks (C_chprio pid prio) k = chprio pid prio k"
| "syscall app_of pgdir t ks (C_kill pid) k = kill pid k"
| "syscall app_of pgdir t ks (C_waitpid pid p) k = waitpid pid p k"
| "syscall app_of pgdir t ks (C_exit v) k = exit_current v k"
| "syscall app_of pgdir t ks (C_pcount i want) k = bindE (pcount i want k) (\<lambda>(v, out). return_user v out k)"
| "syscall app_of pgdir t ks (C_pcreate n) k = returning (pcreate n k)"
| "syscall app_of pgdir t ks (C_pdelete i) k = returning (pdelete i k)"
| "syscall app_of pgdir t ks (C_preceive i want) k = preceive i want k"
| "syscall app_of pgdir t ks (C_preset i) k = returning (preset i k)"
| "syscall app_of pgdir t ks (C_psend i m) k = psend i m k"
| "syscall app_of pgdir t ks C_current_clock k = return_user (uint (current_clock k)) None k"
| "syscall app_of pgdir t ks (C_wait_clock w) k = wait_clock w k"

definition running_kont :: "kst \<Rightarrow> kont option" where
  "running_kont k = (case running_task k of None \<Rightarrow> None | Some c \<Rightarrow> map_option t_kont (tasks k c))"

definition user_mode :: "kst \<Rightarrow> bool" where
  "user_mode k \<longleftrightarrow> running_kont k = Some K_user"

fun resume_kont :: "kont \<Rightarrow> kst \<Rightarrow> kst res" where
  "resume_kont K_user k = Inr k"
| "resume_kont (K_ret v) k = return_user v None k"
| "resume_kont (K_start t) k = start_return t k"
| "resume_kont K_exit k = Inl Panic"
| "resume_kont (K_chprio t prio old) k = chprio_rest t prio old k"
| "resume_kont (K_wait_any want) k = wait_any_child want k"
| "resume_kont (K_wait_child t want) k = wait_for_child t want k"
| "resume_kont (K_psend i m r) k = psend_loop i m r k"
| "resume_kont (K_psend_add i m) k = psend_add i m k"
| "resume_kont (K_preceive i r want) k = preceive_loop i r want k"
| "resume_kont (K_preceive_out m want) k = preceive_out m want k"

definition resume :: "kst \<Rightarrow> kst res" where
  "resume k = bindE (current_task k) (\<lambda>(c, x). resume_kont (t_kont x) k)"

section \<open>Steps\<close>

inductive step :: "(u8 list \<Rightarrow> uapp option) \<Rightarrow> u32 \<Rightarrow> kst \<Rightarrow> kst \<Rightarrow> bool" for app_of pgdir where
  s_call: "user_mode k \<Longrightarrow> running_task k \<noteq> idle_task k \<Longrightarrow> fresh_block t k \<Longrightarrow>
    syscall app_of pgdir t ks c k = Inr k' \<Longrightarrow> step app_of pgdir k k'"
| s_idle: "user_mode k \<Longrightarrow> running_task k = idle_task k \<Longrightarrow> fresh_block t k \<Longrightarrow>
    syscall app_of pgdir t ks (C_start name ssize prio arg) k = Inr k' \<Longrightarrow> step app_of pgdir k k'"
| s_tick: "user_mode k \<Longrightarrow> clock_handler k = Inr k' \<Longrightarrow> step app_of pgdir k k'"
| s_resume: "\<not> user_mode k \<Longrightarrow> resume k = Inr k' \<Longrightarrow> step app_of pgdir k k'"
| s_fault: "user_mode k \<Longrightarrow> running_task k \<noteq> idle_task k \<Longrightarrow> page_fault_handler k = Inr k' \<Longrightarrow> step app_of pgdir k k'"
| s_fault_deleted: "\<not> user_mode k \<Longrightarrow> resume k = Inl Null_Deref \<Longrightarrow> page_fault_handler k = Inr k' \<Longrightarrow>
    step app_of pgdir k k'"

inductive reachable :: "(u8 list \<Rightarrow> uapp option) \<Rightarrow> u32 \<Rightarrow> kst \<Rightarrow> kst \<Rightarrow> bool" for app_of pgdir k0 where
  r_init: "reachable app_of pgdir k0 k0"
| r_step: "reachable app_of pgdir k0 k \<Longrightarrow> step app_of pgdir k k' \<Longrightarrow> reachable app_of pgdir k0 k'"


section \<open>Every step keeps both invariants\<close>

lemma user_mode_current:
  assumes "kinv k"
  obtains c x where "running_task k = Some c" "tasks k c = Some x" "t_state x = Running"
    "user_mode k \<longleftrightarrow> t_kont x = K_user" "resume k = resume_kont (t_kont x) k"
proof -
  obtain c x where c: "running_task k = Some c" "tasks k c = Some x" "t_state x = Running"
    using kinv_current [OF assms] by blast
  moreover have "user_mode k \<longleftrightarrow> t_kont x = K_user" using c by (simp add: user_mode_def running_kont_def)
  moreover have "resume k = resume_kont (t_kont x) k" using c by (simp add: resume_def current_task_def)
  ultimately show ?thesis using that by blast
qed

lemma kinv_ticks:
  assumes inv: "kinv k" shows "kinv0 (k\<lparr>total_ticks := n\<rparr>)"
proof -
  note i1 = kinv_kinv1 [OF inv]
  have l: "links_ok k" using inv by (rule kinv_links)
  have "link_ok (k\<lparr>total_ticks := n\<rparr>) u" for u
    using links_okD [OF l, of u] by (simp add: link_ok_def split: option.splits)
  moreover have "q_ok (sq k)" "q_ok (kids k)" "q_ok (glob k)" using l by simp_all
  ultimately have "links_ok (k\<lparr>total_ticks := n\<rparr>)" unfolding links_ok_def by auto
  moreover have "prio_of (k\<lparr>total_ticks := n\<rparr>) = prio_of k" by (simp add: prio_of_def fun_eq_iff)
  ultimately have k1: "kinv1 (k\<lparr>total_ticks := n\<rparr>)"
    using i1 by (auto simp: kinv1_def queues_sorted_def parents_ok_def running_ok_def idle_ok_def mqs_ok_def pids_ok_def)
  obtain c x where "running_task k = Some c" "tasks k c = Some x" "t_state x = Running"
    using kinv_current [OF inv] by blast
  then have "kinv (k\<lparr>total_ticks := n\<rparr>)" by (intro kinvI [OF k1]) simp_all
  then show ?thesis by (rule kinv_kinv0)
qed

lemma tick_keeps:
  assumes "kinv k" and "minv k" shows "keeps (clock_handler k)" and "mkeeps (clock_handler k)"
proof -
  have "frame k (k\<lparr>total_ticks := total_ticks k + 1\<rparr>)" by (auto simp: frame_def)
  then have "minv (k\<lparr>total_ticks := total_ticks k + 1\<rparr>)" by (rule minv_frame [OF assms(2)])
  then show "keeps (clock_handler k)" and "mkeeps (clock_handler k)"
    using kinv_ticks [OF assms(1)] by (simp_all add: clock_handler_def keeps_schedule mkeeps_schedule)
qed

lemma bad_slot: "\<not> slot_ok i \<Longrightarrow> pdelete i k = Inl Out_Of_Bounds" "\<not> slot_ok i \<Longrightarrow> preset i k = Inl Out_Of_Bounds"
    "\<not> slot_ok i \<Longrightarrow> pcount i want k = Inl Out_Of_Bounds"
  by (simp_all add: pdelete_def preset_def pcount_def mqueue_unused_def get_slot_def)

lemma returning_keeps:
  assumes "\<exists>v k'. r = Inr (v, k') \<and> kinv k' \<and> minv k'" shows "keeps (returning r) \<and> mkeeps (returning r)"
  using assms by (auto simp: returning_def keeps_return mkeeps_return)

lemma pcount_total: "slot_ok i \<Longrightarrow> \<exists>p. pcount i want k = Inr p"
  by (cases "mqueues k (nat i)")
    (auto simp: pcount_def mqueue_unused_def get_slot_def get_mqueue_used)

lemma getprio_total:
  assumes "kinv k" shows "\<exists>v. getprio pid k = Inr v"
  by (cases rule: pid_to_task_ok [OF assms, of pid]) (auto simp: getprio_def)

text \<open>What can go wrong in a call: the soft errors, a \<open>wait_clock\<close> that is late, and \<open>start\<close>'s use of memory.\<close>

fun call_may_fail :: "call \<Rightarrow> kst \<Rightarrow> bool" where
  "call_may_fail (C_wait_clock w) k \<longleftrightarrow> w \<le> total_ticks k"
| "call_may_fail (C_start name ssize prio arg) k \<longleftrightarrow> True"
| "call_may_fail _ k \<longleftrightarrow> False"

lemma syscall_keeps:
  assumes inv: "kinv k" and m: "minv k" and c: "running_task k \<noteq> idle_task k" and ok: "\<not> call_may_fail cl k"
  shows "keeps (syscall app_of pgdir t ks cl k)"
proof -
  obtain d x where d: "running_task k = Some d" "tasks k d = Some x" using kinv_current [OF inv] by blast
  have ni: "idle_task k \<noteq> Some d" using c d by auto
  have h: "\<not> heap_full k" using m by (simp add: minv_def)
  show ?thesis
  proof (cases cl)
    case C_getpid
    then show ?thesis using d inv by (simp add: getpid_def keeps_return)
  next
    case (C_getprio pid)
    then show ?thesis using getprio_total [OF inv, of pid] inv by (auto simp: keeps_return)
  next
    case (C_pcount i want)
    then show ?thesis using pcount_total [of i want k] bad_slot(3) [of i want k] inv
      by (cases "slot_ok i") (auto simp: keeps_return)
  next
    case (C_pcreate n)
    then show ?thesis using pcreate_ok [OF inv h, of n] by (auto simp: returning_def keeps_return)
  next
    case (C_pdelete i)
    show ?thesis
    proof (cases "slot_ok i")
      case True
      then obtain v k' where "pdelete i k = Inr (v, k')" "kinv k'" using pdelete_ok [OF inv] by blast
      then show ?thesis using C_pdelete by (simp add: returning_def keeps_return)
    qed (simp add: C_pdelete returning_def bad_slot)
  next
    case (C_preset i)
    show ?thesis
    proof (cases "slot_ok i")
      case True
      then obtain v k' where "preset i k = Inr (v, k')" "kinv k'" using preset_ok [OF inv h] by blast
      then show ?thesis using C_preset by (simp add: returning_def keeps_return)
    qed (simp add: C_preset returning_def bad_slot)
  next
    case (C_wait_clock w)
    then show ?thesis using ok wait_clock_keeps [OF inv d(1) ni] by simp
  qed (use ok inv in \<open>simp_all add: keeps_return chprio_keeps [OF inv c] kill_keeps [OF inv c] waitpid_keeps [OF inv c]
      exit_current_keeps [OF inv c] preceive_keeps [OF inv h c] psend_keeps [OF inv h c]\<close>)
qed

lemma syscall_mkeeps:
  assumes inv: "kinv k" and m: "minv k" and c: "running_task k \<noteq> idle_task k" and u: "user_mode k" and f: "fresh_block t k"
  shows "mkeeps (syscall app_of pgdir t ks cl k)"
proof -
  obtain d x where d: "running_task k = Some d" "tasks k d = Some x" "t_kont x = K_user"
    using user_mode_current [OF inv] u by metis
  have ni: "idle_task k \<noteq> Some d" using c d by auto
  show ?thesis
  proof (cases cl)
    case (C_pcreate n)
    then show ?thesis using pcreate_minv [OF m, of n] by (auto simp: returning_def intro!: mkeeps_bind mkeeps_return)
  next
    case (C_pdelete i)
    then show ?thesis using pdelete_minv [OF inv m, of i] by (auto simp: returning_def intro!: mkeeps_bind mkeeps_return)
  next
    case (C_preset i)
    then show ?thesis using preset_minv [OF inv m, of i] by (auto simp: returning_def intro!: mkeeps_bind mkeeps_return)
  next
    case (C_getprio pid)
    then show ?thesis using m by (auto intro!: mkeeps_bind mkeeps_return)
  next
    case (C_pcount i want)
    then show ?thesis using m by (auto intro!: mkeeps_bind mkeeps_return)
  next
    case C_getpid
    then show ?thesis using m by (auto intro!: mkeeps_bind mkeeps_return)
  qed (use m in \<open>simp_all add: mkeeps_return chprio_mkeeps [OF inv m c] kill_mkeeps [OF inv m c] waitpid_mkeeps [OF inv m c]
      exit_current_mkeeps [OF inv m c] preceive_mkeeps [OF inv m d(1) ni] psend_mkeeps [OF inv m c d]
      start_mkeeps [OF inv m f] asleep_mkeeps [OF inv m c]\<close>)
qed

lemma syscall_inv:
  assumes inv: "kinv k" and m: "minv k" and c: "running_task k \<noteq> idle_task k" and u: "user_mode k" and f: "fresh_block t k"
    and run: "syscall app_of pgdir t ks cl k = Inr k'"
  shows "kinv k' \<and> minv k'"
proof
  show "minv k'" using syscall_mkeeps [OF inv m c u f] run by (simp add: mkeeps_def)
  show "kinv k'"
  proof (cases "call_may_fail cl k")
    case False
    then show ?thesis using syscall_keeps [OF inv m c False] run by (metis keeps_simps(2))
  next
    case True
    show ?thesis
    proof (cases cl)
      case (C_start name ssize prio arg)
      then show ?thesis using run start_keeps [OF inv f] by simp
    next
      case (C_wait_clock w)
      obtain d where d: "running_task k = Some d" using kinv_current [OF inv] by blast
      then have "wait_clock w k = Inl Panic"
        using True C_wait_clock c by (intro wait_clock_late [OF inv d]) auto
      then show ?thesis using run C_wait_clock by simp
    qed (use True in simp_all)
  qed
qed

text \<open>A suspended call that goes on; only a deleted message queue makes it follow a null pointer.\<close>

definition on_deleted_queue :: "kst \<Rightarrow> bool" where
  "on_deleted_queue k \<longleftrightarrow> (\<exists>i. mqueues k (nat i) = None \<and>
     ((\<exists>m r. running_kont k = Some (K_psend i m r)) \<or> (\<exists>r w. running_kont k = Some (K_preceive i r w))))"

lemma resume_keeps:
  assumes inv: "kinv k" and m: "minv k" and u: "\<not> user_mode k"
  shows "mkeeps (resume k)" and "keeps (resume k) \<or> resume k = Inl Null_Deref \<and> on_deleted_queue k"
proof -
  obtain d x where d: "running_task k = Some d" "tasks k d = Some x" "t_state x = Running"
    and um: "t_kont x \<noteq> K_user" and e: "resume k = resume_kont (t_kont x) k"
    using user_mode_current [OF inv] u by metis
  have h: "\<not> heap_full k" using m by (simp add: minv_def)
  have ko: "kont_ok k d x" by (rule minvD(1) [OF m d(2)])
  then have c: "running_task k \<noteq> idle_task k \<or> (\<exists>t. t_kont x = K_start t)"
    using um d(1) by (auto simp: kont_ok_def)
  have rk: "running_kont k = Some (t_kont x)" using d by (simp add: running_kont_def)
  have "mkeeps (resume k) \<and> (keeps (resume k) \<or> resume k = Inl Null_Deref \<and> on_deleted_queue k)"
  proof (cases "t_kont x")
    case (K_start t)
    then show ?thesis using e inv m
      by (cases "tasks k t") (simp_all add: start_return_def get_task_def keeps_return mkeeps_return)
  next
    case K_exit
    then show ?thesis using ko d(3) by (simp add: kont_ok_def)
  next
    case (K_psend i v r)
    have ni: "running_task k \<noteq> idle_task k" using c K_psend by simp
    then have "mkeeps (psend_loop i v r k)"
      using ko K_psend d by (intro psend_loop_mkeeps [OF inv m d(1) _ d(2)]) (auto simp: kont_ok_def suspended_def)
    moreover have "keeps (psend_loop i v r k) \<or> psend_loop i v r k = Inl Null_Deref \<and> mqueues k (nat i) = None"
    proof (cases "slot_ok i")
      case True
      then show ?thesis using psend_loop_keeps [OF inv True _ h ni] psend_loop_deleted [OF True] by (cases "mqueues k (nat i)") auto
    next
      case False
      then show ?thesis by (simp add: psend_loop_def mqueue_full_def get_mqueue_def get_slot_def)
    qed
    ultimately show ?thesis using e K_psend rk by (auto simp: on_deleted_queue_def)
  next
    case (K_psend_add i v)
    then show ?thesis using ko by (simp add: kont_ok_def)
  next
    case (K_preceive i r w)
    have ni: "running_task k \<noteq> idle_task k" using c K_preceive by simp
    then have "mkeeps (preceive_loop i r w k)"
      using d by (intro preceive_loop_mkeeps [OF inv m d(1) _ d(2)]) auto
    moreover have "keeps (preceive_loop i r w k) \<or> preceive_loop i r w k = Inl Null_Deref \<and> mqueues k (nat i) = None"
    proof (cases "slot_ok i")
      case True
      then show ?thesis using preceive_loop_keeps [OF inv True _ h ni] preceive_loop_deleted [OF True] by (cases "mqueues k (nat i)") auto
    next
      case False
      then show ?thesis by (simp add: preceive_loop_def mqueue_empty_def get_mqueue_def get_slot_def)
    qed
    ultimately show ?thesis using e K_preceive rk by (auto simp: on_deleted_queue_def)
  qed (use e c um inv m in \<open>simp_all add: keeps_return mkeeps_return chprio_rest_keeps chprio_rest_mkeeps
      wait_any_child_keeps wait_any_child_mkeeps wait_for_child_keeps wait_for_child_mkeeps preceive_out_def\<close>)
  then show "mkeeps (resume k)" and "keeps (resume k) \<or> resume k = Inl Null_Deref \<and> on_deleted_queue k" by auto
qed

lemma step_inv:
  assumes st: "step app_of pgdir k k'" and inv: "kinv k" and m: "minv k"
  shows "kinv k' \<and> minv k'"
proof -
  have exits: "kinv k'' \<and> minv k''" if "page_fault_handler k = Inr k''" "running_task k \<noteq> idle_task k" for k''
    using that exit_current_keeps [OF inv that(2), of 0] exit_current_mkeeps [OF inv m that(2), of 0]
    by (simp add: page_fault_handler_def)
  from st show ?thesis
  proof cases
    case (s_call t ks c)
    then show ?thesis using syscall_inv [OF inv m] by blast
  next
    case (s_idle t ks name ssize prio arg)
    then show ?thesis using start_keeps [OF inv s_idle(3)] start_mkeeps [OF inv m s_idle(3)] by (simp add: mkeeps_def)
  next
    case s_tick
    then show ?thesis using tick_keeps [OF inv m] by simp
  next
    case s_resume
    then show ?thesis using resume_keeps [OF inv m] by (auto simp: mkeeps_def)
  next
    case s_fault
    then show ?thesis using exits by blast
  next
    case s_fault_deleted
    then have "on_deleted_queue k" using resume_keeps(2) [OF inv m] by auto
    then obtain kt where "running_kont k = Some kt" "\<not> idle_kont kt" by (auto simp: on_deleted_queue_def)
    moreover obtain d x where d: "running_task k = Some d" "tasks k d = Some x" using kinv_current [OF inv] by blast
    ultimately have "\<not> idle_kont (t_kont x)" by (simp add: running_kont_def)
    then have "running_task k \<noteq> idle_task k" using minvD(1) [OF m d(2)] d(1) by (auto simp: kont_ok_def)
    then show ?thesis using exits s_fault_deleted by blast
  qed
qed

lemma reachable_inv:
  assumes "reachable app_of pgdir k0 k" and "kinv k0" and "minv k0"
  shows "kinv k \<and> minv k"
  using assms by (induction rule: reachable.induct) (auto dest: step_inv)

end
