(* ===== verification/Channel.thy ===== *)
theory Channel
  imports Prelude
begin

text \<open>
  The interface of a bounded first-in first-out channel, as the clients of the kernel's message
  queues and of the keyboard's buffer rely on it: \<open>chan s ms cap\<close> says that the channel holds the
  messages \<open>ms\<close> and has room for \<open>cap\<close>. What follows from the two laws of the provider (a message
  sent while there is room is appended, the message received is the oldest) is proved here once:
  a batch sent and then received comes back whole and in order, whatever was in the channel before.
\<close>

fun receive_n :: "('s \<Rightarrow> ('m \<times> 's) res) \<Rightarrow> nat \<Rightarrow> 's \<Rightarrow> ('m list \<times> 's) res" where
  "receive_n recv 0 s = Inr ([], s)"
| "receive_n recv (Suc n) s =
     bindE (recv s) (\<lambda>(m, s1). bindE (receive_n recv n s1) (\<lambda>(ms, s2). Inr (m # ms, s2)))"

locale bounded_channel =
  fixes chan :: "'s \<Rightarrow> 'm list \<Rightarrow> nat \<Rightarrow> bool"
    and sendable :: "'m \<Rightarrow> bool"
    and send :: "'m \<Rightarrow> 's \<Rightarrow> 's res"
    and recv :: "'s \<Rightarrow> ('m \<times> 's) res"
  assumes send_room: "chan s ms cap \<Longrightarrow> length ms < cap \<Longrightarrow> sendable m \<Longrightarrow> \<exists>s'. send m s = Inr s' \<and> chan s' (ms @ [m]) cap"
    and recv_oldest: "chan s (m # ms) cap \<Longrightarrow> \<exists>s'. recv s = Inr (m, s') \<and> chan s' ms cap"
begin

lemma send_batch:
  "chan s ms cap \<Longrightarrow> length ms + length vs \<le> cap \<Longrightarrow> \<forall>v\<in>set vs. sendable v \<Longrightarrow>
   \<exists>s'. foldE send vs s = Inr s' \<and> chan s' (ms @ vs) cap"
proof (induction vs arbitrary: s ms)
  case (Cons v vs)
  obtain s1 where s1: "send v s = Inr s1" "chan s1 (ms @ [v]) cap"
    using send_room [of s ms cap v] Cons.prems by auto
  then show ?case using Cons.IH [OF s1(2)] Cons.prems by auto
qed simp

lemma recv_batch:
  "chan s (vs @ ms) cap \<Longrightarrow> \<exists>s'. receive_n recv (length vs) s = Inr (vs, s') \<and> chan s' ms cap"
proof (induction vs arbitrary: s)
  case (Cons v vs)
  obtain s1 where s1: "recv s = Inr (v, s1)" "chan s1 (vs @ ms) cap"
    using recv_oldest [of s v "vs @ ms" cap] Cons.prems by auto
  then show ?case using Cons.IH [OF s1(2)] by auto
qed simp

lemma round_trip:
  assumes "chan s ms cap" and "length ms + length vs \<le> cap" and "\<forall>v\<in>set vs. sendable v"
  shows "\<exists>s1 s2 s3. foldE send vs s = Inr s1 \<and> receive_n recv (length ms) s1 = Inr (ms, s2) \<and>
    receive_n recv (length vs) s2 = Inr (vs, s3) \<and> chan s3 [] cap"
proof -
  obtain s1 where s1: "foldE send vs s = Inr s1" "chan s1 (ms @ vs) cap" using send_batch [OF assms] by blast
  obtain s2 where s2: "receive_n recv (length ms) s1 = Inr (ms, s2)" "chan s2 vs cap" using recv_batch [OF s1(2)] by blast
  obtain s3 where "receive_n recv (length vs) s2 = Inr (vs, s3)" "chan s3 [] cap"
    using recv_batch [of s2 vs "[]" cap] s2(2) by auto
  then show ?thesis using s1 s2 by blast
qed

end

end
