(* ===== verification/MsgSpec.thy ===== *)
theory MsgSpec
  imports KernelMachine Channel
begin

text \<open>
  What the message calls compute. A queue is a bounded channel: \<open>psend\<close> appends while there is room,
  \<open>preceive\<close> takes the oldest message, a sender's message goes straight to a waiting receiver of the
  highest priority, and a receiver that finds a waiting sender lets its message into the queue.
\<close>

section \<open>Effects when nobody waits\<close>

lemma return_user_eq: "running_task k = Some c \<Longrightarrow> tasks k c = Some x \<Longrightarrow>
    return_user v out k = Inr (put_task c (x\<lparr>t_kont := K_user, t_ret := v, t_out := out\<rparr>) k)"
  by (simp add: return_user_def)

definition enqueued :: "int \<Rightarrow> mqueue \<Rightarrow> mqueue" where
  "enqueued m q = q\<lparr>mq_msgs := mq_msgs q @ [m], mq_count := mq_count q + 1\<rparr>"

definition dequeued :: "mqueue \<Rightarrow> mqueue" where
  "dequeued q = q\<lparr>mq_count := mq_count q - 1, mq_msgs := tl (mq_msgs q)\<rparr>"

lemma psend_stores:
  assumes inv: "kinv k" and h: "\<not> heap_full k" and c: "running_task k = Some c" "tasks k c = Some x"
    and u: "slot_ok i" "mqueues k (nat i) = Some q" and room: "mq_count q \<noteq> mq_size q"
    and nr: "qlist (sq k) (receivers i) = []" and m: "m \<noteq> - 1"
  shows "psend i m k = Inr (put_task c (x\<lparr>t_msg_val := m, t_kont := K_user, t_ret := 0, t_out := None\<rparr>)
      (put_mqueue i (Some (enqueued m q)) k))"
proof -
  let ?k = "put_task c (x\<lparr>t_msg_val := m\<rparr>) k"
  have q: "mqueue_ok q" using kinv_mqueue_ok [OF inv u(2)] by simp
  have t: "take_waiter (receivers i) k = (None, k)" "take_waiter (receivers i) ?k = (None, ?k)"
    using nr by (simp_all add: take_waiter_def q_out_empty)
  have a: "add_msg i m ?k = Inr (put_mqueue i (Some (enqueued m q)) ?k)"
    unfolding enqueued_def using u q h by (intro add_msg_used) simp_all
  have "psend i m k = psend_loop i m (cpt_rst k) ?k"
    using u c t(1) by (simp add: psend_def mqueue_unused_def get_slot_def set_msg_val_def)
  also have "\<dots> = psend_rest i m (cpt_rst k) ?k"
    using u c room by (simp add: psend_loop_def mqueue_full_def get_mqueue_used current_task_def)
  also have "\<dots> = psend_add i m ?k"
    using u c m t(2) by (simp add: psend_rest_def mqueue_unused_def get_slot_def current_task_def)
  also have "\<dots> = Inr (put_task c (x\<lparr>t_msg_val := m, t_kont := K_user, t_ret := 0, t_out := None\<rparr>)
      (put_mqueue i (Some (enqueued m q)) k))"
    using a c by (simp add: psend_add_def return_user_def) (simp add: put_task_def put_mqueue_def)
  finally show ?thesis .
qed

text \<open>The value -1, with which the kernel marks \<open>no message\<close>, cannot be sent: the call returns 0 and stores nothing.\<close>

lemma psend_minus_one:
  assumes c: "running_task k = Some c" "tasks k c = Some x"
    and u: "slot_ok i" "mqueues k (nat i) = Some q" and nr: "qlist (sq k) (receivers i) = []"
  shows "psend i (- 1) k = Inr (put_task c (x\<lparr>t_msg_val := - 1, t_kont := K_user, t_ret := 0, t_out := None\<rparr>) k)"
proof -
  let ?k = "put_task c (x\<lparr>t_msg_val := - 1\<rparr>) k"
  have t: "take_waiter (receivers i) k = (None, k)" using nr by (simp add: take_waiter_def q_out_empty)
  have "psend i (- 1) k = psend_loop i (- 1) (cpt_rst k) ?k"
    using u c t(1) by (simp add: psend_def mqueue_unused_def get_slot_def set_msg_val_def)
  also have "\<dots> = psend_rest i (- 1) (cpt_rst k) ?k"
    using u c by (simp add: psend_loop_def mqueue_full_def get_mqueue_used current_task_def)
  also have "\<dots> = return_user 0 None ?k"
    using u c by (simp add: psend_rest_def mqueue_unused_def get_slot_def current_task_def)
  finally show ?thesis using c by (simp add: return_user_def)
qed

lemma preceive_takes:
  assumes c: "running_task k = Some c" "tasks k c = Some x"
    and u: "slot_ok i" "mqueues k (nat i) = Some q" and q: "mqueue_ok q" and ne: "mq_msgs q \<noteq> []"
    and ns: "qlist (sq k) (senders i) = []"
  shows "preceive i want k = Inr (put_task c
      (x\<lparr>t_msg_val := - 1, t_kont := K_user, t_ret := 0, t_out := (if want then Some (hd (mq_msgs q)) else None)\<rparr>)
      (put_mqueue i (Some (dequeued q)) k))"
proof -
  let ?k = "put_task c (x\<lparr>t_msg_val := - 1\<rparr>) k"
  obtain m ms where m: "mq_msgs q = m # ms" using ne by (cases "mq_msgs q") auto
  have c0: "mq_count q \<noteq> 0" using mqueue_empty_iff [OF q] ne by simp
  have t: "take_waiter (senders i) ?k = (None, ?k)" using ns by (simp add: take_waiter_def q_out_empty)
  have p: "pop_msg i ?k = Inr (m, put_mqueue i (Some (dequeued q)) ?k)"
    using pop_msg_used [of i ?k q m ms] u m by (simp add: dequeued_def)
  have "preceive i want k = preceive_loop i (cpt_rst k) want ?k"
    using u c by (simp add: preceive_def mqueue_unused_def get_slot_def set_msg_val_def)
  also have "\<dots> = preceive_rest i (cpt_rst k) want ?k"
    using u c c0 by (simp add: preceive_loop_def mqueue_empty_def get_mqueue_used current_task_def)
  also have "\<dots> = preceive_out m want (put_mqueue i (Some (dequeued q)) ?k)"
    using u c t p by (simp add: preceive_rest_def mqueue_unused_def get_slot_def current_task_def)
  finally show ?thesis
    using c m by (simp add: preceive_out_def return_user_def) (simp add: put_task_def put_mqueue_def)
qed

section \<open>First in, first out\<close>

text \<open>\<open>preceive\<close> with the value it stored through its argument.\<close>

definition receive_msg :: "int \<Rightarrow> kst \<Rightarrow> (int \<times> kst) res" where
  "receive_msg i k =
     bindE (preceive i True k) (\<lambda>k1. bindE (current_task k1) (\<lambda>(c, x).
       case t_out x of None \<Rightarrow> Inl Panic | Some m \<Rightarrow> Inr (m, k1)))"

text \<open>A channel nobody waits on, with its contents and its capacity.\<close>

definition channel :: "int \<Rightarrow> kst \<Rightarrow> int list \<Rightarrow> nat \<Rightarrow> bool" where
  "channel i k ms cap \<longleftrightarrow> kinv k \<and> \<not> heap_full k \<and> slot_ok i \<and>
     qlist (sq k) (receivers i) = [] \<and> qlist (sq k) (senders i) = [] \<and>
     (\<exists>q. mqueues k (nat i) = Some q \<and> mq_msgs q = ms \<and> unat (mq_size q) = cap)"

lemma channel_send:
  assumes ch: "channel i k ms cap" and room: "length ms < cap" and m: "m \<noteq> - 1"
  shows "\<exists>k'. psend i m k = Inr k' \<and> channel i k' (ms @ [m]) cap"
proof -
  obtain q where q: "mqueues k (nat i) = Some q" "mq_msgs q = ms" "unat (mq_size q) = cap"
    using ch by (auto simp: channel_def)
  have inv: "kinv k" and h: "\<not> heap_full k" and s: "slot_ok i" and n: "qlist (sq k) (receivers i) = []"
    using ch by (simp_all add: channel_def)
  obtain c x where c: "running_task k = Some c" "tasks k c = Some x" using kinv_current [OF inv] by blast
  have ok: "mqueue_ok q" using kinv_mqueue_ok [OF inv q(1)] by simp
  have nf: "mq_count q \<noteq> mq_size q" using mqueue_full_iff [OF ok] q room by simp
  let ?k = "put_mqueue i (Some (enqueued m q)) k"
  have "mqueue_ok (enqueued m q)" unfolding enqueued_def by (rule mqueue_ok_add [OF ok nf])
  then have "kinv ?k" using q s by (intro kinv_put_mqueue [OF inv]) simp_all
  then have "kinv (put_task c (x\<lparr>t_msg_val := m, t_kont := K_user, t_ret := 0, t_out := None\<rparr>) ?k)"
    by (rule kinv_put [where x = x]) (use c in simp_all)
  then show ?thesis using psend_stores [OF inv h c s q(1) nf n m] ch q
    by (simp add: channel_def enqueued_def)
qed

lemma channel_receive:
  assumes ch: "channel i k (m # ms) cap"
  shows "\<exists>k' c x. preceive i True k = Inr k' \<and> channel i k' ms cap \<and> current_task k' = Inr (c, x) \<and> t_out x = Some m \<and> t_ret x = 0"
proof -
  obtain q where q: "mqueues k (nat i) = Some q" "mq_msgs q = m # ms" "unat (mq_size q) = cap"
    using ch by (auto simp: channel_def)
  have inv: "kinv k" and s: "slot_ok i" and n: "qlist (sq k) (senders i) = []"
    using ch by (simp_all add: channel_def)
  obtain c x where c: "running_task k = Some c" "tasks k c = Some x" using kinv_current [OF inv] by blast
  have ok: "mqueue_ok q" using kinv_mqueue_ok [OF inv q(1)] by simp
  let ?k = "put_mqueue i (Some (dequeued q)) k"
  have "kinv ?k" using mqueue_ok_pop [OF ok q(2)] q s by (intro kinv_put_mqueue [OF inv]) (simp_all add: dequeued_def)
  then have "kinv (put_task c (x\<lparr>t_msg_val := - 1, t_kont := K_user, t_ret := 0, t_out := Some m\<rparr>) ?k)"
    by (rule kinv_put [where x = x]) (use c in simp_all)
  then show ?thesis using preceive_takes [OF c s q(1) ok _ n, of True] ch q c
    by (simp add: channel_def dequeued_def current_task_def)
qed

interpretation kq: bounded_channel "channel i" "\<lambda>m. m \<noteq> - 1" "psend i" "receive_msg i" for i
proof (unfold_locales, goal_cases)
  case (1 k ms cap m)
  then show ?case by (rule channel_send)
next
  case (2 k m ms cap)
  then obtain k' c x where "preceive i True k = Inr k'" "channel i k' ms cap" "current_task k' = Inr (c, x)" "t_out x = Some m"
    using channel_receive by blast
  then show ?case by (simp add: receive_msg_def)
qed

section \<open>Direct hand-over and waiting senders\<close>

text \<open>The waiter \<open>queue_out\<close> takes: the last of the list, which has the highest priority.\<close>

lemma take_waiter_last:
  assumes inv: "kinv k" and ne: "qlist (sq k) q \<noteq> []"
  shows "take_waiter q k = (Some (last (qlist (sq k) q)), k\<lparr>sq := q_unlink (last (qlist (sq k) q)) (sq k)\<rparr>)"
    and "\<forall>t\<in>set (qlist (sq k) q). prio_of k t \<le> prio_of k (last (qlist (sq k) q))"
proof -
  show "take_waiter q k = (Some (last (qlist (sq k) q)), k\<lparr>sq := q_unlink (last (qlist (sq k) q)) (sq k)\<rparr>)"
    using inv ne by (simp add: take_waiter_def q_out_unlink)
  have "sorted (map (prio_of k) (qlist (sq k) q))" using kinv_kinv1 [OF inv] by (simp add: kinv1_def queues_sorted_def)
  then show "\<forall>t\<in>set (qlist (sq k) q). prio_of k t \<le> prio_of k (last (qlist (sq k) q))"
    using sorted_map_last_max [of "prio_of k"] by simp
qed

lemma psend_hands_over:
  assumes inv: "kinv k" and u: "slot_ok i" "mqueues k (nat i) = Some q"
    and c: "running_task k = Some c" "tasks k c = Some x" and ne: "qlist (sq k) (receivers i) \<noteq> []"
    and w: "w = last (qlist (sq k) (receivers i))" "tasks k w = Some y"
  shows "\<exists>k1. psend i m k = (if t_priority y > t_priority x then schedule k1 else Inr k1) \<and> kinv k1 \<and>
    tasks k1 w = Some (y\<lparr>t_msg_val := m, t_state := Ready\<rparr>) \<and> tasks k1 c = Some (x\<lparr>t_kont := K_ret 0\<rparr>) \<and>
    mqueues k1 = mqueues k"
proof -
  have r: "home_ok Int_Msg (Some (receivers i))" by (simp add: receivers_def)
  let ?k1 = "k\<lparr>sq := q_unlink w (sq k)\<rparr>"
  have t: "take_waiter (receivers i) k = (Some w, ?k1)" using take_waiter_last(1) [OF inv ne] w by simp
  have wk: "waking w ?k1" by (rule take_waiter_waking(1) [OF inv r t])
  have wc: "w \<noteq> c" using wk c by (auto simp: waking_def)
  let ?k2 = "put_task w (y\<lparr>t_msg_val := m\<rparr>) ?k1"
  have wk2: "waking w ?k2" by (rule waking_put [OF wk, where y = y]) (use w in simp_all)
  have "psend i m k = set_task_ready_or_running w (K_ret 0) ?k2"
    using u t w(2) by (simp add: psend_def mqueue_unused_def get_slot_def set_msg_val_def)
  moreover have "running_task ?k2 = Some c" "tasks ?k2 c = Some x" "tasks ?k2 w = Some (y\<lparr>t_msg_val := m\<rparr>)"
    using c wc by simp_all
  note e = ready_or_running_eq [OF wk2 this, of "K_ret 0"]
  ultimately show ?thesis using e wc
    by (intro exI [where x = "move_task w Ready Q_ready (put_task c (x\<lparr>t_kont := K_ret 0\<rparr>) ?k2)"]) simp
qed

lemma preceive_lets_sender_in:
  assumes inv: "kinv k" and m: "minv k" and u: "slot_ok i" "mqueues k (nat i) = Some q"
    and c: "running_task k = Some c" "tasks k c = Some x" and ne: "qlist (sq k) (senders i) \<noteq> []" and sz: "mq_size q \<noteq> 0"
    and w: "w = last (qlist (sq k) (senders i))" "tasks k w = Some y"
  shows "\<exists>k1. preceive i want k = (if t_priority y > t_priority x then schedule k1 else Inr k1) \<and> kinv k1 \<and>
    tasks k1 w = Some (y\<lparr>t_msg_val := - 1, t_state := Ready\<rparr>) \<and>
    tasks k1 c = Some (x\<lparr>t_msg_val := - 1, t_kont := K_preceive_out (hd (mq_msgs q)) want\<rparr>) \<and>
    mqueues k1 = (mqueues k)(nat i := Some (q\<lparr>mq_msgs := tl (mq_msgs q) @ [t_msg_val y]\<rparr>))"
proof -
  have q: "mqueue_ok q" using kinv_mqueue_ok [OF inv u(2)] by simp
  have full: "mq_count q = mq_size q" using minvD(2) [OF m] u(2) ne by (simp add: queues_ok_def senders_def)
  then obtain v vs where v: "mq_msgs q = v # vs" using mqueue_empty_iff [OF q] sz by (cases "mq_msgs q") auto
  have "w \<in> set (qlist (sq k) (Q_senders (nat i)))" using w ne by (simp add: senders_def)
  then have "sending k w" by (auto simp: sending_def)
  then have mv: "t_msg_val y \<noteq> - 1" using minvD(1) [OF m w(2)] by (simp add: kont_ok_def)
  have r: "home_ok Int_Msg (Some (senders i))" by (simp add: senders_def)
  let ?x = "x\<lparr>t_msg_val := - 1\<rparr>"
  let ?k = "put_task c ?x k"
  have i: "kinv ?k" by (rule kinv_put [OF inv c(2)]) simp_all
  let ?k1 = "?k\<lparr>sq := q_unlink w (sq ?k)\<rparr>"
  have t: "take_waiter (senders i) ?k = (Some w, ?k1)" using take_waiter_last(1) [OF i, of "senders i"] ne w by simp
  have wk: "waking w ?k1" by (rule take_waiter_waking(1) [OF i r t])
  have wc: "w \<noteq> c" using wk c by (auto simp: waking_def)
  let ?q = "q\<lparr>mq_msgs := vs @ [t_msg_val y]\<rparr>"
  let ?k2 = "put_task w (y\<lparr>t_msg_val := - 1\<rparr>) (put_mqueue i (Some ?q) ?k1)"
  have pf: "preceive_from i w ?k1 = Inr (v, ?k2)"
    by (rule preceive_from_full) (use w wc u q v full mv minvD(3) [OF m] in simp_all)
  have q': "mqueue_ok ?q" using q v by (simp add: mqueue_ok_def)
  have "waking w (put_mqueue i (Some ?q) ?k1)" using u by (intro waking_mqueue [OF wk q']) simp_all
  then have wk2: "waking w ?k2" by (rule waking_put [where y = y]) (use w wc in simp_all)
  have e0: "preceive i want k = set_task_ready_or_running w (K_preceive_out v want) ?k2"
  proof -
    have "preceive i want k = preceive_loop i (cpt_rst k) want ?k"
      using u c by (simp add: preceive_def mqueue_unused_def get_slot_def set_msg_val_def)
    also have "\<dots> = preceive_rest i (cpt_rst k) want ?k"
      using u c full sz by (simp add: preceive_loop_def mqueue_empty_def get_mqueue_used current_task_def)
    also have "\<dots> = set_task_ready_or_running w (K_preceive_out v want) ?k2"
      using u c t pf by (simp add: preceive_rest_def mqueue_unused_def get_slot_def current_task_def)
    finally show ?thesis .
  qed
  have "running_task ?k2 = Some c" "tasks ?k2 c = Some ?x" "tasks ?k2 w = Some (y\<lparr>t_msg_val := - 1\<rparr>)"
    using c wc by simp_all
  note e = ready_or_running_eq [OF wk2 this, of "K_preceive_out v want"]
  show ?thesis using e0 e wc v
    by (intro exI [where x = "move_task w Ready Q_ready (put_task c (?x\<lparr>t_kont := K_preceive_out v want\<rparr>) ?k2)"]) simp
qed

end
