(* ===== verification/Boot.thy ===== *)
theory Boot
  imports MsgSpec
begin

text \<open>
  The kernel when \<open>kernel_start\<close> calls \<open>start_idle\<close>: no task, empty queues, no identifier in use, no
  message queue, as its variables are initialised (\<open>cold\<close>), and preemption enabled; then \<open>start_idle\<close> creates the first process and runs it. If it does not panic, the state it
  leaves satisfies both invariants, so that they hold in every state the machine reaches from the boot.
\<close>

definition cold :: "pmem \<Rightarrow> kst" where
  "cold m = \<lparr>tasks = (\<lambda>_. None), running_task = None, idle_task = None, preempt_enabled = False,
     sq = q_init, kids = q_init, glob = q_init, total_ticks = 0, kpids = pidmap_init,
     mqueues = (\<lambda>_. None), cpt_rst = 0, pm = m, heap_full = False\<rparr>"

definition boot :: "pmem \<Rightarrow> kst" where "boot m = preempt_enable (cold m)"

lemma boot_record: "boot m = \<lparr>tasks = (\<lambda>_. None), running_task = None, idle_task = None, preempt_enabled = True,
     sq = q_init, kids = q_init, glob = q_init, total_ticks = 0, kpids = pidmap_init,
     mqueues = (\<lambda>_. None), cpt_rst = 0, pm = m, heap_full = False\<rparr>"
  by (simp add: boot_def cold_def preempt_enable_def)

lemma boot_simps [simp]:
  "tasks (boot m) = (\<lambda>_. None)" "running_task (boot m) = None" "sq (boot m) = q_init" "kids (boot m) = q_init"
  "glob (boot m) = q_init" "kpids (boot m) = pidmap_init" "mqueues (boot m) = (\<lambda>_. None)" "heap_full (boot m) = False"
  "cpt_rst (boot m) = 0" "pm (boot m) = m"
  by (simp_all add: boot_def cold_def preempt_enable_def)

lemma q_init_simps [simp]: "qlist q_init h = []" "qlink q_init e = None"
  by (simp_all add: q_init_def)

lemma q_ok_boot [simp]: "q_ok (q_init :: (qid, tid) qsys)" "q_ok (q_init :: (tid, tid) qsys)" "q_ok (q_init :: (unit, tid) qsys)"
  by (rule q_ok_init)+

text \<open>The kernel with the idle process as its only task.\<close>

definition idling :: "tid \<Rightarrow> task \<Rightarrow> pidmap \<Rightarrow> pmem \<Rightarrow> kst" where
  "idling t x p m =
     (boot m)\<lparr>tasks := (\<lambda>_. None)(t := Some x), running_task := Some t, idle_task := Some t,
       glob := q_move (\<lambda>_. 0) t () q_init, kpids := p\<rparr>"

lemma first_pid: "alloc_pid pidmap_init = Inr (0, pidmap_init[0 := 1])"
  using alloc_pid_from.simps [of 0 pidmap_init]
  by (simp add: alloc_pid_def pid_used_def set_pid_def pid_ok_def pid_word_def pid_bit_def pidmap_init_def)

lemma pids_used_first: "pids_used (pidmap_init[0 := 1]) = {0}"
proof -
  have "set_pid 0 pidmap_init = Inr (pidmap_init[0 := 1])"
    by (simp add: set_pid_def pid_ok_def pid_word_def pid_bit_def pidmap_init_def)
  then show ?thesis using set_pid_used [of 0 pidmap_init] by simp
qed

lemma idling_inv:
  assumes x: "t_state x = Running" "t_pid x = 0" "t_kont x = K_user"
  shows "kinv (idling t x (pidmap_init[0 := 1]) m) \<and> minv (idling t x (pidmap_init[0 := 1]) m)"
proof
  let ?k = "idling t x (pidmap_init[0 := 1]) m"
  note id = idling_def boot_record
  have s: "sq ?k = q_init" "kids ?k = q_init" "glob ?k = q_move (\<lambda>_. 0) t () q_init" by (simp_all add: id)
  have t: "tasks ?k = (\<lambda>_. None)(t := Some x)" "running_task ?k = Some t" "idle_task ?k = Some t" "mqueues ?k = (\<lambda>_. None)"
    by (simp_all add: id)
  have "link_ok ?k u" for u using x s t by (simp add: link_ok_def)
  then have "links_ok ?k" unfolding links_ok_def by (simp add: s) blast
  moreover have "queues_sorted ?k" "parents_ok ?k" "mqs_ok ?k" using s t by (simp_all add: queues_sorted_def parents_ok_def mqs_ok_def)
  moreover have "running_ok ?k" "idle_ok ?k" using x t by (simp_all add: running_ok_def idle_ok_def)
  moreover have "pidmap_wf (kpids ?k)" "pids_used (kpids ?k) = {0}"
    by (simp_all add: id pids_used_first) (simp add: pidmap_wf_def pidmap_init_def)
  then have "pids_ok ?k" using x t by (simp add: pids_ok_def)
  ultimately have "kinv1 ?k" by (simp add: kinv1_def)
  then show "kinv ?k" using x t by (intro kinvI [where c = t and x = x]) simp_all
  have "kont_ok ?k u y" if "tasks ?k u = Some y" for u y
    using that x s t by (auto simp: kont_ok_def sending_def split: if_splits)
  then show "minv ?k" using s t by (auto simp: minv_def queues_ok_def) (simp add: id)
qed

text \<open>\<open>start_idle\<close> panics, runs out of memory, or leaves such a kernel.\<close>

lemma start_idle_boot:
  assumes run: "start_idle app_of pgdir t ks (boot m) = Inr k"
  obtains x m' where "k = idling t x (pidmap_init[0 := 1]) m'" "t_state x = Running" "t_pid x = 0" "t_kont x = K_user"
proof -
  let ?idle = "map (\<lambda>c. of_nat c) [105, 100, 108, 101] :: u8 list"
  have n: "\<not> (0x1000 div 4 :: u32) > ustack_sz_max" "\<not> (min_prio > max_prio \<or> min_prio < min_prio)"
    by (simp_all add: ustack_sz_max_def min_prio_def max_prio_def)
  obtain app where a: "app_of ?idle = Some app"
    using run n by (cases "app_of ?idle") (auto simp: start_idle_def start_task_def)
  let ?k0 = "(boot m)\<lparr>kpids := pidmap_init[0 := 1]\<rparr>"
  have e: "alloc_empty_task t ?k0 = Some (put_task t empty_task ?k0)"
    by (simp add: alloc_empty_task_def put_task_def q_init_def fun_upd_idem)
  let ?x = "(set_task_name ?idle empty_task)\<lparr>t_state := Startup, t_pid := 0, t_priority := min_prio, t_parent := None\<rparr>"
  have c: "create_task app pgdir ?idle (0x1000 div 4) min_prio 0 0 t ks (put_task t empty_task ?k0) =
     bindE (load_task app pgdir (0x1000 div 4) 0 (?x\<lparr>t_first_start := True, t_esp0 := ks + (kstack_sz - 1)\<rparr>) m)
       (\<lambda>(x', m). Inr (put_task t x' ((put_task t ?x ?k0)\<lparr>pm := m\<rparr>)))"
    by (simp add: create_task_def set_parent_process_def) (simp add: put_task_def)
  obtain x' m' where l: "load_task app pgdir (0x1000 div 4) 0 (?x\<lparr>t_first_start := True, t_esp0 := ks + (kstack_sz - 1)\<rparr>) m = Inr (x', m')"
    using run n a e c
    by (cases "load_task app pgdir (0x1000 div 4) 0 (?x\<lparr>t_first_start := True, t_esp0 := ks + (kstack_sz - 1)\<rparr>) m")
      (auto simp: start_idle_def start_task_def first_pid)
  have x': "t_state x' = Startup" "t_pid x' = 0" "t_kont x' = K_user"
    using l by (auto simp: load_task_def bind_rules set_task_name_def empty_task_def)
  let ?k1 = "put_task t x' ((put_task t ?x ?k0)\<lparr>pm := m'\<rparr>)"
  have s: "start_task app_of pgdir ?idle (0x1000 div 4) min_prio 0 t ks (boot m) = Inr (Inr t, ?k1)"
    using n a e c l by (simp add: start_task_def first_pid)
  let ?y = "x'\<lparr>t_first_start := False\<rparr>"
  have mv: "q_move f t () q_init = q_move (\<lambda>_. 0) t () q_init" for f :: "tid \<Rightarrow> int"
    by (simp add: q_move_def fun_eq_iff)
  have g: "add_to_global_list t (put_task t ?y ?k1) = Inr ((put_task t ?y ?k1)\<lparr>glob := q_move (\<lambda>_. 0) t () q_init\<rparr>)"
    using q_add_move [OF q_ok_init, of t "pid_of (put_task t ?y ?k1)" "()"] mv [of "pid_of (put_task t ?y ?k1)"]
    by (simp add: add_to_global_list_def)
  have "k = set_idle t ((put_task t (?y\<lparr>t_state := Running\<rparr>) ((put_task t ?y ?k1)\<lparr>glob := q_move (\<lambda>_. 0) t () q_init\<rparr>))\<lparr>running_task := Some t\<rparr>)"
    using run s g x' by (simp add: start_idle_def set_task_running_def set_state_def set_idle_def put_task_def upd_task_def get_task_def) auto
  then have "k = idling t (?y\<lparr>t_state := Running\<rparr>) (pidmap_init[0 := 1]) m'"
    by (simp add: idling_def put_task_def set_idle_def boot_record)
  then show ?thesis by (rule that) (use x' in simp_all)
qed

lemma start_idle_inv:
  assumes "start_idle app_of pgdir t ks (boot m) = Inr k" shows "kinv k \<and> minv k"
  by (rule start_idle_boot [OF assms]) (simp add: idling_inv)

end
