(* ===== verification/ProcessSpec.thy ===== *)
theory ProcessSpec
  imports Boot
begin

text \<open>
  What the process calls compute, on top of the invariant: \<open>waitpid\<close> hands the return value of a
  zombie child over and frees the child, \<open>chprio\<close> returns the old priority and sorts the task again
  into its queue, \<open>start\<close> adds one ready task with a fresh identifier.
\<close>

section \<open>Collecting a child\<close>

lemma collect_child_result:
  assumes inv: "kinv k" and c: "running_task k = Some c" and z: "tasks k t = Some x" "t_state x = Zombie"
    and run: "collect_child t want k = Inr k'"
  shows "tasks k' t = None \<and> (\<exists>y. tasks k' c = Some y \<and> t_ret y = t_pid x \<and>
    t_out y = (if want then Some (t_retval x) else None) \<and> t_kont y = K_user) \<and>
    (\<forall>u. u \<noteq> t \<longrightarrow> u \<noteq> c \<longrightarrow> tasks k' u = tasks k u)"
proof -
  obtain y where y: "tasks k c = Some y" "t_state y = Running" using kinv_current [OF inv] c by (metis option.inject)
  then have tc: "c \<noteq> t" using z by auto
  obtain k1 where f: "free_task t k = Inr k1" using run z by (auto simp: collect_child_def bind_rules)
  obtain s m where k1: "k1 = k\<lparr>sq := q_unlink t (sq k), kids := s, pm := m, tasks := (tasks k)(t := None)\<rparr>"
    using free_task_Inr [OF f] inv by auto
  have "tasks k1 c = Some y" "running_task k1 = Some c" using y c tc k1 by simp_all
  then have "k' = put_task c (y\<lparr>t_kont := K_user, t_ret := t_pid x, t_out := (if want then Some (t_retval x) else None)\<rparr>) k1"
    using run z f by (simp add: collect_child_def return_user_eq)
  then show ?thesis using tc k1 by simp
qed

lemma find_zombie:
  "find (\<lambda>t. map_option t_state (tasks k t) = Some Zombie) ts = Some t \<Longrightarrow>
   t \<in> set ts \<and> (\<exists>x. tasks k t = Some x \<and> t_state x = Zombie)"
  by (induction ts) (auto split: if_splits)

lemma wait_any_child_zombie:
  assumes c: "running_task k = Some c" and z: "\<exists>u\<in>set (qlist (kids k) c). map_option t_state (tasks k u) = Some Zombie"
  obtains t x where "t \<in> set (qlist (kids k) c)" "tasks k t = Some x" "t_state x = Zombie"
    "wait_any_child want k = collect_child t want k"
proof -
  obtain t where t: "find (\<lambda>t. map_option t_state (tasks k t) = Some Zombie) (qlist (kids k) c) = Some t"
    using z by (cases "find (\<lambda>t. map_option t_state (tasks k t) = Some Zombie) (qlist (kids k) c)")
      (auto simp: find_None_iff)
  obtain x where x: "t \<in> set (qlist (kids k) c)" "tasks k t = Some x" "t_state x = Zombie" using find_zombie [OF t] by blast
  have "qlist (kids k) c \<noteq> []" using x(1) by auto
  then show ?thesis using that x c t by (simp add: wait_any_child_def)
qed

lemma wait_any_child_result:
  assumes inv: "kinv k" and c: "running_task k = Some c"
    and z: "\<exists>u\<in>set (qlist (kids k) c). map_option t_state (tasks k u) = Some Zombie"
    and run: "wait_any_child want k = Inr k'"
  shows "\<exists>t x y. t \<in> set (qlist (kids k) c) \<and> tasks k t = Some x \<and> t_state x = Zombie \<and> tasks k' t = None \<and>
    tasks k' c = Some y \<and> t_ret y = t_pid x \<and> t_out y = (if want then Some (t_retval x) else None)"
proof -
  obtain t x where x: "t \<in> set (qlist (kids k) c)" "tasks k t = Some x" "t_state x = Zombie"
    and e: "wait_any_child want k = collect_child t want k"
    by (rule wait_any_child_zombie [OF c z])
  have "collect_child t want k = Inr k'" using run e by simp
  then show ?thesis using collect_child_result [OF inv c x(2,3)] x by blast
qed

lemma wait_any_child_error:
  assumes inv: "kinv k" and c: "running_task k = Some c"
    and z: "\<exists>u\<in>set (qlist (kids k) c). map_option t_state (tasks k u) = Some Zombie"
    and run: "wait_any_child want k = Inl e"
  shows "e = Use_After_Free \<or> e = Out_Of_Bounds"
proof -
  obtain t x where x: "tasks k t = Some x" "t_state x = Zombie" and e: "wait_any_child want k = collect_child t want k"
    by (rule wait_any_child_zombie [OF c z])
  have "collect_child t want k = Inl e" using run e by simp
  then show ?thesis using collect_child_keeps [OF inv x, of want] unfolding soft_error_def [symmetric] by simp
qed

section \<open>Changing a priority\<close>

lemma chprio_set_cases:
  assumes inv: "kinv k" and t: "tasks k t = Some x" "alive (t_state x)"
  obtains k1 where "kinv k1" "tasks k1 = (tasks k)(t := Some (x\<lparr>t_priority := prio\<rparr>))"
    "running_task k1 = running_task k" "idle_task k1 = idle_task k" "qlink (sq k1) = qlink (sq k)"
    "chprio_set t prio x k = return_user (t_priority x) None k1 \<or>
     chprio_set t prio x k = schedule_then (K_chprio t prio (t_priority x)) k1 \<or>
     chprio_set t prio x k = chprio_rest t prio (t_priority x) k1"
proof -
  let ?k = "put_task t (x\<lparr>t_priority := prio\<rparr>) k"
  let ?r = "requeued t ?k"
  have u: "update_queue_priority t ?k = Inr ?r" by (rule update_queue_requeued [OF inv t]) simp_all
  have r: "kinv ?r" by (rule kinv_requeued [OF inv t(1)]) simp_all
  have ts: "tasks ?r = (tasks k)(t := Some (x\<lparr>t_priority := prio\<rparr>))" "running_task ?r = running_task k" "idle_task ?r = idle_task k" "qlink (sq ?r) = qlink (sq k)"
    by simp_all
  obtain d y where d: "running_task ?r = Some d" "tasks ?r d = Some y" using kinv_current [OF r] by blast
  have cur: "current_task ?r = Inr (d, y)" unfolding current_task_def current_Some [OF d(1)] bindE_simps
    by (simp only: get_task_Some [OF d(2)] bindE_simps)
  have e: "chprio_set t prio x k =
      (if t_state x = Int_Msg then bindE (msg_reinsert t ?r) (return_user (t_priority x) None)
       else if \<not> is_current t ?r \<and> t_state x = Ready \<and> prio > t_priority y
         then schedule_then (K_chprio t prio (t_priority x)) ?r
         else chprio_rest t prio (t_priority x) ?r)"
    unfolding chprio_set_def upd_task_Some [OF t(1)] bindE_simps u cur by simp
  show thesis
  proof (cases "t_state x = Int_Msg")
    case True
    have m: "msg_reinsert t ?r = Inr (requeued t ?r)"
      by (rule msg_reinsert_requeued [OF r, where x = "x\<lparr>t_priority := prio\<rparr>"]) (use True in simp_all)
    have same: "put_task t (x\<lparr>t_priority := prio\<rparr>) ?r = ?r"
      by (simp add: requeued_def put_task_def split: option.split)
    then have "kinv (requeued t ?r)"
      using kinv_requeued [OF r, of t "x\<lparr>t_priority := prio\<rparr>" "x\<lparr>t_priority := prio\<rparr>"] unfolding same by simp
    then show ?thesis using that [of "requeued t ?r"] ts e True m by simp
  next
    case False
    then show ?thesis using that [OF r ts] e by (cases "\<not> is_current t ?r \<and> t_state x = Ready \<and> prio > t_priority y") simp_all
  qed
qed

text \<open>What a process reads as its result once its call is over.\<close>

definition will_return :: "kont \<Rightarrow> int \<Rightarrow> bool" where
  "will_return c v \<longleftrightarrow> c = K_ret v \<or> (\<exists>t p. c = K_chprio t p v)"

lemma chprio_rest_cases:
  assumes inv: "kinv k" and c: "running_task k \<noteq> idle_task k"
  shows "chprio_rest t prio old k = return_user old None k \<or> chprio_rest t prio old k = schedule_then (K_ret old) k"
proof -
  obtain h where "q_top Q_ready (sq k) = Some h"
    using idle_ready [OF inv c] by (simp add: q_top_def)
  moreover obtain x where "tasks k h = Some x"
    using calculation on_queue_live [OF kinv_links(1) [OF inv], of h Q_ready] by (auto simp: q_top_Some)
  ultimately show ?thesis by (auto simp: chprio_rest_def deref_def)
qed

lemma chprio_outcome:
  assumes inv: "kinv k" and c: "running_task k \<noteq> idle_task k" and t: "tasks k t = Some x" "alive (t_state x)"
    and ni: "idle_task k \<noteq> Some t" and p: "min_prio \<le> prio" "prio \<le> max_prio"
  shows "\<exists>k1 r. kinv k1 \<and> tasks k1 = (tasks k)(t := Some (x\<lparr>t_priority := prio\<rparr>)) \<and> qlink (sq k1) = qlink (sq k) \<and>
    (chprio (t_pid x) prio k = return_user (t_priority x) None k1 \<or>
     chprio (t_pid x) prio k = schedule_then r k1 \<and> will_return r (t_priority x))"
proof -
  have e: "chprio (t_pid x) prio k = chprio_set t prio x k"
  proof (cases rule: pid_to_task_ok [OF inv, of "t_pid x"])
    case (1 u y)
    have "u = t" by (rule kinv_pids(4) [OF inv t 1(2) 1(3) 1(4)])
    then have y: "tasks k t = Some y" "y = x" using 1 t by simp_all
    have "t_state x \<noteq> Zombie" using t by (auto simp: alive_def)
    then show ?thesis using 1 \<open>u = t\<close> y ni p by (simp add: chprio_def is_idle_def)
  next
    case 2
    then show ?thesis using t by blast
  qed
  obtain k1 where k1: "kinv k1" "tasks k1 = (tasks k)(t := Some (x\<lparr>t_priority := prio\<rparr>))"
    "running_task k1 = running_task k" "idle_task k1 = idle_task k" "qlink (sq k1) = qlink (sq k)"
    "chprio_set t prio x k = return_user (t_priority x) None k1 \<or>
     chprio_set t prio x k = schedule_then (K_chprio t prio (t_priority x)) k1 \<or>
     chprio_set t prio x k = chprio_rest t prio (t_priority x) k1"
    using chprio_set_cases [OF inv t, of prio] by blast
  have c1: "running_task k1 \<noteq> idle_task k1" using c k1 by simp
  from k1(6) consider "chprio_set t prio x k = return_user (t_priority x) None k1"
    | r where "chprio_set t prio x k = schedule_then r k1" "will_return r (t_priority x)"
    | "chprio_set t prio x k = chprio_rest t prio (t_priority x) k1"
    by (auto simp: will_return_def)
  then show ?thesis
  proof cases
    case 3
    then have "chprio_set t prio x k = return_user (t_priority x) None k1 \<or> chprio_set t prio x k = schedule_then (K_ret (t_priority x)) k1"
      using chprio_rest_cases [OF k1(1) c1] by simp
    then show ?thesis using k1 e by (auto simp: will_return_def)
  qed (use k1 e in auto)
qed

end
