(* ===== verification/Demo.thy ===== *)
theory Demo
  imports ProcessSpec
begin

text \<open>
  A small running system, on which the properties are shown not to be vacuous: the idle process
  (identifier 0, priority 1, ready), the shell (identifier 1, priority 2, running) and a process
  that sleeps (identifier 2, priority 5, until tick 10), and one message queue of two messages, with
  one in it. Nothing is mapped, and the page allocator has not been used.
\<close>

definition t_idle :: tid where "t_idle = 0x200000"
definition t_shell :: tid where "t_shell = 0x201000"
definition t_sleep :: tid where "t_sleep = 0x202000"

definition demo_idle :: task where
  "demo_idle = empty_task\<lparr>t_state := Ready, t_priority := 1\<rparr>"

definition demo_shell :: task where
  "demo_shell = empty_task\<lparr>t_state := Running, t_priority := 2, t_pid := 1, t_parent := Some t_idle\<rparr>"

definition demo_sleep :: task where
  "demo_sleep = empty_task\<lparr>t_state := Sleeping, t_priority := 5, t_pid := 2, t_parent := Some t_shell, t_wake_time := 10\<rparr>"

definition demo_sq :: "(qid, tid) qsys" where
  "demo_sq = \<lparr>qlist = (\<lambda>_. [])(Q_ready := [t_idle], Q_sleeping := [t_sleep]),
     qlink = (\<lambda>_. None)(t_idle := Some Q_ready, t_sleep := Some Q_sleeping)\<rparr>"

definition demo_kids :: "(tid, tid) qsys" where
  "demo_kids = \<lparr>qlist = (\<lambda>_. [])(t_idle := [t_shell], t_shell := [t_sleep]),
     qlink = (\<lambda>_. None)(t_shell := Some t_idle, t_sleep := Some t_shell)\<rparr>"

definition demo_glob :: "(unit, tid) qsys" where
  "demo_glob = \<lparr>qlist = (\<lambda>_. [t_idle, t_shell, t_sleep]),
     qlink = (\<lambda>_. None)(t_idle := Some (), t_shell := Some (), t_sleep := Some ())\<rparr>"

definition demo_queue :: mqueue where
  "demo_queue = \<lparr>mq_msgs = [7], mq_size = 2, mq_count = 1\<rparr>"

definition demo :: kst where
  "demo = \<lparr>tasks = (\<lambda>_. None)(t_idle := Some demo_idle, t_shell := Some demo_shell, t_sleep := Some demo_sleep),
     running_task = Some t_shell, idle_task = Some t_idle, preempt_enabled = True,
     sq = demo_sq, kids = demo_kids, glob = demo_glob, total_ticks = 4, kpids = pidmap_init[0 := 7],
     mqueues = (\<lambda>_. None)(0 := Some demo_queue), cpt_rst = 0,
     pm = \<lparr>pages = buddy_init, ram = (\<lambda>_. 0)\<rparr>, heap_full = False\<rparr>"

lemma t_distinct [simp]:
  "t_idle \<noteq> t_shell" "t_shell \<noteq> t_idle" "t_idle \<noteq> t_sleep" "t_sleep \<noteq> t_idle" "t_shell \<noteq> t_sleep" "t_sleep \<noteq> t_shell"
  by (simp_all add: t_idle_def t_shell_def t_sleep_def)

lemma demo_tasks [simp]:
  "demo_idle = empty_task\<lparr>t_state := Ready, t_priority := 1\<rparr> \<Longrightarrow> t_state demo_idle = Ready"
  "t_state demo_idle = Ready" "t_priority demo_idle = 1" "t_pid demo_idle = 0"
  "t_state demo_shell = Running" "t_priority demo_shell = 2" "t_pid demo_shell = 1" "t_parent demo_shell = Some t_idle"
  "t_state demo_sleep = Sleeping" "t_priority demo_sleep = 5" "t_pid demo_sleep = 2" "t_parent demo_sleep = Some t_shell"
  "t_wake_time demo_sleep = 10"
  "t_kont demo_idle = K_user" "t_kont demo_shell = K_user" "t_kont demo_sleep = K_user"
  by (simp_all add: demo_idle_def demo_shell_def demo_sleep_def empty_task_def)

lemma demo_simps [simp]:
  "running_task demo = Some t_shell" "idle_task demo = Some t_idle" "total_ticks demo = 4" "cpt_rst demo = 0"
  "tasks demo = (\<lambda>_. None)(t_idle := Some demo_idle, t_shell := Some demo_shell, t_sleep := Some demo_sleep)"
  "mqueues demo = (\<lambda>_. None)(0 := Some demo_queue)" "heap_full demo = False"
  "sq demo = demo_sq" "kids demo = demo_kids" "glob demo = demo_glob" "kpids demo = pidmap_init[0 := 7]"
  by (simp_all add: demo_def)

lemma q_ok_demo [simp]: "q_ok demo_sq" "q_ok demo_kids" "q_ok demo_glob"
  by (auto simp: q_ok_def demo_sq_def demo_kids_def demo_glob_def split: if_splits)

lemma pids_used_demo: "pids_used (pidmap_init[0 := 7]) = {0, 1, 2}"
proof -
  have 1: "set_pid 0 pidmap_init = Inr (pidmap_init[0 := 1])"
    by (simp add: set_pid_def pid_ok_def pid_word_def pid_bit_def pidmap_init_def)
  have 2: "set_pid 1 (pidmap_init[0 := 1]) = Inr (pidmap_init[0 := 3])"
    by (simp add: set_pid_def pid_ok_def pid_word_def pid_bit_def pidmap_init_def)
  have 3: "set_pid 2 (pidmap_init[0 := 3]) = Inr (pidmap_init[0 := 7])"
    by (simp add: set_pid_def pid_ok_def pid_word_def pid_bit_def pidmap_init_def)
  show ?thesis using set_pid_used [OF 1] set_pid_used [OF 2] set_pid_used [OF 3] by auto
qed

lemma pidmap_wf_demo: "pidmap_wf (pidmap_init[0 := 7])"
  by (simp add: pidmap_wf_def pidmap_init_def)

lemma kinv_demo: "kinv demo"
proof -
  have "link_ok demo t" for t
    by (simp add: link_ok_def demo_sq_def demo_glob_def)
  then have "links_ok demo" unfolding links_ok_def by auto
  moreover have "queues_sorted demo" by (simp add: queues_sorted_def demo_sq_def)
  moreover have "parents_ok demo" by (simp add: parents_ok_def)
  moreover have "running_ok demo" "idle_ok demo" by (simp_all add: running_ok_def idle_ok_def)
  moreover have "pids_ok demo"
    by (auto simp: pids_ok_def pids_used_demo pidmap_wf_demo split: if_splits)
  moreover have "mqs_ok demo" by (auto simp: mqs_ok_def mqueue_ok_def demo_queue_def split: if_splits)
  ultimately have "kinv1 demo" by (simp add: kinv1_def)
  then show ?thesis by (rule kinvI [where c = t_shell and x = demo_shell]) simp_all
qed


lemma minv_demo: "minv demo"
  unfolding minv_def
proof (intro conjI allI impI)
  show "kont_ok demo t x" if "tasks demo t = Some x" for t x
    using that by (auto simp: kont_ok_def sending_def demo_sq_def split: if_splits)
  show "queues_ok demo" by (auto simp: queues_ok_def demo_sq_def)
qed simp

lemma demo_user: "user_mode demo" "running_task demo \<noteq> idle_task demo"
  by (simp_all add: user_mode_def running_kont_def)


section \<open>Processes that wait\<close>

text \<open>
  The second system: beside the idle process and the running shell, a process that waits to receive
  from the empty queue 1 (priority 5), one that waits to send 8 on the full queue 2 (priority 3), and
  a zombie child of the shell that returned 42. Queue 0 is free to use.
\<close>

definition t_recv :: tid where "t_recv = 0x203000"
definition t_send :: tid where "t_send = 0x204000"
definition t_gone :: tid where "t_gone = 0x205000"

definition busy_recv :: task where
  "busy_recv = empty_task\<lparr>t_state := Int_Msg, t_priority := 5, t_pid := 2, t_parent := Some t_shell, t_msg_val := - 1,
     t_kont := K_preceive 1 0 True\<rparr>"

definition busy_send :: task where
  "busy_send = empty_task\<lparr>t_state := Int_Msg, t_priority := 3, t_pid := 3, t_parent := Some t_shell, t_msg_val := 8,
     t_kont := K_psend 2 8 0\<rparr>"

definition busy_gone :: task where
  "busy_gone = empty_task\<lparr>t_state := Zombie, t_priority := - 1, t_pid := 4, t_parent := Some t_shell, t_retval := 42,
     t_kont := K_exit\<rparr>"

definition busy_sq :: "(qid, tid) qsys" where
  "busy_sq = \<lparr>qlist = (\<lambda>_. [])(Q_ready := [t_idle], Q_receivers 1 := [t_recv], Q_senders 2 := [t_send], Q_zombie := [t_gone]),
     qlink = (\<lambda>_. None)(t_idle := Some Q_ready, t_recv := Some (Q_receivers 1), t_send := Some (Q_senders 2),
       t_gone := Some Q_zombie)\<rparr>"

definition busy_kids :: "(tid, tid) qsys" where
  "busy_kids = \<lparr>qlist = (\<lambda>_. [])(t_idle := [t_shell], t_shell := [t_gone, t_send, t_recv]),
     qlink = (\<lambda>_. None)(t_shell := Some t_idle, t_recv := Some t_shell, t_send := Some t_shell, t_gone := Some t_shell)\<rparr>"

definition busy_glob :: "(unit, tid) qsys" where
  "busy_glob = \<lparr>qlist = (\<lambda>_. [t_idle, t_shell, t_recv, t_send]),
     qlink = (\<lambda>_. None)(t_idle := Some (), t_shell := Some (), t_recv := Some (), t_send := Some ())\<rparr>"

definition busy :: kst where
  "busy = demo\<lparr>tasks := (\<lambda>_. None)(t_idle := Some demo_idle, t_shell := Some demo_shell, t_recv := Some busy_recv,
       t_send := Some busy_send, t_gone := Some busy_gone),
     sq := busy_sq, kids := busy_kids, glob := busy_glob, kpids := pidmap_init[0 := 15],
     mqueues := (\<lambda>_. None)(0 := Some demo_queue, 1 := Some \<lparr>mq_msgs = [], mq_size = 1, mq_count = 0\<rparr>,
       2 := Some \<lparr>mq_msgs = [9], mq_size = 1, mq_count = 1\<rparr>)\<rparr>"

lemma busy_distinct [simp]:
  "t_recv \<noteq> t_send" "t_send \<noteq> t_recv" "t_recv \<noteq> t_gone" "t_gone \<noteq> t_recv" "t_send \<noteq> t_gone" "t_gone \<noteq> t_send"
  "t_idle \<noteq> t_recv" "t_recv \<noteq> t_idle" "t_idle \<noteq> t_send" "t_send \<noteq> t_idle" "t_idle \<noteq> t_gone" "t_gone \<noteq> t_idle"
  "t_shell \<noteq> t_recv" "t_recv \<noteq> t_shell" "t_shell \<noteq> t_send" "t_send \<noteq> t_shell" "t_shell \<noteq> t_gone" "t_gone \<noteq> t_shell"
  by (simp_all add: t_idle_def t_shell_def t_recv_def t_send_def t_gone_def)

lemma busy_tasks [simp]:
  "t_state busy_recv = Int_Msg" "t_priority busy_recv = 5" "t_pid busy_recv = 2" "t_parent busy_recv = Some t_shell"
  "t_msg_val busy_recv = - 1" "t_kont busy_recv = K_preceive 1 0 True"
  "t_state busy_send = Int_Msg" "t_priority busy_send = 3" "t_pid busy_send = 3" "t_parent busy_send = Some t_shell"
  "t_msg_val busy_send = 8" "t_kont busy_send = K_psend 2 8 0"
  "t_state busy_gone = Zombie" "t_priority busy_gone = - 1" "t_pid busy_gone = 4" "t_parent busy_gone = Some t_shell"
  "t_retval busy_gone = 42" "t_kont busy_gone = K_exit"
  by (simp_all add: busy_recv_def busy_send_def busy_gone_def)

lemma busy_simps [simp]:
  "running_task busy = Some t_shell" "idle_task busy = Some t_idle" "total_ticks busy = 4" "cpt_rst busy = 0"
  "tasks busy = (\<lambda>_. None)(t_idle := Some demo_idle, t_shell := Some demo_shell, t_recv := Some busy_recv,
     t_send := Some busy_send, t_gone := Some busy_gone)"
  "mqueues busy = (\<lambda>_. None)(0 := Some demo_queue, 1 := Some \<lparr>mq_msgs = [], mq_size = 1, mq_count = 0\<rparr>,
     2 := Some \<lparr>mq_msgs = [9], mq_size = 1, mq_count = 1\<rparr>)"
  "heap_full busy = False" "sq busy = busy_sq" "kids busy = busy_kids" "glob busy = busy_glob"
  "kpids busy = pidmap_init[0 := 15]"
  by (simp_all add: busy_def)

lemma q_ok_busy [simp]: "q_ok busy_sq" "q_ok busy_kids" "q_ok busy_glob"
  by (auto simp: q_ok_def busy_sq_def busy_kids_def busy_glob_def split: if_splits)

lemma pids_used_busy: "pids_used (pidmap_init[0 := 15]) = {0, 1, 2, 3}"
proof -
  have "set_pid 3 (pidmap_init[0 := 7]) = Inr (pidmap_init[0 := 15])"
    by (simp add: set_pid_def pid_ok_def pid_word_def pid_bit_def pidmap_init_def)
  then show ?thesis using set_pid_used [of 3 "pidmap_init[0 := 7]"] pids_used_demo by auto
qed

lemma kinv_busy: "kinv busy"
proof -
  have "link_ok busy t" for t
    by (simp add: link_ok_def busy_sq_def busy_glob_def)
  then have "links_ok busy" unfolding links_ok_def by auto
  moreover have "queues_sorted busy" by (simp add: queues_sorted_def busy_sq_def)
  moreover have "parents_ok busy" by (simp add: parents_ok_def)
  moreover have "running_ok busy" "idle_ok busy" by (simp_all add: running_ok_def idle_ok_def)
  moreover have "pids_ok busy"
    using pidmap_wf_demo by (auto simp: pids_ok_def pids_used_busy pidmap_wf_def split: if_splits)
  moreover have "mqs_ok busy" by (auto simp: mqs_ok_def mqueue_ok_def demo_queue_def split: if_splits)
  ultimately have "kinv1 busy" by (simp add: kinv1_def)
  then show ?thesis by (rule kinvI [where c = t_shell and x = demo_shell]) simp_all
qed

lemma minv_busy: "minv busy"
  unfolding minv_def
proof (intro conjI allI impI)
  show "kont_ok busy t x" if "tasks busy t = Some x" for t x
    using that by (auto simp: kont_ok_def sending_def receiving_def suspended_def busy_sq_def split: if_splits)
  show "queues_ok busy" by (auto simp: queues_ok_def busy_sq_def split: if_splits)
qed simp

end
