(* ===== verification/CMemory.thy ===== *)
theory CMemory
  imports Prelude
begin

text \<open>
  The block functions of \<open>shared/string.c\<close> on a memory of bytes. A \<open>while (n--)\<close> is recursion on the
  count. \<open>memcpy\<close> and \<open>memset\<close> are the i386 branches: \<open>rep movsl\<close> and \<open>rep stosl\<close> move words of four
  bytes, the rest goes byte by byte; \<open>memmove\<close> also returns the direction flag of the processor as it
  leaves it. \<open>bytes m p n\<close> reads the block of \<open>n\<close> bytes at \<open>p\<close>; the block functions are proved against
  the list operations on what they read.
\<close>

type_synonym mem8 = "u32 \<Rightarrow> u8"

section \<open>The functions\<close>

fun memccpy :: "u32 \<Rightarrow> u32 \<Rightarrow> int \<Rightarrow> nat \<Rightarrow> mem8 \<Rightarrow> u32 option \<times> mem8" where
  "memccpy q p c 0 m = (None, m)"
| "memccpy q p c (Suc n) m =
     (let ch = m p; m1 = m(q := ch)
      in if ch = word_of_int c then (Some (q + 1), m1) else memccpy (q + 1) (p + 1) c n m1)"

fun memchr :: "u32 \<Rightarrow> int \<Rightarrow> nat \<Rightarrow> mem8 \<Rightarrow> u32 option" where
  "memchr sp c 0 m = None"
| "memchr sp c (Suc n) m = (if m sp = word_of_int c then Some sp else memchr (sp + 1) c n m)"

fun memrchr_down :: "u32 \<Rightarrow> int \<Rightarrow> nat \<Rightarrow> mem8 \<Rightarrow> u32 option" where
  "memrchr_down sp c 0 m = None"
| "memrchr_down sp c (Suc n) m = (if m sp = word_of_int c then Some sp else memrchr_down (sp - 1) c n m)"

definition memrchr :: "u32 \<Rightarrow> int \<Rightarrow> nat \<Rightarrow> mem8 \<Rightarrow> u32 option" where
  "memrchr s c n m = memrchr_down (s + of_nat n - 1) c n m"

fun memcmp :: "u32 \<Rightarrow> u32 \<Rightarrow> nat \<Rightarrow> mem8 \<Rightarrow> int" where
  "memcmp c1 c2 0 m = 0"
| "memcmp c1 c2 (Suc n) m =
     (let d = uint (m c1) - uint (m c2) in if d \<noteq> 0 then d else memcmp (c1 + 1) (c2 + 1) n m)"

text \<open>\<open>rep movsb\<close> and \<open>rep movsl\<close> upwards, \<open>rep movsb\<close> downwards.\<close>

fun movsb :: "nat \<Rightarrow> u32 \<Rightarrow> u32 \<Rightarrow> mem8 \<Rightarrow> mem8" where
  "movsb 0 q p m = m"
| "movsb (Suc n) q p m = movsb n (q + 1) (p + 1) (m(q := m p))"

fun movsl :: "nat \<Rightarrow> u32 \<Rightarrow> u32 \<Rightarrow> mem8 \<Rightarrow> u32 \<times> u32 \<times> mem8" where
  "movsl 0 q p m = (q, p, m)"
| "movsl (Suc n) q p m =
     movsl n (q + 4) (p + 4) (m(q := m p, q + 1 := m (p + 1), q + 2 := m (p + 2), q + 3 := m (p + 3)))"

fun movsb_down :: "nat \<Rightarrow> u32 \<Rightarrow> u32 \<Rightarrow> mem8 \<Rightarrow> mem8" where
  "movsb_down 0 q p m = m"
| "movsb_down (Suc n) q p m = movsb_down n (q - 1) (p - 1) (m(q := m p))"

definition memcpy :: "u32 \<Rightarrow> u32 \<Rightarrow> nat \<Rightarrow> mem8 \<Rightarrow> mem8" where
  "memcpy dst src n m = (case movsl (n div 4) dst src m of (q, p, m1) \<Rightarrow> movsb (n mod 4) q p m1)"

definition memmove :: "u32 \<Rightarrow> u32 \<Rightarrow> nat \<Rightarrow> mem8 \<Rightarrow> bool \<times> mem8" where
  "memmove dst src n m =
     (if dst < src then (False, movsb n dst src m)
      else (True, movsb_down n (dst + (of_nat n - 1)) (src + (of_nat n - 1)) m))"

fun stosb :: "nat \<Rightarrow> u32 \<Rightarrow> u8 \<Rightarrow> mem8 \<Rightarrow> mem8" where
  "stosb 0 q b m = m"
| "stosb (Suc n) q b m = stosb n (q + 1) b (m(q := b))"

fun stosl :: "nat \<Rightarrow> u32 \<Rightarrow> u32 \<Rightarrow> mem8 \<Rightarrow> u32 \<times> mem8" where
  "stosl 0 q w m = (q, m)"
| "stosl (Suc n) q w m =
     stosl n (q + 4) w (m(q := ucast w, q + 1 := ucast (drop_bit 8 w), q + 2 := ucast (drop_bit 16 w),
                          q + 3 := ucast (drop_bit 24 w)))"

definition memset :: "u32 \<Rightarrow> int \<Rightarrow> nat \<Rightarrow> mem8 \<Rightarrow> mem8" where
  "memset dst c n m =
     (let w = ucast (word_of_int c :: u8) * 0x01010101
      in case stosl (n div 4) dst w m of (q, m1) \<Rightarrow> stosb (n mod 4) q (ucast w) m1)"

text \<open>
  \<open>memmem\<close>: the two steps \<open>k\<close> and \<open>l\<close> depend on whether the first two bytes of the needle are equal.
\<close>

function memmem_from :: "nat \<Rightarrow> nat \<Rightarrow> nat \<Rightarrow> u32 \<Rightarrow> nat \<Rightarrow> u32 \<Rightarrow> nat \<Rightarrow> mem8 \<Rightarrow> u32 option" where
  "memmem_from k l j y n x mm m =
     (if \<not> (j \<le> n - mm) \<or> k = 0 \<or> l = 0 then None
      else if m (x + 1) \<noteq> m (y + of_nat j + 1) then memmem_from k l (j + k) y n x mm m
      else if memcmp (x + 2) (y + of_nat j + 2) (mm - 2) m = 0 \<and> m x = m (y + of_nat j) then Some (y + of_nat j)
      else memmem_from k l (j + l) y n x mm m)"
  by pat_completeness auto

termination by (relation "measure (\<lambda>(k, l, j, y, n, x, mm, m). Suc n - mm - j + (if j \<le> n - mm then 1 else 0) + (n - j))") auto

declare memmem_from.simps [simp del]

definition memmem :: "u32 \<Rightarrow> nat \<Rightarrow> u32 \<Rightarrow> nat \<Rightarrow> mem8 \<Rightarrow> u32 option" where
  "memmem y n x mm m =
     (if mm > n \<or> mm = 0 \<or> n = 0 then None
      else if mm \<noteq> 1 then
        (if m x = m (x + 1) then memmem_from 2 1 0 y n x mm m else memmem_from 1 2 0 y n x mm m)
      else memchr y (uint (m x)) n m)"

fun memswap :: "u32 \<Rightarrow> u32 \<Rightarrow> nat \<Rightarrow> mem8 \<Rightarrow> mem8" where
  "memswap p q 0 m = m"
| "memswap p q (Suc n) m = memswap (p + 1) (q + 1) n (m(p := m q, q := m p))"

section \<open>Blocks of bytes\<close>

fun bytes :: "mem8 \<Rightarrow> u32 \<Rightarrow> nat \<Rightarrow> u8 list" where
  "bytes m p 0 = []"
| "bytes m p (Suc n) = m p # bytes m (p + 1) n"

definition in_block :: "u32 \<Rightarrow> u32 \<Rightarrow> nat \<Rightarrow> bool" where
  "in_block a p n \<longleftrightarrow> unat (a - p) < n"

definition disjoint_blocks :: "u32 \<Rightarrow> nat \<Rightarrow> u32 \<Rightarrow> nat \<Rightarrow> bool" where
  "disjoint_blocks p n q k \<longleftrightarrow> (\<forall>a. \<not> (in_block a p n \<and> in_block a q k))"

lemma length_bytes [simp]: "length (bytes m p n) = n"
  by (induction n arbitrary: p) simp_all

lemma nth_bytes: "i < n \<Longrightarrow> bytes m p n ! i = m (p + of_nat i)"
proof (induction n arbitrary: p i)
  case (Suc n)
  then show ?case by (cases i) (simp_all add: ac_simps)
qed simp

lemma bytes_eqI: "(\<And>i. i < n \<Longrightarrow> m' (q + of_nat i) = m (p + of_nat i)) \<Longrightarrow> bytes m' q n = bytes m p n"
  by (intro nth_equalityI) (simp_all add: nth_bytes)

lemma bytes_eq_iff: "bytes m' q n = bytes m p n \<longleftrightarrow> (\<forall>i<n. m' (q + of_nat i) = m (p + of_nat i))"
  by (metis bytes_eqI nth_bytes)

lemma in_block_add [simp]: "i < n \<Longrightarrow> n \<le> 2 ^ 32 \<Longrightarrow> in_block (p + of_nat i) p n"
  by (simp add: in_block_def unat_of_nat32)

lemma in_block_iff: "n \<le> 2 ^ 32 \<Longrightarrow> in_block a p n \<longleftrightarrow> (\<exists>i<n. a = p + of_nat i)"
proof
  assume "in_block a p n"
  then show "\<exists>i<n. a = p + of_nat i"
    by (intro exI [where x = "unat (a - p)"]) (simp add: in_block_def)
qed auto

lemma block_step: "in_block a p (Suc n) \<longleftrightarrow> a = p \<or> in_block a (p + 1) n" if "Suc n \<le> 2 ^ 32"
proof -
  have n: "n \<le> 2 ^ 32" using that by simp
  have "(\<exists>i<Suc n. a = p + of_nat i) \<longleftrightarrow> a = p \<or> (\<exists>i<n. a = p + 1 + of_nat i)"
  proof
    assume "\<exists>i<Suc n. a = p + of_nat i"
    then obtain i where i: "i < Suc n" "a = p + of_nat i" by blast
    show "a = p \<or> (\<exists>i<n. a = p + 1 + of_nat i)"
    proof (cases i)
      case (Suc j)
      then show ?thesis using i by (intro disjI2 exI [where x = j]) simp
    qed (use i in simp)
  next
    assume "a = p \<or> (\<exists>i<n. a = p + 1 + of_nat i)"
    then show "\<exists>i<Suc n. a = p + of_nat i"
    proof
      assume "a = p"
      then show ?thesis by (intro exI [where x = 0]) simp
    next
      assume "\<exists>i<n. a = p + 1 + of_nat i"
      then obtain i where "i < n" "a = p + 1 + of_nat i" by blast
      then show ?thesis by (intro exI [where x = "Suc i"]) simp
    qed
  qed
  then show ?thesis using that n by (simp add: in_block_iff)
qed

lemma first_not_in_rest: "Suc n \<le> 2 ^ 32 \<Longrightarrow> \<not> in_block p (p + 1) n"
proof
  assume n: "Suc n \<le> 2 ^ 32" and "in_block p (p + 1) n"
  then obtain i where i: "i < n" "p = p + 1 + of_nat i" using in_block_iff [of n] by auto
  then have "of_nat (Suc i) = (of_nat 0 :: u32)" by (simp add: algebra_simps)
  then show False using of_nat32_inj [of "Suc i" 0] i n by simp
qed

lemma disjoint_sym: "disjoint_blocks p n q k \<Longrightarrow> disjoint_blocks q k p n"
  by (auto simp: disjoint_blocks_def)

section \<open>Copying\<close>

text \<open>What a copy of \<open>n\<close> bytes is to leave in memory, and when the upward copy does so.\<close>

definition copied :: "nat \<Rightarrow> u32 \<Rightarrow> u32 \<Rightarrow> mem8 \<Rightarrow> mem8" where
  "copied n q p m = (\<lambda>a. if in_block a q n then m (p + (a - q)) else m a)"

lemma copied_0 [simp]: "copied 0 q p m = m"
  by (simp add: copied_def in_block_def)

lemma bytes_copied: "n \<le> 2 ^ 32 \<Longrightarrow> bytes (copied n q p m) q n = bytes m p n"
  by (rule bytes_eqI) (simp add: copied_def)

text \<open>No byte is read after it was written.\<close>

definition safe_up :: "nat \<Rightarrow> u32 \<Rightarrow> u32 \<Rightarrow> bool" where
  "safe_up n q p \<longleftrightarrow> (\<forall>i<n. \<not> in_block (p + of_nat i) q i)"

lemma movsb_copied:
  assumes "n \<le> 2 ^ 32" and "safe_up n q p" shows "movsb n q p m = copied n q p m"
  using assms
proof (induction n arbitrary: q p m)
  case (Suc n)
  have s: "safe_up n (q + 1) (p + 1)"
    unfolding safe_up_def
  proof (intro allI impI)
    fix i assume i: "i < n"
    then have "\<not> in_block (p + of_nat (Suc i)) q (Suc i)" using Suc.prems(2) unfolding safe_up_def by blast
    then show "\<not> in_block (p + 1 + of_nat i) (q + 1) i"
      using block_step [of i "p + of_nat (Suc i)" q] i Suc.prems(1) by (simp add: ac_simps)
  qed
  have nq: "p + of_nat (Suc i) \<noteq> q" if "i < n" for i
  proof -
    have "\<not> in_block (p + of_nat (Suc i)) q (Suc i)" using Suc.prems(2) that unfolding safe_up_def by blast
    then show ?thesis by (auto simp: in_block_def)
  qed
  have "movsb (Suc n) q p m = copied n (q + 1) (p + 1) (m(q := m p))" using Suc s by simp
  also have "\<dots> = copied (Suc n) q p m"
  proof
    fix a
    show "copied n (q + 1) (p + 1) (m(q := m p)) a = copied (Suc n) q p m a"
    proof (cases "in_block a (q + 1) n")
      case True
      then obtain i where i: "i < n" "a = q + 1 + of_nat i" using in_block_iff [of n] Suc.prems(1) by auto
      then have "p + 1 + (a - (q + 1)) = p + of_nat (Suc i)" by (simp add: algebra_simps)
      moreover have "p + (a - q) = p + of_nat (Suc i)" using i by (simp add: algebra_simps)
      ultimately show ?thesis using True nq [OF i(1)] block_step [OF Suc.prems(1)] by (simp add: copied_def)
    next
      case False
      then show ?thesis using block_step [OF Suc.prems(1), of a q] by (auto simp: copied_def)
    qed
  qed
  finally show ?case .
qed simp

lemma safe_up_disjoint: "disjoint_blocks q n p n \<Longrightarrow> n \<le> 2 ^ 32 \<Longrightarrow> safe_up n q p"
  unfolding safe_up_def
proof (intro allI impI notI)
  fix i assume d: "disjoint_blocks q n p n" and n: "n \<le> 2 ^ 32" and i: "i < n" and b: "in_block (p + of_nat i) q i"
  have "in_block (p + of_nat i) p n" using i n by simp
  moreover have "in_block (p + of_nat i) q n" using b i by (simp add: in_block_def)
  ultimately show False using d by (auto simp: disjoint_blocks_def)
qed

lemma safe_up_below:
  assumes "q < p" and "unat p + n \<le> 2 ^ 32" shows "safe_up n q p"
  unfolding safe_up_def
proof (intro allI impI notI)
  fix i assume i: "i < n" and b: "in_block (p + of_nat i) q i"
  have i32: "i < 2 ^ 32" using i assms(2) by simp
  obtain j where j: "j < i" "p + of_nat i = q + of_nat j" using b in_block_iff [of i] i32 by auto
  have "unat (p + of_nat i) = unat p + i" using assms i by (intro unat_plus_of_nat) simp
  moreover have "unat q < unat p" using assms(1) by (simp add: word_less_nat_alt)
  moreover have "unat (q + of_nat j) = unat q + j" using assms i j calculation(2) by (intro unat_plus_of_nat) simp
  ultimately show False using j by simp
qed


lemma block_last: "Suc n \<le> 2 ^ 32 \<Longrightarrow> in_block a p (Suc n) \<longleftrightarrow> a = p + of_nat n \<or> in_block a p n"
proof -
  assume n: "Suc n \<le> 2 ^ 32"
  have "unat (a - p) = n \<longleftrightarrow> a = p + of_nat n"
  proof
    assume "unat (a - p) = n"
    then have "a - p = of_nat n" by (metis word_nat_cases unat_of_nat32 unat_bound word_unat_eq_iff of_nat_unat ucast_id)
    then show "a = p + of_nat n" by (simp add: algebra_simps)
  qed (use n in \<open>simp add: unat_of_nat32\<close>)
  then show ?thesis by (auto simp: in_block_def less_Suc_eq)
qed

definition safe_down :: "nat \<Rightarrow> u32 \<Rightarrow> u32 \<Rightarrow> bool" where
  "safe_down n q p \<longleftrightarrow> (\<forall>k<n. \<not> in_block (q + of_nat k) p k)"

lemma movsb_down_copied:
  assumes "n \<le> 2 ^ 32" and "safe_down n q p"
  shows "movsb_down n (q + (of_nat n - 1)) (p + (of_nat n - 1)) m = copied n q p m"
  using assms
proof (induction n arbitrary: m)
  case (Suc n)
  let ?m = "m(q + of_nat n := m (p + of_nat n))"
  have "safe_down n q p" using Suc.prems(2) by (simp add: safe_down_def)
  then have "movsb_down (Suc n) (q + (of_nat (Suc n) - 1)) (p + (of_nat (Suc n) - 1)) m = copied n q p ?m"
    using Suc by (simp add: add_diff_eq)
  also have "\<dots> = copied (Suc n) q p m"
  proof
    fix a
    show "copied n q p ?m a = copied (Suc n) q p m a"
    proof (cases "in_block a q n")
      case True
      have "p + (a - q) \<noteq> q + of_nat n"
      proof
        assume e: "p + (a - q) = q + of_nat n"
        have "in_block (p + (a - q)) p n" using True by (simp add: in_block_def)
        then show False using e Suc.prems(2) by (auto simp: safe_down_def)
      qed
      then show ?thesis using True block_last [OF Suc.prems(1)] by (simp add: copied_def)
    next
      case False
      then show ?thesis using block_last [OF Suc.prems(1), of a q] by (auto simp: copied_def)
    qed
  qed
  finally show ?case .
qed simp

lemma safe_down_above:
  assumes "p \<le> q" and "unat q + n \<le> 2 ^ 32" shows "safe_down n q p"
  unfolding safe_down_def
proof (intro allI impI notI)
  fix k assume k: "k < n" and b: "in_block (q + of_nat k) p k"
  have pq: "unat p \<le> unat q" using assms(1) by (simp add: word_le_nat_alt)
  obtain j where j: "j < k" "q + of_nat k = p + of_nat j" using b in_block_iff [of k] k assms(2) by auto
  have "unat (q + of_nat k) = unat q + k" using assms k by (intro unat_plus_of_nat) simp
  moreover have "unat (p + of_nat j) = unat p + j" using assms k j(1) pq by (intro unat_plus_of_nat) simp
  ultimately show False using j pq by simp
qed

lemma memmove_copied:
  assumes "unat dst + n \<le> 2 ^ 32" and "unat src + n \<le> 2 ^ 32"
  shows "memmove dst src n m = (src \<le> dst, copied n dst src m)"
proof (cases "dst < src")
  case True
  then show ?thesis using assms movsb_copied [OF _ safe_up_below [OF True assms(2)]] by (simp add: memmove_def)
next
  case False
  then have "safe_down n dst src" using assms by (intro safe_down_above) simp_all
  then show ?thesis using False assms movsb_down_copied [of n dst src] by (simp add: memmove_def)
qed

text \<open>The words of \<open>rep movsl\<close> are the bytes of \<open>rep movsb\<close>, as long as no word overlaps its source.\<close>

definition apart :: "nat \<Rightarrow> u32 \<Rightarrow> u32 \<Rightarrow> bool" where
  "apart n q p \<longleftrightarrow> (\<forall>i<n. \<forall>j<n. p + of_nat i \<noteq> q + of_nat j)"

lemma apart_disjoint: "n \<le> 2 ^ 32 \<Longrightarrow> apart n q p \<longleftrightarrow> disjoint_blocks q n p n"
  unfolding apart_def disjoint_blocks_def by (auto simp: in_block_iff)

lemma apart_step:
  assumes "apart (k + n) q p" shows "apart n (q + of_nat k) (p + of_nat k)"
  unfolding apart_def
proof (intro allI impI)
  fix i j assume "i < n" "j < n"
  then have "p + of_nat (k + i) \<noteq> q + of_nat (k + j)" using assms unfolding apart_def by (metis add_strict_left_mono)
  then show "p + of_nat k + of_nat i \<noteq> q + of_nat k + of_nat j" by (simp add: add.assoc)
qed

lemma movsb_4:
  assumes "p + 1 \<noteq> q" "p + 2 \<noteq> q" "p + 2 \<noteq> q + 1" "p + 3 \<noteq> q" "p + 3 \<noteq> q + 1" "p + 3 \<noteq> q + 2"
  shows "movsb (Suc (Suc (Suc (Suc k)))) q p m =
    movsb k (q + 4) (p + 4) (m(q := m p, q + 1 := m (p + 1), q + 2 := m (p + 2), q + 3 := m (p + 3)))"
proof -
  have "p + 1 + 1 = p + 2" "p + 2 + 1 = p + 3" "p + 3 + 1 = p + 4" "q + 1 + 1 = q + 2" "q + 2 + 1 = q + 3" "q + 3 + 1 = q + 4"
    by (simp_all add: add.assoc)
  then show ?thesis using assms by (simp only: movsb.simps fun_upd_apply if_False simp_thms)
qed

lemma movsl_movsb:
  "apart (4 * n) q p \<Longrightarrow> movsl n q p m = (q + of_nat (4 * n), p + of_nat (4 * n), movsb (4 * n) q p m)"
proof (induction n arbitrary: q p m)
  case (Suc n)
  let ?m = "m(q := m p, q + 1 := m (p + 1), q + 2 := m (p + 2), q + 3 := m (p + 3))"
  have ap: "apart (4 + 4 * n) q p" using Suc.prems by simp
  have ne: "p + of_nat i \<noteq> q + of_nat j" if "i < 4" "j < 4" for i j
    using ap that unfolding apart_def by (meson trans_less_add1)
  have "movsb (Suc (Suc (Suc (Suc (4 * n))))) q p m = movsb (4 * n) (q + 4) (p + 4) ?m"
    by (rule movsb_4) (use ne [of 1 0] ne [of 2 0] ne [of 2 1] ne [of 3 0] ne [of 3 1] ne [of 3 2] in simp_all)
  moreover have "4 * Suc n = Suc (Suc (Suc (Suc (4 * n))))" by simp
  ultimately have "movsb (4 * Suc n) q p m = movsb (4 * n) (q + 4) (p + 4) ?m" by (simp only:)
  note e = this
  have "apart (4 * n) (q + 4) (p + 4)" using apart_step [OF ap] by simp
  note ih = Suc.IH [OF this, of ?m]
  have o: "q + 4 + of_nat (4 * n) = q + of_nat (4 * Suc n)" for q :: u32 by (simp add: add.assoc)
  have "movsl (Suc n) q p m = movsl n (q + 4) (p + 4) ?m" by (rule movsl.simps)
  then show ?case unfolding ih e o .
qed simp

lemma movsb_add: "movsb (a + b) q p m = movsb b (q + of_nat a) (p + of_nat a) (movsb a q p m)"
  by (induction a arbitrary: q p m) (simp_all add: ac_simps)

lemma memcpy_copied:
  assumes "n \<le> 2 ^ 32" and "disjoint_blocks dst n src n"
  shows "memcpy dst src n m = copied n dst src m"
proof -
  have a: "apart n dst src" using assms apart_disjoint by blast
  then have "apart (4 * (n div 4)) dst src" by (auto simp: apart_def)
  then have "memcpy dst src n m = movsb (4 * (n div 4) + n mod 4) dst src m"
    by (simp only: memcpy_def movsl_movsb movsb_add) simp
  then have "memcpy dst src n m = movsb n dst src m" by simp
  then show ?thesis using movsb_copied [OF assms(1) safe_up_disjoint [OF assms(2,1)]] by simp
qed

section \<open>Filling, swapping, comparing\<close>

definition filled :: "nat \<Rightarrow> u32 \<Rightarrow> u8 \<Rightarrow> mem8 \<Rightarrow> mem8" where
  "filled n q b m = (\<lambda>a. if in_block a q n then b else m a)"

lemma stosb_filled: "n \<le> 2 ^ 32 \<Longrightarrow> stosb n q b m = filled n q b m"
proof (induction n arbitrary: q m)
  case (Suc n)
  then show ?case using block_step [OF Suc.prems] by (auto simp: filled_def fun_eq_iff)
qed (simp add: filled_def in_block_def)

lemma four_bytes:
  fixes b :: u8
  defines "w \<equiv> ucast b * 0x01010101 :: u32"
  shows "ucast w = b" "ucast (drop_bit 8 w) = b" "ucast (drop_bit 16 w) = b" "ucast (drop_bit 24 w) = b"
proof -
  have u: "unat w = unat b * 16843009"
  proof -
    have b: "unat b < 256" using unat_bound [of b] by simp
    have "unat (ucast b :: u32) = unat b"
      using b by (simp add: unsigned_ucast_eq take_bit_nat_eq_self)
    then show ?thesis using b unfolding w_def by (simp add: unat_word_ariths)
  qed
  have e: "(x :: u8) = b \<longleftrightarrow> unat x = unat b" for x by (rule word_unat_eq_iff)
  have b: "unat b < 256" using unat_bound [of b] by simp
  have t: "take_bit 32 (unat w) = unat w" using unat_bound [of w] by (simp add: take_bit_nat_eq_self)
  have d: "unat (ucast (drop_bit k w) :: u8) = unat w div 2 ^ k mod 256" for k
    by (simp add: unsigned_ucast_eq unsigned_drop_bit_eq take_bit_eq_mod [of 8 "_ :: nat"] drop_bit_eq_div [of _ "_ :: nat"] t)
  have r: "(unat b + 256 * k) mod 256 = unat b" for k using b by (simp only: mod_mult_self2 mod_less)
  have "unat b * 16843009 = unat b + 256 * (65793 * unat b)" by simp
  then show "ucast w = b" using d [of 0] u e r [of "65793 * unat b"] by (simp add: mult.commute)
  have "unat b * 16843009 div 2 ^ 8 = unat b + 256 * (257 * unat b)" using b by simp
  then show "ucast (drop_bit 8 w) = b" using d [of 8] u e r [of "257 * unat b"] by simp
  have "unat b * 16843009 div 2 ^ 16 = unat b + 256 * unat b" using b by simp
  then show "ucast (drop_bit 16 w) = b" using d [of 16] u e r [of "unat b"] by simp
  have "unat b * 16843009 div 2 ^ 24 = unat b" using b by simp
  then show "ucast (drop_bit 24 w) = b" using d [of 24] b u e by simp
qed

lemma stosl_filled:
  assumes "4 * n \<le> 2 ^ 32"
  shows "stosl n q (ucast b * 0x01010101) m = (q + of_nat (4 * n), filled (4 * n) q b m)"
  using assms
proof (induction n arbitrary: q m)
  case (Suc n)
  let ?m = "m(q := b, q + 1 := b, q + 2 := b, q + 3 := b)"
  have "filled (4 * Suc n) q b m = stosb (Suc (Suc (Suc (Suc (4 * n))))) q b m"
  proof -
    have "4 * Suc n = Suc (Suc (Suc (Suc (4 * n))))" by simp
    then show ?thesis using stosb_filled [OF Suc.prems, of q b m] by (simp only:)
  qed
  also have "\<dots> = stosb (4 * n) (q + 4) b ?m"
  proof -
    have "q + 1 + 1 = q + 2" "q + 2 + 1 = q + 3" "q + 3 + 1 = q + 4" by (simp_all add: add.assoc)
    then show ?thesis by (simp only: stosb.simps)
  qed
  also have "\<dots> = filled (4 * n) (q + 4) b ?m" using Suc.prems by (intro stosb_filled) simp
  finally have f: "filled (4 * Suc n) q b m = filled (4 * n) (q + 4) b ?m" .
  have "stosl n (q + 4) (ucast b * 0x01010101) ?m = (q + 4 + of_nat (4 * n), filled (4 * n) (q + 4) b ?m)"
    using Suc.prems by (intro Suc.IH) simp
  moreover have "stosl (Suc n) q (ucast b * 0x01010101) m = stosl n (q + 4) (ucast b * 0x01010101) ?m"
    by (simp only: stosl.simps four_bytes)
  moreover have "q + 4 + of_nat (4 * n) = q + of_nat (4 * Suc n)" by (simp add: add.assoc)
  ultimately show ?case by (simp only: f)
qed (simp add: filled_def in_block_def)

lemma stosb_add: "stosb (a + c) q b m = stosb c (q + of_nat a) b (stosb a q b m)"
  by (induction a arbitrary: q m) (simp_all add: ac_simps)

lemma memset_filled:
  assumes "n \<le> 2 ^ 32" shows "memset dst c n m = filled n dst (word_of_int c) m"
proof -
  let ?b = "word_of_int c :: u8"
  have q: "4 * (n div 4) \<le> n" by simp
  have "memset dst c n m = stosb (n mod 4) (dst + of_nat (4 * (n div 4))) ?b (filled (4 * (n div 4)) dst ?b m)"
    using stosl_filled [of "n div 4" dst ?b m] q assms by (simp add: memset_def Let_def four_bytes(1))
  also have "\<dots> = stosb (4 * (n div 4) + n mod 4) dst ?b m"
    unfolding stosb_add using stosb_filled [of "4 * (n div 4)" dst ?b m] q assms by simp
  finally show ?thesis using stosb_filled [OF assms] by simp
qed

lemma memswap_swapped:
  assumes "n \<le> 2 ^ 32" and "disjoint_blocks p n q n"
  shows "memswap p q n m = (\<lambda>a. if in_block a p n then m (q + (a - p)) else if in_block a q n then m (p + (a - q)) else m a)"
  using assms
proof (induction n arbitrary: p q m)
  case (Suc n)
  have s: "Suc n \<le> 2 ^ 32" using Suc.prems by simp
  have d: "disjoint_blocks (p + 1) n (q + 1) n"
    using Suc.prems block_step [OF s] unfolding disjoint_blocks_def by blast
  have pq: "\<not> in_block a p (Suc n) \<or> \<not> in_block a q (Suc n)" for a using Suc.prems unfolding disjoint_blocks_def by blast
  have e: "p + 1 + (a - (q + 1)) = p + (a - q)" for a p q :: u32 by (simp add: algebra_simps)
  have o: "in_block (p + (a - q)) p n \<longleftrightarrow> in_block a q n" for a p q n by (simp add: in_block_def)
  have "memswap p q (Suc n) m = memswap (p + 1) (q + 1) n (m(p := m q, q := m p))" by simp
  also have "\<dots> = (\<lambda>a. if in_block a (p + 1) n then (m(p := m q, q := m p)) (q + (a - p))
      else if in_block a (q + 1) n then (m(p := m q, q := m p)) (p + (a - q)) else (m(p := m q, q := m p)) a)"
    using Suc.IH [OF _ d, of "m(p := m q, q := m p)", OF Suc_leD [OF s]] unfolding e .
  also have "\<dots> = (\<lambda>a. if in_block a p (Suc n) then m (q + (a - p)) else if in_block a q (Suc n) then m (p + (a - q)) else m a)"
  proof
    fix a
    have pp: "in_block p p (Suc n)" "in_block q q (Suc n)" by (simp_all add: in_block_def)
    then have npq: "p \<noteq> q" using pq by auto
    show "(if in_block a (p + 1) n then (m(p := m q, q := m p)) (q + (a - p))
      else if in_block a (q + 1) n then (m(p := m q, q := m p)) (p + (a - q)) else (m(p := m q, q := m p)) a) =
      (if in_block a p (Suc n) then m (q + (a - p)) else if in_block a q (Suc n) then m (p + (a - q)) else m a)"
    proof (cases "a = p \<or> a = q")
      case True
      then show ?thesis using npq pq [of a] pp block_step [OF s] first_not_in_rest [OF s] by (auto simp: block_step [OF s])
    next
      case False
      have "q + (a - p) \<noteq> q" "p + (a - q) \<noteq> p" using False by auto
      moreover have "q + (a - p) \<noteq> p" if "in_block a p (Suc n)"
      proof
        assume e: "q + (a - p) = p"
        have "in_block p q (Suc n)" using that o [of q a p "Suc n"] unfolding e by simp
        then show False using pq [of p] pp by simp
      qed
      moreover have "p + (a - q) \<noteq> q" if "in_block a q (Suc n)"
      proof
        assume e: "p + (a - q) = q"
        have "in_block q p (Suc n)" using that o [of p a q "Suc n"] unfolding e by simp
        then show False using pq [of q] pp by simp
      qed
      ultimately show ?thesis using False by (auto simp: block_step [OF s])
    qed
  qed
  finally show ?case .
qed (simp add: in_block_def)


lemma uint_eq_iff: "uint a = uint b \<longleftrightarrow> a = b"
  by (simp add: word_uint_eq_iff)

lemma memcmp_zero: "memcmp p q n m = 0 \<longleftrightarrow> bytes m p n = bytes m q n"
  by (induction n arbitrary: p q) (auto simp: Let_def uint_eq_iff)

lemma memcmp_sign: "memcmp p q n m = d \<Longrightarrow> d \<noteq> 0 \<Longrightarrow>
    \<exists>i<n. bytes m p i = bytes m q i \<and> d = uint (m (p + of_nat i)) - uint (m (q + of_nat i))"
proof (induction n arbitrary: p q)
  case (Suc n)
  show ?case
  proof (cases "m p = m q")
    case True
    then obtain i where "i < n" "bytes m (p + 1) i = bytes m (q + 1) i"
        "d = uint (m (p + 1 + of_nat i)) - uint (m (q + 1 + of_nat i))"
      using Suc.IH [of "p + 1" "q + 1"] Suc.prems by (auto simp: Let_def)
    then show ?thesis using True by (intro exI [where x = "Suc i"]) (simp add: ac_simps)
  next
    case False
    then show ?thesis using Suc.prems by (intro exI [where x = 0]) (simp add: Let_def uint_eq_iff)
  qed
qed simp

lemma memchr_first: "case memchr p c n m of
     None \<Rightarrow> word_of_int c \<notin> set (bytes m p n)
   | Some a \<Rightarrow> \<exists>i<n. a = p + of_nat i \<and> m a = word_of_int c \<and> word_of_int c \<notin> set (bytes m p i)"
proof (induction n arbitrary: p)
  case (Suc n)
  show ?case
  proof (cases "m p = word_of_int c")
    case True
    then show ?thesis by (auto intro: exI [where x = 0])
  next
    case False
    show ?thesis
    proof (cases "memchr (p + 1) c n m")
      case None
      then show ?thesis using Suc [of "p + 1"] False by auto
    next
      case (Some a)
      then obtain i where "i < n" "a = p + 1 + of_nat i" "m a = word_of_int c" "word_of_int c \<notin> set (bytes m (p + 1) i)"
        using Suc [of "p + 1"] by auto
      then show ?thesis using False Some by (auto intro!: exI [where x = "Suc i"] simp: add.assoc)
    qed
  qed
qed simp

section \<open>The search of memmem\<close>

definition occurs_at :: "mem8 \<Rightarrow> u32 \<Rightarrow> nat \<Rightarrow> u32 \<Rightarrow> nat \<Rightarrow> nat \<Rightarrow> bool" where
  "occurs_at m y n x k j \<longleftrightarrow> j + k \<le> n \<and> bytes m (y + of_nat j) k = bytes m x k"

definition first_occurrence :: "mem8 \<Rightarrow> u32 \<Rightarrow> nat \<Rightarrow> u32 \<Rightarrow> nat \<Rightarrow> u32 option \<Rightarrow> bool" where
  "first_occurrence m y n x k r \<longleftrightarrow>
     (case r of
        None \<Rightarrow> \<forall>j. \<not> occurs_at m y n x k j
      | Some a \<Rightarrow> \<exists>j. a = y + of_nat j \<and> occurs_at m y n x k j \<and> (\<forall>i<j. \<not> occurs_at m y n x k i))"

lemma bytes_two: "2 \<le> k \<Longrightarrow> bytes m p k = m p # m (p + 1) # bytes m (p + 2) (k - 2)"
  by (cases k; cases "k - 1") (auto simp: add.assoc)

lemma occurs_heads:
  assumes "2 \<le> k" and "occurs_at m y n x k j"
  shows "m (y + of_nat j) = m x" and "m (y + of_nat j + 1) = m (x + 1)"
  using assms by (simp_all add: occurs_at_def bytes_two [OF assms(1)])

lemma memmem_from_first:
  assumes "2 \<le> k" and "k \<le> n"
    and "if m x = m (x + 1) then s = 2 \<and> l = 1 else s = 1 \<and> l = 2" and "\<forall>i<j. \<not> occurs_at m y n x k i"
  shows "first_occurrence m y n x k (memmem_from s l j y n x k m)"
  using assms
proof (induction s l j y n x k m rule: memmem_from.induct)
  case (1 s l j y n x k m)
  have sl: "s \<noteq> 0" "l \<noteq> 0" using 1(5) by (auto split: if_splits)
  have skip: "\<not> occurs_at m y n x k (j + 1)" if "m (y + of_nat j + 1) \<noteq> m x"
  proof
    assume "occurs_at m y n x k (j + 1)"
    from occurs_heads(1) [OF 1(3) this] have "m (y + of_nat (j + 1)) = m x" .
    moreover have "y + of_nat (j + 1) = y + of_nat j + 1" by (simp add: add.assoc)
    ultimately show False using that by (simp only:)
  qed
  have below: "\<forall>i<j + d. \<not> occurs_at m y n x k i" if "\<not> occurs_at m y n x k j" "d = 1 \<or> d = 2 \<and> \<not> occurs_at m y n x k (j + 1)" for d
    using that 1(6) by (auto simp: less_Suc_eq numeral_2_eq_2)
  show ?case
  proof (cases "j \<le> n - k")
    case False
    then have "\<not> occurs_at m y n x k i" for i using 1(6) by (cases "i < j") (auto simp: occurs_at_def)
    then show ?thesis using False by (simp add: memmem_from.simps [of s l j] first_occurrence_def)
  next
    case True
    show ?thesis
    proof (cases "m (x + 1) = m (y + of_nat j + 1)")
      case False
      have "\<not> occurs_at m y n x k j" using False occurs_heads(2) [OF 1(3)] by metis
      then have "\<forall>i<j + s. \<not> occurs_at m y n x k i" using 1(5) False skip by (intro below) (auto split: if_splits)
      then show ?thesis using 1(1) True False sl 1(3-5) by (simp add: memmem_from.simps [of s l j])
    next
      case eq: True
      show ?thesis
      proof (cases "memcmp (x + 2) (y + of_nat j + 2) (k - 2) m = 0 \<and> m x = m (y + of_nat j)")
        case found: True
        then have "occurs_at m y n x k j" using True eq 1(3,4) by (simp add: occurs_at_def memcmp_zero bytes_two)
        then show ?thesis using True eq found sl 1(6) by (auto simp: memmem_from.simps [of s l j] first_occurrence_def)
      next
        case no: False
        then have "\<not> occurs_at m y n x k j" using 1(3) by (auto simp: occurs_at_def memcmp_zero bytes_two)
        then have "\<forall>i<j + l. \<not> occurs_at m y n x k i" using 1(5) eq skip by (intro below) (auto split: if_splits)
        then show ?thesis using 1(2) True eq no sl 1(3-5) by (auto simp: memmem_from.simps [of s l j])
      qed
    qed
  qed
qed

lemma memmem_first:
  assumes "0 < k" and "0 < n" shows "first_occurrence m y n x k (memmem y n x k m)"
proof -
  consider "k > n" | "k = 1" "k \<le> n" | "2 \<le> k" "k \<le> n" using assms by linarith
  then show ?thesis
  proof cases
    case 1
    then show ?thesis by (simp add: memmem_def first_occurrence_def occurs_at_def)
  next
    case 2
    have o: "occurs_at m y n x 1 j \<longleftrightarrow> j < n \<and> m (y + of_nat j) = m x" for j by (auto simp: occurs_at_def)
    have s: "m x \<in> set (bytes m y i) \<longleftrightarrow> (\<exists>j<i. m (y + of_nat j) = m x)" for i
      by (auto simp: in_set_conv_nth nth_bytes)
    have e: "memmem y n x k m = memchr y (uint (m x)) n m" using 2 by (simp add: memmem_def)
    show ?thesis
    proof (cases "memchr y (uint (m x)) n m")
      case None
      then show ?thesis using memchr_first [where p = y and c = "uint (m x)" and n = n and m = m] 2 e s o by (auto simp: first_occurrence_def)
    next
      case (Some a)
      then obtain i where i: "i < n" "a = y + of_nat i" "m a = m x" "m x \<notin> set (bytes m y i)"
        using memchr_first [where p = y and c = "uint (m x)" and n = n and m = m] by auto
      then show ?thesis using Some 2 e s o by (auto simp: first_occurrence_def intro!: exI [where x = i])
    qed
  next
    case 3
    then show ?thesis using memmem_from_first [of k n m x _ _ 0 y] by (simp add: memmem_def)
  qed
qed

section \<open>What the block functions promise\<close>

text \<open>
  C14. \<open>memmove\<close> leaves at the destination the bytes the source held before, whether or not the two
  blocks overlap, and changes no byte outside the destination; it leaves the direction flag set when
  it copied downwards.
\<close>

theorem memmove_moves:
  assumes "unat dst + n \<le> 2 ^ 32" and "unat src + n \<le> 2 ^ 32"
  shows "bytes (snd (memmove dst src n m)) dst n = bytes m src n \<and>
    (\<forall>a. \<not> in_block a dst n \<longrightarrow> snd (memmove dst src n m) a = m a) \<and>
    (fst (memmove dst src n m) \<longleftrightarrow> src \<le> dst)"
  using assms bytes_copied [of n dst src m] by (simp add: memmove_copied) (simp add: copied_def)

theorem memmove_moves_witness:
  "bytes (snd (memmove 0x1002 0x1000 5 (\<lambda>a. ucast a))) 0x1002 5 = [0, 1, 2, 3, 4]"
proof -
  have "bytes (snd (memmove 0x1002 0x1000 5 (\<lambda>a. ucast a))) 0x1002 5 = bytes (\<lambda>a. ucast a) 0x1000 5"
    using memmove_moves [of "0x1002" 5 "0x1000" "\<lambda>a. ucast a"] by simp
  also have "\<dots> = [0, 1, 2, 3, 4]" by code_simp
  finally show ?thesis .
qed

text \<open>
  \<open>memcpy\<close> and \<open>memset\<close>, which work on words of four bytes and then on the remaining bytes, do
  what copying and filling byte by byte do, for every length and alignment.
\<close>

theorem word_loops_are_byte_loops:
  assumes "n \<le> 2 ^ 32" and "disjoint_blocks dst n src n"
  shows "memcpy dst src n m = movsb n dst src m \<and> memset dst c n m = stosb n dst (word_of_int c) m"
  using assms by (simp add: memcpy_copied movsb_copied safe_up_disjoint memset_filled stosb_filled)

lemma blocks_apart_example: "disjoint_blocks 0x1000 7 0x2000 7"
proof -
  have "a - 0x2000 = (a - 0x1000) - (0x1000 :: u32)" for a by simp
  then have "\<not> (unat (a - 0x1000) < 7 \<and> unat (a - 0x2000) < 7)" for a :: u32
  proof -
    define b where "b = a - 0x1000"
    have e: "a - 0x2000 = b - 0x1000" by (simp add: b_def)
    have "\<not> (unat b < 7 \<and> unat (b - 0x1000) < 7)"
    proof
      assume h: "unat b < 7 \<and> unat (b - 0x1000) < 7"
      have "unat (b - 0x1000 + 0x1000) = unat (b - 0x1000) + 0x1000"
        using unat_plus_of_nat [of "b - 0x1000" "0x1000"] h by simp
      then show False using h by simp
    qed
    then show ?thesis unfolding e b_def [symmetric] .
  qed
  then show ?thesis by (simp add: disjoint_blocks_def in_block_def)
qed

theorem word_loops_are_byte_loops_witness:
  "memcpy 0x1000 0x2000 7 (\<lambda>a. ucast a) = movsb 7 0x1000 0x2000 (\<lambda>a. ucast a) \<and>
   memset 0x1000 (- 1) 7 (\<lambda>_. 0) = stosb 7 0x1000 (- 1) (\<lambda>_. 0)"
  using word_loops_are_byte_loops [OF _ blocks_apart_example] by simp

text \<open>
  C15. \<open>memmem\<close> finds the first occurrence of the needle, and returns null exactly when there is none,
  although its search skips positions.
\<close>

theorem memmem_finds_the_first:
  assumes "0 < k" and "0 < n"
  shows "case memmem y n x k m of
      None \<Rightarrow> \<forall>j. \<not> (j + k \<le> n \<and> bytes m (y + of_nat j) k = bytes m x k)
    | Some a \<Rightarrow> \<exists>j. a = y + of_nat j \<and> j + k \<le> n \<and> bytes m a k = bytes m x k \<and>
        (\<forall>i<j. bytes m (y + of_nat i) k \<noteq> bytes m x k)"
proof -
  have f: "first_occurrence m y n x k (memmem y n x k m)" by (rule memmem_first [OF assms])
  show ?thesis
  proof (cases "memmem y n x k m")
    case None
    then show ?thesis using f by (simp add: first_occurrence_def occurs_at_def)
  next
    case (Some a)
    then obtain j where "a = y + of_nat j" "occurs_at m y n x k j" "\<forall>i<j. \<not> occurs_at m y n x k i"
      using f by (auto simp: first_occurrence_def)
    then show ?thesis using Some by (auto simp: occurs_at_def)
  qed
qed

theorem memmem_finds_the_first_witness:
  "case memmem 0x1000 6 0x2003 2 (\<lambda>a. ucast a) of
      None \<Rightarrow> False
    | Some a \<Rightarrow> a = 0x1003 \<and> bytes (\<lambda>a. ucast a) a 2 = [3, 4 :: u8]"
proof -
  have e: "memmem 0x1000 6 0x2003 2 (\<lambda>a. ucast a) = Some 0x1003" by code_simp
  have "bytes (\<lambda>a. ucast a) 0x2003 2 = [3, 4 :: u8]" by code_simp
  then show ?thesis using memmem_finds_the_first [of 2 6, where y = "0x1000" and x = "0x2003" and m = "\<lambda>a. ucast a"] e by auto
qed

end
