(* ===== verification/CString.thy ===== *)
theory CString
  imports CMemory
begin

text \<open>
  The functions of \<open>shared/string.c\<close> on strings, and \<open>isspace\<close>. A loop that looks for the final null
  byte need not end in a memory without one: the value is then \<open>None\<close>. Pointers are addresses, null is
  0. \<open>cstr m p s\<close> says that the string \<open>s\<close> and its null byte are at \<open>p\<close>; on such memories every
  function returns, and is the list operation it stands for.
\<close>

section \<open>The functions\<close>

partial_function (option) strlen_end :: "u32 \<Rightarrow> mem8 \<Rightarrow> u32 option" where
  "strlen_end ss m = (if m ss \<noteq> 0 then strlen_end (ss + 1) m else Some ss)"

definition strlen :: "u32 \<Rightarrow> mem8 \<Rightarrow> u32 option" where
  "strlen s m = map_option (\<lambda>ss. ss - s) (strlen_end s m)"

fun strnlen_end :: "u32 \<Rightarrow> nat \<Rightarrow> mem8 \<Rightarrow> u32" where
  "strnlen_end ss 0 m = ss"
| "strnlen_end ss (Suc n) m = (if m ss \<noteq> 0 then strnlen_end (ss + 1) n m else ss)"

definition strnlen :: "u32 \<Rightarrow> nat \<Rightarrow> mem8 \<Rightarrow> u32" where
  "strnlen s n m = strnlen_end s n m - s"

partial_function (option) strchr :: "u32 \<Rightarrow> int \<Rightarrow> mem8 \<Rightarrow> u32 option" where
  "strchr s c m =
     (if m s \<noteq> word_of_int c then (if m s = 0 then Some 0 else strchr (s + 1) c m) else Some s)"

partial_function (option) strrchr_from :: "u32 \<Rightarrow> int \<Rightarrow> u32 \<Rightarrow> mem8 \<Rightarrow> u32 option" where
  "strrchr_from s c found m =
     (if m s \<noteq> 0 then strrchr_from (s + 1) c (if m s = word_of_int c then s else found) m else Some found)"

definition strrchr :: "u32 \<Rightarrow> int \<Rightarrow> mem8 \<Rightarrow> u32 option" where
  "strrchr s c m = strrchr_from s c 0 m"

partial_function (option) strcmp :: "u32 \<Rightarrow> u32 \<Rightarrow> mem8 \<Rightarrow> int option" where
  "strcmp c1 c2 m =
     (let ch = m c1; d = uint ch - uint (m c2)
      in if d \<noteq> 0 \<or> ch = 0 then Some d else strcmp (c1 + 1) (c2 + 1) m)"

fun strncmp :: "u32 \<Rightarrow> u32 \<Rightarrow> nat \<Rightarrow> mem8 \<Rightarrow> int" where
  "strncmp c1 c2 0 m = 0"
| "strncmp c1 c2 (Suc n) m =
     (let ch = m c1; d = uint ch - uint (m c2)
      in if d \<noteq> 0 \<or> ch = 0 then d else strncmp (c1 + 1) (c2 + 1) n m)"

partial_function (option) strcpy :: "u32 \<Rightarrow> u32 \<Rightarrow> mem8 \<Rightarrow> mem8 option" where
  "strcpy q p m =
     (let ch = m p; m1 = m(q := ch) in if ch \<noteq> 0 then strcpy (q + 1) (p + 1) m1 else Some m1)"

text \<open>\<open>strncpy\<close> fills the rest of the buffer with null bytes.\<close>

fun strncpy :: "u32 \<Rightarrow> u32 \<Rightarrow> nat \<Rightarrow> mem8 \<Rightarrow> mem8" where
  "strncpy q p 0 m = memset q 0 0 m"
| "strncpy q p (Suc n) m =
     (let ch = m p; m1 = m(q := ch)
      in if ch = 0 then memset (q + 1) 0 n m1 else strncpy (q + 1) (p + 1) n m1)"

definition strcat :: "u32 \<Rightarrow> u32 \<Rightarrow> mem8 \<Rightarrow> mem8 option" where
  "strcat dst src m = Option.bind (strchr dst 0 m) (\<lambda>q. strcpy q src m)"

fun strncat_from :: "u32 \<Rightarrow> u32 \<Rightarrow> nat \<Rightarrow> mem8 \<Rightarrow> mem8" where
  "strncat_from q p 0 m = m(q := 0)"
| "strncat_from q p (Suc n) m =
     (let ch = m p; m1 = m(q := ch) in if ch = 0 then m1 else strncat_from (q + 1) (p + 1) n m1)"

definition strncat :: "u32 \<Rightarrow> u32 \<Rightarrow> nat \<Rightarrow> mem8 \<Rightarrow> mem8 option" where
  "strncat dst src n m = map_option (\<lambda>q. strncat_from q src n m) (strchr dst 0 m)"

text \<open>\<open>strlcat\<close>: the end of what is there, then the copy of what fits; it returns the length it tried.\<close>

fun strlcat_end :: "nat \<Rightarrow> u32 \<Rightarrow> nat \<Rightarrow> mem8 \<Rightarrow> nat \<times> u32" where
  "strlcat_end nb q 0 m = (nb, q)"
| "strlcat_end nb q (Suc k) m = (if m q \<noteq> 0 then strlcat_end (nb + 1) (q + 1) k m else (nb, q))"

partial_function (option) strlcat_copy :: "nat \<Rightarrow> nat \<Rightarrow> u32 \<Rightarrow> u32 \<Rightarrow> mem8 \<Rightarrow> (nat \<times> mem8) option" where
  "strlcat_copy nb sz q p m =
     (let ch = m p
      in if ch = 0 then Some (nb, m(q := 0))
         else if nb + 1 < sz then strlcat_copy (nb + 1) sz (q + 1) (p + 1) (m(q := ch))
         else strlcat_copy (nb + 1) sz q (p + 1) m)"

definition strlcat :: "u32 \<Rightarrow> u32 \<Rightarrow> nat \<Rightarrow> mem8 \<Rightarrow> (nat \<times> mem8) option" where
  "strlcat dst src sz m =
     (case strlcat_end 0 dst sz m of (nb, q) \<Rightarrow>
        if nb = sz then map_option (\<lambda>l. (nb + unat l, m)) (strlen src m)
        else strlcat_copy nb sz q src m)"

text \<open>\<open>__strxspn\<close>: the table of 256 flags, whose first entry is the parity, then the span.\<close>

partial_function (option) mark_map :: "u32 \<Rightarrow> (u8 \<Rightarrow> bool) \<Rightarrow> mem8 \<Rightarrow> (u8 \<Rightarrow> bool) option" where
  "mark_map p f m = (if m p \<noteq> 0 then mark_map (p + 1) (f(m p := True)) m else Some f)"

partial_function (option) span_from :: "u32 \<Rightarrow> (u8 \<Rightarrow> bool) \<Rightarrow> bool \<Rightarrow> nat \<Rightarrow> mem8 \<Rightarrow> nat option" where
  "span_from s f parity n m = (if f (m s) \<noteq> parity then span_from (s + 1) f parity (n + 1) m else Some n)"

definition strxspn :: "u32 \<Rightarrow> u32 \<Rightarrow> bool \<Rightarrow> mem8 \<Rightarrow> nat option" where
  "strxspn s set_p parity m =
     Option.bind (mark_map set_p (\<lambda>_. False) m) (\<lambda>f. span_from s (f(0 := parity)) parity 0 m)"

definition strspn :: "u32 \<Rightarrow> u32 \<Rightarrow> mem8 \<Rightarrow> nat option" where
  "strspn s accept m = strxspn s accept False m"

definition strcspn :: "u32 \<Rightarrow> u32 \<Rightarrow> mem8 \<Rightarrow> nat option" where
  "strcspn s reject m = strxspn s reject True m"

definition strpbrk :: "u32 \<Rightarrow> u32 \<Rightarrow> mem8 \<Rightarrow> u32 option" where
  "strpbrk s accept m =
     map_option (\<lambda>n. let ss = s + of_nat n in if m ss \<noteq> 0 then ss else 0) (strxspn s accept True m)"

text \<open>The result, the new value of \<open>*stringp\<close> and the memory; \<open>strtok\<close> keeps \<open>*stringp\<close> between calls.\<close>

definition strsep :: "u32 \<Rightarrow> u32 \<Rightarrow> mem8 \<Rightarrow> (u32 \<times> u32 \<times> mem8) option" where
  "strsep s delim m =
     (if s = 0 then Some (0, s, m)
      else map_option (\<lambda>e. if e \<noteq> 0 then (s, e + 1, m(e := 0)) else (s, 0, m)) (strpbrk s delim m))"

definition strtok :: "u32 \<Rightarrow> u32 \<Rightarrow> u32 \<Rightarrow> mem8 \<Rightarrow> (u32 \<times> u32 \<times> mem8) option" where
  "strtok s delim holder m = strsep (if s \<noteq> 0 then s else holder) delim m"

definition strstr :: "u32 \<Rightarrow> u32 \<Rightarrow> mem8 \<Rightarrow> u32 option" where
  "strstr haystack needle m =
     Option.bind (strlen haystack m) (\<lambda>n. Option.bind (strlen needle m) (\<lambda>k.
       Some (case memmem haystack (unat n) needle (unat k) m of None \<Rightarrow> 0 | Some a \<Rightarrow> a)))"

definition isspace :: "u8 \<Rightarrow> bool" where
  "isspace c \<longleftrightarrow> c = 32 \<or> c = 12 \<or> c = 10 \<or> c = 13 \<or> c = 9 \<or> c = 11"

text \<open>The loops are executable.\<close>

declare strlen_end.simps [code] strchr.simps [code] strrchr_from.simps [code] strcmp.simps [code] strcpy.simps [code] strlcat_copy.simps [code] mark_map.simps [code] span_from.simps [code]

section \<open>Strings in memory\<close>

fun cstr :: "mem8 \<Rightarrow> u32 \<Rightarrow> u8 list \<Rightarrow> bool" where
  "cstr m p [] \<longleftrightarrow> m p = 0"
| "cstr m p (c # s) \<longleftrightarrow> c \<noteq> 0 \<and> m p = c \<and> cstr m (p + 1) s"

lemma cstr_bytes: "cstr m p s \<longleftrightarrow> 0 \<notin> set s \<and> bytes m p (length s) = s \<and> m (p + of_nat (length s)) = 0"
  by (induction s arbitrary: p) (auto simp: add.assoc)

lemma cstr_append: "cstr m p (s @ t) \<longleftrightarrow> 0 \<notin> set s \<and> bytes m p (length s) = s \<and> cstr m (p + of_nat (length s)) t"
  by (induction s arbitrary: p) (auto simp: add.assoc)

lemma cstr_unique: "cstr m p s \<Longrightarrow> cstr m p t \<Longrightarrow> s = t"
proof (induction s arbitrary: p t)
  case Nil
  then show ?case by (cases t) auto
next
  case (Cons c s)
  then show ?case by (cases t) auto
qed

lemma cstr_cong: "cstr m p s \<Longrightarrow> (\<And>i. i \<le> length s \<Longrightarrow> m' (q + of_nat i) = m (p + of_nat i)) \<Longrightarrow> cstr m' q s"
proof (induction s arbitrary: p q)
  case Nil
  then show ?case by (auto dest: meta_spec [where x = 0])
next
  case (Cons c s)
  have "cstr m' (q + 1) s" using Cons.IH [of "p + 1" "q + 1"] Cons.prems(1) Cons.prems(2) [of "Suc _"] by (simp add: add.assoc)
  then show ?case using Cons.prems(1) Cons.prems(2) [of 0] by simp
qed

lemma strlen_end_cstr: "cstr m p s \<Longrightarrow> strlen_end p m = Some (p + of_nat (length s))"
  by (induction s arbitrary: p) (simp_all add: strlen_end.simps add.assoc)

lemma strlen_cstr: "cstr m p s \<Longrightarrow> strlen p m = Some (of_nat (length s))"
  by (simp add: strlen_def strlen_end_cstr)

lemma strchr_nul: "cstr m p s \<Longrightarrow> strchr p 0 m = Some (p + of_nat (length s))"
  by (induction s arbitrary: p) (simp_all add: strchr.simps add.assoc)

text \<open>The first difference of two strings, as \<open>strcmp\<close> returns it.\<close>

fun first_diff :: "u8 list \<Rightarrow> u8 list \<Rightarrow> int" where
  "first_diff [] [] = 0"
| "first_diff [] (d # t) = - uint d"
| "first_diff (c # s) [] = uint c"
| "first_diff (c # s) (d # t) = (if c \<noteq> d then uint c - uint d else first_diff s t)"

lemma uint_0_iff: "uint (c :: u8) = 0 \<longleftrightarrow> c = 0"
  using uint_eq_iff [of c 0] by simp

lemma strcmp_first_diff: "cstr m p s \<Longrightarrow> cstr m q t \<Longrightarrow> strcmp p q m = Some (first_diff s t)"
proof (induction s t arbitrary: p q rule: first_diff.induct)
  case (4 c s d t)
  then show ?case by (auto simp: strcmp.simps [of p] Let_def uint_eq_iff)
qed (auto simp: strcmp.simps Let_def uint_0_iff)

lemma first_diff_zero: "0 \<notin> set s \<Longrightarrow> 0 \<notin> set t \<Longrightarrow> first_diff s t = 0 \<longleftrightarrow> s = t"
  by (induction s t rule: first_diff.induct) (auto simp: uint_0_iff uint_eq_iff)

lemma first_diff_antisym: "first_diff t s = - first_diff s t"
  by (induction s t rule: first_diff.induct) auto


section \<open>Copies and spans\<close>

lemma cstr_upd: "\<forall>i\<le>length s. a \<noteq> p + of_nat i \<Longrightarrow> cstr (m(a := c)) p s = cstr m p s"
proof (induction s arbitrary: p)
  case (Cons d s)
  have "a \<noteq> p" using Cons.prems by (auto dest: spec [where x = 0])
  moreover have "\<forall>i\<le>length s. a \<noteq> p + 1 + of_nat i"
  proof (intro allI impI)
    fix i assume "i \<le> length s"
    then show "a \<noteq> p + 1 + of_nat i" using Cons.prems by (auto dest: spec [where x = "Suc i"] simp: ac_simps)
  qed
  ultimately show ?case using Cons.IH [of "p + 1"] by simp
qed (auto dest: spec [where x = 0])

lemma strcpy_movsb:
  assumes "cstr m p s" and "apart (Suc (length s)) q p"
  shows "strcpy q p m = Some (movsb (Suc (length s)) q p m)"
  using assms
proof (induction s arbitrary: q p m)
  case Nil
  then show ?case by (simp add: strcpy.simps fun_upd_def)
next
  case (Cons c s)
  have ap: "apart (1 + Suc (length s)) q p" using Cons.prems by simp
  have "p + of_nat (Suc i) \<noteq> q + of_nat 0" if "i \<le> length s" for i
    using ap that unfolding apart_def by (metis Suc_eq_plus1_left less_Suc_eq_le not_less_eq zero_less_Suc)
  then have s: "cstr (m(q := c)) (p + 1) s" using Cons.prems(1) by (subst cstr_upd) (auto simp: add.assoc)
  have "apart (Suc (length s)) (q + 1) (p + 1)" using apart_step [OF ap] by simp
  note ih = Cons.IH [OF s this]
  have "strcpy q p m = strcpy (q + 1) (p + 1) (m(q := c))" using Cons.prems(1) by (simp add: strcpy.simps [of q] Let_def)
  moreover have "movsb (Suc (Suc (length s))) q p m = movsb (Suc (length s)) (q + 1) (p + 1) (m(q := m p))"
    by (rule movsb.simps)
  moreover have "m p = c" using Cons.prems(1) by simp
  ultimately show ?case using ih by (simp only: list.size add_0_right add_Suc_right)
qed

lemma mark_map_cstr: "cstr m p s \<Longrightarrow> mark_map p f m = Some (\<lambda>c. c \<in> set s \<or> f c)"
  by (induction s arbitrary: p f) (auto simp: mark_map.simps fun_eq_iff)

lemma span_from_cstr: "cstr m p s \<Longrightarrow> f 0 = parity \<Longrightarrow>
    span_from p f parity n m = Some (n + length (takeWhile (\<lambda>c. f c \<noteq> parity) s))"
  by (induction s arbitrary: p n) (simp_all add: span_from.simps)

lemma takeWhile_upd: "0 \<notin> set s \<Longrightarrow> takeWhile (\<lambda>c. (f(0 := b)) c \<noteq> b) s = takeWhile (\<lambda>c. f c \<noteq> b) s" for s :: "u8 list"
  by (rule takeWhile_cong) auto

lemma strxspn_cstr:
  assumes "cstr m p s" and "cstr m q d"
  shows "strxspn p q b m = Some (length (takeWhile (\<lambda>c. (c \<in> set d) \<noteq> b) s))"
proof -
  have "0 \<notin> set s" using assms(1) by (simp add: cstr_bytes)
  then show ?thesis
    using span_from_cstr [OF assms(1), of "(\<lambda>c. c \<in> set d)(0 := b)" b 0] takeWhile_upd [of s "\<lambda>c. c \<in> set d" b]
    by (simp add: strxspn_def mark_map_cstr [OF assms(2)])
qed

lemma strspn_cstr: "cstr m p s \<Longrightarrow> cstr m q d \<Longrightarrow> strspn p q m = Some (length (takeWhile (\<lambda>c. c \<in> set d) s))"
  by (simp add: strspn_def strxspn_cstr)

lemma strcspn_cstr: "cstr m p s \<Longrightarrow> cstr m q d \<Longrightarrow> strcspn p q m = Some (length (takeWhile (\<lambda>c. c \<notin> set d) s))"
  by (simp add: strcspn_def strxspn_cstr)

section \<open>Tokens\<close>

text \<open>A memory in which the string does not wrap around to address 0.\<close>

definition fits :: "u32 \<Rightarrow> u8 list \<Rightarrow> bool" where
  "fits p s \<longleftrightarrow> p \<noteq> 0 \<and> unat p + length s < 2 ^ 32"

lemma fits_nonzero: "fits p s \<Longrightarrow> i \<le> length s \<Longrightarrow> p + of_nat i \<noteq> 0"
proof
  assume f: "fits p s" "i \<le> length s" and e: "p + of_nat i = 0"
  have "unat (p + of_nat i) = unat p + i" using f by (intro unat_plus_of_nat) (simp add: fits_def)
  then show False using e f by (simp add: fits_def unat_eq_0)
qed

lemma strpbrk_cstr:
  assumes s: "cstr m p s" and d: "cstr m q d" and f: "fits p s"
  shows "strpbrk p q m = Some (if set s \<inter> set d = {} then 0 else p + of_nat (length (takeWhile (\<lambda>c. c \<notin> set d) s)))"
proof -
  let ?t = "takeWhile (\<lambda>c. c \<notin> set d) s"
  have e: "s = ?t @ dropWhile (\<lambda>c. c \<notin> set d) s" by simp
  have c: "cstr m (p + of_nat (length ?t)) (dropWhile (\<lambda>c. c \<notin> set d) s)"
    using s cstr_append [of m p ?t "dropWhile (\<lambda>c. c \<notin> set d) s"] by simp
  show ?thesis
  proof (cases "dropWhile (\<lambda>c. c \<notin> set d) s")
    case Nil
    then have "set s \<inter> set d = {}" by (auto simp: dropWhile_eq_Nil_conv)
    then show ?thesis using c Nil s d by (simp add: strpbrk_def strxspn_cstr Let_def)
  next
    case (Cons x r)
    have "x \<in> set d" using Cons hd_dropWhile [of "\<lambda>c. c \<notin> set d" s] by auto
    moreover have "x \<in> set s" using Cons set_dropWhileD [of x "\<lambda>c. c \<notin> set d" s] by simp
    ultimately have "set s \<inter> set d \<noteq> {}" by auto
    then show ?thesis using c Cons s d by (simp add: strpbrk_def strxspn_cstr Let_def)
  qed
qed

lemma cstr_cut:
  assumes "cstr m p s" and "fits p s" and "k < length s"
  shows "cstr (m(p + of_nat k := 0)) p (take k s)" and "cstr (m(p + of_nat k := 0)) (p + of_nat k + 1) (drop (Suc k) s)"
proof -
  let ?m = "m(p + of_nat k := 0)"
  have b: "bytes m p (length s) = s" "0 \<notin> set s" "m (p + of_nat (length s)) = 0" using assms(1) by (auto simp: cstr_bytes)
  have l: "length s < 2 ^ 32" using assms(2) by (simp add: fits_def)
  have ne: "p + of_nat i \<noteq> p + of_nat k" if "i \<le> length s" "i \<noteq> k" for i
    using of_nat32_inj [of i k] that assms(3) l by simp
  have n: "m (p + of_nat i) = s ! i" if "i < length s" for i using that b(1) nth_bytes [of i "length s" m p] by simp
  have "bytes ?m p k = take k s"
  proof (rule nth_equalityI)
    show "length (bytes ?m p k) = length (take k s)" using assms(3) by simp
    fix i assume "i < length (bytes ?m p k)"
    then show "bytes ?m p k ! i = take k s ! i" using ne [of i] n [of i] assms(3) by (simp add: nth_bytes)
  qed
  moreover have "0 \<notin> set (take k s)" using b(2) by (meson in_set_takeD)
  ultimately show "cstr ?m p (take k s)" using assms(3) by (simp add: cstr_bytes)
  have s: "s = take (Suc k) s @ drop (Suc k) s" by simp
  then have c: "cstr m (p + of_nat (Suc k)) (drop (Suc k) s)"
    using assms(1,3) cstr_append [of m p "take (Suc k) s" "drop (Suc k) s"] by simp
  have e: "p + of_nat (Suc k) = p + of_nat k + 1" by (simp add: ac_simps)
  have "cstr ?m (p + of_nat (Suc k)) (drop (Suc k) s) = cstr m (p + of_nat (Suc k)) (drop (Suc k) s)"
  proof (rule cstr_upd, intro allI impI)
    fix i assume "i \<le> length (drop (Suc k) s)"
    then have "p + of_nat (Suc k + i) \<noteq> p + of_nat k" using assms(3) by (intro ne) simp_all
    moreover have "p + of_nat (Suc k + i) = p + of_nat (Suc k) + of_nat i" by (simp only: of_nat_add add.assoc)
    ultimately show "p + of_nat k \<noteq> p + of_nat (Suc k) + of_nat i" by metis
  qed
  then show "cstr ?m (p + of_nat k + 1) (drop (Suc k) s)" using c unfolding e by simp
qed

section \<open>What the string functions promise\<close>

text \<open>
  \<open>strcmp\<close> on two strings returns, is 0 exactly when they are equal, and changes its sign when its
  arguments are swapped; its value is the difference of the first two bytes that differ.
\<close>

theorem strcmp_compares:
  assumes "cstr m p s" and "cstr m q t"
  shows "\<exists>d. strcmp p q m = Some d \<and> strcmp q p m = Some (- d) \<and> (d = 0 \<longleftrightarrow> s = t) \<and> d = first_diff s t"
proof -
  have "0 \<notin> set s" "0 \<notin> set t" using assms by (simp_all add: cstr_bytes)
  then show ?thesis using strcmp_first_diff [OF assms] strcmp_first_diff [OF assms(2,1)] first_diff_zero
      first_diff_antisym [of t s] by simp
qed

definition hello :: mem8 where
  "hello = (\<lambda>_. 0)(0x100 := 97, 0x101 := 44, 0x102 := 98, 0x200 := 44)"

lemma hello_strings: "cstr hello 0x100 [97, 44, 98]" "cstr hello 0x200 [44]"
  by (simp_all add: hello_def)

theorem strcmp_compares_witness: "\<exists>d. strcmp 0x100 0x200 hello = Some d \<and> d = 53"
  using strcmp_compares [OF hello_strings] by auto

text \<open>
  \<open>strcpy\<close> of a string to a block apart from it returns and leaves the string, with its null byte,
  at the destination, and changes nothing else.
\<close>

theorem strcpy_copies:
  assumes "cstr m p s" and "length s < 2 ^ 32" and "disjoint_blocks q (Suc (length s)) p (Suc (length s))"
  shows "\<exists>m'. strcpy q p m = Some m' \<and> cstr m' q s \<and> (\<forall>a. \<not> in_block a q (Suc (length s)) \<longrightarrow> m' a = m a)"
proof -
  let ?n = "Suc (length s)"
  let ?m = "copied ?n q p m"
  have n: "?n \<le> 2 ^ 32" using assms(2) by simp
  have "strcpy q p m = Some ?m"
    using strcpy_movsb [OF assms(1)] apart_disjoint [OF n] movsb_copied [OF n safe_up_disjoint [OF assms(3) n]] assms(3) by simp
  moreover have "?m (q + of_nat i) = m (p + of_nat i)" if "i \<le> length s" for i
    using that n by (simp add: copied_def)
  then have "bytes ?m q (length s) = bytes m p (length s)" "?m (q + of_nat (length s)) = m (p + of_nat (length s))"
    by (auto intro: bytes_eqI)
  then have "cstr ?m q s" using assms(1) by (simp add: cstr_bytes)
  ultimately show ?thesis by (auto simp: copied_def)
qed

lemma strings_apart_example: "disjoint_blocks 0x300 4 0x100 4"
proof -
  have "\<not> (unat (a - 0x300) < 4 \<and> unat (a - 0x100) < 4)" for a :: u32
  proof
    assume h: "unat (a - 0x300) < 4 \<and> unat (a - 0x100) < 4"
    have "unat (a - 0x300 + of_nat 0x200) = unat (a - 0x300) + 0x200" using h by (intro unat_plus_of_nat) simp
    moreover have "a - 0x300 + of_nat 0x200 = a - 0x100" by simp
    ultimately show False using h by simp
  qed
  then show ?thesis by (simp add: disjoint_blocks_def in_block_def)
qed

theorem strcpy_copies_witness: "\<exists>m'. strcpy 0x300 0x100 hello = Some m' \<and> cstr m' 0x300 [97, 44, 98]"
proof -
  have "disjoint_blocks 0x300 (Suc (length [97, 44, 98 :: u8])) 0x100 (Suc (length [97, 44, 98 :: u8]))"
    using strings_apart_example by (simp add: eval_nat_numeral)
  then have "\<exists>m'. strcpy 0x300 0x100 hello = Some m' \<and> cstr m' 0x300 [97, 44, 98] \<and>
      (\<forall>a. \<not> in_block a 0x300 (Suc (length [97, 44, 98 :: u8])) \<longrightarrow> m' a = hello a)"
    by (intro strcpy_copies [OF hello_strings(1)]) simp_all
  then show ?thesis by blast
qed

text \<open>
  \<open>strsep\<close> cuts a string at its first delimiter: the token is what comes before it, and the next call
  starts behind it; without a delimiter the token is the whole string and there is no next call.
\<close>

theorem strsep_cuts_at_the_delimiter:
  assumes s: "cstr m p s" and d: "cstr m q d" and f: "fits p s"
  shows "if set s \<inter> set d = {} then strsep p q m = Some (p, 0, m)
    else \<exists>m' r. strsep p q m = Some (p, r, m') \<and> r \<noteq> 0 \<and> cstr m' p (takeWhile (\<lambda>c. c \<notin> set d) s) \<and>
      cstr m' r (tl (dropWhile (\<lambda>c. c \<notin> set d) s))"
proof (cases "set s \<inter> set d = {}")
  case True
  then show ?thesis using f strpbrk_cstr [OF assms] by (simp add: strsep_def fits_def)
next
  case False
  let ?k = "length (takeWhile (\<lambda>c. c \<notin> set d) s)"
  have k: "?k < length s"
  proof -
    have "dropWhile (\<lambda>c. c \<notin> set d) s \<noteq> []" using False by (auto simp: dropWhile_eq_Nil_conv)
    moreover have "?k + length (dropWhile (\<lambda>c. c \<notin> set d) s) = length s"
      unfolding length_append [symmetric] takeWhile_dropWhile_id ..
    ultimately show ?thesis by (cases "dropWhile (\<lambda>c. c \<notin> set d) s") simp_all
  qed
  have nz: "p + of_nat ?k \<noteq> 0" using fits_nonzero [OF f, of ?k] k by simp
  have nz1: "p + of_nat ?k + 1 \<noteq> 0" using fits_nonzero [OF f, of "Suc ?k"] k by (simp add: ac_simps)
  have tw: "take ?k s = takeWhile (\<lambda>c. c \<notin> set d) s" by (metis takeWhile_eq_take)
  have dw: "drop (Suc ?k) s = tl (dropWhile (\<lambda>c. c \<notin> set d) s)" by (metis drop_Suc dropWhile_eq_drop drop_tl)
  have "p \<noteq> 0" using f by (simp add: fits_def)
  then have "strsep p q m = Some (p, p + of_nat ?k + 1, m(p + of_nat ?k := 0))"
    using strpbrk_cstr [OF assms] False nz by (simp add: strsep_def)
  then show ?thesis unfolding if_not_P [OF False]
    using nz1 cstr_cut [OF s f k, unfolded tw dw] by blast
qed

theorem strsep_cuts_at_the_delimiter_witness:
  "\<exists>m' r. strsep 0x100 0x200 hello = Some (0x100, r, m') \<and> cstr m' 0x100 [97] \<and> cstr m' r [98]"
  using strsep_cuts_at_the_delimiter [OF hello_strings] by (auto simp: fits_def)

end
