(* ===== verification/Strtol.thy ===== *)
theory Strtol
  imports CString
begin

text \<open>
  \<open>shared/strtol.c\<close> and \<open>shared/strtoul.c\<close>: the value is kept in 32 bits and wraps around; the result
  is the value and the address of the first character that was not read. \<open>strtol\<close> does not step over a
  plus sign.
\<close>

section \<open>The functions\<close>

text \<open>The three ranges of digit characters.\<close>

definition digit_of :: "u8 \<Rightarrow> int \<Rightarrow> int option" where
  "digit_of c base =
     (if 48 \<le> c \<and> c \<le> 57 \<and> uint c - 48 < base then Some (uint c - 48)
      else if 97 \<le> c \<and> c \<le> 122 \<and> uint c - 97 + 10 < base then Some (uint c - 97 + 10)
      else if 65 \<le> c \<and> c \<le> 90 \<and> uint c - 65 + 10 < base then Some (uint c - 65 + 10)
      else None)"

partial_function (option) skip_space :: "u32 \<Rightarrow> mem8 \<Rightarrow> u32 option" where
  "skip_space p m = (if isspace (m p) then skip_space (p + 1) m else Some p)"

partial_function (option) read_digits :: "u32 \<Rightarrow> int \<Rightarrow> u32 \<Rightarrow> mem8 \<Rightarrow> (u32 \<times> u32) option" where
  "read_digits p base v m =
     (case digit_of (m p) base of
        None \<Rightarrow> Some (v, p)
      | Some d \<Rightarrow> read_digits (p + 1) base (v * word_of_int base + word_of_int d) m)"

text \<open>The prefix \<open>0x\<close>, and the base that 0 stands for.\<close>

definition read_base :: "u32 \<Rightarrow> int \<Rightarrow> mem8 \<Rightarrow> u32 \<times> int" where
  "read_base p base m =
     (let (p, base) = (if (base = 16 \<or> base = 0) \<and> m p = 48 \<and> (m (p + 1) = 120 \<or> m (p + 1) = 88)
                       then (p + 2, 16) else (p, base))
      in (p, if base = 0 then (if m p = 48 then 8 else 10) else base))"

definition strtoul :: "u32 \<Rightarrow> int \<Rightarrow> mem8 \<Rightarrow> (u32 \<times> u32) option" where
  "strtoul p base m =
     Option.bind (skip_space p m) (\<lambda>p. case read_base p base m of (p, base) \<Rightarrow> read_digits p base 0 m)"

definition strtol :: "u32 \<Rightarrow> int \<Rightarrow> mem8 \<Rightarrow> (u32 \<times> u32) option" where
  "strtol p base m =
     Option.bind (skip_space p m) (\<lambda>p.
       let (is_neg, p) = (if m p = 45 then (True, p + 1) else (False, p))
       in case read_base p base m of (p, base) \<Rightarrow>
            map_option (\<lambda>(v, p). (if is_neg then - v else v, p)) (read_digits p base 0 m))"

text \<open>The loops are executable.\<close>

declare skip_space.simps [code] read_digits.simps [code]

section \<open>Their values\<close>

text \<open>The number a list of digits denotes.\<close>

definition number_of :: "int \<Rightarrow> int list \<Rightarrow> int \<Rightarrow> int" where
  "number_of base ds v = foldl (\<lambda>v d. v * base + d) v ds"

lemma read_digits_cstr:
  assumes "cstr m p s" and "map (\<lambda>c. digit_of c base) s = map Some ds"
  shows "read_digits p base (word_of_int v) m = Some (word_of_int (number_of base ds v), p + of_nat (length s))"
  using assms
proof (induction s arbitrary: p ds v)
  case Nil
  then have "digit_of (m p) base = None" by (simp add: digit_of_def)
  then show ?case using Nil by (simp add: read_digits.simps number_of_def)
next
  case (Cons c s)
  then obtain d es where ds: "ds = d # es" "digit_of c base = Some d" "map (\<lambda>c. digit_of c base) s = map Some es" by auto
  have "word_of_int v * word_of_int base + word_of_int d = (word_of_int (v * base + d) :: u32)" by simp
  then have "read_digits p base (word_of_int v) m = read_digits (p + 1) base (word_of_int (v * base + d)) m"
    using Cons.prems(1) ds(2) by (simp add: read_digits.simps [of p])
  also have "\<dots> = Some (word_of_int (number_of base es (v * base + d)), p + 1 + of_nat (length s))"
    using Cons.prems(1) by (intro Cons.IH ds(3)) simp
  finally show ?case by (simp add: ds(1) number_of_def add.assoc)
qed

lemma digit_not_space: "digit_of c base = Some d \<Longrightarrow> \<not> isspace c"
  by (auto simp: digit_of_def isspace_def split: if_splits)

lemma digit_not_minus: "digit_of c base = Some d \<Longrightarrow> c \<noteq> 45"
  by (auto simp: digit_of_def split: if_splits)

lemma skip_space_digit: "digit_of (m p) base = Some d \<Longrightarrow> skip_space p m = Some p"
  using digit_not_space by (simp add: skip_space.simps)

lemma read_base_plain: "base \<noteq> 0 \<Longrightarrow> base \<noteq> 16 \<Longrightarrow> read_base p base m = (p, base)"
  by (simp add: read_base_def)

lemma strtoul_digits:
  assumes "cstr m p s" and "map (\<lambda>c. digit_of c base) s = map Some ds" and "s \<noteq> []" and "base \<noteq> 0" and "base \<noteq> 16"
  shows "strtoul p base m = Some (word_of_int (number_of base ds 0), p + of_nat (length s))"
proof -
  obtain c r d es where c: "s = c # r" "ds = d # es" using assms(2,3) by (cases s; cases ds) auto
  then have d: "digit_of (m p) base = Some d" using assms(1,2) by auto
  show ?thesis using skip_space_digit [where m = m and p = p, OF d] read_digits_cstr [OF assms(1,2), of 0] assms(4,5)
    by (simp add: strtoul_def read_base_plain)
qed

text \<open>
  \<open>strtoul\<close> on a string of digits of its base reads all of it and returns the number it denotes
  modulo 2^32; \<open>strtol\<close> does the same, and negates it after a minus sign.
\<close>

theorem strtoul_reads_numbers:
  assumes "cstr m p s" and "map (\<lambda>c. digit_of c base) s = map Some ds" and "s \<noteq> []" and "base \<noteq> 0" and "base \<noteq> 16"
  shows "strtoul p base m = Some (word_of_int (number_of base ds 0), p + of_nat (length s)) \<and>
    strtol p base m = Some (word_of_int (number_of base ds 0), p + of_nat (length s)) \<and>
    (m (p - 1) = 45 \<longrightarrow> strtol (p - 1) base m = Some (- word_of_int (number_of base ds 0), p + of_nat (length s)))"
proof -
  obtain c r d es where c: "s = c # r" "ds = d # es" using assms(2,3) by (cases s; cases ds) auto
  then have d: "digit_of (m p) base = Some d" "m p = c" using assms(1,2) by auto
  have r: "read_digits p base 0 m = Some (word_of_int (number_of base ds 0), p + of_nat (length s))"
    using read_digits_cstr [OF assms(1,2), of 0] by simp
  have n: "m p \<noteq> 45" using d digit_not_minus by auto
  have s45: "skip_space (p - 1) m = Some (p - 1)" if "m (p - 1) = 45"
    using that by (simp add: skip_space.simps isspace_def)
  show ?thesis using skip_space_digit [where m = m and p = p, OF d(1)] r n s45 assms(4,5)
    by (simp add: strtoul_digits [OF assms] strtol_def read_base_plain)
qed

definition forty_two :: mem8 where
  "forty_two = (\<lambda>_. 0)(0xFF := 45, 0x100 := 52, 0x101 := 50)"

theorem strtoul_reads_numbers_witness:
  "strtoul 0x100 10 forty_two = Some (42, 0x102) \<and> strtol 0xFF 10 forty_two = Some (- 42, 0x102)"
  using strtoul_reads_numbers [of forty_two "0x100" "[52, 50]" 10 "[4, 2]"]
  by (simp add: forty_two_def digit_of_def number_of_def)

text \<open>
  \<open>strtol\<close> does not accept an explicit plus sign: it returns 0 and reads nothing.
\<close>

theorem strtol_rejects_plus:
  assumes "m p = 43"
  shows "strtol p base m = Some (0, p)"
proof -
  have "skip_space p m = Some p" using assms by (simp add: skip_space.simps isspace_def)
  moreover have "digit_of 43 b = None" for b by (simp add: digit_of_def)
  then have "read_digits p b 0 m = Some (0, p)" for b using assms by (simp add: read_digits.simps)
  moreover have "fst (read_base p base m) = p" using assms by (simp add: read_base_def)
  ultimately show ?thesis using assms by (cases "read_base p base m") (simp add: strtol_def)
qed

theorem strtol_rejects_plus_witness: "strtol 0x100 10 ((\<lambda>_. 0)(0x100 := 43, 0x101 := 53)) = Some (0, 0x100)"
  by (rule strtol_rejects_plus) simp

end
