(* ===== verification/Doprnt.thy ===== *)
theory Doprnt
  imports Strtol
begin

text \<open>
  \<open>shared/doprnt.c\<close>: formatted output. The format is the list of its characters up to the null byte,
  the arguments are a list of words and strings (\<open>va_arg\<close> of the wrong kind, or past the last one, is
  \<open>Inl Out_Of_Bounds\<close>), and the result is the sequence of characters handed to \<open>putc\<close>. Characters are
  signed. \<open>DOPRNT_FLOATS\<close> is not defined, and \<open>_doprnt_truncates\<close> is false. A shift by a count the
  language leaves undefined is the shift of the processor, which masks the count.
\<close>

section \<open>Numbers\<close>

text \<open>The table of digits with its null byte, and the buffer of 32 characters filled from its end.\<close>

definition digs :: "u8 list" where
  "digs = [48, 49, 50, 51, 52, 53, 54, 55, 56, 57, 97, 98, 99, 100, 101, 102, 0]"

fun num_digits :: "nat \<Rightarrow> u32 \<Rightarrow> u32 \<Rightarrow> u8 list \<Rightarrow> u8 list res" where
  "num_digits 0 u base buf = Inl Out_Of_Bounds"
| "num_digits (Suc room) u base buf =
     (if base = 0 then Inl Divide_Error
      else if u mod base > 16 then Inl Out_Of_Bounds
      else let buf' = digs ! unat (u mod base) # buf; u' = u div base
        in if u' \<noteq> 0 then num_digits room u' base buf' else Inr buf')"

definition printnum :: "u32 \<Rightarrow> int \<Rightarrow> u8 list res" where
  "printnum u base = num_digits 32 u (word_of_int base) []"

section \<open>Conversion specifications\<close>

datatype arg = A_word u32 | A_str "u8 list option"

record spec =
  altfmt :: bool
  ladjust :: bool
  plus_sign :: u8
  padc :: u8
  field_len :: int
  prec :: int

definition no_spec :: spec where
  "no_spec = \<lparr>altfmt = False, ladjust = False, plus_sign = 0, padc = 32, field_len = 0, prec = - 1\<rparr>"

fun arg_word :: "arg list \<Rightarrow> (u32 \<times> arg list) res" where
  "arg_word (A_word w # args) = Inr (w, args)"
| "arg_word _ = Inl Out_Of_Bounds"

fun arg_str :: "arg list \<Rightarrow> (u8 list option \<times> arg list) res" where
  "arg_str (A_str s # args) = Inr (s, args)"
| "arg_str _ = Inl Out_Of_Bounds"

fun flags :: "u8 list \<Rightarrow> spec \<Rightarrow> spec \<times> u8 list" where
  "flags [] s = (s, [])"
| "flags (c # f) s =
     (if c = 35 then flags f (s\<lparr>altfmt := True\<rparr>)
      else if c = 45 then flags f (s\<lparr>ladjust := True\<rparr>)
      else if c = 43 then flags f (s\<lparr>plus_sign := 43\<rparr>)
      else if c = 32 then flags f (if plus_sign s = 0 then s\<lparr>plus_sign := 32\<rparr> else s)
      else (s, c # f))"

definition isdigit :: "u8 \<Rightarrow> bool" where "isdigit c \<longleftrightarrow> 48 \<le> c \<and> c \<le> 57"

fun read_num :: "int \<Rightarrow> u8 list \<Rightarrow> int \<times> u8 list" where
  "read_num n [] = (n, [])"
| "read_num n (c # f) = (if isdigit c then read_num (10 * n + (uint c - 48)) f else (n, c # f))"

text \<open>The flag \<open>0\<close>, the field width, the precision and \<open>l\<close>.\<close>

fun zero_flag :: "spec \<times> u8 list \<Rightarrow> spec \<times> u8 list" where
  "zero_flag (s, c # f) = (if c = 48 then (s\<lparr>padc := 48\<rparr>, f) else (s, c # f))"
| "zero_flag (s, []) = (s, [])"

fun width :: "spec \<times> u8 list \<Rightarrow> arg list \<Rightarrow> (spec \<times> u8 list \<times> arg list) res" where
  "width (s, c # f) args =
     (if isdigit c then (case read_num 0 (c # f) of (n, f1) \<Rightarrow> Inr (s\<lparr>field_len := n\<rparr>, f1, args))
      else if c = 42 then bindE (arg_word args) (\<lambda>(w, args1).
        Inr (if sint w < 0 then s\<lparr>ladjust := \<not> ladjust s, field_len := - sint w\<rparr> else s\<lparr>field_len := sint w\<rparr>, f, args1))
      else Inr (s, c # f, args))"
| "width (s, []) args = Inr (s, [], args)"

fun precision :: "spec \<times> u8 list \<times> arg list \<Rightarrow> (spec \<times> u8 list \<times> arg list) res" where
  "precision (s, c # f, args) =
     (if c = 46 then
        (case f of
           d # g \<Rightarrow>
             (if isdigit d then (case read_num 0 (d # g) of (n, f1) \<Rightarrow> Inr (s\<lparr>prec := n\<rparr>, f1, args))
              else if d = 42 then bindE (arg_word args) (\<lambda>(w, args1). Inr (s\<lparr>prec := sint w\<rparr>, g, args1))
              else Inr (s, d # g, args))
         | [] \<Rightarrow> Inr (s, [], args))
      else Inr (s, c # f, args))"
| "precision (s, [], args) = Inr (s, [], args)"

fun long_flag :: "spec \<times> u8 list \<times> arg list \<Rightarrow> spec \<times> u8 list \<times> arg list" where
  "long_flag (s, c # f, args) = (if c = 108 then (s, f, args) else (s, c # f, args))"
| "long_flag (s, [], args) = (s, [], args)"

definition parse_spec :: "u8 list \<Rightarrow> arg list \<Rightarrow> (spec \<times> u8 list \<times> arg list) res" where
  "parse_spec f args =
     bindE (width (zero_flag (flags f no_spec)) args) (\<lambda>r. bindE (precision r) (\<lambda>r. Inr (long_flag r)))"

section \<open>Conversions\<close>

text \<open>\<open>while (--length >= 0) putc(c)\<close>: what is put, and the counter afterwards.\<close>

definition pad :: "u8 \<Rightarrow> int \<Rightarrow> u8 list \<times> int" where
  "pad c n = (replicate (nat n) c, if n \<ge> 0 then - 1 else n - 1)"

definition print_num :: "u32 \<Rightarrow> int \<Rightarrow> u8 \<Rightarrow> spec \<Rightarrow> u8 list res" where
  "print_num u base sign s =
     bindE (printnum u base) (\<lambda>ds.
       let prefix = (if u \<noteq> 0 \<and> altfmt s then (if base = 8 then [48] else if base = 16 then [48, 120] else []) else []);
           p = prec s - int (length ds);
           len = field_len s - int (length ds) - (if sign \<noteq> 0 then 1 else 0) - int (length prefix) - (if p > 0 then p else 0);
           (blanks, len1) = (if padc s = 32 \<and> \<not> ladjust s then pad 32 len else ([], len));
           (zeros, len2) = (if padc s = 48 then pad 48 len1 else ([], len1));
           (after, len3) = (if ladjust s then pad 32 len2 else ([], len2))
       in Inr (blanks @ (if sign \<noteq> 0 then [sign] else []) @ prefix @ fst (pad 48 p) @ zeros @ ds @ after))"

definition print_signed :: "int \<Rightarrow> spec \<Rightarrow> arg list \<Rightarrow> (u8 list \<times> arg list) res" where
  "print_signed base s args =
     bindE (arg_word args) (\<lambda>(w, args1).
     bindE (if sint w \<ge> 0 then print_num w base (plus_sign s) s else print_num (- w) base 45 s) (\<lambda>out.
       Inr (out, args1)))"

definition print_unsigned :: "int \<Rightarrow> spec \<Rightarrow> arg list \<Rightarrow> (u8 list \<times> arg list) res" where
  "print_unsigned base s args =
     bindE (arg_word args) (\<lambda>(w, args1). bindE (print_num w base 0 s) (\<lambda>out. Inr (out, args1)))"

text \<open>
  \<open>%s\<close>: when there is a width and no left adjustment, the characters that will be printed are counted
  first.
\<close>

definition print_string :: "spec \<Rightarrow> u8 list option \<Rightarrow> u8 list" where
  "print_string s str =
     (let pr = (if prec s = - 1 then 0x7FFFFFFF else prec s);
          p = (case str of None \<Rightarrow> [] | Some p \<Rightarrow> p);
          before = (if field_len s > 0 \<and> \<not> ladjust s
                    then replicate (nat (field_len s - int (length (take (nat pr) p)))) 32 else []);
          out = take (nat pr) p;
          n = (if length out < length p then int (length out) + 1 else int (length out))
      in before @ out @ (if n < field_len s \<and> ladjust s then replicate (nat (field_len s - n)) 32 else []))"

text \<open>\<open>%b\<close>: the fields of a device register.\<close>

definition shift_count :: "int \<Rightarrow> nat" where "shift_count k = nat (k mod 32)"

function bit_fields :: "u32 \<Rightarrow> int \<Rightarrow> u8 list \<Rightarrow> bool \<Rightarrow> u8 list res" where
  "bit_fields u base [] any = Inr (if any then [62] else [])"
| "bit_fields u base [i] any = Inl Out_Of_Bounds"
| "bit_fields u base (i # c # p) any =
     (let sep = (if any then 44 else 60)
      in if sint c \<le> 32 then
           bindE (printnum (drop_bit (shift_count (sint c - 1)) u AND (push_bit (shift_count (sint i - sint c)) 2 - 1)) base) (\<lambda>ds.
           bindE (bit_fields u base (dropWhile (\<lambda>c. sint c > 32) p) True) (\<lambda>r.
             Inr (sep # takeWhile (\<lambda>c. sint c > 32) p @ ds @ r)))
         else if u AND push_bit (shift_count (sint i - 1)) 1 \<noteq> 0 then
           bindE (bit_fields u base (dropWhile (\<lambda>c. sint c > 32) (c # p)) True) (\<lambda>r.
             Inr (sep # takeWhile (\<lambda>c. sint c > 32) (c # p) @ r))
         else bit_fields u base (dropWhile (\<lambda>c. sint c > 32) (c # p)) any)"
  by pat_completeness auto

termination
proof (relation "measure (\<lambda>(u, base, p, any). length p)", goal_cases)
  case (2 u base i c p any)
  then show ?case by (simp add: le_imp_less_Suc length_dropWhile_le le_SucI)
next
  case (3 u base i c p any)
  then show ?case using length_dropWhile_le [of "\<lambda>c. sint c > 32" "c # p"] by (simp del: dropWhile.simps)
next
  case (4 u base i c p any)
  then show ?case using length_dropWhile_le [of "\<lambda>c. sint c > 32" "c # p"] by (simp del: dropWhile.simps)
qed simp

definition print_bits :: "arg list \<Rightarrow> (u8 list \<times> arg list) res" where
  "print_bits args =
     bindE (arg_word args) (\<lambda>(u, args1).
     bindE (arg_str args1) (\<lambda>(str, args2).
       case str of
         None \<Rightarrow> Inl Null_Deref
       | Some p \<Rightarrow>
           (let base = (case p of [] \<Rightarrow> 0 | c # _ \<Rightarrow> sint c)
            in bindE (printnum u base) (\<lambda>ds.
               if u = 0 then Inr (ds, args2)
               else if p = [] then Inl Out_Of_Bounds
               else bindE (bit_fields u base (tl p) False) (\<lambda>r. Inr (ds @ r, args2))))))"

definition convert :: "int \<Rightarrow> u8 \<Rightarrow> spec \<Rightarrow> arg list \<Rightarrow> (u8 list \<times> arg list) res" where
  "convert radix d s args =
     (if d = 98 \<or> d = 66 then print_bits args
      else if d = 99 then bindE (arg_word args) (\<lambda>(w, args1). Inr ([ucast w], args1))
      else if d = 115 then bindE (arg_str args) (\<lambda>(str, args1). Inr (print_string s str, args1))
      else if d = 111 \<or> d = 79 then print_unsigned 8 s args
      else if d = 100 \<or> d = 105 \<or> d = 68 then print_signed 10 s args
      else if d = 117 \<or> d = 85 then print_unsigned 10 s args
      else if d = 112 then
        bindE (print_unsigned 16 (s\<lparr>padc := 48, field_len := 8\<rparr>) args) (\<lambda>(out, args1). Inr (48 # 120 # out, args1))
      else if d = 120 \<or> d = 88 then print_unsigned 16 s args
      else if d = 122 \<or> d = 90 then print_signed 16 s args
      else if d = 114 \<or> d = 82 then print_signed radix s args
      else if d = 110 \<or> d = 78 then print_unsigned radix s args
      else Inr ([d], args))"

section \<open>The loop over the format\<close>

lemma flags_length: "length (snd (flags f s)) \<le> length f"
  by (induction f s rule: flags.induct) auto

lemma read_num_length: "length (snd (read_num n f)) \<le> length f"
  by (induction n f rule: read_num.induct) auto

lemma zero_flag_length: "length (snd (zero_flag p)) \<le> length (snd p)"
  by (cases p rule: zero_flag.cases) auto

lemma width_length: "width p args = Inr (s, f, args1) \<Longrightarrow> length f \<le> length (snd p)"
proof (cases p rule: zero_flag.cases)
  case (1 t c g)
  then show "width p args = Inr (s, f, args1) \<Longrightarrow> length f \<le> length (snd p)"
    using read_num_length [of 0 "c # g"] by (auto simp: bind_rules split: if_splits prod.splits)
qed simp

lemma precision_length: "precision (t, g, args) = Inr (s, f, args1) \<Longrightarrow> length f \<le> length g"
proof (cases g)
  case (Cons c h)
  then show "precision (t, g, args) = Inr (s, f, args1) \<Longrightarrow> length f \<le> length g"
    using read_num_length [of 0 h] by (cases h) (auto simp: bind_rules split: if_splits prod.splits)
qed simp

lemma long_flag_length: "long_flag (t, g, args) = (s, f, args1) \<Longrightarrow> length f \<le> length g"
  by (cases g) (auto split: if_splits)

lemma parse_spec_length:
  assumes "parse_spec f args = Inr (s, g, args1)" shows "length g \<le> length f"
proof -
  obtain t1 g1 a1 t2 g2 a2 where p: "width (zero_flag (flags f no_spec)) args = Inr (t1, g1, a1)"
      "precision (t1, g1, a1) = Inr (t2, g2, a2)" "long_flag (t2, g2, a2) = (s, g, args1)"
    using assms by (auto simp: parse_spec_def bind_rules)
  then show ?thesis
    using width_length [OF p(1)] precision_length [OF p(2)] long_flag_length [OF p(3)] zero_flag_length [of "flags f no_spec"]
      flags_length [of f no_spec] by simp
qed

function doprnt :: "int \<Rightarrow> u8 list \<Rightarrow> arg list \<Rightarrow> u8 list res" where
  "doprnt radix [] args = Inr []"
| "doprnt radix (c # f) args =
     (if c \<noteq> 37 then bindE (doprnt radix f args) (\<lambda>r. Inr (c # r))
      else case parse_spec f args of
        Inl e \<Rightarrow> Inl e
      | Inr (s, [], args1) \<Rightarrow> Inr []
      | Inr (s, d # g, args1) \<Rightarrow>
          bindE (convert radix d s args1) (\<lambda>(out, args2). bindE (doprnt radix g args2) (\<lambda>r. Inr (out @ r))))"
  by pat_completeness auto

termination
  by (relation "measure (\<lambda>(radix, f, args). length f)") (auto dest: parse_spec_length)


section \<open>The digits of a number\<close>

definition digits_for :: "int \<Rightarrow> u8 list \<Rightarrow> int list \<Rightarrow> bool" where
  "digits_for b ds es \<longleftrightarrow> map (\<lambda>c. digit_of c b) ds = map Some es"

lemma digs_nth: "\<forall>d\<in>set [0..<16]. digs ! d = (if d < 10 then of_nat (48 + d) else of_nat (87 + d))"
  by code_simp

lemma uint_small_u8: "n < 256 \<Longrightarrow> uint (of_nat n :: u8) = int n"
  by (simp add: unsigned_of_nat take_bit_nat_eq_self)

lemma digs_digit:
  assumes "d < b" and "b \<le> 16" shows "digit_of (digs ! d) (int b) = Some (int d)"
proof (cases "d < 10")
  case True
  then have "digs ! d = of_nat (48 + d)" using digs_nth assms by auto
  moreover have "uint (of_nat (48 + d) :: u8) = 48 + int d" using True by (subst uint_small_u8) simp_all
  ultimately show ?thesis using True assms by (simp add: digit_of_def word_le_def)
next
  case False
  then have "digs ! d = of_nat (87 + d)" using digs_nth assms by auto
  moreover have "uint (of_nat (87 + d) :: u8) = 87 + int d" using assms by (subst uint_small_u8) simp_all
  ultimately show ?thesis using False assms by (simp add: digit_of_def word_le_def)
qed

lemma number_of_snoc: "number_of b (es @ [d]) v = number_of b es v * b + d"
  by (simp add: number_of_def)

lemma unat_small_base: "b \<le> 16 \<Longrightarrow> unat (of_nat b :: u32) = b"
  by (simp add: unat_of_nat32)

lemma num_digits_number:
  assumes "2 \<le> b" and "b \<le> 16" and "unat u < 2 ^ room" and "0 < room"
  shows "\<exists>ds es. num_digits room u (of_nat b) buf = Inr (ds @ buf) \<and> digits_for (int b) ds es \<and>
    number_of (int b) es 0 = uint u \<and> ds \<noteq> [] \<and> (u \<noteq> 0 \<longrightarrow> hd es \<noteq> 0) \<and> length ds \<le> room"
  using assms(3,4)
proof (induction room arbitrary: u buf)
  case (Suc room)
  let ?b = "of_nat b :: u32"
  have ub: "unat ?b = b" using assms by (simp add: unat_small_base)
  then have nz: "?b \<noteq> 0" using assms by auto
  have m: "unat (u mod ?b) = unat u mod b" using ub by (simp add: unat_mod_distrib)
  have dv: "unat (u div ?b) = unat u div b" using ub by (simp add: unat_div_distrib)
  have le: "u mod ?b \<le> 16" 
  proof -
    have "unat u mod b < b" using assms(1) by (intro mod_less_divisor) simp
    then show ?thesis using m assms(2) by (simp add: word_le_nat_alt)
  qed
  have dg: "digit_of (digs ! unat (u mod ?b)) (int b) = Some (int (unat u mod b))"
    unfolding m by (rule digs_digit) (use assms in auto)
  let ?c = "digs ! unat (u mod ?b)"
  have uu: "uint u = int (unat u)" by simp
  have id: "uint u = int (unat u div b) * int b + int (unat u mod b)"
    by (metis div_mult_mod_eq of_nat_add of_nat_mult uu)
  show ?case
  proof (cases "u div ?b = 0")
    case True
    then have z: "unat u div b = 0" using dv by simp
    then have "number_of (int b) [int (unat u mod b)] 0 = uint u" unfolding id by (simp add: number_of_def)
    moreover have "u \<noteq> 0 \<longrightarrow> unat u mod b \<noteq> 0"
    proof
      assume "u \<noteq> 0"
      then have "uint u \<noteq> 0" using uint_eq_iff [of u 0] by simp
      then show "unat u mod b \<noteq> 0" unfolding id z by simp
    qed
    ultimately show ?thesis using True nz le dg
      by (intro exI [where x = "[?c]"] exI [where x = "[int (unat u mod b)]"]) (auto simp: digits_for_def Let_def not_less)
  next
    case False
    have half: "unat u div b < 2 ^ room"
    proof -
      have "unat u div b \<le> unat u div 2" using assms(1) by (intro div_le_mono2) auto
      also have "\<dots> < 2 ^ room" using Suc.prems(1) by (simp add: less_mult_imp_div_less)
      finally show ?thesis .
    qed
    have "unat u div b \<noteq> 0" using False dv by (metis unat_eq_0)
    then have "0 < room" using half by (cases room) auto
    then obtain ds es where ih: "num_digits room (u div ?b) ?b (?c # buf) = Inr (ds @ ?c # buf)" "digits_for (int b) ds es"
        "number_of (int b) es 0 = uint (u div ?b)" "ds \<noteq> []" "hd es \<noteq> 0" "length ds \<le> room"
      using Suc.IH [of "u div ?b" "?c # buf"] half dv False by auto
    have ne: "es \<noteq> []" using ih(2,4) by (auto simp: digits_for_def)
    have "uint (u div ?b) = int (unat u div b)" using dv by (simp flip: dv)
    then have "number_of (int b) (es @ [int (unat u mod b)]) 0 = uint u" unfolding id using ih(3) by (simp add: number_of_snoc)
    then show ?thesis using False nz le dg ih ne
      by (intro exI [where x = "ds @ [?c]"] exI [where x = "es @ [int (unat u mod b)]"])
        (auto simp: digits_for_def Let_def not_less)
  qed
qed simp

lemma printnum_number:
  assumes "2 \<le> b" and "b \<le> 16"
  obtains ds es where "printnum u (int b) = Inr ds" "digits_for (int b) ds es" "number_of (int b) es 0 = uint u" "ds \<noteq> []"
    "u \<noteq> 0 \<longrightarrow> hd es \<noteq> 0" "length ds \<le> 32"
proof -
  have "unat u < 2 ^ 32" using unat_bound [of u] by simp
  then show ?thesis using num_digits_number [OF assms, of u 32 "[]"] that by (auto simp: printnum_def)
qed

lemma digits_for_nonzero: "digits_for b ds es \<Longrightarrow> 0 \<notin> set ds"
proof
  assume "digits_for b ds es" and "0 \<in> set ds"
  then have "digit_of 0 b \<in> Some ` set es" unfolding digits_for_def by (metis image_eqI list.set_map)
  then show False by (auto simp: digit_of_def)
qed

section \<open>What the formatting promises\<close>




lemma three_pads:
  assumes "pc = 32 \<or> pc = (48 :: u8)"
    and "(if pc = 32 \<and> \<not> la then pad 32 len else ([], len)) = (blanks, len1)"
    and "(if pc = 48 then pad 48 len1 else ([], len1)) = (zeros, len2)"
    and "(if la then pad 32 len2 else ([], len2)) = (after, len3)"
  shows "int (length blanks) + int (length zeros) + int (length after) = max 0 len"
proof (cases "pc = 32")
  case True
  then show ?thesis using assms by (cases la; cases "0 \<le> len") (auto simp: pad_def)
next
  case False
  then have "pc = 48" using assms(1) by simp
  then show ?thesis using assms(2-4) by (cases la; cases "0 \<le> len") (auto simp: pad_def)
qed

text \<open>
  A number is printed at least as wide as the field asks: exactly as wide as the field, or, when
  the sign, the prefix, the zeros of the precision and the digits need more, as wide as these.
\<close>

theorem print_num_fills_the_field:
  assumes "2 \<le> b" and "b \<le> 16" and "padc s = 32 \<or> padc s = 48"
  shows "\<exists>ds out. printnum u (int b) = Inr ds \<and> print_num u (int b) sign s = Inr out \<and>
    int (length out) = max (field_len s) (int (length ds) + (if sign \<noteq> 0 then 1 else 0) +
      (if u \<noteq> 0 \<and> altfmt s then (if b = 8 then 1 else if b = 16 then 2 else 0) else 0) + max 0 (prec s - int (length ds)))"
proof -
  obtain ds es where "printnum u (int b) = Inr ds"
    by (rule printnum_number [OF assms(1,2)])
  note ds = this
  obtain prefix where px: "(if u \<noteq> 0 \<and> altfmt s then (if int b = 8 then [48] else if int b = 16 then [48, 120] else []) else [] :: u8 list) = prefix"
    by blast
  obtain sg where sg: "(if sign \<noteq> 0 then [sign] else []) = sg" by blast
  obtain p where p: "prec s - int (length ds) = p" by blast
  obtain S where S: "(if sign \<noteq> 0 then 1 else 0 :: int) = S" by blast
  let ?len = "field_len s - int (length ds) - S - int (length prefix) - (if p > 0 then p else 0)"
  obtain blanks len1 where 1: "(if padc s = 32 \<and> \<not> ladjust s then pad 32 ?len else ([], ?len)) = (blanks, len1)" by fastforce
  obtain zeros len2 where 2: "(if padc s = 48 then pad 48 len1 else ([], len1)) = (zeros, len2)" by fastforce
  obtain after len3 where 3: "(if ladjust s then pad 32 len2 else ([], len2)) = (after, len3)" by fastforce
  have out: "print_num u (int b) sign s = Inr (blanks @ sg @ prefix @ fst (pad 48 p) @ zeros @ ds @ after)"
    unfolding print_num_def ds bindE_simps Let_def px sg p S 1 prod.case 2 3 ..
  have "int (length (fst (pad 48 p))) = max 0 p" by (simp add: pad_def)
  moreover have "int (length blanks) + int (length zeros) + int (length after) = max 0 ?len"
    by (rule three_pads [OF assms(3) 1 2 3])
  moreover have "int (length sg) = S" using sg S by auto
  ultimately have "int (length (blanks @ sg @ prefix @ fst (pad 48 p) @ zeros @ ds @ after)) =
      max (field_len s) (int (length ds) + S + int (length prefix) + max 0 p)"
    by (simp add: max_def split: if_splits)
  moreover have "int (length prefix) = (if u \<noteq> 0 \<and> altfmt s then (if b = 8 then 1 else if b = 16 then 2 else 0) else 0)"
    using px by auto
  ultimately have "int (length (blanks @ sg @ prefix @ fst (pad 48 p) @ zeros @ ds @ after)) =
      max (field_len s) (int (length ds) + (if sign \<noteq> 0 then 1 else 0) +
      (if u \<noteq> 0 \<and> altfmt s then (if b = 8 then 1 else if b = 16 then 2 else 0) else 0) + max 0 (prec s - int (length ds)))"
    unfolding p S by (simp only:)
  then show ?thesis using ds out by blast
qed

theorem print_num_fills_the_field_witness:
  "\<exists>ds out. printnum 255 16 = Inr ds \<and> print_num 255 16 0 (no_spec\<lparr>field_len := 9, altfmt := True\<rparr>) = Inr out \<and> length out = 9"
proof -
  have "printnum 255 16 = Inr [102, 102]" by code_simp
  then show ?thesis
    using print_num_fills_the_field [of 16 "no_spec\<lparr>field_len := 9, altfmt := True\<rparr>" 255 0] by (auto simp: no_spec_def)
qed

text \<open>
  A string that the precision cuts off is printed one column too narrow when it is adjusted to the
  left: the counter has already passed the precision when the loop stops.
\<close>

theorem cut_string_too_narrow:
  assumes "ladjust s" and "0 \<le> prec s" and "prec s < int (length p)" and "prec s < field_len s"
  shows "int (length (print_string s (Some p))) = field_len s - 1"
  using assms by (simp add: print_string_def Let_def)

theorem cut_string_too_narrow_witness:
  "length (print_string (no_spec\<lparr>ladjust := True, prec := 2, field_len := 6\<rparr>) (Some [97, 98, 99])) = 5"
  using cut_string_too_narrow [of "no_spec\<lparr>ladjust := True, prec := 2, field_len := 6\<rparr>" "[97, 98, 99]"]
  by simp

end
