(* ===== verification/Printf.thy ===== *)
theory Printf
  imports Doprnt
begin

text \<open>
  \<open>shared/sprintf.c\<close> and \<open>shared/printf.c\<close>: the two consumers of the characters of \<open>_doprnt\<close>, one that
  stores them in memory and one that collects them in a buffer of 128 characters before they go to the
  console. What \<open>console_putbytes\<close> received is a list, in order.
\<close>

section \<open>sprintf\<close>

definition sprintf_unlimited :: u32 where "sprintf_unlimited = 0xFFFFFFF"

record sprintf_state =
  sp_buf :: u32
  sp_len :: u32
  sp_max :: u32
  sp_mem :: mem8

definition savechar :: "u8 \<Rightarrow> sprintf_state \<Rightarrow> sprintf_state" where
  "savechar c st =
     (if sp_max st \<noteq> sprintf_unlimited \<and> sp_len st = sp_max st then st
      else st\<lparr>sp_len := sp_len st + 1, sp_mem := (sp_mem st)(sp_buf st := c), sp_buf := sp_buf st + 1\<rparr>)"

definition vsnprintf :: "u32 \<Rightarrow> u32 \<Rightarrow> u8 list \<Rightarrow> arg list \<Rightarrow> mem8 \<Rightarrow> (u32 \<times> mem8) res" where
  "vsnprintf s sz fmt args m =
     bindE (doprnt 0 fmt args) (\<lambda>out.
       let st = fold savechar out \<lparr>sp_buf = s, sp_len = 0, sp_max = sz, sp_mem = m\<rparr>
       in Inr (sp_len st, (sp_mem st)(sp_buf st := 0)))"

definition vsprintf :: "u32 \<Rightarrow> u8 list \<Rightarrow> arg list \<Rightarrow> mem8 \<Rightarrow> (u32 \<times> mem8) res" where
  "vsprintf s fmt args m = vsnprintf s sprintf_unlimited fmt args m"

definition sprintf :: "u32 \<Rightarrow> u8 list \<Rightarrow> arg list \<Rightarrow> mem8 \<Rightarrow> (u32 \<times> mem8) res" where
  "sprintf s fmt args m = vsprintf s fmt args m"

definition snprintf :: "u32 \<Rightarrow> u32 \<Rightarrow> u8 list \<Rightarrow> arg list \<Rightarrow> mem8 \<Rightarrow> (u32 \<times> mem8) res" where
  "snprintf s sz fmt args m = vsnprintf s sz fmt args m"

section \<open>printf\<close>

definition printf_bufmax :: nat where "printf_bufmax = 128"

text \<open>The first \<open>index\<close> characters of the buffer, and what the console has received.\<close>

record printf_state =
  pf_buf :: "u8 list"
  pf_console :: "u8 list"

definition flush :: "printf_state \<Rightarrow> printf_state" where
  "flush st = st\<lparr>pf_console := pf_console st @ pf_buf st, pf_buf := []\<rparr>"

definition printf_char :: "u8 \<Rightarrow> printf_state \<Rightarrow> printf_state" where
  "printf_char c st =
     (if c = 0 \<or> c = 10 \<or> length (pf_buf st) \<ge> printf_bufmax
      then (let st1 = flush st in st1\<lparr>pf_console := pf_console st1 @ [c]\<rparr>)
      else st\<lparr>pf_buf := pf_buf st @ [c]\<rparr>)"

definition vprintf :: "u8 list \<Rightarrow> arg list \<Rightarrow> u8 list \<Rightarrow> (int \<times> u8 list) res" where
  "vprintf fmt args con =
     bindE (doprnt 0 fmt args) (\<lambda>out.
       let st = fold printf_char out \<lparr>pf_buf = [], pf_console = con\<rparr>
       in Inr (0, pf_console (if pf_buf st \<noteq> [] then flush st else st)))"

definition printf :: "u8 list \<Rightarrow> arg list \<Rightarrow> u8 list \<Rightarrow> (int \<times> u8 list) res" where
  "printf fmt args con = vprintf fmt args con"

definition putchar :: "int \<Rightarrow> u8 list \<Rightarrow> int \<times> u8 list" where
  "putchar c con = (uint (word_of_int c :: u8), con @ [word_of_int c])"

definition puts :: "u8 list \<Rightarrow> u8 list \<Rightarrow> int \<times> u8 list" where
  "puts s con = (0, snd (putchar 10 (fold (\<lambda>c con. snd (putchar (sint c) con)) s con)))"

section \<open>What they promise\<close>

text \<open>
  The buffer of \<open>printf\<close> is transparent: the console receives exactly the characters of the
  formatted output, in order, and the buffer never holds more than its 128 characters.
\<close>

lemma printf_chars: "pf_console (fold printf_char out st) @ pf_buf (fold printf_char out st) = pf_console st @ pf_buf st @ out"
proof (induction out arbitrary: st)
  case (Cons c out)
  have "pf_console (printf_char c st) @ pf_buf (printf_char c st) = pf_console st @ pf_buf st @ [c]"
    by (simp add: printf_char_def flush_def Let_def)
  then show ?case using Cons [of "printf_char c st"] by simp
qed simp

lemma printf_buffer: "length (pf_buf st) \<le> printf_bufmax \<Longrightarrow> length (pf_buf (fold printf_char out st)) \<le> printf_bufmax"
proof (induction out arbitrary: st)
  case (Cons c out)
  have "length (pf_buf (printf_char c st)) \<le> printf_bufmax"
    using Cons.prems by (simp add: printf_char_def flush_def Let_def)
  then show ?case using Cons.IH by simp
qed simp

lemma printf_output: "printf fmt args con = bindE (doprnt 0 fmt args) (\<lambda>out. Inr (0, con @ out))"
proof -
  have c: "pf_console (if pf_buf st \<noteq> [] then flush st else st) = pf_console st @ pf_buf st" for st :: printf_state
    by (simp add: flush_def)
  show ?thesis by (simp add: printf_def vprintf_def Let_def c printf_chars)
qed

text \<open>
  C17. \<open>printf\<close> prints exactly the characters its format and arguments stand for, in order and nothing
  else, wherever the boundaries of its buffer fall, and its buffer never holds more than it has room for.
\<close>

theorem printf_prints_the_output:
  "printf fmt args con = bindE (doprnt 0 fmt args) (\<lambda>out. Inr (0, con @ out)) \<and>
   (\<forall>out. length (pf_buf (fold printf_char out \<lparr>pf_buf = [], pf_console = con\<rparr>)) \<le> printf_bufmax)"
  using printf_output printf_buffer [of "\<lparr>pf_buf = [], pf_console = con\<rparr>"] by simp


definition stored :: "u32 \<Rightarrow> nat \<Rightarrow> nat" where
  "stored mx n = (if mx = sprintf_unlimited then n else min n (unat mx))"

lemma savechar_out:
  fixes s mx :: u32 and m :: mem8
  assumes "length out < 2 ^ 32"
  defines "st \<equiv> fold savechar out \<lparr>sp_buf = s, sp_len = 0, sp_max = mx, sp_mem = m\<rparr>" and "k \<equiv> stored mx (length out)"
  shows "sp_buf st = s + of_nat k \<and> sp_len st = of_nat k \<and> sp_max st = mx \<and> bytes (sp_mem st) s k = take k out \<and>
    (\<forall>a. \<not> in_block a s k \<longrightarrow> sp_mem st a = m a)"
  using assms(1) unfolding st_def k_def
proof (induction out rule: rev_induct)
  case (snoc c out)
  let ?st = "fold savechar out \<lparr>sp_buf = s, sp_len = 0, sp_max = mx, sp_mem = m\<rparr>"
  let ?k = "stored mx (length out)"
  have l: "length out < 2 ^ 32" "Suc (length out) < 2 ^ 32" using snoc.prems by simp_all
  have ih: "sp_buf ?st = s + of_nat ?k" "sp_len ?st = of_nat ?k" "sp_max ?st = mx" "bytes (sp_mem ?st) s ?k = take ?k out"
      "\<forall>a. \<not> in_block a s ?k \<longrightarrow> sp_mem ?st a = m a" using snoc.IH [OF l(1)] by blast+
  have k: "?k \<le> length out" by (simp add: stored_def)
  have full: "mx \<noteq> sprintf_unlimited \<and> of_nat ?k = mx \<longleftrightarrow> stored mx (Suc (length out)) = ?k"
  proof (cases "mx = sprintf_unlimited")
    case False
    have "of_nat ?k = mx \<longleftrightarrow> ?k = unat mx" using l(1) k by (metis le_less_trans of_nat_unat ucast_id unat_of_nat32)
    then show ?thesis using False by (auto simp: stored_def min_def)
  qed (simp add: stored_def)
  show ?case
  proof (cases "mx \<noteq> sprintf_unlimited \<and> of_nat ?k = mx")
    case True
    then have "savechar c ?st = ?st" using ih by (simp add: savechar_def)
    moreover have "stored mx (length (out @ [c])) = ?k" using True full by simp
    ultimately show ?thesis using ih k by simp
  next
    case False
    have k1: "stored mx (length (out @ [c])) = Suc ?k" using False full by (auto simp: stored_def min_def split: if_splits)
    have kl: "?k = length out" using False full by (auto simp: stored_def min_def split: if_splits)
    have sv: "savechar c ?st = ?st\<lparr>sp_len := of_nat ?k + 1, sp_mem := (sp_mem ?st)(s + of_nat ?k := c), sp_buf := s + of_nat ?k + 1\<rparr>"
    proof -
      have "\<not> (sp_max ?st \<noteq> sprintf_unlimited \<and> sp_len ?st = sp_max ?st)" using False unfolding ih(2,3) .
      from if_not_P [OF this] show ?thesis unfolding savechar_def ih(1,2) .
    qed
    have "bytes ((sp_mem ?st)(s + of_nat ?k := c)) s (Suc ?k) = out @ [c]"
    proof (rule nth_equalityI)
      fix i assume "i < length (bytes ((sp_mem ?st)(s + of_nat ?k := c)) s (Suc ?k))"
      then have i: "i < Suc ?k" by simp
      have "sp_mem ?st (s + of_nat i) = out ! i" if "i < ?k"
        using ih(4) that nth_bytes [of i ?k "sp_mem ?st" s] kl by simp
      moreover have "s + of_nat i \<noteq> s + of_nat ?k" if "i < ?k" using that l(1) k of_nat32_inj [of i ?k] by simp
      ultimately show "bytes ((sp_mem ?st)(s + of_nat ?k := c)) s (Suc ?k) ! i = (out @ [c]) ! i"
        using i kl nth_bytes [OF i, of "(sp_mem ?st)(s + of_nat ?k := c)" s]
        by (cases "i = ?k") (simp_all add: nth_append del: bytes.simps)
    qed (simp add: kl)
    moreover have "sp_mem ?st a = m a \<and> a \<noteq> s + of_nat ?k" if "\<not> in_block a s (Suc ?k)" for a
      using that ih(5) block_last [of ?k a s] l(2) kl by auto
    ultimately show ?thesis unfolding k1 using sv ih(3) kl by (simp add: add.assoc fun_upd_def del: bytes.simps)
  qed
qed (simp add: stored_def)

text \<open>
  \<open>sprintf\<close> leaves the formatted output as a string at its buffer, with its final null byte, touches
  nothing else, and returns its length.
\<close>

theorem sprintf_stores_the_output:
  assumes "doprnt 0 fmt args = Inr out" and "Suc (length out) < 2 ^ 32" and "0 \<notin> set out"
  shows "\<exists>m'. sprintf s fmt args m = Inr (of_nat (length out), m') \<and> cstr m' s out \<and>
    (\<forall>a. \<not> in_block a s (Suc (length out)) \<longrightarrow> m' a = m a)"
proof -
  let ?st = "fold savechar out \<lparr>sp_buf = s, sp_len = 0, sp_max = sprintf_unlimited, sp_mem = m\<rparr>"
  let ?n = "length out"
  have n: "?n < 2 ^ 32" "Suc ?n \<le> 2 ^ 32" using assms(2) by simp_all
  have st: "sp_buf ?st = s + of_nat ?n" "sp_len ?st = of_nat ?n" "bytes (sp_mem ?st) s ?n = out"
      "\<forall>a. \<not> in_block a s ?n \<longrightarrow> sp_mem ?st a = m a"
    using savechar_out [OF n(1), of s sprintf_unlimited m] by (simp_all add: stored_def)
  let ?m = "(sp_mem ?st)(s + of_nat ?n := 0)"
  have "bytes ?m s ?n = bytes (sp_mem ?st) s ?n"
  proof (rule bytes_eqI)
    fix i assume "i < ?n"
    then have "s + of_nat i \<noteq> s + of_nat ?n" using of_nat32_inj [of i ?n] n(1) by simp
    then show "?m (s + of_nat i) = sp_mem ?st (s + of_nat i)" by simp
  qed
  then have "cstr ?m s out" using st(3) assms(3) by (simp add: cstr_bytes)
  moreover have "?m a = m a" if "\<not> in_block a s (Suc ?n)" for a
    using that st(4) block_last [OF n(2), of a s] by auto
  moreover have "sprintf s fmt args m = Inr (of_nat ?n, ?m)"
    using assms(1) st(1,2) by (simp add: sprintf_def vsprintf_def vsnprintf_def Let_def)
  ultimately show ?thesis by blast
qed

theorem sprintf_stores_the_output_witness:
  "\<exists>m'. sprintf 0x100 [61, 37, 100] [A_word (- 42)] (\<lambda>_. 0) = Inr (4, m') \<and> cstr m' 0x100 [61, 45, 52, 50]"
proof -
  have "doprnt 0 [61, 37, 100] [A_word (- 42)] = Inr [61, 45, 52, 50]" by code_simp
  then show ?thesis using sprintf_stores_the_output [of "[61, 37, 100]" "[A_word (- 42)]" "[61, 45, 52, 50]" "0x100" "\<lambda>_. 0"] by auto
qed

text \<open>
  \<open>snprintf\<close> with a buffer of \<open>size\<close> bytes and an output that is not shorter stores \<open>size\<close>
  characters and then the null byte behind the end of the buffer.
\<close>

theorem snprintf_writes_past_the_buffer:
  assumes "doprnt 0 fmt args = Inr out" and "unat sz \<le> length out" and "length out < 2 ^ 32" and "sz \<noteq> sprintf_unlimited"
  shows "\<exists>m'. snprintf s sz fmt args m = Inr (sz, m') \<and> m' (s + sz) = 0 \<and> \<not> in_block (s + sz) s (unat sz)"
proof -
  have "stored sz (length out) = unat sz" using assms(2,4) by (simp add: stored_def)
  then show ?thesis using savechar_out [OF assms(3), of s sz m] assms(1)
    by (simp add: snprintf_def vsnprintf_def Let_def in_block_def)
qed

theorem snprintf_writes_past_the_buffer_witness:
  "\<exists>m'. snprintf 0x100 2 [97, 98, 99] [] (\<lambda>_. 1) = Inr (2, m') \<and> m' 0x102 = 0"
proof -
  have "doprnt 0 [97, 98, 99] [] = Inr [97, 98, 99]" by code_simp
  then show ?thesis
    using snprintf_writes_past_the_buffer [of "[97, 98, 99]" "[]" "[97, 98, 99]" 2 "0x100" "\<lambda>_. 1"] by (auto simp: sprintf_unlimited_def)
qed

end
