(* ===== verification/HashTable.thy ===== *)
theory HashTable
  imports CString
begin

text \<open>
  \<open>kernel/hash.c\<close>: the generic hash table, with open addressing in a table whose size is a power of
  two. Keys and values are pointers. The hash function and the comparison of a table read the memory
  the keys point into, and may not return, so that they yield an option; the null pointer for a
  function is one that never returns. \<open>None\<close> as the result of an operation means that it does not
  come back (or leaves the table). The answer of \<open>mem_alloc\<close> to the one request an operation may make
  is its argument \<open>ok\<close>.

  The second half of the theory shows that the probe sequence visits every slot: once the perturbation
  has been shifted out, the index follows \<open>5 * i + 1\<close>, which is a cycle through all residues.
\<close>

section \<open>The table\<close>

datatype slot_mode = SL_EMPTY | SL_ACTIVE | SL_DELETED

record slot =
  s_key :: u32
  s_value :: u32
  s_hash :: u32
  s_mode :: slot_mode

record hash =
  fill :: int
  count :: int
  h_mask :: u32
  table :: "slot list"
  hfunc :: "mem8 \<Rightarrow> u32 \<Rightarrow> u32 option"
  cmp :: "mem8 \<Rightarrow> u32 \<Rightarrow> u32 \<Rightarrow> bool option"

definition hash_minsize :: int where "hash_minsize = 8"

text \<open>\<open>long\<close> arithmetic.\<close>

definition s32 :: "int \<Rightarrow> int" where "s32 x = sint (word_of_int x :: u32)"

definition empty_slot :: slot where
  "empty_slot = \<lparr>s_key = 0, s_value = 0, s_hash = 0, s_mode = SL_EMPTY\<rparr>"

definition hash_initialize :: "bool \<Rightarrow> int \<Rightarrow> hash \<Rightarrow> int \<times> hash" where
  "hash_initialize ok n h =
     (if \<not> ok then (- 1, h)
      else (0, h\<lparr>fill := 0, count := 0, h_mask := word_of_int (n - 1), table := replicate (nat n) empty_slot\<rparr>))"

section \<open>Lookup\<close>

text \<open>
  The loop of \<open>hash_lookup\<close>; its result is the number of the slot. A slot that is active answers when
  it has the same key pointer, or the same hash and a key that compares equal.
\<close>

definition slot_matches :: "mem8 \<Rightarrow> hash \<Rightarrow> u32 \<Rightarrow> u32 \<Rightarrow> slot \<Rightarrow> bool option" where
  "slot_matches m h key hash s =
     (if s_mode s \<noteq> SL_ACTIVE then Some False
      else if s_key s = key then Some True
      else if s_hash s = hash then cmp h m (s_key s) key
      else Some False)"

partial_function (option) hash_probe ::
    "mem8 \<Rightarrow> hash \<Rightarrow> u32 \<Rightarrow> u32 \<Rightarrow> u32 \<Rightarrow> u32 \<Rightarrow> nat option \<Rightarrow> nat option" where
  "hash_probe m h key hash index perturb freeslot =
     (let i = unat (index AND h_mask h)
      in if length (table h) \<le> i then None
         else if s_mode (table h ! i) = SL_EMPTY then Some (case freeslot of None \<Rightarrow> i | Some f \<Rightarrow> f)
         else Option.bind (slot_matches m h key hash (table h ! i)) (\<lambda>found.
           if found then Some i
           else hash_probe m h key hash (5 * index + perturb + 1) (drop_bit 5 perturb)
             (if s_mode (table h ! i) = SL_DELETED \<and> freeslot = None then Some i else freeslot)))"

declare hash_probe.simps [code]

definition hash_lookup :: "mem8 \<Rightarrow> hash \<Rightarrow> u32 \<Rightarrow> u32 \<Rightarrow> nat option" where
  "hash_lookup m h key hash = hash_probe m h key hash (hash AND h_mask h) hash None"

section \<open>Resizing\<close>

fun hash_copy :: "mem8 \<Rightarrow> slot list \<Rightarrow> hash \<Rightarrow> hash option" where
  "hash_copy m [] h = Some h"
| "hash_copy m (old # rest) h =
     (if s_mode old \<noteq> SL_ACTIVE then hash_copy m rest h
      else Option.bind (hfunc h m (s_key old)) (\<lambda>hash.
           Option.bind (hash_lookup m h (s_key old) hash) (\<lambda>i.
             hash_copy m rest
               (h\<lparr>table := (table h)[i := \<lparr>s_key = s_key old, s_value = s_value old, s_hash = s_hash old, s_mode = SL_ACTIVE\<rparr>],
                  fill := fill h + 1, count := count h + 1\<rparr>))))"

definition hash_resize :: "mem8 \<Rightarrow> bool \<Rightarrow> int \<Rightarrow> hash \<Rightarrow> (int \<times> hash) option" where
  "hash_resize m ok new_size h =
     (case hash_initialize ok new_size h of (r, h1) \<Rightarrow>
        if r = - 1 then Some (- 1, h1)
        else map_option (\<lambda>h2. (0, h2)) (hash_copy m (table h) h1))"

definition hash_update :: "mem8 \<Rightarrow> bool \<Rightarrow> hash \<Rightarrow> (int \<times> hash) option" where
  "hash_update m ok h =
     (let old_size = uint (h_mask h + 1); new_size = s32 (2 * old_size)
      in if s32 (3 * fill h) \<ge> s32 (2 * old_size) then
           (if new_size < old_size then Some (- 1, h) else hash_resize m ok new_size h)
         else if old_size > hash_minsize \<and> s32 (4 * count h) \<le> old_size then hash_resize m ok (old_size div 2) h
         else Some (0, h))"

section \<open>The operations\<close>

definition no_table :: hash where
  "no_table = \<lparr>fill = 0, count = 0, h_mask = 0, table = [], hfunc = (\<lambda>m k. None), cmp = (\<lambda>m j k. None)\<rparr>"

definition hash_init :: "bool \<Rightarrow> (mem8 \<Rightarrow> u32 \<Rightarrow> u32 option) \<Rightarrow> (mem8 \<Rightarrow> u32 \<Rightarrow> u32 \<Rightarrow> bool option) \<Rightarrow> hash \<Rightarrow> int \<times> hash" where
  "hash_init ok hf cf h =
     (case hash_initialize ok hash_minsize h of (r, h1) \<Rightarrow>
        if r = - 1 then (- 1, h1) else (0, h1\<lparr>hfunc := hf, cmp := cf\<rparr>))"

definition hash_destroy :: "hash \<Rightarrow> hash" where
  "hash_destroy h = h\<lparr>fill := 0, count := 0, h_mask := 0, table := [], hfunc := (\<lambda>m k. None), cmp := (\<lambda>m j k. None)\<rparr>"

fun hash_isset :: "mem8 \<Rightarrow> hash option \<Rightarrow> u32 \<Rightarrow> bool option" where
  "hash_isset m None key = Some False"
| "hash_isset m (Some h) key =
     Option.bind (hfunc h m key) (\<lambda>hash.
     Option.bind (hash_lookup m h key hash) (\<lambda>i. Some (s_mode (table h ! i) = SL_ACTIVE)))"

fun hash_get :: "mem8 \<Rightarrow> hash option \<Rightarrow> u32 \<Rightarrow> u32 \<Rightarrow> u32 option" where
  "hash_get m None key dflt = Some dflt"
| "hash_get m (Some h) key dflt =
     Option.bind (hfunc h m key) (\<lambda>hash.
     Option.bind (hash_lookup m h key hash) (\<lambda>i.
       Some (if s_mode (table h ! i) = SL_ACTIVE then s_value (table h ! i) else dflt)))"

fun hash_set :: "mem8 \<Rightarrow> bool \<Rightarrow> hash option \<Rightarrow> u32 \<Rightarrow> u32 \<Rightarrow> (int \<times> hash option) option" where
  "hash_set m ok None key val = Some (- 1, None)"
| "hash_set m ok (Some h) key val =
     Option.bind (hfunc h m key) (\<lambda>hash.
     Option.bind (hash_lookup m h key hash) (\<lambda>i.
       if s_mode (table h ! i) = SL_ACTIVE
       then Some (0, Some (h\<lparr>table := (table h)[i := (table h ! i)\<lparr>s_value := val\<rparr>]\<rparr>))
       else map_option (\<lambda>(r, h2). (r, Some h2)) (hash_update m ok
              (h\<lparr>count := count h + 1,
                 fill := (if s_mode (table h ! i) = SL_EMPTY then fill h + 1 else fill h),
                 table := (table h)[i := \<lparr>s_key = key, s_value = val, s_hash = hash, s_mode = SL_ACTIVE\<rparr>]\<rparr>))))"

fun hash_del :: "mem8 \<Rightarrow> bool \<Rightarrow> hash option \<Rightarrow> u32 \<Rightarrow> (int \<times> hash option) option" where
  "hash_del m ok None key = Some (- 1, None)"
| "hash_del m ok (Some h) key =
     Option.bind (hfunc h m key) (\<lambda>hash.
     Option.bind (hash_lookup m h key hash) (\<lambda>i.
       if s_mode (table h ! i) \<noteq> SL_ACTIVE then Some (0, Some h)
       else map_option (\<lambda>(r, h2). (r, Some h2)) (hash_update m ok
              (h\<lparr>table := (table h)[i := \<lparr>s_key = 0, s_value = 0, s_hash = 0, s_mode = SL_DELETED\<rparr>],
                 count := count h - 1\<rparr>))))"

section \<open>Keys that are pointers, and keys that are strings\<close>

definition hash_direct_cmp :: "mem8 \<Rightarrow> u32 \<Rightarrow> u32 \<Rightarrow> bool option" where
  "hash_direct_cmp m key1 key2 = Some (key1 = key2)"

definition hash_direct_hfunc :: "mem8 \<Rightarrow> u32 \<Rightarrow> u32 option" where
  "hash_direct_hfunc m key = Some key"

definition hash_string_cmp :: "mem8 \<Rightarrow> u32 \<Rightarrow> u32 \<Rightarrow> bool option" where
  "hash_string_cmp m key1 key2 = map_option (\<lambda>d. d = 0) (strcmp key1 key2 m)"

partial_function (option) hash_string_from :: "u32 \<Rightarrow> u32 \<Rightarrow> mem8 \<Rightarrow> u32 option" where
  "hash_string_from p hash m =
     (if m p = 0 then Some hash else hash_string_from (p + 1) ((push_bit 5 hash + hash) XOR scast (m p)) m)"

declare hash_string_from.simps [code]

definition hash_string_hfunc :: "mem8 \<Rightarrow> u32 \<Rightarrow> u32 option" where
  "hash_string_hfunc m key = hash_string_from key 5381 m"

definition hash_init_direct :: "bool \<Rightarrow> hash \<Rightarrow> int \<times> hash" where
  "hash_init_direct ok h = hash_init ok hash_direct_hfunc hash_direct_cmp h"

definition hash_init_string :: "bool \<Rightarrow> hash \<Rightarrow> int \<times> hash" where
  "hash_init_string ok h = hash_init ok hash_string_hfunc hash_string_cmp h"

section \<open>The probe sequence\<close>

primrec probe_at :: "u32 \<Rightarrow> u32 \<Rightarrow> nat \<Rightarrow> u32 \<times> u32" where
  "probe_at hash msk 0 = (hash AND msk, hash)"
| "probe_at hash msk (Suc n) = (case probe_at hash msk n of (i, p) \<Rightarrow> (5 * i + p + 1, drop_bit 5 p))"

definition place :: "u32 \<Rightarrow> u32 \<Rightarrow> nat \<Rightarrow> nat" where
  "place hash msk n = unat (fst (probe_at hash msk n) AND msk)"

text \<open>The map \<open>5 * x + 1\<close> and its iterates of order \<open>2 ^ k\<close>.\<close>

definition lcg :: "nat \<Rightarrow> nat" where "lcg x = 5 * x + 1"

lemma lcg_power_of_two:
  "\<exists>d. odd d \<and> (\<forall>x. (lcg ^^ (2 ^ k)) x = x + 2 ^ k * d * (4 * x + 1))"
proof (induction k)
  case 0
  show ?case by (intro exI [of _ 1]) (simp add: lcg_def)
next
  case (Suc k)
  then obtain d where d: "odd d" "\<And>x. (lcg ^^ (2 ^ k)) x = x + 2 ^ k * d * (4 * x + 1)" by blast
  let ?d = "d + 2 ^ Suc k * d * d"
  have "(lcg ^^ (2 ^ Suc k)) x = x + 2 ^ Suc k * ?d * (4 * x + 1)" for x
  proof -
    have "(lcg ^^ (2 ^ Suc k)) x = (lcg ^^ (2 ^ k)) ((lcg ^^ (2 ^ k)) x)"
      by (metis comp_apply funpow_add mult_2 power_Suc)
    then show ?thesis by (simp add: d(2) algebra_simps)
  qed
  moreover have "odd ?d" using d(1) by simp
  ultimately show ?case by blast
qed

lemma lcg_mod: "lcg (x mod 2 ^ k) mod 2 ^ k = lcg x mod 2 ^ k"
  unfolding lcg_def by (metis mod_add_left_eq mod_mult_right_eq)

lemma lcg_reaches: "\<exists>n<2 ^ k. (lcg ^^ n) x mod 2 ^ k = y mod 2 ^ k"
proof (induction k)
  case 0
  show ?case by simp
next
  case (Suc k)
  then obtain n where n: "n < 2 ^ k" "(lcg ^^ n) x mod 2 ^ k = y mod 2 ^ k" by blast
  let ?z = "(lcg ^^ n) x"
  obtain d where d: "odd d" "\<And>x. (lcg ^^ (2 ^ k)) x = x + 2 ^ k * d * (4 * x + 1)" using lcg_power_of_two by blast
  have split: "a mod 2 ^ Suc k = a mod 2 ^ k + 2 ^ k * (a div 2 ^ k mod 2)" for a :: nat
    using mod_mult2_eq [of a "2 ^ k" 2] by (simp add: mult.commute)
  show ?case
  proof (cases "?z div 2 ^ k mod 2 = y div 2 ^ k mod 2")
    case True
    then have "?z mod 2 ^ Suc k = y mod 2 ^ Suc k" using n(2) by (simp only: split)
    then show ?thesis using n(1) by (intro exI [of _ n]) simp
  next
    case False
    let ?w = "(lcg ^^ (2 ^ k + n)) x"
    have w: "?w = ?z + 2 ^ k * (d * (4 * ?z + 1))" by (simp only: funpow_add comp_apply d(2) mult.assoc)
    then have "?w mod 2 ^ k = ?z mod 2 ^ k" by simp
    moreover have "?w div 2 ^ k = ?z div 2 ^ k + d * (4 * ?z + 1)" by (simp add: w)
    moreover have "odd (d * (4 * ?z + 1))" using d(1) by simp
    ultimately have "?w mod 2 ^ k = y mod 2 ^ k" "?w div 2 ^ k mod 2 = y div 2 ^ k mod 2"
      using n(2) False by (simp_all add: mod2_eq_if split: if_splits)
    then have "?w mod 2 ^ Suc k = y mod 2 ^ Suc k" by (simp only: split)
    then show ?thesis using n(1) by (intro exI [of _ "2 ^ k + n"]) simp
  qed
qed

text \<open>After seven steps the hash has been shifted out of the perturbation.\<close>

lemma perturb_at: "snd (probe_at hash msk n) = drop_bit (5 * n) hash"
proof (induction n)
  case (Suc n)
  then show ?case by (simp add: case_prod_beta drop_bit_drop_bit add.commute)
qed simp

lemma perturb_gone: "7 \<le> n \<Longrightarrow> snd (probe_at hash msk n) = 0"
proof -
  assume "7 \<le> n"
  have "unat hash < 2 ^ 32" using unat_bound [of hash] by simp
  also have "(2 :: nat) ^ 32 \<le> 2 ^ (5 * n)" using \<open>7 \<le> n\<close> by (intro power_increasing) simp_all
  finally show ?thesis by (simp add: perturb_at word_unat_eq_iff unat_shr)
qed

lemma index_step:
  assumes "7 \<le> n" and "k \<le> 32"
  shows "unat (fst (probe_at hash msk (n + j))) mod 2 ^ k = (lcg ^^ j) (unat (fst (probe_at hash msk n))) mod 2 ^ k"
proof (induction j)
  case (Suc j)
  let ?i = "fst (probe_at hash msk (n + j))"
  have "snd (probe_at hash msk (n + j)) = 0" using assms by (intro perturb_gone) simp
  then have "fst (probe_at hash msk (n + Suc j)) = 5 * ?i + 1" by (simp add: case_prod_beta)
  moreover have "unat (5 * ?i + 1) mod 2 ^ k = lcg (unat ?i) mod 2 ^ k"
  proof -
    have "(2 :: nat) ^ k dvd 2 ^ 32" using assms(2) by (rule le_imp_power_dvd)
    then have "(5 * unat ?i + 1) mod 2 ^ 32 mod 2 ^ k = lcg (unat ?i) mod 2 ^ k" unfolding lcg_def by (rule mod_mod_cancel)
    moreover have "unat (5 * ?i + 1) = (5 * unat ?i + 1) mod 2 ^ 32" by (simp add: unat_word_ariths mod_simps)
    ultimately show ?thesis by (simp only:)
  qed
  ultimately have "unat (fst (probe_at hash msk (n + Suc j))) mod 2 ^ k = lcg (unat ?i mod 2 ^ k) mod 2 ^ k"
    by (simp only: lcg_mod)
  also have "\<dots> = lcg ((lcg ^^ j) (unat (fst (probe_at hash msk n))) mod 2 ^ k) mod 2 ^ k" by (simp only: Suc.IH)
  finally show ?case by (simp add: lcg_mod)
qed simp

lemma and_mask: "unat (w AND (2 ^ k - 1)) = unat w mod 2 ^ k" for w :: u32
proof -
  have "w AND (2 ^ k - 1) = take_bit k w" by (simp only: take_bit_eq_mask mask_eq_exp_minus_1)
  then have "unat (w AND (2 ^ k - 1)) = take_bit k (unat w)" by (simp only: unsigned_take_bit_eq)
  then show ?thesis by (simp only: take_bit_nat_def)
qed

lemma place_reaches:
  assumes "k \<le> 32" and "t < 2 ^ k"
  shows "\<exists>n < 7 + 2 ^ k. place hash (2 ^ k - 1) n = t"
proof -
  let ?M = "2 ^ k - 1 :: u32"
  obtain j where "j < 2 ^ k" "(lcg ^^ j) (unat (fst (probe_at hash ?M 7))) mod 2 ^ k = t mod 2 ^ k"
    using lcg_reaches by blast
  then have "place hash ?M (7 + j) = t" "7 + j < 7 + 2 ^ k"
    using assms index_step [of 7 k hash ?M j] by (simp_all add: place_def and_mask)
  then show ?thesis by blast
qed

end
