(* ===== verification/HashSpec.thy ===== *)
theory HashSpec
  imports HashTable
begin

text \<open>
  What the hash table promises: it is a finite map from what its keys denote (the pointer itself, or
  the text it points to) to values. The locale \<open>hash_keys\<close> is the interface between the table and
  its pair of functions: on valid keys the hash function returns a code of what the key denotes, and
  the comparison decides whether two keys denote the same. Its lemmas show that a well-formed table
  with an empty slot answers every lookup, and that setting, deleting and resizing keep it well formed
  and act on the map. It is interpreted on both pairs of functions of \<open>hash.c\<close>.
\<close>

section \<open>The map of a table\<close>

abbreviation active :: "slot \<Rightarrow> bool" where "active s \<equiv> s_mode s = SL_ACTIVE"

definition entries :: "(u32 \<Rightarrow> 'a) \<Rightarrow> slot list \<Rightarrow> 'a \<Rightarrow> u32 option" where
  "entries view T = map_of (map (\<lambda>s. (view (s_key s), s_value s)) (filter active T))"

definition one_slot_each :: "(u32 \<Rightarrow> 'a) \<Rightarrow> slot list \<Rightarrow> bool" where
  "one_slot_each view T \<longleftrightarrow> (\<forall>i<length T. \<forall>j<length T. active (T ! i) \<longrightarrow> active (T ! j) \<longrightarrow>
     view (s_key (T ! i)) = view (s_key (T ! j)) \<longrightarrow> i = j)"

definition has_room :: "slot list \<Rightarrow> bool" where
  "has_room T \<longleftrightarrow> (\<exists>s\<in>set T. s_mode s = SL_EMPTY)"

text \<open>The slots before slot \<open>i\<close> in the probe sequence of a hash are in use.\<close>

definition reached :: "slot list \<Rightarrow> u32 \<Rightarrow> u32 \<Rightarrow> nat \<Rightarrow> bool" where
  "reached T msk hash i \<longleftrightarrow>
     (\<exists>n. place hash msk n = i \<and> (\<forall>j<n. s_mode (T ! place hash msk j) \<noteq> SL_EMPTY))"

definition table_wf ::
    "(mem8 \<Rightarrow> u32 \<Rightarrow> u32 option) \<Rightarrow> (mem8 \<Rightarrow> u32 \<Rightarrow> u32 \<Rightarrow> bool option) \<Rightarrow> (u32 \<Rightarrow> 'a) \<Rightarrow> ('a \<Rightarrow> u32) \<Rightarrow> (u32 \<Rightarrow> bool) \<Rightarrow> hash \<Rightarrow> bool" where
  "table_wf hf cf view code valid h \<longleftrightarrow>
     hfunc h = hf \<and> cmp h = cf \<and>
     (\<exists>k. 3 \<le> k \<and> k \<le> 27 \<and> length (table h) = 2 ^ k \<and> h_mask h = 2 ^ k - 1) \<and>
     fill h = int (length (filter (\<lambda>s. s_mode s \<noteq> SL_EMPTY) (table h))) \<and>
     count h = int (length (filter active (table h))) \<and>
     (\<forall>s\<in>set (table h). active s \<longrightarrow> valid (s_key s) \<and> s_hash s = code (view (s_key s))) \<and>
     (\<forall>i<length (table h). active (table h ! i) \<longrightarrow> reached (table h) (h_mask h) (s_hash (table h ! i)) i) \<and>
     one_slot_each view (table h)"

lemma entries_Some:
  assumes "one_slot_each view T"
  shows "entries view T a = Some v \<longleftrightarrow> (\<exists>i<length T. active (T ! i) \<and> view (s_key (T ! i)) = a \<and> s_value (T ! i) = v)"
proof -
  let ?L = "map (\<lambda>s. (view (s_key s), s_value s)) (filter active T)"
  have mem: "(a, v) \<in> set ?L \<longleftrightarrow> (\<exists>i<length T. active (T ! i) \<and> view (s_key (T ! i)) = a \<and> s_value (T ! i) = v)" for v
    by (force simp: in_set_conv_nth)
  have uniq: "v = w" if "(a, v) \<in> set ?L" "(a, w) \<in> set ?L" for v w
    using that assms unfolding mem one_slot_each_def by auto
  show ?thesis unfolding entries_def mem [symmetric]
  proof
    assume "map_of ?L a = Some v"
    then show "(a, v) \<in> set ?L" by (rule map_of_SomeD)
  next
    assume v: "(a, v) \<in> set ?L"
    then have "a \<in> fst ` set ?L" by (rule rev_image_eqI) simp
    then obtain w where w: "map_of ?L a = Some w" using map_of_eq_None_iff [of ?L a] by (cases "map_of ?L a") auto
    then show "map_of ?L a = Some v" using uniq [OF v map_of_SomeD [OF w]] by simp
  qed
qed

lemma entries_None: "entries view T a = None \<longleftrightarrow> (\<forall>i<length T. active (T ! i) \<longrightarrow> view (s_key (T ! i)) \<noteq> a)"
  by (auto simp: entries_def map_of_eq_None_iff in_set_conv_nth image_iff)

lemma has_room_fill: "has_room T \<longleftrightarrow> length (filter (\<lambda>s. s_mode s \<noteq> SL_EMPTY) T) < length T"
proof
  assume "has_room T"
  then show "length (filter (\<lambda>s. s_mode s \<noteq> SL_EMPTY) T) < length T"
    unfolding has_room_def by (metis (mono_tags) length_filter_less)
next
  assume "length (filter (\<lambda>s. s_mode s \<noteq> SL_EMPTY) T) < length T"
  then show "has_room T" unfolding has_room_def by (metis (mono_tags, lifting) filter_True less_irrefl)
qed

lemma filter_update:
  "i < length xs \<Longrightarrow> int (length (filter P (xs[i := x]))) =
     int (length (filter P xs)) - (if P (xs ! i) then 1 else 0) + (if P x then 1 else 0)"
proof (induction xs arbitrary: i)
  case (Cons y ys)
  then show ?case
  proof (cases i)
    case (Suc j)
    then show ?thesis using Cons.IH [of j] Cons.prems by (simp split: if_splits)
  qed simp
qed simp

lemma has_room_keep: "has_room T \<Longrightarrow> s_mode (T ! i) \<noteq> SL_EMPTY \<Longrightarrow> has_room (T[i := s])"
proof -
  assume "has_room T" and i: "s_mode (T ! i) \<noteq> SL_EMPTY"
  then obtain j where "j < length T" "s_mode (T ! j) = SL_EMPTY" unfolding has_room_def by (metis in_set_conv_nth)
  then have "j < length (T[i := s])" "s_mode (T[i := s] ! j) = SL_EMPTY" using i by (cases "i = j"; simp)+
  then show "has_room (T[i := s])" unfolding has_room_def by (metis nth_mem)
qed

lemma ex_less_split: "i < n \<Longrightarrow> (\<exists>j<n. P j) \<longleftrightarrow> P i \<or> (\<exists>j<n. j \<noteq> i \<and> P j)" for i :: nat
  by auto

lemma reached_mono:
  assumes "reached T msk hash i" and "\<And>j. s_mode (T ! j) \<noteq> SL_EMPTY \<Longrightarrow> s_mode (T' ! j) \<noteq> SL_EMPTY"
  shows "reached T' msk hash i"
  using assms unfolding reached_def by blast

lemma one_slot_each_Cons:
  assumes "one_slot_each view (s # T)"
  shows "one_slot_each view T" and "active s \<Longrightarrow> t \<in> set T \<Longrightarrow> active t \<Longrightarrow> view (s_key t) \<noteq> view (s_key s)"
proof -
  note o = assms [unfolded one_slot_each_def, rule_format]
  show "one_slot_each view T" unfolding one_slot_each_def using o [of "Suc _" "Suc _"] by auto
  show "view (s_key t) \<noteq> view (s_key s)" if "active s" "t \<in> set T" "active t"
  proof
    assume e: "view (s_key t) = view (s_key s)"
    obtain i where "i < length T" "t = T ! i" using \<open>t \<in> set T\<close> by (metis in_set_conv_nth)
    then show False using o [of 0 "Suc i"] that e by simp
  qed
qed

lemma entries_Cons: "entries view (s # T) = (if active s then (entries view T)(view (s_key s) \<mapsto> s_value s) else entries view T)"
  by (simp add: entries_def)

lemma entries_fresh [simp]: "entries view (replicate n empty_slot) = Map.empty"
  by (simp add: entries_def empty_slot_def)

lemma no_deleted:
  assumes "length (filter (\<lambda>s. s_mode s \<noteq> SL_EMPTY) T) = length (filter active T)" and "s \<in> set T" and "\<not> active s"
  shows "s_mode s = SL_EMPTY"
proof (rule ccontr)
  let ?U = "filter (\<lambda>s. s_mode s \<noteq> SL_EMPTY) T"
  assume "s_mode s \<noteq> SL_EMPTY"
  then have "length (filter active ?U) < length ?U" using assms by (intro length_filter_less) auto
  moreover have "filter active ?U = filter active T" by (auto simp: intro: filter_cong)
  ultimately show False using assms(1) by simp
qed

lemma s32_id: "- (2 ^ 31) \<le> x \<Longrightarrow> x < 2 ^ 31 \<Longrightarrow> s32 x = x"
  by (simp add: s32_def int_word_sint)

text \<open>The size of a table after \<open>n\<close> insertions.\<close>

definition grown :: "nat \<Rightarrow> hash \<Rightarrow> bool" where
  "grown n h \<longleftrightarrow> int (length (table h)) \<le> 8 + 3 * int n \<and> fill h \<le> int n"

section \<open>The interface of the keys\<close>

locale hash_keys =
  fixes m :: mem8
    and hf :: "mem8 \<Rightarrow> u32 \<Rightarrow> u32 option" and cf :: "mem8 \<Rightarrow> u32 \<Rightarrow> u32 \<Rightarrow> bool option"
    and view :: "u32 \<Rightarrow> 'a" and code :: "'a \<Rightarrow> u32" and valid :: "u32 \<Rightarrow> bool"
  assumes hf_code: "valid k \<Longrightarrow> hf m k = Some (code (view k))"
    and cf_view: "valid j \<Longrightarrow> valid k \<Longrightarrow> cf m j k = Some (view j = view k)"
begin

abbreviation wf :: "hash \<Rightarrow> bool" where "wf \<equiv> table_wf hf cf view code valid"

abbreviation absent :: "hash \<Rightarrow> u32 \<Rightarrow> bool" where "absent h k \<equiv> entries view (table h) (view k) = None"

lemma wf_size:
  assumes "wf h" obtains k where "3 \<le> k" "k \<le> 27" "length (table h) = 2 ^ k" "h_mask h = 2 ^ k - 1"
  using assms unfolding table_wf_def by blast

lemma wf_place: "wf h \<Longrightarrow> place hash (h_mask h) n < length (table h)"
  by (elim wf_size) (simp add: place_def and_mask)

lemma wf_matches:
  assumes "wf h" and "valid key" and "s \<in> set (table h)"
  shows "slot_matches m h key (code (view key)) s = Some (active s \<and> view (s_key s) = view key)"
  using assms cf_view by (auto simp: slot_matches_def table_wf_def)

lemma probe_run:
  assumes "\<And>j. j < N \<Longrightarrow> place hash (h_mask h) j < length (table h) \<and> s_mode (table h ! place hash (h_mask h) j) \<noteq> SL_EMPTY \<and>
      slot_matches m h key hash (table h ! place hash (h_mask h) j) = Some False"
  shows "\<exists>fs. hash_lookup m h key hash =
      hash_probe m h key hash (fst (probe_at hash (h_mask h) N)) (snd (probe_at hash (h_mask h) N)) fs \<and>
      (\<forall>f. fs = Some f \<longrightarrow> (\<exists>j<N. f = place hash (h_mask h) j \<and> s_mode (table h ! f) = SL_DELETED))"
  using assms
proof (induction N)
  case 0
  show ?case by (simp add: hash_lookup_def)
next
  case (Suc N)
  let ?i = "place hash (h_mask h) N"
  obtain fs where fs: "hash_lookup m h key hash =
      hash_probe m h key hash (fst (probe_at hash (h_mask h) N)) (snd (probe_at hash (h_mask h) N)) fs"
    "\<And>f. fs = Some f \<Longrightarrow> \<exists>j<N. f = place hash (h_mask h) j \<and> s_mode (table h ! f) = SL_DELETED"
    using Suc by (meson less_SucI)
  have "?i < length (table h)" "s_mode (table h ! ?i) \<noteq> SL_EMPTY" "slot_matches m h key hash (table h ! ?i) = Some False"
    using Suc.prems [of N] by simp_all
  then have "hash_lookup m h key hash =
      hash_probe m h key hash (fst (probe_at hash (h_mask h) (Suc N))) (snd (probe_at hash (h_mask h) (Suc N)))
        (if s_mode (table h ! ?i) = SL_DELETED \<and> fs = None then Some ?i else fs)"
    unfolding fs(1) by (subst hash_probe.simps) (simp add: Let_def place_def case_prod_beta)
  then show ?case using fs(2) less_Suc_eq by (intro exI conjI) (assumption, auto split: if_splits)
qed

lemma lookup:
  assumes wf: "wf h" and room: "has_room (table h)" and key: "valid key"
  shows "\<exists>i<length (table h). hash_lookup m h key (code (view key)) = Some i \<and>
    (if absent h key then \<not> active (table h ! i) \<and> reached (table h) (h_mask h) (code (view key)) i
     else active (table h ! i) \<and> view (s_key (table h ! i)) = view key)"
proof -
  let ?T = "table h" and ?hash = "code (view key)" and ?pl = "place (code (view key)) (h_mask h)"
  let ?stop = "\<lambda>n. s_mode (?T ! ?pl n) = SL_EMPTY \<or> active (?T ! ?pl n) \<and> view (s_key (?T ! ?pl n)) = view key"
  obtain k where k: "k \<le> 27" "length ?T = 2 ^ k" "h_mask h = 2 ^ k - 1" using wf by (rule wf_size)
  obtain e where e: "e < length ?T" "s_mode (?T ! e) = SL_EMPTY" using room unfolding has_room_def by (metis in_set_conv_nth)
  then have "\<exists>n. ?pl n = e" using place_reaches [of k e ?hash] k by auto
  then have "\<exists>n. ?stop n" using e(2) by blast
  define N where "N = (LEAST n. ?stop n)"
  have N: "?stop N" unfolding N_def using \<open>\<exists>n. ?stop n\<close> by (rule LeastI_ex)
  have before: "\<not> ?stop j" if "j < N" for j using that unfolding N_def by (rule not_less_Least)
  have pl: "?pl n < length ?T" for n using wf by (rule wf_place)
  have mt: "slot_matches m h key ?hash (?T ! ?pl n) = Some (active (?T ! ?pl n) \<and> view (s_key (?T ! ?pl n)) = view key)" for n
    using wf key nth_mem [OF pl] by (rule wf_matches)
  obtain fs where fs: "hash_lookup m h key ?hash =
      hash_probe m h key ?hash (fst (probe_at ?hash (h_mask h) N)) (snd (probe_at ?hash (h_mask h) N)) fs"
    "\<And>f. fs = Some f \<Longrightarrow> \<exists>j<N. f = ?pl j \<and> s_mode (?T ! f) = SL_DELETED"
    using probe_run [of N ?hash h key] pl mt before by auto
  have rc: "reached ?T (h_mask h) ?hash (?pl n)" if "n \<le> N" for n
    unfolding reached_def using before that by (metis less_le_trans)
  show ?thesis
  proof (cases "s_mode (?T ! ?pl N) = SL_EMPTY")
    case True
    have "absent h key"
    proof (rule ccontr)
      assume "\<not> absent h key"
      then obtain i where i: "i < length ?T" "active (?T ! i)" "view (s_key (?T ! i)) = view key" by (auto simp: entries_None)
      then have "reached ?T (h_mask h) ?hash i" using wf nth_mem [OF i(1)] unfolding table_wf_def by metis
      then obtain n where n: "?pl n = i" "\<And>j. j < n \<Longrightarrow> s_mode (?T ! ?pl j) \<noteq> SL_EMPTY" unfolding reached_def by blast
      have "N \<le> n" using n(1) i unfolding N_def by (intro Least_le) simp
      then show False using n i True by (cases "N = n") auto
    qed
    moreover have "hash_lookup m h key ?hash = Some (case fs of None \<Rightarrow> ?pl N | Some f \<Rightarrow> f)"
      unfolding fs(1) using True pl [of N] by (subst hash_probe.simps) (simp add: Let_def place_def cong: option.case_cong)
    ultimately show ?thesis
      using True pl fs(2) rc by (cases fs) (fastforce dest: less_imp_le)+
  next
    case False
    then have a: "active (?T ! ?pl N)" "view (s_key (?T ! ?pl N)) = view key" using N by auto
    then have "hash_lookup m h key ?hash = Some (?pl N)"
      unfolding fs(1) using pl [of N] mt [of N] by (subst hash_probe.simps) (simp add: Let_def place_def)
    moreover have "\<not> absent h key" using a pl [of N] by (auto simp: entries_None)
    ultimately show ?thesis using a pl by auto
  qed
qed

text \<open>What every operation does to a table: one slot is replaced by one that is in use.\<close>

lemma replace_slot:
  assumes wf: "wf h" and i: "i < length (table h)" and e: "s_mode s \<noteq> SL_EMPTY"
    and s: "active s \<Longrightarrow> valid (s_key s) \<and> s_hash s = code (view (s_key s)) \<and> reached (table h) (h_mask h) (s_hash s) i"
    and others: "\<And>j. active s \<Longrightarrow> j < length (table h) \<Longrightarrow> j \<noteq> i \<Longrightarrow> active (table h ! j) \<Longrightarrow>
      view (s_key (table h ! j)) \<noteq> view (s_key s)"
    and h': "h' = h\<lparr>table := (table h)[i := s], fill := fill h + (if s_mode (table h ! i) = SL_EMPTY then 1 else 0),
      count := count h - (if active (table h ! i) then 1 else 0) + (if active s then 1 else 0)\<rparr>"
  shows "wf h'" and "entries view (table h') a =
    (if active s \<and> a = view (s_key s) then Some (s_value s)
     else if active (table h ! i) \<and> a = view (s_key (table h ! i)) then None else entries view (table h) a)"
proof -
  let ?T = "table h"
  have T: "table h' = ?T[i := s]" "h_mask h' = h_mask h" by (simp_all add: h')
  have old: "?T[i := s] ! j = ?T ! j" if "j \<noteq> i" for j using that by simp
  have new: "?T[i := s] ! i = s" using i by simp
  have ones: "one_slot_each view ?T" using wf by (simp add: table_wf_def)
  have one: "one_slot_each view (?T[i := s])"
  proof -
    have "j = l" if jl: "j < length ?T" "l < length ?T" "active (?T[i := s] ! j)" "active (?T[i := s] ! l)"
        "view (s_key (?T[i := s] ! j)) = view (s_key (?T[i := s] ! l))" for j l
      using jl others [of j] others [of l] ones i unfolding one_slot_each_def nth_list_update [OF i(1)]
      by (cases "j = i"; cases "l = i") auto
    then show ?thesis by (simp add: one_slot_each_def)
  qed
  have mono: "s_mode (?T[i := s] ! j) \<noteq> SL_EMPTY" if "s_mode (?T ! j) \<noteq> SL_EMPTY" for j
    using that new old e by (cases "j = i") auto
  have rc: "reached (?T[i := s]) (h_mask h) (s_hash (?T[i := s] ! j)) j" if "j < length ?T" "active (?T[i := s] ! j)" for j
  proof (rule reached_mono [OF _ mono])
    show "reached ?T (h_mask h) (s_hash (?T[i := s] ! j)) j"
      using that wf s new old [of j] by (cases "j = i") (auto simp: table_wf_def)
  qed
  have sl: "valid (s_key t) \<and> s_hash t = code (view (s_key t))" if "t \<in> set (?T[i := s])" "active t" for t
    using that wf s set_update_subset_insert [of ?T i s] unfolding table_wf_def by auto
  have f: "fill h' = int (length (filter (\<lambda>s. s_mode s \<noteq> SL_EMPTY) (?T[i := s])))"
    using wf e by (subst filter_update [OF i(1)]) (simp add: h' table_wf_def)
  have c: "count h' = int (length (filter active (?T[i := s])))"
    using wf by (subst filter_update [OF i(1)]) (simp add: h' table_wf_def)
  show "wf h'" unfolding table_wf_def T
    using wf one rc sl f c by (auto simp: table_wf_def h')
  let ?new = "if active s \<and> a = view (s_key s) then Some (s_value s)
     else if active (?T ! i) \<and> a = view (s_key (?T ! i)) then None else entries view ?T a"
  have iff: "entries view (?T[i := s]) a = Some v \<longleftrightarrow> ?new = Some v" for v
  proof -
    have "entries view (?T[i := s]) a = Some v \<longleftrightarrow> active s \<and> view (s_key s) = a \<and> s_value s = v \<or>
        (\<exists>j<length ?T. j \<noteq> i \<and> active (?T ! j) \<and> view (s_key (?T ! j)) = a \<and> s_value (?T ! j) = v)"
      unfolding entries_Some [OF one] length_list_update
      by (subst ex_less_split [OF i]) (simp add: new old cong: conj_cong)
    moreover have "entries view ?T a = Some v \<longleftrightarrow> active (?T ! i) \<and> view (s_key (?T ! i)) = a \<and> s_value (?T ! i) = v \<or>
        (\<exists>j<length ?T. j \<noteq> i \<and> active (?T ! j) \<and> view (s_key (?T ! j)) = a \<and> s_value (?T ! j) = v)"
      unfolding entries_Some [OF ones] by (rule ex_less_split [OF i])
    moreover have "j = i" if "j < length ?T" "active (?T ! j)" "active (?T ! i)" "view (s_key (?T ! j)) = view (s_key (?T ! i))" for j
      using that ones i unfolding one_slot_each_def by blast
    ultimately show ?thesis using others by auto
  qed
  show "entries view (table h') a = ?new"
    unfolding T using iff by (cases ?new; cases "entries view (?T[i := s]) a") auto
qed

text \<open>Putting a new key into a slot the lookup found.\<close>

lemma put_new:
  assumes wf: "wf h" and key: "valid key" "absent h key" and i: "i < length (table h)" "\<not> active (table h ! i)"
    and r: "reached (table h) (h_mask h) (code (view key)) i"
    and h': "h' = h\<lparr>table := (table h)[i := \<lparr>s_key = key, s_value = val, s_hash = code (view key), s_mode = SL_ACTIVE\<rparr>],
      fill := fill h + (if s_mode (table h ! i) = SL_EMPTY then 1 else 0), count := count h + 1\<rparr>"
  shows "wf h'" and "entries view (table h') = (entries view (table h))(view key \<mapsto> val)"
proof -
  let ?s = "\<lparr>s_key = key, s_value = val, s_hash = code (view key), s_mode = SL_ACTIVE\<rparr>"
  note rs = replace_slot [OF wf i(1), of ?s h']
  have others: "view (s_key (table h ! j)) \<noteq> view key" if "j < length (table h)" "active (table h ! j)" for j
    using key(2) that by (auto simp: entries_None)
  show "wf h'" by (rule rs) (use key r others i h' in auto)
  show "entries view (table h') = (entries view (table h))(view key \<mapsto> val)"
    by (rule ext, subst rs) (use key r others i h' in auto)
qed

text \<open>A new table, and the copy of the active slots into it.\<close>

lemma fresh:
  assumes "hfunc h = hf" and "cmp h = cf" and "3 \<le> k" and "k \<le> 27"
  shows "wf (h\<lparr>fill := 0, count := 0, h_mask := 2 ^ k - 1, table := replicate (2 ^ k) empty_slot\<rparr>)"
proof -
  have "filter (\<lambda>s. s_mode s \<noteq> SL_EMPTY) (replicate (2 ^ k) empty_slot) = []" "filter active (replicate (2 ^ k) empty_slot) = []"
    by (simp_all add: empty_slot_def)
  moreover have "\<not> active (replicate (2 ^ k) empty_slot ! i)" if "i < 2 ^ k" for i using that by (simp add: empty_slot_def)
  ultimately show ?thesis using assms by (auto simp: table_wf_def one_slot_each_def empty_slot_def)
qed

lemma copy:
  assumes "wf h" and "fill h = count h" and "fill h + int (length (filter active rest)) < int (length (table h))"
    and "one_slot_each view rest"
    and "\<forall>s\<in>set rest. active s \<longrightarrow> valid (s_key s) \<and> s_hash s = code (view (s_key s)) \<and> absent h (s_key s)"
  shows "\<exists>h'. hash_copy m rest h = Some h' \<and> wf h' \<and> length (table h') = length (table h) \<and>
    fill h' = fill h + int (length (filter active rest)) \<and> entries view (table h') = entries view (table h) ++ entries view rest"
  using assms
proof (induction rest arbitrary: h)
  case Nil
  then show ?case by (simp add: entries_def)
next
  case (Cons s rest)
  note one = one_slot_each_Cons [OF Cons.prems(4)]
  show ?case
  proof (cases "active s")
    case False
    then show ?thesis using Cons.IH [OF Cons.prems(1,2) _ one(1)] Cons.prems by (simp add: entries_Cons)
  next
    case True
    let ?T = "table h" and ?k = "s_key s"
    have key: "valid ?k" "s_hash s = code (view ?k)" "absent h ?k" using Cons.prems(5) True by auto
    have fl: "fill h = int (length (filter (\<lambda>s. s_mode s \<noteq> SL_EMPTY) ?T))" "count h = int (length (filter active ?T))"
      using Cons.prems(1) by (simp_all add: table_wf_def)
    have "has_room ?T" using Cons.prems(3) fl(1) by (simp add: has_room_fill)
    then obtain i where i: "i < length ?T" "hash_lookup m h ?k (code (view ?k)) = Some i" "\<not> active (?T ! i)"
        "reached ?T (h_mask h) (code (view ?k)) i"
      using lookup [OF Cons.prems(1) _ key(1)] key(3) by auto
    have e: "s_mode (?T ! i) = SL_EMPTY"
      using no_deleted [of ?T "?T ! i"] fl Cons.prems(2) i(1,3) by simp
    let ?h = "h\<lparr>table := ?T[i := \<lparr>s_key = ?k, s_value = s_value s, s_hash = s_hash s, s_mode = SL_ACTIVE\<rparr>],
      fill := fill h + 1, count := count h + 1\<rparr>"
    have h: "wf ?h" "entries view (table ?h) = (entries view ?T)(view ?k \<mapsto> s_value s)"
      using put_new [OF Cons.prems(1) key(1,3) i(1,3,4), of ?h "s_value s"] e key(2) by simp_all
    have ab: "\<forall>t\<in>set rest. active t \<longrightarrow> valid (s_key t) \<and> s_hash t = code (view (s_key t)) \<and> absent ?h (s_key t)"
      using Cons.prems(5) one(2) [OF True] unfolding h(2) by auto
    have "entries view rest (view ?k) = None"
      using one(2) [OF True] nth_mem by (fastforce simp: entries_None)
    then have "(entries view ?T)(view ?k \<mapsto> s_value s) ++ entries view rest = entries view ?T ++ entries view (s # rest)"
      using True by (simp add: entries_Cons domIff map_add_upd_left)
    moreover have "hash_copy m (s # rest) h = hash_copy m rest ?h"
      using True i(2) hf_code [OF key(1)] Cons.prems(1) by (simp add: table_wf_def)
    moreover obtain h' where "hash_copy m rest ?h = Some h'" "wf h'" "length (table h') = length (table ?h)"
        "fill h' = fill ?h + int (length (filter active rest))" "entries view (table h') = entries view (table ?h) ++ entries view rest"
      using Cons.IH [OF h(1) _ _ one(1) ab] Cons.prems(2,3) True by auto
    ultimately show ?thesis using True h(2) by simp
  qed
qed

lemma resize:
  assumes wf: "wf h" and k: "3 \<le> k" "k \<le> 27" "count h < 2 ^ k"
  shows "\<exists>h'. hash_resize m True (2 ^ k) h = Some (0, h') \<and> wf h' \<and> has_room (table h') \<and>
    entries view (table h') = entries view (table h) \<and> length (table h') = 2 ^ k \<and> fill h' = count h"
proof -
  let ?h = "h\<lparr>fill := 0, count := 0, h_mask := 2 ^ k - 1, table := replicate (2 ^ k) empty_slot\<rparr>"
  have "hfunc h = hf" "cmp h = cf" "one_slot_each view (table h)" "count h = int (length (filter active (table h)))"
    using wf by (simp_all add: table_wf_def)
  note h = this
  have abs: "\<forall>s\<in>set (table h). active s \<longrightarrow> valid (s_key s) \<and> s_hash s = code (view (s_key s)) \<and> absent ?h (s_key s)"
    using wf by (simp add: table_wf_def)
  obtain h' where h': "hash_copy m (table h) ?h = Some h'" "wf h'" "length (table h') = 2 ^ k" "fill h' = count h"
      "entries view (table h') = entries view (table h)"
    using copy [OF fresh [OF h(1,2) k(1,2)] _ _ h(3) abs] k(3) h(4) by auto
  have "has_room (table h')"
    unfolding has_room_fill using h'(2,3,4) k(3) by (auto simp: table_wf_def)
  moreover have "hash_resize m True (2 ^ k) h = Some (0, h')"
    using h'(1) by (simp add: hash_resize_def hash_initialize_def nat_power_eq)
  ultimately show ?thesis using h' by blast
qed

lemma old_size: "wf h \<Longrightarrow> uint (h_mask h + 1) = int (length (table h))"
  by (elim wf_size) (simp add: uint_pow2)

lemma update:
  assumes wf: "wf h" and small: "length (table h) < 2 ^ 27"
  shows "\<exists>h'. hash_update m True h = Some (0, h') \<and> wf h' \<and> has_room (table h') \<and>
    entries view (table h') = entries view (table h) \<and> (\<forall>n. grown n h \<longrightarrow> grown n h')"
proof -
  obtain k where k: "3 \<le> k" "k \<le> 27" "length (table h) = 2 ^ k" using wf by (rule wf_size)
  then have k26: "k \<le> 26" using small power_strict_increasing_iff [of "2::nat" k 27] by simp
  have le: "(2 :: int) ^ k \<le> 2 ^ 26" using k26 by (intro power_increasing) simp_all
  have fl: "fill h = int (length (filter (\<lambda>s. s_mode s \<noteq> SL_EMPTY) (table h)))" "count h = int (length (filter active (table h)))"
    using wf by (simp_all add: table_wf_def)
  have cf: "count h \<le> fill h"
  proof -
    have "filter active (filter (\<lambda>s. s_mode s \<noteq> SL_EMPTY) (table h)) = filter active (table h)" by (auto intro: filter_cong)
    then show ?thesis unfolding fl using length_filter_le [of active "filter (\<lambda>s. s_mode s \<noteq> SL_EMPTY) (table h)"] by simp
  qed
  have f2: "fill h \<le> 2 ^ k" using length_filter_le [of "\<lambda>s. s_mode s \<noteq> SL_EMPTY" "table h"] k(3) fl(1) by (metis of_nat_le_iff of_nat_numeral of_nat_power)
  have nn: "0 \<le> count h" "0 \<le> fill h" using fl by simp_all
  have s: "s32 (3 * fill h) = 3 * fill h" "s32 (2 * 2 ^ k) = 2 * 2 ^ k" "s32 (4 * count h) = 4 * count h"
    by (rule s32_id; use f2 cf nn le in simp)+
  have up: "hash_update m True h =
      (if 3 * fill h \<ge> 2 * 2 ^ k then hash_resize m True (2 ^ Suc k) h
       else if 2 ^ k > hash_minsize \<and> 4 * count h \<le> 2 ^ k then hash_resize m True (2 ^ k div 2) h else Some (0, h))"
    by (simp add: hash_update_def old_size [OF wf] k(3) s Let_def)
  consider "3 * fill h \<ge> 2 * 2 ^ k" | "3 * fill h < 2 * 2 ^ k" "2 ^ k > hash_minsize" "4 * count h \<le> 2 ^ k"
    | "3 * fill h < 2 * 2 ^ k" "\<not> (2 ^ k > hash_minsize \<and> 4 * count h \<le> 2 ^ k)" by linarith
  then show ?thesis
  proof cases
    case 1
    have "count h < 2 ^ Suc k" by (rule le_less_trans [OF order_trans [OF cf f2]]) simp
    then obtain h' where h': "hash_resize m True (2 ^ Suc k) h = Some (0, h')" "wf h'" "has_room (table h')"
        "entries view (table h') = entries view (table h)" "length (table h') = 2 ^ Suc k" "fill h' = count h"
      using resize [OF wf, of "Suc k"] k26 k(1) by auto
    have "grown n h'" if "grown n h" for n using that 1 cf h'(5,6) by (simp add: grown_def)
    then show ?thesis using h' 1 unfolding up by auto
  next
    case 2
    have "k \<noteq> 3" using 2(2) by (auto simp: hash_minsize_def)
    then obtain j where j: "k = Suc j" "3 \<le> j" using k(1) by (cases k) auto
    have "(0 :: int) < 2 ^ j" by simp
    then have "count h < 2 ^ j" using 2(3) nn(1) unfolding j(1) power_Suc by linarith
    then obtain h' where h': "hash_resize m True (2 ^ j) h = Some (0, h')" "wf h'" "has_room (table h')"
        "entries view (table h') = entries view (table h)" "length (table h') = 2 ^ j" "fill h' = count h"
      using resize [OF wf j(2)] k26 j(1) by auto
    have "grown n h'" if "grown n h" for n using that cf h'(5,6) k(3) j(1) by (simp add: grown_def)
    then show ?thesis using h' 2 j(1) unfolding up by auto
  next
    case 3
    have "fill h < 2 ^ k" using 3(1) nn by simp
    then have "has_room (table h)" unfolding has_room_fill k(3) using fl(1) by (metis of_nat_less_iff of_nat_numeral of_nat_power)
    moreover have "hash_update m True h = Some (0, h)" using 3 unfolding up by auto
    ultimately show ?thesis using wf by blast
  qed
qed

lemma update_failed: "wf h \<Longrightarrow> \<exists>r. hash_update m False h = Some (r, h)"
  by (simp add: hash_update_def hash_resize_def hash_initialize_def Let_def)

text \<open>The operations.\<close>

lemma wf_code: "wf h \<Longrightarrow> valid key \<Longrightarrow> hfunc h m key = Some (code (view key))"
  by (simp add: table_wf_def hf_code)

lemma get:
  assumes "wf h" and "has_room (table h)" and "valid key"
  shows "hash_get m (Some h) key d = Some (case entries view (table h) (view key) of None \<Rightarrow> d | Some v \<Rightarrow> v)"
    and "hash_isset m (Some h) key = Some (\<not> absent h key)"
proof -
  obtain i where i: "i < length (table h)" "hash_lookup m h key (code (view key)) = Some i"
      "if absent h key then \<not> active (table h ! i) \<and> reached (table h) (h_mask h) (code (view key)) i
       else active (table h ! i) \<and> view (s_key (table h ! i)) = view key"
    using lookup [OF assms] by blast
  have one: "one_slot_each view (table h)" using assms(1) by (simp add: table_wf_def)
  have "entries view (table h) (view key) = Some (s_value (table h ! i))" if "\<not> absent h key"
    using i that unfolding entries_Some [OF one] by auto
  then show "hash_get m (Some h) key d = Some (case entries view (table h) (view key) of None \<Rightarrow> d | Some v \<Rightarrow> v)"
    and "hash_isset m (Some h) key = Some (\<not> absent h key)"
    using i wf_code [OF assms(1,3)] by (auto split: if_splits)
qed

text \<open>
  The table \<open>hash_set\<close> and \<open>hash_del\<close> have before they resize it.
\<close>

lemma set_slot:
  assumes wf: "wf h" and room: "has_room (table h)" and key: "valid key"
  shows "\<exists>h'. wf h' \<and> length (table h') = length (table h) \<and> entries view (table h') = (entries view (table h))(view key \<mapsto> val) \<and>
    hash_set m ok (Some h) key val =
      (if absent h key then map_option (\<lambda>(r, h2). (r, Some h2)) (hash_update m ok h') else Some (0, Some h')) \<and>
    (\<not> absent h key \<longrightarrow> has_room (table h')) \<and> fill h' \<le> fill h + 1"
proof -
  obtain i where i: "i < length (table h)" "hash_lookup m h key (code (view key)) = Some i"
      "if absent h key then \<not> active (table h ! i) \<and> reached (table h) (h_mask h) (code (view key)) i
       else active (table h ! i) \<and> view (s_key (table h ! i)) = view key"
    using lookup [OF assms] by blast
  note set = hash_set.simps(2) [of m ok h key val] wf_code [OF wf key] i(2)
  show ?thesis
  proof (cases "absent h key")
    case True
    then have a: "\<not> active (table h ! i)" "reached (table h) (h_mask h) (code (view key)) i" using i(3) by simp_all
    let ?h = "h\<lparr>count := count h + 1, fill := (if s_mode (table h ! i) = SL_EMPTY then fill h + 1 else fill h),
      table := (table h)[i := \<lparr>s_key = key, s_value = val, s_hash = code (view key), s_mode = SL_ACTIVE\<rparr>]\<rparr>"
    note put = put_new [OF wf key True i(1) a, of ?h val, OF hash.equality]
    have "wf ?h" by (rule put) simp_all
    moreover have "entries view (table ?h) = (entries view (table h))(view key \<mapsto> val)" by (rule put) simp_all
    moreover have "hash_set m ok (Some h) key val = map_option (\<lambda>(r, h2). (r, Some h2)) (hash_update m ok ?h)"
      using a(1) by (simp add: set)
    ultimately show ?thesis using True by (intro exI [of _ ?h]) simp
  next
    case False
    then have a: "active (table h ! i)" "view (s_key (table h ! i)) = view key" using i(3) by simp_all
    let ?s = "(table h ! i)\<lparr>s_value := val\<rparr>"
    let ?h = "h\<lparr>table := (table h)[i := ?s]\<rparr>"
    have one: "\<And>j. j < length (table h) \<Longrightarrow> j \<noteq> i \<Longrightarrow> active (table h ! j) \<Longrightarrow> view (s_key (table h ! j)) \<noteq> view key"
      using wf a i(1) unfolding table_wf_def one_slot_each_def by metis
    have sl: "valid (s_key (table h ! i)) \<and> s_hash (table h ! i) = code (view (s_key (table h ! i)))"
        "reached (table h) (h_mask h) (s_hash (table h ! i)) i"
      using wf a(1) i(1) by (auto simp: table_wf_def)
    note rs = replace_slot [OF wf i(1), of ?s ?h]
    have "wf ?h" by (rule rs) (use a one sl in auto)
    moreover have "entries view (table ?h) = (entries view (table h))(view key \<mapsto> val)"
      by (rule ext, subst rs) (use a one sl in auto)
    moreover have "hash_set m ok (Some h) key val = Some (0, Some ?h)" using a(1) by (simp add: set)
    moreover have "has_room (table ?h)"
      using has_room_keep [OF room] a(1) by simp
    ultimately show ?thesis using False by (intro exI [of _ ?h]) auto
  qed
qed

lemma set:
  assumes "wf h" and "has_room (table h)" and "valid key" and "length (table h) < 2 ^ 27"
  shows "\<exists>h'. hash_set m True (Some h) key val = Some (0, Some h') \<and> wf h' \<and> has_room (table h') \<and>
    entries view (table h') = (entries view (table h))(view key \<mapsto> val) \<and> (\<forall>n. grown n h \<longrightarrow> grown (Suc n) h')"
proof -
  obtain h1 where h1: "wf h1" "length (table h1) = length (table h)" "entries view (table h1) = (entries view (table h))(view key \<mapsto> val)"
      "hash_set m True (Some h) key val =
        (if absent h key then map_option (\<lambda>(r, h2). (r, Some h2)) (hash_update m True h1) else Some (0, Some h1))"
      "\<not> absent h key \<longrightarrow> has_room (table h1)" "fill h1 \<le> fill h + 1"
    using set_slot [OF assms(1-3), of val True] by blast
  have g: "grown (Suc n) h1" if "grown n h" for n using that h1(2,6) by (simp add: grown_def)
  obtain h2 where "hash_update m True h1 = Some (0, h2)" "wf h2" "has_room (table h2)" "entries view (table h2) = entries view (table h1)"
      "\<forall>n. grown n h1 \<longrightarrow> grown n h2"
    using update [OF h1(1)] h1(2) assms(4) by auto
  then show ?thesis using h1 g by (cases "absent h key") auto
qed

lemma set_failed:
  assumes "wf h" and "has_room (table h)" and "valid key"
  shows "\<exists>r h'. hash_set m False (Some h) key val = Some (r, Some h') \<and> wf h' \<and>
    entries view (table h') = (entries view (table h))(view key \<mapsto> val)"
proof -
  obtain h1 where h1: "wf h1" "entries view (table h1) = (entries view (table h))(view key \<mapsto> val)"
      "hash_set m False (Some h) key val =
        (if absent h key then map_option (\<lambda>(r, h2). (r, Some h2)) (hash_update m False h1) else Some (0, Some h1))"
    using set_slot [OF assms, of val False] by blast
  then show ?thesis using update_failed [OF h1(1)] by (cases "absent h key") auto
qed

lemma del:
  assumes wf: "wf h" and room: "has_room (table h)" and key: "valid key" and small: "length (table h) < 2 ^ 27"
  shows "\<exists>h'. hash_del m True (Some h) key = Some (0, Some h') \<and> wf h' \<and> has_room (table h') \<and>
    entries view (table h') = (entries view (table h))(view key := None) \<and> (\<forall>n. grown n h \<longrightarrow> grown n h')"
proof -
  obtain i where i: "i < length (table h)" "hash_lookup m h key (code (view key)) = Some i"
      "if absent h key then \<not> active (table h ! i) \<and> reached (table h) (h_mask h) (code (view key)) i
       else active (table h ! i) \<and> view (s_key (table h ! i)) = view key"
    using lookup [OF assms(1-3)] by blast
  note del = hash_del.simps(2) [of m True h key] wf_code [OF wf key] i(2)
  show ?thesis
  proof (cases "absent h key")
    case True
    then show ?thesis using i(3) wf room by (simp add: del fun_upd_idem)
  next
    case False
    then have a: "active (table h ! i)" "view (s_key (table h ! i)) = view key" using i(3) by simp_all
    let ?s = "\<lparr>s_key = 0, s_value = 0, s_hash = 0, s_mode = SL_DELETED\<rparr>"
    let ?h = "h\<lparr>table := (table h)[i := ?s], count := count h - 1\<rparr>"
    note rs = replace_slot [OF wf i(1), of ?s ?h]
    have "wf ?h" by (rule rs) (use a in auto)
    moreover have e: "entries view (table ?h) = (entries view (table h))(view key := None)"
      by (rule ext, subst rs) (use a in auto)
    ultimately obtain h2 where "hash_update m True ?h = Some (0, h2)" "wf h2" "has_room (table h2)"
        "entries view (table h2) = entries view (table ?h)" "\<forall>n. grown n ?h \<longrightarrow> grown n h2"
      using update [of ?h] small by auto
    moreover have "grown n ?h" if "grown n h" for n using that by (simp add: grown_def)
    ultimately show ?thesis using a(1) e by (auto simp: del)
  qed
qed

lemma init: "\<exists>h'. hash_init True hf cf h = (0, h') \<and> wf h' \<and> has_room (table h') \<and> entries view (table h') = Map.empty"
proof -
  let ?h = "h\<lparr>fill := 0, count := 0, h_mask := 7, table := replicate 8 empty_slot, hfunc := hf, cmp := cf\<rparr>"
  have "?h = h\<lparr>hfunc := hf, cmp := cf, fill := 0, count := 0, h_mask := 2 ^ 3 - 1, table := replicate (2 ^ 3) empty_slot\<rparr>"
    by (rule hash.equality) simp_all
  then have "wf ?h" by (simp only:) (rule fresh, simp_all)
  moreover have "hash_init True hf cf h = (0, ?h)" by (simp add: hash_init_def hash_initialize_def hash_minsize_def)
  moreover have "has_room (table ?h)" by (simp add: has_room_def empty_slot_def)
  ultimately show ?thesis by (intro exI [of _ ?h]) simp
qed

text \<open>A table without an empty slot never answers a lookup of a key it does not have.\<close>

lemma full:
  assumes wf: "wf h" and full: "\<not> has_room (table h)" and key: "valid key" "absent h key"
  shows "hash_lookup m h key (code (view key)) = None"
proof -
  let ?hash = "code (view key)"
  have no: "s_mode s \<noteq> SL_EMPTY \<and> slot_matches m h key ?hash s = Some False" if "s \<in> set (table h)" for s
    using full that wf_matches [OF wf key(1) that] key(2) unfolding has_room_def
    by (auto simp: entries_None in_set_conv_nth)
  have "False" if "hash_probe m h key ?hash index perturb fs = Some r" for index perturb fs r
  proof -
    have "\<not> (m = m \<and> h = h \<and> key = key \<and> ?hash = ?hash)"
    proof (rule hash_probe.raw_induct [where P = "\<lambda>m' h' key' hash' index perturb fs r.
          \<not> (m' = m \<and> h' = h \<and> key' = key \<and> hash' = ?hash)", OF _ that], rule notI, elim conjE, goal_cases)
      case (1 probe m' h' key' hash' index perturb fs r)
      have "unat (index AND h_mask h) < length (table h)" using wf by (elim wf_size) (simp add: and_mask)
      then have "probe m h key ?hash (5 * index + perturb + 1) (drop_bit 5 perturb)
          (if s_mode (table h ! unat (index AND h_mask h)) = SL_DELETED \<and> fs = None
           then Some (unat (index AND h_mask h)) else fs) = Some r"
        using 1(2) no [OF nth_mem] unfolding 1(3-) by (simp add: Let_def)
      from 1(1) [OF this] show False by simp
    qed
    then show False by simp
  qed
  then show ?thesis unfolding hash_lookup_def by (metis not_None_eq)
qed

end

section \<open>The two kinds of keys\<close>

partial_function (option) text_from :: "u32 \<Rightarrow> mem8 \<Rightarrow> u8 list option" where
  "text_from p m = (if m p = 0 then Some [] else Option.bind (text_from (p + 1) m) (\<lambda>s. Some (m p # s)))"

definition text_at :: "mem8 \<Rightarrow> u32 \<Rightarrow> u8 list" where "text_at m p = the (text_from p m)"

definition text_code :: "u8 list \<Rightarrow> u32" where
  "text_code s = foldl (\<lambda>h c. (push_bit 5 h + h) XOR scast c) 5381 s"

lemma text_from_cstr: "cstr m p s \<Longrightarrow> text_from p m = Some s"
  by (induction s arbitrary: p) (simp_all add: text_from.simps)

lemma text_at_cstr: "cstr m p s \<Longrightarrow> text_at m p = s"
  by (simp add: text_at_def text_from_cstr)

lemma hash_string_from_cstr:
  "cstr m p s \<Longrightarrow> hash_string_from p h m = Some (foldl (\<lambda>h c. (push_bit 5 h + h) XOR scast c) h s)"
  by (induction s arbitrary: p h) (simp_all add: hash_string_from.simps)

interpretation direct: hash_keys m hash_direct_hfunc hash_direct_cmp id id "\<lambda>k. True" for m
  by unfold_locales (simp_all add: hash_direct_hfunc_def hash_direct_cmp_def)

interpretation strings: hash_keys m hash_string_hfunc hash_string_cmp "text_at m" text_code "\<lambda>k. \<exists>s. cstr m k s" for m
proof (unfold_locales, elim exE)
  fix k s assume "cstr m k s"
  then show "hash_string_hfunc m k = Some (text_code (text_at m k))"
    by (simp add: hash_string_hfunc_def text_at_cstr text_code_def hash_string_from_cstr)
next
  fix j k assume "\<exists>s. cstr m j s" "\<exists>s. cstr m k s"
  then obtain s t where st: "cstr m j s" "cstr m k t" by blast
  then have "0 \<notin> set s" "0 \<notin> set t" by (simp_all add: cstr_bytes)
  then show "hash_string_cmp m j k = Some (text_at m j = text_at m k)"
    using st by (simp add: hash_string_cmp_def strcmp_first_diff [OF st] first_diff_zero text_at_cstr)
qed

section \<open>What the tables promise\<close>

definition string_table :: "mem8 \<Rightarrow> hash \<Rightarrow> bool" where
  "string_table m h \<longleftrightarrow>
     table_wf hash_string_hfunc hash_string_cmp (text_at m) text_code (\<lambda>k. \<exists>s. cstr m k s) h \<and> has_room (table h)"

definition texts :: "mem8 \<Rightarrow> hash \<Rightarrow> u8 list \<Rightarrow> u32 option" where
  "texts m h = entries (text_at m) (table h)"

definition direct_table :: "hash \<Rightarrow> bool" where
  "direct_table h \<longleftrightarrow> table_wf hash_direct_hfunc hash_direct_cmp id id (\<lambda>k. True) h"

definition pointers :: "hash \<Rightarrow> u32 \<Rightarrow> u32 option" where
  "pointers h = entries id (table h)"

text \<open>A new table of strings is empty.\<close>

lemma string_table_init:
  "\<exists>h'. hash_init_string True h = (0, h') \<and> string_table m h' \<and> texts m h' = Map.empty \<and> length (table h') = 8"
proof -
  obtain h' where h': "hash_init_string True h = (0, h')" "string_table m h'" "texts m h' = Map.empty"
    using strings.init [of h m] by (auto simp: string_table_def texts_def hash_init_string_def)
  then have "length (table h') = 8"
    by (auto simp: hash_init_string_def hash_init_def hash_initialize_def hash_minsize_def)
  then show ?thesis using h' by blast
qed

text \<open>
  C18. A table of strings with an empty slot is a finite map from texts to values: a lookup, which
  always comes back, gives the value of the text its key points to, setting and deleting update the
  map at that text, and the table keeps an empty slot, whatever the pointer the text lies at, the
  collisions and the resizing.
\<close>

theorem string_table_is_a_map:
  assumes "string_table m h" and "cstr m key s" and "length (table h) < 2 ^ 27"
  shows "hash_get m (Some h) key d = Some (case texts m h s of None \<Rightarrow> d | Some v \<Rightarrow> v) \<and>
    hash_isset m (Some h) key = Some (texts m h s \<noteq> None) \<and>
    (\<exists>h'. hash_set m True (Some h) key val = Some (0, Some h') \<and> string_table m h' \<and> texts m h' = (texts m h)(s \<mapsto> val)) \<and>
    (\<exists>h'. hash_del m True (Some h) key = Some (0, Some h') \<and> string_table m h' \<and> texts m h' = (texts m h)(s := None))"
proof -
  have k: "\<exists>s. cstr m key s" "text_at m key = s" using assms(2) text_at_cstr by auto
  note h = assms(1) [unfolded string_table_def, THEN conjunct1] assms(1) [unfolded string_table_def, THEN conjunct2]
  show ?thesis
    using strings.get [OF h k(1)] strings.set [OF h k(1) assms(3)] strings.del [OF h k(1) assms(3)]
    unfolding string_table_def texts_def k(2) by metis
qed

theorem string_table_is_a_map_witness:
  "\<exists>h h'. hash_init_string True no_table = (0, h) \<and> hash_get hello (Some h) 0x100 9 = Some 9 \<and>
    hash_set hello True (Some h) 0x100 7 = Some (0, Some h') \<and> texts hello h' [97, 44, 98] = Some 7"
proof -
  obtain h where h: "hash_init_string True no_table = (0, h)" "string_table hello h" "texts hello h = Map.empty" "length (table h) = 8"
    using string_table_init by blast
  have "cstr hello 0x100 [97, 44, 98]" by (simp add: hello_def)
  then show ?thesis using string_table_is_a_map [OF h(2), of "0x100" "[97, 44, 98]" 9 7] h(1,3,4) by auto
qed

text \<open>
  When the allocator gives no memory to resize, \<open>hash_set\<close> returns -1 and has stored the value all
  the same. A table that has no empty slot left in this way never answers again for a key it does not
  hold: the lookup does not terminate.
\<close>

theorem full_table_hangs:
  assumes "direct_table h" and "\<not> has_room (table h)" and "pointers h key = None"
  shows "hash_get m (Some h) key d = None \<and> hash_isset m (Some h) key = None \<and>
    hash_set m ok (Some h) key val = None \<and> hash_del m ok (Some h) key = None"
proof -
  have "hfunc h m key = Some key" "hash_lookup m h key key = None"
    using direct.wf_code [where m = m and h = h and key = key] direct.full [where m = m and h = h and key = key] assms by (simp_all add: direct_table_def pointers_def)
  then show ?thesis by simp
qed

fun set_all :: "bool \<Rightarrow> hash option \<Rightarrow> u32 list \<Rightarrow> (int list \<times> hash option) option" where
  "set_all ok h [] = Some ([], h)"
| "set_all ok h (k # ks) = Option.bind (hash_set (\<lambda>a. 0) ok h k 1) (\<lambda>(r, h1).
     Option.bind (set_all ok h1 ks) (\<lambda>(rs, h2). Some (r # rs, h2)))"

definition full8 :: hash where
  "full8 = \<lparr>fill = 8, count = 8, h_mask = 7,
     table = map (\<lambda>k. \<lparr>s_key = k, s_value = 1, s_hash = k, s_mode = SL_ACTIVE\<rparr>) [8, 9, 10, 11, 12, 13, 14, 15],
     hfunc = hash_direct_hfunc, cmp = hash_direct_cmp\<rparr>"

lemma eight_failed_sets:
  "map_option (\<lambda>(rs, h). (rs, map_option table h)) (set_all False (Some (snd (hash_init_direct True no_table))) [8, 9, 10, 11, 12, 13, 14, 15]) =
     Some ([0, 0, 0, 0, 0, - 1, - 1, - 1], Some (table full8))"
  by code_simp

lemma direct_table_full8: "direct_table full8"
proof -
  have r: "\<forall>i<8. place (s_hash (table full8 ! i)) 7 0 = i" by code_simp
  have d: "\<forall>i<8. \<forall>j<8. s_key (table full8 ! i) = s_key (table full8 ! j) \<longrightarrow> i = j" by code_simp
  have "\<exists>k. 3 \<le> k \<and> k \<le> 27 \<and> length (table full8) = 2 ^ k \<and> h_mask full8 = 2 ^ k - 1"
    by (intro exI [of _ 3]) (simp add: full8_def)
  moreover have l: "length (table full8) = 8" by (simp add: full8_def)
  ultimately show ?thesis
    unfolding direct_table_def table_wf_def one_slot_each_def reached_def l
    using r d by (auto simp: full8_def intro!: exI [of _ "0 :: nat"])
qed

theorem full_table_hangs_witness: "hash_get (\<lambda>a. 0) (Some full8) 16 0 = None"
  using full_table_hangs [OF direct_table_full8, of 16]
  by (simp add: full8_def has_room_def pointers_def entries_def)

end
