(* ===== verification/TextStore.thy ===== *)
theory TextStore
  imports HashSpec
begin

text \<open>
  The interface the clients of the hash table rely on, the table of applications and the table of
  shared pages: a store of values under texts, whose keys are pointers to the texts. \<open>good m n t\<close> says
  that the store is well formed after \<open>n\<close> insertions when the memory is \<open>m\<close>. The laws are those of a
  map, and that a change of the memory that keeps the texts of the stored keys keeps the store.
\<close>

fun put_all :: "('t \<Rightarrow> u32 \<Rightarrow> u32 \<Rightarrow> (int \<times> 't) option) \<Rightarrow> (u32 \<times> u32) list \<Rightarrow> 't \<Rightarrow> 't option" where
  "put_all put [] t = Some t"
| "put_all put ((k, v) # kvs) t = Option.bind (put t k v) (\<lambda>(r, t1). put_all put kvs t1)"

lemma map_of_rev_distinct: "distinct (map fst xs) \<Longrightarrow> map_of (rev xs) = map_of xs"
proof (induction xs)
  case (Cons x xs)
  then have "fst x \<notin> dom (map_of xs)" by (simp add: dom_map_of_conv_image_fst)
  then show ?case using Cons by (simp add: map_add_upd_left)
qed simp

locale text_store =
  fixes good :: "mem8 \<Rightarrow> nat \<Rightarrow> 't \<Rightarrow> bool" and look :: "mem8 \<Rightarrow> 't \<Rightarrow> u8 list \<Rightarrow> u32 option" and keys :: "'t \<Rightarrow> u32 set"
    and get :: "mem8 \<Rightarrow> 't \<Rightarrow> u32 \<Rightarrow> u32 \<Rightarrow> u32 option"
    and put :: "mem8 \<Rightarrow> 't \<Rightarrow> u32 \<Rightarrow> u32 \<Rightarrow> (int \<times> 't) option"
    and del :: "mem8 \<Rightarrow> 't \<Rightarrow> u32 \<Rightarrow> (int \<times> 't) option"
    and most :: nat
  assumes get_look: "good m n t \<Longrightarrow> cstr m k s \<Longrightarrow> get m t k d = Some (case look m t s of None \<Rightarrow> d | Some v \<Rightarrow> v)"
    and put_look: "good m n t \<Longrightarrow> n < most \<Longrightarrow> cstr m k s \<Longrightarrow>
      \<exists>t'. put m t k v = Some (0, t') \<and> good m (Suc n) t' \<and> look m t' = (look m t)(s \<mapsto> v)"
    and del_look: "good m n t \<Longrightarrow> n < most \<Longrightarrow> cstr m k s \<Longrightarrow>
      \<exists>t'. del m t k = Some (0, t') \<and> good m n t' \<and> look m t' = (look m t)(s := None)"
    and frame: "good m n t \<Longrightarrow> (\<And>k s. k \<in> keys t \<Longrightarrow> cstr m k s \<Longrightarrow> cstr m' k s) \<Longrightarrow> good m' n t \<and> look m' t = look m t"
begin

lemma put_all_look:
  assumes "good m n t" and "n + length kvs \<le> most" and "list_all2 (\<lambda>(k, v) (s, w). cstr m k s \<and> w = v) kvs svs"
  shows "\<exists>t'. put_all (put m) kvs t = Some t' \<and> good m (n + length kvs) t' \<and> look m t' = look m t ++ map_of (rev svs)"
  using assms
proof (induction kvs arbitrary: n t svs)
  case (Cons kv kvs)
  obtain k v where kv: "kv = (k, v)" by fastforce
  obtain s svs' where s: "svs = (s, v) # svs'" "cstr m k s" "list_all2 (\<lambda>(k, v) (s, w). cstr m k s \<and> w = v) kvs svs'"
    using Cons.prems(3) kv by (auto simp: list_all2_Cons1)
  obtain t1 where t1: "put m t k v = Some (0, t1)" "good m (Suc n) t1" "look m t1 = (look m t)(s \<mapsto> v)"
    using put_look [OF Cons.prems(1) _ s(2)] Cons.prems(2) by auto
  obtain t' where t': "put_all (put m) kvs t1 = Some t'" "good m (Suc n + length kvs) t'" "look m t' = look m t1 ++ map_of (rev svs')"
    using Cons.IH [OF t1(2) _ s(3)] Cons.prems(2) by auto
  have "(look m t)(s \<mapsto> v) ++ map_of (rev svs') = look m t ++ map_of (rev svs)"
    by (simp add: s(1) map_add_assoc [symmetric])
  then show ?case using t1 t' kv by simp
qed simp

text \<open>Storing a list of distinct texts, and looking one of them up under any pointer.\<close>

lemma put_all_get:
  assumes "good m n t" and "n + length kvs \<le> most" and "list_all2 (\<lambda>(k, v) (s, w). cstr m k s \<and> w = v) kvs svs"
    and "distinct (map fst svs)" and "cstr m p s"
  shows "\<exists>t'. put_all (put m) kvs t = Some t' \<and>
    get m t' p d = Some (case map_of svs s of Some v \<Rightarrow> v | None \<Rightarrow> (case look m t s of None \<Rightarrow> d | Some v \<Rightarrow> v))"
proof -
  obtain t' where t': "put_all (put m) kvs t = Some t'" "good m (n + length kvs) t'" "look m t' = look m t ++ map_of (rev svs)"
    using put_all_look [OF assms(1-3)] by blast
  have "map_of (rev svs) = map_of svs" using assms(4) by (rule map_of_rev_distinct)
  then show ?thesis using t' get_look [OF t'(2) assms(5), of d] by (simp add: map_add_def split: option.split)
qed

text \<open>What was stored under a text is found under every copy of it, until it is deleted.\<close>

lemma put_get:
  assumes "good m n t" and "n < most" and "cstr m k s" and "cstr m p s"
  shows "\<exists>t'. put m t k v = Some (0, t') \<and> get m t' p d = Some v"
  using put_look [OF assms(1-3), of v] get_look [OF _ assms(4), of "Suc n" _ d] by fastforce

end

section \<open>The hash table provides it\<close>

definition slot_keys :: "hash option \<Rightarrow> u32 set" where
  "slot_keys t = (case t of None \<Rightarrow> {} | Some h \<Rightarrow> s_key ` {s \<in> set (table h). active s})"

definition good_table :: "mem8 \<Rightarrow> nat \<Rightarrow> hash option \<Rightarrow> bool" where
  "good_table m n t \<longleftrightarrow> (case t of None \<Rightarrow> False | Some h \<Rightarrow> string_table m h \<and> grown n h)"

definition table_texts :: "mem8 \<Rightarrow> hash option \<Rightarrow> u8 list \<Rightarrow> u32 option" where
  "table_texts m t = (case t of None \<Rightarrow> Map.empty | Some h \<Rightarrow> texts m h)"

lemma grown_bound: "grown n h \<Longrightarrow> n < 2 ^ 25 \<Longrightarrow> length (table h) < 2 ^ 27"
  by (simp add: grown_def)

lemma table_wf_frame:
  assumes wf: "table_wf hf cf view code valid h"
    and f: "\<And>s. s \<in> set (table h) \<Longrightarrow> active s \<Longrightarrow> view' (s_key s) = view (s_key s) \<and> valid' (s_key s)"
  shows "table_wf hf cf view' code valid' h" and "entries view' (table h) = entries view (table h)"
proof -
  have "one_slot_each view' (table h)"
    using wf f nth_mem unfolding table_wf_def one_slot_each_def by metis
  then show "table_wf hf cf view' code valid' h" using wf f by (auto simp: table_wf_def)
  have "map (\<lambda>s. (view' (s_key s), s_value s)) (filter active (table h)) = map (\<lambda>s. (view (s_key s), s_value s)) (filter active (table h))"
    using f by (intro map_cong) auto
  then show "entries view' (table h) = entries view (table h)" by (simp only: entries_def)
qed

interpretation kv: text_store good_table table_texts slot_keys hash_get "\<lambda>m. hash_set m True" "\<lambda>m. hash_del m True" "2 ^ 25"
proof (unfold_locales, goal_cases)
  case (1 m n t k s d)
  then obtain h where "t = Some h" "string_table m h" by (auto simp: good_table_def split: option.splits)
  then show ?case using strings.get [where m = m and h = h and key = k] 1(2) text_at_cstr
    by (auto simp: string_table_def table_texts_def texts_def)
next
  case (2 m n t k s v)
  then obtain h where h: "t = Some h" "string_table m h" "grown n h" by (auto simp: good_table_def split: option.splits)
  then show ?case using strings.set [where m = m and h = h and key = k and val = v] 2(3) text_at_cstr grown_bound [OF h(3) 2(2)]
    by (fastforce simp: string_table_def table_texts_def texts_def good_table_def)
next
  case (3 m n t k s)
  then obtain h where h: "t = Some h" "string_table m h" "grown n h" by (auto simp: good_table_def split: option.splits)
  then show ?case using strings.del [where m = m and h = h and key = k] 3(3) text_at_cstr grown_bound [OF h(3) 3(2)]
    by (fastforce simp: string_table_def table_texts_def texts_def good_table_def)
next
  case (4 m n t m')
  then obtain h where h: "t = Some h" "string_table m h" "grown n h" by (auto simp: good_table_def split: option.splits)
  have f: "text_at m' (s_key s) = text_at m (s_key s) \<and> (\<exists>t. cstr m' (s_key s) t)" if "s \<in> set (table h)" "active s" for s
  proof -
    have "\<exists>x. cstr m (s_key s) x" using h(2) that by (simp add: string_table_def table_wf_def)
    then obtain x where x: "cstr m (s_key s) x" by blast
    have "s_key s \<in> slot_keys t" using that h(1) by (simp add: slot_keys_def)
    then have "cstr m' (s_key s) x" using 4(2) x by blast
    then show ?thesis using x text_at_cstr by metis
  qed
  show ?case using table_wf_frame [OF h(2) [unfolded string_table_def, THEN conjunct1] f] h
    by (simp add: good_table_def string_table_def table_texts_def texts_def)
qed

end
