(* ===== verification/UserApps.thy ===== *)
theory UserApps
  imports TextStore
begin

text \<open>
  \<open>kernel/userspace_apps.c\<close>: the table of the applications linked into the kernel. The array
  \<open>symbols_table\<close> is generated by the build; it is given by its address and the list of the name
  pointers of its entries, which the null name ends. The value stored under a name is the address of
  the entry.
\<close>

text \<open>\<open>sizeof(struct uapps)\<close>: three pointers.\<close>

definition sizeof_uapps :: u32 where "sizeof_uapps = 12"

definition uapp_address :: "u32 \<Rightarrow> nat \<Rightarrow> u32" where
  "uapp_address base i = base + of_nat i * sizeof_uapps"

text \<open>The loop of \<open>uapp_init\<close> ignores the answers of \<open>hash_set\<close>.\<close>

definition uapp_init :: "mem8 \<Rightarrow> u32 \<Rightarrow> u32 list \<Rightarrow> hash \<Rightarrow> hash option option" where
  "uapp_init m symbols_table names symbol_to_uapp =
     put_all (hash_set m True) (zip names (map (uapp_address symbols_table) [0..<length names]))
       (Some (snd (hash_init_string True symbol_to_uapp)))"

text \<open>\<open>ERR_PTR(-EINVAL)\<close> when the name is not in the table.\<close>

definition err_ptr :: "int \<Rightarrow> u32" where "err_ptr e = word_of_int e"

definition get_uapp_by_name :: "mem8 \<Rightarrow> hash option \<Rightarrow> u32 \<Rightarrow> u32 option" where
  "get_uapp_by_name m symbol_to_uapp name =
     map_option (\<lambda>uapp. if uapp = 0 then err_ptr (- 22) else uapp) (hash_get m symbol_to_uapp name 0)"

text \<open>
  After \<open>uapp_init\<close> on a table of applications with distinct names, \<open>get_uapp_by_name\<close> finds the
  entry of every application under any pointer to its name, and answers \<open>ERR_PTR(-EINVAL)\<close> for a name
  that is not in the table.
\<close>

lemma apps_found_by_name:
  assumes "list_all2 (cstr m) names strs" and "distinct strs" and "length names < 2 ^ 25" and "cstr m p s"
    and "\<forall>i<length names. uapp_address base i \<noteq> 0"
  shows "\<exists>t. uapp_init m base names h = Some t \<and>
    (\<forall>i<length names. s = strs ! i \<longrightarrow> get_uapp_by_name m t p = Some (uapp_address base i)) \<and>
    (s \<notin> set strs \<longrightarrow> get_uapp_by_name m t p = Some (err_ptr (- 22)))"
proof -
  let ?vals = "map (uapp_address base) [0..<length names]"
  have len: "length names = length strs" using assms(1) by (rule list_all2_lengthD)
  obtain h1 where h1: "hash_init_string True h = (0, h1)" "string_table m h1" "texts m h1 = Map.empty" "length (table h1) = 8"
    using string_table_init by blast
  have "fill h1 = 0" using h1(1) by (auto simp: hash_init_string_def hash_init_def hash_initialize_def)
  then have good: "good_table m 0 (Some h1)" using h1 by (simp add: good_table_def grown_def)
  have l2: "list_all2 (\<lambda>(k, v) (s, w). cstr m k s \<and> w = v) (zip names ?vals) (zip strs ?vals)"
    using assms(1) by (simp add: list_all2_conv_all_nth)
  have d: "distinct (map fst (zip strs ?vals))" using assms(2) len by simp
  have e: "table_texts m (Some h1) = Map.empty" using h1(3) by (simp add: table_texts_def)
  obtain t where t: "uapp_init m base names h = Some t"
      "hash_get m t p 0 = Some (case map_of (zip strs ?vals) s of Some v \<Rightarrow> v | None \<Rightarrow> 0)"
    using kv.put_all_get [OF good _ l2 d assms(4), of 0] assms(3) h1(1) unfolding e option.simps(4) by (auto simp: uapp_init_def)
  have "get_uapp_by_name m t p = Some (uapp_address base i)" if "i < length names" "s = strs ! i" for i
  proof -
    have "map_of (zip strs ?vals) s = Some (?vals ! i)" using that len assms(2) by (simp add: map_of_zip_nth)
    then show ?thesis using t(2) that assms(5) by (simp add: get_uapp_by_name_def)
  qed
  moreover have "get_uapp_by_name m t p = Some (err_ptr (- 22))" if "s \<notin> set strs"
  proof -
    have "map_of (zip strs ?vals) s = None" using that len by simp
    then show ?thesis using t(2) by (simp add: get_uapp_by_name_def)
  qed
  ultimately show ?thesis using t(1) by blast
qed

lemma apps_example:
  "\<exists>t. uapp_init hello 0x5000 [0x100, 0x200] no_table = Some t \<and> get_uapp_by_name hello t 0x200 = Some 0x500C"
proof -
  have u: "\<forall>i<length [0x100 :: u32, 0x200]. uapp_address 0x5000 i \<noteq> 0"
    by (auto simp: uapp_address_def sizeof_uapps_def less_Suc_eq)
  obtain t where "uapp_init hello 0x5000 [0x100, 0x200] no_table = Some t"
      "\<forall>i<length [0x100 :: u32, 0x200]. [44 :: u8] = [[97, 44, 98], [44]] ! i \<longrightarrow> get_uapp_by_name hello t 0x200 = Some (uapp_address 0x5000 i)"
    using apps_found_by_name [of hello "[0x100, 0x200]" "[[97, 44, 98], [44]]" "0x200" "[44]", OF _ _ _ _ u, of no_table] hello_strings by auto
  then show ?thesis by (auto simp: uapp_address_def sizeof_uapps_def)
qed

end
