(* ===== verification/Shm.thy ===== *)
theory Shm
  imports TextStore Paging
begin

text \<open>
  \<open>kernel/shm.c\<close>: pages shared under a name. The state holds the map of the virtual pages in the shared
  region, the hash table from names to \<open>struct shp\<close>, the structures themselves by address, the
  physical memory of \<open>Paging\<close>, and the bytes of the strings (\<open>kmem\<close>). \<open>dir\<close> is the page directory of
  the running process; \<open>key_alloc\<close> and \<open>shp\<close> are the blocks \<open>mem_alloc\<close> returns (0 when it has none),
  \<open>ok\<close> its answer to a resizing of the table. A loop that does not end is \<open>Inl No_Return\<close>.
\<close>

section \<open>The state\<close>

record shp =
  physical_address :: u32
  virtual_address :: u32
  refcount :: u64
  shp_key :: u32

record shm =
  virtual_map :: "int list"
  shp_table :: "hash option"
  shps :: "u32 \<Rightarrow> shp option"
  smem :: pmem
  kmem :: mem8

definition nb_pages :: int where "nb_pages = 1"
definition page_max :: nat where "page_max = 256"
definition shared_start :: u32 where "shared_start = 0xFFF00000"

definition returns :: "'a option \<Rightarrow> 'a res" where
  "returns x = (case x of None \<Rightarrow> Inl No_Return | Some y \<Rightarrow> Inr y)"

section \<open>Virtual pages\<close>

text \<open>The loop of \<open>allocate_memory\<close> from page \<open>i\<close>; the null pointer is 0.\<close>

fun allocate_from :: "nat \<Rightarrow> int list \<Rightarrow> int list \<Rightarrow> u32 \<times> int list" where
  "allocate_from i done [] = (0, done)"
| "allocate_from i done (v # vs) =
     (if v = 0 then (shared_start + page_size * of_nat i, done @ 1 # vs) else allocate_from (i + 1) (done @ [v]) vs)"

definition allocate_memory :: "int list \<Rightarrow> u32 \<times> int list" where
  "allocate_memory vm = allocate_from 0 [] vm"

definition free_memory :: "u32 \<Rightarrow> int list \<Rightarrow> int list res" where
  "free_memory addr vm =
     (let index = unat ((addr - shared_start) div page_size)
      in if index < page_max then Inr (vm[index := 0]) else Inl Out_Of_Bounds)"

section \<open>The operations\<close>

definition shm_init :: "bool \<Rightarrow> shm \<Rightarrow> shm" where
  "shm_init ok st = st\<lparr>shp_table := map_option (\<lambda>h. snd (hash_init_string ok h)) (shp_table st)\<rparr>"

definition map_shared :: "u32 \<Rightarrow> shp \<Rightarrow> pmem \<Rightarrow> pmem res" where
  "map_shared dir s m =
     map_zone dir (ucast (virtual_address s)) (ucast (virtual_address s + page_size - 1))
       (ucast (physical_address s)) (ucast (physical_address s + page_size - 1)) (pg_rw OR pg_us) m"

definition shm_create :: "u32 \<Rightarrow> u32 \<Rightarrow> u32 \<Rightarrow> bool \<Rightarrow> u32 \<Rightarrow> shm \<Rightarrow> (u32 \<times> shm) res" where
  "shm_create dir key_alloc shp ok key st =
     (if key = 0 then Inl Null_Deref
      else bindE (returns (strlen key (kmem st))) (\<lambda>len.
        if key_alloc = 0 then Inl Null_Deref
        else let st = st\<lparr>kmem := memcpy key_alloc key (unat len + 1) (kmem st)\<rparr>
        in bindE (returns (hash_isset (kmem st) (shp_table st) key_alloc)) (\<lambda>exists.
          if exists then Inr (0, st)
          else bindE (alloc_pages nb_pages (smem st)) (\<lambda>(address, m1).
            let st = st\<lparr>smem := m1\<rparr>
            in case allocate_memory (virtual_map st) of (va, vm) \<Rightarrow>
              if va = 0 then Inr (0, st)
              else if shp = 0 then Inl Null_Deref
              else let s = \<lparr>physical_address = address, virtual_address = va, refcount = 1, shp_key = key_alloc\<rparr>
                in bindE (map_shared dir s m1) (\<lambda>m2.
                   bindE (returns (hash_set (kmem st) ok (shp_table st) key_alloc shp)) (\<lambda>(r, t).
                     Inr (va, st\<lparr>virtual_map := vm, shps := (shps st)(shp := Some s), smem := m2, shp_table := t\<rparr>)))))))"

definition shm_acquire :: "u32 \<Rightarrow> u32 \<Rightarrow> shm \<Rightarrow> (u32 \<times> shm) res" where
  "shm_acquire dir key st =
     bindE (returns (hash_get (kmem st) (shp_table st) key 0)) (\<lambda>p.
       if p = 0 then Inr (0, st)
       else case shps st p of
         None \<Rightarrow> Inl Use_After_Free
       | Some s \<Rightarrow>
           (let s = s\<lparr>refcount := refcount s + 1\<rparr>
            in bindE (map_shared dir s (smem st)) (\<lambda>m1.
                 Inr (virtual_address s, st\<lparr>shps := (shps st)(p := Some s), smem := m1\<rparr>))))"

definition shm_release :: "u32 \<Rightarrow> bool \<Rightarrow> u32 \<Rightarrow> shm \<Rightarrow> shm res" where
  "shm_release dir ok key st =
     bindE (returns (hash_get (kmem st) (shp_table st) key 0)) (\<lambda>p.
       if p = 0 then Inr st
       else case shps st p of
         None \<Rightarrow> Inl Use_After_Free
       | Some s \<Rightarrow>
           bindE (unmap_zone dir (ucast (virtual_address s)) (ucast (virtual_address s + page_size - 1)) (smem st)) (\<lambda>m1.
             let s = s\<lparr>refcount := refcount s - 1\<rparr>; st = st\<lparr>shps := (shps st)(p := Some s), smem := m1\<rparr>
             in if refcount s \<noteq> 0 then Inr st
                else bindE (returns (hash_del (kmem st) ok (shp_table st) key)) (\<lambda>(r, t).
                     bindE (free_pages_at (physical_address s) nb_pages (smem st)) (\<lambda>m2.
                     bindE (free_memory (virtual_address s) (virtual_map st)) (\<lambda>vm.
                       Inr (st\<lparr>shp_table := t, smem := m2, virtual_map := vm, shps := (shps st)(p := None)\<rparr>))))))"

section \<open>Virtual addresses\<close>

lemma allocate_from_spec:
  "allocate_from i pre vm = (if 0 \<in> set vm
     then let j = length (takeWhile (\<lambda>v. v \<noteq> 0) vm) in (shared_start + page_size * of_nat (i + j), pre @ vm[j := 1])
     else (0, pre @ vm))"
  by (induction i pre vm rule: allocate_from.induct) (auto simp: Let_def ac_simps)

lemma allocate_memory_spec:
  "allocate_memory vm = (if 0 \<in> set vm
     then let j = length (takeWhile (\<lambda>v. v \<noteq> 0) vm) in (shared_start + page_size * of_nat j, vm[j := 1])
     else (0, vm))"
  by (simp add: allocate_memory_def allocate_from_spec)

lemma unat_shared: "i < 256 \<Longrightarrow> unat (shared_start + page_size * of_nat i) = 0xFFF00000 + 4096 * i"
proof -
  assume i: "i < 256"
  have "page_size * of_nat i = (of_nat (4096 * i) :: u32)" by (simp add: page_size_def)
  moreover have "unat (of_nat (4096 * i) :: u32) = 4096 * i" using i by (intro unat_of_nat32) simp
  ultimately have "unat (page_size * of_nat i) = 4096 * i" by (simp only:)
  then have "unat (shared_start + page_size * of_nat i) = unat shared_start + 4096 * i"
    using i by (subst unat_word_ariths(1)) (simp add: shared_start_def)
  then show ?thesis by (simp add: shared_start_def)
qed

lemma first_zero: "0 \<in> set vm \<Longrightarrow>
    length (takeWhile (\<lambda>v. v \<noteq> 0) vm) < length vm \<and> vm ! length (takeWhile (\<lambda>v. v \<noteq> 0) vm) = 0"
  by (induction vm) auto

lemma allocate_memory_free:
  assumes "allocate_memory vm = (va, vm')" and "va \<noteq> 0" and "length vm = page_max"
  obtains i where "i < 256" and "vm ! i = 0" and "va = shared_start + page_size * of_nat i" and "vm' = vm[i := 1]"
proof -
  let ?i = "length (takeWhile (\<lambda>v. v \<noteq> 0) vm)"
  have z: "0 \<in> set vm" using assms(1,2) by (simp add: allocate_memory_spec split: if_splits)
  have "vm ! ?i = 0" "?i < length vm" using first_zero [OF z] by simp_all
  then show thesis using that [of ?i] z assms by (simp add: allocate_memory_spec Let_def page_max_def)
qed

lemma free_allocated: "i < 256 \<Longrightarrow> free_memory (shared_start + page_size * of_nat i) vm = Inr (vm[i := 0])"
proof -
  assume i: "i < 256"
  have "(of_nat (4096 * i) :: u32) div page_size = of_nat i"
    using i by (simp add: word_unat_eq_iff unat_div_distrib unat_of_nat32 page_size_def unat_word_ariths)
  then show ?thesis using i by (simp add: free_memory_def page_max_def unat_of_nat32 page_size_def)
qed

section \<open>Mapping\<close>

lemma unat_ucast64: "unat (ucast a :: u64) = unat a" for a :: u32
  using unat_bound [of a] by (simp add: unsigned_ucast_eq take_bit_nat_eq_self)

lemma map_shared_ok:
  assumes run: "map_shared dir s m = Inr m'" and wf: "pd_wf dir m" and i: "i < 256"
    and v: "virtual_address s = shared_start + page_size * of_nat i" and p: "page_aligned (physical_address s)"
  shows "pd_wf dir m'" and "mmu m' dir (virtual_address s) = Some (physical_address s OR (pg_rw OR pg_us) OR pg_present)"
    and "owned (pages m) x \<Longrightarrow> owned (pages m') x"
proof -
  let ?v = "virtual_address s" and ?p = "physical_address s"
  have u: "unat ?v = 0xFFF00000 + 4096 * i" using unat_shared [OF i] v by simp
  have e: "unat (?v + page_size - 1) = unat ?v + 0xFFF"
  proof -
    have "?v + page_size - 1 = ?v + of_nat 0xFFF" by (simp add: page_size_def)
    then show ?thesis using u i unat_plus_of_nat [of ?v "0xFFF"] by (simp only:) simp
  qed
  have le: "(ucast ?v :: u64) \<le> ucast (?v + page_size - 1)"
    using e by (simp only: word_le_nat_alt unat_ucast64)
  have b: "unat (ucast (?v + page_size - 1) :: u64) < 2 ^ 32"
    using unat_bound [of "?v + page_size - 1"] by (simp add: unat_ucast64)
  note z = map_zone_ok [OF run [unfolded map_shared_def] wf _ b le]
  have f: "table_addr (pg_rw OR pg_us) = 0" by (simp add: table_addr_def pg_rw_def pg_us_def)
  show "pd_wf dir m'" by (rule z(1) [OF f])
  show "owned (pages m) x \<Longrightarrow> owned (pages m') x" by (rule z(3) [OF f])
  have "page64 (ucast ?v) = page_of ?v" by (simp only: page64_def page_of_def unat_ucast64)
  moreover have "page_of ?v \<le> page64 (ucast (?v + page_size - 1))"
    using le by (simp only: page64_def page_of_def word_le_nat_alt div_le_mono unat_ucast64)
  moreover have "(ucast (align (ucast ?p)) :: u32) = ?p"
  proof -
    note p32 = unat_ucast64 [of ?p]
    then have "unat (align (ucast ?p)) = unat ?p" using unat_bound [of ?p] p by (simp add: align_low page_aligned_def)
    then show ?thesis using unat_bound [of ?p] by (simp add: word_unat_eq_iff unat_ucast32)
  qed
  ultimately show "mmu m' dir ?v = Some (?p OR (pg_rw OR pg_us) OR pg_present)"
    using z(2) [OF f, of ?v] by simp
qed

lemma alloc_pages_wf:
  assumes "alloc_pages 1 m = Inr (p, m1)" and "pd_wf dir m" shows "pd_wf dir m1"
proof -
  have inv: "buddy_inv (pages m)" using assms(2) by (simp add: pd_wf_def)
  note a = alloc_pages_page [OF assms(1) inv]
  have "entry t i m1 = entry t i m" for t i using a(1) by (simp add: entry_def)
  then show ?thesis using assms(2) a(2,6) by (auto simp: pd_wf_def)
qed

section \<open>Names\<close>

lemma cstr_length: "cstr m p s \<Longrightarrow> length s < 2 ^ 32"
proof (rule ccontr)
  assume c: "cstr m p s" and "\<not> length s < 2 ^ 32"
  then have j: "length s mod 2 ^ 32 < length s" by (meson less_le_trans mod_less_divisor not_less zero_less_numeral zero_less_power)
  have "(of_nat (length s mod 2 ^ 32) :: u32) = of_nat (length s)"
    by (simp add: word_unat_eq_iff unat_of_nat take_bit_eq_mod)
  then have "s ! (length s mod 2 ^ 32) = 0" using c nth_bytes [OF j, of m p] by (simp add: cstr_bytes)
  then show False using c nth_mem [OF j] by (simp add: cstr_bytes)
qed

lemma cstr_outside:
  assumes "cstr m k t" and "disjoint_blocks k (Suc (length t)) q n"
  shows "cstr (copied n q p m) k t"
  using assms(1)
proof (rule cstr_cong)
  fix i assume "i \<le> length t"
  then have "in_block (k + of_nat i) k (Suc (length t))" using cstr_length [OF assms(1)] by (intro in_block_add) simp_all
  then show "copied n q p m (k + of_nat i) = m (k + of_nat i)" using assms(2) by (auto simp: copied_def disjoint_blocks_def)
qed

lemma cstr_copied:
  assumes "cstr m p s" shows "cstr (copied (Suc (length s)) q p m) q s"
  using assms
proof (rule cstr_cong)
  fix i assume "i \<le> length s"
  then show "copied (Suc (length s)) q p m (q + of_nat i) = m (p + of_nat i)"
    using cstr_length [OF assms] by (simp add: copied_def)
qed

section \<open>The operations on the names and the pages\<close>

text \<open>The block for the copy of the name is apart from the name and from the names in the table.\<close>

definition new_block :: "shm \<Rightarrow> u32 \<Rightarrow> u32 \<Rightarrow> u8 list \<Rightarrow> bool" where
  "new_block st key_alloc key s \<longleftrightarrow> disjoint_blocks key_alloc (Suc (length s)) key (Suc (length s)) \<and>
     (\<forall>k\<in>slot_keys (shp_table st). \<forall>t. cstr (kmem st) k t \<longrightarrow> disjoint_blocks k (Suc (length t)) key_alloc (Suc (length s)))"

definition shm_names :: "shm \<Rightarrow> u8 list \<Rightarrow> u32 option" where
  "shm_names st = table_texts (kmem st) (shp_table st)"

definition shm_ok :: "nat \<Rightarrow> shm \<Rightarrow> bool" where
  "shm_ok n st \<longleftrightarrow> good_table (kmem st) n (shp_table st) \<and> length (virtual_map st) = page_max"

definition shared_entry :: "u32 \<Rightarrow> u32" where
  "shared_entry p = p OR (pg_rw OR pg_us) OR pg_present"

lemma returns_simps [simp]: "returns (Some x) = Inr x"
  by (simp add: returns_def)

lemma returns_Inr [bind_rules]: "returns x = Inr y \<longleftrightarrow> x = Some y"
  by (simp add: returns_def split: option.split)

lemma copy_name:
  assumes ok: "shm_ok n st" and s: "cstr (kmem st) key s" and new: "new_block st ka key s"
  shows "strlen key (kmem st) = Some (of_nat (length s))" and "unat (of_nat (length s) :: u32) = length s"
    and "good_table (memcpy ka key (Suc (length s)) (kmem st)) n (shp_table st)"
    and "table_texts (memcpy ka key (Suc (length s)) (kmem st)) (shp_table st) = shm_names st"
    and "cstr (memcpy ka key (Suc (length s)) (kmem st)) ka s"
proof -
  let ?n = "Suc (length s)"
  have l: "length s < 2 ^ 32" using s by (rule cstr_length)
  show "strlen key (kmem st) = Some (of_nat (length s))" using s by (rule strlen_cstr)
  show "unat (of_nat (length s) :: u32) = length s" using l by (rule unat_of_nat32)
  have c: "memcpy ka key ?n (kmem st) = copied ?n ka key (kmem st)"
    using new l by (intro memcpy_copied) (simp_all add: new_block_def)
  show "cstr (memcpy ka key ?n (kmem st)) ka s" unfolding c using s by (rule cstr_copied)
  have g: "good_table (kmem st) n (shp_table st)" using ok by (simp add: shm_ok_def)
  have "good_table (copied ?n ka key (kmem st)) n (shp_table st) \<and>
      table_texts (copied ?n ka key (kmem st)) (shp_table st) = table_texts (kmem st) (shp_table st)"
  proof (rule kv.frame [OF g])
    fix k t assume "k \<in> slot_keys (shp_table st)" "cstr (kmem st) k t"
    then show "cstr (copied ?n ka key (kmem st)) k t" using new by (intro cstr_outside) (simp_all add: new_block_def)
  qed
  then show "good_table (memcpy ka key ?n (kmem st)) n (shp_table st)"
    and "table_texts (memcpy ka key ?n (kmem st)) (shp_table st) = shm_names st"
    unfolding c by (simp_all add: shm_names_def)
qed

lemma create_result:
  assumes run: "shm_create dir ka p True key st = Inr (va, st1)" and va: "va \<noteq> 0"
    and ok: "shm_ok n st" and n: "n < 2 ^ 25" and s: "cstr (kmem st) key s" and new: "new_block st ka key s"
    and wf: "pd_wf dir (smem st)"
  shows "\<exists>i phys. i < 256 \<and> va = shared_start + page_size * of_nat i \<and> virtual_map st ! i = 0 \<and>
    virtual_map st1 = (virtual_map st)[i := 1] \<and> page_aligned phys \<and> \<not> owned (pages (smem st)) (page_of phys) \<and>
    owned (pages (smem st1)) (page_of phys) \<and> p \<noteq> 0 \<and>
    shps st1 = (shps st)(p := Some \<lparr>physical_address = phys, virtual_address = va, refcount = 1, shp_key = ka\<rparr>) \<and>
    pd_wf dir (smem st1) \<and> mmu (smem st1) dir va = Some (shared_entry phys) \<and>
    shm_ok (Suc n) st1 \<and> shm_names st s = None \<and> shm_names st1 = (shm_names st)(s \<mapsto> p)"
proof -
  note c = copy_name [OF ok s new]
  let ?m = "memcpy ka key (Suc (length s)) (kmem st)" and ?t = "shp_table st"
  have ex: "hash_isset ?m ?t ka = Some (shm_names st s \<noteq> None)"
  proof -
    obtain h where h: "?t = Some h" "string_table ?m h" using c(3) by (auto simp: good_table_def split: option.splits)
    have "hash_isset ?m (Some h) ka = Some (texts ?m h s \<noteq> None)"
      using strings.get(2) [where m = ?m and h = h and key = ka] h(2) c(5) text_at_cstr [OF c(5)]
      by (auto simp: string_table_def texts_def)
    then show ?thesis using c(4) h(1) by (simp add: table_texts_def)
  qed
  obtain t1 where t1: "hash_set ?m True ?t ka p = Some (0, t1)" "good_table ?m (Suc n) t1" "table_texts ?m t1 = (shm_names st)(s \<mapsto> p)"
    using kv.put_look [OF c(3) n c(5), of p] c(4) by auto
  have key: "key \<noteq> 0" "ka \<noteq> 0" using run c(1) by (auto simp: shm_create_def split: if_splits)
  have fresh: "shm_names st s = None"
    using run va key c(1,2) ex by (auto simp: shm_create_def Let_def split: if_splits)
  obtain va' vm' where am: "allocate_memory (virtual_map st) = (va', vm')" by fastforce
  obtain phys m1 vm where al: "alloc_pages nb_pages (smem st) = Inr (phys, m1)" and vm: "allocate_memory (virtual_map st) = (va, vm)"
    and pz: "p \<noteq> 0" and mp: "map_shared dir \<lparr>physical_address = phys, virtual_address = va, refcount = 1, shp_key = ka\<rparr> m1 = Inr (smem st1)"
    and st1: "st1 = st\<lparr>kmem := ?m, virtual_map := vm,
      shps := (shps st)(p := Some \<lparr>physical_address = phys, virtual_address = va, refcount = 1, shp_key = ka\<rparr>),
      smem := smem st1, shp_table := t1\<rparr>"
    using run va key c(1,2) ex fresh t1(1) am
    by (auto simp: shm_create_def Let_def bind_rules split: if_splits prod.splits)
  have inv: "buddy_inv (pages (smem st))" using wf by (simp add: pd_wf_def)
  note a = alloc_pages_page [OF al [unfolded nb_pages_def] inv]
  obtain i where i: "i < 256" "virtual_map st ! i = 0" "va = shared_start + page_size * of_nat i" "vm = (virtual_map st)[i := 1]"
    using allocate_memory_free [OF vm va] ok by (auto simp: shm_ok_def)
  note mo = map_shared_ok [OF mp alloc_pages_wf [OF al [unfolded nb_pages_def] wf] i(1)]
  have st1': "kmem st1 = ?m" "virtual_map st1 = vm" "shp_table st1 = t1"
      "shps st1 = (shps st)(p := Some \<lparr>physical_address = phys, virtual_address = va, refcount = 1, shp_key = ka\<rparr>)"
    by (subst st1, simp)+
  have "shm_ok (Suc n) st1" using t1(2) st1' ok i(4) by (simp add: shm_ok_def)
  moreover have "shm_names st1 = (shm_names st)(s \<mapsto> p)" using t1(3) st1' by (simp add: shm_names_def)
  moreover have "mmu (smem st1) dir va = Some (shared_entry phys)" using mo(2) i(3) a(3) by (simp add: shared_entry_def)
  moreover have "pd_wf dir (smem st1)" using mo(1) i(3) a(3) by simp
  moreover have "owned (pages (smem st1)) (page_of phys)" using mo(3) i(3) a(3,4) by simp
  ultimately show ?thesis using i pz a(3,5) fresh st1' by blast
qed

lemma acquire_result:
  assumes run: "shm_acquire dir key st = Inr (va, st1)" and ok: "shm_ok n st" and s: "cstr (kmem st) key s"
    and p: "shm_names st s = Some p" "p \<noteq> 0" "shps st p = Some sp" and i: "i < 256"
    and v: "virtual_address sp = shared_start + page_size * of_nat i" "page_aligned (physical_address sp)"
    and wf: "pd_wf dir (smem st)"
  shows "va = virtual_address sp \<and> shps st1 = (shps st)(p := Some (sp\<lparr>refcount := refcount sp + 1\<rparr>)) \<and>
    pd_wf dir (smem st1) \<and> mmu (smem st1) dir va = Some (shared_entry (physical_address sp)) \<and> shm_ok n st1 \<and> shm_names st1 = shm_names st"
proof -
  let ?s = "sp\<lparr>refcount := refcount sp + 1\<rparr>"
  have "hash_get (kmem st) (shp_table st) key 0 = Some p"
    using kv.get_look [of "kmem st" n "shp_table st" key s 0] ok s p(1) by (simp add: shm_ok_def shm_names_def)
  then obtain m1 where m1: "map_shared dir ?s (smem st) = Inr m1" "va = virtual_address ?s" "st1 = st\<lparr>shps := (shps st)(p := Some ?s), smem := m1\<rparr>"
    using run p(2,3) by (auto simp: shm_acquire_def Let_def bind_rules)
  note mo = map_shared_ok [OF m1(1) wf i]
  show ?thesis using m1(2,3) mo v ok by (simp add: shared_entry_def shm_ok_def shm_names_def)
qed

lemma release_last:
  assumes run: "shm_release dir True key st = Inr st1" and ok: "shm_ok n st" and n: "n < 2 ^ 25" and s: "cstr (kmem st) key s"
    and p: "shm_names st s = Some p" "p \<noteq> 0" "shps st p = Some sp" "refcount sp = 1" and i: "i < 256"
    and v: "virtual_address sp = shared_start + page_size * of_nat i"
  shows "shm_names st1 = (shm_names st)(s := None) \<and> virtual_map st1 = (virtual_map st)[i := 0] \<and> shps st1 = (shps st)(p := None) \<and> shm_ok n st1"
proof -
  have g: "good_table (kmem st) n (shp_table st)" using ok by (simp add: shm_ok_def)
  have "hash_get (kmem st) (shp_table st) key 0 = Some p"
    using kv.get_look [OF g s, of 0] p(1) by (simp add: shm_names_def)
  moreover obtain t where t: "hash_del (kmem st) True (shp_table st) key = Some (0, t)" "good_table (kmem st) n t"
      "table_texts (kmem st) t = (shm_names st)(s := None)"
    using kv.del_look [OF g n s] by (auto simp: shm_names_def)
  ultimately obtain m1 where "st1 = st\<lparr>shp_table := t, smem := m1, virtual_map := (virtual_map st)[i := 0], shps := (shps st)(p := None)\<rparr>"
    using run p(2-4) free_allocated [OF i] v
    by (auto simp: shm_release_def Let_def bind_rules)
  then show ?thesis using t ok by (simp add: shm_names_def shm_ok_def)
qed

section \<open>A creation\<close>

definition shm0 :: shm where
  "shm0 = \<lparr>virtual_map = replicate 256 0, shp_table = Some (snd (hash_init_string True no_table)), shps = (\<lambda>a. None),
     smem = empty_dir, kmem = hello\<rparr>"

lemma shm0_ok: "shm_ok 0 shm0"
proof -
  obtain h where h: "hash_init_string True no_table = (0, h)" "string_table hello h" "length (table h) = 8"
    using string_table_init by blast
  have "fill h = 0" using h(1) by (auto simp: hash_init_string_def hash_init_def hash_initialize_def)
  then show ?thesis using h by (simp add: shm_ok_def shm0_def good_table_def grown_def page_max_def)
qed

lemma shm0_block: "new_block shm0 0x300 0x100 [97, 44, 98]"
proof -
  have "slot_keys (shp_table shm0) = {}"
    by (auto simp: shm0_def slot_keys_def hash_init_string_def hash_init_def hash_initialize_def empty_slot_def)
  then show ?thesis using strings_apart_example by (simp add: new_block_def numeral_eq_Suc)
qed

lemma shm0_runs:
  "case shm_create 0x4000000 0x300 0x9000 True 0x100 shm0 of Inl e \<Rightarrow> False
   | Inr (va, st1) \<Rightarrow> va = 0xFFF00000 \<and>
       (case shm_acquire 0x4000000 0x100 st1 of Inl e \<Rightarrow> False | Inr x \<Rightarrow> True) \<and>
       (case shm_release 0x5000000 True 0x100 st1 of Inl e \<Rightarrow> False | Inr x \<Rightarrow> True) \<and>
       cstr (kmem st1) 0x100 [97, 44, 98]"
  by code_simp

lemma shm0_start: "cstr (kmem shm0) 0x100 [97, 44, 98]" "pd_wf 0x4000000 (smem shm0)" "virtual_map shm0 = replicate 256 0"
  using hello_strings(1) empty_dir_wf by (simp_all add: shm0_def)

lemma shm0_run:
  "\<exists>st1 va2 st2 st3. shm_create 0x4000000 0x300 0x9000 True 0x100 shm0 = Inr (0xFFF00000, st1) \<and>
    shm_acquire 0x4000000 0x100 st1 = Inr (va2, st2) \<and> shm_release 0x5000000 True 0x100 st1 = Inr st3 \<and>
    pd_wf 0x4000000 (smem st1) \<and> cstr (kmem st1) 0x100 [97, 44, 98]"
proof -
  obtain st1 where c: "shm_create 0x4000000 0x300 0x9000 True 0x100 shm0 = Inr (0xFFF00000, st1)"
      "cstr (kmem st1) 0x100 [97, 44, 98]"
      "\<exists>x. shm_acquire 0x4000000 0x100 st1 = Inr x" "\<exists>x. shm_release 0x5000000 True 0x100 st1 = Inr x"
    using shm0_runs unfolding case_success by auto
  have "pd_wf 0x4000000 (smem st1)"
    using create_result [OF c(1) _ shm0_ok _ shm0_start(1) shm0_block shm0_start(2)] by auto
  then show ?thesis using c by (metis surj_pair)
qed

section \<open>What the shared pages promise\<close>

text \<open>
  C19. A page created under a new name in one process and acquired under a pointer to the same name in
  another has one virtual address in the shared region, which was free, and both page directories
  translate it to the same new physical page; it then has two references.
\<close>

theorem shared_page_is_shared:
  assumes "shm_create dir1 ka p True key st = Inr (va, st1)" and "va \<noteq> 0" and "shm_acquire dir2 key2 st1 = Inr (va2, st2)"
    and "shm_ok n st" and "n < 2 ^ 25" and "cstr (kmem st) key s" and "new_block st ka key s" and "cstr (kmem st1) key2 s"
    and "pd_wf dir1 (smem st)" and "pd_wf dir2 (smem st1)"
  shows "shm_names st s = None \<and> va2 = va \<and> (\<exists>i<256. va = shared_start + page_size * of_nat i \<and> virtual_map st ! i = 0) \<and>
    (\<exists>phys. \<not> owned (pages (smem st)) (page_of phys) \<and> mmu (smem st1) dir1 va = Some (shared_entry phys) \<and>
       mmu (smem st2) dir2 va = Some (shared_entry phys)) \<and>
    shps st2 p = Some \<lparr>physical_address = the (map_option physical_address (shps st1 p)), virtual_address = va, refcount = 2, shp_key = ka\<rparr>"
proof -
  obtain i phys where c: "i < 256" "va = shared_start + page_size * of_nat i" "virtual_map st ! i = 0" "page_aligned phys"
      "\<not> owned (pages (smem st)) (page_of phys)" "p \<noteq> 0"
      "shps st1 p = Some \<lparr>physical_address = phys, virtual_address = va, refcount = 1, shp_key = ka\<rparr>"
      "mmu (smem st1) dir1 va = Some (shared_entry phys)" "shm_ok (Suc n) st1" "shm_names st s = None" "shm_names st1 s = Some p"
    using create_result [OF assms(1,2,4-7,9)] by auto
  have "va2 = va \<and> mmu (smem st2) dir2 va2 = Some (shared_entry phys) \<and>
      shps st2 p = Some \<lparr>physical_address = phys, virtual_address = va, refcount = 2, shp_key = ka\<rparr>"
    using acquire_result [OF assms(3) c(9) assms(8) c(11,6,7,1) _ _ assms(10)] c(2,4) by auto
  then show ?thesis using c by auto
qed

theorem shared_page_is_shared_witness:
  "\<exists>st1 va2 st2. shm_create 0x4000000 0x300 0x9000 True 0x100 shm0 = Inr (0xFFF00000, st1) \<and>
    shm_acquire 0x4000000 0x100 st1 = Inr (va2, st2) \<and> va2 = 0xFFF00000 \<and> (\<exists>phys. mmu (smem st2) 0x4000000 va2 = Some (shared_entry phys))"
proof -
  obtain st1 va2 st2 where r: "shm_create 0x4000000 0x300 0x9000 True 0x100 shm0 = Inr (0xFFF00000, st1)"
      "shm_acquire 0x4000000 0x100 st1 = Inr (va2, st2)" "pd_wf 0x4000000 (smem st1)" "cstr (kmem st1) 0x100 [97, 44, 98]"
    using shm0_run by blast
  show ?thesis
    using shared_page_is_shared [OF r(1) _ r(2) shm0_ok _ _ shm0_block r(4) _ r(3)] r(1,2) shm0_start by auto
qed



end
