(* ===== verification/Console.thy ===== *)
theory Console
  imports CString
begin

text \<open>
  \<open>kernel/cga.c\<close>: the text console. The video memory is a function from cells to the 16-bit words in
  them, the screen being the first 2000 cells; line and column are 8-bit counters, \<open>cursor\<close> is the
  position last sent to the video card. A cell is the colour in its upper byte and the character, a
  signed \<open>char\<close>, in its lower.
\<close>

record cons =
  vram :: "nat \<Rightarrow> u16"
  cur_line :: u8
  cur_column :: u8
  global_color :: u8
  cursor :: u16

definition number_column :: nat where "number_column = 80"
definition number_line :: nat where "number_line = 25"
definition white_on_black :: u16 where "white_on_black = 0x0F00"

text \<open>\<open>PTR_MEM(line, column)\<close>, as the number of a cell.\<close>

definition ptr_mem :: "u8 \<Rightarrow> u8 \<Rightarrow> nat" where
  "ptr_mem line column = unat line * number_column + unat column"

definition write_char :: "u8 \<Rightarrow> u8 \<Rightarrow> u8 \<Rightarrow> u8 \<Rightarrow> cons \<Rightarrow> cons" where
  "write_char line column c color s =
     s\<lparr>vram := (vram s)(ptr_mem line column := push_bit 8 (ucast color) OR scast c)\<rparr>"

definition put_cursor :: "u8 \<Rightarrow> u8 \<Rightarrow> cons \<Rightarrow> cons" where
  "put_cursor line column s =
     s\<lparr>cur_line := line, cur_column := column, cursor := ucast column + ucast line * 80\<rparr>"

definition clear_screen :: "cons \<Rightarrow> cons" where
  "clear_screen s = s\<lparr>vram := (\<lambda>i. if i < number_column * number_line then white_on_black else vram s i)\<rparr>"

text \<open>24 lines move up, and the last one is cleared.\<close>

definition scroll_screen :: "cons \<Rightarrow> cons" where
  "scroll_screen s = s\<lparr>vram := (\<lambda>i.
     if i < (number_line - 1) * number_column then vram s (i + number_column)
     else if i < number_line * number_column then white_on_black else vram s i)\<rparr>"

definition putchar_switch :: "u8 \<Rightarrow> cons \<Rightarrow> cons" where
  "putchar_switch c s =
     (if c = 8 then (if cur_column s \<noteq> 0 then s\<lparr>cur_column := cur_column s - 1\<rparr> else s)
      else if c = 9 then
        (let cur_tab = cur_column s AND 0xF8
         in s\<lparr>cur_column := (if cur_tab = 72 then 79 else cur_tab OR 7)\<rparr>)
      else if c = 10 then s\<lparr>cur_line := cur_line s + 1, cur_column := 0\<rparr>
      else if c = 12 then (clear_screen s)\<lparr>cur_column := 0, cur_line := 0\<rparr>
      else if c = 13 then s\<lparr>cur_column := 0\<rparr>
      else if c = 127 then
        (let s1 = (if cur_column s \<noteq> 0 then s\<lparr>cur_column := cur_column s - 1\<rparr>
                   else if cur_line s > 0 then s\<lparr>cur_line := cur_line s - 1, cur_column := 79\<rparr> else s)
         in s1\<lparr>vram := (vram s1)(ptr_mem (cur_line s1) (cur_column s1) := white_on_black)\<rparr>)
      else
        (let s1 = write_char (cur_line s) (cur_column s) c (global_color s) s
         in if cur_column s = of_nat (number_column - 1) then s1\<lparr>cur_line := cur_line s + 1, cur_column := 0\<rparr>
            else s1\<lparr>cur_column := cur_column s + 1\<rparr>))"

definition console_putchar :: "u8 \<Rightarrow> cons \<Rightarrow> cons" where
  "console_putchar c s =
     (let s1 = putchar_switch c s
      in if cur_line s1 = of_nat number_line then (scroll_screen s1)\<lparr>cur_line := cur_line s1 - 1\<rparr> else s1)"

text \<open>\<open>cons_write\<close> prints nothing when the string ends before its size.\<close>

definition put_string :: "u8 list \<Rightarrow> cons \<Rightarrow> cons" where
  "put_string str s = (let s1 = fold console_putchar str s in put_cursor (cur_line s1) (cur_column s1) s1)"

definition cons_write :: "u32 \<Rightarrow> int \<Rightarrow> mem8 \<Rightarrow> cons \<Rightarrow> cons" where
  "cons_write str n m s =
     (let len = sint (strnlen str (unat (word_of_int n :: u32)) m)
      in if n \<noteq> len then s else put_string (bytes m str (nat n)) s)"

definition console_putbytes :: "u32 \<Rightarrow> u32 \<Rightarrow> mem8 \<Rightarrow> cons \<Rightarrow> cons" where
  "console_putbytes p len m s = cons_write p (sint len) m s"

definition console_putbytes_topright :: "u32 \<Rightarrow> u32 \<Rightarrow> mem8 \<Rightarrow> cons \<Rightarrow> cons" where
  "console_putbytes_topright p len m s =
     (let s1 = console_putbytes p len m (put_cursor 0 (ucast (80 - len)) s)
      in put_cursor (cur_line s1) (cur_column s1) s1)"

definition change_color :: "u8 \<Rightarrow> cons \<Rightarrow> cons" where
  "change_color color s = s\<lparr>global_color := color\<rparr>"

section \<open>The cursor stays on the screen\<close>

definition cons_ok :: "cons \<Rightarrow> bool" where
  "cons_ok s \<longleftrightarrow> cur_line s < 25 \<and> cur_column s < 80"

text \<open>Memory behind the screen is not written.\<close>

definition same_outside :: "cons \<Rightarrow> cons \<Rightarrow> bool" where
  "same_outside s t \<longleftrightarrow> (\<forall>i\<ge>2000. vram t i = vram s i)"

lemma cons_ok_nat: "cons_ok s \<longleftrightarrow> unat (cur_line s) < 25 \<and> unat (cur_column s) < 80"
  by (simp add: cons_ok_def word_less_nat_alt)

lemma ptr_mem_screen: "unat l < 25 \<Longrightarrow> unat c < 80 \<Longrightarrow> ptr_mem l c < 2000"
  by (simp add: ptr_mem_def number_column_def)

lemma unat_pred: "w \<noteq> 0 \<Longrightarrow> unat (w - 1) = unat w - 1" for w :: u8
  by (simp add: unat_minus_one)

lemma unat_succ: "unat w < 255 \<Longrightarrow> unat (w + 1) = unat w + 1" for w :: u8
  by (simp add: unat_word_ariths)

lemma tab_stop: "\<forall>n\<in>{0..<80::nat}. let t = (of_nat n :: u8) AND 0xF8 in (if t = 72 then 79 else t OR 7) < 80"
  by code_simp

lemma tab_column:
  assumes "c < 80" shows "(if c AND 0xF8 = 72 then 79 else c AND 0xF8 OR 7) < (80 :: u8)"
proof -
  have "unat c \<in> {0..<80}" using assms by (simp add: word_less_nat_alt)
  from tab_stop [rule_format, OF this] show ?thesis by (simp add: Let_def)
qed

lemma nat_neq: "w \<noteq> of_nat n \<Longrightarrow> n < 256 \<Longrightarrow> unat w \<noteq> n" for w :: u8
  by (simp add: word_unat_eq_iff unat_of_nat take_bit_eq_mod)

text \<open>Every character leaves the line at most one too far, which the scrolling then corrects.\<close>

lemma switch_ok:
  assumes "cons_ok s"
  shows "unat (cur_line (putchar_switch c s)) \<le> 25" and "unat (cur_column (putchar_switch c s)) < 80"
    and "same_outside s (putchar_switch c s)"
proof -
  have b: "unat (cur_line s) < 25" "unat (cur_column s) < 80" using assms by (simp_all add: cons_ok_nat)
  have c: "cur_column s < 80" using assms by (simp add: cons_ok_def)
  have t: "unat (if cur_column s AND 0xF8 = 72 then 79 else cur_column s AND 0xF8 OR 7) < 80"
    using tab_column [OF c] by (simp only: word_less_nat_alt) simp
  have p: "ptr_mem (cur_line s) (cur_column s) < 2000"
    "cur_column s \<noteq> 0 \<Longrightarrow> ptr_mem (cur_line s) (cur_column s - 1) < 2000"
    "cur_line s \<noteq> 0 \<Longrightarrow> ptr_mem (cur_line s - 1) 79 < 2000"
    using b by (auto intro!: ptr_mem_screen simp: unat_pred)
  have n: "unat (cur_column s + 1) < 80" if "cur_column s \<noteq> 79"
    using nat_neq [of "cur_column s" 79] that b(2) by (simp add: unat_succ)
  show "unat (cur_line (putchar_switch c s)) \<le> 25"
    using b by (auto simp: putchar_switch_def write_char_def clear_screen_def Let_def unat_pred unat_succ)
  show "unat (cur_column (putchar_switch c s)) < 80"
    using b t n by (auto simp: putchar_switch_def write_char_def clear_screen_def Let_def unat_pred number_column_def)
  show "same_outside s (putchar_switch c s)"
    using p by (auto simp: same_outside_def putchar_switch_def write_char_def clear_screen_def Let_def number_column_def number_line_def
      word_gt_0)
qed

lemma putchar_ok:
  assumes "cons_ok s" shows "cons_ok (console_putchar c s)" and "same_outside s (console_putchar c s)"
proof -
  let ?t = "putchar_switch c s"
  note b = switch_ok [OF assms, of c]
  have "unat (cur_line ?t) < 25" if "cur_line ?t \<noteq> of_nat number_line"
    using nat_neq [OF that] b(1) by (simp add: number_line_def)
  then show "cons_ok (console_putchar c s)"
    using b(1,2) by (auto simp: console_putchar_def Let_def cons_ok_nat scroll_screen_def number_line_def)
  show "same_outside s (console_putchar c s)"
    using b(3) by (auto simp: same_outside_def console_putchar_def Let_def scroll_screen_def number_line_def number_column_def)
qed

lemma put_string_ok: "cons_ok s \<Longrightarrow> cons_ok (put_string str s) \<and> same_outside s (put_string str s)"
proof -
  assume "cons_ok s"
  then have "cons_ok (fold console_putchar str s) \<and> same_outside s (fold console_putchar str s)"
  proof (induction str arbitrary: s)
    case (Cons c str)
    then show ?case using putchar_ok [OF Cons.prems, of c] Cons.IH [of "console_putchar c s"] by (simp add: same_outside_def)
  qed (simp add: same_outside_def)
  then show ?thesis by (simp add: put_string_def put_cursor_def Let_def cons_ok_def same_outside_def)
qed

section \<open>The screen is the end of an endless tape\<close>

text \<open>
  The abstract console is a tape of cells and the position of the next character. A character goes to
  the tape, a newline moves to the next multiple of 80.
\<close>

definition plain_text :: "u8 list \<Rightarrow> bool" where
  "plain_text str \<longleftrightarrow> set str \<inter> {8, 9, 12, 13, 127} = {}"

definition cell_of :: "u8 \<Rightarrow> u8 \<Rightarrow> u16" where
  "cell_of color c = push_bit 8 (ucast color) OR scast c"

definition type_char :: "u8 \<Rightarrow> u8 \<Rightarrow> (nat \<Rightarrow> u16) \<times> nat \<Rightarrow> (nat \<Rightarrow> u16) \<times> nat" where
  "type_char color c = (\<lambda>(tape, p). if c = 10 then (tape, (p div 80 + 1) * 80) else (tape(p := cell_of color c), p + 1))"

definition position :: "cons \<Rightarrow> nat" where
  "position s = ptr_mem (cur_line s) (cur_column s)"

definition shows_tape :: "nat \<Rightarrow> (nat \<Rightarrow> u16) \<times> nat \<Rightarrow> cons \<Rightarrow> bool" where
  "shows_tape k x s \<longleftrightarrow> cons_ok s \<and> (\<forall>i<2000. vram s i = fst x (i + 80 * k)) \<and> snd x = position s + 80 * k \<and>
     (\<forall>i\<ge>2000 + 80 * k. fst x i = white_on_black) \<and> (k = 0 \<or> unat (cur_line s) = 24)"

lemma shows_position:
  assumes "shows_tape k x s"
  shows "snd x = (unat (cur_line s) + k) * 80 + unat (cur_column s)" and "snd x < 2000 + 80 * k" and "k = snd x div 80 - 24"
  using assms by (auto simp: shows_tape_def position_def ptr_mem_def number_column_def cons_ok_nat)

lemma div_80: "c < 80 \<Longrightarrow> (a * 80 + c) div 80 = a" for a c :: nat
  by simp

text \<open>Moving to the start of the next line.\<close>

lemma next_line:
  assumes sh: "shows_tape k (tape, p) s"
    and s1: "vram s1 = (vram s)(position s := w)" "cur_line s1 = cur_line s + 1" "cur_column s1 = 0"
    and t: "tape' = tape(p := w)"
  shows "\<exists>k'. shows_tape k' (tape', (p div 80 + 1) * 80)
    (if cur_line s1 = of_nat number_line then (scroll_screen s1)\<lparr>cur_line := cur_line s1 - 1\<rparr> else s1)"
proof -
  have b: "unat (cur_line s) < 25" "unat (cur_column s) < 80" using sh by (simp_all add: shows_tape_def cons_ok_nat)
  have p: "p = (unat (cur_line s) + k) * 80 + unat (cur_column s)" using shows_position(1) [OF sh] by simp
  have "p div 80 = unat (cur_line s) + k" using div_80 [OF b(2)] p by simp
  then have pd: "(p div 80 + 1) * 80 = (unat (cur_line s) + 1 + k) * 80" by simp
  have v: "vram s1 i = tape' (i + 80 * k)" if "i < 2000" for i
    using sh that s1(1) t by (auto simp: shows_tape_def)
  have bl: "tape' i = white_on_black" if "i \<ge> 2000 + 80 * k" for i
    using sh that t shows_position(2) [OF sh] by (auto simp: shows_tape_def)
  have l: "unat (cur_line s1) = unat (cur_line s) + 1" using b s1(2) by (simp add: unat_succ)
  show ?thesis
  proof (cases "cur_line s1 = of_nat number_line")
    case True
    then have l24: "unat (cur_line s) = 24" using l by (simp add: number_line_def)
    have "shows_tape (Suc k) (tape', (p div 80 + 1) * 80) ((scroll_screen s1)\<lparr>cur_line := cur_line s1 - 1\<rparr>)"
      unfolding shows_tape_def
      using v [of "_ + 80"] bl pd l24 s1(2,3)
      by (auto simp: scroll_screen_def number_line_def number_column_def position_def ptr_mem_def cons_ok_nat ac_simps)
    then show ?thesis using True by auto
  next
    case False
    then have "unat (cur_line s1) < 25" using nat_neq [OF False] l b by (simp add: number_line_def)
    moreover from this have "k = 0" using sh l by (auto simp: shows_tape_def)
    ultimately have "shows_tape k (tape', (p div 80 + 1) * 80) s1"
      unfolding shows_tape_def using v bl pd l s1(3)
      by (simp add: position_def ptr_mem_def number_column_def cons_ok_nat)
    then show ?thesis using False by auto
  qed
qed

lemma type_one:
  assumes sh: "shows_tape k x s" and c: "c \<notin> {8, 9, 12, 13, 127}"
  shows "\<exists>k'. shows_tape k' (type_char (global_color s) c x) (console_putchar c s)"
proof -
  obtain tape p where x: "x = (tape, p)" by fastforce
  have b: "unat (cur_line s) < 25" "unat (cur_column s) < 80" using sh by (simp_all add: shows_tape_def cons_ok_nat)
  have p: "p = position s + 80 * k" using sh x by (simp add: shows_tape_def)
  have e: "console_putchar c s = (if cur_line (putchar_switch c s) = of_nat number_line
      then (scroll_screen (putchar_switch c s))\<lparr>cur_line := cur_line (putchar_switch c s) - 1\<rparr> else putchar_switch c s)"
    by (simp only: console_putchar_def Let_def)
  consider "c = 10" | "c \<noteq> 10" "cur_column s = 79" | "c \<noteq> 10" "cur_column s \<noteq> 79" by blast
  then show ?thesis
  proof cases
    case 1
    have "position s < 2000" using b by (simp add: position_def ptr_mem_screen)
    then have "tape = tape(p := vram s (position s))" using sh x p by (auto simp: shows_tape_def)
    moreover have "vram (putchar_switch c s) = (vram s)(position s := vram s (position s))"
        "cur_line (putchar_switch c s) = cur_line s + 1" "cur_column (putchar_switch c s) = 0"
      using 1 by (simp_all add: putchar_switch_def)
    ultimately obtain k' where "shows_tape k' (tape, (p div 80 + 1) * 80) (console_putchar c s)"
      unfolding e using next_line [OF sh [unfolded x]] by blast
    then show ?thesis using 1 x by (auto simp: type_char_def)
  next
    case 2
    let ?w = "cell_of (global_color s) c"
    have pp: "(p div 80 + 1) * 80 = p + 1" using shows_position(1) [OF sh] x 2(2) div_80 [of 79 "unat (cur_line s) + k"] by simp
    have "vram (putchar_switch c s) = (vram s)(position s := ?w)"
        "cur_line (putchar_switch c s) = cur_line s + 1" "cur_column (putchar_switch c s) = 0"
      using 2 c by (simp_all add: putchar_switch_def Let_def number_column_def write_char_def position_def cell_of_def)
    then obtain k' where "shows_tape k' (tape(p := ?w), (p div 80 + 1) * 80) (console_putchar c s)"
      unfolding e using next_line [OF sh [unfolded x]] by blast
    then have "shows_tape k' (tape(p := ?w), p + 1) (console_putchar c s)" by (simp only: pp)
    then show ?thesis using 2 x by (auto simp: type_char_def)
  next
    case 3
    let ?t = "console_putchar c s" and ?w = "cell_of (global_color s) c"
    have u: "unat (cur_column s + 1) = unat (cur_column s) + 1" "unat (cur_column s) + 1 < 80"
      using nat_neq [of "cur_column s" 79] 3(2) b(2) by (simp_all add: unat_succ)
    have "cur_line s \<noteq> 25" using b(1) by auto
    then have t: "?t = s\<lparr>vram := (vram s)(position s := ?w), cur_column := cur_column s + 1\<rparr>"
      using 3 c by (auto simp: console_putchar_def putchar_switch_def Let_def write_char_def number_column_def number_line_def position_def cell_of_def)
    have "shows_tape k (tape(p := ?w), p + 1) ?t"
      unfolding shows_tape_def t
      using sh x p u b shows_position(2) [OF sh] by (auto simp: shows_tape_def cons_ok_nat position_def ptr_mem_def)
    then show ?thesis using 3 x by (auto simp: type_char_def)
  qed
qed

lemma putchar_color: "global_color (console_putchar c s) = global_color s"
  by (simp add: console_putchar_def putchar_switch_def Let_def write_char_def clear_screen_def scroll_screen_def)

lemma unat_position:
  fixes l c :: u8
  assumes "unat l < 25" and "unat c < 80" shows "unat (ucast c + ucast l * 80 :: u16) = unat c + unat l * 80"
proof -
  have "(ucast c + ucast l * 80 :: u16) = of_nat (unat c + unat l * 80)" by simp
  moreover have "unat c + unat l * 80 < 2 ^ 16" using assms by simp
  ultimately show ?thesis by (simp only: unat_of_nat take_bit_nat_eq_self) (simp add: take_bit_nat_eq_self)
qed

lemma type_text:
  assumes "shows_tape k x s" and "plain_text str"
  shows "\<exists>k'. shows_tape k' (fold (type_char (global_color s)) str x) (fold console_putchar str s)"
  using assms
proof (induction str arbitrary: k x s)
  case (Cons c str)
  obtain k1 where "shows_tape k1 (type_char (global_color s) c x) (console_putchar c s)"
    using type_one [OF Cons.prems(1), of c] Cons.prems(2) by (auto simp: plain_text_def)
  then show ?case using Cons.IH [of k1 "type_char (global_color s) c x" "console_putchar c s"] Cons.prems(2)
    by (auto simp: plain_text_def putchar_color)
qed auto

section \<open>What the console promises\<close>

text \<open>
  C21. Printing a text of printable characters and newlines shows the end of the tape: the tape holds the
  screen, then blanks; the characters go to it in order from the position of the cursor, each with the
  colour; the screen is the part of the tape that starts as many lines down as it takes to keep the
  cursor on the screen, and the cursor of the video card is at the position after the text.
\<close>

theorem console_shows_the_text:
  assumes "cons_ok s" and "plain_text str"
    and "fold (type_char (global_color s)) str (\<lambda>i. if i < 2000 then vram s i else white_on_black, position s) = (tape, p)"
  shows "let s' = put_string str s; k = p div 80 - 24
    in (\<forall>i<2000. vram s' i = tape (i + 80 * k)) \<and> position s' + 80 * k = p \<and> unat (cursor s') = position s' \<and> cons_ok s'"
proof -
  let ?x = "(\<lambda>i. if i < 2000 then vram s i else white_on_black, position s)"
  have "shows_tape 0 ?x s" using assms(1) by (simp add: shows_tape_def)
  from type_text [OF this assms(2)] obtain k where k: "shows_tape k (tape, p) (fold console_putchar str s)"
    unfolding assms(3) by blast
  let ?t = "fold console_putchar str s"
  have b: "unat (cur_line ?t) < 25" "unat (cur_column ?t) < 80" using k by (simp_all add: shows_tape_def cons_ok_nat)
  then have "unat (ucast (cur_column ?t) + ucast (cur_line ?t) * 80 :: u16) = unat (cur_column ?t) + unat (cur_line ?t) * 80"
    by (rule unat_position)
  then have c: "unat (cursor (put_string str s)) = position (put_string str s)"
    by (simp add: put_string_def put_cursor_def Let_def position_def ptr_mem_def number_column_def)
  have e: "vram (put_string str s) = vram ?t" "position (put_string str s) = position ?t" "cons_ok (put_string str s) = cons_ok ?t"
    by (simp_all add: put_string_def put_cursor_def Let_def position_def cons_ok_def)
  have ke: "p div 80 - 24 = k" using shows_position(3) [OF k] by simp
  have "\<forall>i<2000. vram ?t i = tape (i + 80 * k)" "position ?t + 80 * k = p" "cons_ok ?t" using k by (simp_all add: shows_tape_def)
  then show ?thesis using c unfolding Let_def ke e by blast
qed

text \<open>The state at start-up, and a line that is too long for its place.\<close>

definition cons0 :: cons where
  "cons0 = \<lparr>vram = (\<lambda>i. 0), cur_line = 24, cur_column = 78, global_color = 0x0F, cursor = 0\<rparr>"

theorem console_shows_the_text_witness:
  "vram (put_string [72, 105, 33] cons0) 1918 = 0x0F48 \<and> vram (put_string [72, 105, 33] cons0) 1920 = 0x0F21"
proof -
  have ok: "cons_ok cons0" "plain_text [72, 105, 33]" by (simp_all add: cons_ok_def cons0_def plain_text_def)
  obtain tape p where t: "fold (type_char (global_color cons0)) [72, 105, 33]
      (\<lambda>i. if i < 2000 then vram cons0 i else white_on_black, position cons0) = (tape, p)" by fastforce
  have v: "p = 2001" "tape 1998 = 0x0F48" "tape 2000 = 0x0F21"
    using t by (auto simp: type_char_def cons0_def position_def ptr_mem_def number_column_def cell_of_def)
  show ?thesis using console_shows_the_text [OF ok t] v by (simp add: Let_def)
qed

text \<open>
  A character above 127 is printed with the attribute 0xFF, a blinking white on white, whatever the
  colour: the signed \<open>char\<close> is extended over the colour byte.
\<close>

theorem high_characters_lose_the_colour:
  assumes "128 \<le> c" shows "drop_bit 8 (cell_of color c) = 0xFF"
proof -
  have "128 \<le> unat c" "unat c < 256" using assms unat_bound [of c] by (simp_all add: word_le_nat_alt)
  then have "unat c div 2 ^ 7 = 1" by (intro div_nat_eqI) simp_all
  then have "bit (unat c) 7" unfolding bit_iff_odd by (metis odd_one)
  then have "bit c 7" by (simp add: bit_unsigned_iff)
  then have "drop_bit 8 (cell_of color c) = mask 8"
    by (intro bit_word_eqI) (auto simp: cell_of_def bit_simps)
  also have "(mask 8 :: u16) = 0xFF" by (simp add: mask_eq_exp_minus_1)
  finally show ?thesis .
qed

theorem high_characters_lose_the_colour_witness: "drop_bit 8 (cell_of 0x0F 0xE9) = 0xFF"
  by (rule high_characters_lose_the_colour) simp

end
