(* ===== verification/Scancode.thy ===== *)
theory Scancode
  imports Prelude
begin

text \<open>
  \<open>kernel/kbd-linux/scancode.c\<close>: the translation of the scancodes of the keyboard into keycodes. The
  escape prefixes make it a state machine: \<open>prev_scancode\<close> is 0, the prefix 0xe0 or 0xe1, or 0x100 in
  the middle of the sequence of the pause key. The two tables are part of the state, since
  \<open>setkeycode\<close> changes them.
\<close>

definition sc_lim :: nat where "sc_lim = 89"

definition e1_pause :: u8 where "e1_pause = 119"

record sctab =
  high_keys :: "u8 list"
  e0_keys :: "u8 list"
  prev_scancode :: int

definition high_keys_init :: "u8 list" where
  "high_keys_init =
     [124, 125, 126, 127, 0, 0, 0,
      0, 0, 0, 0, 0, 0, 0, 0,
      0, 0, 0, 0, 0, 122, 0, 123,
      0, 0, 0, 89, 120, 0, 0, 90,
      91, 92, 93, 94,
      95, 124, 121, 0]"

definition e0_keys_init :: "u8 list" where
  "e0_keys_init =
     [0, 0, 0, 0, 0, 0, 0, 0,
      0, 0, 0, 0, 0, 0, 0, 0,
      0, 0, 0, 0, 0, 0, 0, 0,
      0, 0, 0, 0, 96, 97, 0, 0,
      0, 0, 0, 0, 0, 0, 0, 0,
      0, 0, 0, 0, 0, 0, 0, 0,
      0, 0, 0, 0, 0, 98, 0, 99,
      100, 0, 0, 0, 0, 113, 114, 115,
      116, 117, 0, 0, 0, 0, 101, 102,
      103, 104, 0, 105, 124, 106, 118, 107,
      108, 109, 110, 111, 0, 0, 0, 0,
      0, 0, 0, 125, 126, 127, 0, 0,
      0, 0, 0, 0, 0, 0, 0, 0,
      0, 0, 0, 0, 0, 0, 0, 112,
      0, 0, 0, 0, 0, 0, 0, 0,
      0, 0, 0, 0, 0, 0, 0, 0]"

definition sctab_init :: sctab where
  "sctab_init = \<lparr>high_keys = high_keys_init, e0_keys = e0_keys_init, prev_scancode = 0\<rparr>"

definition keyboard_pckbd_setkeycode :: "u32 \<Rightarrow> u32 \<Rightarrow> sctab \<Rightarrow> int \<times> sctab" where
  "keyboard_pckbd_setkeycode scancode keycode t =
     (if scancode < 89 \<or> scancode > 255 \<or> keycode > 127 then (- 1, t)
      else if scancode < 128 then (0, t\<lparr>high_keys := (high_keys t)[unat scancode - sc_lim := ucast keycode]\<rparr>)
      else (0, t\<lparr>e0_keys := (e0_keys t)[unat scancode - 128 := ucast keycode]\<rparr>))"

definition keyboard_pckbd_getkeycode :: "u32 \<Rightarrow> sctab \<Rightarrow> int" where
  "keyboard_pckbd_getkeycode scancode t =
     (if scancode < 89 \<or> scancode > 255 then - 1
      else if scancode < 128 then uint (high_keys t ! (unat scancode - sc_lim))
      else uint (e0_keys t ! (unat scancode - 128)))"

text \<open>The keycode, when there is one.\<close>

definition keyboard_pckbd_translate :: "u8 \<Rightarrow> sctab \<Rightarrow> u8 option \<times> sctab" where
  "keyboard_pckbd_translate scancode t =
     (if scancode = 0xe0 \<or> scancode = 0xe1 then (None, t\<lparr>prev_scancode := uint scancode\<rparr>)
      else if scancode = 0 \<or> scancode = 0xff then (None, t\<lparr>prev_scancode := 0\<rparr>)
      else let sc = scancode AND 0x7f
        in if prev_scancode t \<noteq> 0 then
             (if prev_scancode t \<noteq> 0xe0 then
                (if prev_scancode t = 0xe1 \<and> sc = 0x1d then (None, t\<lparr>prev_scancode := 0x100\<rparr>)
                 else if prev_scancode t = 0x100 \<and> sc = 0x45 then (Some e1_pause, t\<lparr>prev_scancode := 0\<rparr>)
                 else (None, t\<lparr>prev_scancode := 0\<rparr>))
              else let t = t\<lparr>prev_scancode := 0\<rparr>
                in if sc = 0x2a \<or> sc = 0x36 then (None, t)
                   else if e0_keys t ! unat sc \<noteq> 0 then (Some (e0_keys t ! unat sc), t)
                   else (None, t))
           else if unat sc \<ge> sc_lim then
             (let keycode = high_keys t ! (unat sc - sc_lim) in if keycode = 0 then (None, t) else (Some keycode, t))
           else (Some sc, t))"

text \<open>The flag of a release that no press preceded: true is \<open>0200\<close>, a release.\<close>

definition keyboard_pckbd_unexpected_up :: "u8 \<Rightarrow> bool" where
  "keyboard_pckbd_unexpected_up keycode \<longleftrightarrow> \<not> (unat keycode \<ge> sc_lim \<or> keycode = 85)"

section \<open>The state machine\<close>

definition sctab_ok :: "sctab \<Rightarrow> bool" where
  "sctab_ok t \<longleftrightarrow> length (high_keys t) = 39 \<and> length (e0_keys t) = 128 \<and>
     (\<forall>k\<in>set (high_keys t) \<union> set (e0_keys t). k < 128) \<and> prev_scancode t \<in> {0, 0xe0, 0xe1, 0x100}"

lemma sctab_init_ok: "sctab_ok sctab_init"
  by code_simp

lemma unat_and_7f: "unat (w AND 0x7f) < 128" for w :: u8
proof -
  have "w AND 0x7f \<le> 0x7f" by (rule word_and_le1)
  then show ?thesis by (simp add: word_le_nat_alt)
qed

lemma keycode_bound:
  assumes "sctab_ok t" and "i < 128" shows "e0_keys t ! i < 128" and "89 \<le> i \<Longrightarrow> high_keys t ! (i - 89) < 128"
proof -
  show "e0_keys t ! i < 128" using assms by (auto simp: sctab_ok_def)
  show "high_keys t ! (i - 89) < 128" if "89 \<le> i"
  proof -
    have "high_keys t ! (i - 89) \<in> set (high_keys t)" using assms that by (auto simp: sctab_ok_def)
    then show ?thesis using assms(1) by (auto simp: sctab_ok_def)
  qed
qed

lemma translate_ok:
  assumes "sctab_ok t" and "keyboard_pckbd_translate scancode t = (r, t')"
  shows "sctab_ok t' \<and> high_keys t' = high_keys t \<and> e0_keys t' = e0_keys t \<and> (\<forall>k. r = Some k \<longrightarrow> k < 128)"
proof -
  have "scancode AND 0x7f < 128" using unat_and_7f [of scancode] by (simp add: word_less_nat_alt)
  then show ?thesis
    using assms keycode_bound [OF assms(1) unat_and_7f [of scancode]]
    by (auto simp: keyboard_pckbd_translate_def sctab_ok_def Let_def sc_lim_def e1_pause_def split: if_splits)
qed

end
