(* ===== verification/Bitops.thy ===== *)
theory Bitops
  imports Prelude
begin

text \<open>
  \<open>kernel/kbd-linux/asm/bitops.h\<close>: the bit maps of the keyboard driver, arrays of 32-bit words in
  which bit \<open>n\<close> is bit \<open>n mod 32\<close> of word \<open>n div 32\<close>. The instructions \<open>bts\<close>, \<open>btr\<close>, \<open>btc\<close> and
  \<open>bt\<close> with an operand in memory reach any bit of the array; a number beyond it is \<open>Out_Of_Bounds\<close>.
  The last part shows that the two searches find the first zero bit from a place on.
\<close>

section \<open>Single bits\<close>

definition bit_op :: "(nat \<Rightarrow> u32 \<Rightarrow> u32) \<Rightarrow> nat \<Rightarrow> u32 list \<Rightarrow> (bool \<times> u32 list) res" where
  "bit_op f nr addr =
     (if nr div 32 < length addr
      then Inr (bit (addr ! (nr div 32)) (nr mod 32), addr[nr div 32 := f (nr mod 32) (addr ! (nr div 32))])
      else Inl Out_Of_Bounds)"

definition set_bit :: "nat \<Rightarrow> u32 list \<Rightarrow> u32 list res" where
  "set_bit nr addr = bindE (bit_op Bit_Operations.set_bit nr addr) (\<lambda>(old, a). Inr a)"

definition clear_bit :: "nat \<Rightarrow> u32 list \<Rightarrow> u32 list res" where
  "clear_bit nr addr = bindE (bit_op unset_bit nr addr) (\<lambda>(old, a). Inr a)"

definition change_bit :: "nat \<Rightarrow> u32 list \<Rightarrow> u32 list res" where
  "change_bit nr addr = bindE (bit_op flip_bit nr addr) (\<lambda>(old, a). Inr a)"

definition test_and_set_bit :: "nat \<Rightarrow> u32 list \<Rightarrow> (bool \<times> u32 list) res" where
  "test_and_set_bit = bit_op Bit_Operations.set_bit"

definition test_and_clear_bit :: "nat \<Rightarrow> u32 list \<Rightarrow> (bool \<times> u32 list) res" where
  "test_and_clear_bit = bit_op unset_bit"

definition test_and_change_bit :: "nat \<Rightarrow> u32 list \<Rightarrow> (bool \<times> u32 list) res" where
  "test_and_change_bit = bit_op flip_bit"

definition test_bit :: "nat \<Rightarrow> u32 list \<Rightarrow> bool res" where
  "test_bit nr addr = (if nr div 32 < length addr then Inr (bit (addr ! (nr div 32)) (nr mod 32)) else Inl Out_Of_Bounds)"

section \<open>Searches\<close>

text \<open>The instruction \<open>bsf\<close>: the number of the lowest bit that is set.\<close>

fun bsf_from :: "nat \<Rightarrow> u32 \<Rightarrow> nat option" where
  "bsf_from 0 w = None"
| "bsf_from (Suc n) w = (if bit w (31 - n) then Some (31 - n) else bsf_from n w)"

definition bsf :: "u32 \<Rightarrow> nat option" where "bsf = bsf_from 32"

text \<open>\<open>repe scasl\<close> over the words, and the bit of the word it stopped at.\<close>

fun scan_words :: "nat \<Rightarrow> nat \<Rightarrow> u32 list \<Rightarrow> nat res" where
  "scan_words 0 i addr = Inr (32 * i)"
| "scan_words (Suc n) i addr =
     (if length addr \<le> i then Inl Out_Of_Bounds
      else if addr ! i = - 1 then scan_words n (Suc i) addr
      else case bsf (NOT (addr ! i)) of None \<Rightarrow> Inr (32 * i) | Some b \<Rightarrow> Inr (32 * i + b))"

definition find_first_zero_bit :: "u32 list \<Rightarrow> u32 \<Rightarrow> nat res" where
  "find_first_zero_bit addr len = (if len = 0 then Inr 0 else scan_words (unat (drop_bit 5 (len + 31))) 0 addr)"

definition find_next_zero_bit :: "u32 list \<Rightarrow> u32 \<Rightarrow> nat \<Rightarrow> nat res" where
  "find_next_zero_bit addr len offset =
     (let p = offset div 32; b = offset mod 32
      in if b \<noteq> 0 then
           (if length addr \<le> p then Inl Out_Of_Bounds
            else let s = (case bsf (NOT (drop_bit b (addr ! p))) of None \<Rightarrow> 32 | Some s \<Rightarrow> s)
              in if s < 32 - b then Inr (s + offset)
                 else bindE (find_first_zero_bit (drop (p + 1) addr) (len - 32 * of_nat (p + 1)))
                   (\<lambda>r. Inr (offset + (32 - b) + r)))
         else bindE (find_first_zero_bit (drop p addr) (len - 32 * of_nat p)) (\<lambda>r. Inr (offset + r)))"

definition ffz :: "u32 \<Rightarrow> nat option" where "ffz w = bsf (NOT w)"

definition ffs :: "u32 \<Rightarrow> nat" where "ffs x = (case bsf x of None \<Rightarrow> 0 | Some r \<Rightarrow> r + 1)"

section \<open>A bit map as a set of numbers\<close>

definition bit_at :: "u32 list \<Rightarrow> nat \<Rightarrow> bool" where
  "bit_at a n \<longleftrightarrow> n div 32 < length a \<and> bit (a ! (n div 32)) (n mod 32)"

lemma same_bit: "n div 32 = m div 32 \<Longrightarrow> n mod 32 = m mod 32 \<longleftrightarrow> n = m" for n m :: nat
  by (metis div_mult_mod_eq)

lemma bit_at_update:
  assumes "n div 32 < length a"
    and "\<And>w j. j < 32 \<Longrightarrow> bit (f (n mod 32) w) j = (if j = n mod 32 then v (bit w j) else bit w j)"
  shows "bit_at (a[n div 32 := f (n mod 32) (a ! (n div 32))]) m = (if m = n then v (bit_at a n) else bit_at a m)"
  using assms same_bit [of m n] by (auto simp: bit_at_def nth_list_update)

lemma test_and_set_spec:
  assumes "n div 32 < length a"
  obtains a' where "test_and_set_bit n a = Inr (bit_at a n, a')" "length a' = length a" "\<And>m. bit_at a' m = (m = n \<or> bit_at a m)"
proof
  let ?a = "a[n div 32 := Bit_Operations.set_bit (n mod 32) (a ! (n div 32))]"
  show "test_and_set_bit n a = Inr (bit_at a n, ?a)" using assms by (simp add: test_and_set_bit_def bit_op_def bit_at_def)
  show "bit_at ?a m = (m = n \<or> bit_at a m)" for m
    using bit_at_update [OF assms, of Bit_Operations.set_bit "\<lambda>_. True" m] by (auto simp: bit_set_bit_iff)
qed simp

lemma test_and_clear_spec:
  assumes "n div 32 < length a"
  obtains a' where "test_and_clear_bit n a = Inr (bit_at a n, a')" "length a' = length a" "\<And>m. bit_at a' m = (m \<noteq> n \<and> bit_at a m)"
proof
  let ?a = "a[n div 32 := unset_bit (n mod 32) (a ! (n div 32))]"
  show "test_and_clear_bit n a = Inr (bit_at a n, ?a)" using assms by (simp add: test_and_clear_bit_def bit_op_def bit_at_def)
  show "bit_at ?a m = (m \<noteq> n \<and> bit_at a m)" for m
    using bit_at_update [OF assms, of unset_bit "\<lambda>_. False" m] by (auto simp: bit_unset_bit_iff)
qed simp

lemma test_bit_spec: "n div 32 < length a \<Longrightarrow> test_bit n a = Inr (bit_at a n)"
  by (simp add: test_bit_def bit_at_def)

section \<open>The searches find the first zero\<close>

lemma bsf_from_spec:
  "n \<le> 32 \<Longrightarrow> case bsf_from n w of
     None \<Rightarrow> \<forall>j. 32 - n \<le> j \<and> j < 32 \<longrightarrow> \<not> bit w j
   | Some b \<Rightarrow> 32 - n \<le> b \<and> b < 32 \<and> bit w b \<and> (\<forall>j. 32 - n \<le> j \<and> j < b \<longrightarrow> \<not> bit w j)"
proof (induction n)
  case (Suc n)
  have e: "32 - n = Suc (31 - n)" using Suc.prems by simp
  show ?case
  proof (cases "bit w (31 - n)")
    case True
    then show ?thesis using Suc.prems by auto
  next
    case False
    have "31 - n \<le> j \<and> \<not> Suc (31 - n) \<le> j \<longrightarrow> j = 31 - n" for j by auto
    then show ?thesis
      using Suc False unfolding e by (auto split: option.splits) (metis le_antisym not_less_eq_eq)+
  qed
qed auto

lemma bsf_cases:
  obtains (none) "bsf w = None" "w = 0" | (some) b where "bsf w = Some b" "b < 32" "bit w b" "\<And>j. j < b \<Longrightarrow> \<not> bit w j"
proof (cases "bsf w")
  case None
  then have "\<And>j. j < 32 \<Longrightarrow> \<not> bit w j" using bsf_from_spec [of 32 w] by (simp add: bsf_def)
  then have "w = 0" by (intro bit_word_eqI) auto
  then show ?thesis using None none by blast
qed (use bsf_from_spec [of 32 w] some in \<open>auto simp: bsf_def\<close>)

definition first_zero :: "u32 list \<Rightarrow> nat \<Rightarrow> nat \<Rightarrow> nat \<Rightarrow> bool" where
  "first_zero a i n r \<longleftrightarrow> i \<le> r \<and> r \<le> n \<and> (\<forall>j. i \<le> j \<and> j < r \<longrightarrow> bit_at a j) \<and> (r < n \<longrightarrow> \<not> bit_at a r)"

lemma first_zero_extend:
  "first_zero a i n r \<Longrightarrow> i0 \<le> i \<Longrightarrow> (\<And>j. i0 \<le> j \<Longrightarrow> j < i \<Longrightarrow> bit_at a j) \<Longrightarrow> first_zero a i0 n r"
  unfolding first_zero_def by (meson le_trans not_less)

lemma scan_words_spec:
  "i + n \<le> length a \<Longrightarrow> \<exists>r. scan_words n i a = Inr r \<and> first_zero a (32 * i) (32 * (i + n)) r"
proof (induction n arbitrary: i)
  case (Suc n)
  have w: "bit_at a (32 * i + j) = bit (a ! i) j" if "j < 32" for j using that Suc.prems by (simp add: bit_at_def)
  show ?case
  proof (cases "a ! i = - 1")
    case True
    obtain r where r: "scan_words n (Suc i) a = Inr r" "first_zero a (32 * Suc i) (32 * (Suc i + n)) r"
      using Suc.IH [of "Suc i"] Suc.prems by auto
    have "bit_at a j" if "32 * i \<le> j" "j < r" for j
    proof (cases "j < 32 * Suc i")
      case True
      then show ?thesis using w [of "j - 32 * i"] that \<open>a ! i = - 1\<close> by simp
    qed (use r(2) that in \<open>simp add: first_zero_def\<close>)
    then show ?thesis using r True Suc.prems by (auto simp: first_zero_def)
  next
    case False
    then have nz: "NOT (a ! i) \<noteq> 0" by (metis bit.double_compl bit.compl_zero)
    show ?thesis
    proof (cases rule: bsf_cases [of "NOT (a ! i)"])
      case none
      then show ?thesis using nz by simp
    next
      case (some b)
      have "bit_at a j" if "32 * i \<le> j" "j < 32 * i + b" for j
        using w [of "j - 32 * i"] some(2) some(4) [of "j - 32 * i"] that by (simp add: bit_not_iff)
      moreover have "\<not> bit_at a (32 * i + b)" using w some by (simp add: bit_not_iff)
      ultimately show ?thesis using some False Suc.prems by (auto simp: first_zero_def)
    qed
  qed
qed (auto simp: first_zero_def)

lemma split_word: "n = j + p * 32 \<Longrightarrow> j < 32 \<Longrightarrow> n div 32 = p \<and> n mod 32 = j" for n j p :: nat
  by simp

lemma bit_at_drop: "bit_at (drop q a) j = bit_at a (32 * q + j)"
  by (auto simp: bit_at_def less_diff_conv add.commute)

lemma words_from:
  fixes len :: u32
  assumes "unat len + 31 < 2 ^ 32" and "q \<le> (unat len + 31) div 32"
  shows "unat (drop_bit 5 (len - 32 * of_nat q + 31)) = (unat len + 31) div 32 - q"
proof -
  have "32 * q \<le> unat len + 31" using assms(2) by (simp add: less_eq_div_iff_mult_less_eq mult.commute)
  then have "len - 32 * of_nat q + 31 = of_nat (unat len + 31 - 32 * q)" by (simp add: of_nat_diff)
  then have "unat (len - 32 * of_nat q + 31) = unat len + 31 - 32 * q" using assms(1) by (simp add: unat_of_nat take_bit_nat_eq_self)
  then have "unat (drop_bit 5 (len - 32 * of_nat q + 31)) = (unat len + 31 - 32 * q) div 32"
    unfolding unat_drop_bit_eq by (simp only: drop_bit_eq_div) simp
  also have "\<dots> = (unat len + 31) div 32 - q" by (simp add: div_mult_self_is_m diff_mult_distrib flip: div_diff)
  finally show ?thesis .
qed

lemma find_first_from:
  assumes "unat len + 31 < 2 ^ 32" and "q \<le> (unat len + 31) div 32" and "(unat len + 31) div 32 \<le> length a"
  shows "\<exists>r. find_first_zero_bit (drop q a) (len - 32 * of_nat q) = Inr r \<and>
    first_zero a (32 * q) (32 * ((unat len + 31) div 32)) (32 * q + r)"
proof -
  let ?n = "(unat len + 31) div 32"
  have f: "find_first_zero_bit (drop q a) (len - 32 * of_nat q) = scan_words (?n - q) 0 (drop q a)"
  proof (cases "len - 32 * of_nat q = 0")
    case True
    then have "len - 32 * of_nat q + 31 = 31" by simp
    then have "?n - q = 0" using words_from [OF assms(1,2)] by simp
    then show ?thesis using True by (simp add: find_first_zero_bit_def)
  qed (simp add: find_first_zero_bit_def words_from [OF assms(1,2)])
  obtain r where r: "scan_words (?n - q) 0 (drop q a) = Inr r" "first_zero (drop q a) 0 (32 * (?n - q)) r"
    using scan_words_spec [of 0 "?n - q" "drop q a"] diff_le_mono [OF assms(3), of q] by auto
  have "bit_at a j" if "32 * q \<le> j" "j < 32 * q + r" for j
    using r(2) that bit_at_drop [of q a "j - 32 * q"] by (simp add: first_zero_def)
  moreover have "r \<le> 32 * (?n - q)" using r(2) by (simp add: first_zero_def)
  then have "32 * q + r \<le> 32 * ?n" using assms(2) by linarith
  moreover have "\<not> bit_at a (32 * q + r)" if "32 * q + r < 32 * ?n"
    using r(2) that bit_at_drop [of q a r] by (simp add: first_zero_def)
  ultimately show ?thesis using r(1) f by (auto simp: first_zero_def)
qed

text \<open>
  \<open>find_next_zero_bit\<close> returns the first zero bit at or after the offset, or, when there is none in the
  words the map takes, the end of these words. The subtraction from the size may go below zero; the
  rounding to words makes it no word to search.
\<close>

theorem next_zero_is_the_first:
  assumes "unat len + 31 < 2 ^ 32" and "offset < unat len" and "(unat len + 31) div 32 \<le> length a"
  shows "\<exists>r. find_next_zero_bit a len offset = Inr r \<and> first_zero a offset (32 * ((unat len + 31) div 32)) r"
proof -
  let ?n = "(unat len + 31) div 32" and ?p = "offset div 32" and ?b = "offset mod 32"
  have o: "offset = 32 * ?p + ?b" by simp
  have p: "?p < ?n" using assms(2) by linarith
  show ?thesis
  proof (cases "?b = 0")
    case True
    then have "offset = 32 * ?p" using o by linarith
    then show ?thesis using find_first_from [OF assms(1) _ assms(3), of ?p] p True
      by (auto simp: find_next_zero_bit_def)
  next
    case b: False
    have bb: "?b < 32" by simp
    have w: "bit_at a (offset + j) = bit (drop_bit ?b (a ! ?p)) j" if "j < 32 - ?b" for j
    proof -
      have "offset + j = (?b + j) + ?p * 32" using o by linarith
      then have "(offset + j) div 32 = ?p" "(offset + j) mod 32 = ?b + j" using split_word [of "offset + j" "?b + j" ?p] that by simp_all
      then show ?thesis using p assms(3) by (simp add: bit_at_def bit_drop_bit_eq)
    qed
    let ?w = "NOT (drop_bit ?b (a ! ?p))"
    have "?w \<noteq> 0"
    proof
      assume "?w = 0"
      then have "\<not> bit ?w 31" by simp
      then show False using b by (auto simp: bit_not_iff bit_drop_bit_eq dest: bit_imp_le_length)
    qed
    then obtain s where s: "bsf ?w = Some s" "s < 32" "bit ?w s" "\<And>j. j < s \<Longrightarrow> \<not> bit ?w j"
      by (cases rule: bsf_cases [of ?w]) auto
    have ones: "bit_at a j" if "offset \<le> j" "j < offset + min s (32 - ?b)" for j
      using w [of "j - offset"] s(4) [of "j - offset"] that s(2) by (simp add: bit_not_iff)
    show ?thesis
    proof (cases "s < 32 - ?b")
      case True
      have "\<not> bit_at a (offset + s)" using w [OF True] s(3) by (simp add: bit_not_iff)
      moreover have "offset + s \<le> 32 * ?n" using True p o by linarith
      ultimately have "first_zero a offset (32 * ?n) (s + offset)"
        using ones True by (auto simp: first_zero_def add.commute min_def)
      moreover have "find_next_zero_bit a len offset = Inr (s + offset)"
        using s(1) True b p assms(3) by (simp add: find_next_zero_bit_def Let_def)
      ultimately show ?thesis by blast
    next
      case False
      obtain r where r: "find_first_zero_bit (drop (?p + 1) a) (len - 32 * of_nat (?p + 1)) = Inr r"
          "first_zero a (32 * (?p + 1)) (32 * ?n) (32 * (?p + 1) + r)"
        using find_first_from [OF assms(1) _ assms(3), of "?p + 1"] p by auto
      have "p + 1 = q \<Longrightarrow> off = 32 * p + b \<Longrightarrow> b < 32 \<Longrightarrow> 32 * q = off + (32 - b)" for p q b off :: nat by auto
      from this [OF refl o bb] have e: "32 * (?p + 1) = offset + (32 - ?b)" .
      have "find_next_zero_bit a len offset = Inr (offset + (32 - ?b) + r)"
        using s(1) False b p assms(3) r(1) by (simp add: find_next_zero_bit_def Let_def)
      moreover have "first_zero a offset (32 * ?n) (offset + (32 - ?b) + r)"
      proof (rule first_zero_extend [OF r(2) [unfolded e]])
        show "bit_at a j" if "offset \<le> j" "j < offset + (32 - ?b)" for j using ones [of j] that False by simp
      qed simp
      ultimately show ?thesis by blast
    qed
  qed
qed

theorem next_zero_is_the_first_witness:
  "\<exists>r. find_next_zero_bit [- 1, 0xFFFFFF0F] 40 33 = Inr r \<and> first_zero [- 1, 0xFFFFFF0F] 33 64 r"
  using next_zero_is_the_first [of 40 33 "[- 1, 0xFFFFFF0F]"] by simp

end
