(* ===== verification/Keyboard.thy ===== *)
theory Keyboard
  imports Scancode Bitops Keymap
begin

text \<open>
  The keyboard driver: \<open>kernel/kbd-linux/keyboard.c\<close>, the flags of \<open>linux/kbd_kern.h\<close> and the glue of
  \<open>kernel/keyboard-glue.c\<close>. \<open>kbdst\<close> is the state of these files. Every handler takes the state to a new
  one or fails with \<open>Out_Of_Bounds\<close> where it would index behind one of its tables. The characters the
  driver hands to \<open>keyboard_data\<close> are collected in \<open>typed\<close>; a null character is an empty string there.
  There is one console (\<open>fg_console\<close> is 0), so that \<open>kbd_table\<close> is its first entry, and \<open>tty\<close> is the
  pointer to the only terminal, null before the first scancode. An \<open>up_flag\<close> is true for \<open>0200\<close>.
\<close>

section \<open>The flags of a console\<close>

record kbd_struct =
  lockstate :: u8
  slockstate :: u8
  ledmode :: "2 word"
  ledflagstate :: "3 word"
  default_ledflagstate :: "3 word"
  kbdmode :: "2 word"
  modeflags :: "5 word"

definition vc_numlock :: nat where "vc_numlock = 1"
definition vc_capslock :: nat where "vc_capslock = 2"
definition vc_xlate :: "2 word" where "vc_xlate = 0"
definition vc_mediumraw :: "2 word" where "vc_mediumraw = 1"
definition vc_raw :: "2 word" where "vc_raw = 2"
definition vc_unicode :: "2 word" where "vc_unicode = 3"
definition vc_applic :: nat where "vc_applic = 0"
definition vc_ckmode :: nat where "vc_ckmode = 1"
definition vc_repeat :: nat where "vc_repeat = 2"
definition vc_crlf :: nat where "vc_crlf = 3"
definition vc_meta :: nat where "vc_meta = 4"
definition led_show_flags :: "2 word" where "led_show_flags = 0"
definition led_show_ioctl :: "2 word" where "led_show_ioctl = 1"
definition led_show_mem :: "2 word" where "led_show_mem = 2"

definition vc_kbd_mode :: "kbd_struct \<Rightarrow> nat \<Rightarrow> bool" where
  "vc_kbd_mode kbd flag = bit (modeflags kbd) flag"

definition vc_kbd_led :: "kbd_struct \<Rightarrow> nat \<Rightarrow> bool" where
  "vc_kbd_led kbd flag = bit (ledflagstate kbd) flag"

definition set_vc_kbd_mode :: "nat \<Rightarrow> kbd_struct \<Rightarrow> kbd_struct" where
  "set_vc_kbd_mode flag kbd = kbd\<lparr>modeflags := modeflags kbd OR push_bit flag 1\<rparr>"

definition set_vc_kbd_led :: "nat \<Rightarrow> kbd_struct \<Rightarrow> kbd_struct" where
  "set_vc_kbd_led flag kbd = kbd\<lparr>ledflagstate := ledflagstate kbd OR push_bit flag 1\<rparr>"

definition clr_vc_kbd_mode :: "nat \<Rightarrow> kbd_struct \<Rightarrow> kbd_struct" where
  "clr_vc_kbd_mode flag kbd = kbd\<lparr>modeflags := modeflags kbd AND NOT (push_bit flag 1)\<rparr>"

definition clr_vc_kbd_led :: "nat \<Rightarrow> kbd_struct \<Rightarrow> kbd_struct" where
  "clr_vc_kbd_led flag kbd = kbd\<lparr>ledflagstate := ledflagstate kbd AND NOT (push_bit flag 1)\<rparr>"

definition chg_vc_kbd_lock :: "nat \<Rightarrow> kbd_struct \<Rightarrow> kbd_struct" where
  "chg_vc_kbd_lock flag kbd = kbd\<lparr>lockstate := lockstate kbd XOR push_bit flag 1\<rparr>"

definition chg_vc_kbd_slock :: "nat \<Rightarrow> kbd_struct \<Rightarrow> kbd_struct" where
  "chg_vc_kbd_slock flag kbd = kbd\<lparr>slockstate := slockstate kbd XOR push_bit flag 1\<rparr>"

definition chg_vc_kbd_mode :: "nat \<Rightarrow> kbd_struct \<Rightarrow> kbd_struct" where
  "chg_vc_kbd_mode flag kbd = kbd\<lparr>modeflags := modeflags kbd XOR push_bit flag 1\<rparr>"

definition chg_vc_kbd_led :: "nat \<Rightarrow> kbd_struct \<Rightarrow> kbd_struct" where
  "chg_vc_kbd_led flag kbd = kbd\<lparr>ledflagstate := ledflagstate kbd XOR push_bit flag 1\<rparr>"

section \<open>The state\<close>

record ledptr =
  lp_addr :: u32
  lp_mask :: u32
  lp_valid :: bool

record kbdst =
  scan :: sctab
  k_down :: "u8 list"
  key_down :: "u32 list"
  dead_key_next :: bool
  shift_state :: u32
  npadch :: u32
  diacr :: u8
  rep :: bool
  kbd :: kbd_struct
  tty :: bool
  ledstate :: u8
  ledioctl :: u8
  ledptrs :: "ledptr list"
  led_words :: "u32 \<Rightarrow> u32"     \<comment> \<open>the memory the LED pointers point into\<close>
  tasklet_enabled :: bool
  stopped :: bool              \<comment> \<open>of \<open>console_tty\<close>\<close>
  started :: bool              \<comment> \<open>the flag \<open>init\<close> of \<open>do_scancode\<close>\<close>
  typed :: "u8 list"

definition nr_shift :: nat where "nr_shift = 9"
definition kg_shift :: nat where "kg_shift = 0"
definition kg_capsshift :: nat where "kg_capsshift = 8"
definition kt_latin :: nat where "kt_latin = 0"
definition kt_spec :: nat where "kt_spec = 2"
definition kt_shift :: nat where "kt_shift = 7"
definition kt_letter :: nat where "kt_letter = 11"
definition kt_slock :: nat where "kt_slock = 12"

definition ktyp :: "u16 \<Rightarrow> u8" where "ktyp x = ucast (drop_bit 8 x)"
definition kval :: "u16 \<Rightarrow> u8" where "kval x = ucast (x AND 0xff)"
definition u_sym :: "u16 \<Rightarrow> u16" where "u_sym x = x XOR 0xf000"

text \<open>An index into a table.\<close>

definition at :: "'a list \<Rightarrow> nat \<Rightarrow> 'a res" where
  "at xs i = (if i < length xs then Inr (xs ! i) else Inl Out_Of_Bounds)"

section \<open>Sending characters\<close>

definition put_queue :: "u8 \<Rightarrow> kbdst \<Rightarrow> kbdst" where
  "put_queue ch s = (if tty s \<and> ch \<noteq> 0 then s\<lparr>typed := typed s @ [ch]\<rparr> else s)"

definition puts_queue :: "u8 list \<Rightarrow> kbdst \<Rightarrow> kbdst" where
  "puts_queue cp s = (if tty s then s\<lparr>typed := typed s @ takeWhile (\<lambda>c. c \<noteq> 0) cp\<rparr> else s)"

definition to_utf8 :: "u16 \<Rightarrow> kbdst \<Rightarrow> kbdst" where
  "to_utf8 c s =
     (if c < 0x80 then put_queue (ucast c) s
      else if c < 0x800 then put_queue (ucast (0x80 OR (c AND 0x3f))) (put_queue (ucast (0xc0 OR drop_bit 6 c)) s)
      else put_queue (ucast (0x80 OR (c AND 0x3f)))
            (put_queue (ucast (0x80 OR (drop_bit 6 c AND 0x3f)))
              (put_queue (ucast (0xe0 OR drop_bit 12 c)) s)))"

definition applkey :: "u8 \<Rightarrow> bool \<Rightarrow> kbdst \<Rightarrow> kbdst" where
  "applkey key mode s = puts_queue [0x1b, if mode then 79 else 91, key, 0] s"

section \<open>The special functions\<close>

definition enter :: "kbdst \<Rightarrow> kbdst" where
  "enter s =
     (let s = (if diacr s \<noteq> 0 then (put_queue (diacr s) s)\<lparr>diacr := 0\<rparr> else s); s = put_queue 13 s
      in if vc_kbd_mode (kbd s) vc_crlf then put_queue 10 s else s)"

definition caps_toggle :: "kbdst \<Rightarrow> kbdst" where
  "caps_toggle s = (if rep s then s else s\<lparr>kbd := chg_vc_kbd_led vc_capslock (kbd s)\<rparr>)"

definition caps_on :: "kbdst \<Rightarrow> kbdst" where
  "caps_on s = (if rep s then s else s\<lparr>kbd := set_vc_kbd_led vc_capslock (kbd s)\<rparr>)"

definition start_tty :: "kbdst \<Rightarrow> kbdst" where
  "start_tty s = (if \<not> stopped s then s else s\<lparr>stopped := False\<rparr>)"

definition stop_tty :: "kbdst \<Rightarrow> kbdst" where
  "stop_tty s = (if stopped s then s else s\<lparr>stopped := True\<rparr>)"

definition hold :: "kbdst \<Rightarrow> kbdst" where
  "hold s = (if rep s \<or> \<not> tty s then s else if stopped s then start_tty s else stop_tty s)"

definition bare_num :: "kbdst \<Rightarrow> kbdst" where
  "bare_num s = (if \<not> rep s then s\<lparr>kbd := chg_vc_kbd_led vc_numlock (kbd s)\<rparr> else s)"

definition numlock_key :: "kbdst \<Rightarrow> kbdst" where
  "numlock_key s = (if vc_kbd_mode (kbd s) vc_applic then applkey 80 True s else bare_num s)"

definition compose :: "kbdst \<Rightarrow> kbdst" where
  "compose s = s\<lparr>dead_key_next := True\<rparr>"

text \<open>
  The search of \<open>decr_console\<close> and \<open>incr_console\<close> for another console. Only console 0, the one in the
  foreground, is allocated, so that both end there; \<open>set_console\<close> does nothing.
\<close>

definition max_nr_consoles :: nat where "max_nr_consoles = 63"

definition vc_cons_allocated :: "nat \<Rightarrow> bool" where
  "vc_cons_allocated i = (if i \<ge> max_nr_consoles then False else i = 0)"

definition decr_console :: nat where
  "decr_console = (case find vc_cons_allocated (rev [1..<max_nr_consoles]) of Some i \<Rightarrow> i | None \<Rightarrow> 0)"

definition incr_console :: nat where
  "incr_console = (case find vc_cons_allocated [1..<max_nr_consoles] of Some i \<Rightarrow> i | None \<Rightarrow> 0)"

section \<open>The handlers of the key types\<close>

definition shift_key :: "u8 \<Rightarrow> kbdst \<Rightarrow> kbdst res" where
  "shift_key v s =
     (let val = (if unat v = kg_capsshift then kg_shift else unat v)
      in bindE (at (k_down s) val) (\<lambda>n.
           Inr (s\<lparr>k_down := (k_down s)[val := n + 1], shift_state := shift_state s OR push_bit val 1\<rparr>)))"

definition shift_bit :: "nat \<Rightarrow> kbdst \<Rightarrow> kbdst res" where
  "shift_bit k s =
     bindE (test_bit k (key_down s)) (\<lambda>b.
       if b then bindE (at plain_map k) (\<lambda>sym.
         if unat (ktyp (u_sym sym)) = kt_shift \<or> unat (ktyp (u_sym sym)) = kt_slock
         then shift_key (kval (u_sym sym)) s else Inr s)
       else Inr s)"

definition compute_shiftstate :: "kbdst \<Rightarrow> kbdst res" where
  "compute_shiftstate s =
     foldE (\<lambda>i s. bindE (at (key_down s) i) (\<lambda>w.
         if w \<noteq> 0 then foldE (\<lambda>j. shift_bit (i * 32 + j)) [0..<32] s else Inr s))
       [0..<length (key_down s)]
       (s\<lparr>shift_state := 0, k_down := replicate (length (k_down s)) 0\<rparr>)"

text \<open>
  The functions that do nothing in this kernel (show registers, memory and state, interrupt, consoles,
  scrolling, reboot, SAK) are the identity.
\<close>

definition spec_fn :: "nat \<Rightarrow> kbdst \<Rightarrow> kbdst res" where
  "spec_fn v s =
     (if v = 0 then compute_shiftstate s
      else if v = 1 then Inr (enter s)
      else if v = 7 then Inr (caps_toggle s)
      else if v = 8 then Inr (numlock_key s)
      else if v = 9 then Inr (hold s)
      else if v = 13 then Inr (caps_on s)
      else if v = 14 then Inr (compose s)
      else if v = 19 then Inr (bare_num s)
      else Inr s)"

definition do_spec :: "u8 \<Rightarrow> bool \<Rightarrow> kbdst \<Rightarrow> kbdst res" where
  "do_spec v up s =
     (if up then Inr s
      else if unat v \<ge> 20 then Inr s
      else if (kbdmode (kbd s) = vc_raw \<or> kbdmode (kbd s) = vc_mediumraw) \<and> v \<noteq> 15 then Inr s
      else spec_fn (unat v) s)"

definition handle_diacr :: "u8 \<Rightarrow> kbdst \<Rightarrow> u8 \<times> kbdst" where
  "handle_diacr ch s =
     (let d = diacr s; s = s\<lparr>diacr := 0\<rparr>
      in case find (\<lambda>a. kd_diacr a = d \<and> kd_base a = ch) accent_table of
           Some a \<Rightarrow> (kd_result a, s)
         | None \<Rightarrow> if ch = 32 \<or> ch = d then (d, s) else (ch, put_queue d s))"

definition do_self :: "u8 \<Rightarrow> bool \<Rightarrow> kbdst \<Rightarrow> kbdst res" where
  "do_self v up s =
     (if up then Inr s
      else let (v, s) = (if diacr s \<noteq> 0 then handle_diacr v s else (v, s))
        in if dead_key_next s then Inr (s\<lparr>dead_key_next := False, diacr := v\<rparr>)
           else Inr (put_queue v s))"

definition do_dead2 :: "u8 \<Rightarrow> bool \<Rightarrow> kbdst \<Rightarrow> kbdst res" where
  "do_dead2 v up s =
     (if up then Inr s
      else if diacr s \<noteq> 0 then (case handle_diacr v s of (d, s) \<Rightarrow> Inr (s\<lparr>diacr := d\<rparr>))
      else Inr (s\<lparr>diacr := v\<rparr>))"

definition ret_diacr :: "u8 list" where "ret_diacr = [96, 39, 94, 126, 34, 44]"

definition do_dead :: "u8 \<Rightarrow> bool \<Rightarrow> kbdst \<Rightarrow> kbdst res" where
  "do_dead v up s = bindE (at ret_diacr (unat v)) (\<lambda>v. do_dead2 v up s)"

definition do_fn :: "u8 \<Rightarrow> bool \<Rightarrow> kbdst \<Rightarrow> kbdst res" where
  "do_fn v up s =
     (if up then Inr s
      else if unat v < length func_table then Inr (puts_queue (drop (func_table ! unat v) func_buf) s)
      else Inr s)"

definition cur_chars :: "u8 list" where "cur_chars = [66, 68, 67, 65, 0]"

definition do_cur :: "u8 \<Rightarrow> bool \<Rightarrow> kbdst \<Rightarrow> kbdst res" where
  "do_cur v up s =
     (if up then Inr s
      else bindE (at cur_chars (unat v)) (\<lambda>c. Inr (applkey c (vc_kbd_mode (kbd s) vc_ckmode) s)))"

definition pad_chars :: "u8 list" where
  "pad_chars = [48, 49, 50, 51, 52, 53, 54, 55, 56, 57, 43, 45, 42, 47, 13, 44, 46, 63, 40, 41, 0]"

definition app_map :: "u8 list" where
  "app_map = [112, 113, 114, 115, 116, 117, 118, 119, 120, 121, 108, 83, 82, 81, 77, 110, 110, 109, 80, 81, 0]"

text \<open>What a key of the pad does without NumLock: a function key, a cursor key, or the key in the middle.\<close>

definition pad_as_cursor :: "u8 \<Rightarrow> kbdst \<Rightarrow> kbdst res option" where
  "pad_as_cursor v s =
     (if v = 15 \<or> v = 16 then Some (do_fn 22 False s)
      else if v = 0 then Some (do_fn 21 False s)
      else if v = 1 then Some (do_fn 23 False s)
      else if v = 2 then Some (do_cur 0 False s)
      else if v = 3 then Some (do_fn 25 False s)
      else if v = 4 then Some (do_cur 1 False s)
      else if v = 6 then Some (do_cur 2 False s)
      else if v = 7 then Some (do_fn 20 False s)
      else if v = 8 then Some (do_cur 3 False s)
      else if v = 9 then Some (do_fn 24 False s)
      else if v = 5 then Some (Inr (applkey 71 (vc_kbd_mode (kbd s) vc_applic) s))
      else None)"

definition do_pad :: "u8 \<Rightarrow> bool \<Rightarrow> kbdst \<Rightarrow> kbdst res" where
  "do_pad v up s =
     (if up then Inr s
      else bindE (at (k_down s) kg_shift) (\<lambda>shifted.
        if vc_kbd_mode (kbd s) vc_applic \<and> shifted = 0
        then bindE (at app_map (unat v)) (\<lambda>c. Inr (applkey c True s))
        else case (if vc_kbd_led (kbd s) vc_numlock then None else pad_as_cursor v s) of
             Some r \<Rightarrow> r
           | None \<Rightarrow> bindE (at pad_chars (unat v)) (\<lambda>c.
               let s = put_queue c s
               in if v = 14 \<and> vc_kbd_mode (kbd s) vc_crlf then Inr (put_queue 10 s) else Inr s)))"

definition do_shift :: "u8 \<Rightarrow> bool \<Rightarrow> kbdst \<Rightarrow> kbdst res" where
  "do_shift v up s =
     (let old_state = shift_state s
      in if rep s then Inr s
         else let val = (if unat v = kg_capsshift then kg_shift else unat v);
                  s = (if unat v = kg_capsshift \<and> \<not> up then s\<lparr>kbd := clr_vc_kbd_led vc_capslock (kbd s)\<rparr> else s)
           in bindE (at (k_down s) val) (\<lambda>n.
              let n = (if up then (if n \<noteq> 0 then n - 1 else n) else n + 1);
                  s = s\<lparr>k_down := (k_down s)[val := n],
                        shift_state := (if n \<noteq> 0 then shift_state s OR push_bit val 1
                                        else shift_state s AND NOT (push_bit val 1))\<rparr>
              in if up \<and> shift_state s \<noteq> old_state \<and> npadch s \<noteq> - 1
                 then Inr ((if kbdmode (kbd s) = vc_unicode then to_utf8 (ucast (npadch s AND 0xffff)) s
                            else put_queue (ucast (npadch s AND 0xff)) s)\<lparr>npadch := - 1\<rparr>)
                 else Inr s))"

definition do_meta :: "u8 \<Rightarrow> bool \<Rightarrow> kbdst \<Rightarrow> kbdst res" where
  "do_meta v up s =
     (if up then Inr s
      else if vc_kbd_mode (kbd s) vc_meta then Inr (put_queue v (put_queue 27 s))
      else Inr (put_queue (v OR 0x80) s))"

definition do_ascii :: "u8 \<Rightarrow> bool \<Rightarrow> kbdst \<Rightarrow> kbdst res" where
  "do_ascii v up s =
     (if up then Inr s
      else let (v, base) = (if unat v < 10 then (v, 10) else (v - 10, 16))
        in Inr (s\<lparr>npadch := (if npadch s = - 1 then ucast v else npadch s * base + ucast v)\<rparr>))"

definition do_lock :: "u8 \<Rightarrow> bool \<Rightarrow> kbdst \<Rightarrow> kbdst res" where
  "do_lock v up s =
     (if up \<or> rep s then Inr s
      else if 32 \<le> unat v then Inl Out_Of_Bounds
      else Inr (s\<lparr>kbd := chg_vc_kbd_lock (unat v) (kbd s)\<rparr>))"

definition do_slock :: "u8 \<Rightarrow> bool \<Rightarrow> kbdst \<Rightarrow> kbdst res" where
  "do_slock v up s =
     bindE (do_shift v up s) (\<lambda>s.
       if up \<or> rep s then Inr s
       else let kbd1 = chg_vc_kbd_slock (unat v) (kbd s)
         in bindE (at key_maps (unat (lockstate kbd1 XOR slockstate kbd1))) (\<lambda>m.
            if m = None then Inr (s\<lparr>kbd := chg_vc_kbd_slock (unat v) (kbd1\<lparr>slockstate := 0\<rparr>)\<rparr>)
            else Inr (s\<lparr>kbd := kbd1\<rparr>)))"

text \<open>The table \<open>key_handler\<close>: the types 10 and 11 to 15 are lock, lowercase, sticky lock, dead and ignored.\<close>

definition key_handler :: "nat \<Rightarrow> u8 \<Rightarrow> bool \<Rightarrow> kbdst \<Rightarrow> kbdst res" where
  "key_handler type v up s =
     (if type = 0 then do_self v up s
      else if type = 1 then do_fn v up s
      else if type = 2 then do_spec v up s
      else if type = 3 then do_pad v up s
      else if type = 4 then do_dead v up s
      else if type = 5 then Inr s
      else if type = 6 then do_cur v up s
      else if type = 7 then do_shift v up s
      else if type = 8 then do_meta v up s
      else if type = 9 then do_ascii v up s
      else if type = 10 then do_lock v up s
      else if type = 12 then do_slock v up s
      else if type = 13 then do_dead2 v up s
      else if type < 16 then Inr s
      else Inl Out_Of_Bounds)"

section \<open>A scancode\<close>

text \<open>The symbol of a letter while CapsLock is on is looked up in the map with Shift reversed.\<close>

definition letter_symbol :: "nat \<Rightarrow> nat \<Rightarrow> u8 \<Rightarrow> u16 \<Rightarrow> kbdst \<Rightarrow> u16 res" where
  "letter_symbol type shift_final keycode keysym s =
     (if type = kt_letter \<and> vc_kbd_led (kbd s) vc_capslock
      then bindE (at key_maps (unat (of_nat shift_final XOR (1 :: u32)))) (\<lambda>m.
        case m of None \<Rightarrow> Inr keysym | Some key_map \<Rightarrow> at key_map (unat keycode))
      else Inr keysym)"

definition call_handler :: "nat \<Rightarrow> u16 \<Rightarrow> bool \<Rightarrow> kbdst \<Rightarrow> kbdst res" where
  "call_handler type keysym up s =
     bindE (key_handler type (ucast (keysym AND 0xff)) up s) (\<lambda>s.
       Inr (if type \<noteq> kt_slock then s\<lparr>kbd := (kbd s)\<lparr>slockstate := 0\<rparr>\<rparr> else s))"

text \<open>The last part of \<open>handle_scancode\<close>: the symbol of a key and what it does.\<close>

definition handle_symbol :: "u8 \<Rightarrow> bool \<Rightarrow> bool \<Rightarrow> kbdst \<Rightarrow> kbdst res" where
  "handle_symbol keycode up raw_mode s =
     (let shift_final = unat ((shift_state s OR ucast (slockstate (kbd s))) XOR ucast (lockstate (kbd s)))
      in bindE (at key_maps shift_final) (\<lambda>m.
        case m of
          None \<Rightarrow> bindE (compute_shiftstate s) (\<lambda>s. Inr (s\<lparr>kbd := (kbd s)\<lparr>slockstate := 0\<rparr>\<rparr>))
        | Some key_map \<Rightarrow> bindE (at key_map (unat keycode)) (\<lambda>keysym.
            if ktyp keysym \<ge> 0xf0 then
              (let type = unat (ktyp keysym - 0xf0)
               in if raw_mode \<and> type \<noteq> kt_spec \<and> type \<noteq> kt_shift then Inr s
                  else bindE (letter_symbol type shift_final keycode keysym s) (\<lambda>keysym.
                    call_handler (if type = kt_letter then kt_latin else type) keysym up s))
            else if \<not> up \<and> \<not> raw_mode then Inr (to_utf8 keysym s) else Inr s)))"

definition track_key :: "u8 \<Rightarrow> bool \<Rightarrow> kbdst \<Rightarrow> (bool \<times> kbdst) res" where
  "track_key keycode up s =
     (if up then bindE (test_and_clear_bit (unat keycode) (key_down s)) (\<lambda>(old, a).
        Inr (if \<not> old then keyboard_pckbd_unexpected_up keycode else True, s\<lparr>rep := False, key_down := a\<rparr>))
      else bindE (test_and_set_bit (unat keycode) (key_down s)) (\<lambda>(old, a). Inr (False, s\<lparr>rep := old, key_down := a\<rparr>)))"

definition handle_keycode :: "u8 \<Rightarrow> bool \<Rightarrow> bool \<Rightarrow> kbdst \<Rightarrow> kbdst res" where
  "handle_keycode keycode up raw_mode s =
     (let medium = (kbdmode (kbd s) = vc_mediumraw);
          s = (if medium then put_queue (keycode + (if up then 0x80 else 0)) s else s);
          raw_mode = (raw_mode \<or> medium)
      in if \<not> rep s \<or> vc_kbd_mode (kbd s) vc_repeat \<and> tty s
         then handle_symbol keycode up raw_mode s
         else Inr s)"

definition handle_scancode :: "u8 \<Rightarrow> bool \<Rightarrow> kbdst \<Rightarrow> kbdst res" where
  "handle_scancode scancode down s =
     (let s = s\<lparr>tty := True\<rparr>;
          raw_mode = (kbdmode (kbd s) = vc_raw);
          s = (if raw_mode then put_queue (scancode OR (if \<not> down then 0x80 else 0)) s else s)
      in case keyboard_pckbd_translate scancode (scan s) of
           (None, t) \<Rightarrow> Inr (s\<lparr>scan := t\<rparr>)
         | (Some keycode, t) \<Rightarrow>
             bindE (track_key keycode (\<not> down) (s\<lparr>scan := t\<rparr>)) (\<lambda>(up, s). handle_keycode keycode up raw_mode s))"

section \<open>The LEDs\<close>

definition led_bit :: "kbdst \<Rightarrow> nat \<Rightarrow> u8 \<Rightarrow> u8" where
  "led_bit s i leds =
     (let p = ledptrs s ! i
      in if lp_valid p then
           (if led_words s (lp_addr p) AND lp_mask p \<noteq> 0 then leds OR push_bit i 1 else leds AND NOT (push_bit i 1))
         else leds)"

definition getleds :: "kbdst \<Rightarrow> u8" where
  "getleds s =
     (if ledmode (kbd s) = led_show_ioctl then ledioctl s
      else let leds = ucast (ledflagstate (kbd s))
        in if ledmode (kbd s) = led_show_mem then led_bit s 2 (led_bit s 1 (led_bit s 0 leds)) else leds)"

definition kbd_bh :: "kbdst \<Rightarrow> kbdst" where
  "kbd_bh s = (if getleds s \<noteq> ledstate s then s\<lparr>ledstate := getleds s\<rparr> else s)"

definition schedule_tasklet :: "kbdst \<Rightarrow> kbdst" where
  "schedule_tasklet s = (if tasklet_enabled s then kbd_bh s else s)"

definition getledstate :: "kbdst \<Rightarrow> u8" where "getledstate s = ledstate s"

definition setledstate :: "u32 \<Rightarrow> kbdst \<Rightarrow> kbdst" where
  "setledstate led s =
     schedule_tasklet
       (if led AND NOT 7 = 0 then s\<lparr>ledioctl := ucast led, kbd := (kbd s)\<lparr>ledmode := led_show_ioctl\<rparr>\<rparr>
        else s\<lparr>kbd := (kbd s)\<lparr>ledmode := led_show_flags\<rparr>\<rparr>)"

definition register_leds :: "u32 \<Rightarrow> u32 \<Rightarrow> u32 \<Rightarrow> kbdst \<Rightarrow> kbdst" where
  "register_leds led addr msk s =
     (if led < 3 then s\<lparr>ledptrs := (ledptrs s)[unat led := \<lparr>lp_addr = addr, lp_mask = msk, lp_valid = True\<rparr>],
                        kbd := (kbd s)\<lparr>ledmode := led_show_mem\<rparr>\<rparr>
      else s\<lparr>kbd := (kbd s)\<lparr>ledmode := led_show_flags\<rparr>\<rparr>)"

section \<open>Initialisation and the interrupt\<close>

definition kbd_defmode :: "5 word" where "kbd_defmode = 20"   \<comment> \<open>\<open>VC_REPEAT\<close> and \<open>VC_META\<close>\<close>

definition kbd0 :: kbd_struct where
  "kbd0 = \<lparr>lockstate = 0, slockstate = 0, ledmode = led_show_flags, ledflagstate = 0, default_ledflagstate = 0,
     kbdmode = vc_xlate, modeflags = kbd_defmode\<rparr>"

definition kbd_init :: "kbdst \<Rightarrow> kbdst" where
  "kbd_init s = schedule_tasklet (s\<lparr>kbd := kbd0, tasklet_enabled := True\<rparr>)"

text \<open>The state before the first scancode: what C gives to static variables.\<close>

definition kbdst_boot :: "(u32 \<Rightarrow> u32) \<Rightarrow> kbdst" where
  "kbdst_boot words =
     \<lparr>scan = sctab_init, k_down = replicate 9 0, key_down = replicate 8 0, dead_key_next = False, shift_state = 0,
      npadch = - 1, diacr = 0, rep = False,
      kbd = \<lparr>lockstate = 0, slockstate = 0, ledmode = 0, ledflagstate = 0, default_ledflagstate = 0, kbdmode = 0, modeflags = 0\<rparr>,
      tty = False, ledstate = 0xff, ledioctl = 0,
      ledptrs = replicate 3 \<lparr>lp_addr = 0, lp_mask = 0, lp_valid = False\<rparr>, led_words = words,
      tasklet_enabled = False, stopped = False, started = False, typed = []\<rparr>"

definition do_scancode :: "u8 \<Rightarrow> kbdst \<Rightarrow> kbdst res" where
  "do_scancode scancode s =
     (let s = (if \<not> started s then kbd_init (s\<lparr>started := True\<rparr>) else s)
      in if scancode \<noteq> 0 \<and> scancode \<noteq> 0xff
         then bindE (handle_scancode scancode (scancode AND 0x80 = 0) s) (\<lambda>s. Inr (kbd_bh s))
         else Inr s)"

end
