(* ===== verification/KeyboardInv.thy ===== *)
theory KeyboardInv
  imports Keyboard
begin

text \<open>
  The keyboard driver never reads or writes outside its tables. \<open>kb_ok\<close> is its invariant: the lengths of
  the tables, a modifier is on exactly while its counter of pressed keys is not zero, and there is no
  ninth modifier, so that the modifiers index the table of key maps. Every handler keeps it for the
  symbols that are in the key maps (\<open>sym_ok\<close>), and every scancode keeps it.
\<close>

section \<open>The invariant\<close>

definition kb_ok :: "kbdst \<Rightarrow> bool" where
  "kb_ok s \<longleftrightarrow> sctab_ok (scan s) \<and> length (k_down s) = 9 \<and> length (key_down s) = 8 \<and> length (ledptrs s) = 3 \<and>
     (\<forall>i<9. bit (shift_state s) i \<longleftrightarrow> k_down s ! i \<noteq> 0) \<and> (\<forall>i\<ge>8. \<not> bit (shift_state s) i)"

definition safe :: "kbdst res \<Rightarrow> bool" where
  "safe r \<longleftrightarrow> (\<exists>s. r = Inr s \<and> kb_ok s)"

named_theorems kb_safe

lemma safe_Inr [kb_safe]: "safe (Inr s) \<longleftrightarrow> kb_ok s"
  by (simp add: safe_def)

lemma safe_bind: "safe m \<Longrightarrow> (\<And>s. kb_ok s \<Longrightarrow> safe (f s)) \<Longrightarrow> safe (bindE m f)"
  by (auto simp: safe_def)

lemma safe_foldE: "(\<And>x s. x \<in> set xs \<Longrightarrow> kb_ok s \<Longrightarrow> safe (f x s)) \<Longrightarrow> kb_ok s \<Longrightarrow> safe (foldE f xs s)"
proof (induction xs arbitrary: s)
  case (Cons x xs)
  show ?case unfolding foldE.simps using Cons by (intro safe_bind) simp_all
qed (simp add: safe_def)

lemma if_safe: "(b \<Longrightarrow> safe x) \<Longrightarrow> (\<not> b \<Longrightarrow> safe y) \<Longrightarrow> safe (if b then x else y)"
  by simp

lemma at_in [simp]: "i < length xs \<Longrightarrow> at xs i = Inr (xs ! i)"
  by (simp add: at_def)

text \<open>Updates that do not touch the fields the invariant is about.\<close>

lemma kb_ok_frame [simp]:
  "kb_ok (s\<lparr>typed := ts\<rparr>) = kb_ok s" "kb_ok (s\<lparr>diacr := d\<rparr>) = kb_ok s" "kb_ok (s\<lparr>kbd := k\<rparr>) = kb_ok s"
  "kb_ok (s\<lparr>rep := b\<rparr>) = kb_ok s" "kb_ok (s\<lparr>npadch := n\<rparr>) = kb_ok s" "kb_ok (s\<lparr>dead_key_next := b\<rparr>) = kb_ok s"
  "kb_ok (s\<lparr>stopped := b\<rparr>) = kb_ok s" "kb_ok (s\<lparr>tty := b\<rparr>) = kb_ok s" "kb_ok (s\<lparr>ledstate := l\<rparr>) = kb_ok s"
  "kb_ok (s\<lparr>ledioctl := l\<rparr>) = kb_ok s" "kb_ok (s\<lparr>tasklet_enabled := b\<rparr>) = kb_ok s" "kb_ok (s\<lparr>started := b\<rparr>) = kb_ok s"
  by (simp_all add: kb_ok_def)

lemma kb_ok_outputs [simp]:
  "kb_ok (put_queue c s) = kb_ok s" "kb_ok (puts_queue cs s) = kb_ok s" "kb_ok (to_utf8 u s) = kb_ok s"
  "kb_ok (applkey key mode s) = kb_ok s" "kb_ok (enter s) = kb_ok s" "kb_ok (caps_toggle s) = kb_ok s"
  "kb_ok (caps_on s) = kb_ok s" "kb_ok (hold s) = kb_ok s" "kb_ok (bare_num s) = kb_ok s"
  "kb_ok (numlock_key s) = kb_ok s" "kb_ok (compose s) = kb_ok s" "kb_ok (kbd_bh s) = kb_ok s"
  by (simp_all add: put_queue_def puts_queue_def to_utf8_def applkey_def enter_def caps_toggle_def caps_on_def
      hold_def start_tty_def stop_tty_def bare_num_def numlock_key_def compose_def kbd_bh_def Let_def)

lemma bit_one_at: "v < 32 \<Longrightarrow> bit (2 ^ v :: u32) i \<longleftrightarrow> i = v"
  by (auto simp: bit_exp_iff)

section \<open>The state of the modifiers from the pressed keys\<close>

definition shift_sym :: "u16 \<Rightarrow> bool" where
  "shift_sym c \<longleftrightarrow> unat (ktyp (u_sym c)) = kt_shift \<or> unat (ktyp (u_sym c)) = kt_slock"

lemma plain_map_shifts:
  "length plain_map = 256" "\<forall>c\<in>set plain_map. shift_sym c \<longrightarrow> unat (kval (u_sym c)) \<le> 8"
  "length (filter shift_sym plain_map) < 256"
  by code_simp+

definition counts :: "nat \<Rightarrow> kbdst \<Rightarrow> bool" where
  "counts m s \<longleftrightarrow> sctab_ok (scan s) \<and> length (k_down s) = 9 \<and> length (key_down s) = 8 \<and> length (ledptrs s) = 3 \<and>
     (\<forall>i<9. \<exists>c\<le>m. k_down s ! i = of_nat c \<and> (bit (shift_state s) i \<longleftrightarrow> 0 < c)) \<and> (\<forall>i\<ge>8. \<not> bit (shift_state s) i)"

lemma counts_mono: "counts m s \<Longrightarrow> m \<le> n \<Longrightarrow> counts n s"
  unfolding counts_def by (meson le_trans)

lemma counts_at:
  assumes "counts m s" and "i < 9"
  shows "\<exists>c\<le>m. k_down s ! i = of_nat c \<and> (bit (shift_state s) i \<longleftrightarrow> 0 < c)"
  using assms unfolding counts_def by (elim conjE) (drule spec [where x = i], drule mp, assumption+)

lemma shift_key_counts:
  assumes "counts m s" and "unat v \<le> 8"
  shows "\<exists>s'. shift_key v s = Inr s' \<and> counts (Suc m) s' \<and> key_down s' = key_down s"
proof -
  define val where "val = (if unat v = kg_capsshift then kg_shift else unat v)"
  have "val < 9" and val: "val < 8" using assms(2) by (simp_all add: val_def kg_capsshift_def kg_shift_def)
  obtain c where c: "c \<le> m" "k_down s ! val = of_nat c" "bit (shift_state s) val \<longleftrightarrow> 0 < c"
    using counts_at [OF assms(1) \<open>val < 9\<close>] by blast
  let ?s = "s\<lparr>k_down := (k_down s)[val := k_down s ! val + 1], shift_state := shift_state s OR push_bit val 1\<rparr>"
  have len: "length (k_down s) = 9" and high: "\<And>i. 8 \<le> i \<Longrightarrow> \<not> bit (shift_state s) i" using assms(1) by (simp_all add: counts_def)
  have "shift_key v s = Inr ?s" unfolding shift_key_def val_def [symmetric] Let_def using len val by simp
  moreover have "counts (Suc m) ?s"
    unfolding counts_def
  proof (intro conjI allI impI)
    show "\<exists>c\<le>Suc m. k_down ?s ! i = of_nat c \<and> (bit (shift_state ?s) i \<longleftrightarrow> 0 < c)" if i: "i < 9" for i
    proof (cases "i = val")
      case True
      then show ?thesis using c val len
        by (intro exI [where x = "Suc c"]) (auto simp: bit_or_iff bit_one_at)
    next
      case False
      obtain c where "c \<le> m" "k_down s ! i = of_nat c" "bit (shift_state s) i \<longleftrightarrow> 0 < c"
        using counts_at [OF assms(1) i] by blast
      then show ?thesis using False val
        by (intro exI [where x = c]) (auto simp: bit_or_iff bit_one_at)
    qed
    show "\<not> bit (shift_state ?s) i" if "8 \<le> i" for i
      using high that val by (auto simp: bit_or_iff bit_one_at)
  qed (use assms(1) in \<open>simp_all add: counts_def\<close>)
  ultimately show ?thesis by simp
qed

lemma shift_bits_count:
  "counts m s \<Longrightarrow> \<forall>k\<in>set ks. k < 256 \<Longrightarrow>
   \<exists>s'. foldE shift_bit ks s = Inr s' \<and> counts (m + length (filter (\<lambda>k. shift_sym (plain_map ! k)) ks)) s' \<and> key_down s' = key_down s"
proof (induction ks arbitrary: m s)
  case (Cons k ks)
  have k: "k < 256" "k div 32 < length (key_down s)" using Cons.prems by (auto simp: counts_def)
  let ?sh = "shift_sym (plain_map ! k)"
  have v: "?sh \<Longrightarrow> unat (kval (u_sym (plain_map ! k))) \<le> 8" using plain_map_shifts(1,2) k(1) by (metis nth_mem)
  have "\<exists>s1. shift_bit k s = Inr s1 \<and> counts (m + (if ?sh then 1 else 0)) s1 \<and> key_down s1 = key_down s"
  proof (cases "bit_at (key_down s) k \<and> ?sh")
    case True
    then show ?thesis using shift_key_counts [OF Cons.prems(1) v] plain_map_shifts(1) k
      by (auto simp: shift_bit_def test_bit_spec shift_sym_def)
  next
    case False
    then have "shift_bit k s = Inr s" using plain_map_shifts(1) k
      by (auto simp: shift_bit_def test_bit_spec shift_sym_def)
    then show ?thesis using counts_mono [OF Cons.prems(1)] by auto
  qed
  then obtain s1 where s1: "shift_bit k s = Inr s1" "counts (m + (if ?sh then 1 else 0)) s1" "key_down s1 = key_down s" by blast
  show ?case using Cons.IH [OF s1(2)] Cons.prems(2) s1 by (auto simp: add.assoc)
qed simp

lemma foldE_concat: "foldE f (concat xss) s = foldE (foldE f) xss s"
  by (induction xss arbitrary: s) (simp_all add: foldE_append cong: bindE_cong)


lemma compute_flat:
  assumes "length (key_down s) = 8" and "length (k_down s) = 9"
  shows "compute_shiftstate s = foldE shift_bit [0..<256] (s\<lparr>shift_state := 0, k_down := replicate 9 0\<rparr>)"
proof -
  let ?inner = "\<lambda>i. foldE (\<lambda>j. shift_bit (i * 32 + j)) [0..<32]"
  have inner: "?inner i s = foldE shift_bit (map (\<lambda>j. i * 32 + j) [0..<32]) s" for i s
  proof -
    have "foldE (\<lambda>j. shift_bit (i * 32 + j)) xs s = foldE shift_bit (map (\<lambda>j. i * 32 + j) xs) s" for xs s
      by (induction xs arbitrary: s) (simp_all cong: bindE_cong)
    then show ?thesis .
  qed
  have keeps: "key_down s' = key_down s" if "shift_bit k s = Inr s'" for k s s'
    using that by (auto simp: shift_bit_def shift_key_def Let_def bind_rules split: if_splits)
  have keep: "foldE shift_bit ks s = Inr s' \<Longrightarrow> key_down s' = key_down s" for ks s s'
    by (induction ks arbitrary: s) (auto simp: bind_rules dest!: keeps)
  have skip: "foldE shift_bit (map (\<lambda>j. i * 32 + j) js) s = Inr s"
    if "i < length (key_down s)" "key_down s ! i = 0" "\<forall>j\<in>set js. j < 32" for i s js
    using that by (induction js) (auto simp: shift_bit_def test_bit_def)
  have outer: "foldE (\<lambda>i s. bindE (at (key_down s) i) (\<lambda>w. if w \<noteq> 0 then ?inner i s else Inr s)) is s
      = foldE (foldE shift_bit) (map (\<lambda>i. map (\<lambda>j. i * 32 + j) [0..<32]) is) s"
    if "length (key_down s) = 8" "\<forall>i\<in>set is. i < 8" for s "is"
    using that
  proof (induction "is" arbitrary: s)
    case (Cons i "is")
    have "bindE (at (key_down s) i) (\<lambda>w. if w \<noteq> 0 then ?inner i s else Inr s) = foldE shift_bit (map (\<lambda>j. i * 32 + j) [0..<32]) s"
      using Cons.prems skip [of i s "[0..<32]"] inner [of i s] by simp
    then show ?case using Cons keep by (auto simp: bindE_def split: sum.split)
  qed simp
  have all: "concat (map (\<lambda>i. map (\<lambda>j. i * 32 + j) [0..<32]) [0..<8]) = [0..<256]" by code_simp
  show ?thesis
    unfolding compute_shiftstate_def assms foldE_concat all [symmetric]
    by (rule outer) (simp_all add: assms)
qed

lemma compute_shiftstate_safe: "kb_ok s \<Longrightarrow> safe (compute_shiftstate s)"
proof -
  assume ok: "kb_ok s"
  let ?s = "s\<lparr>shift_state := 0, k_down := replicate 9 0\<rparr>"
  have len: "length (key_down s) = 8" "length (k_down s) = 9" using ok by (simp_all add: kb_ok_def)
  have "counts 0 ?s" using ok by (simp add: counts_def kb_ok_def)
  from shift_bits_count [OF this, of "[0..<256]"]
  obtain s' where s': "compute_shiftstate s = Inr s'" "counts (length (filter (\<lambda>k. shift_sym (plain_map ! k)) [0..<256])) s'"
    unfolding compute_flat [OF len] by auto
  have "filter shift_sym plain_map = filter shift_sym (map ((!) plain_map) [0..<256])"
    using map_nth [of plain_map] plain_map_shifts(1) by simp
  then have "length (filter (\<lambda>k. shift_sym (plain_map ! k)) [0..<256]) < 256"
    using plain_map_shifts(3) by (simp add: filter_map comp_def)
  then have "bit (shift_state s') i \<longleftrightarrow> k_down s' ! i \<noteq> 0" if i: "i < 9" for i
  proof -
    obtain c where "c < 256" "k_down s' ! i = of_nat c" "bit (shift_state s') i \<longleftrightarrow> 0 < c"
      using counts_at [OF s'(2) i] \<open>_ < 256\<close> by (blast intro: le_less_trans)
    then show ?thesis by (auto simp: word_of_nat_eq_0_iff dest: dvd_imp_le)
  qed
  then have "kb_ok s'" using s'(2) unfolding counts_def kb_ok_def by simp
  then show ?thesis using s'(1) by (simp add: safe_def)
qed

section \<open>The handlers\<close>

lemma handle_diacr_ok: "kb_ok s \<Longrightarrow> handle_diacr v s = (d, s') \<Longrightarrow> kb_ok s'"
  by (auto simp: handle_diacr_def accent_table_def Let_def split: if_splits)

lemma do_self_safe: "kb_ok s \<Longrightarrow> safe (do_self v up s)"
  by (auto simp: do_self_def kb_safe split: prod.split dest: handle_diacr_ok)

lemma do_dead2_safe: "kb_ok s \<Longrightarrow> safe (do_dead2 v up s)"
  by (auto simp: do_dead2_def kb_safe split: prod.split dest: handle_diacr_ok)

lemma do_dead_safe: "kb_ok s \<Longrightarrow> unat v < 6 \<Longrightarrow> safe (do_dead v up s)"
  by (simp add: do_dead_def ret_diacr_def do_dead2_safe)

lemma do_fn_safe: "kb_ok s \<Longrightarrow> safe (do_fn v up s)"
  by (simp add: do_fn_def kb_safe)

lemma do_cur_safe: "kb_ok s \<Longrightarrow> unat v < 5 \<Longrightarrow> safe (do_cur v up s)"
  by (simp add: do_cur_def cur_chars_def kb_safe)

lemma do_pad_safe:
  assumes ok: "kb_ok s" and v: "unat v < 21" shows "safe (do_pad v up s)"
proof -
  have "pad_as_cursor v s = Some r \<Longrightarrow> safe r" for r
    using ok by (auto simp: pad_as_cursor_def do_fn_safe do_cur_safe kb_safe split: if_splits)
  moreover have "length (k_down s) = 9" using ok by (simp add: kb_ok_def)
  ultimately show ?thesis using assms
    by (auto simp: do_pad_def app_map_def pad_chars_def kg_shift_def kb_safe Let_def split: option.split)
qed

lemma do_spec_safe: "kb_ok s \<Longrightarrow> safe (do_spec v up s)"
  by (simp add: do_spec_def spec_fn_def compute_shiftstate_safe kb_safe)

lemma do_meta_safe: "kb_ok s \<Longrightarrow> safe (do_meta v up s)"
  by (simp add: do_meta_def kb_safe)

lemma do_ascii_safe: "kb_ok s \<Longrightarrow> safe (do_ascii v up s)"
  by (auto simp: do_ascii_def kb_safe split: prod.split)

lemma do_lock_safe: "kb_ok s \<Longrightarrow> unat v < 32 \<Longrightarrow> safe (do_lock v up s)"
  by (simp add: do_lock_def kb_safe)

text \<open>The counter of a modifier changes together with its bit.\<close>

lemma kb_ok_modifier:
  assumes ok: "kb_ok s" and val: "val < 8"
  shows "kb_ok (s\<lparr>k_down := (k_down s)[val := n],
    shift_state := (if n \<noteq> 0 then shift_state s OR push_bit val 1 else shift_state s AND NOT (push_bit val 1))\<rparr>)"
proof -
  let ?w = "if n \<noteq> 0 then shift_state s OR push_bit val 1 else shift_state s AND NOT (push_bit val 1)"
  have b: "bit ?w i = (if i = val then n \<noteq> 0 else bit (shift_state s) i)" for i
    using val by (cases "i < 32") (auto simp: bit_or_iff bit_and_iff bit_not_iff bit_one_at dest: bit_imp_le_length)
  have len: "length (k_down s) = 9" and eq: "\<And>i. i < 9 \<Longrightarrow> bit (shift_state s) i \<longleftrightarrow> k_down s ! i \<noteq> 0"
    and high: "\<And>i. 8 \<le> i \<Longrightarrow> \<not> bit (shift_state s) i"
    using ok by (simp_all add: kb_ok_def)
  have "bit ?w i \<longleftrightarrow> (k_down s)[val := n] ! i \<noteq> 0" if "i < 9" for i
    unfolding b using eq [OF that] len val by (simp add: nth_list_update)
  moreover have "\<not> bit ?w i" if "8 \<le> i" for i unfolding b using high [OF that] that val by simp
  ultimately show ?thesis using ok by (simp add: kb_ok_def)
qed

lemma do_shift_safe:
  assumes ok: "kb_ok s" and v: "unat v \<le> 8" shows "safe (do_shift v up s)"
proof (cases "rep s")
  case False
  define val where "val = (if unat v = kg_capsshift then kg_shift else unat v)"
  define s1 where "s1 = (if unat v = kg_capsshift \<and> \<not> up then s\<lparr>kbd := clr_vc_kbd_led vc_capslock (kbd s)\<rparr> else s)"
  have val: "val < 8" using v by (simp add: val_def kg_capsshift_def kg_shift_def)
  have s1: "kb_ok s1" using ok by (simp add: s1_def)
  have at: "at (k_down s1) val = Inr (k_down s1 ! val)" using s1 val by (simp add: kb_ok_def)
  show ?thesis
    using False kb_ok_modifier [OF s1 val] unfolding do_shift_def val_def [symmetric] s1_def [symmetric] Let_def
    by (simp add: at kb_safe)
qed (use ok in \<open>simp add: do_shift_def kb_safe\<close>)

lemma key_maps_length: "length key_maps = 256"
  by (simp add: key_maps_def)

lemma unat_u8_below [simp]: "unat (v :: u8) < 256"
  using unat_bound [of v] by simp

lemma do_slock_safe:
  assumes ok: "kb_ok s" and v: "unat v \<le> 8" shows "safe (do_slock v up s)"
  unfolding do_slock_def
proof (rule safe_bind [OF do_shift_safe [OF assms]])
  show "safe (if up \<or> rep s then Inr s
       else let kbd1 = chg_vc_kbd_slock (unat v) (kbd s)
         in bindE (at key_maps (unat (lockstate kbd1 XOR slockstate kbd1))) (\<lambda>m.
            if m = None then Inr (s\<lparr>kbd := chg_vc_kbd_slock (unat v) (kbd1\<lparr>slockstate := 0\<rparr>)\<rparr>)
            else Inr (s\<lparr>kbd := kbd1\<rparr>)))" if "kb_ok s" for s
    using that by (simp add: Let_def at_def key_maps_length kb_safe)
qed

text \<open>The symbols whose handlers stay in their tables.\<close>

definition value_ok :: "nat \<Rightarrow> nat \<Rightarrow> bool" where
  "value_ok type v \<longleftrightarrow> type < 16 \<and> (type = 3 \<longrightarrow> v < 21) \<and> (type = 4 \<longrightarrow> v < 6) \<and> (type = 6 \<longrightarrow> v < 5) \<and>
     (type = 7 \<or> type = 12 \<longrightarrow> v \<le> 8) \<and> (type = 10 \<longrightarrow> v < 32)"

lemma key_handler_safe:
  assumes "kb_ok s" and "value_ok type (unat v)" shows "safe (key_handler type v up s)"
  using assms
  by (simp add: key_handler_def value_ok_def do_self_safe do_fn_safe do_spec_safe do_pad_safe do_dead_safe do_cur_safe
      do_shift_safe do_meta_safe do_ascii_safe do_lock_safe do_slock_safe do_dead2_safe kb_safe)

definition sym_ok :: "u16 \<Rightarrow> bool" where
  "sym_ok keysym \<longleftrightarrow> (ktyp keysym \<ge> 0xf0 \<longrightarrow> value_ok (unat (ktyp keysym - 0xf0)) (unat (ucast (keysym AND 0xff) :: u8)))"

lemma maps_ok:
  "list_all sym_ok plain_map \<and> length plain_map = 256" "list_all sym_ok shift_map \<and> length shift_map = 256"
  "list_all sym_ok altgr_map \<and> length altgr_map = 256" "list_all sym_ok ctrl_map \<and> length ctrl_map = 256"
  "list_all sym_ok altgr_ctrl_map \<and> length altgr_ctrl_map = 256" "list_all sym_ok alt_map \<and> length alt_map = 256"
  "list_all sym_ok ctrl_alt_map \<and> length ctrl_alt_map = 256"
  by code_simp+

lemma key_map_ok:
  assumes "Some m \<in> set key_maps" shows "length m = 256 \<and> (\<forall>k\<in>set m. sym_ok k)"
proof -
  have "m \<in> {plain_map, shift_map, altgr_map, ctrl_map, altgr_ctrl_map, alt_map, ctrl_alt_map}"
    using assms by (auto simp: key_maps_def)
  then show ?thesis using maps_ok by (auto simp: list_all_iff)
qed

section \<open>A scancode\<close>

lemma below_256: "(\<And>i. 8 \<le> i \<Longrightarrow> \<not> bit w i) \<Longrightarrow> unat w < 256" for w :: u32
proof -
  assume "\<And>i. 8 \<le> i \<Longrightarrow> \<not> bit w i"
  then have "take_bit 8 w = w" by (intro bit_eqI) (metis bit_take_bit_iff not_less)
  then have "unat w = take_bit 8 (unat w)" using unsigned_take_bit_eq [of 8 w, where 'a = nat] by simp
  also have "\<dots> < 2 ^ 8" by (rule take_bit_nat_less_exp)
  finally show ?thesis by simp
qed

lemma map_index:
  assumes "kb_ok s" shows "unat ((shift_state s OR ucast (slockstate k)) XOR ucast (lockstate k)) < 256"
  using assms by (intro below_256) (auto simp: kb_ok_def bit_or_iff bit_xor_iff bit_ucast_iff dest: bit_imp_le_length)

lemma flip_shift_below: "n < 256 \<Longrightarrow> unat (of_nat n XOR (1 :: u32)) < 256"
proof (rule below_256)
  assume "n < 256"
  then have n: "n < 2 ^ 8" by simp
  show "\<not> bit (of_nat n XOR (1 :: u32)) i" if "8 \<le> i" for i
  proof -
    have "(2::nat) ^ 8 \<le> 2 ^ i" using that by (rule power_increasing) simp
    then have "n < 2 ^ i" using n by simp
    then have "\<not> bit n i" by (simp add: bit_iff_odd)
    then show ?thesis using that by (simp add: bit_simps)
  qed
qed

lemma in_key_map: "Some m \<in> set key_maps \<Longrightarrow> at m (unat (keycode :: u8)) = Inr (m ! unat keycode)"
  using key_map_ok [of m] by simp

lemma letter_symbol_ok:
  assumes "sf < 256"
  shows "\<exists>sym2. letter_symbol type sf keycode ksym s = Inr sym2 \<and> (type \<noteq> kt_letter \<longrightarrow> sym2 = ksym)"
proof (cases "type = kt_letter \<and> vc_kbd_led (kbd s) vc_capslock")
  case True
  let ?j = "unat (of_nat sf XOR (1 :: u32))"
  have j: "?j < length key_maps" using flip_shift_below [OF assms] by (simp add: key_maps_length)
  then have "key_maps ! ?j \<in> set key_maps" by (rule nth_mem)
  then show ?thesis using True j in_key_map
    by (cases "key_maps ! ?j" rule: option.exhaust) (simp_all add: letter_symbol_def)
qed (auto simp: letter_symbol_def)

lemma call_handler_safe: "kb_ok s \<Longrightarrow> value_ok type (unat (ucast (ksym AND 0xff) :: u8)) \<Longrightarrow> safe (call_handler type ksym up s)"
  unfolding call_handler_def by (rule safe_bind [OF key_handler_safe]) (simp_all add: kb_safe)

lemma handle_symbol_safe:
  assumes ok: "kb_ok s" shows "safe (handle_symbol keycode up raw_mode s)"
proof -
  define sf where "sf = unat ((shift_state s OR ucast (slockstate (kbd s))) XOR ucast (lockstate (kbd s)))"
  have sf: "sf < 256" unfolding sf_def by (rule map_index [OF ok])
  show ?thesis
  proof (cases "key_maps ! sf")
    case None
    have "safe (bindE (compute_shiftstate s) (\<lambda>s. Inr (s\<lparr>kbd := (kbd s)\<lparr>slockstate := 0\<rparr>\<rparr>)))"
      by (rule safe_bind [OF compute_shiftstate_safe [OF ok]]) (simp add: kb_safe)
    then show ?thesis
      using sf None unfolding handle_symbol_def Let_def sf_def [symmetric] by (simp add: key_maps_length)
  next
    case (Some m)
    have m: "Some m \<in> set key_maps" using sf Some key_maps_length by (metis nth_mem)
    define ksym where "ksym = m ! unat keycode"
    have "ksym \<in> set m" using key_map_ok [OF m] by (simp add: ksym_def)
    then have so: "sym_ok ksym" using key_map_ok [OF m] by blast
    define type where "type = unat (ktyp ksym - 0xf0)"
    obtain sym2 where sym2: "letter_symbol type sf keycode ksym s = Inr sym2" "type \<noteq> kt_letter \<Longrightarrow> sym2 = ksym"
      using letter_symbol_ok [OF sf] by blast
    have "safe (call_handler (if type = kt_letter then kt_latin else type) sym2 up s)" if "ktyp ksym \<ge> 0xf0"
      using so that sym2(2)
      by (intro call_handler_safe [OF ok]) (auto simp: sym_ok_def type_def [symmetric] value_ok_def kt_latin_def)
    then have act: "safe (bindE (letter_symbol type sf keycode ksym s) (\<lambda>keysym.
        call_handler (if type = kt_letter then kt_latin else type) keysym up s))" if "ktyp ksym \<ge> 0xf0"
      using that by (simp only: sym2(1) bindE_simps)
    have e: "handle_symbol keycode up raw_mode s = (if ktyp ksym \<ge> 0xf0 then
        (if raw_mode \<and> type \<noteq> kt_spec \<and> type \<noteq> kt_shift then Inr s
         else bindE (letter_symbol type sf keycode ksym s) (\<lambda>keysym.
           call_handler (if type = kt_letter then kt_latin else type) keysym up s))
      else if \<not> up \<and> \<not> raw_mode then Inr (to_utf8 ksym s) else Inr s)"
      using sf in_key_map [OF m, of keycode] unfolding handle_symbol_def Let_def sf_def [symmetric]
      by (simp add: key_maps_length Some ksym_def [symmetric] type_def cong: if_cong split del: if_split)
    show ?thesis unfolding e using act ok by (intro if_safe) (simp_all add: kb_safe)
  qed
qed

lemma kb_ok_scan: "kb_ok s \<Longrightarrow> sctab_ok t \<Longrightarrow> kb_ok (s\<lparr>scan := t\<rparr>)"
  by (simp add: kb_ok_def)

lemma kb_ok_keys: "kb_ok s \<Longrightarrow> length a = 8 \<Longrightarrow> kb_ok (s\<lparr>key_down := a\<rparr>)"
  by (simp add: kb_ok_def)

lemma track_key_ok:
  assumes ok: "kb_ok s" shows "\<exists>up' s'. track_key keycode up s = Inr (up', s') \<and> kb_ok s'"
proof -
  have len: "length (key_down s) = 8" using ok by (simp add: kb_ok_def)
  then have kc: "unat keycode div 32 < length (key_down s)"
    using unat_u8_below [of keycode] by (simp add: less_mult_imp_div_less)
  obtain a where a: "test_and_clear_bit (unat keycode) (key_down s) = Inr (bit_at (key_down s) (unat keycode), a)" "length a = 8"
    using test_and_clear_spec [OF kc] len by metis
  obtain b where b: "test_and_set_bit (unat keycode) (key_down s) = Inr (bit_at (key_down s) (unat keycode), b)" "length b = 8"
    using test_and_set_spec [OF kc] len by metis
  have "kb_ok (s\<lparr>rep := x, key_down := y\<rparr>)" if "length y = 8" for x y
    using kb_ok_keys [of "s\<lparr>rep := x\<rparr>" y] ok that by simp
  then show ?thesis by (auto simp: track_key_def a b)
qed

lemma handle_keycode_safe: "kb_ok s \<Longrightarrow> safe (handle_keycode keycode up raw_mode s)"
  by (simp add: handle_keycode_def Let_def handle_symbol_safe kb_safe)

lemma handle_scancode_safe:
  assumes ok: "kb_ok s" shows "safe (handle_scancode scancode down s)"
proof -
  define s1 where "s1 = (if kbdmode (kbd (s\<lparr>tty := True\<rparr>)) = vc_raw
    then put_queue (scancode OR (if \<not> down then 0x80 else 0)) (s\<lparr>tty := True\<rparr>) else s\<lparr>tty := True\<rparr>)"
  have s1: "kb_ok s1" using ok by (simp add: s1_def)
  obtain r t where t: "keyboard_pckbd_translate scancode (scan s1) = (r, t)" by fastforce
  have "sctab_ok t" using translate_ok [OF _ t] s1 by (simp add: kb_ok_def)
  then have s2: "kb_ok (s1\<lparr>scan := t\<rparr>)" using kb_ok_scan s1 by blast
  have e: "handle_scancode scancode down s = (case keyboard_pckbd_translate scancode (scan s1) of
      (None, t) \<Rightarrow> Inr (s1\<lparr>scan := t\<rparr>)
    | (Some keycode, t) \<Rightarrow> bindE (track_key keycode (\<not> down) (s1\<lparr>scan := t\<rparr>))
        (\<lambda>(up, s'). handle_keycode keycode up (kbdmode (kbd (s\<lparr>tty := True\<rparr>)) = vc_raw) s'))"
    by (simp only: handle_scancode_def Let_def s1_def)
  show ?thesis
  proof (cases r)
    case None
    then show ?thesis using t s2 by (simp add: e kb_safe)
  next
    case (Some keycode)
    obtain up s' where "track_key keycode (\<not> down) (s1\<lparr>scan := t\<rparr>) = Inr (up, s')" "kb_ok s'"
      using track_key_ok [OF s2] by blast
    then show ?thesis using t Some by (simp add: e handle_keycode_safe)
  qed
qed

lemma do_scancode_safe:
  assumes "kb_ok s" shows "safe (do_scancode c s)"
proof -
  let ?s = "if \<not> started s then kbd_init (s\<lparr>started := True\<rparr>) else s"
  have "kb_ok ?s" using assms by (simp add: kbd_init_def schedule_tasklet_def)
  moreover from this have "safe (bindE (handle_scancode c (c AND 0x80 = 0) ?s) (\<lambda>s. Inr (kbd_bh s)))"
    by (intro safe_bind handle_scancode_safe) (simp_all add: kb_safe)
  ultimately show ?thesis unfolding do_scancode_def Let_def by (simp add: kb_safe)
qed

lemma kbdst_boot_ok: "kb_ok (kbdst_boot words)"
  using sctab_init_ok by (simp add: kb_ok_def kbdst_boot_def nth_replicate)

text \<open>
  C23. Whatever scancodes the keyboard sends, the driver never leaves its tables, and after each of them
  a modifier is on exactly while its counter of pressed keys is not zero; no modifier but the eight
  that index the key maps is ever on.
\<close>

theorem keyboard_is_memory_safe:
  "\<exists>s. foldE do_scancode cs (kbdst_boot words) = Inr s \<and> length (k_down s) = 9 \<and>
     (\<forall>i<9. bit (shift_state s) i \<longleftrightarrow> k_down s ! i \<noteq> 0) \<and> unat (shift_state s) < 256"
proof -
  have "safe (foldE do_scancode cs (kbdst_boot words))"
    by (rule safe_foldE [OF do_scancode_safe kbdst_boot_ok])
  then obtain s where s: "foldE do_scancode cs (kbdst_boot words) = Inr s" "kb_ok s" by (auto simp: safe_def)
  then have "unat (shift_state s) < 256" by (intro below_256) (simp add: kb_ok_def)
  then show ?thesis using s by (simp add: kb_ok_def)
qed

theorem keyboard_is_memory_safe_witness:
  "\<exists>s. foldE do_scancode [0x2a, 0x1e, 0xe0, 0x38] (kbdst_boot (\<lambda>_. 0)) = Inr s \<and> length (k_down s) = 9 \<and>
     (\<forall>i<9. bit (shift_state s) i \<longleftrightarrow> k_down s ! i \<noteq> 0) \<and> unat (shift_state s) < 256"
  by (rule keyboard_is_memory_safe)

end
