(* ===== verification/Typing.thy ===== *)
theory Typing
  imports KeyboardInv
begin

text \<open>
  Typing on the keyboard: the scancodes of pressed and released keys, with or without Shift, give the
  characters of the key maps, in the order in which they were typed, and leave the driver as it was.
\<close>

section \<open>Strokes\<close>

text \<open>A stroke is a key with or without Shift held down: \<open>0x2a\<close> is the scancode of the left Shift key.\<close>

type_synonym stroke = "bool \<times> u8"

definition symbol_of :: "stroke \<Rightarrow> u16" where
  "symbol_of k = (case k of (shift, sc) \<Rightarrow> (if shift then shift_map else plain_map) ! unat sc)"

definition stroke_char :: "stroke \<Rightarrow> u8" where "stroke_char k = ucast (symbol_of k AND 0xff)"

definition scancodes_of :: "stroke \<Rightarrow> u8 list" where
  "scancodes_of k = (case k of (shift, sc) \<Rightarrow> if shift then [0x2a, sc, sc OR 0x80, 0xaa] else [sc, sc OR 0x80])"

text \<open>The keys of the main block that stand for a character.\<close>

definition types_char :: "stroke \<Rightarrow> bool" where
  "types_char k \<longleftrightarrow> 1 \<le> snd k \<and> snd k < 89 \<and> (ktyp (symbol_of k) = 0xf0 \<or> ktyp (symbol_of k) = 0xfb) \<and> stroke_char k \<noteq> 0"

section \<open>Facts about the codes\<close>

definition code_ok :: "u8 \<Rightarrow> bool" where
  "code_ok sc \<longleftrightarrow> sc AND 0x7f = sc \<and> (sc OR 0x80) AND 0x7f = sc \<and> sc AND 0x80 = 0 \<and> (sc OR 0x80) AND 0x80 \<noteq> 0 \<and>
     sc \<notin> {0, 0xe0, 0xe1, 0xff} \<and> sc OR 0x80 \<notin> {0, 0xe0, 0xe1, 0xff} \<and> unat sc < 89"

definition keys_with :: "bool \<Rightarrow> u32 list" where
  "keys_with shift = [0, if shift then 0x400 else 0, 0, 0, 0, 0, 0, 0]"

lemma all_codes: "list_all (\<lambda>n. code_ok (of_nat n)) [1..<89]"
  by code_simp

lemma all_keys: "list_all (\<lambda>n. \<not> bit_at (keys_with False) n \<and>
    (ktyp (shift_map ! n) \<in> {0xf0, 0xfb} \<longrightarrow> \<not> bit_at (keys_with True) n)) [1..<89]"
  by code_simp

lemma types_char_code:
  assumes "types_char (shift, sc)"
  shows "code_ok sc" and "\<not> bit_at (keys_with shift) (unat sc)"
proof -
  have n: "unat sc \<in> set [1..<89]" using assms by (auto simp: types_char_def word_le_nat_alt word_less_nat_alt)
  show "code_ok sc" using all_codes n by (force simp: list_all_iff)
  have "\<not> bit_at (keys_with False) (unat sc) \<and>
    (ktyp (shift_map ! unat sc) \<in> {0xf0, 0xfb} \<longrightarrow> \<not> bit_at (keys_with True) (unat sc))"
    using all_keys n unfolding list_all_iff by blast
  then show "\<not> bit_at (keys_with shift) (unat sc)" using assms by (cases shift) (auto simp: types_char_def symbol_of_def)
qed

lemma translate_code:
  assumes "code_ok sc"
  shows "keyboard_pckbd_translate sc sctab_init = (Some sc, sctab_init)"
    and "keyboard_pckbd_translate (sc OR 0x80) sctab_init = (Some sc, sctab_init)"
  using assms by (auto simp: code_ok_def keyboard_pckbd_translate_def Let_def sc_lim_def sctab_init_def)

lemma press_release:
  assumes "n div 32 < length a" and "\<not> bit_at a n"
  obtains a' where "test_and_set_bit n a = Inr (False, a')" "test_and_clear_bit n a' = Inr (True, a)"
proof -
  have "unset_bit j (Bit_Operations.set_bit j w) = w" if "\<not> bit w j" for j and w :: u32
    using that by (intro bit_word_eqI) (auto simp: bit_simps)
  then show ?thesis using assms that
    by (auto simp: test_and_set_bit_def test_and_clear_bit_def bit_op_def bit_at_def bit_simps)
qed

section \<open>A stroke\<close>

text \<open>The driver with no key pressed, or with the Shift key only, and no mode on.\<close>

definition ready :: "bool \<Rightarrow> kbdst \<Rightarrow> bool" where
  "ready shift s \<longleftrightarrow> started s \<and> tasklet_enabled s \<and> kbd s = kbd0 \<and> scan s = sctab_init \<and>
     shift_state s = (if shift then 1 else 0) \<and> k_down s = [if shift then 1 else 0, 0, 0, 0, 0, 0, 0, 0, 0] \<and>
     key_down s = keys_with shift \<and> \<not> dead_key_next s \<and> npadch s = - 1 \<and> diacr s = 0 \<and> ledstate s = 0"

lemma zeros:
  "replicate 9 (0 :: u8) = [0, 0, 0, 0, 0, 0, 0, 0, 0]" "replicate 8 (0 :: u32) = [0, 0, 0, 0, 0, 0, 0, 0]"
  by code_simp+

lemma kbd0_modes [simp]:
  "kbdmode kbd0 \<noteq> vc_raw" "kbdmode kbd0 \<noteq> vc_mediumraw" "slockstate kbd0 = 0" "lockstate kbd0 = 0"
  "vc_kbd_mode kbd0 vc_repeat" "\<not> vc_kbd_led kbd0 vc_capslock" "kbd0\<lparr>slockstate := 0\<rparr> = kbd0"
  "ledmode kbd0 = 0" "ledflagstate kbd0 = 0"
  by (simp_all add: kbd0_def vc_xlate_def vc_raw_def vc_mediumraw_def vc_kbd_mode_def kbd_defmode_def vc_repeat_def
      vc_kbd_led_def vc_capslock_def led_show_flags_def bit_simps)

lemma no_led_change: "kbd s = kbd0 \<Longrightarrow> ledstate s = 0 \<Longrightarrow> kbd_bh s = s"
  by (simp add: kbd_bh_def getleds_def led_show_ioctl_def led_show_mem_def Let_def)

lemma character_key:
  assumes "ready shift s" and "types_char (shift, sc)"
  shows "\<exists>s1 s2. do_scancode sc s = Inr s1 \<and> typed s1 = typed s @ [stroke_char (shift, sc)] \<and>
    do_scancode (sc OR 0x80) s1 = Inr s2 \<and> typed s2 = typed s1 \<and> ready shift s2"
proof -
  note code = types_char_code [OF assms(2)]
  have kd: "unat sc div 32 < length (keys_with shift)" using code(1) by (simp add: keys_with_def code_ok_def less_mult_imp_div_less)
  obtain kd' where keys: "test_and_set_bit (unat sc) (keys_with shift) = Inr (False, kd')"
      "test_and_clear_bit (unat sc) kd' = Inr (True, keys_with shift)"
    by (rule press_release [OF kd code(2)])
  define ksym where "ksym = symbol_of (shift, sc)"
  have maps: "at key_maps (if shift then 1 else 0) = Inr (Some (if shift then shift_map else plain_map))"
    by (simp add: at_def key_maps_def)
  have sym: "at (if shift then shift_map else plain_map) (unat sc) = Inr ksym"
    using maps_ok(1,2) code(1) by (simp add: ksym_def symbol_of_def code_ok_def)
  have act: "handle_symbol sc up False s1 = Inr (if up then s1 else put_queue (stroke_char (shift, sc)) s1)"
    if "kbd s1 = kbd0" "shift_state s1 = (if shift then 1 else 0)" "diacr s1 = 0" "\<not> dead_key_next s1" for s1 up
  proof -
    have "s1\<lparr>kbd := kbd0\<rparr> = s1" "(put_queue c s1)\<lparr>kbd := kbd0\<rparr> = put_queue c s1" for c
      using that(1) by (simp_all add: put_queue_def)
    then show ?thesis
      using that assms(2) maps sym
      by (auto simp: handle_symbol_def Let_def types_char_def ksym_def [symmetric] letter_symbol_def call_handler_def
          kt_letter_def kt_latin_def kt_slock_def key_handler_def do_self_def stroke_char_def put_queue_def)
  qed
  let ?s1 = "s\<lparr>tty := True, rep := False, key_down := kd', typed := typed s @ [stroke_char (shift, sc)]\<rparr>"
  let ?s2 = "?s1\<lparr>key_down := keys_with shift\<rparr>"
  have r: "started s" "tasklet_enabled s" "kbd s = kbd0" "scan s = sctab_init" "shift_state s = (if shift then 1 else 0)"
    "key_down s = keys_with shift" "\<not> dead_key_next s" "diacr s = 0" "ledstate s = 0"
    using assms(1) by (simp_all add: ready_def)
  have c0: "stroke_char (shift, sc) \<noteq> 0" using assms(2) by (simp add: types_char_def)
  have "do_scancode sc s = Inr ?s1"
    using r c0 code(1) keys(1)
    by (simp add: do_scancode_def handle_scancode_def Let_def translate_code [OF code(1)] track_key_def handle_keycode_def
        act put_queue_def no_led_change code_ok_def)
  moreover have "do_scancode (sc OR 0x80) ?s1 = Inr ?s2"
    using r code(1) keys(2)
    by (simp add: do_scancode_def handle_scancode_def Let_def translate_code [OF code(1)] track_key_def handle_keycode_def
        act no_led_change code_ok_def)
  moreover have "ready shift ?s2" using assms(1) by (simp add: ready_def)
  ultimately show ?thesis by (intro exI [where x = ?s1] exI [where x = ?s2]) simp
qed

section \<open>The Shift key\<close>

lemma shift_codes:
  "keyboard_pckbd_translate 0x2a sctab_init = (Some 0x2a, sctab_init)"
  "keyboard_pckbd_translate 0xaa sctab_init = (Some 0x2a, sctab_init)"
  "test_and_set_bit 42 (keys_with False) = Inr (False, keys_with True)"
  "test_and_clear_bit 42 (keys_with True) = Inr (True, keys_with False)"
  "plain_map ! 42 = 0xf700" "shift_map ! 42 = 0xf700"
  by code_simp+

lemma shift_down:
  assumes "ready False s"
  shows "\<exists>s'. do_scancode 0x2a s = Inr s' \<and> ready True s' \<and> typed s' = typed s"
proof -
  let ?s1 = "s\<lparr>tty := True, rep := False, key_down := keys_with True, k_down := [1, 0, 0, 0, 0, 0, 0, 0, 0], shift_state := 1\<rparr>"
  have maps: "at key_maps 0 = Inr (Some plain_map)" "at plain_map 42 = Inr 0xf700"
    using maps_ok(1) shift_codes(5) by (simp_all add: at_def key_maps_def)
  have r: "started s" "tasklet_enabled s" "kbd s = kbd0" "scan s = sctab_init" "shift_state s = 0"
    "key_down s = keys_with False" "ledstate s = 0" "k_down s = [0, 0, 0, 0, 0, 0, 0, 0, 0]" "npadch s = - 1"
    using assms by (simp_all add: ready_def)
  have "do_scancode 0x2a s = Inr ?s1"
    using r shift_codes
    by (simp add: do_scancode_def handle_scancode_def Let_def track_key_def handle_keycode_def handle_symbol_def maps
        ktyp_def letter_symbol_def call_handler_def key_handler_def do_shift_def kg_capsshift_def kg_shift_def
        kt_letter_def kt_slock_def no_led_change)
  moreover have "ready True ?s1" using assms by (simp add: ready_def)
  ultimately show ?thesis by simp
qed

lemma shift_up:
  assumes "ready True s"
  shows "\<exists>s'. do_scancode 0xaa s = Inr s' \<and> ready False s' \<and> typed s' = typed s"
proof -
  let ?s1 = "s\<lparr>tty := True, rep := False, key_down := keys_with False, k_down := [0, 0, 0, 0, 0, 0, 0, 0, 0], shift_state := 0\<rparr>"
  have maps: "at key_maps 1 = Inr (Some shift_map)" "at shift_map 42 = Inr 0xf700"
    using maps_ok(2) shift_codes(6) by (simp_all add: at_def key_maps_def)
  have r: "started s" "tasklet_enabled s" "kbd s = kbd0" "scan s = sctab_init" "shift_state s = 1"
    "key_down s = keys_with True" "ledstate s = 0" "k_down s = [1, 0, 0, 0, 0, 0, 0, 0, 0]" "npadch s = - 1"
    using assms by (simp_all add: ready_def)
  have "do_scancode 0xaa s = Inr ?s1"
    using r shift_codes maps
    by (simp add: do_scancode_def handle_scancode_def Let_def track_key_def handle_keycode_def handle_symbol_def
        ktyp_def letter_symbol_def call_handler_def key_handler_def do_shift_def kg_capsshift_def kg_shift_def
        kt_letter_def kt_slock_def no_led_change)
  moreover have "ready False ?s1" using assms by (simp add: ready_def)
  ultimately show ?thesis by simp
qed

text \<open>The Enter key sends a carriage return.\<close>

lemma enter_codes:
  "keyboard_pckbd_translate 0x1c sctab_init = (Some 0x1c, sctab_init)"
  "keyboard_pckbd_translate 0x9c sctab_init = (Some 0x1c, sctab_init)"
  "plain_map ! 28 = 0xf201" "bit_at (keys_with False) 28 = False"
  by code_simp+

lemma enter_key:
  assumes "ready False s"
  shows "\<exists>s1 s2. do_scancode 0x1c s = Inr s1 \<and> typed s1 = typed s @ [13] \<and>
    do_scancode 0x9c s1 = Inr s2 \<and> typed s2 = typed s1 \<and> ready False s2"
proof -
  obtain kd' where keys: "test_and_set_bit 28 (keys_with False) = Inr (False, kd')"
      "test_and_clear_bit 28 kd' = Inr (True, keys_with False)"
    by (rule press_release [of 28 "keys_with False"]) (simp_all add: enter_codes(4), simp add: keys_with_def)
  let ?s1 = "s\<lparr>tty := True, rep := False, key_down := kd', typed := typed s @ [13]\<rparr>"
  let ?s2 = "?s1\<lparr>key_down := keys_with False\<rparr>"
  have maps: "at key_maps 0 = Inr (Some plain_map)" "at plain_map 28 = Inr 0xf201"
    using maps_ok(1) enter_codes(3) by (simp_all add: at_def key_maps_def)
  have r: "started s" "kbd s = kbd0" "scan s = sctab_init" "shift_state s = 0"
    "key_down s = keys_with False" "ledstate s = 0" "diacr s = 0"
    using assms by (simp_all add: ready_def)
  have crlf: "\<not> vc_kbd_mode kbd0 vc_crlf"
    by (simp add: kbd0_def vc_kbd_mode_def kbd_defmode_def vc_crlf_def)
  have "do_scancode 0x1c s = Inr ?s1" "do_scancode 0x9c ?s1 = Inr ?s2"
    using r enter_codes keys crlf
    by (simp_all add: do_scancode_def handle_scancode_def Let_def track_key_def handle_keycode_def handle_symbol_def maps
        ktyp_def letter_symbol_def call_handler_def key_handler_def do_spec_def spec_fn_def enter_def put_queue_def
        kt_letter_def kt_slock_def no_led_change)
  moreover have "ready False ?s2" using assms by (simp add: ready_def)
  ultimately show ?thesis by (intro exI [where x = ?s1] exI [where x = ?s2]) simp
qed

lemma stroke:
  assumes "ready False s" and "types_char k"
  shows "\<exists>s'. foldE do_scancode (scancodes_of k) s = Inr s' \<and> ready False s' \<and> typed s' = typed s @ [stroke_char k]"
proof (cases k)
  case (Pair shift sc)
  show ?thesis
  proof (cases shift)
    case False
    then show ?thesis using character_key [OF assms(1), of sc] assms(2) Pair by (auto simp: scancodes_of_def)
  next
    case True
    obtain s1 where s1: "do_scancode 0x2a s = Inr s1" "ready True s1" "typed s1 = typed s"
      using shift_down [OF assms(1)] by blast
    obtain s2 s3 where s2: "do_scancode sc s1 = Inr s2" "typed s2 = typed s1 @ [stroke_char (True, sc)]"
        "do_scancode (sc OR 0x80) s2 = Inr s3" "typed s3 = typed s2" "ready True s3"
      using character_key [OF s1(2), of sc] assms(2) Pair True by auto
    obtain s4 where "do_scancode 0xaa s3 = Inr s4" "ready False s4" "typed s4 = typed s3"
      using shift_up [OF s2(5)] by blast
    then show ?thesis using s1 s2 Pair True by (simp add: scancodes_of_def)
  qed
qed

lemma strokes:
  "ready False s \<Longrightarrow> \<forall>k\<in>set ks. types_char k \<Longrightarrow>
   \<exists>s'. foldE do_scancode (concat (map scancodes_of ks)) s = Inr s' \<and> ready False s' \<and> typed s' = typed s @ map stroke_char ks"
proof (induction ks arbitrary: s)
  case (Cons k ks)
  obtain s1 where s1: "foldE do_scancode (scancodes_of k) s = Inr s1" "ready False s1" "typed s1 = typed s @ [stroke_char k]"
    using stroke Cons.prems by (metis list.set_intros(1))
  then show ?case using Cons.IH [OF s1(2)] Cons.prems(2) by (auto simp: foldE_append)
qed simp

lemma boot_ready: "ready False (kbd_init ((kbdst_boot words)\<lparr>started := True\<rparr>))"
  by (simp add: ready_def kbd_init_def schedule_tasklet_def kbd_bh_def getleds_def kbdst_boot_def keys_with_def
      led_show_ioctl_def led_show_mem_def Let_def zeros)

text \<open>
  A text typed on the keyboard, with the keys of the main block with or without Shift, is handed on
  character for character as the key maps have it, in the order of the strokes, from the first scancode
  after the start of the machine on; the driver is then ready for the next text.
\<close>

theorem typed_text_is_handed_on:
  assumes "\<forall>k\<in>set ks. types_char k"
  shows "\<exists>s. foldE do_scancode (0 # concat (map scancodes_of ks)) (kbdst_boot words) = Inr s \<and>
    typed s = map stroke_char ks \<and> ready False s"
proof -
  let ?s = "kbd_init ((kbdst_boot words)\<lparr>started := True\<rparr>)"
  have "do_scancode 0 (kbdst_boot words) = Inr ?s" by (simp add: do_scancode_def kbdst_boot_def)
  moreover have "typed ?s = []" by (simp add: kbd_init_def schedule_tasklet_def kbd_bh_def kbdst_boot_def)
  moreover obtain s where "foldE do_scancode (concat (map scancodes_of ks)) ?s = Inr s" "ready False s"
      "typed s = typed ?s @ map stroke_char ks"
    using strokes [OF boot_ready assms] by blast
  ultimately show ?thesis by simp
qed

theorem typed_text_is_handed_on_witness:
  "\<exists>s. foldE do_scancode [0, 0x2a, 0x14, 0x94, 0xaa, 0x14, 0x94] (kbdst_boot (\<lambda>_. 0)) = Inr s \<and>
    typed s = [0x54, 0x74] \<and> ready False s"
proof -
  have c: "scancodes_of (True, 0x14) = [0x2a, 0x14, 0x94, 0xaa]" "scancodes_of (False, 0x14) = [0x14, 0x94]"
    "stroke_char (True, 0x14) = 0x54" "stroke_char (False, 0x14) = 0x74" "types_char (True, 0x14)" "types_char (False, 0x14)"
    by code_simp+
  show ?thesis using typed_text_is_handed_on [of "[(True, 0x14), (False, 0x14)]" "\<lambda>_. 0"] c by simp
qed

end
