(* ===== verification/Kbd.thy ===== *)
theory Kbd
  imports Typing Console Channel
begin

text \<open>
  \<open>kernel/kbd.c\<close>: the ring of characters between the keyboard driver and the processes that read from
  the console, with the echo on the screen. \<open>keyboard_data\<close> puts characters into the ring; \<open>cons_read\<close>
  takes them out up to the end of the line, and where it finds an empty cell it calls \<open>wait_clock\<close>:
  this is the result \<open>Read_Wait\<close>, after which the loop goes on with \<open>read_loop\<close> at the same length.
  The ring is a \<open>bounded_channel\<close>, like the message queues.
\<close>

definition buffer_size :: nat where "buffer_size = 1000"

record kbuf =
  echo :: int
  index_write :: nat
  index_read :: nat
  nb_write :: u32
  keyboard_buffer :: "u8 list"
  screen :: cons

definition step_index :: "nat \<Rightarrow> nat" where
  "step_index i = (if i = buffer_size - 1 then 0 else i + 1)"

section \<open>Writing\<close>

text \<open>\<open>cons_write\<close> of one or two characters that are not null prints them.\<close>

definition echo_chars :: "u8 list \<Rightarrow> kbuf \<Rightarrow> kbuf" where
  "echo_chars cs s = (if echo s = 1 then s\<lparr>screen := put_string cs (screen s)\<rparr> else s)"

definition keyboard_char :: "u8 \<Rightarrow> kbuf \<Rightarrow> kbuf res" where
  "keyboard_char c s =
     (if length (keyboard_buffer s) \<le> index_write s then Inl Out_Of_Bounds
      else let s = s\<lparr>keyboard_buffer := (keyboard_buffer s)[index_write s := c],
                     index_write := (if index_write s + 1 = buffer_size then 0 else index_write s + 1)\<rparr>
        in Inr (if c = 13 then echo_chars [13, 10] (s\<lparr>nb_write := 0\<rparr>)
                else if c = 127 then
                  (if nb_write s \<noteq> 0 then echo_chars [127] (s\<lparr>nb_write := nb_write s - 1\<rparr>) else s)
                else (echo_chars [c] s)\<lparr>nb_write := nb_write s + 1\<rparr>))"

definition keyboard_data :: "u8 list \<Rightarrow> kbuf \<Rightarrow> kbuf res" where
  "keyboard_data str = foldE keyboard_char (takeWhile (\<lambda>c. c \<noteq> 0) str)"

definition cons_echo :: "int \<Rightarrow> kbuf \<Rightarrow> kbuf" where
  "cons_echo on s = s\<lparr>echo := on\<rparr>"

text \<open>
  The keyboard interrupt: the driver translates the scancode, and the characters it sends enter the
  ring. \<open>typed\<close> is the list of all characters it has sent, so that the new ones are at its end.
\<close>

definition keyboard_handler :: "u8 \<Rightarrow> kbdst \<times> kbuf \<Rightarrow> (kbdst \<times> kbuf) res" where
  "keyboard_handler scancode sk =
     bindE (do_scancode scancode (fst sk)) (\<lambda>kb.
     bindE (keyboard_data (drop (length (typed (fst sk))) (typed kb)) (snd sk)) (\<lambda>buf. Inr (kb, buf)))"

section \<open>Reading\<close>

datatype reading = Read_Done u32 | Read_Wait u32

partial_function (option) read_loop ::
    "u32 \<Rightarrow> u32 \<Rightarrow> u32 \<Rightarrow> mem8 \<Rightarrow> kbuf \<Rightarrow> (reading \<times> mem8 \<times> kbuf) res option" where
  "read_loop p len n m s =
     (if n = len then Some (Inr (Read_Done n, m, s))
      else if length (keyboard_buffer s) \<le> index_read s then Some (Inl Out_Of_Bounds)
      else let c = keyboard_buffer s ! index_read s;
               s0 = s\<lparr>keyboard_buffer := (keyboard_buffer s)[index_read s := 0], index_read := step_index (index_read s)\<rparr>
        in if c = 0 then Some (Inr (Read_Wait n, m, s))
           else if c = 13 then Some (Inr (Read_Done n, m, s0))
           else if c = 127 then
             read_loop p len (if n > 0 then n - 1 else n) (m(p + n := 0)) (s\<lparr>index_read := step_index (index_read s)\<rparr>)
           else read_loop p len (n + 1) (m(p + n := c)) s0)"

declare read_loop.simps [code]

definition cons_read :: "u32 \<Rightarrow> u32 \<Rightarrow> mem8 \<Rightarrow> kbuf \<Rightarrow> (reading \<times> mem8 \<times> kbuf) res option" where
  "cons_read p len m s = (if len = 0 then Some (Inr (Read_Done 0, m, s)) else read_loop p len 0 m s)"

section \<open>The ring as a queue\<close>

definition holds :: "kbuf \<Rightarrow> u8 list \<Rightarrow> bool" where
  "holds s xs \<longleftrightarrow> length (keyboard_buffer s) = 1000 \<and> index_read s < 1000 \<and> length xs \<le> 1000 \<and> 0 \<notin> set xs \<and>
     index_write s = (index_read s + length xs) mod 1000 \<and>
     (\<forall>i<1000. keyboard_buffer s ! ((index_read s + i) mod 1000) = (if i < length xs then xs ! i else 0))"

lemma ring_index_inj: "r < 1000 \<Longrightarrow> i < 1000 \<Longrightarrow> j < 1000 \<Longrightarrow> (r + i) mod 1000 = (r + j) mod 1000 \<longleftrightarrow> i = j" for r :: nat
  by (auto simp: mod_if split: if_splits)

lemma step_index_mod: "r < 1000 \<Longrightarrow> step_index r = (r + 1) mod 1000"
  by (auto simp: step_index_def buffer_size_def)

lemma echo_frame [simp]:
  "keyboard_buffer (echo_chars cs s) = keyboard_buffer s" "index_write (echo_chars cs s) = index_write s"
  "index_read (echo_chars cs s) = index_read s"
  by (simp_all add: echo_chars_def)

lemma holds_cong:
  "keyboard_buffer s' = keyboard_buffer s \<Longrightarrow> index_write s' = index_write s \<Longrightarrow> index_read s' = index_read s \<Longrightarrow>
   holds s' xs = holds s xs"
  by (simp add: holds_def)

lemma char_enters:
  assumes "holds s xs" and "length xs < 1000" and "c \<noteq> 0"
  shows "\<exists>s'. keyboard_char c s = Inr s' \<and> holds s' (xs @ [c])"
proof -
  let ?r = "index_read s" and ?w = "index_write s"
  let ?s = "s\<lparr>keyboard_buffer := (keyboard_buffer s)[?w := c], index_write := (if ?w + 1 = buffer_size then 0 else ?w + 1)\<rparr>"
  have h: "length (keyboard_buffer s) = 1000" "?r < 1000" "?w = (?r + length xs) mod 1000" "0 \<notin> set xs"
    and cells: "\<And>i. i < 1000 \<Longrightarrow> keyboard_buffer s ! ((?r + i) mod 1000) = (if i < length xs then xs ! i else 0)"
    using assms(1) by (auto simp: holds_def)
  have w: "?w < 1000" using h(3) by simp
  have "holds ?s (xs @ [c])"
    unfolding holds_def
  proof (intro conjI allI impI)
    have "(if ?w + 1 = 1000 then 0 else ?w + 1) = (?w + 1) mod 1000" using w by auto
    also have "\<dots> = (?r + (length xs + 1)) mod 1000" unfolding h(3) by (simp add: mod_simps)
    finally show "index_write ?s = (index_read ?s + length (xs @ [c])) mod 1000" by (simp add: buffer_size_def)
    show "keyboard_buffer ?s ! ((index_read ?s + i) mod 1000) = (if i < length (xs @ [c]) then (xs @ [c]) ! i else 0)"
      if "i < 1000" for i
      using cells [OF that] ring_index_inj [OF h(2) that assms(2)] h(1) w that
      by (auto simp: h(3) nth_list_update nth_append)
  qed (use h assms in auto)
  moreover obtain s' where "keyboard_char c s = Inr s'" "keyboard_buffer s' = keyboard_buffer ?s"
      "index_write s' = index_write ?s" "index_read s' = index_read ?s"
    using h(1) w by (simp add: keyboard_char_def Let_def)
  ultimately show ?thesis using holds_cong by blast
qed

lemma first_char_leaves:
  assumes "holds s (x # xs)"
  shows "keyboard_buffer s ! index_read s = x \<and>
    holds (s\<lparr>keyboard_buffer := (keyboard_buffer s)[index_read s := 0], index_read := step_index (index_read s)\<rparr>) xs"
proof -
  let ?r = "index_read s" and ?s = "s\<lparr>keyboard_buffer := (keyboard_buffer s)[index_read s := 0], index_read := step_index (index_read s)\<rparr>"
  have h: "length (keyboard_buffer s) = 1000" "?r < 1000" "index_write s = (?r + length (x # xs)) mod 1000"
      "0 \<notin> set (x # xs)" "length (x # xs) \<le> 1000"
    and cells: "\<And>i. i < 1000 \<Longrightarrow> keyboard_buffer s ! ((?r + i) mod 1000) = (if i < length (x # xs) then (x # xs) ! i else 0)"
    using assms by (auto simp: holds_def)
  have "holds ?s xs"
    unfolding holds_def
  proof (intro conjI allI impI)
    show "index_write ?s = (index_read ?s + length xs) mod 1000" using h(2,3) by (simp add: step_index_mod mod_simps)
    show "keyboard_buffer ?s ! ((index_read ?s + i) mod 1000) = (if i < length xs then xs ! i else 0)" if i: "i < 1000" for i
    proof -
      have e: "(index_read ?s + i) mod 1000 = (?r + Suc i) mod 1000" using h(2) by (simp add: step_index_mod mod_simps)
      show ?thesis
      proof (cases "Suc i < 1000")
        case True
        have "(?r + Suc i) mod 1000 \<noteq> ?r" using ring_index_inj [OF h(2) True, of 0] h(2) by simp
        then show ?thesis unfolding e using cells [OF True] by simp
      next
        case False
        then have "i = 999" using i by simp
        then have "(?r + Suc i) mod 1000 = ?r" using h(2) by simp
        then show ?thesis unfolding e using h \<open>i = 999\<close> by simp
      qed
    qed
  qed (use h in \<open>auto simp: step_index_mod\<close>)
  moreover have "keyboard_buffer s ! ?r = x" using cells [of 0] h(2) by simp
  ultimately show ?thesis by blast
qed

section \<open>Characters that are neither the end of the line nor a deletion\<close>

definition plain_char :: "u8 \<Rightarrow> bool" where
  "plain_char c \<longleftrightarrow> c \<noteq> 0 \<and> c \<noteq> 13 \<and> c \<noteq> 127"

lemma unat_prev: "a \<noteq> b \<Longrightarrow> unat (a - b - 1) = unat (a - b) - 1" for a b :: u32
  by (rule unat_minus_one) simp

lemma read_text:
  "holds s (t @ rest) \<Longrightarrow> \<forall>c\<in>set t. plain_char c \<Longrightarrow> unat n + length t < unat len \<Longrightarrow>
   \<exists>m' s'. read_loop p len n m s = read_loop p len (n + of_nat (length t)) m' s' \<and> holds s' rest \<and>
     bytes m' (p + n) (length t) = t \<and> (\<forall>a. length t \<le> unat (a - (p + n)) \<longrightarrow> m' a = m a)"
proof (induction t arbitrary: s n m)
  case (Cons x t)
  let ?s = "s\<lparr>keyboard_buffer := (keyboard_buffer s)[index_read s := 0], index_read := step_index (index_read s)\<rparr>"
  have x: "keyboard_buffer s ! index_read s = x" "holds ?s (t @ rest)"
    using first_char_leaves [of s x "t @ rest"] Cons.prems(1) by simp_all
  have r: "index_read s < length (keyboard_buffer s)" using Cons.prems(1) by (simp add: holds_def)
  have lt: "unat n < unat len" using Cons.prems(3) by simp
  then have step: "read_loop p len n m s = read_loop p len (n + 1) (m(p + n := x)) ?s"
    using r x(1) Cons.prems(2) by (subst read_loop.simps) (auto simp: Let_def plain_char_def)
  have n1: "unat (n + 1) = unat n + 1" using lt unat_bound [of len] unat_add_lem [of n 1] by simp
  have prems: "\<forall>c\<in>set t. plain_char c" "unat (n + 1) + length t < unat len" using Cons.prems(2,3) n1 by simp_all
  have len: "length t < 2 ^ 32" using Cons.prems(3) unat_bound [of len] by simp
  obtain m' s' where ih: "read_loop p len (n + 1) (m(p + n := x)) ?s = read_loop p len (n + 1 + of_nat (length t)) m' s'"
      "holds s' rest" "bytes m' (p + (n + 1)) (length t) = t" "\<forall>a. length t \<le> unat (a - (p + (n + 1))) \<longrightarrow> m' a = (m(p + n := x)) a"
    using Cons.IH [OF x(2) prems, of "m(p + n := x)"] by blast
  have "m' (p + n) = x" using ih(4) [rule_format, of "p + n"] len by (simp add: unsigned_minus_1_eq_mask mask_eq_exp_minus_1)
  moreover have "m' a = m a" if "length (x # t) \<le> unat (a - (p + n))" for a
  proof -
    have "a \<noteq> p + n" using that by auto
    then have "length t \<le> unat (a - (p + (n + 1)))" using that unat_prev [of a "p + n"] by (simp add: algebra_simps)
    then show ?thesis using ih(4) \<open>a \<noteq> p + n\<close> by simp
  qed
  ultimately show ?case using step ih by (auto simp: add.assoc)
qed auto

text \<open>A reader that takes one character at a time.\<close>

definition recv_char :: "kbuf \<Rightarrow> (u8 \<times> kbuf) res" where
  "recv_char s =
     (case cons_read 0 1 (\<lambda>a. 0) s of
        Some (Inr (Read_Done n, m, s')) \<Rightarrow> if n = 1 then Inr (m 0, s') else Inl No_Return
      | _ \<Rightarrow> Inl No_Return)"

definition char_chan :: "kbuf \<Rightarrow> u8 list \<Rightarrow> nat \<Rightarrow> bool" where
  "char_chan s cs cap \<longleftrightarrow> holds s cs \<and> (\<forall>c\<in>set cs. plain_char c) \<and> cap = 1000"

lemma recv_char_first:
  assumes "holds s (x # xs)" and "plain_char x"
  shows "\<exists>s'. recv_char s = Inr (x, s') \<and> holds s' xs"
proof -
  let ?s = "s\<lparr>keyboard_buffer := (keyboard_buffer s)[index_read s := 0], index_read := step_index (index_read s)\<rparr>"
  have x: "keyboard_buffer s ! index_read s = x" "holds ?s xs" using first_char_leaves [OF assms(1)] by simp_all
  have r: "index_read s < length (keyboard_buffer s)" using assms(1) by (simp add: holds_def)
  have "read_loop 0 1 0 (\<lambda>a. 0) s = read_loop 0 1 1 ((\<lambda>a. 0)(0 := x)) ?s"
    using r x(1) assms(2) by (subst read_loop.simps) (auto simp: Let_def plain_char_def)
  also have "\<dots> = Some (Inr (Read_Done 1, (\<lambda>a. 0)(0 := x), ?s))" by (subst read_loop.simps) simp
  finally show ?thesis using x(2) by (simp add: recv_char_def cons_read_def)
qed

interpretation ring: bounded_channel char_chan plain_char keyboard_char recv_char
proof unfold_locales
  show "\<exists>s'. keyboard_char c s = Inr s' \<and> char_chan s' (cs @ [c]) cap"
    if "char_chan s cs cap" "length cs < cap" "plain_char c" for s cs cap c
    using char_enters [of s cs c] that by (auto simp: char_chan_def plain_char_def)
  show "\<exists>s'. recv_char s = Inr (c, s') \<and> char_chan s' cs cap" if "char_chan s (c # cs) cap" for s c cs cap
    using recv_char_first [of s c cs] that by (auto simp: char_chan_def)
qed

section \<open>A line\<close>

lemma read_line:
  assumes "holds s (t @ 13 # rest)" and "\<forall>c\<in>set t. plain_char c" and "length t < unat len"
  shows "\<exists>m' s'. cons_read p len m s = Some (Inr (Read_Done (of_nat (length t)), m', s')) \<and> holds s' rest \<and>
    bytes m' p (length t) = t \<and> (\<forall>a. length t \<le> unat (a - p) \<longrightarrow> m' a = m a)"
proof -
  obtain m' s1 where r: "read_loop p len 0 m s = read_loop p len (of_nat (length t)) m' s1" "holds s1 (13 # rest)"
      "bytes m' p (length t) = t" "\<forall>a. length t \<le> unat (a - p) \<longrightarrow> m' a = m a"
    using read_text [OF assms(1,2), of 0 len p m] assms(3) by auto
  let ?s = "s1\<lparr>keyboard_buffer := (keyboard_buffer s1)[index_read s1 := 0], index_read := step_index (index_read s1)\<rparr>"
  have c: "keyboard_buffer s1 ! index_read s1 = 13" "holds ?s rest" using first_char_leaves [OF r(2)] by simp_all
  have b: "index_read s1 < length (keyboard_buffer s1)" using r(2) by (simp add: holds_def)
  have "unat (of_nat (length t) :: u32) = length t" using assms(3) unat_bound [of len] by (simp add: unat_of_nat take_bit_nat_eq_self)
  then have "of_nat (length t) \<noteq> len" using assms(3) by auto
  then have "read_loop p len (of_nat (length t)) m' s1 = Some (Inr (Read_Done (of_nat (length t)), m', ?s))"
    using b c(1) by (subst read_loop.simps) (simp add: Let_def)
  moreover have "len \<noteq> 0" using assms(3) by auto
  ultimately show ?thesis using r c(2) by (auto simp: cons_read_def)
qed

section \<open>From the keys to the reader\<close>

lemma chars_enter:
  "holds s xs \<Longrightarrow> length xs + length cs \<le> 1000 \<Longrightarrow> 0 \<notin> set cs \<Longrightarrow>
   \<exists>s'. keyboard_data cs s = Inr s' \<and> holds s' (xs @ cs)"
proof -
  assume "holds s xs" "length xs + length cs \<le> 1000" and nz: "0 \<notin> set cs"
  then have "\<exists>s'. foldE keyboard_char cs s = Inr s' \<and> holds s' (xs @ cs)"
  proof (induction cs arbitrary: s xs)
    case (Cons c cs)
    obtain s1 where s1: "keyboard_char c s = Inr s1" "holds s1 (xs @ [c])"
      using char_enters [of s xs c] Cons.prems by auto
    then show ?case using Cons.IH [OF s1(2)] Cons.prems by auto
  qed simp
  moreover have "takeWhile (\<lambda>c. c \<noteq> 0) cs = cs" using nz by (metis (mono_tags) takeWhile_eq_all_conv)
  ultimately show ?thesis by (simp only: keyboard_data_def)
qed

lemma handler_quiet:
  "do_scancode c kb = Inr kb' \<Longrightarrow> typed kb' = typed kb \<Longrightarrow> keyboard_handler c (kb, buf) = Inr (kb', buf)"
  by (simp add: keyboard_handler_def keyboard_data_def)

lemma handler_sends:
  assumes "do_scancode sc kb = Inr kb'" and "typed kb' = typed kb @ [c]" and "c \<noteq> 0" and "holds buf xs" and "length xs < 1000"
  shows "\<exists>buf'. keyboard_handler sc (kb, buf) = Inr (kb', buf') \<and> holds buf' (xs @ [c])"
  using chars_enter [OF assms(4), of "[c]"] assms by (auto simp: keyboard_handler_def)

lemma stroke_enters:
  assumes "ready False kb" and "types_char k" and "holds buf xs" and "length xs < 1000"
  shows "\<exists>kb' buf'. foldE keyboard_handler (scancodes_of k) (kb, buf) = Inr (kb', buf') \<and> ready False kb' \<and>
    holds buf' (xs @ [stroke_char k])"
proof (cases k)
  case (Pair shift sc)
  have nz: "stroke_char k \<noteq> 0" using assms(2) by (simp add: types_char_def)
  show ?thesis
  proof (cases shift)
    case False
    obtain s1 s2 where s: "do_scancode sc kb = Inr s1" "typed s1 = typed kb @ [stroke_char k]"
        "do_scancode (sc OR 0x80) s1 = Inr s2" "typed s2 = typed s1" "ready False s2"
      using character_key [OF assms(1), of sc] assms(2) Pair False by auto
    then show ?thesis using handler_sends [OF s(1,2) nz assms(3,4)] handler_quiet [OF s(3,4)] Pair False
      by (auto simp: scancodes_of_def)
  next
    case True
    obtain s0 where s0: "do_scancode 0x2a kb = Inr s0" "ready True s0" "typed s0 = typed kb"
      using shift_down [OF assms(1)] by blast
    obtain s1 s2 where s: "do_scancode sc s0 = Inr s1" "typed s1 = typed s0 @ [stroke_char k]"
        "do_scancode (sc OR 0x80) s1 = Inr s2" "typed s2 = typed s1" "ready True s2"
      using character_key [OF s0(2), of sc] assms(2) Pair True by auto
    obtain s3 where s3: "do_scancode 0xaa s2 = Inr s3" "ready False s3" "typed s3 = typed s2"
      using shift_up [OF s(5)] by blast
    show ?thesis
      using handler_quiet [OF s0(1,3)] handler_sends [OF s(1,2) nz assms(3,4)] handler_quiet [OF s(3,4)]
        handler_quiet [OF s3(1,3)] s3(2) Pair True
      by (auto simp: scancodes_of_def)
  qed
qed

lemma strokes_enter:
  "ready False kb \<Longrightarrow> \<forall>k\<in>set ks. types_char k \<Longrightarrow> holds buf xs \<Longrightarrow> length xs + length ks \<le> 1000 \<Longrightarrow>
   \<exists>kb' buf'. foldE keyboard_handler (concat (map scancodes_of ks)) (kb, buf) = Inr (kb', buf') \<and> ready False kb' \<and>
     holds buf' (xs @ map stroke_char ks)"
proof (induction ks arbitrary: kb buf xs)
  case (Cons k ks)
  obtain kb1 buf1 where 1: "foldE keyboard_handler (scancodes_of k) (kb, buf) = Inr (kb1, buf1)" "ready False kb1"
      "holds buf1 (xs @ [stroke_char k])"
    using stroke_enters [OF Cons.prems(1) _ Cons.prems(3), of k] Cons.prems(2,4) by auto
  show ?case using Cons.IH [OF 1(2) _ 1(3)] Cons.prems(2,4) 1(1) by (auto simp: foldE_append)
qed auto

lemma typed_line:
  assumes "ready False kb" and "holds buf []" and "\<forall>k\<in>set ks. types_char k \<and> plain_char (stroke_char k)"
    and "length ks < 1000" and "length ks < unat len"
  shows "\<exists>kb' buf' m' buf''. foldE keyboard_handler (concat (map scancodes_of ks) @ [0x1c, 0x9c]) (kb, buf) = Inr (kb', buf') \<and>
    ready False kb' \<and>
    cons_read p len m buf' = Some (Inr (Read_Done (of_nat (length ks)), m', buf'')) \<and>
    bytes m' p (length ks) = map stroke_char ks \<and> (\<forall>a. length ks \<le> unat (a - p) \<longrightarrow> m' a = m a) \<and> holds buf'' []"
proof -
  obtain kb1 buf1 where 1: "foldE keyboard_handler (concat (map scancodes_of ks)) (kb, buf) = Inr (kb1, buf1)" "ready False kb1"
      "holds buf1 (map stroke_char ks)"
    using strokes_enter [OF assms(1) _ assms(2), of ks] assms(3,4) by auto
  obtain s1 s2 where s: "do_scancode 0x1c kb1 = Inr s1" "typed s1 = typed kb1 @ [13]"
      "do_scancode 0x9c s1 = Inr s2" "typed s2 = typed s1" "ready False s2"
    using enter_key [OF 1(2)] by blast
  obtain buf2 where 2: "keyboard_handler 0x1c (kb1, buf1) = Inr (s1, buf2)" "holds buf2 (map stroke_char ks @ [13])"
    using handler_sends [OF s(1,2) _ 1(3)] assms(4) by auto
  have run: "foldE keyboard_handler (concat (map scancodes_of ks) @ [0x1c, 0x9c]) (kb, buf) = Inr (s2, buf2)"
    using 1(1) 2(1) handler_quiet [OF s(3,4)] by (simp add: foldE_append)
  show ?thesis using read_line [OF 2(2), of len p m] assms(3,5) run s(5) by auto
qed

text \<open>
  C22. A line typed on the keyboard reaches the reader: after the interrupts of its strokes and of the
  Enter key, \<open>cons_read\<close> returns at once with the number of characters and has stored exactly the
  characters of the line; the ring is empty again.
\<close>

theorem typed_line_is_read:
  assumes "ready False kb" and "holds buf []" and "\<forall>k\<in>set ks. types_char k \<and> plain_char (stroke_char k)"
    and "length ks < 1000" and "length ks < unat len"
  shows "\<exists>kb' buf' m' buf''. foldE keyboard_handler (concat (map scancodes_of ks) @ [0x1c, 0x9c]) (kb, buf) = Inr (kb', buf') \<and>
    ready False kb' \<and>
    cons_read p len m buf' = Some (Inr (Read_Done (of_nat (length ks)), m', buf'')) \<and>
    bytes m' p (length ks) = map stroke_char ks \<and> (\<forall>a. length ks \<le> unat (a - p) \<longrightarrow> m' a = m a) \<and> holds buf'' []"
  by (rule typed_line [OF assms])

text \<open>The machine after \<open>do_scancode\<close> has been called once, with the screen of the start-up and no echo.\<close>

definition kbuf0 :: kbuf where
  "kbuf0 = \<lparr>echo = 0, index_write = 0, index_read = 0, nb_write = 0, keyboard_buffer = replicate 1000 0, screen = cons0\<rparr>"

lemma kbuf0_empty: "holds kbuf0 []"
  by (simp add: holds_def kbuf0_def)

theorem typed_line_is_read_witness:
  "\<exists>kb' buf' m' buf''. foldE keyboard_handler [0x2a, 0x14, 0x94, 0xaa, 0x14, 0x94, 0x1c, 0x9c]
      (kbd_init ((kbdst_boot (\<lambda>_. 0))\<lparr>started := True\<rparr>), kbuf0) = Inr (kb', buf') \<and>
    cons_read 0x1000 80 (\<lambda>_. 0) buf' = Some (Inr (Read_Done 2, m', buf'')) \<and> bytes m' 0x1000 2 = [0x54, 0x74]"
proof -
  have c: "scancodes_of (True, 0x14) = [0x2a, 0x14, 0x94, 0xaa]" "scancodes_of (False, 0x14) = [0x14, 0x94]"
    "stroke_char (True, 0x14) = 0x54" "stroke_char (False, 0x14) = 0x74" "types_char (True, 0x14)" "types_char (False, 0x14)"
    by code_simp+
  have ks: "\<forall>k\<in>set [(True, 0x14), (False, 0x14)]. types_char k \<and> plain_char (stroke_char k)"
    using c by (simp add: plain_char_def)
  have e: "concat (map scancodes_of [(True, 0x14), (False, 0x14)]) @ [0x1c, 0x9c] = [0x2a, 0x14, 0x94, 0xaa, 0x14, 0x94, 0x1c, 0x9c]"
    "map stroke_char [(True, 0x14), (False, 0x14)] = [0x54, 0x74]" "length [(True, 0x14 :: u8), (False, 0x14)] = 2"
    "(of_nat 2 :: u32) = 2"
    using c by simp_all
  have "(2 :: nat) < 1000" "2 < unat (80 :: u32)" by simp_all
  then show ?thesis
    using typed_line_is_read [OF boot_ready [of "\<lambda>_. 0"] kbuf0_empty ks, of 80 "0x1000" "\<lambda>_. 0", unfolded e] by blast
qed

section \<open>Deletions that are never consumed\<close>

lemma only_deletions_never_end:
  assumes "read_loop p len n m s = Some r" and "n = 0" and "len \<noteq> 0" and "keyboard_buffer s = replicate 1000 127" and "index_read s < 1000"
  shows False
proof -
  have "n = 0 \<longrightarrow> len \<noteq> 0 \<longrightarrow> keyboard_buffer s = replicate 1000 127 \<longrightarrow> index_read s < 1000 \<longrightarrow> False"
    by (rule read_loop.raw_induct [where P = "\<lambda>p len n m s r. n = 0 \<longrightarrow> len \<noteq> 0 \<longrightarrow>
        keyboard_buffer s = replicate 1000 127 \<longrightarrow> index_read s < 1000 \<longrightarrow> False", OF _ assms(1)])
      (auto simp: Let_def step_index_def buffer_size_def split: if_splits, fastforce+)
  then show ?thesis using assms by blast
qed

lemma deletions_fill:
  "j \<le> 1000 \<Longrightarrow> length (keyboard_buffer s) = 1000 \<Longrightarrow> index_write s = 0 \<Longrightarrow>
   \<exists>s'. foldE keyboard_char (replicate j 127) s = Inr s' \<and> length (keyboard_buffer s') = 1000 \<and> index_read s' = index_read s \<and>
     index_write s' = j mod 1000 \<and> (\<forall>i<j. keyboard_buffer s' ! i = 127)"
proof (induction j)
  case (Suc j)
  then obtain s1 where s1: "foldE keyboard_char (replicate j 127) s = Inr s1" "length (keyboard_buffer s1) = 1000"
      "index_read s1 = index_read s" "index_write s1 = j" "\<forall>i<j. keyboard_buffer s1 ! i = 127"
    by auto
  obtain s2 where s2: "keyboard_char 127 s1 = Inr s2" "keyboard_buffer s2 = (keyboard_buffer s1)[j := 127]"
      "index_read s2 = index_read s1" "index_write s2 = (if Suc j = 1000 then 0 else Suc j)"
    using s1 Suc.prems by (simp add: keyboard_char_def Let_def buffer_size_def)
  have "foldE keyboard_char (replicate (Suc j) 127) s = Inr s2"
    using s1(1) s2(1) unfolding replicate_Suc replicate_append_same [symmetric] foldE_append by simp
  then show ?case using s1 s2 Suc.prems by (auto simp: nth_list_update less_Suc_eq)
qed simp

text \<open>
  C24. \<open>cons_read\<close> leaves the deletions it reads in the ring, although the ring marks what was read with
  a null byte: once a whole ring of deletions has been typed, a call of \<open>cons_read\<close> goes round the ring
  for ever, inside the kernel and without waiting.
\<close>

theorem deletions_hang_the_reader:
  assumes "length (keyboard_buffer s) = 1000" and "index_write s = 0" and "index_read s < 1000" and "len \<noteq> 0"
  shows "\<exists>s'. keyboard_data (replicate 1000 127) s = Inr s' \<and> cons_read p len m s' = None"
proof -
  obtain s' where s': "foldE keyboard_char (replicate 1000 127) s = Inr s'" "length (keyboard_buffer s') = 1000"
      "index_read s' = index_read s" "\<forall>i<1000. keyboard_buffer s' ! i = 127"
    using deletions_fill [OF _ assms(1,2), of 1000] by auto
  have "keyboard_buffer s' = replicate 1000 127" using s'(2,4) by (intro nth_equalityI) simp_all
  then have "cons_read p len m s' = None"
    using only_deletions_never_end [of p len 0 m s'] assms(3,4) s'(3)
    by (cases "read_loop p len 0 m s'") (auto simp: cons_read_def)
  moreover have "takeWhile (\<lambda>c. c \<noteq> 0) (replicate 1000 127) = replicate 1000 (127 :: u8)" by (simp add: takeWhile_eq_all_conv)
  ultimately show ?thesis using s'(1) by (auto simp: keyboard_data_def)
qed

theorem deletions_hang_the_reader_witness:
  "\<exists>s'. keyboard_data (replicate 1000 127) kbuf0 = Inr s' \<and> cons_read 0x1000 80 (\<lambda>_. 0) s' = None"
  by (rule deletions_hang_the_reader) (simp_all add: kbuf0_def)

end
