(* ===== verification/Utf8.thy ===== *)
theory Utf8
  imports Keyboard
begin

text \<open>
  The bytes \<open>to_utf8\<close> of \<open>kernel/kbd-linux/keyboard.c\<close> sends for a character of 16 bits are its UTF-8
  code: a decoder written after the definition of UTF-8 gives the character back.
\<close>

definition utf8_bytes :: "u16 \<Rightarrow> u8 list" where
  "utf8_bytes c =
     (if c < 0x80 then [ucast c]
      else if c < 0x800 then [ucast (0xc0 OR drop_bit 6 c), ucast (0x80 OR (c AND 0x3f))]
      else [ucast (0xe0 OR drop_bit 12 c), ucast (0x80 OR (drop_bit 6 c AND 0x3f)), ucast (0x80 OR (c AND 0x3f))])"

text \<open>The decoder: the first byte tells the number of bytes, and the others carry six bits each.\<close>

fun utf8_decode :: "u8 list \<Rightarrow> u16 option" where
  "utf8_decode [a] = (if a < 0x80 then Some (ucast a) else None)"
| "utf8_decode [a, b] =
     (if a AND 0xe0 = 0xc0 \<and> b AND 0xc0 = 0x80
      then Some (push_bit 6 (ucast (a AND 0x1f)) OR ucast (b AND 0x3f)) else None)"
| "utf8_decode [a, b, c] =
     (if a AND 0xf0 = 0xe0 \<and> b AND 0xc0 = 0x80 \<and> c AND 0xc0 = 0x80
      then Some (push_bit 12 (ucast (a AND 0x0f)) OR push_bit 6 (ucast (b AND 0x3f)) OR ucast (c AND 0x3f)) else None)"
| "utf8_decode _ = None"

lemma masks:
  "(0x3f :: u16) = mask 6" "(0x3f :: u8) = mask 6" "(0x1f :: u8) = mask 5" "(0x0f :: u8) = mask 4"
  by (simp_all add: mask_eq_exp_minus_1)

lemma lead_bits:
  "bit (0x80 :: u16) n \<longleftrightarrow> n = 7" "bit (0xc0 :: u16) n \<longleftrightarrow> n = 7 \<or> n = 6" "bit (0xe0 :: u16) n \<longleftrightarrow> n = 7 \<or> n = 6 \<or> n = 5"
  "bit (0x80 :: u8) n \<longleftrightarrow> n = 7" "bit (0xc0 :: u8) n \<longleftrightarrow> n = 7 \<or> n = 6" "bit (0xe0 :: u8) n \<longleftrightarrow> n = 7 \<or> n = 6 \<or> n = 5"
  "bit (0xf0 :: u8) n \<longleftrightarrow> n = 7 \<or> n = 6 \<or> n = 5 \<or> n = 4"
proof -
  have small: "n < 16 \<Longrightarrow> n \<in> {0,1,2,3,4,5,6,7,8,9,10,11,12,13,14,15}" by simp presburger
  show "bit (0x80 :: u16) n \<longleftrightarrow> n = 7" "bit (0xc0 :: u16) n \<longleftrightarrow> n = 7 \<or> n = 6" "bit (0xe0 :: u16) n \<longleftrightarrow> n = 7 \<or> n = 6 \<or> n = 5"
    using small by (cases "n < 16"; force dest: bit_imp_le_length)+
  show "bit (0x80 :: u8) n \<longleftrightarrow> n = 7" "bit (0xc0 :: u8) n \<longleftrightarrow> n = 7 \<or> n = 6" "bit (0xe0 :: u8) n \<longleftrightarrow> n = 7 \<or> n = 6 \<or> n = 5"
    "bit (0xf0 :: u8) n \<longleftrightarrow> n = 7 \<or> n = 6 \<or> n = 5 \<or> n = 4"
    using small by (cases "n < 16"; force dest: bit_imp_le_length)+
qed

lemma high_bits_clear: "unat c < 2 ^ k \<Longrightarrow> k \<le> n \<Longrightarrow> \<not> bit c n" for c :: u16
proof -
  assume c: "unat c < 2 ^ k" "k \<le> n"
  have "(2::nat) ^ k \<le> 2 ^ n" using c(2) by (intro power_increasing) simp_all
  then have "unat c < 2 ^ n" using c(1) by linarith
  then have "\<not> bit (unat c) n" by (simp add: bit_iff_odd)
  then show ?thesis by (metis bit_unsigned_iff bit_imp_le_length possible_bit_nat)
qed

lemma decode_encode: "utf8_decode (utf8_bytes c) = Some c"
proof -
  have u: "c < 0x80 \<longleftrightarrow> unat c < 2 ^ 7" "c < 0x800 \<longleftrightarrow> unat c < 2 ^ 11" by (simp_all add: word_less_nat_alt)
  consider "unat c < 2 ^ 7" | "\<not> unat c < 2 ^ 7" "unat c < 2 ^ 11" | "\<not> unat c < 2 ^ 11" by linarith
  then show ?thesis
  proof cases
    case 1
    then have "unat (ucast c :: u8) = unat c" by (simp add: unsigned_ucast_eq take_bit_nat_eq_self)
    then have "(ucast c :: u8) < 0x80" using 1 by (simp add: word_less_nat_alt)
    moreover have "n < 8" if "bit c n" for n
    proof (rule ccontr)
      assume "\<not> n < 8"
      then show False using high_bits_clear [OF 1, of n] that by simp
    qed
    then have "(ucast (ucast c :: u8) :: u16) = c"
      by (intro bit_word_eqI) (auto simp: bit_ucast_iff)
    ultimately show ?thesis using 1 u by (simp add: utf8_bytes_def)
  next
    case 2
    have clear: "n < 11" if "bit c n" for n using high_bits_clear [OF 2(2), of n] that by (meson not_less)
    let ?a = "ucast (0xc0 OR drop_bit 6 c) :: u8" and ?b = "ucast (0x80 OR (c AND 0x3f)) :: u8"
    have "?a AND 0xe0 = 0xc0" "?b AND 0xc0 = 0x80"
      unfolding masks
      by (intro bit_word_eqI; auto simp: bit_simps lead_bits simp del: bit_numeral_word_iff dest: clear)+
    moreover have "push_bit 6 (ucast (?a AND 0x1f)) OR ucast (?b AND 0x3f) = c"
      unfolding masks
      by (intro bit_word_eqI) (auto simp: bit_simps lead_bits simp del: bit_numeral_word_iff dest: clear)
    ultimately show ?thesis using 2 u by (simp add: utf8_bytes_def)
  next
    case 3
    let ?a = "ucast (0xe0 OR drop_bit 12 c) :: u8" and ?b = "ucast (0x80 OR (drop_bit 6 c AND 0x3f)) :: u8"
      and ?c = "ucast (0x80 OR (c AND 0x3f)) :: u8"
    have "?a AND 0xf0 = 0xe0" "?b AND 0xc0 = 0x80" "?c AND 0xc0 = 0x80"
      unfolding masks by (intro bit_word_eqI; auto simp: bit_simps lead_bits simp del: bit_numeral_word_iff dest: bit_imp_le_length)+
    moreover have "ucast (?a AND 0x0f) = drop_bit 12 c" "ucast (?b AND 0x3f) = drop_bit 6 c AND mask 6" "ucast (?c AND 0x3f) = c AND mask 6"
      unfolding masks
      by (intro bit_word_eqI; auto simp: bit_simps lead_bits simp del: bit_numeral_word_iff dest: bit_imp_le_length)+
    moreover have "push_bit 12 (drop_bit 12 c) OR push_bit 6 (drop_bit 6 c AND mask 6) OR (c AND mask 6) = c"
    proof (intro bit_word_eqI)
      show "bit (push_bit 12 (drop_bit 12 c) OR push_bit 6 (drop_bit 6 c AND mask 6) OR (c AND mask 6)) n = bit c n"
        if "n < LENGTH(16)" for n
        using that by (cases "12 \<le> n"; cases "6 \<le> n") (auto simp: bit_simps)
    qed
    ultimately show ?thesis using 3 u by (simp add: utf8_bytes_def)
  qed
qed

lemma to_utf8_bytes:
  assumes "tty s" and "c \<noteq> 0" shows "typed (to_utf8 c s) = typed s @ utf8_bytes c"
proof -
  have "b \<noteq> 0" if b: "b \<in> set (utf8_bytes c)" for b
  proof (cases "c < 0x80")
    case True
    then have "utf8_decode [b] = Some c" using b decode_encode [of c] by (simp add: utf8_bytes_def)
    then show ?thesis using assms(2) by (auto split: if_splits)
  next
    case False
    then have "bit b 7" using b by (auto simp: utf8_bytes_def bit_simps lead_bits simp del: bit_numeral_word_iff split: if_splits)
    then show ?thesis by auto
  qed
  then show ?thesis using assms(1) by (simp add: to_utf8_def utf8_bytes_def put_queue_def)
qed

text \<open>
  The bytes the driver sends for a Unicode character, when a terminal is attached, decode to that
  character.
\<close>

theorem unicode_round_trip:
  assumes "tty s" and "c \<noteq> 0"
  shows "\<exists>bs. typed (to_utf8 c s) = typed s @ bs \<and> utf8_decode bs = Some c"
  using to_utf8_bytes [OF assms] decode_encode by blast

theorem unicode_round_trip_witness:
  "\<exists>bs. typed (to_utf8 0x20AC ((kbdst_boot (\<lambda>_. 0))\<lparr>tty := True\<rparr>)) = bs \<and> utf8_decode bs = Some 0x20AC"
  using unicode_round_trip [of "(kbdst_boot (\<lambda>_. 0))\<lparr>tty := True\<rparr>" "0x20AC"] by (simp add: kbdst_boot_def)

end
