(* ===== verification/Math.thy ===== *)
theory Math
  imports Prelude
begin

text \<open>
  64-bit arithmetic on a processor that divides 64 by 32 bits. \<open>shared/div64.c\<close>: \<open>do_div64\<close>, with the
  \<open>divl\<close> instruction and its divide exception, the double shifts of its \<open>asm\<close> macros and the loop
  that corrects the estimated quotient. \<open>user/tests/lib/math.c\<close>: the shift-and-subtract division
  \<open>div64\<close>, the schoolbook product \<open>mul64\<close> and the linear congruential generator on it. Each is
  proved to compute the quotient and remainder, or the product modulo \<open>2 ^ 64\<close>; the loops are
  total functions.
\<close>

section \<open>Shift and subtract: \<open>user/tests/lib/math.c\<close>\<close>

lemma top_bit: "drop_bit 32 d AND 0x80000000 \<noteq> 0 \<longleftrightarrow> 2 ^ 63 \<le> unat d" for d :: u64
proof -
  have "drop_bit 32 d AND 0x80000000 = push_bit 31 (drop_bit 63 d)"
  proof (rule bit_word_eqI)
    fix n assume n: "n < LENGTH(64)"
    have e: "(0x80000000 :: u64) = 2 ^ 31" by simp
    have high: "n = 31" if "bit d (32 + n)" "31 \<le> n"
      using bit_imp_le_length [OF that(1)] that(2) by simp
    have bits: "bit (drop_bit 32 d AND 0x80000000) n \<longleftrightarrow> bit d (32 + n) \<and> 31 = n"
      "bit (push_bit 31 (drop_bit 63 d)) n \<longleftrightarrow> 31 \<le> n \<and> bit d (63 + (n - 31))"
      using n by (simp_all only: e bit_and_iff bit_exp_iff bit_drop_bit_eq bit_push_bit_iff o_def) auto
    have "63 + (n - 31) = 32 + n" if "31 \<le> n" using that by simp
    then show "bit (drop_bit 32 d AND 0x80000000) n = bit (push_bit 31 (drop_bit 63 d)) n"
      unfolding bits using high by (metis order_refl)
  qed
  also have "\<dots> \<noteq> 0 \<longleftrightarrow> bit d 63"
  proof -
    have "bit (push_bit 31 (drop_bit 63 d)) n \<longleftrightarrow> n = 31 \<and> bit d 63" for n
    proof -
      have "n = 31" if "bit d (32 + n)" "31 \<le> n" using bit_imp_le_length [OF that(1)] that(2) by simp
      then show ?thesis by (auto simp: bit_simps)
    qed
    then show ?thesis by (metis bit_0_eq bot_apply bot_bool_def bit_word_eqI)
  qed
  also have "bit d 63 \<longleftrightarrow> 2 ^ 63 \<le> unat d"
  proof -
    have parity: "odd k \<longleftrightarrow> k \<noteq> 0" if "k < 2" for k :: nat using that by presburger
    have "unat d < 2 ^ 64" using unat_bound [of d] by simp
    then have "unat d div 2 ^ 63 < 2" by simp
    note parity [OF this]
    moreover have "bit d 63 \<longleftrightarrow> odd (unat d div 2 ^ 63)"
      using bit_iff_odd [of "unat d" 63] by (simp only: bit_unsigned_iff) simp
    ultimately show ?thesis by (simp add: div_eq_0_iff not_less)
  qed
  finally show ?thesis .
qed

lemma unat_double: "unat d < 2 ^ 63 \<Longrightarrow> unat (2 * d) = 2 * unat d" for d :: u64
  by (subst unat_word_ariths) simp

text \<open>
  The first loop doubles the divisor as long as it stays below the dividend. A divisor of zero, which
  the caller excludes, would be doubled for ever.
\<close>

function div64_scale :: "u64 \<Rightarrow> u64 \<Rightarrow> u64 \<Rightarrow> (u64 \<times> u64) res" where
  "div64_scale x d mul =
     (if drop_bit 32 d AND 0x80000000 \<noteq> 0 then Inr (d, mul)
      else let newd = d + d
        in if x < newd then Inr (d, mul)
           else if d = 0 then Inl No_Return
           else div64_scale x newd (mul + mul))"
  by pat_completeness auto

termination
proof (relation "measure (\<lambda>(x, d, mul). 2 ^ 64 - unat d)", goal_cases)
  case (2 x d mul newd)
  then have "unat d < 2 ^ 63" by (metis not_less top_bit)
  moreover have "unat d \<noteq> 0" using 2 by (simp add: unat_eq_0)
  ultimately show ?case using 2(2) unat_double [of d] by simp
qed simp

declare div64_scale.simps [simp del]

lemma unat_half: "unat (m div 2) = unat m div 2" for m :: u64
  by (simp add: unat_div)

text \<open>The second loop halves the divisor back and subtracts it where it fits.\<close>

function div64_subtract :: "u64 \<Rightarrow> u64 \<Rightarrow> u64 \<Rightarrow> u64 \<Rightarrow> u64 \<times> u64" where
  "div64_subtract x d mul q =
     (let mul = mul div 2; d = d div 2
      in if mul = 0 then (q, x)
         else if x < d then div64_subtract x d mul q
         else div64_subtract (x - d) d mul (q + mul))"
  by pat_completeness auto

termination
  by (relation "measure (\<lambda>(x, d, mul, q). unat mul)")
     (auto simp: unat_half word_neq_0_conv word_less_nat_alt)

declare div64_subtract.simps [simp del]

text \<open>The quotient, and the remainder that is stored through \<open>rem\<close>.\<close>

definition div64 :: "u64 \<Rightarrow> u64 \<Rightarrow> (u64 \<times> u64) res" where
  "div64 x d =
     (if x < d \<or> d = 0 then Inr (0, x)
      else bindE (div64_scale x d 1) (\<lambda>(d, mul). Inr (div64_subtract (x - d) d mul mul)))"

lemma div64_scale_ok:
  assumes "unat d \<le> unat x" and "d \<noteq> 0" and "unat d = c * 2 ^ k" and "unat mul = 2 ^ k"
  shows "\<exists>d' mul' k'. div64_scale x d mul = Inr (d', mul') \<and> unat d' = c * 2 ^ k' \<and> unat mul' = 2 ^ k' \<and>
    unat d' \<le> unat x \<and> unat x < 2 * unat d'"
  using assms
proof (induction x d mul arbitrary: k rule: div64_scale.induct)
  case (1 x d mul)
  have x: "unat x < 2 ^ 64" using unat_bound [of x] by simp
  have "unat d \<noteq> 0" using 1(3) by (simp add: unat_eq_0)
  then have c: "0 < c" using 1(4) by (cases c) simp_all
  show ?case
  proof (cases "2 ^ 63 \<le> unat d")
    case True
    then show ?thesis using 1(2,4,5) x by (subst div64_scale.simps) (simp add: top_bit; blast)
  next
    case False
    then have d: "unat (2 * d) = 2 * unat d" using unat_double [of d] by simp
    show ?thesis
    proof (cases "x < 2 * d")
      case True
      then have "unat x < 2 * unat d" using d by (simp add: word_less_nat_alt)
      then show ?thesis using False True 1(2,4,5) by (subst div64_scale.simps) (simp add: top_bit; blast)
    next
      case no: False
      have "2 ^ k \<le> unat d" using 1(4) c by simp
      then have "unat mul < 2 ^ 63" using 1(5) False by simp
      then have mul: "unat (2 * mul) = 2 * unat mul" using unat_double by simp
      have "div64_scale x d mul = div64_scale x (2 * d) (2 * mul)"
        using False no 1(3) by (subst div64_scale.simps) (simp add: top_bit)
      moreover have "\<exists>d' mul' k'. div64_scale x (2 * d) (2 * mul) = Inr (d', mul') \<and> unat d' = c * 2 ^ k' \<and>
          unat mul' = 2 ^ k' \<and> unat d' \<le> unat x \<and> unat x < 2 * unat d'"
      proof -
        have "2 * d \<noteq> 0" using d 1(3) by (metis mult_eq_0_iff unat_0 unat_eq_0 zero_neq_numeral)
        then show ?thesis
          using 1(1) [OF _ refl, of "Suc k"] False no 1(3-5) d mul
          by (simp add: top_bit word_less_nat_alt)
      qed
      ultimately show ?thesis by simp
    qed
  qed
qed

lemma div64_subtract_ok:
  assumes "unat d = c * 2 ^ k" and "unat mul = 2 ^ k" and "unat x < unat d"
    and "unat q + 2 ^ k \<le> 2 ^ 64"
  shows "\<exists>q' r. div64_subtract x d mul q = (q', r) \<and> unat q' * c + unat r = unat q * c + unat x \<and> unat r < c"
  using assms
proof (induction x d mul q arbitrary: k rule: div64_subtract.induct)
  case (1 x d mul q)
  show ?case
  proof (cases k)
    case 0
    then have "mul div 2 = 0" using 1(4) by (simp add: unat_half flip: unat_eq_0)
    then show ?thesis using 1(3,5) 0 by (subst div64_subtract.simps) simp
  next
    case (Suc j)
    have h: "unat (d div 2) = c * 2 ^ j" "unat (mul div 2) = 2 ^ j" using 1(3,4) Suc by (simp_all add: unat_half)
    then have m: "mul div 2 \<noteq> 0" by (auto simp: unat_eq_0 [symmetric])
    show ?thesis
    proof (cases "x < d div 2")
      case True
      have "\<exists>q' r. div64_subtract x (d div 2) (mul div 2) q = (q', r) \<and>
          unat q' * c + unat r = unat q * c + unat x \<and> unat r < c"
        using 1(1) [OF refl refl m True, of j] h True 1(6) Suc by (simp add: word_less_nat_alt)
      then show ?thesis using m True by (subst div64_subtract.simps) (simp add: Let_def)
    next
      case False
      then have le: "c * 2 ^ j \<le> unat x" using h by (simp add: word_less_nat_alt)
      then have x: "unat (x - d div 2) = unat x - c * 2 ^ j" using h by (subst unat_sub) (simp_all add: word_le_nat_alt)
      have q: "unat (q + mul div 2) = unat q + 2 ^ j"
      proof -
        have "0 < (2 :: nat) ^ j" by simp
        then have "unat q + 2 ^ j < 2 ^ 64" using 1(6) unfolding Suc power_Suc by linarith
        then show ?thesis using h by (subst unat_add_lem [THEN iffD1]) simp_all
      qed
      have "\<exists>q' r. div64_subtract (x - d div 2) (d div 2) (mul div 2) (q + mul div 2) = (q', r) \<and>
          unat q' * c + unat r = unat (q + mul div 2) * c + unat (x - d div 2) \<and> unat r < c"
        using 1(5,3) Suc x q h 1(6) by (intro 1(2) [OF refl refl m False, of j]) simp_all
      moreover have "unat (q + mul div 2) * c + unat (x - d div 2) = unat q * c + unat x"
        using x q le by (simp add: algebra_simps)
      ultimately show ?thesis using m False by (subst div64_subtract.simps) (simp add: Let_def)
    qed
  qed
qed

lemma quotient_unique:
  fixes q d r x :: nat
  assumes "q * d + r = x" and "r < d"
  shows "q = x div d" and "r = x mod d"
  using assms by auto

theorem shift_division_divides:
  assumes "d \<noteq> 0"
  shows "\<exists>q r. div64 x d = Inr (q, r) \<and> unat q = unat x div unat d \<and> unat r = unat x mod unat d"
proof (cases "x < d")
  case True
  then show ?thesis by (simp add: div64_def word_less_nat_alt)
next
  case False
  obtain d' mul k where s: "div64_scale x d 1 = Inr (d', mul)" "unat d' = unat d * 2 ^ k" "unat mul = 2 ^ k"
    "unat d' \<le> unat x" "unat x < 2 * unat d'"
  proof -
    have "unat d \<le> unat x" "unat d = unat d * 2 ^ 0" "unat (1 :: u64) = 2 ^ 0"
      using False by (simp_all add: word_less_nat_alt)
    from div64_scale_ok [OF this(1) assms this(2,3)] show thesis using that by blast
  qed
  have x: "unat (x - d') = unat x - unat d'" using s(4) by (subst unat_sub) (simp_all add: word_le_nat_alt)
  have "2 ^ k < (2 :: nat) ^ 64" using s(3) unat_bound [of mul] by simp
  then have "k < 64" by (rule power_less_imp_less_exp [rotated]) simp
  then have "2 ^ k \<le> (2 :: nat) ^ 63" by (intro power_increasing) simp_all
  then have "2 ^ k + 2 ^ k \<le> (2 :: nat) ^ 64" by simp
  then obtain q r where q: "div64_subtract (x - d') d' mul mul = (q, r)"
    "unat q * unat d + unat r = unat mul * unat d + unat (x - d')" "unat r < unat d"
  proof -
    have "unat (x - d') < unat d'" using x s(4,5) by linarith
    moreover have "unat mul + 2 ^ k \<le> 2 ^ 64" using \<open>2 ^ k + 2 ^ k \<le> (2 :: nat) ^ 64\<close> s(3) by simp
    ultimately show thesis using div64_subtract_ok [OF s(2,3)] that by blast
  qed
  have "unat q * unat d + unat r = unat x" using q(2) s(2-4) x by (simp add: mult.commute)
  then have "unat q = unat x div unat d \<and> unat r = unat x mod unat d"
    using quotient_unique q(3) by blast
  then show ?thesis using False assms s(1) q(1) by (simp add: div64_def)
qed

section \<open>The product and the generator of \<open>math.c\<close>\<close>

definition mul64 :: "u64 \<Rightarrow> u64 \<Rightarrow> u64" where
  "mul64 x y =
     (let a = ucast (x AND 0xffff) :: u32; b = ucast (drop_bit 16 x AND 0xffff);
          c = ucast (drop_bit 32 x AND 0xffff); d = ucast (drop_bit 48 x AND 0xffff);
          e = ucast (y AND 0xffff) :: u32; f = ucast (drop_bit 16 y AND 0xffff);
          g = ucast (drop_bit 32 y AND 0xffff); h = ucast (drop_bit 48 y AND 0xffff);
          res = ucast (d * e) :: u64;
          res = res + ucast (c * f); res = res + ucast (b * g); res = res + ucast (a * h);
          res = push_bit 16 res;
          res = res + ucast (c * e); res = res + ucast (b * f); res = res + ucast (a * g);
          res = push_bit 16 res;
          res = res + ucast (b * e); res = res + ucast (a * f);
          res = push_bit 16 res
      in res + ucast (a * e))"

lemma digit16:
  fixes w :: u64
  defines "z \<equiv> ucast (w AND 0xffff) :: u32"
  shows "unat z < 65536" and "ucast z = w AND 0xffff"
proof -
  have m: "(0xffff :: u64) = mask 16" by (simp add: mask_eq_exp_minus_1)
  have z: "unat z = unat w mod 65536"
    by (simp add: z_def m unsigned_ucast_eq take_bit_eq_mod unat_mod mod_mod_cancel flip: take_bit_eq_mask)
  show "unat z < 65536" unfolding z by simp
  show "ucast z = w AND 0xffff"
    by (rule bit_word_eqI) (auto simp: z_def m bit_simps)
qed

lemma ucast_product: "unat x < 65536 \<Longrightarrow> unat y < 65536 \<Longrightarrow> (ucast (x * y) :: u64) = ucast x * ucast y" for x y :: u32
proof -
  assume s: "unat x < 65536" "unat y < 65536"
  have "unat x * unat y \<le> 65535 * 65535" using s by (intro mult_le_mono) simp_all
  then have "unat (x * y) = unat x * unat y" by (subst unat_mult_lem [THEN iffD1]) simp_all
  moreover have "unat (ucast x * ucast y :: u64) = unat x * unat y"
    using s \<open>unat x * unat y \<le> 65535 * 65535\<close>
    by (subst unat_mult_lem [THEN iffD1]) (simp_all add: unsigned_ucast_eq take_bit_eq_mod)
  ultimately show ?thesis
    using \<open>unat x * unat y \<le> 65535 * 65535\<close>
    by (intro word_unat_eq_iff [THEN iffD2]) (simp add: unsigned_ucast_eq take_bit_eq_mod)
qed

lemma digit_product:
  "(ucast (ucast (x AND 0xffff) * ucast (y AND 0xffff) :: u32) :: u64) = (x AND 0xffff) * (y AND 0xffff)" for x y :: u64
  unfolding ucast_product [OF digit16(1) digit16(1)] digit16(2) by (rule refl)

lemma digits16:
  fixes x :: u64
  shows "x = (x AND 0xffff) + 65536 * ((drop_bit 16 x AND 0xffff) + 65536 * ((drop_bit 32 x AND 0xffff) +
    65536 * (drop_bit 48 x AND 0xffff)))"
proof -
  have m: "(0xffff :: u64) = mask 16" by (simp add: mask_eq_exp_minus_1)
  have p: "push_bit 16 w = 65536 * w" for w :: u64 by (simp add: push_bit_eq_mult)
  have split: "w = (w AND 0xffff) + 65536 * drop_bit 16 w" for w :: u64
  proof -
    have "(w AND mask 16) + push_bit 16 (drop_bit 16 w) = (w AND mask 16) OR push_bit 16 (drop_bit 16 w)"
      by (intro disjunctive_add_eq_or bit_word_eqI) (auto simp: bit_simps)
    also have "\<dots> = w"
    proof (rule bit_word_eqI)
      fix n show "bit ((w AND mask 16) OR push_bit 16 (drop_bit 16 w)) n = bit w n" if "n < LENGTH(64)"
        using that by (cases "n < 16"; simp add: bit_simps)
    qed
    finally show ?thesis by (simp add: m p)
  qed
  have top: "drop_bit 48 x = drop_bit 48 x AND 0xffff"
    by (rule bit_word_eqI) (auto simp: m bit_simps dest: bit_imp_le_length)
  show ?thesis
    using split [of x] split [of "drop_bit 16 x"] split [of "drop_bit 32 x"] top
    by (simp add: drop_bit_drop_bit)
qed

text \<open>The sixteen-bit digits multiply into 32 bits without a carry, and what overflows is beyond \<open>2 ^ 64\<close>.\<close>

theorem mul64_multiplies: "mul64 x y = x * y"
proof -
  define a b c d where "a = x AND 0xffff" and "b = drop_bit 16 x AND 0xffff"
    and "c = drop_bit 32 x AND 0xffff" and "d = drop_bit 48 x AND 0xffff"
  define e f g h where "e = y AND 0xffff" and "f = drop_bit 16 y AND 0xffff"
    and "g = drop_bit 32 y AND 0xffff" and "h = drop_bit 48 y AND 0xffff"
  have x: "x = a + 65536 * (b + 65536 * (c + 65536 * d))"
    unfolding a_def b_def c_def d_def by (rule digits16)
  have y: "y = e + 65536 * (f + 65536 * (g + 65536 * h))"
    unfolding e_def f_def g_def h_def by (rule digits16)
  have p: "push_bit 16 w = 65536 * w" for w :: u64 by (simp add: push_bit_eq_mult)
  have "mul64 x y = 65536 * (65536 * (65536 * (d * e + c * f + b * g + a * h) + c * e + b * f + a * g) + b * e + a * f) + a * e"
    unfolding mul64_def Let_def digit_product p a_def b_def c_def d_def e_def f_def g_def h_def by (rule refl)
  moreover have "(a + k * (b + k * (c + k * d))) * (e + k * (f + k * (g + k * h))) =
      k * (k * (k * (d * e + c * f + b * g + a * h) + c * e + b * f + a * g) + b * e + a * f) + a * e +
      k * k * k * k * (b * h + c * g + d * f + k * (c * h + d * g) + k * k * (d * h))" for k
    by (simp add: algebra_simps)
  moreover have "(65536 * 65536 * 65536 * 65536 :: u64) = 0" by code_simp
  ultimately have "mul64 x y = (a + 65536 * (b + 65536 * (c + 65536 * d))) * (e + 65536 * (f + 65536 * (g + 65536 * h)))"
    by (simp only: mult_zero_left add_0_right)
  then show ?thesis by (simp only: flip: x y)
qed

text \<open>The generator: its seed is \<open>_seed\<close>, the result the pair of the number and the next seed.\<close>

definition rand_multiplier :: u64 where "rand_multiplier = 0x5DEECE66D"
definition rand_addend :: u64 where "rand_addend = 0xB"
definition rand_mask :: u64 where "rand_mask = push_bit 48 1 - 1"
definition rand_seed :: u64 where "rand_seed = 1"

definition rand_bits :: "nat \<Rightarrow> u64 \<Rightarrow> u32 \<times> u64" where
  "rand_bits bits seed =
     (let nextseed = (mul64 seed rand_multiplier + rand_addend) AND rand_mask;
          rbits = ucast (drop_bit 16 nextseed) :: u32
      in (drop_bit (32 - bits) rbits, nextseed))"

definition rand_short :: "u64 \<Rightarrow> u16 \<times> u64" where
  "rand_short seed = (let (r, seed) = rand_bits 15 seed in (ucast r, seed))"

definition rand_long :: "u64 \<Rightarrow> u32 \<times> u64" where "rand_long seed = rand_bits 32 seed"

theorem rand_is_the_generator:
  assumes "bits \<le> 32"
  shows "unat (snd (rand_bits bits seed)) = (unat seed * 0x5DEECE66D + 0xB) mod 2 ^ 48 \<and>
    unat (fst (rand_bits bits seed)) = (unat seed * 0x5DEECE66D + 0xB) mod 2 ^ 48 div 2 ^ (48 - bits)"
proof -
  let ?w = "seed * 0x5DEECE66D + 0xB"
  have m: "rand_mask = mask 48" by (simp add: rand_mask_def mask_eq_exp_minus_1)
  have "unat (?w AND mask 48) = unat ?w mod 2 ^ 48"
    by (simp add: unsigned_take_bit_eq take_bit_eq_mod unat_mod flip: take_bit_eq_mask)
  also have "unat ?w = (unat seed * 0x5DEECE66D + 0xB) mod 2 ^ 64"
    by (simp add: unat_word_ariths mod_simps)
  also have "\<dots> mod 2 ^ 48 = (unat seed * 0x5DEECE66D + 0xB) mod 2 ^ 48" by (simp add: mod_mod_cancel)
  finally have n: "unat (?w AND mask 48) = (unat seed * 0x5DEECE66D + 0xB) mod 2 ^ 48" .
  let ?n = "(unat seed * 0x5DEECE66D + 0xB) mod 2 ^ 48"
  define v where "v = ?w AND mask 48"
  have v: "unat v = ?n" using n by (simp add: v_def)
  have "?n div 2 ^ 16 < 2 ^ 32" by (simp add: less_mult_imp_div_less)
  then have "unat (ucast (drop_bit 16 v) :: u32) = ?n div 2 ^ 16"
    by (simp add: unsigned_ucast_eq take_bit_eq_mod unat_shr v)
  then have "unat (drop_bit (32 - bits) (ucast (drop_bit 16 v) :: u32)) = ?n div 2 ^ 16 div 2 ^ (32 - bits)"
    by (simp add: unat_shr)
  also have "\<dots> = ?n div 2 ^ (48 - bits)"
  proof -
    have "(2 :: nat) ^ 16 * 2 ^ (32 - bits) = 2 ^ (48 - bits)" using assms by (simp only: power_add [symmetric]) simp
    then show ?thesis by (simp only: div_mult2_eq [symmetric])
  qed
  finally show ?thesis
    using v by (simp add: rand_bits_def Let_def mul64_multiplies rand_multiplier_def rand_addend_def m flip: v_def)
qed

section \<open>Division with \<open>divl\<close>: \<open>shared/div64.c\<close>\<close>

text \<open>
  \<open>bsr\<close>: the index of the highest bit that is set. \<open>shrdl\<close> shifts the first operand right and fills
  it from the second; the processor takes a shift count modulo 32, and the macros add the case of 32.
\<close>

definition hard_bsr :: "u32 \<Rightarrow> nat" where "hard_bsr n = last (filter (bit n) [0..<32])"

definition shrd :: "u32 \<Rightarrow> u32 \<Rightarrow> nat \<Rightarrow> u32" where
  "shrd lo hi n = (let c = n mod 32 in if c = 0 then lo else drop_bit c lo OR push_bit (32 - c) hi)"

definition rshift64_32 :: "u32 \<Rightarrow> u32 \<Rightarrow> nat \<Rightarrow> u32" where
  "rshift64_32 x1 x0 n = (let x0 = shrd x0 x1 n in if bit n 5 then x1 else x0)"

definition rshift64 :: "u32 \<Rightarrow> u32 \<Rightarrow> nat \<Rightarrow> u32 \<times> u32" where
  "rshift64 x1 x0 n =
     (let x0 = shrd x0 x1 n; x1 = drop_bit (n mod 32) x1
      in if bit n 5 then (0, x1) else (x1, x0))"

text \<open>\<open>divl\<close>: quotient and remainder of \<open>x1:x0\<close>, or the divide exception.\<close>

definition div64_32 :: "u32 \<Rightarrow> u32 \<Rightarrow> u32 \<Rightarrow> (u32 \<times> u32) res" where
  "div64_32 x1 x0 y =
     (let n = unat x1 * 2 ^ 32 + unat x0
      in if y = 0 \<or> 2 ^ 32 \<le> n div unat y then Inl Divide_Error
         else Inr (of_nat (n div unat y), of_nat (n mod unat y)))"

text \<open>\<open>while (r >= y) { x0++; r -= y; }\<close>, with \<open>y \<noteq> 0\<close> where it is used.\<close>

function correct :: "u64 \<Rightarrow> u32 \<Rightarrow> u64 \<Rightarrow> (u32 \<times> u64) res" where
  "correct y x0 r =
     (if \<not> y \<le> r then Inr (x0, r)
      else if y = 0 then Inl No_Return
      else correct y (x0 + 1) (r - y))"
  by pat_completeness auto

termination
  by (relation "measure (\<lambda>(y, x0, r). unat r)")
     (auto simp: unat_sub word_le_nat_alt word_less_nat_alt simp flip: unat_eq_0 intro: diff_less)

declare correct.simps [simp del]

text \<open>The quotient, and the remainder that is stored through \<open>rem\<close>.\<close>

definition do_div64 :: "u64 \<Rightarrow> u64 \<Rightarrow> (u64 \<times> u64) res" where
  "do_div64 x y =
     (let y1 = ucast (drop_bit 32 y) :: u32; y0 = ucast (y AND 0xffffffff) :: u32;
          x1 = ucast (drop_bit 32 x) :: u32; x0 = ucast (x AND 0xffffffff) :: u32
      in if y1 \<noteq> 0 then
           let l = hard_bsr y1 + 1; y0 = rshift64_32 y1 y0 l; (x1, x0) = rshift64 x1 x0 l
           in bindE (div64_32 x1 x0 (y0 + 1)) (\<lambda>(x0, x1).
              bindE (correct y x0 (x - y * ucast x0)) (\<lambda>(x0, r). Inr (ucast x0, r)))
         else if x1 < y0 then
           bindE (div64_32 x1 x0 y0) (\<lambda>(x0, x1). Inr (ucast x0, ucast x1))
         else if y0 \<noteq> 0 then
           bindE (div64_32 0 x1 y0) (\<lambda>(x1, x2).
           bindE (div64_32 x2 x0 y0) (\<lambda>(x0, x2). Inr (push_bit 32 (ucast x1) + ucast x0, ucast x2)))
         else Inr (0, x))"

definition mod64 :: "u64 \<Rightarrow> u64 \<Rightarrow> u64 res" where
  "mod64 x y = bindE (do_div64 x y) (\<lambda>(q, r). Inr r)"

lemma hard_bsr_bounds:
  assumes "n \<noteq> 0"
  shows "2 ^ hard_bsr n \<le> unat n" and "unat n < 2 ^ Suc (hard_bsr n)" and "hard_bsr n < 32"
proof -
  let ?l = "filter (bit n) [0..<32]"
  have ne: "?l \<noteq> []"
  proof
    assume "?l = []"
    then have "\<not> bit n i" if "i < 32" for i using that by (simp add: filter_empty_conv del: upt_rec_numeral)
    then have "n = 0" by (intro bit_word_eqI) simp
    then show False using assms by simp
  qed
  have "hard_bsr n \<in> set ?l" unfolding hard_bsr_def by (rule last_in_set [OF ne])
  then have b: "bit n (hard_bsr n)" "hard_bsr n < 32" by (simp_all del: upt_rec_numeral)
  then show "hard_bsr n < 32" by simp
  have top: "i \<le> hard_bsr n" if "bit n i" for i
  proof -
    have "i < 32" using bit_imp_le_length [OF that] by simp
    then have "i \<in> set ?l" using that by (simp del: upt_rec_numeral)
    moreover have "sorted ?l" by (rule sorted_wrt_filter [OF sorted_upt])
    ultimately show ?thesis unfolding hard_bsr_def by (metis last_conv_nth ne in_set_conv_nth sorted_nth_mono
        diff_Suc_less diff_less length_greater_0_conv less_Suc_eq_le Suc_diff_1 One_nat_def)
  qed
  have "n AND mask (Suc (hard_bsr n)) = n"
    by (rule bit_word_eqI) (auto simp: bit_simps dest: top)
  then have "unat n = unat n mod 2 ^ Suc (hard_bsr n)"
    by (metis take_bit_eq_mask take_bit_eq_mod unsigned_take_bit_eq)
  then show "unat n < 2 ^ Suc (hard_bsr n)" by (metis mod_less_divisor zero_less_numeral zero_less_power)
  have "bit (unat n) (hard_bsr n)" using b(1) by (simp add: bit_unsigned_iff)
  then have "odd (unat n div 2 ^ hard_bsr n)" by (simp add: bit_iff_odd)
  then have "0 < unat n div 2 ^ hard_bsr n" by (cases "unat n div 2 ^ hard_bsr n") simp_all
  then show "2 ^ hard_bsr n \<le> unat n" by (simp add: div_greater_zero_iff)
qed

definition wide :: "u32 \<Rightarrow> u32 \<Rightarrow> u64" where "wide x1 x0 = push_bit 32 (ucast x1) OR ucast x0"

lemma unat_wide: "unat (wide x1 x0) = unat x1 * 2 ^ 32 + unat x0"
proof -
  have "wide x1 x0 = push_bit 32 (ucast x1) + ucast x0"
    unfolding wide_def by (rule disjunctive_add_eq_or [symmetric]) (rule bit_word_eqI, auto simp: bit_simps dest: bit_imp_le_length)
  moreover have "unat (push_bit 32 (ucast x1) :: u64) = unat x1 * 2 ^ 32"
    using unat_bound [of x1] by (simp add: push_bit_eq_mult unat_word_ariths unsigned_ucast_eq take_bit_eq_mod)
  moreover have "unat (ucast x0 :: u64) = unat x0"
    using unat_bound [of x0] by (simp add: unsigned_ucast_eq take_bit_eq_mod)
  moreover have "unat x1 * 2 ^ 32 + unat x0 < 2 ^ LENGTH(64)"
    using unat_bound [of x1] unat_bound [of x0] by simp
  ultimately show ?thesis by (simp only: unat_add_lem [THEN iffD1])
qed

lemma bit_5: "l < 32 \<Longrightarrow> \<not> bit l 5" "bit (32 :: nat) 5" for l :: nat
  by (simp_all add: bit_iff_odd)

lemma rshift64_32_shifts:
  assumes "l \<le> 32" shows "rshift64_32 x1 x0 l = ucast (drop_bit l (wide x1 x0))"
proof (rule bit_word_eqI)
  fix n assume n: "n < LENGTH(32)"
  then show "bit (rshift64_32 x1 x0 l) n = bit (ucast (drop_bit l (wide x1 x0)) :: u32) n"
  proof (cases "l = 32")
    case True
    then show ?thesis using n by (simp add: rshift64_32_def bit_5 wide_def bit_simps) (auto dest: bit_imp_le_length)
  next
    case False
    have "\<not> bit x1 (n + 32)" for n using bit_imp_le_length [of x1 "n + 32"] by auto
    then show ?thesis using n assms False
      by (cases "l = 0"; cases "n + l < 32";
          simp add: rshift64_32_def shrd_def bit_5 wide_def bit_simps Let_def;
          auto dest: bit_imp_le_length simp: add.commute)
  qed
qed

lemma rshift64_shifts:
  assumes "l \<le> 32" and "rshift64 x1 x0 l = (h1, h0)"
  shows "unat h1 * 2 ^ 32 + unat h0 = (unat x1 * 2 ^ 32 + unat x0) div 2 ^ l"
proof -
  let ?w = "wide x1 x0"
  have h0: "h0 = rshift64_32 x1 x0 l"
    using assms by (auto simp: rshift64_def rshift64_32_def Let_def bit_5 split: if_splits) 
       (metis assms(1) bit_5(1) drop_bit_0 id_apply le_neq_implies_less mod_self)
  have h1: "unat h1 = unat x1 div 2 ^ l"
  proof (cases "l = 32")
    case True
    then show ?thesis using assms(2) unat_bound [of x1] by (simp add: rshift64_def bit_5 Let_def bit_0)
  next
    case False
    then have "l < 32" using assms(1) by simp
    then show ?thesis using assms(2) by (auto simp: rshift64_def bit_5 Let_def unat_shr)
  qed
  have "unat h0 = unat ?w div 2 ^ l mod 2 ^ 32"
    by (simp add: h0 rshift64_32_shifts [OF assms(1)] unsigned_ucast_eq take_bit_eq_mod unat_shr)
  moreover have "unat ?w div 2 ^ l div 2 ^ 32 = unat h1"
  proof -
    have "unat ?w div 2 ^ l div 2 ^ 32 = unat ?w div 2 ^ 32 div 2 ^ l"
      by (simp only: div_mult2_eq [symmetric] mult.commute)
    also have "unat ?w div 2 ^ 32 = unat x1" using unat_bound [of x0] by (simp add: unat_wide)
    finally show ?thesis by (simp add: h1)
  qed
  ultimately have "unat h1 * 2 ^ 32 + unat h0 = unat ?w div 2 ^ l" by (metis div_mult_mod_eq)
  then show ?thesis by (simp add: unat_wide)
qed

lemma correct_ok:
  assumes "y \<noteq> 0"
  shows "correct y x0 r = Inr (x0 + of_nat (unat r div unat y), of_nat (unat r mod unat y))"
  using assms
proof (induction y x0 r rule: correct.induct)
  case (1 y x0 r)
  have y: "unat y \<noteq> 0" using 1(2) by (simp add: unat_eq_0)
  show ?case
  proof (cases "y \<le> r")
    case True
    then have le: "unat y \<le> unat r" by (simp add: word_le_nat_alt)
    have s: "unat (r - y) = unat r - unat y" using True by (rule unat_sub)
    have "unat r div unat y = Suc ((unat r - unat y) div unat y)" "unat r mod unat y = (unat r - unat y) mod unat y"
      using le y by (simp_all add: le_div_geq le_mod_geq)
    then show ?thesis using 1 True s by (subst correct.simps) (simp add: algebra_simps)
  next
    case False
    then have "unat r < unat y" by (simp add: word_le_nat_alt)
    then show ?thesis using False by (subst correct.simps) simp
  qed
qed

lemma halves: "unat x = unat (ucast (drop_bit 32 x) :: u32) * 2 ^ 32 + unat (ucast (x AND 0xffffffff) :: u32)"
  "unat (ucast (drop_bit 32 x) :: u32) = unat x div 2 ^ 32" for x :: u64
proof -
  have m: "(0xffffffff :: u64) = mask 32" by (simp add: mask_eq_exp_minus_1)
  have x: "unat x < 2 ^ 64" using unat_bound [of x] by simp
  then show h: "unat (ucast (drop_bit 32 x) :: u32) = unat x div 2 ^ 32"
    by (simp add: unsigned_ucast_eq take_bit_eq_mod unat_shr)
  have "unat (ucast (x AND 0xffffffff) :: u32) = unat x mod 2 ^ 32"
    by (simp add: m unsigned_ucast_eq unsigned_take_bit_eq take_bit_eq_mod unat_mod flip: take_bit_eq_mask)
  then show "unat x = unat (ucast (drop_bit 32 x) :: u32) * 2 ^ 32 + unat (ucast (x AND 0xffffffff) :: u32)"
    unfolding h by (simp only: div_mult_mod_eq)
qed

lemma div64_32_divides:
  assumes "unat x1 < unat y"
  shows "\<exists>q r. div64_32 x1 x0 y = Inr (q, r) \<and> unat q = (unat x1 * 2 ^ 32 + unat x0) div unat y \<and>
    unat r = (unat x1 * 2 ^ 32 + unat x0) mod unat y"
proof -
  let ?n = "unat x1 * 2 ^ 32 + unat x0"
  have y: "0 < unat y" using assms by simp
  have "?n < (unat x1 + 1) * 2 ^ 32" using unat_bound [of x0] by simp
  also have "\<dots> \<le> unat y * 2 ^ 32" using assms by (intro mult_le_mono1) simp
  finally have q: "?n div unat y < 2 ^ 32" by (simp add: div_less_iff_less_mult y mult.commute)
  have r: "?n mod unat y < 2 ^ 32" using mod_less_divisor [OF y, of ?n] unat_bound [of y] by simp
  have "y \<noteq> 0" using y by (simp add: unat_gt_0)
  then show ?thesis using q r unat_of_nat32 [OF q] unat_of_nat32 [OF r] by (simp add: div64_32_def Let_def)
qed

text \<open>The divisors whose 32 leading bits are all set: the estimate divides by \<open>y0 + 1 = 0\<close>.\<close>

definition leading_ones :: "u64 \<Rightarrow> bool" where
  "leading_ones y \<longleftrightarrow> drop_bit 32 y \<noteq> 0 \<and> drop_bit (hard_bsr (ucast (drop_bit 32 y)) + 1) y = 0xffffffff"

lemma estimate_below:
  fixes X Y y q :: nat
  assumes "y = Y div 2 ^ l" and "q = X div 2 ^ l div (y + 1)"
  shows "Y * q \<le> X"
proof -
  have "Y < (y + 1) * 2 ^ l" unfolding assms(1) by (metis Suc_eq_plus1 dividend_less_div_times mult.commute
      zero_less_numeral zero_less_power div_less_iff_less_mult lessI)
  then have "Y * q \<le> (y + 1) * 2 ^ l * q" by (intro mult_le_mono1) simp
  also have "\<dots> = (q * (y + 1)) * 2 ^ l" by (simp only: ac_simps)
  also have "\<dots> \<le> (X div 2 ^ l) * 2 ^ l" unfolding assms(2) by (intro mult_le_mono1 div_times_less_eq_dividend)
  also have "\<dots> \<le> X" by (rule div_times_less_eq_dividend)
  finally show ?thesis .
qed

text \<open>A divisor of more than 32 bits: the estimate, then its correction.\<close>

lemma wide_division:
  fixes x y :: u64
  defines "y1 \<equiv> ucast (drop_bit 32 y) :: u32" and "y0 \<equiv> ucast (y AND 0xffffffff) :: u32"
    and "x1 \<equiv> ucast (drop_bit 32 x) :: u32" and "x0 \<equiv> ucast (x AND 0xffffffff) :: u32"
  defines "l \<equiv> hard_bsr y1 + 1"
  assumes "y1 \<noteq> 0" and sh: "rshift64 x1 x0 l = (h1, h0)"
  shows "bindE (div64_32 h1 h0 (rshift64_32 y1 y0 l + 1)) (\<lambda>(x0, x1).
      bindE (correct y x0 (x - y * ucast x0)) (\<lambda>(x0, r). Inr (ucast x0, r))) =
    (if drop_bit l y = 0xffffffff then Inl Divide_Error else Inr (x div y, x mod y))"
proof -
  define z where "z = rshift64_32 y1 y0 l"
  note b = hard_bsr_bounds [OF \<open>y1 \<noteq> 0\<close>]
  have l: "1 \<le> l" "l \<le> 32" using b(3) by (simp_all add: l_def)
  have Y: "unat y = unat y1 * 2 ^ 32 + unat y0" "unat y1 = unat y div 2 ^ 32"
    unfolding y1_def y0_def by (rule halves)+
  have X: "unat x = unat x1 * 2 ^ 32 + unat x0" unfolding x1_def x0_def by (rule halves)
  have wy: "wide y1 y0 = y" by (rule word_unat_eq_iff [THEN iffD2]) (simp only: unat_wide Y(1))
  have y32: "unat y1 < 2 ^ l" "2 ^ (l - 1) \<le> unat y1" using b by (simp_all add: l_def)
  have "unat y < (unat y1 + 1) * 2 ^ 32" using Y(1) unat_bound [of y0] by simp
  also have "\<dots> \<le> 2 ^ l * 2 ^ 32" using y32(1) by (intro mult_le_mono1) simp
  finally have small: "unat y div 2 ^ l < 2 ^ 32" by (simp add: div_less_iff_less_mult mult.commute)
  have z: "unat z = unat y div 2 ^ l"
    using small by (simp add: z_def rshift64_32_shifts [OF l(2)] wy unsigned_ucast_eq take_bit_eq_mod unat_shr)
  have "2 ^ 31 * 2 ^ l = 2 ^ (l - 1) * (2 :: nat) ^ 32" using l(1) by (cases l) simp_all
  also have "\<dots> \<le> unat y" using y32(2) Y(1) by (metis mult_le_mono1 trans_le_add1)
  finally have big: "2 ^ 31 \<le> unat z" unfolding z by (simp add: less_eq_div_iff_mult_less_eq)
  have ones: "drop_bit l y = 0xffffffff \<longleftrightarrow> z = 0xffffffff"
    using z by (simp add: word_unat_eq_iff unat_shr)
  show ?thesis
  proof (cases "z = 0xffffffff")
    case True
    then have "div64_32 h1 h0 (z + 1) = Inl Divide_Error" by (simp add: div64_32_def Let_def)
    then show ?thesis using True ones by (simp add: z_def)
  next
    case False
    have "unat z \<noteq> 0xffffffff" using False by (simp add: word_unat_eq_iff)
    then have z1: "unat (z + 1) = unat z + 1" using unat_bound [of z] by (subst unat_add_lem [THEN iffD1]) simp_all
    have h: "unat h1 * 2 ^ 32 + unat h0 = unat x div 2 ^ l" using rshift64_shifts [OF l(2) sh] X by simp
    have "unat h1 < unat (z + 1)"
    proof -
      have "unat x < 2 ^ 64" using unat_bound [of x] by simp
      then have "unat x div 2 ^ l < 2 ^ 63"
        using l(1) by (cases l) (auto simp: div_less_iff_less_mult elim!: less_le_trans)
      then have "unat h1 * 2 ^ 32 < 2 ^ 31 * 2 ^ 32" using h by simp
      then have "unat h1 < 2 ^ 31" by simp
      then show ?thesis using big z1 by simp
    qed
    then obtain q r where q: "div64_32 h1 h0 (z + 1) = Inr (q, r)" "unat q = unat x div 2 ^ l div (unat z + 1)"
      using div64_32_divides [of h1 "z + 1" h0] h z1 by auto
    have le: "unat y * unat q \<le> unat x" by (rule estimate_below [OF z]) (simp add: q(2))
    have uq: "unat (ucast q :: u64) = unat q"
      using unat_bound [of q] by (simp add: unsigned_ucast_eq take_bit_eq_mod)
    have p: "unat (y * ucast q) = unat y * unat q"
      using le unat_bound [of x] uq by (subst unat_mult_lem [THEN iffD1]) simp_all
    have r: "unat (x - y * ucast q) = unat x - unat y * unat q"
      using le p by (subst unat_sub) (simp_all add: word_le_nat_alt)
    have y: "0 < unat y" using \<open>y1 \<noteq> 0\<close> Y by (simp add: unat_gt_0) (auto simp: word_unat_eq_iff)
    have quot: "unat q + (unat x - unat y * unat q) div unat y = unat x div unat y"
      "(unat x - unat y * unat q) mod unat y = unat x mod unat y"
    proof -
      obtain d where d: "unat x = d + unat q * unat y" using le by (metis le_add_diff_inverse2 mult.commute)
      then show "unat q + (unat x - unat y * unat q) div unat y = unat x div unat y"
        "(unat x - unat y * unat q) mod unat y = unat x mod unat y"
        using y by (simp_all add: mult.commute)
    qed
    have "unat x div unat y < 2 ^ 32"
    proof -
      have "1 \<le> unat y1" using y32(2) l(1) by (metis one_le_numeral one_le_power order.trans)
      then have "2 ^ 32 \<le> unat y" using Y(1) by simp
      then have "unat x < 2 ^ 32 * unat y" using unat_bound [of x] by simp
      then show ?thesis using y by (simp add: div_less_iff_less_mult)
    qed
    then have "unat (q + of_nat ((unat x - unat y * unat q) div unat y)) = unat x div unat y"
      using quot(1) unat_plus_of_nat [of q] by simp
    then have "ucast (q + of_nat ((unat x - unat y * unat q) div unat y)) = x div y"
      using \<open>unat x div unat y < 2 ^ 32\<close>
      by (intro word_unat_eq_iff [THEN iffD2]) (simp add: unsigned_ucast_eq take_bit_eq_mod unat_div)
    moreover have "of_nat ((unat x - unat y * unat q) mod unat y) = x mod y"
      unfolding quot(2) by (simp flip: unat_mod)
    moreover have "y \<noteq> 0" using y by (simp add: unat_gt_0)
    ultimately show ?thesis using False ones q(1) by (simp add: correct_ok r flip: z_def)
  qed
qed

lemma two_step_division:
  fixes x y :: u64
  defines "y0 \<equiv> ucast (y AND 0xffffffff) :: u32"
    and "x1 \<equiv> ucast (drop_bit 32 x) :: u32" and "x0 \<equiv> ucast (x AND 0xffffffff) :: u32"
  assumes pos: "0 < unat y0" and uy: "unat y0 = unat y"
  shows "bindE (div64_32 0 x1 y0) (\<lambda>(x1, x2). bindE (div64_32 x2 x0 y0) (\<lambda>(x0, x2).
      Inr (push_bit 32 (ucast x1) + ucast x0, ucast x2))) = Inr (x div y, x mod y)"
proof -
  have X: "unat x = unat x1 * 2 ^ 32 + unat x0" unfolding x1_def x0_def by (rule halves)
  obtain q1 r1 where q1: "div64_32 0 x1 y0 = Inr (q1, r1)" "unat q1 = unat x1 div unat y" "unat r1 = unat x1 mod unat y"
    using div64_32_divides [of 0 y0 x1] pos uy by auto
  have "unat r1 < unat y0" using q1(3) uy pos by simp
  then obtain q0 r0 where q0: "div64_32 r1 x0 y0 = Inr (q0, r0)"
    "unat q0 = (unat r1 * 2 ^ 32 + unat x0) div unat y" "unat r0 = (unat r1 * 2 ^ 32 + unat x0) mod unat y"
    using div64_32_divides uy by metis
  have "unat x = unat q1 * 2 ^ 32 * unat y + (unat r1 * 2 ^ 32 + unat x0)"
  proof -
    have "unat x1 = unat q1 * unat y + unat r1" using q1 by simp
    then show ?thesis using X by (simp add: algebra_simps)
  qed
  then have quot: "unat q1 * 2 ^ 32 + unat q0 = unat x div unat y" "unat r0 = unat x mod unat y"
    using q0 pos uy by simp_all
  have "push_bit 32 (ucast q1) + ucast q0 = wide q1 q0"
    unfolding wide_def by (rule disjunctive_add_eq_or) (rule bit_word_eqI, auto simp: bit_simps dest: bit_imp_le_length)
  also have "\<dots> = x div y" by (rule word_unat_eq_iff [THEN iffD2]) (simp only: unat_wide quot unat_div)
  finally have "push_bit 32 (ucast q1) + ucast q0 = x div y" .
  moreover have "ucast r0 = x mod y"
    using quot(2) unat_bound [of r0] by (simp add: word_unat_eq_iff unsigned_ucast_eq take_bit_eq_mod unat_mod)
  ultimately show ?thesis by (simp add: q1(1) q0(1))
qed

text \<open>
  C27. \<open>do_div64\<close> returns on every dividend and divisor, whatever the estimate was: its correction
  loop ends, and the result is the quotient and the remainder; for a divisor of zero it is 0 and the
  dividend. The one exception are the divisors whose 32 leading bits are all ones: then the estimate
  divides by zero and the processor faults.
\<close>

theorem do_div64_divides:
  "do_div64 x y =
     (if y = 0 then Inr (0, x)
      else if leading_ones y then Inl Divide_Error
      else Inr (x div y, x mod y))"
proof -
  let ?y1 = "ucast (drop_bit 32 y) :: u32" and ?y0 = "ucast (y AND 0xffffffff) :: u32"
  let ?x1 = "ucast (drop_bit 32 x) :: u32" and ?x0 = "ucast (x AND 0xffffffff) :: u32"
  note X = halves [of x] and Y = halves [of y]
  have y1: "?y1 = 0 \<longleftrightarrow> drop_bit 32 y = 0"
  proof -
    have "unat y div 2 ^ 32 < 2 ^ 32" using unat_bound [of y] by simp
    then show ?thesis using Y(2) by (simp add: word_unat_eq_iff unat_shr)
  qed
  show ?thesis
  proof (cases "?y1 = 0")
    case False
    obtain h1 h0 where h: "rshift64 ?x1 ?x0 (hard_bsr ?y1 + 1) = (h1, h0)" by (metis surj_pair)
    have "y \<noteq> 0" using False by auto
    then show ?thesis
      using wide_division [OF False h] False h y1 by (simp add: do_div64_def Let_def leading_ones_def)
  next
    case True
    then have uy: "unat ?y0 = unat y" using Y by simp
    have nl: "\<not> leading_ones y" using True y1 by (simp add: leading_ones_def)
    have result: "(of_nat (unat x div unat y), of_nat (unat x mod unat y)) = (x div y, x mod y)"
      by (simp flip: unat_div unat_mod)
    consider "y = 0" | "y \<noteq> 0" "?x1 < ?y0" | "y \<noteq> 0" "\<not> ?x1 < ?y0" by blast
    then show ?thesis
    proof cases
      case 1
      then show ?thesis by (simp add: do_div64_def Let_def)
    next
      case 2
      obtain q r where q: "div64_32 ?x1 ?x0 ?y0 = Inr (q, r)" "unat q = unat x div unat y" "unat r = unat x mod unat y"
        using div64_32_divides [of ?x1 ?y0 ?x0] 2(2) X(1) uy by (auto simp: word_less_nat_alt)
      have "ucast q = x div y" "ucast r = x mod y"
        using q(2,3) unat_bound [of q] unat_bound [of r]
        by (simp_all add: word_unat_eq_iff unsigned_ucast_eq take_bit_eq_mod unat_div unat_mod)
      then show ?thesis using 2 True nl q(1) by (simp add: do_div64_def Let_def)
    next
      case 3
      have "0 < unat ?y0" using 3(1) uy by (simp add: unat_gt_0)
      then have "?y0 \<noteq> 0" by (simp add: unat_gt_0)
      then show ?thesis using 3 True nl two_step_division [OF \<open>0 < unat ?y0\<close> uy] by (simp add: do_div64_def Let_def)
    qed
  qed
qed

end
