(* ===== verification/Syscalls.thy ===== *)
theory Syscalls
  imports Prelude
begin

text \<open>
  The way of a system call. The library of the applications (\<open>user/lib/syscall.c\<close>) puts the number
  and the arguments into registers and raises interrupt 49; \<open>syscall_isr\<close> (\<open>kernel/syscall_asm.S\<close>)
  pushes the registers, compares the number with \<open>num_syscalls\<close> and calls the entry of the table
  \<open>syscalls\<close> (\<open>kernel/syscall_handler.c\<close>), which finds the pushed registers where a C function expects
  its arguments. The model keeps the registers as a record, a kernel function as its name, and the
  words on the stack as a list. The theorems say that every call of the library reaches the function
  of its name with its arguments, and what happens to a number the table does not have.
\<close>

section \<open>The kernel's side\<close>

datatype kernel_fn =
    F_start | F_getpid | F_getprio | F_chprio | F_kill | F_waitpid | F_exit | F_cons_write
  | F_cons_read | F_cons_echo | F_pcount | F_pcreate | F_pdelete | F_preceive | F_preset | F_psend
  | F_clock_settings | F_current_clock | F_wait_clock | F_shm_create | F_shm_acquire | F_shm_release
  | F_halt | F_ps | F_change_color | F_no_impl

definition num_syscalls :: u32 where "num_syscalls = 34"

definition syscalls :: "kernel_fn list" where
  "syscalls =
     [F_start, F_getpid, F_getprio, F_chprio, F_kill, F_waitpid, F_exit, F_cons_write, F_cons_read, F_cons_echo,
      F_no_impl, F_no_impl, F_no_impl, F_no_impl, F_no_impl, F_no_impl, F_no_impl, F_no_impl,
      F_pcount, F_pcreate, F_pdelete, F_preceive, F_preset, F_psend, F_clock_settings, F_current_clock,
      F_wait_clock, F_no_impl, F_shm_create, F_shm_acquire, F_shm_release, F_halt, F_ps, F_change_color]"

record cpu =
  r_eax :: u32
  r_ebx :: u32
  r_ecx :: u32
  r_edx :: u32
  r_esi :: u32
  r_edi :: u32
  r_ebp :: u32

datatype entered =
    Calls kernel_fn "u32 list"   \<comment> \<open>the function, and the stack above its return address\<close>
  | Returns                      \<comment> \<open>the number is refused and the process goes on\<close>
  | Jumps u32                    \<comment> \<open>a jump through a word outside the table, so many bytes from its start\<close>

text \<open>\<open>jge\<close> compares signed numbers.\<close>

definition syscall_isr :: "cpu \<Rightarrow> entered" where
  "syscall_isr r =
     (let stack = [r_ebx r, r_ecx r, r_edx r, r_esi r, r_edi r, r_ebp r]
      in if sint num_syscalls \<le> sint (r_eax r) then Returns
         else if unat (r_eax r) < length syscalls then Calls (syscalls ! unat (r_eax r)) stack
         else Jumps (4 * r_eax r))"

section \<open>The library's side\<close>

definition def_syscall0 :: "u32 \<Rightarrow> cpu \<Rightarrow> cpu" where
  "def_syscall0 num r = r\<lparr>r_eax := num\<rparr>"

definition def_syscall1 :: "u32 \<Rightarrow> u32 \<Rightarrow> cpu \<Rightarrow> cpu" where
  "def_syscall1 num a r = r\<lparr>r_eax := num, r_ebx := a\<rparr>"

definition def_syscall2 :: "u32 \<Rightarrow> u32 \<Rightarrow> u32 \<Rightarrow> cpu \<Rightarrow> cpu" where
  "def_syscall2 num a b r = r\<lparr>r_eax := num, r_ebx := a, r_ecx := b\<rparr>"

definition def_syscall3 :: "u32 \<Rightarrow> u32 \<Rightarrow> u32 \<Rightarrow> u32 \<Rightarrow> cpu \<Rightarrow> cpu" where
  "def_syscall3 num a b c r = r\<lparr>r_eax := num, r_ebx := a, r_ecx := b, r_edx := c\<rparr>"

definition def_syscall4 :: "u32 \<Rightarrow> u32 \<Rightarrow> u32 \<Rightarrow> u32 \<Rightarrow> u32 \<Rightarrow> cpu \<Rightarrow> cpu" where
  "def_syscall4 num a b c d r = r\<lparr>r_eax := num, r_ebx := a, r_ecx := b, r_edx := c, r_esi := d\<rparr>"

definition lib_start where "lib_start name ssize prio arg = def_syscall4 0 name ssize prio arg"
definition lib_getpid where "lib_getpid = def_syscall0 1"
definition lib_getprio where "lib_getprio pid = def_syscall1 2 pid"
definition lib_chprio where "lib_chprio pid newprio = def_syscall2 3 pid newprio"
definition lib_kill where "lib_kill pid = def_syscall1 4 pid"
definition lib_waitpid where "lib_waitpid pid retvalp = def_syscall2 5 pid retvalp"
definition lib_exit where "lib_exit retval = def_syscall1 6 retval"
definition lib_cons_write where "lib_cons_write str n = def_syscall2 7 str n"
definition lib_cons_read where "lib_cons_read str n = def_syscall2 8 str n"
definition lib_cons_echo where "lib_cons_echo on = def_syscall1 9 on"
definition lib_pcount where "lib_pcount fid count = def_syscall2 18 fid count"
definition lib_pcreate where "lib_pcreate count = def_syscall1 19 count"
definition lib_pdelete where "lib_pdelete fid = def_syscall1 20 fid"
definition lib_preceive where "lib_preceive fid message = def_syscall2 21 fid message"
definition lib_preset where "lib_preset fid = def_syscall1 22 fid"
definition lib_psend where "lib_psend fid msg = def_syscall2 23 fid msg"
definition lib_clock_settings where "lib_clock_settings quartz ticks = def_syscall2 24 quartz ticks"
definition lib_current_clock where "lib_current_clock = def_syscall0 25"
definition lib_wait_clock where "lib_wait_clock clock = def_syscall1 26 clock"
definition lib_sys_info where "lib_sys_info = def_syscall0 27"
definition lib_shm_create where "lib_shm_create key = def_syscall1 28 key"
definition lib_shm_acquire where "lib_shm_acquire key = def_syscall1 29 key"
definition lib_shm_release where "lib_shm_release key = def_syscall1 30 key"
definition lib_halt where "lib_halt = def_syscall0 31"
definition lib_ps where "lib_ps = def_syscall0 32"
definition lib_change_color where "lib_change_color color = def_syscall1 33 (ucast (color :: u8))"

lemmas library = lib_start_def lib_getpid_def lib_getprio_def lib_chprio_def lib_kill_def lib_waitpid_def
  lib_exit_def lib_cons_write_def lib_cons_read_def lib_cons_echo_def lib_pcount_def lib_pcreate_def
  lib_pdelete_def lib_preceive_def lib_preset_def lib_psend_def lib_clock_settings_def
  lib_current_clock_def lib_wait_clock_def lib_sys_info_def lib_shm_create_def lib_shm_acquire_def
  lib_shm_release_def lib_halt_def lib_ps_def lib_change_color_def
  def_syscall0_def def_syscall1_def def_syscall2_def def_syscall3_def def_syscall4_def

definition called_fn :: "entered \<Rightarrow> kernel_fn option" where
  "called_fn e = (case e of Calls f s \<Rightarrow> Some f | _ \<Rightarrow> None)"

definition called_with :: "kernel_fn \<Rightarrow> u32 list \<Rightarrow> entered \<Rightarrow> bool" where
  "called_with f args e = (case e of Calls g s \<Rightarrow> g = f \<and> take (length args) s = args | _ \<Rightarrow> False)"

text \<open>
  C28. Every call of the library reaches the function of its name, with the arguments it was given in
  the order of its parameters, whatever the other registers hold; the one call the kernel does not
  have, \<open>sys_info\<close>, reaches the function that says so.
\<close>

theorem library_calls_arrive:
  "called_with F_start [a, b, c, d] (syscall_isr (lib_start a b c d r)) \<and>
   called_with F_getpid [] (syscall_isr (lib_getpid r)) \<and>
   called_with F_getprio [a] (syscall_isr (lib_getprio a r)) \<and>
   called_with F_chprio [a, b] (syscall_isr (lib_chprio a b r)) \<and>
   called_with F_kill [a] (syscall_isr (lib_kill a r)) \<and>
   called_with F_waitpid [a, b] (syscall_isr (lib_waitpid a b r)) \<and>
   called_with F_exit [a] (syscall_isr (lib_exit a r)) \<and>
   called_with F_cons_write [a, b] (syscall_isr (lib_cons_write a b r)) \<and>
   called_with F_cons_read [a, b] (syscall_isr (lib_cons_read a b r)) \<and>
   called_with F_cons_echo [a] (syscall_isr (lib_cons_echo a r)) \<and>
   called_with F_pcount [a, b] (syscall_isr (lib_pcount a b r)) \<and>
   called_with F_pcreate [a] (syscall_isr (lib_pcreate a r)) \<and>
   called_with F_pdelete [a] (syscall_isr (lib_pdelete a r)) \<and>
   called_with F_preceive [a, b] (syscall_isr (lib_preceive a b r)) \<and>
   called_with F_preset [a] (syscall_isr (lib_preset a r)) \<and>
   called_with F_psend [a, b] (syscall_isr (lib_psend a b r)) \<and>
   called_with F_clock_settings [a, b] (syscall_isr (lib_clock_settings a b r)) \<and>
   called_with F_current_clock [] (syscall_isr (lib_current_clock r)) \<and>
   called_with F_wait_clock [a] (syscall_isr (lib_wait_clock a r)) \<and>
   called_with F_no_impl [] (syscall_isr (lib_sys_info r)) \<and>
   called_with F_shm_create [a] (syscall_isr (lib_shm_create a r)) \<and>
   called_with F_shm_acquire [a] (syscall_isr (lib_shm_acquire a r)) \<and>
   called_with F_shm_release [a] (syscall_isr (lib_shm_release a r)) \<and>
   called_with F_halt [] (syscall_isr (lib_halt r)) \<and>
   called_with F_ps [] (syscall_isr (lib_ps r)) \<and>
   called_with F_change_color [ucast col] (syscall_isr (lib_change_color col r))"
  unfolding called_with_def library by (simp add: syscall_isr_def num_syscalls_def syscalls_def Let_def)

text \<open>
  The guard of the table compares signed numbers. A number from 34 to \<open>2 ^ 31 - 1\<close> is refused, but a
  process that raises the interrupt with a number from \<open>2 ^ 31\<close> on makes the kernel jump through a word
  outside the table.
\<close>

theorem negative_number_jumps:
  "syscall_isr r =
     (if r_eax r < 34 then Calls (syscalls ! unat (r_eax r)) [r_ebx r, r_ecx r, r_edx r, r_esi r, r_edi r, r_ebp r]
      else if unat (r_eax r) < 2 ^ 31 then Returns
      else Jumps (4 * r_eax r))"
proof -
  have n: "sint num_syscalls = 34" "length syscalls = 34" by (simp_all add: num_syscalls_def syscalls_def)
  show ?thesis
  proof (cases "unat (r_eax r) < 2 ^ 31")
    case True
    then have "sint (r_eax r) = int (unat (r_eax r))" using sint_nonneg by blast
    then have "34 \<le> sint (r_eax r) \<longleftrightarrow> \<not> unat (r_eax r) < 34" by linarith
    then show ?thesis using True n by (simp add: syscall_isr_def Let_def word_less_nat_alt)
  next
    case False
    then have "\<not> 0 \<le> sint (r_eax r)" using sint_nonneg(1) by blast
    then have "sint (r_eax r) < 34" by linarith
    then show ?thesis using False n by (simp add: syscall_isr_def Let_def word_less_nat_alt)
  qed
qed

end
