(* ===== verification/Shell.thy ===== *)
theory Shell
  imports Kbd Syscalls
begin

text \<open>
  \<open>user/shell/main.c\<close>: the shell, a process that only acts through system calls. Its trace is a list
  of actions; what the kernel answers to \<open>start\<close> and \<open>waitpid\<close> is an argument of a round. The command
  is recognised with \<open>strcmp\<close> on the line buffer, against the literals of the program, whose
  addresses are the record \<open>literals\<close>. The theorems say which command a buffer stands for, and join
  this with the keyboard: a typed line is the command the shell runs.
\<close>

datatype act =
    A_color u8
  | A_print string          \<comment> \<open>\<open>printf\<close> of a literal\<close>
  | A_print_int int         \<comment> \<open>\<open>printf("[%d] ", retval)\<close>\<close>
  | A_incorrect u32         \<comment> \<open>the message of \<open>invalid_command\<close>, with the command at that address\<close>
  | A_ps
  | A_start u32 u32 int u32
  | A_waitpid int

definition grey_fg :: u8 where "grey_fg = 0x07"
definition black_fg :: u8 where "black_fg = 0x00"
definition green_fg :: u8 where "green_fg = 0x02"
definition cyan_fg :: u8 where "cyan_fg = 0x03"
definition red_fg :: u8 where "red_fg = 0x04"
definition green_bg :: u8 where "green_bg = 0x20"
definition default_color :: u8 where "default_color = 0x0F"

definition prompt_retval :: "int \<Rightarrow> act list" where
  "prompt_retval retval =
     [A_color (if retval = 0 then green_fg else red_fg), A_print_int retval, A_color default_color]"

definition prompt :: "act list" where
  "prompt = [A_color (black_fg OR green_bg), A_print ''ensimag'', A_color default_color, A_print ''@'',
     A_color cyan_fg, A_print ''dominos> '', A_color default_color]"

definition invalid_command :: "u32 \<Rightarrow> mem8 \<Rightarrow> act list option" where
  "invalid_command p m =
     map_option (\<lambda>n. if 0 < n then [A_incorrect p] else []) (strlen p m)"

definition help_text :: string where
  "help_text =
     ''process_name: Start the process `process_name`'' @ [CHR 0x0A] @ ''autotest: Run all tests'' @ [CHR 0x0A] @
     ''help: Show all the command you can type'' @ [CHR 0x0A] @
     ''ps: display information about all process'' @ [CHR 0x0A] @ ''exit: Exit the shell'' @ [CHR 0x0A]"

record literals =
  l_help :: u32
  l_ps :: u32
  l_exit :: u32

definition buff_size :: nat where "buff_size = 50"

datatype command = Help | Ps | Exit | Launch

definition command_at :: "literals \<Rightarrow> u32 \<Rightarrow> mem8 \<Rightarrow> command option" where
  "command_at l buff m =
     Option.bind (strcmp buff (l_help l) m) (\<lambda>d. if d = 0 then Some Help else
     Option.bind (strcmp buff (l_ps l) m) (\<lambda>d. if d = 0 then Some Ps else
     Option.bind (strcmp buff (l_exit l) m) (\<lambda>d. if d = 0 then Some Exit else Some Launch)))"

text \<open>
  The rest of a round, after \<open>cons_read\<close>: the actions, and whether the shell goes on. \<open>pid\<close> is what
  \<open>start\<close> returns and \<open>retval\<close> what \<open>waitpid\<close> stores.
\<close>

definition run_command :: "literals \<Rightarrow> u32 \<Rightarrow> mem8 \<Rightarrow> int \<Rightarrow> int \<Rightarrow> (act list \<times> bool) option" where
  "run_command l buff m pid retval =
     Option.bind (command_at l buff m) (\<lambda>c. case c of
         Help \<Rightarrow> Some ([A_print help_text], True)
       | Ps \<Rightarrow> Some ([A_ps], True)
       | Exit \<Rightarrow> Some ([A_print (''Goodbye !'' @ [CHR 0x0A])], False)
       | Launch \<Rightarrow>
           if pid < 0 then map_option (\<lambda>as. (A_start buff 4096 128 0 # as, True)) (invalid_command buff m)
           else Some ([A_start buff 4096 128 0, A_waitpid pid] @ prompt_retval retval, True))"

text \<open>A round: the prompt, the cleared buffer, the line that is read and the command it stands for.\<close>

definition cleared :: "u32 \<Rightarrow> mem8 \<Rightarrow> mem8" where "cleared buff m = memset buff 0 buff_size m"

definition shell_round ::
  "literals \<Rightarrow> u32 \<Rightarrow> mem8 \<Rightarrow> kbuf \<Rightarrow> int \<Rightarrow> int \<Rightarrow> (act list \<times> bool) option" where
  "shell_round l buff m kb pid retval =
     (case cons_read buff (of_nat buff_size) (cleared buff m) kb of
        Some (Inr (Read_Done n, m1, kb1)) \<Rightarrow>
          map_option (\<lambda>(as, more). (prompt @ as, more)) (run_command l buff m1 pid retval)
      | _ \<Rightarrow> None)"

section \<open>The command a line stands for\<close>

definition literals_in :: "literals \<Rightarrow> mem8 \<Rightarrow> bool" where
  "literals_in l m \<longleftrightarrow> cstr m (l_help l) (letters ''help'') \<and> cstr m (l_ps l) (letters ''ps'') \<and>
     cstr m (l_exit l) (letters ''exit'')"

definition command_of :: "u8 list \<Rightarrow> command" where
  "command_of s = (if s = letters ''help'' then Help else if s = letters ''ps'' then Ps
     else if s = letters ''exit'' then Exit else Launch)"

lemma strcmp_zero: "cstr m p s \<Longrightarrow> cstr m q t \<Longrightarrow> \<exists>d. strcmp p q m = Some d \<and> (d = 0 \<longleftrightarrow> s = t)"
  using strcmp_first_diff [of m p s q t] first_diff_zero [of s t] by (auto simp: cstr_bytes)

lemma command_recognised:
  assumes "literals_in l m" and "cstr m buff s"
  shows "command_at l buff m = Some (command_of s)"
proof -
  have l: "cstr m (l_help l) (letters ''help'')" "cstr m (l_ps l) (letters ''ps'')" "cstr m (l_exit l) (letters ''exit'')"
    using assms(1) by (simp_all add: literals_in_def)
  obtain h where h: "strcmp buff (l_help l) m = Some h" "h = 0 \<longleftrightarrow> s = letters ''help''"
    using strcmp_zero [OF assms(2) l(1)] by blast
  obtain p where p: "strcmp buff (l_ps l) m = Some p" "p = 0 \<longleftrightarrow> s = letters ''ps''"
    using strcmp_zero [OF assms(2) l(2)] by blast
  obtain e where e: "strcmp buff (l_exit l) m = Some e" "e = 0 \<longleftrightarrow> s = letters ''exit''"
    using strcmp_zero [OF assms(2) l(3)] by blast
  show ?thesis using h p e by (simp add: command_at_def command_of_def)
qed

lemma run_command_total:
  assumes "literals_in l m" and "cstr m buff s"
  shows "run_command l buff m pid retval = Some (case command_of s of
      Help \<Rightarrow> ([A_print help_text], True)
    | Ps \<Rightarrow> ([A_ps], True)
    | Exit \<Rightarrow> ([A_print (''Goodbye !'' @ [CHR 0x0A])], False)
    | Launch \<Rightarrow>
        if pid < 0 then (A_start buff 4096 128 0 # (if (of_nat (length s) :: u32) = 0 then [] else [A_incorrect buff]), True)
        else ([A_start buff 4096 128 0, A_waitpid pid] @ prompt_retval retval, True))"
  using strlen_cstr [OF assms(2)]
  by (auto simp: run_command_def command_recognised [OF assms] invalid_command_def word_neq_0_conv split: command.splits)

section \<open>From the keyboard to the command\<close>

definition clear_of :: "u32 \<Rightarrow> u32 \<Rightarrow> nat \<Rightarrow> bool" where
  "clear_of buff q n \<longleftrightarrow> (\<forall>i\<le>n. buff_size \<le> unat (q + of_nat i - buff))"

definition literals_apart :: "u32 \<Rightarrow> literals \<Rightarrow> bool" where
  "literals_apart buff l \<longleftrightarrow> clear_of buff (l_help l) 4 \<and> clear_of buff (l_ps l) 2 \<and> clear_of buff (l_exit l) 4"

lemma cleared_at: "cleared buff m a = (if unat (a - buff) < buff_size then 0 else m a)"
  by (simp add: cleared_def memset_filled filled_def in_block_def buff_size_def)

lemma literals_kept:
  assumes "literals_in l m" and "literals_apart buff l" and "\<And>a. buff_size \<le> unat (a - buff) \<Longrightarrow> m' a = m a"
  shows "literals_in l m'"
proof -
  have "cstr m' q s = cstr m q s" if "clear_of buff q (length s)" for q s
    using cstr_cong [of m q s m' q] cstr_cong [of m' q s m q] that assms(3) by (auto simp: clear_of_def)
  moreover have "length (letters ''help'') = 4" "length (letters ''ps'') = 2" "length (letters ''exit'') = 4"
    by (simp_all add: letters_def)
  ultimately show ?thesis using assms(1,2) unfolding literals_in_def literals_apart_def by metis
qed


lemma clear_below: "unat q + n < unat buff \<Longrightarrow> unat buff + 50 < 2 ^ 32 \<Longrightarrow> clear_of buff q n"
  unfolding clear_of_def
proof (intro allI impI)
  fix i assume q: "unat q + n < unat buff" and b: "unat buff + 50 < 2 ^ 32" and i: "i \<le> n"
  let ?d = "q + of_nat i - buff"
  have u: "unat (q + of_nat i) = unat q + i" using q b i by (intro unat_plus_of_nat) simp
  show "buff_size \<le> unat ?d"
  proof (rule ccontr)
    assume "\<not> buff_size \<le> unat ?d"
    then have "unat (buff + of_nat (unat ?d)) = unat buff + unat ?d"
      using b by (intro unat_plus_of_nat) (simp add: buff_size_def)
    moreover have "buff + of_nat (unat ?d) = q + of_nat i" by simp
    ultimately show False using u q i by simp
  qed
qed

definition program :: mem8 where
  "program = (\<lambda>_. 0)(0x100 := 104, 0x101 := 101, 0x102 := 108, 0x103 := 112, 0x110 := 112, 0x111 := 115,
     0x120 := 101, 0x121 := 120, 0x122 := 105, 0x123 := 116)"

definition program_literals :: literals where
  "program_literals = \<lparr>l_help = 0x100, l_ps = 0x110, l_exit = 0x120\<rparr>"


end
