(* ===== verification/EarlyMM.thy ===== *)
theory EarlyMM
  imports Paging
begin

text \<open>
  \<open>kernel/boot/early_mm.c\<close>: the first page directory, built before paging is switched on, an
  identity mapping of the first 256 MB in which page 0 is absent and the code and the constants of
  the kernel are read-only. The addresses come from the linker script \<open>kernel.lds\<close>: they are a
  record of symbols here, \<open>symbols_ok\<close> says how the script lays the sections out, and the start-up
  code of \<open>crt0.S\<close> provides the two arrays \<open>pgdir\<close> and \<open>pgtab\<close>. What the processor makes of the
  result is read off with \<open>mmu\<close>, as for the directories of \<open>paging.c\<close>.
\<close>

record symbols =
  lds_start :: u32
  text_start :: u32
  text_end :: u32
  multiboot_start :: u32
  multiboot_end :: u32
  bootstrap_stack_start :: u32
  bootstrap_stack_end :: u32
  rodata_start :: u32
  rodata_end :: u32
  data_start :: u32
  data_end :: u32
  bss_start :: u32
  bss_end :: u32
  lds_end :: u32
  mem_end :: u32

text \<open>An assertion that fails halts the machine, in a loop.\<close>

definition assert_aligned :: "u32 \<Rightarrow> unit res" where
  "assert_aligned symbol = (if symbol AND 0xFFFFF000 \<noteq> symbol then Inl No_Return else Inr ())"

definition assert_consistent :: "u32 \<Rightarrow> u32 \<Rightarrow> unit res" where
  "assert_consistent start stop = (if sint (stop - start) < 4096 then Inl No_Return else Inr ())"

definition assert_section :: "u32 \<Rightarrow> u32 \<Rightarrow> unit res" where
  "assert_section start stop =
     bindE (assert_aligned start) (\<lambda>_. bindE (assert_aligned stop) (\<lambda>_. assert_consistent start stop))"

definition early_mm_check :: "symbols \<Rightarrow> unit res" where
  "early_mm_check s =
     bindE (assert_aligned (lds_start s)) (\<lambda>_.
     bindE (assert_section (text_start s) (text_end s)) (\<lambda>_.
     bindE (assert_section (multiboot_start s) (multiboot_end s)) (\<lambda>_.
     bindE (assert_section (bootstrap_stack_start s) (bootstrap_stack_end s)) (\<lambda>_.
     bindE (assert_section (rodata_start s) (rodata_end s)) (\<lambda>_.
     bindE (assert_section (data_start s) (data_end s)) (\<lambda>_.
     bindE (assert_section (data_start s) (data_end s)) (\<lambda>_.
       assert_consistent (lds_start s) (lds_end s))))))))"

definition page_dir_flags :: u32 where "page_dir_flags = 3"
definition page_table_ro :: u32 where "page_table_ro = 1"
definition page_table_rw :: u32 where "page_table_rw = 3"

definition early_mm_fill_pgdir :: "u32 \<Rightarrow> u32 \<Rightarrow> nat \<Rightarrow> pmem \<Rightarrow> pmem" where
  "early_mm_fill_pgdir pagedir pagetab count m =
     fold (\<lambda>i. set_entry pagedir (of_nat i) 0) [count..<1024]
       (fold (\<lambda>i. set_entry pagedir (of_nat i) ((pagetab + of_nat i * 0x1000) OR page_dir_flags)) [0..<count] m)"

text \<open>
  The loop of \<open>early_mm_map_region\<close>. An address that wraps is the last of its residue class below
  \<open>2 ^ 32\<close> and lies below the end, so every later one does too and the loop never stops.
\<close>

function early_mm_map_region :: "u32 \<Rightarrow> u32 \<Rightarrow> u32 \<Rightarrow> u32 \<Rightarrow> pmem \<Rightarrow> pmem res" where
  "early_mm_map_region pdir address stop flags m =
     (if \<not> address < stop then Inr m
      else let ptable = entry pdir (pd_index address) m AND 0xFFFFF000;
               m1 = set_entry ptable (pt_index address) ((address AND 0xFFFFF000) OR flags) m
        in if address + 4096 < address then Inl No_Return
           else early_mm_map_region pdir (address + 4096) stop flags m1)"
  by pat_completeness auto

termination
proof (relation "measure (\<lambda>(pdir, address, stop, flags, m). 2 ^ 32 - unat address)", goal_cases)
  case (2 pdir address stop flags m)
  then have "unat (address + 4096) = unat address + 4096" by (subst unat_add_no_wrap) simp_all
  moreover have "unat address < 2 ^ 32" using unat_bound [of address] by simp
  ultimately show ?case by simp
qed simp

declare early_mm_map_region.simps [simp del]

definition early_mm_map_kernel :: "u32 \<Rightarrow> u32 \<Rightarrow> symbols \<Rightarrow> pmem \<Rightarrow> pmem res" where
  "early_mm_map_kernel pgdir pgtab s m =
     foldE (\<lambda>(start, stop, flags). early_mm_map_region pgdir start stop flags)
       [(4096, lds_start s, page_table_rw),
        (lds_start s, text_start s, page_table_rw),
        (text_start s, text_end s, page_table_ro),
        (multiboot_start s, multiboot_end s, page_table_ro),
        (rodata_start s, rodata_end s, page_table_ro),
        (bootstrap_stack_start s, bootstrap_stack_end s, page_table_rw),
        (data_start s, data_end s, page_table_rw),
        (bss_start s, bss_end s, page_table_rw),
        (lds_end s, mem_end s, page_table_rw)]
       (early_mm_fill_pgdir pgdir pgtab 64 (zero_mem pgtab (4096 * 64) m))"

section \<open>What the linker script and the start-up code provide\<close>

definition symbols_ok :: "symbols \<Rightarrow> bool" where
  "symbols_ok s \<longleftrightarrow>
     list_all page_aligned [lds_start s, text_start s, text_end s, multiboot_start s, multiboot_end s,
       bootstrap_stack_start s, bootstrap_stack_end s, rodata_start s, rodata_end s, data_start s,
       data_end s, bss_start s, bss_end s] \<and>
     4096 \<le> lds_start s \<and> lds_start s \<le> text_start s \<and> text_start s \<le> text_end s \<and>
     multiboot_start s = text_end s \<and> multiboot_start s \<le> multiboot_end s \<and>
     bootstrap_stack_start s = multiboot_end s \<and> bootstrap_stack_start s \<le> bootstrap_stack_end s \<and>
     rodata_start s = bootstrap_stack_end s \<and> rodata_start s \<le> rodata_end s \<and>
     data_start s = rodata_end s \<and> data_start s \<le> data_end s \<and>
     bss_start s = data_end s \<and> bss_start s \<le> lds_end s \<and> lds_end s \<le> bss_end s \<and>
     bss_end s \<le> mem_end s \<and> mem_end s = 0x10000000"

definition boot_tables :: "u32 \<Rightarrow> u32 \<Rightarrow> bool" where
  "boot_tables pgdir pgtab \<longleftrightarrow> page_aligned pgdir \<and> page_aligned pgtab \<and>
     unat pgtab + 64 * 4096 \<le> 2 ^ 32 \<and> \<not> (unat pgtab \<le> unat pgdir \<and> unat pgdir < unat pgtab + 64 * 4096)"

section \<open>The mapping\<close>

definition early_dir :: "u32 \<Rightarrow> u32 \<Rightarrow> pmem \<Rightarrow> bool" where
  "early_dir pgdir pgtab m \<longleftrightarrow> (\<forall>i<1024. entry pgdir (of_nat i) m =
     (if i < 64 then (pgtab + of_nat i * 0x1000) OR page_dir_flags else 0))"

lemma boot_table:
  assumes "boot_tables pgdir pgtab" and "i < 64"
  shows "unat (pgtab + of_nat i * 0x1000) = unat pgtab + i * 4096"
    and "page_aligned (pgtab + of_nat i * 0x1000)" and "pgtab + of_nat i * 0x1000 \<noteq> pgdir"
proof -
  have "(of_nat i * 0x1000 :: u32) = of_nat (i * 4096)" by simp
  then show u: "unat (pgtab + of_nat i * 0x1000) = unat pgtab + i * 4096"
    using assms unat_plus_of_nat [of pgtab "i * 4096"] by (simp add: boot_tables_def)
  show "page_aligned (pgtab + of_nat i * 0x1000)"
    using assms(1) unfolding page_aligned_def u boot_tables_def by (metis dvd_add dvd_triv_right)
  show "pgtab + of_nat i * 0x1000 \<noteq> pgdir"
    using assms u by (auto simp: boot_tables_def)
qed

lemma page_dir_flags_low: "e OR page_dir_flags = e OR 2 OR pg_present"
proof -
  have "(3 :: u32) = 2 OR 1" by code_simp
  then show ?thesis by (simp add: page_dir_flags_def pg_present_def or.assoc)
qed

lemma early_entry:
  assumes "boot_tables pgdir pgtab" and "early_dir pgdir pgtab m" and "i < 64"
  shows "is_present (entry pgdir (of_nat i) m)"
    and "table_addr (entry pgdir (of_nat i) m) = pgtab + of_nat i * 0x1000"
proof -
  have e: "entry pgdir (of_nat i) m = (pgtab + of_nat i * 0x1000) OR 2 OR pg_present"
    using assms(2,3) by (simp add: early_dir_def page_dir_flags_low)
  show "is_present (entry pgdir (of_nat i) m)" by (simp add: e)
  show "table_addr (entry pgdir (of_nat i) m) = pgtab + of_nat i * 0x1000"
    unfolding e by (rule table_addr_entry [OF boot_table(2) [OF assms(1,3)]]) (simp add: table_addr_def)
qed

lemma of_nat_index: "i < 1024 \<Longrightarrow> (of_nat i :: u32) < 1024"
  by (simp add: word_less_nat_alt unat_of_nat32)

lemma entry_fill:
  assumes "page_aligned dir" and "b \<le> 1024"
  shows "i < 1024 \<Longrightarrow> entry dir (of_nat i) (fold (\<lambda>i. set_entry dir (of_nat i) (f i)) [a..<b] m) =
      (if a \<le> i \<and> i < b then f i else entry dir (of_nat i) m)"
    and "page_aligned t \<Longrightarrow> t \<noteq> dir \<Longrightarrow> j < 1024 \<Longrightarrow>
      entry t j (fold (\<lambda>i. set_entry dir (of_nat i) (f i)) [a..<b] m) = entry t j m"
  using assms
proof (induction b)
  case (Suc b)
  { case 1 then show ?case using Suc
      by (auto simp: entry_set_entry of_nat_index of_nat32_inj less_Suc_eq) }
  { case 2 then show ?case using Suc by (auto simp: entry_set_entry of_nat_index) }
qed auto

lemma filled_dir:
  assumes "boot_tables pgdir pgtab"
  shows "early_dir pgdir pgtab (early_mm_fill_pgdir pgdir pgtab 64 m)"
  using assms by (simp add: early_dir_def early_mm_fill_pgdir_def entry_fill(1) boot_tables_def del: upt_rec_numeral)

lemma table_cleared:
  assumes b: "boot_tables pgdir pgtab" and i: "i < 64" and j: "j < 1024"
  shows "entry (pgtab + of_nat i * 0x1000) j (zero_mem pgtab (4096 * 64) m) = 0"
proof -
  have u: "unat j < 1024" using j by (simp add: word_less_nat_alt)
  have "(of_nat i * 0x1000 + 4 * j :: u32) = of_nat (i * 4096 + 4 * unat j)" by simp
  moreover have "unat (of_nat (i * 4096 + 4 * unat j) :: u32) = i * 4096 + 4 * unat j"
    using i u by (intro unat_of_nat32) simp
  ultimately have "unat (of_nat i * 0x1000 + 4 * j :: u32) < 4096 * 64" using i u by simp
  then have "pgtab + of_nat i * 0x1000 + 4 * j - pgtab < 4096 * 64" by (simp add: word_less_nat_alt add.assoc)
  then show ?thesis by (simp add: entry_def zero_mem_def)
qed

lemma filled_unmapped:
  assumes b: "boot_tables pgdir pgtab"
  shows "mmu (early_mm_fill_pgdir pgdir pgtab 64 (zero_mem pgtab (4096 * 64) m)) pgdir a = None"
proof -
  let ?m = "early_mm_fill_pgdir pgdir pgtab 64 (zero_mem pgtab (4096 * 64) m)"
  define i where "i = unat (pd_index a)"
  have i: "i < 1024" "pd_index a = of_nat i"
    using pd_index_bound [of a] by (simp_all add: i_def word_less_nat_alt)
  have d: "early_dir pgdir pgtab ?m" by (rule filled_dir [OF b])
  show ?thesis
  proof (cases "i < 64")
    case True
    note t = boot_table [OF b True]
    have "entry (pgtab + of_nat i * 0x1000) (pt_index a) ?m = 0"
      using b t table_cleared [OF b True, of "pt_index a" m]
      by (simp add: early_mm_fill_pgdir_def entry_fill(2) boot_tables_def del: upt_rec_numeral)
    then show ?thesis using early_entry [OF b d True] by (simp add: mmu_def i(2) Let_def)
  next
    case False
    then have "entry pgdir (pd_index a) ?m = 0" using d i by (simp add: early_dir_def)
    then show ?thesis by (simp add: mmu_def)
  qed
qed

text \<open>One turn of the loop maps the page of its address.\<close>

lemma early_page:
  assumes b: "boot_tables pgdir pgtab" and d: "early_dir pgdir pgtab m" and v: "unat v < 0x10000000"
    and m1: "m1 = set_entry (table_addr (entry pgdir (pd_index v) m)) (pt_index v) (table_addr v OR flags) m"
    and fl: "flags = flags' OR pg_present"
  shows "early_dir pgdir pgtab m1"
    and "mmu m1 pgdir a = (if page_of a = page_of v then Some (table_addr v OR flags) else mmu m pgdir a)"
proof -
  define i where "i = unat (pd_index v)"
  have i: "i < 64" "pd_index v = of_nat i"
    using v by (simp add: i_def pd_index_def unat_shr) (simp add: i_def)
  note e = early_entry [OF b d i(1)] and t = boot_table [OF b i(1)]
  have pd: "page_aligned pgdir" using b by (simp add: boot_tables_def)
  have dir: "entry pgdir j m1 = entry pgdir j m" if "j < 1024" for j
    using m1 t(2,3) pd that by (simp add: i(2) e(2) entry_set_entry)
  then show "early_dir pgdir pgtab m1" using d by (simp add: early_dir_def of_nat_index)
  show "mmu m1 pgdir a = (if page_of a = page_of v then Some (table_addr v OR flags) else mmu m pgdir a)"
  proof (cases "is_present (entry pgdir (pd_index a) m)")
    case True
    define j where "j = unat (pd_index a)"
    have j1: "j < 1024" "pd_index a = of_nat j"
      using pd_index_bound [of a] by (simp_all add: j_def word_less_nat_alt)
    then have j: "j < 64" using True d by (auto simp: early_dir_def split: if_splits)
    note u = boot_table [OF b j] and f = early_entry [OF b d j]
    have same: "pgtab + of_nat j * 0x1000 = pgtab + of_nat i * 0x1000 \<longleftrightarrow> pd_index a = pd_index v"
      using i j of_nat32_inj [of j i] by (auto simp: j1(2)) (metis add_left_cancel mult_cancel2 t(1) u(1) zero_neq_numeral)
    have "entry (table_addr (entry pgdir (pd_index a) m)) (pt_index a) m1 =
        (if pd_index a = pd_index v \<and> pt_index a = pt_index v then table_addr v OR flags
         else entry (table_addr (entry pgdir (pd_index a) m)) (pt_index a) m)"
      using m1 t(2) u(2) same by (simp add: i(2) j1(2) e(2) f(2) entry_set_entry)
    then show ?thesis
      using True dir index_page_eq [of a v] page_of_index [of a v] fl
      by (auto simp: mmu_def Let_def)
  next
    case False
    then have "page_of a \<noteq> page_of v" using page_of_index(1) [of a v] e(1) i(2) by auto
    then show ?thesis using False dir by (simp add: mmu_def)
  qed
qed

lemma unat_next_page: "unat a < 0x10000000 \<Longrightarrow> unat (a + 4096) = unat a + 4096" for a :: u32
  by (subst unat_word_ariths) simp

lemma page_of_less: "page_aligned stop \<Longrightarrow> a < stop \<longleftrightarrow> page_of a < page_of stop"
  by (auto simp: page_aligned_def page_of_def word_less_nat_alt dvd_def div_less_iff_less_mult mult.commute)

lemma table_addr_page: "page_of a = page_of v \<Longrightarrow> table_addr v = table_addr a"
  by (simp add: word_unat_eq_iff unat_table_addr page_of_def)

lemma early_mm_map_region_ok:
  assumes "boot_tables pgdir pgtab" and "page_aligned stop" and "unat stop \<le> 0x10000000"
    and "flags = flags' OR pg_present"
  shows "early_dir pgdir pgtab m \<Longrightarrow> \<exists>m'. early_mm_map_region pgdir v stop flags m = Inr m' \<and>
     early_dir pgdir pgtab m' \<and> (\<forall>a. mmu m' pgdir a =
       (if page_of v \<le> page_of a \<and> page_of a < page_of stop then Some (table_addr a OR flags)
        else mmu m pgdir a))"
  using assms
proof (induction pgdir v stop flags m rule: early_mm_map_region.induct)
  case (1 pgdir v stop flags m)
  show ?case
  proof (cases "v < stop")
    case True
    define m1 where "m1 = set_entry (table_addr (entry pgdir (pd_index v) m)) (pt_index v) (table_addr v OR flags) m"
    have v: "unat v < 0x10000000" using True 1(5) by (simp add: word_less_nat_alt)
    note n = unat_next_page [OF v] and pg = early_page [OF 1(3,2) v m1_def 1(6)]
    have nw: "\<not> v + 4096 < v" using n by (simp add: word_less_nat_alt)
    have next_page: "page_of (v + 4096) = Suc (page_of v)" using n by (simp add: page_of_def)
    have below: "page_of v < page_of stop" using True 1(4) page_of_less by blast
    obtain m' where m': "early_mm_map_region pgdir (v + 4096) stop flags m1 = Inr m'" "early_dir pgdir pgtab m'"
      "\<And>a. mmu m' pgdir a = (if page_of (v + 4096) \<le> page_of a \<and> page_of a < page_of stop
          then Some (table_addr a OR flags) else mmu m1 pgdir a)"
      using 1(1) [OF _ refl _ nw] True pg(1) 1(3-6) by (auto simp: m1_def table_addr_def)
    have "early_mm_map_region pgdir v stop flags m = Inr m'"
      using True nw m'(1) by (subst early_mm_map_region.simps) (simp add: m1_def table_addr_def Let_def)
    moreover have "mmu m' pgdir a = (if page_of v \<le> page_of a \<and> page_of a < page_of stop
        then Some (table_addr a OR flags) else mmu m pgdir a)" for a
      using m'(3) [of a] pg(2) [of a] next_page below table_addr_page [of a v] by auto
    ultimately show ?thesis using m'(2) by blast
  next
    case False
    then have "\<not> page_of v < page_of stop" using 1(4) page_of_less by blast
    then have "mmu m pgdir a = (if page_of v \<le> page_of a \<and> page_of a < page_of stop
        then Some (table_addr a OR flags) else mmu m pgdir a)" for a by auto
    moreover have "early_mm_map_region pgdir v stop flags m = Inr m"
      using False by (subst early_mm_map_region.simps) simp
    ultimately show ?thesis using 1(2) by blast
  qed
qed

text \<open>A list of regions, mapped in order: the last one that contains a page decides.\<close>

fun region_flags :: "(u32 \<times> u32 \<times> u32) list \<Rightarrow> u32 \<Rightarrow> u32 option \<Rightarrow> u32 option" where
  "region_flags [] a f = f"
| "region_flags ((start, stop, flags) # rs) a f =
     region_flags rs a (if page_of start \<le> page_of a \<and> page_of a < page_of stop then Some flags else f)"

lemma map_regions:
  assumes "boot_tables pgdir pgtab"
    and "\<forall>(start, stop, flags) \<in> set rs. page_aligned stop \<and> unat stop \<le> 0x10000000 \<and> bit flags 0"
  shows "early_dir pgdir pgtab m \<Longrightarrow> \<forall>a. mmu m pgdir a = map_option (\<lambda>f. table_addr a OR f) (fl a) \<Longrightarrow>
    \<exists>m'. foldE (\<lambda>(start, stop, flags). early_mm_map_region pgdir start stop flags) rs m = Inr m' \<and>
      (\<forall>a. mmu m' pgdir a = map_option (\<lambda>f. table_addr a OR f) (region_flags rs a (fl a)))"
  using assms(2)
proof (induction rs arbitrary: m fl)
  case (Cons r rs)
  obtain start stop flags where r: "r = (start, stop, flags)" by (cases r)
  have "flags OR pg_present = flags" using Cons.prems(3)
    by (intro bit_word_eqI) (auto simp: r pg_present_def bit_simps)
  then have f: "flags = flags OR pg_present" by simp
  have st: "page_aligned stop" "unat stop \<le> 0x10000000" using Cons.prems(3) by (auto simp: r)
  obtain m1 where m1: "early_mm_map_region pgdir start stop flags m = Inr m1" "early_dir pgdir pgtab m1"
    "\<forall>a. mmu m1 pgdir a = (if page_of start \<le> page_of a \<and> page_of a < page_of stop
       then Some (table_addr a OR flags) else mmu m pgdir a)"
    using early_mm_map_region_ok [OF assms(1) st f Cons.prems(1), of start] by blast
  have "\<forall>a. mmu m1 pgdir a = map_option (\<lambda>f. table_addr a OR f)
      (if page_of start \<le> page_of a \<and> page_of a < page_of stop then Some flags else fl a)"
    using m1(3) Cons.prems(2) by auto
  from Cons.IH [OF m1(2) this] Cons.prems(3) show ?case by (simp add: r m1(1))
qed simp

section \<open>The kernel's first mapping\<close>

definition kernel_regions :: "symbols \<Rightarrow> (u32 \<times> u32 \<times> u32) list" where
  "kernel_regions s =
     [(4096, lds_start s, 3), (lds_start s, text_start s, 3), (text_start s, text_end s, 1),
      (multiboot_start s, multiboot_end s, 1), (rodata_start s, rodata_end s, 1),
      (bootstrap_stack_start s, bootstrap_stack_end s, 3), (data_start s, data_end s, 3),
      (bss_start s, bss_end s, 3), (lds_end s, mem_end s, 3)]"

definition read_only :: "symbols \<Rightarrow> u32 \<Rightarrow> bool" where
  "read_only s a \<longleftrightarrow> text_start s \<le> a \<and> a < multiboot_end s \<or> rodata_start s \<le> a \<and> a < rodata_end s"

lemma page_of_mono: "a \<le> b \<Longrightarrow> page_of a \<le> page_of b"
  by (simp add: page_of_def word_le_nat_alt div_le_mono)

lemma page_of_le: "page_aligned start \<Longrightarrow> start \<le> a \<longleftrightarrow> page_of start \<le> page_of a"
  using page_of_less [of start a] by (metis not_less)

lemma kernel_region_flags:
  assumes "symbols_ok s"
  shows "region_flags (kernel_regions s) a None =
    (if a < 4096 \<or> 0x10000000 \<le> a then None else Some (if read_only s a then 1 else 3))"
proof -
  define p where "p = (\<lambda>x. page_of x)"
  have al: "page_aligned (4096 :: u32)" "page_aligned (0x10000000 :: u32)" by (simp_all add: page_aligned_def)
  have "bss_start s \<le> lds_end s" "lds_end s \<le> bss_end s"
    using assms unfolding symbols_ok_def by blast+
  then have end_page: "p (bss_start s) \<le> p (lds_end s)" "p (lds_end s) \<le> p (bss_end s)"
    by (auto simp: p_def intro: page_of_mono)
  have starts: "multiboot_start s = text_end s" "bootstrap_stack_start s = multiboot_end s"
    "rodata_start s = bootstrap_stack_end s" "data_start s = rodata_end s" "bss_start s = data_end s"
    "mem_end s = 0x10000000"
    using assms by (simp_all add: symbols_ok_def)
  have "4096 \<le> lds_start s" "lds_start s \<le> text_start s" "text_start s \<le> text_end s"
    "text_end s \<le> multiboot_end s" "multiboot_end s \<le> bootstrap_stack_end s"
    "bootstrap_stack_end s \<le> rodata_end s" "rodata_end s \<le> data_end s" "bss_end s \<le> 0x10000000"
    using assms by (auto simp: symbols_ok_def)
  then have order: "p 4096 \<le> p (lds_start s)" "p (lds_start s) \<le> p (text_start s)"
    "p (text_start s) \<le> p (text_end s)" "p (text_end s) \<le> p (multiboot_end s)"
    "p (multiboot_end s) \<le> p (bootstrap_stack_end s)" "p (bootstrap_stack_end s) \<le> p (rodata_end s)"
    "p (rodata_end s) \<le> p (data_end s)" "p (bss_end s) \<le> p 0x10000000"
    by (simp_all add: p_def page_of_mono)
  have ro: "read_only s a \<longleftrightarrow> p (text_start s) \<le> p a \<and> p a < p (multiboot_end s) \<or>
      p (bootstrap_stack_end s) \<le> p a \<and> p a < p (rodata_end s)"
    using assms by (simp add: read_only_def symbols_ok_def p_def page_of_le page_of_less)
  have lims: "a < 4096 \<longleftrightarrow> p a < p 4096" "0x10000000 \<le> a \<longleftrightarrow> p 0x10000000 \<le> p a"
    using al by (simp_all add: p_def page_of_le page_of_less)
  show ?thesis
    unfolding ro lims using order end_page
    by (simp add: kernel_regions_def starts flip: p_def)
qed

lemma symbols_regions:
  assumes "symbols_ok s"
  shows "\<forall>(start, stop, flags) \<in> set (kernel_regions s).
    page_aligned stop \<and> unat stop \<le> 0x10000000 \<and> bit flags 0"
proof -
  have b: "bit (1 :: u32) 0" "bit (3 :: u32) 0" by code_simp+
  have al: "page_aligned (0x10000000 :: u32)" by (simp add: page_aligned_def)
  have "unat (lds_start s) \<le> 0x10000000" "unat (text_start s) \<le> 0x10000000" "unat (text_end s) \<le> 0x10000000"
    "unat (multiboot_end s) \<le> 0x10000000" "unat (bootstrap_stack_end s) \<le> 0x10000000"
    "unat (rodata_end s) \<le> 0x10000000" "unat (data_end s) \<le> 0x10000000" "unat (bss_end s) \<le> 0x10000000"
    using assms by (auto simp: symbols_ok_def word_le_nat_alt)
  then show ?thesis using assms b al by (simp add: symbols_ok_def kernel_regions_def)
qed

lemma early_mapping:
  assumes "symbols_ok s" and "boot_tables pgdir pgtab"
  shows "\<exists>m'. early_mm_map_kernel pgdir pgtab s m = Inr m' \<and>
    (\<forall>a. mmu m' pgdir a = (if a < 4096 \<or> 0x10000000 \<le> a then None
       else Some (table_addr a OR (if read_only s a then page_table_ro else page_table_rw))))"
proof -
  let ?m = "early_mm_fill_pgdir pgdir pgtab 64 (zero_mem pgtab (4096 * 64) m)"
  have "\<exists>m'. foldE (\<lambda>(start, stop, flags). early_mm_map_region pgdir start stop flags) (kernel_regions s) ?m = Inr m' \<and>
      (\<forall>a. mmu m' pgdir a = map_option (\<lambda>f. table_addr a OR f) (region_flags (kernel_regions s) a None))"
    by (rule map_regions [OF assms(2) symbols_regions [OF assms(1)] filled_dir [OF assms(2)]])
       (simp only: filled_unmapped [OF assms(2)] option.simps simp_thms)
  moreover have "map_option (\<lambda>f. table_addr a OR f) (if u then None else Some (if r then 1 else 3)) =
      (if u then None else Some (table_addr a OR (if r then 1 else 3)))" for a u r by simp
  ultimately show ?thesis
    unfolding kernel_region_flags [OF assms(1)] early_mm_map_kernel_def
    by (simp only: kernel_regions_def page_table_ro_def page_table_rw_def)
qed

text \<open>
  C25. The kernel's first page directory: with the symbols of the linker script, \<open>early_mm_map_kernel\<close>
  returns, and in the directory it leaves no address of page 0 is mapped, nothing from 256 MB on is
  mapped, and every other address is mapped to itself, read-only in the code, the multiboot header
  and the constants and read/write everywhere else.
\<close>

theorem kernel_is_mapped_to_itself:
  assumes "symbols_ok s" and "boot_tables pgdir pgtab"
  shows "\<exists>m'. early_mm_map_kernel pgdir pgtab s m = Inr m' \<and>
    (\<forall>a. mmu m' pgdir a = (if a < 4096 \<or> 0x10000000 \<le> a then None
       else Some (table_addr a OR (if read_only s a then page_table_ro else page_table_rw))))"
  by (rule early_mapping [OF assms])

definition small_kernel :: symbols where
  "small_kernel = \<lparr>lds_start = 0x100000, text_start = 0x143000, text_end = 0x150000,
     multiboot_start = 0x150000, multiboot_end = 0x151000, bootstrap_stack_start = 0x151000,
     bootstrap_stack_end = 0x153000, rodata_start = 0x153000, rodata_end = 0x158000,
     data_start = 0x158000, data_end = 0x15A000, bss_start = 0x15A000, bss_end = 0x160000,
     lds_end = 0x15F123, mem_end = 0x10000000\<rparr>"

theorem kernel_is_mapped_to_itself_witness:
  "early_mm_check small_kernel = Inr () \<and>
   (\<exists>m'. early_mm_map_kernel 0x101000 0x102000 small_kernel empty_dir = Inr m' \<and>
      mmu m' 0x101000 0 = None \<and> mmu m' 0x101000 0x144567 = Some 0x144001 \<and>
      mmu m' 0x101000 0xFFFFFFF = Some 0xFFFF003)"
proof -
  have s: "symbols_ok small_kernel"
    by (simp add: symbols_ok_def small_kernel_def page_aligned_def)
  have b: "boot_tables 0x101000 0x102000" by (simp add: boot_tables_def page_aligned_def)
  have "early_mm_check small_kernel = Inr ()" by code_simp
  moreover have "table_addr 0x144567 OR page_table_ro = 0x144001" "table_addr 0xFFFFFFF OR page_table_rw = 0xFFFF003"
    by code_simp+
  moreover have "read_only small_kernel 0x144567" "\<not> read_only small_kernel 0xFFFFFFF" by code_simp+
  ultimately show ?thesis using kernel_is_mapped_to_itself [OF s b, of empty_dir] by auto
qed

end
