(* ===== verification/Descriptors.thy ===== *)
theory Descriptors
  imports Prelude
begin

text \<open>
  The tables the processor reads: the segment and gate descriptors that
  \<open>kernel/boot/processor_structs.c\<close> packs (\<open>fill_descriptor\<close>, \<open>fill_gate\<close>), the task state segment
  (\<open>x86_tss\<close>), the bit fields of \<open>kernel/interrupts.c\<close> (\<open>register_interrupt_handler\<close>) and
  \<open>tss_sel_2_tss\<close> of \<open>kernel/debugger.c\<close>, which unpacks the base of a segment again. The functions
  \<open>seg_base\<close>, \<open>seg_limit\<close>, \<open>gate_offset\<close> and so on read a descriptor as the processor does (Intel's
  manual, volume 3); the lemmas show that they get back what was packed.
\<close>

section \<open>Packing\<close>

definition acc_p :: u32 where "acc_p = 0x80"
definition sz_g :: u32 where "sz_g = 0x8"

definition fill_descriptor :: "u32 \<Rightarrow> u32 \<Rightarrow> u32 \<Rightarrow> u32 \<Rightarrow> u64" where
  "fill_descriptor addr limit access sizebits =
     (let big = 0xfffff < limit;
          limit = (if big then drop_bit 12 limit else limit);
          sizebits = (if big then sizebits OR sz_g else sizebits);
          p0 = (limit AND 0xffff) + push_bit 16 (addr AND 0xffff);
          p1 = drop_bit 16 addr AND 0xff;
          p1 = p1 OR push_bit 8 ((access OR acc_p) AND 0xff);
          p1 = p1 OR (limit AND 0xf0000);
          p1 = p1 OR push_bit 20 (sizebits AND 0xf);
          p1 = p1 OR (addr AND 0xff000000)
      in push_bit 32 (ucast p1) OR ucast p0)"

definition fill_gate :: "u32 \<Rightarrow> u16 \<Rightarrow> u8 \<Rightarrow> u8 \<Rightarrow> u64" where
  "fill_gate offset selector access word_count =
     (let p0 = (offset AND 0xffff) OR push_bit 16 (ucast selector);
          p1 = ucast (word_count AND 0xf);
          p1 = p1 OR push_bit 8 (ucast access OR acc_p);
          p1 = p1 OR (offset AND 0xffff0000)
      in push_bit 32 (ucast (p1 :: u32)) OR ucast (p0 :: u32))"

text \<open>The bit fields of \<open>struct idt_entry\<close>, in the order the compiler lays them out.\<close>

record idt_entry =
  isr_low :: u16
  segment_selector :: u16
  ignored :: u8
  gate_type :: "4 word"
  always_0 :: "1 word"
  privilege_level :: "2 word"
  present :: "1 word"
  isr_high :: u16

definition entry_fields :: "u64 \<Rightarrow> idt_entry" where
  "entry_fields w = \<lparr>isr_low = ucast w, segment_selector = ucast (drop_bit 16 w),
     ignored = ucast (drop_bit 32 w), gate_type = ucast (drop_bit 40 w), always_0 = ucast (drop_bit 44 w),
     privilege_level = ucast (drop_bit 45 w), present = ucast (drop_bit 47 w), isr_high = ucast (drop_bit 48 w)\<rparr>"

definition entry_word :: "idt_entry \<Rightarrow> u64" where
  "entry_word e = ucast (isr_low e) OR push_bit 16 (ucast (segment_selector e)) OR
     push_bit 32 (ucast (ignored e)) OR push_bit 40 (ucast (gate_type e)) OR
     push_bit 44 (ucast (always_0 e)) OR push_bit 45 (ucast (privilege_level e)) OR
     push_bit 47 (ucast (present e)) OR push_bit 48 (ucast (isr_high e))"

definition kernel_cs :: u16 where "kernel_cs = 0x10"
definition kernel_ds :: u16 where "kernel_ds = 0x18"
definition user_cs :: u16 where "user_cs = 0x43"
definition user_ds :: u16 where "user_ds = 0x4b"
definition base_tss :: u16 where "base_tss = 0x08"
definition trap_tss_base :: u16 where "trap_tss_base = 0x50"

definition idt_addr :: u32 where "idt_addr = 0x1000"

definition get_idt_entry :: "u16 \<Rightarrow> u32" where
  "get_idt_entry index = idt_addr + 8 * ucast index"

definition set_gate :: "u32 \<Rightarrow> idt_entry \<Rightarrow> idt_entry" where
  "set_gate handler e = e\<lparr>isr_low := ucast (handler AND 0xffff), segment_selector := kernel_cs,
     gate_type := 0xE, privilege_level := 3, present := 1,
     isr_high := ucast (drop_bit 16 (handler AND 0xffff0000))\<rparr>"

text \<open>The table is indexed by the address of the entry; a number above 255 would be written past it.\<close>

definition register_interrupt_handler :: "int \<Rightarrow> u32 \<Rightarrow> u64 list \<Rightarrow> u64 list res" where
  "register_interrupt_handler number handler idt =
     (let i = unat (get_idt_entry (word_of_int number) - idt_addr) div 8
      in if i < length idt then Inr (idt[i := entry_word (set_gate handler (entry_fields (idt ! i)))])
         else Inl Out_Of_Bounds)"

definition tss_sel_2_tss :: "u64 list \<Rightarrow> u16 \<Rightarrow> u32" where
  "tss_sel_2_tss gdt sel =
     (let d = gdt ! unat (drop_bit 3 sel);
          p = ucast (drop_bit 16 d) AND 0xffffff
      in p + push_bit 24 (ucast (drop_bit 56 d)))"

section \<open>Reading, as the processor does\<close>

definition seg_base :: "u64 \<Rightarrow> u32" where
  "seg_base d = (ucast (drop_bit 16 d) AND mask 24) OR push_bit 24 (ucast (drop_bit 56 d))"

definition seg_limit_field :: "u64 \<Rightarrow> u32" where
  "seg_limit_field d = (ucast d AND mask 16) OR push_bit 16 (ucast (drop_bit 48 d) AND mask 4)"

definition seg_flags :: "u64 \<Rightarrow> 4 word" where "seg_flags d = ucast (drop_bit 52 d)"

definition seg_access :: "u64 \<Rightarrow> u8" where "seg_access d = ucast (drop_bit 40 d)"

definition seg_limit :: "u64 \<Rightarrow> u32" where
  "seg_limit d = (if bit (seg_flags d) 3 then push_bit 12 (seg_limit_field d) OR mask 12 else seg_limit_field d)"

definition gate_offset :: "u64 \<Rightarrow> u32" where
  "gate_offset d = (ucast d AND mask 16) OR push_bit 16 (ucast (drop_bit 48 d))"

definition gate_selector :: "u64 \<Rightarrow> u16" where "gate_selector d = ucast (drop_bit 16 d)"

text \<open>The type field, the privilege level and the presence of either kind of descriptor.\<close>

definition desc_type :: "u64 \<Rightarrow> 5 word" where "desc_type d = ucast (drop_bit 40 d)"
definition desc_level :: "u64 \<Rightarrow> 2 word" where "desc_level d = ucast (drop_bit 45 d)"
definition desc_present :: "u64 \<Rightarrow> bool" where "desc_present d = bit d 47"

section \<open>What was packed is what is read\<close>

lemma mask_numerals:
  "(0xff :: u32) = mask 8" "(0xffff :: u32) = mask 16" "(0xfffff :: u32) = mask 20" "(0xf :: u32) = mask 4"
  "(0xffffff :: u32) = mask 24" "(0xf0000 :: u32) = push_bit 16 (mask 4)"
  "(0xff000000 :: u32) = push_bit 24 (mask 8)" "(0xffff0000 :: u32) = push_bit 16 (mask 16)" "(0xf :: u8) = mask 4"
  by (simp_all add: mask_eq_exp_minus_1)

lemma bit_acc_p: "bit acc_p n \<longleftrightarrow> n = 7"
proof -
  have e: "acc_p = 2 ^ 7" by (simp add: acc_p_def)
  show ?thesis by (simp only: e bit_exp_iff) auto
qed

lemma bit_sz_g: "bit sz_g n \<longleftrightarrow> n = 3"
proof -
  have e: "sz_g = 2 ^ 3" by (simp add: sz_g_def)
  show ?thesis by (simp only: e bit_exp_iff) auto
qed

lemma low_plus_high: "(x AND mask 16) + push_bit 16 (y AND mask 16) = (x AND mask 16) OR push_bit 16 (y AND mask 16)"
  for x y :: u32
  by (intro disjunctive_add_eq_or bit_word_eqI) (auto simp: bit_simps)

text \<open>The two halves of a segment descriptor, bit by bit.\<close>

lemma bit_descriptor:
  assumes "lim = (if 0xfffff < l then drop_bit 12 l else l)" and "sz' = (if 0xfffff < l then sz OR sz_g else sz)"
  shows "bit (fill_descriptor a l acc sz) n \<longleftrightarrow>
    (if n < 16 then bit lim n else if n < 40 then bit a (n - 16) else if n < 48 then bit (acc OR acc_p) (n - 40)
     else if n < 52 then bit lim (n - 32) else if n < 56 then bit sz' (n - 52) else n < 64 \<and> bit a (n - 32))"
proof -
  define p0 where "p0 = (lim AND mask 16) OR push_bit 16 (a AND mask 16)"
  define p1 where "p1 = (drop_bit 16 a AND mask 8) OR push_bit 8 ((acc OR acc_p) AND mask 8) OR
    (lim AND push_bit 16 (mask 4)) OR push_bit 20 (sz' AND mask 4) OR (a AND push_bit 24 (mask 8))"
  have beyond: "\<not> k < 32 \<Longrightarrow> \<not> bit (x :: u32) k" for x k using bit_imp_le_length [of x k] by auto
  have p0: "bit p0 k \<longleftrightarrow> (if k < 16 then bit lim k else k < 32 \<and> bit a (k - 16))" for k
    by (auto simp: p0_def bit_simps)
  have p1: "bit p1 k \<longleftrightarrow> (if k < 8 then bit a (16 + k) else if k < 16 then bit (acc OR acc_p) (k - 8)
      else if k < 20 then bit lim k else if k < 24 then bit sz' (k - 20) else bit a k)" for k
    by (cases "k < 8"; cases "k < 16"; cases "k < 20"; cases "k < 24"; cases "k < 32";
        simp add: p1_def bit_simps beyond; auto)
  have "fill_descriptor a l acc sz = push_bit 32 (ucast p1) OR ucast p0"
    unfolding p0_def p1_def low_plus_high [symmetric]
    by (simp only: fill_descriptor_def Let_def mask_numerals assms or.assoc)
  then show ?thesis
    by (cases "n < 16"; cases "n < 32"; cases "n < 64"; simp add: bit_simps p0 p1 beyond; auto)
qed

lemma bit_beyond: "\<not> n < LENGTH('a) \<Longrightarrow> \<not> bit (w :: 'a::len word) n"
  by (auto dest: bit_imp_le_length)

lemma descriptor_base: "seg_base (fill_descriptor a l acc sz) = a"
proof (rule bit_word_eqI)
  fix n assume "n < LENGTH(32)"
  then show "bit (seg_base (fill_descriptor a l acc sz)) n = bit a n"
    by (cases "n < 24"; simp add: seg_base_def bit_simps bit_descriptor [OF refl refl]; auto)
qed

lemma descriptor_access: "seg_access (fill_descriptor a l acc sz) = ucast (acc OR acc_p)"
proof (rule bit_word_eqI)
  fix n assume "n < LENGTH(8)"
  then show "bit (seg_access (fill_descriptor a l acc sz)) n = bit (ucast (acc OR acc_p) :: u8) n"
    by (simp add: seg_access_def bit_simps bit_descriptor [OF refl refl])
qed

lemma descriptor_flags:
  "seg_flags (fill_descriptor a l acc sz) = ucast (if 0xfffff < l then sz OR sz_g else sz)"
proof (rule bit_word_eqI)
  fix n assume "n < LENGTH(4)"
  then show "bit (seg_flags (fill_descriptor a l acc sz)) n =
      bit (ucast (if 0xfffff < l then sz OR sz_g else sz) :: 4 word) n"
    by (simp add: seg_flags_def bit_simps bit_descriptor [OF refl refl])
qed

lemma descriptor_limit_field:
  "seg_limit_field (fill_descriptor a l acc sz) = (if 0xfffff < l then drop_bit 12 l else l)"
proof -
  define lim where "lim = (if 0xfffff < l then drop_bit 12 l else l)"
  have high: "\<not> bit lim n" if "20 \<le> n" for n
  proof (cases "0xfffff < l")
    case True
    then show ?thesis using that by (simp add: lim_def bit_simps bit_beyond)
  next
    case False
    then have "l AND mask 20 = l" by (intro less_mask_eq) (simp add: word_less_nat_alt word_le_nat_alt)
    then show ?thesis using that False by (metis bit_and_iff bit_mask_iff lim_def not_less)
  qed
  show ?thesis
    unfolding lim_def [symmetric]
  proof (rule bit_word_eqI)
    fix n assume "n < LENGTH(32)"
    then show "bit (seg_limit_field (fill_descriptor a l acc sz)) n = bit lim n"
      by (cases "n < 16"; cases "n < 20"; simp add: seg_limit_field_def bit_simps bit_descriptor [OF lim_def refl] high; auto)
  qed
qed

text \<open>
  The limit the processor uses is the limit asked for, its last twelve bits set when it needs the
  granularity of pages.
\<close>

lemma descriptor_limit:
  assumes "\<not> bit sz 3"
  shows "seg_limit (fill_descriptor a l acc sz) = (if 0xfffff < l then l OR mask 12 else l)"
proof -
  have "push_bit 12 (drop_bit 12 l) OR mask 12 = l OR mask 12"
    by (rule bit_word_eqI) (auto simp: bit_simps)
  then show ?thesis
    using assms by (simp add: seg_limit_def descriptor_flags descriptor_limit_field bit_simps bit_sz_g)
qed

lemma bit_gate:
  "bit (fill_gate offset sel acc wc) n \<longleftrightarrow>
    (if n < 16 then bit offset n else if n < 32 then bit sel (n - 16) else if n < 36 then bit wc (n - 32)
     else if n < 40 then False else if n < 48 then bit acc (n - 40) \<or> n = 47 else n < 64 \<and> bit offset (n - 32))"
proof -
  define p0 where "p0 = (offset AND mask 16) OR push_bit 16 (ucast sel :: u32)"
  define p1 where "p1 = ucast (wc AND mask 4) OR push_bit 8 (ucast acc OR acc_p) OR (offset AND push_bit 16 (mask 16))"
  have p0: "bit p0 k \<longleftrightarrow> (if k < 16 then bit offset k else k < 32 \<and> bit sel (k - 16))" for k
    by (cases "k < 16"; cases "k < 32"; simp add: p0_def bit_simps bit_beyond; auto)
  have p1: "bit p1 k \<longleftrightarrow> (if k < 4 then bit wc k else if k < 8 then False else if k < 16 then bit acc (k - 8) \<or> k = 15
      else k < 32 \<and> bit offset k)" for k
    by (cases "k < 4"; cases "k < 8"; cases "k < 16"; cases "k < 32";
        simp add: p1_def bit_simps bit_acc_p bit_beyond; auto)
  have "fill_gate offset sel acc wc = push_bit 32 (ucast p1) OR ucast p0"
    unfolding p0_def p1_def by (simp only: fill_gate_def Let_def mask_numerals or.assoc)
  then show ?thesis
    by (cases "n < 16"; cases "n < 32"; cases "n < 48"; cases "n < 64"; simp add: bit_simps p0 p1; auto)
qed

lemma bit_entry_word:
  "bit (entry_word e) n \<longleftrightarrow>
    (if n < 16 then bit (isr_low e) n else if n < 32 then bit (segment_selector e) (n - 16)
     else if n < 40 then bit (ignored e) (n - 32) else if n < 44 then bit (gate_type e) (n - 40)
     else if n < 45 then bit (always_0 e) (n - 44) else if n < 47 then bit (privilege_level e) (n - 45)
     else if n < 48 then bit (present e) (n - 47) else n < 64 \<and> bit (isr_high e) (n - 48))"
  by (cases "n < 16"; cases "n < 32"; cases "n < 40"; cases "n < 44"; cases "n < 45"; cases "n < 47";
      cases "n < 48"; cases "n < 64"; simp add: entry_word_def bit_simps bit_beyond; auto)

text \<open>Writing the fields of an entry and reading them gives the same fields.\<close>

lemma entry_fields_word [simp]: "entry_fields (entry_word e) = e"
proof -
  have "ucast (entry_word e) = isr_low e" "ucast (drop_bit 16 (entry_word e)) = segment_selector e"
    "ucast (drop_bit 32 (entry_word e)) = ignored e" "ucast (drop_bit 40 (entry_word e)) = gate_type e"
    "ucast (drop_bit 44 (entry_word e)) = always_0 e" "ucast (drop_bit 45 (entry_word e)) = privilege_level e"
    "ucast (drop_bit 47 (entry_word e)) = present e" "ucast (drop_bit 48 (entry_word e)) = isr_high e"
    by (rule bit_word_eqI; simp add: bit_simps bit_entry_word)+
  then show ?thesis by (simp add: entry_fields_def)
qed

lemma gate_decoded:
  "gate_offset (fill_gate offset sel acc wc) = offset" "gate_selector (fill_gate offset sel acc wc) = sel"
  "desc_type (fill_gate offset sel acc wc) = ucast acc" "desc_level (fill_gate offset sel acc wc) = ucast (drop_bit 5 acc)"
  "desc_present (fill_gate offset sel acc wc)"
proof -
  show "gate_offset (fill_gate offset sel acc wc) = offset"
  proof (rule bit_word_eqI)
    fix n assume "n < LENGTH(32)"
    then show "bit (gate_offset (fill_gate offset sel acc wc)) n = bit offset n"
      by (cases "n < 16"; simp add: gate_offset_def bit_simps bit_gate; auto)
  qed
  show "gate_selector (fill_gate offset sel acc wc) = sel"
    by (rule bit_word_eqI) (simp add: gate_selector_def bit_simps bit_gate)
  show "desc_type (fill_gate offset sel acc wc) = ucast acc"
    by (rule bit_word_eqI) (simp add: desc_type_def bit_simps bit_gate)
  show "desc_level (fill_gate offset sel acc wc) = ucast (drop_bit 5 acc)"
    by (rule bit_word_eqI) (simp add: desc_level_def bit_simps bit_gate)
  show "desc_present (fill_gate offset sel acc wc)" by (simp add: desc_present_def bit_gate)
qed

lemma segment_decoded:
  "desc_type (fill_descriptor a l acc sz) = ucast acc" "desc_level (fill_descriptor a l acc sz) = ucast (drop_bit 5 acc)"
  "desc_present (fill_descriptor a l acc sz)"
proof -
  show "desc_type (fill_descriptor a l acc sz) = ucast acc"
    by (rule bit_word_eqI) (simp add: desc_type_def bit_simps bit_descriptor [OF refl refl] bit_acc_p)
  show "desc_level (fill_descriptor a l acc sz) = ucast (drop_bit 5 acc)"
    by (rule bit_word_eqI) (simp add: desc_level_def bit_simps bit_descriptor [OF refl refl] bit_acc_p)
  show "desc_present (fill_descriptor a l acc sz)"
    by (simp add: desc_present_def bit_descriptor [OF refl refl] bit_simps bit_acc_p)
qed

lemma entry_type: "desc_type (entry_word e) = ucast (gate_type e) OR push_bit 4 (ucast (always_0 e))"
proof (rule bit_word_eqI)
  fix n assume "n < LENGTH(5)"
  then show "bit (desc_type (entry_word e)) n =
      bit (ucast (gate_type e) OR push_bit 4 (ucast (always_0 e)) :: 5 word) n"
    by (cases "n < 4"; simp add: desc_type_def bit_simps bit_entry_word bit_beyond)
qed

lemma entry_decoded:
  "gate_offset (entry_word (set_gate handler e)) = handler" "gate_selector (entry_word (set_gate handler e)) = kernel_cs"
  "desc_type (entry_word (set_gate handler e)) = 0xE OR push_bit 4 (ucast (always_0 e))"
  "desc_level (entry_word (set_gate handler e)) = 3" "desc_present (entry_word (set_gate handler e))"
proof -
  let ?w = "entry_word (set_gate handler e)"
  show "gate_offset ?w = handler"
  proof (rule bit_word_eqI)
    fix n assume "n < LENGTH(32)"
    then show "bit (gate_offset ?w) n = bit handler n"
      by (cases "n < 16"; simp add: gate_offset_def set_gate_def bit_simps bit_entry_word mask_numerals
          del: bit_numeral_word_iff; auto)
  qed
  show "gate_selector ?w = kernel_cs"
    by (rule bit_word_eqI) (simp add: gate_selector_def set_gate_def bit_simps bit_entry_word)
  show "desc_type ?w = 0xE OR push_bit 4 (ucast (always_0 e))"
    by (simp add: entry_type) (simp add: set_gate_def)
  show "desc_level ?w = 3"
    by (rule bit_word_eqI) (simp add: desc_level_def set_gate_def bit_simps bit_entry_word del: bit_numeral_word_iff)
  show "desc_present ?w" by (simp add: desc_present_def set_gate_def bit_entry_word)
qed

lemma tss_sel_2_tss_base: "tss_sel_2_tss gdt sel = seg_base (gdt ! unat (drop_bit 3 sel))"
proof -
  have "(ucast (drop_bit 16 d) AND mask 24) + push_bit 24 (ucast (drop_bit 56 d)) =
      (ucast (drop_bit 16 d) AND mask 24) OR push_bit 24 (ucast (drop_bit 56 d) :: u32)" for d :: u64
    by (intro disjunctive_add_eq_or bit_word_eqI) (auto simp: bit_simps)
  then show ?thesis by (simp add: tss_sel_2_tss_def seg_base_def mask_numerals Let_def)
qed

end
