(* ===== verification/CpuInit.thy ===== *)
theory CpuInit
  imports Descriptors
begin

text \<open>
  \<open>cpu_init\<close> of \<open>kernel/boot/processor_structs.c\<close> and the handlers that \<open>kernel_start\<close> registers
  (\<open>kernel/clock.c\<close>, \<open>kbd.c\<close>, \<open>paging.c\<close>, \<open>syscall_handler.c\<close>), with \<open>kernel/pic.c\<close> and the timer
  of \<open>clock.c\<close>. The state (\<open>machine\<close>) is the tables in memory, the task state segments, the
  registers the start-up code loads and the devices behind the ports. A device is not code of the
  repository: \<open>outb\<close> and \<open>inb\<close> are arguments of every definition that uses a port. The addresses the
  linker gives to the arrays are the record \<open>places\<close>. The theorems state what the processor finds in
  the tables: who may raise which vector, and into which code with which stack it leads.
\<close>

text \<open>\<open>struct x86_tss\<close>; its fields are 32-bit words, the last two of 16 bits.\<close>

record x86_tss =
  back_link :: u32
  esp0 :: u32
  ss0 :: u32
  esp1 :: u32
  ss1 :: u32
  esp2 :: u32
  ss2 :: u32
  cr3 :: u32
  eip :: u32
  eflags :: u32
  eax :: u32
  ecx :: u32
  edx :: u32
  ebx :: u32
  esp :: u32
  ebp :: u32
  esi :: u32
  edi :: u32
  es :: u32
  cs :: u32
  ss :: u32
  ds :: u32
  fs :: u32
  gs :: u32
  ldt :: u32
  trace_trap :: u16
  io_bit_map_offset :: u16

definition tss_zero :: x86_tss where
  "tss_zero = \<lparr>back_link = 0, esp0 = 0, ss0 = 0, esp1 = 0, ss1 = 0, esp2 = 0, ss2 = 0, cr3 = 0,
     eip = 0, eflags = 0, eax = 0, ecx = 0, edx = 0, ebx = 0, esp = 0, ebp = 0, esi = 0, edi = 0,
     es = 0, cs = 0, ss = 0, ds = 0, fs = 0, gs = 0, ldt = 0, trace_trap = 0, io_bit_map_offset = 0\<rparr>"

definition sizeof_tss :: nat where "sizeof_tss = 25 * 4 + 2 * 2"

text \<open>What \<open>lgdt\<close>, \<open>lldt\<close>, the segment moves, \<open>lidt\<close> and \<open>ltr\<close> load.\<close>

record registers =
  gdtr :: "u16 \<times> u32"
  ldtr :: u16
  idtr :: "u16 \<times> u32"
  tr :: u16
  reg_cs :: u16
  reg_ds :: u16
  reg_es :: u16
  reg_fs :: u16
  reg_gs :: u16
  reg_ss :: u16

record 'd machine =
  gdt :: "u64 list"
  idt :: "u64 list"
  tss :: x86_tss
  trap_tss :: "x86_tss list"
  regs :: registers
  clock_frequency :: u32
  device :: 'd

record places =
  at_gdt :: u32
  at_tss :: u32
  at_trap_tss :: u32
  at_trap_stack :: u32
  at_first_stack :: u32
  at_pgdir :: u32
  exception_handler_tasks :: "u32 list"

definition handler_entries :: nat where "handler_entries = 32"
definition gdt_entries :: nat where "gdt_entries = 8192"
definition idt_entries :: nat where "idt_entries = 256"

definition selector_index :: "u16 \<Rightarrow> nat" where "selector_index sel = unat (drop_bit 3 sel)"

text \<open>Access bits: \<open>ACC_TSS\<close>, \<open>ACC_CODE_R\<close>, \<open>ACC_DATA_W\<close>, \<open>ACC_TASK_GATE\<close>, \<open>ACC_PL_K\<close>, \<open>ACC_PL_U\<close>.\<close>

definition acc_tss :: u32 where "acc_tss = 0x09"
definition acc_code_r :: u32 where "acc_code_r = 0x1a"
definition acc_data_w :: u32 where "acc_data_w = 0x12"
definition acc_task_gate :: u32 where "acc_task_gate = 0x05"
definition acc_pl_k :: u32 where "acc_pl_k = 0"
definition acc_pl_u :: u32 where "acc_pl_u = 0x60"
definition sz_32 :: u32 where "sz_32 = 0x4"

definition tss_descriptor :: "u32 \<Rightarrow> u64" where
  "tss_descriptor a = fill_descriptor a (of_nat sizeof_tss - 1) (acc_pl_k OR acc_tss OR acc_p) 0"

definition setup_gdt :: "places \<Rightarrow> 'd machine \<Rightarrow> 'd machine" where
  "setup_gdt p m =
     (let g = replicate gdt_entries 0;
          g = g[selector_index base_tss := tss_descriptor (at_tss p)];
          g = g[selector_index kernel_cs := fill_descriptor 0 0xffffffff (acc_pl_k OR acc_code_r) sz_32];
          g = g[selector_index kernel_ds := fill_descriptor 0 0xffffffff (acc_pl_k OR acc_data_w) sz_32];
          g = g[selector_index user_cs := fill_descriptor 0 0xffffffff (acc_pl_u OR acc_code_r) sz_32];
          g = g[selector_index user_ds := fill_descriptor 0 0xffffffff (acc_pl_u OR acc_data_w) sz_32];
          g = fold (\<lambda>i g. g[i + selector_index trap_tss_base :=
                tss_descriptor (at_trap_tss p + of_nat (sizeof_tss * i))]) [0..<handler_entries] g
      in m\<lparr>gdt := g, regs := (regs m)\<lparr>gdtr := (of_nat (8 * gdt_entries - 1), at_gdt p), ldtr := 0,
           reg_cs := kernel_cs, reg_ds := kernel_ds, reg_es := kernel_ds, reg_fs := 0, reg_gs := 0,
           reg_ss := kernel_ds\<rparr>\<rparr>)"

definition trap_task :: "places \<Rightarrow> u32 \<Rightarrow> x86_tss \<Rightarrow> x86_tss" where
  "trap_task p handler ts =
     ts\<lparr>ss0 := ucast kernel_ds, esp0 := at_trap_stack p + 16384, ss := ucast kernel_ds,
        esp := at_trap_stack p + 16384, io_bit_map_offset := of_nat sizeof_tss, cs := ucast kernel_cs,
        eip := handler, ds := ucast kernel_ds, es := ucast kernel_ds, fs := 0, gs := 0, eflags := 2,
        trace_trap := 0, cr3 := at_pgdir p\<rparr>"

definition trap_gate :: "nat \<Rightarrow> u64" where
  "trap_gate i =
     (let access = acc_task_gate + (if i = 3 then 0x60 else 0)
      in fill_gate 0 (trap_tss_base + 8 * of_nat i) (ucast access) 0)"

definition setup_trap :: "places \<Rightarrow> nat \<Rightarrow> 'd machine \<Rightarrow> 'd machine" where
  "setup_trap p i m = m\<lparr>
     trap_tss := (trap_tss m)[i := trap_task p (exception_handler_tasks p ! i) (trap_tss m ! i)],
     idt := (idt m)[i := trap_gate i]\<rparr>"

definition setup_idt :: "places \<Rightarrow> 'd machine \<Rightarrow> 'd machine" where
  "setup_idt p m =
     (let m = m\<lparr>idt := replicate idt_entries 0\<rparr>;
          m = fold (setup_trap p) [0..<length (exception_handler_tasks p)] m
      in m\<lparr>regs := (regs m)\<lparr>idtr := (of_nat (8 * idt_entries - 1), idt_addr)\<rparr>\<rparr>)"

definition setup_tss :: "places \<Rightarrow> 'd machine \<Rightarrow> 'd machine" where
  "setup_tss p m = m\<lparr>
     tss := tss_zero\<lparr>ss0 := ucast kernel_ds, esp0 := at_first_stack p + 16384,
              io_bit_map_offset := of_nat sizeof_tss, cr3 := at_pgdir p\<rparr>,
     regs := (regs m)\<lparr>tr := base_tss\<rparr>\<rparr>"

definition outs :: "(u8 \<Rightarrow> u16 \<Rightarrow> 'd \<Rightarrow> 'd) \<Rightarrow> (u8 \<times> u16) list \<Rightarrow> 'd \<Rightarrow> 'd" where
  "outs outb = fold (\<lambda>(v, port). outb v port)"

definition setup_pic :: "(u8 \<Rightarrow> u16 \<Rightarrow> 'd \<Rightarrow> 'd) \<Rightarrow> 'd machine \<Rightarrow> 'd machine" where
  "setup_pic outb m = m\<lparr>device := outs outb
     [(0x11, 0x20), (0x20, 0x21), (0x4, 0x21), (0x1, 0x21),
      (0x11, 0xa0), (0x28, 0xa1), (0x2, 0xa1), (0x1, 0xa1),
      (0x20, 0x20), (0x20, 0xa0), (0xff, 0x21), (0xff, 0xa1)] (device m)\<rparr>"

definition cpu_init :: "(u8 \<Rightarrow> u16 \<Rightarrow> 'd \<Rightarrow> 'd) \<Rightarrow> places \<Rightarrow> 'd machine \<Rightarrow> 'd machine" where
  "cpu_init outb p m = setup_pic outb (setup_tss p (setup_idt p (setup_gdt p m)))"

section \<open>The interrupt controller and the timer\<close>

definition pic_eoi :: "(u8 \<Rightarrow> u16 \<Rightarrow> 'd \<Rightarrow> 'd) \<Rightarrow> u8 \<Rightarrow> 'd \<Rightarrow> 'd" where
  "pic_eoi outb irq d = outb 0x20 0x20 (if 8 \<le> irq then outb 0x20 0xA0 d else d)"

definition irq_port :: "u8 \<Rightarrow> u16" where "irq_port irq = (if irq < 8 then 0x21 else 0xA1)"
definition irq_line :: "u8 \<Rightarrow> u8" where "irq_line irq = (if irq < 8 then irq else irq - 8)"

text \<open>\<open>1 << irq\<close> on an \<open>int\<close> is undefined from 32 on.\<close>

definition mask_irq :: "(u8 \<Rightarrow> u16 \<Rightarrow> 'd \<Rightarrow> 'd) \<Rightarrow> (u16 \<Rightarrow> 'd \<Rightarrow> u8 \<times> 'd) \<Rightarrow> u8 \<Rightarrow> 'd \<Rightarrow> 'd res" where
  "mask_irq outb inb irq d =
     (if 32 \<le> irq_line irq then Inl Out_Of_Bounds
      else let (v, d1) = inb (irq_port irq) d
        in Inr (outb (ucast (ucast v AND push_bit (unat (irq_line irq)) (1 :: u32))) (irq_port irq) d1))"

definition unmask_irq :: "(u8 \<Rightarrow> u16 \<Rightarrow> 'd \<Rightarrow> 'd) \<Rightarrow> (u16 \<Rightarrow> 'd \<Rightarrow> u8 \<times> 'd) \<Rightarrow> u8 \<Rightarrow> 'd \<Rightarrow> 'd res" where
  "unmask_irq outb inb irq d =
     (if 32 \<le> irq_line irq then Inl Out_Of_Bounds
      else let (v, d1) = inb (irq_port irq) d
        in Inr (outb (ucast (ucast v AND NOT (push_bit (unat (irq_line irq)) (1 :: u32)))) (irq_port irq) d1))"

definition pit_quartz :: u32 where "pit_quartz = 0x1234DD"

definition set_clock_frequency :: "(u8 \<Rightarrow> u16 \<Rightarrow> 'd \<Rightarrow> 'd) \<Rightarrow> u32 \<Rightarrow> 'd machine \<Rightarrow> 'd machine res" where
  "set_clock_frequency outb hz m =
     (if hz = 0 then Inl Divide_Error
      else let divisor = ucast (pit_quartz div hz) :: u16
        in Inr (m\<lparr>clock_frequency := hz, device := outs outb
             [(0x34, 0x43), (ucast divisor, 0x40), (ucast (divisor div 256), 0x40)] (device m)\<rparr>))"

text \<open>\<open>clock_settings\<close> stores two values; the model returns them.\<close>

definition clock_settings :: "u32 \<times> u32" where
  "clock_settings = (pit_quartz, pit_quartz div 50)"

section \<open>Registering the handlers\<close>

record handlers =
  clock_isr :: u32
  keyboard_isr :: u32
  page_fault_isr :: u32
  syscall_isr :: u32

definition register :: "int \<Rightarrow> u32 \<Rightarrow> 'd machine \<Rightarrow> 'd machine res" where
  "register n handler m =
     bindE (register_interrupt_handler n handler (idt m)) (\<lambda>t. Inr (m\<lparr>idt := t\<rparr>))"

definition unmask :: "(u8 \<Rightarrow> u16 \<Rightarrow> 'd \<Rightarrow> 'd) \<Rightarrow> (u16 \<Rightarrow> 'd \<Rightarrow> u8 \<times> 'd) \<Rightarrow> u8 \<Rightarrow> 'd machine \<Rightarrow> 'd machine res" where
  "unmask outb inb irq m = bindE (unmask_irq outb inb irq (device m)) (\<lambda>d. Inr (m\<lparr>device := d\<rparr>))"

definition init_clock where
  "init_clock outb inb h m =
     bindE (set_clock_frequency outb 50 m) (\<lambda>m. bindE (register 32 (clock_isr h) m) (unmask outb inb 0))"

definition init_keyboard_handler where
  "init_keyboard_handler outb inb h m = bindE (register 33 (keyboard_isr h) m) (unmask outb inb 1)"

definition init_page_fault_handler :: "handlers \<Rightarrow> 'd machine \<Rightarrow> 'd machine res" where
  "init_page_fault_handler h = register 14 (page_fault_isr h)"

definition init_syscall_handler :: "handlers \<Rightarrow> 'd machine \<Rightarrow> 'd machine res" where
  "init_syscall_handler h = register 49 (syscall_isr h)"

definition init_interrupts ::
  "(u8 \<Rightarrow> u16 \<Rightarrow> 'd \<Rightarrow> 'd) \<Rightarrow> (u16 \<Rightarrow> 'd \<Rightarrow> u8 \<times> 'd) \<Rightarrow> handlers \<Rightarrow> 'd machine \<Rightarrow> 'd machine res" where
  "init_interrupts outb inb h m =
     bindE (init_clock outb inb h m) (\<lambda>m.
     bindE (init_keyboard_handler outb inb h m) (\<lambda>m.
     bindE (init_page_fault_handler h m) (init_syscall_handler h)))"

section \<open>What the processor finds in the tables\<close>

datatype gate =
    No_Gate
  | Task_Gate u16 "2 word"            \<comment> \<open>the selector of the task, the lowest privilege that may raise it\<close>
  | Interrupt_Gate u16 u32 "2 word"   \<comment> \<open>the code segment, the address, the lowest privilege\<close>
  | Other_Gate

definition gate_of :: "u64 \<Rightarrow> gate" where
  "gate_of d =
     (if \<not> desc_present d then No_Gate
      else if desc_type d = 0x5 then Task_Gate (gate_selector d) (desc_level d)
      else if desc_type d = 0xE then Interrupt_Gate (gate_selector d) (gate_offset d) (desc_level d)
      else Other_Gate)"

datatype segment =
    No_Segment
  | Task_Segment u32 u32 "2 word"     \<comment> \<open>base, limit, privilege\<close>
  | Code_Segment u32 u32 "2 word"
  | Data_Segment u32 u32 "2 word"
  | Other_Segment

definition segment_of :: "u64 \<Rightarrow> segment" where
  "segment_of d =
     (if \<not> desc_present d then No_Segment
      else if desc_type d = 0x09 then Task_Segment (seg_base d) (seg_limit d) (desc_level d)
      else if desc_type d = 0x1a then Code_Segment (seg_base d) (seg_limit d) (desc_level d)
      else if desc_type d = 0x12 then Data_Segment (seg_base d) (seg_limit d) (desc_level d)
      else Other_Segment)"

lemma segment_tss: "segment_of (tss_descriptor a) = Task_Segment a 103 0"
proof -
  have "ucast (acc_pl_k OR acc_tss OR acc_p) = (0x09 :: 5 word)"
    "ucast (drop_bit 5 (acc_pl_k OR acc_tss OR acc_p)) = (0 :: 2 word)"
    by code_simp+
  then show ?thesis
    by (simp add: segment_of_def tss_descriptor_def segment_decoded descriptor_base descriptor_limit sizeof_tss_def)
qed

lemma segment_flat:
  "segment_of (fill_descriptor 0 0xffffffff (acc_pl_k OR acc_code_r) sz_32) = Code_Segment 0 0xffffffff 0"
  "segment_of (fill_descriptor 0 0xffffffff (acc_pl_k OR acc_data_w) sz_32) = Data_Segment 0 0xffffffff 0"
  "segment_of (fill_descriptor 0 0xffffffff (acc_pl_u OR acc_code_r) sz_32) = Code_Segment 0 0xffffffff 3"
  "segment_of (fill_descriptor 0 0xffffffff (acc_pl_u OR acc_data_w) sz_32) = Data_Segment 0 0xffffffff 3"
  by code_simp+

lemma gate_trap: "gate_of (trap_gate i) = Task_Gate (trap_tss_base + 8 * of_nat i) (if i = 3 then 3 else 0)"
proof -
  have "ucast (ucast acc_task_gate :: u8) = (5 :: 5 word)" "ucast (drop_bit 5 (ucast acc_task_gate :: u8)) = (0 :: 2 word)"
    "ucast (ucast (acc_task_gate + 0x60) :: u8) = (5 :: 5 word)"
    "ucast (drop_bit 5 (ucast (acc_task_gate + 0x60) :: u8)) = (3 :: 2 word)"
    by code_simp+
  then show ?thesis by (simp add: gate_of_def trap_gate_def gate_decoded)
qed

lemma gate_zero: "gate_of 0 = No_Gate" "segment_of 0 = No_Segment"
  by (simp_all add: gate_of_def segment_of_def desc_present_def)

lemma gate_registered: "always_0 e = 0 \<Longrightarrow> gate_of (entry_word (set_gate handler e)) = Interrupt_Gate kernel_cs handler 3"
  by (simp add: gate_of_def entry_decoded)

definition gdt_spec :: "places \<Rightarrow> nat \<Rightarrow> segment" where
  "gdt_spec p j =
     (if j = 1 then Task_Segment (at_tss p) 103 0
      else if j = 2 then Code_Segment 0 0xffffffff 0
      else if j = 3 then Data_Segment 0 0xffffffff 0
      else if j = 8 then Code_Segment 0 0xffffffff 3
      else if j = 9 then Data_Segment 0 0xffffffff 3
      else if 10 \<le> j \<and> j < 42 then Task_Segment (at_trap_tss p + of_nat (104 * (j - 10))) 103 0
      else No_Segment)"

definition idt_spec :: "handlers \<Rightarrow> nat \<Rightarrow> gate" where
  "idt_spec h v =
     (if v = 14 then Interrupt_Gate kernel_cs (page_fault_isr h) 3
      else if v < 32 then Task_Gate (trap_tss_base + 8 * of_nat v) (if v = 3 then 3 else 0)
      else if v = 32 then Interrupt_Gate kernel_cs (clock_isr h) 3
      else if v = 33 then Interrupt_Gate kernel_cs (keyboard_isr h) 3
      else if v = 49 then Interrupt_Gate kernel_cs (syscall_isr h) 3
      else No_Gate)"

lemma fold_update:
  "length (fold (\<lambda>i g. g[i + k := f i]) [0..<n] g) = length g"
  "j < length g \<Longrightarrow> fold (\<lambda>i g. g[i + k := f i]) [0..<n] g ! j = (if k \<le> j \<and> j < n + k then f (j - k) else g ! j)"
proof -
  show l: "length (fold (\<lambda>i g. g[i + k := f i]) [0..<n] g) = length g" for n
    by (induction n) simp_all
  show "j < length g \<Longrightarrow> fold (\<lambda>i g. g[i + k := f i]) [0..<n] g ! j = (if k \<le> j \<and> j < n + k then f (j - k) else g ! j)"
    by (induction n) (auto simp: nth_list_update l less_Suc_eq)
qed

lemma selector_indices:
  "selector_index base_tss = 1" "selector_index kernel_cs = 2" "selector_index kernel_ds = 3"
  "selector_index user_cs = 8" "selector_index user_ds = 9" "selector_index trap_tss_base = 10"
  by code_simp+

lemma setup_gdt_segments: "map segment_of (gdt (setup_gdt p m)) = map (gdt_spec p) [0..<8192]"
proof (rule nth_equalityI)
  show len: "length (map segment_of (gdt (setup_gdt p m))) = length (map (gdt_spec p) [0..<8192])"
    by (simp add: setup_gdt_def Let_def fold_update gdt_entries_def del: upt_rec_numeral)
  fix j assume "j < length (map segment_of (gdt (setup_gdt p m)))"
  then have j: "j < 8192" using len by (simp del: upt_rec_numeral)
  have "segment_of (gdt (setup_gdt p m) ! j) = gdt_spec p j"
    using j by (simp add: setup_gdt_def Let_def fold_update nth_list_update gdt_entries_def handler_entries_def
        selector_indices segment_tss segment_flat gate_zero gdt_spec_def sizeof_tss_def del: upt_rec_numeral)
  then show "map segment_of (gdt (setup_gdt p m)) ! j = map (gdt_spec p) [0..<8192] ! j"
    using j len by (simp del: upt_rec_numeral)
qed

text \<open>The loop of \<open>setup_idt\<close>.\<close>

lemma setup_traps:
  assumes "length (idt m) = 256"
  shows "n \<le> length (trap_tss m) \<Longrightarrow> idt (fold (setup_trap p) [0..<n] m) = map (\<lambda>v. if v < n then trap_gate v else idt m ! v) [0..<256]"
    and "n \<le> length (trap_tss m) \<Longrightarrow> trap_tss (fold (setup_trap p) [0..<n] m) =
      map (\<lambda>i. trap_task p (exception_handler_tasks p ! i) (trap_tss m ! i)) [0..<n] @ drop n (trap_tss m)"
    and "gdt (fold (setup_trap p) [0..<n] m) = gdt m" and "device (fold (setup_trap p) [0..<n] m) = device m"
proof (induction n)
  case 0
  { case 1 show ?case using map_nth [of "idt m"] assms by (simp del: upt_rec_numeral) }
next
  case (Suc n)
  { case 1 then show ?case using Suc assms
      by (intro nth_equalityI) (auto simp: setup_trap_def nth_list_update less_Suc_eq simp del: upt_rec_numeral) }
  { case 2 then show ?case using Suc
      by (simp add: setup_trap_def nth_append list_update_append flip: Cons_nth_drop_Suc) }
  { case 3 then show ?case using Suc by (simp add: setup_trap_def) }
  { case 4 then show ?case using Suc by (simp add: setup_trap_def) }
qed auto

lemma cpu_init_tables:
  assumes "length (exception_handler_tasks p) = 32" and "length (trap_tss m) = 32"
  shows "gdt (cpu_init outb p m) = gdt (setup_gdt p m)"
    and "idt (cpu_init outb p m) = map (\<lambda>v. if v < 32 then trap_gate v else 0) [0..<256]"
    and "trap_tss (cpu_init outb p m) =
      map (\<lambda>i. trap_task p (exception_handler_tasks p ! i) (trap_tss m ! i)) [0..<32]"
proof -
  have t: "trap_tss (setup_gdt p m) = trap_tss m" by (simp add: setup_gdt_def Let_def)
  let ?m = "(setup_gdt p m)\<lparr>idt := replicate idt_entries 0\<rparr>"
  have l: "length (idt ?m) = 256" "length (trap_tss ?m) = 32" using assms(2) t by (simp_all add: idt_entries_def)
  note c = setup_traps [OF l(1), where n = 32 and p = p]
  show "gdt (cpu_init outb p m) = gdt (setup_gdt p m)"
    using c(3) assms by (simp add: cpu_init_def setup_pic_def setup_tss_def setup_idt_def Let_def del: upt_rec_numeral)
  show "idt (cpu_init outb p m) = map (\<lambda>v. if v < 32 then trap_gate v else 0) [0..<256]"
    using c(1) assms t l
    by (simp add: cpu_init_def setup_pic_def setup_tss_def setup_idt_def Let_def idt_entries_def cong: map_cong
        del: upt_rec_numeral)
  show "trap_tss (cpu_init outb p m) = map (\<lambda>i. trap_task p (exception_handler_tasks p ! i) (trap_tss m ! i)) [0..<32]"
    using c(2) assms t l
    by (simp add: cpu_init_def setup_pic_def setup_tss_def setup_idt_def Let_def del: upt_rec_numeral)
qed

lemma get_idt_entry_index: "n < 256 \<Longrightarrow> unat (get_idt_entry (word_of_int (int n)) - idt_addr) div 8 = n"
proof -
  assume n: "n < 256"
  have "(8 * ucast (of_nat n :: u16) :: u32) = of_nat (8 * n)"
    using n by (simp add: unsigned_of_nat take_bit_eq_mod)
  then show ?thesis using n unat_of_nat32 [of "8 * n"] by (simp add: get_idt_entry_def)
qed

lemma register_ok:
  assumes "n < length (idt m)" and "length (idt m) = 256"
  shows "register (int n) handler m =
    Inr (m\<lparr>idt := (idt m)[n := entry_word (set_gate handler (entry_fields (idt m ! n)))]\<rparr>)"
  using assms get_idt_entry_index [of n] by (simp add: register_def register_interrupt_handler_def Let_def)

lemma trap_gate_fields: "always_0 (entry_fields (trap_gate v)) = 0" "always_0 (entry_fields 0) = 0"
proof -
  have "\<not> bit (trap_gate v) 44" by (auto simp: trap_gate_def Let_def bit_gate acc_task_gate_def)
  then show "always_0 (entry_fields (trap_gate v)) = 0"
    by (intro bit_word_eqI) (simp add: entry_fields_def bit_simps)
  show "always_0 (entry_fields 0) = 0" by (simp add: entry_fields_def)
qed

lemma unmask_small:
  assumes "irq < 8"
  shows "unmask outb inb irq m = Inr (m\<lparr>device :=
    outb (ucast (ucast (fst (inb 0x21 (device m))) AND NOT (push_bit (unat irq) (1 :: u32)))) 0x21
      (snd (inb 0x21 (device m)))\<rparr>)"
proof -
  have "irq < 32" using assms by (rule less_trans) simp
  then show ?thesis using assms
    by (simp add: unmask_def unmask_irq_def irq_line_def irq_port_def not_le Let_def split: prod.split)
qed

lemma tables_after_init:
  assumes "length (exception_handler_tasks p) = 32" and "length (trap_tss m) = 32"
  shows "\<exists>m1. init_interrupts outb inb h (cpu_init outb p m) = Inr m1 \<and>
    map segment_of (gdt m1) = map (gdt_spec p) [0..<8192] \<and>
    map gate_of (idt m1) = map (idt_spec h) [0..<256]"
proof -
  let ?m = "cpu_init outb p m"
  note t = cpu_init_tables [OF assms, where outb = outb]
  define e where "e = (\<lambda>n handler. entry_word (set_gate handler (entry_fields (idt ?m ! n))))"
  have li: "length (idt ?m) = 256" by (simp add: t del: upt_rec_numeral)
  have gate: "gate_of (e n handler) = Interrupt_Gate kernel_cs handler 3" if "n < 256" for n handler
    using that unfolding e_def by (intro gate_registered) (simp add: t trap_gate_fields del: upt_rec_numeral)
  obtain m1 where m1: "init_interrupts outb inb h ?m = Inr m1" "gdt m1 = gdt ?m"
    "idt m1 = (idt ?m)[32 := e 32 (clock_isr h), 33 := e 33 (keyboard_isr h), 14 := e 14 (page_fault_isr h),
       49 := e 49 (syscall_isr h)]"
    by (simp add: li register_ok [of 32, simplified] register_ok [of 33, simplified]
        register_ok [of 14, simplified] register_ok [of 49, simplified] init_interrupts_def init_clock_def init_keyboard_handler_def init_page_fault_handler_def
        init_syscall_handler_def set_clock_frequency_def unmask_small e_def Let_def split: prod.split)
  have "map gate_of (idt m1) = map (idt_spec h) [0..<256]"
    using li by (intro nth_equalityI)
      (auto simp: m1(3) nth_list_update gate idt_spec_def t(2) gate_trap gate_zero simp del: upt_rec_numeral)
  then show ?thesis using m1 t(1) setup_gdt_segments [of p m] by auto
qed

text \<open>
  C26. The tables the processor is given are well formed. Whatever was in memory, the start-up code
  and the registration of the four handlers succeed and leave in the GDT flat code and data segments
  of privilege 0 and 3, the task segments of the kernel and of the 32 exceptions, and nothing else;
  in the IDT a task gate for each exception, which only the breakpoint opens to user code, and
  interrupt gates into the four handlers, open to user code, and nothing else.
\<close>

theorem descriptor_tables:
  assumes "length (exception_handler_tasks p) = 32" and "length (trap_tss m) = 32"
  shows "\<exists>m1. init_interrupts outb inb h (cpu_init outb p m) = Inr m1 \<and>
    map segment_of (gdt m1) = map (gdt_spec p) [0..<8192] \<and>
    map gate_of (idt m1) = map (idt_spec h) [0..<256]"
  by (rule tables_after_init [OF assms])

definition log_outb :: "u8 \<Rightarrow> u16 \<Rightarrow> (u8 \<times> u16) list \<Rightarrow> (u8 \<times> u16) list" where "log_outb v port d = (v, port) # d"
definition log_inb :: "u16 \<Rightarrow> (u8 \<times> u16) list \<Rightarrow> u8 \<times> (u8 \<times> u16) list" where "log_inb port d = (0xFF, d)"

definition sample_places :: places where
  "sample_places = \<lparr>at_gdt = 0x10000, at_tss = 0x20000, at_trap_tss = 0x160000, at_trap_stack = 0x170000,
     at_first_stack = 0x151000, at_pgdir = 0x101000,
     exception_handler_tasks = map (\<lambda>i. 0x150000 + 16 * of_nat i) [0..<32]\<rparr>"

definition sample_machine :: "(u8 \<times> u16) list machine" where
  "sample_machine = \<lparr>gdt = [], idt = [], tss = tss_zero, trap_tss = replicate 32 tss_zero,
     regs = \<lparr>gdtr = (0, 0), ldtr = 0, idtr = (0, 0), tr = 0, reg_cs = 0, reg_ds = 0, reg_es = 0, reg_fs = 0,
       reg_gs = 0, reg_ss = 0\<rparr>, clock_frequency = 0, device = []\<rparr>"

definition sample_handlers :: handlers where
  "sample_handlers = \<lparr>clock_isr = 0x151000, keyboard_isr = 0x151100, page_fault_isr = 0x151200, syscall_isr = 0x151300\<rparr>"

theorem descriptor_tables_witness:
  "\<exists>m1. init_interrupts log_outb log_inb sample_handlers (cpu_init log_outb sample_places sample_machine) = Inr m1 \<and>
    segment_of (gdt m1 ! 10) = Task_Segment 0x160000 103 0 \<and>
    gate_of (idt m1 ! 13) = Task_Gate 0xB8 0 \<and> gate_of (idt m1 ! 32) = Interrupt_Gate 0x10 0x151000 3"
proof -
  have l: "length (exception_handler_tasks sample_places) = 32" "length (trap_tss sample_machine) = 32"
    by (simp_all add: sample_places_def sample_machine_def)
  obtain m1 where m1: "init_interrupts log_outb log_inb sample_handlers (cpu_init log_outb sample_places sample_machine) = Inr m1"
    "map segment_of (gdt m1) = map (gdt_spec sample_places) [0..<8192]"
    "map gate_of (idt m1) = map (idt_spec sample_handlers) [0..<256]"
    using descriptor_tables [OF l] by blast
  have len: "length (gdt m1) = 8192" "length (idt m1) = 256"
    using arg_cong [OF m1(2), of length] arg_cong [OF m1(3), of length] by (simp_all del: upt_rec_numeral)
  have "segment_of (gdt m1 ! 10) = gdt_spec sample_places 10" "gate_of (idt m1 ! 13) = idt_spec sample_handlers 13"
    "gate_of (idt m1 ! 32) = idt_spec sample_handlers 32"
    using arg_cong [OF m1(2), of "\<lambda>l. l ! 10"] arg_cong [OF m1(3), of "\<lambda>l. l ! 13"]
      arg_cong [OF m1(3), of "\<lambda>l. l ! 32"] len by (simp_all del: upt_rec_numeral)
  moreover have "gdt_spec sample_places 10 = Task_Segment 0x160000 103 0" "idt_spec sample_handlers 13 = Task_Gate 0xB8 0"
    "idt_spec sample_handlers 32 = Interrupt_Gate 0x10 0x151000 3"
    by (simp_all add: gdt_spec_def idt_spec_def sample_places_def sample_handlers_def trap_tss_base_def kernel_cs_def)
  ultimately show ?thesis using m1(1) by auto
qed

text \<open>
  An exception that goes through its task gate runs its own handler, in the kernel's segments and on
  the trap stack, and the debugger's \<open>tss_sel_2_tss\<close> finds the task segment behind the gate.
\<close>

theorem exception_runs_its_handler:
  assumes "length (exception_handler_tasks p) = 32" and "length (trap_tss m) = 32" and "v < 32"
  shows "tss_sel_2_tss (gdt (cpu_init outb p m)) (gate_selector (idt (cpu_init outb p m) ! v)) =
      at_trap_tss p + of_nat (104 * v) \<and>
    eip (trap_tss (cpu_init outb p m) ! v) = exception_handler_tasks p ! v \<and>
    cs (trap_tss (cpu_init outb p m) ! v) = 0x10 \<and> ss (trap_tss (cpu_init outb p m) ! v) = 0x18 \<and>
    esp (trap_tss (cpu_init outb p m) ! v) = at_trap_stack p + 16384 \<and>
    cr3 (trap_tss (cpu_init outb p m) ! v) = at_pgdir p"
proof -
  note t = cpu_init_tables [OF assms(1,2), where outb = outb]
  have sel: "gate_selector (trap_gate v) = trap_tss_base + 8 * of_nat v"
    by (simp add: trap_gate_def gate_decoded Let_def)
  have "(trap_tss_base + 8 * of_nat v :: u16) = of_nat (80 + 8 * v)" by (simp add: trap_tss_base_def)
  then have i: "unat (drop_bit 3 (trap_tss_base + 8 * of_nat v :: u16)) = 10 + v"
    using assms(3) by (simp add: unat_shr unat_of_nat take_bit_eq_mod del: of_nat_add of_nat_mult)
  have "seg_base (gdt (setup_gdt p m) ! (10 + v)) = at_trap_tss p + of_nat (104 * v)"
    using assms(3) by (simp add: setup_gdt_def Let_def fold_update gdt_entries_def handler_entries_def
        selector_indices tss_descriptor_def descriptor_base sizeof_tss_def del: upt_rec_numeral)
  then show ?thesis
    using assms(3) by (simp add: sel i tss_sel_2_tss_base t trap_task_def kernel_cs_def kernel_ds_def del: upt_rec_numeral)
qed

section \<open>Which interrupt lines are open\<close>

text \<open>
  What the 8259A documents: after the four initialisation words of each controller its data port is
  the mask register, which reads back what was written; an end of interrupt and the timer's ports do
  not change it.
\<close>

definition icw_sequence :: "(u8 \<times> u16) list" where
  "icw_sequence = [(0x11, 0x20), (0x20, 0x21), (0x4, 0x21), (0x1, 0x21),
     (0x11, 0xa0), (0x28, 0xa1), (0x2, 0xa1), (0x1, 0xa1)]"

definition pic_device ::
  "(u8 \<Rightarrow> u16 \<Rightarrow> 'd \<Rightarrow> 'd) \<Rightarrow> (u16 \<Rightarrow> 'd \<Rightarrow> u8 \<times> 'd) \<Rightarrow> ('d \<Rightarrow> bool) \<Rightarrow> ('d \<Rightarrow> u8) \<Rightarrow> ('d \<Rightarrow> u8) \<Rightarrow> bool" where
  "pic_device outb inb ready master slave \<longleftrightarrow>
     (\<forall>d. ready (outs outb icw_sequence d)) \<and>
     (\<forall>d v. ready d \<longrightarrow> ready (outb v 0x21 d) \<and> master (outb v 0x21 d) = v \<and> slave (outb v 0x21 d) = slave d) \<and>
     (\<forall>d v. ready d \<longrightarrow> ready (outb v 0xa1 d) \<and> slave (outb v 0xa1 d) = v \<and> master (outb v 0xa1 d) = master d) \<and>
     (\<forall>d v port. ready d \<longrightarrow> port \<in> {0x40, 0x43} \<or> v = 0x20 \<and> port \<in> {0x20, 0xa0} \<longrightarrow>
        ready (outb v port d) \<and> master (outb v port d) = master d \<and> slave (outb v port d) = slave d) \<and>
     (\<forall>d port. ready d \<longrightarrow> port \<in> {0x21, 0xa1} \<longrightarrow>
        fst (inb port d) = (if port = 0x21 then master d else slave d) \<and> ready (snd (inb port d)) \<and>
        master (snd (inb port d)) = master d \<and> slave (snd (inb port d)) = slave d)"

lemma clear_bit_0: "ucast (ucast (0xFF :: u8) AND NOT (push_bit (unat (0 :: u8)) (1 :: u32))) = (0xFE :: u8)"
  and clear_bit_1: "ucast (ucast (0xFE :: u8) AND NOT (push_bit (unat (1 :: u8)) (1 :: u32))) = (0xFC :: u8)"
  by code_simp+

lemma pic_after_init:
  assumes "pic_device outb inb ready master slave"
  shows "ready (device (cpu_init outb p m)) \<and> master (device (cpu_init outb p m)) = 0xFF \<and>
    slave (device (cpu_init outb p m)) = 0xFF"
proof -
  define d where "d = outs outb icw_sequence (device (setup_tss p (setup_idt p (setup_gdt p m))))"
  have "ready d" using assms unfolding pic_device_def d_def by blast
  moreover have "device (cpu_init outb p m) = outb 0xff 0xa1 (outb 0xff 0x21 (outb 0x20 0xa0 (outb 0x20 0x20 d)))"
    by (simp add: cpu_init_def setup_pic_def d_def icw_sequence_def outs_def)
  ultimately show ?thesis using assms by (simp add: pic_device_def)
qed

text \<open>
  On an interrupt controller that works as documented, the start-up code leaves exactly two
  interrupt lines open: the timer's and the keyboard's. The six other lines of the first controller
  and all of the second stay masked.
\<close>

theorem timer_and_keyboard_only:
  assumes "length (exception_handler_tasks p) = 32" and "length (trap_tss m) = 32"
    and "pic_device outb inb ready master slave"
  shows "\<exists>m1. init_interrupts outb inb h (cpu_init outb p m) = Inr m1 \<and>
    master (device m1) = 0xFC \<and> slave (device m1) = 0xFF"
proof -
  let ?m = "cpu_init outb p m"
  note t = cpu_init_tables [OF assms(1,2), where outb = outb]
  have li: "length (idt ?m) = 256" by (simp add: t del: upt_rec_numeral)
  define d0 where "d0 = outs outb [(0x34, 0x43), (ucast (ucast (pit_quartz div 50) :: u16), 0x40),
    (ucast ((ucast (pit_quartz div 50) :: u16) div 256), 0x40)] (device ?m)"
  have d0: "ready d0 \<and> master d0 = 0xFF \<and> slave d0 = 0xFF"
    using pic_after_init [OF assms(3), of p m] assms(3) by (simp add: d0_def outs_def pic_device_def)
  define d1 where "d1 = outb 0xFE 0x21 (snd (inb 0x21 d0))"
  have d1: "ready d1 \<and> master d1 = 0xFE \<and> slave d1 = 0xFF" using d0 assms(3) by (simp add: d1_def pic_device_def)
  define d2 where "d2 = outb 0xFC 0x21 (snd (inb 0x21 d1))"
  have d2: "ready d2 \<and> master d2 = 0xFC \<and> slave d2 = 0xFF" using d1 assms(3) by (simp add: d2_def pic_device_def)
  have reads: "fst (inb 0x21 d0) = 0xFF" "fst (inb 0x21 d1) = 0xFE" using d0 d1 assms(3) by (simp_all add: pic_device_def)
  have u0: "unmask outb inb 0 n = Inr (n\<lparr>device := d1\<rparr>)" if "device n = d0" for n :: "'a machine"
    by (subst unmask_small) (simp_all only: that reads clear_bit_0 d1_def, simp)
  have u1: "unmask outb inb 1 n = Inr (n\<lparr>device := d2\<rparr>)" if "device n = d1" for n :: "'a machine"
    by (subst unmask_small) (simp_all only: that reads clear_bit_1 d2_def, simp)
  have "\<exists>m1. init_interrupts outb inb h ?m = Inr m1 \<and> device m1 = d2"
    by (simp add: li register_ok [of 32, simplified] register_ok [of 33, simplified]
        register_ok [of 14, simplified] register_ok [of 49, simplified] init_interrupts_def
        init_clock_def init_keyboard_handler_def init_page_fault_handler_def init_syscall_handler_def
        set_clock_frequency_def u0 u1 Let_def flip: d0_def)
  then show ?thesis using d2 by blast
qed

text \<open>A controller that follows the data sheet: each side counts down its initialisation words.\<close>

record pic =
  master_words :: nat
  master_mask :: u8
  slave_words :: nat
  slave_mask :: u8

definition pic_outb :: "u8 \<Rightarrow> u16 \<Rightarrow> pic \<Rightarrow> pic" where
  "pic_outb v port d =
     (if port = 0x20 then (if bit v 4 then d\<lparr>master_words := 3\<rparr> else d)
      else if port = 0xa0 then (if bit v 4 then d\<lparr>slave_words := 3\<rparr> else d)
      else if port = 0x21 then (if master_words d = 0 then d\<lparr>master_mask := v\<rparr> else d\<lparr>master_words := master_words d - 1\<rparr>)
      else if port = 0xa1 then (if slave_words d = 0 then d\<lparr>slave_mask := v\<rparr> else d\<lparr>slave_words := slave_words d - 1\<rparr>)
      else d)"

definition pic_inb :: "u16 \<Rightarrow> pic \<Rightarrow> u8 \<times> pic" where
  "pic_inb port d = (if port = 0x21 then master_mask d else if port = 0xa1 then slave_mask d else 0, d)"

theorem timer_and_keyboard_only_witness:
  "\<exists>m1. init_interrupts pic_outb pic_inb sample_handlers (cpu_init pic_outb sample_places
      \<lparr>gdt = [], idt = [], tss = tss_zero, trap_tss = replicate 32 tss_zero, regs = regs sample_machine,
       clock_frequency = 0, device = \<lparr>master_words = 2, master_mask = 1, slave_words = 0, slave_mask = 0\<rparr>\<rparr>) = Inr m1 \<and>
    master_mask (device m1) = 0xFC \<and> slave_mask (device m1) = 0xFF"
proof -
  have b: "\<not> bit (0x20 :: u8) 4" "bit (0x11 :: u8) 4" by code_simp+
  have "pic_device pic_outb pic_inb (\<lambda>d. master_words d = 0 \<and> slave_words d = 0) master_mask slave_mask"
    using b by (auto simp: pic_device_def outs_def icw_sequence_def pic_outb_def pic_inb_def)
  moreover have "length (exception_handler_tasks sample_places) = 32" by (simp add: sample_places_def)
  ultimately show ?thesis by (intro timer_and_keyboard_only) simp_all
qed

end
