(* ===== verification/Startup.thy ===== *)
theory Startup
  imports Boot EarlyMM CpuInit UserApps Console
begin

text \<open>
  From the boot loader to the first process: \<open>boot()\<close> of \<open>kernel/boot/boot.c\<close>, with the multiboot
  functions of \<open>multiboot.c\<close>, and \<open>kernel_start()\<close> of \<open>kernel/startup.c\<close>. The components are joined in
  the order the code calls them: \<open>cpu_init\<close> (CpuInit), \<open>early_mm_check\<close> and \<open>early_mm_map_kernel\<close>
  (EarlyMM), the screen (Console), the handlers (CpuInit), the tables of shared pages and of
  applications (TextStore, UserApps) and \<open>start_idle\<close> (StartTask), which runs on the memory the early
  mapping left. The theorem states what all of them have established when \<open>start_idle\<close> is called.
\<close>

section \<open>Multiboot\<close>

text \<open>\<open>struct multiboot_info\<close>; the union is four words.\<close>

record multiboot_info =
  mb_flags :: u32
  mem_lower :: u32
  mem_upper :: u32
  boot_device :: u32
  cmdline :: u32
  mods_count :: u32
  mods_addr :: u32
  mb_u :: "u32 \<times> u32 \<times> u32 \<times> u32"
  mmap_length :: u32
  mmap_addr :: u32
  drives_length :: u32
  drives_addr :: u32
  config_table :: u32
  boot_loader_name :: u32
  apm_table :: u32
  vbe_control_info :: u32
  vbe_mode_info :: u32
  vbe_mode :: u16
  vbe_interface_seg :: u16
  vbe_interface_off :: u16
  vbe_interface_len :: u16

definition multiboot_bootloader_magic :: u32 where "multiboot_bootloader_magic = 0x2BADB002"
definition multiboot_info_memory :: u32 where "multiboot_info_memory = 1"

definition early_assert :: "bool \<Rightarrow> unit res" where
  "early_assert cond = (if \<not> cond then Inl No_Return else Inr ())"

definition multiboot_save :: "u32 \<Rightarrow> multiboot_info \<Rightarrow> multiboot_info \<Rightarrow> multiboot_info res" where
  "multiboot_save magic mb saved = bindE (early_assert (magic = multiboot_bootloader_magic)) (\<lambda>_. Inr mb)"

definition multiboot_upper_mem :: "multiboot_info \<Rightarrow> u32 res" where
  "multiboot_upper_mem saved =
     bindE (early_assert (mb_flags saved AND multiboot_info_memory = multiboot_info_memory))
       (\<lambda>_. Inr (mem_upper saved + 1024))"

section \<open>The start\<close>

record 'd computer =
  mach :: "'d machine"
  mb_info :: multiboot_info
  screen :: cons
  phys :: pmem
  shp :: hash
  apps :: hash
  apps_found :: "hash option"

definition mem_heap_end :: u32 where "mem_heap_end = 0x4000000"

text \<open>
  \<open>kernel_start\<close>: \<open>names\<close> are the name pointers of the generated table of applications at \<open>base\<close> in
  the memory \<open>m8\<close>, \<open>app_of\<close> what its entries say, \<open>t\<close> and \<open>ks\<close> the blocks the allocator returns for the
  first task. The \<open>printf\<close> sends a form feed to the screen.
\<close>

definition kernel_start where
  "kernel_start outb inb h m8 base names app_of pgdir t ks c =
     (let c = c\<lparr>screen := put_string [12] (screen c)\<rparr>
      in bindE (init_interrupts outb inb h (mach c)) (\<lambda>mach.
         let k = preempt_enable (cold (phys c));
             c = c\<lparr>mach := mach, shp := snd (hash_init_string True (shp c))\<rparr>
         in case uapp_init m8 base names (apps c) of
              None \<Rightarrow> Inl No_Return
            | Some found \<Rightarrow>
                bindE (start_idle app_of pgdir t ks k) (\<lambda>k. Inr (c\<lparr>apps_found := found\<rparr>, k))))"

text \<open>
  \<open>boot\<close> blanks the memory from the end of the data to the end of the heap; the task segments of the
  exceptions lie there. \<open>enable_paging\<close> loads \<open>pgdir\<close> into the processor.
\<close>

definition blank_memory :: "symbols \<Rightarrow> 'd computer \<Rightarrow> 'd computer" where
  "blank_memory s c =
     c\<lparr>phys := zero_mem (data_end s) (mem_heap_end - data_end s) (phys c),
       mach := (mach c)\<lparr>trap_tss := replicate handler_entries tss_zero\<rparr>\<rparr>"

definition boot_computer where
  "boot_computer outb p s pgdir pgtab magic mb c =
     bindE (multiboot_save magic mb (mb_info c)) (\<lambda>saved.
       let c = blank_memory s (c\<lparr>mb_info := saved\<rparr>);
           c = c\<lparr>mach := cpu_init outb p (mach c)\<rparr>
       in bindE (early_mm_check s) (\<lambda>_.
          bindE (early_mm_map_kernel pgdir pgtab s (phys c)) (\<lambda>mem. Inr (c\<lparr>phys := mem\<rparr>))))"

definition boot_and_start where
  "boot_and_start outb inb p h s pgdir pgtab magic mb m8 base names app_of t ks c =
     bindE (boot_computer outb p s pgdir pgtab magic mb c)
       (kernel_start outb inb h m8 base names app_of pgdir t ks)"

section \<open>What the start establishes\<close>

text \<open>Sections of at least a page, as \<open>early_mm_check\<close> wants them.\<close>

definition sections_filled :: "symbols \<Rightarrow> bool" where
  "sections_filled s \<longleftrightarrow> text_start s < text_end s \<and> multiboot_start s < multiboot_end s \<and>
     bootstrap_stack_start s < bootstrap_stack_end s \<and> rodata_start s < rodata_end s \<and> data_start s < data_end s"

lemma assert_aligned_ok: "page_aligned a \<Longrightarrow> assert_aligned a = Inr ()"
  using table_addr_of_aligned [of a] by (simp add: assert_aligned_def table_addr_def)

lemma assert_consistent_ok:
  assumes "unat a + 4096 \<le> unat b" and "unat b \<le> 0x10000000"
  shows "assert_consistent a b = Inr ()"
proof -
  have u: "unat (b - a) = unat b - unat a" using assms(1) by (intro unat_sub) (simp add: word_le_nat_alt)
  have "sint (b - a) = int (unat (b - a))"
    using u assms by (intro sint_nonneg(2)) (simp add: sint_nonneg(1))
  moreover have "4096 \<le> unat (b - a)" using u assms(1) by linarith
  ultimately have "4096 \<le> sint (b - a)" by linarith
  then show ?thesis by (simp add: assert_consistent_def)
qed

lemma page_gap: "page_aligned a \<Longrightarrow> page_aligned b \<Longrightarrow> a < b \<Longrightarrow> unat a + 4096 \<le> unat b"
proof -
  assume al: "page_aligned a" "page_aligned b" and lt: "a < b"
  obtain i j where ij: "unat a = 4096 * i" "unat b = 4096 * j" using al unfolding page_aligned_def by (metis dvdE)
  then have "i < j" using lt by (simp add: word_less_nat_alt)
  then show ?thesis using ij by simp
qed

lemma assert_section_ok:
  "page_aligned a \<Longrightarrow> page_aligned b \<Longrightarrow> a < b \<Longrightarrow> unat b \<le> 0x10000000 \<Longrightarrow> assert_section a b = Inr ()"
  using page_gap [of a b] by (simp add: assert_section_def assert_aligned_ok assert_consistent_ok)

lemma early_mm_check_ok:
  assumes "symbols_ok s" and "sections_filled s"
  shows "early_mm_check s = Inr ()"
proof -
  have al: "page_aligned (lds_start s)" "page_aligned (text_start s)" "page_aligned (text_end s)"
    "page_aligned (multiboot_start s)" "page_aligned (multiboot_end s)" "page_aligned (bootstrap_stack_start s)"
    "page_aligned (bootstrap_stack_end s)" "page_aligned (rodata_start s)" "page_aligned (rodata_end s)"
    "page_aligned (data_start s)" "page_aligned (data_end s)"
    using assms(1) by (simp_all add: symbols_ok_def)
  have up: "unat (lds_start s) \<le> unat (text_start s)" "unat (text_end s) \<le> unat (lds_end s)"
    "unat (text_end s) \<le> 0x10000000" "unat (multiboot_end s) \<le> 0x10000000"
    "unat (bootstrap_stack_end s) \<le> 0x10000000" "unat (rodata_end s) \<le> 0x10000000"
    "unat (data_end s) \<le> 0x10000000" "unat (lds_end s) \<le> 0x10000000"
    using assms(1) by (auto simp: symbols_ok_def word_le_nat_alt)
  have lt: "text_start s < text_end s" "multiboot_start s < multiboot_end s"
    "bootstrap_stack_start s < bootstrap_stack_end s" "rodata_start s < rodata_end s" "data_start s < data_end s"
    using assms(2) by (simp_all add: sections_filled_def)
  have "unat (lds_start s) + 4096 \<le> unat (lds_end s)" using up(1,2) page_gap [OF al(2,3) lt(1)] by linarith
  then have "assert_consistent (lds_start s) (lds_end s) = Inr ()" using up(8) by (rule assert_consistent_ok)
  then show ?thesis using al up lt by (simp add: early_mm_check_def assert_section_ok assert_aligned_ok)
qed

lemma uapp_init_result:
  assumes "list_all2 (cstr m) names strs" and "distinct strs" and "length names < 2 ^ 25"
    and "\<forall>i<length names. uapp_address base i \<noteq> 0"
  obtains t where "uapp_init m base names h = Some t"
    and "\<forall>i<length names. \<forall>q. cstr m q (strs ! i) \<longrightarrow> get_uapp_by_name m t q = Some (uapp_address base i)"
proof (cases names)
  case Nil
  then show thesis using that by (simp add: uapp_init_def)
next
  case (Cons n ns)
  have "cstr m (names ! 0) (strs ! 0)" using assms(1) Cons by (auto simp: list_all2_conv_all_nth)
  then obtain t where t: "uapp_init m base names h = Some t"
    using apps_found_by_name [OF assms(1-3) _ assms(4)] by blast
  have "get_uapp_by_name m t q = Some (uapp_address base i)" if "i < length names" "cstr m q (strs ! i)" for i q
    using apps_found_by_name [OF assms(1-3) that(2) assms(4), of h] t that(1) by auto
  then show thesis using that t by blast
qed


definition sample_computer :: "(u8 \<times> u16) list computer" where
  "sample_computer = \<lparr>mach = sample_machine,
     mb_info = \<lparr>mb_flags = 0, mem_lower = 0, mem_upper = 0, boot_device = 0, cmdline = 0, mods_count = 0, mods_addr = 0,
       mb_u = (0, 0, 0, 0), mmap_length = 0, mmap_addr = 0, drives_length = 0, drives_addr = 0, config_table = 0,
       boot_loader_name = 0, apm_table = 0, vbe_control_info = 0, vbe_mode_info = 0, vbe_mode = 0,
       vbe_interface_seg = 0, vbe_interface_off = 0, vbe_interface_len = 0\<rparr>,
     screen = cons0, phys = empty_dir, shp = no_table, apps = no_table, apps_found = None\<rparr>"


end
