(* ===== verification/Sbrk.thy ===== *)
theory Sbrk
  imports Prelude
begin

text \<open>
  The two program breaks under the memory allocator: \<open>sbrk\<close> of \<open>kernel/mem.c\<close>, on the heap between
  \<open>mem_heap\<close> and \<open>mem_heap_end\<close>, and \<open>sbrk\<close> of \<open>user/lib/sbrk.c\<close>, on an array of 4 KB. Their contract
  is the locale \<open>program_break\<close>: a request that fits moves the break up and returns the old one, every
  other request is refused and changes nothing. What a client needs is proved in the locale: the
  blocks handed out are consecutive, so they never overlap and never leave the heap.
\<close>

section \<open>The functions\<close>

definition sbrk_failed :: u32 where "sbrk_failed = - 1"

record kernel_heap =
  curptr :: u32
  mem_heap_end :: u32

definition kernel_sbrk :: "int \<Rightarrow> kernel_heap \<Rightarrow> u32 \<times> kernel_heap" where
  "kernel_sbrk diff st =
     (let s = curptr st; c = s + word_of_int diff
      in if c < curptr st \<or> mem_heap_end st < c then (sbrk_failed, st) else (s, st\<lparr>curptr := c\<rparr>))"

definition heap_size :: u32 where "heap_size = 0x1000"

record user_heap =
  heap :: u32
  current :: u32

definition heap_end :: "user_heap \<Rightarrow> u32" where "heap_end st = heap st + heap_size"

definition user_sbrk :: "int \<Rightarrow> user_heap \<Rightarrow> u32 \<times> user_heap" where
  "user_sbrk increment st =
     (let s = current st; c = s + word_of_int increment
      in if c < current st \<or> heap_end st < c then (sbrk_failed, st) else (s, st\<lparr>current := c\<rparr>))"

section \<open>The contract\<close>

locale program_break =
  fixes sbrk :: "int \<Rightarrow> 's \<Rightarrow> u32 \<times> 's" and valid :: "'s \<Rightarrow> bool" and brk :: "'s \<Rightarrow> nat" and limit :: "'s \<Rightarrow> nat"
  assumes below: "valid s \<Longrightarrow> brk s \<le> limit s" and small: "valid s \<Longrightarrow> limit s < 2 ^ 31"
    and grows: "valid s \<Longrightarrow> 0 \<le> d \<Longrightarrow> int (brk s) + d \<le> int (limit s) \<Longrightarrow>
      \<exists>s'. sbrk d s = (of_nat (brk s), s') \<and> valid s' \<and> brk s' = brk s + nat d \<and> limit s' = limit s"
    and refuses: "valid s \<Longrightarrow> - (2 ^ 31) \<le> d \<Longrightarrow> d < 2 ^ 31 \<Longrightarrow> \<not> (0 \<le> d \<and> int (brk s) + d \<le> int (limit s)) \<Longrightarrow>
      sbrk d s = (sbrk_failed, s)"
begin

text \<open>A sequence of requests, with the blocks that were handed out: where they start and how long they are.\<close>

fun requests :: "int list \<Rightarrow> 's \<Rightarrow> (nat \<times> nat) list \<times> 's" where
  "requests [] s = ([], s)"
| "requests (d # ds) s =
     (case sbrk d s of (p, s1) \<Rightarrow> case requests ds s1 of (bs, s2) \<Rightarrow>
        (if p = sbrk_failed then bs else (unat p, nat d) # bs, s2))"

fun consecutive :: "nat \<Rightarrow> (nat \<times> nat) list \<Rightarrow> nat \<Rightarrow> bool" where
  "consecutive a [] b \<longleftrightarrow> a = b"
| "consecutive a ((p, n) # bs) b \<longleftrightarrow> p = a \<and> consecutive (p + n) bs b"

lemma brk_not_failed: "valid s \<Longrightarrow> (of_nat (brk s) :: u32) \<noteq> sbrk_failed \<and> unat (of_nat (brk s) :: u32) = brk s"
proof -
  assume v: "valid s"
  then have b: "brk s < 2 ^ 31" using below [OF v] small [OF v] by simp
  then have u: "unat (of_nat (brk s) :: u32) = brk s" by (intro unat_of_nat32) simp
  moreover have "unat sbrk_failed = 2 ^ 32 - 1" by (simp add: sbrk_failed_def unsigned_minus_1_eq_mask mask_eq_exp_minus_1)
  ultimately show ?thesis using b by auto
qed

lemma requests_consecutive:
  assumes "valid s" and "list_all (\<lambda>d. - (2 ^ 31) \<le> d \<and> d < 2 ^ 31) ds" and "requests ds s = (bs, s')"
  shows "valid s' \<and> limit s' = limit s \<and> consecutive (brk s) bs (brk s') \<and> brk s' \<le> limit s"
  using assms
proof (induction ds arbitrary: s bs)
  case Nil
  then show ?case using below by auto
next
  case (Cons d ds)
  show ?case
  proof (cases "0 \<le> d \<and> int (brk s) + d \<le> int (limit s)")
    case True
    then obtain s1 where s1: "sbrk d s = (of_nat (brk s), s1)" "valid s1" "brk s1 = brk s + nat d" "limit s1 = limit s"
      using grows [OF Cons.prems(1)] by blast
    obtain bs1 where bs1: "requests ds s1 = (bs1, s')" "bs = (brk s, nat d) # bs1"
      using Cons.prems(3) s1(1) brk_not_failed [OF Cons.prems(1)] by (auto split: prod.splits)
    show ?thesis using Cons.IH [OF s1(2) _ bs1(1)] Cons.prems(2) s1 bs1(2) by simp
  next
    case False
    then have "sbrk d s = (sbrk_failed, s)" using refuses [OF Cons.prems(1)] Cons.prems(2) by simp
    then show ?thesis using Cons.IH [OF Cons.prems(1)] Cons.prems(2,3) by (auto split: prod.splits)
  qed
qed

end

section \<open>Both breaks keep it\<close>

text \<open>The arithmetic of both functions: on a break below \<open>2 ^ 31\<close> no addition of an \<open>int\<close> wraps unnoticed.\<close>

lemma break_sum:
  fixes s l :: u32 and d :: int
  assumes "unat s \<le> unat l" and "unat l < 2 ^ 31" and "- (2 ^ 31) \<le> d" and "d < 2 ^ 31"
  shows "\<not> (s + word_of_int d < s \<or> l < s + word_of_int d) \<longleftrightarrow> 0 \<le> d \<and> int (unat s) + d \<le> int (unat l)"
    and "0 \<le> d \<Longrightarrow> unat (s + word_of_int d) = unat s + nat d"
proof -
  have pos: "unat (s + word_of_int d) = unat s + nat d" if "0 \<le> d"
  proof -
    have "(word_of_int d :: u32) = of_nat (nat d)" using that by simp
    then show ?thesis using assms that by (simp only:) (intro unat_plus_of_nat, simp)
  qed
  then show "0 \<le> d \<Longrightarrow> unat (s + word_of_int d) = unat s + nat d" .
  have neg: "s + word_of_int d < s \<or> l < s + word_of_int d" if "d < 0"
  proof -
    define n where "n = nat (- d)"
    have n: "0 < n" "n \<le> 2 ^ 31" "d = - int n" using that assms(3) by (simp_all add: n_def)
    have un: "unat (of_nat n :: u32) = n" using n(2) by (intro unat_of_nat32) simp
    have w: "s + word_of_int d = s - of_nat n" by (simp add: n(3))
    show ?thesis
    proof (cases "n \<le> unat s")
      case True
      then have "unat (s - of_nat n) = unat s - n" using un by (subst unat_sub) (simp_all add: word_le_nat_alt)
      then show ?thesis using w n(1) True by (simp add: word_less_nat_alt)
    next
      case False
      have "unat (s - of_nat n) = 2 ^ 32 + unat s - n"
        using False n(2) un by (simp add: unat_sub_if_size word_size)
      moreover have "unat l < 2 ^ 32 + unat s - n" using n(2) assms(1,2) by simp
      ultimately have "unat l < unat (s + word_of_int d)" unfolding w by simp
      then show ?thesis by (simp add: word_less_nat_alt)
    qed
  qed
  show "\<not> (s + word_of_int d < s \<or> l < s + word_of_int d) \<longleftrightarrow> 0 \<le> d \<and> int (unat s) + d \<le> int (unat l)"
  proof (cases "0 \<le> d")
    case True
    have "int (unat s + nat d) = int (unat s) + d" using True by (simp only: of_nat_add nat_0_le)
    moreover have "\<not> (s + word_of_int d < s \<or> l < s + word_of_int d) \<longleftrightarrow> unat s + nat d \<le> unat l"
      using pos [OF True] by (auto simp: word_less_nat_alt)
    ultimately show ?thesis using True by (metis of_nat_le_iff)
  next
    case False
    then show ?thesis using neg by auto
  qed
qed

lemma small_request: "int a + d \<le> int l \<Longrightarrow> l < 2 ^ 31 \<Longrightarrow> d < 2 ^ 31" for a l :: nat
proof -
  assume le: "int a + d \<le> int l" and "l < 2 ^ 31"
  then have "int l < 2 ^ 31" by simp
  then show "d < 2 ^ 31" using le by linarith
qed

definition kernel_heap_ok :: "kernel_heap \<Rightarrow> bool" where
  "kernel_heap_ok st \<longleftrightarrow> unat (curptr st) \<le> unat (mem_heap_end st) \<and> unat (mem_heap_end st) < 2 ^ 31"

definition user_heap_ok :: "user_heap \<Rightarrow> bool" where
  "user_heap_ok st \<longleftrightarrow> unat (current st) \<le> unat (heap_end st) \<and> unat (heap_end st) < 2 ^ 31"

interpretation kernel_break: program_break kernel_sbrk kernel_heap_ok "\<lambda>st. unat (curptr st)" "\<lambda>st. unat (mem_heap_end st)"
proof (unfold_locales, goal_cases)
  case (3 st d)
  have ok: "unat (curptr st) \<le> unat (mem_heap_end st)" "unat (mem_heap_end st) < 2 ^ 31" using 3(1) by (simp_all add: kernel_heap_ok_def)
  have d: "- (2 ^ 31) \<le> d" "d < 2 ^ 31" using 3(2) small_request [OF 3(3) ok(2)] by simp_all
  have sum: "\<not> (curptr st + word_of_int d < curptr st \<or> mem_heap_end st < curptr st + word_of_int d)" "unat (curptr st + word_of_int d) = unat (curptr st) + nat d"
    using 3(2,3) break_sum [OF ok d] by blast+
  then show ?case using ok by (auto simp: kernel_heap_ok_def kernel_sbrk_def Let_def word_less_nat_alt)
next
  case (4 st d)
  have ok: "unat (curptr st) \<le> unat (mem_heap_end st)" "unat (mem_heap_end st) < 2 ^ 31" using 4(1) by (simp_all add: kernel_heap_ok_def)
  show ?case using 4(4) break_sum(1) [OF ok 4(2,3)] by (auto simp: kernel_sbrk_def Let_def)
qed (simp_all add: kernel_heap_ok_def)

interpretation user_break: program_break user_sbrk user_heap_ok "\<lambda>st. unat (current st)" "\<lambda>st. unat (heap_end st)"
proof (unfold_locales, goal_cases)
  case (3 st d)
  have ok: "unat (current st) \<le> unat (heap_end st)" "unat (heap_end st) < 2 ^ 31" using 3(1) by (simp_all add: user_heap_ok_def)
  have d: "- (2 ^ 31) \<le> d" "d < 2 ^ 31" using 3(2) small_request [OF 3(3) ok(2)] by simp_all
  have sum: "\<not> (current st + word_of_int d < current st \<or> heap_end st < current st + word_of_int d)" "unat (current st + word_of_int d) = unat (current st) + nat d"
    using 3(2,3) break_sum [OF ok d] by blast+
  then show ?case using ok by (auto simp: user_heap_ok_def user_sbrk_def heap_end_def Let_def word_less_nat_alt)
next
  case (4 st d)
  have ok: "unat (current st) \<le> unat (heap_end st)" "unat (heap_end st) < 2 ^ 31" using 4(1) by (simp_all add: user_heap_ok_def)
  show ?case using 4(4) break_sum(1) [OF ok 4(2,3)] by (auto simp: user_sbrk_def Let_def)
qed (simp_all add: user_heap_ok_def)



end
