(* ===== verification/Ps.thy ===== *)
theory Ps
  imports Demo Printf
begin

text \<open>
  The listings of \<open>kernel/task.c\<close>: \<open>ps\<close>, a system call that prints the tasks of the global list, and
  \<open>debug_print\<close>, which prints the queues of the scheduler and asserts the states of the tasks on them.
  What \<open>printf\<close> sends to the console is a list of characters, in order. The theorems say what a
  consistent kernel prints: a line for every living task and no other, with its numbers in decimal,
  and that the assertions of \<open>debug_print\<close> hold.
\<close>

section \<open>The two listings\<close>

definition pr :: "string \<Rightarrow> arg list \<Rightarrow> u8 list \<Rightarrow> u8 list res" where
  "pr fmt args con = bindE (printf (letters fmt) args con) (\<lambda>(_, con). Inr con)"

definition tab :: string where "tab = [CHR 0x09]"
definition newline :: string where "newline = [CHR 0x0A]"

fun state_number :: "tstate \<Rightarrow> u32" where
  "state_number Startup = 0"
| "state_number Running = 1"
| "state_number Ready = 2"
| "state_number Sleeping = 3"
| "state_number Zombie = 4"
| "state_number Int_Sem = 5"
| "state_number Int_Msg = 6"
| "state_number Int_IO = 7"
| "state_number Int_Child = 8"

definition ps_state :: "tstate \<Rightarrow> u8 list \<Rightarrow> u8 list res" where
  "ps_state s =
     (case s of
        Running \<Rightarrow> pr ''run'' []
      | Ready \<Rightarrow> pr ''ready'' []
      | Sleeping \<Rightarrow> pr ''sleep'' []
      | Zombie \<Rightarrow> pr ''zombie'' []
      | Int_Msg \<Rightarrow> pr ''in msg'' []
      | Int_Child \<Rightarrow> pr ''child'' []
      | _ \<Rightarrow> pr ''{%d}'' [A_word (state_number s)])"

text \<open>\<open>p->comm\<close> as a string: its bytes up to the first null byte, which the array must hold.\<close>

definition comm_string :: "task \<Rightarrow> u8 list res" where
  "comm_string x = (if 0 \<in> set (t_comm x) then Inr (takeWhile (\<lambda>c. c \<noteq> 0) (t_comm x)) else Inl Out_Of_Bounds)"

definition ps_task :: "kst \<Rightarrow> tid \<Rightarrow> u8 list \<Rightarrow> u8 list res" where
  "ps_task k p con =
     bindE (get_task p k) (\<lambda>x.
     bindE (pr (''%d'' @ tab @ ''%d'' @ tab) [A_word (word_of_int (t_pid x)), A_word (word_of_int (t_priority x))] con) (\<lambda>con.
     bindE (ps_state (t_state x) con) (\<lambda>con.
     bindE (pr tab [] con) (\<lambda>con.
     bindE (comm_string x) (\<lambda>comm.
     bindE (pr (tab @ ''%s'') [A_str (Some comm)] con)
       (pr newline []))))))"

definition ps :: "kst \<Rightarrow> u8 list \<Rightarrow> u8 list res" where
  "ps k con =
     bindE (pr ''ps'' [] con) (\<lambda>con.
     bindE (pr (''pid'' @ tab @ ''prio'' @ tab @ ''state'' @ tab @ ''name'' @ newline) [] con)
       (foldE (ps_task k) (qlist (glob k) ())))"

text \<open>A loop of \<open>debug_print\<close> over one queue: every task on it is in the state \<open>s\<close>.\<close>

definition debug_task :: "tstate \<Rightarrow> string \<Rightarrow> (task \<Rightarrow> u32) \<Rightarrow> kst \<Rightarrow> tid \<Rightarrow> u8 list \<Rightarrow> u8 list res" where
  "debug_task s fmt field k p con =
     bindE (get_task p k) (\<lambda>x.
     bindE (assertE (t_state x = s) con) (pr fmt [A_word (word_of_int (t_pid x)), A_word (field x)]))"

definition debug_print :: "kst \<Rightarrow> u8 list \<Rightarrow> u8 list res" where
  "debug_print k con =
     bindE (bindE (current k) (\<lambda>c. get_task c k)) (\<lambda>x.
     bindE (pr (''current: %d'' @ newline) [A_word (word_of_int (t_pid x))] con) (\<lambda>con.
     bindE (pr ''ready: ['' [] con) (\<lambda>con.
     bindE (foldE (debug_task Ready ''%d {prio %d}, '' (\<lambda>x. word_of_int (t_priority x)) k) (qlist (sq k) Q_ready) con) (\<lambda>con.
     bindE (pr ('']'' @ newline) [] con) (\<lambda>con.
     bindE (pr ''dying: ['' [] con) (\<lambda>con.
     bindE (foldE (debug_task Zombie ''%d {prio %d}, '' (\<lambda>x. word_of_int (t_priority x)) k) (qlist (sq k) Q_zombie) con) (\<lambda>con.
     bindE (pr ('']'' @ newline) [] con) (\<lambda>con.
     bindE (pr ''sleeping: ['' [] con) (\<lambda>con.
     bindE (foldE (debug_task Sleeping ''%d {wake %d}, '' t_wake_time k) (qlist (sq k) Q_sleeping) con)
       (pr ('']'' @ newline) []))))))))))"

section \<open>Decimal numbers\<close>

fun decimal_nat :: "nat \<Rightarrow> u8 list" where
  "decimal_nat n = (if n < 10 then [of_nat (48 + n)] else decimal_nat (n div 10) @ [of_nat (48 + n mod 10)])"

declare decimal_nat.simps [simp del]

definition decimal :: "int \<Rightarrow> u8 list" where
  "decimal n = (if 0 \<le> n then decimal_nat (nat n) else 45 # decimal_nat (nat (- n)))"

lemma digs_decimal: "d < 10 \<Longrightarrow> digs ! d = of_nat (48 + d)"
  using digs_nth by (auto simp del: upt_rec_numeral)

lemma num_digits_decimal:
  assumes "unat u < 10 ^ room" and "0 < room"
  shows "num_digits room u 10 buf = Inr (decimal_nat (unat u) @ buf)"
  using assms
proof (induction room arbitrary: u buf)
  case (Suc room)
  have m: "unat (u mod 10) = unat u mod 10" by (simp add: unat_mod_distrib)
  have dv: "unat (u div 10) = unat u div 10" by (simp add: unat_div_distrib)
  have le: "\<not> u mod 10 > 16" using m by (simp add: word_less_nat_alt not_less)
  have dg: "digs ! unat (u mod 10) = of_nat (48 + unat u mod 10)" unfolding m by (rule digs_decimal) simp
  show ?case
  proof (cases "u div 10 = 0")
    case True
    then have z: "unat u < 10" using dv by simp
    show ?thesis using True le dg z by (simp add: Let_def decimal_nat.simps [of "unat u"])
  next
    case False
    then have z: "\<not> unat u < 10" using dv by (metis div_less unat_eq_zero)
    have "unat (u div 10) < 10 ^ room" using Suc.prems(1) dv by (simp add: less_mult_imp_div_less mult.commute)
    moreover from this False have "0 < room" using dv z by (cases room) auto
    ultimately show ?thesis using Suc.IH [of "u div 10"] False le dg z dv
      by (simp add: Let_def decimal_nat.simps [of "unat u"])
  qed
qed simp


lemma nat_diff_int: "2 ^ 32 - k = nat (2 ^ 32 - int k)"
  by simp

lemma printnum_decimal: "printnum u 10 = Inr (decimal_nat (unat u))"
proof -
  have "unat u < 10 ^ 32" using unat_bound [of u] by simp
  then show ?thesis using num_digits_decimal [of u 32 "[]"] by (simp add: printnum_def)
qed

lemma print_num_decimal: "print_num u 10 sign no_spec = Inr ((if sign \<noteq> 0 then [sign] else []) @ decimal_nat (unat u))"
  by (simp add: print_num_def printnum_decimal no_spec_def pad_def Let_def)

lemma print_signed_decimal: "print_signed 10 no_spec (A_word w # args) = Inr (decimal (sint w), args)"
proof (cases "0 \<le> sint w")
  case True
  then have "unat w = nat (sint w)" by (simp add: sint_nonneg)
  then show ?thesis using True by (simp add: print_signed_def print_num_decimal decimal_def no_spec_def [THEN arg_cong [where f = plus_sign]])
next
  case False
  have n: "\<not> unat w < 2 ^ 31" using False sint_nonneg by blast
  then have "w \<noteq> 0" by auto
  then have "unat (- w) = 2 ^ 32 - unat w" using unat_sub_if_size [of 0 w] by (simp add: word_size unat_eq_zero)
  also have "\<dots> = nat (2 ^ 32 - int (unat w))" by (rule nat_diff_int)
  also have "2 ^ 32 - int (unat w) = - sint w" using n unfolding sint_unat by simp
  finally have "unat (- w) = nat (- sint w)" .
  then show ?thesis using False by (simp add: print_signed_def print_num_decimal decimal_def)
qed

lemma doprnt_plain: "37 \<notin> set f \<Longrightarrow> doprnt radix f args = Inr f"
  by (induction f) auto

lemma doprnt_append: "37 \<notin> set f \<Longrightarrow> doprnt radix (f @ g) args = bindE (doprnt radix g args) (\<lambda>r. Inr (f @ r))"
  by (induction f) (auto simp: bindE_def split: sum.splits)

lemma doprnt_d: "doprnt radix (37 # 100 # f) (A_word w # args) = bindE (doprnt radix f args) (\<lambda>r. Inr (decimal (sint w) @ r))"
  by (simp add: parse_spec_def isdigit_def convert_def print_signed_decimal)

lemma doprnt_s: "length s < 0x7FFFFFFF \<Longrightarrow>
    doprnt radix (37 # 115 # f) (A_str (Some s) # args) = bindE (doprnt radix f args) (\<lambda>r. Inr (s @ r))"
  by (simp add: parse_spec_def isdigit_def convert_def print_string_def no_spec_def Let_def)


lemma doprnt_char: "c \<noteq> 37 \<Longrightarrow> doprnt radix (c # f) args = bindE (doprnt radix f args) (\<lambda>r. Inr (c # r))"
  by simp

declare doprnt.simps(2) [simp del]
declare doprnt_char [simp] doprnt_d [simp] doprnt_s [simp]

lemma letters_append [simp]: "letters (s @ t) = letters s @ letters t"
  by (simp add: letters_def)

lemma pr_doprnt: "pr fmt args con = bindE (doprnt 0 (letters fmt) args) (\<lambda>out. Inr (con @ out))"
  by (simp add: pr_def printf_output bindE_assoc)

lemma pr_plain: "37 \<notin> set (letters fmt) \<Longrightarrow> pr fmt [] con = Inr (con @ letters fmt)"
  by (simp add: pr_doprnt doprnt_plain)

section \<open>What they print\<close>

fun state_name :: "tstate \<Rightarrow> string" where
  "state_name Running = ''run''"
| "state_name Ready = ''ready''"
| "state_name Sleeping = ''sleep''"
| "state_name Zombie = ''zombie''"
| "state_name Int_Msg = ''in msg''"
| "state_name Int_Child = ''child''"
| "state_name s = ''?''"

definition ps_line :: "task \<Rightarrow> u8 list" where
  "ps_line x =
     decimal (sint (word_of_int (t_pid x) :: u32)) @ [9] @ decimal (sint (word_of_int (t_priority x) :: u32)) @ [9] @
     letters (state_name (t_state x)) @ [9, 9] @ takeWhile (\<lambda>c. c \<noteq> 0) (t_comm x) @ [10]"

lemma ps_state_prints:
  "s \<noteq> Startup \<Longrightarrow> s \<noteq> Int_Sem \<Longrightarrow> s \<noteq> Int_IO \<Longrightarrow> ps_state s con = Inr (con @ letters (state_name s))"
  by (cases s) (simp_all add: ps_state_def pr_plain letters_def)

lemma ps_task_line:
  assumes "tasks k p = Some x" and "0 \<in> set (t_comm x)" and "length (t_comm x) < 0x7FFFFFFF"
    and "t_state x \<noteq> Startup" "t_state x \<noteq> Int_Sem" "t_state x \<noteq> Int_IO"
  shows "ps_task k p con = Inr (con @ ps_line x)"
proof -
  have l: "length (takeWhile (\<lambda>c. c \<noteq> 0) (t_comm x)) < 0x7FFFFFFF"
    using assms(3) length_takeWhile_le [of "\<lambda>c. c \<noteq> 0" "t_comm x"] by linarith
  have d: "doprnt 0 (letters (''%d'' @ tab @ ''%d'' @ tab)) [A_word v, A_word w] = Inr (decimal (sint v) @ [9] @ decimal (sint w) @ [9])"
    for v w by (simp add: letters_def tab_def)
  have s: "doprnt 0 (letters (tab @ ''%s'')) [A_str (Some s)] = Inr (9 # s)" if "length s < 0x7FFFFFFF" for s
    using that by (simp add: letters_def tab_def)
  have p: "doprnt 0 (letters tab) [] = Inr [9]" "doprnt 0 (letters newline) [] = Inr [10]"
    by (simp_all add: letters_def tab_def newline_def)
  show ?thesis
    using assms l d s p by (simp add: ps_task_def pr_doprnt ps_state_prints comm_string_def ps_line_def)
qed


lemma foldE_prints:
  assumes "\<And>x con. x \<in> set xs \<Longrightarrow> f x con = Inr (con @ g x)"
  shows "foldE f xs con = Inr (con @ concat (map g xs))"
  using assms by (induction xs arbitrary: con) simp_all

lemma on_global_list:
  assumes "kinv k"
  shows "t \<in> set (qlist (glob k) ()) \<longleftrightarrow> (\<exists>x. tasks k t = Some x \<and> alive (t_state x))"
proof -
  have l: "links_ok k" using assms by (simp add: kinv_def kinv0_def kinv1_def)
  have "t \<in> set (qlist (glob k) ()) \<longleftrightarrow> qlink (glob k) t \<noteq> None"
    using q_ok_home [OF links_ok_q(3) [OF l], of t "()"] by auto
  also have "\<dots> \<longleftrightarrow> (\<exists>x. tasks k t = Some x \<and> alive (t_state x))"
    using links_okD [OF l, of t] by (cases "tasks k t") (auto simp: link_ok_def)
  finally show ?thesis .
qed

lemma alive_states:
  assumes "kinv k" and "tasks k t = Some x" shows "t_state x \<noteq> Int_Sem" "t_state x \<noteq> Int_IO"
  using link_okD [OF _ assms(2)] assms(1) by (auto simp: kinv_def kinv0_def kinv1_def)

definition ps_header :: "u8 list" where
  "ps_header = letters ''pspid'' @ [9] @ letters ''prio'' @ [9] @ letters ''state'' @ [9] @ letters ''name'' @ [10]"

text \<open>
  C39. In a consistent kernel whose processes have terminated names, \<open>ps\<close> prints its header and then one
  line for each living process and no other: its identifier and priority in decimal, the name of its
  state and its name. No process is in a state that has no name.
\<close>

theorem ps_lists_the_living:
  assumes "kinv k" and "\<forall>t x. tasks k t = Some x \<longrightarrow> 0 \<in> set (t_comm x) \<and> length (t_comm x) = 16"
  shows "ps k con = Inr (con @ ps_header @ concat (map (\<lambda>t. ps_line (the (tasks k t))) (qlist (glob k) ()))) \<and>
    distinct (qlist (glob k) ()) \<and>
    (\<forall>t. t \<in> set (qlist (glob k) ()) \<longleftrightarrow> (\<exists>x. tasks k t = Some x \<and> alive (t_state x)))"
proof (intro conjI allI)
  have "ps_task k t c = Inr (c @ ps_line (the (tasks k t)))" if "t \<in> set (qlist (glob k) ())" for t c
  proof -
    obtain x where x: "tasks k t = Some x" "alive (t_state x)" using \<open>t \<in> _\<close> on_global_list [OF assms(1)] by blast
    then show ?thesis using ps_task_line [OF x(1)] assms(2) alive_states [OF assms(1) x(1)] by (simp add: alive_def)
  qed
  from foldE_prints [OF this] have "foldE (ps_task k) (qlist (glob k) ()) c =
      Inr (c @ concat (map (\<lambda>t. ps_line (the (tasks k t))) (qlist (glob k) ())))" for c .
  moreover have "pr ''ps'' [] con = Inr (con @ letters ''ps'')" for con
    by (rule pr_plain) (simp add: letters_def)
  moreover have "pr (''pid'' @ tab @ ''prio'' @ tab @ ''state'' @ tab @ ''name'' @ newline) [] con =
      Inr (con @ letters (''pid'' @ tab @ ''prio'' @ tab @ ''state'' @ tab @ ''name'' @ newline))" for con
    by (rule pr_plain) (simp add: letters_def tab_def newline_def)
  moreover have h: "ps_header = letters ''ps'' @ letters (''pid'' @ tab @ ''prio'' @ tab @ ''state'' @ tab @ ''name'' @ newline)"
    by (simp add: ps_header_def letters_def tab_def newline_def)
  ultimately show "ps k con = Inr (con @ ps_header @ concat (map (\<lambda>t. ps_line (the (tasks k t))) (qlist (glob k) ())))"
    by (simp only: ps_def bindE_simps append_assoc h)
  show "distinct (qlist (glob k) ())"
    using links_ok_q(3) assms(1) by (simp add: q_ok_def kinv_def kinv0_def kinv1_def)
qed (rule on_global_list [OF assms(1)])

theorem ps_lists_the_living_witness:
  "\<exists>out. ps demo [] = Inr (ps_header @ out) \<and> take 8 out = letters (''0'' @ tab @ ''1'' @ tab @ ''read'')"
proof -
  have c: "0 \<in> set (t_comm x) \<and> length (t_comm x) = 16" if "tasks demo t = Some x" for t x
    using that by (auto simp: demo_idle_def demo_shell_def demo_sleep_def empty_task_def split: if_splits)
  have "take 8 (ps_line demo_idle @ r) = letters (''0'' @ tab @ ''1'' @ tab @ ''read'')" for r
    by (simp add: ps_line_def decimal_def decimal_nat.simps letters_def tab_def)
  moreover have "ps demo [] = Inr ([] @ ps_header @ concat (map (\<lambda>t. ps_line (the (tasks demo t))) (qlist (glob demo) ())))"
    using ps_lists_the_living [OF kinv_demo, of "[]"] c by blast
  ultimately show ?thesis by (simp add: demo_glob_def del: take_append)
qed

definition adds :: "(u8 list \<Rightarrow> u8 list res) \<Rightarrow> bool" where
  "adds f \<longleftrightarrow> (\<forall>con. \<exists>out. f con = Inr (con @ out))"

lemma adds_bind: "adds f \<Longrightarrow> adds g \<Longrightarrow> adds (\<lambda>con. bindE (f con) g)"
  unfolding adds_def by (metis append_assoc bindE_simps(2))

text \<open>In a consistent kernel the assertions of \<open>debug_print\<close> hold.\<close>

theorem debug_print_asserts_nothing_false:
  assumes "kinv k" shows "\<exists>out. debug_print k con = Inr (con @ out)"
proof -
  have l: "links_ok k" using assms by (simp add: kinv_def kinv0_def kinv1_def)
  have q: "adds (foldE (debug_task s fmt field k) (qlist (sq k) h))"
    if "(s, h) \<in> {(Ready, Q_ready), (Zombie, Q_zombie), (Sleeping, Q_sleeping)}"
      and "fmt = ''%d {prio %d}, '' \<or> fmt = ''%d {wake %d}, ''" for s h fmt field
  proof -
    have "\<exists>out. \<forall>c. debug_task s fmt field k t c = Inr (c @ out)" if "t \<in> set (qlist (sq k) h)" for t
    proof -
      obtain x where x: "tasks k t = Some x" "qlink (sq k) t = Some h" using on_queue_live [OF l \<open>t \<in> _\<close>] by blast
      have "t_state x = s" using link_okD [OF l x(1)] x(2) \<open>(s, h) \<in> _\<close> by (cases "t_state x") auto
      then show ?thesis using x(1) \<open>fmt = _ \<or> _\<close> by (auto simp: debug_task_def pr_doprnt letters_def)
    qed
    then obtain g where "\<And>t c. t \<in> set (qlist (sq k) h) \<Longrightarrow> debug_task s fmt field k t c = Inr (c @ g t)" by metis
    from foldE_prints [where f = "debug_task s fmt field k" and g = g, OF this] show ?thesis by (auto simp: adds_def)
  qed
  have p: "adds (pr fmt [])" if "37 \<notin> set (letters fmt)" for fmt using pr_plain [OF that] by (auto simp: adds_def)
  have c: "adds (pr (''current: %d'' @ newline) [A_word w])" for w by (auto simp: adds_def pr_doprnt letters_def newline_def)
  obtain t x where "running_task k = Some t" "tasks k t = Some x" using assms by (auto simp: kinv_def)
  then have "debug_print k = (\<lambda>con. bindE (pr (''current: %d'' @ newline) [A_word (word_of_int (t_pid x))] con) (\<lambda>con.
     bindE (pr ''ready: ['' [] con) (\<lambda>con.
     bindE (foldE (debug_task Ready ''%d {prio %d}, '' (\<lambda>x. word_of_int (t_priority x)) k) (qlist (sq k) Q_ready) con) (\<lambda>con.
     bindE (pr ('']'' @ newline) [] con) (\<lambda>con.
     bindE (pr ''dying: ['' [] con) (\<lambda>con.
     bindE (foldE (debug_task Zombie ''%d {prio %d}, '' (\<lambda>x. word_of_int (t_priority x)) k) (qlist (sq k) Q_zombie) con) (\<lambda>con.
     bindE (pr ('']'' @ newline) [] con) (\<lambda>con.
     bindE (pr ''sleeping: ['' [] con) (\<lambda>con.
     bindE (foldE (debug_task Sleeping ''%d {wake %d}, '' t_wake_time k) (qlist (sq k) Q_sleeping) con)
       (pr ('']'' @ newline) []))))))))))" by (simp add: debug_print_def fun_eq_iff)
  moreover have "adds \<dots>" by (intro adds_bind c p q) (simp_all add: letters_def newline_def)
  ultimately show ?thesis by (simp add: adds_def)
qed

end
