(* ===== verification/GdbPacket.thy ===== *)
theory GdbPacket
  imports Prelude
begin

text \<open>
  The packets of the remote debugger, \<open>getpacket\<close> and \<open>putfrags\<close> of \<open>kernel/gdb_serial.c\<close>. The serial
  line is a \<open>line\<close>: the bytes that will still arrive and the bytes that were sent. A function that
  waits for a byte when none will arrive has the value \<open>None\<close>: it is still waiting. A fragment of a
  packet is given by the bytes from its pointer on, its length (0 for a string up to its null byte) and
  whether it is sent in hexadecimal. The theorems show that a receiver that expands the runs as the
  protocol says gets the fragment back, and that \<open>getpacket\<close> accepts what \<open>putfrags\<close> frames and asks
  again for what was damaged.
\<close>

section \<open>Hexadecimal\<close>

definition hexchars :: "u8 list" where
  "hexchars = [48, 49, 50, 51, 52, 53, 54, 55, 56, 57, 97, 98, 99, 100, 101, 102, 0]"

definition hex :: "u8 \<Rightarrow> int" where
  "hex ch =
     (if 48 \<le> ch \<and> ch \<le> 57 then uint ch - 48
      else if 97 \<le> ch \<and> ch \<le> 102 then uint ch - 97 + 10
      else if 65 \<le> ch \<and> ch \<le> 70 then uint ch - 65 + 10
      else - 1)"

text \<open>
  \<open>hex2bin\<close> from the index \<open>i\<close> of a buffer: whether it returns 0, and the bytes it has stored by then.
\<close>

fun hex2bin :: "u8 list \<Rightarrow> nat \<Rightarrow> nat \<Rightarrow> (bool \<times> u8 list) res" where
  "hex2bin buf i 0 = Inr (True, [])"
| "hex2bin buf i (Suc len) =
     (if length buf \<le> i + 1 then Inl Out_Of_Bounds
      else let ch = (push_bit 4 (hex (buf ! i)) OR hex (buf ! (i + 1)))
        in if ch < 0 then Inr (False, [])
           else bindE (hex2bin buf (i + 2) len) (\<lambda>(ok, out). Inr (ok, word_of_int ch # out)))"

section \<open>Receiving\<close>

record line =
  rx :: "u8 list"
  tx :: "u8 list"

definition bufmax :: nat where "bufmax = 400"

definition recv :: "line \<Rightarrow> (u8 \<times> line) option" where
  "recv l = (case rx l of [] \<Rightarrow> None | c # cs \<Rightarrow> Some (c, l\<lparr>rx := cs\<rparr>))"

definition send :: "u8 \<Rightarrow> line \<Rightarrow> line" where
  "send c l = l\<lparr>tx := tx l @ [c]\<rparr>"

text \<open>Everything before the start character is ignored.\<close>

fun skip_to_start :: "u8 list \<Rightarrow> u8 list option" where
  "skip_to_start [] = None"
| "skip_to_start (c # cs) = (if c AND 0x7f = 36 then Some cs else skip_to_start cs)"

text \<open>
  The characters up to a \<open>#\<close> that does not follow the escape character, or until the buffer is full: the
  last character read, the buffer, how much of it is used, the checksum and what is left to read.
\<close>

fun read_body :: "u8 list \<Rightarrow> nat \<Rightarrow> u8 \<Rightarrow> u8 list \<Rightarrow> (u8 \<times> u8 list \<times> nat \<times> u8 \<times> u8 list) option" where
  "read_body buf count csum [] = None"
| "read_body buf count csum (c # cs) =
     (if c = 35 \<and> (count = 0 \<or> buf ! (count - 1) \<noteq> 0x7d) then Some (c, buf, count, csum, cs)
      else let buf1 = buf[count := c]; count1 = count + 1; csum1 = csum + c
        in if count1 < bufmax then read_body buf1 count1 csum1 cs
           else Some (c, buf1, count1, csum1, cs))"

text \<open>The sequence characters \<open>xy:\<close> are sent back and removed.\<close>

definition drop_sequence :: "u8 list \<Rightarrow> line \<Rightarrow> u8 list \<times> line" where
  "drop_sequence buf l =
     (if buf ! 2 = 58
      then (let l1 = send (buf ! 1) (send (buf ! 0) l);
                count = length (takeWhile (\<lambda>c. c \<noteq> 0) buf)
            in (fold (\<lambda>i b. b[i - 3 := b ! i]) [3..<count + 1] buf, l1))
      else (buf, l))"

text \<open>One round of \<open>getpacket\<close>: whether the checksums agree, the buffer and the line.\<close>

definition get_round :: "u8 list \<Rightarrow> line \<Rightarrow> (bool \<times> u8 list \<times> line) option" where
  "get_round buf l =
     Option.bind (skip_to_start (rx l)) (\<lambda>cs.
     Option.bind (read_body buf 0 0 cs) (\<lambda>(ch, buf, count, csum, cs).
       let buf = buf[count := 0]; l = l\<lparr>rx := cs\<rparr>
       in if ch = 35 then
            Option.bind (recv l) (\<lambda>(h1, l).
            Option.bind (recv l) (\<lambda>(h0, l).
              let xmitcsum = word_of_int (push_bit 4 (hex h1)) + word_of_int (hex h0)
              in if csum \<noteq> xmitcsum then Some (False, buf, send 45 l)
                 else (case drop_sequence buf (send 43 l) of (buf, l) \<Rightarrow> Some (True, buf, l))))
          else Some (csum = 0xff, buf, l)))"

lemma skip_to_start_length: "skip_to_start cs = Some ds \<Longrightarrow> length ds < length cs"
  by (induction cs) (auto split: if_splits)

lemma read_body_length: "read_body buf count csum cs = Some (ch, buf', count', csum', ds) \<Longrightarrow> length ds < length cs"
proof (induction buf count csum cs rule: read_body.induct)
  case (2 buf count csum c cs)
  show ?case using 2(2) 2(1) [OF _ refl refl refl] by (auto simp: Let_def split: if_splits intro: less_SucI)
qed simp

lemma recv_length: "recv l = Some (c, l') \<Longrightarrow> Suc (length (rx l')) = length (rx l)"
  by (auto simp: recv_def split: list.splits)

lemma drop_sequence_rx: "rx (snd (drop_sequence buf l)) = rx l"
  by (simp add: drop_sequence_def send_def Let_def)

lemma get_round_length:
  assumes "get_round buf l = Some (ok, buf', l')" shows "length (rx l') < length (rx l)"
proof -
  obtain cs ch b count csum ds where
    s: "skip_to_start (rx l) = Some cs" "read_body buf 0 0 cs = Some (ch, b, count, csum, ds)"
    using assms by (auto simp: get_round_def bind_eq_Some_conv)
  have d: "length ds < length (rx l)" using skip_to_start_length [OF s(1)] read_body_length [OF s(2)] by simp
  show ?thesis
  proof (cases "ch = 35")
    case True
    then obtain h1 l1 h0 l2 where r: "recv (l\<lparr>rx := ds\<rparr>) = Some (h1, l1)" "recv l1 = Some (h0, l2)"
        and o: "rx l' = rx l2"
      using assms s drop_sequence_rx [of _ "send 43 _"]
      by (auto simp: get_round_def bind_eq_Some_conv Let_def send_def split: if_splits prod.splits) (metis snd_conv)+
    show ?thesis using d recv_length [OF r(1)] recv_length [OF r(2)] o by simp
  next
    case False
    then show ?thesis using assms s d by (auto simp: get_round_def Let_def)
  qed
qed

function getpacket :: "u8 list \<Rightarrow> line \<Rightarrow> (u8 list \<times> line) option" where
  "getpacket buf l =
     (case get_round buf l of
        None \<Rightarrow> None
      | Some (ok, buf, l) \<Rightarrow> if ok then Some (buf, l) else getpacket buf l)"
  by pat_completeness auto

termination
  by (relation "measure (\<lambda>(buf, l). length (rx l))") (auto dest: get_round_length)

declare getpacket.simps [simp del]


section \<open>Sending\<close>

text \<open>A fragment of a packet; a length of 0 means a string that ends before its null byte.\<close>

record outfrag =
  fr_data :: "u8 list"
  fr_len :: nat
  fr_hexify :: bool

definition frag_bytes :: "outfrag \<Rightarrow> u8 list" where
  "frag_bytes f = (if fr_len f = 0 then takeWhile (\<lambda>c. c \<noteq> 0) (fr_data f) else take (fr_len f) (fr_data f))"

text \<open>\<open>while (q < limit && *q == *p) ++q;\<close>, from \<open>q\<close> on with room for \<open>limit\<close> more bytes.\<close>

fun scan_run :: "u8 \<Rightarrow> nat \<Rightarrow> u8 list \<Rightarrow> nat" where
  "scan_run x (Suc limit) (q # qs) = (if q = x then Suc (scan_run x limit qs) else 0)"
| "scan_run x _ _ = 0"

text \<open>
  Whether a run that can be encoded starts here: two equal bytes with equal halves in hexadecimal,
  four equal bytes otherwise. The encoding is a character, a star and the count.
\<close>

definition run_starts :: "bool \<Rightarrow> u8 \<Rightarrow> u8 list \<Rightarrow> bool" where
  "run_starts hexify x xs \<longleftrightarrow>
     (if hexify then scan_run x 1 xs = 1 \<and> drop_bit 4 x = x AND 0xf else scan_run x 3 xs = 3)"

definition run_length :: "bool \<Rightarrow> u8 \<Rightarrow> u8 list \<Rightarrow> nat" where
  "run_length hexify x xs = Suc (scan_run x (if hexify then 98 div 2 - 1 else 98 - 1) xs)"

lemma scan_run_length: "scan_run x k xs \<le> length xs"
  by (induction x k xs rule: scan_run.induct) auto

function frag_out :: "bool \<Rightarrow> u8 list \<Rightarrow> u8 list" where
  "frag_out hexify [] = []"
| "frag_out hexify (x # xs) =
     (if run_starts hexify x xs
      then let n = run_length hexify x xs; rl = (if hexify then n * 2 else n)
        in (if hexify then hexchars ! unat (x AND 0xf) else x) # 42 # of_nat (29 + rl - 1) #
           frag_out hexify (drop (n - 1) xs)
      else if hexify then hexchars ! unat (drop_bit 4 x) # hexchars ! unat (x AND 0xf) # frag_out hexify xs
      else x # frag_out hexify xs)"
  by pat_completeness auto

termination
  by (relation "measure (\<lambda>(hexify, xs). length xs)") (auto simp: less_Suc_eq_le)

definition packet_body :: "outfrag list \<Rightarrow> u8 list" where
  "packet_body frags = concat (map (\<lambda>f. frag_out (fr_hexify f) (frag_bytes f)) frags)"

definition frame :: "u8 list \<Rightarrow> u8 list" where
  "frame body =
     (let checksum = sum_list body
      in 36 # body @ [35, hexchars ! unat (drop_bit 4 checksum), hexchars ! unat (checksum mod 16)])"

text \<open>The packet is repeated until the other side acknowledges it.\<close>

fun send_until_ack :: "u8 list \<Rightarrow> u8 list \<Rightarrow> u8 list \<Rightarrow> line option" where
  "send_until_ack packet [] sent = None"
| "send_until_ack packet (c # cs) sent =
     (if c AND 0x7f = 43 then Some \<lparr>rx = cs, tx = sent @ packet\<rparr>
      else send_until_ack packet cs (sent @ packet))"

definition putfrags :: "outfrag list \<Rightarrow> line \<Rightarrow> line option" where
  "putfrags frags l = send_until_ack (frame (packet_body frags)) (rx l) (tx l)"

section \<open>What the other side reads\<close>

text \<open>The protocol's rule for runs: a character, a star, and the number of repetitions plus 29.\<close>

fun expand :: "u8 list \<Rightarrow> u8 list" where
  "expand (c # s # n # r) =
     (if s = 42 then replicate (1 + (unat n - 29)) c @ expand r else c # expand (s # n # r))"
| "expand r = r"

definition hex_text :: "u8 list \<Rightarrow> u8 list" where
  "hex_text xs = concat (map (\<lambda>x. [hexchars ! unat (drop_bit 4 x), hexchars ! unat (x AND 0xf)]) xs)"

definition frag_text :: "bool \<Rightarrow> u8 list \<Rightarrow> u8 list" where
  "frag_text hexify xs = (if hexify then hex_text xs else xs)"

lemma expand_plain: "r = [] \<or> hd r \<noteq> 42 \<Longrightarrow> expand (c # r) = c # expand r"
  by (cases r rule: expand.cases) auto

lemma hexchars_digit: "\<forall>d<16. hexchars ! d \<noteq> 42 \<and> hexchars ! d \<noteq> 35 \<and> hex (hexchars ! d) = int d"
  by code_simp

lemma low_half: "unat (x AND 0xf) = unat x mod 16" for x :: u8
proof -
  have "x AND 0xf = take_bit 4 x" by (simp add: take_bit_eq_mask mask_eq_exp_minus_1)
  then show ?thesis by (simp add: take_bit_eq_mod unat_mod_distrib)
qed

lemma scan_run_replicate: "take (scan_run x k xs) xs = replicate (scan_run x k xs) x"
  by (induction x k xs rule: scan_run.induct) auto

lemma scan_run_bound: "scan_run x k xs \<le> k"
  by (induction x k xs rule: scan_run.induct) auto

lemma scan_run_mono: "scan_run x j xs = j \<Longrightarrow> j \<le> k \<Longrightarrow> j \<le> scan_run x k xs"
proof (induction x k xs arbitrary: j rule: scan_run.induct)
  case (1 x limit q qs)
  then show ?case by (cases j) (auto split: if_splits)
qed (auto elim: scan_run.elims)


lemma high_half: "unat (drop_bit 4 x) < 16" for x :: u8
proof -
  have "unat x < 256" using unat_bound [of x] by simp
  then show ?thesis by (simp add: unat_shr less_mult_imp_div_less)
qed

lemma frag_out_head:
  assumes "\<not> hexify \<Longrightarrow> 42 \<notin> set xs" and "r = [] \<or> hd r \<noteq> 42"
  shows "frag_out hexify xs @ r = [] \<or> hd (frag_out hexify xs @ r) \<noteq> 42"
  using assms low_half hexchars_digit high_half by (cases xs) (auto simp: Let_def)

lemma hex_text_replicate:
  assumes "drop_bit 4 x = x AND 0xf"
  shows "hex_text (replicate n x) = replicate (n * 2) (hexchars ! unat (x AND 0xf))"
  using assms by (induction n) (auto simp: hex_text_def)

lemma hex_text_append: "hex_text (xs @ ys) = hex_text xs @ hex_text ys"
  by (simp add: hex_text_def)

text \<open>The bytes of a run, and its length.\<close>

lemma run_splits:
  assumes "run_starts hexify x xs"
  defines "n \<equiv> run_length hexify x xs"
  shows "x # xs = replicate n x @ drop (n - 1) xs" and "(if hexify then 2 else 4) \<le> n" and "(if hexify then n * 2 else n) \<le> 98"
proof -
  let ?k = "scan_run x (if hexify then 48 else 97) xs"
  have n: "n = Suc ?k" by (simp add: n_def run_length_def)
  have "xs = replicate ?k x @ drop ?k xs" using scan_run_replicate [of x "if hexify then 48 else 97" xs] append_take_drop_id by metis
  then show "x # xs = replicate n x @ drop (n - 1) xs" using n by simp
  show "(if hexify then 2 else 4) \<le> n"
    using assms(1) scan_run_mono [of x 1 xs 48] scan_run_mono [of x 3 xs 97] n by (auto simp: run_starts_def)
  show "(if hexify then n * 2 else n) \<le> 98" using scan_run_bound [of x 48 xs] scan_run_bound [of x 97 xs] n by auto
qed

lemma unat_of_nat8: "k < 256 \<Longrightarrow> unat (of_nat k :: u8) = k"
  by (simp add: unsigned_of_nat take_bit_nat_eq_self)

lemma expand_frag:
  assumes "\<not> hexify \<Longrightarrow> 42 \<notin> set xs" and "r = [] \<or> hd r \<noteq> 42"
  shows "expand (frag_out hexify xs @ r) = frag_text hexify xs @ expand r"
  using assms
proof (induction hexify xs rule: frag_out.induct)
  case (2 hexify x xs)
  have x: "\<not> hexify \<Longrightarrow> x \<noteq> 42" "\<not> hexify \<Longrightarrow> 42 \<notin> set xs" using 2(4) by auto
  have h: "hexchars ! unat (drop_bit 4 x) \<noteq> 42" "hexchars ! unat (x AND 0xf) \<noteq> 42"
    using hexchars_digit high_half low_half by auto
  show ?case
  proof (cases "run_starts hexify x xs")
    case True
    define n where "n = run_length hexify x xs"
    define rl where "rl = (if hexify then n * 2 else n)"
    define c where "c = (if hexify then hexchars ! unat (x AND 0xf) else x)"
    have n: "x # xs = replicate n x @ drop (n - 1) xs" "rl \<le> 98" "4 \<le> rl"
      using run_splits [OF True] by (auto simp: n_def rl_def split: if_splits)
    have "28 + rl < 256" "29 + rl - 1 = 28 + rl" using n(2) by simp_all
    then have u: "unat (of_nat (29 + rl - 1) :: u8) = 28 + rl" by (simp only: unat_of_nat8)
    have o: "frag_out hexify (x # xs) = c # 42 # of_nat (29 + rl - 1) # frag_out hexify (drop (n - 1) xs)"
      using True by (simp add: Let_def n_def rl_def c_def)
    have d: "\<not> hexify \<Longrightarrow> 42 \<notin> set (drop (n - 1) xs)" using x(2) by (meson in_set_dropD)
    have "expand (frag_out hexify (x # xs) @ r) = replicate rl c @ expand (frag_out hexify (drop (n - 1) xs) @ r)"
      unfolding o using u n(3) by simp
    moreover have "expand (frag_out hexify (drop (n - 1) xs) @ r) = frag_text hexify (drop (n - 1) xs) @ expand r"
      using 2(1) [OF True n_def rl_def] d 2(5) by simp
    moreover have "replicate rl c @ frag_text hexify (drop (n - 1) xs) = frag_text hexify (replicate n x @ drop (n - 1) xs)"
      using True hex_text_replicate [of x n] by (simp add: frag_text_def rl_def c_def run_starts_def hex_text_append)
    ultimately show ?thesis using n(1) by simp
  next
    case False
    let ?t = "frag_out hexify xs @ r"
    have t: "?t = [] \<or> hd ?t \<noteq> 42" by (rule frag_out_head [OF x(2) 2(5)])
    show ?thesis
    proof (cases hexify)
      case True
      then have "expand ?t = frag_text hexify xs @ expand r" using 2(2) False 2(5) by simp
      then show ?thesis using True False h t
        by (simp add: expand_plain frag_text_def hex_text_def)
    next
      case nh: False
      then have "expand ?t = frag_text hexify xs @ expand r" using 2(3) False 2(5) x(2) by simp
      then show ?thesis using nh False t by (simp add: expand_plain frag_text_def)
    qed
  qed
qed (simp add: frag_text_def hex_text_def)


text \<open>
  C31. A receiver that follows the protocol reads every packet as it was meant: expanding the runs of the
  body that \<open>putfrags\<close> sends gives the fragments one after the other, each as its text or as the two
  hexadecimal digits of each of its bytes, whatever bytes are sent in hexadecimal and however they
  repeat.
\<close>

theorem packets_are_readable:
  assumes "\<forall>f\<in>set frags. fr_hexify f \<or> 42 \<notin> set (frag_bytes f)"
  shows "expand (packet_body frags) = concat (map (\<lambda>f. frag_text (fr_hexify f) (frag_bytes f)) frags)"
proof -
  have "expand (packet_body frags) = concat (map (\<lambda>f. frag_text (fr_hexify f) (frag_bytes f)) frags) \<and>
      (packet_body frags = [] \<or> hd (packet_body frags) \<noteq> 42)"
    using assms
  proof (induction frags)
    case (Cons f frags)
    let ?r = "packet_body frags"
    have b: "packet_body (f # frags) = frag_out (fr_hexify f) (frag_bytes f) @ ?r" by (simp add: packet_body_def)
    have f: "\<not> fr_hexify f \<Longrightarrow> 42 \<notin> set (frag_bytes f)" using Cons.prems by auto
    have r: "expand ?r = concat (map (\<lambda>f. frag_text (fr_hexify f) (frag_bytes f)) frags)" "?r = [] \<or> hd ?r \<noteq> 42"
      using Cons by auto
    show ?case unfolding b using expand_frag [OF f r(2)] frag_out_head [OF f r(2)] r(1) by simp
  qed (simp add: packet_body_def)
  then show ?thesis ..
qed

definition ok_packet :: "outfrag list" where
  "ok_packet = [\<lparr>fr_data = [84], fr_len = 1, fr_hexify = False\<rparr>, \<lparr>fr_data = [0, 0, 0x5a, 7], fr_len = 3, fr_hexify = True\<rparr>]"

theorem packets_are_readable_witness:
  "packet_body ok_packet = [84, 48, 42, 32, 53, 97] \<and> expand (packet_body ok_packet) = [84, 48, 48, 48, 48, 53, 97]"
proof -
  have b: "packet_body ok_packet = [84, 48, 42, 32, 53, 97]" by code_simp
  have t: "concat (map (\<lambda>f. frag_text (fr_hexify f) (frag_bytes f)) ok_packet) = [84, 48, 48, 48, 48, 53, 97]" by code_simp
  have "\<forall>f\<in>set ok_packet. fr_hexify f \<or> 42 \<notin> set (frag_bytes f)" by code_simp
  from packets_are_readable [OF this] b t show ?thesis by simp
qed

text \<open>
  A run of four zero bytes has the count 8, which is sent as the character \<open>$\<close>. The protocol reserves it
  for the start of a packet and forbids it as a count: the debugger takes it for a new packet.
\<close>

theorem run_of_four_zeros_sends_a_start:
  "frag_out True [0, 0, 0, 0] = [48, 42, 36]"
  by code_simp

section \<open>What getpacket accepts\<close>

lemma skip_junk: "\<forall>c\<in>set junk. c AND 0x7f \<noteq> 36 \<Longrightarrow> skip_to_start (junk @ 36 # cs) = Some cs"
  by (induction junk) auto

text \<open>A body that does not end the packet early fits the buffer.\<close>

lemma read_body_reads:
  assumes "35 \<notin> set body" and "count + length body < bufmax" and "length buf = Suc bufmax"
    and "count = 0 \<or> buf ! (count - 1) \<noteq> 0x7d \<or> body \<noteq> []" and "body \<noteq> [] \<Longrightarrow> last body \<noteq> 0x7d"
  shows "read_body buf count csum (body @ 35 # cs) =
    Some (35, take count buf @ body @ drop (count + length body) buf, count + length body, csum + sum_list body, cs)"
  using assms
proof (induction body arbitrary: buf count csum)
  case (Cons c body)
  let ?b = "buf[count := c]"
  have c: "c \<noteq> 35" "count < length buf" "count + 1 < bufmax" using Cons.prems by auto
  have t: "take (Suc count) ?b = take count buf @ [c]" "drop (Suc count + length body) ?b = drop (Suc count + length body) buf"
    using c(2) by (simp_all add: take_Suc_conv_app_nth)
  have "read_body ?b (Suc count) (csum + c) (body @ 35 # cs) =
      Some (35, take (Suc count) ?b @ body @ drop (Suc count + length body) ?b, Suc count + length body, csum + c + sum_list body, cs)"
    using Cons.prems c by (intro Cons.IH) (auto split: if_splits)
  then show ?case using c t by (simp add: Let_def add.assoc)
qed auto


text \<open>An attempt to send a packet: what comes before it, its body and the two digits of its checksum.\<close>

record attempt =
  junk :: "u8 list"
  body :: "u8 list"
  digit1 :: u8
  digit0 :: u8

definition on_line :: "attempt \<Rightarrow> u8 list" where
  "on_line a = junk a @ 36 # body a @ [35, digit1 a, digit0 a]"

definition told_checksum :: "attempt \<Rightarrow> u8" where
  "told_checksum a = word_of_int (push_bit 4 (hex (digit1 a))) + word_of_int (hex (digit0 a))"

definition well_framed :: "attempt \<Rightarrow> bool" where
  "well_framed a \<longleftrightarrow> (\<forall>c\<in>set (junk a). c AND 0x7f \<noteq> 36) \<and> 35 \<notin> set (body a) \<and> length (body a) < bufmax \<and>
     (body a \<noteq> [] \<longrightarrow> last (body a) \<noteq> 0x7d)"

lemma get_round_attempt:
  assumes "well_framed a" and "length buf = Suc bufmax"
  defines "buf1 \<equiv> body a @ 0 # drop (Suc (length (body a))) buf"
  shows "get_round buf \<lparr>rx = on_line a @ rest, tx = t\<rparr> =
    (if sum_list (body a) \<noteq> told_checksum a then Some (False, buf1, \<lparr>rx = rest, tx = t @ [45]\<rparr>)
     else case drop_sequence buf1 \<lparr>rx = rest, tx = t @ [43]\<rparr> of (b, l) \<Rightarrow> Some (True, b, l))"
proof -
  have r: "read_body buf 0 0 (body a @ 35 # digit1 a # digit0 a # rest) =
      Some (35, body a @ drop (length (body a)) buf, length (body a), sum_list (body a), digit1 a # digit0 a # rest)"
    using read_body_reads [of "body a" 0 buf 0 "digit1 a # digit0 a # rest"] assms(1,2) by (auto simp: well_framed_def)
  have "length (body a) < length buf" using assms(1,2) by (simp add: well_framed_def)
  then have b: "(body a @ drop (length (body a)) buf)[length (body a) := 0] = buf1"
    by (simp add: buf1_def list_update_append Cons_nth_drop_Suc [symmetric])
  show ?thesis
    using assms(1) r b skip_junk [of "junk a"]
    by (simp add: get_round_def on_line_def well_framed_def recv_def told_checksum_def send_def Let_def)
qed

lemma told_frame:
  "told_checksum \<lparr>junk = j, body = b, digit1 = hexchars ! unat (drop_bit 4 c), digit0 = hexchars ! unat (c mod 16)\<rparr> = c"
proof -
  have m: "unat (c mod 16) = unat c mod 16" by (simp add: unat_mod_distrib)
  have "told_checksum \<lparr>junk = j, body = b, digit1 = hexchars ! unat (drop_bit 4 c), digit0 = hexchars ! unat (c mod 16)\<rparr> =
      word_of_int (push_bit 4 (int (unat (drop_bit 4 c)))) + word_of_int (int (unat (c mod 16)))"
    using hexchars_digit high_half [of c] m by (simp add: told_checksum_def)
  also have "\<dots> = word_of_int (int (unat (drop_bit 4 c) * 16 + unat c mod 16))"
    by (simp add: push_bit_eq_mult m)
  also have "unat (drop_bit 4 c) * 16 + unat c mod 16 = unat c" by (simp add: unat_shr)
  finally show ?thesis by simp
qed

lemma frame_on_line: "frame b = on_line \<lparr>junk = [], body = b, digit1 = hexchars ! unat (drop_bit 4 (sum_list b)),
    digit0 = hexchars ! unat (sum_list b mod 16)\<rparr>"
  by (simp add: frame_def on_line_def Let_def)

lemma getpacket_clean:
  assumes "well_framed \<lparr>junk = j, body = b, digit1 = 0, digit0 = 0\<rparr>" and "length buf = Suc bufmax"
  defines "buf1 \<equiv> b @ 0 # drop (Suc (length b)) buf"
  assumes "buf1 ! 2 \<noteq> 58"
  shows "getpacket buf \<lparr>rx = j @ frame b @ rest, tx = t\<rparr> = Some (buf1, \<lparr>rx = rest, tx = t @ [43]\<rparr>)"
    and "length buf1 = Suc bufmax"
proof -
  let ?a = "\<lparr>junk = j, body = b, digit1 = hexchars ! unat (drop_bit 4 (sum_list b)), digit0 = hexchars ! unat (sum_list b mod 16)\<rparr>"
  have w: "well_framed ?a" using assms(1) by (simp add: well_framed_def)
  have "get_round buf \<lparr>rx = on_line ?a @ rest, tx = t\<rparr> = Some (True, buf1, \<lparr>rx = rest, tx = t @ [43]\<rparr>)"
    using get_round_attempt [OF w assms(2), of rest t] told_frame [of j b] assms(4) by (simp add: drop_sequence_def buf1_def)
  moreover have "j @ frame b = on_line ?a" by (simp add: frame_on_line on_line_def)
  ultimately show "getpacket buf \<lparr>rx = j @ frame b @ rest, tx = t\<rparr> = Some (buf1, \<lparr>rx = rest, tx = t @ [43]\<rparr>)"
    by (subst getpacket.simps) (simp flip: append_assoc)
  show "length buf1 = Suc bufmax" using assms(1,2) by (simp add: well_framed_def buf1_def)
qed

text \<open>
  C32. The handshake of the serial line: \<open>getpacket\<close> rejects every damaged attempt with a minus and goes
  on waiting, ignores what is between the packets, acknowledges the first packet framed as \<open>putfrags\<close>
  frames it with a plus, and leaves its body in the buffer. (The body must be of two characters at
  least, and without a sequence number.)
\<close>

theorem damaged_packets_are_sent_again:
  assumes "\<forall>a\<in>set bad. well_framed a \<and> sum_list (body a) \<noteq> told_checksum a"
    and "well_framed \<lparr>junk = j, body = b, digit1 = 0, digit0 = 0\<rparr>" and "2 \<le> length b" and "length b = 2 \<or> b ! 2 \<noteq> 58"
    and "length buf = Suc bufmax"
  shows "\<exists>buf'. getpacket buf \<lparr>rx = concat (map on_line bad) @ j @ frame b @ rest, tx = t\<rparr> =
      Some (buf', \<lparr>rx = rest, tx = t @ replicate (length bad) 45 @ [43]\<rparr>) \<and>
    take (Suc (length b)) buf' = b @ [0] \<and> length buf' = Suc bufmax"
  using assms(1,5)
proof (induction bad arbitrary: buf t)
  case Nil
  have "(b @ 0 # drop (Suc (length b)) buf) ! 2 \<noteq> 58" using assms(3,4) by (auto simp: nth_append)
  then show ?case using getpacket_clean(1) [OF assms(2) Nil(2), of rest t] getpacket_clean(2) [OF assms(2) Nil(2)] by simp
next
  case (Cons a bad)
  let ?buf = "body a @ 0 # drop (Suc (length (body a))) buf"
  have a: "well_framed a" "sum_list (body a) \<noteq> told_checksum a" using Cons.prems(1) by auto
  then have l: "length ?buf = Suc bufmax" using Cons.prems(2) by (simp add: well_framed_def)
  have "get_round buf \<lparr>rx = on_line a @ concat (map on_line bad) @ j @ frame b @ rest, tx = t\<rparr> =
      Some (False, ?buf, \<lparr>rx = concat (map on_line bad) @ j @ frame b @ rest, tx = t @ [45]\<rparr>)"
    using get_round_attempt [OF a(1) Cons.prems(2)] a(2) by simp
  moreover obtain buf' where "getpacket ?buf \<lparr>rx = concat (map on_line bad) @ j @ frame b @ rest, tx = t @ [45]\<rparr> =
      Some (buf', \<lparr>rx = rest, tx = (t @ [45]) @ replicate (length bad) 45 @ [43]\<rparr>)"
    "take (Suc (length b)) buf' = b @ [0]" "length buf' = Suc bufmax"
    using Cons.IH [of ?buf "t @ [45]"] Cons.prems(1) l by auto
  ultimately show ?case by (subst getpacket.simps) simp
qed


definition damaged :: attempt where
  "damaged = \<lparr>junk = [43, 10], body = [109, 48, 44, 52], digit1 = 48, digit0 = 48\<rparr>"

theorem damaged_packets_are_sent_again_witness:
  "\<exists>buf'. getpacket (replicate 401 0) \<lparr>rx = on_line damaged @ [43, 36, 109, 48, 44, 52, 35, 102, 100, 43], tx = []\<rparr> =
      Some (buf', \<lparr>rx = [43], tx = [45, 43]\<rparr>) \<and> take 5 buf' = [109, 48, 44, 52, 0]"
proof -
  have f: "frame [109, 48, 44, 52] = [36, 109, 48, 44, 52, 35, 102, 100]" by code_simp
  have "well_framed damaged" "sum_list (body damaged) \<noteq> told_checksum damaged"
    "well_framed \<lparr>junk = [43], body = [109, 48, 44, 52], digit1 = 0, digit0 = 0\<rparr>"
    by (simp_all add: well_framed_def damaged_def bufmax_def) code_simp
  moreover have five: "5 = Suc (Suc (Suc (Suc (Suc 0))))" by simp
  ultimately show ?thesis unfolding five
    using damaged_packets_are_sent_again [of "[damaged]" "[43]" "[109, 48, 44, 52]" "replicate 401 0" "[43]" "[]"] f
    by (simp add: bufmax_def) blast
qed

text \<open>
  The test for a sequence number does not look whether the packet is long enough: when an earlier packet,
  or the memory that was read into the same buffer, has left a colon at the third place, a packet of one
  character is answered with that character and a null byte before anything else.
\<close>

theorem short_packet_after_a_colon:
  assumes "length buf = Suc bufmax" and "buf ! 2 = 58" and "c \<noteq> 35" and "c \<noteq> 0x7d"
  shows "\<exists>buf'. getpacket buf \<lparr>rx = frame [c] @ rest, tx = t\<rparr> = Some (buf', \<lparr>rx = rest, tx = t @ [43, c, 0]\<rparr>)"
proof -
  let ?a = "\<lparr>junk = [], body = [c], digit1 = hexchars ! unat (drop_bit 4 (sum_list [c])), digit0 = hexchars ! unat (sum_list [c] mod 16)\<rparr>"
  have w: "well_framed ?a" using assms(3,4) by (simp add: well_framed_def bufmax_def)
  have "([c] @ 0 # drop (Suc (length [c])) buf) ! 2 = 58" using assms(1,2) by (simp add: bufmax_def numeral_2_eq_2)
  then have "\<exists>b. get_round buf \<lparr>rx = on_line ?a @ rest, tx = t\<rparr> = Some (True, b, \<lparr>rx = rest, tx = t @ [43, c, 0]\<rparr>)"
    using get_round_attempt [OF w assms(1), of rest t] told_frame [of "[]" "[c]" "sum_list [c]"]
    by (simp add: drop_sequence_def send_def Let_def)
  then show ?thesis by (subst getpacket.simps) (auto simp: frame_on_line)
qed

end
