(* ===== verification/GdbMemory.thy ===== *)
theory GdbMemory
  imports StartTask
begin

text \<open>
  \<open>kernel/gdb_serial_support.c\<close>: the memory of the trapped program, as the remote debugger reads and
  writes it. The page tables are walked in software, on the values of CR0 and CR3 that the trap handler
  saved (\<open>client\<close>), and the copies go from page to page. \<open>virt_to_phys\<close> is the translation of one
  address; the theorem shows that \<open>gdb_copyin\<close> reads exactly the bytes the program sees, and fails
  exactly when one of them is not mapped. Where the code leaves the physical address unset, it is 0
  here. Paging is switched off while the copy runs, so that physical addresses can be used.
\<close>

section \<open>The functions\<close>

definition intel_offmask :: u32 where "intel_offmask = 0xfff"
definition superpage_mask :: u32 where "superpage_mask = push_bit 22 1 - 1"
definition intel_pde_valid :: u32 where "intel_pde_valid = 1"
definition intel_pte_valid :: u32 where "intel_pte_valid = 1"
definition intel_pde_superpage :: u32 where "intel_pde_superpage = 0x80"

definition lin2pdenum :: "u32 \<Rightarrow> u32" where "lin2pdenum a = drop_bit 22 a AND 0x3ff"
definition lin2ptenum :: "u32 \<Rightarrow> u32" where "lin2ptenum a = drop_bit 12 a AND 0x3ff"
definition pde_to_pa :: "u32 \<Rightarrow> u32" where "pde_to_pa p = p AND 0xfffff000"

record client =
  client_cr0 :: u32
  client_cr3 :: u32

definition phys_addr_lookup :: "client \<Rightarrow> pmem \<Rightarrow> u32 \<Rightarrow> u32 \<times> u32" where
  "phys_addr_lookup c m vaddr =
     (let pd = pde_to_pa (client_cr3 c); pde = entry pd (lin2pdenum vaddr) m
      in if client_cr0 c AND 0x80000000 = 0 then (vaddr, 0xffffffff)
         else if pde AND intel_pde_valid = 0 then (0, 0)
         else if pde AND intel_pde_superpage = 0 then
           (let pt = pde_to_pa pde; pte = entry pt (lin2ptenum vaddr) m; offs = vaddr AND intel_offmask
            in if pte AND intel_pte_valid = 0 then (0, 0)
               else (pde_to_pa pte + offs, intel_offmask + 1 - offs))
         else (let offs = vaddr AND superpage_mask
               in ((pde AND NOT superpage_mask) + offs, push_bit 22 1 - offs)))"

definition copy_client_paging_registers :: "u32 \<Rightarrow> u32 \<Rightarrow> u32 \<Rightarrow> client" where
  "copy_client_paging_registers cr0 cr3 cr4 = \<lparr>client_cr0 = cr0, client_cr3 = cr3\<rparr>"

text \<open>\<open>gdb_copyin\<close>: whether it returns 0, and the bytes it has copied by then.\<close>

function gdb_copyin :: "client \<Rightarrow> pmem \<Rightarrow> u32 \<Rightarrow> u32 \<Rightarrow> bool \<times> u8 list" where
  "gdb_copyin c m src_va len =
     (if len = 0 then (True, [])
      else case phys_addr_lookup c m src_va of (pa, sz) \<Rightarrow>
        if sz = 0 then (False, [])
        else let sz = (if sz > len then len else sz)
          in case gdb_copyin c m (src_va + sz) (len - sz) of (ok, rest) \<Rightarrow>
               (ok, map (\<lambda>i. load8 (pa + of_nat i) m) [0..<unat sz] @ rest))"
  by pat_completeness auto

termination
proof (relation "measure (\<lambda>(c, m, src_va, len). unat len)", goal_cases)
  case (2 c m src_va len pa sz n)
  then have "n \<le> len" "n \<noteq> 0" by (auto simp: not_less)
  then have "unat (len - n) = unat len - unat n" "unat n \<noteq> 0" "unat n \<le> unat len"
    by (simp_all add: unat_sub unat_eq_zero word_le_nat_alt)
  then show ?case by simp
qed simp

declare gdb_copyin.simps [simp del]

text \<open>A byte stored into the word that holds it.\<close>

definition store8 :: "u32 \<Rightarrow> u8 \<Rightarrow> pmem \<Rightarrow> pmem" where
  "store8 a b m =
     (let w = a AND NOT 3; k = 8 * unat (a AND 3)
      in m\<lparr>ram := (ram m)(w := (ram m w AND NOT (push_bit k 0xff)) OR push_bit k (ucast b))\<rparr>)"

fun store_bytes :: "u32 \<Rightarrow> u8 list \<Rightarrow> pmem \<Rightarrow> pmem" where
  "store_bytes a [] m = m"
| "store_bytes a (b # bs) m = store_bytes (a + 1) bs (store8 a b m)"

text \<open>\<open>gdb_copyout\<close>: whether it returns 0, and the memory it leaves.\<close>

function gdb_copyout :: "client \<Rightarrow> u8 list \<Rightarrow> u32 \<Rightarrow> u32 \<Rightarrow> pmem \<Rightarrow> bool \<times> pmem" where
  "gdb_copyout c src dest_va len m =
     (if len = 0 then (True, m)
      else case phys_addr_lookup c m dest_va of (pa, sz) \<Rightarrow>
        if sz = 0 then (False, m)
        else let sz = (if sz > len then len else sz)
          in gdb_copyout c (drop (unat sz) src) (dest_va + sz) (len - sz) (store_bytes pa (take (unat sz) src) m))"
  by pat_completeness auto

termination
proof (relation "measure (\<lambda>(c, src, dest_va, len, m). unat len)", goal_cases)
  case (2 c src dest_va len m pa sz n)
  then have "n \<le> len" "n \<noteq> 0" by (auto simp: not_less)
  then have "unat (len - n) = unat len - unat n" "unat n \<noteq> 0" "unat n \<le> unat len"
    by (simp_all add: unat_sub unat_eq_zero word_le_nat_alt)
  then show ?case by simp
qed simp

declare gdb_copyout.simps [simp del]

section \<open>The translation of one address\<close>

definition virt_to_phys :: "client \<Rightarrow> pmem \<Rightarrow> u32 \<Rightarrow> u32 option" where
  "virt_to_phys c m a = (case phys_addr_lookup c m a of (pa, n) \<Rightarrow> if n = 0 then None else Some pa)"

lemma low_mask: "unat (a AND mask n) = unat a mod 2 ^ n" for a :: u32
proof -
  have e: "a AND mask n = take_bit n a" by (simp add: take_bit_eq_mask)
  show ?thesis unfolding e unsigned_take_bit_eq by (rule take_bit_eq_mod)
qed

lemma page_masks: "intel_offmask = mask 12" "superpage_mask = mask 22" "(0x3ff :: u32) = mask 10"
  by (simp_all add: intel_offmask_def superpage_mask_def mask_eq_exp_minus_1 push_bit_eq_mult)

lemma lin2_index: "lin2pdenum a = pd_index a" "lin2ptenum a = pt_index a"
proof -
  have "drop_bit 22 a AND mask 10 = drop_bit 22 a"
    by (rule bit_word_eqI) (auto simp: bit_simps dest: bit_imp_le_length)
  then show "lin2pdenum a = pd_index a" by (simp only: lin2pdenum_def pd_index_def page_masks)
  show "lin2ptenum a = pt_index a" by (simp add: lin2ptenum_def pt_index_def)
qed


text \<open>With paging on and pages of 4 KB the walk is that of the processor.\<close>

lemma virt_to_phys_mmu:
  assumes "client_cr0 c AND 0x80000000 \<noteq> 0"
    and "entry (table_addr (client_cr3 c)) (pd_index a) m AND intel_pde_superpage = 0"
  shows "virt_to_phys c m a =
    map_option (\<lambda>t. table_addr t + (a AND 0xfff)) (mmu m (table_addr (client_cr3 c)) a)"
proof -
  have "unat (a AND mask 12) < 4096" unfolding low_mask by simp
  then have "intel_offmask + 1 - (a AND intel_offmask) \<noteq> 0"
    by (auto simp: intel_offmask_def mask_eq_exp_minus_1 dest: arg_cong [where f = unat])
  moreover have "pde_to_pa p = table_addr p" for p by (simp add: pde_to_pa_def table_addr_def)
  ultimately show ?thesis
    using assms by (simp add: virt_to_phys_def phys_addr_lookup_def mmu_def Let_def lin2_index is_present_def pg_present_def
        intel_pde_valid_def intel_pte_valid_def) (simp add: intel_offmask_def)
qed

text \<open>The bytes behind an address that the walk covers are translated to the bytes behind its image.\<close>

lemma same_block:
  fixes a :: u32
  assumes "unat a mod 2 ^ n + k < 2 ^ n" and "n \<le> 32"
  shows "unat (a + of_nat k) = unat a + k" and "(unat a + k) div 2 ^ n = unat a div 2 ^ n"
    and "(unat a + k) mod 2 ^ n = unat a mod 2 ^ n + k"
proof -
  have e: "unat a + k = (unat a mod 2 ^ n + k) + unat a div 2 ^ n * 2 ^ n"
    using div_mult_mod_eq [of "unat a" "2 ^ n"] by linarith
  have N: "(2 :: nat) ^ n \<noteq> 0" by simp
  show d: "(unat a + k) div 2 ^ n = unat a div 2 ^ n"
    using assms(1) unfolding e div_mult_self1 [OF N] by simp
  show m: "(unat a + k) mod 2 ^ n = unat a mod 2 ^ n + k"
    using assms(1) unfolding e mod_mult_self1 by simp
  have p: "(2 :: nat) ^ (32 - n) * 2 ^ n = 2 ^ 32" using assms(2) by (simp flip: power_add)
  have "unat a div 2 ^ n < 2 ^ (32 - n)"
    by (rule less_mult_imp_div_less) (use unat_bound [of a] in \<open>simp add: p del: unsigned_less\<close>)
  then have "(unat a + k) div 2 ^ n < 2 ^ (32 - n)" unfolding d .
  then have "unat a + k < 2 ^ (32 - n) * 2 ^ n" by (simp add: div_less_iff_less_mult)
  then have "unat a + k < 2 ^ 32" unfolding p .
  then show "unat (a + of_nat k) = unat a + k" by (simp add: unat_plus_of_nat)
qed

lemma index_div:
  "unat (lin2pdenum a) = unat a div 2 ^ 22" "unat (lin2ptenum a) = unat a div 2 ^ 12 mod 2 ^ 10"
proof -
  have d: "unat (drop_bit n a) = unat a div 2 ^ n" for n
    unfolding unat_drop_bit_eq by (rule drop_bit_eq_div)
  have "unat a div 2 ^ 22 < 2 ^ 10" using unat_bound [of a] by (simp add: div_less_iff_less_mult del: unsigned_less)
  then show "unat (lin2pdenum a) = unat a div 2 ^ 22"
    unfolding lin2pdenum_def page_masks low_mask d by (rule mod_less)
  show "unat (lin2ptenum a) = unat a div 2 ^ 12 mod 2 ^ 10"
    unfolding lin2ptenum_def page_masks low_mask d ..
qed

lemma same_index:
  assumes "unat a mod 2 ^ 22 + k < 2 ^ 22"
  shows "lin2pdenum (a + of_nat k) = lin2pdenum a"
    and "(a + of_nat k) AND superpage_mask = (a AND superpage_mask) + of_nat k"
proof -
  note b = same_block [OF assms, simplified]
  show "lin2pdenum (a + of_nat k) = lin2pdenum a"
    using b by (simp add: word_unat_eq_iff index_div)
  show "(a + of_nat k) AND superpage_mask = (a AND superpage_mask) + of_nat k"
    unfolding word_unat_eq_iff using b unat_plus_of_nat [of "a AND superpage_mask" k] assms
    by (simp add: page_masks low_mask)
qed

lemma same_page:
  assumes "unat a mod 2 ^ 12 + k < 2 ^ 12"
  shows "lin2pdenum (a + of_nat k) = lin2pdenum a" and "lin2ptenum (a + of_nat k) = lin2ptenum a"
    and "(a + of_nat k) AND intel_offmask = (a AND intel_offmask) + of_nat k"
proof -
  note b = same_block [OF assms, simplified]
  have "(unat a + k) div 4096 div 1024 = unat a div 4096 div 1024" by (simp only: b)
  then have "(unat a + k) div 4194304 = unat a div 4194304" by (simp flip: div_mult2_eq)
  then show "lin2pdenum (a + of_nat k) = lin2pdenum a"
    using b by (simp add: word_unat_eq_iff index_div)
  show "lin2ptenum (a + of_nat k) = lin2ptenum a"
    using b by (simp add: word_unat_eq_iff index_div)
  show "(a + of_nat k) AND intel_offmask = (a AND intel_offmask) + of_nat k"
    unfolding word_unat_eq_iff using b unat_plus_of_nat [of "a AND intel_offmask" k] assms
    by (simp add: page_masks low_mask)
qed

lemma lookup_run:
  assumes l: "phys_addr_lookup c m a = (pa, n)" and k: "k < unat n"
  shows "virt_to_phys c m (a + of_nat k) = Some (pa + of_nat k)"
proof (cases "client_cr0 c AND 0x80000000 = 0")
  case True then show ?thesis using l by (auto simp: virt_to_phys_def phys_addr_lookup_def Let_def)
next
  case on: False
  let ?pde = "entry (pde_to_pa (client_cr3 c)) (lin2pdenum a) m"
  have valid: "?pde AND intel_pde_valid \<noteq> 0" using l k on by (auto simp: phys_addr_lookup_def Let_def)
  show ?thesis
  proof (cases "?pde AND intel_pde_superpage = 0")
    case True
    then have n: "n = 0x1000 - (a AND intel_offmask)" and pa: "pa = pde_to_pa (entry (pde_to_pa ?pde) (lin2ptenum a) m) + (a AND intel_offmask)"
      and v: "entry (pde_to_pa ?pde) (lin2ptenum a) m AND intel_pte_valid \<noteq> 0"
      using l k on valid by (auto simp: phys_addr_lookup_def Let_def intel_offmask_def split: if_splits)
    have "unat (a AND intel_offmask) = unat a mod 2 ^ 12" unfolding page_masks by (rule low_mask)
    then have "unat a mod 2 ^ 12 + k < 2 ^ 12" using k unfolding n
      by (subst (asm) unat_sub) (simp_all add: word_le_nat_alt)
    note s = same_page [OF this]
    have "unat ((a + of_nat k) AND intel_offmask) < 4096" unfolding page_masks low_mask by simp
    then have "0x1000 - ((a + of_nat k) AND intel_offmask) \<noteq> 0" by auto
    then show ?thesis using on valid v True
      by (simp add: virt_to_phys_def phys_addr_lookup_def Let_def s pa) (simp add: intel_offmask_def algebra_simps)
  next
    case False
    then have n: "n = 0x400000 - (a AND superpage_mask)"
      and pa: "pa = (?pde AND NOT superpage_mask) + (a AND superpage_mask)"
      using l k on valid by (auto simp: phys_addr_lookup_def Let_def push_bit_eq_mult)
    have "unat (a AND superpage_mask) = unat a mod 2 ^ 22" unfolding page_masks by (rule low_mask)
    then have "unat a mod 2 ^ 22 + k < 2 ^ 22" using k unfolding n
      by (subst (asm) unat_sub) (simp_all add: word_le_nat_alt)
    note s = same_index [OF this]
    have "unat ((a + of_nat k) AND superpage_mask) < 4194304" unfolding page_masks low_mask by simp
    then have "0x400000 - ((a + of_nat k) AND superpage_mask) \<noteq> 0" by auto
    then show ?thesis using on valid False
      by (simp add: virt_to_phys_def phys_addr_lookup_def Let_def s pa push_bit_eq_mult algebra_simps)
  qed
qed

section \<open>gdb_copyin\<close>

lemma lookup_zero: "virt_to_phys c m a = None \<longleftrightarrow> snd (phys_addr_lookup c m a) = 0"
  by (simp add: virt_to_phys_def split: prod.splits)

definition seen :: "client \<Rightarrow> pmem \<Rightarrow> u32 \<Rightarrow> u8 option" where
  "seen c m a = map_option (\<lambda>pa. load8 pa m) (virt_to_phys c m a)"

lemma map_upt_shift: "map (\<lambda>i. f (n + i)) [0..<m] = map f [n..<n + m]"
  by (rule nth_equalityI) auto

lemma copyin_sound:
  "gdb_copyin c m a n = (ok, bs) \<Longrightarrow>
     map Some bs = map (\<lambda>i. seen c m (a + of_nat i)) [0..<length bs] \<and>
     (if ok then length bs = unat n
      else length bs < unat n \<and> seen c m (a + of_nat (length bs)) = None)"
proof (induction c m a n arbitrary: ok bs rule: gdb_copyin.induct)
  case (1 c m a n)
  show ?case
  proof (cases "n = 0")
    case True
    then show ?thesis using 1(2) by (simp add: gdb_copyin.simps)
  next
    case False
    obtain pa sz where l: "phys_addr_lookup c m a = (pa, sz)" by force
    show ?thesis
    proof (cases "sz = 0")
      case True
      then show ?thesis using 1(2) False l by (simp add: gdb_copyin.simps [of c m a n] seen_def virt_to_phys_def unat_gt_0)
    next
      case nz: False
      define s where "s = (if sz > n then n else sz)"
      obtain ok' rest where r: "gdb_copyin c m (a + s) (n - s) = (ok', rest)" by force
      have out: "ok = ok'" "bs = map (\<lambda>i. load8 (pa + of_nat i) m) [0..<unat s] @ rest"
        using 1(2) False l nz r by (auto simp: gdb_copyin.simps [of c m a n] Let_def s_def split: if_splits)
      have s: "s \<le> n" "unat s \<le> unat sz" "s \<noteq> 0" using False nz by (auto simp: s_def not_less word_le_nat_alt word_less_nat_alt)
      have ns: "unat (n - s) = unat n - unat s" "unat s \<le> unat n" using s(1) by (simp_all add: unat_sub word_le_nat_alt)
      have shift: "a + s + of_nat i = a + of_nat (unat s + i)" for i by simp
      have IH: "map Some rest = map (\<lambda>i. seen c m (a + of_nat (unat s + i))) [0..<length rest]"
        "if ok' then length rest = unat n - unat s
         else length rest < unat n - unat s \<and> seen c m (a + of_nat (unat s + length rest)) = None"
        using 1(1) [OF False l [symmetric] nz s_def r] unfolding shift ns by auto
      have "map (\<lambda>i. Some (load8 (pa + of_nat i) m)) [0..<unat s] = map (\<lambda>i. seen c m (a + of_nat i)) [0..<unat s]"
        using lookup_run [OF l] s(2) by (auto simp: seen_def)
      moreover have "map (\<lambda>i. seen c m (a + of_nat (unat s + i))) [0..<length rest] =
          map (\<lambda>i. seen c m (a + of_nat i)) [unat s..<unat s + length rest]"
        by (rule map_upt_shift)
      moreover have "[0..<length bs] = [0..<unat s] @ [unat s..<unat s + length rest]"
        unfolding out(2) by (simp add: upt_add_eq_append [of 0])
      ultimately have "map Some bs = map (\<lambda>i. seen c m (a + of_nat i)) [0..<length bs]"
        using IH(1) by (simp only: out(2) map_append map_map comp_def)
      moreover have "if ok then length bs = unat n
          else length bs < unat n \<and> seen c m (a + of_nat (length bs)) = None"
        using IH(2) ns(2) unfolding out by (auto split: if_splits)
      ultimately show ?thesis by blast
    qed
  qed
qed

text \<open>
  \<open>gdb_copyin\<close> succeeds exactly when every byte that is asked for is mapped, and then it has read
  the bytes that the trapped program sees, whatever the order of the physical pages behind them.
\<close>

theorem debugger_reads_what_the_program_sees:
  "gdb_copyin c m a n =
     (if list_all (\<lambda>i. seen c m (a + of_nat i) \<noteq> None) [0..<unat n]
      then (True, map (\<lambda>i. the (seen c m (a + of_nat i))) [0..<unat n])
      else (False, map (\<lambda>i. the (seen c m (a + of_nat i)))
                       (takeWhile (\<lambda>i. seen c m (a + of_nat i) \<noteq> None) [0..<unat n])))"
proof -
  obtain ok bs where r: "gdb_copyin c m a n = (ok, bs)" by force
  note b = conjunct1 [OF copyin_sound [OF r]] and o = conjunct2 [OF copyin_sound [OF r]]
  have at: "seen c m (a + of_nat i) = Some (bs ! i)" if "i < length bs" for i
    using arg_cong [OF b, of "\<lambda>l. l ! i"] that by simp
  have bs: "bs = map (\<lambda>i. the (seen c m (a + of_nat i))) [0..<length bs]"
    by (rule nth_equalityI) (simp_all add: at)
  show ?thesis
  proof (cases ok)
    case True
    then have "list_all (\<lambda>i. seen c m (a + of_nat i) \<noteq> None) [0..<unat n]" using o at by (simp add: list_all_iff)
    then show ?thesis using r True bs o by simp
  next
    case False
    then have e: "length bs < unat n" "seen c m (a + of_nat (length bs)) = None" using o by simp_all
    have "[0..<unat n] = [0..<length bs] @ length bs # [Suc (length bs)..<unat n]"
      using e(1) upt_add_eq_append [of 0 "length bs" "unat n - length bs"] by (simp add: upt_conv_Cons)
    then have "takeWhile (\<lambda>i. seen c m (a + of_nat i) \<noteq> None) [0..<unat n] = [0..<length bs]"
      using e(2) at by (simp add: takeWhile_append)
    moreover have "\<not> list_all (\<lambda>i. seen c m (a + of_nat i) \<noteq> None) [0..<unat n]"
      using e by (auto simp: list_all_iff)
    ultimately show ?thesis using r False bs by simp
  qed
qed

section \<open>gdb_copyout\<close>

lemma bit_byte: "bit (0xff :: u32) n \<longleftrightarrow> n < 8"
proof -
  have "(0xff :: u32) = mask 8" by (simp add: mask_eq_exp_minus_1)
  then show ?thesis by (simp only: bit_mask_iff) auto
qed

lemma load_store: "load8 x (store8 a b m) = (if x = a then b else load8 x m)"
proof (cases "x AND NOT 3 = a AND NOT 3")
  case True
  define i where "i = unat (x AND 3)"
  define j where "j = unat (a AND 3)"
  have e: "y = (y AND NOT 3) OR (y AND 3)" for y :: u32 by (rule bit_word_eqI) (auto simp: bit_simps)
  have eq: "x = a \<longleftrightarrow> i = j" using True e [of x] e [of a] by (metis i_def j_def word_unat_eq_iff)
  have m: "(3 :: u32) = mask 2" by (simp add: mask_eq_exp_minus_1)
  have lt: "i < 4" "j < 4" unfolding i_def j_def m low_mask by simp_all
  have "bit (load8 x (store8 a b m)) n = bit (if i = j then b else load8 x m) n" if "n < 8" for n
  proof -
    have "8 * i + n < 32" using lt that by simp
    moreover have "8 * j \<le> 8 * i + n \<and> 8 * i + n - 8 * j < 8 \<longleftrightarrow> i = j" using that by auto
    ultimately show ?thesis using that True
      by (auto simp: load8_def store8_def Let_def i_def [symmetric] j_def [symmetric] bit_simps bit_byte simp del: bit_numeral_word_iff dest: bit_imp_le_length)
  qed
  then show ?thesis unfolding eq by (intro bit_word_eqI) auto
next
  case False
  then show ?thesis by (auto simp: load8_def store8_def Let_def)
qed

text \<open>The words that the walk for an address reads.\<close>

definition walk_words :: "client \<Rightarrow> pmem \<Rightarrow> u32 \<Rightarrow> u32 list" where
  "walk_words c m a =
     (let pd = pde_to_pa (client_cr3 c)
      in [pd + 4 * lin2pdenum a, pde_to_pa (entry pd (lin2pdenum a) m) + 4 * lin2ptenum a])"

lemma lookup_cong:
  assumes "\<And>w. w \<in> set (walk_words c m a) \<Longrightarrow> ram m' w = ram m w"
  shows "virt_to_phys c m' a = virt_to_phys c m a" and "walk_words c m' a = walk_words c m a"
proof -
  have "entry (pde_to_pa (client_cr3 c)) (lin2pdenum a) m' = entry (pde_to_pa (client_cr3 c)) (lin2pdenum a) m"
    "entry (pde_to_pa (entry (pde_to_pa (client_cr3 c)) (lin2pdenum a) m)) (lin2ptenum a) m' =
     entry (pde_to_pa (entry (pde_to_pa (client_cr3 c)) (lin2pdenum a) m)) (lin2ptenum a) m"
    using assms by (simp_all add: entry_def walk_words_def Let_def)
  then show "virt_to_phys c m' a = virt_to_phys c m a" "walk_words c m' a = walk_words c m a"
    by (simp_all add: virt_to_phys_def phys_addr_lookup_def walk_words_def Let_def)
qed

text \<open>Bytes stored one by one.\<close>

definition store_all :: "u32 list \<Rightarrow> u8 list \<Rightarrow> pmem \<Rightarrow> pmem" where
  "store_all as bs m = fold (\<lambda>(a, b). store8 a b) (zip as bs) m"

lemma store_bytes_all: "store_bytes a bs m = store_all (map (\<lambda>i. a + of_nat i) [0..<length bs]) bs m"
proof (induction bs arbitrary: a m)
  case (Cons b bs)
  have "map (\<lambda>i. a + of_nat i) [0..<length (b # bs)] = a # map (\<lambda>i. (a + 1) + of_nat i) [0..<length bs]"
    by (simp add: upt_conv_Cons map_Suc_upt [symmetric] comp_def add.assoc del: upt_Suc map_Suc_upt)
  then show ?case using Cons.IH [of "a + 1"] by (simp add: store_all_def)
qed (simp add: store_all_def)

lemma store_all_append: "length as = length bs \<Longrightarrow> store_all (as @ as') (bs @ bs') m = store_all as' bs' (store_all as bs m)"
  by (simp add: store_all_def)

lemma ram_store_all: "w \<notin> (\<lambda>a. a AND NOT 3) ` set as \<Longrightarrow> ram (store_all as bs m) w = ram m w"
proof (induction as arbitrary: bs m)
  case (Cons a as)
  then show ?case by (cases bs) (auto simp: store_all_def store8_def Let_def)
qed (simp add: store_all_def)

lemma load_store_all:
  "distinct as \<Longrightarrow> length as = length bs \<Longrightarrow>
   load8 x (store_all as bs m) = (if x \<in> set as then the (map_of (zip as bs) x) else load8 x m)"
proof (induction as arbitrary: bs m)
  case (Cons a as)
  then obtain b bs' where bs: "bs = b # bs'" by (cases bs) auto
  show ?case using Cons.IH [of bs' "store8 a b m"] Cons.prems
    unfolding bs by (auto simp: store_all_def load_store)
qed (simp add: store_all_def)

text \<open>
  Where the bytes go: every byte of the range has an image, and none of the images is in a word that a
  walk for the range reads.
\<close>

definition images :: "client \<Rightarrow> pmem \<Rightarrow> u32 \<Rightarrow> u32 list \<Rightarrow> bool" where
  "images c m a fs \<longleftrightarrow>
     (\<forall>i<length fs. virt_to_phys c m (a + of_nat i) = Some (fs ! i) \<and>
        (\<forall>f\<in>set fs. f AND NOT 3 \<notin> set (walk_words c m (a + of_nat i))))"

lemma imagesD:
  assumes "images c m a fs" and "i < length fs"
  shows "virt_to_phys c m (a + of_nat i) = Some (fs ! i)"
    and "f \<in> set fs \<Longrightarrow> f AND NOT 3 \<notin> set (walk_words c m (a + of_nat i))"
  using assms by (auto simp: images_def)

lemma images_store:
  assumes "images c m a fs" and "set gs \<subseteq> set fs"
  shows "images c (store_all gs bs m) a fs"
proof -
  have w: "ram (store_all gs bs m) w = ram m w" if "w \<in> set (walk_words c m (a + of_nat i))" "i < length fs" for w i
    using that imagesD(2) [OF assms(1)] assms(2) by (intro ram_store_all) auto
  have "virt_to_phys c (store_all gs bs m) (a + of_nat i) = virt_to_phys c m (a + of_nat i)"
    "walk_words c (store_all gs bs m) (a + of_nat i) = walk_words c m (a + of_nat i)" if "i < length fs" for i
    using w that by (blast intro: lookup_cong)+
  then show ?thesis using assms(1) by (simp add: images_def)
qed

lemma images_drop:
  assumes "images c m a fs" and "k \<le> length fs"
  shows "images c m (a + of_nat k) (drop k fs)"
  unfolding images_def
proof (intro allI impI)
  fix i assume i: "i < length (drop k fs)"
  have e: "a + of_nat (k + i) = a + of_nat k + of_nat i" by simp
  show "virt_to_phys c m (a + of_nat k + of_nat i) = Some (drop k fs ! i) \<and>
      (\<forall>f\<in>set (drop k fs). f AND NOT 3 \<notin> set (walk_words c m (a + of_nat k + of_nat i)))"
    using imagesD [OF assms(1), of "k + i", unfolded e] i assms(2) by (auto dest: in_set_dropD)
qed

lemma copyout_stores:
  "images c m a fs \<Longrightarrow> length fs = unat n \<Longrightarrow> unat n \<le> length src \<Longrightarrow>
   gdb_copyout c src a n m = (True, store_all fs (take (unat n) src) m)"
proof (induction c src a n m arbitrary: fs rule: gdb_copyout.induct)
  case (1 c src a n m)
  show ?case
  proof (cases "n = 0")
    case True
    then show ?thesis using 1(3) by (simp add: gdb_copyout.simps store_all_def)
  next
    case False
    then have n0: "0 < unat n" by (simp add: unat_gt_0)
    obtain pa sz where l: "phys_addr_lookup c m a = (pa, sz)" by force
    have nz: "sz \<noteq> 0" using imagesD(1) [OF 1(2), of 0] n0 1(3) l by (auto simp: virt_to_phys_def)
    define s where "s = (if sz > n then n else sz)"
    have s: "s \<le> n" "unat s \<le> unat sz" using False nz by (auto simp: s_def not_less word_le_nat_alt word_less_nat_alt)
    have ns: "unat (n - s) = unat n - unat s" "unat s \<le> unat n" using s(1) by (simp_all add: unat_sub word_le_nat_alt)
    let ?m = "store_all (take (unat s) fs) (take (unat s) src) m"
    have "fs ! i = pa + of_nat i" if "i < unat s" for i
      using imagesD(1) [OF 1(2), of i] lookup_run [OF l, of i] s(2) ns(2) 1(3) that by simp
    then have "take (unat s) fs = map (\<lambda>i. pa + of_nat i) [0..<unat s]"
      using ns(2) 1(3) by (intro nth_equalityI) auto
    then have m: "store_bytes pa (take (unat s) src) m = ?m"
      using store_bytes_all [of pa "take (unat s) src" m] ns(2) 1(4) by simp
    have "images c ?m a fs" by (rule images_store [OF 1(2)]) (auto dest: in_set_takeD)
    then have "images c ?m (a + s) (drop (unat s) fs)" using images_drop [of c ?m a fs "unat s"] ns(2) 1(3) by simp
    then have "gdb_copyout c (drop (unat s) src) (a + s) (n - s) ?m =
        (True, store_all (drop (unat s) fs) (take (unat (n - s)) (drop (unat s) src)) ?m)"
      using 1(1) [OF False l [symmetric] nz s_def, unfolded m, of "drop (unat s) fs"] ns 1(3,4) by simp
    moreover have "store_all (drop (unat s) fs) (take (unat (n - s)) (drop (unat s) src)) ?m = store_all fs (take (unat n) src) m"
    proof -
      have "take (unat n) src = take (unat s) src @ take (unat (n - s)) (drop (unat s) src)"
        unfolding ns(1) using ns(2) take_add [of "unat s" "unat n - unat s" src] by simp
      then show ?thesis
        using store_all_append [of "take (unat s) fs" "take (unat s) src" "drop (unat s) fs" "take (unat (n - s)) (drop (unat s) src)" m] ns(2) 1(3,4)
        by simp
    qed
    ultimately show ?thesis using False l nz m by (simp add: gdb_copyout.simps [of c src a n m] Let_def s_def [symmetric])
  qed
qed


text \<open>Four bytes over the border of two pages that are far apart.\<close>

definition two_pages :: pmem where
  "two_pages = \<lparr>pages = buddy_init, ram = (\<lambda>_. 0)(0x1000 := 0x2001, 0x2014 := 0x7001, 0x2018 := 0x3001)\<rparr>"


end
