(* ===== verification/GdbStub.thy ===== *)
theory GdbStub
  imports GdbPacket GdbMemory Strtol
begin

text \<open>
  \<open>gdb_serial_converse\<close> of \<open>kernel/gdb_serial.c\<close>, the dialogue with the remote debugger, for the callers
  of this kernel, which pass no thread callbacks. The state is what the function works on: its buffer at
  its address on the stack, the registers it was given, the signal, the two flags, and the memory of the
  program. A command gives the packet that is sent in reply, if any, and what the caller is to do;
  accesses outside the buffer or the registers are \<open>Out_Of_Bounds\<close>. The theorems show that on a clean
  line the dialogue is the sequence of the commands, and what the commands read and write.
\<close>

section \<open>Registers\<close>

record gdb_state =
  g_eax :: u32
  g_ecx :: u32
  g_edx :: u32
  g_ebx :: u32
  g_esp :: u32
  g_ebp :: u32
  g_esi :: u32
  g_edi :: u32
  g_eip :: u32
  g_eflags :: u32
  g_cs :: u32
  g_ss :: u32
  g_ds :: u32
  g_es :: u32
  g_fs :: u32
  g_gs :: u32

text \<open>The structure as the array of words and of bytes it is in memory, and back.\<close>

definition state_words :: "gdb_state \<Rightarrow> u32 list" where
  "state_words s = [g_eax s, g_ecx s, g_edx s, g_ebx s, g_esp s, g_ebp s, g_esi s, g_edi s,
     g_eip s, g_eflags s, g_cs s, g_ss s, g_ds s, g_es s, g_fs s, g_gs s]"

definition words_state :: "u32 list \<Rightarrow> gdb_state" where
  "words_state w = \<lparr>g_eax = w ! 0, g_ecx = w ! 1, g_edx = w ! 2, g_ebx = w ! 3, g_esp = w ! 4, g_ebp = w ! 5,
     g_esi = w ! 6, g_edi = w ! 7, g_eip = w ! 8, g_eflags = w ! 9, g_cs = w ! 10, g_ss = w ! 11,
     g_ds = w ! 12, g_es = w ! 13, g_fs = w ! 14, g_gs = w ! 15\<rparr>"

definition word_bytes :: "u32 \<Rightarrow> u8 list" where
  "word_bytes w = [ucast w, ucast (drop_bit 8 w), ucast (drop_bit 16 w), ucast (drop_bit 24 w)]"

fun bytes_words :: "u8 list \<Rightarrow> u32 list" where
  "bytes_words (a # b # c # d # r) =
     (ucast a OR push_bit 8 (ucast b) OR push_bit 16 (ucast c) OR push_bit 24 (ucast d)) # bytes_words r"
| "bytes_words _ = []"

definition state_bytes :: "gdb_state \<Rightarrow> u8 list" where
  "state_bytes s = concat (map word_bytes (state_words s))"

text \<open>Bytes stored into the structure from an offset on.\<close>

definition put_bytes :: "nat \<Rightarrow> u8 list \<Rightarrow> gdb_state \<Rightarrow> gdb_state res" where
  "put_bytes off bs s =
     (if bs \<noteq> [] \<and> 64 < off + length bs then Inl Out_Of_Bounds
      else Inr (words_state (bytes_words
        (take off (state_bytes s) @ bs @ drop (off + length bs) (state_bytes s)))))"

definition efl_tf :: u32 where "efl_tf = 0x100"

definition gdb_set_trace_flag :: "bool \<Rightarrow> gdb_state \<Rightarrow> gdb_state" where
  "gdb_set_trace_flag trace_enable s =
     (if trace_enable then s\<lparr>g_eflags := g_eflags s OR efl_tf\<rparr>
      else s\<lparr>g_eflags := g_eflags s AND NOT efl_tf\<rparr>)"

section \<open>The state of the stub\<close>

datatype gdb_action = GDB_MORE | GDB_CONT | GDB_RUN | GDB_KILL | GDB_DETACH

definition nsig_max :: int where "nsig_max = 32"

record stub =
  inbuf :: "u8 list"
  inbuf_addr :: u32
  regs :: gdb_state
  signo :: u8
  regs_changed :: bool
  connected :: bool
  gdb_serial_debug :: bool
  client_regs :: client
  memory :: pmem

text \<open>The buffer as the string functions see it; there are zeros around it.\<close>

definition buffer_mem :: "stub \<Rightarrow> mem8" where
  "buffer_mem s = (\<lambda>a. let i = unat (a - inbuf_addr s) in if i < length (inbuf s) then inbuf s ! i else 0)"

definition inbuf_at :: "stub \<Rightarrow> nat \<Rightarrow> u32" where "inbuf_at s i = inbuf_addr s + of_nat i"

text \<open>A number in hexadecimal, and where it ends.\<close>

definition number_at :: "stub \<Rightarrow> u32 \<Rightarrow> (u32 \<times> u32) res" where
  "number_at s p = (case strtoul p 16 (buffer_mem s) of None \<Rightarrow> Inl No_Return | Some r \<Rightarrow> Inr r)"

datatype reply = Silent | Reply "outfrag list"

definition text_frag :: "string \<Rightarrow> outfrag" where
  "text_frag t = \<lparr>fr_data = letters t @ [0], fr_len = 0, fr_hexify = False\<rparr>"

definition hex_frag :: "u8 list \<Rightarrow> nat \<Rightarrow> outfrag" where
  "hex_frag bs n = \<lparr>fr_data = bs, fr_len = n, fr_hexify = True\<rparr>"

type_synonym outcome = "(reply \<times> gdb_action \<times> stub) res"

definition done_ok :: "gdb_action \<Rightarrow> stub \<Rightarrow> outcome" where
  "done_ok act s = Inr (Reply [text_frag ''OK''], act, s)"

definition errpacket :: "u8 \<Rightarrow> stub \<Rightarrow> outcome" where
  "errpacket code s = Inr (Reply [text_frag ''E'', hex_frag [code] 1], GDB_MORE, s)"

definition unknown :: "stub \<Rightarrow> outcome" where
  "unknown s = Inr (Reply [text_frag []], GDB_MORE, s)"

definition report :: "stub \<Rightarrow> reply" where
  "report s = Reply [text_frag ''S'', hex_frag [signo s] 1]"

section \<open>The commands\<close>

text \<open>The thread commands only parse their argument; \<open>code\<close> is the error for an empty one.\<close>

definition cmd_thread :: "nat \<Rightarrow> u8 \<Rightarrow> stub \<Rightarrow> outcome" where
  "cmd_thread i code s =
     (case strtol (inbuf_at s i) 16 (buffer_mem s) of
        None \<Rightarrow> Inl No_Return
      | Some (th, endth) \<Rightarrow> if endth = inbuf_at s i then errpacket code s else unknown s)"

definition cmd_get_regs :: "stub \<Rightarrow> outcome" where
  "cmd_get_regs s = Inr (Reply [hex_frag (state_bytes (regs s)) 64], GDB_MORE, s)"

definition cmd_set_regs :: "stub \<Rightarrow> outcome" where
  "cmd_set_regs s =
     bindE (hex2bin (inbuf s) 1 64) (\<lambda>(ok, bs).
     bindE (put_bytes 0 bs (regs s)) (\<lambda>r.
       if ok then done_ok GDB_MORE (s\<lparr>regs := r, regs_changed := True\<rparr>)
       else errpacket 4 (s\<lparr>regs := r\<rparr>)))"

definition cmd_set_reg :: "stub \<Rightarrow> outcome" where
  "cmd_set_reg s =
     bindE (number_at s (inbuf_at s 1)) (\<lambda>(reg, eqp).
       if eqp = inbuf_at s 1 \<or> buffer_mem s eqp \<noteq> 61 then errpacket 4 s
       else if reg = 0x29 then done_ok GDB_MORE s
       else if (reg + 1) * 4 > 64 then errpacket 4 s
       else bindE (hex2bin (inbuf s) (unat (eqp + 1 - inbuf_addr s)) 4) (\<lambda>(ok, bs).
            bindE (put_bytes (unat (reg * 4)) bs (regs s)) (\<lambda>r.
              if ok then done_ok GDB_MORE (s\<lparr>regs := r, regs_changed := True\<rparr>)
              else errpacket 4 (s\<lparr>regs := r\<rparr>))))"

definition cmd_read_mem :: "stub \<Rightarrow> outcome" where
  "cmd_read_mem s =
     bindE (number_at s (inbuf_at s 1)) (\<lambda>(addr, ptr).
       if ptr = inbuf_at s 1 \<or> buffer_mem s ptr \<noteq> 44 then errpacket 2 s
       else bindE (number_at s (ptr + 1)) (\<lambda>(len, ptr2).
         if ptr2 = ptr + 1 \<or> len * 2 > of_nat bufmax then errpacket 2 s
         else case gdb_copyin (client_regs s) (memory s) addr len of (ok, bs) \<Rightarrow>
           if bufmax + 1 < length bs then Inl Out_Of_Bounds
           else let s1 = s\<lparr>inbuf := bs @ drop (length bs) (inbuf s)\<rparr>
             in if \<not> ok then errpacket 3 s1
                else Inr (Reply [hex_frag (inbuf s1) (unat len)], GDB_MORE, s1)))"

text \<open>
  \<open>M\<close>: the data go through an array of \<open>len\<close> bytes on the stack. A length that only passes the test
  because \<open>ptr2 + len*2\<close> wraps around moves the stack pointer out of the stack.
\<close>

definition cmd_write_mem :: "stub \<Rightarrow> outcome" where
  "cmd_write_mem s =
     bindE (number_at s (inbuf_at s 1)) (\<lambda>(addr, ptr).
       if ptr = inbuf_at s 1 \<or> buffer_mem s ptr \<noteq> 44 then errpacket 2 s
       else bindE (number_at s (ptr + 1)) (\<lambda>(len, ptr2).
         if ptr2 = ptr + 1 \<or> buffer_mem s ptr2 \<noteq> 58 then errpacket 2 s
         else if ptr2 + 1 + len * 2 > inbuf_at s bufmax then errpacket 2 s
         else if bufmax < unat len then Inl Out_Of_Bounds
         else bindE (hex2bin (inbuf s) (unat (ptr2 + 1 - inbuf_addr s)) (unat len)) (\<lambda>(ok, outbuf).
           if \<not> ok then errpacket 2 s
           else case gdb_copyout (client_regs s) outbuf addr len (memory s) of (ok, m) \<Rightarrow>
             if ok then done_ok GDB_MORE (s\<lparr>memory := m\<rparr>) else errpacket 3 (s\<lparr>memory := m\<rparr>))))"

text \<open>
  The loop of \<open>X\<close>, in place: \<open>n\<close> bytes from \<open>i\<close> on are left, \<open>out\<close> is where the next one goes.
\<close>

function unquote :: "nat \<Rightarrow> nat \<Rightarrow> nat \<Rightarrow> u8 list \<Rightarrow> (bool \<times> nat \<times> u8 list) res" where
  "unquote i n out buf =
     (if n = 0 then Inr (True, out, buf)
      else if length buf \<le> i then Inl Out_Of_Bounds
      else if buf ! i = 0x7d then
        (if n < 2 then Inr (False, out, buf)
         else if length buf \<le> i + 1 then Inl Out_Of_Bounds
         else unquote (i + 2) (n - 2) (out + 1) (buf[out := buf ! (i + 1) XOR 0x20]))
      else unquote (i + 1) (n - 1) (out + 1) (buf[out := buf ! i]))"
  by pat_completeness auto

termination
  by (relation "measure (\<lambda>(i, n, out, buf). n)") auto

declare unquote.simps [simp del]

definition cmd_write_binary :: "stub \<Rightarrow> outcome" where
  "cmd_write_binary s =
     bindE (number_at s (inbuf_at s 1)) (\<lambda>(addr, ptr).
       if ptr = inbuf_at s 1 \<or> buffer_mem s ptr \<noteq> 44 then errpacket 2 s
       else bindE (number_at s (ptr + 1)) (\<lambda>(len, ptr2).
         if ptr2 = ptr + 1 \<or> buffer_mem s ptr2 \<noteq> 58 then errpacket 2 s
         else if ptr2 + 1 + len > inbuf_at s bufmax then errpacket 2 s
         else bindE (unquote (unat (ptr2 + 1 - inbuf_addr s)) (if ptr2 + 1 < ptr2 + 1 + len then unat len else 0) 0 (inbuf s)) (\<lambda>(ok, n, buf).
           let s1 = s\<lparr>inbuf := buf\<rparr>
           in if \<not> ok then errpacket 2 s1
              else case gdb_copyout (client_regs s) buf addr (of_nat n) (memory s) of (ok, m) \<Rightarrow>
                if ok then done_ok GDB_MORE (s1\<lparr>memory := m\<rparr>) else errpacket 3 (s1\<lparr>memory := m\<rparr>))))"

text \<open>The optional address of the commands that continue.\<close>

definition new_eip_at :: "nat \<Rightarrow> stub \<Rightarrow> stub res" where
  "new_eip_at i s =
     bindE (number_at s (inbuf_at s i)) (\<lambda>(new_eip, ptr).
       Inr (if inbuf_at s i < ptr \<and> new_eip \<noteq> g_eip (regs s)
            then s\<lparr>regs := (regs s)\<lparr>g_eip := new_eip\<rparr>, regs_changed := True\<rparr> else s))"

definition cmd_continue :: "stub \<Rightarrow> outcome" where
  "cmd_continue s =
     bindE (new_eip_at 1 s) (\<lambda>s1.
       Inr (Silent, GDB_CONT, s1\<lparr>regs := gdb_set_trace_flag (inbuf s ! 0 = 115) (regs s1), signo := 0\<rparr>))"

definition cmd_signal :: "stub \<Rightarrow> outcome" where
  "cmd_signal s =
     (let nsig = push_bit 4 (hex (inbuf s ! 1)) OR hex (inbuf s ! 2)
      in if nsig \<le> 0 \<or> nsig \<ge> nsig_max then errpacket 5 s
         else bindE (new_eip_at 3 s) (\<lambda>s1.
           Inr (Silent, GDB_CONT, s1\<lparr>regs := gdb_set_trace_flag (inbuf s ! 0 = 83) (regs s1), signo := word_of_int nsig\<rparr>)))"

definition command :: "stub \<Rightarrow> outcome" where
  "command s =
     (let c = inbuf s ! 0
      in if c = 72 then cmd_thread 2 4 s
         else if c = 84 then cmd_thread 1 1 s
         else if c = 103 then cmd_get_regs s
         else if c = 71 then cmd_set_regs s
         else if c = 80 then cmd_set_reg s
         else if c = 109 then cmd_read_mem s
         else if c = 77 then cmd_write_mem s
         else if c = 88 then cmd_write_binary s
         else if c = 99 \<or> c = 115 then cmd_continue s
         else if c = 67 \<or> c = 83 then cmd_signal s
         else if c = 63 then Inr (report s, GDB_MORE, s)
         else if c = 68 then done_ok GDB_DETACH (s\<lparr>connected := False\<rparr>)
         else if c = 82 then Inr (Silent, GDB_RUN, s\<lparr>connected := False\<rparr>)
         else if c = 107 then Inr (Silent, GDB_KILL, s\<lparr>connected := False\<rparr>)
         else if c = 100 then done_ok GDB_MORE (s\<lparr>gdb_serial_debug := \<not> gdb_serial_debug s\<rparr>)
         else if c = 33 then done_ok GDB_MORE s
         else unknown s)"

section \<open>The dialogue\<close>

definition answer :: "reply \<Rightarrow> line \<Rightarrow> line option" where
  "answer r l = (case r of Silent \<Rightarrow> Some l | Reply frags \<Rightarrow> putfrags frags l)"

lemma send_until_ack_rx: "send_until_ack p cs t = Some l \<Longrightarrow> length (rx l) < length cs"
  by (induction p cs t rule: send_until_ack.induct) (auto split: if_splits)

lemma answer_rx: "answer r l = Some l' \<Longrightarrow> length (rx l') \<le> length (rx l)"
  by (auto simp: answer_def putfrags_def split: reply.splits dest: send_until_ack_rx)

lemma getpacket_rx: "getpacket buf l = Some (buf', l') \<Longrightarrow> length (rx l') < length (rx l)"
proof (induction buf l rule: getpacket.induct)
  case (1 buf l)
  then show ?case
    by (subst (asm) (2) getpacket.simps) (force split: option.splits if_splits dest: get_round_length)
qed

function converse_loop :: "stub \<Rightarrow> line \<Rightarrow> (gdb_action \<times> stub \<times> line) res option" where
  "converse_loop s l =
     (case getpacket (inbuf s) l of
        None \<Rightarrow> None
      | Some (buf, l1) \<Rightarrow>
          (case command (s\<lparr>inbuf := buf, connected := True\<rparr>) of
             Inl e \<Rightarrow> Some (Inl e)
           | Inr (r, act, s2) \<Rightarrow>
               (case answer r l1 of
                  None \<Rightarrow> None
                | Some l2 \<Rightarrow> if act = GDB_MORE then converse_loop s2 l2 else Some (Inr (act, s2, l2)))))"
  by pat_completeness auto

termination
  by (relation "measure (\<lambda>(s, l). length (rx l))") (auto dest!: getpacket_rx answer_rx)

declare converse_loop.simps [simp del]

definition gdb_serial_converse :: "stub \<Rightarrow> line \<Rightarrow> (gdb_action \<times> stub \<times> line) res option" where
  "gdb_serial_converse s l =
     (let s1 = s\<lparr>regs_changed := False\<rparr>
      in Option.bind (answer (report s1) l) (converse_loop s1))"

section \<open>Numbers and hexadecimal text in the buffer\<close>

definition hex_value :: "u8 list \<Rightarrow> int" where
  "hex_value t = number_of 16 (map hex t) 0"

definition hex_digits :: "u8 list \<Rightarrow> bool" where
  "hex_digits t \<longleftrightarrow> t \<noteq> [] \<and> list_all (\<lambda>c. hex c \<noteq> - 1) t"

lemma digit_of_hex: "digit_of c 16 = (if hex c = - 1 then None else Some (hex c))"
proof -
  define n where "n = uint c"
  have "digit_of c 16 = (if 48 \<le> n \<and> n \<le> 57 then Some (n - 48) else if 97 \<le> n \<and> n \<le> 102 then Some (n - 87)
      else if 65 \<le> n \<and> n \<le> 70 then Some (n - 55) else None)"
    unfolding digit_of_def word_le_def n_def [symmetric] by simp
  moreover have "hex c = (if 48 \<le> n \<and> n \<le> 57 then n - 48 else if 97 \<le> n \<and> n \<le> 102 then n - 87
      else if 65 \<le> n \<and> n \<le> 70 then n - 55 else - 1)"
    unfolding hex_def word_le_def n_def [symmetric] by simp
  ultimately show ?thesis by simp
qed

lemma read_digits_run:
  assumes "\<And>k. k < length ds \<Longrightarrow> digit_of (m (p + of_nat k)) base = Some (ds ! k)"
    and "digit_of (m (p + of_nat (length ds))) base = None"
  shows "read_digits p base (word_of_int v) m = Some (word_of_int (number_of base ds v), p + of_nat (length ds))"
  using assms
proof (induction ds arbitrary: p v)
  case Nil
  then show ?case by (simp add: read_digits.simps number_of_def)
next
  case (Cons d ds)
  have d: "digit_of (m p) base = Some d" using Cons.prems(1) [of 0] by simp
  have "read_digits (p + 1) base (word_of_int (v * base + d)) m =
      Some (word_of_int (number_of base ds (v * base + d)), p + 1 + of_nat (length ds))"
    using Cons.prems(1) [of "Suc _"] Cons.prems(2) by (intro Cons.IH) (auto simp: add.assoc)
  then show ?case using d by (simp add: read_digits.simps [of p] number_of_def add.assoc)
qed

lemma inbuf_at_simps [simp]:
  "inbuf_at s i + 1 = inbuf_at s (Suc i)" "inbuf_at s i + of_nat k = inbuf_at s (i + k)"
  "i < 2 ^ 32 \<Longrightarrow> unat (inbuf_at s i - inbuf_addr s) = i"
  by (simp_all add: inbuf_at_def unsigned_of_nat take_bit_nat_eq_self)

lemma inbuf_at_eq: "i < 2 ^ 32 \<Longrightarrow> j < 2 ^ 32 \<Longrightarrow> inbuf_at s i = inbuf_at s j \<longleftrightarrow> i = j"
  by (metis inbuf_at_simps(3))

lemma buffer_mem_at: "i < length (inbuf s) \<Longrightarrow> length (inbuf s) = Suc bufmax \<Longrightarrow> buffer_mem s (inbuf_at s i) = inbuf s ! i"
  by (simp add: buffer_mem_def Let_def bufmax_def)

lemma number_at_text:
  assumes b: "inbuf s = pre @ t @ d # rest" and l: "length (inbuf s) = Suc bufmax"
    and t: "hex_digits t" and d: "hex d = - 1" "d \<noteq> 120" "d \<noteq> 88"
  shows "number_at s (inbuf_at s (length pre)) = Inr (word_of_int (hex_value t), inbuf_at s (length pre + length t))"
proof -
  let ?p = "inbuf_at s (length pre)"
  let ?m = "buffer_mem s"
  have at: "?m (inbuf_at s (length pre + k)) = (t @ [d]) ! k" if "k \<le> length t" for k
    using that b l by (subst buffer_mem_at) (auto simp: nth_append)
  have h: "hex (t ! k) \<noteq> - 1" if "k < length t" for k using t that by (simp add: hex_digits_def list_all_length)
  have t0: "0 < length t" using t by (simp add: hex_digits_def)
  have "hex (?m ?p) \<noteq> - 1" using at [of 0] h [of 0] t0 by (simp add: nth_append)
  then have sk: "skip_space ?p ?m = Some ?p"
    using skip_space_digit [of ?m ?p 16 "hex (?m ?p)"] by (simp add: digit_of_hex)
  have "?m (inbuf_at s (Suc (length pre))) \<noteq> 120 \<and> ?m (inbuf_at s (Suc (length pre))) \<noteq> 88"
  proof (cases "1 < length t")
    case True
    moreover have "hex 120 = - 1" "hex 88 = - 1" by code_simp+
    ultimately show ?thesis using at [of 1] h [of 1] by (auto simp: nth_append)
  next
    case False
    then show ?thesis using at [of 1] t0 d by (simp add: nth_append)
  qed
  then have rb: "read_base ?p 16 ?m = (?p, 16)" by (simp add: read_base_def)
  have "read_digits ?p 16 (word_of_int 0) ?m = Some (word_of_int (number_of 16 (map hex t) 0), ?p + of_nat (length (map hex t)))"
    using at h d by (intro read_digits_run) (auto simp: digit_of_hex nth_append)
  then show ?thesis using sk rb by (simp add: number_at_def strtoul_def hex_value_def)
qed

lemma two_digits: "push_bit 4 (int a) OR int (b mod 16) = int (a * 16 + b mod 16)"
proof -
  have "int (b mod 16) = take_bit 4 (int b)" by (simp add: take_bit_eq_mod zmod_int)
  moreover have "push_bit 4 (int a) + take_bit 4 (int b) = push_bit 4 (int a) OR take_bit 4 (int b)"
    by (rule disjunctive_add) (auto simp: bit_simps)
  ultimately show ?thesis by (simp add: push_bit_eq_mult)
qed

lemma hex2bin_text:
  "buf = pre @ hex_text bs @ rest \<Longrightarrow> hex2bin buf (length pre) (length bs) = Inr (True, bs)"
proof (induction bs arbitrary: pre)
  case (Cons x bs)
  let ?h = "hexchars ! unat (drop_bit 4 x)" and ?l = "hexchars ! unat (x AND 0xf)"
  have b: "buf = (pre @ [?h, ?l]) @ hex_text bs @ rest" using Cons.prems by (simp add: hex_text_def)
  have c: "buf ! length pre = ?h" "buf ! Suc (length pre) = ?l" "\<not> length buf \<le> length pre + 1"
    unfolding b by (simp_all add: nth_append)
  have "hex ?h = int (unat (drop_bit 4 x))" "hex ?l = int (unat x mod 16)"
    using hexchars_digit high_half [of x] low_half [of x] by simp_all
  then have o: "push_bit 4 (hex ?h) OR hex ?l = int (unat (drop_bit 4 x) * 16 + unat x mod 16)"
    by (simp only: two_digits)
  also have "unat (drop_bit 4 x) * 16 + unat x mod 16 = unat x" by (simp add: unat_shr)
  finally have "push_bit 4 (hex ?h) OR hex ?l = int (unat x)" .
  then show ?case
    using Cons.IH [OF b] c by (simp add: Let_def)
qed simp

section \<open>The registers as bytes\<close>

lemma bytes_words_word_bytes: "bytes_words (word_bytes w @ r) = w # bytes_words r"
proof -
  have "ucast (ucast w :: u8) OR push_bit 8 (ucast (ucast (drop_bit 8 w) :: u8)) OR
      push_bit 16 (ucast (ucast (drop_bit 16 w) :: u8)) OR push_bit 24 (ucast (ucast (drop_bit 24 w) :: u8)) = w"
    (is "?l = w")
  proof (rule bit_word_eqI)
    fix n assume "n < LENGTH(32)"
    then show "bit ?l n = bit w n"
      by (cases "n < 8"; cases "n < 16"; cases "n < 24") (auto simp: bit_simps)
  qed
  then show ?thesis by (simp add: word_bytes_def)
qed

lemma bytes_words_concat: "bytes_words (concat (map word_bytes ws)) = ws"
  by (induction ws) (simp_all add: bytes_words_word_bytes)

lemma word_bytes_bytes_words: "length bs = 4 * n \<Longrightarrow> concat (map word_bytes (bytes_words bs)) = bs \<and> length (bytes_words bs) = n"
proof (induction n arbitrary: bs)
  case (Suc n)
  then obtain a b c d r where bs: "bs = a # b # c # d # r" "length r = 4 * n"
    by (cases bs rule: bytes_words.cases) auto
  let ?w = "ucast a OR push_bit 8 (ucast b) OR push_bit 16 (ucast c) OR push_bit 24 (ucast d) :: u32"
  have "word_bytes ?w = [a, b, c, d]"
    unfolding word_bytes_def list.inject
    by (intro conjI bit_word_eqI refl) (auto simp: bit_simps dest: bit_imp_le_length)
  then show ?case using Suc.IH [OF bs(2)] bs by simp
qed simp

lemma words_state_words [simp]: "words_state (state_words s) = s"
  by (simp add: words_state_def state_words_def)

lemma state_words_state: "length w = 16 \<Longrightarrow> state_words (words_state w) = w"
  by (auto simp: length_Suc_conv eval_nat_numeral state_words_def words_state_def)

lemma state_bytes_words: "length bs = 64 \<Longrightarrow> state_bytes (words_state (bytes_words bs)) = bs"
  using word_bytes_bytes_words [of bs 16] by (simp add: state_bytes_def state_words_state)

lemma words_state_bytes [simp]: "words_state (bytes_words (state_bytes s)) = s"
  by (simp add: state_bytes_def bytes_words_concat)

lemma length_state_bytes [simp]: "length (state_bytes s) = 64"
  by (simp add: state_bytes_def state_words_def word_bytes_def)

lemma put_bytes_all: "length bs = 64 \<Longrightarrow> put_bytes 0 bs s = Inr (words_state (bytes_words bs))"
  by (simp add: put_bytes_def)

lemma put_bytes_word:
  assumes "r < 16"
  shows "put_bytes (4 * r) (word_bytes w) s = Inr (words_state ((state_words s)[r := w]))"
proof -
  have l: "length (concat (map word_bytes ws)) = 4 * length ws" for ws by (induction ws) (simp_all add: word_bytes_def)
  have s: "state_words s = take r (state_words s) @ state_words s ! r # drop (Suc r) (state_words s)" (is "_ = ?a @ _ # ?b")
    using assms by (intro id_take_nth_drop) (simp add: state_words_def)
  have b: "state_bytes s = concat (map word_bytes ?a) @ word_bytes (state_words s ! r) @ concat (map word_bytes ?b)"
    by (subst (1) state_bytes_def, subst s) simp
  have len: "length (state_words s) = 16" by (simp add: state_words_def)
  then have la: "length (concat (map word_bytes ?a)) = 4 * r" using assms by (simp add: l)
  have "take (4 * r) (state_bytes s) @ word_bytes w @ drop (4 * r + length (word_bytes w)) (state_bytes s) =
      concat (map word_bytes (?a @ w # ?b))"
    unfolding b using la by (simp add: word_bytes_def)
  then have "words_state (bytes_words (take (4 * r) (state_bytes s) @ word_bytes w @ drop (4 * r + length (word_bytes w)) (state_bytes s))) =
      words_state ((state_words s)[r := w])"
    using assms len by (simp only: bytes_words_concat upd_conv_take_nth_drop)
  moreover have "length (word_bytes w) = 4" by (simp add: word_bytes_def)
  ultimately show ?thesis using assms by (simp add: put_bytes_def)
qed

section \<open>What the commands do\<close>

definition shown :: "reply \<Rightarrow> u8 list" where
  "shown r = (case r of Silent \<Rightarrow> [] | Reply frags \<Rightarrow> concat (map (\<lambda>f. frag_text (fr_hexify f) (frag_bytes f)) frags))"

lemma shown_simps:
  "shown (Reply [text_frag ''OK'']) = letters ''OK''"
  "n \<noteq> 0 \<Longrightarrow> shown (Reply [hex_frag bs n]) = hex_text (take n bs)"
  "shown (Reply [text_frag ''E'', hex_frag [c] (Suc 0)]) = 69 # hex_text [c]"
  by (simp_all add: shown_def text_frag_def hex_frag_def frag_bytes_def frag_text_def letters_def)

lemma set_regs:
  assumes "inbuf s = 71 # hex_text bs @ rest" and "length bs = 64"
  shows "command s = done_ok GDB_MORE (s\<lparr>regs := words_state (bytes_words bs), regs_changed := True\<rparr>)"
  using hex2bin_text [of "inbuf s" "[71]" bs rest] put_bytes_all [of bs "regs s"] assms
  by (simp add: command_def cmd_set_regs_def Let_def)

text \<open>
  The registers, all at once: a packet \<open>G\<close> with 64 bytes in hexadecimal is answered with \<open>OK\<close>, and
  the next \<open>g\<close> shows these bytes; sending back what a \<open>g\<close> has shown changes no register.
\<close>

theorem registers_round_trip:
  assumes "inbuf s = 71 # hex_text bs @ rest" and "length bs = 64"
  shows "\<exists>s'. command s = Inr (Reply [text_frag ''OK''], GDB_MORE, s') \<and> regs_changed s' \<and>
    (\<forall>buf. buf ! 0 = 103 \<longrightarrow>
       (\<exists>r. command (s'\<lparr>inbuf := buf\<rparr>) = Inr (r, GDB_MORE, s'\<lparr>inbuf := buf\<rparr>) \<and> shown r = hex_text bs)) \<and>
    (bs = state_bytes (regs s) \<longrightarrow> s' = s\<lparr>regs_changed := True\<rparr>)"
proof -
  let ?s = "s\<lparr>regs := words_state (bytes_words bs), regs_changed := True\<rparr>"
  have "command s = Inr (Reply [text_frag ''OK''], GDB_MORE, ?s)"
    using set_regs [OF assms] by (simp add: done_ok_def)
  moreover have "command (?s\<lparr>inbuf := buf\<rparr>) = Inr (Reply [hex_frag bs 64], GDB_MORE, ?s\<lparr>inbuf := buf\<rparr>)"
    if "buf ! 0 = 103" for buf
    using that state_bytes_words [OF assms(2)] by (simp add: command_def cmd_get_regs_def)
  moreover have "shown (Reply [hex_frag bs 64]) = hex_text bs" using assms(2) by (simp add: shown_simps)
  moreover have "?s = s\<lparr>regs_changed := True\<rparr>" if "bs = state_bytes (regs s)" using that by simp
  ultimately show ?thesis by fastforce
qed

text \<open>One register is set by its number; the value is given as the four bytes of the word.\<close>

theorem set_one_register:
  assumes b: "inbuf s = 80 # t @ 61 # hex_text (word_bytes w) @ rest" and l: "length (inbuf s) = Suc bufmax"
    and t: "hex_digits t" "hex_value t = int r" "r < 16"
  shows "command s = done_ok GDB_MORE (s\<lparr>regs := words_state ((state_words (regs s))[r := w]), regs_changed := True\<rparr>)"
proof -
  let ?e = "Suc (length t)"
  have n: "number_at s (inbuf_at s 1) = Inr (of_nat r, inbuf_at s ?e)"
    using number_at_text [of s "[80]" t 61 "hex_text (word_bytes w) @ rest"] b l t(1,2) by (simp add: hex_def)
  have short: "?e < length (inbuf s)" "Suc ?e < 2 ^ 32" "?e \<noteq> 1"
    using b l t(1) by (auto simp: bufmax_def hex_digits_def)
  have eq: "buffer_mem s (inbuf_at s ?e) = 61" "inbuf_at s ?e \<noteq> inbuf_at s 1"
    using buffer_mem_at [OF short(1) l] b inbuf_at_eq [of ?e 1 s] short by simp_all
  have h: "hex2bin (inbuf s) (Suc ?e) 4 = Inr (True, word_bytes w)"
  proof -
    have "hex2bin (inbuf s) (length (80 # t @ [61])) (length (word_bytes w)) = Inr (True, word_bytes w)"
      by (rule hex2bin_text) (use b in \<open>simp\<close>)
    moreover have "length (word_bytes w) = 4" by (simp add: word_bytes_def)
    ultimately show ?thesis by simp
  qed
  have r: "(of_nat r :: u32) \<noteq> 0x29" "\<not> (of_nat r + 1 :: u32) * 4 > 64" "unat (of_nat r * 4 :: u32) = 4 * r"
  proof -
    have u: "unat (of_nat k :: u32) = k" if "k < 2 ^ 32" for k
      using that by (simp add: unsigned_of_nat take_bit_nat_eq_self)
    show "(of_nat r :: u32) \<noteq> 0x29" using u [of r] t(3) by auto
    have "(of_nat r + 1 :: u32) * 4 = of_nat (4 * r + 4)" "(of_nat r :: u32) * 4 = of_nat (4 * r)" by simp_all
    then show "\<not> (of_nat r + 1 :: u32) * 4 > 64" "unat (of_nat r * 4 :: u32) = 4 * r"
      using u [of "4 * r + 4"] u [of "4 * r"] t(3) by (simp_all only: word_less_nat_alt) simp_all
  qed
  show ?thesis
    using n eq h r short(2) put_bytes_word [OF t(3), of w "regs s"] b
    by (simp add: command_def cmd_set_reg_def Let_def)
qed

text \<open>What \<open>m\<close> does once its two numbers are read.\<close>

lemma read_mem_parsed:
  assumes b: "inbuf s = 109 # ta @ 44 # tn @ d # rest" and l: "length (inbuf s) = Suc bufmax"
    and t: "hex_digits ta" "hex_digits tn" and d: "hex d = - 1" "d \<noteq> 120" "d \<noteq> 88"
  defines "len \<equiv> word_of_int (hex_value tn)"
  shows "command s =
    (if len * 2 > of_nat bufmax then errpacket 2 s
     else case gdb_copyin (client_regs s) (memory s) (word_of_int (hex_value ta)) len of (ok, bs) \<Rightarrow>
       if bufmax + 1 < length bs then Inl Out_Of_Bounds
       else let s1 = s\<lparr>inbuf := bs @ drop (length bs) (inbuf s)\<rparr>
         in if \<not> ok then errpacket 3 s1 else Inr (Reply [hex_frag (inbuf s1) (unat len)], GDB_MORE, s1))"
proof -
  let ?e = "Suc (length ta)" and ?f = "Suc (Suc (length ta + length tn))"
  have n1: "number_at s (inbuf_at s 1) = Inr (word_of_int (hex_value ta), inbuf_at s ?e)"
    using number_at_text [of s "[109]" ta 44 "tn @ d # rest"] b l t(1) by (simp add: hex_def)
  have n2: "number_at s (inbuf_at s (Suc ?e)) = Inr (len, inbuf_at s ?f)"
    using number_at_text [of s "109 # ta @ [44]" tn d rest] b l t(2) d by (simp add: len_def)
  have short: "?e < length (inbuf s)" "?f < 2 ^ 32" "?e \<noteq> 1" "?f \<noteq> Suc ?e"
    using b l t by (auto simp: bufmax_def hex_digits_def)
  have "buffer_mem s (inbuf_at s ?e) = 44" "inbuf_at s ?e \<noteq> inbuf_at s 1" "inbuf_at s ?f \<noteq> inbuf_at s (Suc ?e)"
    using buffer_mem_at [OF short(1) l] b inbuf_at_eq [of ?e 1 s] inbuf_at_eq [of ?f "Suc ?e" s] short by simp_all
  then show ?thesis using n1 n2 b by (simp add: command_def cmd_read_mem_def Let_def)
qed


text \<open>
  The command \<open>M\<close>, which writes bytes to memory: when the range is mapped as \<open>images\<close> says, the reply
  is \<open>OK\<close> and the memory afterwards is the one in which every byte of the range holds what the packet
  said, so that the program sees it; everything else is as it was.
\<close>

theorem memory_is_written:
  assumes b: "inbuf s = 77 # ta @ 44 # tn @ 58 # hex_text bs @ 0 # rest" and l: "length (inbuf s) = Suc bufmax"
    and a: "unat (inbuf_addr s) + Suc bufmax < 2 ^ 32"
    and t: "hex_digits ta" "hex_digits tn" "hex_value tn = int (length bs)"
    and m: "images (client_regs s) (memory s) (word_of_int (hex_value ta)) fs" "distinct fs" "length fs = length bs"
  shows "\<exists>m'. command s = Inr (Reply [text_frag ''OK''], GDB_MORE, s\<lparr>memory := m'\<rparr>) \<and>
    (\<forall>i<length bs. load8 (fs ! i) m' = bs ! i) \<and> (\<forall>x. x \<notin> set fs \<longrightarrow> load8 x m' = load8 x (memory s))"
proof -
  let ?e = "Suc (length ta)" and ?f = "Suc (Suc (length ta + length tn))" and ?n = "length bs"
  have h: "length (hex_text xs) = 2 * length xs" for xs by (induction xs) (simp_all add: hex_text_def)
  have n1: "number_at s (inbuf_at s 1) = Inr (word_of_int (hex_value ta), inbuf_at s ?e)"
    using number_at_text [of s "[77]" ta 44 "tn @ 58 # hex_text bs @ 0 # rest"] b l t(1) by (simp add: hex_def)
  have n2: "number_at s (inbuf_at s (Suc ?e)) = Inr (of_nat ?n, inbuf_at s ?f)"
    using number_at_text [of s "77 # ta @ [44]" tn 58 "hex_text bs @ 0 # rest"] b l t(2,3) by (simp add: hex_def)
  have short: "?e < length (inbuf s)" "?f < length (inbuf s)" "Suc ?f < 2 ^ 32" "?e \<noteq> 1" "?f \<noteq> Suc ?e" "Suc ?f + 2 * ?n \<le> bufmax"
    using b l t by (auto simp: bufmax_def hex_digits_def h)
  have eq: "buffer_mem s (inbuf_at s ?e) = 44" "inbuf_at s ?e \<noteq> inbuf_at s 1" "inbuf_at s ?f \<noteq> inbuf_at s (Suc ?e)"
    "buffer_mem s (inbuf_at s ?f) = 58"
    using buffer_mem_at [OF short(1) l] buffer_mem_at [OF short(2) l] b inbuf_at_eq [of ?e 1 s] inbuf_at_eq [of ?f "Suc ?e" s] short
    by (simp_all add: nth_append)
  have u: "unat (inbuf_at s k) = unat (inbuf_addr s) + k" if "k \<le> bufmax" for k
    unfolding inbuf_at_def using a that by (intro unat_plus_of_nat) simp
  have "inbuf_at s (Suc ?f) + of_nat ?n * 2 = inbuf_at s (Suc ?f + 2 * ?n)" by (simp add: inbuf_at_def mult.commute)
  then have fits: "\<not> inbuf_at s (Suc ?f) + of_nat ?n * 2 > inbuf_at s bufmax"
    using u [of bufmax] u [OF short(6)] short(6) by (simp add: word_less_nat_alt)
  have un: "unat (of_nat ?n :: u32) = ?n" using short(6) by (simp add: unsigned_of_nat take_bit_nat_eq_self bufmax_def)
  have "hex2bin (inbuf s) (length (77 # ta @ 44 # tn @ [58])) ?n = Inr (True, bs)"
    by (rule hex2bin_text) (use b in \<open>simp\<close>)
  then have x: "hex2bin (inbuf s) (Suc ?f) ?n = Inr (True, bs)" by simp
  let ?m = "store_all fs bs (memory s)"
  have o: "gdb_copyout (client_regs s) bs (word_of_int (hex_value ta)) (of_nat ?n) (memory s) = (True, ?m)"
    using copyout_stores [OF m(1), of "of_nat ?n" bs] m(3) un by simp
  have "command s = Inr (Reply [text_frag ''OK''], GDB_MORE, s\<lparr>memory := ?m\<rparr>)"
    using n1 n2 eq fits un x o short b
    by (simp add: command_def cmd_write_mem_def Let_def done_ok_def bufmax_def)
  moreover have "load8 (fs ! i) ?m = bs ! i" if "i < ?n" for i
    using load_store_all [OF m(2,3), of "fs ! i"] map_of_zip_nth [OF m(3) m(2), of i] m(3) that by simp
  moreover have "load8 y ?m = load8 y (memory s)" if "y \<notin> set fs" for y
    using load_store_all [OF m(2,3)] that by simp
  ultimately show ?thesis by blast
qed

section \<open>Sessions\<close>

text \<open>A packet in the buffer; a session as the commands one after the other, with their replies.\<close>

definition received :: "u8 list \<Rightarrow> stub \<Rightarrow> stub" where
  "received p s = s\<lparr>inbuf := p @ 0 # drop (Suc (length p)) (inbuf s), connected := True\<rparr>"

definition sendable :: "u8 list \<Rightarrow> stub \<Rightarrow> bool" where
  "sendable p s \<longleftrightarrow> well_framed \<lparr>junk = [], body = p, digit1 = 0, digit0 = 0\<rparr> \<and> inbuf (received p s) ! 2 \<noteq> 58"

fun session :: "stub \<Rightarrow> u8 list list \<Rightarrow> (reply list \<times> gdb_action \<times> stub) option" where
  "session s [] = None"
| "session s (p # ps) =
     (if \<not> sendable p s then None
      else case command (received p s) of
        Inl e \<Rightarrow> None
      | Inr (r, act, s1) \<Rightarrow>
          if act = GDB_MORE then map_option (\<lambda>(rs, a, s2). (r # rs, a, s2)) (session s1 ps)
          else if ps = [] then Some ([r], act, s1) else None)"

definition debugger_sends :: "u8 list \<Rightarrow> reply \<Rightarrow> u8 list" where
  "debugger_sends p r = frame p @ (case r of Silent \<Rightarrow> [] | Reply frags \<Rightarrow> [43])"

definition stub_sends :: "reply \<Rightarrow> u8 list" where
  "stub_sends r = 43 # (case r of Silent \<Rightarrow> [] | Reply frags \<Rightarrow> frame (packet_body frags))"

lemma unquote_length: "unquote i n out buf = Inr (ok, k, buf') \<Longrightarrow> length buf' = length buf"
proof (induction i n out buf rule: unquote.induct)
  case (1 i n out buf)
  then show ?case
    by (subst (asm) (3) unquote.simps) (auto split: if_splits)
qed

lemma errpacket_keeps: "errpacket c s = Inr (r, act, s1) \<longleftrightarrow> r = Reply [text_frag ''E'', hex_frag [c] 1] \<and> act = GDB_MORE \<and> s1 = s"
  by (auto simp: errpacket_def)

lemma command_keeps_length:
  assumes "command s = Inr (r, act, s1)" and "length (inbuf s) = Suc bufmax"
  shows "length (inbuf s1) = Suc bufmax"
proof -
  have m: "cmd_read_mem s = Inr (r, act, s1) \<Longrightarrow> ?thesis"
    using assms(2)
    by (auto elim!: bindE_InrE simp: cmd_read_mem_def errpacket_keeps Let_def split: if_split_asm prod.split_asm)
  have x: "cmd_write_binary s = Inr (r, act, s1) \<Longrightarrow> ?thesis"
    using assms(2) by (auto elim!: bindE_InrE simp: cmd_write_binary_def errpacket_keeps done_ok_def Let_def
        split: if_split_asm prod.split_asm dest!: unquote_length)
  have "cmd_write_mem s = Inr (r, act, s1) \<Longrightarrow> ?thesis" "cmd_set_reg s = Inr (r, act, s1) \<Longrightarrow> ?thesis"
    "cmd_set_regs s = Inr (r, act, s1) \<Longrightarrow> ?thesis" "cmd_thread i c s = Inr (r, act, s1) \<Longrightarrow> ?thesis"
    "cmd_continue s = Inr (r, act, s1) \<Longrightarrow> ?thesis" "cmd_signal s = Inr (r, act, s1) \<Longrightarrow> ?thesis" for i c
    using assms(2)
    by (auto elim!: bindE_InrE simp: cmd_write_mem_def cmd_set_reg_def cmd_set_regs_def cmd_thread_def cmd_continue_def cmd_signal_def
        new_eip_at_def errpacket_keeps done_ok_def unknown_def Let_def split: if_split_asm prod.split_asm option.split_asm)
  with m x show ?thesis using assms
    by (auto simp: command_def cmd_get_regs_def done_ok_def unknown_def Let_def split: if_splits)
qed

lemma converse_loop_session:
  "session s ps = Some (rs, act, s') \<Longrightarrow> length (inbuf s) = Suc bufmax \<Longrightarrow>
   converse_loop s \<lparr>rx = concat (map2 debugger_sends ps rs) @ rest, tx = t\<rparr> =
     Some (Inr (act, s', \<lparr>rx = rest, tx = t @ concat (map stub_sends rs)\<rparr>))"
proof (induction s ps arbitrary: rs t rule: session.induct)
  case (2 s p ps)
  obtain r a s1 where p: "sendable p s" and c: "command (received p s) = Inr (r, a, s1)"
    using 2(2) by (auto split: if_splits sum.splits)
  have w: "well_framed \<lparr>junk = [], body = p, digit1 = 0, digit0 = 0\<rparr>" "(p @ 0 # drop (Suc (length p)) (inbuf s)) ! 2 \<noteq> 58"
    using p by (simp_all add: sendable_def received_def)
  note g = getpacket_clean [OF w(1) 2(3) w(2), simplified]
  have l: "length (inbuf s1) = Suc bufmax" using command_keeps_length [OF c] g(2) by (simp add: received_def)
  have r: "s\<lparr>inbuf := p @ 0 # drop (Suc (length p)) (inbuf s), connected := True\<rparr> = received p s" by (simp add: received_def)
  have d: "debugger_sends p r = frame p @ (case r of Silent \<Rightarrow> [] | Reply frags \<Rightarrow> [43])" by (simp add: debugger_sends_def)
  have ans: "answer r \<lparr>rx = (case r of Silent \<Rightarrow> [] | Reply frags \<Rightarrow> [43]) @ k, tx = t @ [43]\<rparr> =
      Some \<lparr>rx = k, tx = t @ stub_sends r\<rparr>" for k
    by (cases r) (simp_all add: answer_def stub_sends_def putfrags_def)
  show ?case
  proof (cases "a = GDB_MORE")
    case True
    obtain qs where q: "session s1 ps = Some (qs, act, s')" "rs = r # qs"
      using 2(2) p c True by auto
    have "converse_loop s1 \<lparr>rx = concat (map2 debugger_sends ps qs) @ rest, tx = t @ stub_sends r\<rparr> =
        Some (Inr (act, s', \<lparr>rx = rest, tx = (t @ stub_sends r) @ concat (map stub_sends qs)\<rparr>))"
      by (rule 2(1)) (use p c True q l in \<open>auto\<close>)
    then show ?thesis using g(1) c True q r ans [of "concat (map2 debugger_sends ps qs) @ rest"]
      by (subst converse_loop.simps) (simp add: d)
  next
    case False
    then have q: "ps = []" "rs = [r]" "act = a" "s' = s1" using 2(2) p c by (auto split: if_splits)
    then show ?thesis using g c False r ans [of rest]
      by (subst converse_loop.simps) (simp add: d)
  qed
qed simp

lemma converse_session:
  assumes "session (s\<lparr>regs_changed := False\<rparr>) ps = Some (rs, act, s')" and "length (inbuf s) = Suc bufmax"
  shows "gdb_serial_converse s \<lparr>rx = 43 # concat (map2 debugger_sends ps rs) @ rest, tx = t\<rparr> =
    Some (Inr (act, s', \<lparr>rx = rest, tx = t @ tl (stub_sends (report s)) @ concat (map stub_sends rs)\<rparr>))"
proof -
  have "answer (report (s\<lparr>regs_changed := False\<rparr>)) \<lparr>rx = 43 # k, tx = t\<rparr> = Some \<lparr>rx = k, tx = t @ tl (stub_sends (report s))\<rparr>" for k
    by (simp add: answer_def report_def putfrags_def stub_sends_def)
  then show ?thesis using converse_loop_session [OF assms(1), of rest "t @ tl (stub_sends (report s))"] assms(2)
    by (simp add: gdb_serial_converse_def)
qed

text \<open>
  C33. On a clean line the dialogue is the sequence of the commands: when the debugger acknowledges the
  first report, sends its packets one after the other and acknowledges every reply, the stub executes
  exactly these commands in this order, sends for each an acknowledgement and its reply, framed, returns
  with the last one, and leaves what comes after it on the line.
\<close>

theorem dialogue_is_the_session:
  assumes "session (s\<lparr>regs_changed := False\<rparr>) ps = Some (rs, act, s')" and "length (inbuf s) = Suc bufmax"
  shows "gdb_serial_converse s \<lparr>rx = 43 # concat (map2 debugger_sends ps rs) @ rest, tx = t\<rparr> =
    Some (Inr (act, s', \<lparr>rx = rest, tx = t @ tl (stub_sends (report s)) @ concat (map stub_sends rs)\<rparr>))"
  using assms by (rule converse_session)

section \<open>Concrete packets\<close>

definition stub_with :: "u8 list \<Rightarrow> stub" where
  "stub_with p = \<lparr>inbuf = p @ replicate (Suc bufmax - length p) 0, inbuf_addr = 0x7ff000,
     regs = words_state (replicate 16 7), signo = 5, regs_changed = False, connected = False, gdb_serial_debug = False,
     client_regs = \<lparr>client_cr0 = 0, client_cr3 = 0\<rparr>, memory = \<lparr>pages = buddy_init, ram = \<lambda>_. 0\<rparr>\<rparr>"

theorem dialogue_is_the_session_witness:
  "\<exists>rs s'. gdb_serial_converse (stub_with []) \<lparr>rx = 43 # concat (map2 debugger_sends [[103], [107]] rs) @ [], tx = []\<rparr> =
      Some (Inr (GDB_KILL, s', \<lparr>rx = [], tx = [] @ tl (stub_sends (report (stub_with []))) @ concat (map stub_sends rs)\<rparr>)) \<and>
    length rs = 2 \<and> regs s' = regs (stub_with [])"
proof -
  let ?s = "(stub_with [])\<lparr>regs_changed := False\<rparr>"
  have l: "length (inbuf (stub_with [])) = Suc bufmax" by (simp add: stub_with_def)
  have third: "(c # d # drop (Suc (Suc 0)) b) ! 2 = b ! 2" if "length b = Suc bufmax" for c d and b :: "u8 list"
  proof -
    have "(c # d # drop (Suc (Suc 0)) b) ! Suc (Suc 0) = b ! Suc (Suc 0)" using that by (simp add: bufmax_def)
    then show ?thesis by (simp only: numeral_2_eq_2)
  qed
  have "sendable p x" if "length (inbuf x) = Suc bufmax" "inbuf x ! 2 = 0" "p = [103] \<or> p = [107]" for p x
    using that third [OF that(1)] by (auto simp: sendable_def well_framed_def received_def bufmax_def)
  then have "session ?s [[103], [107]] =
      Some ([Reply [hex_frag (state_bytes (regs ?s)) 64], Silent], GDB_KILL, (received [107] (received [103] ?s))\<lparr>connected := False\<rparr>)"
    using third [of "replicate (Suc bufmax) 0"]
    by (simp add: command_def cmd_get_regs_def received_def Let_def stub_with_def bufmax_def nth_append)
  note d = dialogue_is_the_session [OF this l, of "[]" "[]"]
  show ?thesis by (intro exI conjI, rule d) (simp_all add: received_def)
qed

theorem registers_round_trip_witness:
  "\<exists>s'. command (stub_with (71 # hex_text (replicate 64 0xA5))) = Inr (Reply [text_frag ''OK''], GDB_MORE, s') \<and> regs_changed s'"
proof -
  have b: "inbuf (stub_with (71 # hex_text (replicate 64 0xA5))) = 71 # hex_text (replicate 64 0xA5) @
      replicate (Suc bufmax - length (71 # hex_text (replicate 64 (0xA5 :: u8)))) 0"
    by (simp only: stub_with_def stub.select_convs append_Cons)
  show ?thesis using registers_round_trip [OF b] by simp blast
qed


section \<open>Numbers that the tests let through\<close>

text \<open>
  The test of \<open>m\<close> is \<open>len*2 > BUFMAX\<close> in 32 bits: a length of \<open>0x80000000\<close> and up to 200 more passes
  it, and the copy runs over the end of the buffer on the stack as soon as 402 bytes are mapped.
\<close>

theorem long_reads_overrun_the_buffer:
  assumes "inbuf s = 109 # ta @ 44 # tn @ 0 # rest" and "length (inbuf s) = Suc bufmax"
    and "hex_digits ta" and "hex_digits tn" and "hex_value tn = 2 ^ 31 + int k" and "k \<le> 200"
    and "list_all (\<lambda>i. seen (client_regs s) (memory s) (word_of_int (hex_value ta) + of_nat i) \<noteq> None) [0..<bufmax + 2]"
  shows "command s = Inl Out_Of_Bounds"
proof -
  let ?len = "word_of_int (hex_value tn) :: u32"
  have u: "unat (of_nat k :: u32) = k" if "k < 2 ^ 32" for k
    using that by (simp add: unsigned_of_nat take_bit_nat_eq_self)
  have l: "?len = of_nat (2 ^ 31 + k)" unfolding assms(5) by simp
  then have len: "unat ?len = 2 ^ 31 + k" using u [of "2 ^ 31 + k"] assms(6) by simp
  have "?len * 2 = of_nat (2 ^ 32) + of_nat (2 * k)" unfolding l by simp
  then have "?len * 2 = of_nat (2 * k)" by simp
  then have "\<not> ?len * 2 > of_nat bufmax"
    using u [of "2 * k"] assms(6) by (simp only: word_less_nat_alt) (simp add: bufmax_def)
  moreover obtain ok bs where g: "gdb_copyin (client_regs s) (memory s) (word_of_int (hex_value ta)) ?len = (ok, bs)" by force
  moreover have "bufmax + 1 < length bs"
  proof (rule ccontr)
    assume n: "\<not> bufmax + 1 < length bs"
    then have "\<not> ok" using copyin_sound [OF g] len by (auto simp: bufmax_def)
    then have "seen (client_regs s) (memory s) (word_of_int (hex_value ta) + of_nat (length bs)) = None"
      using copyin_sound [OF g] by simp
    moreover have "length bs \<in> set [0..<bufmax + 2]" using n unfolding set_upt by (simp only: atLeastLessThan_iff) simp
    ultimately show False using assms(7) unfolding list_all_iff by blast
  qed
  ultimately show ?thesis using read_mem_parsed [OF assms(1,2,3,4)] by (simp add: hex_def)
qed

theorem long_reads_overrun_the_buffer_witness:
  "command (stub_with (109 # [48] @ 44 # [56, 48, 48, 48, 48, 48, 48, 48])) = Inl Out_Of_Bounds"
proof -
  let ?s = "stub_with (109 # [48] @ 44 # [56, 48, 48, 48, 48, 48, 48, 48])"
  have b: "inbuf ?s = 109 # [48] @ 44 # [56, 48, 48, 48, 48, 48, 48, 48] @ 0 # replicate 389 0"
    by (simp add: stub_with_def bufmax_def numeral_eq_Suc)
  have v: "hex_digits [48]" "hex_digits [56, 48, 48, 48, 48, 48, 48, 48]"
    "hex_value [56, 48, 48, 48, 48, 48, 48, 48] = 2 ^ 31 + int 0" by code_simp+
  have "seen (client_regs ?s) (memory ?s) a = Some 0" for a
    by (simp add: seen_def virt_to_phys_def phys_addr_lookup_def Let_def stub_with_def load8_def)
  moreover have "length (inbuf ?s) = Suc bufmax" by (simp add: stub_with_def bufmax_def)
  ultimately show ?thesis
    by (intro long_reads_overrun_the_buffer [OF b _ v]) (simp_all add: list_all_iff)
qed

text \<open>The register number is tested after a multiplication that wraps around: this one is before the first.\<close>

theorem register_before_the_first:
  assumes b: "inbuf s = 80 # t @ 61 # hex_text (word_bytes w) @ rest" and l: "length (inbuf s) = Suc bufmax"
    and t: "hex_digits t" "hex_value t = 0x3fffffff"
  shows "command s = Inl Out_Of_Bounds"
proof -
  let ?e = "Suc (length t)"
  have n: "number_at s (inbuf_at s 1) = Inr (0x3fffffff, inbuf_at s ?e)"
    using number_at_text [of s "[80]" t 61 "hex_text (word_bytes w) @ rest"] b l t by (simp add: hex_def)
  have short: "?e < length (inbuf s)" "Suc ?e < 2 ^ 32" "?e \<noteq> 1"
    using b l t(1) by (auto simp: bufmax_def hex_digits_def)
  have eq: "buffer_mem s (inbuf_at s ?e) = 61" "inbuf_at s ?e \<noteq> inbuf_at s 1"
    using buffer_mem_at [OF short(1) l] b inbuf_at_eq [of ?e 1 s] short by simp_all
  have lw: "length (word_bytes w) = 4" by (simp add: word_bytes_def)
  have "hex2bin (inbuf s) (length (80 # t @ [61])) (length (word_bytes w)) = Inr (True, word_bytes w)"
    by (rule hex2bin_text) (use b in \<open>simp\<close>)
  then have h: "hex2bin (inbuf s) (Suc ?e) 4 = Inr (True, word_bytes w)" by (simp add: lw)
  have "put_bytes 4294967292 (word_bytes w) (regs s) = Inl Out_Of_Bounds" using lw by (auto simp: put_bytes_def)
  then show ?thesis using n eq h short(2) b by (simp add: command_def cmd_set_reg_def Let_def)
qed

text \<open>A length of 0 is taken for a string by \<open>putfrags\<close>: the reply shows the packet that asked.\<close>

theorem empty_read_shows_the_packet:
  assumes "inbuf s = 109 # ta @ 44 # 48 # 0 # rest" and "length (inbuf s) = Suc bufmax" and "hex_digits ta"
  shows "command s = Inr (Reply [hex_frag (inbuf s) 0], GDB_MORE, s) \<and>
    shown (Reply [hex_frag (inbuf s) 0]) = hex_text (takeWhile (\<lambda>c. c \<noteq> 0) (inbuf s))"
proof -
  have v: "hex_digits [48]" "hex_value [48] = 0" by code_simp+
  have b: "inbuf s = 109 # ta @ 44 # [48] @ 0 # rest" using assms(1) by simp
  have c: "gdb_copyin c m a 0 = (True, [])" for c m a by (simp add: gdb_copyin.simps)
  show ?thesis using read_mem_parsed [OF b assms(2,3) v(1)] c v(2)
    by (simp add: hex_def shown_def hex_frag_def frag_bytes_def frag_text_def)
qed

theorem memory_is_written_witness:
  "\<exists>m'. command (stub_with (77 # [49, 48, 48] @ 44 # [50] @ 58 # hex_text [0xAB, 0xCD])) =
     Inr (Reply [text_frag ''OK''], GDB_MORE, (stub_with (77 # [49, 48, 48] @ 44 # [50] @ 58 # hex_text [0xAB, 0xCD]))\<lparr>memory := m'\<rparr>) \<and>
     load8 0x100 m' = 0xAB \<and> load8 0x101 m' = 0xCD"
proof -
  let ?s = "stub_with (77 # [49, 48, 48] @ 44 # [50] @ 58 # hex_text [0xAB, 0xCD])"
  have b: "inbuf ?s = 77 # [49, 48, 48] @ 44 # [50] @ 58 # hex_text [0xAB, 0xCD] @ 0 # replicate 389 0"
    by (simp add: stub_with_def bufmax_def hex_text_def numeral_eq_Suc)
  have v: "hex_digits [49, 48, 48]" "hex_digits [50]" "hex_value [50] = int (length [0xAB, 0xCD :: u8])" by code_simp+
  have l: "length (inbuf ?s) = Suc bufmax" "unat (inbuf_addr ?s) + Suc bufmax < 2 ^ 32"
    by (simp_all add: stub_with_def bufmax_def hex_text_def)
  have m: "images (client_regs ?s) (memory ?s) (word_of_int (hex_value [49, 48, 48])) [0x100, 0x101]"
    unfolding images_def by code_simp
  show ?thesis using memory_is_written [OF b l v m] by (auto simp: less_Suc_eq)
qed

section \<open>Output of the program\<close>

text \<open>
  The functions that tell the debugger something unasked. \<open>hooked\<close> says whether the two pointers to the
  serial functions are set; the results are the flag \<open>connected\<close> and the line.
\<close>

definition gdb_serial_tell :: "string \<Rightarrow> bool \<Rightarrow> u32 \<Rightarrow> bool \<Rightarrow> line \<Rightarrow> (bool \<times> line) option" where
  "gdb_serial_tell letter hooked code conn l =
     (if \<not> hooked \<or> \<not> conn then Some (conn, l)
      else map_option (Pair False) (putfrags [text_frag letter, hex_frag [ucast code] 1] l))"

definition gdb_serial_exit :: "bool \<Rightarrow> u32 \<Rightarrow> bool \<Rightarrow> line \<Rightarrow> (bool \<times> line) option" where
  "gdb_serial_exit = gdb_serial_tell ''W''"

definition gdb_serial_killed :: "bool \<Rightarrow> u32 \<Rightarrow> bool \<Rightarrow> line \<Rightarrow> (bool \<times> line) option" where
  "gdb_serial_killed = gdb_serial_tell ''X''"

definition gdb_serial_putchar :: "bool \<Rightarrow> u32 \<Rightarrow> bool \<Rightarrow> line \<Rightarrow> (bool \<times> line) option" where
  "gdb_serial_putchar hooked ch conn l =
     (if \<not> hooked then Some (conn, l)
      else if \<not> conn then Some (conn, send (ucast ch) l)
      else map_option (Pair conn) (putfrags [text_frag ''O'', hex_frag [ucast ch] 1] l))"

text \<open>The string is given by the bytes from its address on.\<close>

definition gdb_serial_puts :: "bool \<Rightarrow> u8 list \<Rightarrow> bool \<Rightarrow> line \<Rightarrow> (bool \<times> line) option" where
  "gdb_serial_puts hooked s conn l =
     (if \<not> hooked then Some (conn, l)
      else if \<not> conn then Some (conn, send 10 (fold send (takeWhile (\<lambda>c. c \<noteq> 0) s) l))
      else map_option (Pair conn) (putfrags [text_frag ''O'', hex_frag s 0, hex_frag [10] 1] l))"

text \<open>A connected debugger is told the whole text, and a bare terminal shows it.\<close>

theorem puts_reaches_the_debugger:
  "gdb_serial_puts True (s @ [0]) False l = Some (False, l\<lparr>tx := tx l @ takeWhile (\<lambda>c. c \<noteq> 0) s @ [10]\<rparr>)"
  "0 \<notin> set s \<Longrightarrow> shown (Reply [text_frag ''O'', hex_frag (s @ [0]) 0, hex_frag [10] 1]) = 79 # hex_text (s @ [10])"
proof -
  have "fold send t l = l\<lparr>tx := tx l @ t\<rparr>" for t
    by (induction t arbitrary: l) (simp_all add: send_def)
  moreover have "takeWhile (\<lambda>c. c \<noteq> 0) (s @ [0]) = takeWhile (\<lambda>c. c \<noteq> 0) s" by (induction s) auto
  ultimately show "gdb_serial_puts True (s @ [0]) False l = Some (False, l\<lparr>tx := tx l @ takeWhile (\<lambda>c. c \<noteq> 0) s @ [10]\<rparr>)"
    by (simp add: gdb_serial_puts_def send_def)
  assume "0 \<notin> set s"
  then have "takeWhile (\<lambda>c. c \<noteq> 0) (s @ [0]) = s" by (induction s) auto
  then show "shown (Reply [text_frag ''O'', hex_frag (s @ [0]) 0, hex_frag [10] 1]) = 79 # hex_text (s @ [10])"
    by (simp add: shown_def text_frag_def hex_frag_def frag_bytes_def frag_text_def letters_def hex_text_append)
qed

end
