(* ===== verification/Debugger.thy ===== *)
theory Debugger
  imports CpuInit GdbStub
begin

text \<open>
  \<open>kernel/debugger.c\<close> and \<open>kernel/serial.c\<close>: what happens when a task raises an exception. The handler
  saves the screen, shows the registers of the interrupted task on a form, and reads keys from the
  keyboard port: one toggles between the form and the screen, one reboots, one goes on with the task and
  one hands over to the remote debugger, which may change the registers. The keys are the list of the
  values that will be read from the port; a function that polls for a value that never comes has the
  value \<open>None\<close>. The form is \<open>task_dump_screen.txt\<close>, which the linker puts into the kernel; it is an
  argument. The task segments are a map from their addresses.
\<close>

section \<open>The serial line\<close>

definition com1 :: u16 where "com1 = 0x3f8"

text \<open>\<open>init_serial\<close>: what is written to which port; the function does this once.\<close>

definition init_serial :: "('d \<Rightarrow> 'd) \<Rightarrow> bool \<times> 'd \<Rightarrow> bool \<times> 'd" where
  "init_serial writes = (\<lambda>(done, d). if done then (done, d) else (True, writes d))"

definition init_serial_writes :: "(u8 \<Rightarrow> u16 \<Rightarrow> 'd \<Rightarrow> 'd) \<Rightarrow> 'd \<Rightarrow> 'd" where
  "init_serial_writes outb = outs outb
     [(0x0f, com1 + 4), (0, com1 + 1), (0x83, com1 + 3), (1, com1), (0, com1 + 1), (0x03, com1 + 3)]"

text \<open>
  The values read from the status and the data port, in the order in which they are read. \<open>write_com1\<close>
  waits until the transmitter is empty, \<open>read_com1\<close> until a byte has arrived without an error.
\<close>

fun write_com1 :: "u8 \<Rightarrow> u8 list \<Rightarrow> (u8 \<times> u8 list) option" where
  "write_com1 c [] = None"
| "write_com1 c (status # r) = (if status AND 0x20 = 0 then write_com1 c r else Some (c, r))"

fun read_com1 :: "u8 list \<Rightarrow> (u8 \<times> u8 list) option" where
  "read_com1 [] = None"
| "read_com1 (status # r) =
     (if status AND 0x1e \<noteq> 0 \<or> status AND 1 = 0 then read_com1 r
      else case r of [] \<Rightarrow> None | c # r \<Rightarrow> Some (c, r))"

section \<open>The registers on the screen\<close>

definition hex_disp :: "u8 list" where
  "hex_disp = map (\<lambda>i. 48 + of_nat i) [0..<10] @ map (\<lambda>i. 65 + of_nat i) [0..<6]"

fun write_digits :: "nat \<Rightarrow> nat \<Rightarrow> u32 \<Rightarrow> u8 list \<Rightarrow> u8 list" where
  "write_digits p 0 v scr = scr"
| "write_digits p (Suc n) v scr = write_digits (p - 2) n (drop_bit 4 v) (scr[p - 2 := hex_disp ! unat (v AND 15)])"

definition write_hex :: "nat \<Rightarrow> nat \<Rightarrow> nat \<Rightarrow> u32 \<Rightarrow> u8 list \<Rightarrow> u8 list" where
  "write_hex row col len v scr = write_digits ((row - 1) * 160 + (col + len - 1) * 2) len v scr"

definition dump_text :: "u8 list \<Rightarrow> u8 list \<Rightarrow> u8 list" where
  "dump_text form = fold (\<lambda>i. fold (\<lambda>j scr. scr[i * 160 + j * 2 := form ! (i * 81 + j)]) [0..<80]) [0..<25]"

definition dump_colours :: "u8 list \<Rightarrow> u8 list" where
  "dump_colours scr =
     fold (\<lambda>i scr. scr[2 * i + 1 := 0x34]) [161..<239] (fold (\<lambda>i scr. scr[2 * i + 1 := 0x30]) [0..<80 * 25] scr)"

definition register_fields :: "u32 \<Rightarrow> u32 \<Rightarrow> u32 \<Rightarrow> x86_tss \<Rightarrow> (nat \<times> nat \<times> nat \<times> u32) list" where
  "register_fields trapno error_code addr t =
     [(7, 21, 2, trapno), (7, 60, 8, error_code), (9, 21, 8, addr), (9, 69, 4, back_link t),
      (11, 11, 8, esp t), (11, 32, 4, ss t), (11, 52, 8, esp0 t), (11, 74, 4, ss0 t),
      (13, 11, 8, esp1 t), (13, 32, 4, ss1 t), (13, 52, 8, esp2 t), (13, 74, 4, ss2 t),
      (15, 15, 8, eip t), (15, 41, 4, cs t), (15, 66, 8, eflags t),
      (17, 10, 8, eax t), (17, 30, 8, ebx t), (17, 50, 8, ecx t), (17, 70, 8, edx t),
      (19, 10, 8, esi t), (19, 30, 8, edi t), (19, 50, 8, ebp t), (19, 72, 4, ldt t),
      (21, 12, 4, ds t), (21, 32, 4, es t), (21, 52, 4, fs t), (21, 72, 4, gs t),
      (23, 30, 8, cr3 t), (23, 70, 1, ucast (trace_trap t AND 1))]"

definition dump_registers :: "u8 list \<Rightarrow> u32 \<Rightarrow> u32 \<Rightarrow> u32 \<Rightarrow> x86_tss \<Rightarrow> u8 list \<Rightarrow> u8 list" where
  "dump_registers form trapno error_code addr t scr =
     fold (\<lambda>(row, col, len, v). write_hex row col len v) (register_fields trapno error_code addr t)
       (dump_colours (dump_text form scr))"

section \<open>The handler\<close>

definition signo_of :: "u32 \<Rightarrow> u8" where
  "signo_of trapno =
     (if trapno \<in> {0, 4, 5, 7, 8, 9, 15} then 8
      else if trapno \<in> {1, 3} then 5
      else if trapno \<in> {10, 11, 12, 13, 14} then 11
      else 4)"

definition tss_regs :: "x86_tss \<Rightarrow> gdb_state" where
  "tss_regs t = \<lparr>g_eax = eax t, g_ecx = ecx t, g_edx = edx t, g_ebx = ebx t, g_esp = esp t, g_ebp = ebp t,
     g_esi = esi t, g_edi = edi t, g_eip = eip t, g_eflags = eflags t, g_cs = cs t, g_ss = ss t,
     g_ds = ds t, g_es = es t, g_fs = fs t, g_gs = gs t\<rparr>"

definition set_tss_regs :: "gdb_state \<Rightarrow> x86_tss \<Rightarrow> x86_tss" where
  "set_tss_regs r t = t\<lparr>eip := g_eip r, eflags := g_eflags r, eax := g_eax r, ecx := g_ecx r, edx := g_edx r, ebx := g_ebx r,
     esp := g_esp r, ebp := g_ebp r, esi := g_esi r, edi := g_edi r,
     es := g_es r, cs := g_cs r, ss := g_ss r, ds := g_ds r, fs := g_fs r, gs := g_gs r\<rparr>"

text \<open>
  The machine as the handler sees it. The buffer of the stub is on the stack, with what an earlier call
  has left there. \<open>dbg_hooked\<close> says whether the serial functions are known to the stub.
\<close>

record dbg =
  do_debug :: bool
  dbg_hooked :: bool
  dbg_connected :: bool
  dbg_flag :: bool
  dbg_stack :: "u8 list"
  dbg_stack_addr :: u32
  dbg_cr0 :: u32
  dbg_cr4 :: u32
  dbg_memory :: pmem
  dbg_screen :: "u8 list"
  dbg_tss :: "u32 \<Rightarrow> x86_tss"

datatype trap_end = Returned | Rebooted

definition dbg_stub :: "u32 \<Rightarrow> u32 \<Rightarrow> dbg \<Rightarrow> stub" where
  "dbg_stub trapno t s = \<lparr>inbuf = dbg_stack s, inbuf_addr = dbg_stack_addr s, regs = tss_regs (dbg_tss s t),
     signo = signo_of trapno, regs_changed = False, connected = dbg_connected s, gdb_serial_debug = dbg_flag s,
     client_regs = copy_client_paging_registers (dbg_cr0 s) (cr3 (dbg_tss s t)) (dbg_cr4 s),
     memory = dbg_memory s\<rparr>"

text \<open>\<open>reboot()\<close> tells a connected debugger that the program has ended; the rest is the processor.\<close>

definition reboot :: "dbg \<Rightarrow> line \<Rightarrow> (trap_end \<times> dbg \<times> line) res option" where
  "reboot s l = map_option (\<lambda>(c, l). Inr (Rebooted, s\<lparr>dbg_connected := c\<rparr>, l))
     (gdb_serial_exit (dbg_hooked s) 0 (dbg_connected s) l)"

definition debugger :: "u32 \<Rightarrow> u32 \<Rightarrow> dbg \<Rightarrow> line \<Rightarrow> (trap_end \<times> dbg \<times> line) res option" where
  "debugger trapno t s l =
     (case gdb_serial_converse (dbg_stub trapno t s) l of
        None \<Rightarrow> None
      | Some (Inl e) \<Rightarrow> Some (Inl e)
      | Some (Inr (action, stub, l)) \<Rightarrow>
          (let s = s\<lparr>dbg_connected := connected stub, dbg_flag := gdb_serial_debug stub, dbg_stack := inbuf stub,
                 dbg_memory := memory stub\<rparr>
           in if action = GDB_KILL then reboot s l
              else let s = (if action = GDB_DETACH then s\<lparr>do_debug := False\<rparr> else s)
                in Some (Inr (Returned, s\<lparr>dbg_tss := (dbg_tss s)(t := set_tss_regs (stub.regs stub) (dbg_tss s t))\<rparr>, l))))"

text \<open>\<open>while (inb(0x60) == x);\<close> reads one value more than it waits for.\<close>

fun wait_release :: "u8 \<Rightarrow> u8 list \<Rightarrow> u8 list option" where
  "wait_release x [] = None"
| "wait_release x (c # ks) = (if c = x then wait_release x ks else Some ks)"

lemma wait_release_length: "wait_release x ks = Some ks' \<Longrightarrow> length ks' < length ks"
  by (induction x ks rule: wait_release.induct) (auto split: if_splits)

text \<open>The loop over the keys: whether the form is shown, the screen to restore, the keys.\<close>

function key_loop :: "(u8 list \<Rightarrow> u8 list) \<Rightarrow> u32 \<Rightarrow> u32 \<Rightarrow> bool \<Rightarrow> u8 list \<Rightarrow> u8 list \<Rightarrow> dbg \<Rightarrow> line
    \<Rightarrow> (trap_end \<times> dbg \<times> line) res option" where
  "key_loop dump trapno t d video_mem [] s l = None"
| "key_loop dump trapno t d video_mem (c # ks) s l =
     (if c = 0x39 then
        (let d = (\<not> d); s = s\<lparr>dbg_screen := (if d then dump (dbg_screen s) else video_mem)\<rparr>
         in case wait_release 0x39 ks of
              None \<Rightarrow> None
            | Some ks \<Rightarrow> key_loop dump trapno t d video_mem ks s l)
      else if c = 1 then reboot s l
      else if c = 0x17 then
        map_option (\<lambda>_. Inr (Returned, s\<lparr>dbg_screen := video_mem\<rparr>, l)) (wait_release 0x17 ks)
      else if c = 0x20 then
        Option.bind (wait_release 0x20 ks)
          (\<lambda>_. debugger trapno t (s\<lparr>dbg_screen := video_mem, do_debug := True, dbg_hooked := True\<rparr>) l)
      else key_loop dump trapno t d video_mem ks s l)"
  by pat_completeness auto

termination
  by (relation "measure (\<lambda>(dump, trapno, t, d, video_mem, ks, s, l). length ks)") (auto dest: wait_release_length)

text \<open>The task that was interrupted is linked to the one that handles the trap.\<close>

definition interrupted :: "u64 list \<Rightarrow> u32 \<Rightarrow> (u32 \<Rightarrow> x86_tss) \<Rightarrow> u32" where
  "interrupted g tsk tss_at = tss_sel_2_tss g (ucast (back_link (tss_at (tss_sel_2_tss g (ucast tsk)))))"

definition trap_handler :: "u8 list \<Rightarrow> u64 list \<Rightarrow> u32 \<Rightarrow> u32 \<Rightarrow> u32 \<Rightarrow> u8 list \<Rightarrow> dbg \<Rightarrow> line
    \<Rightarrow> (trap_end \<times> dbg \<times> line) res option" where
  "trap_handler form g tsk trapno error_code ks s l =
     (let t = interrupted g tsk (dbg_tss s); dump = dump_registers form trapno error_code t (dbg_tss s t)
      in if do_debug s then debugger trapno t s l
         else key_loop dump trapno t True (dbg_screen s) ks (s\<lparr>dbg_screen := dump (dbg_screen s)\<rparr>) l)"

section \<open>What the screen shows\<close>

lemma fold_paint_length: "length (fold (\<lambda>(q, x) s. s[q := x]) cells scr) = length scr"
  by (induction cells arbitrary: scr) auto

text \<open>Cells painted one after the other, at places that are all different.\<close>

lemma fold_paint_nth:
  "distinct (map fst cells) \<Longrightarrow> q < length scr \<Longrightarrow>
   fold (\<lambda>(q, x) s. s[q := x]) cells scr ! q = (case map_of cells q of Some x \<Rightarrow> x | None \<Rightarrow> scr ! q)"
proof (induction cells arbitrary: scr)
  case (Cons c cells)
  obtain p x where c: "c = (p, x)" by force
  have "map_of cells p = None" using Cons.prems(1) c by (auto simp: map_of_eq_None_iff)
  then show ?case using Cons.IH [of "scr[p := x]"] Cons.prems c by (auto split: option.splits)
qed simp

definition digit_cells :: "nat \<Rightarrow> nat \<Rightarrow> u32 \<Rightarrow> (nat \<times> u8) list" where
  "digit_cells p n v = map (\<lambda>j. (p - 2 * j - 2, hex_disp ! unat (drop_bit (4 * j) v AND 15))) [0..<n]"

lemma write_digits_cells: "write_digits p n v scr = fold (\<lambda>(q, x) s. s[q := x]) (digit_cells p n v) scr"
proof (induction n arbitrary: p v scr)
  case (Suc n)
  have "digit_cells p (Suc n) v = (p - 2, hex_disp ! unat (v AND 15)) # digit_cells (p - 2) n (drop_bit 4 v)"
    by (simp add: digit_cells_def upt_conv_Cons map_Suc_upt [symmetric] comp_def add.commute del: upt_Suc map_Suc_upt)
  then show ?case using Suc.IH by simp
qed (simp add: digit_cells_def)

text \<open>The cells of a field, from the right to the left.\<close>

definition field_cells :: "nat \<times> nat \<times> nat \<times> u32 \<Rightarrow> (nat \<times> u8) list" where
  "field_cells = (\<lambda>(row, col, len, v). digit_cells ((row - 1) * 160 + (col + len - 1) * 2) len v)"

lemma fold_write_hex:
  "fold (\<lambda>(row, col, len, v). write_hex row col len v) fds scr =
     fold (\<lambda>(q, x) s. s[q := x]) (concat (map field_cells fds)) scr"
  by (induction fds arbitrary: scr) (auto simp: write_hex_def write_digits_cells field_cells_def)

definition field_places :: "nat \<times> nat \<times> nat \<Rightarrow> nat list" where
  "field_places = (\<lambda>(row, col, len). map (\<lambda>j. (row - 1) * 160 + (col + len - 1) * 2 - 2 * j - 2) [0..<len])"

lemma map_fst_field_cells: "map fst (field_cells (row, col, len, v)) = field_places (row, col, len)"
  by (simp add: field_cells_def digit_cells_def field_places_def comp_def)

definition form_places :: "(nat \<times> nat \<times> nat) list" where
  "form_places = [(7, 21, 2), (7, 60, 8), (9, 21, 8), (9, 69, 4), (11, 11, 8), (11, 32, 4), (11, 52, 8), (11, 74, 4),
     (13, 11, 8), (13, 32, 4), (13, 52, 8), (13, 74, 4), (15, 15, 8), (15, 41, 4), (15, 66, 8),
     (17, 10, 8), (17, 30, 8), (17, 50, 8), (17, 70, 8), (19, 10, 8), (19, 30, 8), (19, 50, 8), (19, 72, 4),
     (21, 12, 4), (21, 32, 4), (21, 52, 4), (21, 72, 4), (23, 30, 8), (23, 70, 1)]"

lemma fields_places: "map (\<lambda>(row, col, len, v). (row, col, len)) (register_fields trapno e a t) = form_places"
  by (simp add: register_fields_def form_places_def)

lemma distinct_concat_rev: "distinct (concat (map (\<lambda>x. rev (f x)) xs)) \<longleftrightarrow> distinct (concat (map f xs))"
  by (induction xs) auto

text \<open>The fields follow each other from the left to the right and down, inside the screen.\<close>

lemma places_on_screen:
  "list_all (\<lambda>p. p < 4000 \<and> even p) (concat (map field_places form_places))"
  "successively (<) (concat (map (\<lambda>x. rev (field_places x)) form_places))"
proof -
  have u: "[0..<2] = [0, 1 :: nat]" "[0..<4] = [0, 1, 2, 3 :: nat]" "[0..<8] = [0, 1, 2, 3, 4, 5, 6, 7 :: nat]"
    by code_simp+
  show "list_all (\<lambda>p. p < 4000 \<and> even p) (concat (map field_places form_places))"
    "successively (<) (concat (map (\<lambda>x. rev (field_places x)) form_places))"
    by (simp_all add: form_places_def field_places_def u)
qed

lemma places_distinct: "distinct (concat (map field_places form_places))"
proof -
  have "sorted_wrt (<) (concat (map (\<lambda>x. rev (field_places x)) form_places))"
    using places_on_screen(2) by (simp add: successively_conv_sorted_wrt)
  then show ?thesis by (simp only: strict_sorted_iff distinct_concat_rev)
qed

text \<open>The form under the fields: the text of the file, and the colours.\<close>

definition form_screen :: "u8 list \<Rightarrow> nat \<Rightarrow> u8" where
  "form_screen form p =
     (if even p then form ! (p div 160 * 81 + p mod 160 div 2)
      else if 161 \<le> p div 2 \<and> p div 2 < 239 then 0x34 else 0x30)"

lemma rows_cells: "concat (map (\<lambda>i. map (\<lambda>j. i * w + j) [0..<w]) [0..<n]) = [0..<n * w]"
proof (induction n)
  case (Suc n)
  have "map (\<lambda>j. n * w + j) [0..<w] = [n * w..<n * w + w]" by (rule nth_equalityI) auto
  then show ?case using Suc upt_add_eq_append [of 0 "n * w" w] by (simp add: add.commute)
qed simp

lemma fold_concat: "fold (\<lambda>i. fold (f i) (g i)) xs s = fold (\<lambda>(i, j). f i j) (concat (map (\<lambda>i. map (Pair i) (g i)) xs)) s"
proof -
  have "fold (f i) ys s = fold (\<lambda>(i, j). f i j) (map (Pair i) ys) s" for i ys s
    by (induction ys arbitrary: s) auto
  then show ?thesis by (induction xs arbitrary: s) auto
qed

lemma dump_text_cells:
  "dump_text form scr = fold (\<lambda>(q, x) s. s[q := x])
     (map (\<lambda>(i, j). (i * 160 + j * 2, form ! (i * 81 + j))) (concat (map (\<lambda>i. map (Pair i) [0..<80]) [0..<25]))) scr"
proof -
  have f: "fold (\<lambda>(i, j) scr. scr[i * 160 + j * 2 := form ! (i * 81 + j)]) xs s =
      fold (\<lambda>(q, x) s. s[q := x]) (map (\<lambda>(i, j). (i * 160 + j * 2, form ! (i * 81 + j))) xs) s" for xs s
    by (induction xs arbitrary: s) auto
  show ?thesis unfolding dump_text_def f [symmetric] by (rule fold_concat)
qed

lemma dump_text_nth:
  assumes "length scr = 4000" and "p < 4000"
  shows "dump_text form scr ! p = (if even p then form ! (p div 160 * 81 + p mod 160 div 2) else scr ! p)"
proof -
  let ?ij = "concat (map (\<lambda>i. map (Pair i) [0..<80]) [0..<25]) :: (nat \<times> nat) list"
  let ?cells = "map (\<lambda>(i, j). (i * 160 + j * 2, form ! (i * 81 + j))) ?ij"
  note d = dump_text_cells [of form scr]
  have k: "map fst ?cells = map (\<lambda>k. 2 * k) [0..<2000]"
  proof -
    have "map fst ?cells = map (\<lambda>k. 2 * k) (concat (map (\<lambda>i. map (\<lambda>j. i * 80 + j) [0..<80]) [0..<25]))"
      by (simp add: map_concat comp_def case_prod_beta algebra_simps del: upt_rec_numeral)
    then show ?thesis unfolding rows_cells by simp
  qed
  then have dist: "distinct (map fst ?cells)" by (simp add: distinct_map inj_on_def del: upt_rec_numeral)
  have "map_of ?cells p = (if even p then Some (form ! (p div 160 * 81 + p mod 160 div 2)) else None)"
  proof (cases "even p")
    case True
    have "p div 160 < 25" "p mod 160 div 2 < 80" using assms(2) by simp_all
    then have "(p div 160, p mod 160 div 2) \<in> set ?ij"
      by (simp add: image_iff del: upt_rec_numeral)
    moreover have "p div 160 * 160 + p mod 160 div 2 * 2 = p"
    proof -
      have "even (p mod 160)" using True by (simp add: dvd_mod_iff)
      then show ?thesis by simp
    qed
    ultimately have "(p, form ! (p div 160 * 81 + p mod 160 div 2)) \<in> set ?cells" by force
    then show ?thesis using map_of_is_SomeI [OF dist] True by simp
  next
    case False
    then have "p \<notin> set (map fst ?cells)" unfolding k by auto
    then have "map_of ?cells p = None" by (simp only: map_of_eq_None_iff set_map simp_thms)
    then show ?thesis using False by simp
  qed
  then show ?thesis using fold_paint_nth [OF dist, of p scr] assms d by simp
qed

lemma fold_odd_nth:
  "p < length scr \<Longrightarrow> fold (\<lambda>i scr. scr[2 * i + 1 := x]) [a..<b] scr ! p =
     (if odd p \<and> a \<le> p div 2 \<and> p div 2 < b then x else scr ! p)"
proof (induction b)
  case (Suc b)
  have l: "length (fold (\<lambda>i scr. scr[2 * i + 1 := x]) is scr) = length scr" for "is" by (induction "is" arbitrary: scr) auto
  show ?case
  proof (cases "a \<le> b")
    case True
    have "p = Suc (2 * b) \<longleftrightarrow> odd p \<and> p div 2 = b" by (auto elim: oddE)
    then show ?thesis using Suc True l [of "[a..<b]"] by (auto simp: nth_list_update)
  qed auto
qed auto

lemma form_screen_nth:
  assumes "length scr = 4000" and "p < 4000"
  shows "dump_colours (dump_text form scr) ! p = form_screen form p" and "length (dump_colours (dump_text form scr)) = 4000"
proof -
  have l: "length (dump_text form scr) = 4000"
    unfolding dump_text_cells fold_paint_length by (rule assms(1))
  have lf: "length (fold (\<lambda>i scr. scr[2 * i + 1 := x]) is s) = length s" for x "is" and s :: "u8 list"
    by (induction "is" arbitrary: s) auto
  have "dump_colours (dump_text form scr) ! p =
      (if odd p \<and> 161 \<le> p div 2 \<and> p div 2 < 239 then 0x34
       else if odd p \<and> 0 \<le> p div 2 \<and> p div 2 < 80 * 25 then 0x30 else dump_text form scr ! p)"
    unfolding dump_colours_def using assms(2) l lf
    by (subst fold_odd_nth, simp only: lf) (subst fold_odd_nth, simp_all only:)
  then show "dump_colours (dump_text form scr) ! p = form_screen form p"
    using assms(2) dump_text_nth [OF assms, of form] by (cases "p div 2 < 2000") (simp_all add: form_screen_def)
  show "length (dump_colours (dump_text form scr)) = 4000" unfolding dump_colours_def lf l ..
qed

text \<open>What can be read at a place of the screen, from the left to the right, and the digits of a value.\<close>

definition read_field :: "u8 list \<Rightarrow> nat \<Rightarrow> nat \<Rightarrow> nat \<Rightarrow> u8 list" where
  "read_field scr row col len = map (\<lambda>k. scr ! ((row - 1) * 160 + (col - 1 + k) * 2)) [0..<len]"

definition hex_number :: "nat \<Rightarrow> u32 \<Rightarrow> u8 list" where
  "hex_number len v = map (\<lambda>k. hex_disp ! unat (drop_bit (4 * (len - 1 - k)) v AND 15)) [0..<len]"



section \<open>What the handler leaves\<close>

lemma debugger_screen:
  assumes "debugger trapno t s l = Some (Inr (Returned, s', l'))" shows "dbg_screen s' = dbg_screen s"
  using assms by (auto simp: debugger_def reboot_def Let_def split: option.split_asm sum.split_asm prod.split_asm if_split_asm)

lemma key_loop_returns:
  "key_loop dump trapno t d vm ks s l = Some (Inr (Returned, s', l')) \<Longrightarrow>
     s' = s\<lparr>dbg_screen := vm\<rparr> \<and> l' = l \<or>
     debugger trapno t (s\<lparr>dbg_screen := vm, do_debug := True, dbg_hooked := True\<rparr>) l = Some (Inr (Returned, s', l'))"
proof (induction dump trapno t d vm ks s l rule: key_loop.induct)
  case (2 dump trapno t d vm c ks s l)
  show ?case
  proof (cases "c = 0x39")
    case True
    then obtain ks' where w: "wait_release 0x39 ks = Some ks'" using 2(3) by (auto simp: Let_def split: option.split_asm)
    have "(s\<lparr>dbg_screen := x\<rparr>)\<lparr>dbg_screen := vm\<rparr> = s\<lparr>dbg_screen := vm\<rparr>" for x by simp
    moreover have "(s\<lparr>dbg_screen := x\<rparr>)\<lparr>dbg_screen := vm, do_debug := True, dbg_hooked := True\<rparr> =
        s\<lparr>dbg_screen := vm, do_debug := True, dbg_hooked := True\<rparr>" for x by simp
    ultimately show ?thesis using 2(1) [OF True refl refl w] 2(3) True w by (simp add: Let_def)
  next
    case False
    then show ?thesis using 2(2) [OF False] 2(3) by (auto simp: reboot_def bind_eq_Some_conv split: if_split_asm)
  qed
qed simp


definition sample_dbg :: dbg where
  "sample_dbg = \<lparr>do_debug = False, dbg_hooked = False, dbg_connected = False, dbg_flag = False,
     dbg_stack = replicate 401 0, dbg_stack_addr = 0x7ff000, dbg_cr0 = 0, dbg_cr4 = 0,
     dbg_memory = \<lparr>pages = buddy_init, ram = \<lambda>_. 0\<rparr>, dbg_screen = replicate 4000 32, dbg_tss = (\<lambda>_. tss_zero)\<rparr>"


lemma tss_regs_set [simp]: "tss_regs (set_tss_regs r t) = r" "set_tss_regs (tss_regs t) t = t"
  by (simp_all add: tss_regs_def set_tss_regs_def)



section \<open>The bytes of the serial line\<close>

text \<open>Between two bytes the status port may say anything but ready: the bytes arrive as they were sent.\<close>

lemma read_com1_reads:
  "list_all (\<lambda>status. status AND 0x1e \<noteq> 0 \<or> status AND 1 = 0) busy \<Longrightarrow> ready AND 0x1e = 0 \<Longrightarrow> ready AND 1 \<noteq> 0 \<Longrightarrow>
   read_com1 (busy @ ready # c # r) = Some (c, r)"
  by (induction busy) auto

lemma write_com1_writes:
  "list_all (\<lambda>status. status AND 0x20 = 0) busy \<Longrightarrow> ready AND 0x20 \<noteq> 0 \<Longrightarrow> write_com1 c (busy @ ready # r) = Some (c, r)"
  by (induction busy) auto

end
