(* ===== verification/Malloc.thy ===== *)
theory Malloc
  imports Math Sbrk
begin

text \<open>
  \<open>shared/malloc.c\<close>: Doug Lea's allocator as it is configured here (4-byte sizes, chunks aligned to 8
  bytes, no \<open>mmap\<close>, no checks), with the wrappers \<open>mem_alloc\<close> and \<open>mem_free\<close> at its end. The memory is
  a map from the addresses of words to words; the allocator's own state \<open>av_\<close> lies in it at the address
  \<open>av\<close>, because the headers of its lists are used as if they were chunks. The program break is an
  argument, with the two models of theory Sbrk in mind. The walks over the free lists, which end only on
  lists that are linked properly, have the value \<open>None\<close> when they do not.
\<close>

type_synonym words = "u32 \<Rightarrow> u32"

section \<open>Sizes\<close>

definition size_sz :: u32 where "size_sz = 4"
definition malloc_align_mask :: u32 where "malloc_align_mask = 2 * size_sz - 1"
definition min_size :: u32 where "min_size = (16 + malloc_align_mask) AND NOT malloc_align_mask"

definition request_out_of_range :: "u32 \<Rightarrow> bool" where "request_out_of_range req \<longleftrightarrow> req \<ge> - 2 * min_size"

definition request2size :: "u32 \<Rightarrow> u32" where
  "request2size req =
     (if req + size_sz + malloc_align_mask < min_size then min_size
      else (req + size_sz + malloc_align_mask) AND NOT malloc_align_mask)"

definition in_smallbin_range :: "u32 \<Rightarrow> bool" where "in_smallbin_range sz \<longleftrightarrow> sz < 256"
definition smallbin_index :: "u32 \<Rightarrow> u32" where "smallbin_index sz = drop_bit 3 sz"
definition n_bins :: u32 where "n_bins = 96"

text \<open>
  The position of the highest set bit: the branch-free computation, since \<open>i386\<close> is not defined under
  \<open>-std=c99\<close>, and the instruction \<open>bsrl\<close> it stands for is \<open>hard_bsr\<close>.
\<close>

definition highest_bit :: "u32 \<Rightarrow> u32" where
  "highest_bit x =
     (let n = drop_bit 16 (x - 0x100) AND 8; x = push_bit (unat n) x;
          m = drop_bit 16 (x - 0x1000) AND 4; n = n + m; x = push_bit (unat m) x;
          m = drop_bit 16 (x - 0x4000) AND 2; n = n + m; x = drop_bit 14 (push_bit (unat m) x)
      in 13 - n + (x AND NOT (drop_bit 1 x)))"

definition largebin_index :: "u32 \<Rightarrow> u32" where
  "largebin_index sz =
     (let x = drop_bit 8 sz
      in if x \<ge> 0x10000 then n_bins - 1
         else let m = highest_bit x in 32 + push_bit 2 m + (drop_bit (unat m + 6) sz AND 3))"

definition bin_index :: "u32 \<Rightarrow> u32" where
  "bin_index sz = (if in_smallbin_range sz then smallbin_index sz else largebin_index sz)"

definition fastbin_index :: "u32 \<Rightarrow> u32" where "fastbin_index sz = drop_bit 3 sz - 2"

section \<open>Chunks\<close>

definition chunk2mem :: "u32 \<Rightarrow> u32" where "chunk2mem p = p + 2 * size_sz"
definition mem2chunk :: "u32 \<Rightarrow> u32" where "mem2chunk m = m - 2 * size_sz"

text \<open>The fields \<open>prev_size\<close>, \<open>size\<close>, \<open>fd\<close> and \<open>bk\<close> of a chunk are at the offsets 0, 4, 8 and 12.\<close>

definition chunksize :: "u32 \<Rightarrow> words \<Rightarrow> u32" where "chunksize p w = w (p + 4) AND NOT 3"
definition prev_inuse :: "u32 \<Rightarrow> words \<Rightarrow> bool" where "prev_inuse p w \<longleftrightarrow> w (p + 4) AND 1 \<noteq> 0"
definition chunk_is_mmapped :: "u32 \<Rightarrow> words \<Rightarrow> bool" where "chunk_is_mmapped p w \<longleftrightarrow> w (p + 4) AND 2 \<noteq> 0"
definition inuse_bit_at_offset :: "u32 \<Rightarrow> u32 \<Rightarrow> words \<Rightarrow> bool" where
  "inuse_bit_at_offset p s w \<longleftrightarrow> w (p + s + 4) AND 1 \<noteq> 0"
definition set_inuse_bit_at_offset :: "u32 \<Rightarrow> u32 \<Rightarrow> words \<Rightarrow> words" where
  "set_inuse_bit_at_offset p s w = w(p + s + 4 := w (p + s + 4) OR 1)"
definition set_head :: "u32 \<Rightarrow> u32 \<Rightarrow> words \<Rightarrow> words" where "set_head p s w = w(p + 4 := s)"
definition set_foot :: "u32 \<Rightarrow> u32 \<Rightarrow> words \<Rightarrow> words" where "set_foot p s w = w(p + s := s)"

definition unlink :: "u32 \<Rightarrow> words \<Rightarrow> words" where
  "unlink p w = (let FD = w (p + 8); BK = w (p + 12); w = w(FD + 12 := BK) in w(BK + 8 := FD))"

section \<open>The state\<close>

text \<open>The places of the fields of \<open>struct malloc_state\<close>.\<close>

definition max_fast :: "u32 \<Rightarrow> u32" where "max_fast av = av"
definition fastbins :: "u32 \<Rightarrow> u32 \<Rightarrow> u32" where "fastbins av i = av + 4 + 4 * i"
definition top_at :: "u32 \<Rightarrow> u32" where "top_at av = av + 44"
definition last_remainder :: "u32 \<Rightarrow> u32" where "last_remainder av = av + 48"
definition bins :: "u32 \<Rightarrow> u32 \<Rightarrow> u32" where "bins av i = av + 52 + 4 * i"
definition binmap :: "u32 \<Rightarrow> u32 \<Rightarrow> u32" where "binmap av i = av + 820 + 4 * i"
definition trim_threshold :: "u32 \<Rightarrow> u32" where "trim_threshold av = av + 836"
definition top_pad :: "u32 \<Rightarrow> u32" where "top_pad av = av + 840"
definition mmap_threshold :: "u32 \<Rightarrow> u32" where "mmap_threshold av = av + 844"
definition n_mmaps_max :: "u32 \<Rightarrow> u32" where "n_mmaps_max av = av + 852"
definition pagesize :: "u32 \<Rightarrow> u32" where "pagesize av = av + 860"
definition morecore_properties :: "u32 \<Rightarrow> u32" where "morecore_properties av = av + 864"
definition mmapped_mem :: "u32 \<Rightarrow> u32" where "mmapped_mem av = av + 868"
definition sbrked_mem :: "u32 \<Rightarrow> u32" where "sbrked_mem av = av + 872"
definition max_sbrked_mem :: "u32 \<Rightarrow> u32" where "max_sbrked_mem av = av + 876"
definition max_total_mem :: "u32 \<Rightarrow> u32" where "max_total_mem av = av + 884"

text \<open>A bin is the chunk whose \<open>fd\<close> and \<open>bk\<close> are its pair of words.\<close>

definition bin_at :: "u32 \<Rightarrow> u32 \<Rightarrow> u32" where "bin_at av i = bins av (push_bit 1 i) - 8"
definition next_bin :: "u32 \<Rightarrow> u32" where "next_bin b = b + 8"
definition unsorted_chunks :: "u32 \<Rightarrow> u32" where "unsorted_chunks av = bin_at av 1"
definition initial_top :: "u32 \<Rightarrow> u32" where "initial_top av = unsorted_chunks av"

definition idx2block :: "u32 \<Rightarrow> u32" where "idx2block i = drop_bit 5 i"
definition idx2bit :: "u32 \<Rightarrow> u32" where "idx2bit i = push_bit (unat (i AND 31)) 1"
definition mark_bin :: "u32 \<Rightarrow> u32 \<Rightarrow> words \<Rightarrow> words" where
  "mark_bin av i w = w(binmap av (idx2block i) := w (binmap av (idx2block i)) OR idx2bit i)"

text \<open>Two flags in \<open>max_fast\<close>: there may be free chunks, and there may be some in the fast bins.\<close>

definition have_anychunks :: "u32 \<Rightarrow> words \<Rightarrow> bool" where "have_anychunks av w \<longleftrightarrow> w (max_fast av) AND 1 \<noteq> 0"
definition set_anychunks :: "u32 \<Rightarrow> words \<Rightarrow> words" where "set_anychunks av w = w(max_fast av := w (max_fast av) OR 1)"
definition have_fastchunks :: "u32 \<Rightarrow> words \<Rightarrow> bool" where "have_fastchunks av w \<longleftrightarrow> w (max_fast av) AND 2 \<noteq> 0"
definition set_fastchunks :: "u32 \<Rightarrow> words \<Rightarrow> words" where "set_fastchunks av w = w(max_fast av := w (max_fast av) OR (2 OR 1))"
definition clear_fastchunks :: "u32 \<Rightarrow> words \<Rightarrow> words" where "clear_fastchunks av w = w(max_fast av := w (max_fast av) AND NOT 2)"
definition set_max_fast :: "u32 \<Rightarrow> u32 \<Rightarrow> words \<Rightarrow> words" where
  "set_max_fast av s w = w(max_fast av := (if s = 0 then 8 else request2size s) OR (w (max_fast av) AND (2 OR 1)))"

definition contiguous :: "u32 \<Rightarrow> words \<Rightarrow> bool" where "contiguous av w \<longleftrightarrow> w (morecore_properties av) AND 1 \<noteq> 0"
definition set_contiguous :: "u32 \<Rightarrow> words \<Rightarrow> words" where
  "set_contiguous av w = w(morecore_properties av := w (morecore_properties av) OR 1)"
definition set_noncontiguous :: "u32 \<Rightarrow> words \<Rightarrow> words" where
  "set_noncontiguous av w = w(morecore_properties av := w (morecore_properties av) AND NOT 1)"

definition default_trim_threshold :: u32 where "default_trim_threshold = 256 * 1024"
definition fastbin_consolidation_threshold :: u32 where "fastbin_consolidation_threshold = drop_bit 1 default_trim_threshold"

definition malloc_init_state :: "u32 \<Rightarrow> words \<Rightarrow> words" where
  "malloc_init_state av w =
     (let w = fold (\<lambda>i w. let bin = bin_at av (of_nat i) in w(bin + 12 := bin, bin + 8 := bin)) [1..<96] w;
          w = w(top_pad av := 0, n_mmaps_max av := 0, mmap_threshold av := 256 * 1024, trim_threshold av := default_trim_threshold);
          w = set_max_fast av 64 (set_contiguous av w)
      in w(top_at av := initial_top av, pagesize av := 4096))"

section \<open>Giving chunks back\<close>

text \<open>
  A chunk that is given back is merged with the free chunk before it and with the free chunk after it,
  in \<open>fREe\<close> and in \<open>malloc_consolidate\<close> alike.
\<close>

definition consolidate_backward :: "u32 \<Rightarrow> u32 \<Rightarrow> words \<Rightarrow> u32 \<times> u32 \<times> words" where
  "consolidate_backward p sz w =
     (if \<not> prev_inuse p w then (let prevsize = w p; p = p - prevsize in (p, sz + prevsize, unlink p w)) else (p, sz, w))"

definition consolidate_forward :: "u32 \<Rightarrow> u32 \<Rightarrow> u32 \<Rightarrow> words \<Rightarrow> u32 \<times> words" where
  "consolidate_forward nextchunk nextsize sz w =
     (let nextinuse = inuse_bit_at_offset nextchunk nextsize w; w = set_head nextchunk nextsize w
      in if \<not> nextinuse then (sz + nextsize, unlink nextchunk w) else (sz, w))"

text \<open>A chunk of a fast bin is merged with its free neighbours, the rest of the list follows.\<close>

definition consolidate_chunk :: "u32 \<Rightarrow> u32 \<Rightarrow> words \<Rightarrow> words" where
  "consolidate_chunk av p w =
     (let size = w (p + 4) AND NOT 1; nextchunk = p + size; nextsize = chunksize nextchunk w;
          (p, size, w) = consolidate_backward p size w
      in if nextchunk \<noteq> w (top_at av) then
           (let (size, w) = consolidate_forward nextchunk nextsize size w;
                unsorted_bin = unsorted_chunks av; first_unsorted = w (unsorted_bin + 8);
                w = w(unsorted_bin + 8 := p); w = w(first_unsorted + 12 := p);
                w = set_head p (size OR 1) w; w = w(p + 12 := unsorted_bin); w = w(p + 8 := first_unsorted)
            in set_foot p size w)
         else (set_head p ((size + nextsize) OR 1) w)(top_at av := p))"

partial_function (option) consolidate_list :: "u32 \<Rightarrow> u32 \<Rightarrow> words \<Rightarrow> words option" where
  "consolidate_list av p w =
     (if p = 0 then Some w
      else (let nextp = w (p + 8) in consolidate_list av nextp (consolidate_chunk av p w)))"

fun consolidate_bins :: "u32 \<Rightarrow> u32 list \<Rightarrow> words \<Rightarrow> words option" where
  "consolidate_bins av [] w = Some w"
| "consolidate_bins av (fb # fbs) w =
     Option.bind (if w fb \<noteq> 0 then consolidate_list av (w fb) (w(fb := 0)) else Some w) (consolidate_bins av fbs)"

definition malloc_consolidate :: "u32 \<Rightarrow> words \<Rightarrow> words option" where
  "malloc_consolidate av w =
     (if w (max_fast av) \<noteq> 0 then
        (let w = clear_fastchunks av w
         in consolidate_bins av (map (\<lambda>i. fastbins av (of_nat i)) [0..<unat (fastbin_index (w (max_fast av))) + 1]) w)
      else Some (malloc_init_state av w))"

definition sYSTRIm :: "(int \<Rightarrow> 's \<Rightarrow> u32 \<times> 's) \<Rightarrow> u32 \<Rightarrow> u32 \<Rightarrow> words \<times> 's \<Rightarrow> words \<times> 's" where
  "sYSTRIm morecore av pad = (\<lambda>(w, s).
     let pagesz = w (pagesize av); top_size = chunksize (w (top_at av)) w;
         extra = ((top_size - pad - min_size + (pagesz - 1)) div pagesz - 1) * pagesz
     in if sint extra > 0 then
          (let (current_brk, s) = morecore 0 s
           in if current_brk = w (top_at av) + top_size then
                (let (_, s) = morecore (- sint extra) s; (new_brk, s) = morecore 0 s
                 in if new_brk \<noteq> sbrk_failed \<and> current_brk - new_brk \<noteq> 0 then
                      (set_head (w (top_at av)) ((top_size - (current_brk - new_brk)) OR 1)
                         (w(sbrked_mem av := w (sbrked_mem av) - (current_brk - new_brk))), s)
                    else (w, s))
              else (w, s))
        else (w, s))"

text \<open>The part of \<open>fREe\<close> that merges a chunk and enters it in the unsorted chunks or in the top chunk.\<close>

definition free_chunk :: "u32 \<Rightarrow> u32 \<Rightarrow> u32 \<Rightarrow> words \<Rightarrow> u32 \<times> words" where
  "free_chunk av p sz w =
     (let nextchunk = p + sz; nextsize = chunksize nextchunk w;
          (p, size, w) = consolidate_backward p sz w
      in if nextchunk \<noteq> w (top_at av) then
           (let (size, w) = consolidate_forward nextchunk nextsize size w;
                bck = unsorted_chunks av; fwd = w (bck + 8);
                w = w(p + 12 := bck); w = w(p + 8 := fwd); w = w(bck + 8 := p); w = w(fwd + 12 := p)
            in (size, set_foot p size (set_head p (size OR 1) w)))
         else (let size = size + nextsize in (size, (set_head p (size OR 1) w)(top_at av := p))))"

definition fREe :: "(int \<Rightarrow> 's \<Rightarrow> u32 \<times> 's) \<Rightarrow> u32 \<Rightarrow> u32 \<Rightarrow> words \<times> 's \<Rightarrow> (words \<times> 's) option" where
  "fREe morecore av m = (\<lambda>(w, s).
     if m = 0 then Some (w, s)
     else let p = mem2chunk m; size = chunksize p w in
       if size \<le> w (max_fast av) then
         (let w = set_fastchunks av w; fb = fastbins av (fastbin_index size);
              w = w(p + 8 := w fb)
          in Some (w(fb := p), s))
       else if \<not> chunk_is_mmapped p w then
         (let (size, w) = free_chunk av p size (set_anychunks av w)
          in if size \<ge> fastbin_consolidation_threshold then
               Option.bind (if have_fastchunks av w then malloc_consolidate av w else Some w) (\<lambda>w.
                 Some (if chunksize (w (top_at av)) w \<ge> w (trim_threshold av)
                       then sYSTRIm morecore av (w (top_pad av)) (w, s) else (w, s)))
             else Some (w, s))
       else Some (w, s))"

section \<open>More memory\<close>

text \<open>
  The places \<open>sbrked_mem\<close>, \<open>max_sbrked_mem\<close> and \<open>max_total_mem\<close> only count. \<open>split_top\<close> cuts a chunk from
  the top chunk; it is written out in \<open>mALLOc\<close> and again at the end of \<open>sYSMALLOc\<close>.
\<close>

definition split_top :: "u32 \<Rightarrow> u32 \<Rightarrow> words \<Rightarrow> (u32 \<times> words) option" where
  "split_top av nb w =
     (let victim = w (top_at av); size = chunksize victim w
      in if size \<ge> nb + min_size then
           (let remainder = victim + nb; w = w(top_at av := remainder);
                w = set_head victim (nb OR 1) w
            in Some (chunk2mem victim, set_head remainder ((size - nb) OR 1) w))
         else None)"

definition update_statistics :: "u32 \<Rightarrow> words \<Rightarrow> words" where
  "update_statistics av w =
     (let sum = w (sbrked_mem av);
          w = (if sum > w (max_sbrked_mem av) then w(max_sbrked_mem av := sum) else w);
          sum = sum + w (mmapped_mem av)
      in if sum > w (max_total_mem av) then w(max_total_mem av := sum) else w)"

text \<open>
  New space that does not continue the top chunk: its start is aligned, its end moved to the end of a
  page, and what was the top chunk is closed with two fence posts and given back.
\<close>

definition fresh_top :: "(int \<Rightarrow> 's \<Rightarrow> u32 \<times> 's) \<Rightarrow> u32 \<Rightarrow> u32 \<Rightarrow> u32 \<Rightarrow> words \<times> 's \<Rightarrow> (words \<times> 's) option" where
  "fresh_top morecore av brk sz = (\<lambda>(w, s).
     let old_top = w (top_at av); old_size = chunksize old_top w; old_end = old_top + old_size;
         pagemask = w (pagesize av) - 1;
         w = (if contiguous av w \<and> old_size \<noteq> 0 \<and> brk < old_end then set_noncontiguous av w else w);
         (aligned_brk, correction, snd_brk, w, s) =
           (if contiguous av w then
              (let w = (if old_size \<noteq> 0 then w(sbrked_mem av := w (sbrked_mem av) + (brk - old_end)) else w);
                   front_misalign = chunk2mem brk AND malloc_align_mask;
                   correction = (if front_misalign > 0 then malloc_align_mask + 1 - front_misalign else 0);
                   aligned_brk = brk + correction;
                   correction = correction + old_size;
                   end_misalign = brk + sz + correction;
                   correction = correction + (((end_misalign + pagemask) AND NOT pagemask) - end_misalign);
                   (snd_brk, s) = morecore (sint correction) s
               in if snd_brk = sbrk_failed then
                    (let (snd_brk, s) = morecore 0 s in (aligned_brk, 0, snd_brk, w, s))
                  else if snd_brk < brk then (aligned_brk, 0, brk + sz, set_noncontiguous av w, s)
                  else (aligned_brk, correction, snd_brk, w, s))
            else
              (let (snd_brk, s) = morecore 0 s
               in (brk, 0, snd_brk, w(sbrked_mem av := w (sbrked_mem av) + (snd_brk - brk - sz)), s)))
     in if snd_brk \<noteq> sbrk_failed then
          (let w = w(top_at av := aligned_brk);
               w = set_head aligned_brk ((snd_brk - aligned_brk + correction) OR 1) w;
               w = w(sbrked_mem av := w (sbrked_mem av) + correction)
           in if old_size \<noteq> 0 then
                (let old_size = (old_size - 3 * size_sz) AND NOT malloc_align_mask;
                     w = set_head old_top (old_size OR 1) w;
                     w = set_head (old_top + old_size) (size_sz OR 1) w;
                     w = set_head (old_top + old_size + size_sz) (size_sz OR 1) w
                 in if old_size \<ge> min_size then
                      (let tt = w (trim_threshold av)
                       in map_option (\<lambda>(w, s). (w(trim_threshold av := tt), s))
                            (fREe morecore av (chunk2mem old_top) (w(trim_threshold av := - 1), s)))
                    else Some (w, s))
              else Some (w, s))
        else Some (w, s))"

text \<open>\<open>sYSMALLOc\<close>, when the fast bins are empty: the result 0 means no memory.\<close>

definition sYSMALLOc :: "(int \<Rightarrow> 's \<Rightarrow> u32 \<times> 's) \<Rightarrow> u32 \<Rightarrow> u32 \<Rightarrow> words \<times> 's \<Rightarrow> (u32 \<times> words \<times> 's) option" where
  "sYSMALLOc morecore av nb = (\<lambda>(w, s).
     let pagemask = w (pagesize av) - 1;
         old_top = w (top_at av); old_size = chunksize old_top w; old_end = old_top + old_size;
         size = nb + w (top_pad av) + min_size;
         size = (if contiguous av w then size - old_size else size);
         size = (size + pagemask) AND NOT pagemask;
         (brk, s) = (if sint size > 0 then morecore (sint size) s else (sbrk_failed, s))
     in if brk \<noteq> sbrk_failed then
          (let w = w(sbrked_mem av := w (sbrked_mem av) + size)
           in Option.bind (if brk = old_end then Some (set_head old_top ((size + old_size) OR 1) w, s)
                           else fresh_top morecore av brk size (w, s)) (\<lambda>(w, s).
              (let w = update_statistics av w
               in case split_top av nb w of
                    Some (m, w) \<Rightarrow> Some (m, w, s)
                  | None \<Rightarrow> Some (0, w, s))))
        else Some (0, w, s))"

section \<open>Searching the bins\<close>

text \<open>The loop over the unsorted chunks: either it finds the chunk to hand out, or it ends with all of them in bins.\<close>

partial_function (option) sorted_place :: "u32 \<Rightarrow> u32 \<Rightarrow> words \<Rightarrow> u32 option" where
  "sorted_place sz fwd w = (if sz < w (fwd + 4) then sorted_place sz (w (fwd + 8)) w else Some fwd)"

definition place_in_bin :: "u32 \<Rightarrow> u32 \<Rightarrow> u32 \<Rightarrow> words \<Rightarrow> words option" where
  "place_in_bin av victim sz w =
     (let victim_index = bin_index sz; bck = bin_at av victim_index; fwd = w (bck + 8);
          place = (if \<not> in_smallbin_range sz \<and> fwd \<noteq> bck then
                     (if sz < w (w (bck + 12) + 4) then Some (w (bck + 12), bck)
                      else if sz \<ge> 256 then
                        map_option (\<lambda>fwd. (w (fwd + 12), fwd)) (sorted_place (sz OR 1) fwd w)
                      else Some (bck, fwd))
                   else Some (bck, fwd))
      in map_option (\<lambda>(bck, fwd).
           let w = mark_bin av victim_index w; w = w(victim + 12 := bck); w = w(victim + 8 := fwd);
               w = w(fwd + 12 := victim) in w(bck + 8 := victim)) place)"

definition split_chunk :: "u32 \<Rightarrow> u32 \<Rightarrow> u32 \<Rightarrow> u32 \<Rightarrow> words \<Rightarrow> words" where
  "split_chunk av victim nb remainder_size w =
     (let remainder = victim + nb; u = unsorted_chunks av;
          w = w(u + 8 := remainder); w = w(u + 12 := remainder);
          w = w(remainder + 8 := u); w = w(remainder + 12 := u);
          w = set_head victim (nb OR 1) w; w = set_head remainder (remainder_size OR 1) w
      in set_foot remainder remainder_size w)"

partial_function (option) process_unsorted :: "u32 \<Rightarrow> u32 \<Rightarrow> words \<Rightarrow> (u32 option \<times> words) option" where
  "process_unsorted av nb w =
     (let u = unsorted_chunks av; victim = w (u + 12)
      in if victim = u then Some (None, w)
         else let bck = w (victim + 12); size = chunksize victim w in
           if in_smallbin_range nb \<and> bck = u \<and> victim = w (last_remainder av) \<and> size > nb + min_size then
             (let remainder = victim + nb; remainder_size = size - nb;
                  w = w(u + 8 := remainder); w = w(u + 12 := remainder); w = w(last_remainder av := remainder);
                  w = w(remainder + 8 := u); w = w(remainder + 12 := u);
                  w = set_head victim (nb OR 1) w; w = set_head remainder (remainder_size OR 1) w
              in Some (Some (chunk2mem victim), set_foot remainder remainder_size w))
           else let w = w(u + 12 := bck); w = w(bck + 8 := u) in
             if size = nb then Some (Some (chunk2mem victim), set_inuse_bit_at_offset victim size w)
             else Option.bind (place_in_bin av victim size w) (process_unsorted av nb))"

text \<open>The chunks of the bin of a large request, from the smallest on.\<close>

partial_function (option) search_bin :: "u32 \<Rightarrow> u32 \<Rightarrow> u32 \<Rightarrow> u32 \<Rightarrow> words \<Rightarrow> (u32 option \<times> words) option" where
  "search_bin av nb bin victim w =
     (if victim = bin then Some (None, w)
      else let size = chunksize victim w in
        if size \<ge> nb then
          (let remainder_size = size - nb; w = unlink victim w
           in if remainder_size < min_size then Some (Some (chunk2mem victim), set_inuse_bit_at_offset victim size w)
              else Some (Some (chunk2mem victim), split_chunk av victim nb remainder_size w))
        else search_bin av nb bin (w (victim + 12)) w)"

text \<open>The next block of the bit map with a set bit, if any.\<close>

function next_block :: "u32 \<Rightarrow> nat \<Rightarrow> words \<Rightarrow> (nat \<times> u32) option" where
  "next_block av block w =
     (if 3 \<le> block + 1 then None
      else if w (binmap av (of_nat (block + 1))) = 0 then next_block av (block + 1) w
      else Some (block + 1, w (binmap av (of_nat (block + 1)))))"
  by pat_completeness auto

termination
  by (relation "measure (\<lambda>(av, block, w). 3 - block)") auto

declare next_block.simps [simp del]

text \<open>\<open>while ((bit & map) == 0)\<close>: the next bin whose bit is set.\<close>

partial_function (option) next_set_bin :: "u32 \<Rightarrow> u32 \<Rightarrow> u32 \<Rightarrow> (u32 \<times> u32) option" where
  "next_set_bin bin bt mp =
     (if bt AND mp = 0 then next_set_bin (next_bin bin) (push_bit 1 bt) mp else Some (bin, bt))"

partial_function (option) scan_bins :: "u32 \<Rightarrow> u32 \<Rightarrow> u32 \<Rightarrow> nat \<Rightarrow> u32 \<Rightarrow> u32 \<Rightarrow> words \<Rightarrow> (u32 option \<times> words) option" where
  "scan_bins av nb bin block mp bt w =
     (case (if bt > mp \<or> bt = 0 then
              map_option (\<lambda>(block, mp). (bin_at av (of_nat (32 * block)), block, mp, 1)) (next_block av block w)
            else Some (bin, block, mp, bt)) of
        None \<Rightarrow> Some (None, w)
      | Some (bin, block, mp, bt) \<Rightarrow>
          Option.bind (next_set_bin bin bt mp) (\<lambda>(bin, bt).
            let victim = w (bin + 12)
            in if victim = bin then
                 (let mp = mp AND NOT bt
                  in scan_bins av nb (next_bin bin) block mp (push_bit 1 bt) (w(binmap av (of_nat block) := mp)))
               else
                 (let size = chunksize victim w; remainder_size = size - nb; bck = w (victim + 12);
                      w = w(bin + 12 := bck); w = w(bck + 8 := bin)
                  in if remainder_size < min_size then Some (Some (chunk2mem victim), set_inuse_bit_at_offset victim size w)
                     else
                       (let remainder = victim + nb; u = unsorted_chunks av;
                            w = w(u + 8 := remainder); w = w(u + 12 := remainder);
                            w = w(remainder + 8 := u); w = w(remainder + 12 := u);
                            w = (if in_smallbin_range nb then w(last_remainder av := remainder) else w);
                            w = set_head victim (nb OR 1) w; w = set_head remainder (remainder_size OR 1) w
                        in Some (Some (chunk2mem victim), set_foot remainder remainder_size w)))))"

section \<open>malloc\<close>

text \<open>The part of \<open>mALLOc\<close> before \<open>use_top\<close>: a block from a bin, if there is one.\<close>

definition search_free :: "u32 \<Rightarrow> u32 \<Rightarrow> words \<Rightarrow> (u32 option \<times> words) option" where
  "search_free av nb w =
     (let idx = bin_index nb; fb = fastbins av (fastbin_index nb); bin = bin_at av idx
      in if nb \<le> w (max_fast av) \<and> w fb \<noteq> 0 then
           (let victim = w fb in Some (Some (chunk2mem victim), w(fb := w (victim + 8))))
         else if in_smallbin_range nb \<and> w (bin + 12) \<noteq> bin then
           (let victim = w (bin + 12); bck = w (victim + 12);
                w = set_inuse_bit_at_offset victim nb w; w = w(bin + 12 := bck)
            in Some (Some (chunk2mem victim), w(bck + 8 := bin)))
         else
           Option.bind (if \<not> in_smallbin_range nb \<and> have_fastchunks av w then malloc_consolidate av w else Some w) (\<lambda>w.
           Option.bind (process_unsorted av nb w) (\<lambda>(found, w).
             if found \<noteq> None then Some (found, w)
             else Option.bind (if in_smallbin_range nb then Some (None, w) else search_bin av nb bin (w (bin + 12)) w) (\<lambda>(found, w).
               if found \<noteq> None then Some (found, w)
               else let idx = idx + 1; block = idx2block idx
                 in scan_bins av nb (bin_at av idx) (unat block) (w (binmap av block)) (idx2bit idx) w))))"

partial_function (option) mALLOc :: "(int \<Rightarrow> 's \<Rightarrow> u32 \<times> 's) \<Rightarrow> u32 \<Rightarrow> u32 \<Rightarrow> words \<times> 's \<Rightarrow> (u32 \<times> words \<times> 's) option" where
  "mALLOc morecore av bytes st =
     (case st of (w, s) \<Rightarrow>
        if request_out_of_range bytes then Some (0, w, s)
        else let nb = request2size bytes in
          Option.bind (if \<not> have_anychunks av w
                       then (if w (max_fast av) = 0 then map_option (Pair None) (malloc_consolidate av w) else Some (None, w))
                       else search_free av nb w) (\<lambda>(found, w).
            case found of
              Some m \<Rightarrow> Some (m, w, s)
            | None \<Rightarrow>
                (case split_top av nb w of
                   Some (m, w) \<Rightarrow> Some (m, w, s)
                 | None \<Rightarrow>
                     if have_fastchunks av w then
                       Option.bind (malloc_consolidate av w) (\<lambda>w. mALLOc morecore av (nb - malloc_align_mask) (w, s))
                     else sYSMALLOc morecore av nb (w, s))))"

section \<open>The wrappers\<close>

definition head_mark :: u32 where "head_mark = 0xa51234ab"
definition tail_mark :: u32 where "tail_mark = 0xdeadfedc"

definition block_words :: "u32 \<Rightarrow> u32" where
  "block_words len = (len + size_sz - 1) div size_sz + 4"

text \<open>\<open>memset(p, 0, n)\<close> for a number of words.\<close>

definition zero_words :: "u32 \<Rightarrow> u32 \<Rightarrow> words \<Rightarrow> words" where
  "zero_words p n w = (\<lambda>a. if a - p < 4 * n \<and> (a - p) AND 3 = 0 then 0 else w a)"

definition mem_alloc :: "(int \<Rightarrow> 's \<Rightarrow> u32 \<times> 's) \<Rightarrow> u32 \<Rightarrow> u32 \<Rightarrow> words \<times> 's \<Rightarrow> (u32 \<times> words \<times> 's) option" where
  "mem_alloc morecore av len = (\<lambda>(w, s).
     let l = block_words len; l2 = l * size_sz
     in if len = 0 then Some (0, w, s)
        else if l2 \<le> len then Some (0, w, s)
        else Option.bind (mALLOc morecore av l2 (w, s)) (\<lambda>(p, w, s).
          if p = 0 then Some (0, w, s)
          else
            (let w = w(p := len); w = w(p + 4 := head_mark);
                 w = w(p + 4 * (l - 2) := tail_mark); w = w(p + 4 * (l - 1) := p);
                 p = p + 8
             in Some (p, zero_words p (l - 4) w, s))))"

text \<open>\<open>mem_bug\<close> prints its message and writes to the null pointer.\<close>

definition mem_free :: "(int \<Rightarrow> 's \<Rightarrow> u32 \<times> 's) \<Rightarrow> u32 \<Rightarrow> u32 \<Rightarrow> u32 \<Rightarrow> words \<times> 's \<Rightarrow> (words \<times> 's) res option" where
  "mem_free morecore av zone len = (\<lambda>(w, s).
     let l = block_words len; p = zone - 8
     in if len = 0 then Some (Inr (w, s))
        else if w (p + 4) \<noteq> head_mark then Some (Inl Null_Deref)
        else if w p \<noteq> len then Some (Inl Null_Deref)
        else if w (p + 4 * (l - 2)) \<noteq> tail_mark then Some (Inl Null_Deref)
        else if w (p + 4 * (l - 1)) \<noteq> p then Some (Inl Null_Deref)
        else map_option Inr (fREe morecore av p (zero_words p l w, s)))"

definition mem_free_nolength :: "(int \<Rightarrow> 's \<Rightarrow> u32 \<times> 's) \<Rightarrow> u32 \<Rightarrow> u32 \<Rightarrow> words \<times> 's \<Rightarrow> (words \<times> 's) res option" where
  "mem_free_nolength morecore av zone = (\<lambda>(w, s). mem_free morecore av zone (w (zone - 8)) (w, s))"

section \<open>Sizes and bins\<close>

lemma borrow_bits:
  fixes x c k :: u32
  assumes "unat x < 2 ^ 16" and "0 < unat c" and "unat c \<le> 2 ^ 16" and "unat k < 2 ^ 16"
  shows "drop_bit 16 (x - c) AND k = (if x < c then k else 0)"
proof (cases "x < c")
  case True
  then have "unat (x - c) = 2 ^ 32 + unat x - unat c"
    using assms by (simp add: unat_sub_if_size word_size word_less_nat_alt)
  then have "unat (drop_bit 16 (x - c)) = 0xFFFF"
    using True assms by (simp add: unat_shr word_less_nat_alt)
  then have "unat (drop_bit 16 (x - c)) = unat (0xFFFF :: u32)" by simp
  then have d: "drop_bit 16 (x - c) = mask 16" by (simp only: word_unat_eq_iff) (simp add: mask_eq_exp_minus_1)
  have "mask 16 AND k = k"
    using assms(4) by (metis and.commute take_bit_eq_mask word_unat_eq_iff unsigned_take_bit_eq take_bit_nat_eq_self)
  then show ?thesis using True by (simp only: d if_True)
next
  case False
  then have "unat (x - c) = unat x - unat c" by (simp add: unat_sub word_le_nat_alt word_less_nat_alt)
  then have "unat (drop_bit 16 (x - c)) = 0" using assms(1) by (simp add: unat_shr)
  then have "drop_bit 16 (x - c) = 0" by (simp only: unat_eq_zero)
  then show ?thesis using False by simp
qed

lemma unat_push_bit16:
  fixes x :: u32
  assumes "unat x * 2 ^ n < 2 ^ 16"
  shows "unat (push_bit n x) = unat x * 2 ^ n"
  using assms unfolding unsigned_push_bit_eq by (subst take_bit_nat_eq_self) (simp_all add: push_bit_eq_mult)

lemma top_two_bits:
  fixes y :: u32
  assumes "1 \<le> unat y" and "unat y < 4"
  shows "y AND NOT (drop_bit 1 y) = (if unat y = 1 then 1 else 2)"
proof -
  consider "unat y = 1" | "unat y = 2" | "unat y = 3" using assms by linarith
  then consider "y = 1" | "y = 2" | "y = 3" by cases (simp_all add: word_unat_eq_iff)
  then show ?thesis by cases simp_all
qed

lemma log_unique:
  fixes i j k :: nat
  assumes "2 ^ i \<le> k" and "k < 2 ^ Suc i" and "2 ^ j \<le> k" and "k < 2 ^ Suc j"
  shows "i = j"
proof -
  have "i < Suc j" "j < Suc i" using assms by (meson le_less_trans power_less_imp_less_exp one_less_numeral_iff semiring_norm(76))+
  then show ?thesis by simp
qed

lemma highest_bit_hard_bsr:
  assumes "x \<noteq> 0" and "unat x < 2 ^ 16"
  shows "highest_bit x = of_nat (hard_bsr x)" and "hard_bsr x < 16"
proof -
  define n1 n2 n3 where "n1 = (if unat x < 2 ^ 8 then 8 else 0 :: nat)"
    and "n2 = (if unat x * 2 ^ n1 < 2 ^ 12 then 4 else 0 :: nat)"
    and "n3 = (if unat x * 2 ^ (n1 + n2) < 2 ^ 14 then 2 else 0 :: nat)"
  have pos: "1 \<le> unat x" using assms(1) by (simp add: unat_gt_0 Suc_le_eq)
  have b1: "2 ^ 8 \<le> unat x * 2 ^ n1" "unat x * 2 ^ n1 < 2 ^ 16" using pos assms(2) by (simp_all add: n1_def)
  then have b2: "2 ^ 12 \<le> unat x * 2 ^ (n1 + n2)" "unat x * 2 ^ (n1 + n2) < 2 ^ 16" by (simp_all add: n2_def power_add)
  then have b3: "2 ^ 14 \<le> unat x * 2 ^ (n1 + n2 + n3)" "unat x * 2 ^ (n1 + n2 + n3) < 2 ^ 16"
    by (simp_all add: n3_def power_add)
  have s1: "drop_bit 16 (x - 0x100) AND 8 = of_nat n1"
    using assms(2) by (subst borrow_bits) (simp_all add: n1_def word_less_nat_alt)
  define x1 where "x1 = push_bit n1 x"
  have x1: "unat x1 = unat x * 2 ^ n1" unfolding x1_def by (rule unat_push_bit16) (use b1 in simp)
  have s2: "drop_bit 16 (x1 - 0x1000) AND 4 = of_nat n2"
    using b1 x1 by (subst borrow_bits) (simp_all add: n2_def word_less_nat_alt)
  define x2 where "x2 = push_bit n2 x1"
  have x2: "unat x2 = unat x * 2 ^ (n1 + n2)"
    unfolding x2_def by (subst unat_push_bit16) (use b2 x1 in \<open>simp_all add: power_add\<close>)
  have s3: "drop_bit 16 (x2 - 0x4000) AND 2 = of_nat n3"
    using b2 x2 by (subst borrow_bits) (simp_all add: n3_def word_less_nat_alt)
  define y where "y = drop_bit 14 (push_bit n3 x2)"
  have y: "unat y = unat x * 2 ^ (n1 + n2 + n3) div 2 ^ 14"
    unfolding y_def unat_shr by (subst unat_push_bit16) (use b3 x2 in \<open>simp_all add: power_add mult_ac\<close>)
  have small: "n1 + n2 + n3 \<le> 14" by (simp add: n1_def n2_def n3_def)
  have y4: "1 \<le> unat y" "unat y < 4" using b3 by (simp_all only: y) (simp_all add: less_mult_imp_div_less Suc_le_eq div_greater_zero_iff)
  define e where "e = (if unat y = 1 then 14 else 15 :: nat)"
  define n where "n = n1 + n2 + n3"
  have e: "2 ^ e \<le> unat x * 2 ^ n" "unat x * 2 ^ n < 2 ^ Suc e"
    using y y4 b3 by (auto simp: e_def n_def)
  have "n \<le> e" using small by (simp add: e_def n_def)
  then have "2 ^ e = 2 ^ (e - n) * (2 ^ n :: nat)" by (simp add: power_add [symmetric])
  then have k: "2 ^ (e - n) \<le> unat x" "unat x < 2 ^ Suc (e - n)" using e by simp_all
  have h: "hard_bsr x = e - n" by (rule log_unique [OF hard_bsr_bounds(1,2) [OF assms(1)] k])
  moreover have "e \<le> 15" by (simp add: e_def)
  ultimately have "hard_bsr x \<le> 15" by linarith
  then show "hard_bsr x < 16" by simp
  have u: "unat (of_nat n1 :: u32) = n1" "unat (of_nat n2 :: u32) = n2" "unat (of_nat n3 :: u32) = n3"
    using small by (simp_all add: unat_of_nat32)
  have "highest_bit x = 13 - (of_nat n1 + of_nat n2 + of_nat n3) + (y AND NOT (drop_bit 1 y))"
    by (simp only: highest_bit_def Let_def s1 u x1_def [symmetric] s2 x2_def [symmetric] s3 y_def [symmetric])
  also have "\<dots> = of_nat e - of_nat n" using top_two_bits [OF y4] by (simp add: e_def n_def)
  also have "\<dots> = of_nat (hard_bsr x)" using \<open>n \<le> e\<close> h by (simp add: of_nat_diff)
  finally show "highest_bit x = of_nat (hard_bsr x)" .
qed

text \<open>The index of a large size in the integers: the highest bit and the two bits below it.\<close>

lemma largebin_index_nat:
  fixes sz :: u32
  assumes "256 \<le> unat sz" and "unat sz < 2 ^ 24"
  defines "m \<equiv> hard_bsr (drop_bit 8 sz)"
  shows "unat (largebin_index sz) = 28 + 4 * m + unat sz div 2 ^ (m + 6)" and "m < 16"
    and "2 ^ m * 256 \<le> unat sz" and "unat sz < 2 ^ m * 512"
proof -
  let ?x = "drop_bit 8 sz"
  have ux: "unat ?x = unat sz div 256" by (simp add: unat_shr)
  have pos: "1 \<le> unat ?x" unfolding ux using assms(1) by (simp add: Suc_le_eq div_greater_zero_iff)
  then have x0: "?x \<noteq> 0" by (metis not_one_le_zero unat_0)
  have x16: "unat ?x < 2 ^ 16" unfolding ux using assms(2) by (simp add: less_mult_imp_div_less)
  have big: "\<not> 0x10000 \<le> ?x" using x16 by (simp add: word_le_nat_alt)
  note hb = highest_bit_hard_bsr [OF x0 x16]
  show m: "m < 16" using hb(2) by (simp add: m_def)
  have "2 ^ m \<le> unat sz div 256" "unat sz div 256 < 2 ^ Suc m" using hard_bsr_bounds [OF x0] by (simp_all add: m_def ux)
  then show lo: "2 ^ m * 256 \<le> unat sz" and hi: "unat sz < 2 ^ m * 512"
    by (simp_all add: less_eq_div_iff_mult_less_eq div_less_iff_less_mult mult.commute)
  define q where "q = unat sz div 2 ^ (m + 6)"
  have p6: "2 ^ (m + 6) = 2 ^ m * (64 :: nat)" by (simp add: power_add)
  have q: "4 \<le> q" "q < 8" using lo hi by (simp_all add: q_def p6 less_eq_div_iff_mult_less_eq div_less_iff_less_mult mult_ac)
  have "q mod 4 = q - 4" using q by presburger
  moreover have "unat (drop_bit (m + 6) sz AND 3) = q mod 4"
  proof -
    have "drop_bit (m + 6) sz AND 3 = drop_bit (m + 6) sz mod 4"
      using take_bit_eq_mask [of 2 "drop_bit (m + 6) sz"] by (simp add: take_bit_eq_mod mask_eq_exp_minus_1)
    then show ?thesis by (simp add: unat_mod unat_shr q_def)
  qed
  moreover have "unat (push_bit 2 (of_nat m) :: u32) = 4 * m"
    using m by (subst unat_push_bit16) (simp_all add: unat_of_nat32)
  moreover have "highest_bit ?x = of_nat m" using hb(1) by (simp add: m_def)
  moreover have "unat (of_nat m :: u32) = m" using m by (simp add: unat_of_nat32)
  ultimately show "unat (largebin_index sz) = 28 + 4 * m + unat sz div 2 ^ (m + 6)"
    using big q m by (simp add: largebin_index_def Let_def unat_word_ariths q_def [symmetric])
qed

lemma bin_index_small: "unat c < 256 \<Longrightarrow> unat (bin_index c) = unat c div 8"
  by (simp add: bin_index_def in_smallbin_range_def smallbin_index_def word_less_nat_alt unat_shr)

lemma bin_index_huge: "2 ^ 24 \<le> unat c \<Longrightarrow> bin_index c = 95"
proof -
  assume c: "2 ^ 24 \<le> unat c"
  then have "(0x10000 :: u32) \<le> drop_bit 8 c" by (simp add: word_le_nat_alt unat_shr)
  then show ?thesis
    using c by (simp add: bin_index_def in_smallbin_range_def largebin_index_def n_bins_def word_less_nat_alt Let_def)
qed

lemma bin_index_large:
  assumes "256 \<le> unat c" and "unat c < 2 ^ 24"
  obtains m where "unat (bin_index c) = 28 + 4 * m + unat c div (64 * 2 ^ m)" and "m < 16"
    and "256 * 2 ^ m \<le> unat c" and "unat c < 512 * 2 ^ m"
    and "32 + 4 * m \<le> unat (bin_index c)" and "unat (bin_index c) \<le> 35 + 4 * m"
proof -
  define m where "m = hard_bsr (drop_bit 8 c)"
  note l = largebin_index_nat [OF assms, folded m_def]
  have i: "bin_index c = largebin_index c" using assms(1) by (simp add: bin_index_def in_smallbin_range_def word_less_nat_alt)
  have q: "unat (bin_index c) = 28 + 4 * m + unat c div (64 * 2 ^ m)" using l(1) i by (simp add: power_add mult.commute)
  have "4 \<le> unat c div (64 * 2 ^ m)" "unat c div (64 * 2 ^ m) < 8"
    using l(3,4) by (simp_all add: less_eq_div_iff_mult_less_eq div_less_iff_less_mult)
  then show ?thesis using that [OF q l(2)] l(3,4) q by simp
qed

lemma bin_index_mono:
  assumes "a \<le> b"
  shows "bin_index a \<le> bin_index b"
proof -
  have ab: "unat a \<le> unat b" using assms by (simp add: word_le_nat_alt)
  consider "unat b < 256" | "unat a < 256" "256 \<le> unat b" | "2 ^ 24 \<le> unat b" "256 \<le> unat a"
    | "256 \<le> unat a" "unat b < 2 ^ 24" using ab by linarith
  then have "unat (bin_index a) \<le> unat (bin_index b)"
  proof cases
    case 1
    then show ?thesis using ab by (simp add: bin_index_small div_le_mono)
  next
    case 2
    then have "unat (bin_index a) < 32" by (simp add: bin_index_small less_mult_imp_div_less)
    moreover have "32 \<le> unat (bin_index b)"
    proof (cases "2 ^ 24 \<le> unat b")
      case False
      then show ?thesis using 2(2) by (auto elim!: bin_index_large)
    qed (simp add: bin_index_huge)
    ultimately show ?thesis by linarith
  next
    case 3
    have "unat (bin_index a) \<le> 95"
    proof (cases "2 ^ 24 \<le> unat a")
      case False
      then show ?thesis using 3(2) by (auto elim!: bin_index_large)
    qed (simp add: bin_index_huge)
    then show ?thesis using 3(1) by (simp add: bin_index_huge)
  next
    case 4
    then have "unat a < 2 ^ 24" "256 \<le> unat b" using ab by simp_all
    obtain m where m: "unat (bin_index a) = 28 + 4 * m + unat a div (64 * 2 ^ m)" "256 * 2 ^ m \<le> unat a"
        "unat (bin_index a) \<le> 35 + 4 * m" using bin_index_large [OF 4(1) \<open>unat a < 2 ^ 24\<close>] by metis
    obtain k where k: "unat (bin_index b) = 28 + 4 * k + unat b div (64 * 2 ^ k)" "unat b < 512 * 2 ^ k"
        "32 + 4 * k \<le> unat (bin_index b)" using bin_index_large [OF \<open>256 \<le> unat b\<close> 4(2)] by metis
    have "2 ^ m < (2 :: nat) * 2 ^ k" using m(2) k(2) ab by linarith
    then have "(2 :: nat) ^ m < 2 ^ Suc k" by simp
    then have "m < Suc k" by (rule power_less_imp_less_exp [rotated]) simp
    then consider "m = k" | "m < k" by linarith
    then show ?thesis
    proof cases
      case 1
      then show ?thesis using m(1) k(1) ab by (simp add: div_le_mono)
    next
      case 2
      then show ?thesis using m(3) k(3) by linarith
    qed
  qed
  then show ?thesis by (simp add: word_le_nat_alt)
qed

lemma bin_index_bounds:
  assumes "16 \<le> unat c"
  shows "2 \<le> unat (bin_index c)" and "unat (bin_index c) < 96"
proof -
  have "bin_index 16 \<le> bin_index c" using assms by (intro bin_index_mono) (simp add: word_le_nat_alt)
  moreover have "bin_index c \<le> bin_index (- 1)" by (rule bin_index_mono) simp
  moreover have "bin_index (- 1) = 95" by (rule bin_index_huge) (simp add: unsigned_minus_1_eq_mask mask_eq_exp_minus_1)
  moreover have "unat (bin_index 16) = 2" by (subst bin_index_small) simp_all
  ultimately show "2 \<le> unat (bin_index c)" "unat (bin_index c) < 96" by (simp_all add: word_le_nat_alt)
qed

lemma unat_and_not_mask: "unat (x AND NOT (mask k)) = unat x div 2 ^ k * 2 ^ k" for x :: u32
proof -
  have "x AND NOT (mask k) = push_bit k (drop_bit k x)"
    by (rule bit_word_eqI) (auto simp: bit_simps)
  then have "unat (x AND NOT (mask k)) = take_bit 32 (unat x div 2 ^ k * 2 ^ k)"
    by (simp only: unsigned_push_bit_eq unat_shr) (simp add: push_bit_eq_mult)
  moreover have "unat x div 2 ^ k * 2 ^ k < 2 ^ 32"
    using unat_bound [of x] by (simp add: le_less_trans [OF div_times_less_eq_dividend])
  ultimately show ?thesis by (simp add: take_bit_nat_eq_self)
qed

lemma align_down: "unat (x AND NOT 7) = unat x div 8 * 8" "unat (x AND - 8) = unat x div 8 * 8" for x :: u32
  using unat_and_not_mask [of x 3] by (simp_all add: mask_eq_exp_minus_1)

lemma page_down: "unat (x AND NOT 0xFFF) = unat x div 4096 * 4096" "unat (x AND - 4096) = unat x div 4096 * 4096" for x :: u32
  using unat_and_not_mask [of x 12] by (simp_all add: mask_eq_exp_minus_1)

lemma min_size_16 [simp]: "min_size = 16"
  by (simp add: min_size_def malloc_align_mask_def size_sz_def)

lemma request_size_ok:
  assumes "\<not> request_out_of_range req"
  shows "unat (request2size req) = max 16 ((unat req + 11) div 8 * 8)"
proof -
  have "unat req < 2 ^ 32 - 32" using assms by (simp add: request_out_of_range_def word_le_nat_alt)
  then show ?thesis
    by (auto simp: request2size_def size_sz_def malloc_align_mask_def word_less_nat_alt align_down unat_word_ariths)
qed

end
