(* ===== verification/MallocHeap.thy ===== *)
theory MallocHeap
  imports Malloc
begin

text \<open>
  What holds of the memory between the calls of the allocator of theory Malloc, and the few changes its
  operations are made of. The heap is cut into chunks, below the top chunk; a chunk is in use, in a fast
  bin, in a bin of the table, or \<open>Loose\<close>: taken out of its list, its words at the disposal of the
  operation that is under way. Every change of the code is one of the lemmas here: a chunk is taken out of
  its bin, two loose neighbours become one, a loose chunk is cut, put in a bin, handed out or joined to
  the top chunk.
\<close>

datatype use = Used | Quick | Binned u32 | Loose

type_synonym chunks = "u32 \<Rightarrow> (u32 \<times> use) option"

section \<open>Sizes and flags in one word\<close>

definition aligned8 :: "u32 \<Rightarrow> bool" where "aligned8 x \<longleftrightarrow> 8 dvd unat x"

lemma aligned8_bits: "aligned8 n \<Longrightarrow> i < 3 \<Longrightarrow> \<not> bit n i"
proof -
  assume "aligned8 n" and i: "i < 3"
  then obtain k where k: "unat n = 8 * k" by (auto simp: aligned8_def)
  have "(2 :: nat) ^ 3 = 2 ^ i * 2 ^ (3 - i)" using i by (simp add: power_add [symmetric])
  then have "unat n = 2 ^ i * (2 ^ (3 - i) * k)" using k by simp
  then have "unat n div 2 ^ i = 2 ^ (3 - i) * k" by simp
  moreover have "even ((2 :: nat) ^ (3 - i) * k)" using i by simp
  ultimately have "\<not> bit (unat n) i" by (simp add: bit_iff_odd)
  then show "\<not> bit n i" by (simp add: bit_unsigned_iff)
qed

lemma flag_bits:
  assumes "aligned8 n"
  shows "n AND NOT 3 = n" and "(n OR 1) AND NOT 3 = n" and "n AND NOT 1 = n" and "(n OR 1) AND NOT 1 = n"
    and "n AND 1 = 0" and "(n OR 1) AND 1 = 1" and "n AND 2 = 0" and "(n OR 1) AND 2 = 0"
proof -
  have z: "\<not> bit n i" if "i < 3" for i using aligned8_bits [OF assms that] .
  have m: "(3 :: u32) = mask 2" "(1 :: u32) = mask 1" by (simp_all add: mask_eq_exp_minus_1)
  have t: "(2 :: u32) = push_bit 1 1" by simp
  show "n AND NOT 3 = n" unfolding m
    by (rule bit_word_eqI) (simp only: bit_simps, use z in auto)
  show "(n OR 1) AND NOT 3 = n" unfolding m
    by (rule bit_word_eqI) (simp only: bit_simps, use z in auto)
  show "n AND NOT 1 = n" unfolding m
    by (rule bit_word_eqI) (simp only: bit_simps, use z in \<open>auto intro!: gr0I simp del: bit_0\<close>)
  show "(n OR 1) AND NOT 1 = n" unfolding m
    by (rule bit_word_eqI) (simp only: bit_simps, use z in \<open>auto intro!: gr0I simp del: bit_0\<close>)
  show "n AND 1 = 0" unfolding m
    by (rule bit_word_eqI) (simp only: bit_simps, use z in \<open>auto intro!: gr0I simp del: bit_0\<close>)
  show "(n OR 1) AND 1 = 1" unfolding m
    by (rule bit_word_eqI) (simp only: bit_simps, use z in \<open>auto intro!: gr0I simp del: bit_0\<close>)
  show "n AND 2 = 0" unfolding t
    by (rule bit_word_eqI) (simp only: bit_simps, use z in \<open>auto intro!: gr0I simp del: bit_0\<close>)
  show "(n OR 1) AND 2 = 0" unfolding t m
    by (rule bit_word_eqI) (simp only: bit_simps, use z in auto)
qed

section \<open>The invariant\<close>

text \<open>The heap starts at \<open>B\<close>; the top chunk is at \<open>T\<close> and has \<open>S\<close> bytes.\<close>

definition before :: "chunks \<Rightarrow> u32 \<Rightarrow> use \<Rightarrow> bool" where
  "before C x u \<longleftrightarrow> (\<exists>q n. C q = Some (n, u) \<and> q + n = x)"

definition chunk_in :: "u32 \<Rightarrow> chunks \<Rightarrow> u32 \<Rightarrow> u32 \<Rightarrow> u32 \<Rightarrow> bool" where
  "chunk_in B C T p n \<longleftrightarrow> unat B \<le> unat p \<and> aligned8 p \<and> aligned8 n \<and> 16 \<le> unat n \<and>
     unat p + unat n \<le> unat T \<and> (p + n = T \<or> p + n \<in> dom C)"

definition label_ok :: "u32 \<Rightarrow> u32 \<Rightarrow> bool" where "label_ok b n \<longleftrightarrow> b = 1 \<or> b = bin_index n"

definition layout :: "u32 \<Rightarrow> chunks \<Rightarrow> u32 \<Rightarrow> u32 \<Rightarrow> bool" where
  "layout B C T S \<longleftrightarrow>
     0 < unat B \<and> unat B \<le> unat T \<and> aligned8 T \<and> aligned8 S \<and> 16 \<le> unat S \<and> unat T + unat S < 2 ^ 31 \<and>
     (\<forall>p n u. C p = Some (n, u) \<longrightarrow> chunk_in B C T p n) \<and>
     (\<forall>p n u q m v. C p = Some (n, u) \<longrightarrow> C q = Some (m, v) \<longrightarrow> p \<noteq> q \<longrightarrow>
        unat p + unat n \<le> unat q \<or> unat q + unat m \<le> unat p) \<and>
     (\<forall>p n b. C p = Some (n, Binned b) \<longrightarrow>
        label_ok b n \<and> p + n \<noteq> T \<and> (\<forall>m c. C (p + n) \<noteq> Some (m, Binned c)))"

definition beside :: "u32 \<Rightarrow> u32 \<Rightarrow> u32 \<Rightarrow> u32 \<Rightarrow> bool" where
  "beside av B T S \<longleftrightarrow> unat av + 888 \<le> unat B \<or> unat T + unat S \<le> unat av \<and> unat av + 888 \<le> 2 ^ 32"

text \<open>The size of a chunk carries the flag of the chunk before it; of a loose chunk nothing is known.\<close>

fun head_form :: "use \<Rightarrow> u32 \<Rightarrow> u32 \<Rightarrow> bool" where
  "head_form (Binned b) h n \<longleftrightarrow> h = n"
| "head_form Loose h n \<longleftrightarrow> h = n \<or> h = n OR 1"
| "head_form Used h n \<longleftrightarrow> h = n OR 1"
| "head_form Quick h n \<longleftrightarrow> h = n OR 1"

definition flag_ok :: "chunks \<Rightarrow> words \<Rightarrow> u32 \<Rightarrow> u32 \<Rightarrow> bool" where
  "flag_ok C w x n \<longleftrightarrow> (if \<exists>u. before C x u then \<forall>u. before C x u \<longrightarrow> head_form u (w (x + 4)) n else w (x + 4) = n OR 1)"

definition sized :: "chunks \<Rightarrow> u32 \<Rightarrow> u32 \<Rightarrow> u32 \<Rightarrow> u32 \<Rightarrow> bool" where
  "sized C T S x n \<longleftrightarrow> (x = T \<and> n = S) \<or> (\<exists>u. u \<noteq> Loose \<and> C x = Some (n, u))"

definition heads :: "chunks \<Rightarrow> u32 \<Rightarrow> u32 \<Rightarrow> words \<Rightarrow> bool" where
  "heads C T S w \<longleftrightarrow> (\<forall>x n. sized C T S x n \<longrightarrow> flag_ok C w x n)"

definition feet :: "chunks \<Rightarrow> words \<Rightarrow> bool" where
  "feet C w \<longleftrightarrow> (\<forall>p n b. C p = Some (n, Binned b) \<longrightarrow> w (p + n) = n)"

text \<open>The rings of the bins, seen from each node: the header of the bin or one of its chunks.\<close>

definition label :: "u32 \<Rightarrow> bool" where "label b \<longleftrightarrow> 1 \<le> unat b \<and> unat b < 96"

definition node :: "u32 \<Rightarrow> chunks \<Rightarrow> u32 \<Rightarrow> u32 \<Rightarrow> bool" where
  "node av C b x \<longleftrightarrow> x = bin_at av b \<or> (\<exists>n. C x = Some (n, Binned b))"

definition rings :: "u32 \<Rightarrow> chunks \<Rightarrow> words \<Rightarrow> bool" where
  "rings av C w \<longleftrightarrow> (\<forall>b x. label b \<longrightarrow> node av C b x \<longrightarrow>
     node av C b (w (x + 8)) \<and> node av C b (w (x + 12)) \<and> w (w (x + 8) + 12) = x \<and> w (w (x + 12) + 8) = x)"

text \<open>The eight fast bins are lists of chunks of one size each.\<close>

fun linked :: "words \<Rightarrow> u32 \<Rightarrow> u32 list \<Rightarrow> bool" where
  "linked w x [] \<longleftrightarrow> x = 0"
| "linked w x (p # ps) \<longleftrightarrow> x = p \<and> linked w (w (p + 8)) ps"

definition quick_size :: "nat \<Rightarrow> u32" where "quick_size i = of_nat (8 * i + 16)"

definition quick_lists :: "u32 \<Rightarrow> chunks \<Rightarrow> (nat \<Rightarrow> u32 list) \<Rightarrow> words \<Rightarrow> bool" where
  "quick_lists av C F w \<longleftrightarrow> (\<forall>i<8. linked w (w (fastbins av (of_nat i))) (F i) \<and> distinct (F i) \<and>
     (\<forall>p \<in> set (F i). C p = Some (quick_size i, Quick)))"

definition params :: "u32 \<Rightarrow> words \<Rightarrow> bool" where
  "params av w \<longleftrightarrow> w (max_fast av) AND NOT 3 = 72 \<and> w (top_pad av) = 0 \<and> w (pagesize av) = 4096 \<and> contiguous av w \<and>
     w (binmap av 3) = 0"

definition heap_inv :: "u32 \<Rightarrow> u32 \<Rightarrow> chunks \<Rightarrow> (nat \<Rightarrow> u32 list) \<Rightarrow> u32 \<Rightarrow> u32 \<Rightarrow> words \<Rightarrow> bool" where
  "heap_inv av B C F T S w \<longleftrightarrow> layout B C T S \<and> beside av B T S \<and> heads C T S w \<and> feet C w \<and> rings av C w \<and>
     quick_lists av C F w \<and> params av w \<and> w (top_at av) = T"

text \<open>
  What is in use. The operations leave alone the words of the blocks in use, and those of the chunks in
  fast bins but where they take them out.
\<close>

definition used :: "chunks \<Rightarrow> u32 \<Rightarrow> u32 option" where
  "used C p = (case C p of Some (n, Used) \<Rightarrow> Some n | _ \<Rightarrow> None)"

definition solid :: "chunks \<Rightarrow> chunks" where
  "solid C p = (case C p of Some (n, u) \<Rightarrow> if u = Used \<or> u = Quick then Some (n, u) else None | None \<Rightarrow> None)"

definition own :: "u32 \<Rightarrow> u32 \<Rightarrow> u32 \<Rightarrow> bool" where
  "own p n a \<longleftrightarrow> unat p + 4 \<le> unat a \<and> unat a < unat p + unat n + 4"

definition payload :: "u32 \<Rightarrow> u32 \<Rightarrow> u32 \<Rightarrow> bool" where
  "payload p n a \<longleftrightarrow> unat p + 8 \<le> unat a \<and> unat a < unat p + unat n + 4"

definition leaves :: "chunks \<Rightarrow> words \<Rightarrow> words \<Rightarrow> bool" where
  "leaves D w w' \<longleftrightarrow> (\<forall>p n u a. D p = Some (n, u) \<longrightarrow> payload p n a \<longrightarrow> w' a = w a)"

definition tidy :: "chunks \<Rightarrow> bool" where "tidy C \<longleftrightarrow> (\<forall>p n. C p \<noteq> Some (n, Loose))"

section \<open>Addresses\<close>

lemma layout_facts:
  assumes "layout B C T S"
  shows "0 < unat B" and "unat B \<le> unat T" and "aligned8 T" and "aligned8 S" and "16 \<le> unat S" and "unat T + unat S < 2 ^ 31"
  using assms by (simp_all add: layout_def)

lemma chunk_facts:
  assumes "layout B C T S" and "C p = Some (n, u)"
  shows "unat B \<le> unat p" and "aligned8 p" and "aligned8 n" and "16 \<le> unat n" and "unat p + unat n \<le> unat T"
    and "p + n = T \<or> p + n \<in> dom C" and "unat (p + n) = unat p + unat n" and "unat p < 2 ^ 31"
proof -
  have c: "chunk_in B C T p n" using assms by (auto simp: layout_def)
  then show "unat B \<le> unat p" "aligned8 p" "aligned8 n" "16 \<le> unat n" "unat p + unat n \<le> unat T"
      "p + n = T \<or> p + n \<in> dom C" by (simp_all add: chunk_in_def)
  have "unat p + unat n < 2 ^ 31" using c layout_facts(6) [OF assms(1)] by (simp add: chunk_in_def)
  then show "unat (p + n) = unat p + unat n" "unat p < 2 ^ 31" by (simp_all add: unat_word_ariths)
qed

lemma chunks_apart:
  assumes "layout B C T S" and "C p = Some (n, u)" and "C q = Some (m, v)" and "p \<noteq> q"
  shows "unat p + unat n \<le> unat q \<or> unat q + unat m \<le> unat p"
  using assms unfolding layout_def by blast

lemma same_end:
  assumes "layout B C T S" and "C p = Some (n, u)" and "C q = Some (m, v)" and "p + n = q + m"
  shows "p = q"
proof (rule ccontr)
  assume "p \<noteq> q"
  then show False using chunks_apart [OF assms(1-3)] chunk_facts(4,7) [OF assms(1,2)] chunk_facts(4,7) [OF assms(1,3)] assms(4)
    by auto
qed

lemma not_self_end: "layout B C T S \<Longrightarrow> C p = Some (n, u) \<Longrightarrow> p + n \<noteq> p"
  using chunk_facts(4) by fastforce

text \<open>The places of chunks, the top chunk among them, are at least 16 apart.\<close>

definition site :: "chunks \<Rightarrow> u32 \<Rightarrow> u32 \<Rightarrow> bool" where "site C T x \<longleftrightarrow> x = T \<or> x \<in> dom C"

lemma places_apart:
  assumes "layout B C T S" and "site C T x" and "site C T y" and "x \<noteq> y"
  shows "unat x + 16 \<le> unat y \<or> unat y + 16 \<le> unat x"
proof -
  consider n u m v where "C x = Some (n, u)" "C y = Some (m, v)" | n u where "C x = Some (n, u)" "y = T"
    | m v where "C y = Some (m, v)" "x = T" using assms(2-4) by (auto simp: site_def)
  then show ?thesis
  proof cases
    case 1
    then show ?thesis using chunks_apart [OF assms(1) 1 assms(4)] chunk_facts(4) [OF assms(1) 1(1)] chunk_facts(4) [OF assms(1) 1(2)] by linarith
  next
    case 2
    then show ?thesis using chunk_facts(4,5) [OF assms(1) 2(1)] by simp
  next
    case 3
    then show ?thesis using chunk_facts(4,5) [OF assms(1) 3(1)] by simp
  qed
qed

lemma place_facts:
  assumes "layout B C T S" and "site C T x"
  shows "unat B \<le> unat x" and "unat x \<le> unat T" and "unat j < 16 \<Longrightarrow> unat (x + j) = unat x + unat j"
    and "aligned8 x" and "x \<noteq> 0"
proof -
  show b: "unat B \<le> unat x" and t: "unat x \<le> unat T" and "aligned8 x"
    using assms(2) chunk_facts(1,2) [OF assms(1)] add_leD1 [OF chunk_facts(5) [OF assms(1)]] layout_facts [OF assms(1)]
    by (auto simp: site_def)
  show "unat j < 16 \<Longrightarrow> unat (x + j) = unat x + unat j"
    using t layout_facts(6) [OF assms(1)] by (simp add: unat_word_ariths)
  show "x \<noteq> 0" using b layout_facts(1) [OF assms(1)] by auto
qed

lemma field_eq:
  assumes "layout B C T S" and "site C T x" and "site C T y" and "unat i < 16" and "unat j < 16"
  shows "x + i = y + j \<longleftrightarrow> x = y \<and> i = j"
proof
  assume e: "x + i = y + j"
  have "unat x + unat i = unat y + unat j"
    using arg_cong [OF e, of unat] place_facts(3) [OF assms(1,2,4)] place_facts(3) [OF assms(1,3,5)] by simp
  then have "x = y" using places_apart [OF assms(1-3)] assms(4,5) by fastforce
  then show "x = y \<and> i = j" using e by simp
qed simp

text \<open>The places in the allocator's own state, by their distance from \<open>av\<close>.\<close>

definition off :: "u32 \<Rightarrow> u32 \<Rightarrow> nat" where "off av a = unat (a - av)"

lemma off_add [simp]: "off av (av + k) = unat k" "off av av = 0"
  by (simp_all add: off_def)

lemma bin_at_eq: "bin_at av b = av + (44 + 8 * b)"
  by (simp add: bin_at_def bins_def push_bit_eq_mult algebra_simps)

lemma bin_fields [simp]: "label b \<Longrightarrow> off av (bin_at av b + 8) = 52 + 8 * unat b" "label b \<Longrightarrow> off av (bin_at av b + 12) = 56 + 8 * unat b"
  by (simp_all add: off_def bin_at_eq label_def unat_word_ariths)

lemma fastbins_off [simp]: "i < 8 \<Longrightarrow> off av (fastbins av (of_nat i)) = 4 + 4 * i"
  by (simp add: off_def fastbins_def unat_word_ariths unat_of_nat32)

lemma state_off [simp]:
  "off av (max_fast av) = 0" "off av (top_at av) = 44" "off av (last_remainder av) = 48" "off av (trim_threshold av) = 836"
  "off av (top_pad av) = 840" "off av (pagesize av) = 860" "off av (morecore_properties av) = 864"
  "off av (mmapped_mem av) = 868" "off av (sbrked_mem av) = 872" "off av (max_sbrked_mem av) = 876" "off av (max_total_mem av) = 884"
  by (simp_all add: off_def max_fast_def top_at_def last_remainder_def trim_threshold_def top_pad_def pagesize_def
    morecore_properties_def mmapped_mem_def sbrked_mem_def max_sbrked_mem_def max_total_mem_def)

lemma binmap_off [simp]: "unat b < 4 \<Longrightarrow> off av (binmap av b) = 820 + 4 * unat b"
  by (simp add: off_def binmap_def unat_word_ariths)

lemma bin_at_inj: "label b \<Longrightarrow> label c \<Longrightarrow> bin_at av b = bin_at av c \<Longrightarrow> b = c"
  by (metis bin_fields(1) add_left_cancel mult_cancel1 word_unat_eq_iff zero_neq_numeral)

lemma outside:
  assumes "layout B C T S" and "beside av B T S" and "unat B \<le> unat a" and "unat a < unat T + unat S"
  shows "888 \<le> off av a"
proof (cases "unat av + 888 \<le> unat B")
  case True
  then have "unat (a - av) = unat a - unat av" using assms(3) by (simp add: unat_sub word_le_nat_alt)
  then show ?thesis using True assms(3) by (simp add: off_def)
next
  case False
  then have h: "unat T + unat S \<le> unat av" "unat av + 888 \<le> 2 ^ 32" using assms(2) by (auto simp: beside_def)
  then have "unat (a - av) = 2 ^ 32 + unat a - unat av"
    using assms(4) by (simp add: unat_sub_if_size word_size)
  then show ?thesis using h by (simp add: off_def)
qed

lemma place_outside:
  assumes "layout B C T S" and "beside av B T S" and "site C T x" and "unat j < 16"
  shows "888 \<le> off av (x + j)"
  using outside [OF assms(1,2), of "x + j"] place_facts(1-3) [OF assms(1,3)] assms(4) layout_facts(5) [OF assms(1)] by simp

lemma own_outside:
  assumes "layout B C T S" and "beside av B T S" and "C p = Some (n, u)" and "own p n a"
  shows "888 \<le> off av a"
  using outside [OF assms(1,2), of a] chunk_facts(1,5) [OF assms(1,3)] assms(4) layout_facts(5) [OF assms(1)]
  by (simp add: own_def)

lemma off_neq: "off av a \<noteq> off av b \<Longrightarrow> a \<noteq> b"
  by auto

lemma own_apart:
  assumes "layout B C T S" and "C p = Some (n, u)" and "C q = Some (m, v)" and "own p n a" and "own q m a"
  shows "p = q"
  using chunks_apart [OF assms(1-3)] assms(4,5) by (force simp: own_def)

lemma own_fields:
  assumes "layout B C T S" and "C p = Some (n, u)"
  shows "own p n (p + 4)" and "own p n (p + 8)" and "own p n (p + 12)" and "own p n (p + n)"
    and "payload p n a \<Longrightarrow> own p n a" and "payload p n (p + 8)" and "payload p n (p + 12)" and "payload p n (p + n)" and "\<not> payload p n (p + 4)"
  using chunk_facts(4,7,8) [OF assms] by (auto simp: own_def payload_def unat_word_ariths)

lemma own_not_top: "layout B C T S \<Longrightarrow> C p = Some (n, u) \<Longrightarrow> \<not> own p n (T + 4)"
  using chunk_facts(5) [of B C T S p n u] layout_facts(6) [of B C T S] by (fastforce simp: own_def unat_word_ariths)

lemma place_simps: "site C T T" "C x = Some y \<Longrightarrow> site C T x" "sized C T S x m \<Longrightarrow> site C T x"
  by (auto simp: site_def sized_def)

lemma place_chunk: "C x = Some (n, u) \<Longrightarrow> site C T x"
  by (auto simp: site_def)

lemma top_not_chunk: "layout B C T S \<Longrightarrow> C T = None"
  using chunk_facts(4,5) by (cases "C T") fastforce+

lemma bin_field_off: "label b \<Longrightarrow> 60 \<le> off av (bin_at av b + 8) \<and> off av (bin_at av b + 8) < 820"
  "label b \<Longrightarrow> 60 \<le> off av (bin_at av b + 12) \<and> off av (bin_at av b + 12) < 820"
  by (auto simp: label_def)

lemma node_cases:
  assumes "node av C b x"
  obtains "x = bin_at av b" | n where "C x = Some (n, Binned b)"
  using assms by (auto simp: node_def)

text \<open>No field of a node is another field of a chunk, of a node or of the state.\<close>

lemma node_off:
  assumes "layout B C T S" and "beside av B T S" and "label b" and "node av C b x"
  shows "60 \<le> off av (x + 8) \<and> off av (x + 8) < 820 \<or> 888 \<le> off av (x + 8)"
    and "60 \<le> off av (x + 12) \<and> off av (x + 12) < 820 \<or> 888 \<le> off av (x + 12)"
  using assms(4)
  by (rule node_cases; use bin_field_off [OF assms(3), of av] place_outside [OF assms(1,2) place_simps(2)] in simp)+

lemma node_place:
  assumes "layout B C T S" and "beside av B T S" and "label b" and "node av C b y" and "site C T x" and "unat i < 16"
  shows "i \<noteq> 8 \<Longrightarrow> x + i \<noteq> y + 8" and "i \<noteq> 12 \<Longrightarrow> x + i \<noteq> y + 12"
proof -
  have out: "888 \<le> off av (x + i)" by (rule place_outside [OF assms(1,2,5,6)])
  show "i \<noteq> 8 \<Longrightarrow> x + i \<noteq> y + 8"
    using assms(4) by (rule node_cases) (use out bin_field_off [OF assms(3), of av]
      field_eq [OF assms(1,5) place_simps(2), of y _ i 8] assms(6) in auto)
  show "i \<noteq> 12 \<Longrightarrow> x + i \<noteq> y + 12"
    using assms(4) by (rule node_cases) (use out bin_field_off [OF assms(3), of av]
      field_eq [OF assms(1,5) place_simps(2), of y _ i 12] assms(6) in auto)
qed

lemma node_fields:
  assumes "layout B C T S" and "beside av B T S" and "label b" and "label c" and "node av C b x" and "node av C c y"
  shows "x + 8 \<noteq> y + 12" and "x = y \<Longrightarrow> b = c"
proof -
  show "x + 8 \<noteq> y + 12"
    using assms(5)
  proof (rule node_cases)
    assume x: "x = bin_at av b"
    show ?thesis
      using assms(6)
    proof (rule node_cases)
      assume "y = bin_at av c"
      then have "off av (y + 12) = 56 + 8 * unat c" using assms(4) by simp
      moreover have "off av (x + 8) = 52 + 8 * unat b" using x assms(3) by simp
      moreover have "52 + 8 * unat b \<noteq> 56 + 8 * unat c" by presburger
      ultimately show ?thesis by (intro off_neq [of av]) simp
    next
      fix n assume "C y = Some (n, Binned c)"
      then have "y + 12 \<noteq> x + 8" by (intro node_place(1) [OF assms(1,2,3,5) place_simps(2)]) simp_all
      then show ?thesis by (rule not_sym)
    qed
  next
    fix n assume "C x = Some (n, Binned b)"
    then show ?thesis using node_place(2) [OF assms(1,2,4,6) place_simps(2), of x _ 8] by simp
  qed
  show "b = c" if "x = y"
    using assms(5)
  proof (rule node_cases)
    assume x: "x = bin_at av b"
    show ?thesis
      using assms(6)
    proof (rule node_cases)
      assume "y = bin_at av c"
      then show ?thesis using bin_at_inj [OF assms(3,4)] x that by metis
    next
      fix n assume "C y = Some (n, Binned c)"
      then have "888 \<le> off av (y + 8)" using place_outside [OF assms(1,2) place_simps(2)] by simp
      then show ?thesis using x that bin_field_off(1) [OF assms(3), of av] by simp
    qed
  next
    fix n assume x: "C x = Some (n, Binned b)"
    show ?thesis
      using assms(6)
    proof (rule node_cases)
      assume "y = bin_at av c"
      moreover have "888 \<le> off av (x + 8)" using x place_outside [OF assms(1,2) place_simps(2)] by simp
      ultimately show ?thesis using that bin_field_off(1) [OF assms(4), of av] by simp
    next
      fix n assume "C y = Some (n, Binned c)"
      then show ?thesis using x that by simp
    qed
  qed
qed

section \<open>Writes that change nothing\<close>

text \<open>The words that no fact depends on: loose chunks, the blocks in use, and what only counts in the state.\<close>

definition spare :: "u32 \<Rightarrow> chunks \<Rightarrow> u32 \<Rightarrow> bool" where
  "spare av C a \<longleftrightarrow> (\<exists>p n. C p = Some (n, Loose) \<and> own p n a) \<or> (\<exists>p n. C p = Some (n, Used) \<and> payload p n a) \<or>
     off av a = 48 \<or> (820 \<le> off av a \<and> off av a < 832) \<or> (868 \<le> off av a \<and> off av a < 888)"

lemma head_ok_cong: "w' (x + 4) = w (x + 4) \<Longrightarrow> flag_ok C w' x n = flag_ok C w x n"
  by (simp add: flag_ok_def)

lemma linked_cong: "(\<And>p. p \<in> set ps \<Longrightarrow> w' (p + 8) = w (p + 8)) \<Longrightarrow> linked w' x ps = linked w x ps"
  by (induction ps arbitrary: x) auto

lemma spare_own:
  assumes "layout B C T S" and "beside av B T S" and "spare av C a" and "C x = Some (m, u)" and "own x m a"
  shows "u = Loose \<or> (u = Used \<and> payload x m a)"
proof -
  have "888 \<le> off av a" by (rule own_outside [OF assms(1,2,4,5)])
  then consider p n where "C p = Some (n, Loose)" "own p n a" | p n where "C p = Some (n, Used)" "payload p n a"
    using assms(3) by (auto simp: spare_def)
  then show ?thesis
  proof cases
    case 1
    then show ?thesis using own_apart [OF assms(1) 1(1) assms(4) 1(2) assms(5)] assms(4) by simp
  next
    case 2
    have "own p n a" using own_fields(5) [OF assms(1) 2(1)] 2(2) by simp
    then show ?thesis using own_apart [OF assms(1) 2(1) assms(4) _ assms(5)] assms(4) 2 by auto
  qed
qed

lemma spare_inside:
  assumes "layout B C T S" and "spare av C a"
  shows "off av a = 48 \<or> (820 \<le> off av a \<and> off av a < 832) \<or> (868 \<le> off av a \<and> off av a < 888) \<or> unat a < unat T + 4"
proof -
  have "own p n a \<Longrightarrow> C p = Some (n, u) \<Longrightarrow> unat a < unat T + 4" for p n u
    using chunk_facts(5) [OF assms(1)] by (fastforce simp: own_def)
  then show ?thesis using assms(2) own_fields(5) [OF assms(1)] by (fastforce simp: spare_def)
qed

lemma not_spare:
  assumes "layout B C T S" and "beside av B T S"
  shows "sized C T S x m \<Longrightarrow> \<not> spare av C (x + 4)"
    and "C x = Some (m, Binned b) \<Longrightarrow> \<not> spare av C (x + m)"
    and "label b \<Longrightarrow> node av C b x \<Longrightarrow> \<not> spare av C (x + 8)"
    and "label b \<Longrightarrow> node av C b x \<Longrightarrow> \<not> spare av C (x + 12)"
    and "C x = Some (m, Quick) \<Longrightarrow> \<not> spare av C (x + 8)"
    and "off av a < 888 \<Longrightarrow> off av a \<noteq> 48 \<Longrightarrow> off av a < 820 \<or> 832 \<le> off av a \<Longrightarrow> off av a < 868 \<Longrightarrow> \<not> spare av C a"
proof -
  show in_state: "off av a < 888 \<Longrightarrow> off av a \<noteq> 48 \<Longrightarrow> off av a < 820 \<or> 832 \<le> off av a \<Longrightarrow> off av a < 868 \<Longrightarrow> \<not> spare av C a" for a
    using own_outside [OF assms] own_fields(5) [OF assms(1)] by (fastforce simp: spare_def)
  show "\<not> spare av C (x + 4)" if s: "sized C T S x m"
  proof (cases "x = T")
    case True
    have "888 \<le> off av (T + 4)" by (rule place_outside [OF assms place_simps(1)]) simp
    moreover have "unat (T + 4) = unat T + 4" using place_facts(3) [OF assms(1) place_simps(1), of 4] by simp
    ultimately show ?thesis using spare_inside [OF assms(1), of av "T + 4"] True by auto
  next
    case False
    then obtain u where u: "C x = Some (m, u)" "u \<noteq> Loose" using s by (auto simp: sized_def)
    then show ?thesis using spare_own [OF assms _ u(1) own_fields(1) [OF assms(1) u(1)]] own_fields(9) [OF assms(1) u(1)] by blast
  qed
  show "\<not> spare av C (x + m)" if "C x = Some (m, Binned b)" for b
    using spare_own [OF assms _ that own_fields(4) [OF assms(1) that]] by blast
  show "\<not> spare av C (x + 8)" if "C x = Some (m, Quick)"
    using spare_own [OF assms _ that own_fields(2) [OF assms(1) that]] by blast
  show "\<not> spare av C (x + 8)" if "label b" "node av C b x" for b
    using that(2)
  proof (rule node_cases)
    fix n assume c: "C x = Some (n, Binned b)"
    show ?thesis using spare_own [OF assms _ c own_fields(2) [OF assms(1) c]] by blast
  qed (use in_state bin_field_off [OF that(1), of av] in auto)
  show "\<not> spare av C (x + 12)" if "label b" "node av C b x" for b
    using that(2)
  proof (rule node_cases)
    fix n assume c: "C x = Some (n, Binned b)"
    show ?thesis using spare_own [OF assms _ c own_fields(3) [OF assms(1) c]] by blast
  qed (use in_state bin_field_off [OF that(1), of av] in auto)
qed

lemma heap_invD:
  assumes "heap_inv av B C F T S w"
  shows "layout B C T S" and "beside av B T S" and "heads C T S w" and "feet C w" and "rings av C w" and "quick_lists av C F w"
    and "params av w" and "w (top_at av) = T"
  using assms by (simp_all add: heap_inv_def)

lemma heap_invI:
  "layout B C T S \<Longrightarrow> beside av B T S \<Longrightarrow> heads C T S w \<Longrightarrow> feet C w \<Longrightarrow> rings av C w \<Longrightarrow> quick_lists av C F w \<Longrightarrow>
   params av w \<Longrightarrow> w (top_at av) = T \<Longrightarrow> heap_inv av B C F T S w"
  by (simp add: heap_inv_def)

lemma spare_writes:
  assumes i: "heap_inv av B C F T S w" and same: "\<And>a. \<not> spare av C a \<Longrightarrow> w' a = w a"
  shows "heap_inv av B C F T S w'"
proof -
  note d = heap_invD [OF i]
  note n = not_spare [OF d(1,2)]
  have st: "w' a = w a" if "off av a < 888" "off av a \<noteq> 48" "off av a < 820 \<or> 832 \<le> off av a" "off av a < 868" for a
    using same n(6) that by blast
  have "heads C T S w'" using d(3) n(1) same by (auto simp: heads_def flag_ok_def)
  moreover have "feet C w'" using d(4) n(2) same by (auto simp: feet_def)
  moreover have "rings av C w'"
    unfolding rings_def
  proof (intro allI impI)
    fix b x assume b: "label b" "node av C b x"
    then have r: "node av C b (w (x + 8))" "node av C b (w (x + 12))" "w (w (x + 8) + 12) = x" "w (w (x + 12) + 8) = x"
      using d(5) by (auto simp: rings_def)
    show "node av C b (w' (x + 8)) \<and> node av C b (w' (x + 12)) \<and> w' (w' (x + 8) + 12) = x \<and> w' (w' (x + 12) + 8) = x"
      using r same n(3,4) [OF b(1)] b(2) by metis
  qed
  moreover have "quick_lists av C F w'"
    unfolding quick_lists_def
  proof (intro allI impI)
    fix j :: nat assume j: "j < 8"
    have l: "linked w (w (fastbins av (of_nat j))) (F j)" "distinct (F j)" "\<forall>p \<in> set (F j). C p = Some (quick_size j, Quick)"
      using d(6) j by (auto simp: quick_lists_def)
    have "w' (fastbins av (of_nat j)) = w (fastbins av (of_nat j))" using j by (intro st) simp_all
    moreover have "linked w' x (F j) = linked w x (F j)" for x
      using l(3) n(5) same by (intro linked_cong) blast
    ultimately show "linked w' (w' (fastbins av (of_nat j))) (F j) \<and> distinct (F j) \<and> (\<forall>p \<in> set (F j). C p = Some (quick_size j, Quick))"
      using l by simp
  qed
  moreover have "params av w'" using d(7) st by (simp add: params_def contiguous_def)
  moreover have "w' (top_at av) = T" using d(8) st by simp
  ultimately show ?thesis using d(1,2) by (simp add: heap_inv_def)
qed

section \<open>Changing the use of a chunk\<close>

lemma layout_retag:
  assumes l: "layout B C T S" and p: "C p = Some (n, v)"
    and binned: "\<And>b. v' = Binned b \<Longrightarrow> label_ok b n \<and> p + n \<noteq> T \<and> (\<forall>m c. C (p + n) \<noteq> Some (m, Binned c)) \<and> (\<forall>c. \<not> before C p (Binned c))"
  shows "layout B (C(p \<mapsto> (n, v'))) T S"
proof -
  have "chunk_in B (C(p \<mapsto> (n, v'))) T q m" if q: "(C(p \<mapsto> (n, v'))) q = Some (m, u)" for q m u
  proof -
    obtain u' where "C q = Some (m, u')" using q p by (auto split: if_splits)
    then have "chunk_in B C T q m" using l by (auto simp: layout_def)
    then show ?thesis by (auto simp: chunk_in_def)
  qed
  moreover have "unat q + unat m \<le> unat r \<or> unat r + unat k \<le> unat q"
    if qr: "(C(p \<mapsto> (n, v'))) q = Some (m, u)" "(C(p \<mapsto> (n, v'))) r = Some (k, u')" "q \<noteq> r" for q m u r k u'
  proof -
    obtain x y where "C q = Some (m, x)" "C r = Some (k, y)" using qr(1,2) p by (auto split: if_splits)
    then show ?thesis using chunks_apart [OF l] qr(3) by blast
  qed
  moreover have "label_ok b m \<and> q + m \<noteq> T \<and> (\<forall>k c. (C(p \<mapsto> (n, v'))) (q + m) \<noteq> Some (k, Binned c))"
    if q: "(C(p \<mapsto> (n, v'))) q = Some (m, Binned b)" for q m b
  proof (cases "q = p")
    case True
    then have "m = n" "v' = Binned b" using q by auto
    then show ?thesis using binned True not_self_end [OF l p] by auto
  next
    case False
    then have c: "C q = Some (m, Binned b)" using q by simp
    then have "label_ok b m" "q + m \<noteq> T" "\<forall>k c. C (q + m) \<noteq> Some (k, Binned c)" using l by (auto simp: layout_def)
    moreover have "\<forall>c. v' \<noteq> Binned c" if "q + m = p" using binned c that unfolding before_def by blast
    ultimately show ?thesis by auto
  qed
  ultimately show ?thesis using layout_facts [OF l] unfolding layout_def by blast
qed

lemma before_retag:
  assumes "layout B C T S" and "C p = Some (n, v)"
  shows "before (C(p \<mapsto> (n, v'))) x u \<longleftrightarrow> (if p + n = x then u = v' else before C x u)"
proof (cases "p + n = x")
  case True
  then show ?thesis using same_end [OF assms(1) _ assms(2)] by (auto simp: before_def split: if_splits)
next
  case False
  then have "(\<exists>m. (C(p \<mapsto> (n, v'))) q = Some (m, u) \<and> q + m = x) \<longleftrightarrow> (\<exists>m. C q = Some (m, u) \<and> q + m = x)" for q
    using assms(2) by auto
  then show ?thesis using False by (simp add: before_def)
qed

lemma before_only:
  "C q = Some (n, u) \<Longrightarrow> q + n = x \<Longrightarrow> (\<And>r k v. C r = Some (k, v) \<Longrightarrow> r + k = x \<Longrightarrow> v = u) \<Longrightarrow> before C x t \<longleftrightarrow> t = u"
  unfolding before_def by blast

lemma head_ok_retag:
  assumes "layout B C T S" and "C p = Some (n, v)"
  shows "flag_ok (C(p \<mapsto> (n, v'))) w x m \<longleftrightarrow> (if p + n = x then head_form v' (w (x + 4)) m else flag_ok C w x m)"
  unfolding flag_ok_def before_retag [OF assms] by auto

lemma head_ok_before: "layout B C T S \<Longrightarrow> C p = Some (n, v) \<Longrightarrow> flag_ok C w (p + n) m \<longleftrightarrow> head_form v (w (p + n + 4)) m"
  using head_ok_retag [of B C T S p n v v w "p + n" m] by (simp add: fun_upd_idem)

lemma head_ok_one:
  assumes "\<And>b. \<not> before C x (Binned b)" and "w (x + 4) = n OR 1"
  shows "flag_ok C w x n"
proof -
  have "head_form u (n OR 1) n" if "before C x u" for u using that assms(1) by (cases u) auto
  then show ?thesis using assms(2) by (simp add: flag_ok_def)
qed

lemma heads_retag:
  assumes l: "layout B C T S" and p: "C p = Some (n, v)" and h: "heads C T S w"
    and own: "v' \<noteq> Loose \<Longrightarrow> flag_ok C w p n" and nxt: "\<And>m. sized C T S (p + n) m \<Longrightarrow> head_form v' (w (p + n + 4)) m"
  shows "heads (C(p \<mapsto> (n, v'))) T S w"
  unfolding heads_def
proof (intro allI impI)
  fix x m assume x: "sized (C(p \<mapsto> (n, v'))) T S x m"
  show "flag_ok (C(p \<mapsto> (n, v'))) w x m"
  proof (cases "x = p")
    case True
    have "m = n \<and> v' \<noteq> Loose" using x True top_not_chunk [OF l] p by (auto simp: sized_def)
    then show ?thesis using own True not_self_end [OF l p] by (simp add: head_ok_retag [OF l p])
  next
    case False
    then have s: "sized C T S x m" using x by (auto simp: sized_def)
    then show ?thesis using nxt h by (auto simp: head_ok_retag [OF l p] heads_def)
  qed
qed

lemma feet_retag:
  assumes "feet C w" and "C p = Some (n, v)" and "\<And>b. v' = Binned b \<Longrightarrow> w (p + n) = n"
  shows "feet (C(p \<mapsto> (n, v'))) w"
  using assms by (auto simp: feet_def split: if_splits)

lemma lists_retag:
  assumes "quick_lists av C F w" and "C p = Some (n, v)" and "v = Quick \<Longrightarrow> v' = Quick"
  shows "quick_lists av (C(p \<mapsto> (n, v'))) F w"
  using assms by (auto simp: quick_lists_def)

lemma lists_chunks:
  "quick_lists av C F w \<Longrightarrow> (\<And>q m. C q = Some (m, Quick) \<Longrightarrow> C' q = Some (m, Quick)) \<Longrightarrow> quick_lists av C' F w"
  by (auto simp: quick_lists_def)

lemma rings_nodes: "rings av C w \<Longrightarrow> (\<And>b x. node av C' b x = node av C b x) \<Longrightarrow> rings av C' w"
  by (simp add: rings_def)

lemma feet_chunks: "feet C w \<Longrightarrow> (\<And>p n b. C' p = Some (n, Binned b) \<Longrightarrow> C p = Some (n, Binned b)) \<Longrightarrow> feet C' w"
  by (simp add: feet_def)

lemma rings_retag:
  assumes "rings av C w" and "C p = Some (n, v)" and "\<And>b. v \<noteq> Binned b" and "\<And>b. v' \<noteq> Binned b"
  shows "rings av (C(p \<mapsto> (n, v'))) w"
proof -
  have "node av (C(p \<mapsto> (n, v'))) b x \<longleftrightarrow> node av C b x" for b x using assms(2-4) by (auto simp: node_def)
  then show ?thesis using assms(1) by (simp add: rings_def)
qed

lemma headsD: "heads C T S w \<Longrightarrow> sized C T S x n \<Longrightarrow> flag_ok C w x n"
  by (simp add: heads_def)

lemma sized_chunk: "C p = Some (n, u) \<Longrightarrow> u \<noteq> Loose \<Longrightarrow> sized C T S p n"
  by (auto simp: sized_def)

text \<open>A chunk that was in use becomes loose.\<close>

lemma release:
  assumes i: "heap_inv av B C F T S w" and p: "C p = Some (n, Used)"
  shows "heap_inv av B (C(p \<mapsto> (n, Loose))) F T S w"
proof -
  note d = heap_invD [OF i]
  have "head_form Loose (w (p + n + 4)) m" if s: "sized C T S (p + n) m" for m
    using d(3) s head_ok_before [OF d(1) p] by (auto simp: heads_def)
  then show ?thesis
    unfolding heap_inv_def
    using layout_retag [OF d(1) p, of Loose] d(2) heads_retag [OF d(1) p d(3), of Loose] feet_retag [OF d(4) p, of Loose]
      rings_retag [OF d(5) p, of Loose] lists_retag [OF d(6) p, of Loose] d(7,8) by simp
qed

text \<open>A loose chunk is handed out: its own size has the right flag, and the next chunk says that it is in use.\<close>

lemma hand_out:
  assumes i: "heap_inv av B C F T S w" and p: "C p = Some (n, Loose)"
    and own: "flag_ok C w p n" and nxt: "\<And>m. sized C T S (p + n) m \<Longrightarrow> w (p + n + 4) = m OR 1"
  shows "heap_inv av B (C(p \<mapsto> (n, Used))) F T S w"
proof -
  note d = heap_invD [OF i]
  show ?thesis
    unfolding heap_inv_def
    using layout_retag [OF d(1) p, of Used] d(2) heads_retag [OF d(1) p d(3), of Used] own nxt feet_retag [OF d(4) p, of Used]
      rings_retag [OF d(5) p, of Used] lists_retag [OF d(6) p, of Used] d(7,8) by simp
qed

section \<open>Taking a chunk out of its bin\<close>

lemma label_chunk: "layout B C T S \<Longrightarrow> C p = Some (n, Binned b) \<Longrightarrow> label b"
proof -
  assume l: "layout B C T S" and p: "C p = Some (n, Binned b)"
  then have "label_ok b n" by (auto simp: layout_def)
  then show "label b" using bin_index_bounds [OF chunk_facts(4) [OF l p]] by (auto simp: label_ok_def label_def)
qed

lemma node_use:
  assumes "layout B C T S" and "beside av B T S" and "label b" and "node av C b x" and "C x = Some (n, u)"
  shows "u = Binned b"
  using assms(4)
proof (rule node_cases)
  assume "x = bin_at av b"
  then show ?thesis using bin_field_off(1) [OF assms(3), of av] place_outside [OF assms(1,2) place_chunk [where C = C, OF assms(5)], of 8] by simp
qed (use assms(5) in simp)

lemma header_not_chunk: "layout B C T S \<Longrightarrow> beside av B T S \<Longrightarrow> label b \<Longrightarrow> C (bin_at av b) = None"
proof (rule ccontr)
  assume l: "layout B C T S" "beside av B T S" and b: "label b" and "C (bin_at av b) \<noteq> None"
  then have "site C T (bin_at av b)" by (auto simp: site_def)
  then show False using place_outside [OF l, of "bin_at av b" 8] bin_field_off(1) [OF b, of av] by simp
qed

definition link_field :: "u32 \<Rightarrow> chunks \<Rightarrow> u32 \<Rightarrow> bool" where
  "link_field av C a \<longleftrightarrow> (\<exists>b x. label b \<and> node av C b x \<and> (a = x + 8 \<or> a = x + 12))"

lemma sized_field:
  assumes "layout B C T S" and "beside av B T S"
  shows "sized C T S x m \<Longrightarrow> \<not> link_field av C (x + 4)" and "C x = Some (m, u) \<Longrightarrow> \<not> link_field av C (x + m)"
    and "C x = Some (m, u) \<Longrightarrow> (\<And>b. u \<noteq> Binned b) \<Longrightarrow> \<not> link_field av C (x + 8)"
    and "off av a < 60 \<Longrightarrow> \<not> link_field av C a" and "820 \<le> off av a \<Longrightarrow> off av a < 888 \<Longrightarrow> \<not> link_field av C a"
proof -
  show "\<not> link_field av C (x + 4)" if "sized C T S x m"
    using node_place [OF assms _ _ place_simps(3) [OF that], of _ _ 4] by (auto simp: link_field_def)
  show "\<not> link_field av C (x + m)" if c: "C x = Some (m, u)"
  proof -
    have "site C T (x + m)" using chunk_facts(6) [OF assms(1) c] by (auto simp: site_def)
    then show ?thesis using node_place [OF assms _ _ _, of _ _ "x + m" 0] by (auto simp: link_field_def)
  qed
  show "\<not> link_field av C (x + 8)" if c: "C x = Some (m, u)" "\<And>b. u \<noteq> Binned b"
    using node_place(2) [OF assms _ _ place_chunk [where C = C, OF c(1)], of _ _ 8] node_use [OF assms _ _ c(1)] c(2)
    by (auto simp: link_field_def)
  show "off av a < 60 \<Longrightarrow> \<not> link_field av C a" "820 \<le> off av a \<Longrightarrow> off av a < 888 \<Longrightarrow> \<not> link_field av C a"
    using node_off [OF assms] by (fastforce simp: link_field_def)+
qed

lemma link_writes:
  assumes "layout B C T S" and "beside av B T S" and "heads C T S w" and "feet C w" and "quick_lists av C F w"
    and "params av w" and "w (top_at av) = T" and same: "\<And>a. \<not> link_field av C a \<Longrightarrow> \<not> spare av C a \<Longrightarrow> w' a = w a"
  shows "heads C T S w'" and "feet C w'" and "quick_lists av C F w'" and "params av w'" and "w' (top_at av) = T"
proof -
  note n = not_spare [OF assms(1,2)]
  note f = sized_field [OF assms(1,2)]
  have st: "w' a = w a" if "off av a < 888" "off av a \<noteq> 48" "off av a < 60 \<or> 832 \<le> off av a" "off av a < 868" for a
    using same [of a] n(6) [of a] f(4,5) [of a] that by fastforce
  show "heads C T S w'" using assms(3) n(1) f(1) same by (auto simp: heads_def flag_ok_def)
  show "feet C w'" using assms(4) n(2) f(2) same by (auto simp: feet_def)
  show "params av w'" using assms(6) st by (simp add: params_def contiguous_def)
  show "w' (top_at av) = T" using assms(7) st by simp
  show "quick_lists av C F w'"
    unfolding quick_lists_def
  proof (intro allI impI)
    fix j :: nat assume j: "j < 8"
    have l: "linked w (w (fastbins av (of_nat j))) (F j)" "distinct (F j)" "\<forall>p \<in> set (F j). C p = Some (quick_size j, Quick)"
      using assms(5) j by (auto simp: quick_lists_def)
    have "w' (fastbins av (of_nat j)) = w (fastbins av (of_nat j))" using j by (intro st) simp_all
    moreover have "w' (p + 8) = w (p + 8)" if "p \<in> set (F j)" for p
    proof -
      have q: "C p = Some (quick_size j, Quick)" using l(3) that by blast
      show ?thesis by (rule same [OF f(3) [OF q] n(5) [OF q]]) simp
    qed
    ultimately show "linked w' (w' (fastbins av (of_nat j))) (F j) \<and> distinct (F j) \<and> (\<forall>p \<in> set (F j). C p = Some (quick_size j, Quick))"
      using l linked_cong [of "F j" w' w] by simp
  qed
qed

lemma unlink_eq: "unlink p w = w(w (p + 8) + 12 := w (p + 12), w (p + 12) + 8 := w (p + 8))"
  by (simp add: unlink_def Let_def)

lemma ringD:
  assumes "rings av C w" and "label b" and "node av C b x"
  shows "node av C b (w (x + 8))" and "node av C b (w (x + 12))" and "w (w (x + 8) + 12) = x" and "w (w (x + 12) + 8) = x"
  using assms by (auto simp: rings_def)

lemma rings_unlink:
  assumes l: "layout B C T S" "beside av B T S" and r: "rings av C w" and p: "C p = Some (n, Binned b)"
  shows "rings av (C(p \<mapsto> (n, Loose))) (unlink p w)"
  unfolding rings_def
proof (intro allI impI)
  let ?C = "C(p \<mapsto> (n, Loose))" and ?w = "unlink p w" and ?F = "w (p + 8)" and ?B = "w (p + 12)"
  have b: "label b" by (rule label_chunk [OF l(1) p])
  have pn: "node av C b p" using p by (simp add: node_def)
  note rp = ringD [OF r b pn]
  have node': "node av ?C c y \<longleftrightarrow> node av C c y \<and> y \<noteq> p" if "label c" for c y
    using p node_use [OF l that _ p] header_not_chunk [OF l that] by (auto simp: node_def)
  fix c x assume c: "label c" and "node av ?C c x"
  then have x: "node av C c x" "x \<noteq> p" using node' by auto
  note rx = ringD [OF r c x(1)]
  have w8: "?w (y + 8) = (if y = ?B then ?F else w (y + 8))" if "node av C c y" for y
    using node_fields(1) [OF l c b that rp(1)] by (simp add: unlink_eq)
  have w12: "?w (y + 12) = (if y = ?F then ?B else w (y + 12))" if "node av C c y" for y
    using not_sym [OF node_fields(1) [OF l b c rp(2) that]] by (simp add: unlink_eq)
  have F: "w (x + 8) \<noteq> p" if "x \<noteq> ?B" using rx(3) that by metis
  have G: "w (x + 12) \<noteq> p" if "x \<noteq> ?F" using rx(4) that by metis
  have cb: "c = b" if "x = ?B \<or> x = ?F" using node_fields(2) [OF l c b x(1)] rp(1,2) that by blast
  have fp: "?F \<noteq> p" if "x = ?B" using rp(3) x(2) that by metis
  have bp: "?B \<noteq> p" if "x = ?F" using rp(4) x(2) that by metis
  have "node av ?C c (?w (x + 8)) \<and> ?w (?w (x + 8) + 12) = x"
  proof (cases "x = ?B")
    case True
    then have n: "node av C c ?F" using rp(1) cb by simp
    then show ?thesis using True fp node' [OF c] w8 [OF x(1)] w12 [OF n] by simp
  next
    case False
    have "w (x + 8) \<noteq> ?F" using rp(3) rx(3) x(2) by metis
    then show ?thesis using False F node' [OF c] w8 [OF x(1)] w12 [OF rx(1)] rx(1,3) by simp
  qed
  moreover have "node av ?C c (?w (x + 12)) \<and> ?w (?w (x + 12) + 8) = x"
  proof (cases "x = ?F")
    case True
    then have n: "node av C c ?B" using rp(2) cb by simp
    then show ?thesis using True bp node' [OF c] w12 [OF x(1)] w8 [OF n] by simp
  next
    case False
    have "w (x + 12) \<noteq> ?B" using rp(4) rx(4) x(2) by metis
    then show ?thesis using False G node' [OF c] w12 [OF x(1)] w8 [OF rx(2)] rx(2,4) by simp
  qed
  ultimately show "node av ?C c (?w (x + 8)) \<and> node av ?C c (?w (x + 12)) \<and> ?w (?w (x + 8) + 12) = x \<and> ?w (?w (x + 12) + 8) = x"
    by blast
qed

lemma unlink_same:
  assumes "layout B C T S" and "rings av C w" and "C p = Some (n, Binned b)" and "\<not> link_field av C a"
  shows "unlink p w a = w a"
proof -
  have b: "label b" "node av C b p" using label_chunk [OF assms(1,3)] assms(3) by (auto simp: node_def)
  note r = ringD [OF assms(2) b]
  have "a \<noteq> w (p + 8) + 12" "a \<noteq> w (p + 12) + 8" using assms(4) b(1) r(1,2) by (auto simp: link_field_def)
  then show ?thesis by (simp add: unlink_eq)
qed

lemma unlinked:
  assumes i: "heap_inv av B C F T S w" and p: "C p = Some (n, Binned b)"
  shows "heap_inv av B (C(p \<mapsto> (n, Loose))) F T S (unlink p w)"
proof -
  note d = heap_invD [OF i]
  note same = unlink_same [OF d(1,5) p]
  note lw = link_writes [OF d(1-4,6-8) same]
  have "head_form Loose (unlink p w (p + n + 4)) m" if s: "sized C T S (p + n) m" for m
    using lw(1) s head_ok_before [OF d(1) p] by (auto simp: heads_def)
  then show ?thesis
    unfolding heap_inv_def
    using layout_retag [OF d(1) p, of Loose] d(2) heads_retag [OF d(1) p lw(1), of Loose] feet_retag [OF lw(2) p, of Loose]
      rings_unlink [OF d(1,2,5) p] lists_retag [OF lw(3) p, of Loose] lw(4,5) by simp
qed

section \<open>Putting a chunk in a bin\<close>

lemma rings_link:
  assumes l: "layout B C T S" "beside av B T S" and r: "rings av C w" and p: "C p = Some (n, Loose)"
    and b: "label b" and x: "node av C b x" and y: "w (x + 8) = y"
    and w': "w' (p + 8) = y" "w' (p + 12) = x" "w' (y + 12) = p" "w' (x + 8) = p"
    and same: "\<And>a. \<not> spare av C a \<Longrightarrow> a \<noteq> y + 12 \<Longrightarrow> a \<noteq> x + 8 \<Longrightarrow> w' a = w a"
  shows "rings av (C(p \<mapsto> (n, Binned b))) w'"
  unfolding rings_def
proof (intro allI impI)
  let ?C = "C(p \<mapsto> (n, Binned b))"
  have yn: "node av C b y" and xy: "w (y + 12) = x" using ringD [OF r b x] y by auto
  have node': "node av ?C c z \<longleftrightarrow> node av C c z \<or> z = p \<and> c = b" if "label c" for c z
    using p node_use [OF l that _ p] by (auto simp: node_def)
  have w8: "w' (z + 8) = (if z = x then p else w (z + 8))" if "label c" "node av C c z" for c z
    using same [OF not_spare(3) [OF l that]] w'(4) node_fields(1) [OF l that(1) b that(2) yn] by auto
  have w12: "w' (z + 12) = (if z = y then p else w (z + 12))" if "label c" "node av C c z" for c z
    using same [OF not_spare(4) [OF l that]] w'(3) not_sym [OF node_fields(1) [OF l b that(1) x that(2)]] by auto
  fix c z assume c: "label c" and z: "node av ?C c z"
  show "node av ?C c (w' (z + 8)) \<and> node av ?C c (w' (z + 12)) \<and> w' (w' (z + 8) + 12) = z \<and> w' (w' (z + 12) + 8) = z"
  proof (cases "z = p")
    case True
    then have "c = b" using z p node_use [OF l c _ p] node' [OF c] by blast
    then show ?thesis using True w' x yn node' [OF b] by simp
  next
    case False
    then have zn: "node av C c z" using z node' [OF c] by blast
    note rz = ringD [OF r c zn]
    have cb: "c = b" if "z = x \<or> z = y" using node_fields(2) [OF l c b zn] x yn that by blast
    have "node av ?C c (w' (z + 8)) \<and> w' (w' (z + 8) + 12) = z"
    proof (cases "z = x")
      case True
      then show ?thesis using w'(2,4) cb node' [OF c] by simp
    next
      case False
      then have "w (z + 8) \<noteq> y" using rz(3) xy by metis
      then show ?thesis using False w8 [OF c zn] w12 [OF c rz(1)] rz(1,3) node' [OF c] by simp
    qed
    moreover have "node av ?C c (w' (z + 12)) \<and> w' (w' (z + 12) + 8) = z"
    proof (cases "z = y")
      case True
      then show ?thesis using w'(1,3) cb node' [OF c] by simp
    next
      case False
      then have "w (z + 12) \<noteq> x" using rz(4) y by metis
      then show ?thesis using False w12 [OF c zn] w8 [OF c rz(2)] rz(2,4) node' [OF c] by simp
    qed
    ultimately show ?thesis by blast
  qed
qed

lemma binned:
  assumes i: "heap_inv av B C F T S w" and p: "C p = Some (n, Loose)"
    and b: "label b" "label_ok b n" and x: "node av C b x" and y: "w (x + 8) = y"
    and w': "w' (p + 8) = y" "w' (p + 12) = x" "w' (y + 12) = p" "w' (x + 8) = p"
    and same: "\<And>a. \<not> spare av C a \<Longrightarrow> a \<noteq> y + 12 \<Longrightarrow> a \<noteq> x + 8 \<Longrightarrow> w' a = w a"
    and ends: "flag_ok C w' p n" "w' (p + n) = n" "\<And>c. \<not> before C p (Binned c)"
    and nxt: "p + n \<noteq> T" "\<And>m c. C (p + n) \<noteq> Some (m, Binned c)" "\<And>m. sized C T S (p + n) m \<Longrightarrow> w (p + n + 4) = m"
  shows "heap_inv av B (C(p \<mapsto> (n, Binned b))) F T S w'"
proof -
  note d = heap_invD [OF i]
  have "node av C b y" using ringD [OF d(5) b(1) x] y by auto
  then have "link_field av C (y + 12)" "link_field av C (x + 8)" using b(1) x by (auto simp: link_field_def)
  then have same': "w' a = w a" if "\<not> link_field av C a" "\<not> spare av C a" for a using same that by blast
  note lw = link_writes [OF d(1-4,6-8) same']
  have "head_form (Binned b) (w' (p + n + 4)) m" if s: "sized C T S (p + n) m" for m
    using nxt(3) [OF s] same' [OF sized_field(1) [OF d(1,2) s] not_spare(1) [OF d(1,2) s]] by simp
  then show ?thesis
    unfolding heap_inv_def
    using layout_retag [OF d(1) p, of "Binned b"] b nxt(1,2) ends d(2) heads_retag [OF d(1) p lw(1), of "Binned b"]
      feet_retag [OF lw(2) p, of "Binned b"]
      rings_link [OF d(1,2,5) p b(1) x y w' same] lists_retag [OF lw(3) p, of "Binned b"] lw(4,5) by simp
qed

section \<open>Merging and cutting\<close>

lemma merged_layout:
  assumes l: "layout B C T S" and p: "C p = Some (n, Loose)" and q: "C (p + n) = Some (m, Loose)"
  shows "layout B (C(p + n := None, p \<mapsto> (n + m, Loose))) T S"
    and "before (C(p + n := None, p \<mapsto> (n + m, Loose))) x u \<longleftrightarrow> (if x = p + n + m then u = Loose else before C x u \<and> x \<noteq> p + n)"
proof -
  let ?C = "C(p + n := None, p \<mapsto> (n + m, Loose))"
  note fp = chunk_facts [OF l p] and fq = chunk_facts [OF l q]
  have u: "unat (n + m) = unat n + unat m" using fp(7) fq(5,7) layout_facts(6) [OF l] by (simp add: unat_word_ariths)
  have pq: "p + n \<noteq> p" by (rule not_self_end [OF l p])
  have ne: "r + k \<noteq> p + n" if "C r = Some (k, v)" "r \<noteq> p" for r k v using same_end [OF l that(1) p] that(2) by blast
  have sp: "chunk_in B ?C T r k" if c: "C r = Some (k, v)" "r \<noteq> p" "r \<noteq> p + n" for r k v
    using chunk_facts(1-6) [OF l c(1)] ne [OF c(1,2)] by (auto simp: chunk_in_def)
  have new: "chunk_in B ?C T p (n + m)"
    using fp fq(3-6) u not_self_end [OF l q] by (auto simp: chunk_in_def aligned8_def add.assoc)
  have dis: "unat p + unat (n + m) \<le> unat r \<or> unat r + unat k \<le> unat p" if c: "C r = Some (k, v)" "r \<noteq> p" "r \<noteq> p + n" for r k v
    using chunks_apart [OF l p c(1)] chunks_apart [OF l q c(1)] c(2,3) fp(4,7) u chunk_facts(4) [OF l c(1)] by fastforce
  have bin: "label_ok b k \<and> r + k \<noteq> T \<and> (\<forall>m' c. C (r + k) \<noteq> Some (m', Binned c))" if "C r = Some (k, Binned b)" for r k b
    using l that unfolding layout_def by blast
  show "layout B ?C T S"
    unfolding layout_def
  proof (intro conjI allI impI)
    fix r k v assume "?C r = Some (k, v)"
    then show "chunk_in B ?C T r k" using sp new by (auto split: if_splits)
  next
    fix r k v r' k' v' assume c: "?C r = Some (k, v)" "?C r' = Some (k', v')" "r \<noteq> r'"
    then consider "r = p" "k = n + m" "C r' = Some (k', v')" "r' \<noteq> p" "r' \<noteq> p + n"
      | "r' = p" "k' = n + m" "C r = Some (k, v)" "r \<noteq> p" "r \<noteq> p + n" | "C r = Some (k, v)" "C r' = Some (k', v')"
      by (auto split: if_splits)
    then show "unat r + unat k \<le> unat r' \<or> unat r' + unat k' \<le> unat r"
    proof cases
      case 3
      then show ?thesis using chunks_apart [OF l] c(3) by blast
    qed (use dis in blast)+
  next
    fix r k b assume "?C r = Some (k, Binned b)"
    then have c: "C r = Some (k, Binned b)" by (auto split: if_splits)
    then show "label_ok b k" "r + k \<noteq> T" using bin by blast+
    fix m' c' show "?C (r + k) \<noteq> Some (m', Binned c')" using bin [OF c] by (auto split: if_splits)
  qed (use layout_facts [OF l] in auto)
  show "before ?C x u \<longleftrightarrow> (if x = p + n + m then u = Loose else before C x u \<and> x \<noteq> p + n)"
  proof (cases "x = p + n + m")
    case True
    have "?C p = Some (n + m, Loose)" "p + (n + m) = x" using True by (simp_all add: add.assoc)
    moreover have "v = Loose" if "?C r = Some (k, v)" "r + k = x" for r k v
      using that same_end [OF l _ q] True by (auto split: if_splits)
    ultimately have "before ?C x u \<longleftrightarrow> u = Loose" by (rule before_only)
    then show ?thesis using True by simp
  next
    case False
    have "(\<exists>k. ?C r = Some (k, u) \<and> r + k = x) \<longleftrightarrow> (\<exists>k. C r = Some (k, u) \<and> r + k = x) \<and> x \<noteq> p + n" for r
    proof (cases "r = p \<or> r = p + n")
      case True
      then show ?thesis using False p q pq by (auto simp: add.assoc)
    next
      case False
      then show ?thesis using ne by auto
    qed
    then show ?thesis using False by (simp add: before_def)
  qed
qed

lemma merged:
  assumes i: "heap_inv av B C F T S w" and p: "C p = Some (n, Loose)" and q: "C (p + n) = Some (m, Loose)"
  shows "heap_inv av B (C(p + n := None, p \<mapsto> (n + m, Loose))) F T S w"
proof -
  let ?C = "C(p + n := None, p \<mapsto> (n + m, Loose))"
  note d = heap_invD [OF i]
  note ml = merged_layout [OF d(1) p q]
  have hq: "flag_ok C w x k \<longleftrightarrow> head_form Loose (w (x + 4)) k" if "x = p + n + m" for x k
    using head_ok_before [OF d(1) q] that by simp
  have "heads ?C T S w"
    unfolding heads_def
  proof (intro allI impI)
    fix x k assume x: "sized ?C T S x k"
    then have s: "sized C T S x k" "x \<noteq> p + n"
      using top_not_chunk [OF d(1)] q by (auto simp: sized_def split: if_splits)
    then have h: "flag_ok C w x k" using d(3) by (auto simp: heads_def)
    show "flag_ok ?C w x k"
    proof (cases "x = p + n + m")
      case True
      then show ?thesis using h hq ml(2) by (simp add: flag_ok_def)
    next
      case False
      then show ?thesis using h s(2) ml(2) by (simp add: flag_ok_def)
    qed
  qed
  moreover have "feet ?C w" by (rule feet_chunks [OF d(4)]) (auto split: if_splits)
  moreover have "node av ?C b x \<longleftrightarrow> node av C b x" for b x using p q by (auto simp: node_def)
  then have "rings av ?C w" by (rule rings_nodes [OF d(5)])
  moreover have "quick_lists av ?C F w" by (rule lists_chunks [OF d(6)]) (use p q in auto)
  ultimately show ?thesis using ml(1) d(2,7,8) by (simp add: heap_inv_def)
qed

lemma cut_layout:
  assumes l: "layout B C T S" and p: "C p = Some (n, Loose)" and k: "aligned8 k" "16 \<le> unat k" "unat k + 16 \<le> unat n"
  shows "layout B (C(p \<mapsto> (k, Loose), p + k \<mapsto> (n - k, Loose))) T S"
    and "before (C(p \<mapsto> (k, Loose), p + k \<mapsto> (n - k, Loose))) x u \<longleftrightarrow> (if x = p + k \<or> x = p + n then u = Loose else before C x u)"
    and "C (p + k) = None" and "p + k \<noteq> T" and "p + k \<noteq> p + n" and "unat (p + k) = unat p + unat k" and "unat (n - k) = unat n - unat k"
proof -
  let ?C = "C(p \<mapsto> (k, Loose), p + k \<mapsto> (n - k, Loose))"
  note fp = chunk_facts [OF l p]
  show u: "unat (n - k) = unat n - unat k" using k(3) by (simp add: unat_sub word_le_nat_alt)
  show up: "unat (p + k) = unat p + unat k" using k(3) fp(5) layout_facts(6) [OF l] by (simp add: unat_word_ariths)
  have between: "unat p + unat k + 16 \<le> unat p + unat n" using k(3) by simp
  have in_p: "r = p" if "C r = Some (m, v)" "unat p \<le> unat r" "unat r < unat p + unat n" for r m v
    using chunks_apart [OF l p that(1)] chunk_facts(4) [OF l that(1)] that(2,3) by fastforce
  show new: "C (p + k) = None"
  proof (cases "C (p + k)")
    case (Some c)
    then have "p + k = p" using in_p [of "p + k" "fst c" "snd c"] up between by simp
    then show ?thesis using up k(2) by simp
  qed
  show "p + k \<noteq> T" using up fp(5) between by auto
  show pk: "p + k \<noteq> p + n" using k(3) by auto
  have pk0: "p + k \<noteq> p" using up k(2) by auto
  have ends: "r + m \<noteq> p + k" if c: "C r = Some (m, v)" for r m v
  proof
    assume e: "r + m = p + k"
    then have s: "unat r + unat m = unat p + unat k" using chunk_facts(7) [OF l c] up by simp
    show False
    proof (cases "r = p")
      case True
      then show ?thesis using s c p k(3) by auto
    next
      case False
      then show ?thesis using chunks_apart [OF l p c] s k chunk_facts(4) [OF l c] by fastforce
    qed
  qed
  have old: "unat r + unat m \<le> unat p \<or> unat p + unat n \<le> unat r" if "C r = Some (m, v)" "r \<noteq> p" for r m v
    using chunks_apart [OF l p that(1)] that(2) by blast
  have a2: "aligned8 (p + k)" "aligned8 (n - k)" using fp(2,3) k(1) u up by (simp_all add: aligned8_def)
  show "layout B ?C T S"
    unfolding layout_def
  proof (intro conjI allI impI)
    fix r m v assume c: "?C r = Some (m, v)"
    then consider "r = p" "m = k" | "r = p + k" "m = n - k" | "C r = Some (m, v)" "r \<noteq> p" by (auto split: if_splits)
    then show "chunk_in B ?C T r m"
    proof cases
      case 1
      then show ?thesis using fp k a2 by (simp add: chunk_in_def)
    next
      case 2
      then show ?thesis using fp k a2 u up by (auto simp: chunk_in_def)
    next
      case 3
      then show ?thesis using chunk_facts(1-6) [OF l 3(1)] by (auto simp: chunk_in_def)
    qed
  next
    fix r m v r' m' v' assume c: "?C r = Some (m, v)" "?C r' = Some (m', v')" "r \<noteq> r'"
    have h: "(x = p \<and> y = k) \<or> (x = p + k \<and> y = n - k) \<or> (C x = Some (y, z) \<and> x \<noteq> p)" if "?C x = Some (y, z)" for x y z
      using that by (auto split: if_splits)
    show "unat r + unat m \<le> unat r' \<or> unat r' + unat m' \<le> unat r"
      using h [OF c(1)] h [OF c(2)]
    proof (elim disjE conjE)
      assume "C r = Some (m, v)" "C r' = Some (m', v')"
      then show ?thesis using chunks_apart [OF l] c(3) by blast
    qed (use c(3) u up k old in \<open>fastforce+\<close>)
  next
    fix r m b assume "?C r = Some (m, Binned b)"
    then have c: "C r = Some (m, Binned b)" by (auto split: if_splits)
    then show "label_ok b m" "r + m \<noteq> T" using l unfolding layout_def by blast+
    fix m' c' show "?C (r + m) \<noteq> Some (m', Binned c')" using c l unfolding layout_def by (auto split: if_splits)
  qed (use layout_facts [OF l] in auto)
  show "before ?C x u \<longleftrightarrow> (if x = p + k \<or> x = p + n then u = Loose else before C x u)"
  proof (cases "x = p + k \<or> x = p + n")
    case True
    have "?C p = Some (k, Loose)" "?C (p + k) = Some (n - k, Loose)" "p + k + (n - k) = p + n" using pk0 by simp_all
    then obtain q m where q: "?C q = Some (m, Loose)" "q + m = x" using True by blast
    have "v = Loose" if "?C r = Some (m, v)" "r + m = x" for r m v
      using that same_end [OF l _ p] ends True p by (auto split: if_splits)
    then have "before ?C x u \<longleftrightarrow> u = Loose" by (rule before_only [where C = ?C, OF q])
    then show ?thesis using True by simp
  next
    case False
    have "(\<exists>m. ?C r = Some (m, u) \<and> r + m = x) \<longleftrightarrow> (\<exists>m. C r = Some (m, u) \<and> r + m = x)" for r
      using False p new pk0 by auto
    then show ?thesis using False by (simp add: before_def)
  qed
qed

lemma cut:
  assumes i: "heap_inv av B C F T S w" and p: "C p = Some (n, Loose)" and k: "aligned8 k" "16 \<le> unat k" "unat k + 16 \<le> unat n"
  shows "heap_inv av B (C(p \<mapsto> (k, Loose), p + k \<mapsto> (n - k, Loose))) F T S w"
proof -
  let ?C = "C(p \<mapsto> (k, Loose), p + k \<mapsto> (n - k, Loose))"
  note d = heap_invD [OF i]
  note cl = cut_layout [OF d(1) p k]
  have "heads ?C T S w"
    unfolding heads_def
  proof (intro allI impI)
    fix x m assume x: "sized ?C T S x m"
    then have s: "sized C T S x m" "x \<noteq> p + k" using cl(4) by (auto simp: sized_def split: if_splits)
    then have h: "flag_ok C w x m" using d(3) by (auto simp: heads_def)
    show "flag_ok ?C w x m"
    proof (cases "x = p + n")
      case True
      then have "head_form Loose (w (x + 4)) m" using h head_ok_before [OF d(1) p] by simp
      then show ?thesis using True cl(2) by (simp add: flag_ok_def)
    next
      case False
      then show ?thesis using h s(2) cl(2) by (simp add: flag_ok_def)
    qed
  qed
  moreover have "feet ?C w" by (rule feet_chunks [OF d(4)]) (auto split: if_splits)
  moreover have "node av ?C b x \<longleftrightarrow> node av C b x" for b x using p cl(3) by (auto simp: node_def)
  then have "rings av ?C w" by (rule rings_nodes [OF d(5)])
  moreover have "quick_lists av ?C F w" by (rule lists_chunks [OF d(6)]) (use p cl(3) in auto)
  ultimately show ?thesis using cl(1) d(2,7,8) by (simp add: heap_inv_def)
qed

section \<open>The top chunk\<close>

text \<open>Writes to the top chunk, to its place in the state or to what is spare leave every other chunk as it is.\<close>

definition topmost :: "u32 \<Rightarrow> chunks \<Rightarrow> u32 \<Rightarrow> u32 \<Rightarrow> u32 \<Rightarrow> bool" where
  "topmost av C T S a \<longleftrightarrow> spare av C a \<or> off av a = 44 \<or> (unat T + 4 \<le> unat a \<and> unat a < unat T + unat S)"

lemma topmost_writes:
  assumes i: "heap_inv av B C F T S w" and same: "\<forall>a. \<not> topmost av C T S a \<longrightarrow> w' a = w a"
  shows "feet C w'" and "rings av C w'" and "quick_lists av C F w'" and "params av w'"
    and "C p = Some (n, u) \<Longrightarrow> u \<noteq> Loose \<Longrightarrow> flag_ok C w' p n"
proof -
  note d = heap_invD [OF i]
  define v where "v = (\<lambda>a. if off av a = 44 \<or> unat T + 4 \<le> unat a \<and> unat a < unat T + unat S then w a else w' a)"
  have v: "heap_inv av B C F T S v"
    by (rule spare_writes [OF i]) (use same in \<open>auto simp: v_def topmost_def\<close>)
  note e = heap_invD [OF v]
  have in_state: "v a = w' a" if "off av a < 888" "off av a \<noteq> 44" for a
    using that outside [OF d(1,2), of a] layout_facts(2) [OF d(1)] by (auto simp: v_def)
  have in_chunk: "v a = w' a" if "own q m a" "C q = Some (m, x)" for a q m x
  proof -
    have "unat a < unat T + 4" using that chunk_facts(5) [OF d(1) that(2)] by (simp add: own_def)
    then show ?thesis using own_outside [OF d(1,2) that(2,1)] by (simp add: v_def)
  qed
  note own = own_fields [OF d(1)]
  show "feet C w'" using e(4) in_chunk own(4) by (fastforce simp: feet_def)
  have node: "v (x + 8) = w' (x + 8)" "v (x + 12) = w' (x + 12)" if "label b" "node av C b x" for b x
    using that(2)
    by (rule node_cases; use in_chunk own(2,3) in_state bin_field_off [OF that(1), of av] in fastforce)+
  show "rings av C w'"
    unfolding rings_def
  proof (intro allI impI)
    fix b x assume b: "label b" "node av C b x"
    note r = ringD [OF e(5) b]
    show "node av C b (w' (x + 8)) \<and> node av C b (w' (x + 12)) \<and> w' (w' (x + 8) + 12) = x \<and> w' (w' (x + 12) + 8) = x"
      using r node [OF b] node [OF b(1) r(1)] node [OF b(1) r(2)] by simp
  qed
  show "quick_lists av C F w'"
    unfolding quick_lists_def
  proof (intro allI impI)
    fix j :: nat assume j: "j < 8"
    have l: "linked v (v (fastbins av (of_nat j))) (F j)" "distinct (F j)" "\<forall>p \<in> set (F j). C p = Some (quick_size j, Quick)"
      using e(6) j by (auto simp: quick_lists_def)
    have "v (fastbins av (of_nat j)) = w' (fastbins av (of_nat j))" using j by (intro in_state) simp_all
    moreover have "linked v x (F j) = linked w' x (F j)" for x
      using l(3) in_chunk own(2) by (intro linked_cong) blast
    ultimately show "linked w' (w' (fastbins av (of_nat j))) (F j) \<and> distinct (F j) \<and> (\<forall>p \<in> set (F j). C p = Some (quick_size j, Quick))"
      using l by simp
  qed
  show "params av w'" using e(7) in_state by (simp add: params_def contiguous_def)
  show "flag_ok C w' p n" if c: "C p = Some (n, u)" "u \<noteq> Loose"
  proof -
    have "flag_ok C v p n" using e(3) c by (auto simp: heads_def sized_def)
    then show ?thesis using in_chunk [OF own(1) [OF c(1)] c(1)] head_ok_cong [of w' p v C n] by simp
  qed
qed

lemma top_fields:
  assumes "layout B C T S" and "beside av B T S"
  shows "topmost av C T S (T + 4)" and "topmost av C T S (top_at av)" and "888 \<le> off av (T + 4)"
    and "unat k + 16 \<le> unat S \<Longrightarrow> topmost av C T S (T + k + 4)" and "unat k + 16 \<le> unat S \<Longrightarrow> unat (T + k) = unat T + unat k"
    and "unat k + 16 \<le> unat S \<Longrightarrow> unat (T + k + 4) = unat T + unat k + 4"
proof -
  have u: "unat (T + 4) = unat T + 4" using layout_facts(6) [OF assms(1)] by (simp add: unat_word_ariths)
  then show "topmost av C T S (T + 4)" using layout_facts(5) [OF assms(1)] by (simp add: topmost_def)
  show "topmost av C T S (top_at av)" by (simp add: topmost_def)
  show "888 \<le> off av (T + 4)" by (rule place_outside [OF assms place_simps(1)]) simp
  show "unat (T + k) = unat T + unat k" "unat (T + k + 4) = unat T + unat k + 4" if "unat k + 16 \<le> unat S"
    using that layout_facts(6) [OF assms(1)] by (simp_all add: unat_word_ariths)
  then show "topmost av C T S (T + k + 4)" if "unat k + 16 \<le> unat S" using that by (simp add: topmost_def)
qed

text \<open>A block is cut from the bottom of the top chunk.\<close>

lemma top_cut:
  assumes i: "heap_inv av B C F T S w" and k: "aligned8 k" "16 \<le> unat k" "unat k + 16 \<le> unat S"
  shows "heap_inv av B (C(T \<mapsto> (k, Used))) F (T + k) (S - k) (w(top_at av := T + k, T + 4 := k OR 1, T + k + 4 := (S - k) OR 1))"
proof -
  let ?C = "C(T \<mapsto> (k, Used))"
  let ?w = "w(top_at av := T + k, T + 4 := k OR 1, T + k + 4 := (S - k) OR 1)"
  note d = heap_invD [OF i]
  note tf = top_fields [OF d(1,2)]
  note lf = layout_facts [OF d(1)]
  have nT: "C T = None" by (rule top_not_chunk [OF d(1)])
  have us: "unat (S - k) = unat S - unat k" using k(3) by (simp add: unat_sub word_le_nat_alt)
  have ut: "unat (T + k) = unat T + unat k" using tf(5) k(3) by simp
  have a: "aligned8 (T + k)" "aligned8 (S - k)" using lf(3,4) k(1) us ut by (simp_all add: aligned8_def)
  have nk: "T + k \<noteq> T" using ut k(2) by auto
  have lay: "layout B ?C (T + k) (S - k)"
    unfolding layout_def
  proof (intro conjI allI impI)
    fix p n u assume "?C p = Some (n, u)"
    then consider "p = T" "n = k" | "C p = Some (n, u)" by (auto split: if_splits)
    then show "chunk_in B ?C (T + k) p n"
    proof cases
      case 1
      then show ?thesis using lf k ut by (simp add: chunk_in_def)
    next
      case 2
      then show ?thesis using chunk_facts(1-6) [OF d(1) 2] ut by (auto simp: chunk_in_def)
    qed
  next
    fix p n u q m v assume c: "?C p = Some (n, u)" "?C q = Some (m, v)" "p \<noteq> q"
    then consider "p = T" "n = k" "C q = Some (m, v)" | "q = T" "m = k" "C p = Some (n, u)" | "C p = Some (n, u)" "C q = Some (m, v)"
      by (auto split: if_splits)
    then show "unat p + unat n \<le> unat q \<or> unat q + unat m \<le> unat p"
      by cases (use chunk_facts(5) [OF d(1)] chunks_apart [OF d(1)] c(3) in blast)+
  next
    fix p n b assume "?C p = Some (n, Binned b)"
    then have c: "C p = Some (n, Binned b)" by (auto split: if_splits)
    then show "label_ok b n" using d(1) unfolding layout_def by blast
    show "p + n \<noteq> T + k"
    proof
      assume "p + n = T + k"
      then show False using chunk_facts(5,7) [OF d(1) c] ut k(2) by simp
    qed
    fix m c' show "?C (p + n) \<noteq> Some (m, Binned c')" using c d(1) unfolding layout_def by auto
  qed (use lf ut us k a in auto)
  have same: "\<forall>x. \<not> topmost av C T S x \<longrightarrow> ?w x = w x"
    using tf(1,2) tf(4) [OF k(3)] by auto
  note tw = topmost_writes [OF i same]
  have bef: "before ?C x u \<longleftrightarrow> (if x = T + k then u = Used else before C x u)" for x u
  proof (cases "x = T + k")
    case True
    have "r + m \<noteq> T + k" if "C r = Some (m, v)" for r m v
      using chunk_facts(5,7) [OF d(1) that] ut k(2) by (metis add_leD1 add_le_cancel_left not_numeral_le_zero order.trans le_zero_eq)
    then have "v = Used" if "?C r = Some (m, v)" "r + m = x" for r m v using that True by (auto split: if_splits)
    then have "before ?C x u \<longleftrightarrow> u = Used" by (intro before_only [where C = ?C, of T k Used x]) (use True in auto)
    then show ?thesis using True by simp
  next
    case False
    then have "(\<exists>m. ?C r = Some (m, u) \<and> r + m = x) \<longleftrightarrow> (\<exists>m. C r = Some (m, u) \<and> r + m = x)" for r
      using nT by auto
    then show ?thesis using False by (simp add: before_def)
  qed
  have top_head: "before C T u \<Longrightarrow> head_form u (k OR 1) k" for u
  proof -
    assume "before C T u"
    then obtain r m where c: "C r = Some (m, u)" "r + m = T" by (auto simp: before_def)
    have "u \<noteq> Binned b" for b using c d(1) unfolding layout_def by blast
    then show ?thesis by (cases u) auto
  qed
  have "heads ?C (T + k) (S - k) ?w"
    unfolding heads_def
  proof (intro allI impI)
    fix x m assume x: "sized ?C (T + k) (S - k) x m"
    have "C (T + k) = None"
    proof (cases "C (T + k)")
      case (Some c)
      then show ?thesis using chunk_facts(5) [OF d(1), of "T + k" "fst c" "snd c"] ut k(2) by simp
    qed
    then consider "x = T + k" "m = S - k" | "x = T" "m = k" | u where "C x = Some (m, u)" "u \<noteq> Loose" "x \<noteq> T + k"
      using x by (cases "x = T + k"; cases "x = T") (auto simp: sized_def)
    then show "flag_ok ?C ?w x m"
    proof cases
      case 1
      then show ?thesis using bef by (simp add: flag_ok_def)
    next
      case 2
      then have "?w (x + 4) = k OR 1" using nk by simp
      then show ?thesis using 2 bef nk top_head by (simp add: flag_ok_def)
    next
      case 3
      then show ?thesis using tw(5) [OF 3(1,2)] bef by (simp add: flag_ok_def del: fun_upd_apply)
    qed
  qed
  moreover have "feet ?C ?w" by (rule feet_chunks [OF tw(1)]) (auto split: if_splits)
  moreover have "node av ?C b x \<longleftrightarrow> node av C b x" for b x using nT by (auto simp: node_def)
  then have "rings av ?C ?w" by (rule rings_nodes [OF tw(2)])
  moreover have "quick_lists av ?C F ?w" by (rule lists_chunks [OF tw(3)]) (use nT in auto)
  moreover have "?w (top_at av) = T + k"
  proof -
    have "888 \<le> off av (T + k + 4)"
      by (rule outside [OF d(1,2)]) (use tf(6) [OF k(3)] k(3) lf(2) in linarith)+
    then have "top_at av \<noteq> T + k + 4" "top_at av \<noteq> T + 4" using tf(3) by (auto intro!: off_neq [of av])
    then show ?thesis by simp
  qed
  moreover have "beside av B (T + k) (S - k)" using d(2) ut us k(3) by (simp add: beside_def)
  ultimately show ?thesis using lay tw(4) by (intro heap_invI)
qed

text \<open>A loose chunk below the top chunk is joined to it.\<close>

lemma top_join:
  assumes i: "heap_inv av B C F T S w" and p: "C p = Some (n, Loose)" "p + n = T" and prev: "\<And>b. \<not> before C p (Binned b)"
  shows "heap_inv av B (C(p := None)) F p (n + S) (w(p + 4 := (n + S) OR 1, top_at av := p))"
proof -
  let ?C = "C(p := None)" and ?w = "w(p + 4 := (n + S) OR 1, top_at av := p)"
  note d = heap_invD [OF i]
  note lf = layout_facts [OF d(1)] and pf = chunk_facts [OF d(1) p(1)]
  have un: "unat T = unat p + unat n" using pf(7) p(2) by simp
  then have us: "unat (n + S) = unat n + unat S" using lf(6) by (simp add: unat_word_ariths)
  have below: "unat r + unat m \<le> unat p" if c: "C r = Some (m, u)" "r \<noteq> p" for r m u
  proof -
    have "unat p + unat n \<le> unat r \<or> unat r + unat m \<le> unat p" using chunks_apart [OF d(1) p(1) c(1)] c(2) by blast
    then show ?thesis using chunk_facts(4,5) [OF d(1) c(1)] un by linarith
  qed
  have lay: "layout B ?C p (n + S)"
    unfolding layout_def
  proof (intro conjI allI impI)
    fix r m u assume c: "?C r = Some (m, u)"
    then have r: "C r = Some (m, u)" "r \<noteq> p" by (auto split: if_splits)
    have "r + m \<noteq> T" using same_end [OF d(1) r(1) p(1)] p(2) r(2) by auto
    then show "chunk_in B ?C p r m" using chunk_facts(1-6) [OF d(1) r(1)] below [OF r] by (auto simp: chunk_in_def)
  next
    fix r m u q k v assume "?C r = Some (m, u)" "?C q = Some (k, v)" "r \<noteq> q"
    then show "unat r + unat m \<le> unat q \<or> unat q + unat k \<le> unat r"
      using chunks_apart [OF d(1)] by (auto split: if_splits)
  next
    fix r m b assume "?C r = Some (m, Binned b)"
    then have c: "C r = Some (m, Binned b)" "r \<noteq> p" by (auto split: if_splits)
    then show "label_ok b m" using d(1) unfolding layout_def by blast
    show "r + m \<noteq> p" using prev c(1) by (auto simp: before_def)
    fix k c' show "?C (r + m) \<noteq> Some (k, Binned c')" using c d(1) unfolding layout_def by auto
  qed (use lf us pf un in \<open>auto simp: aligned8_def\<close>)
  have sp: "spare av C (p + 4)" using p(1) own_fields(1) [OF d(1) p(1)] by (auto simp: spare_def)
  have same: "\<forall>x. \<not> topmost av C T S x \<longrightarrow> ?w x = w x"
    using sp by (auto simp: topmost_def)
  note tw = topmost_writes [OF i same]
  have out: "888 \<le> off av (x + 4)" if "site C T x" for x by (rule place_outside [OF d(1,2) that]) simp
  have "heads ?C p (n + S) ?w"
    unfolding heads_def
  proof (intro allI impI)
    fix x m assume x: "sized ?C p (n + S) x m"
    have bef: "before ?C x u \<longleftrightarrow> before C x u" if "x \<noteq> T" for u
    proof -
      have "(\<exists>m. ?C r = Some (m, u) \<and> r + m = x) \<longleftrightarrow> (\<exists>m. C r = Some (m, u) \<and> r + m = x)" for r
        using that p by auto
      then show ?thesis by (simp add: before_def)
    qed
    consider "x = p" "m = n + S" | u where "C x = Some (m, u)" "u \<noteq> Loose" "x \<noteq> p"
      using x by (auto simp: sized_def split: if_splits)
    then show "flag_ok ?C ?w x m"
    proof cases
      case 1
      have "p + 4 \<noteq> top_at av" using out [OF place_chunk [where C = C, OF p(1)]] by (intro off_neq [of av]) simp
      then have "?w (x + 4) = m OR 1" using 1 by simp
      moreover have "head_form u (m OR 1) m" if "before C x u" for u using prev that 1 by (cases u) auto
      moreover have "x \<noteq> T" using 1 top_not_chunk [OF d(1)] p(1) by auto
      ultimately show ?thesis using bef by (simp add: flag_ok_def)
    next
      case 3: 2
      have "x \<noteq> T" using 3 top_not_chunk [OF d(1)] by auto
      then show ?thesis using tw(5) [OF 3(1,2)] bef by (simp add: flag_ok_def)
    qed
  qed
  moreover have "feet ?C ?w" by (rule feet_chunks [OF tw(1)]) (auto split: if_splits)
  moreover have "node av ?C b x \<longleftrightarrow> node av C b x" for b x using p by (auto simp: node_def)
  then have "rings av ?C ?w" by (rule rings_nodes [OF tw(2)])
  moreover have "quick_lists av ?C F ?w" by (rule lists_chunks [OF tw(3)]) (use p in auto)
  moreover have "beside av B p (n + S)" using d(2) un us by (simp add: beside_def add.assoc)
  moreover have "?w (top_at av) = p" by simp
  ultimately show ?thesis using lay tw(4) by (intro heap_invI)
qed

text \<open>The top chunk grows.\<close>

lemma top_grow:
  assumes i: "heap_inv av B C F T S w" and e: "aligned8 e" "unat T + unat S + unat e < 2 ^ 31" "beside av B T (S + e)"
  shows "heap_inv av B C F T (S + e) (w(T + 4 := (S + e) OR 1))"
proof -
  let ?w = "w(T + 4 := (S + e) OR 1)"
  note d = heap_invD [OF i]
  note lf = layout_facts [OF d(1)]
  note tf = top_fields [OF d(1,2)]
  have us: "unat (S + e) = unat S + unat e" using e(2) by (simp add: unat_word_ariths)
  have lay: "layout B C T (S + e)"
    using d(1) e us unfolding layout_def by (auto simp: aligned8_def)
  have same: "\<forall>x. \<not> topmost av C T S x \<longrightarrow> ?w x = w x"
    using tf(1) by auto
  note tw = topmost_writes [OF i same]
  have "heads C T (S + e) ?w"
    unfolding heads_def
  proof (intro allI impI)
    fix x m assume "sized C T (S + e) x m"
    then consider "x = T" "m = S + e" | u where "C x = Some (m, u)" "u \<noteq> Loose" by (auto simp: sized_def)
    then show "flag_ok C ?w x m"
    proof cases
      case 1
      have "head_form u (m OR 1) m" if b: "before C T u" for u
      proof -
        obtain r k where c: "C r = Some (k, u)" "r + k = T" using b by (auto simp: before_def)
        have "u \<noteq> Binned b" for b using c d(1) unfolding layout_def by blast
        then show ?thesis by (cases u) auto
      qed
      then show ?thesis using 1 by (simp add: flag_ok_def)
    next
      case 2
      then show ?thesis by (rule tw(5))
    qed
  qed
  moreover have "top_at av \<noteq> T + 4" using tf(3) by (intro off_neq [of av]) simp
  then have "?w (top_at av) = T" using d(8) by simp
  ultimately show ?thesis unfolding heap_inv_def using lay e(3) tw(1-4) by blast
qed

section \<open>The fast bins and the flags\<close>

lemma low_writes:
  assumes i: "heap_inv av B C F T S w" and same: "\<forall>a. \<not> spare av C a \<longrightarrow> 36 \<le> off av a \<longrightarrow> w' a = w a"
  shows "heads C T S w'" and "feet C w'" and "rings av C w'" and "w' (top_at av) = T"
    and "C p = Some (n, Quick) \<Longrightarrow> w' (p + 8) = w (p + 8)"
    and "off av a < 888 \<Longrightarrow> off av a \<noteq> 48 \<Longrightarrow> off av a < 820 \<or> 832 \<le> off av a \<Longrightarrow> off av a < 868 \<Longrightarrow> 36 \<le> off av a \<Longrightarrow> w' a = w a"
proof -
  note d = heap_invD [OF i]
  note n = not_spare [OF d(1,2)]
  show st: "w' a = w a" if "off av a < 888" "off av a \<noteq> 48" "off av a < 820 \<or> 832 \<le> off av a" "off av a < 868" "36 \<le> off av a" for a
    using same n(6) that by blast
  have high: "w' a = w a" if "\<not> spare av C a" "888 \<le> off av a" for a using same that by simp
  have h4: "w' (x + 4) = w (x + 4)" if "sized C T S x m" for x m
    using high [OF n(1) [OF that]] place_outside [OF d(1,2) place_simps(3) [OF that], of 4] by simp
  show "heads C T S w'" using d(3) h4 by (auto simp: heads_def flag_ok_def)
  have foot: "w' (x + m) = w (x + m)" if "C x = Some (m, Binned b)" for x m b
    using high [OF n(2) [OF that]] own_outside [OF d(1,2) that own_fields(4) [OF d(1) that]] .
  then show "feet C w'" using d(4) by (auto simp: feet_def)
  have nf: "w' (x + 8) = w (x + 8)" "w' (x + 12) = w (x + 12)" if "label b" "node av C b x" for b x
    using same n(3,4) [OF that] node_off [OF d(1,2) that] by auto
  show "rings av C w'"
    unfolding rings_def
  proof (intro allI impI)
    fix b x assume b: "label b" "node av C b x"
    note r = ringD [OF d(5) b]
    show "node av C b (w' (x + 8)) \<and> node av C b (w' (x + 12)) \<and> w' (w' (x + 8) + 12) = x \<and> w' (w' (x + 12) + 8) = x"
      using r nf [OF b] nf [OF b(1) r(1)] nf [OF b(1) r(2)] by simp
  qed
  show "w' (top_at av) = T" using d(8) st by simp
  show "w' (p + 8) = w (p + 8)" if c: "C p = Some (n, Quick)"
    using high [OF n(5) [OF c] own_outside [OF d(1,2) c own_fields(2) [OF d(1) c]]] .
qed

lemma lists_same:
  assumes "quick_lists av C F w" and "\<And>p n. C p = Some (n, Quick) \<Longrightarrow> w' (p + 8) = w (p + 8)"
    and "\<And>j. j < 8 \<Longrightarrow> w' (fastbins av (of_nat j)) = w (fastbins av (of_nat j))"
  shows "quick_lists av C F w'"
  unfolding quick_lists_def
proof (intro allI impI)
  fix j :: nat assume j: "j < 8"
  have l: "linked w (w (fastbins av (of_nat j))) (F j)" "distinct (F j)" "\<forall>p \<in> set (F j). C p = Some (quick_size j, Quick)"
    using assms(1) j by (auto simp: quick_lists_def)
  have "linked w' x (F j) = linked w x (F j)" for x using l(3) assms(2) by (intro linked_cong) blast
  then show "linked w' (w' (fastbins av (of_nat j))) (F j) \<and> distinct (F j) \<and> (\<forall>p \<in> set (F j). C p = Some (quick_size j, Quick))"
    using l assms(3) [OF j] by simp
qed

lemma params_same:
  "params av w \<Longrightarrow> w' (max_fast av) = w (max_fast av) \<Longrightarrow>
   (\<And>a. off av a < 888 \<Longrightarrow> off av a \<noteq> 48 \<Longrightarrow> off av a < 820 \<or> 832 \<le> off av a \<Longrightarrow> off av a < 868 \<Longrightarrow> 36 \<le> off av a \<Longrightarrow> w' a = w a) \<Longrightarrow>
   params av w'"
  by (simp add: params_def contiguous_def)

lemma set_flags:
  assumes i: "heap_inv av B C F T S w" and v: "v AND NOT 3 = 72"
  shows "heap_inv av B C F T S (w(max_fast av := v))"
proof -
  note d = heap_invD [OF i]
  let ?w = "w(max_fast av := v)"
  have other: "?w a = w a" if "off av a \<noteq> 0" for a using that by auto
  note lw = low_writes [OF i, of ?w]
  have same: "\<forall>a. \<not> spare av C a \<longrightarrow> 36 \<le> off av a \<longrightarrow> ?w a = w a" using other by auto
  have "quick_lists av C F ?w" by (rule lists_same [OF d(6)]) (use lw(5) [OF same] other in auto)
  moreover have "params av ?w" using d(7) v other by (simp add: params_def contiguous_def del: fun_upd_apply) simp
  ultimately show ?thesis using d(1,2) lw(1-4) [OF same] by (intro heap_invI)
qed

lemma quick_index:
  assumes "aligned8 n" and "16 \<le> unat n" and "n \<le> v" and "v AND NOT 3 = 72"
  defines "j \<equiv> unat n div 8 - 2"
  shows "j < 8" and "fastbin_index n = of_nat j" and "n = quick_size j"
proof -
  have "unat v div 4 * 4 = 72" using unat_and_not_mask [of v 2] assms(4) by (simp add: mask_eq_exp_minus_1)
  then have "unat n < 80" using assms(3) by (simp add: word_le_nat_alt)
  obtain k where k: "unat n = 8 * k" using assms(1) by (auto simp: aligned8_def)
  then have j: "j = k - 2" "2 \<le> k" "k < 10" using assms(2) \<open>unat n < 80\<close> by (simp_all add: j_def)
  then show "j < 8" by simp
  show "n = quick_size j" using k j by (simp add: quick_size_def word_unat_eq_iff unat_of_nat32 del: of_nat_add of_nat_mult)
  have "unat (fastbin_index n) = k - 2"
    using k j by (simp add: fastbin_index_def unat_sub word_le_nat_alt unat_shr)
  moreover have "unat (of_nat j :: u32) = j" by (rule unat_of_nat32) (use j in simp)
  ultimately show "fastbin_index n = of_nat j" using j(1) by (simp only: word_unat_eq_iff)
qed

lemma fastbins_inj: "i < 8 \<Longrightarrow> j < 8 \<Longrightarrow> fastbins av (of_nat i) = fastbins av (of_nat j) \<longleftrightarrow> i = j"
  by (metis add_left_cancel fastbins_off mult_cancel1 zero_neq_numeral)

text \<open>A freed block goes to the front of its fast bin.\<close>

lemma quick_push:
  assumes i: "heap_inv av B C F T S w" and p: "C p = Some (quick_size j, Used)" and j: "j < 8"
  shows "heap_inv av B (C(p \<mapsto> (quick_size j, Quick))) (F(j := p # F j)) T S
    (w(p + 8 := w (fastbins av (of_nat j)), fastbins av (of_nat j) := p))"
proof -
  let ?C = "C(p \<mapsto> (quick_size j, Quick))" and ?fb = "fastbins av (of_nat j)"
  let ?w = "w(p + 8 := w ?fb, ?fb := p)"
  note d = heap_invD [OF i]
  note own = own_fields [OF d(1) p]
  have sp: "spare av C (p + 8)" using p own(6) by (auto simp: spare_def)
  have fb: "off av ?fb = 4 + 4 * j" using j by simp
  have p8: "888 \<le> off av (p + 8)" by (rule own_outside [OF d(1,2) p own(2)])
  have same: "\<forall>a. \<not> spare av C a \<longrightarrow> 36 \<le> off av a \<longrightarrow> ?w a = w a" using sp fb j by auto
  note lw = low_writes [OF i same]
  have hp: "flag_ok C ?w p (quick_size j)" by (rule headsD [OF lw(1) sized_chunk [where C = C, OF p]]) simp
  have hn: "head_form Quick (?w (p + quick_size j + 4)) m" if "sized C T S (p + quick_size j) m" for m
    using headsD [OF lw(1) that] head_ok_before [OF d(1) p] by simp
  have "quick_lists av ?C (F(j := p # F j)) ?w"
    unfolding quick_lists_def
  proof (intro allI impI)
    fix k :: nat assume k: "k < 8"
    have l: "linked w (w (fastbins av (of_nat k))) (F k)" "distinct (F k)" "\<forall>q \<in> set (F k). C q = Some (quick_size k, Quick)"
      using d(6) k by (auto simp: quick_lists_def)
    have np: "p \<notin> set (F k)" using l(3) p by auto
    have lk: "linked ?w x (F k) = linked w x (F k)" for x using l(3) lw(5) by (intro linked_cong) blast
    have fk: "?w (fastbins av (of_nat k)) = (if k = j then p else w (fastbins av (of_nat k)))"
      using fastbins_inj [OF k j, of av] off_neq [of av "fastbins av (of_nat k)" "p + 8"] p8 fastbins_off [OF k, of av] k by simp
    have wp: "?w (p + 8) = w ?fb" using p8 fb j by auto
    show "linked ?w (?w (fastbins av (of_nat k))) ((F(j := p # F j)) k) \<and> distinct ((F(j := p # F j)) k) \<and>
      (\<forall>q \<in> set ((F(j := p # F j)) k). ?C q = Some (quick_size k, Quick))"
    proof (cases "k = j")
      case True
      then show ?thesis using l lk fk wp np by (simp del: fun_upd_apply add: fun_upd_same) auto
    next
      case False
      then have "\<forall>q \<in> set (F k). ?C q = Some (quick_size k, Quick)" using l(3) np by auto
      then show ?thesis using False l lk fk by (simp del: fun_upd_apply add: fun_upd_other)
    qed
  qed
  moreover have "max_fast av \<noteq> ?fb" "max_fast av \<noteq> p + 8" using fb p8 by (intro off_neq [of av]; simp)+
  then have "params av ?w" by (intro params_same [OF d(7) _ lw(6)]) simp_all
  moreover have "layout B ?C T S" by (rule layout_retag [OF d(1) p]) simp
  moreover have "heads ?C T S ?w" using heads_retag [OF d(1) p lw(1)] hp hn by blast
  moreover have "feet ?C ?w" by (rule feet_retag [OF lw(2) p]) simp
  moreover have "rings av ?C ?w" by (rule rings_retag [OF lw(3) p]) simp_all
  ultimately show ?thesis using d(2) lw(4) by (intro heap_invI)
qed

text \<open>The block at the front of a fast bin is handed out.\<close>

lemma quick_pop:
  assumes i: "heap_inv av B C F T S w" and j: "j < 8" and ne: "w (fastbins av (of_nat j)) \<noteq> 0"
  defines "p \<equiv> w (fastbins av (of_nat j))"
  shows "C p = Some (quick_size j, Quick)" and
    "heap_inv av B (C(p \<mapsto> (quick_size j, Used))) (F(j := tl (F j))) T S (w(fastbins av (of_nat j) := w (p + 8)))"
proof -
  let ?C = "C(p \<mapsto> (quick_size j, Used))" and ?fb = "fastbins av (of_nat j)"
  let ?w = "w(?fb := w (p + 8))"
  note d = heap_invD [OF i]
  have lj: "linked w (w ?fb) (F j)" "distinct (F j)" "\<forall>q \<in> set (F j). C q = Some (quick_size j, Quick)"
    using d(6) j by (auto simp: quick_lists_def)
  then obtain ps where ps: "F j = p # ps" "linked w (w (p + 8)) ps" using ne by (cases "F j") (auto simp: p_def)
  then show p: "C p = Some (quick_size j, Quick)" using lj(3) by simp
  have fb: "off av ?fb = 4 + 4 * j" using j by simp
  have same: "\<forall>a. \<not> spare av C a \<longrightarrow> 36 \<le> off av a \<longrightarrow> ?w a = w a" using fb j by auto
  note lw = low_writes [OF i same]
  have hp: "flag_ok C ?w p (quick_size j)" by (rule headsD [OF lw(1) sized_chunk [where C = C, OF p]]) simp
  have hn: "head_form Used (?w (p + quick_size j + 4)) m" if "sized C T S (p + quick_size j) m" for m
    using headsD [OF lw(1) that] head_ok_before [OF d(1) p] by simp
  have "quick_lists av ?C (F(j := tl (F j))) ?w"
    unfolding quick_lists_def
  proof (intro allI impI)
    fix k :: nat assume k: "k < 8"
    have l: "linked w (w (fastbins av (of_nat k))) (F k)" "distinct (F k)" "\<forall>q \<in> set (F k). C q = Some (quick_size k, Quick)"
      using d(6) k by (auto simp: quick_lists_def)
    have lk: "linked ?w x qs = linked w x qs" if "set qs \<subseteq> set (F k)" for x qs
      using l(3) lw(5) that by (intro linked_cong) blast
    have fk: "?w (fastbins av (of_nat k)) = (if k = j then w (p + 8) else w (fastbins av (of_nat k)))"
      using fastbins_inj [OF k j, of av] by simp
    have inj: "quick_size k = quick_size j \<Longrightarrow> k = j"
      using k j by (simp add: quick_size_def word_unat_eq_iff unat_of_nat32 del: of_nat_add of_nat_mult)
    have np: "k \<noteq> j \<Longrightarrow> p \<notin> set (F k)" using l(3) p inj by auto
    show "linked ?w (?w (fastbins av (of_nat k))) ((F(j := tl (F j))) k) \<and> distinct ((F(j := tl (F j))) k) \<and>
      (\<forall>q \<in> set ((F(j := tl (F j))) k). ?C q = Some (quick_size k, Quick))"
    proof (cases "k = j")
      case True
      then have "linked ?w (w (p + 8)) ps" using lk [of ps] ps by auto
      then show ?thesis using True l ps fk by (simp del: fun_upd_apply add: fun_upd_same) auto
    next
      case False
      then have "\<forall>q \<in> set (F k). ?C q = Some (quick_size k, Quick)" using l(3) np by auto
      then show ?thesis using False l lk [of "F k"] fk by (simp del: fun_upd_apply add: fun_upd_other)
    qed
  qed
  moreover have "max_fast av \<noteq> ?fb" using fb by (intro off_neq [of av]) simp
  then have "params av ?w" by (intro params_same [OF d(7) _ lw(6)]) simp_all
  moreover have "layout B ?C T S" by (rule layout_retag [OF d(1) p]) simp
  moreover have "heads ?C T S ?w" using heads_retag [OF d(1) p lw(1)] hp hn by blast
  moreover have "feet ?C ?w" by (rule feet_retag [OF lw(2) p]) simp
  moreover have "rings av ?C ?w" by (rule rings_retag [OF lw(3) p]) simp_all
  ultimately show "heap_inv av B ?C (F(j := tl (F j))) T S ?w" using d(2) lw(4) by (intro heap_invI)
qed

end
