(* ===== verification/MallocOps.thy ===== *)
theory MallocOps
  imports MallocHeap
begin

text \<open>
  The operations of the allocator keep the invariant of theory MallocHeap: \<open>malloc_consolidate\<close>, \<open>fREe\<close>,
  the search of the bins, the system's part and \<open>mALLOc\<close>. Each operation returns, leaves the words of the
  blocks in use alone and changes their table by the one block it is about.
\<close>

section \<open>Words that are left alone\<close>

lemma keeps_refl [simp]: "leaves D w w"
  by (simp add: leaves_def)

lemma keeps_trans: "leaves D w w' \<Longrightarrow> leaves D w' w'' \<Longrightarrow> leaves D w w''"
  by (simp add: leaves_def)

lemma keeps_less: "leaves D w w' \<Longrightarrow> (\<And>p n u. D' p = Some (n, u) \<Longrightarrow> D p = Some (n, u)) \<Longrightarrow> leaves D' w w'"
  unfolding leaves_def by blast

lemma solid_iff: "solid C p = Some (n, u) \<longleftrightarrow> C p = Some (n, u) \<and> (u = Used \<or> u = Quick)"
  by (auto simp: solid_def split: option.splits)

lemma used_iff: "used C p = Some n \<longleftrightarrow> C p = Some (n, Used)"
  by (auto simp: used_def split: option.splits use.splits)

lemma used_solid: "solid C = solid C' \<Longrightarrow> used C = used C'"
  by (intro ext option.expand; use used_iff solid_iff in \<open>metis option.exhaust_sel option.distinct(1)\<close>)

text \<open>An address that no block in use and no chunk in a fast bin has among its words.\<close>

definition harmless :: "u32 \<Rightarrow> chunks \<Rightarrow> u32 \<Rightarrow> u32 \<Rightarrow> bool" where
  "harmless av C T a \<longleftrightarrow> off av a < 888 \<or> (\<exists>x. site C T x \<and> a = x + 4) \<or>
     (\<exists>p n u. C p = Some (n, u) \<and> u \<noteq> Used \<and> u \<noteq> Quick \<and> own p n a) \<or> unat T + 4 \<le> unat a"

lemma harmless_payload:
  assumes "layout B C T S" and "beside av B T S" and "solid C p = Some (n, u)" and "payload p n a"
  shows "\<not> harmless av C T a"
proof -
  have c: "C p = Some (n, u)" "u = Used \<or> u = Quick" using assms(3) by (simp_all add: solid_iff)
  have o: "own p n a" using own_fields(5) [OF assms(1) c(1)] assms(4) by simp
  have "888 \<le> off av a" by (rule own_outside [OF assms(1,2) c(1) o])
  moreover have "unat a < unat T + 4" using o chunk_facts(5) [OF assms(1) c(1)] by (simp add: own_def)
  moreover have "q = p" if "C q = Some (m, v)" "own q m a" for q m v using own_apart [OF assms(1) that(1) c(1) that(2) o] .
  moreover have "a \<noteq> x + 4" if x: "site C T x" for x
  proof
    assume a: "a = x + 4"
    then have ua: "unat a = unat x + 4" using place_facts(3) [OF assms(1) x, of 4] by simp
    show False
    proof (cases "x = T")
      case True
      then show ?thesis using ua \<open>unat a < unat T + 4\<close> by simp
    next
      case False
      then obtain m v where x: "C x = Some (m, v)" using x by (auto simp: site_def)
      then have "x = p" using own_apart [OF assms(1) x c(1) own_fields(1) [OF assms(1) x]] o a by simp
      then show ?thesis using assms(4) own_fields(9) [OF assms(1) c(1)] a by simp
    qed
  qed
  ultimately show ?thesis using c unfolding harmless_def by (metis not_le option.inject prod.inject)
qed

lemma keepsI:
  assumes "layout B C T S" and "beside av B T S" and "\<And>a. \<not> harmless av C T a \<Longrightarrow> w' a = w a"
  shows "leaves (solid C) w w'"
  unfolding leaves_def using harmless_payload [OF assms(1,2)] assms(3) by blast

lemma link_harmless: "layout B C T S \<Longrightarrow> link_field av C a \<Longrightarrow> harmless av C T a"
proof -
  assume l: "layout B C T S" and "link_field av C a"
  then obtain b x where b: "label b" "node av C b x" "a = x + 8 \<or> a = x + 12" by (auto simp: link_field_def)
  show ?thesis
    using b(2)
  proof (rule node_cases)
    assume "x = bin_at av b"
    then show ?thesis using b(1,3) bin_field_off [OF b(1), of av] by (auto simp: harmless_def)
  next
    fix n assume c: "C x = Some (n, Binned b)"
    then show ?thesis using b(3) own_fields(2,3) [OF l c] by (fastforce simp: harmless_def)
  qed
qed

lemma own_harmless: "C p = Some (n, u) \<Longrightarrow> u \<noteq> Used \<Longrightarrow> u \<noteq> Quick \<Longrightarrow> own p n a \<Longrightarrow> harmless av C T a"
  by (auto simp: harmless_def)

lemma unlink_keeps:
  assumes "heap_inv av B C F T S w" and "C p = Some (n, Binned b)"
  shows "leaves (solid C) w (unlink p w)" and "solid (C(p \<mapsto> (n, Loose))) = solid C"
    and "unlink p w (max_fast av) = w (max_fast av)"
proof -
  note d = heap_invD [OF assms(1)]
  show "unlink p w (max_fast av) = w (max_fast av)"
    by (rule unlink_same [OF d(1,5) assms(2) sized_field(4) [OF d(1,2)]]) simp
  show "leaves (solid C) w (unlink p w)"
    by (rule keepsI [OF d(1,2)]) (use unlink_same [OF d(1,5) assms(2)] link_harmless [OF d(1)] in blast)
  show "solid (C(p \<mapsto> (n, Loose))) = solid C" using assms(2) by (auto simp: solid_def fun_eq_iff)
qed

section \<open>Giving a chunk back\<close>

text \<open>The size of the chunk after a loose one may be written with either flag.\<close>

lemma next_head:
  assumes i: "heap_inv av B C F T S w" and p: "C p = Some (n, Loose)" and q: "sized C T S (p + n) m" and v: "v = m \<or> v = m OR 1"
  shows "heap_inv av B C F T S (w(p + n + 4 := v))" and "leaves (solid C) w (w(p + n + 4 := v))"
    and "(w(p + n + 4 := v)) (max_fast av) = w (max_fast av)"
proof -
  note d = heap_invD [OF i]
  let ?q = "p + n" and ?w = "w(p + n + 4 := v)"
  have pq: "site C T ?q" by (rule place_simps(3) [OF q])
  have o: "888 \<le> off av (?q + 4)" by (rule place_outside [OF d(1,2) pq]) simp
  have st: "?w a = w a" if "off av a < 888" for a using that o by auto
  show "?w (max_fast av) = w (max_fast av)" by (rule st) simp
  have fld: "?w (x + j) = w (x + j)" if "site C T x" "unat j < 16" "j \<noteq> 4 \<or> x \<noteq> ?q" for x j
    using field_eq [OF d(1) that(1) pq that(2), of 4] that(3) by auto
  have "heads C T S ?w"
    unfolding heads_def
  proof (intro allI impI)
    fix x k assume x: "sized C T S x k"
    show "flag_ok C ?w x k"
    proof (cases "x = ?q")
      case True
      then have "k = m" using x q top_not_chunk [OF d(1)] by (auto simp: sized_def)
      then show ?thesis using True v head_ok_before [OF d(1) p] by simp
    next
      case False
      then have "?w (x + 4) = w (x + 4)" using fld [OF place_simps(3) [OF x], of 4] by simp
      then show ?thesis using headsD [OF d(3) x] head_ok_cong [of ?w x w C k] by simp
    qed
  qed
  moreover have "feet C ?w"
    unfolding feet_def
  proof (intro allI impI)
    fix x k b assume c: "C x = Some (k, Binned b)"
    then have "site C T (x + k)" using chunk_facts(6) [OF d(1) c] by (auto simp: site_def)
    then show "?w (x + k) = k" using fld [of "x + k" 0] d(4) c by (simp add: feet_def)
  qed
  moreover have nf: "?w (x + 8) = w (x + 8)" "?w (x + 12) = w (x + 12)" if "label b" "node av C b x" for b x
    using node_place [OF d(1,2) that pq, of 4] by auto
  then have "rings av C ?w"
    unfolding rings_def
  proof (intro allI impI)
    fix b x assume b: "label b" "node av C b x"
    note r = ringD [OF d(5) b]
    show "node av C b (?w (x + 8)) \<and> node av C b (?w (x + 12)) \<and> ?w (?w (x + 8) + 12) = x \<and> ?w (?w (x + 12) + 8) = x"
      using r nf [OF b] nf [OF b(1) r(1)] nf [OF b(1) r(2)] by (simp only:)
  qed
  moreover have "quick_lists av C F ?w"
  proof (rule lists_same [OF d(6)])
    fix x k assume c: "C x = Some (k, Quick)"
    show "?w (x + 8) = w (x + 8)" by (rule fld [OF place_chunk [where C = C, OF c]]) simp_all
  qed (rule st, simp)
  moreover have "params av ?w" by (rule params_same [OF d(7)]) (rule st, simp)+
  moreover have "?w (top_at av) = T" using st [of "top_at av"] d(8) by simp
  ultimately show "heap_inv av B C F T S ?w" using d(1,2) by (intro heap_invI)
  show "leaves (solid C) w ?w"
    by (rule keepsI [OF d(1,2)]) (use pq in \<open>auto simp: harmless_def\<close>)
qed

lemma head_size:
  assumes "layout B C T S" and "heads C T S w" and "sized C T S x m"
  shows "chunksize x w = m" and "aligned8 m" and "w (x + 4) = m \<or> w (x + 4) = m OR 1"
proof -
  show a: "aligned8 m" using assms(3) chunk_facts(3) [OF assms(1)] layout_facts(4) [OF assms(1)] by (auto simp: sized_def)
  have "flag_ok C w x m" by (rule headsD [OF assms(2,3)])
  then show h: "w (x + 4) = m \<or> w (x + 4) = m OR 1"
    by (auto simp: flag_ok_def split: if_split_asm) (metis head_form.simps use.exhaust)
  show "chunksize x w = m" using h flag_bits(1,2) [OF a] by (auto simp: chunksize_def)
qed

text \<open>The flag in the size of a chunk, when only the chunk before it may be loose.\<close>

lemma flag_clear:
  assumes "flag_ok C w x m" and "aligned8 m" and "\<not> before C x Loose"
  shows "w (x + 4) AND 1 = 0 \<longleftrightarrow> (\<exists>b. before C x (Binned b))" and "w (x + 4) AND NOT 1 = m" and "w (x + 4) AND 2 = 0"
proof -
  note f = flag_bits [OF assms(2)]
  have "(\<exists>b. before C x (Binned b)) \<and> w (x + 4) = m \<or> (\<nexists>b. before C x (Binned b)) \<and> w (x + 4) = m OR 1"
  proof (cases "\<exists>u. before C x u")
    case True
    then obtain u where u: "before C x u" by blast
    then have h: "head_form v (w (x + 4)) m" if "before C x v" for v using assms(1) that by (auto simp: flag_ok_def split: if_split_asm)
    show ?thesis
    proof (cases "\<exists>b. before C x (Binned b)")
      case True
      then show ?thesis using h by fastforce
    next
      case False
      then have "u = Used \<or> u = Quick" using u assms(3) by (cases u) auto
      then show ?thesis using h [OF u] False by auto
    qed
  qed (use assms(1) in \<open>auto simp: flag_ok_def\<close>)
  then show "w (x + 4) AND 1 = 0 \<longleftrightarrow> (\<exists>b. before C x (Binned b))" "w (x + 4) AND NOT 1 = m" "w (x + 4) AND 2 = 0"
    using f by auto
qed

lemma before_end: "layout B C T S \<Longrightarrow> C q = Some (m, u) \<Longrightarrow> before C (q + m) v \<longleftrightarrow> v = u"
  using before_retag [of B C T S q m u u "q + m" v] by (simp add: fun_upd_idem)

text \<open>While a chunk is given back it is the only loose one, and no chunk of a bin is before it.\<close>

definition single :: "chunks \<Rightarrow> u32 \<Rightarrow> u32 \<Rightarrow> bool" where
  "single C p n \<longleftrightarrow> C p = Some (n, Loose) \<and> (\<forall>q m. C q = Some (m, Loose) \<longrightarrow> q = p)"

lemma single_before: "layout B C T S \<Longrightarrow> single C p n \<Longrightarrow> \<not> before C p Loose"
  unfolding single_def before_def by (metis not_self_end)

lemma no_binned_neighbours:
  "layout B C T S \<Longrightarrow> C q = Some (k, Binned b) \<Longrightarrow> \<not> before C q (Binned c)"
  "layout B C T S \<Longrightarrow> C q = Some (k, Binned b) \<Longrightarrow> C (q + k) \<noteq> Some (m, Binned c)"
  "layout B C T S \<Longrightarrow> C q = Some (k, Binned b) \<Longrightarrow> q + k \<noteq> T"
  unfolding layout_def before_def by blast+

lemma back_merge:
  assumes i: "heap_inv av B C F T S w" and s: "single C p n" and h: "flag_ok C w p n"
  obtains C' p' n' w' where
    "consolidate_backward p n w = (p', n', w')"
    and "heap_inv av B C' F T S w'" and "single C' p' n'" and "p' + n' = p + n" and "\<And>b. \<not> before C' p' (Binned b)"
    and "solid C' = solid C" and "leaves (solid C) w w'" and "C' (p + n) = C (p + n)"
    and "w' (max_fast av) = w (max_fast av)"
proof -
  note d = heap_invD [OF i]
  have p: "C p = Some (n, Loose)" using s by (simp add: single_def)
  note fl = flag_clear [OF h chunk_facts(3) [OF d(1) p] single_before [OF d(1) s]]
  show ?thesis
  proof (cases "prev_inuse p w")
    case True
    then have "\<not> before C p (Binned b)" for b using fl(1) by (auto simp: prev_inuse_def)
    then show ?thesis using that [of p n w C] True i s by (simp add: consolidate_backward_def)
  next
    case False
    then obtain b q k where q: "C q = Some (k, Binned b)" "q + k = p" using fl(1) by (auto simp: prev_inuse_def before_def)
    have wp: "w p = k" using d(4) q by (auto simp: feet_def)
    let ?C1 = "C(q \<mapsto> (k, Loose))"
    let ?C2 = "?C1(q + k := None, q \<mapsto> (k + n, Loose))"
    have pq: "p \<noteq> q" using p q(1) by auto
    have "heap_inv av B ?C2 F T S (unlink q w)"
      by (rule merged [OF unlinked [OF i q(1)]]) (use p q pq in auto)
    moreover have "single ?C2 q (n + k)" using s q pq by (auto simp: single_def add.commute)
    moreover have "\<not> before ?C2 q (Binned c)" for c
      using no_binned_neighbours(1) [OF d(1) q(1), of c] q(1) by (auto simp: before_def split: if_splits)
    moreover have "solid ?C2 = solid C" using p q pq by (auto simp: solid_def fun_eq_iff)
    moreover have "leaves (solid C) w (unlink q w)" by (rule unlink_keeps(1) [OF i q(1)])
    moreover have "unlink q w (max_fast av) = w (max_fast av)" by (rule unlink_keeps(3) [OF i q(1)])
    moreover have "q + (n + k) = p + n" using q(2) by (simp add: algebra_simps)
    moreover have "p - k = q" using q(2) by (simp add: algebra_simps)
    moreover have "?C2 (p + n) = C (p + n)"
    proof -
      have "unat (p + n) = unat q + unat k + unat n" using chunk_facts(7) [OF d(1) p] chunk_facts(7) [OF d(1) q(1)] q(2) by simp
      then have "p + n \<noteq> q" using chunk_facts(4) [OF d(1) p] by auto
      then show ?thesis using not_self_end [OF d(1) p] q(2) by simp
    qed
    ultimately show ?thesis using that [of q "n + k" "unlink q w" ?C2] False wp by (simp add: consolidate_backward_def Let_def)
  qed
qed

text \<open>The chunk after it, not the top chunk: its flag is cleared, and it is taken out of its bin and merged.\<close>

lemma forward_merge:
  assumes i: "heap_inv av B C F T S w" and s: "single C p n" and nb: "\<And>b. \<not> before C p (Binned b)"
    and q: "p + n = q" "q \<noteq> T"
  obtains C' n' w' where
    "consolidate_forward q (chunksize q w) n w = (n', w')"
    and "heap_inv av B C' F T S w'" and "single C' p n'" and "\<And>b. \<not> before C' p (Binned b)"
    and "p + n' \<noteq> T" and "\<And>m c. C' (p + n') \<noteq> Some (m, Binned c)" and "\<And>m. sized C' T S (p + n') m \<Longrightarrow> w' (p + n' + 4) = m"
    and "solid C' = solid C" and "leaves (solid C) w w'" and "w' (max_fast av) = w (max_fast av)"
proof -
  note d = heap_invD [OF i]
  have p: "C p = Some (n, Loose)" using s by (simp add: single_def)
  have "q \<in> dom C" using chunk_facts(6) [OF d(1) p] q by auto
  then obtain m u where c: "C q = Some (m, u)" by auto
  have qp: "q \<noteq> p" using not_self_end [OF d(1) p] q(1) by auto
  have uL: "u \<noteq> Loose" using s c qp by (auto simp: single_def)
  have sq: "sized C T S q m" using c uL by (auto simp: sized_def)
  note hs = head_size [OF d(1,3) sq]
  let ?w = "w(q + 4 := m)"
  have sh: "set_head q (chunksize q w) w = ?w" by (simp add: set_head_def hs(1))
  note nh = next_head [OF i p, unfolded q(1), OF sq, of m, simplified]
  note e = heap_invD [OF nh(1)]
  define r where "r = q + m"
  have r: "site C T r" using chunk_facts(6) [OF d(1) c] by (auto simp: r_def site_def)
  have "r \<noteq> p"
  proof
    assume rp: "r = p"
    have "unat r = unat p + unat n + unat m" using chunk_facts(7) [OF d(1) c] chunk_facts(7) [OF d(1) p] q(1) by (simp add: r_def)
    then show False using rp chunk_facts(4) [OF d(1) c] by simp
  qed
  then obtain k where k: "sized C T S r k"
    using r s unfolding site_def sized_def single_def by (metis domD surj_pair)
  have ruse: "w (r + 4) AND 1 = 0 \<longleftrightarrow> (\<exists>b. u = Binned b)"
  proof -
    have bu: "before C r v \<longleftrightarrow> v = u" for v using before_end [OF d(1) c] by (simp add: r_def)
    have "\<not> before C r Loose" using bu uL by simp
    then show ?thesis using flag_clear(1) [OF headsD [OF d(3) k] head_size(2) [OF d(1,3) k]] bu by auto
  qed
  have inuse: "inuse_bit_at_offset q (chunksize q w) w \<longleftrightarrow> (\<forall>b. u \<noteq> Binned b)"
    unfolding inuse_bit_at_offset_def hs(1) r_def [symmetric] using ruse by auto
  show ?thesis
  proof (cases "\<exists>b. u = Binned b")
    case False
    have "C q \<noteq> Some (m', Binned c')" for m' c' using c False by auto
    moreover have "?w (q + 4) = m'" if "sized C T S q m'" for m'
      using that c top_not_chunk [OF d(1)] q(2) by (auto simp: sized_def)
    ultimately show ?thesis using that [of n ?w C] False inuse sh nh s nb q by (simp add: consolidate_forward_def)
  next
    case True
    then obtain b where u: "u = Binned b" by blast
    let ?C1 = "C(q \<mapsto> (m, Loose))"
    let ?C2 = "?C1(p + n := None, p \<mapsto> (n + m, Loose))"
    have i1: "heap_inv av B ?C1 F T S (unlink q ?w)" by (rule unlinked [OF nh(1) c [unfolded u]])
    have i2: "heap_inv av B ?C2 F T S (unlink q ?w)"
      by (rule merged [OF i1]) (use p c q qp in auto)
    have pr: "p + (n + m) = r" using q(1) by (simp add: r_def add.assoc)
    have sol: "solid ?C2 = solid C" using p c u q qp by (auto simp: solid_def fun_eq_iff)
    have keep: "leaves (solid C) w (unlink q ?w)"
      using keeps_trans [OF nh(2) unlink_keeps(1) [OF nh(1) c [unfolded u]]] .
    have fl: "unlink q ?w (max_fast av) = w (max_fast av)"
      using unlink_keeps(3) [OF nh(1) c [unfolded u]] nh(3) by simp
    have si: "single ?C2 p (n + m)" using s q by (auto simp: single_def)
    have nb2: "\<not> before ?C2 p (Binned c')" for c'
      using nb [of c'] p q by (auto simp: before_def split: if_splits)
    have C2r: "?C2 r = C r" using \<open>r \<noteq> p\<close> q(1) not_self_end [OF d(1) c] by (auto simp: r_def)
    have rT: "r \<noteq> T" and rb: "C r \<noteq> Some (m', Binned c')" for m' c'
      using no_binned_neighbours(2,3) [OF d(1) c [unfolded u]] by (auto simp: r_def)
    have rh: "unlink q ?w (r + 4) = m'" if m': "sized ?C2 T S r m'" for m'
    proof -
      have sm: "sized C T S r m'" using m' C2r by (auto simp: sized_def)
      have "?w (r + 4) = m'" using headsD [OF e(3) sm] head_ok_before [OF d(1) c] u by (simp add: r_def)
      then show ?thesis using unlink_same [OF e(1,5) c [unfolded u] sized_field(1) [OF d(1,2) sm]] by simp
    qed
    show ?thesis
      by (rule that [of "n + m" "unlink q ?w" ?C2])
        (use inuse u hs(1) sh i2 si nb2 sol keep fl pr C2r rT rb rh in \<open>simp_all add: consolidate_forward_def del: fun_upd_apply\<close>)
  qed
qed

text \<open>The merged chunk enters the unsorted chunks, in either order of the writes.\<close>

lemma label_1: "label 1"
  by (simp add: label_def)

lemma unsorted_node: "node av C 1 (unsorted_chunks av)"
  by (simp add: node_def unsorted_chunks_def)

lemma loose_fields:
  assumes i: "heap_inv av B C F T S w" and p: "C p = Some (n, Loose)" and b: "label b" and x: "node av C b x"
  defines "y \<equiv> w (x + 8)"
  shows "p + 4 \<noteq> x + 8" and "p + 8 \<noteq> x + 8" and "p + 12 \<noteq> x + 8" and "p + n \<noteq> x + 8"
    and "p + 4 \<noteq> y + 12" and "p + 8 \<noteq> y + 12" and "p + 12 \<noteq> y + 12" and "p + n \<noteq> y + 12" and "x + 8 \<noteq> y + 12"
    and "n \<noteq> 4" and "n \<noteq> 8" and "n \<noteq> 12" and "p \<noteq> x" and "p \<noteq> y"
proof -
  note d = heap_invD [OF i]
  have y: "node av C b y" using ringD [OF d(5) b x] by (simp add: y_def)
  have pp: "site C T p" by (rule place_chunk [where C = C, OF p])
  have pn: "site C T (p + n)" using chunk_facts(6) [OF d(1) p] by (auto simp: site_def)
  note f = node_place [OF d(1,2) b _ pp] node_place [OF d(1,2) b _ pn, of _ 0]
  show px: "p \<noteq> x" and py: "p \<noteq> y" using node_use [OF d(1,2) b _ p] x y by auto
  then show "p + 8 \<noteq> x + 8" "p + 12 \<noteq> y + 12" by simp_all
  show "p + 4 \<noteq> x + 8" "p + 12 \<noteq> x + 8" "p + 4 \<noteq> y + 12" "p + 8 \<noteq> y + 12"
    using f(1) [OF x, of 4] f(1) [OF x, of 12] f(2) [OF y, of 4] f(2) [OF y, of 8] by simp_all
  show "p + n \<noteq> x + 8" "p + n \<noteq> y + 12" using f(3) [OF x] f(4) [OF y] by simp_all
  show "x + 8 \<noteq> y + 12" by (rule node_fields(1) [OF d(1,2) b b x y])
  show "n \<noteq> 4" "n \<noteq> 8" "n \<noteq> 12" using chunk_facts(4) [OF d(1) p] by auto
qed

lemma enter_unsorted:
  assumes i: "heap_inv av B C F T S w" and s: "single C p n" and nb: "\<And>b. \<not> before C p (Binned b)"
    and nxt: "p + n \<noteq> T" "\<And>m c. C (p + n) \<noteq> Some (m, Binned c)" "\<And>m. sized C T S (p + n) m \<Longrightarrow> w (p + n + 4) = m"
  defines "u \<equiv> unsorted_chunks av" and "y \<equiv> w (unsorted_chunks av + 8)"
  assumes w': "w' (p + 8) = y" "w' (p + 12) = u" "w' (y + 12) = p" "w' (u + 8) = p" "w' (p + 4) = n OR 1" "w' (p + n) = n"
    and same: "\<And>a. a \<notin> {p + 4, p + 8, p + 12, p + n, y + 12, u + 8} \<Longrightarrow> w' a = w a"
  shows "heap_inv av B (C(p \<mapsto> (n, Binned 1))) F T S w'" and "tidy (C(p \<mapsto> (n, Binned 1)))"
    and "solid (C(p \<mapsto> (n, Binned 1))) = solid C" and "leaves (solid C) w w'" and "w' (max_fast av) = w (max_fast av)"
proof -
  note d = heap_invD [OF i]
  have p: "C p = Some (n, Loose)" using s by (simp add: single_def)
  have un: "node av C 1 u" by (simp add: u_def unsorted_node)
  note own = own_fields [OF d(1) p]
  have h: "flag_ok C w' p n"
    unfolding flag_ok_def w'(5) using nb single_before [OF d(1) s] by (metis head_form.simps(3,4) use.exhaust)
  have sp: "a \<in> {p + 4, p + 8, p + 12, p + n} \<Longrightarrow> spare av C a" for a
    using own(1-4) p by (auto simp: spare_def)
  show "heap_inv av B (C(p \<mapsto> (n, Binned 1))) F T S w'"
    by (rule binned [OF i p label_1 _ un _ w'(1-4)])
      (use same sp h w'(6) nb nxt in \<open>auto simp: label_ok_def u_def y_def\<close>)
  show "tidy (C(p \<mapsto> (n, Binned 1)))" using s by (auto simp: tidy_def single_def)
  show "solid (C(p \<mapsto> (n, Binned 1))) = solid C" using p by (auto simp: solid_def fun_eq_iff)
  have "node av C 1 y" using ringD [OF d(5) label_1 un] by (simp add: y_def u_def)
  then have lk: "link_field av C (y + 12)" "link_field av C (u + 8)"
    using un label_1 by (auto simp: link_field_def)
  have nm: "\<not> spare av C (max_fast av)" "\<not> link_field av C (max_fast av)"
    using not_spare(6) [OF d(1,2), of "max_fast av"] sized_field(4) [OF d(1,2), of "max_fast av"] by simp_all
  have "max_fast av \<noteq> y + 12" "max_fast av \<noteq> u + 8" using lk nm(2) by metis+
  moreover have "max_fast av \<notin> {p + 4, p + 8, p + 12, p + n}" using sp nm(1) by blast
  ultimately show "w' (max_fast av) = w (max_fast av)" by (intro same) simp
  have "harmless av C T (y + 12)" "harmless av C T (u + 8)" using link_harmless [OF d(1)] lk by auto
  moreover have "a \<in> {p + 4, p + 8, p + 12, p + n} \<Longrightarrow> harmless av C T a" for a
    using own(1-4) own_harmless [where C = C, OF p] by auto
  ultimately show "leaves (solid C) w w'" by (intro keepsI [OF d(1,2)]) (use same in blast)
qed

lemma enter_top:
  assumes i: "heap_inv av B C F T S w" and s: "single C p n" and nb: "\<And>b. \<not> before C p (Binned b)" and t: "p + n = T"
  defines "w' \<equiv> w(p + 4 := (n + S) OR 1, top_at av := p)"
  shows "heap_inv av B (C(p := None)) F p (n + S) w'" and "tidy (C(p := None))" and "solid (C(p := None)) = solid C"
    and "leaves (solid C) w w'" and "unat p + unat (n + S) = unat T + unat S" and "w' (max_fast av) = w (max_fast av)"
proof -
  note d = heap_invD [OF i]
  have p: "C p = Some (n, Loose)" using s by (simp add: single_def)
  show "heap_inv av B (C(p := None)) F p (n + S) w'" unfolding w'_def by (rule top_join [OF i p t nb])
  show "tidy (C(p := None))" using s by (auto simp: tidy_def single_def)
  show "solid (C(p := None)) = solid C" using p by (auto simp: solid_def fun_eq_iff)
  have "harmless av C T (p + 4)" by (rule own_harmless [where C = C, OF p]) (simp_all add: own_fields(1) [OF d(1) p])
  moreover have "harmless av C T (top_at av)" by (simp add: harmless_def)
  ultimately show "leaves (solid C) w w'" unfolding w'_def by (intro keepsI [OF d(1,2)]) auto
  have "888 \<le> off av (p + 4)" by (rule own_outside [OF d(1,2) p own_fields(1) [OF d(1) p]])
  then have "max_fast av \<noteq> p + 4" "max_fast av \<noteq> top_at av" by (intro off_neq [of av]; simp)+
  then show "w' (max_fast av) = w (max_fast av)" by (simp add: w'_def)
  have "unat T = unat p + unat n" using chunk_facts(7) [OF d(1) p] t by simp
  then show "unat p + unat (n + S) = unat T + unat S" using layout_facts(6) [OF d(1)] by (simp add: unat_word_ariths)
qed

lemma release_quick:
  assumes i: "heap_inv av B C F T S w" and p: "C p = Some (n, Quick)" and no: "\<And>j. j < 8 \<Longrightarrow> p \<notin> set (F j)"
  shows "heap_inv av B (C(p \<mapsto> (n, Loose))) F T S w"
proof -
  note d = heap_invD [OF i]
  have "head_form Loose (w (p + n + 4)) m" if "sized C T S (p + n) m" for m
    using headsD [OF d(3) that] head_ok_before [OF d(1) p] by simp
  then have "heads (C(p \<mapsto> (n, Loose))) T S w" using heads_retag [OF d(1) p d(3), of Loose] by simp
  moreover have "quick_lists av (C(p \<mapsto> (n, Loose))) F w" using d(6) no by (auto simp: quick_lists_def)
  moreover have "layout B (C(p \<mapsto> (n, Loose))) T S" by (rule layout_retag [OF d(1) p]) simp
  moreover have "feet (C(p \<mapsto> (n, Loose))) w" by (rule feet_retag [OF d(4) p]) simp
  moreover have "rings av (C(p \<mapsto> (n, Loose))) w" by (rule rings_retag [OF d(5) p]) simp_all
  ultimately show ?thesis using d(2,7,8) by (intro heap_invI)
qed

lemma single_released:
  assumes "layout B C T S" and "heads C T S w" and "C p = Some (n, u)" and "u \<noteq> Loose" and "tidy C"
  shows "single (C(p \<mapsto> (n, Loose))) p n" and "flag_ok (C(p \<mapsto> (n, Loose))) w p n" and "solid (C(p \<mapsto> (n, Loose))) = (solid C)(p := None)"
    and "w (p + 4) AND NOT 1 = n" and "w (p + 4) AND 2 = 0" and "chunksize p w = n"
proof -
  show "single (C(p \<mapsto> (n, Loose))) p n" using assms(5) by (auto simp: single_def tidy_def)
  have s: "sized C T S p n" by (rule sized_chunk [where C = C, OF assms(3,4)])
  have h: "flag_ok C w p n" by (rule headsD [OF assms(2) s])
  then show "flag_ok (C(p \<mapsto> (n, Loose))) w p n"
    using head_ok_retag [OF assms(1,3)] not_self_end [OF assms(1,3)] by simp
  show "solid (C(p \<mapsto> (n, Loose))) = (solid C)(p := None)" by (auto simp: solid_def fun_eq_iff)
  have "\<not> before C p Loose" using assms(5) by (auto simp: before_def tidy_def)
  then show "w (p + 4) AND NOT 1 = n" "w (p + 4) AND 2 = 0"
    using flag_clear(2,3) [OF h chunk_facts(3) [OF assms(1,3)]] by simp_all
  show "chunksize p w = n" by (rule head_size(1) [OF assms(1,2) s])
qed

lemma next_sized:
  assumes "layout B C T S" and "C p = Some (n, u)" and "tidy C"
  obtains m where "sized C T S (p + n) m"
proof (cases "p + n = T")
  case True
  then show ?thesis using that [of S] by (simp add: sized_def)
next
  case False
  then obtain m v where c: "C (p + n) = Some (m, v)" using chunk_facts(6) [OF assms(1,2)] by auto
  have "v \<noteq> Loose" using c assms(3) by (auto simp: tidy_def)
  then show ?thesis using c that by (auto simp: sized_def)
qed

lemma given_back:
  assumes l: "layout B C T S" "heads C T S w" and p: "C p = Some (n, v)" "v \<noteq> Loose" and t: "tidy C"
    and i0: "heap_inv av B (C(p \<mapsto> (n, Loose))) F T S w"
  obtains C' T' S' n' where "heap_inv av B C' F T' S' (consolidate_chunk av p w)" and "tidy C'"
    and "solid C' = (solid C)(p := None)" and "leaves (solid C') w (consolidate_chunk av p w)" and "unat T' + unat S' = unat T + unat S"
    and "consolidate_chunk av p w (max_fast av) = w (max_fast av)" and "free_chunk av p n w = (n', consolidate_chunk av p w)"
proof -
  let ?C0 = "C(p \<mapsto> (n, Loose))"
  note sr = single_released [OF l p t]
  obtain C1 p1 n1 w1 where bm:
    "consolidate_backward p n w = (p1, n1, w1)"
    "heap_inv av B C1 F T S w1" "single C1 p1 n1" "p1 + n1 = p + n" "\<And>b. \<not> before C1 p1 (Binned b)"
    "solid C1 = solid ?C0" "leaves (solid ?C0) w w1" "C1 (p + n) = ?C0 (p + n)" "w1 (max_fast av) = w (max_fast av)"
    by (rule back_merge [OF i0 sr(1,2)]) blast
  note d1 = heap_invD [OF bm(2)]
  let ?q = "p + n"
  have qp: "?q \<noteq> p" by (rule not_self_end [OF l(1) p(1)])
  have sz: "chunksize ?q w1 = chunksize ?q w"
  proof -
    obtain m where m: "sized C T S ?q m" by (rule next_sized [OF l(1) p(1) t])
    then have "sized C1 T S ?q m" using bm(8) qp by (auto simp: sized_def)
    then show ?thesis using head_size(1) [OF l m] head_size(1) [OF d1(1,3)] by simp
  qed
  show ?thesis
  proof (cases "?q = T")
    case True
    have s: "chunksize ?q w = S" using head_size(1) [OF l, of T S] True by (simp add: sized_def)
    note et = enter_top [OF bm(2,3,5) bm(4) [unfolded True]]
    have c: "consolidate_chunk av p w = w1(p1 + 4 := (n1 + S) OR 1, top_at av := p1)"
      unfolding consolidate_chunk_def Let_def
      using sr(4) bm(1) d1(8) True s by (simp add: Let_def set_head_def)
    have "free_chunk av p n w = (n1 + S, consolidate_chunk av p w)"
      unfolding c unfolding free_chunk_def Let_def
      using bm(1) d1(8) True s by (simp add: Let_def set_head_def)
    then show ?thesis
      by (intro that [of "C1(p1 := None)" p1 "n1 + S" "n1 + S"])
        (use et c sr(3) bm(6,9) keeps_trans [OF bm(7), of "w1(p1 + 4 := (n1 + S) OR 1, top_at av := p1)"] in simp_all)
  next
    case False
    obtain C2 n2 w2 where fm:
      "consolidate_forward ?q (chunksize ?q w1) n1 w1 = (n2, w2)"
      "heap_inv av B C2 F T S w2" "single C2 p1 n2" "\<And>b. \<not> before C2 p1 (Binned b)"
      "p1 + n2 \<noteq> T" "\<And>m c. C2 (p1 + n2) \<noteq> Some (m, Binned c)" "\<And>m. sized C2 T S (p1 + n2) m \<Longrightarrow> w2 (p1 + n2 + 4) = m"
      "solid C2 = solid C1" "leaves (solid C1) w1 w2" "w2 (max_fast av) = w1 (max_fast av)"
      by (rule forward_merge [OF bm(2,3,5,4) False]) blast
    have p2: "C2 p1 = Some (n2, Loose)" using fm(3) by (simp add: single_def)
    let ?u = "unsorted_chunks av"
    let ?y = "w2 (?u + 8)"
    let ?w = "w2(?u + 8 := p1, ?y + 12 := p1, p1 + 4 := n2 OR 1, p1 + 12 := ?u, p1 + 8 := ?y, p1 + n2 := n2)"
    note lf = loose_fields [OF fm(2) p2 label_1 unsorted_node]
    have c: "consolidate_chunk av p w = ?w"
      unfolding consolidate_chunk_def Let_def
      using sr(4) bm(1) d1(8) False fm(1) sz by (simp add: Let_def set_head_def set_foot_def)
    have pw: "?w (p1 + 8) = ?y" "?w (p1 + 12) = ?u" "?w (?y + 12) = p1" "?w (?u + 8) = p1" "?w (p1 + 4) = n2 OR 1" "?w (p1 + n2) = n2"
      using lf by simp_all
    have sm: "?w a = w2 a" if "a \<notin> {p1 + 4, p1 + 8, p1 + 12, p1 + n2, ?y + 12, ?u + 8}" for a using that by simp
    note eu = enter_unsorted [where w' = ?w, OF fm(2-7) pw sm]
    have sol: "solid C2 = solid C1" "solid C1 = (solid C)(p := None)" using fm(8) bm(6) sr(3) by simp_all
    have "leaves (solid C1) w ?w"
      using keeps_trans [OF keeps_trans [OF bm(7) [folded bm(6)] fm(9)] eu(4) [unfolded fm(8)]] .
    moreover have "free_chunk av p n w = (n2, consolidate_chunk av p w)"
      unfolding c unfolding free_chunk_def Let_def
      using bm(1) d1(8) False fm(1) sz lf by (simp add: Let_def set_head_def set_foot_def fun_eq_iff)
    ultimately show ?thesis
      using that [of "C2(p1 \<mapsto> (n2, Binned 1))" T S n2] eu(1-3,5) sol fm(10) bm(9) unfolding c by simp
  qed
qed

lemma consolidated:
  assumes i: "heap_inv av B C F T S w" and p: "C p = Some (n, Quick)" and no: "\<And>j. j < 8 \<Longrightarrow> p \<notin> set (F j)" and t: "tidy C"
  obtains C' T' S' where "heap_inv av B C' F T' S' (consolidate_chunk av p w)" and "tidy C'"
    and "solid C' = (solid C)(p := None)" and "leaves (solid C') w (consolidate_chunk av p w)" and "unat T' + unat S' = unat T + unat S"
    and "consolidate_chunk av p w (max_fast av) = w (max_fast av)"
  by (rule given_back [OF heap_invD(1,3) [OF i] p _ t release_quick [OF i p no]]) (use that in auto)

section \<open>Emptying the fast bins\<close>

text \<open>
  What an operation is allowed to do: the invariant holds of other chunks, none is loose, and the heap
  ends where it did.
\<close>

definition evolves :: "u32 \<Rightarrow> u32 \<Rightarrow> nat \<Rightarrow> chunks \<Rightarrow> words \<Rightarrow> words \<Rightarrow> chunks \<Rightarrow> (nat \<Rightarrow> u32 list) \<Rightarrow> bool" where
  "evolves av B e D w w' C' F' \<longleftrightarrow> (\<exists>T' S'. heap_inv av B C' F' T' S' w' \<and> unat T' + unat S' = e) \<and> tidy C' \<and>
     solid C' = D \<and> leaves D w w' \<and> w' (max_fast av) = w (max_fast av)"

lemma linked_kept:
  assumes "layout B C T S" and "leaves D w w'" and "\<And>q. q \<in> set ps \<Longrightarrow> \<exists>n u. D q = Some (n, u) \<and> C q = Some (n, u)"
  shows "linked w' x ps = linked w x ps"
proof (rule linked_cong)
  fix q assume "q \<in> set ps"
  then obtain n u where q: "D q = Some (n, u)" "C q = Some (n, u)" using assms(3) by blast
  show "w' (q + 8) = w (q + 8)" using assms(2) q(1) own_fields(6) [OF assms(1) q(2)] by (auto simp: leaves_def)
qed

lemma list_consolidated:
  assumes "heap_inv av B C F T S w" and "tidy C" and "linked w x ps" and "distinct ps"
    and "\<And>p. p \<in> set ps \<Longrightarrow> \<exists>n. C p = Some (n, Quick)" and "\<And>p j. p \<in> set ps \<Longrightarrow> j < 8 \<Longrightarrow> p \<notin> set (F j)"
  shows "\<exists>w' C'. consolidate_list av x w = Some w' \<and> evolves av B (unat T + unat S) ((solid C) |` (- set ps)) w w' C' F"
  using assms
proof (induction ps arbitrary: x w C T S)
  case Nil
  then have "consolidate_list av x w = Some w" by (subst consolidate_list.simps) simp
  then show ?case using Nil by (auto simp: evolves_def)
next
  case (Cons p ps)
  obtain n where p: "C p = Some (n, Quick)" using Cons.prems(5) by fastforce
  have x: "x = p" "linked w (w (p + 8)) ps" using Cons.prems(3) by simp_all
  note d = heap_invD [OF Cons.prems(1)]
  have p0: "p \<noteq> 0" by (rule place_facts(5) [OF d(1) place_chunk [where C = C, OF p]])
  obtain C1 T1 S1 where c: "heap_inv av B C1 F T1 S1 (consolidate_chunk av p w)" "tidy C1"
      "solid C1 = (solid C)(p := None)" "leaves (solid C1) w (consolidate_chunk av p w)" "unat T1 + unat S1 = unat T + unat S"
      "consolidate_chunk av p w (max_fast av) = w (max_fast av)"
    by (rule consolidated [OF Cons.prems(1) p _ Cons.prems(2)]) (use Cons.prems(6) in auto)
  let ?w = "consolidate_chunk av p w"
  have np: "p \<notin> set ps" "distinct ps" using Cons.prems(4) by simp_all
  have mem: "\<exists>m. C1 q = Some (m, Quick)" "\<exists>m u. solid C1 q = Some (m, u) \<and> C1 q = Some (m, u)" if q: "q \<in> set ps" for q
  proof -
    obtain m where m: "C q = Some (m, Quick)" using Cons.prems(5) q by fastforce
    then have "solid C q = Some (m, Quick)" by (simp add: solid_iff)
    moreover have "q \<noteq> p" using q np(1) by auto
    ultimately have s: "solid C1 q = Some (m, Quick)" using c(3) by simp
    then have "C1 q = Some (m, Quick)" by (simp add: solid_iff)
    then show "\<exists>m. C1 q = Some (m, Quick)" "\<exists>m u. solid C1 q = Some (m, u) \<and> C1 q = Some (m, u)" using s by blast+
  qed
  have l: "linked ?w (w (p + 8)) ps"
    using linked_kept [OF heap_invD(1) [OF c(1)] c(4) mem(2)] x(2) by simp
  have noF: "q \<in> set ps \<Longrightarrow> j < 8 \<Longrightarrow> q \<notin> set (F j)" for q j using Cons.prems(6) by simp
  obtain w' C' where r: "consolidate_list av (w (p + 8)) ?w = Some w'"
      "evolves av B (unat T1 + unat S1) ((solid C1) |` (- set ps)) ?w w' C' F"
    using Cons.IH [OF c(1,2) l np(2) mem(1) noF] by blast
  have D: "(solid C1) |` (- set ps) = (solid C) |` (- set (p # ps))"
    using c(3) by (auto simp: restrict_map_def fun_eq_iff)
  have "leaves ((solid C) |` (- set (p # ps))) w ?w"
    by (rule keeps_less [OF c(4)]) (auto simp: c(3) restrict_map_def split: if_splits)
  then have "evolves av B (unat T + unat S) ((solid C) |` (- set (p # ps))) w w' C' F"
    using r(2) c(5,6) keeps_trans unfolding evolves_def D by metis
  moreover have "consolidate_list av x w = Some w'"
    using p0 x(1) r(1) by (subst consolidate_list.simps) (simp add: Let_def)
  ultimately show ?case by blast
qed

lemma quick_size_inj: "i < 8 \<Longrightarrow> j < 8 \<Longrightarrow> quick_size i = quick_size j \<Longrightarrow> i = j"
  by (simp add: quick_size_def word_unat_eq_iff unat_of_nat32 del: of_nat_add of_nat_mult)

lemma drop_list:
  assumes i: "heap_inv av B C F T S w" and j: "j < 8"
  defines "w' \<equiv> w(fastbins av (of_nat j) := 0)"
  shows "heap_inv av B C (F(j := [])) T S w'" and "leaves (solid C) w w'" and "w' (max_fast av) = w (max_fast av)"
proof -
  let ?fb = "fastbins av (of_nat j)"
  note d = heap_invD [OF i]
  have fb: "off av ?fb = 4 + 4 * j" using j by simp
  have other: "w' a = w a" if "a \<noteq> ?fb" for a using that by (simp add: w'_def)
  have same: "\<forall>a. \<not> spare av C a \<longrightarrow> 36 \<le> off av a \<longrightarrow> w' a = w a"
  proof (intro allI impI)
    fix a assume "36 \<le> off av a"
    then have "a \<noteq> ?fb" using fb j by auto
    then show "w' a = w a" by (rule other)
  qed
  note lw = low_writes [OF i same]
  have "quick_lists av C (F(j := [])) w'"
    unfolding quick_lists_def
  proof (intro allI impI)
    fix k :: nat assume k: "k < 8"
    have l: "linked w (w (fastbins av (of_nat k))) (F k)" "distinct (F k)" "\<forall>q \<in> set (F k). C q = Some (quick_size k, Quick)"
      using d(6) k by (auto simp: quick_lists_def)
    have lk: "linked w' x (F k) = linked w x (F k)" for x
      using l(3) lw(5) by (intro linked_cong) blast
    have fk: "k \<noteq> j \<Longrightarrow> w' (fastbins av (of_nat k)) = w (fastbins av (of_nat k))"
      using fastbins_inj [OF k j, of av] other by simp
    show "linked w' (w' (fastbins av (of_nat k))) ((F(j := [])) k) \<and> distinct ((F(j := [])) k) \<and>
      (\<forall>q \<in> set ((F(j := [])) k). C q = Some (quick_size k, Quick))"
      using l lk fk by (cases "k = j") (simp_all add: w'_def)
  qed
  moreover have mf: "max_fast av \<noteq> ?fb" using fb by (intro off_neq [of av]) simp
  then have "params av w'" by (intro params_same [OF d(7) _ lw(6)]) (simp_all add: other)
  ultimately show "heap_inv av B C (F(j := [])) T S w'" using d(1,2) lw(1-4) by (intro heap_invI)
  have "harmless av C T ?fb" using fb j by (simp add: harmless_def)
  then show "leaves (solid C) w w'" by (intro keepsI [OF d(1,2)]) (use other in metis)
  show "w' (max_fast av) = w (max_fast av)" using mf other by simp
qed

text \<open>Emptying fast bins keeps the blocks in use.\<close>

definition kept :: "u32 \<Rightarrow> u32 \<Rightarrow> nat \<Rightarrow> chunks \<Rightarrow> words \<Rightarrow> words \<Rightarrow> bool" where
  "kept av B e C w w' \<longleftrightarrow> (\<exists>C' F' T' S'. heap_inv av B C' F' T' S' w' \<and> unat T' + unat S' = e \<and> tidy C' \<and> used C' = used C) \<and>
     (\<forall>p n a. used C p = Some n \<longrightarrow> payload p n a \<longrightarrow> w' a = w a)"

lemma used_of_solid: "used C p = Some n \<longleftrightarrow> solid C p = Some (n, Used)"
  by (simp add: used_iff solid_iff)

lemma used_eqI: "(\<And>p n. C p = Some (n, Used) \<longleftrightarrow> C' p = Some (n, Used)) \<Longrightarrow> used C = used C'"
  by (intro ext option.expand; use used_iff in \<open>metis option.exhaust_sel option.distinct(1)\<close>)

lemma bins_consolidated:
  assumes "heap_inv av B C F T S w" and "tidy C" and "\<forall>j \<in> set js. j < 8"
  shows "\<exists>w'. consolidate_bins av (map (\<lambda>j. fastbins av (of_nat j)) js) w = Some w' \<and> kept av B (unat T + unat S) C w w' \<and>
    w' (max_fast av) = w (max_fast av)"
  using assms
proof (induction js arbitrary: C F T S w)
  case Nil
  then show ?case by (auto simp: kept_def)
next
  case (Cons j js)
  let ?fb = "fastbins av (of_nat j)"
  have j: "j < 8" using Cons.prems(3) by simp
  note d = heap_invD [OF Cons.prems(1)]
  have "\<exists>w1 C1 F1 T1 S1. (if w ?fb \<noteq> 0 then consolidate_list av (w ?fb) (w(?fb := 0)) else Some w) = Some w1 \<and>
      heap_inv av B C1 F1 T1 S1 w1 \<and> tidy C1 \<and> unat T1 + unat S1 = unat T + unat S \<and> used C1 = used C \<and>
      (\<forall>p n a. used C p = Some n \<longrightarrow> payload p n a \<longrightarrow> w1 a = w a) \<and> w1 (max_fast av) = w (max_fast av)"
  proof (cases "w ?fb = 0")
    case True
    then show ?thesis using Cons.prems by fastforce
  next
    case False
    note dl = drop_list [OF Cons.prems(1) j]
    have l: "linked w (w ?fb) (F j)" "distinct (F j)" "\<forall>q \<in> set (F j). C q = Some (quick_size j, Quick)"
      using d(6) j by (auto simp: quick_lists_def)
    have l': "linked (w(?fb := 0)) (w ?fb) (F j)"
      using l linked_kept [OF d(1) dl(2), of "F j" "w ?fb"] by (fastforce simp: solid_iff)
    have no: "q \<notin> set ((F(j := [])) k)" if "q \<in> set (F j)" "k < 8" for q k
    proof (cases "k = j")
      case False
      have "\<forall>q \<in> set (F k). C q = Some (quick_size k, Quick)" using d(6) that(2) by (auto simp: quick_lists_def)
      then show ?thesis using l(3) that quick_size_inj [OF j that(2)] False by auto
    qed simp
    obtain w1 C1 where c: "consolidate_list av (w ?fb) (w(?fb := 0)) = Some w1"
        "evolves av B (unat T + unat S) ((solid C) |` (- set (F j))) (w(?fb := 0)) w1 C1 (F(j := []))"
      using list_consolidated [OF dl(1) Cons.prems(2) l' l(2) _ no] l(3) by blast
    then obtain T1 S1 where e: "heap_inv av B C1 (F(j := [])) T1 S1 w1" "unat T1 + unat S1 = unat T + unat S" "tidy C1"
        "solid C1 = (solid C) |` (- set (F j))" "leaves (solid C1) (w(?fb := 0)) w1" "w1 (max_fast av) = (w(?fb := 0)) (max_fast av)"
      by (auto simp: evolves_def)
    have so: "solid C1 p = Some (n, Used) \<longleftrightarrow> solid C p = Some (n, Used)" for p n
      using l(3) e(4) by (auto simp: restrict_map_def solid_iff)
    have "used C1 = used C" by (rule used_eqI) (use so in \<open>simp add: solid_iff\<close>)
    moreover have "w1 a = w a" if "used C p = Some n" "payload p n a" for p n a
    proof -
      have "solid C p = Some (n, Used)" "solid C1 p = Some (n, Used)" using that(1) so by (simp_all add: used_of_solid)
      then show ?thesis using e(5) dl(2) that(2) unfolding leaves_def by metis
    qed
    ultimately show ?thesis using c(1) e dl(3) False by auto
  qed
  then obtain w1 C1 F1 T1 S1 where s: "(if w ?fb \<noteq> 0 then consolidate_list av (w ?fb) (w(?fb := 0)) else Some w) = Some w1"
      "heap_inv av B C1 F1 T1 S1 w1" "tidy C1" "unat T1 + unat S1 = unat T + unat S" "used C1 = used C"
      "\<forall>p n a. used C p = Some n \<longrightarrow> payload p n a \<longrightarrow> w1 a = w a" "w1 (max_fast av) = w (max_fast av)" by blast
  obtain w' where w': "consolidate_bins av (map (\<lambda>j. fastbins av (of_nat j)) js) w1 = Some w'"
      "kept av B (unat T1 + unat S1) C1 w1 w'" "w' (max_fast av) = w1 (max_fast av)"
    using Cons.IH [OF s(2,3)] Cons.prems(3) by auto
  have "kept av B (unat T + unat S) C w w'" using w'(2) s(4-6) unfolding kept_def by metis
  then show ?case using s(1,7) w'(1,3) by auto
qed

lemma set_flags_kept:
  assumes i: "heap_inv av B C F T S w" and v: "v AND NOT 3 = 72"
  shows "leaves (solid C) w (w(max_fast av := v))"
  using heap_invD [OF i] by (intro keepsI) (auto simp: harmless_def)

lemma and_flags:
  fixes x :: u32
  shows "(x AND NOT 2) AND NOT 3 = x AND NOT 3" and "(x OR 1) AND NOT 3 = x AND NOT 3" and "(x OR (2 OR 1)) AND NOT 3 = x AND NOT 3"
    and "(x AND NOT 2) AND 2 = 0"
proof -
  have "3 = 2 OR (1 :: u32)" by simp
  then show "(x AND NOT 2) AND NOT 3 = x AND NOT 3" "(x OR 1) AND NOT 3 = x AND NOT 3" "(x OR (2 OR 1)) AND NOT 3 = x AND NOT 3"
      "(x AND NOT 2) AND 2 = 0"
    by (simp_all only: bit.de_Morgan_disj bit.conj_disj_distrib2) (simp_all add: ac_simps)
qed

lemma eight_bins:
  assumes "v AND NOT 3 = 72"
  shows "unat (fastbin_index v) + 1 = 8" and "v \<noteq> 0" and "72 \<le> unat v" and "unat v < 76"
proof -
  have v: "unat v div 4 * 4 = 72" using unat_and_not_mask [of v 2] assms by (simp add: mask_eq_exp_minus_1)
  then have "unat v div 4 = 18" by simp
  then show b: "72 \<le> unat v" "unat v < 76" by simp_all
  then have "unat v div 8 = 9" by linarith
  then have "unat (drop_bit 3 v) = 9" by (simp add: unat_shr)
  then have "drop_bit 3 v = 9" by (simp add: word_unat_eq_iff)
  then show "unat (fastbin_index v) + 1 = 8" by (simp add: fastbin_index_def)
  show "v \<noteq> 0" using b by auto
qed

lemma consolidate_kept:
  assumes i: "heap_inv av B C F T S w" and t: "tidy C"
  shows "\<exists>w'. malloc_consolidate av w = Some w' \<and> kept av B (unat T + unat S) C w w' \<and> \<not> have_fastchunks av w'"
proof -
  note d = heap_invD [OF i]
  have v: "w (max_fast av) AND NOT 3 = 72" using d(7) by (simp add: params_def)
  let ?v = "w (max_fast av) AND NOT 2"
  have v': "?v AND NOT 3 = 72" using v and_flags(1) by simp
  let ?w = "w(max_fast av := ?v)"
  have c: "clear_fastchunks av w = ?w" by (simp add: clear_fastchunks_def)
  have n: "unat (fastbin_index (?w (max_fast av))) + 1 = 8" using eight_bins(1) [OF v'] by simp
  obtain w' where w': "consolidate_bins av (map (\<lambda>j. fastbins av (of_nat j)) [0..<8]) ?w = Some w'"
      "kept av B (unat T + unat S) C ?w w'" "w' (max_fast av) = ?w (max_fast av)"
    using bins_consolidated [OF set_flags [OF i v'] t, of "[0..<8]"] by auto
  have "malloc_consolidate av w = Some w'"
    using eight_bins(2) [OF v] w'(1) n unfolding malloc_consolidate_def c Let_def by (simp only: if_True not_False_eq_True)
  moreover have "kept av B (unat T + unat S) C w w'"
    using w'(2) set_flags_kept [OF i v'] unfolding kept_def leaves_def used_of_solid by metis
  moreover have "\<not> have_fastchunks av w'" using w'(3) and_flags(4) by (simp add: have_fastchunks_def)
  ultimately show ?thesis by blast
qed

section \<open>free\<close>

context program_break
begin

definition same_break :: "'s \<Rightarrow> 's \<Rightarrow> bool" where
  "same_break s s' \<longleftrightarrow> valid s' \<and> brk s' = brk s \<and> limit s' = limit s"

text \<open>Neither of the two breaks comes down: the top chunk is never trimmed.\<close>

lemma trim_nothing:
  assumes v: "valid s"
  shows "\<exists>s'. sYSTRIm sbrk av pad (w, s) = (w, s') \<and> same_break s s'"
proof -
  have zero: "\<exists>s'. sbrk 0 t = (of_nat (brk t), s') \<and> same_break t s'" if "valid t" for t
    using grows [OF that, of 0] below [OF that] by (auto simp: same_break_def)
  obtain s1 where s1: "sbrk 0 s = (of_nat (brk s), s1)" "same_break s s1" using zero [OF v] by blast
  have v1: "valid s1" using s1(2) by (simp add: same_break_def)
  obtain s2 where s2: "sbrk 0 s1 = (of_nat (brk s1), s2)" "same_break s1 s2" using zero [OF v1] by blast
  have ref: "sbrk (- sint x) s1 = (sbrk_failed, s1)" if "0 < sint x" for x :: u32
  proof -
    have "sint x < 2 ^ 31" using sint_lt [of x] by simp
    then show ?thesis using that by (intro refuses [OF v1]) simp_all
  qed
  have "brk s1 = brk s" using s1(2) by (simp add: same_break_def)
  then show ?thesis
    using s1 s2 ref v unfolding sYSTRIm_def by (auto simp: Let_def same_break_def split: prod.splits)
qed

lemma free_kept:
  assumes i: "heap_inv av B C F T S w" and t: "tidy C" and p: "C p = Some (n, Used)" and v: "valid s"
  shows "\<exists>w' s' C'. fREe sbrk av (chunk2mem p) (w, s) = Some (w', s') \<and> same_break s s' \<and>
    used C' = (used C)(p := None) \<and> kept av B (unat T + unat S) C' w w'"
proof -
  note d = heap_invD [OF i]
  have pp: "site C T p" by (rule place_chunk [where C = C, OF p])
  have m: "chunk2mem p \<noteq> 0" "mem2chunk (chunk2mem p) = p"
    using place_facts(3) [OF d(1) pp, of 8] by (auto simp: chunk2mem_def mem2chunk_def size_sz_def)
  have vm: "w (max_fast av) AND NOT 3 = 72" using d(7) by (simp add: params_def)
  note sr = single_released [OF d(1,3) p _ t, simplified]
  let ?C0 = "C(p \<mapsto> (n, Loose))"
  have cs: "chunksize p w = n" by (rule sr(6))
  have u0: "used C' = (used C)(p := None)" if "solid C' = (solid C)(p := None) \<or> C' = C(p \<mapsto> (n, Quick))" for C'
  proof -
    have "used C' q = (if q = p then None else used C q)" for q
      using that
    proof
      assume s: "solid C' = (solid C)(p := None)"
      have "used C' q = Some k \<longleftrightarrow> (if q = p then None else used C q) = Some k" for k using s by (simp add: used_of_solid)
      then show ?thesis by (metis option.exhaust)
    qed (simp add: used_def)
    then show ?thesis by auto
  qed
  show ?thesis
  proof (cases "n \<le> w (max_fast av)")
    case True
    define j where "j = unat n div 8 - 2"
    note q = quick_index [OF chunk_facts(3,4) [OF d(1) p] True vm, folded j_def]
    let ?v = "w (max_fast av) OR (2 OR 1)"
    let ?w = "w(max_fast av := ?v)"
    have v3: "?v AND NOT 3 = 72" using vm and_flags(3) by simp
    let ?fb = "fastbins av (of_nat j)"
    let ?w' = "?w(p + 8 := ?w ?fb, ?fb := p)"
    have pj: "C p = Some (quick_size j, Used)" using p q(3) by simp
    note qp = quick_push [OF set_flags [OF i v3] pj q(1), folded q(3)]
    have "fREe sbrk av (chunk2mem p) (w, s) = Some (?w', s)"
      unfolding fREe_def using m True q(2) cs by (simp add: Let_def set_fastchunks_def)
    moreover have "leaves (solid ?C0) w ?w'"
    proof (rule keepsI)
      have i0: "heap_inv av B ?C0 F T S w" by (rule release [OF i p])
      show "layout B ?C0 T S" "beside av B T S" using heap_invD [OF i0] by auto
      fix a assume a: "\<not> harmless av ?C0 T a"
      have "own p n (p + 8)" by (rule own_fields(2) [OF d(1) p])
      then have "a \<noteq> p + 8" using a own_harmless [of ?C0 p n Loose "p + 8" av T] by auto
      moreover have "off av ?fb < 888" "off av (max_fast av) < 888" using q(1) by simp_all
      then have "a \<noteq> ?fb" "a \<noteq> max_fast av" using a by (auto simp: harmless_def)
      ultimately show "?w' a = w a" by simp
    qed
    then have "kept av B (unat T + unat S) (C(p \<mapsto> (n, Quick))) w ?w'"
      unfolding kept_def
    proof (intro conjI)
      show "\<exists>C' F' T' S'. heap_inv av B C' F' T' S' ?w' \<and> unat T' + unat S' = unat T + unat S \<and> tidy C' \<and>
          used C' = used (C(p \<mapsto> (n, Quick)))"
        using qp t by (intro exI [of _ "C(p \<mapsto> (n, Quick))"] exI [of _ "F(j := p # F j)"] exI [of _ T] exI [of _ S])
          (auto simp: tidy_def)
      show "\<forall>q m a. used (C(p \<mapsto> (n, Quick))) q = Some m \<longrightarrow> payload q m a \<longrightarrow> ?w' a = w a"
      proof (intro allI impI)
        fix q m a assume "used (C(p \<mapsto> (n, Quick))) q = Some m" and pay: "payload q m a"
        then have "(C(p \<mapsto> (n, Quick))) q = Some (m, Used)" by (simp only: used_iff)
        then have "?C0 q = Some (m, Used)" by (simp split: if_splits)
        then have "solid ?C0 q = Some (m, Used)" by (simp only: solid_iff) simp
        then show "?w' a = w a" using \<open>leaves (solid ?C0) w ?w'\<close> pay unfolding leaves_def by blast
      qed
    qed
    ultimately show ?thesis using u0 v by (metis same_break_def)
  next
    case False
    let ?v = "w (max_fast av) OR 1"
    let ?w = "w(max_fast av := ?v)"
    have v3: "?v AND NOT 3 = 72" using vm and_flags(2) by simp
    have iw: "heap_inv av B C F T S ?w" by (rule set_flags [OF i v3])
    note dw = heap_invD [OF iw]
    have nm: "\<not> chunk_is_mmapped p w" using sr(5) by (simp add: chunk_is_mmapped_def)
    obtain C1 T1 S1 n1 where g: "heap_inv av B C1 F T1 S1 (consolidate_chunk av p ?w)" "tidy C1"
        "solid C1 = (solid C)(p := None)" "leaves (solid C1) ?w (consolidate_chunk av p ?w)" "unat T1 + unat S1 = unat T + unat S"
        "free_chunk av p n ?w = (n1, consolidate_chunk av p ?w)"
      by (rule given_back [OF dw(1,3) p _ t release [OF iw p]]) auto
    let ?w1 = "consolidate_chunk av p ?w"
    have "leaves (solid C1) w ?w"
      by (rule keeps_less [OF set_flags_kept [OF i v3]]) (use g(3) in \<open>auto split: if_splits\<close>)
    then have k1: "leaves (solid C1) w ?w1" using g(4) by (rule keeps_trans)
    have kept1: "kept av B (unat T + unat S) C1 w w2" if "kept av B (unat T + unat S) C1 ?w1 w2" for w2
      using that k1 unfolding kept_def leaves_def used_of_solid by metis
    have self: "kept av B (unat T + unat S) C1 ?w1 ?w1" using g(1,2,5) unfolding kept_def by blast
    have f: "fREe sbrk av (chunk2mem p) (w, s) =
      (if n1 \<ge> fastbin_consolidation_threshold then
         Option.bind (if have_fastchunks av ?w1 then malloc_consolidate av ?w1 else Some ?w1) (\<lambda>w.
           Some (if chunksize (w (top_at av)) w \<ge> w (trim_threshold av) then sYSTRIm sbrk av (w (top_pad av)) (w, s) else (w, s)))
       else Some (?w1, s))"
      unfolding fREe_def using m False nm cs g(6) by (simp add: Let_def set_anychunks_def)
    have "\<exists>w2. (if have_fastchunks av ?w1 then malloc_consolidate av ?w1 else Some ?w1) = Some w2 \<and> kept av B (unat T + unat S) C1 ?w1 w2"
      using consolidate_kept [OF g(1,2)] self g(5) by auto
    then obtain w2 where w2: "(if have_fastchunks av ?w1 then malloc_consolidate av ?w1 else Some ?w1) = Some w2"
        "kept av B (unat T + unat S) C1 ?w1 w2" by blast
    obtain s2 where s2: "sYSTRIm sbrk av (w2 (top_pad av)) (w2, s) = (w2, s2)" "same_break s s2" using trim_nothing [OF v] by blast
    have "\<exists>w' s'. fREe sbrk av (chunk2mem p) (w, s) = Some (w', s') \<and> same_break s s' \<and> kept av B (unat T + unat S) C1 ?w1 w'"
      unfolding f w2(1) using w2(2) s2 self v by (auto simp: same_break_def)
    then show ?thesis using kept1 u0 [of C1] g(3) by blast
  qed
qed

end

end
