(* ===== verification/MallocSearch.thy ===== *)
theory MallocSearch
  imports MallocOps
begin

text \<open>
  \<open>mALLOc\<close> leaves the invariant of theory MallocHeap: every way it finds a block, from a fast bin, from
  the bin of its size, among the unsorted chunks, in a larger bin or at the top of the heap, and the first
  call, which makes the heap. The walks over the bins return.
\<close>

section \<open>Handing out a chunk of a bin\<close>

text \<open>A block of at least \<open>k\<close> bytes at \<open>p\<close> was added to those in use, which are as they were.\<close>

definition granted :: "u32 \<Rightarrow> u32 \<Rightarrow> nat \<Rightarrow> chunks \<Rightarrow> words \<Rightarrow> u32 \<Rightarrow> u32 \<Rightarrow> words \<Rightarrow> bool" where
  "granted av B e C w k p w' \<longleftrightarrow> used C p = None \<and>
     (\<exists>n C' F' T' S'. k \<le> n \<and> heap_inv av B C' F' T' S' w' \<and> unat T' + unat S' = e \<and> tidy C' \<and> used C' = (used C)(p \<mapsto> n)) \<and>
     (\<forall>q m a. used C q = Some m \<longrightarrow> payload q m a \<longrightarrow> w' a = w a)"

lemma grantedI:
  assumes "heap_inv av B C' F' T' S' w'" and "unat T' + unat S' = e" and "tidy C'" and "k \<le> n"
    and "\<And>m. C p \<noteq> Some (m, Used)" and "\<And>q m. C' q = Some (m, Used) \<longleftrightarrow> (if q = p then m = n else C q = Some (m, Used))"
    and "leaves (solid C) w w'"
  shows "granted av B e C w k p w'"
proof -
  have n: "used C p = None" using assms(5) by (metis option.exhaust used_iff)
  have "used C' q = Some m \<longleftrightarrow> ((used C)(p \<mapsto> n)) q = Some m" for q m using assms(6) by (auto simp: used_iff)
  then have "used C' = (used C)(p \<mapsto> n)" by (intro ext) (metis option.exhaust)
  moreover have "w' a = w a" if "used C q = Some m" "payload q m a" for q m a
    using assms(7) that unfolding leaves_def used_of_solid by blast
  ultimately show ?thesis unfolding granted_def using n assms(1-4) by blast
qed

lemma binned_facts:
  assumes i: "heap_inv av B C F T S w" and t: "tidy C" and p: "C p = Some (n, Binned b)"
  obtains m where "sized C T S (p + n) m" and "w (p + n + 4) = m" and "w (p + 4) = n OR 1" and "p + n \<noteq> T"
    and "\<And>k c. C (p + n) \<noteq> Some (k, Binned c)" and "\<And>c. \<not> before C p (Binned c)" and "w (p + n) = n" and "label b"
    and "chunksize p w = n"
proof -
  note d = heap_invD [OF i]
  obtain m where m: "sized C T S (p + n) m" by (rule next_sized [OF d(1) p t])
  have "w (p + n + 4) = m" using headsD [OF d(3) m] head_ok_before [OF d(1) p] by simp
  moreover have s: "sized C T S p n" by (rule sized_chunk [where C = C, OF p]) simp
  have nb: "\<not> before C p (Binned c)" for c by (rule no_binned_neighbours(1) [OF d(1) p])
  moreover have "\<not> before C p Loose" using t by (auto simp: before_def tidy_def)
  then have "w (p + 4) = n OR 1"
    using headsD [OF d(3) s] nb unfolding flag_ok_def by (metis head_form.simps(3,4) use.exhaust)
  ultimately show ?thesis
    using that [OF m] no_binned_neighbours(2,3) [OF d(1) p] d(4) p label_chunk [OF d(1) p] head_size(1) [OF d(1,3) s]
    by (auto simp: feet_def)
qed

text \<open>The chunk as a whole: it leaves its bin and the next chunk says that it is in use.\<close>

lemma take_whole:
  assumes i: "heap_inv av B C F T S w" and t: "tidy C" and p: "C p = Some (n, Binned b)" and k: "k \<le> n"
  shows "granted av B (unat T + unat S) C w k p (set_inuse_bit_at_offset p n (unlink p w))"
    and "set_inuse_bit_at_offset p n (unlink p w) =
      (set_inuse_bit_at_offset p n w)(w (p + 8) + 12 := w (p + 12), w (p + 12) + 8 := w (p + 8))"
proof -
  note d = heap_invD [OF i]
  let ?C1 = "C(p \<mapsto> (n, Loose))"
  obtain m where m: "sized C T S (p + n) m" "w (p + n + 4) = m" "w (p + 4) = n OR 1" "\<And>c. \<not> before C p (Binned c)"
    by (rule binned_facts [OF i t p]) blast
  have i1: "heap_inv av B ?C1 F T S (unlink p w)" by (rule unlinked [OF i p])
  note d1 = heap_invD [OF i1]
  note same = unlink_same [OF d(1,5) p]
  have nl: "\<not> link_field av C (p + n + 4)" "\<not> link_field av C (p + 4)"
    using sized_field(1) [OF d(1,2)] m(1) sized_chunk [where C = C, OF p] by blast+
  have p1: "?C1 p = Some (n, Loose)" by simp
  have np: "p + n \<noteq> p" by (rule not_self_end [OF d(1) p])
  have s1: "sized ?C1 T S (p + n) m" using m(1) np by (auto simp: sized_def)
  have si: "set_inuse_bit_at_offset p n (unlink p w) = (unlink p w)(p + n + 4 := m OR 1)"
    using same [OF nl(1)] m(2) by (simp add: set_inuse_bit_at_offset_def)
  let ?w = "(unlink p w)(p + n + 4 := m OR 1)"
  note nh = next_head [OF i1 p1 s1, of "m OR 1", simplified]
  have "?w (p + 4) = n OR 1" using same [OF nl(2)] m(3) np by simp
  moreover have "\<not> before ?C1 p (Binned c)" for c using m(4) np by (simp add: before_retag [OF d(1) p])
  ultimately have h: "flag_ok ?C1 ?w p n" by (intro head_ok_one)
  have nx: "?w (p + n + 4) = m' OR 1" if "sized ?C1 T S (p + n) m'" for m'
    using that s1 top_not_chunk [OF d1(1)] by (auto simp: sized_def)
  have "heap_inv av B (?C1(p \<mapsto> (n, Used))) F T S ?w" by (rule hand_out [OF nh(1) p1 h nx])
  then have i2: "heap_inv av B (C(p \<mapsto> (n, Used))) F T S ?w" by simp
  have uk: "leaves (solid C) w (unlink p w)" "solid ?C1 = solid C" using unlink_keeps(1,2) [OF i p] by blast+
  have kp: "leaves (solid C) w ?w" by (rule keeps_trans [OF uk(1) nh(2) [unfolded uk(2)]])
  show "granted av B (unat T + unat S) C w k p (set_inuse_bit_at_offset p n (unlink p w))"
    unfolding si by (rule grantedI [OF i2 refl _ k _ _ kp]) (use p t in \<open>auto simp: tidy_def split: if_splits\<close>)
  have bn: "label b" "node av C b p" using label_chunk [OF d(1) p] p by (auto simp: node_def)
  note r = ringD [OF d(5) bn]
  have ne: "p + n + 4 \<noteq> w (p + 8) + 12" "p + n + 4 \<noteq> w (p + 12) + 8" "p + n + 4 \<noteq> p + 8" "p + n + 4 \<noteq> p + 12"
    using nl(1) bn r(1,2) chunk_facts(4) [OF d(1) p] by (auto simp: link_field_def)
  then show "set_inuse_bit_at_offset p n (unlink p w) =
      (set_inuse_bit_at_offset p n w)(w (p + 8) + 12 := w (p + 12), w (p + 12) + 8 := w (p + 8))"
    unfolding si by (simp add: unlink_eq set_inuse_bit_at_offset_def m(2) fun_eq_iff)
qed

text \<open>A part of it: the rest becomes the one unsorted chunk.\<close>

lemma take_part:
  assumes i: "heap_inv av B C F T S w" and t: "tidy C" and p: "C p = Some (n, Binned b)"
    and k: "aligned8 k" "16 \<le> unat k" "unat k + 16 \<le> unat n"
  defines "u \<equiv> unsorted_chunks av" and "w1 \<equiv> unlink p w"
  assumes empty: "w1 (unsorted_chunks av + 8) = unsorted_chunks av"
    and w': "w' (u + 8) = p + k" "w' (u + 12) = p + k" "w' (p + k + 8) = u" "w' (p + k + 12) = u"
      "w' (p + 4) = k OR 1" "w' (p + k + 4) = (n - k) OR 1" "w' (p + n) = n - k"
    and same: "\<And>a. a \<notin> {u + 8, u + 12, p + k + 8, p + k + 12, p + 4, p + k + 4, p + n, last_remainder av} \<Longrightarrow> w' a = w1 a"
  shows "granted av B (unat T + unat S) C w k p w'"
proof -
  note d = heap_invD [OF i]
  obtain m where m: "sized C T S (p + n) m" "w (p + n + 4) = m" "p + n \<noteq> T" "\<And>k c. C (p + n) \<noteq> Some (k, Binned c)"
      "\<And>c. \<not> before C p (Binned c)" by (rule binned_facts [OF i t p]) blast
  let ?C1 = "C(p \<mapsto> (n, Loose))"
  have i1: "heap_inv av B ?C1 F T S w1" unfolding w1_def by (rule unlinked [OF i p])
  note d1 = heap_invD [OF i1]
  have p1: "?C1 p = Some (n, Loose)" by simp
  note cl = cut_layout [OF d1(1) p1 k]
  let ?r = "p + k"
  let ?C2 = "?C1(p \<mapsto> (k, Loose), ?r \<mapsto> (n - k, Loose))"
  have i2: "heap_inv av B ?C2 F T S w1" by (rule cut [OF i1 p1 k])
  note d2 = heap_invD [OF i2]
  have rp: "?r \<noteq> p" using cl(6) k(2) by auto
  have pr: "?r + (n - k) = p + n" by simp
  have p2: "?C2 p = Some (k, Loose)" "?C2 ?r = Some (n - k, Loose)" using rp by simp_all
  let ?w2 = "w1(p + 4 := k OR 1)"
  have sp: "spare av ?C2 (p + 4)" using own_fields(1) [OF d2(1) p2(1)] p2(1) unfolding spare_def by blast
  have i3: "heap_inv av B ?C2 F T S ?w2" by (rule spare_writes [OF i2]) (use sp in auto)
  have np: "p + n \<noteq> p" by (rule not_self_end [OF d(1) p])
  have "(p = ?r \<or> p = p + n) = False" using rp np by auto
  then have bp: "\<not> before ?C2 p (Binned c)" for c
    by (simp only: cl(2) if_False before_retag [OF d(1) p] np m(5) not_False_eq_True)
  have h: "flag_ok ?C2 ?w2 p k" by (rule head_ok_one [OF bp]) simp
  have nosize: "\<not> sized ?C2 T S ?r m'" for m' using cl(4) p2(2) by (auto simp: sized_def)
  let ?C3 = "?C2(p \<mapsto> (k, Used))"
  have i4: "heap_inv av B ?C3 F T S ?w2" by (rule hand_out [OF i3 p2(1) h]) (use nosize in blast)
  note d4 = heap_invD [OF i4]
  have r3: "?C3 ?r = Some (n - k, Loose)" using p2(2) rp by simp
  let ?C4 = "?C3(?r \<mapsto> (n - k, Binned 1))"
  have un: "node av ?C3 1 u" by (simp add: u_def unsorted_node)
  have u4: "u + 8 \<noteq> p + 4"
    using node_place(1) [OF d4(1,2) label_1 un place_chunk [where C = ?C3 and x = p], of k Used 4] by auto
  have w2u: "?w2 (u + 8) = u" using empty u4 by (simp add: u_def)
  have ownr: "own ?r (n - k) (?r + 4)" "own ?r (n - k) (?r + 8)" "own ?r (n - k) (?r + 12)" "own ?r (n - k) (p + n)"
    using own_fields(1-4) [OF d4(1) r3] pr by simp_all
  have spr: "spare av ?C3 a" if "own ?r (n - k) a" for a using that r3 unfolding spare_def by blast
  have splr: "spare av ?C3 (last_remainder av)" by (simp add: spare_def)
  have same': "w' a = ?w2 a" if "\<not> spare av ?C3 a" "a \<noteq> u + 12" "a \<noteq> u + 8" for a
  proof (cases "a = p + 4")
    case False
    then have "w' a = w1 a" using that spr ownr splr by (intro same) blast
    then show ?thesis using False by simp
  qed (use w' in simp)
  have "before ?C3 ?r Used" unfolding before_def using rp by (intro exI [of _ p] exI [of _ k]) simp
  then have br: "before ?C3 ?r v \<longleftrightarrow> v = Used" for v
    using before_end [OF d4(1), of p k Used] rp by simp
  have i5: "heap_inv av B ?C4 F T S w'"
  proof (rule binned [OF i4 r3 label_1 _ un w2u])
    show "label_ok 1 (n - k)" by (simp add: label_ok_def)
    show "flag_ok ?C3 w' ?r (n - k)" unfolding flag_ok_def using br w'(6) by simp
    show "w' (?r + (n - k)) = n - k" using w'(7) pr by simp
    show "\<not> before ?C3 ?r (Binned c)" for c using br by simp
    show "?r + (n - k) \<noteq> T" using m(3) pr by simp
    show "?C3 (?r + (n - k)) \<noteq> Some (m', Binned c)" for m' c using m(4) np cl(5) pr by auto
    fix m' assume "sized ?C3 T S (?r + (n - k)) m'"
    then have s: "sized C T S (p + n) m'" using pr np cl(5) by (auto simp: sized_def)
    then have "m' = m" using m(1) top_not_chunk [OF d(1)] by (auto simp: sized_def)
    have nl: "\<not> link_field av C (p + n + 4)" by (rule sized_field(1) [OF d(1,2) s])
    have "w1 (p + n + 4) = w (p + n + 4)" unfolding w1_def by (rule unlink_same [OF d(1,5) p nl])
    then show "?w2 (?r + (n - k) + 4) = m'" using m(2) \<open>m' = m\<close> np pr by simp
  qed (use w' same' in auto)
  have uk: "leaves (solid C) w w1" "solid ?C1 = solid C" using unlink_keeps(1,2) [OF i p] by (simp_all add: w1_def)
  have k2: "leaves (solid ?C1) w1 w'"
  proof (rule keepsI [OF d1(1,2)])
    fix a assume a: "\<not> harmless av ?C1 T a"
    have lk: "link_field av ?C1 (u + 8)" "link_field av ?C1 (u + 12)"
      using label_1 unsorted_node [of av ?C1] by (auto simp: link_field_def u_def)
    have "a \<noteq> u + 8" "a \<noteq> u + 12" using a lk link_harmless [OF d1(1)] by blast+
    moreover have "own p n x" if "own ?r (n - k) x" for x using that cl(6,7) k(3) by (auto simp: own_def)
    then have "harmless av ?C1 T x" if "own ?r (n - k) x" for x
      using that own_harmless [where C = ?C1, OF p1] by simp
    then have "a \<notin> {?r + 8, ?r + 12, ?r + 4, p + n}" using a ownr by blast
    moreover have "harmless av ?C1 T (p + 4)" using own_harmless [where C = ?C1, OF p1] own_fields(1) [OF d1(1) p1] by simp
    then have "a \<noteq> p + 4" using a by blast
    moreover have "a \<noteq> last_remainder av" using a by (auto simp: harmless_def)
    ultimately show "w' a = w1 a" by (intro same) simp
  qed
  have kp: "leaves (solid C) w w'" by (rule keeps_trans [OF uk(1) k2 [unfolded uk(2)]])
  show ?thesis
  proof (rule grantedI [OF i5 refl _ _ _ _ kp])
    show "tidy ?C4" using t by (auto simp: tidy_def split: if_splits)
    show "k \<le> k" by simp
    show "C p \<noteq> Some (m', Used)" for m' using p by simp
    have "C ?r = None" using cl(3) rp by simp
    then show "?C4 q = Some (m', Used) \<longleftrightarrow> (if q = p then m' = k else C q = Some (m', Used))" for q m'
      using rp by auto
  qed
qed

text \<open>The writes of the code, which meet those of \<open>take_part\<close> because the fields are all different.\<close>

definition split_writes :: "u32 \<Rightarrow> u32 \<Rightarrow> u32 \<Rightarrow> u32 \<Rightarrow> bool \<Rightarrow> words \<Rightarrow> words" where
  "split_writes av p k n small w =
     (let r = p + k; u = unsorted_chunks av;
          w = w(u + 8 := r, u + 12 := r, r + 8 := u, r + 12 := u);
          w = (if small then w(last_remainder av := r) else w)
      in w(p + 4 := k OR 1, r + 4 := (n - k) OR 1, r + (n - k) := n - k))"

lemma part_fields:
  assumes i: "heap_inv av B C F T S w" and p: "C p = Some (n, Binned b)"
    and k: "aligned8 k" "16 \<le> unat k" "unat k + 16 \<le> unat n"
  defines "u \<equiv> unsorted_chunks av" and "r \<equiv> p + k"
  shows "distinct [u + 8, u + 12, r + 8, r + 12, p + 4, r + 4, p + n, last_remainder av]"
proof -
  note d = heap_invD [OF i]
  let ?C1 = "C(p \<mapsto> (n, Loose))"
  have l1: "layout B ?C1 T S" by (rule layout_retag [OF d(1) p]) simp
  have p1: "?C1 p = Some (n, Loose)" by simp
  note cl = cut_layout [OF l1 p1 k, folded r_def]
  define C2 where "C2 = ?C1(p \<mapsto> (k, Loose), r \<mapsto> (n - k, Loose))"
  have l2: "layout B C2 T S" unfolding C2_def by (rule cl(1))
  have rp: "r \<noteq> p" using cl(6) k(2) by auto
  have c2: "C2 p = Some (k, Loose)" "C2 r = Some (n - k, Loose)" using rp by (simp_all add: C2_def)
  have pn: "p + n = r + (n - k)" by (simp add: r_def)
  have pl: "site C2 T p" "site C2 T r" "site C2 T (p + n)"
    using c2 chunk_facts(6) [OF l2 c2(2), folded pn] unfolding site_def by blast+
  have un: "node av C2 1 u" by (simp add: u_def unsorted_node)
  have ru: "r \<noteq> u" using node_use [OF l2 d(2) label_1 un, of "n - k" Loose] c2(2) by auto
  note np = node_place [OF l2 d(2) label_1 un]
  have f0: "p + n \<noteq> u + 8" "p + n \<noteq> u + 12" using np [OF pl(3), of 0] by simp_all
  have f1: "p + 4 \<noteq> u + 8" "p + 4 \<noteq> u + 12" "r + 4 \<noteq> u + 8" "r + 4 \<noteq> u + 12" "r + 8 \<noteq> u + 12" "r + 12 \<noteq> u + 8"
    by (rule np(1) [OF pl(1)] np(2) [OF pl(1)] np(1) [OF pl(2)] np(2) [OF pl(2)]; simp)+
  note fe = field_eq [OF l2]
  have f2: "p + 4 \<noteq> r + 8" "p + 4 \<noteq> r + 12" "p + n \<noteq> r + 4" "p + n \<noteq> r + 8" "p + n \<noteq> r + 12" "p + n \<noteq> p + 4"
    using fe [OF pl(1,2), of 4 8] fe [OF pl(1,2), of 4 12] fe [OF pl(3,2), of 0 4] fe [OF pl(3,2), of 0 8]
      fe [OF pl(3,2), of 0 12] fe [OF pl(3,1), of 0 4] by simp_all
  have o: "888 \<le> off av (p + 4)" "888 \<le> off av (r + 4)" "888 \<le> off av (r + 8)" "888 \<le> off av (r + 12)" "888 \<le> off av (p + n)"
    using place_outside [OF l2 d(2) pl(1), of 4] place_outside [OF l2 d(2) pl(2), of 4] place_outside [OF l2 d(2) pl(2), of 8]
      place_outside [OF l2 d(2) pl(2), of 12] place_outside [OF l2 d(2) pl(3), of 0] by simp_all
  have lr: "last_remainder av \<noteq> x" if "off av x \<noteq> 48" for x by (rule off_neq [of av]) (use that in simp)
  have f3: "last_remainder av \<noteq> p + 4" "last_remainder av \<noteq> r + 4" "last_remainder av \<noteq> r + 8" "last_remainder av \<noteq> r + 12"
    "last_remainder av \<noteq> p + n" "last_remainder av \<noteq> u + 8" "last_remainder av \<noteq> u + 12"
    using o bin_field_off [OF label_1, of av] by (auto intro!: lr simp: u_def unsorted_chunks_def)
  have f4: "r + 8 \<noteq> u + 8" "r + 12 \<noteq> u + 12" "r + 4 \<noteq> p + 4" using ru rp by simp_all
  show ?thesis
    using f0 f1 f2 f3 f4 by (simp add: distinct.simps)
qed

lemma split_granted:
  assumes i: "heap_inv av B C F T S w" and t: "tidy C" and p: "C p = Some (n, Binned b)"
    and k: "aligned8 k" "16 \<le> unat k" "unat k + 16 \<le> unat n"
    and empty: "unlink p w (unsorted_chunks av + 8) = unsorted_chunks av"
  shows "granted av B (unat T + unat S) C w k p (split_writes av p k n small (unlink p w))"
proof -
  have pn: "p + k + (n - k) = p + n" by simp
  note pf = part_fields [OF i p k]
  show ?thesis
    by (rule take_part [OF i t p k empty];
        use pf in \<open>simp add: split_writes_def Let_def pn del: add_diff_cancel_left\<close>)
qed

section \<open>The walks over the bins\<close>

text \<open>Following the links of a ring comes back to where it started.\<close>

lemma orbit:
  fixes f g :: "u32 \<Rightarrow> u32"
  assumes step: "\<And>x. P x \<Longrightarrow> P (f x) \<and> g (f x) = x" and x: "P x"
  shows "\<exists>k. (f ^^ Suc k) x = x"
proof -
  have P: "P ((f ^^ i) x)" for i using step x by (induction i) auto
  have undo: "(g ^^ i) ((f ^^ (i + j)) x) = (f ^^ j) x" for i j
  proof (induction i)
    case (Suc i)
    have "(g ^^ Suc i) ((f ^^ (Suc i + j)) x) = (g ^^ i) (g (f ((f ^^ (i + j)) x)))" by (simp add: funpow_swap1)
    then show ?case using Suc step P by simp
  qed simp
  have "finite (range (\<lambda>i. (f ^^ i) x))" by (rule finite_subset [OF subset_UNIV]) simp
  then have "\<not> inj (\<lambda>i. (f ^^ i) x)" using finite_imageD infinite_UNIV_nat by blast
  then obtain i j where ij: "i < j" "(f ^^ i) x = (f ^^ j) x" unfolding inj_def by (metis linorder_neqE_nat)
  define k where "k = j - i"
  have "(f ^^ k) x = (g ^^ i) ((f ^^ (i + k)) x)" using undo by simp
  also have "\<dots> = (g ^^ i) ((f ^^ (i + 0)) x)" using ij by (simp add: k_def)
  also have "\<dots> = x" using undo [of i 0] by simp
  finally have "(f ^^ k) x = x" .
  moreover have "k = Suc (k - 1)" using ij(1) by (simp add: k_def)
  ultimately show ?thesis by metis
qed

text \<open>The result of a search: a block, or the state as it was.\<close>

definition found_ok :: "u32 \<Rightarrow> u32 \<Rightarrow> nat \<Rightarrow> chunks \<Rightarrow> words \<Rightarrow> u32 \<Rightarrow> u32 option \<times> words \<Rightarrow> bool" where
  "found_ok av B e C w k = (\<lambda>(found, w'). case found of
     None \<Rightarrow> \<exists>C' F' T' S'. heap_inv av B C' F' T' S' w' \<and> unat T' + unat S' = e \<and> tidy C' \<and> used C' = used C \<and>
       (\<forall>q m a. used C q = Some m \<longrightarrow> payload q m a \<longrightarrow> w' a = w a)
   | Some m \<Rightarrow> \<exists>p. m = chunk2mem p \<and> granted av B e C w k p w')"

lemma unsorted_stays:
  assumes i: "heap_inv av B C F T S w" and p: "C p = Some (n, Binned b)" and b: "b \<noteq> 1"
    and empty: "w (unsorted_chunks av + 8) = unsorted_chunks av"
  shows "unlink p w (unsorted_chunks av + 8) = unsorted_chunks av"
proof -
  note d = heap_invD [OF i]
  have l: "label b" by (rule label_chunk [OF d(1) p])
  have pn: "node av C b p" using p by (simp add: node_def)
  have un: "node av C 1 (unsorted_chunks av)" by (rule unsorted_node)
  have "w (p + 12) \<noteq> unsorted_chunks av"
    using node_fields(2) [OF d(1,2) l label_1 ringD(2) [OF d(5) l pn] un] b by auto
  moreover have "unsorted_chunks av + 8 \<noteq> w (p + 8) + 12"
    by (rule node_fields(1) [OF d(1,2) label_1 l un ringD(1) [OF d(5) l pn]])
  ultimately show ?thesis using empty by (simp add: unlink_eq)
qed

lemma search_bin_ok:
  assumes i: "heap_inv av B C F T S w" and t: "tidy C" and k: "aligned8 k" "16 \<le> unat k"
    and b: "label b" "b \<noteq> 1" and empty: "w (unsorted_chunks av + 8) = unsorted_chunks av"
    and node: "node av C b v" and steps: "((\<lambda>x. w (x + 12)) ^^ j) v = bin_at av b"
  shows "\<exists>r. search_bin av k (bin_at av b) v w = Some r \<and> found_ok av B (unat T + unat S) C w k r \<and> (fst r = None \<longrightarrow> snd r = w)"
  using node steps
proof (induction j arbitrary: v)
  case 0
  then have "search_bin av k (bin_at av b) v w = Some (None, w)" by (subst search_bin.simps) simp
  then show ?case using i t by (auto simp: found_ok_def)
next
  case (Suc j)
  note d = heap_invD [OF i]
  show ?case
  proof (cases "v = bin_at av b")
    case True
    then have "search_bin av k (bin_at av b) v w = Some (None, w)" by (subst search_bin.simps) simp
    then show ?thesis using i t by (auto simp: found_ok_def)
  next
    case False
    then obtain n where p: "C v = Some (n, Binned b)" using Suc.prems(1) by (auto simp: node_def)
    obtain m where "chunksize v w = n" by (rule binned_facts [OF i t p]) blast
    then have cs: "chunksize v w = n" .
    show ?thesis
    proof (cases "n \<ge> k")
      case False
      have "search_bin av k (bin_at av b) v w = search_bin av k (bin_at av b) (w (v + 12)) w"
        using \<open>v \<noteq> bin_at av b\<close> False cs by (subst search_bin.simps) (simp add: Let_def)
      moreover have "node av C b (w (v + 12))" by (rule ringD(2) [OF d(5) b(1) Suc.prems(1)])
      moreover have "((\<lambda>x. w (x + 12)) ^^ j) (w (v + 12)) = bin_at av b"
        using Suc.prems(2) by (simp only: funpow_Suc_right o_apply)
      ultimately show ?thesis using Suc.IH by simp
    next
      case True
      show ?thesis
      proof (cases "n - k < 16")
        case small: True
        have "search_bin av k (bin_at av b) v w = Some (Some (chunk2mem v), set_inuse_bit_at_offset v n (unlink v w))"
          using \<open>v \<noteq> bin_at av b\<close> True small cs by (subst search_bin.simps) (simp add: Let_def)
        then show ?thesis using take_whole(1) [OF i t p True] by (auto simp: found_ok_def)
      next
        case big: False
        have kn: "unat k + 16 \<le> unat n" using True big by (simp add: word_less_nat_alt word_le_nat_alt unat_sub)
        have "unlink v w (unsorted_chunks av + 8) = unsorted_chunks av" by (rule unsorted_stays [OF i p b(2) empty])
        note g = split_granted [OF i t p k kn this, of False]
        have "search_bin av k (bin_at av b) v w = Some (Some (chunk2mem v), split_writes av v k n False (unlink v w))"
          using \<open>v \<noteq> bin_at av b\<close> True big cs
          by (subst search_bin.simps) (simp add: Let_def split_chunk_def split_writes_def set_head_def set_foot_def)
        then show ?thesis using g by (auto simp: found_ok_def)
      qed
    qed
  qed
qed

section \<open>The unsorted chunks\<close>

lemma sorted_place_ok:
  assumes r: "rings av C w" and b: "label b" and v: "node av C b v" and steps: "((\<lambda>x. w (x + 8)) ^^ j) v = l"
    and stop: "\<not> k < w (l + 4)"
  shows "\<exists>y. sorted_place k v w = Some y \<and> node av C b y"
  using v steps
proof (induction j arbitrary: v)
  case 0
  then have "sorted_place k v w = Some v" using stop by (subst sorted_place.simps) simp
  then show ?case using 0 by blast
next
  case (Suc j)
  show ?case
  proof (cases "k < w (v + 4)")
    case True
    have "((\<lambda>x. w (x + 8)) ^^ j) (w (v + 8)) = l" using Suc.prems(2) by (simp only: funpow_Suc_right o_apply)
    then show ?thesis using Suc.IH [OF ringD(1) [OF r b Suc.prems(1)]] True by (subst sorted_place.simps) simp
  next
    case False
    then have "sorted_place k v w = Some v" by (subst sorted_place.simps) simp
    then show ?thesis using Suc.prems(1) by blast
  qed
qed

lemma ring_steps:
  assumes r: "rings av C w" and b: "label b" and x: "node av C b x"
  shows "\<exists>j. ((\<lambda>x. w (x + 12)) ^^ j) (w (x + 12)) = x"
    and "w (x + 8) \<noteq> x \<Longrightarrow> \<exists>j. ((\<lambda>x. w (x + 8)) ^^ j) (w (x + 8)) = w (x + 12)"
proof -
  let ?f = "\<lambda>x. w (x + 8)" and ?g = "\<lambda>x. w (x + 12)"
  have "\<exists>j. (?g ^^ Suc j) x = x"
    by (rule orbit [of "node av C b" ?g ?f, OF _ x]) (use ringD [OF r b] in blast)
  then show "\<exists>j. (?g ^^ j) (?g x) = x" by (simp only: funpow_Suc_right o_apply)
  assume ne: "w (x + 8) \<noteq> x"
  have "\<exists>j. (?f ^^ Suc j) x = x"
    by (rule orbit [of "node av C b" ?f ?g, OF _ x]) (use ringD [OF r b] in blast)
  then obtain j where j: "(?f ^^ j) (?f x) = x" by (auto simp only: funpow_Suc_right o_apply)
  have closed: "node av C b ((?f ^^ i) y)" if "node av C b y" for i y
    using that ringD(1) [OF r b] by (induction i) auto
  show "\<exists>j. (?f ^^ j) (?f x) = ?g x"
  proof (cases j)
    case 0
    then show ?thesis using j ne by simp
  next
    case (Suc i)
    define l where "l = (?f ^^ i) (?f x)"
    have "?f l = x" using j Suc by (simp add: l_def)
    moreover have "node av C b l" unfolding l_def by (rule closed [OF ringD(1) [OF r b x]])
    ultimately have "?g x = l" using ringD(3) [OF r b, of l] by simp
    then show ?thesis unfolding l_def by metis
  qed
qed

text \<open>A chunk that was taken from the unsorted ones finds a place in its bin.\<close>

lemma place_found:
  assumes i: "heap_inv av B C F T S w" and b: "b = bin_index n" "label b"
  shows "\<exists>x y. node av C b x \<and> w (x + 8) = y \<and> place_in_bin av p n w = Some ((mark_bin av b w)(p + 12 := x, p + 8 := y, y + 12 := p, x + 8 := p))"
proof -
  note d = heap_invD [OF i]
  let ?x = "bin_at av b"
  have bn: "node av C b ?x" by (simp add: node_def)
  note r = ringD [OF d(5) b(2) bn]
  define put where "put = (\<lambda>(bck, fwd). (mark_bin av b w)(p + 12 := bck, p + 8 := fwd, fwd + 12 := p, bck + 8 := p))"
  have body: "place_in_bin av p n w = map_option put
     (if \<not> in_smallbin_range n \<and> w (?x + 8) \<noteq> ?x then
        (if n < w (w (?x + 12) + 4) then Some (w (?x + 12), ?x)
         else if n \<ge> 256 then map_option (\<lambda>fwd. (w (fwd + 12), fwd)) (sorted_place (n OR 1) (w (?x + 8)) w)
         else Some (?x, w (?x + 8)))
      else Some (?x, w (?x + 8)))"
    unfolding place_in_bin_def Let_def b(1) [symmetric] put_def ..
  have ok: ?thesis if "node av C b x" "w (x + 8) = y" "place_in_bin av p n w = map_option put (Some (x, y))" for x y
    using that unfolding put_def by auto
  show ?thesis
  proof (cases "in_smallbin_range n \<or> w (?x + 8) = ?x")
    case True
    then have c: "\<not> (\<not> in_smallbin_range n \<and> w (?x + 8) \<noteq> ?x)" by blast
    show ?thesis by (rule ok [OF bn refl]) (simp only: body if_not_P [OF c])
  next
    case False
    then have big: "256 \<le> n" and c: "\<not> in_smallbin_range n \<and> w (?x + 8) \<noteq> ?x"
      by (simp_all add: in_smallbin_range_def not_less)
    show ?thesis
    proof (cases "n < w (w (?x + 12) + 4)")
      case True
      show ?thesis by (rule ok [OF r(2) r(4)]) (simp only: body if_P [OF c] if_P [OF True])
    next
      case stop: False
      obtain j where j: "((\<lambda>x. w (x + 8)) ^^ j) (w (?x + 8)) = w (?x + 12)"
        using ring_steps(2) [OF d(5) b(2) bn] c by blast
      have "\<not> n OR 1 < w (w (?x + 12) + 4)" using stop order.strict_trans1 [OF le_word_or2 [of n 1]] by blast
      then obtain y where y: "sorted_place (n OR 1) (w (?x + 8)) w = Some y" "node av C b y"
        using sorted_place_ok [OF d(5) b(2) r(1) j] by blast
      have "place_in_bin av p n w = map_option put (Some (w (y + 12), y))"
        unfolding body if_P [OF c] if_not_P [OF stop] if_P [OF big] y(1) option.map ..
      then show ?thesis by (rule ok [OF ringD(2,4) [OF d(5) b(2) y(2)]])
    qed
  qed
qed

lemma mark_bin_spare: "label b \<Longrightarrow> mark_bin av b w a \<noteq> w a \<Longrightarrow> 820 \<le> off av a \<and> off av a < 832"
proof -
  assume b: "label b" and "mark_bin av b w a \<noteq> w a"
  then have a: "a = binmap av (idx2block b)" by (auto simp: mark_bin_def split: if_splits)
  have "unat (idx2block b) < 3" using b by (simp add: idx2block_def unat_shr label_def less_mult_imp_div_less)
  then show ?thesis using a by simp
qed

lemma placed:
  assumes i: "heap_inv av B C F T S w" and t: "tidy C" and p: "C p = Some (n, Binned c)"
  shows "\<exists>w'. place_in_bin av p n (unlink p w) = Some w' \<and> heap_inv av B (C(p \<mapsto> (n, Binned (bin_index n)))) F T S w' \<and>
    leaves (solid C) w w' \<and> w' (max_fast av) = w (max_fast av)"
proof -
  note d = heap_invD [OF i]
  let ?b = "bin_index n" and ?C1 = "C(p \<mapsto> (n, Loose))"
  let ?w1 = "unlink p w"
  obtain m where m: "sized C T S (p + n) m" "w (p + n + 4) = m" "w (p + 4) = n OR 1" "p + n \<noteq> T"
      "\<And>k c. C (p + n) \<noteq> Some (k, Binned c)" "\<And>c. \<not> before C p (Binned c)" "w (p + n) = n"
    by (rule binned_facts [OF i t p]) blast
  have i1: "heap_inv av B ?C1 F T S ?w1" by (rule unlinked [OF i p])
  note d1 = heap_invD [OF i1]
  have p1: "?C1 p = Some (n, Loose)" by simp
  have b: "label ?b" using bin_index_bounds [OF chunk_facts(4) [OF d(1) p]] by (simp add: label_def)
  obtain x y where x: "node av ?C1 ?b x" "?w1 (x + 8) = y"
      "place_in_bin av p n ?w1 = Some ((mark_bin av ?b ?w1)(p + 12 := x, p + 8 := y, y + 12 := p, x + 8 := p))"
    using place_found [OF i1 refl b] by blast
  let ?w' = "(mark_bin av ?b ?w1)(p + 12 := x, p + 8 := y, y + 12 := p, x + 8 := p)"
  note lf = loose_fields [OF i1 p1 b x(1), unfolded x(2)]
  have np: "p + n \<noteq> p" by (rule not_self_end [OF d(1) p])
  have out: "888 \<le> off av (p + 4)" "888 \<le> off av (p + n)"
    using own_outside [OF d1(1,2) p1] own_fields(1,4) [OF d1(1) p1] by blast+
  have mk: "mark_bin av ?b ?w1 a = ?w1 a" if "888 \<le> off av a \<or> off av a < 820" for a
    by (rule ccontr) (use mark_bin_spare [OF b, of av ?w1 a] that in linarith)
  have nl: "\<not> link_field av C (p + 4)" "\<not> link_field av C (p + n)"
    using sized_field(1) [OF d(1,2) sized_chunk [where C = C, OF p]] sized_field(2) [OF d(1,2) p] by simp_all
  have h4: "?w' (p + 4) = n OR 1" using lf mk [of "p + 4"] out unlink_same [OF d(1,5) p nl(1)] m(3) by simp
  have hn: "?w' (p + n) = n" using lf mk [of "p + n"] out unlink_same [OF d(1,5) p nl(2)] m(7) by simp
  have nb: "\<not> before ?C1 p (Binned c)" for c using m(6) np by (simp add: before_retag [OF d(1) p])
  have "heap_inv av B (?C1(p \<mapsto> (n, Binned ?b))) F T S ?w'"
  proof (rule binned [OF i1 p1 b _ x(1,2)])
    show "label_ok ?b n" by (simp add: label_ok_def)
    show "?w' (p + 8) = y" "?w' (p + 12) = x" "?w' (y + 12) = p" "?w' (x + 8) = p" using lf by simp_all
    show "?w' (p + n) = n" by (rule hn)
    show "flag_ok ?C1 ?w' p n" by (rule head_ok_one [where w = ?w' and n = n, OF nb h4])
    show "\<not> before ?C1 p (Binned c)" for c by (rule nb)
    show "p + n \<noteq> T" by (rule m(4))
    show "?C1 (p + n) \<noteq> Some (k, Binned c)" for k c using m(5) np by simp
    show "?w' a = ?w1 a" if a: "\<not> spare av ?C1 a" "a \<noteq> y + 12" "a \<noteq> x + 8" for a
    proof -
      have "a \<noteq> p + 8" "a \<noteq> p + 12" using a(1) own_fields(2,3) [OF d1(1) p1] p1 unfolding spare_def by blast+
      moreover have "mark_bin av ?b ?w1 a = ?w1 a" using mark_bin_spare [OF b, of av ?w1 a] a(1) unfolding spare_def by blast
      ultimately show ?thesis using a(2,3) by simp
    qed
    fix m' assume "sized ?C1 T S (p + n) m'"
    then have s: "sized C T S (p + n) m'" using np by (auto simp: sized_def)
    then have "m' = m" using m(1) top_not_chunk [OF d(1)] by (auto simp: sized_def)
    then show "?w1 (p + n + 4) = m'" using unlink_same [OF d(1,5) p sized_field(1) [OF d(1,2) s]] m(2) by simp
  qed
  then have inv: "heap_inv av B (C(p \<mapsto> (n, Binned ?b))) F T S ?w'" by simp
  have uk: "leaves (solid C) w ?w1" "solid ?C1 = solid C" using unlink_keeps(1,2) [OF i p] by blast+
  have yn: "node av ?C1 ?b y" using ringD(1) [OF d1(5) b x(1)] x(2) by simp
  have "leaves (solid ?C1) ?w1 ?w'"
  proof (rule keepsI [OF d1(1,2)])
    fix a assume a: "\<not> harmless av ?C1 T a"
    have "link_field av ?C1 (y + 12)" "link_field av ?C1 (x + 8)"
      using b x(1) yn by (auto simp: link_field_def)
    then have "a \<noteq> y + 12" "a \<noteq> x + 8" using a link_harmless [OF d1(1)] by blast+
    moreover have "a \<noteq> p + 8" "a \<noteq> p + 12"
      using a own_harmless [where C = ?C1, OF p1] own_fields(2,3) [OF d1(1) p1] by auto
    moreover have "888 \<le> off av a" using a unfolding harmless_def by (meson not_le)
    ultimately show "?w' a = ?w1 a" using mk [of a] by simp
  qed
  then have "leaves (solid C) w ?w'" using keeps_trans [OF uk(1)] uk(2) by simp
  moreover have "?w' (max_fast av) = w (max_fast av)"
  proof -
    have "off av a \<noteq> 0" if "a \<in> {p + 12, p + 8, y + 12, x + 8}" for a
      using that node_off(1) [OF d1(1,2) b x(1)] node_off(2) [OF d1(1,2) b yn]
        own_outside [OF d1(1,2) p1 own_fields(2) [OF d1(1) p1]] own_outside [OF d1(1,2) p1 own_fields(3) [OF d1(1) p1]] by auto
    from this [of "max_fast av"] have "max_fast av \<notin> {p + 12, p + 8, y + 12, x + 8}" by auto
    then show ?thesis using mk [of "max_fast av"] unlink_keeps(3) [OF i p] by simp
  qed
  ultimately show ?thesis using x(3) inv by blast
qed

end
