(* ===== verification/Spec2Isabelle.thy ===== *)
theory Spec2Isabelle
  imports Demo Printf CMemory CString TextStore UserApps Shm Console Kbd Utf8 Math Shell Startup Sbrk Ps Debugger MallocSearch
begin

text \<open>
  dominOS, a small kernel for 32-bit x86 processors, with the library it shares with its applications.

  \<^bold>\<open>The program and its parts.\<close> A multiboot loader enters \<open>boot()\<close> (\<open>kernel/boot/boot.c\<close>), which sets up
  the processor's tables and a first page directory and calls \<open>kernel_start()\<close> (\<open>kernel/startup.c\<close>); that
  registers the interrupt handlers and creates the idle process, which starts the shell. From then on
  the kernel only runs when a process makes a system call, a key is pressed, the clock ticks or a page
  is missing. Processes are tasks on intrusive queues, one queue per state; \<open>schedule()\<close> runs the task of
  the highest priority. A call that has to wait puts its task on a queue and calls \<open>schedule()\<close> in the
  middle of a function; the rest of that function runs when the task is elected again.

  \<^bold>\<open>Which theory models what.\<close> Every definition is at the top level, in the order of the source, and is a
  function that computes; an error of the source is a value (\<open>kerr\<close> in Prelude): a failed assertion or a
  call of \<open>panic\<close>, a null pointer or a freed structure that is followed, an access outside an array, a
  division fault, a loop without an end.

  \<^item> Tasks. LinkHeap is \<open>shared/queue.h\<close> on a heap of links, LinkQueue the same operations on lists, with
    the contract \<open>intrusive_queues\<close> the kernel relies on and the proof that the pointers implement the
    lists. PidAllocator is \<open>kernel/pid_allocator.c\<close>. Task is \<open>kernel/task.c\<close> and \<open>clock.c\<close>: the state of
    the kernel \<open>kst\<close>, the moves between the queues, \<open>schedule\<close>. Msg is \<open>kernel/msg.c\<close>; Process is
    \<open>exit.c\<close>, \<open>kill.c\<close>, \<open>wait.c\<close>, \<open>prio.c\<close> and \<open>pid.c\<close>; StartTask is \<open>start.c\<close>; Ps the listings of \<open>task.c\<close>.
    What is left of a suspended function is the continuation \<open>t_kont\<close> of its task; KernelMachine is the
    transition relation in which calls, faults, ticks and resumptions interleave in any order.
  \<^item> Memory. PageAllocator is the buddy allocator of \<open>kernel/page_allocator.c\<close>, Paging is \<open>paging.c\<close> on a
    memory of words with the address translation \<open>mmu\<close> of the processor as its specification, Shm is
    \<open>shm.c\<close>, Sbrk the two program breaks of \<open>kernel/mem.c\<close> and \<open>user/lib/sbrk.c\<close>. Malloc is the allocator on
    top of them, \<open>malloc\<close> and \<open>free\<close> of \<open>shared/malloc.c\<close> with the wrappers \<open>mem_alloc\<close> and \<open>mem_free\<close>, on a
    memory of words that holds the lists of free chunks; MallocHeap is its invariant and the steps that
    keep it, MallocOps and MallocSearch are \<open>free\<close> and \<open>malloc\<close> composed of these steps.
  \<^item> Start-up. EarlyMM is \<open>kernel/boot/early_mm.c\<close>, Descriptors and CpuInit are \<open>processor_structs.c\<close>,
    \<open>interrupts.c\<close>, \<open>pic.c\<close> and the registration of the handlers, Startup is \<open>boot.c\<close>, \<open>multiboot.c\<close> and
    \<open>startup.c\<close>, which compose all of these with Boot, the first process.
  \<^item> Input and output. Console is \<open>kernel/cga.c\<close>; Scancode, Keymap, Bitops and Keyboard are the keyboard
    driver under \<open>kernel/kbd-linux\<close> with its glue; Kbd is the ring between it and \<open>cons_read\<close>
    (\<open>kernel/kbd.c\<close>); Doprnt and Printf are \<open>shared/doprnt.c\<close>, \<open>printf.c\<close> and \<open>sprintf.c\<close>.
  \<^item> Library. CMemory and CString are \<open>shared/string.c\<close> on a memory of bytes, Strtol is \<open>strtol.c\<close> and
    \<open>strtoul.c\<close>, Math is \<open>div64.c\<close> and the arithmetic of the test library, HashTable is \<open>kernel/hash.c\<close>,
    UserApps is \<open>userspace_apps.c\<close>.
  \<^item> Applications. Syscalls is the way of a system call, from \<open>user/lib/syscall.c\<close> over \<open>syscall_asm.S\<close> to
    the table of \<open>syscall_handler.c\<close>; Shell is \<open>user/shell/main.c\<close>.
  \<^item> Debugging. GdbPacket and GdbStub are the stub for a remote debugger (\<open>kernel/gdb_serial.c\<close>): packets
    on a serial line that is a list of bytes to come and a list of bytes sent, and the commands as a
    function of the stub's state. GdbMemory is its access to the memory of the program
    (\<open>gdb_serial_support.c\<close>), Debugger the trap handler with the form of registers (\<open>debugger.c\<close>) and the
    polling of the serial port (\<open>serial.c\<close>).

  \<^bold>\<open>Interfaces.\<close> A part that relies on another does so through a locale, which is interpreted on the
  definitions of the part that provides it: \<open>intrusive_queues\<close> (LinkQueue), the bounded channel of Channel
  (the message queues in MsgSpec, the ring of the keyboard in Kbd), \<open>hash_keys\<close> and the store of texts
  (HashSpec and TextStore, for the tables of applications and of shared pages), \<open>program_break\<close> (Sbrk).

  \<^bold>\<open>What the lemmas show.\<close> KernelInv states the invariant \<open>kinv\<close> of the task structures and MsgInv the
  invariant \<open>minv\<close> of suspended calls; KernelOps and ProcessOps show that every call keeps them, whatever
  it returns, and MsgSpec and ProcessSpec what the calls compute. The properties of this theory are
  about the kernel as a whole: the invariants hold in every state reached from the boot, no call
  panics but in the ways stated, the scheduler elects the highest priority, messages arrive whole and in
  order. The properties of the components stand in their theories: refinements (queues, hash table,
  console), round trips (pages, shared pages, printing and reading numbers, UTF-8), exact effects
  (address translation, descriptor tables, system calls), memory safety (keyboard driver) and
  termination; a dialogue of the debugger is the sequence of its commands. Where the code does not do what its comments or its interface promise, the theorem states
  what it does do. Demo holds the small running systems on which the properties are seen not to be
  vacuous.

  \<^bold>\<open>Loops.\<close> A loop that counts is recursion on its counter, other loops come with a measure. The walk over
  a string, a list of links or a probe sequence, which need not end, is a partial function whose result
  is \<open>None\<close> when it does not, and it is proved to end where it does: on every string with a null byte,
  every queue, every table with an empty slot. No definition needs fuel.

  \<^bold>\<open>What is not modelled.\<close> In the theories of the operations that allocate, \<open>mem_alloc\<close> is an
  argument: it gives a block nobody else has or fails. Of \<open>shared/malloc.c\<close> the functions that nothing
  here calls (\<open>realloc\<close>, \<open>calloc\<close>, \<open>memalign\<close>, statistics) and the code for \<open>mmap\<close>, locks and debugging, which
  the file switches off, are left out. Of the stub for a remote
  debugger the branches for thread callbacks are left out, which no caller passes. The assembly that saves and restores registers (\<open>isr.S\<close>, \<open>swtch.S\<close>, \<open>usermode.S\<close>,
  \<open>crt0.S\<close>) and the code that runs in real mode are not modelled; a switch of context is the choice of
  the task whose continuation runs. Devices are arguments or logs of the bytes sent to ports. The
  applications other than the shell, most of them tests, use only the system calls.
\<close>

section \<open>The kernel as a whole\<close>


lemma demo_getpid: "reachable app_of pgdir demo (put_task t_shell (demo_shell\<lparr>t_kont := K_user, t_ret := 1, t_out := None\<rparr>) demo)"
proof (rule r_step [OF r_init])
  have "fresh_block 0 demo"
    by (simp add: fresh_block_def demo_kids_def t_idle_def t_shell_def t_sleep_def)
  moreover have "syscall app_of pgdir 0 0 C_getpid demo = Inr (put_task t_shell (demo_shell\<lparr>t_kont := K_user, t_ret := 1, t_out := None\<rparr>) demo)"
    by (simp add: getpid_def return_user_def)
  ultimately show "step app_of pgdir demo (put_task t_shell (demo_shell\<lparr>t_kont := K_user, t_ret := 1, t_out := None\<rparr>) demo)"
    by (rule s_call [OF demo_user])
qed


text \<open>
  C2. The invariant holds when the machine starts: \<open>start_idle\<close>, called by \<open>kernel_start\<close> on a kernel
  without tasks, panics, runs out of memory, or leaves the idle process running with identifier 0 in
  a kernel that satisfies both invariants.
\<close>

theorem boot_establishes_the_invariant:
  "case start_idle app_of pgdir t ks (boot m) of
     Inl e \<Rightarrow> True
   | Inr k \<Rightarrow> kinv k \<and> minv k \<and> running_task k = Some t \<and> idle_task k = Some t \<and> (\<exists>x. tasks k t = Some x \<and> t_pid x = 0)"
proof (cases "start_idle app_of pgdir t ks (boot m)")
  case (Inr k)
  obtain x m' where "k = idling t x (pidmap_init[0 := 1]) m'" "t_pid x = 0"
    by (rule start_idle_boot [OF Inr])
  then show ?thesis using Inr start_idle_inv [OF Inr] by (simp add: idling_def)
qed simp




definition waking_receiver :: kst where
  "waking_receiver = put_task t_shell (demo_shell\<lparr>t_kont := K_preceive 5 0 True, t_msg_val := - 1\<rparr>) demo"

lemma waking_receiver_inv: "kinv waking_receiver" "minv waking_receiver" "\<not> user_mode waking_receiver"
proof -
  show "kinv waking_receiver" unfolding waking_receiver_def by (rule kinv_put [OF kinv_demo, where x = demo_shell]) simp_all
  show "\<not> user_mode waking_receiver" by (simp add: user_mode_def running_kont_def waking_receiver_def)
  show "minv waking_receiver"
    unfolding minv_def
  proof (intro conjI allI impI)
    show "kont_ok waking_receiver t x" if "tasks waking_receiver t = Some x" for t x
      using that by (auto simp: waking_receiver_def kont_ok_def sending_def receiving_def demo_sq_def split: if_splits)
    show "queues_ok waking_receiver" by (auto simp: waking_receiver_def queues_ok_def demo_sq_def)
  qed (simp add: waking_receiver_def)
qed


section \<open>Scheduling\<close>

text \<open>
  C5. \<open>schedule\<close> (\<open>kernel/task.c\<close>), called from any state a kernel call may leave, either returns with
  the whole task structure well formed and a task running that no ready task exceeds in priority,
  or it failed on a freed parent or inside the page allocator; it never panics and never follows a
  null pointer.
\<close>

theorem schedule_elects_the_highest:
  assumes "kinv0 k"
  shows "case schedule k of
      Inl e \<Rightarrow> e = Use_After_Free \<or> e = Out_Of_Bounds
    | Inr k' \<Rightarrow> kinv k' \<and>
        (\<exists>c. running_task k' = Some c \<and> (\<forall>t\<in>set (qlist (sq k') Q_ready). prio_of k' t \<le> prio_of k' c))"
  using schedule_cases [OF assms] unfolding highest_runs_def .

theorem schedule_elects_the_highest_witness:
  "kinv0 demo \<and> (case schedule demo of
      Inl e \<Rightarrow> e = Use_After_Free \<or> e = Out_Of_Bounds
    | Inr k' \<Rightarrow> kinv k' \<and>
        (\<exists>c. running_task k' = Some c \<and> (\<forall>t\<in>set (qlist (sq k') Q_ready). prio_of k' t \<le> prio_of k' c)))"
  using schedule_elects_the_highest [OF kinv_kinv0 [OF kinv_demo]] kinv_kinv0 [OF kinv_demo] by blast

text \<open>
  \<open>wait_clock(t)\<close> with a time that is not in the future panics: the caller is put to sleep, the
  \<open>schedule\<close> that follows wakes it at once, takes the sleeping running task for one that is on no
  queue, and the \<open>assert\<close> of \<open>queue_add\<close> fails. Any process can stop the machine this way.
\<close>

theorem wait_clock_in_the_past_panics:
  assumes "kinv k" and "running_task k \<noteq> idle_task k" and "clock \<le> current_clock k"
  shows "wait_clock clock k = Inl Panic"
proof -
  obtain c where "running_task k = Some c" using kinv_current [OF assms(1)] by blast
  then show ?thesis using assms wait_clock_late [OF assms(1)] by (simp add: current_clock_def)
qed

theorem wait_clock_in_the_past_panics_witness: "wait_clock 3 demo = Inl Panic"
  by (rule wait_clock_in_the_past_panics [OF kinv_demo]) (simp_all add: current_clock_def)


section \<open>Messages\<close>

text \<open>
  C6. A message queue is a first-in first-out channel: messages other than -1 sent while there is room
  are received whole, in order, after those that were already waiting, and the queue is empty at the
  end.
\<close>

theorem queue_round_trip:
  assumes "kinv k" and "\<not> heap_full k" and "slot_ok i" and "mqueues k (nat i) = Some q"
    and "qlist (sq k) (receivers i) = []" and "qlist (sq k) (senders i) = []"
    and "length (mq_msgs q) + length vs \<le> unat (mq_size q)" and "- 1 \<notin> set vs"
  shows "\<exists>k1 k2 k3. foldE (psend i) vs k = Inr k1 \<and>
    receive_n (receive_msg i) (length (mq_msgs q)) k1 = Inr (mq_msgs q, k2) \<and>
    receive_n (receive_msg i) (length vs) k2 = Inr (vs, k3) \<and> channel i k3 [] (unat (mq_size q))"
  by (rule kq.round_trip) (use assms in \<open>auto simp: channel_def\<close>)

theorem queue_round_trip_witness:
  "\<exists>k1 k2 k3. foldE (psend 0) [5] busy = Inr k1 \<and> receive_n (receive_msg 0) 1 k1 = Inr ([7], k2) \<and>
    receive_n (receive_msg 0) 1 k2 = Inr ([5], k3) \<and> channel 0 k3 [] 2"
  using queue_round_trip [OF kinv_busy, of 0 demo_queue "[5]"]
  by (simp add: slot_ok_def nbqueue_def receivers_def senders_def busy_sq_def demo_queue_def)

text \<open>
  C7. \<open>psend\<close> to a queue somebody waits to receive from: the message goes straight to the waiting
  process of the highest priority, which becomes ready; the queue itself does not change, and the
  sender is preempted exactly when the receiver's priority is higher.
\<close>

theorem psend_serves_the_first_receiver:
  assumes "kinv k" and "slot_ok i" and "mqueues k (nat i) = Some q"
    and "running_task k = Some c" and "tasks k c = Some x"
    and "qlist (sq k) (receivers i) \<noteq> []" and "w = last (qlist (sq k) (receivers i))" and "tasks k w = Some y"
  shows "(\<forall>t\<in>set (qlist (sq k) (receivers i)). prio_of k t \<le> prio_of k w) \<and>
   (\<exists>k1. psend i m k = (if t_priority y > t_priority x then schedule k1 else Inr k1) \<and> kinv k1 \<and>
    tasks k1 w = Some (y\<lparr>t_msg_val := m, t_state := Ready\<rparr>) \<and> tasks k1 c = Some (x\<lparr>t_kont := K_ret 0\<rparr>) \<and>
    mqueues k1 = mqueues k)"
  using psend_hands_over [OF assms] take_waiter_last(2) [OF assms(1,6)] assms(7) by blast

theorem psend_serves_the_first_receiver_witness:
  "\<exists>k1. psend 1 6 busy = schedule k1 \<and> kinv k1 \<and> tasks k1 t_recv = Some (busy_recv\<lparr>t_msg_val := 6, t_state := Ready\<rparr>)"
  using psend_serves_the_first_receiver [OF kinv_busy, of 1 _ t_shell demo_shell t_recv busy_recv 6]
  by (auto simp: slot_ok_def nbqueue_def receivers_def busy_sq_def)

text \<open>
  C8. \<open>preceive\<close> from a full queue that processes wait to send to: the oldest message is taken, the
  message of the waiting sender of the highest priority enters the queue behind the others, that
  sender becomes ready, and the receiver is preempted exactly when the sender's priority is higher.
\<close>

theorem preceive_admits_the_first_sender:
  assumes "kinv k" and "minv k" and "slot_ok i" and "mqueues k (nat i) = Some q"
    and "running_task k = Some c" and "tasks k c = Some x"
    and "qlist (sq k) (senders i) \<noteq> []" and "mq_size q \<noteq> 0"
    and "w = last (qlist (sq k) (senders i))" and "tasks k w = Some y"
  shows "\<exists>k1. preceive i want k = (if t_priority y > t_priority x then schedule k1 else Inr k1) \<and> kinv k1 \<and>
    tasks k1 w = Some (y\<lparr>t_msg_val := - 1, t_state := Ready\<rparr>) \<and>
    tasks k1 c = Some (x\<lparr>t_msg_val := - 1, t_kont := K_preceive_out (hd (mq_msgs q)) want\<rparr>) \<and>
    mqueues k1 = (mqueues k)(nat i := Some (q\<lparr>mq_msgs := tl (mq_msgs q) @ [t_msg_val y]\<rparr>))"
  by (rule preceive_lets_sender_in [OF assms])

theorem preceive_admits_the_first_sender_witness:
  "\<exists>k1. preceive 2 True busy = schedule k1 \<and> kinv k1 \<and>
    tasks k1 t_send = Some (busy_send\<lparr>t_msg_val := - 1, t_state := Ready\<rparr>) \<and>
    tasks k1 t_shell = Some (demo_shell\<lparr>t_msg_val := - 1, t_kont := K_preceive_out 9 True\<rparr>)"
  using preceive_admits_the_first_sender [OF kinv_busy minv_busy, of 2 _ t_shell demo_shell t_send busy_send True]
  by (auto simp: slot_ok_def nbqueue_def senders_def busy_sq_def)

text \<open>
  A process blocked in \<open>psend\<close> or \<open>preceive\<close> whose queue was deleted does not return -1 when it
  runs again: the loop reads the state of the queue through the pointer \<open>pdelete\<close> has cleared. The
  page fault handler then ends the process.
\<close>

theorem deleted_queue_faults:
  assumes "running_task k = Some c" and "tasks k c = Some x" and "slot_ok i" and "mqueues k (nat i) = None"
    and "t_kont x = K_psend i m r \<or> t_kont x = K_preceive i r want"
  shows "resume k = Inl Null_Deref"
  using assms by (auto simp: resume_def current_task_def psend_loop_deleted preceive_loop_deleted)

theorem deleted_queue_faults_witness: "resume waking_receiver = Inl Null_Deref"
  by (rule deleted_queue_faults [where c = t_shell and x = "demo_shell\<lparr>t_kont := K_preceive 5 0 True, t_msg_val := - 1\<rparr>" and i = 5 and m = 0 and r = 0 and want = True])
    (simp_all add: waking_receiver_def slot_ok_def nbqueue_def)

text \<open>
  The counter of resets is shared by all queues: a sender that was let go on (its message has
  been taken, there is room again) still returns -1 when any queue was reset or deleted since its
  call began, although its own queue was not.
\<close>

theorem reset_elsewhere_fails_psend:
  assumes "running_task k = Some c" and "tasks k c = Some x" and "t_kont x = K_psend i m r" and "t_msg_val x = - 1"
    and "slot_ok i" and "mqueues k (nat i) = Some q" and "r < cpt_rst k"
  shows "resume k = return_user (- 1) None k"
  using assms by (simp add: resume_def current_task_def psend_loop_def mqueue_full_def get_mqueue_used
      psend_rest_def mqueue_unused_def get_slot_def)

theorem reset_elsewhere_fails_psend_witness:
  "let k = (put_task t_shell (demo_shell\<lparr>t_kont := K_psend 0 4 0, t_msg_val := - 1\<rparr>) demo)\<lparr>cpt_rst := 1\<rparr>
   in mqueues k 0 = Some demo_queue \<and> resume k = return_user (- 1) None k"
  using reset_elsewhere_fails_psend [of "(put_task t_shell (demo_shell\<lparr>t_kont := K_psend 0 4 0, t_msg_val := - 1\<rparr>) demo)\<lparr>cpt_rst := 1\<rparr>"
      t_shell "demo_shell\<lparr>t_kont := K_psend 0 4 0, t_msg_val := - 1\<rparr>" 0 4 0 demo_queue]
  by (simp add: slot_ok_def nbqueue_def)

text \<open>
  \<open>preset\<close> makes the queue again with its number of messages as its capacity, not with the
  capacity it had.
\<close>

theorem preset_shrinks_the_queue:
  assumes "kinv k" and "\<not> heap_full k" and "slot_ok i" and "mqueues k (nat i) = Some q"
  shows "\<exists>k'. preset i k = Inr (0, k') \<and> kinv k' \<and>
    mqueues k' (nat i) = Some \<lparr>mq_msgs = [], mq_size = mq_count q, mq_count = 0\<rparr>"
  using preset_ok [OF assms(1-3)] assms(4) by blast

theorem preset_shrinks_the_queue_witness:
  "mq_size demo_queue = 2 \<and> (\<exists>k'. preset 0 demo = Inr (0, k') \<and> kinv k' \<and>
    mqueues k' 0 = Some \<lparr>mq_msgs = [], mq_size = 1, mq_count = 0\<rparr>)"
  using preset_shrinks_the_queue [OF kinv_demo, of 0 demo_queue]
  by (simp add: slot_ok_def nbqueue_def demo_queue_def)

text \<open>
  The value -1 cannot be sent: \<open>psend\<close> reports success and the queue is as before.
\<close>

theorem minus_one_is_lost:
  assumes "running_task k = Some c" and "tasks k c = Some x" and "slot_ok i" and "mqueues k (nat i) = Some q"
    and "qlist (sq k) (receivers i) = []"
  shows "\<exists>k'. psend i (- 1) k = Inr k' \<and> mqueues k' = mqueues k \<and> (\<exists>y. tasks k' c = Some y \<and> t_kont y = K_user \<and> t_ret y = 0)"
  using psend_minus_one [OF assms] by simp

theorem minus_one_is_lost_witness: "\<exists>k'. psend 0 (- 1) demo = Inr k' \<and> mqueues k' = mqueues demo"
  using minus_one_is_lost [of demo t_shell demo_shell 0 demo_queue]
  by (auto simp: slot_ok_def nbqueue_def receivers_def demo_sq_def)

section \<open>Processes\<close>

text \<open>
  C9. \<open>__exit_task\<close> on a living process other than the idle one leaves a zombie with the return value,
  gives its identifier back, keeps the kernel consistent, and fails only where the parent of the
  process has already been freed; on the idle process it returns an error and does nothing.
\<close>

theorem exit_leaves_a_zombie:
  assumes "kinv k" and "tasks k t = Some x" and "t_state x \<noteq> Zombie" and "t_state x \<noteq> Startup"
  shows "case exit_task (Some t) r k of
      Inl e \<Rightarrow> e = Use_After_Free \<and> tasks k (the (t_parent x)) = None
    | Inr (v, k') \<Rightarrow> if idle_task k = Some t then v = - einval \<and> k' = k
        else v = 0 \<and> kinv0 k' \<and> t_pid x \<notin> pids_used (kpids k') \<and>
          (\<exists>y. tasks k' t = Some y \<and> t_state y = Zombie \<and> t_retval y = r \<and> t_pid y = t_pid x)"
proof -
  have "alive (t_state x)" using assms by (simp add: alive_def)
  note e = exit_task_ok [OF assms(1,2) this, of r]
  show ?thesis
  proof (cases "exit_task (Some t) r k")
    case (Inr p)
    then show ?thesis using e by (cases p; cases "idle_task k = Some t") (auto simp: dead_def)
  qed (use e in simp)
qed

theorem exit_leaves_a_zombie_witness:
  "case exit_task (Some t_sleep) 9 demo of
      Inl e \<Rightarrow> e = Use_After_Free \<and> tasks demo (the (t_parent demo_sleep)) = None
    | Inr (v, k') \<Rightarrow> if idle_task demo = Some t_sleep then v = - einval \<and> k' = demo
        else v = 0 \<and> kinv0 k' \<and> t_pid demo_sleep \<notin> pids_used (kpids k') \<and>
          (\<exists>y. tasks k' t_sleep = Some y \<and> t_state y = Zombie \<and> t_retval y = 9 \<and> t_pid y = t_pid demo_sleep)"
  by (rule exit_leaves_a_zombie [OF kinv_demo]) simp_all

text \<open>
  \<open>waitpid\<close> for any child, called by a process with a zombie child, returns at once with the
  identifier and the return value of such a child, and that child's structure is freed.
\<close>

theorem waitpid_collects_a_zombie:
  assumes "kinv k" and "running_task k = Some c"
    and "u \<in> set (qlist (kids k) c)" and "tasks k u = Some z" and "t_state z = Zombie"
  shows "case wait_any_child want k of
      Inl e \<Rightarrow> e = Use_After_Free \<or> e = Out_Of_Bounds
    | Inr k' \<Rightarrow> \<exists>t x y. t \<in> set (qlist (kids k) c) \<and> tasks k t = Some x \<and> t_state x = Zombie \<and> tasks k' t = None \<and>
        tasks k' c = Some y \<and> t_ret y = t_pid x \<and> t_out y = (if want then Some (t_retval x) else None)"
proof -
  have z: "\<exists>u\<in>set (qlist (kids k) c). map_option t_state (tasks k u) = Some Zombie" using assms by force
  show ?thesis
    using wait_any_child_result [OF assms(1,2) z] wait_any_child_error [OF assms(1,2) z]
    by (cases "wait_any_child want k") simp_all
qed

theorem waitpid_collects_a_zombie_witness:
  "case wait_any_child True busy of
      Inl e \<Rightarrow> e = Use_After_Free \<or> e = Out_Of_Bounds
    | Inr k' \<Rightarrow> \<exists>t x y. t \<in> set (qlist (kids busy) t_shell) \<and> tasks busy t = Some x \<and> t_state x = Zombie \<and> tasks k' t = None \<and>
        tasks k' t_shell = Some y \<and> t_ret y = t_pid x \<and> t_out y = (if True then Some (t_retval x) else None)"
  by (rule waitpid_collects_a_zombie [OF kinv_busy, where u = t_gone and z = busy_gone]) (simp_all add: busy_kids_def)

text \<open>
  \<open>chprio\<close> of a living process to a priority in range gives that process the new priority, sorts
  it again into the queue it is in, in a kernel that stays consistent, and returns the old priority,
  at once or after a \<open>schedule\<close>.
\<close>

theorem chprio_returns_the_old_priority:
  assumes "kinv k" and "running_task k \<noteq> idle_task k" and "tasks k t = Some x"
    and "t_state x \<noteq> Zombie" and "t_state x \<noteq> Startup" and "idle_task k \<noteq> Some t"
    and "min_prio \<le> prio" and "prio \<le> max_prio"
  shows "\<exists>k1 r. kinv k1 \<and> tasks k1 = (tasks k)(t := Some (x\<lparr>t_priority := prio\<rparr>)) \<and> qlink (sq k1) = qlink (sq k) \<and>
    (chprio (t_pid x) prio k = return_user (t_priority x) None k1 \<or>
     chprio (t_pid x) prio k = schedule_then r k1 \<and> (r = K_ret (t_priority x) \<or> (\<exists>u p. r = K_chprio u p (t_priority x))))"
proof -
  have "alive (t_state x)" using assms by (simp add: alive_def)
  then show ?thesis
    using chprio_outcome [OF assms(1-3) _ assms(6-8)] unfolding will_return_def by blast
qed

theorem chprio_returns_the_old_priority_witness:
  "\<exists>k1 r. kinv k1 \<and> tasks k1 = (tasks demo)(t_sleep := Some (demo_sleep\<lparr>t_priority := 9\<rparr>)) \<and> qlink (sq k1) = qlink (sq demo) \<and>
    (chprio 2 9 demo = return_user 5 None k1 \<or>
     chprio 2 9 demo = schedule_then r k1 \<and> (r = K_ret 5 \<or> (\<exists>u p. r = K_chprio u p 5)))"
  using chprio_returns_the_old_priority [OF kinv_demo, of t_sleep demo_sleep 9]
  by (simp add: min_prio_def max_prio_def)


text \<open>
  C10. \<open>start\<close> with a stack above the limit, an unknown program or a priority out of range returns
  -EINVAL and does nothing else. Otherwise it either returns an error and creates no process, or
  there is exactly one more process, ready to run, child of the caller, with the priority asked for
  and an identifier no process has; in both cases the kernel is consistent.
\<close>

theorem start_creates_one_process:
  assumes inv: "kinv k" and f: "fresh_block t k"
  shows "if ssize > ustack_sz_max \<or> app_of name = None \<or> prio > max_prio \<or> prio < min_prio
    then start app_of pgdir name ssize prio arg t ks k = return_user (- einval) None k
    else case start app_of pgdir name ssize prio arg t ks k of
      Inl e \<Rightarrow> True
    | Inr k' \<Rightarrow> kinv k' \<and>
        ((\<exists>e k1. return_user e None k1 = Inr k' \<and> tasks k1 = tasks k) \<or>
         (\<exists>k1 z. kinv k1 \<and> tasks k1 = (tasks k)(t := Some z) \<and> t_state z = Ready \<and> t_priority z = prio \<and>
            t_parent z = running_task k \<and> t_pid z \<notin> pids_used (kpids k) \<and>
            (schedule_then (K_start t) k1 = Inr k' \<or> set_kont (K_start t) k1 = Inr k')))"
proof (cases "ssize > ustack_sz_max \<or> app_of name = None \<or> prio > max_prio \<or> prio < min_prio")
  case True
  then have "start_task app_of pgdir name ssize prio arg t ks k = Inr (Inl (- einval), k)"
    by (auto simp: start_task_def split: option.split)
  then show ?thesis using True by (simp add: start_def)
next
  case False
  have "kinv k' \<and> ((\<exists>e k1. return_user e None k1 = Inr k' \<and> tasks k1 = tasks k) \<or>
         (\<exists>k1 z. kinv k1 \<and> tasks k1 = (tasks k)(t := Some z) \<and> t_state z = Ready \<and> t_priority z = prio \<and>
            t_parent z = running_task k \<and> t_pid z \<notin> pids_used (kpids k) \<and>
            (schedule_then (K_start t) k1 = Inr k' \<or> set_kont (K_start t) k1 = Inr k')))"
    if run: "start app_of pgdir name ssize prio arg t ks k = Inr k'" for k'
  proof (cases rule: start_cases [OF inv f run])
    case (1 e k1)
    moreover have "tasks k1 = tasks k" using 1(3) by auto
    ultimately show ?thesis using start_keeps [OF inv f run] by blast
  next
    case (2 z m s mem g)
    let ?k1 = "born t z m s mem g k"
    have "tasks ?k1 = (tasks k)(t := Some (z\<lparr>t_state := Ready\<rparr>))" by (simp add: born_def)
    then show ?thesis using 2 start_keeps [OF inv f run]
      by (intro conjI [OF _ disjI2] exI [where x = ?k1] exI [where x = "z\<lparr>t_state := Ready\<rparr>"]) simp_all
  qed
  then show ?thesis unfolding if_not_P [OF False]
    by (cases "start app_of pgdir name ssize prio arg t ks k") simp_all
qed

theorem start_creates_one_process_witness:
  "case start (\<lambda>_. Some \<lparr>app_start = 0x100000, app_end = 0x1000FF\<rparr>) 0 [] 256 5 0 0x300000 0 demo of
      Inl e \<Rightarrow> True
    | Inr k' \<Rightarrow> kinv k' \<and>
        ((\<exists>e k1. return_user e None k1 = Inr k' \<and> tasks k1 = tasks demo) \<or>
         (\<exists>k1 z. kinv k1 \<and> tasks k1 = (tasks demo)(0x300000 := Some z) \<and> t_state z = Ready \<and> t_priority z = 5 \<and>
            t_parent z = running_task demo \<and> t_pid z \<notin> pids_used (kpids demo) \<and>
            (schedule_then (K_start 0x300000) k1 = Inr k' \<or> set_kont (K_start 0x300000) k1 = Inr k')))"
proof -
  have "fresh_block 0x300000 demo" by (simp add: fresh_block_def demo_kids_def t_idle_def t_shell_def t_sleep_def)
  then show ?thesis
    using start_creates_one_process [OF kinv_demo, of "0x300000" 256 "\<lambda>_. Some \<lparr>app_start = 0x100000, app_end = 0x1000FF\<rparr>" "[]" 5 0 0 0]
    by (simp add: ustack_sz_max_def max_prio_def min_prio_def del: demo_simps)
qed

end
